(* ===== verification/Prelude.thy ===== *)
theory Prelude
  imports Main "HOL-Library.Word"
begin

text \<open>
  Shared vocabulary of the development: the C integer types as words, the outcome type of
  firmware code that may leave by \<open>longjmp\<close> (\<^verbatim>\<open>shutdown()\<close> in
  \<^verbatim>\<open>src/src/sched.c\<close>), the bounds-checked read of a byte buffer, and the lemmas on
  words and lists that several components use.
\<close>

unbundle bit_operations_syntax

named_theorems res_simps \<open>how the outcome combinators reduce\<close>
named_theorems word_arith \<open>words seen as naturals\<close>

section \<open>C integer types\<close>

type_synonym u8 = "8 word"
type_synonym u16 = "16 word"
type_synonym u32 = "32 word"
type_synonym u64 = "64 word"

section \<open>Outcomes of firmware code\<close>

text \<open>
  A firmware function returns (\<open>Ret\<close>), or it calls \<^verbatim>\<open>shutdown(msg)\<close> and control
  leaves for \<^verbatim>\<open>sched_main\<close> with every store done so far kept (\<open>Shutdown\<close>), or it
  runs into what the C code does not define: a read outside a buffer, a NULL dereference, a
  loop that never ends (\<open>Fault\<close>). Theorems that a function is safe show that it is not a
  \<open>Fault\<close>.
\<close>

datatype ('s, 'a) res = Ret 'a 's | Shutdown string 's | Fault

fun bindR :: "('s, 'a) res \<Rightarrow> ('a \<Rightarrow> 's \<Rightarrow> ('s, 'b) res) \<Rightarrow> ('s, 'b) res" where
  "bindR (Ret a s) f = f a s"
| "bindR (Shutdown r s) f = Shutdown r s"
| "bindR Fault f = Fault"

lemma bindR_Ret_iff [res_simps]:
  "bindR m f = Ret b t \<longleftrightarrow> (\<exists>a s. m = Ret a s \<and> f a s = Ret b t)"
  by (cases m) auto

lemma bindR_Fault_iff [res_simps]:
  "bindR m f = Fault \<longleftrightarrow> m = Fault \<or> (\<exists>a s. m = Ret a s \<and> f a s = Fault)"
  by (cases m) auto

lemma bindR_Shutdown_iff [res_simps]:
  "bindR m f = Shutdown r t \<longleftrightarrow>
     m = Shutdown r t \<or> (\<exists>a s. m = Ret a s \<and> f a s = Shutdown r t)"
  by (cases m) auto

lemma bindR_assoc: "bindR (bindR m f) g = bindR m (\<lambda>a s. bindR (f a s) g)"
  by (cases m) auto

section \<open>Reading a byte buffer\<close>

definition rd :: "'a list \<Rightarrow> nat \<Rightarrow> 'a option" where
  "rd buf p = (if p < length buf then Some (buf ! p) else None)"

lemma rd_Some_iff: "rd buf p = Some x \<longleftrightarrow> p < length buf \<and> buf ! p = x"
  by (auto simp: rd_def)

lemma rd_append_left [simp]: "p < length xs \<Longrightarrow> rd (xs @ ys) p = Some (xs ! p)"
  by (simp add: rd_def nth_append)

lemma rd_append_at [simp]: "rd (xs @ y # ys) (length xs) = Some y"
  by (simp add: rd_def nth_append)

section \<open>Lists\<close>

lemma butlast_last_Cons: "us \<noteq> [] \<Longrightarrow> butlast us @ last us # r = us @ r"
  by (induction us) auto

section \<open>Words\<close>

lemma unat_lt_pow [word_arith]: "unat (x :: 'a::len word) < 2 ^ LENGTH('a)"
  by simp

lemma sint_u32_cases [word_arith]:
  "sint (x :: u32) = (if uint x < 2 ^ 31 then uint x else uint x - 2 ^ 32)"
proof -
  have "0 \<le> uint x" and "uint x < 2 ^ 32"
    using uint_lt2p [of x] by simp_all
  moreover have "sint x = (uint x + 2 ^ 31) mod 2 ^ 32 - 2 ^ 31"
    by (simp add: sint_uint signed_take_bit_eq_take_bit_shift take_bit_eq_mod)
  ultimately show ?thesis
    by (cases "uint x < 2 ^ 31") (auto simp: mod_pos_pos_trivial mod_pos_geq)
qed

lemma sint_neg_iff_uint [word_arith]: "sint (x :: u32) < 0 \<longleftrightarrow> 2 ^ 31 \<le> uint x"
  using uint_lt2p [of x] by (auto simp: sint_u32_cases)

lemma uint_diff_u32 [word_arith]:
  "uint (x - y :: u32) = (if uint y \<le> uint x then uint x - uint y else uint x - uint y + 2 ^ 32)"
  by (simp add: uint_sub_if_size word_size)

lemma uint_plus_u32 [word_arith]:
  "uint (x + y :: u32) = (if uint x + uint y < 2 ^ 32 then uint x + uint y else uint x + uint y - 2 ^ 32)"
  by (simp add: uint_plus_if_size word_size)

lemma unat_of_nat_small: "n < 2 ^ LENGTH('a) \<Longrightarrow> unat (of_nat n :: 'a::len word) = n"
  by (simp add: unsigned_of_nat take_bit_nat_eq_self)

lemma int_div_bounds:
  fixes a :: int
  assumes "0 < d" and "l * d \<le> a" and "a < h * d"
  shows "l \<le> a div d" and "a div d < h"
proof -
  have "l * d div d \<le> a div d"
    using assms(1,2) by (intro zdiv_mono1) simp_all
  with assms(1) show "l \<le> a div d" by simp
  have "a div d * d \<le> a"
    using assms(1) by (metis div_mult_mod_eq le_add_same_cancel1 pos_mod_sign)
  with assms(3) have "a div d * d < h * d" by simp
  with assms(1) show "a div d < h" by (simp add: mult_less_cancel_right)
qed

lemma bit_small_word:
  assumes "x < 2 ^ k" and "bit (x :: 'a::len word) n"
  shows "n < k"
proof -
  from assms(1) have "x AND mask k = x" by (rule less_mask_eq)
  with assms(2) have "bit (x AND mask k) n" by simp
  then show ?thesis by (simp add: bit_and_iff bit_mask_iff)
qed

lemma or_and_disjoint: "a AND b = 0 \<Longrightarrow> (x OR a) AND b = x AND (b :: 'a::len word)"
  by (simp add: bit.conj_disj_distrib2)

lemma and_not_and_disjoint: "NOT a AND b = b \<Longrightarrow> (x AND NOT a) AND b = x AND (b :: 'a::len word)"
  by (simp add: and.assoc)

lemma unat_ucast_up: "LENGTH('a) \<le> LENGTH('b) \<Longrightarrow> unat (ucast (x :: 'a::len word) :: 'b::len word) = unat x"
proof -
  assume "LENGTH('a) \<le> LENGTH('b)"
  then have "(2 :: nat) ^ LENGTH('a) \<le> 2 ^ LENGTH('b)" by (rule power_increasing) simp
  then have "unat x < 2 ^ LENGTH('b)" using unat_lt_pow [of x] by linarith
  then show ?thesis by (simp add: unsigned_ucast_eq take_bit_nat_eq_self)
qed

named_theorems bit_lits \<open>the bits of literal masks\<close>

text \<open>The simplifier turns the bits of a word literal into those of the integer literal.\<close>

lemma bit_0x7f [bit_lits]: "bit (0x7f :: int) n \<longleftrightarrow> n < 7"
proof -
  have "(0x7f :: int) = mask 7" by (simp add: mask_eq_exp_minus_1)
  then show ?thesis by (simp only: bit_mask_iff) simp
qed

lemma bit_0x80 [bit_lits]: "bit (0x80 :: int) n \<longleftrightarrow> n = 7"
  using bit_exp_iff [where 'a = int, of 7 n] by auto

end
