(* ===== verification/Vlq.thy ===== *)
theory Vlq
  imports Prelude
begin

text \<open>
  The integer encoding of the wire protocol (\<^verbatim>\<open>src/src/command.c\<close>): variable length
  quantities (\<^verbatim>\<open>encode_int\<close>, \<^verbatim>\<open>parse_int\<close>) and the two byte message ids
  (\<^verbatim>\<open>encode_msgid\<close>, \<^verbatim>\<open>command_parse_msgid\<close>). Writers return the bytes they store
  at \<^verbatim>\<open>*p++\<close>; readers take the buffer and the position of \<^verbatim>\<open>*pp\<close> and return
  \<open>None\<close> when they read past the end of the buffer.
\<close>

section \<open>Definitions\<close>

definition encode_int :: "u32 \<Rightarrow> u8 list" where
  "encode_int v =
     (let sv = sint v;
          f4 = [ucast (v AND 0x7f)];
          f3 = ucast ((drop_bit 7 v AND 0x7f) OR 0x80) # f4;
          f2 = ucast ((drop_bit 14 v AND 0x7f) OR 0x80) # f3;
          f1 = ucast ((drop_bit 21 v AND 0x7f) OR 0x80) # f2
      in if sv < 3 * 2 ^ 5 \<and> - (2 ^ 5) \<le> sv then f4
         else if sv < 3 * 2 ^ 12 \<and> - (2 ^ 12) \<le> sv then f3
         else if sv < 3 * 2 ^ 19 \<and> - (2 ^ 19) \<le> sv then f2
         else if sv < 3 * 2 ^ 26 \<and> - (2 ^ 26) \<le> sv then f1
         else ucast (drop_bit 28 v OR 0x80) # f1)"

text \<open>The value of the first byte, and the loop \<^verbatim>\<open>while (c & 0x80)\<close>.\<close>

definition parse_first :: "u8 \<Rightarrow> u32" where
  "parse_first c =
     (let v = ucast (c AND 0x7f) in if c AND 0x60 = 0x60 then v OR (- 0x20) else v)"

function parse_rest :: "u8 list \<Rightarrow> nat \<Rightarrow> u8 \<Rightarrow> u32 \<Rightarrow> (u32 \<times> nat) option" where
  "parse_rest buf p c v =
     (if c AND 0x80 = 0 then Some (v, p)
      else if p < length buf
           then parse_rest buf (Suc p) (buf ! p) (push_bit 7 v OR ucast (buf ! p AND 0x7f))
           else None)"
  by pat_completeness auto
termination
  by (relation "measure (\<lambda>(buf, p, c, v). length buf - p)") auto

definition parse_int :: "u8 list \<Rightarrow> nat \<Rightarrow> (u32 \<times> nat) option" where
  "parse_int buf p =
     (case rd buf p of None \<Rightarrow> None
      | Some c \<Rightarrow> parse_rest buf (Suc p) c (parse_first c))"

text \<open>\<^verbatim>\<open>uint_fast16_t\<close> is at least 16 bits wide; the ids of the protocol fit 14.\<close>

definition encode_msgid :: "u16 \<Rightarrow> u8 list" where
  "encode_msgid encoded_msgid =
     (if 0x80 \<le> encoded_msgid then [ucast (drop_bit 7 encoded_msgid OR 0x80)] else [])
     @ [ucast (encoded_msgid AND 0x7f)]"

definition command_parse_msgid :: "u8 list \<Rightarrow> nat \<Rightarrow> (u16 \<times> nat) option" where
  "command_parse_msgid buf p =
     (case rd buf p of None \<Rightarrow> None
      | Some c \<Rightarrow>
          if c AND 0x80 = 0 then Some (ucast c, Suc p)
          else (case rd buf (Suc p) of None \<Rightarrow> None
                | Some d \<Rightarrow> Some (push_bit 7 (ucast c AND 0x7f) OR ucast d, Suc (Suc p))))"

declare parse_rest.simps [simp del]

lemma parse_rest_stop [simp]: "c AND 0x80 = 0 \<Longrightarrow> parse_rest buf p c v = Some (v, p)"
  by (simp add: parse_rest.simps)

lemma parse_rest_step:
  "c AND 0x80 \<noteq> 0 \<Longrightarrow> rd buf p = Some d \<Longrightarrow>
   parse_rest buf p c v = parse_rest buf (Suc p) d (push_bit 7 v OR ucast (d AND 0x7f))"
  by (subst parse_rest.simps) (auto simp: rd_Some_iff)

section \<open>The round trip\<close>

text \<open>The first byte of an encoding carries a value between -32 and 95 exactly.\<close>

lemma parse_first_small_aux:
  "\<forall>i \<in> set [-32..95]. parse_first (ucast (word_of_int i AND (0x7f :: u32)) OR b) = word_of_int i"
  if "b = 0 \<or> b = (0x80 :: u8)"
  using that by (elim disjE) (simp_all only:, code_simp+)

definition vbyte :: "nat \<Rightarrow> u32 \<Rightarrow> u32 \<Rightarrow> u8" where
  "vbyte m b v = ucast ((drop_bit m v AND 0x7f) OR b)"

lemma vbyte_cont [simp]: "vbyte m 0x80 v AND 0x80 \<noteq> 0"
proof -
  have "bit (vbyte m 0x80 v AND 0x80) 7"
    by (simp add: vbyte_def bit_simps bit_lits)
  then show ?thesis by auto
qed

lemma vbyte_last [simp]: "vbyte m 0 v AND 0x80 = 0"
  unfolding vbyte_def
  by (rule bit_word_eqI) (auto simp: bit_simps bit_lits)

lemma vbyte_payload:
  "b = 0 \<or> b = 0x80 \<Longrightarrow> (ucast (vbyte m b v AND 0x7f) :: u32) = drop_bit m v AND 0x7f"
  unfolding vbyte_def
  by (rule bit_word_eqI) (auto simp: bit_simps bit_lits)

lemma shift_in_signed:
  "m + 7 < 32 \<Longrightarrow>
   push_bit 7 (signed_drop_bit (m + 7) v) OR (drop_bit m v AND 0x7f) = signed_drop_bit m (v :: u32)"
  by (rule bit_word_eqI) (auto simp: bit_simps bit_lits not_le)

lemma shift_in_unsigned:
  "push_bit 7 (drop_bit (m + 7) v) OR (drop_bit m v AND 0x7f) = drop_bit m (v :: u32)"
  by (rule bit_word_eqI) (auto simp: bit_simps bit_lits not_le)

lemma parse_first_small:
  assumes "- 32 \<le> sint t" and "sint t < 96" and "b = 0 \<or> b = 0x80"
  shows "parse_first (vbyte 0 b t) = t"
proof -
  have "sint t \<in> set [-32..95]" using assms(1,2) by (subst set_upto) simp
  moreover have "ucast b = (0 :: u8) \<or> ucast b = (0x80 :: u8)" using assms(3) by auto
  ultimately have "parse_first (ucast (word_of_int (sint t) AND (0x7f :: u32)) OR ucast b)
      = word_of_int (sint t)"
    using parse_first_small_aux by blast
  then have "parse_first (ucast (t AND 0x7f) OR ucast b) = t" by simp
  moreover have "vbyte 0 b t = ucast (t AND 0x7f) OR ucast b"
    unfolding vbyte_def by (rule bit_word_eqI) (auto simp: bit_simps bit_lits)
  ultimately show ?thesis by simp
qed

lemma parse_first_top:
  assumes "- (2 ^ (5 + m)) \<le> sint v" and "sint v < 3 * 2 ^ (5 + m)"
    and "b = 0 \<or> b = 0x80" and "m + 7 \<le> 32"
  shows "parse_first (vbyte m b v) = signed_drop_bit m v"
proof -
  have "sint (signed_drop_bit m v) = sint v div 2 ^ m"
    by (simp add: sint_signed_drop_bit_eq drop_bit_eq_div)
  moreover have "- 32 \<le> sint v div 2 ^ m" and "sint v div 2 ^ m < 96"
    using assms(1,2) int_div_bounds [of "2 ^ m" "- 32" "sint v" 96] by (simp_all add: power_add)
  ultimately have "parse_first (vbyte 0 b (signed_drop_bit m v)) = signed_drop_bit m v"
    using assms(3) by (intro parse_first_small) simp_all
  moreover have "vbyte 0 b (signed_drop_bit m v) = vbyte m b v"
    unfolding vbyte_def using assms(4)
    by (intro bit_word_eqI) (auto simp: bit_simps bit_lits)
  ultimately show ?thesis by simp
qed

lemma parse_rest_signed:
  assumes "c AND 0x80 \<noteq> 0" and "rd buf p = Some (vbyte m b v)"
    and "b = 0 \<or> b = 0x80" and "m + 7 < 32"
  shows "parse_rest buf p c (signed_drop_bit (m + 7) v) =
         parse_rest buf (Suc p) (vbyte m b v) (signed_drop_bit m v)"
  using assms by (simp add: parse_rest_step vbyte_payload shift_in_signed)

lemma parse_rest_unsigned:
  assumes "c AND 0x80 \<noteq> 0" and "rd buf p = Some (vbyte m b v)" and "b = 0 \<or> b = 0x80"
  shows "parse_rest buf p c (drop_bit (m + 7) v) =
         parse_rest buf (Suc p) (vbyte m b v) (drop_bit m v)"
  using assms by (simp add: parse_rest_step vbyte_payload shift_in_unsigned)

lemma encode_int_vbytes:
  "encode_int v =
     (if sint v < 3 * 2 ^ 5 \<and> - (2 ^ 5) \<le> sint v then [vbyte 0 0 v]
      else if sint v < 3 * 2 ^ 12 \<and> - (2 ^ 12) \<le> sint v then [vbyte 7 0x80 v, vbyte 0 0 v]
      else if sint v < 3 * 2 ^ 19 \<and> - (2 ^ 19) \<le> sint v
        then [vbyte 14 0x80 v, vbyte 7 0x80 v, vbyte 0 0 v]
      else if sint v < 3 * 2 ^ 26 \<and> - (2 ^ 26) \<le> sint v
        then [vbyte 21 0x80 v, vbyte 14 0x80 v, vbyte 7 0x80 v, vbyte 0 0 v]
      else [vbyte 28 0x80 v, vbyte 21 0x80 v, vbyte 14 0x80 v, vbyte 7 0x80 v, vbyte 0 0 v])"
proof -
  have "drop_bit 28 v AND 0x7f = drop_bit 28 v"
    by (rule bit_word_eqI) (auto simp: bit_simps bit_lits dest: bit_imp_le_length)
  then show ?thesis
    by (simp add: encode_int_def vbyte_def Let_def)
qed

lemma parse_first_wide: "parse_first (vbyte 28 0x80 v) = drop_bit 28 v"
proof -
  have "vbyte 28 0x80 v AND 0x60 \<noteq> 0x60"
  proof
    assume "vbyte 28 0x80 v AND 0x60 = 0x60"
    then have "bit (vbyte 28 0x80 v AND 0x60) 6" by simp
    then show False
      by (auto simp: vbyte_def bit_simps bit_lits dest: bit_imp_le_length)
  qed
  moreover have "drop_bit 28 v AND 0x7f = drop_bit 28 v"
    by (rule bit_word_eqI) (auto simp: bit_simps bit_lits dest: bit_imp_le_length)
  ultimately show ?thesis
    by (simp add: parse_first_def vbyte_payload)
qed

lemma parse_int_at:
  "parse_int (xs @ b # ys) (length xs) = parse_rest (xs @ b # ys) (Suc (length xs)) b (parse_first b)"
  by (simp add: parse_int_def)

lemma rd_skip:
  "rd (xs @ b0 # ys) (Suc (length xs)) = rd ys 0"
  "rd (xs @ b0 # b1 # ys) (Suc (Suc (length xs))) = rd ys 0"
  "rd (xs @ b0 # b1 # b2 # ys) (Suc (Suc (Suc (length xs)))) = rd ys 0"
  "rd (xs @ b0 # b1 # b2 # b3 # ys) (Suc (Suc (Suc (Suc (length xs))))) = rd ys 0"
  by (auto simp: rd_def nth_append)

lemma rd_0 [simp]: "rd (b # ys) 0 = Some b"
  by (simp add: rd_def)

lemma parse_encode_int:
  "parse_int (xs @ encode_int v @ ys) (length xs) = Some (v, length xs + length (encode_int v))"
proof -
  consider (one) "sint v < 3 * 2 ^ 5 \<and> - (2 ^ 5) \<le> sint v"
    | (two) "\<not> (sint v < 3 * 2 ^ 5 \<and> - (2 ^ 5) \<le> sint v)"
        "sint v < 3 * 2 ^ 12 \<and> - (2 ^ 12) \<le> sint v"
    | (three) "\<not> (sint v < 3 * 2 ^ 12 \<and> - (2 ^ 12) \<le> sint v)"
        "sint v < 3 * 2 ^ 19 \<and> - (2 ^ 19) \<le> sint v"
    | (four) "\<not> (sint v < 3 * 2 ^ 19 \<and> - (2 ^ 19) \<le> sint v)"
        "sint v < 3 * 2 ^ 26 \<and> - (2 ^ 26) \<le> sint v"
    | (five) "\<not> (sint v < 3 * 2 ^ 26 \<and> - (2 ^ 26) \<le> sint v)"
    by blast
  then show ?thesis
  proof cases
    case one
    then show ?thesis
      using parse_first_top [where m = 0 and b = 0 and v = v]
      by (simp add: encode_int_vbytes parse_int_at)
  next
    case two
    then have "encode_int v = [vbyte 7 0x80 v, vbyte 0 0 v]"
      by (auto simp: encode_int_vbytes)
    then show ?thesis
      using two parse_first_top [where m = 7 and b = "0x80" and v = v]
        parse_rest_signed [where m = 0 and b = 0 and v = v]
      by (simp add: parse_int_at rd_skip)
  next
    case three
    then have "encode_int v = [vbyte 14 0x80 v, vbyte 7 0x80 v, vbyte 0 0 v]"
      by (auto simp: encode_int_vbytes)
    then show ?thesis
      using three parse_first_top [where m = 14 and b = "0x80" and v = v] parse_rest_signed [where m = 0 and b = 0 and v = v]
        parse_rest_signed [where m = 7 and b = "0x80" and v = v]
      by (simp add: parse_int_at rd_skip)
  next
    case four
    then have "encode_int v = [vbyte 21 0x80 v, vbyte 14 0x80 v, vbyte 7 0x80 v, vbyte 0 0 v]"
      by (auto simp: encode_int_vbytes)
    then show ?thesis
      using four parse_first_top [where m = 21 and b = "0x80" and v = v] parse_rest_signed [where m = 0 and b = 0 and v = v]
        parse_rest_signed [where m = 7 and b = "0x80" and v = v] parse_rest_signed [where m = 14 and b = "0x80" and v = v]
      by (simp add: parse_int_at rd_skip)
  next
    case five
    then have "encode_int v = [vbyte 28 0x80 v, vbyte 21 0x80 v, vbyte 14 0x80 v, vbyte 7 0x80 v, vbyte 0 0 v]"
      by (auto simp: encode_int_vbytes)
    then show ?thesis
      using parse_rest_unsigned [where m = 0 and b = 0 and v = v] parse_rest_unsigned [where m = 7 and b = "0x80" and v = v]
        parse_rest_unsigned [where m = 14 and b = "0x80" and v = v] parse_rest_unsigned [where m = 21 and b = "0x80" and v = v]
      by (simp add: parse_int_at rd_skip parse_first_wide)
  qed
qed

lemma length_encode_int: "1 \<le> length (encode_int v)" "length (encode_int v) \<le> 5"
  by (simp_all add: encode_int_vbytes)

section \<open>Reads stay in front of a byte with bit 7 clear\<close>

lemma parse_rest_bounded:
  "p \<le> q \<Longrightarrow> q < length buf \<Longrightarrow> buf ! q AND 0x80 = 0 \<Longrightarrow>
   \<exists>w p'. parse_rest buf p c v = Some (w, p') \<and> p \<le> p' \<and> p' \<le> Suc q"
proof (induction buf p c v rule: parse_rest.induct)
  case (1 buf p c v)
  show ?case
  proof (cases "c AND 0x80 = 0")
    case True
    with "1.prems" show ?thesis by auto
  next
    case False
    note step = parse_rest_step [OF False, of buf p "buf ! p" v]
    show ?thesis
    proof (cases "p = q")
      case True
      with "1.prems" False step show ?thesis by (auto simp: rd_Some_iff)
    next
      case neq: False
      with "1.IH" [OF False] "1.prems" step show ?thesis
        by (fastforce simp: rd_Some_iff)
    qed
  qed
qed

lemma parse_int_bounded:
  assumes "p \<le> q" and "q < length buf" and "buf ! q AND 0x80 = 0"
  shows "\<exists>v p'. parse_int buf p = Some (v, p') \<and> p < p' \<and> p' \<le> Suc q"
proof (cases "p = q")
  case True
  with assms show ?thesis by (simp add: parse_int_def rd_def)
next
  case False
  with assms parse_rest_bounded [of "Suc p" q buf "buf ! p" "parse_first (buf ! p)"]
  show ?thesis by (auto simp: parse_int_def rd_def)
qed

section \<open>Message ids\<close>

lemma msgid_high_byte:
  assumes "i < 0x4000"
  shows "(ucast (ucast (drop_bit 7 i OR 0x80 :: u16) :: u8) :: u16) AND 0x7f = drop_bit 7 i"
proof -
  have "bit i n \<Longrightarrow> n < 14" for n
    using bit_small_word [of i 14 n] assms by simp
  then show ?thesis
    by (intro bit_word_eqI) (fastforce simp: bit_simps bit_lits)
qed

lemma msgid_low_byte:
  "(ucast (ucast (i AND 0x7f :: u16) :: u8) :: u16) = i AND 0x7f"
  "(ucast (i AND 0x7f :: u16) :: u8) AND 0x80 = 0"
  "(ucast (drop_bit 7 i OR 0x80 :: u16) :: u8) AND 0x80 \<noteq> 0"
proof -
  show "(ucast (ucast (i AND 0x7f :: u16) :: u8) :: u16) = i AND 0x7f"
    by (rule bit_word_eqI) (auto simp: bit_simps bit_lits)
  show "(ucast (i AND 0x7f :: u16) :: u8) AND 0x80 = 0"
    by (rule bit_word_eqI) (auto simp: bit_simps bit_lits)
  have "bit ((ucast (drop_bit 7 i OR 0x80 :: u16) :: u8) AND 0x80) 7"
    by (simp add: bit_simps bit_lits)
  then show "(ucast (drop_bit 7 i OR 0x80 :: u16) :: u8) AND 0x80 \<noteq> 0" by auto
qed

lemma msgid_join: "push_bit 7 (drop_bit 7 i) OR (i AND 0x7f) = (i :: u16)"
  by (rule bit_word_eqI) (auto simp: bit_simps bit_lits)

lemma msgid_small: "i < 0x80 \<Longrightarrow> i AND 0x7f = (i :: u16)"
  using bit_small_word [of i 7] by (intro bit_word_eqI) (auto simp: bit_simps bit_lits)

lemma parse_encode_msgid:
  assumes "i < 0x4000"
  shows "command_parse_msgid (xs @ encode_msgid i @ ys) (length xs)
           = Some (i, length xs + length (encode_msgid i))"
proof (cases "0x80 \<le> i")
  case True
  with assms show ?thesis
    by (simp add: encode_msgid_def command_parse_msgid_def rd_skip msgid_high_byte
        msgid_low_byte msgid_join)
next
  case False
  then have small: "i AND 0x7f = i" by (intro msgid_small) simp
  from False have "encode_msgid i = [ucast (i AND 0x7f)]" by (simp add: encode_msgid_def)
  with msgid_low_byte [of i] small show ?thesis
    by (simp add: command_parse_msgid_def)
qed

section \<open>Properties\<close>

text \<open>For every 32 bit value, wherever its encoding stands in a buffer,
  \<^verbatim>\<open>parse_int\<close> reads back the value and moves past exactly the bytes
  \<^verbatim>\<open>encode_int\<close> wrote, which are one to five.\<close>

theorem vlq_roundtrip:
  "parse_int (xs @ encode_int v @ ys) (length xs) = Some (v, length xs + length (encode_int v))
   \<and> 1 \<le> length (encode_int v) \<and> length (encode_int v) \<le> 5"
  using length_encode_int [of v] by (simp add: parse_encode_int Suc_le_eq)

text \<open>A message id below 2^14 written by \<^verbatim>\<open>encode_msgid\<close> is read back
  by \<^verbatim>\<open>command_parse_msgid\<close>, which consumes exactly the one or two bytes written.\<close>

theorem msgid_roundtrip:
  assumes "i < 0x4000"
  shows "command_parse_msgid (xs @ encode_msgid i @ ys) (length xs)
           = Some (i, length xs + length (encode_msgid i))"
  using assms by (rule parse_encode_msgid)

theorem msgid_roundtrip_witness:
  "(0x1234 :: u16) < 0x4000 \<and>
   command_parse_msgid ([7] @ encode_msgid 0x1234 @ [9]) 1 = Some (0x1234, 3)"
  using msgid_roundtrip [of "0x1234" "[7]" "[9]"] by (simp add: encode_msgid_def)

end
