(* ===== verification/Crc.thy ===== *)
theory Crc
  imports Prelude
begin

text \<open>
  The checksum of message blocks: \<^verbatim>\<open>crc16_ccitt\<close> of
  \<^verbatim>\<open>src/src/generic/crc16_ccitt.c\<close>. The lemmas show that one round determines the byte
  it consumed and the register it started from, and from that which corruptions of a block
  change its checksum.
\<close>

section \<open>Definitions\<close>

text \<open>One round of the \<^verbatim>\<open>while (len--)\<close> loop; \<open>data\<close> is \<^verbatim>\<open>uint8_t\<close>, so the
  shift by four and the product of \<^verbatim>\<open>data >> 4\<close> are truncated to eight bits.\<close>

definition crc16_step :: "u16 \<Rightarrow> u8 \<Rightarrow> u16" where
  "crc16_step crc b =
     (let data = b XOR ucast (crc AND 0xff);
          data = data XOR push_bit 4 data
      in ((push_bit 8 (ucast data) OR drop_bit 8 crc) XOR ucast (drop_bit 4 data))
         XOR push_bit 3 (ucast data))"

definition crc16_ccitt :: "u8 list \<Rightarrow> u16" where
  "crc16_ccitt buf = foldl crc16_step 0xffff buf"

section \<open>One round can be undone\<close>

definition crc_hi :: "u16 \<Rightarrow> u8" where
  "crc_hi c = ucast (drop_bit 8 c)"

definition crc_lo :: "u16 \<Rightarrow> u8" where
  "crc_lo c = ucast c"

definition crc_mix :: "u16 \<Rightarrow> u8 \<Rightarrow> u8" where
  "crc_mix c b = (let e = b XOR crc_lo c in e XOR push_bit 4 e)"

lemma bit_0xff [bit_lits]: "bit (0xff :: int) n \<longleftrightarrow> n < 8"
proof -
  have "(0xff :: int) = mask 8" by (simp add: mask_eq_exp_minus_1)
  then show ?thesis by (simp only: bit_mask_iff) simp
qed

lemma crc_join_eqI:
  assumes "crc_hi c = crc_hi d" and "crc_lo c = crc_lo d"
  shows "c = d"
proof (rule bit_word_eqI)
  fix n :: nat
  assume "n < LENGTH(16)"
  show "bit c n \<longleftrightarrow> bit d n"
  proof (cases "n < 8")
    case True
    then have "bit c n = bit (crc_lo c) n" and "bit d n = bit (crc_lo d) n"
      by (simp_all add: crc_lo_def bit_simps)
    with assms show ?thesis by simp
  next
    case False
    with \<open>n < LENGTH(16)\<close>
    have "bit c n = bit (crc_hi c) (n - 8)" and "bit d n = bit (crc_hi d) (n - 8)"
      by (auto simp add: crc_hi_def bit_simps)
    with assms show ?thesis by simp
  qed
qed

lemma crc16_step_mix:
  "crc16_step c b =
     (let m = crc_mix c b
      in ((push_bit 8 (ucast m) OR drop_bit 8 c) XOR ucast (drop_bit 4 m)) XOR push_bit 3 (ucast m))"
proof -
  have "(ucast (c AND 0xff) :: u8) = ucast c"
    by (rule bit_word_eqI) (simp add: bit_simps bit_lits)
  then show ?thesis
    by (simp add: crc16_step_def crc_mix_def crc_lo_def Let_def)
qed

lemma crc_hi_step: "crc_hi (crc16_step c b) = crc_mix c b XOR drop_bit 5 (crc_mix c b)"
proof -
  have "(ucast (drop_bit 8 (((push_bit 8 (ucast m) OR drop_bit 8 c) XOR ucast (drop_bit 4 m))
            XOR push_bit 3 (ucast m))) :: u8) = m XOR drop_bit 5 m" for m :: u8
    by (rule bit_word_eqI)
      (auto simp: bit_simps algebra_simps dest: bit_imp_le_length)
  then show ?thesis by (simp only: crc_hi_def crc16_step_mix Let_def)
qed

lemma crc_lo_step:
  "crc_lo (crc16_step c b) =
     crc_hi c XOR drop_bit 4 (crc_mix c b) XOR push_bit 3 (crc_mix c b)"
proof -
  have "(ucast (((push_bit 8 (ucast m) OR drop_bit 8 c) XOR ucast (drop_bit 4 m))
            XOR push_bit 3 (ucast m)) :: u8)
          = ucast (drop_bit 8 c) XOR drop_bit 4 m XOR push_bit 3 m" for m :: u8
    by (rule bit_word_eqI) (auto simp: bit_simps dest: bit_imp_le_length)
  then show ?thesis by (simp only: crc_lo_def crc_hi_def crc16_step_mix Let_def)
qed

text \<open>Both halves of a round are invertible, since shifting twice leaves the byte.\<close>

lemma fold_back5: "(m XOR drop_bit 5 m) XOR drop_bit 5 (m XOR drop_bit 5 m) = (m :: u8)"
  by (rule bit_word_eqI) (auto simp: bit_simps dest: bit_imp_le_length)

lemma fold_back4: "(e XOR push_bit 4 e) XOR push_bit 4 (e XOR push_bit 4 e) = (e :: u8)"
  by (rule bit_word_eqI) (auto simp: bit_simps)

lemma xor_cancel_left: "a XOR b = a XOR c \<longleftrightarrow> b = (c :: 'a::len word)"
proof
  assume "a XOR b = a XOR c"
  then have "a XOR (a XOR b) = a XOR (a XOR c)" by simp
  then show "b = c" by (simp add: xor.assoc [symmetric])
qed simp

lemma xor_cancel_right: "b XOR a = c XOR a \<longleftrightarrow> b = (c :: 'a::len word)"
  by (simp add: xor.commute [of _ a] xor_cancel_left)

lemma crc16_step_eq_cases:
  assumes "crc16_step c b = crc16_step c' b'"
  shows "crc_hi c = crc_hi c'" and "b XOR crc_lo c = b' XOR crc_lo c'"
proof -
  have mix: "crc_mix c b = crc_mix c' b'"
    using arg_cong [OF assms, of crc_hi] fold_back5 [of "crc_mix c b"]
      fold_back5 [of "crc_mix c' b'"] by (simp add: crc_hi_step)
  show "b XOR crc_lo c = b' XOR crc_lo c'"
    using mix fold_back4 [of "b XOR crc_lo c"] fold_back4 [of "b' XOR crc_lo c'"]
    by (simp add: crc_mix_def)
  show "crc_hi c = crc_hi c'"
    using arg_cong [OF assms, of crc_lo] mix by (simp add: crc_lo_step xor_cancel_right)
qed

lemma crc16_step_inj_byte: "crc16_step c b = crc16_step c b' \<Longrightarrow> b = b'"
  using crc16_step_eq_cases(2) [of c b c b'] by (simp add: xor_cancel_right)

lemma crc16_step_inj_reg: "crc16_step c b = crc16_step c' b \<Longrightarrow> c = c'"
  using crc16_step_eq_cases [of c b c' b] by (intro crc_join_eqI) (simp_all add: xor_cancel_left)

lemma crc16_tail_inj:
  "foldl crc16_step c zs = foldl crc16_step c' zs \<longleftrightarrow> c = c'"
  by (induction zs arbitrary: c c') (auto dest: crc16_step_inj_reg)

text \<open>Two rounds determine both bytes they consumed.\<close>

lemma crc16_two_steps_inj:
  assumes "crc16_step (crc16_step c b1) b2 = crc16_step (crc16_step c d1) d2"
  shows "b1 = d1 \<and> b2 = d2"
proof -
  have "crc_hi (crc16_step c b1) = crc_hi (crc16_step c d1)"
    by (rule crc16_step_eq_cases(1) [OF assms])
  then have "crc_mix c b1 = crc_mix c d1"
    using fold_back5 [of "crc_mix c b1"] fold_back5 [of "crc_mix c d1"] by (simp add: crc_hi_step)
  then have "b1 XOR crc_lo c = d1 XOR crc_lo c"
    using fold_back4 [of "b1 XOR crc_lo c"] fold_back4 [of "d1 XOR crc_lo c"]
    by (simp add: crc_mix_def)
  then have "b1 = d1" by (simp add: xor_cancel_right)
  with assms crc16_step_inj_byte show ?thesis by blast
qed

lemma crc16_append: "crc16_ccitt (xs @ ys) = foldl crc16_step (crc16_ccitt xs) ys"
  by (simp add: crc16_ccitt_def)

section \<open>Properties\<close>

text \<open>Two buffers that differ only inside two neighbouring
  bytes have different checksums: every single byte error, every swap of neighbours and every
  burst inside two bytes is detected, whatever comes before and after.\<close>

theorem crc_detects_adjacent_pair:
  "crc16_ccitt (xs @ b1 # b2 # ys) = crc16_ccitt (xs @ d1 # d2 # ys) \<longleftrightarrow> b1 = d1 \<and> b2 = d2"
  by (auto simp: crc16_append crc16_tail_inj dest: crc16_two_steps_inj)

end
