(* ===== verification/Command.thy ===== *)
theory Command
  imports Vlq Crc
begin

text \<open>
  Message blocks on the firmware side (\<^verbatim>\<open>src/src/command.c\<close>): the parser of command
  parameters, the encoder of responses, the frame around them and the search for the next
  block of the input. The tables of message formats are generated at build time
  (\<^verbatim>\<open>out/compile_time_request.c\<close>) and are arguments here.
\<close>

section \<open>Data\<close>

datatype param_type =
  PT_uint32 | PT_int32 | PT_uint16 | PT_int16 | PT_byte | PT_string | PT_progmem_buffer | PT_buffer

record command_encoder =
  ce_encoded_msgid :: u16
  ce_max_size :: u8
  ce_param_types :: "param_type list"

definition MESSAGE_MIN :: nat where "MESSAGE_MIN = 5"
definition MESSAGE_MAX :: nat where "MESSAGE_MAX = 64"
definition MESSAGE_HEADER_SIZE :: nat where "MESSAGE_HEADER_SIZE = 2"
definition MESSAGE_TRAILER_SIZE :: nat where "MESSAGE_TRAILER_SIZE = 3"
definition MESSAGE_POS_LEN :: nat where "MESSAGE_POS_LEN = 0"
definition MESSAGE_POS_SEQ :: nat where "MESSAGE_POS_SEQ = 1"
definition MESSAGE_TRAILER_CRC :: nat where "MESSAGE_TRAILER_CRC = 3"
definition MESSAGE_TRAILER_SYNC :: nat where "MESSAGE_TRAILER_SYNC = 1"
definition MESSAGE_SEQ_MASK :: u8 where "MESSAGE_SEQ_MASK = 0x0f"
definition MESSAGE_DEST :: u8 where "MESSAGE_DEST = 0x10"
definition MESSAGE_SYNC :: u8 where "MESSAGE_SYNC = 0x7e"
definition MESSAGE_PAYLOAD_MAX :: nat where "MESSAGE_PAYLOAD_MAX = MESSAGE_MAX - MESSAGE_MIN"

lemmas message_consts =
  MESSAGE_MIN_def MESSAGE_MAX_def MESSAGE_HEADER_SIZE_def MESSAGE_TRAILER_SIZE_def
  MESSAGE_POS_LEN_def MESSAGE_POS_SEQ_def MESSAGE_TRAILER_CRC_def MESSAGE_TRAILER_SYNC_def
  MESSAGE_SEQ_MASK_def MESSAGE_DEST_def MESSAGE_SYNC_def MESSAGE_PAYLOAD_MAX_def

section \<open>Parsing the parameters of a command\<close>

text \<open>The loop \<^verbatim>\<open>while (num_params--)\<close> of \<^verbatim>\<open>command_parsef\<close>. Positions index the
  receive buffer; a buffer parameter stores its length and where it starts, which is what
  \<^verbatim>\<open>command_encode_ptr\<close> makes of a pointer into that buffer.\<close>

fun parse_params ::
  "param_type list \<Rightarrow> u8 list \<Rightarrow> nat \<Rightarrow> nat \<Rightarrow> u32 list \<Rightarrow> 's \<Rightarrow> ('s, u32 list \<times> nat) res" where
  "parse_params [] buf p maxend args s = Ret (args, p) s"
| "parse_params (t # ts) buf p maxend args s =
     (if maxend < p then Shutdown ''Command parser error'' s
      else if t \<in> {PT_uint32, PT_int32, PT_uint16, PT_int16, PT_byte} then
        (case parse_int buf p of None \<Rightarrow> Fault
         | Some (v, p') \<Rightarrow> parse_params ts buf p' maxend (args @ [v]) s)
      else if t = PT_buffer then
        (case rd buf p of None \<Rightarrow> Fault
         | Some len \<Rightarrow>
             let p = Suc p in
             if maxend < p + unat len then Shutdown ''Command parser error'' s
             else parse_params ts buf (p + unat len) maxend (args @ [ucast len, of_nat p]) s)
      else Shutdown ''Command parser error'' s)"

definition command_parsef ::
  "u8 list \<Rightarrow> nat \<Rightarrow> nat \<Rightarrow> param_type list \<Rightarrow> 's \<Rightarrow> ('s, u32 list \<times> nat) res" where
  "command_parsef buf p maxend param_types s = parse_params param_types buf p maxend [] s"

section \<open>Encoding a response\<close>

text \<open>The arguments of \<^verbatim>\<open>sendf\<close>, as \<^verbatim>\<open>va_arg\<close> delivers them: an integer, a C string, or
  the length and the bytes of a buffer.\<close>

datatype va = VInt u32 | VStr "u8 list" | VBuf u32 "u8 list"

text \<open>\<open>acc\<close> holds the bytes stored from \<^verbatim>\<open>buf[MESSAGE_HEADER_SIZE]\<close> on, and \<open>room\<close> is
  \<^verbatim>\<open>maxend\<close> seen from there.\<close>

fun encode_params :: "param_type list \<Rightarrow> va list \<Rightarrow> nat \<Rightarrow> u8 list \<Rightarrow> 's \<Rightarrow> ('s, u8 list) res" where
  "encode_params [] args room acc s = Ret acc s"
| "encode_params (t # ts) args room acc s =
     (if room < length acc then Shutdown ''Message encode error'' s
      else if t \<in> {PT_uint32, PT_int32, PT_uint16, PT_int16, PT_byte} then
        (case args of VInt v # args' \<Rightarrow> encode_params ts args' room (acc @ encode_int v) s
         | _ \<Rightarrow> Fault)
      else if t = PT_string then
        (case args of VStr str # args' \<Rightarrow>
           let cs = take (room - Suc (length acc)) (takeWhile (\<lambda>c. c \<noteq> 0) str)
           in encode_params ts args' room (acc @ of_nat (length cs) # cs) s
         | _ \<Rightarrow> Fault)
      else
        (case args of VBuf v data # args' \<Rightarrow>
           let v = (if room - length acc < unat v then of_nat (room - length acc) else v)
           in if unat v \<le> length data
              then encode_params ts args' room (acc @ ucast v # take (unat v) data) s
              else Fault
         | _ \<Rightarrow> Fault))"

text \<open>The result is what is stored after the header, and the message length.\<close>

definition command_encodef :: "command_encoder \<Rightarrow> va list \<Rightarrow> 's \<Rightarrow> ('s, u8 list \<times> nat) res" where
  "command_encodef ce args s =
     (if unat (ce_max_size ce) \<le> MESSAGE_MIN then Ret ([], unat (ce_max_size ce)) s
      else bindR (encode_params (ce_param_types ce) args (unat (ce_max_size ce) - MESSAGE_MIN)
                    (encode_msgid (ce_encoded_msgid ce)) s)
             (\<lambda>body s. Ret (body, MESSAGE_HEADER_SIZE + length body + MESSAGE_TRAILER_SIZE) s))"

text \<open>Header and trailer are stored into the block's buffer.\<close>

definition command_add_frame :: "u8 list \<Rightarrow> nat \<Rightarrow> u8 \<Rightarrow> u8 list" where
  "command_add_frame buf msglen next_sequence =
     (let buf = buf[MESSAGE_POS_LEN := of_nat msglen];
          buf = buf[MESSAGE_POS_SEQ := next_sequence];
          crc = crc16_ccitt (take (msglen - MESSAGE_TRAILER_SIZE) buf);
          buf = buf[msglen - MESSAGE_TRAILER_CRC + 0 := ucast (drop_bit 8 crc)];
          buf = buf[msglen - MESSAGE_TRAILER_CRC + 1 := ucast crc]
      in buf[msglen - MESSAGE_TRAILER_SYNC := MESSAGE_SYNC])"

text \<open>The block is built in place; \<open>buf\<close> is the storage \<^verbatim>\<open>console_sendf\<close> passes.\<close>

definition command_encode_and_frame ::
  "u8 list \<Rightarrow> command_encoder \<Rightarrow> va list \<Rightarrow> u8 \<Rightarrow> 's \<Rightarrow> ('s, u8 list \<times> nat) res" where
  "command_encode_and_frame buf ce args next_sequence s =
     bindR (command_encodef ce args s)
       (\<lambda>(body, msglen) s.
          if length buf < msglen then Fault
          else Ret (command_add_frame
                      (take MESSAGE_HEADER_SIZE buf @ body
                       @ drop (MESSAGE_HEADER_SIZE + length body) buf) msglen next_sequence,
                    msglen) s)"

section \<open>Finding the next block of the input\<close>

record finder =
  next_sequence :: u8
  sync_state :: u8

definition CF_NEED_SYNC :: u8 where "CF_NEED_SYNC = 1"
definition CF_NEED_VALID :: u8 where "CF_NEED_VALID = 2"

definition finder_init :: finder where
  "finder_init = \<lparr>next_sequence = MESSAGE_DEST, sync_state = 0\<rparr>"

text \<open>\<^verbatim>\<open>memchr(buf, c, n)\<close>.\<close>

definition memchr :: "u8 list \<Rightarrow> u8 \<Rightarrow> nat option" where
  "memchr buf c = (let k = length (takeWhile (\<lambda>x. x \<noteq> c) buf) in if k < length buf then Some k else None)"

text \<open>What a call of \<^verbatim>\<open>command_find_block\<close> yields: its result, \<^verbatim>\<open>*pop_count\<close>, whether an
  ack/nak block is sent, and the new state. \<open>buf\<close> is the first \<^verbatim>\<open>buf_len\<close> bytes.\<close>

record found =
  fb_ret :: int
  fb_pop :: nat
  fb_nak :: bool
  fb_state :: finder

definition find_need_more :: "finder \<Rightarrow> found" where
  "find_need_more st = \<lparr>fb_ret = 0, fb_pop = 0, fb_nak = False, fb_state = st\<rparr>"

definition find_need_sync :: "finder \<Rightarrow> u8 list \<Rightarrow> found" where
  "find_need_sync st buf =
     (let (st1, pop) = (case memchr buf MESSAGE_SYNC of
                          Some k \<Rightarrow> (st\<lparr>sync_state := sync_state st AND NOT CF_NEED_SYNC\<rparr>, k + 1)
                        | None \<Rightarrow> (st, length buf))
      in if sync_state st1 AND CF_NEED_VALID \<noteq> 0
         then \<lparr>fb_ret = -1, fb_pop = pop, fb_nak = False, fb_state = st1\<rparr>
         else \<lparr>fb_ret = -1, fb_pop = pop, fb_nak = True,
               fb_state = st1\<lparr>sync_state := sync_state st1 OR CF_NEED_VALID\<rparr>\<rparr>)"

definition find_error :: "finder \<Rightarrow> u8 list \<Rightarrow> found" where
  "find_error st buf =
     (if rd buf 0 = Some MESSAGE_SYNC
      then \<lparr>fb_ret = -1, fb_pop = 1, fb_nak = False, fb_state = st\<rparr>
      else find_need_sync (st\<lparr>sync_state := sync_state st OR CF_NEED_SYNC\<rparr>) buf)"

definition command_find_block :: "finder \<Rightarrow> u8 list \<Rightarrow> found" where
  "command_find_block st buf =
     (if buf \<noteq> [] \<and> sync_state st AND CF_NEED_SYNC \<noteq> 0 then find_need_sync st buf
      else if length buf < MESSAGE_MIN then find_need_more st
      else let msglen = unat (buf ! MESSAGE_POS_LEN) in
      if msglen < MESSAGE_MIN \<or> MESSAGE_MAX < msglen then find_error st buf
      else let msgseq = buf ! MESSAGE_POS_SEQ in
      if msgseq AND NOT MESSAGE_SEQ_MASK \<noteq> MESSAGE_DEST then find_error st buf
      else if length buf < msglen then find_need_more st
      else if buf ! (msglen - MESSAGE_TRAILER_SYNC) \<noteq> MESSAGE_SYNC then find_error st buf
      else let msgcrc = push_bit 8 (ucast (buf ! (msglen - MESSAGE_TRAILER_CRC)))
                        OR ucast (buf ! (msglen - MESSAGE_TRAILER_CRC + 1));
               crc = crc16_ccitt (take (msglen - MESSAGE_TRAILER_SIZE) buf) in
      if crc \<noteq> msgcrc then find_error st buf
      else let st1 = st\<lparr>sync_state := sync_state st AND NOT CF_NEED_VALID\<rparr> in
      if msgseq \<noteq> next_sequence st1
      then \<lparr>fb_ret = -1, fb_pop = msglen, fb_nak = True, fb_state = st1\<rparr>
      else \<lparr>fb_ret = 1, fb_pop = msglen, fb_nak = False,
            fb_state = st1\<lparr>next_sequence := ((msgseq + 1) AND MESSAGE_SEQ_MASK) OR MESSAGE_DEST\<rparr>\<rparr>)"

section \<open>The frame of a block\<close>

text \<open>The shape of a block on the wire, as the protocol document describes it.\<close>

definition block_len :: "u8 list \<Rightarrow> u8" where
  "block_len body = of_nat (length body + 5)"

lemma unat_block_len: "length body \<le> 59 \<Longrightarrow> unat (block_len body) = length body + 5"
  unfolding block_len_def by (rule unat_of_nat_small) simp

definition frame :: "u8 \<Rightarrow> u8 list \<Rightarrow> u8 list" where
  "frame seq body =
     (let pre = block_len body # seq # body; crc = crc16_ccitt pre
      in pre @ [ucast (drop_bit 8 crc), ucast crc, MESSAGE_SYNC])"

lemma length_frame [simp]: "length (frame seq body) = length body + 5"
  by (simp add: frame_def Let_def)

lemma length_list_2E:
  assumes "2 \<le> length xs"
  obtains a b ys where "xs = a # b # ys"
  using assms by (cases xs; cases "tl xs") auto

lemma length_list_3E:
  assumes "3 \<le> length xs"
  obtains a b c ys where "xs = a # b # c # ys"
  using assms by (cases xs; cases "tl xs"; cases "tl (tl xs)") auto

lemma list_update_three_after:
  "(xs @ a # b # c # ys)[length xs := a', length xs + 1 := b', length xs + 2 := c'] = xs @ a' # b' # c' # ys"
  by (simp add: list_update_append)

lemma command_add_frame_frame:
  assumes "length body + 5 \<le> length buf"
  shows "command_add_frame (take 2 buf @ body @ drop (2 + length body) buf) (length body + 5) seq
           = frame seq body @ drop (length body + 5) buf"
proof -
  from assms obtain a b rest where buf: "buf = a # b # rest"
    using length_list_2E [of buf] by auto
  have "3 \<le> length (drop (length body) rest)" using assms buf by simp
  then obtain x y z zs where tl3: "drop (length body) rest = x # y # z # zs"
    by (rule length_list_3E)
  have zs: "drop (length body + 3) rest = zs"
    using arg_cong [OF tl3, of "drop 3"] by (simp add: add.commute)
  let ?pre = "block_len body # seq # body"
  let ?crc = "crc16_ccitt ?pre"
  have "(?pre @ x # y # z # zs)
          [length ?pre := ucast (drop_bit 8 ?crc), length ?pre + 1 := ucast ?crc,
           length ?pre + 2 := MESSAGE_SYNC]
        = ?pre @ ucast (drop_bit 8 ?crc) # ucast ?crc # MESSAGE_SYNC # zs"
    by (rule list_update_three_after)
  then show ?thesis
    using zs tl3
    by (simp add: buf command_add_frame_def frame_def message_consts Let_def eval_nat_numeral
        block_len_def)
qed

lemma crc_bytes_join:
  "push_bit 8 (ucast (ucast (drop_bit 8 c) :: u8)) OR ucast (ucast c :: u8) = (c :: u16)"
  by (rule bit_word_eqI) (auto simp: bit_simps)

lemma crc_bytes_eq_iff:
  "c = push_bit 8 (ucast (h :: u8)) OR ucast (l :: u8) \<longleftrightarrow>
   h = ucast (drop_bit 8 (c :: u16)) \<and> l = ucast c"
proof
  assume c: "c = push_bit 8 (ucast h) OR ucast l"
  have "ucast (drop_bit 8 (push_bit 8 (ucast h) OR ucast l :: u16)) = h"
    by (rule bit_word_eqI) (auto simp: bit_simps dest: bit_imp_le_length)
  moreover have "ucast (push_bit 8 (ucast h) OR ucast l :: u16) = l"
    by (rule bit_word_eqI) (auto simp: bit_simps)
  ultimately show "h = ucast (drop_bit 8 c) \<and> l = ucast c" unfolding c by simp
qed (simp add: crc_bytes_join)

lemma frame_nth:
  "(frame seq body @ rest) ! 0 = block_len body"
  "(frame seq body @ rest) ! Suc 0 = seq"
  "(frame seq body @ rest) ! (length body + 2) =
     ucast (drop_bit 8 (crc16_ccitt (block_len body # seq # body)))"
  "(frame seq body @ rest) ! (length body + 3) =
     ucast (crc16_ccitt (block_len body # seq # body))"
  "(frame seq body @ rest) ! (length body + 4) = MESSAGE_SYNC"
  "take (length body + 2) (frame seq body @ rest) = block_len body # seq # body"
  by (simp_all add: frame_def Let_def nth_append)

text \<open>A block found to be valid is a frame: the only byte sequences that pass the checks of
  \<^verbatim>\<open>command_find_block\<close> are the frames.\<close>

definition block_checks :: "u8 list \<Rightarrow> bool" where
  "block_checks buf \<longleftrightarrow>
     (let n = unat (buf ! 0) in
      5 \<le> n \<and> n \<le> 64 \<and> n \<le> length buf \<and> buf ! (n - 1) = MESSAGE_SYNC \<and>
      crc16_ccitt (take (n - 3) buf) =
        push_bit 8 (ucast (buf ! (n - 3))) OR ucast (buf ! (n - 2)))"

lemma list_take_last3:
  assumes "n + 3 \<le> length buf"
  shows "take (n + 3) buf = take n buf @ [buf ! n, buf ! (n + 1), buf ! (n + 2)]"
proof (rule nth_equalityI)
  show "length (take (n + 3) buf) = length (take n buf @ [buf ! n, buf ! (n + 1), buf ! (n + 2)])"
    using assms by simp
next
  fix i assume "i < length (take (n + 3) buf)"
  then have "i < n \<or> i = n \<or> i = n + 1 \<or> i = n + 2" and "i < n + 3" by auto
  then show "take (n + 3) buf ! i = (take n buf @ [buf ! n, buf ! (n + 1), buf ! (n + 2)]) ! i"
    using assms by (auto simp: nth_append)
qed

lemma block_checks_frame:
  assumes "block_checks buf"
  shows "take (unat (buf ! 0)) buf = frame (buf ! 1) (take (unat (buf ! 0) - 5) (drop 2 buf))"
proof -
  define n where "n = unat (buf ! 0)"
  have n: "5 \<le> n" "n \<le> 64" "n \<le> length buf" and sync: "buf ! (n - 1) = MESSAGE_SYNC"
    and crc: "crc16_ccitt (take (n - 3) buf) =
        push_bit 8 (ucast (buf ! (n - 3))) OR ucast (buf ! (n - 2))"
    using assms by (simp_all add: block_checks_def Let_def n_def)
  obtain m where m: "n = m + 5" using n(1) by (metis add.commute le_iff_add)
  have "2 \<le> length buf" using n by simp
  then obtain a b rest where buf: "buf = a # b # rest" by (rule length_list_2E)
  have a: "a = of_nat n" using buf by (simp add: n_def)
  have len: "length (take m rest) = m" using n m buf by simp
  have pre: "take (n - 3) buf = block_len (take m rest) # b # take m rest"
    using m buf a len by (simp add: numeral_eq_Suc block_len_def)
  have "take (m + 2 + 3) buf
      = take (m + 2) buf @ [buf ! (m + 2), buf ! (m + 2 + 1), buf ! (m + 2 + 2)]"
    using n m by (intro list_take_last3) simp
  then have "take n buf = take (n - 3) buf @ [buf ! (n - 3), buf ! (n - 2), buf ! (n - 1)]"
    by (simp add: m eval_nat_numeral)
  also have "\<dots> = frame b (take m rest)"
    using crc sync pre len by (simp add: frame_def Let_def crc_bytes_eq_iff)
  finally show ?thesis
    unfolding n_def [symmetric] using buf m by simp
qed

section \<open>What the search returns\<close>

definition seq_ok :: "u8 \<Rightarrow> bool" where
  "seq_ok seq \<longleftrightarrow> seq AND NOT MESSAGE_SEQ_MASK = MESSAGE_DEST"

definition synced :: "finder \<Rightarrow> bool" where
  "synced st \<longleftrightarrow> sync_state st AND CF_NEED_SYNC = 0"

definition next_seq :: "u8 \<Rightarrow> u8" where
  "next_seq seq = ((seq + 1) AND MESSAGE_SEQ_MASK) OR MESSAGE_DEST"

lemma find_block_synced:
  assumes "synced st" and "5 \<le> length buf"
  shows "command_find_block st buf =
     (if \<not> (5 \<le> unat (buf ! 0) \<and> unat (buf ! 0) \<le> 64) \<or> \<not> seq_ok (buf ! 1) then find_error st buf
      else if length buf < unat (buf ! 0) then find_need_more st
      else if \<not> block_checks buf then find_error st buf
      else let st1 = st\<lparr>sync_state := sync_state st AND NOT CF_NEED_VALID\<rparr> in
           if buf ! 1 = next_sequence st
           then \<lparr>fb_ret = 1, fb_pop = unat (buf ! 0), fb_nak = False,
                 fb_state = st1\<lparr>next_sequence := next_seq (buf ! 1)\<rparr>\<rparr>
           else \<lparr>fb_ret = -1, fb_pop = unat (buf ! 0), fb_nak = True, fb_state = st1\<rparr>)"
proof -
  define n where "n = unat (buf ! 0)"
  show ?thesis
  proof (cases "5 \<le> n \<and> n \<le> 64 \<and> seq_ok (buf ! 1) \<and> n \<le> length buf")
    case True
    then obtain m where m: "n = m + 5" by (metis add.commute le_iff_add)
    have "block_checks buf \<longleftrightarrow> buf ! (n - 1) = MESSAGE_SYNC \<and>
        crc16_ccitt (take (n - 3) buf) =
          push_bit 8 (ucast (buf ! (n - 3))) OR ucast (buf ! (n - 3 + 1))"
      using True by (simp add: block_checks_def Let_def n_def [symmetric] m eval_nat_numeral)
    with True assms show ?thesis
      unfolding command_find_block_def Let_def MESSAGE_POS_LEN_def n_def [symmetric]
      by (auto simp: message_consts seq_ok_def synced_def next_seq_def)
  next
    case False
    with assms show ?thesis
      unfolding command_find_block_def Let_def MESSAGE_POS_LEN_def n_def [symmetric]
      by (auto simp: message_consts seq_ok_def synced_def)
  qed
qed

lemma block_checks_of_frame:
  "length body \<le> 59 \<Longrightarrow> block_checks (frame seq body @ rest)"
  using frame_nth [where seq = seq and body = body and rest = rest] crc_bytes_join
  by (simp add: block_checks_def Let_def unat_block_len eval_nat_numeral)

lemma find_block_frame:
  assumes "synced st" and "length body \<le> 59" and "seq_ok seq"
  shows "command_find_block st (frame seq body @ rest) =
     (let st1 = st\<lparr>sync_state := sync_state st AND NOT CF_NEED_VALID\<rparr> in
      if seq = next_sequence st
      then \<lparr>fb_ret = 1, fb_pop = length (frame seq body), fb_nak = False,
            fb_state = st1\<lparr>next_sequence := next_seq seq\<rparr>\<rparr>
      else \<lparr>fb_ret = -1, fb_pop = length (frame seq body), fb_nak = True, fb_state = st1\<rparr>)"
proof -
  have "unat (block_len body) = length body + 5"
    using assms(2) by (rule unat_block_len)
  then show ?thesis
    using assms block_checks_of_frame [OF assms(2), of seq rest]
      find_block_synced [OF assms(1), of "frame seq body @ rest"]
    by (simp add: Let_def frame_nth(1,2))
qed

lemma memchr_bound: "memchr buf c = Some k \<Longrightarrow> k < length buf \<and> buf ! k = c \<and> c \<notin> set (take k buf)"
proof -
  assume "memchr buf c = Some k"
  then have k: "k = length (takeWhile (\<lambda>x. x \<noteq> c) buf)" and "k < length buf"
    by (auto simp: memchr_def Let_def split: if_splits)
  then show ?thesis
    using nth_length_takeWhile [of "\<lambda>x. x \<noteq> c" buf] takeWhile_eq_take [of "\<lambda>x. x \<noteq> c" buf]
    by (auto dest: set_takeWhileD)
qed

lemma memchr_None: "memchr buf c = None \<longleftrightarrow> c \<notin> set buf"
proof
  assume "memchr buf c = None"
  then have "length (takeWhile (\<lambda>x. x \<noteq> c) buf) = length buf"
    using length_takeWhile_le [of "\<lambda>x. x \<noteq> c" buf] by (simp add: memchr_def Let_def split: if_splits)
  then have "takeWhile (\<lambda>x. x \<noteq> c) buf = buf" by (metis takeWhile_eq_take take_all order_refl)
  then show "c \<notin> set buf" by (metis set_takeWhileD)
next
  assume "c \<notin> set buf"
  then have "takeWhile (\<lambda>x. x \<noteq> c) buf = buf" by (auto simp: takeWhile_eq_all_conv)
  then show "memchr buf c = None" by (simp only: memchr_def Let_def) simp
qed

lemma find_need_sync_pop: "buf \<noteq> [] \<Longrightarrow> 0 < fb_pop (find_need_sync st buf) \<and> fb_pop (find_need_sync st buf) \<le> length buf"
  by (auto simp: find_need_sync_def Let_def split: option.splits dest: memchr_bound)

lemma find_need_sync_ret [simp]: "fb_ret (find_need_sync st buf) = -1"
  by (auto simp: find_need_sync_def Let_def split: option.splits)

lemma find_error_pop: "buf \<noteq> [] \<Longrightarrow> 0 < fb_pop (find_error st buf) \<and> fb_pop (find_error st buf) \<le> length buf"
  using find_need_sync_pop [of buf] by (cases buf) (auto simp: find_error_def)

lemma find_error_ret [simp]: "fb_ret (find_error st buf) = -1"
  by (simp add: find_error_def)

lemma find_block_cases:
  obtains (short) "command_find_block st buf = find_need_more st" "length buf < 64"
  | (sync) "command_find_block st buf = find_need_sync st buf" "buf \<noteq> []"
  | (bad) "command_find_block st buf = find_error st buf" "buf \<noteq> []"
  | (nak) "block_checks buf" "seq_ok (buf ! 1)" "buf ! 1 \<noteq> next_sequence st" "synced st"
      "command_find_block st buf = \<lparr>fb_ret = -1, fb_pop = unat (buf ! 0), fb_nak = True,
         fb_state = st\<lparr>sync_state := sync_state st AND NOT CF_NEED_VALID\<rparr>\<rparr>"
  | (good) "block_checks buf" "seq_ok (buf ! 1)" "buf ! 1 = next_sequence st" "synced st"
      "command_find_block st buf = \<lparr>fb_ret = 1, fb_pop = unat (buf ! 0), fb_nak = False,
         fb_state = st\<lparr>sync_state := sync_state st AND NOT CF_NEED_VALID,
                       next_sequence := next_seq (buf ! 1)\<rparr>\<rparr>"
proof (cases "synced st")
  case False
  then show ?thesis
    by (cases "buf = []")
      (auto simp: command_find_block_def synced_def message_consts intro: short sync)
next
  case True
  show ?thesis
  proof (cases "5 \<le> length buf")
    case False
    with True show ?thesis
      by (intro short) (auto simp: command_find_block_def synced_def message_consts)
  next
    case len: True
    then have ne: "buf \<noteq> []" by auto
    show ?thesis
      using find_block_synced [OF True len] ne True
      by (auto simp: Let_def not_le split: if_splits intro: short bad nak good)
  qed
qed

lemma block_checks_len: "block_checks buf \<Longrightarrow> 5 \<le> unat (buf ! 0) \<and> unat (buf ! 0) \<le> 64 \<and> unat (buf ! 0) \<le> length buf"
  by (simp add: block_checks_def Let_def)

lemma sync_bit7 [simp]: "MESSAGE_SYNC AND 0x80 = 0"
  by (simp add: MESSAGE_SYNC_def)

section \<open>The parser stays inside a block\<close>

lemma parse_params_safe:
  assumes "maxend + 3 \<le> length buf" and "buf ! (maxend + 2) AND 0x80 = 0"
  shows "p \<le> maxend + 3 \<Longrightarrow>
    (\<exists>args' p'. parse_params ts buf p maxend args s = Ret (args', p') s \<and> p \<le> p' \<and> p' \<le> maxend + 3) \<or>
    parse_params ts buf p maxend args s = Shutdown ''Command parser error'' s"
proof (induction ts arbitrary: p args)
  case Nil
  then show ?case by simp
next
  case (Cons t ts)
  show ?case
  proof (cases "maxend < p")
    case True
    then show ?thesis by simp
  next
    case False
    then have "p \<le> maxend + 2" by simp
    then obtain v p' where v: "parse_int buf p = Some (v, p')" "p < p'" "p' \<le> maxend + 3"
      using parse_int_bounded [of p "maxend + 2" buf] assms by auto
    consider (int) "t \<in> {PT_uint32, PT_int32, PT_uint16, PT_int16, PT_byte}"
      | (buf) "t = PT_buffer" | (other) "t = PT_string \<or> t = PT_progmem_buffer"
      by (cases t) auto
    then show ?thesis
    proof cases
      case int
      then have "parse_params (t # ts) buf p maxend args s
          = parse_params ts buf p' maxend (args @ [v]) s"
        using False v by auto
      with Cons.IH [OF v(3), of "args @ [v]"] v(2) show ?thesis
        by (metis less_imp_le order_trans)
    next
      case buf
      let ?q = "Suc p + unat (buf ! p)"
      have "rd buf p = Some (buf ! p)" using False assms(1) by (simp add: rd_def)
      then have eq: "parse_params (t # ts) buf p maxend args s =
          (if maxend < ?q then Shutdown ''Command parser error'' s
           else parse_params ts buf ?q maxend (args @ [ucast (buf ! p), of_nat (Suc p)]) s)"
        using buf False by (simp add: Let_def)
      show ?thesis
      proof (cases "maxend < ?q")
        case True
        then show ?thesis unfolding eq by simp
      next
        case le: False
        then have "?q \<le> maxend + 3" and "p \<le> ?q" by simp_all
        with Cons.IH [of ?q "args @ [ucast (buf ! p), of_nat (Suc p)]"] le show ?thesis
          unfolding eq by (metis order_trans)
      qed
    next
      case other
      then show ?thesis by auto
    qed
  qed
qed

lemma parse_msgid_safe:
  "Suc p < length buf \<Longrightarrow>
   \<exists>i p'. command_parse_msgid buf p = Some (i, p') \<and> p < p' \<and> p' \<le> Suc (Suc p)"
  by (auto simp: command_parse_msgid_def rd_def)

section \<open>The size of an encoded response\<close>

definition int_param :: "param_type \<Rightarrow> bool" where
  "int_param t \<longleftrightarrow> t \<in> {PT_uint32, PT_int32, PT_uint16, PT_int16, PT_byte}"

lemma encode_params_ints:
  assumes "\<forall>t \<in> set ts. int_param t" and "length acc + 5 * length ts \<le> room" and "length vs = length ts"
  shows "encode_params (ts @ us) (map VInt vs @ rest) room acc s =
         encode_params us rest room (acc @ concat (map encode_int vs)) s"
  using assms
proof (induction ts arbitrary: vs acc)
  case Nil
  then show ?case by simp
next
  case (Cons t ts)
  then obtain v vs' where vs: "vs = v # vs'" by (cases vs) auto
  have "length (acc @ encode_int v) + 5 * length ts \<le> room"
    using Cons.prems(2) length_encode_int(2) [of v] by simp
  with Cons.IH [of "acc @ encode_int v" vs'] Cons.prems vs show ?case
    by (simp add: int_param_def)
qed

lemma length_encode_ints: "length (concat (map encode_int vs)) \<le> 5 * length vs"
proof (induction vs)
  case (Cons v vs)
  then show ?case using length_encode_int(2) [of v] by simp
qed simp

lemma length_encode_msgid: "1 \<le> length (encode_msgid i) \<and> length (encode_msgid i) \<le> 2"
  by (simp add: encode_msgid_def)

lemma command_encodef_ints:
  assumes "\<forall>t \<in> set (ce_param_types ce). int_param t"
    and "length (encode_msgid (ce_encoded_msgid ce)) + 5 * length vs + 5 \<le> unat (ce_max_size ce)"
    and "length vs = length (ce_param_types ce)"
  shows "command_encodef ce (map VInt vs) s =
     Ret (encode_msgid (ce_encoded_msgid ce) @ concat (map encode_int vs),
          length (encode_msgid (ce_encoded_msgid ce) @ concat (map encode_int vs)) + 5) s"
proof -
  have "5 < unat (ce_max_size ce)"
    using assms(2) length_encode_msgid [of "ce_encoded_msgid ce"] by linarith
  moreover have room: "length (encode_msgid (ce_encoded_msgid ce)) + 5 * length (ce_param_types ce)
      \<le> unat (ce_max_size ce) - 5"
    using assms(2,3) by linarith
  ultimately show ?thesis
    using encode_params_ints [OF assms(1) room assms(3), where us = "[]" and rest = "[]" and s = s]
    by (simp add: command_encodef_def message_consts)
qed

text \<open>Leaving the wait for a sync byte.\<close>

lemma memchr_append: "c \<notin> set g \<Longrightarrow> memchr (g @ c # ys) c = Some (length g)"
proof -
  assume "c \<notin> set g"
  then have "takeWhile (\<lambda>x. x \<noteq> c) (g @ c # ys) = g"
    by (subst takeWhile_append2) auto
  then show ?thesis by (simp only: memchr_def Let_def) simp
qed

lemma find_need_sync_at:
  assumes "\<not> synced st" and "MESSAGE_SYNC \<notin> set g"
  shows "command_find_block st (g @ MESSAGE_SYNC # ys) =
     \<lparr>fb_ret = -1, fb_pop = length g + 1, fb_nak = (sync_state st AND CF_NEED_VALID = 0),
      fb_state = st\<lparr>sync_state := (sync_state st AND NOT CF_NEED_SYNC) OR CF_NEED_VALID\<rparr>\<rparr>"
proof -
  have valid: "(sync_state st AND NOT CF_NEED_SYNC) AND CF_NEED_VALID = sync_state st AND CF_NEED_VALID"
    by (rule bit_word_eqI) (auto simp: bit_simps CF_NEED_SYNC_def CF_NEED_VALID_def)
  have keep: "sync_state st AND CF_NEED_VALID \<noteq> 0 \<Longrightarrow>
      (sync_state st AND NOT CF_NEED_SYNC) OR CF_NEED_VALID = sync_state st AND NOT CF_NEED_SYNC"
  proof -
    assume "sync_state st AND CF_NEED_VALID \<noteq> 0"
    then have "bit (sync_state st) 1"
      using and_exp_eq_0_iff_not_bit [of "sync_state st" 1] by (simp add: CF_NEED_VALID_def)
    then show ?thesis
      by (intro bit_word_eqI) (auto simp: bit_simps CF_NEED_SYNC_def CF_NEED_VALID_def)
  qed
  have "command_find_block st (g @ MESSAGE_SYNC # ys) = find_need_sync st (g @ MESSAGE_SYNC # ys)"
    using assms(1) by (simp add: command_find_block_def synced_def)
  then show ?thesis
    using assms(2) valid keep by (simp add: find_need_sync_def memchr_append)
qed

section \<open>Properties\<close>

text \<open>A frame whose sequence byte is the expected one is found
  whatever follows it: \<^verbatim>\<open>command_find_block\<close> returns 1, pops exactly the frame and expects
  the next sequence number; with another sequence number the frame is popped and a nak is
  sent, and the expected number is kept.\<close>

theorem find_block_accepts:
  assumes "sync_state st AND CF_NEED_SYNC = 0" and "length body \<le> MESSAGE_PAYLOAD_MAX"
    and "seq AND NOT MESSAGE_SEQ_MASK = MESSAGE_DEST"
  shows "command_find_block st (frame seq body @ rest) =
     (let st1 = st\<lparr>sync_state := sync_state st AND NOT CF_NEED_VALID\<rparr> in
      if seq = next_sequence st
      then \<lparr>fb_ret = 1, fb_pop = length (frame seq body), fb_nak = False,
            fb_state = st1\<lparr>next_sequence := ((seq + 1) AND MESSAGE_SEQ_MASK) OR MESSAGE_DEST\<rparr>\<rparr>
      else \<lparr>fb_ret = -1, fb_pop = length (frame seq body), fb_nak = True, fb_state = st1\<rparr>)"
  using find_block_frame [of st body seq rest] assms
  by (simp add: synced_def seq_ok_def next_seq_def message_consts Let_def)

theorem find_block_accepts_witness:
  "fb_ret (command_find_block finder_init (frame 0x10 [1, 2, 3] @ [0xaa])) = 1"
  using find_block_accepts [of finder_init "[1, 2, 3]" "0x10" "[0xaa]"]
  by (simp add: finder_init_def message_consts CF_NEED_SYNC_def CF_NEED_VALID_def)

text \<open>C8 (find_block_sound). When \<^verbatim>\<open>command_find_block\<close> reports a block, the bytes it pops
  are a well formed frame of at most 64 bytes that carries the expected sequence number; no
  other input is ever dispatched.\<close>

theorem find_block_sound:
  assumes "fb_ret (command_find_block st buf) = 1"
  shows "\<exists>body. take (fb_pop (command_find_block st buf)) buf = frame (next_sequence st) body
     \<and> length body \<le> MESSAGE_PAYLOAD_MAX
     \<and> fb_pop (command_find_block st buf) = length (frame (next_sequence st) body)
     \<and> next_sequence (fb_state (command_find_block st buf))
         = ((next_sequence st + 1) AND MESSAGE_SEQ_MASK) OR MESSAGE_DEST"
proof (cases rule: find_block_cases [of st buf])
  case good
  let ?body = "take (unat (buf ! 0) - 5) (drop 2 buf)"
  have fr: "take (unat (buf ! 0)) buf = frame (buf ! 1) ?body"
    using good(1) by (rule block_checks_frame)
  moreover have "length ?body = unat (buf ! 0) - 5"
    using block_checks_len [OF good(1)] by auto
  ultimately show ?thesis
    using good block_checks_len [OF good(1)]
    by (intro exI [of _ ?body]) (auto simp: next_seq_def message_consts)
qed (use assms in \<open>simp_all add: find_need_more_def\<close>)

theorem find_block_sound_witness:
  "fb_ret (command_find_block finder_init (frame 0x10 [5])) = 1 \<and>
   (\<exists>body. take (fb_pop (command_find_block finder_init (frame 0x10 [5]))) (frame 0x10 [5])
       = frame (next_sequence finder_init) body)"
proof -
  have "fb_ret (command_find_block finder_init (frame 0x10 [5])) = 1"
    by code_simp
  with find_block_sound [of finder_init "frame 0x10 [5]"] show ?thesis by blast
qed

text \<open>A call never pops more than the buffer holds, pops at least
  one byte whenever it does not ask for more data, and never asks for more data once 64 bytes
  are there: a full receive buffer cannot get stuck.\<close>

theorem find_block_progress:
  "fb_pop (command_find_block st buf) \<le> length buf
   \<and> (fb_ret (command_find_block st buf) = 0 \<longleftrightarrow> fb_pop (command_find_block st buf) = 0)
   \<and> (fb_ret (command_find_block st buf) = 0 \<longrightarrow> length buf < MESSAGE_MAX)"
proof (cases rule: find_block_cases [of st buf])
  case short
  then show ?thesis by (simp add: find_need_more_def message_consts)
next
  case sync
  then show ?thesis using find_need_sync_pop [of buf st] by simp
next
  case bad
  then show ?thesis using find_error_pop [of buf st] by simp
next
  case nak
  then show ?thesis using block_checks_len [OF nak(1)] by simp
next
  case good
  then show ?thesis using block_checks_len [OF good(1)] by simp
qed

theorem find_block_progress_witness:
  "fb_ret (command_find_block finder_init (replicate 64 0)) \<noteq> 0"
  using find_block_progress [of finder_init "replicate 64 0"] by (auto simp: message_consts)

text \<open>Parsing a command of a block that passed the checks never
  reads outside the block: the result is a parse error or the position after the parameters,
  at most the length of the block. The reason is that the last byte of a block, the sync
  byte, ends every integer.\<close>

theorem parsef_inside_block:
  assumes "length body \<le> MESSAGE_PAYLOAD_MAX" and "p \<le> length (frame seq body)"
  shows "(\<exists>args p'. command_parsef (frame seq body) p (length (frame seq body) - MESSAGE_TRAILER_SIZE) ts s
            = Ret (args, p') s \<and> p \<le> p' \<and> p' \<le> length (frame seq body))
    \<or> command_parsef (frame seq body) p (length (frame seq body) - MESSAGE_TRAILER_SIZE) ts s
        = Shutdown ''Command parser error'' s"
proof -
  have "frame seq body ! (length body + 4) = MESSAGE_SYNC"
    using frame_nth(5) [of seq body "[]"] by simp
  moreover have "length body + 2 + 2 = length body + 4" by simp
  ultimately have "frame seq body ! (length body + 2 + 2) AND 0x80 = 0" by (simp only: sync_bit7)
  with parse_params_safe [of "length body + 2" "frame seq body" p ts "[]" s] assms show ?thesis
    by (simp add: command_parsef_def message_consts add.commute)
qed

theorem parsef_inside_block_witness:
  "(\<exists>args p'. command_parsef (frame 0x10 [1, 0x80]) 3 4 [PT_uint32] () = Ret (args, p') ()
      \<and> 3 \<le> p' \<and> p' \<le> 7)
   \<or> command_parsef (frame 0x10 [1, 0x80]) 3 4 [PT_uint32] () = Shutdown ''Command parser error'' ()"
  using parsef_inside_block [of "[1, 0x80]" 3 "0x10" "[PT_uint32]" "()"]
  by (simp add: message_consts)

text \<open>After an error the reader skips to the next sync byte, asks
  once for a retransmission and no more until a valid block arrives, and accepts the very next
  frame if it carries the expected sequence number.\<close>

theorem resync_after_garbage:
  fixes st :: finder and g body rest :: "u8 list"
  assumes "sync_state st AND CF_NEED_SYNC \<noteq> 0" and "MESSAGE_SYNC \<notin> set g"
    and "length body \<le> MESSAGE_PAYLOAD_MAX"
    and "next_sequence st AND NOT MESSAGE_SEQ_MASK = MESSAGE_DEST"
  defines "buf \<equiv> g @ MESSAGE_SYNC # frame (next_sequence st) body @ rest"
  defines "r1 \<equiv> command_find_block st buf"
  defines "r2 \<equiv> command_find_block (fb_state r1) (drop (fb_pop r1) buf)"
  shows "fb_pop r1 = length g + 1 \<and> (fb_nak r1 \<longleftrightarrow> sync_state st AND CF_NEED_VALID = 0)
    \<and> fb_ret r2 = 1 \<and> fb_pop r2 = length (frame (next_sequence st) body)"
proof -
  have ns: "\<not> synced st" using assms(1) by (simp add: synced_def)
  let ?st1 = "st\<lparr>sync_state := (sync_state st AND NOT CF_NEED_SYNC) OR CF_NEED_VALID\<rparr>"
  have r1: "r1 = \<lparr>fb_ret = -1, fb_pop = length g + 1,
      fb_nak = (sync_state st AND CF_NEED_VALID = 0), fb_state = ?st1\<rparr>"
    unfolding r1_def buf_def by (rule find_need_sync_at [OF ns assms(2)])
  have "(sync_state st AND NOT CF_NEED_SYNC OR CF_NEED_VALID) AND CF_NEED_SYNC = 0"
    by (rule bit_word_eqI) (auto simp: bit_simps CF_NEED_SYNC_def CF_NEED_VALID_def)
  then have "synced ?st1" by (simp add: synced_def)
  with find_block_frame [of ?st1 body "next_sequence st" rest] assms(3,4) show ?thesis
    by (simp add: r2_def r1 buf_def seq_ok_def message_consts Let_def)
qed

theorem resync_after_garbage_witness:
  "fb_pop (command_find_block \<lparr>next_sequence = 0x13, sync_state = 1\<rparr>
      ([0x55, 0x22] @ MESSAGE_SYNC # frame 0x13 [4] @ [])) = 3"
  using resync_after_garbage [of "\<lparr>next_sequence = 0x13, sync_state = 1\<rparr>" "[0x55, 0x22]" "[4]" "[]"]
  by (simp add: message_consts CF_NEED_SYNC_def CF_NEED_VALID_def)

text \<open>For a response whose parameters are integers and whose maximum
  size leaves five bytes for each, \<^verbatim>\<open>command_encode_and_frame\<close> stores exactly one frame with
  the current sequence number, whose payload is the message id and the encoded parameters,
  leaves the rest of the storage alone, and stays within the maximum size.\<close>

theorem response_is_framed:
  assumes "\<forall>t \<in> set (ce_param_types ce). int_param t"
    and "length (encode_msgid (ce_encoded_msgid ce)) + 5 * length vs + 5 \<le> unat (ce_max_size ce)"
    and "length vs = length (ce_param_types ce)"
    and "unat (ce_max_size ce) \<le> length buf"
  defines "body \<equiv> encode_msgid (ce_encoded_msgid ce) @ concat (map encode_int vs)"
  shows "command_encode_and_frame buf ce (map VInt vs) seq s
           = Ret (frame seq body @ drop (length (frame seq body)) buf, length (frame seq body)) s
       \<and> length (frame seq body) \<le> unat (ce_max_size ce)"
proof -
  have len: "length body + 5 \<le> unat (ce_max_size ce)"
    using assms(2) length_encode_ints [of vs] by (simp add: body_def)
  with assms(4) have "length body + 5 \<le> length buf" by simp
  from command_add_frame_frame [OF this, of seq] len assms(4) show ?thesis
    using command_encodef_ints [OF assms(1-3), of s]
    by (simp add: command_encode_and_frame_def body_def [symmetric] message_consts)
qed

theorem response_is_framed_witness:
  "command_encode_and_frame (replicate 64 0)
      \<lparr>ce_encoded_msgid = 3, ce_max_size = 16, ce_param_types = [PT_uint32, PT_byte]\<rparr>
      (map VInt [70000, 5]) 0x12 ()
    = Ret (frame 0x12 [3, 0x84, 0xa2, 0x70, 5] @ replicate 54 0, 10) ()"
  using response_is_framed [of "\<lparr>ce_encoded_msgid = 3, ce_max_size = 16,
      ce_param_types = [PT_uint32, PT_byte]\<rparr>" "[70000, 5]" "replicate 64 0" "0x12" "()"]
  by (simp add: int_param_def encode_msgid_def encode_int_def)

text \<open>C35 (response_buffer_overrun). The clamp of a buffer parameter leaves no room for the
  length byte: a response with an integer and a buffer longer than fits is one byte longer than
  its maximum size. With the maximum size 64 of \<^verbatim>\<open>identify_response\<close> the frame then has 65
  bytes, and building it in a block of \<^verbatim>\<open>MESSAGE_MAX\<close> bytes writes past its end.\<close>

theorem response_buffer_overrun:
  assumes "i < 0x80" and "64 \<le> unat count" and "64 \<le> length data" and "length buf = MESSAGE_MAX"
  defines "ce \<equiv> \<lparr>ce_encoded_msgid = i, ce_max_size = 64,
                 ce_param_types = [PT_uint32, PT_progmem_buffer]\<rparr>"
  shows "(\<exists>body. command_encodef ce [VInt offset, VBuf count data] s = Ret (body, 65) s)
       \<and> command_encode_and_frame buf ce [VInt offset, VBuf count data] seq s = Fault"
proof -
  let ?e = "encode_int offset"
  have e: "1 \<le> length ?e" "length ?e \<le> 5" using length_encode_int [of offset] by auto
  let ?n = "58 - length ?e"
  have n: "unat (of_nat ?n :: u32) = ?n" by (rule unat_of_nat_small) simp
  have "?n < unat count" "?n \<le> length data" using assms(2,3) by linarith+
  let ?body = "[ucast i] @ ?e @ ucast (of_nat ?n :: u32) # take ?n data"
  have id: "encode_msgid i = [ucast i]"
    using assms(1) msgid_small [of i] by (simp add: encode_msgid_def)
  have eq: "command_encodef ce [VInt offset, VBuf count data] s = Ret (?body, 65) s"
    using e \<open>?n < unat count\<close> \<open>?n \<le> length data\<close> n
    by (simp add: command_encodef_def ce_def message_consts id Let_def)
  then show ?thesis
    using assms(4) by (simp add: command_encode_and_frame_def message_consts)
qed

theorem response_buffer_overrun_witness:
  "command_encode_and_frame (replicate 64 0)
     \<lparr>ce_encoded_msgid = 0, ce_max_size = 64, ce_param_types = [PT_uint32, PT_progmem_buffer]\<rparr>
     [VInt 0, VBuf 255 (replicate 255 7)] 0x11 () = Fault"
  using response_buffer_overrun [of 0 255 "replicate 255 7" "replicate 64 0" 0 "()" "0x11"]
  by (simp add: message_consts)

end
