(* ===== verification/Board.thy ===== *)
theory Board
  imports Prelude
begin

text \<open>
  What the firmware sees of its board. The hardware itself is not code of the repository: a
  read of the clock or of an input pin returns the next value of a source the state carries
  (\<open>clk_src\<close>, \<open>pin_src\<close>), so every theorem holds for whatever the hardware delivers; output
  pins, the messages handed to \<^verbatim>\<open>console_sendf\<close> and the calls of \<^verbatim>\<open>timer_kick\<close> are
  recorded. The functions on times are those of \<^verbatim>\<open>src/src/generic/timer_irq.c\<close>.

  Records of the other components extend \<open>board\<close>, so an operation of one component applies
  unchanged to the state of the whole machine.
\<close>

section \<open>State\<close>

datatype marg = AInt u32 | ABuf "u8 list"

type_synonym out_msg = "string \<times> marg list"

record board =
  clock_freq :: u32
  clk_src :: "nat \<Rightarrow> u32"
  clk_pos :: nat
  pin_ok :: "u32 \<Rightarrow> bool"
  pin_src :: "u32 \<Rightarrow> nat \<Rightarrow> bool"
  pin_pos :: nat
  pin_out :: "u32 \<Rightarrow> bool"
  out :: "out_msg list"
  in_sendf :: u8
  timer_kicks :: nat

section \<open>Clock\<close>

definition timer_read_time :: "('a board_scheme) \<Rightarrow> u32 \<times> ('a board_scheme)" where
  "timer_read_time s = (clk_src s (clk_pos s), s\<lparr>clk_pos := Suc (clk_pos s)\<rparr>)"

definition timer_kick :: "('a board_scheme) \<Rightarrow> ('a board_scheme)" where
  "timer_kick s = s\<lparr>timer_kicks := Suc (timer_kicks s)\<rparr>"

definition timer_from_us :: "('a board_scheme) \<Rightarrow> u32 \<Rightarrow> u32" where
  "timer_from_us s us = us * (clock_freq s div 1000000)"

definition timer_is_before :: "u32 \<Rightarrow> u32 \<Rightarrow> bool" where
  "timer_is_before time1 time2 \<longleftrightarrow> sint (time1 - time2) < 0"

section \<open>Pins\<close>

text \<open>Every port of \<^verbatim>\<open>gpio_out_setup\<close> and \<^verbatim>\<open>gpio_in_setup\<close> refuses a pin the chip does
  not have; \<open>pin_ok\<close> says which pins it has. The pull-up of an input only changes what the
  hardware delivers.\<close>

definition gpio_out_setup :: "u32 \<Rightarrow> bool \<Rightarrow> ('a board_scheme) \<Rightarrow> (('a board_scheme), unit) res" where
  "gpio_out_setup pin val s =
     (if pin_ok s pin then Ret () (s\<lparr>pin_out := (pin_out s)(pin := val)\<rparr>)
      else Shutdown ''Not an output pin'' s)"

definition gpio_in_setup :: "u32 \<Rightarrow> u32 \<Rightarrow> ('a board_scheme) \<Rightarrow> (('a board_scheme), unit) res" where
  "gpio_in_setup pin pull_up s =
     (if pin_ok s pin then Ret () s else Shutdown ''Not an input pin'' s)"

definition gpio_out_write :: "u32 \<Rightarrow> bool \<Rightarrow> ('a board_scheme) \<Rightarrow> ('a board_scheme)" where
  "gpio_out_write pin val s = s\<lparr>pin_out := (pin_out s)(pin := val)\<rparr>"

definition gpio_out_toggle_noirq :: "u32 \<Rightarrow> ('a board_scheme) \<Rightarrow> ('a board_scheme)" where
  "gpio_out_toggle_noirq pin s = s\<lparr>pin_out := (pin_out s)(pin := \<not> pin_out s pin)\<rparr>"

definition gpio_in_read :: "u32 \<Rightarrow> ('a board_scheme) \<Rightarrow> bool \<times> ('a board_scheme)" where
  "gpio_in_read pin s = (pin_src s pin (pin_pos s), s\<lparr>pin_pos := Suc (pin_pos s)\<rparr>)"

section \<open>Responses\<close>

text \<open>\<^verbatim>\<open>command_sendf\<close> and \<^verbatim>\<open>sendf_shutdown\<close> of \<^verbatim>\<open>src/src/command.c\<close>: a response made
  while another one is being sent is dropped. \<^verbatim>\<open>console_sendf\<close> is the board's: here the
  message is recorded.\<close>

definition command_sendf :: "string \<Rightarrow> marg list \<Rightarrow> ('a board_scheme) \<Rightarrow> ('a board_scheme)" where
  "command_sendf fmt args s =
     (if in_sendf s \<noteq> 0 then s
      else let s1 = s\<lparr>in_sendf := 1\<rparr>;
               s2 = s1\<lparr>out := out s1 @ [(fmt, args)]\<rparr>
           in s2\<lparr>in_sendf := 0\<rparr>)"

definition sendf_shutdown :: "('a board_scheme) \<Rightarrow> ('a board_scheme)" where
  "sendf_shutdown s = s\<lparr>in_sendf := 0\<rparr>"

section \<open>Times on a 32 bit clock\<close>

lemma timer_is_before_uint: "timer_is_before a b \<longleftrightarrow> 2 ^ 31 \<le> uint (a - b)"
  by (simp add: timer_is_before_def sint_neg_iff_uint)

lemma timer_is_before_irrefl [simp]: "\<not> timer_is_before a a"
  by (simp add: timer_is_before_def)

lemma timer_is_before_shift: "timer_is_before (a + d) (b + d) \<longleftrightarrow> timer_is_before a b"
  by (simp add: timer_is_before_def)

lemma timer_is_before_plus:
  assumes "0 < uint d" and "uint d < 2 ^ 31"
  shows "timer_is_before a (a + d)" and "\<not> timer_is_before (a + d) a"
proof -
  have "uint (a - (a + d)) = 2 ^ 32 - uint d"
    using assms uint_diff_u32 [of 0 d] by simp
  with assms show "timer_is_before a (a + d)" by (simp add: timer_is_before_uint)
  show "\<not> timer_is_before (a + d) a" using assms by (simp add: timer_is_before_uint)
qed

text \<open>For times less than half the range after a common origin, the comparison is the one of
  the distances; this is what lets a sorted list be kept with it.\<close>

lemma timer_is_before_window:
  assumes "uint (a - o') < 2 ^ 31" and "uint (b - o') < 2 ^ 31"
  shows "timer_is_before a b \<longleftrightarrow> uint (a - o') < uint (b - o')"
proof -
  have diff: "uint (a - b) = (if uint (b - o') \<le> uint (a - o')
      then uint (a - o') - uint (b - o') else uint (a - o') - uint (b - o') + 2 ^ 32)"
    using uint_diff_u32 [of "a - o'" "b - o'"] by simp
  have pos: "0 \<le> uint (a - o')" "0 \<le> uint (b - o')" by simp_all
  show ?thesis
  proof (cases "uint (b - o') \<le> uint (a - o')")
    case True
    with diff have "uint (a - b) = uint (a - o') - uint (b - o')" by simp
    with pos assms have "uint (a - b) < 2 ^ 31" by linarith
    with True show ?thesis by (simp add: timer_is_before_uint)
  next
    case False
    with diff have "uint (a - b) = uint (a - o') - uint (b - o') + 2 ^ 32" by simp
    moreover have "- (2 ^ 31) < uint (a - o') - uint (b - o')" using pos assms by linarith
    ultimately have "2 ^ 31 \<le> uint (a - b)" by simp
    with False show ?thesis by (simp add: timer_is_before_uint)
  qed
qed

text \<open>Of two times half the range apart, every third time is before exactly one.\<close>

lemma timer_is_before_opposite:
  "timer_is_before w (p + 0x80000000) \<longleftrightarrow> \<not> timer_is_before w p"
proof -
  have "w - (p + 0x80000000) = (w - p) - 0x80000000" by simp
  moreover have "0 \<le> uint (w - p)" "uint (w - p) < 2 ^ 32"
    using uint_lt2p [of "w - p"] by simp_all
  ultimately show ?thesis
    unfolding timer_is_before_uint
    by (simp only:) (auto simp: uint_diff_u32 simp del: uint_word_ariths)
qed

end
