(* ===== verification/Sched.thy ===== *)
theory Sched
  imports Board
begin

text \<open>
  The scheduler of the firmware (\<^verbatim>\<open>src/src/sched.c\<close>): the linked list of timers, the wake
  flags of tasks and the shutdown state. A \<^verbatim>\<open>struct timer\<close> is an entry of the store
  \<open>timers\<close> under its address; \<^verbatim>\<open>next\<close> is an address or NULL (\<open>None\<close>). The three static
  timers have names of their own, the timers of configured objects are addressed by the object
  and the timer's place in it. Sections between \<^verbatim>\<open>irq_save\<close> and \<^verbatim>\<open>irq_restore\<close> run
  without interruption, so each operation is one function on the state.
\<close>

section \<open>State\<close>

datatype timer_id = PeriodicT | SentinelT | DeletedT | ObjT u8 nat

text \<open>The callbacks \<^verbatim>\<open>t->func\<close> may point to; \<open>Null_func\<close> is NULL, which
  \<^verbatim>\<open>CONFIG_INLINE_STEPPER_HACK\<close> takes for the stepper event.\<close>

datatype timer_func =
    Periodic_event | Sentinel_event | Deleted_event
  | Null_func | Stepper_event_full | Digital_load_event | Digital_toggle_event | Pwm_event | Pwm_end_event
  | Endstop_event | Endstop_oversample_event
  | Trsync_report_event | Trsync_expire_event
  | Analog_in_event | Buttons_event | Counter_event
  | Watchdog_event
  | Tmcuart_read_event | Tmcuart_read_sync_event | Tmcuart_send_finish_event | Tmcuart_send_event | Tmcuart_send_sync_event

record timer =
  t_next :: "timer_id option"
  t_func :: timer_func
  t_waketime :: u32

text \<open>\<^verbatim>\<open>SF_DONE\<close> and \<^verbatim>\<open>SF_RESCHEDULE\<close>.\<close>

datatype timer_res = SF_DONE | SF_RESCHEDULE

record sched = board +
  timers :: "timer_id \<Rightarrow> timer"
  timer_list :: timer_id
  last_insert :: timer_id
  tasks_status :: int
  tasks_busy :: int
  shutdown_status :: u8
  shutdown_reason :: string

definition TS_IDLE :: int where "TS_IDLE = -1"
definition TS_REQUESTED :: int where "TS_REQUESTED = 0"
definition TS_RUNNING :: int where "TS_RUNNING = 1"

text \<open>The static initialisers.\<close>

definition timers_init :: "timer_id \<Rightarrow> timer" where
  "timers_init t = (case t of
       PeriodicT \<Rightarrow> \<lparr>t_next = Some SentinelT, t_func = Periodic_event, t_waketime = 0\<rparr>
     | SentinelT \<Rightarrow> \<lparr>t_next = None, t_func = Sentinel_event, t_waketime = 0x80000000\<rparr>
     | DeletedT \<Rightarrow> \<lparr>t_next = None, t_func = Deleted_event, t_waketime = 0\<rparr>
     | ObjT _ _ \<Rightarrow> \<lparr>t_next = None, t_func = Null_func, t_waketime = 0\<rparr>)"

text \<open>The machine at power up: the clock frequency and what the clock and the pins deliver are
  the board's.\<close>

definition sched_boot :: "u32 \<Rightarrow> (nat \<Rightarrow> u32) \<Rightarrow> (u32 \<Rightarrow> nat \<Rightarrow> bool) \<Rightarrow> sched" where
  "sched_boot freq clk pins =
     \<lparr>clock_freq = freq, clk_src = clk, clk_pos = 0, pin_ok = (\<lambda>_. True), pin_src = pins,
      pin_pos = 0, pin_out = (\<lambda>_. False), out = [], in_sendf = 0, timer_kicks = 0,
      timers = timers_init, timer_list = PeriodicT, last_insert = PeriodicT,
      tasks_status = 0, tasks_busy = 0, shutdown_status = 0, shutdown_reason = []\<rparr>"

definition set_waketime :: "timer_id \<Rightarrow> u32 \<Rightarrow> ('a sched_scheme) \<Rightarrow> ('a sched_scheme)" where
  "set_waketime t w s = s\<lparr>timers := (timers s)(t := (timers s t)\<lparr>t_waketime := w\<rparr>)\<rparr>"

definition set_next :: "timer_id \<Rightarrow> timer_id option \<Rightarrow> ('a sched_scheme) \<Rightarrow> ('a sched_scheme)" where
  "set_next t n s = s\<lparr>timers := (timers s)(t := (timers s t)\<lparr>t_next := n\<rparr>)\<rparr>"

definition set_func :: "timer_id \<Rightarrow> timer_func \<Rightarrow> ('a sched_scheme) \<Rightarrow> ('a sched_scheme)" where
  "set_func t f s = s\<lparr>timers := (timers s)(t := (timers s t)\<lparr>t_func := f\<rparr>)\<rparr>"

abbreviation waketime :: "('a sched_scheme) \<Rightarrow> timer_id \<Rightarrow> u32" where
  "waketime s t \<equiv> t_waketime (timers s t)"

section \<open>Tasks\<close>

definition sched_wake_tasks :: "('a sched_scheme) \<Rightarrow> ('a sched_scheme)" where
  "sched_wake_tasks s = s\<lparr>tasks_status := TS_REQUESTED\<rparr>"

definition sched_check_set_tasks_busy :: "('a sched_scheme) \<Rightarrow> bool \<times> ('a sched_scheme)" where
  "sched_check_set_tasks_busy s =
     (if TS_REQUESTED \<le> tasks_busy s then (True, s)
      else (False, s\<lparr>tasks_busy := tasks_status s\<rparr>))"

text \<open>A \<^verbatim>\<open>struct task_wake\<close> is a byte of the state of the task's component: \<open>get\<close> reads it
  and \<open>upd\<close> updates it.\<close>

definition sched_wake_task :: "((u8 \<Rightarrow> u8) \<Rightarrow> ('a sched_scheme) \<Rightarrow> ('a sched_scheme)) \<Rightarrow> ('a sched_scheme) \<Rightarrow> ('a sched_scheme)" where
  "sched_wake_task upd s = upd (\<lambda>_. 1) (sched_wake_tasks s)"

definition sched_check_wake ::
  "(('a sched_scheme) \<Rightarrow> u8) \<Rightarrow> ((u8 \<Rightarrow> u8) \<Rightarrow> ('a sched_scheme) \<Rightarrow> ('a sched_scheme)) \<Rightarrow>
   ('a sched_scheme) \<Rightarrow> bool \<times> ('a sched_scheme)" where
  "sched_check_wake get upd s =
     (if get s = 0 then (False, s) else (True, upd (\<lambda>_. 0) s))"

section \<open>Shutdown\<close>

definition sched_shutdown :: "string \<Rightarrow> ('a sched_scheme) \<Rightarrow> (('a sched_scheme), 'b) res" where
  "sched_shutdown reason s = Shutdown reason s"

definition sched_try_shutdown :: "string \<Rightarrow> ('a sched_scheme) \<Rightarrow> (('a sched_scheme), unit) res" where
  "sched_try_shutdown reason s =
     (if shutdown_status s = 0 then sched_shutdown reason s else Ret () s)"

definition sched_is_shutdown :: "('a sched_scheme) \<Rightarrow> bool" where
  "sched_is_shutdown s \<longleftrightarrow> shutdown_status s \<noteq> 0"

definition sched_clear_shutdown :: "('a sched_scheme) \<Rightarrow> (('a sched_scheme), unit) res" where
  "sched_clear_shutdown s =
     (if shutdown_status s = 0 then sched_shutdown ''Shutdown cleared when not shutdown'' s
      else if shutdown_status s = 2 then Ret () s
      else Ret () (s\<lparr>shutdown_status := 0\<rparr>))"

text \<open>Ids of static strings are assigned at build time; \<open>str_id\<close> is that assignment.\<close>

definition sched_report_shutdown :: "(string \<Rightarrow> u32) \<Rightarrow> ('a sched_scheme) \<Rightarrow> ('a sched_scheme)" where
  "sched_report_shutdown str_id s =
     command_sendf ''is_shutdown static_string_id=%hu'' [AInt (str_id (shutdown_reason s))] s"

section \<open>Timers\<close>

text \<open>The loop of \<^verbatim>\<open>insert_timer\<close>: \<open>None\<close> is a NULL dereference past the sentinel or a
  walk that never ends.\<close>

partial_function (option) insert_pos ::
  "(timer_id \<Rightarrow> timer) \<Rightarrow> timer_id \<Rightarrow> u32 \<Rightarrow> (timer_id \<times> timer_id) option" where
  "insert_pos tm pos w =
     (case t_next (tm pos) of None \<Rightarrow> None
      | Some nx \<Rightarrow> if timer_is_before w (t_waketime (tm nx)) then Some (pos, nx)
                   else insert_pos tm nx w)"

definition insert_timer ::
  "timer_id \<Rightarrow> timer_id \<Rightarrow> u32 \<Rightarrow> ('a sched_scheme) \<Rightarrow> (('a sched_scheme), unit) res" where
  "insert_timer pos t w s =
     (case insert_pos (timers s) pos w of None \<Rightarrow> Fault
      | Some (prev, pos) \<Rightarrow> Ret () (set_next prev (Some t) (set_next t (Some pos) s)))"

definition sched_add_timer :: "timer_id \<Rightarrow> ('a sched_scheme) \<Rightarrow> (('a sched_scheme), unit) res" where
  "sched_add_timer add s =
     (let w = waketime s add; tl = timer_list s in
      if timer_is_before w (waketime s tl) then
        let (now, s) = timer_read_time s in
        bindR (if timer_is_before w now then sched_try_shutdown ''Timer too close'' s else Ret () s)
          (\<lambda>_ s. let s = set_next add (if tl = DeletedT then t_next (timers s DeletedT) else Some tl) s;
                     s = set_waketime DeletedT w s;
                     s = set_next DeletedT (Some add) s;
                     s = s\<lparr>timer_list := DeletedT\<rparr>
                 in Ret () (timer_kick s))
      else insert_timer tl add w s)"

text \<open>The loop of \<^verbatim>\<open>sched_del_timer\<close>: the timer before \<open>del\<close>, if there is one.\<close>

partial_function (option) find_prev ::
  "(timer_id \<Rightarrow> timer) \<Rightarrow> timer_id \<Rightarrow> timer_id \<Rightarrow> timer_id option option" where
  "find_prev tm pos del =
     (case t_next (tm pos) of None \<Rightarrow> Some None
      | Some nx \<Rightarrow> if nx = del then Some (Some pos) else find_prev tm nx del)"

definition sched_del_timer :: "timer_id \<Rightarrow> ('a sched_scheme) \<Rightarrow> (('a sched_scheme), unit) res" where
  "sched_del_timer del s =
     bindR
       (if timer_list s = del then
          let s = set_waketime DeletedT (waketime s del) s;
              s = set_next DeletedT (t_next (timers s del)) s
          in Ret () (s\<lparr>timer_list := DeletedT\<rparr>)
        else (case find_prev (timers s) (timer_list s) del of
                None \<Rightarrow> Fault
              | Some None \<Rightarrow> Ret () s
              | Some (Some pos) \<Rightarrow> Ret () (set_next pos (t_next (timers s del)) s)))
       (\<lambda>_ s. Ret () (if last_insert s = del then s\<lparr>last_insert := PeriodicT\<rparr> else s))"

definition periodic_event :: "('a sched_scheme) \<Rightarrow> timer_res \<times> ('a sched_scheme)" where
  "periodic_event s =
     (let s = sched_wake_tasks s;
          s = set_waketime PeriodicT (waketime s PeriodicT + timer_from_us s 100000) s;
          s = set_waketime SentinelT (waketime s PeriodicT + 0x80000000) s
      in (SF_RESCHEDULE, s))"

text \<open>The callbacks of configured objects are in other files: \<open>call\<close> stands for
  \<^verbatim>\<open>t->func(t)\<close> on those.\<close>

definition timer_func_call ::
  "(timer_func \<Rightarrow> timer_id \<Rightarrow> ('a sched_scheme) \<Rightarrow> (('a sched_scheme), timer_res) res) \<Rightarrow>
   timer_id \<Rightarrow> ('a sched_scheme) \<Rightarrow> (('a sched_scheme), timer_res) res" where
  "timer_func_call call t s = (case t_func (timers s t) of
       Periodic_event \<Rightarrow> (case periodic_event s of (r, s) \<Rightarrow> Ret r s)
     | Sentinel_event \<Rightarrow> sched_shutdown ''sentinel timer called'' s
     | Deleted_event \<Rightarrow> Ret SF_DONE s
     | f \<Rightarrow> call f t s)"

definition sched_timer_dispatch ::
  "(timer_func \<Rightarrow> timer_id \<Rightarrow> ('a sched_scheme) \<Rightarrow> (('a sched_scheme), timer_res) res) \<Rightarrow>
   ('a sched_scheme) \<Rightarrow> (('a sched_scheme), u32) res" where
  "sched_timer_dispatch call s =
     (let t = timer_list s in
      bindR (timer_func_call call t s) (\<lambda>res s.
        let updated_waketime = waketime s t in
        if res = SF_DONE then
          (case t_next (timers s t) of None \<Rightarrow> Fault
           | Some nx \<Rightarrow>
               let s = s\<lparr>timer_list := nx\<rparr>;
                   s = (if last_insert s = t then s\<lparr>last_insert := nx\<rparr> else s)
               in Ret (waketime s nx) s)
        else
          (case t_next (timers s t) of None \<Rightarrow> Fault
           | Some nx \<Rightarrow>
               if timer_is_before updated_waketime (waketime s nx) then Ret updated_waketime s
               else let next_waketime = waketime s nx;
                        s = s\<lparr>timer_list := nx\<rparr>;
                        pos = last_insert s;
                        pos = (if timer_is_before updated_waketime (waketime s pos) then timer_list s else pos)
                    in bindR (insert_timer pos t updated_waketime s)
                         (\<lambda>_ s. Ret next_waketime (s\<lparr>last_insert := t\<rparr>)))))"

definition sched_timer_reset :: "('a sched_scheme) \<Rightarrow> ('a sched_scheme)" where
  "sched_timer_reset s =
     (let s = s\<lparr>timer_list := DeletedT\<rparr>;
          s = set_waketime DeletedT (waketime s PeriodicT) s;
          s = s\<lparr>last_insert := PeriodicT\<rparr>;
          s = set_next DeletedT (Some PeriodicT) s;
          s = set_next PeriodicT (Some SentinelT) s
      in timer_kick s)"

section \<open>Main loop\<close>

text \<open>\<^verbatim>\<open>run_shutdown\<close>: \<open>funcs\<close> are the functions declared with \<^verbatim>\<open>DECL_SHUTDOWN\<close>
  (\<^verbatim>\<open>ctr_run_shutdownfuncs\<close>, generated at build time).\<close>

definition run_shutdown ::
  "(string \<Rightarrow> u32) \<Rightarrow> (('a sched_scheme) \<Rightarrow> (('a sched_scheme), unit) res) \<Rightarrow>
   string \<Rightarrow> ('a sched_scheme) \<Rightarrow> (('a sched_scheme), unit) res" where
  "run_shutdown str_id funcs reason s =
     (let (cur, s) = timer_read_time s;
          s = (if shutdown_status s = 0 then s\<lparr>shutdown_reason := reason\<rparr> else s);
          s = s\<lparr>shutdown_status := 2\<rparr>;
          s = sched_timer_reset s
      in bindR (funcs s) (\<lambda>_ s.
           let s = s\<lparr>shutdown_status := 1\<rparr>
           in Ret () (command_sendf ''shutdown clock=%u static_string_id=%hu''
                        [AInt cur, AInt (str_id (shutdown_reason s))] s)))"

text \<open>One round of the loop of \<^verbatim>\<open>run_tasks\<close>. Timers run by interrupt between the statements
  where interrupts are enabled: \<open>poll\<close> is what they do at \<^verbatim>\<open>irq_poll\<close>, \<open>intr\<close> between the
  two tests of the status, \<open>sleep\<close> in the loop of \<^verbatim>\<open>irq_wait\<close> until one of them requested the
  tasks.\<close>

definition run_tasks_round ::
  "(u32 \<Rightarrow> u32 \<Rightarrow> ('a sched_scheme) \<Rightarrow> ('a sched_scheme)) \<Rightarrow>
   (('a sched_scheme) \<Rightarrow> (('a sched_scheme), unit) res) \<Rightarrow>
   (('a sched_scheme) \<Rightarrow> (('a sched_scheme), unit) res) \<Rightarrow>
   (('a sched_scheme) \<Rightarrow> (('a sched_scheme), unit) res) \<Rightarrow>
   (('a sched_scheme) \<Rightarrow> (('a sched_scheme), unit) res) \<Rightarrow>
   u32 \<Rightarrow> ('a sched_scheme) \<Rightarrow> (('a sched_scheme), u32) res" where
  "run_tasks_round stats_update poll intr sleep taskfuncs start s =
     bindR (poll s) (\<lambda>_ s.
     bindR
       (if tasks_status s \<noteq> TS_REQUESTED then
          let (t1, s) = timer_read_time s; start = start - t1 in
          bindR (intr s) (\<lambda>_ s.
          bindR (if tasks_status s \<noteq> TS_REQUESTED
                 then sleep (s\<lparr>tasks_status := TS_IDLE, tasks_busy := TS_IDLE\<rparr>) else Ret () s) (\<lambda>_ s.
            let (t2, s) = timer_read_time s in Ret (start + t2) s))
        else Ret start s)
       (\<lambda>start s.
          let s = s\<lparr>tasks_status := TS_RUNNING\<rparr>
          in bindR (taskfuncs s) (\<lambda>_ s.
               let (cur, s) = timer_read_time s
               in Ret cur (stats_update start cur s))))"

text \<open>\<^verbatim>\<open>sched_main\<close> returns to \<^verbatim>\<open>setjmp\<close> on every shutdown: the shutdown functions run,
  and a shutdown inside them starts over. \<open>fuel\<close> bounds how often they may fail in a row.\<close>

fun handle_shutdown ::
  "nat \<Rightarrow> (string \<Rightarrow> u32) \<Rightarrow> (('a sched_scheme) \<Rightarrow> (('a sched_scheme), unit) res) \<Rightarrow>
   (('a sched_scheme), unit) res \<Rightarrow> ('a sched_scheme) option" where
  "handle_shutdown fuel str_id funcs (Ret _ s) = Some s"
| "handle_shutdown fuel str_id funcs Fault = None"
| "handle_shutdown 0 str_id funcs (Shutdown r s) = None"
| "handle_shutdown (Suc fuel) str_id funcs (Shutdown r s) =
     handle_shutdown fuel str_id funcs (run_shutdown str_id funcs r s)"

section \<open>The list of timers\<close>

text \<open>\<open>chain tm xs\<close>: following \<^verbatim>\<open>next\<close> from the first of \<open>xs\<close> visits \<open>xs\<close> and ends at
  NULL.\<close>

fun chain :: "(timer_id \<Rightarrow> timer) \<Rightarrow> timer_id list \<Rightarrow> bool" where
  "chain tm [] \<longleftrightarrow> False"
| "chain tm [x] \<longleftrightarrow> t_next (tm x) = None"
| "chain tm (x # y # r) \<longleftrightarrow> t_next (tm x) = Some y \<and> chain tm (y # r)"

text \<open>The invariant of the scheduler's list: it is finite and not circular, ends with the
  sentinel, holds the periodic timer, has the deleted timer at most in front, and the sentinel
  is half the clock's range after the periodic timer.\<close>

definition timer_funcs_ok :: "(timer_id \<Rightarrow> timer) \<Rightarrow> bool" where
  "timer_funcs_ok tm \<longleftrightarrow>
     t_func (tm PeriodicT) = Periodic_event \<and> t_func (tm SentinelT) = Sentinel_event \<and>
     t_func (tm DeletedT) = Deleted_event"

definition tlist :: "('a sched_scheme) \<Rightarrow> timer_id list \<Rightarrow> bool" where
  "tlist s xs \<longleftrightarrow>
     chain (timers s) xs \<and> distinct xs \<and> hd xs = timer_list s \<and> last xs = SentinelT \<and>
     PeriodicT \<in> set xs \<and> DeletedT \<notin> set (tl xs) \<and>
     last_insert s \<in> set xs - {SentinelT, DeletedT} \<and>
     waketime s SentinelT = waketime s PeriodicT + 0x80000000 \<and>
     timer_funcs_ok (timers s)"

lemma sched_set_simps [simp]:
  "t_waketime (timers (set_next t n s) x) = waketime s x"
  "t_func (timers (set_next t n s) x) = t_func (timers s x)"
  "t_next (timers (set_next t n s) x) = (if x = t then n else t_next (timers s x))"
  "t_waketime (timers (set_waketime t w s) x) = (if x = t then w else waketime s x)"
  "t_func (timers (set_waketime t w s) x) = t_func (timers s x)"
  "t_next (timers (set_waketime t w s) x) = t_next (timers s x)"
  "timer_list (set_next t n s) = timer_list s" "last_insert (set_next t n s) = last_insert s"
  "timer_list (set_waketime t w s) = timer_list s" "last_insert (set_waketime t w s) = last_insert s"
  "shutdown_status (set_next t n s) = shutdown_status s"
  "shutdown_status (set_waketime t w s) = shutdown_status s"
  by (simp_all add: set_next_def set_waketime_def)

lemma board_op_timers [simp]:
  "timers (timer_kick s) = timers s" "timer_list (timer_kick s) = timer_list s"
  "last_insert (timer_kick s) = last_insert s" "shutdown_status (timer_kick s) = shutdown_status s"
  by (simp_all add: timer_kick_def)

lemma chain_cong:
  "(\<And>x. x \<in> set xs \<Longrightarrow> t_next (tm x) = t_next (tm' x)) \<Longrightarrow> chain tm xs \<longleftrightarrow> chain tm' xs"
  by (induction tm xs rule: chain.induct) auto

lemma chain_Cons: "ys \<noteq> [] \<Longrightarrow> chain tm (x # ys) \<longleftrightarrow> t_next (tm x) = Some (hd ys) \<and> chain tm ys"
  by (cases ys) auto

lemma chain_append:
  "ys \<noteq> [] \<Longrightarrow> chain tm (xs @ ys) \<Longrightarrow> chain tm ys"
proof (induction xs)
  case (Cons x xs)
  then show ?case by (cases xs) (auto simp: chain_Cons)
qed simp

lemma chain_last_None: "chain tm xs \<Longrightarrow> t_next (tm (last xs)) = None"
  by (induction tm xs rule: chain.induct) auto

text \<open>What does not touch the links and the static timers keeps the invariant.\<close>

lemma tlist_frame:
  assumes "\<And>x. t_next (timers s' x) = t_next (timers s x)"
    and "\<And>x. x \<in> {PeriodicT, SentinelT, DeletedT} \<Longrightarrow> timers s' x = timers s x"
    and "timer_list s' = timer_list s" and "last_insert s' = last_insert s"
  shows "tlist s' xs \<longleftrightarrow> tlist s xs"
  using assms chain_cong [of xs "timers s'" "timers s"]
  by (simp add: tlist_def timer_funcs_ok_def)

text \<open>Where \<^verbatim>\<open>insert_timer\<close> stops, seen on the list.\<close>

lemma insert_pos_chain:
  assumes "chain tm (pos # zs)" and "\<exists>x \<in> set zs. timer_is_before w (t_waketime (tm x))"
  shows "insert_pos tm pos w =
     Some (last (pos # takeWhile (\<lambda>x. \<not> timer_is_before w (t_waketime (tm x))) zs),
           hd (dropWhile (\<lambda>x. \<not> timer_is_before w (t_waketime (tm x))) zs))"
  using assms
proof (induction zs arbitrary: pos)
  case (Cons z zs)
  show ?case
  proof (cases "timer_is_before w (t_waketime (tm z))")
    case True
    with Cons.prems show ?thesis by (subst insert_pos.simps) simp
  next
    case False
    then have "insert_pos tm pos w = insert_pos tm z w"
      using Cons.prems by (subst insert_pos.simps) simp
    with False Cons.prems Cons.IH [of z] show ?thesis by simp
  qed
qed simp

text \<open>Linking a timer in between two neighbours.\<close>

lemma chain_splice:
  assumes "chain tm (us @ p # n # vs)" and "t \<notin> set (us @ p # n # vs)" and "distinct (us @ p # n # vs)"
    and "\<And>x. x \<notin> {p, t} \<Longrightarrow> t_next (tm' x) = t_next (tm x)"
    and "t_next (tm' t) = Some n" and "t_next (tm' p) = Some t"
  shows "chain tm' (us @ p # t # n # vs)"
  using assms(1-3)
proof (induction us)
  case Nil
  have "chain tm' (n # vs) \<longleftrightarrow> chain tm (n # vs)"
    using Nil.prems by (intro chain_cong assms(4)) auto
  with Nil assms(5,6) show ?case by simp
next
  case (Cons u us)
  have "t_next (tm' u) = t_next (tm u)" using Cons.prems by (intro assms(4)) auto
  with Cons show ?case by (cases us) (auto simp: chain_Cons)
qed

text \<open>Taking a timer out from behind another one.\<close>

lemma chain_unlink:
  assumes "chain tm (us @ p # d # vs)" and "distinct (us @ p # d # vs)" and "vs \<noteq> []"
    and "\<And>x. x \<noteq> p \<Longrightarrow> t_next (tm' x) = t_next (tm x)" and "t_next (tm' p) = t_next (tm d)"
  shows "chain tm' (us @ p # vs)"
  using assms(1-2)
proof (induction us)
  case Nil
  have "chain tm' vs \<longleftrightarrow> chain tm vs" using Nil.prems by (intro chain_cong assms(4)) auto
  with Nil assms(3,5) show ?case by (simp add: chain_Cons)
next
  case (Cons u us)
  have "t_next (tm' u) = t_next (tm u)" using Cons.prems by (intro assms(4)) auto
  with Cons show ?case by (cases us) (auto simp: chain_Cons)
qed

lemma find_prev_chain_None:
  "chain tm (pos # zs) \<Longrightarrow> d \<notin> set zs \<Longrightarrow> find_prev tm pos d = Some None"
proof (induction zs arbitrary: pos)
  case Nil
  then show ?case by (subst find_prev.simps) simp
next
  case (Cons z zs)
  then show ?case by (subst find_prev.simps) (auto simp: chain_Cons)
qed

lemma find_prev_chain:
  "chain tm (pos # us @ d # vs) \<Longrightarrow> d \<notin> set us \<Longrightarrow> find_prev tm pos d = Some (Some (last (pos # us)))"
proof (induction us arbitrary: pos)
  case Nil
  then show ?case by (subst find_prev.simps) (simp add: chain_Cons)
next
  case (Cons z zs)
  then show ?case by (subst find_prev.simps) (auto simp: chain_Cons)
qed

text \<open>\<open>due_by s w x\<close>: timer \<open>x\<close> is not after time \<open>w\<close>.\<close>

definition due_by :: "('a sched_scheme) \<Rightarrow> u32 \<Rightarrow> timer_id \<Rightarrow> bool" where
  "due_by s w x \<longleftrightarrow> \<not> timer_is_before w (waketime s x)"

definition insert_list :: "('a sched_scheme) \<Rightarrow> u32 \<Rightarrow> timer_id \<Rightarrow> timer_id list \<Rightarrow> timer_id list" where
  "insert_list s w t xs = takeWhile (due_by s w) xs @ t # dropWhile (due_by s w) xs"

lemma set_insert_list [simp]: "set (insert_list s w t xs) = insert t (set xs)"
  unfolding insert_list_def by simp (metis set_append takeWhile_dropWhile_id)

lemma distinct_insert_list [simp]:
  "distinct (insert_list s w t xs) \<longleftrightarrow> distinct xs \<and> t \<notin> set xs"
proof -
  have "distinct (as @ t # bs) \<longleftrightarrow> distinct (as @ bs) \<and> t \<notin> set (as @ bs)" for as bs :: "timer_id list"
    by auto
  from this [of "takeWhile (due_by s w) xs" "dropWhile (due_by s w) xs"] show ?thesis
    unfolding insert_list_def by (simp only: takeWhile_dropWhile_id)
qed

lemma insert_pos_from:
  assumes "chain (timers s) (us @ pos # zs)" and "\<forall>x \<in> set (us @ [pos]). due_by s w x"
    and "\<exists>x \<in> set zs. \<not> due_by s w x"
  shows "insert_pos (timers s) pos w =
     Some (last (takeWhile (due_by s w) (us @ pos # zs)), hd (dropWhile (due_by s w) (us @ pos # zs)))"
proof -
  have "chain (timers s) (pos # zs)" using assms(1) by (rule chain_append [rotated]) simp
  with insert_pos_chain [of "timers s" pos zs w] assms(2,3) show ?thesis
    by (auto simp: due_by_def [abs_def] takeWhile_append2 dropWhile_append2)
qed

lemma insert_timer_at:
  assumes "insert_pos (timers s) pos w =
      Some (last (takeWhile (due_by s w) ys), hd (dropWhile (due_by s w) ys))"
    and "chain (timers s) ys" and "distinct ys" and "t \<notin> set ys"
    and "due_by s w (hd ys)" and "\<exists>x \<in> set ys. \<not> due_by s w x"
  obtains s' where "insert_timer pos t w s = Ret () s'"
    and "s' = set_next (last (takeWhile (due_by s w) ys)) (Some t)
                (set_next t (Some (hd (dropWhile (due_by s w) ys))) s)"
    and "chain (timers s') (insert_list s w t ys)"
    and "hd (insert_list s w t ys) = hd ys" and "last (insert_list s w t ys) = last ys"
proof -
  let ?a = "takeWhile (due_by s w) ys" and ?b = "dropWhile (due_by s w) ys"
  have ab: "?a @ ?b = ys" by simp
  have a: "?a \<noteq> []" using assms(2,5) by (cases ys) auto
  have b: "?b \<noteq> []" using assms(6) by (auto simp: dropWhile_eq_Nil_conv)
  define s' where "s' = set_next (last ?a) (Some t) (set_next t (Some (hd ?b)) s)"
  have split: "ys = butlast ?a @ last ?a # hd ?b # tl ?b"
    by (simp only: butlast_last_Cons [OF a] list.collapse [OF b] ab)
  have "chain (timers s') (butlast ?a @ last ?a # t # hd ?b # tl ?b)"
  proof (rule chain_splice [where tm = "timers s"])
    show "t_next (timers s' t) = Some (hd ?b)"
      using assms(4) a by (auto simp: s'_def dest: set_takeWhileD last_in_set)
  qed (use assms(2-4) split in \<open>auto simp: s'_def\<close>)
  moreover have "butlast ?a @ last ?a # t # hd ?b # tl ?b = insert_list s w t ys"
    unfolding insert_list_def by (simp only: butlast_last_Cons [OF a] list.collapse [OF b])
  ultimately have "chain (timers s') (insert_list s w t ys)" by simp
  moreover have "hd (insert_list s w t ys) = hd ys" "last (insert_list s w t ys) = last ys"
    using a b ab unfolding insert_list_def
    by (metis hd_append2, metis last_append last_ConsR list.distinct(1))
  moreover have "insert_timer pos t w s = Ret () s'"
    using assms(1) by (simp add: insert_timer_def s'_def)
  ultimately show ?thesis using that s'_def by blast
qed

text \<open>Some timer of the list is after every time: the periodic timer or the sentinel.\<close>

lemma tlist_bound:
  assumes "tlist s xs"
  shows "due_by s w PeriodicT \<longleftrightarrow> \<not> due_by s w SentinelT"
  using assms timer_is_before_opposite [of w "waketime s PeriodicT"]
  by (simp add: tlist_def due_by_def)

lemma tlist_Cons:
  assumes "tlist s xs"
  obtains ys where "xs = timer_list s # ys" and "SentinelT \<in> set ys" and "ys \<noteq> []"
proof -
  obtain x ys where xs: "xs = x # ys" using assms by (cases xs) (auto simp: tlist_def)
  with assms have "x = timer_list s" "last (x # ys) = SentinelT" "PeriodicT \<in> set (x # ys)"
    by (auto simp: tlist_def)
  then have "ys \<noteq> []" by (cases ys) auto
  moreover from this \<open>last (x # ys) = SentinelT\<close> have "SentinelT \<in> set ys"
    using last_in_set [of ys] by simp
  ultimately show ?thesis using that xs \<open>x = timer_list s\<close> by blast
qed

lemma add_timer_insert:
  assumes "tlist s xs" and "t \<notin> set xs" and "t = ObjT i k"
    and "\<not> timer_is_before (waketime s t) (waketime s (timer_list s))"
  obtains s' where "sched_add_timer t s = Ret () s'"
    and "tlist s' (insert_list s (waketime s t) t xs)"
    and "\<And>x. waketime s' x = waketime s x"
proof -
  let ?w = "waketime s t"
  obtain ys where xs: "xs = timer_list s # ys" "SentinelT \<in> set ys" "ys \<noteq> []"
    using assms(1) by (rule tlist_Cons)
  have head: "due_by s ?w (timer_list s)" using assms(4) by (simp add: due_by_def)
  have ex: "\<exists>x \<in> set ys. \<not> due_by s ?w x"
  proof (cases "due_by s ?w PeriodicT")
    case True
    then show ?thesis using tlist_bound [OF assms(1)] xs by blast
  next
    case False
    then have "PeriodicT \<in> set ys" using assms(1) xs head by (auto simp: tlist_def)
    with False show ?thesis by blast
  qed
  have ch: "chain (timers s) xs" "distinct xs" using assms(1) by (auto simp: tlist_def)
  have pos: "insert_pos (timers s) (timer_list s) ?w =
      Some (last (takeWhile (due_by s ?w) xs), hd (dropWhile (due_by s ?w) xs))"
    using insert_pos_from [of s "[]" "timer_list s" ys ?w] ch(1) head ex xs by simp
  obtain s' where s': "insert_timer (timer_list s) t ?w s = Ret () s'"
    "s' = set_next (last (takeWhile (due_by s ?w) xs)) (Some t)
                (set_next t (Some (hd (dropWhile (due_by s ?w) xs))) s)"
    "chain (timers s') (insert_list s ?w t xs)"
    "hd (insert_list s ?w t xs) = hd xs" "last (insert_list s ?w t xs) = last xs"
    by (rule insert_timer_at [OF pos ch assms(2)]) (use head ex xs in auto)
  have tl: "set (tl (insert_list s ?w t xs)) = insert t (set ys)"
    using head xs(1) unfolding insert_list_def by simp (metis set_append takeWhile_dropWhile_id)
  have "tlist s' (insert_list s ?w t xs)"
    using assms(1,2,3) s'(3-5) tl xs(1)
    by (auto simp: tlist_def s'(2) timer_funcs_ok_def)
  moreover have "sched_add_timer t s = Ret () s'"
    using assms(4) s'(1) by (simp add: sched_add_timer_def)
  ultimately show ?thesis using that s'(2) by simp
qed

text \<open>A timer before all others goes to the front, behind the deleted timer, which makes the
  interrupt code look at the list again.\<close>

definition front_list :: "timer_id \<Rightarrow> timer_id list \<Rightarrow> timer_id list" where
  "front_list t xs = DeletedT # t # (if hd xs = DeletedT then tl xs else xs)"

lemma add_timer_front:
  assumes "tlist s xs" and "t \<notin> set xs" and "t = ObjT i k"
    and "timer_is_before (waketime s t) (waketime s (timer_list s))"
    and "\<not> timer_is_before (waketime s t) (clk_src s (clk_pos s)) \<or> shutdown_status s \<noteq> 0"
  obtains s' where "sched_add_timer t s = Ret () s'" and "tlist s' (front_list t xs)"
    and "\<And>x. x \<noteq> DeletedT \<Longrightarrow> waketime s' x = waketime s x"
    and "waketime s' DeletedT = waketime s t"
proof -
  obtain ys where xs: "xs = timer_list s # ys" "SentinelT \<in> set ys" "ys \<noteq> []"
    using assms(1) by (rule tlist_Cons)
  define s1 where "s1 = s\<lparr>clk_pos := Suc (clk_pos s)\<rparr>"
  define nx where "nx = (if timer_list s = DeletedT then t_next (timers s DeletedT) else Some (timer_list s))"
  define s' where "s' = timer_kick
     ((set_next DeletedT (Some t) (set_waketime DeletedT (waketime s t) (set_next t nx s1)))
        \<lparr>timer_list := DeletedT\<rparr>)"
  have nx: "nx = Some (hd (if timer_list s = DeletedT then ys else xs))"
    using assms(1) xs by (auto simp: nx_def tlist_def chain_Cons)
  have td: "t \<noteq> DeletedT" using assms(3) by simp
  have rest: "chain (timers s) (if timer_list s = DeletedT then ys else xs)"
    using assms(1) xs by (auto simp: tlist_def chain_Cons)
  have dn: "DeletedT \<notin> set (if timer_list s = DeletedT then ys else xs)"
    using assms(1) xs by (auto simp: tlist_def)
  have "chain (timers s') (if timer_list s = DeletedT then ys else xs)
      \<longleftrightarrow> chain (timers s) (if timer_list s = DeletedT then ys else xs)"
    using assms(2) xs dn by (intro chain_cong) (auto simp: s'_def s1_def split: if_splits)
  with rest nx td xs have ch: "chain (timers s') (front_list t xs)"
    by (auto simp: front_list_def chain_Cons s'_def s1_def)
  have "tlist s' (front_list t xs)"
    using assms(1,2,3) ch xs dn
    by (auto simp: tlist_def s'_def s1_def front_list_def timer_funcs_ok_def)
  moreover have "sched_add_timer t s = Ret () s'"
    using assms(4,5)
    by (auto simp: sched_add_timer_def Let_def timer_read_time_def sched_try_shutdown_def s'_def s1_def nx_def)
  moreover have "\<And>x. x \<noteq> DeletedT \<Longrightarrow> waketime s' x = waketime s x" "waketime s' DeletedT = waketime s t"
    by (simp_all add: s'_def s1_def)
  ultimately show ?thesis using that by blast
qed

text \<open>Removing a timer.\<close>

definition del_list :: "timer_id \<Rightarrow> timer_id list \<Rightarrow> timer_id list" where
  "del_list d xs = (if hd xs = d then DeletedT # tl xs else remove1 d xs)"

lemma del_timer_tlist:
  assumes "tlist s xs" and "d = ObjT i k"
  obtains s' where "sched_del_timer d s = Ret () s'" and "tlist s' (del_list d xs)"
    and "\<And>x. x \<noteq> DeletedT \<Longrightarrow> waketime s' x = waketime s x"
    and "\<And>x. t_func (timers s' x) = t_func (timers s x)"
    and "d \<noteq> timer_list s \<Longrightarrow> waketime s' DeletedT = waketime s DeletedT"
proof -
  obtain ys where xs: "xs = timer_list s # ys" "SentinelT \<in> set ys" "ys \<noteq> []"
    using assms(1) by (rule tlist_Cons)
  let ?li = "\<lambda>s'. if last_insert s' = d then s'\<lparr>last_insert := PeriodicT\<rparr> else s'"
  consider (hd) "timer_list s = d" | (out) "d \<notin> set xs" | (mid) "timer_list s \<noteq> d" "d \<in> set ys"
    using xs by auto
  then show ?thesis
  proof cases
    case hd
    define s1 where "s1 = (set_next DeletedT (t_next (timers s d))
        (set_waketime DeletedT (waketime s d) s))\<lparr>timer_list := DeletedT\<rparr>"
    have eq: "sched_del_timer d s = Ret () (?li s1)"
      using hd assms(2) by (simp add: sched_del_timer_def s1_def)
    have "chain (timers s1) ys \<longleftrightarrow> chain (timers s) ys"
      using assms(1) xs by (intro chain_cong) (auto simp: s1_def tlist_def)
    then have "chain (timers s1) (DeletedT # ys)"
      using assms(1) xs hd by (auto simp: tlist_def chain_Cons s1_def)
    then have "tlist (?li s1) (del_list d xs)"
      using assms xs hd by (auto simp: tlist_def del_list_def s1_def timer_funcs_ok_def)
    with eq show ?thesis using hd by (intro that [of "?li s1"]) (auto simp: s1_def)
  next
    case out
    have "find_prev (timers s) (timer_list s) d = Some None"
      using assms(1) xs out by (intro find_prev_chain_None [of _ _ ys]) (auto simp: tlist_def)
    then have eq: "sched_del_timer d s = Ret () s"
      using assms(1) out xs by (auto simp: sched_del_timer_def tlist_def)
    have "del_list d xs = xs" using out xs by (auto simp: del_list_def remove1_idem)
    with eq show ?thesis using assms(1) by (intro that [of s]) auto
  next
    case mid
    then obtain us vs where ys: "ys = us @ d # vs" "d \<notin> set us" by (metis split_list_first)
    have dist: "distinct xs" and ch: "chain (timers s) xs" using assms(1) by (auto simp: tlist_def)
    have vs: "vs \<noteq> []" using assms xs ys by (auto simp: tlist_def)
    let ?p = "last (timer_list s # us)"
    define s1 where "s1 = set_next ?p (t_next (timers s d)) s"
    have "find_prev (timers s) (timer_list s) d = Some (Some ?p)"
      using ch xs ys by (intro find_prev_chain [of _ _ us d vs]) auto
    then have eq: "sched_del_timer d s = Ret () (?li s1)"
      using mid by (simp add: sched_del_timer_def s1_def)
    have split: "xs = butlast (timer_list s # us) @ ?p # d # vs"
      by (subst butlast_last_Cons) (simp_all add: xs ys)
    have "chain (timers s1) (butlast (timer_list s # us) @ ?p # vs)"
      by (rule chain_unlink [OF ch [unfolded split] dist [unfolded split] vs]) (simp_all add: s1_def)
    moreover have new: "butlast (timer_list s # us) @ ?p # vs = timer_list s # us @ vs"
      by (subst butlast_last_Cons) simp_all
    moreover have "del_list d xs = timer_list s # us @ vs"
      using xs ys mid by (simp add: del_list_def remove1_append)
    ultimately have ch1: "chain (timers s1) (timer_list s # us @ vs)"
      and dl: "del_list d xs = timer_list s # us @ vs" by (simp_all only:)
    have keep: "timer_list s1 = timer_list s" "last_insert s1 = last_insert s"
      "\<And>x. waketime s1 x = waketime s x" "\<And>x. t_func (timers s1 x) = t_func (timers s x)"
      by (simp_all add: s1_def)
    have "tlist (?li s1) (timer_list s # us @ vs)"
      using assms xs(1) ys vs ch1 keep by (auto simp: tlist_def timer_funcs_ok_def)
    with eq dl show ?thesis using mid keep by (intro that [of "?li s1"]) auto
  qed
qed

text \<open>Adding and removing timers touches nothing but the scheduler and the clock.\<close>

lemma set_next_update: "set_next t n s = s\<lparr>timers := timers (set_next t n s)\<rparr>"
  by (simp add: set_next_def)

lemma set_waketime_update: "set_waketime t w s = s\<lparr>timers := timers (set_waketime t w s)\<rparr>"
  by (simp add: set_waketime_def)

lemma sched_id: "s\<lparr>timers := timers s, timer_list := timer_list s, last_insert := last_insert s\<rparr> = s"
  by (cases s) simp

definition sched_only :: "('a sched_scheme) \<Rightarrow> ('a sched_scheme) \<Rightarrow> bool" where
  "sched_only s s' \<longleftrightarrow> s' = s\<lparr>timers := timers s', timer_list := timer_list s', last_insert := last_insert s'\<rparr>"

lemma sched_only_intros:
  "sched_only s s"
  "sched_only s s1 \<Longrightarrow> sched_only s (set_next t n s1)"
  "sched_only s s1 \<Longrightarrow> sched_only s (set_waketime t w s1)"
  "sched_only s s1 \<Longrightarrow> sched_only s (s1\<lparr>timer_list := t\<rparr>)"
  "sched_only s s1 \<Longrightarrow> sched_only s (s1\<lparr>last_insert := t\<rparr>)"
  by (cases s; cases s1; simp add: sched_only_def set_next_def set_waketime_def)+

lemma del_timer_only:
  assumes "sched_del_timer d s = Ret () s'"
  shows "s' = s\<lparr>timers := timers s', timer_list := timer_list s', last_insert := last_insert s'\<rparr>"
proof -
  obtain s1 where s': "s' = (if last_insert s1 = d then s1\<lparr>last_insert := PeriodicT\<rparr> else s1)"
    and s1: "sched_only s s1"
  proof (cases "timer_list s = d")
    case True
    show ?thesis
      by (rule that [of "(set_next DeletedT (t_next (timers (set_waketime DeletedT (waketime s d) s) d))
            (set_waketime DeletedT (waketime s d) s))\<lparr>timer_list := DeletedT\<rparr>"])
        (use assms True in \<open>auto simp: sched_del_timer_def Let_def intro!: sched_only_intros\<close>)
  next
    case False
    then obtain r where "find_prev (timers s) (timer_list s) d = Some r"
      using assms by (cases "find_prev (timers s) (timer_list s) d") (auto simp: sched_del_timer_def)
    with assms False show ?thesis
      by (cases r)
        (auto simp: sched_del_timer_def intro!: sched_only_intros
          intro: that [of s] that [of "set_next (the r) (t_next (timers s d)) s"])
  qed
  have "sched_only s s'" unfolding s' using s1 by (simp add: sched_only_intros)
  then show ?thesis by (auto simp: sched_only_def)
qed

lemma insert_timer_only:
  assumes "insert_timer pos t w s = Ret () s'"
  shows "s' = s\<lparr>timers := timers s'\<rparr>"
  using assms by (auto simp: insert_timer_def set_next_def split: option.splits)

lemma add_timer_only:
  assumes "sched_add_timer t s = Ret () s'"
  shows "s' = s\<lparr>clk_pos := clk_pos s', timer_kicks := timer_kicks s', timers := timers s',
               timer_list := timer_list s'\<rparr>"
proof (cases "timer_is_before (waketime s t) (waketime s (timer_list s))")
  case True
  then show ?thesis
    using assms
    by (auto simp: sched_add_timer_def Let_def timer_read_time_def set_next_def set_waketime_def
        timer_kick_def sched_try_shutdown_def sched_shutdown_def bindR_Ret_iff split: if_splits)
next
  case False
  then have "s' = s\<lparr>timers := timers s'\<rparr>"
    using assms insert_timer_only [of "timer_list s" t "waketime s t" s s'] by (simp add: sched_add_timer_def)
  then obtain tm where s': "s' = s\<lparr>timers := tm\<rparr>" by blast
  show ?thesis unfolding s' by (cases s) simp
qed

section \<open>Order of the list\<close>

text \<open>Times are compared on a 32 bit clock that wraps; while all of them lie less than half the
  range after an origin \<open>o'\<close>, the comparison is that of the distances from the origin. The
  sentinel, the last entry, is beyond them.\<close>

definition tkey :: "u32 \<Rightarrow> ('a sched_scheme) \<Rightarrow> timer_id \<Rightarrow> int" where
  "tkey o' s x = uint (waketime s x - o')"

definition ordered :: "u32 \<Rightarrow> ('a sched_scheme) \<Rightarrow> timer_id list \<Rightarrow> bool" where
  "ordered o' s xs \<longleftrightarrow>
     (\<forall>x \<in> set (butlast xs). tkey o' s x < 2 ^ 31) \<and> sorted (map (tkey o' s) (butlast xs))"

lemma due_by_key:
  assumes "uint (w - o') < 2 ^ 31" and "tkey o' s x < 2 ^ 31"
  shows "due_by s w x \<longleftrightarrow> tkey o' s x \<le> uint (w - o')"
  using timer_is_before_window [OF assms(1), of "waketime s x"] assms(2)
  by (auto simp: due_by_def tkey_def)

lemma sorted_insert_at:
  assumes "sorted (map f xs)" and "\<forall>x \<in> set xs. P x \<longleftrightarrow> f x \<le> f t"
  shows "sorted (map f (takeWhile P xs @ t # dropWhile P xs))"
  using assms
proof (induction xs)
  case (Cons x xs)
  then show ?case
    by (auto dest: set_takeWhileD set_dropWhileD)
qed simp

lemma insert_list_sentinel:
  assumes "(\<forall>x \<in> set us. due_by s w x) \<longrightarrow> \<not> due_by s w SentinelT"
  shows "insert_list s w t (us @ [SentinelT]) = insert_list s w t us @ [SentinelT]"
proof (cases "\<forall>x \<in> set us. due_by s w x")
  case True
  with assms show ?thesis
    by (simp add: insert_list_def takeWhile_append2 dropWhile_append2
        takeWhile_eq_all_conv [THEN iffD2])
next
  case False
  then obtain x where "x \<in> set us" "\<not> due_by s w x" by blast
  then show ?thesis by (simp add: insert_list_def takeWhile_append1 dropWhile_append1)
qed

lemma ordered_insert:
  assumes "ordered o' s (us @ [SentinelT])" and "w = waketime s t" and "uint (w - o') < 2 ^ 31"
    and "(\<forall>x \<in> set us. due_by s w x) \<longrightarrow> \<not> due_by s w SentinelT"
  shows "ordered o' s (insert_list s w t (us @ [SentinelT]))"
proof -
  have "sorted (map (tkey o' s) (insert_list s w t us))"
    unfolding insert_list_def
    by (rule sorted_insert_at)
      (use assms(1-3) due_by_key [OF assms(3)] in \<open>auto simp: ordered_def tkey_def\<close>)
  with assms show ?thesis
    by (auto simp: insert_list_sentinel ordered_def tkey_def)
qed

lemma ordered_cong:
  assumes "\<And>x. x \<in> set (butlast xs) \<Longrightarrow> waketime s x = waketime s' x"
  shows "ordered o' s xs \<longleftrightarrow> ordered o' s' xs"
proof -
  have "map (tkey o' s) (butlast xs) = map (tkey o' s') (butlast xs)"
    using assms by (auto simp: tkey_def)
  moreover have "(\<forall>x \<in> set (butlast xs). tkey o' s x < 2 ^ 31)
      \<longleftrightarrow> (\<forall>x \<in> set (butlast xs). tkey o' s' x < 2 ^ 31)"
    using assms by (simp add: tkey_def)
  ultimately show ?thesis unfolding ordered_def by metis
qed

section \<open>Dispatch\<close>

lemma dispatch_done:
  assumes "timer_func_call call (timer_list s) s = Ret SF_DONE s1"
    and "tlist s1 (timer_list s # ys)" and "timer_list s \<noteq> PeriodicT"
  obtains s' where "sched_timer_dispatch call s = Ret (waketime s' (timer_list s')) s'"
    and "tlist s' ys" and "timers s' = timers s1"
proof -
  let ?t = "timer_list s"
  have p: "PeriodicT \<in> set ys" using assms(2,3) by (auto simp: tlist_def)
  then have ne: "ys \<noteq> []" by auto
  have hs: "hd ys \<noteq> SentinelT"
  proof
    assume "hd ys = SentinelT"
    with p ne have "tl ys \<noteq> []" by (cases ys) auto
    moreover have "last ys = SentinelT" using assms(2) ne by (auto simp: tlist_def)
    ultimately have "SentinelT \<in> set (tl ys)"
      using ne by (metis last_in_set last_tl)
    then show False
      using \<open>hd ys = SentinelT\<close> assms(2) ne by (cases ys) (auto simp: tlist_def)
  qed
  have nx: "t_next (timers s1 ?t) = Some (hd ys)" and ch: "chain (timers s1) ys"
    using assms(2) ne by (auto simp: tlist_def chain_Cons)
  define s' where "s' = (if last_insert s1 = ?t then s1\<lparr>timer_list := hd ys, last_insert := hd ys\<rparr>
                         else s1\<lparr>timer_list := hd ys\<rparr>)"
  have "tlist s' ys"
    using assms(2) p ne hs ch by (cases ys) (auto simp: tlist_def s'_def)
  moreover have "sched_timer_dispatch call s = Ret (waketime s' (timer_list s')) s'"
    using assms(1) nx by (auto simp: sched_timer_dispatch_def s'_def)
  ultimately show ?thesis using that by (auto simp: s'_def)
qed

text \<open>Whether the search starts at \<^verbatim>\<open>last_insert\<close> or at the front, the timer ends up at the
  same place.\<close>

lemma dispatch_insert_pos:
  assumes "tlist s1 (t # ys)" and "ys = us @ [SentinelT]" and "ordered o' s1 ys"
    and "w = waketime s1 t" and "uint (w - o') < 2 ^ 31"
    and "due_by s1 w (hd ys)"
    and "pos = (if timer_is_before w (waketime s1 (last_insert s1)) then hd ys else last_insert s1)"
  shows "insert_pos (timers s1) pos w =
      Some (last (takeWhile (due_by s1 w) ys), hd (dropWhile (due_by s1 w) ys))"
    and "(\<forall>x \<in> set us. due_by s1 w x) \<longrightarrow> \<not> due_by s1 w SentinelT"
proof -
  have ne: "ys \<noteq> []" and ch: "chain (timers s1) (t # ys)" "chain (timers s1) ys"
    using assms(1,2) by (auto simp: tlist_def chain_Cons)
  have self: "due_by s1 w t" using assms(4) by (simp add: due_by_def)
  show sent: "(\<forall>x \<in> set us. due_by s1 w x) \<longrightarrow> \<not> due_by s1 w SentinelT"
    using tlist_bound [OF assms(1), of w] self assms(1,2) by (auto simp: tlist_def)
  then have ex: "\<exists>x \<in> set ys. \<not> due_by s1 w x" using assms(2) by auto
  have key: "due_by s1 w x \<longleftrightarrow> tkey o' s1 x \<le> uint (w - o')" if "x \<in> set us" for x
    using that assms(2,3) by (intro due_by_key [OF assms(5)]) (auto simp: ordered_def)
  consider (front) "timer_is_before w (waketime s1 (last_insert s1))"
    | (self) "due_by s1 w (last_insert s1)" "last_insert s1 = t"
    | (mid) "due_by s1 w (last_insert s1)" "last_insert s1 \<in> set us"
    using assms(1,2) by (cases "last_insert s1 = t") (auto simp: tlist_def due_by_def)
  then show "insert_pos (timers s1) pos w =
      Some (last (takeWhile (due_by s1 w) ys), hd (dropWhile (due_by s1 w) ys))"
  proof cases
    case front
    then have "pos = hd ys" using assms(7) by simp
    moreover have "\<exists>x \<in> set (tl ys). \<not> due_by s1 w x" using ex ne assms(6) by (cases ys) auto
    ultimately show ?thesis
      using insert_pos_from [of s1 "[]" "hd ys" "tl ys" w] ch ne assms(6) by simp
  next
    case self
    then have "pos = t" using assms(7) by (simp add: due_by_def)
    moreover have "takeWhile (due_by s1 w) ys \<noteq> []" using assms(6) ne by (cases ys) auto
    ultimately show ?thesis
      using insert_pos_chain [OF ch(1), of w] ex by (auto simp: due_by_def [abs_def])
  next
    case mid
    then obtain as bs where us: "us = as @ last_insert s1 # bs" by (metis split_list)
    have "pos = last_insert s1" using mid assms(7) by (simp add: due_by_def)
    moreover have "sorted (map (tkey o' s1) us)" using assms(2,3) by (simp add: ordered_def)
    then have "\<forall>x \<in> set (as @ [last_insert s1]). due_by s1 w x"
    proof (intro ballI)
      fix x assume "x \<in> set (as @ [last_insert s1])"
      then have "tkey o' s1 x \<le> tkey o' s1 (last_insert s1)" and "x \<in> set us"
        using \<open>sorted (map (tkey o' s1) us)\<close> us by (auto simp: sorted_append)
      with mid key show "due_by s1 w x" by fastforce
    qed
    moreover from calculation(2) have "\<exists>x \<in> set (bs @ [SentinelT]). \<not> due_by s1 w x"
      using ex assms(2) us by auto
    moreover have "chain (timers s1) (as @ last_insert s1 # bs @ [SentinelT])"
      using ch(2) assms(2) us by simp
    ultimately show ?thesis
      using insert_pos_from [of s1 as "last_insert s1" "bs @ [SentinelT]" w] assms(2) us by simp
  qed
qed

lemma dispatch_reschedule:
  assumes "timer_func_call call (timer_list s) s = Ret SF_RESCHEDULE s1"
    and "tlist s1 (timer_list s # ys)" and "timer_list s \<notin> {SentinelT, DeletedT}"
    and "ordered o' s1 ys" and "w = waketime s1 (timer_list s)" and "uint (w - o') < 2 ^ 31"
  obtains s' xs where "sched_timer_dispatch call s = Ret (waketime s' (timer_list s')) s'"
    and "tlist s' xs" and "ordered o' s' xs" and "set xs = insert (timer_list s) (set ys)"
    and "\<And>x. waketime s' x = waketime s1 x" and "\<And>x. t_func (timers s' x) = t_func (timers s1 x)"
    and "\<And>x. x \<notin> set xs \<Longrightarrow> timers s' x = timers s1 x"
proof -
  let ?t = "timer_list s"
  have ne: "ys \<noteq> []" using assms(2,3) by (cases ys) (auto simp: tlist_def)
  have lst: "last ys = SentinelT" using assms(2) ne by (simp add: tlist_def)
  then obtain us where us: "ys = us @ [SentinelT]"
    using ne append_butlast_last_id by metis
  have nx: "t_next (timers s1 ?t) = Some (hd ys)" and ch: "chain (timers s1) ys" "distinct ys" "?t \<notin> set ys"
    using assms(2) ne by (auto simp: tlist_def chain_Cons)
  show ?thesis
  proof (cases "due_by s1 w (hd ys)")
    case False
    then have eq: "sched_timer_dispatch call s = Ret w s1"
      using assms(1,5) nx by (simp add: sched_timer_dispatch_def due_by_def)
    have "ordered o' s1 (?t # ys)"
    proof (cases us)
      case Nil
      then show ?thesis using us assms(5,6) by (simp add: ordered_def tkey_def)
    next
      case (Cons u us')
      then have "uint (w - o') \<le> tkey o' s1 u"
        using False us assms(4) due_by_key [OF assms(6), of s1 u] by (auto simp: ordered_def)
      with Cons us assms(4,5,6) show ?thesis by (auto simp: ordered_def tkey_def)
    qed
    moreover have "timer_list s1 = ?t" using assms(2) by (simp add: tlist_def)
    ultimately show ?thesis using assms(2,5) eq by (intro that [of s1 "?t # ys"]) simp_all
  next
    case True
    define pos where "pos = (if timer_is_before w (waketime s1 (last_insert s1)) then hd ys else last_insert s1)"
    note ip = dispatch_insert_pos [OF assms(2) us assms(4,5,6) True pos_def]
    have ex: "\<exists>x \<in> set ys. \<not> due_by s1 w x" using ip(2) us by auto
    define s2 where "s2 = s1\<lparr>timer_list := hd ys\<rparr>"
    have s2: "timers s2 = timers s1" and "due_by s2 = due_by s1"
      by (auto simp: s2_def due_by_def fun_eq_iff)
    obtain s3 where s3: "insert_timer pos ?t w s2 = Ret () s3"
      "s3 = set_next (last (takeWhile (due_by s2 w) ys)) (Some ?t)
              (set_next ?t (Some (hd (dropWhile (due_by s2 w) ys))) s2)"
      "chain (timers s3) (insert_list s2 w ?t ys)"
      "hd (insert_list s2 w ?t ys) = hd ys" "last (insert_list s2 w ?t ys) = last ys"
      by (rule insert_timer_at [of s2 pos w ys ?t])
        (use ip(1) ch True ex s2 \<open>due_by s2 = due_by s1\<close> in auto)
    let ?xs = "insert_list s1 w ?t ys"
    have il: "insert_list s2 w ?t ys = ?xs" by (simp add: insert_list_def \<open>due_by s2 = due_by s1\<close>)
    define s' where "s' = s3\<lparr>last_insert := ?t\<rparr>"
    have keep: "timer_list s' = hd ys" "last_insert s' = ?t" "timers s' = timers s3"
      "\<And>x. waketime s' x = waketime s1 x" "\<And>x. t_func (timers s' x) = t_func (timers s1 x)"
      by (simp_all add: s'_def s3(2) s2_def)
    have out: "timers s' x = timers s1 x" if "x \<notin> set ?xs" for x
    proof -
      have "takeWhile (due_by s2 w) ys \<noteq> []" using True ne \<open>due_by s2 = due_by s1\<close> by (cases ys) auto
      then have "last (takeWhile (due_by s2 w) ys) \<in> set ys"
        using last_in_set set_takeWhileD by metis
      with that show ?thesis by (auto simp: s'_def s3(2) set_next_def s2_def)
    qed
    have eq: "sched_timer_dispatch call s = Ret (waketime s' (timer_list s')) s'"
      using assms(1,5) nx True s3(1) keep(1,4)
      by (auto simp: sched_timer_dispatch_def due_by_def Let_def s2_def pos_def s'_def
          split: if_splits)
    have "set (tl ?xs) \<subseteq> set ?xs" by (cases ?xs) auto
    then have "DeletedT \<notin> set (tl ?xs)" using assms(2,3) by (auto simp: tlist_def)
    then have "tlist s' ?xs"
      using assms(2,3) s3(3-5) il keep ch lst
      by (auto simp: tlist_def timer_funcs_ok_def)
    moreover have "ordered o' s' ?xs"
      using ordered_insert [OF assms(4) [unfolded us] assms(5,6) ip(2)] keep(4) us
        ordered_cong [of ?xs s1 s' o'] by simp
    ultimately show ?thesis using eq keep out by (intro that [of s' ?xs]) simp_all
  qed
qed

lemma tlist_boot: "tlist (sched_boot freq clk pins) [PeriodicT, SentinelT]"
  by (simp add: tlist_def sched_boot_def timers_init_def timer_funcs_ok_def)

lemma ordered_front:
  assumes "tlist s xs" and "ordered o' s xs" and "uint (w - o') < 2 ^ 31"
    and "timer_is_before w (waketime s (timer_list s))" and "w = waketime s' t"
    and "\<And>x. x \<noteq> DeletedT \<Longrightarrow> waketime s' x = waketime s x" and "waketime s' DeletedT = w"
  shows "ordered o' s' (front_list t xs)"
proof -
  obtain ys where xs: "xs = timer_list s # ys" "SentinelT \<in> set ys" "ys \<noteq> []"
    using assms(1) by (rule tlist_Cons)
  have bl: "butlast xs = timer_list s # butlast ys" using xs by simp
  have lt: "uint (w - o') < tkey o' s (timer_list s)"
    using assms(2,3,4) bl timer_is_before_window [OF assms(3), of "waketime s (timer_list s)"]
    by (auto simp: ordered_def tkey_def)
  let ?r = "if hd xs = DeletedT then tl xs else xs"
  have sub: "set (butlast ?r) \<subseteq> set (butlast xs)" and "?r \<noteq> []" and nd: "DeletedT \<notin> set ?r"
    using xs bl assms(1) by (auto simp: tlist_def)
  have srt: "sorted (map (tkey o' s) (butlast ?r))" using assms(2) bl xs by (auto simp: ordered_def)
  have same: "tkey o' s' x = tkey o' s x" if "x \<in> set (butlast ?r)" for x
    using in_set_butlastD [OF that] nd assms(6) [of x] unfolding tkey_def by metis
  then have "map (tkey o' s') (butlast ?r) = map (tkey o' s) (butlast ?r)" by simp
  then have "sorted (map (tkey o' s') (butlast ?r))" using srt by (simp only:)
  moreover have "uint (w - o') \<le> tkey o' s x \<and> tkey o' s x < 2 ^ 31" if "x \<in> set (butlast xs)" for x
    using that assms(2) bl lt by (fastforce simp: ordered_def)
  ultimately show ?thesis
    using \<open>?r \<noteq> []\<close> sub same assms(3,5,7) unfolding ordered_def front_list_def
    by (auto simp: tkey_def)
qed

lemma periodic_event_tlist:
  assumes "tlist s (PeriodicT # ys)" and "periodic_event s = (r, s1)"
  shows "r = SF_RESCHEDULE" and "tlist s1 (PeriodicT # ys)"
    and "\<And>x. x \<notin> {PeriodicT, SentinelT} \<Longrightarrow> waketime s1 x = waketime s x"
    and "waketime s1 PeriodicT = waketime s PeriodicT + timer_from_us s 100000"
    and "tasks_status s1 = TS_REQUESTED"
proof -
  have "chain (timers s1) (PeriodicT # ys) \<longleftrightarrow> chain (timers s) (PeriodicT # ys)"
    using assms(2) by (intro chain_cong)
      (auto simp: periodic_event_def sched_wake_tasks_def Let_def)
  then show "tlist s1 (PeriodicT # ys)"
    using assms
    by (auto simp: periodic_event_def tlist_def timer_funcs_ok_def sched_wake_tasks_def Let_def)
qed (use assms(2) in \<open>auto simp: periodic_event_def sched_wake_tasks_def timer_from_us_def Let_def
    set_waketime_def\<close>)

lemma reset_tlist:
  assumes "waketime s SentinelT = waketime s PeriodicT + 0x80000000" and "timer_funcs_ok (timers s)"
    and "t_next (timers s SentinelT) = None"
  shows "tlist (sched_timer_reset s) [DeletedT, PeriodicT, SentinelT]"
  using assms by (simp add: sched_timer_reset_def tlist_def timer_funcs_ok_def Let_def)

section \<open>Properties\<close>

text \<open>C36 (add_timer_keeps_order). Adding a timer that is not in the list always ends (the walk
  along the list stops at the periodic timer or at the sentinel). Unless it shuts down because
  the time has passed, the result is a well formed list with exactly the new timer added; if all
  times lie within half the clock's range after a common origin, the list stays sorted by
  distance from it.\<close>

theorem add_timer_keeps_order:
  assumes "tlist s xs" and "t = ObjT i k" and "t \<notin> set xs"
    and "ordered o' s xs" and "uint (waketime s t - o') < 2 ^ 31"
  shows "(\<exists>s' xs'. sched_add_timer t s = Ret () s' \<and> tlist s' xs' \<and> ordered o' s' xs'
           \<and> set xs' - {DeletedT} = insert t (set xs - {DeletedT}))
       \<or> (sched_add_timer t s = Shutdown ''Timer too close'' (snd (timer_read_time s))
           \<and> timer_is_before (waketime s t) (fst (timer_read_time s)) \<and> shutdown_status s = 0)"
proof (cases "timer_is_before (waketime s t) (waketime s (timer_list s))")
  case False
  obtain s' where s': "sched_add_timer t s = Ret () s'"
    "tlist s' (insert_list s (waketime s t) t xs)" "\<And>x. waketime s' x = waketime s x"
    using add_timer_insert [OF assms(1,3,2) False] by blast
  obtain us where us: "xs = us @ [SentinelT]"
    using assms(1) by (metis append_butlast_last_id chain.simps(1) tlist_def)
  have "(\<forall>x \<in> set us. due_by s (waketime s t) x) \<longrightarrow> \<not> due_by s (waketime s t) SentinelT"
    using tlist_bound [OF assms(1)] assms(1) us by (auto simp: tlist_def)
  then have "ordered o' s (insert_list s (waketime s t) t xs)"
    using ordered_insert [of o' s us "waketime s t" t] assms(4,5) us by simp
  then have "ordered o' s' (insert_list s (waketime s t) t xs)"
    using ordered_cong s'(3) by blast
  moreover have "set (insert_list s (waketime s t) t xs) - {DeletedT} = insert t (set xs - {DeletedT})"
    using assms(2) by auto
  ultimately show ?thesis using s' by blast
next
  case True
  show ?thesis
  proof (cases "timer_is_before (waketime s t) (clk_src s (clk_pos s)) \<and> shutdown_status s = 0")
    case late: True
    with True show ?thesis
      by (simp add: sched_add_timer_def timer_read_time_def sched_try_shutdown_def sched_shutdown_def)
  next
    case False
    then have ok: "\<not> timer_is_before (waketime s t) (clk_src s (clk_pos s)) \<or> shutdown_status s \<noteq> 0" by blast
    obtain s' where s': "sched_add_timer t s = Ret () s'" "tlist s' (front_list t xs)"
      "\<And>x. x \<noteq> DeletedT \<Longrightarrow> waketime s' x = waketime s x" "waketime s' DeletedT = waketime s t"
      using add_timer_front [OF assms(1,3,2) True ok] by blast
    have "ordered o' s' (front_list t xs)"
      using s' assms(2) by (intro ordered_front [OF assms(1,4,5) True]) auto
    moreover have "set (front_list t xs) - {DeletedT} = insert t (set xs - {DeletedT})"
      using assms(1,2) by (cases xs) (auto simp: front_list_def tlist_def)
    ultimately show ?thesis using s' by blast
  qed
qed

theorem add_timer_keeps_order_witness:
  "\<exists>s' xs'. sched_add_timer (ObjT 3 0) (set_waketime (ObjT 3 0) 1000 (sched_boot 16000000 (\<lambda>_. 5) (\<lambda>_ _. False)))
      = Ret () s' \<and> tlist s' xs' \<and> ordered 0 s' xs' \<and> ObjT 3 0 \<in> set xs'"
proof -
  let ?s = "set_waketime (ObjT 3 0) 1000 (sched_boot 16000000 (\<lambda>_. 5) (\<lambda>_ _. False))"
  have "tlist ?s [PeriodicT, SentinelT]" "ordered 0 ?s [PeriodicT, SentinelT]"
    by (simp_all add: tlist_def sched_boot_def timers_init_def timer_funcs_ok_def ordered_def tkey_def
        set_waketime_def)
  moreover have "\<not> timer_is_before (waketime ?s (ObjT 3 0)) (fst (timer_read_time ?s))"
    "uint (waketime ?s (ObjT 3 0) - 0) < 2 ^ 31"
    by (simp_all add: timer_read_time_def timer_is_before_def sched_boot_def set_waketime_def)
  ultimately show ?thesis
    using add_timer_keeps_order [of ?s "[PeriodicT, SentinelT]" "ObjT 3 0" 3 0 0] by fastforce
qed

text \<open>Deleting a timer always ends and leaves a well formed list
  without it and with every other timer; the active timer is replaced by the deleted timer.\<close>

theorem del_timer_removes:
  assumes "tlist s xs" and "d = ObjT i k"
  shows "\<exists>s' xs'. sched_del_timer d s = Ret () s' \<and> tlist s' xs' \<and> d \<notin> set xs'
     \<and> filter (\<lambda>x. x \<noteq> DeletedT) xs' = filter (\<lambda>x. x \<noteq> DeletedT \<and> x \<noteq> d) xs
     \<and> (\<forall>x. x \<noteq> DeletedT \<longrightarrow> waketime s' x = waketime s x)"
proof -
  obtain s' where s': "sched_del_timer d s = Ret () s'" "tlist s' (del_list d xs)"
    "\<And>x. x \<noteq> DeletedT \<Longrightarrow> waketime s' x = waketime s x"
    using del_timer_tlist [OF assms] by blast
  obtain ys where xs: "xs = timer_list s # ys" "SentinelT \<in> set ys" "ys \<noteq> []"
    using assms(1) by (rule tlist_Cons)
  have dist: "distinct xs" using assms(1) by (simp add: tlist_def)
  have nd: "d \<notin> set (del_list d xs)"
    using dist xs assms(2) by (auto simp: del_list_def)
  have "filter (\<lambda>x. x \<noteq> DeletedT) (del_list d xs) = filter (\<lambda>x. x \<noteq> DeletedT \<and> x \<noteq> d) xs"
  proof (cases "timer_list s = d")
    case True
    then show ?thesis using xs dist assms(2) by (auto simp: del_list_def intro: filter_cong)
  next
    case False
    with dist show ?thesis
      using xs by (auto simp: del_list_def distinct_remove1_removeAll removeAll_filter_not_eq
          intro: filter_cong)
  qed
  with s' nd show ?thesis by blast
qed

theorem del_timer_removes_witness:
  "\<exists>s' xs'. sched_del_timer (ObjT 1 0) (sched_boot 1000000 (\<lambda>_. 0) (\<lambda>_ _. False)) = Ret () s'
     \<and> tlist s' xs' \<and> ObjT 1 0 \<notin> set xs'"
  using del_timer_removes [OF tlist_boot refl, of 1 0 1000000 "\<lambda>_. 0" "\<lambda>_ _. False"] by blast

text \<open>C28 (dispatch_next_timer). After the callback of the first timer returned, with the rest
  of the list in order and the new time of the timer within half the clock's range, a dispatch
  always ends: a finished timer is gone from the list, a rescheduled one is back in it at its
  place in the order, and the time returned to the hardware is that of the new first timer.\<close>

theorem dispatch_next_timer:
  assumes "timer_func_call call (timer_list s) s = Ret r s1"
    and "tlist s1 (timer_list s # ys)" and "ordered o' s1 ys"
    and "r = SF_DONE \<longrightarrow> timer_list s \<noteq> PeriodicT"
    and "r = SF_RESCHEDULE \<longrightarrow> timer_list s \<notin> {SentinelT, DeletedT}
           \<and> uint (waketime s1 (timer_list s) - o') < 2 ^ 31"
  shows "\<exists>s' xs. sched_timer_dispatch call s = Ret (waketime s' (timer_list s')) s'
     \<and> tlist s' xs \<and> ordered o' s' xs
     \<and> set xs = (if r = SF_DONE then set ys else insert (timer_list s) (set ys))"
proof (cases r)
  case SF_DONE
  then have call: "timer_func_call call (timer_list s) s = Ret SF_DONE s1" "timer_list s \<noteq> PeriodicT"
    using assms(1,4) by simp_all
  obtain s' where s': "sched_timer_dispatch call s = Ret (waketime s' (timer_list s')) s'"
    "tlist s' ys" "timers s' = timers s1"
    by (rule dispatch_done [OF call(1) assms(2) call(2)])
  have "ordered o' s' ys" using assms(3) s'(3) ordered_cong [of ys s1 s' o'] by (simp only:)
  with s' SF_DONE show ?thesis by (intro exI [of _ s'] exI [of _ ys]) simp
next
  case SF_RESCHEDULE
  then have call: "timer_func_call call (timer_list s) s = Ret SF_RESCHEDULE s1"
    "timer_list s \<notin> {SentinelT, DeletedT}" "uint (waketime s1 (timer_list s) - o') < 2 ^ 31"
    using assms(1,5) by simp_all
  obtain s' xs where s': "sched_timer_dispatch call s = Ret (waketime s' (timer_list s')) s'"
    "tlist s' xs" "ordered o' s' xs" "set xs = insert (timer_list s) (set ys)"
    by (rule dispatch_reschedule [OF call(1) assms(2) call(2) assms(3) refl call(3)])
  with SF_RESCHEDULE show ?thesis by (intro exI [of _ s'] exI [of _ xs]) simp
qed

theorem dispatch_next_timer_witness:
  "\<exists>s' xs. sched_timer_dispatch (\<lambda>_ _. Ret SF_DONE) (sched_boot 1000000 (\<lambda>_. 0) (\<lambda>_ _. False))
      = Ret (waketime s' (timer_list s')) s' \<and> tlist s' xs \<and> ordered 0 s' xs"
proof -
  let ?s = "sched_boot 1000000 (\<lambda>_. 0) (\<lambda>_ _. False)"
  let ?s1 = "snd (periodic_event ?s)"
  have tl: "timer_list ?s = PeriodicT" "t_func (timers ?s PeriodicT) = Periodic_event"
    by (simp_all add: sched_boot_def timers_init_def)
  have pe: "periodic_event ?s = (SF_RESCHEDULE, ?s1)"
    using periodic_event_tlist(1) [OF tlist_boot, of 1000000 "\<lambda>_. 0" "\<lambda>_ _. False"]
    by (metis prod.collapse)
  have "timer_func_call (\<lambda>_ _. Ret SF_DONE) (timer_list ?s) ?s = Ret SF_RESCHEDULE ?s1"
    using tl by (simp add: timer_func_call_def) (metis pe prod.case)
  moreover have "tlist ?s1 (timer_list ?s # [SentinelT])"
    using periodic_event_tlist(2) [OF tlist_boot pe] tl by simp
  moreover have "waketime ?s1 PeriodicT = 100000"
    using periodic_event_tlist(4) [OF tlist_boot pe]
    by (simp add: sched_boot_def timers_init_def timer_from_us_def)
  ultimately show ?thesis
    using dispatch_next_timer [of "\<lambda>_ _. Ret SF_DONE" ?s SF_RESCHEDULE ?s1 "[SentinelT]" 0] tl(1)
    by (auto simp: ordered_def)
qed

text \<open>Whatever the timers' links were, entering shutdown leaves
  only the static timers in the list, in a well formed list; the first reason is kept over
  later ones, the machine is marked as shut down and the host is told the reason, once the
  shutdown functions returned.\<close>

theorem shutdown_stops_timers:
  assumes "waketime s SentinelT = waketime s PeriodicT + 0x80000000" and "timer_funcs_ok (timers s)"
    and "t_next (timers s SentinelT) = None" and "in_sendf s = 0"
    and "\<And>s1. tlist s1 [DeletedT, PeriodicT, SentinelT] \<Longrightarrow> shutdown_status s1 = 2 \<Longrightarrow> in_sendf s1 = 0 \<Longrightarrow>
           \<exists>s2. funcs s1 = Ret () s2 \<and> tlist s2 [DeletedT, PeriodicT, SentinelT]
                \<and> in_sendf s2 = 0 \<and> shutdown_reason s2 = shutdown_reason s1"
  shows "\<exists>s' cur. run_shutdown str_id funcs reason s = Ret () s'
     \<and> tlist s' [DeletedT, PeriodicT, SentinelT] \<and> shutdown_status s' = 1
     \<and> shutdown_reason s' = (if shutdown_status s = 0 then reason else shutdown_reason s)
     \<and> last (out s') = (''shutdown clock=%u static_string_id=%hu'',
                        [AInt cur, AInt (str_id (shutdown_reason s'))])"
proof -
  define s0 where "s0 = (if shutdown_status s = 0 then (snd (timer_read_time s))\<lparr>shutdown_reason := reason\<rparr>
                         else snd (timer_read_time s))\<lparr>shutdown_status := 2\<rparr>"
  have s0: "timers s0 = timers s" "in_sendf s0 = 0"
    "shutdown_reason s0 = (if shutdown_status s = 0 then reason else shutdown_reason s)"
    using assms(4) by (simp_all add: s0_def timer_read_time_def)
  let ?s1 = "sched_timer_reset s0"
  have "tlist ?s1 [DeletedT, PeriodicT, SentinelT]"
    using assms(1-3) s0(1) by (intro reset_tlist) simp_all
  moreover have s1: "shutdown_status ?s1 = 2" "in_sendf ?s1 = 0" "shutdown_reason ?s1 = shutdown_reason s0"
    using s0(2) by (simp_all add: sched_timer_reset_def Let_def timer_kick_def set_next_def set_waketime_def s0_def)
  ultimately obtain s2 where s2: "funcs ?s1 = Ret () s2" "tlist s2 [DeletedT, PeriodicT, SentinelT]"
    "in_sendf s2 = 0" "shutdown_reason s2 = shutdown_reason ?s1"
    using assms(5) by blast
  have "run_shutdown str_id funcs reason s = Ret () (command_sendf
      ''shutdown clock=%u static_string_id=%hu''
      [AInt (fst (timer_read_time s)), AInt (str_id (shutdown_reason s2))] (s2\<lparr>shutdown_status := 1\<rparr>))"
    using s2(1) by (auto simp: run_shutdown_def Let_def s0_def timer_read_time_def split: if_splits)
  moreover have "tlist (command_sendf f a (s2\<lparr>shutdown_status := 1\<rparr>)) [DeletedT, PeriodicT, SentinelT]" for f a
    using s2(2) by (auto simp: command_sendf_def tlist_def Let_def)
  ultimately show ?thesis
    using s2(3,4) s1(3) s0(3) by (auto simp: command_sendf_def Let_def)
qed

theorem shutdown_stops_timers_witness:
  "\<exists>s'. run_shutdown (\<lambda>_. 7) (\<lambda>s. Ret () s) ''Timer too close'' (sched_boot 1000000 (\<lambda>_. 0) (\<lambda>_ _. False)) = Ret () s'
     \<and> shutdown_reason s' = ''Timer too close''"
  using shutdown_stops_timers [of "sched_boot 1000000 (\<lambda>_. 0) (\<lambda>_ _. False)" "\<lambda>s. Ret () s" "\<lambda>_. 7" "''Timer too close''"]
  by (auto simp: sched_boot_def timers_init_def timer_funcs_ok_def)

end
