(* ===== verification/Basecmd.thy ===== *)
theory Basecmd
  imports Sched
begin

text \<open>
  The basic services of the firmware (\<^verbatim>\<open>src/src/basecmd.c\<close>): memory, the pool of move
  nodes and the queues built from them, the table of object ids, the configuration state, load
  statistics and the basic commands. Memory addresses are naturals; the nodes of the pool
  \<^verbatim>\<open>move_list\<close> are addressed by their index. The sizes of C structs depend on the
  compiler and are constants of the state.
\<close>

section \<open>State\<close>

text \<open>The types an object id can have: in the C code the address of the config function.\<close>

datatype oid_type =
    Config_stepper | Config_trsync | Config_endstop | Config_digital_out | Config_pwm_out
  | Config_analog_in | Config_buttons | Config_counter
  | Config_sos_filter | Config_load_cell_probe | Config_tmcuart

record stepper_move =
  sm_interval :: u32
  sm_add :: u16
  sm_count :: u16
  sm_flags :: u8

record digital_move =
  dm_waketime :: u32
  dm_on_duration :: u32

record pwm_move =
  pm_waketime :: u32
  pm_value :: u16

text \<open>What a node of the pool holds besides its link.\<close>

datatype move_data =
  M_none | M_stepper stepper_move | M_digital digital_move | M_pwm pwm_move

record move_node =
  mn_next :: "nat option"
  mn_data :: move_data

record move_queue_head =
  mq_first :: "nat option"
  mq_last :: "nat option"

record oid_s =
  oid_ty :: "oid_type option"
  oid_data :: "nat option"

record basecmd = sched +
  sizeof_ptr :: nat
  sizeof_obj :: "oid_type \<Rightarrow> nat"
  sizeof_move :: "oid_type \<Rightarrow> nat"
  dynmem_start :: nat
  dynmem_end :: nat
  alloc_end :: nat
  nodes :: "nat \<Rightarrow> move_node"
  move_free_list :: "nat option"
  move_count :: u16
  move_item_size :: u8
  oids :: "oid_s list option"
  oid_count :: u8
  config_crc :: u32
  stats_send_time :: u32
  stats_send_time_high :: u32
  stats_count :: u32
  stats_sum :: u32
  stats_sumsq :: u32

text \<open>The machine at power up. The memory's bounds and the sizes are the board's.\<close>

definition basecmd_boot ::
  "nat \<Rightarrow> nat \<Rightarrow> (oid_type \<Rightarrow> nat) \<Rightarrow> (oid_type \<Rightarrow> nat) \<Rightarrow> sched \<Rightarrow> basecmd" where
  "basecmd_boot ptr mem objsz movesz b =
     sched.extend b (basecmd.fields ptr objsz movesz 0 mem 0
        (\<lambda>_. \<lparr>mn_next = None, mn_data = M_none\<rparr>) None 0 0 None 0 0 0 0 0 0 0)"

section \<open>Low level allocation\<close>

definition align :: "nat \<Rightarrow> nat \<Rightarrow> nat" where
  "align a x = (x + (a - 1)) div a * a"

definition alloc_init :: "('a basecmd_scheme) \<Rightarrow> ('a basecmd_scheme)" where
  "alloc_init s = s\<lparr>alloc_end := align (sizeof_ptr s) (dynmem_start s)\<rparr>"

definition alloc_chunk :: "nat \<Rightarrow> ('a basecmd_scheme) \<Rightarrow> (('a basecmd_scheme), nat) res" where
  "alloc_chunk sz s =
     (if dynmem_end s < alloc_end s + sz then Shutdown ''alloc_chunk failed'' s
      else Ret (alloc_end s) (s\<lparr>alloc_end := alloc_end s + align (sizeof_ptr s) sz\<rparr>))"

text \<open>The counting loop of \<^verbatim>\<open>alloc_chunks\<close>.\<close>

fun chunks_fit :: "nat \<Rightarrow> nat \<Rightarrow> nat \<Rightarrow> nat \<Rightarrow> nat" where
  "chunks_fit sz 0 p e = 0"
| "chunks_fit sz (Suc n) p e = (if p + sz \<le> e then Suc (chunks_fit sz n (p + sz) e) else 0)"

definition alloc_chunks :: "nat \<Rightarrow> nat \<Rightarrow> ('a basecmd_scheme) \<Rightarrow> (('a basecmd_scheme), nat \<times> u16) res" where
  "alloc_chunks sz count s =
     (let can_alloc = chunks_fit sz count (alloc_end s) (dynmem_end s) in
      if can_alloc = 0 then Shutdown ''alloc_chunks failed'' s
      else bindR (alloc_chunk (can_alloc * sz) s) (\<lambda>data s. Ret (data, of_nat can_alloc) s))"

section \<open>Move queue\<close>

definition is_finalized :: "('a basecmd_scheme) \<Rightarrow> bool" where
  "is_finalized s \<longleftrightarrow> move_count s \<noteq> 0"

definition set_node_next :: "nat \<Rightarrow> nat option \<Rightarrow> ('a basecmd_scheme) \<Rightarrow> ('a basecmd_scheme)" where
  "set_node_next m n s = s\<lparr>nodes := (nodes s)(m := (nodes s m)\<lparr>mn_next := n\<rparr>)\<rparr>"

definition set_node_data :: "nat \<Rightarrow> move_data \<Rightarrow> ('a basecmd_scheme) \<Rightarrow> ('a basecmd_scheme)" where
  "set_node_data m d s = s\<lparr>nodes := (nodes s)(m := (nodes s m)\<lparr>mn_data := d\<rparr>)\<rparr>"

definition move_free :: "nat \<Rightarrow> ('a basecmd_scheme) \<Rightarrow> ('a basecmd_scheme)" where
  "move_free m s = (set_node_next m (move_free_list s) s)\<lparr>move_free_list := Some m\<rparr>"

definition move_alloc :: "('a basecmd_scheme) \<Rightarrow> (('a basecmd_scheme), nat) res" where
  "move_alloc s = (case move_free_list s of
       None \<Rightarrow> Shutdown ''Move queue overflow'' s
     | Some mf \<Rightarrow> Ret mf (s\<lparr>move_free_list := mn_next (nodes s mf)\<rparr>))"

definition move_queue_empty :: "move_queue_head \<Rightarrow> bool" where
  "move_queue_empty mh \<longleftrightarrow> mq_first mh = None"

definition move_queue_first :: "move_queue_head \<Rightarrow> nat option" where
  "move_queue_first mh = mq_first mh"

text \<open>The head belongs to the caller's object and is returned updated. The result is 1 when
  the queue was empty.\<close>

definition move_queue_push ::
  "nat \<Rightarrow> move_queue_head \<Rightarrow> ('a basecmd_scheme) \<Rightarrow> (('a basecmd_scheme), bool \<times> move_queue_head) res" where
  "move_queue_push m mh s =
     (let s = set_node_next m None s in
      case mq_first mh of
        Some _ \<Rightarrow> (case mq_last mh of None \<Rightarrow> Fault
                   | Some l \<Rightarrow> Ret (False, mh\<lparr>mq_last := Some m\<rparr>) (set_node_next l (Some m) s))
      | None \<Rightarrow> Ret (True, \<lparr>mq_first = Some m, mq_last = Some m\<rparr>) s)"

definition move_queue_pop ::
  "move_queue_head \<Rightarrow> ('a basecmd_scheme) \<Rightarrow> (('a basecmd_scheme), nat \<times> move_queue_head) res" where
  "move_queue_pop mh s = (case mq_first mh of None \<Rightarrow> Fault
     | Some mn \<Rightarrow> Ret (mn, mh\<lparr>mq_first := mn_next (nodes s mn)\<rparr>) s)"

definition move_queue_clear :: "move_queue_head \<Rightarrow> move_queue_head" where
  "move_queue_clear mh = mh\<lparr>mq_first := None\<rparr>"

definition move_queue_setup ::
  "nat \<Rightarrow> ('a basecmd_scheme) \<Rightarrow> (('a basecmd_scheme), move_queue_head) res" where
  "move_queue_setup sz s =
     (if 255 < sz \<or> is_finalized s then Shutdown ''Invalid move request size'' s
      else Ret \<lparr>mq_first = None, mq_last = None\<rparr>
             (if unat (move_item_size s) < sz then s\<lparr>move_item_size := of_nat sz\<rparr> else s))"

text \<open>The loop of \<^verbatim>\<open>move_reset\<close> links node \<open>i\<close> to node \<open>i + 1\<close> for \<open>i\<close> up to
  \<^verbatim>\<open>move_count-2\<close>.\<close>

fun link_nodes :: "nat \<Rightarrow> nat \<Rightarrow> ('a basecmd_scheme) \<Rightarrow> ('a basecmd_scheme)" where
  "link_nodes 0 i s = s"
| "link_nodes (Suc n) i s = link_nodes n (Suc i) (set_node_next i (Some (Suc i)) s)"

definition move_reset :: "('a basecmd_scheme) \<Rightarrow> ('a basecmd_scheme)" where
  "move_reset s =
     (if move_count s = 0 then s
      else let n = unat (move_count s);
               s = link_nodes (n - 1) 0 s;
               s = set_node_next (n - 1) None s
           in s\<lparr>move_free_list := Some 0\<rparr>)"

definition move_finalize :: "('a basecmd_scheme) \<Rightarrow> (('a basecmd_scheme), unit) res" where
  "move_finalize s =
     (if is_finalized s then Shutdown ''Already finalized'' s
      else bindR (move_queue_setup (sizeof_ptr s) s) (\<lambda>_ s.
           bindR (alloc_chunks (unat (move_item_size s)) 1024 s) (\<lambda>(data, count) s.
           Ret () (move_reset (s\<lparr>move_count := count\<rparr>)))))"

section \<open>Object ids\<close>

definition oid_lookup :: "u8 \<Rightarrow> oid_type \<Rightarrow> ('a basecmd_scheme) \<Rightarrow> (('a basecmd_scheme), nat option) res" where
  "oid_lookup oid ty s =
     (if oid_count s \<le> oid then Shutdown ''Invalid oid type'' s
      else case oids s of None \<Rightarrow> Fault
        | Some os \<Rightarrow> (case rd os (unat oid) of None \<Rightarrow> Fault
            | Some e \<Rightarrow> if oid_ty e \<noteq> Some ty then Shutdown ''Invalid oid type'' s
                        else Ret (oid_data e) s))"

definition oid_alloc_size ::
  "u8 \<Rightarrow> oid_type \<Rightarrow> nat \<Rightarrow> ('a basecmd_scheme) \<Rightarrow> (('a basecmd_scheme), nat) res" where
  "oid_alloc_size oid ty sz s =
     (if oid_count s \<le> oid then Shutdown ''Can't assign oid'' s
      else case oids s of None \<Rightarrow> Fault
        | Some os \<Rightarrow> (case rd os (unat oid) of None \<Rightarrow> Fault
            | Some e \<Rightarrow>
                if oid_ty e \<noteq> None \<or> is_finalized s then Shutdown ''Can't assign oid'' s
                else let s = s\<lparr>oids := Some (os[unat oid := e\<lparr>oid_ty := Some ty\<rparr>])\<rparr> in
                  bindR (alloc_chunk (sz mod 2 ^ 16) s) (\<lambda>data s.
                    Ret data (s\<lparr>oids := Some (os[unat oid := \<lparr>oid_ty = Some ty, oid_data = Some data\<rparr>])\<rparr>))))"

text \<open>The call for an object of fixed size.\<close>

definition oid_alloc :: "u8 \<Rightarrow> oid_type \<Rightarrow> ('a basecmd_scheme) \<Rightarrow> (('a basecmd_scheme), nat) res" where
  "oid_alloc oid ty s = oid_alloc_size oid ty (sizeof_obj s ty) s"

text \<open>\<^verbatim>\<open>oid_next\<close>: the loop counts \<^verbatim>\<open>oid\<close> up to \<^verbatim>\<open>oid_count\<close>; the result is the next
  object id of the type and its data, \<open>None\<close> for NULL.\<close>

function oid_search :: "oid_s list \<Rightarrow> u8 \<Rightarrow> oid_type \<Rightarrow> nat \<Rightarrow> (u8 \<times> nat option) option" where
  "oid_search os cnt ty oid =
     (if unat cnt \<le> oid then None
      else case rd os oid of None \<Rightarrow> None
        | Some e \<Rightarrow> if oid_ty e = Some ty then Some (of_nat oid, oid_data e)
                    else oid_search os cnt ty (Suc oid))"
  by pat_completeness auto
termination by (relation "measure (\<lambda>(os, cnt, ty, oid). unat cnt - oid)") auto

definition oid_next :: "u8 \<Rightarrow> oid_type \<Rightarrow> ('a basecmd_scheme) \<Rightarrow> (u8 \<times> nat option) option" where
  "oid_next i ty s = (case oids s of None \<Rightarrow> None
     | Some os \<Rightarrow> oid_search os (oid_count s) ty (unat (i + 1)))"

text \<open>\<^verbatim>\<open>foreach_oid\<close>: the loop ends at the first NULL. \<open>oids_from\<close> lists the object ids it
  visits from index \<open>oid\<close> on.\<close>

function oids_from :: "oid_s list \<Rightarrow> u8 \<Rightarrow> oid_type \<Rightarrow> nat \<Rightarrow> u8 list" where
  "oids_from os cnt ty oid =
     (if unat cnt \<le> oid then []
      else case rd os oid of None \<Rightarrow> []
        | Some e \<Rightarrow> if oid_ty e = Some ty
                    then (if oid_data e = None then [] else of_nat oid # oids_from os cnt ty (Suc oid))
                    else oids_from os cnt ty (Suc oid))"
  by pat_completeness auto
termination by (relation "measure (\<lambda>(os, cnt, ty, oid). unat cnt - oid)") auto

definition foreach_oid :: "oid_type \<Rightarrow> ('a basecmd_scheme) \<Rightarrow> u8 list" where
  "foreach_oid ty s = (case oids s of None \<Rightarrow> [] | Some os \<Rightarrow> oids_from os (oid_count s) ty 0)"

definition command_allocate_oids :: "u32 \<Rightarrow> ('a basecmd_scheme) \<Rightarrow> (('a basecmd_scheme), unit) res" where
  "command_allocate_oids count s =
     (if oids s \<noteq> None then Shutdown ''oids already allocated'' s
      else let cnt = (ucast count :: u8) in
        bindR (alloc_chunk (2 * sizeof_ptr s * unat cnt) s) (\<lambda>_ s.
          Ret () (s\<lparr>oids := Some (replicate (unat cnt) \<lparr>oid_ty = None, oid_data = None\<rparr>), oid_count := cnt\<rparr>)))"

section \<open>Configuration\<close>

definition of_flag :: "bool \<Rightarrow> u32" where
  "of_flag b = (if b then 1 else 0)"

definition command_get_config :: "('a basecmd_scheme) \<Rightarrow> ('a basecmd_scheme)" where
  "command_get_config s =
     command_sendf ''config is_config=%c crc=%u is_shutdown=%c move_count=%hu''
       [AInt (of_flag (is_finalized s)), AInt (config_crc s), AInt (of_flag (sched_is_shutdown s)),
        AInt (ucast (move_count s))] s"

definition command_finalize_config :: "u32 \<Rightarrow> ('a basecmd_scheme) \<Rightarrow> (('a basecmd_scheme), unit) res" where
  "command_finalize_config crc s =
     bindR (move_finalize s) (\<lambda>_ s. Ret () (s\<lparr>config_crc := crc\<rparr>))"

definition config_reset :: "('a basecmd_scheme) \<Rightarrow> (('a basecmd_scheme), unit) res" where
  "config_reset s =
     (if \<not> sched_is_shutdown s then Shutdown ''config_reset only available when shutdown'' s
      else let s = s\<lparr>config_crc := 0, oid_count := 0, oids := None, move_free_list := None,
                     move_count := 0, move_item_size := 0\<rparr>;
               s = alloc_init s;
               s = sched_timer_reset s
           in sched_clear_shutdown s)"

section \<open>Timing and load statistics\<close>

definition command_get_clock :: "('a basecmd_scheme) \<Rightarrow> ('a basecmd_scheme)" where
  "command_get_clock s =
     (let (t, s) = timer_read_time s in command_sendf ''clock clock=%u'' [AInt t] s)"

definition command_get_uptime :: "('a basecmd_scheme) \<Rightarrow> ('a basecmd_scheme)" where
  "command_get_uptime s =
     (let (cur, s) = timer_read_time s;
          high = stats_send_time_high s + of_flag (cur < stats_send_time s)
      in command_sendf ''uptime high=%u clock=%u'' [AInt high, AInt cur] s)"

definition timer_has_elapsed :: "u32 \<Rightarrow> u32 \<Rightarrow> u32 \<Rightarrow> bool" where
  "timer_has_elapsed start cur duration \<longleftrightarrow> duration \<le> cur - start"

definition SUMSQ_BASE :: u32 where "SUMSQ_BASE = 256"

definition div_round_up :: "u32 \<Rightarrow> u32 \<Rightarrow> u32" where
  "div_round_up n d = (n + d - 1) div d"

definition next_sumsq :: "u32 \<Rightarrow> u32 \<Rightarrow> u32" where
  "next_sumsq sumsq diff =
     (let n = (if diff \<le> 0xffff then sumsq + div_round_up (diff * diff) SUMSQ_BASE
               else if diff \<le> 0xfffff then sumsq + div_round_up diff SUMSQ_BASE * diff
               else 0xffffffff)
      in if n < sumsq then 0xffffffff else n)"

definition stats_update :: "u32 \<Rightarrow> u32 \<Rightarrow> ('a basecmd_scheme) \<Rightarrow> ('a basecmd_scheme)" where
  "stats_update start cur s =
     (let diff = cur - start;
          s = s\<lparr>stats_count := stats_count s + 1, stats_sum := stats_sum s + diff,
                stats_sumsq := next_sumsq (stats_sumsq s) diff\<rparr>
      in if \<not> timer_has_elapsed (stats_send_time s) cur (timer_from_us s 5000000) then s
         else let s = command_sendf ''stats count=%u sum=%u sumsq=%u''
                        [AInt (stats_count s), AInt (stats_sum s), AInt (stats_sumsq s)] s;
                  s = (if cur < stats_send_time s
                       then s\<lparr>stats_send_time_high := stats_send_time_high s + 1\<rparr> else s);
                  s = s\<lparr>stats_send_time := cur\<rparr>
              in s\<lparr>stats_count := 0, stats_sum := 0, stats_sumsq := 0\<rparr>)"

section \<open>Other commands\<close>

definition command_emergency_stop :: "('a basecmd_scheme) \<Rightarrow> (('a basecmd_scheme), unit) res" where
  "command_emergency_stop s = Shutdown ''Command request'' s"

definition command_clear_shutdown :: "('a basecmd_scheme) \<Rightarrow> (('a basecmd_scheme), unit) res" where
  "command_clear_shutdown s = sched_clear_shutdown s"

text \<open>\<open>idata\<close> is the data dictionary \<^verbatim>\<open>command_identify_data\<close>, generated at build time. The
  count is what \<^verbatim>\<open>sendf\<close> is passed for \<^verbatim>\<open>%.*s\<close>.\<close>

definition command_identify :: "u8 list \<Rightarrow> u32 \<Rightarrow> u32 \<Rightarrow> ('a basecmd_scheme) \<Rightarrow> (('a basecmd_scheme), unit) res" where
  "command_identify idata offset cnt s =
     (let count = (ucast cnt :: u8); isize = (of_nat (length idata) :: u32);
          count = (if isize \<le> offset then 0
                   else if isize < offset + ucast count then ucast (isize - offset)
                   else count)
      in if count \<noteq> 0 \<and> length idata < unat offset + unat count then Fault
         else Ret () (command_sendf ''identify_response offset=%u data=%.*s''
                        [AInt offset, ABuf (take (unat count) (drop (unat offset) idata))] s))"

section \<open>Linked nodes as lists\<close>

text \<open>\<open>nlist h p xs\<close>: from \<open>p\<close> the links lead through the nodes \<open>xs\<close> to NULL.\<close>

fun nlist :: "(nat \<Rightarrow> move_node) \<Rightarrow> nat option \<Rightarrow> nat list \<Rightarrow> bool" where
  "nlist h p [] \<longleftrightarrow> p = None"
| "nlist h p (x # xs) \<longleftrightarrow> p = Some x \<and> nlist h (mn_next (h x)) xs"

definition mq_list :: "('a basecmd_scheme) \<Rightarrow> move_queue_head \<Rightarrow> nat list \<Rightarrow> bool" where
  "mq_list s mh xs \<longleftrightarrow> distinct xs \<and> nlist (nodes s) (mq_first mh) xs \<and> (xs \<noteq> [] \<longrightarrow> mq_last mh = Some (last xs))"

definition free_list :: "('a basecmd_scheme) \<Rightarrow> nat list \<Rightarrow> bool" where
  "free_list s fl \<longleftrightarrow> distinct fl \<and> nlist (nodes s) (move_free_list s) fl"

lemma node_simps [simp]:
  "nodes (set_node_next m n s) x = (if x = m then (nodes s m)\<lparr>mn_next := n\<rparr> else nodes s x)"
  "nodes (set_node_data m d s) x = (if x = m then (nodes s m)\<lparr>mn_data := d\<rparr> else nodes s x)"
  "move_free_list (set_node_next m n s) = move_free_list s"
  "move_free_list (set_node_data m d s) = move_free_list s"
  "move_count (set_node_next m n s) = move_count s" "move_count (set_node_data m d s) = move_count s"
  "timers (set_node_next m n s) = timers s" "timers (set_node_data m d s) = timers s"
  by (simp_all add: set_node_next_def set_node_data_def)

lemma nlist_cong:
  "(\<And>x. x \<in> set xs \<Longrightarrow> mn_next (h x) = mn_next (h' x)) \<Longrightarrow> nlist h p xs \<longleftrightarrow> nlist h' p xs"
  by (induction xs arbitrary: p) auto

lemma nlist_snoc:
  assumes "nlist h p (xs @ [l])" and "distinct (xs @ [l])" and "m \<notin> set (xs @ [l])"
    and "mn_next (h' l) = Some m" and "mn_next (h' m) = None"
    and "\<And>x. x \<notin> {l, m} \<Longrightarrow> mn_next (h' x) = mn_next (h x)"
  shows "nlist h' p (xs @ [l, m])"
  using assms(1-3)
proof (induction xs arbitrary: p)
  case Nil
  then show ?case using assms(4,5) by simp
next
  case (Cons x xs)
  then have "mn_next (h' x) = mn_next (h x)" by (intro assms(6)) auto
  with Cons show ?case by simp
qed

lemma mq_list_frame:
  "mq_list s mh xs \<Longrightarrow> (\<And>x. x \<in> set xs \<Longrightarrow> mn_next (nodes s' x) = mn_next (nodes s x)) \<Longrightarrow> mq_list s' mh xs"
  unfolding mq_list_def using nlist_cong [of xs "nodes s'" "nodes s" "mq_first mh"] by simp

lemma free_list_frame:
  "free_list s fl \<Longrightarrow> (\<And>x. x \<in> set fl \<Longrightarrow> mn_next (nodes s' x) = mn_next (nodes s x)) \<Longrightarrow>
   move_free_list s' = move_free_list s \<Longrightarrow> free_list s' fl"
  unfolding free_list_def using nlist_cong [of fl "nodes s'" "nodes s" "move_free_list s"] by simp

lemma push_list:
  assumes "mq_list s mh xs" and "m \<notin> set xs"
  obtains s' mh' where "move_queue_push m mh s = Ret (xs = [], mh') s'" and "mq_list s' mh' (xs @ [m])"
    and "\<And>x. x \<notin> insert m (set xs) \<Longrightarrow> nodes s' x = nodes s x"
    and "\<And>x. mn_data (nodes s' x) = mn_data (nodes s x)"
    and "s' = s\<lparr>nodes := nodes s'\<rparr>"
proof (cases xs rule: rev_cases)
  case Nil
  then show ?thesis
    using assms
    by (intro that [of "\<lparr>mq_first = Some m, mq_last = Some m\<rparr>" "set_node_next m None s"])
      (auto simp: mq_list_def move_queue_push_def set_node_next_def)
next
  case (snoc ys l)
  then obtain f where f: "mq_first mh = Some f" "mq_last mh = Some l"
    using assms(1) by (cases ys) (auto simp: mq_list_def)
  let ?s' = "set_node_next l (Some m) (set_node_next m None s)"
  have "nlist (nodes ?s') (Some f) (ys @ [l, m])"
    using assms snoc f by (intro nlist_snoc [of "nodes s"]) (auto simp: mq_list_def)
  then show ?thesis
    using assms snoc f
    by (intro that [of "mh\<lparr>mq_last := Some m\<rparr>" ?s'])
      (auto simp: mq_list_def move_queue_push_def set_node_next_def Let_def)
qed

lemma pop_list:
  assumes "mq_list s mh (x # xs)"
  obtains mh' where "move_queue_pop mh s = Ret (x, mh') s" and "mq_list s mh' xs"
    and "mh' = mh\<lparr>mq_first := mn_next (nodes s x)\<rparr>"
  using assms
  by (intro that [of "mh\<lparr>mq_first := mn_next (nodes s x)\<rparr>"])
    (auto simp: mq_list_def move_queue_pop_def split: if_splits)

lemma empty_list: "mq_list s mh xs \<Longrightarrow> move_queue_empty mh \<longleftrightarrow> xs = []"
  by (cases xs) (auto simp: mq_list_def move_queue_empty_def)

lemma free_alloc:
  assumes "free_list s (x # fl)"
  shows "move_alloc s = Ret x (s\<lparr>move_free_list := mn_next (nodes s x)\<rparr>)"
    and "free_list (s\<lparr>move_free_list := mn_next (nodes s x)\<rparr>) fl"
  using assms by (auto simp: free_list_def move_alloc_def)

lemma free_alloc_empty: "free_list s [] \<Longrightarrow> move_alloc s = Shutdown ''Move queue overflow'' s"
  by (simp add: free_list_def move_alloc_def)

lemma free_free:
  assumes "free_list s fl" and "m \<notin> set fl"
  shows "free_list (move_free m s) (m # fl)"
proof -
  have "nlist (nodes (move_free m s)) (move_free_list s) fl \<longleftrightarrow> nlist (nodes s) (move_free_list s) fl"
    using assms(2) by (intro nlist_cong) (auto simp: move_free_def)
  with assms show ?thesis by (simp add: free_list_def move_free_def)
qed

text \<open>A reset puts every node back.\<close>

lemma link_nodes_next:
  "mn_next (nodes (link_nodes n i s) x) = (if i \<le> x \<and> x < i + n then Some (Suc x) else mn_next (nodes s x))"
  by (induction n arbitrary: i s) auto

lemma link_nodes_rest [simp]:
  "move_free_list (link_nodes n i s) = move_free_list s" "move_count (link_nodes n i s) = move_count s"
  "timers (link_nodes n i s) = timers s"
  by (induction n arbitrary: i s) auto

lemma nlist_upt:
  assumes "i < n" and "\<And>x. i \<le> x \<Longrightarrow> Suc x < n \<Longrightarrow> mn_next (h x) = Some (Suc x)" and "mn_next (h (n - 1)) = None"
  shows "nlist h (Some i) [i..<n]"
  using assms(1,2)
proof (induction "n - i" arbitrary: i)
  case (Suc d)
  show ?case
  proof (cases "Suc i = n")
    case True
    then show ?thesis using assms(3) by (auto simp: upt_conv_Cons)
  next
    case False
    with Suc.prems have "Suc i < n" by simp
    then have "nlist h (Some (Suc i)) [Suc i..<n]" using Suc by (intro Suc.hyps(1)) auto
    then show ?thesis using Suc.prems(2) [of i] \<open>Suc i < n\<close> by (simp add: upt_conv_Cons)
  qed
qed simp

lemma move_reset_free:
  assumes "move_count s \<noteq> 0"
  shows "free_list (move_reset s) [0..<unat (move_count s)]"
proof -
  have n: "0 < unat (move_count s)" using assms by (simp add: unat_gt_0)
  have "nlist (nodes (move_reset s)) (Some 0) [0..<unat (move_count s)]"
    using n assms by (intro nlist_upt) (auto simp: move_reset_def Let_def link_nodes_next)
  then show ?thesis using assms by (simp add: free_list_def move_reset_def Let_def)
qed

section \<open>The contract of a move queue\<close>

text \<open>What the users of a queue rely on: it holds a list, a push appends and reports whether
  the list was empty, a pop takes the first.\<close>

locale move_fifo =
  fixes push :: "nat \<Rightarrow> 'h \<Rightarrow> 's \<Rightarrow> ('s, bool \<times> 'h) res"
    and pop :: "'h \<Rightarrow> 's \<Rightarrow> ('s, nat \<times> 'h) res"
    and queue :: "'s \<Rightarrow> 'h \<Rightarrow> nat list \<Rightarrow> bool"
  assumes push_ok: "queue s h xs \<Longrightarrow> m \<notin> set xs \<Longrightarrow>
      \<exists>s' h'. push m h s = Ret (xs = [], h') s' \<and> queue s' h' (xs @ [m])"
    and pop_ok: "queue s h (x # xs) \<Longrightarrow> \<exists>h'. pop h s = Ret (x, h') s \<and> queue s h' xs"
begin

fun pushes :: "nat list \<Rightarrow> 'h \<Rightarrow> 's \<Rightarrow> ('s, 'h) res" where
  "pushes [] h s = Ret h s"
| "pushes (m # ms) h s = bindR (push m h s) (\<lambda>(_, h) s. pushes ms h s)"

fun pops :: "nat \<Rightarrow> 'h \<Rightarrow> 's \<Rightarrow> ('s, nat list \<times> 'h) res" where
  "pops 0 h s = Ret ([], h) s"
| "pops (Suc n) h s = bindR (pop h s) (\<lambda>(m, h) s. bindR (pops n h s) (\<lambda>(ms, h) s. Ret (m # ms, h) s))"

lemma pushes_append:
  "queue s h xs \<Longrightarrow> distinct (xs @ ms) \<Longrightarrow> \<exists>s' h'. pushes ms h s = Ret h' s' \<and> queue s' h' (xs @ ms)"
proof (induction ms arbitrary: xs h s)
  case (Cons m ms)
  then obtain s1 h1 where "push m h s = Ret (xs = [], h1) s1" "queue s1 h1 (xs @ [m])"
    using push_ok [of s h xs m] by auto
  with Cons.IH [of s1 h1 "xs @ [m]"] Cons.prems show ?case by auto
qed simp

lemma pops_prefix:
  "queue s h (xs @ ys) \<Longrightarrow> \<exists>h'. pops (length xs) h s = Ret (xs, h') s \<and> queue s h' ys"
proof (induction xs arbitrary: h)
  case (Cons x xs)
  then obtain h1 where "pop h s = Ret (x, h1) s" "queue s h1 (xs @ ys)" using pop_ok by fastforce
  with Cons.IH [of h1] show ?case by auto
qed simp

lemma fifo_order:
  assumes "queue s h []" and "distinct ms"
  shows "bindR (pushes ms h s) (\<lambda>h s. bindR (pops (length ms) h s) (\<lambda>(xs, _) s. Ret xs s))
           \<in> {Ret ms s' |s'. True}"
proof -
  obtain s1 h1 where "pushes ms h s = Ret h1 s1" "queue s1 h1 (ms @ [])"
    using pushes_append [OF assms(1), of ms] assms(2) by auto
  with pops_prefix [of s1 h1 ms "[]"] show ?thesis by auto
qed

end

interpretation mq: move_fifo move_queue_push move_queue_pop mq_list
proof
  show "\<exists>s' h'. move_queue_push m h s = Ret (xs = [], h') s' \<and> mq_list s' h' (xs @ [m])"
    if "mq_list s h xs" "m \<notin> set xs" for s :: "'a basecmd_scheme" and h xs m
    using push_list [OF that] by metis
  show "\<exists>h'. move_queue_pop h s = Ret (x, h') s \<and> mq_list s h' xs"
    if "mq_list s h (x # xs)" for s :: "'a basecmd_scheme" and h x xs
    using pop_list [OF that] by metis
qed

section \<open>Memory\<close>

lemma align_le: "0 < a \<Longrightarrow> x \<le> align a x"
proof -
  assume a: "0 < a"
  have "x + (a - 1) = (x + (a - 1)) div a * a + (x + (a - 1)) mod a" by simp
  moreover have "(x + (a - 1)) mod a < a" using a by simp
  ultimately show ?thesis unfolding align_def by linarith
qed

lemma align_dvd: "a dvd align a x"
  by (simp add: align_def)

lemma chunks_fit_bound:
  "chunks_fit sz n p e \<le> n \<and> (p \<le> e \<longrightarrow> p + chunks_fit sz n p e * sz \<le> e)"
  by (induction sz n p e rule: chunks_fit.induct) auto

lemma chunks_fit_max:
  "chunks_fit sz n p e < n \<Longrightarrow> e < p + Suc (chunks_fit sz n p e) * sz"
  by (induction sz n p e rule: chunks_fit.induct) (auto split: if_splits)

section \<open>Object ids\<close>

declare oid_search.simps [simp del] oids_from.simps [simp del]

lemma oids_from_search:
  "oids_from os cnt ty i = (case oid_search os cnt ty i of
       Some (oid, Some d) \<Rightarrow> oid # oids_from os cnt ty (Suc (unat oid)) | _ \<Rightarrow> [])"
proof (induction os cnt ty i rule: oids_from.induct)
  case (1 os cnt ty oid)
  show ?case
  proof (cases "unat cnt \<le> oid")
    case True
    then show ?thesis by (subst oids_from.simps, subst oid_search.simps) simp
  next
    case False
    have "unat cnt < 256" using unat_lt_pow [of cnt] by simp
    with False have id: "unat (of_nat oid :: u8) = oid" by (intro unat_of_nat_small) simp
    show ?thesis
      using False 1 id
      by (subst oids_from.simps, subst oid_search.simps) (auto split: option.splits)
  qed
qed

lemma oids_from_upt:
  assumes "unat cnt \<le> length os" and "\<forall>e \<in> set os. oid_ty e = Some ty \<longrightarrow> oid_data e \<noteq> None"
  shows "oids_from os cnt ty i = map of_nat (filter (\<lambda>k. oid_ty (os ! k) = Some ty) [i..<unat cnt])"
proof (induction "unat cnt - i" arbitrary: i)
  case 0
  then show ?case by (subst oids_from.simps) simp
next
  case (Suc d)
  then have lt: "i < unat cnt" by simp
  then have "oid_ty (os ! i) = Some ty \<longrightarrow> oid_data (os ! i) \<noteq> None" using assms by simp
  moreover have "rd os i = Some (os ! i)" using lt assms(1) by (simp add: rd_def)
  moreover have "oids_from os cnt ty (Suc i)
      = map of_nat (filter (\<lambda>k. oid_ty (os ! k) = Some ty) [Suc i..<unat cnt])"
    using Suc by simp
  ultimately show ?case using lt by (subst oids_from.simps) (auto simp: upt_conv_Cons)
qed

section \<open>Statistics\<close>

lemma unat_le_u32: "unat (a :: u32) < 2 ^ 32"
  using unat_lt_pow [of a] by simp

lemma unat_add_small_u32: "unat (a :: u32) + unat b < 2 ^ 32 \<Longrightarrow> unat (a + b) = unat a + unat b"
  using unat_add_lem [of a b] by simp

lemma unat_mult_small_u32: "unat (a :: u32) * unat b < 2 ^ 32 \<Longrightarrow> unat (a * b) = unat a * unat b"
  using unat_mult_lem [of a b] by simp

lemma unat_div_round_up:
  assumes "unat n + 255 < 2 ^ 32"
  shows "unat (div_round_up n SUMSQ_BASE) = (unat n + 255) div 256"
proof -
  have "n + 256 - 1 = n + 255" by simp
  moreover have "unat (n + 255) = unat n + 255" using assms unat_add_small_u32 [of n 255] by simp
  moreover have "unat (256 :: u32) = 256" by simp
  ultimately show ?thesis by (simp only: div_round_up_def SUMSQ_BASE_def unat_div)
qed

lemma sat_add_u32:
  "unat (if a + b < (a :: u32) then 0xffffffff else a + b) = min (2 ^ 32 - 1) (unat a + unat b)"
proof (cases "unat a + unat b < 2 ^ 32")
  case True
  then have "unat (a + b) = unat a + unat b" by (rule unat_add_small_u32)
  with True show ?thesis by (auto simp: word_less_nat_alt)
next
  case False
  then have "unat (a + b) = unat a + unat b - 2 ^ 32"
    using unat_le_u32 [of a] unat_le_u32 [of b] by (simp add: unat_plus_if_size word_size)
  moreover have "unat a + unat b - 2 ^ 32 < unat a" using False unat_le_u32 [of b] unat_le_u32 [of a] by linarith
  ultimately show ?thesis using False by (simp add: word_less_nat_alt)
qed

lemma next_sumsq_small:
  assumes "unat d \<le> 0xffff"
  shows "unat (next_sumsq q d) = min (2 ^ 32 - 1) (unat q + (unat d * unat d + 255) div 256)"
proof -
  have sq: "unat d * unat d \<le> 0xffff * 0xffff" using assms by (intro mult_le_mono)
  then have dd: "unat (d * d) = unat d * unat d" by (intro unat_mult_small_u32) simp
  have "unat (div_round_up (d * d) SUMSQ_BASE) = (unat d * unat d + 255) div 256"
    using sq by (subst unat_div_round_up) (simp_all add: dd)
  moreover have "next_sumsq q d = (if q + div_round_up (d * d) SUMSQ_BASE < q then 0xffffffff
      else q + div_round_up (d * d) SUMSQ_BASE)"
    using assms by (simp add: next_sumsq_def word_le_nat_alt Let_def)
  ultimately show ?thesis by (simp only: sat_add_u32)
qed

lemma next_sumsq_mid:
  assumes "0xffff < unat d" and "unat d \<le> 0xfffff"
  shows "unat (next_sumsq q d) = min (2 ^ 32 - 1) (unat q + (unat d + 255) div 256 * unat d)"
proof -
  have r: "unat (div_round_up d SUMSQ_BASE) = (unat d + 255) div 256"
    using assms by (intro unat_div_round_up) simp
  have "(unat d + 255) div 256 \<le> 4096" using assms(2) by simp
  then have "(unat d + 255) div 256 * unat d \<le> 4096 * 0xfffff" using assms(2) by (intro mult_le_mono)
  then have "unat (div_round_up d SUMSQ_BASE * d) = (unat d + 255) div 256 * unat d"
    by (subst unat_mult_small_u32) (simp_all add: r)
  moreover have "next_sumsq q d = (if q + div_round_up d SUMSQ_BASE * d < q then 0xffffffff
      else q + div_round_up d SUMSQ_BASE * d)"
    using assms by (simp add: next_sumsq_def word_le_nat_alt Let_def)
  ultimately show ?thesis by (simp only: sat_add_u32)
qed

text \<open>The 64 bit time the statistics stand for.\<close>

definition up_clock :: "('a basecmd_scheme) \<Rightarrow> nat" where
  "up_clock s = unat (stats_send_time_high s) * 2 ^ 32 + unat (stats_send_time s)"

lemma high_word_carry:
  assumes "unat h * 2 ^ 32 + unat l \<le> T" and "T < unat h * 2 ^ 32 + unat l + 2 ^ 32" and "T < 2 ^ 64"
  shows "h + of_flag ((of_nat T :: u32) < l) = (of_nat (T div 2 ^ 32) :: u32)"
    and "unat (of_nat (T div 2 ^ 32) :: u32) * 2 ^ 32 + unat (of_nat T :: u32) = T"
proof -
  have lo: "unat (of_nat T :: u32) = T mod 2 ^ 32" by (simp add: unat_of_nat)
  have "T div 2 ^ 32 < 2 ^ 32" using assms(3) by (simp add: less_mult_imp_div_less)
  then have hi: "unat (of_nat (T div 2 ^ 32) :: u32) = T div 2 ^ 32" by (intro unat_of_nat_small) simp
  show "unat (of_nat (T div 2 ^ 32) :: u32) * 2 ^ 32 + unat (of_nat T :: u32) = T"
    unfolding hi lo by simp
  have l: "unat l < 2 ^ 32" using unat_le_u32 .
  define k m where "k = T div 2 ^ 32" and "m = T mod 2 ^ 32"
  have T: "T = k * 2 ^ 32 + m" "m < 2 ^ 32" by (simp_all add: k_def m_def)
  have "k = unat h + (if m < unat l then 1 else 0)"
  proof (cases "m < unat l")
    case True
    then have "unat h < k" "k < unat h + 2" using assms(1,2) T l by simp_all
    with True show ?thesis by simp
  next
    case False
    then have "unat h \<le> k" "k < unat h + 1" using assms(1,2) T l by simp_all
    with False show ?thesis by simp
  qed
  then have "T div 2 ^ 32 = unat h + (if T mod 2 ^ 32 < unat l then 1 else 0)"
    by (simp only: k_def m_def)
  then have "(of_nat (T div 2 ^ 32) :: u32) = of_nat (unat h + (if T mod 2 ^ 32 < unat l then 1 else 0))"
    by simp
  also have "\<dots> = h + of_flag ((of_nat T :: u32) < l)"
    by (simp add: of_flag_def word_less_nat_alt lo)
  finally show "h + of_flag ((of_nat T :: u32) < l) = (of_nat (T div 2 ^ 32) :: u32)" ..
qed

section \<open>All nodes of the pool\<close>

text \<open>Every node is in the free list or in exactly one queue. \<open>qs\<close> are the queues of the
  configured objects with their contents.\<close>

definition pool :: "('a basecmd_scheme) \<Rightarrow> nat list \<Rightarrow> (move_queue_head \<times> nat list) list \<Rightarrow> bool" where
  "pool s fl qs \<longleftrightarrow> free_list s fl \<and> (\<forall>q \<in> set qs. mq_list s (fst q) (snd q)) \<and>
     distinct (fl @ concat (map snd qs)) \<and> set (fl @ concat (map snd qs)) = {..<unat (move_count s)}"

lemma pool_alloc_push:
  assumes "pool s (x # fl) ((mh, xs) # qs)"
  obtains s1 s2 mh' where "move_alloc s = Ret x s1"
    and "move_queue_push x mh (set_node_data x d s1) = Ret (xs = [], mh') s2"
    and "pool s2 fl ((mh', xs @ [x]) # qs)" and "mn_data (nodes s2 x) = d"
proof -
  define s1 where "s1 = s\<lparr>move_free_list := mn_next (nodes s x)\<rparr>"
  have fl: "free_list s (x # fl)" and q: "mq_list s mh xs" and nx: "x \<notin> set xs"
    using assms by (auto simp: pool_def)
  have f1: "free_list s1 fl" using free_alloc(2) [OF fl] by (simp add: s1_def)
  let ?s = "set_node_data x d s1"
  have "mq_list ?s mh xs" using q by (rule mq_list_frame) (simp add: s1_def)
  then obtain s2 mh' where p: "move_queue_push x mh ?s = Ret (xs = [], mh') s2"
    "mq_list s2 mh' (xs @ [x])" "\<And>y. y \<notin> insert x (set xs) \<Longrightarrow> nodes s2 y = nodes ?s y"
    "\<And>y. mn_data (nodes s2 y) = mn_data (nodes ?s y)" "s2 = ?s\<lparr>nodes := nodes s2\<rparr>"
    using push_list [of ?s mh xs x] nx by metis
  have keep: "nodes s2 y = nodes s y" if "y \<notin> insert x (set xs)" for y
    using p(3) [OF that] that by (simp add: s1_def)
  have mfl: "move_free_list s2 = move_free_list s1" "move_count s2 = move_count s"
    by (subst p(5), simp)+ (simp add: s1_def)
  have "y \<notin> insert x (set xs)" if "y \<in> set fl" for y
    using that assms by (auto simp: pool_def)
  then have "free_list s2 fl"
    by (intro free_list_frame [OF f1] mfl) (auto simp: keep s1_def)
  moreover have disj: "y \<notin> insert x (set xs)" if "q' \<in> set qs" "y \<in> set (snd q')" for q' y
    using that assms by (auto simp: pool_def)
  have "mq_list s2 (fst q') (snd q')" if "q' \<in> set qs" for q'
  proof (rule mq_list_frame)
    show "mq_list s (fst q') (snd q')" using that assms by (simp add: pool_def)
  qed (simp only: keep [OF disj [OF that]])
  moreover have "distinct (fl @ concat (map snd ((mh', xs @ [x]) # qs)))"
    "set (fl @ concat (map snd ((mh', xs @ [x]) # qs))) = {..<unat (move_count s2)}"
    using assms mfl(2) by (auto simp: pool_def)
  ultimately have "pool s2 fl ((mh', xs @ [x]) # qs)" using p(2) by (auto simp: pool_def)
  moreover have "mn_data (nodes s2 x) = d" using p(4) by simp
  moreover have "move_alloc s = Ret x s1" using free_alloc(1) [OF fl] by (simp add: s1_def)
  ultimately show ?thesis using that p(1) by blast
qed

lemma pool_pop_free:
  assumes "pool s fl ((mh, x # xs) # qs)"
  obtains mh' where "move_queue_pop mh s = Ret (x, mh') s"
    and "pool (move_free x s) (x # fl) ((mh', xs) # qs)"
proof -
  have "mq_list s mh (x # xs)" using assms by (simp add: pool_def)
  from pop_list [OF this] obtain mh' where p: "move_queue_pop mh s = Ret (x, mh') s" "mq_list s mh' xs"
    by metis
  have keep: "nodes (move_free x s) y = nodes s y" if "y \<noteq> x" for y using that by (simp add: move_free_def)
  have "free_list (move_free x s) (x # fl)" using assms by (intro free_free) (auto simp: pool_def)
  moreover have ne: "y \<noteq> x" if "y \<in> set xs" for y using that assms by (auto simp: pool_def)
  have "mq_list (move_free x s) mh' xs"
    using p(2) by (rule mq_list_frame) (simp only: keep [OF ne])
  moreover have disj: "y \<noteq> x" if "q \<in> set qs" "y \<in> set (snd q)" for q y
    using that assms by (auto simp: pool_def)
  have "mq_list (move_free x s) (fst q) (snd q)" if "q \<in> set qs" for q
  proof (rule mq_list_frame)
    show "mq_list s (fst q) (snd q)" using that assms by (simp add: pool_def)
  qed (simp only: keep [OF disj [OF that]])
  moreover have "move_count (move_free x s) = move_count s" by (simp add: move_free_def)
  ultimately have "pool (move_free x s) (x # fl) ((mh', xs) # qs)"
    using assms by (auto simp: pool_def)
  then show ?thesis using that p(1) by blast
qed

section \<open>Properties\<close>

text \<open>Nodes pushed to an empty move queue come out in the order they
  were pushed, and neither operation faults.\<close>

theorem move_queue_is_fifo:
  assumes "mq_list s mh []" and "distinct ms"
  shows "bindR (mq.pushes ms mh s) (\<lambda>mh s. bindR (mq.pops (length ms) mh s) (\<lambda>(xs, _) s. Ret xs s))
           \<in> {Ret ms s' |s'. True}"
  using assms by (rule mq.fifo_order)

text \<open>C37 (pool_conserved). Taking a node from the free list into a queue, and returning the
  first node of a queue to the free list, keep every node of the pool in exactly one place: no
  node is lost, none is in two queues, and the other queues are untouched. Allocation shuts
  down exactly when all nodes are in queues.\<close>

theorem pool_conserved:
  assumes "pool s fl ((mh, xs) # qs)"
  shows "(case fl of
       [] \<Rightarrow> move_alloc s = Shutdown ''Move queue overflow'' s
     | x # fl' \<Rightarrow> \<exists>s1 s2 mh'. move_alloc s = Ret x s1
         \<and> move_queue_push x mh (set_node_data x d s1) = Ret (xs = [], mh') s2
         \<and> mn_data (nodes s2 x) = d \<and> pool s2 fl' ((mh', xs @ [x]) # qs))
   \<and> (case xs of [] \<Rightarrow> True
     | x # xs' \<Rightarrow> \<exists>mh'. move_queue_pop mh s = Ret (x, mh') s
         \<and> pool (move_free x s) (x # fl) ((mh', xs') # qs))"
proof (intro conjI)
  show "case fl of [] \<Rightarrow> move_alloc s = Shutdown ''Move queue overflow'' s
     | x # fl' \<Rightarrow> \<exists>s1 s2 mh'. move_alloc s = Ret x s1
         \<and> move_queue_push x mh (set_node_data x d s1) = Ret (xs = [], mh') s2
         \<and> mn_data (nodes s2 x) = d \<and> pool s2 fl' ((mh', xs @ [x]) # qs)"
  proof (cases fl)
    case Nil
    then show ?thesis using assms free_alloc_empty [of s] by (simp add: pool_def)
  next
    case (Cons x fl')
    with assms have "pool s (x # fl') ((mh, xs) # qs)" by simp
    then obtain s1 s2 mh' where "move_alloc s = Ret x s1"
      "move_queue_push x mh (set_node_data x d s1) = Ret (xs = [], mh') s2"
      "pool s2 fl' ((mh', xs @ [x]) # qs)" "mn_data (nodes s2 x) = d"
      by (rule pool_alloc_push)
    then show ?thesis unfolding Cons list.case by blast
  qed
  show "case xs of [] \<Rightarrow> True | x # xs' \<Rightarrow> \<exists>mh'. move_queue_pop mh s = Ret (x, mh') s
         \<and> pool (move_free x s) (x # fl) ((mh', xs') # qs)"
  proof (cases xs)
    case (Cons x xs')
    with assms have "pool s fl ((mh, x # xs') # qs)" by simp
    then obtain mh' where "move_queue_pop mh s = Ret (x, mh') s"
      "pool (move_free x s) (x # fl) ((mh', xs') # qs)"
      by (rule pool_pop_free)
    then show ?thesis unfolding Cons list.case by blast
  qed simp
qed

text \<open>Finalizing the configuration creates as many nodes of the
  largest size as fit into memory, at most 1024, all of them free and inside the memory; it
  shuts down when it was done before or when not even one fits.\<close>

theorem finalize_builds_pool:
  assumes "sizeof_ptr s \<le> 255" and "0 < sizeof_ptr s" and "alloc_end s \<le> dynmem_end s"
  shows "(\<exists>s' n. command_finalize_config crc s = Ret () s' \<and> move_count s = 0 \<and> 0 < n \<and> n \<le> 1024
           \<and> unat (move_count s') = n \<and> free_list s' [0..<n] \<and> config_crc s' = crc
           \<and> sizeof_ptr s \<le> unat (move_item_size s') \<and> move_item_size s \<le> move_item_size s'
           \<and> alloc_end s + n * unat (move_item_size s') \<le> dynmem_end s
           \<and> (n = 1024 \<or> dynmem_end s < alloc_end s + (n + 1) * unat (move_item_size s')))
       \<or> (command_finalize_config crc s = Shutdown ''Already finalized'' s \<and> move_count s \<noteq> 0)
       \<or> (\<exists>s'. command_finalize_config crc s = Shutdown ''alloc_chunks failed'' s'
           \<and> dynmem_end s < alloc_end s + unat (move_item_size s'))"
proof (cases "move_count s = 0")
  case False
  then show ?thesis by (simp add: command_finalize_config_def move_finalize_def is_finalized_def)
next
  case True
  define s1 where "s1 = (if unat (move_item_size s) < sizeof_ptr s
      then s\<lparr>move_item_size := of_nat (sizeof_ptr s)\<rparr> else s)"
  let ?sz = "unat (move_item_size s1)"
  let ?n = "chunks_fit ?sz 1024 (alloc_end s) (dynmem_end s)"
  have p: "unat (of_nat (sizeof_ptr s) :: u8) = sizeof_ptr s"
    using assms(1) by (intro unat_of_nat_small) simp
  have sz: "sizeof_ptr s \<le> ?sz" "move_item_size s \<le> move_item_size s1"
    using p by (auto simp: s1_def word_le_nat_alt)
  have same: "alloc_end s1 = alloc_end s" "dynmem_end s1 = dynmem_end s" "move_count s1 = 0"
    "sizeof_ptr s1 = sizeof_ptr s"
    using True by (auto simp: s1_def)
  have stp: "move_queue_setup (sizeof_ptr s) s = Ret \<lparr>mq_first = None, mq_last = None\<rparr> s1"
    using assms(1) True by (simp add: move_queue_setup_def is_finalized_def s1_def)
  note bound = chunks_fit_bound [of ?sz 1024 "alloc_end s" "dynmem_end s"]
  show ?thesis
  proof (cases "?n = 0")
    case True
    then have "dynmem_end s < alloc_end s + ?sz"
      using chunks_fit_max [of ?sz 1024 "alloc_end s" "dynmem_end s"] by simp
    moreover have "command_finalize_config crc s = Shutdown ''alloc_chunks failed'' s1"
      using \<open>move_count s = 0\<close> stp True same
      by (simp add: command_finalize_config_def move_finalize_def is_finalized_def alloc_chunks_def)
    ultimately show ?thesis by blast
  next
    case False
    have n: "unat (of_nat ?n :: u16) = ?n" using bound by (intro unat_of_nat_small) simp
    then have nz: "(of_nat ?n :: u16) \<noteq> 0" using False by (metis unat_0)
    have fit: "alloc_end s + ?n * ?sz \<le> dynmem_end s" using bound assms(3) by simp
    define s2 where "s2 = s1\<lparr>alloc_end := alloc_end s1 + align (sizeof_ptr s1) (?n * ?sz), move_count := of_nat ?n\<rparr>"
    have chunk: "alloc_chunk (?n * ?sz) s1 =
        Ret (alloc_end s) (s1\<lparr>alloc_end := alloc_end s1 + align (sizeof_ptr s1) (?n * ?sz)\<rparr>)"
      using fit same by (simp add: alloc_chunk_def)
    have "command_finalize_config crc s = Ret () ((move_reset s2)\<lparr>config_crc := crc\<rparr>)"
      using \<open>move_count s = 0\<close> stp False same chunk
      by (simp add: command_finalize_config_def move_finalize_def is_finalized_def alloc_chunks_def
          Let_def s2_def)
    moreover have "free_list ((move_reset s2)\<lparr>config_crc := crc\<rparr>) [0..<?n]"
      using move_reset_free [of s2] nz n by (simp add: s2_def free_list_def)
    moreover have "move_item_size (link_nodes k i s') = move_item_size s'" for k i and s' :: "'a basecmd_scheme"
      by (induction k arbitrary: i s') (auto simp: set_node_next_def)
    then have "move_item_size (move_reset s2) = move_item_size s1" "move_count (move_reset s2) = of_nat ?n"
      by (simp_all add: move_reset_def Let_def s2_def set_node_next_def)
    moreover have "?n = 1024 \<or> dynmem_end s < alloc_end s + (?n + 1) * ?sz"
      using chunks_fit_max [of ?sz 1024 "alloc_end s" "dynmem_end s"] bound by fastforce
    ultimately show ?thesis
      using True False bound fit sz n
      by (intro disjI1 exI [of _ "(move_reset s2)\<lparr>config_crc := crc\<rparr>"] exI [of _ ?n]) auto
  qed
qed

theorem move_queue_is_fifo_witness:
  "bindR (mq.pushes [4, 2] \<lparr>mq_first = None, mq_last = None\<rparr> (basecmd_boot 4 1000 (\<lambda>_. 0) (\<lambda>_. 0) (sched_boot 1 (\<lambda>_. 0) (\<lambda>_ _. False))))
     (\<lambda>mh s. bindR (mq.pops 2 mh s) (\<lambda>(xs, _) s. Ret xs s)) \<in> {Ret [4, 2] s' |s'. True}"
  using move_queue_is_fifo [of "basecmd_boot 4 1000 (\<lambda>_. 0) (\<lambda>_. 0) (sched_boot 1 (\<lambda>_. 0) (\<lambda>_ _. False))"
      "\<lparr>mq_first = None, mq_last = None\<rparr>" "[4, 2]"]
  by (simp add: mq_list_def numeral_2_eq_2)

theorem pool_conserved_witness:
  "\<exists>s. pool (s :: basecmd) [0] [(\<lparr>mq_first = None, mq_last = None\<rparr>, [])]
     \<and> (\<exists>s1 s2 mh'. move_alloc s = Ret 0 s1
         \<and> move_queue_push 0 \<lparr>mq_first = None, mq_last = None\<rparr> (set_node_data 0 M_none s1) = Ret (True, mh') s2
         \<and> pool s2 [] [(mh', [0])])"
proof -
  let ?s = "(basecmd_boot 4 1000 (\<lambda>_. 0) (\<lambda>_. 0) (sched_boot 1 (\<lambda>_. 0) (\<lambda>_ _. False)))\<lparr>move_count := 1, move_free_list := Some 0\<rparr>"
  have "pool ?s [0] [(\<lparr>mq_first = None, mq_last = None\<rparr>, [])]"
    by (simp add: pool_def free_list_def mq_list_def basecmd_boot_def basecmd.defs sched.defs lessThan_Suc)
  with pool_conserved [OF this, of M_none] show ?thesis by fastforce
qed

theorem finalize_builds_pool_witness:
  "\<exists>s'. command_finalize_config 99 (basecmd_boot 4 1000 (\<lambda>_. 0) (\<lambda>_. 0) (sched_boot 1 (\<lambda>_. 0) (\<lambda>_ _. False))) = Ret () s'
      \<or> command_finalize_config 99 (basecmd_boot 4 1000 (\<lambda>_. 0) (\<lambda>_. 0) (sched_boot 1 (\<lambda>_. 0) (\<lambda>_ _. False))) = Shutdown ''alloc_chunks failed'' s'"
  using finalize_builds_pool [of "basecmd_boot 4 1000 (\<lambda>_. 0) (\<lambda>_. 0) (sched_boot 1 (\<lambda>_. 0) (\<lambda>_ _. False))" 99]
  by (auto simp: basecmd_boot_def basecmd.defs sched.defs)

text \<open>\<^verbatim>\<open>foreach_oid\<close> ends and visits exactly the objects of the
  given type, in the order of their ids, when each of them has its storage; each step is the
  next result of \<^verbatim>\<open>oid_next\<close>.\<close>

theorem foreach_visits_all:
  assumes "oids s = Some os" and "unat (oid_count s) = length os"
    and "\<forall>e \<in> set os. oid_ty e = Some ty \<longrightarrow> oid_data e \<noteq> None"
  shows "foreach_oid ty s = map of_nat (filter (\<lambda>k. oid_ty (os ! k) = Some ty) [0..<length os])
     \<and> map Some (take 1 (foreach_oid ty s)) = (case oid_next (-1) ty s of Some (i, _) \<Rightarrow> [Some i] | None \<Rightarrow> [])"
proof -
  have all: "foreach_oid ty s = map of_nat (filter (\<lambda>k. oid_ty (os ! k) = Some ty) [0..<length os])"
    using assms oids_from_upt [of "oid_count s" os ty 0] by (simp add: foreach_oid_def)
  have fs: "foreach_oid ty s = (case oid_search os (oid_count s) ty 0 of
       Some (oid, Some d) \<Rightarrow> oid # oids_from os (oid_count s) ty (Suc (unat oid)) | _ \<Rightarrow> [])"
    using assms(1) oids_from_search [of os "oid_count s" ty 0] by (simp add: foreach_oid_def)
  have "\<exists>e \<in> set os. oid_ty e = Some ty \<and> oid_data e = d"
    if "oid_search os cnt ty i = Some (oid, d)" for cnt i oid d
    using that
    by (induction os cnt ty i rule: oid_search.induct)
      (subst (asm) oid_search.simps, auto simp: rd_def split: if_splits)
  then have "d \<noteq> None" if "oid_search os (oid_count s) ty 0 = Some (oid, d)" for oid d
    using that assms(3) by blast
  then have "map Some (take 1 (foreach_oid ty s)) = (case oid_next (-1) ty s of Some (i, _) \<Rightarrow> [Some i] | None \<Rightarrow> [])"
    unfolding fs oid_next_def using assms(1)
    by (auto split: option.splits)
  with all show ?thesis by blast
qed

theorem foreach_visits_all_witness:
  "foreach_oid Config_trsync ((basecmd_boot 4 1000 (\<lambda>_. 0) (\<lambda>_. 0) (sched_boot 1 (\<lambda>_. 0) (\<lambda>_ _. False)))
      \<lparr>oids := Some [\<lparr>oid_ty = Some Config_stepper, oid_data = Some 0\<rparr>, \<lparr>oid_ty = Some Config_trsync, oid_data = Some 8\<rparr>],
       oid_count := 2\<rparr>) = [1]"
  using foreach_visits_all [of "(basecmd_boot 4 1000 (\<lambda>_. 0) (\<lambda>_. 0) (sched_boot 1 (\<lambda>_. 0) (\<lambda>_ _. False)))
      \<lparr>oids := Some [\<lparr>oid_ty = Some Config_stepper, oid_data = Some 0\<rparr>, \<lparr>oid_ty = Some Config_trsync, oid_data = Some 8\<rparr>],
       oid_count := 2\<rparr>" _ Config_trsync]
  by (simp add: upt_rec)

text \<open>The sum of squares never wraps: it is the exact sum of the scaled
  squares, cut off at the largest 32 bit value.\<close>

theorem sumsq_saturates:
  "unat (next_sumsq q d) = min (2 ^ 32 - 1) (unat q +
     (if unat d \<le> 0xffff then (unat d * unat d + 255) div 256
      else if unat d \<le> 0xfffff then (unat d + 255) div 256 * unat d else 2 ^ 32 - 1))"
proof -
  consider "unat d \<le> 0xffff" | "0xffff < unat d" "unat d \<le> 0xfffff" | "0xfffff < unat d" by linarith
  then show ?thesis
  proof cases
    case 3
    then have "next_sumsq q d = 0xffffffff"
      using unat_le_u32 [of q] by (simp add: next_sumsq_def word_le_nat_alt word_less_nat_alt Let_def)
    then show ?thesis using 3 by simp
  qed (simp_all add: next_sumsq_small next_sumsq_mid)
qed

text \<open>With the true 64 bit time less than one wrap of the 32 bit
  clock after the last statistics report, \<^verbatim>\<open>get_uptime\<close> sends the true time, and a
  statistics update keeps the stored time the true time of the last report.\<close>

theorem uptime_across_wraps:
  assumes "up_clock s \<le> T" and "T < up_clock s + 2 ^ 32" and "T < 2 ^ 64"
    and "clk_src s (clk_pos s) = of_nat T" and "in_sendf s = 0"
  shows "out (command_get_uptime s) = out s @ [(''uptime high=%u clock=%u'',
           [AInt (of_nat (T div 2 ^ 32)), AInt (of_nat T)])]
     \<and> up_clock (stats_update start (of_nat T) s) =
         (if timer_has_elapsed (stats_send_time s) (of_nat T) (timer_from_us s 5000000) then T else up_clock s)"
proof -
  note carry = high_word_carry [OF assms(1,2) [unfolded up_clock_def] assms(3)]
  have "out (command_get_uptime s) = out s @ [(''uptime high=%u clock=%u'',
           [AInt (of_nat (T div 2 ^ 32)), AInt (of_nat T)])]"
    using assms(4,5) carry(1) by (simp add: command_get_uptime_def timer_read_time_def command_sendf_def)
  moreover have "stats_send_time_high s + of_flag ((of_nat T :: u32) < stats_send_time s) =
      (if (of_nat T :: u32) < stats_send_time s then stats_send_time_high s + 1 else stats_send_time_high s)"
    by (simp add: of_flag_def)
  then have "up_clock (stats_update start (of_nat T) s) =
         (if timer_has_elapsed (stats_send_time s) (of_nat T) (timer_from_us s 5000000) then T else up_clock s)"
    using carry assms(5)
    by (auto simp: stats_update_def up_clock_def command_sendf_def Let_def timer_from_us_def
        split: if_splits)
  ultimately show ?thesis by blast
qed

theorem uptime_across_wraps_witness:
  "\<exists>s. out (command_get_uptime (s :: basecmd)) = out s @ [(''uptime high=%u clock=%u'', [AInt 1, AInt 5])]"
proof -
  let ?s = "basecmd_boot 4 1000 (\<lambda>_. 0) (\<lambda>_. 0) (sched_boot 1 (\<lambda>_. 5) (\<lambda>_ _. False))\<lparr>stats_send_time := 7\<rparr>"
  have "up_clock ?s = 7" by (simp add: up_clock_def basecmd_boot_def basecmd.defs sched.defs)
  then have "out (command_get_uptime ?s) = out ?s @ [(''uptime high=%u clock=%u'', [AInt 1, AInt 5])]"
    using uptime_across_wraps [of ?s 4294967301 0]
    by (simp add: basecmd_boot_def basecmd.defs sched.defs sched_boot_def)
  then show ?thesis by blast
qed

text \<open>\<^verbatim>\<open>identify\<close> answers with exactly the requested slice of the
  data dictionary, cut off at its end, and never reads outside it.\<close>

theorem identify_in_bounds:
  assumes "length idata + 255 < 2 ^ 32"
  shows "command_identify idata offset cnt s =
     Ret () (command_sendf ''identify_response offset=%u data=%.*s''
       [AInt offset, ABuf (take (unat (ucast cnt :: u8)) (drop (unat offset) idata))] s)"
proof -
  define c where "c = (ucast cnt :: u8)"
  let ?isize = "of_nat (length idata) :: u32"
  have isz: "unat ?isize = length idata" using assms by (intro unat_of_nat_small) simp
  have c: "unat c < 256" using unat_lt_pow [of c] by simp
  have uc: "unat (ucast c :: u32) = unat c" using c by (simp add: unsigned_ucast_eq take_bit_nat_eq_self)
  show ?thesis
  proof (cases "?isize \<le> offset")
    case True
    then have "length idata \<le> unat offset" using isz by (simp add: word_le_nat_alt)
    then show ?thesis using True by (simp add: command_identify_def Let_def)
  next
    case False
    then have lt: "unat offset < length idata" using isz by (simp add: word_le_nat_alt)
    then have add: "unat (offset + ucast c) = unat offset + unat c"
      using assms c uc unat_add_small_u32 [of offset "ucast c"] by simp
    show ?thesis
    proof (cases "?isize < offset + ucast c")
      case True
      then have gt: "length idata < unat offset + unat c" using isz add by (simp add: word_less_nat_alt)
      have sub: "unat (?isize - offset) = length idata - unat offset"
        using lt isz False by (simp add: unat_sub word_le_nat_alt)
      have "unat (ucast (?isize - offset) :: u8) = length idata - unat offset"
        using gt c sub lt by (simp add: unsigned_ucast_eq take_bit_nat_eq_self)
      then show ?thesis
        using True False lt gt by (simp add: command_identify_def Let_def c_def [symmetric])
    next
      case le: False
      then have "unat offset + unat c \<le> length idata" using isz add by (simp add: word_less_nat_alt)
      then show ?thesis
        using le False by (simp add: command_identify_def Let_def c_def [symmetric])
    qed
  qed
qed

theorem identify_in_bounds_witness:
  "\<exists>s'. command_identify [1, 2, 3] 1 40 (basecmd_boot 4 1000 (\<lambda>_. 0) (\<lambda>_. 0) (sched_boot 1 (\<lambda>_. 0) (\<lambda>_ _. False))) = Ret () s'
     \<and> out s' = [(''identify_response offset=%u data=%.*s'', [AInt 1, ABuf [2, 3]])]"
  using identify_in_bounds [of "[1, 2, 3]" 1 40 "basecmd_boot 4 1000 (\<lambda>_. 0) (\<lambda>_. 0) (sched_boot 1 (\<lambda>_. 0) (\<lambda>_ _. False))"]
  by (simp add: command_sendf_def basecmd_boot_def basecmd.defs sched.defs sched_boot_def)

end
