(* ===== verification/Stepper.thy ===== *)
theory Stepper
  imports Basecmd
begin

text \<open>
  Stepper motors (\<^verbatim>\<open>src/src/stepper.c\<close>): the queue of moves of a stepper, the three step
  functions, the commands and the stop. A \<^verbatim>\<open>struct stepper\<close> is the entry of
  \<open>steppers\<close> under its object id; its timer is \<open>ObjT oid 0\<close>. The build's choice of the step
  function is a constant of the state.
\<close>

section \<open>State\<close>

record stepper =
  st_interval :: u32
  st_add :: u16
  st_count :: u32
  st_next_step_time :: u32
  st_step_pulse_ticks :: u32
  st_step_pin :: u32
  st_dir_pin :: u32
  st_position :: u32
  st_mq :: move_queue_head
  st_sig_next :: "u8 option"
  st_sig_func :: bool
  st_flags :: u8

record stepper_st = basecmd +
  HAVE_EDGE_OPTIMIZATION :: bool
  HAVE_AVR_OPTIMIZATION :: bool
  CONFIG_INLINE_STEPPER_HACK :: bool
  steppers :: "u8 \<Rightarrow> stepper"

definition MF_DIR :: u8 where "MF_DIR = 1"
definition POSITION_BIAS :: u32 where "POSITION_BIAS = 0x40000000"
definition SF_LAST_DIR :: u8 where "SF_LAST_DIR = 1"
definition SF_NEXT_DIR :: u8 where "SF_NEXT_DIR = 2"
definition SF_INVERT_STEP :: u8 where "SF_INVERT_STEP = 4"
definition SF_NEED_RESET :: u8 where "SF_NEED_RESET = 8"
definition SF_SINGLE_SCHED :: u8 where "SF_SINGLE_SCHED = 16"
definition SF_OPTIMIZED_PATH :: u8 where "SF_OPTIMIZED_PATH = 32"
definition SF_HAVE_ADD :: u8 where "SF_HAVE_ADD = 64"

lemmas sf_consts = MF_DIR_def POSITION_BIAS_def SF_LAST_DIR_def SF_NEXT_DIR_def SF_INVERT_STEP_def
  SF_NEED_RESET_def SF_SINGLE_SCHED_def SF_OPTIMIZED_PATH_def SF_HAVE_ADD_def

abbreviation stepper_timer :: "u8 \<Rightarrow> timer_id" where
  "stepper_timer oid \<equiv> ObjT oid 0"

definition upd_stepper ::
  "u8 \<Rightarrow> (stepper \<Rightarrow> stepper) \<Rightarrow> ('a stepper_st_scheme) \<Rightarrow> ('a stepper_st_scheme)" where
  "upd_stepper oid f s = s\<lparr>steppers := (steppers s)(oid := f (steppers s oid))\<rparr>"

text \<open>What \<^verbatim>\<open>oid_alloc\<close> leaves of a stepper and of its timer: zeroes.\<close>

definition stepper_zero :: stepper where
  "stepper_zero = \<lparr>st_interval = 0, st_add = 0, st_count = 0, st_next_step_time = 0,
     st_step_pulse_ticks = 0, st_step_pin = 0, st_dir_pin = 0, st_position = 0,
     st_mq = \<lparr>mq_first = None, mq_last = None\<rparr>, st_sig_next = None, st_sig_func = False, st_flags = 0\<rparr>"

definition timer_zero :: timer where
  "timer_zero = \<lparr>t_next = None, t_func = Null_func, t_waketime = 0\<rparr>"

section \<open>Loading the next move\<close>

text \<open>\<^verbatim>\<open>while (timer_is_before(timer_read_time(), min_next_time)) ;\<close> is a loop on the
  clock; \<open>None\<close> is a clock that never gets there.\<close>

partial_function (option) wait_until :: "(nat \<Rightarrow> u32) \<Rightarrow> nat \<Rightarrow> u32 \<Rightarrow> nat option" where
  "wait_until clk pos t = (if timer_is_before (clk pos) t then wait_until clk (Suc pos) t else Some (Suc pos))"

definition busy_wait :: "u32 \<Rightarrow> ('a board_scheme) \<Rightarrow> (('a board_scheme), unit) res" where
  "busy_wait t s = (case wait_until (clk_src s) (clk_pos s) t of
       None \<Rightarrow> Fault | Some p \<Rightarrow> Ret () (s\<lparr>clk_pos := p\<rparr>))"

text \<open>The branch of \<^verbatim>\<open>stepper_load_next\<close> for the fully scheduled step function; the
  result is whether the direction pin still has to change.\<close>

definition load_full :: "u8 \<Rightarrow> stepper_move \<Rightarrow> ('a stepper_st_scheme) \<Rightarrow> (('a stepper_st_scheme), bool) res" where
  "load_full oid m s =
     (let st = steppers s oid;
          was_active = (st_count st \<noteq> 0);
          need_dir_change = (sm_flags m AND MF_DIR \<noteq> 0);
          min_next_time = waketime s (stepper_timer oid);
          next_step_time = st_next_step_time st + sm_interval m;
          s = upd_stepper oid (\<lambda>st. st\<lparr>st_next_step_time := next_step_time\<rparr>) s;
          s = set_waketime (stepper_timer oid) next_step_time s;
          s = upd_stepper oid (\<lambda>st. st\<lparr>st_count :=
                 if st_flags st AND SF_SINGLE_SCHED \<noteq> 0 then ucast (sm_count m) else ucast (sm_count m) * 2\<rparr>) s
      in bindR
           (if was_active \<and> timer_is_before next_step_time min_next_time then
              if sint (next_step_time - min_next_time) < sint (- timer_from_us s 1000)
              then Shutdown ''Stepper too far in past'' s
              else Ret () (set_waketime (stepper_timer oid) min_next_time s)
            else Ret () s)
           (\<lambda>_ s.
             if was_active \<and> need_dir_change then
               bindR (if st_flags st AND SF_SINGLE_SCHED \<noteq> 0 then busy_wait min_next_time s else Ret () s)
                 (\<lambda>_ s. let s = gpio_out_toggle_noirq (st_dir_pin st) s;
                            (curtime, s) = timer_read_time s;
                            min_next_time = curtime + st_step_pulse_ticks st
                        in Ret False (if timer_is_before (waketime s (stepper_timer oid)) min_next_time
                                      then set_waketime (stepper_timer oid) min_next_time s else s))
             else Ret need_dir_change s))"

text \<open>The three branches; the result is whether the direction pin still has to change.\<close>

definition load_timing :: "u8 \<Rightarrow> stepper_move \<Rightarrow> ('a stepper_st_scheme) \<Rightarrow> (('a stepper_st_scheme), bool) res" where
  "load_timing oid m s =
     (let opt = (st_flags (steppers s oid) AND SF_OPTIMIZED_PATH \<noteq> 0);
          need_dir_change = (sm_flags m AND MF_DIR \<noteq> 0)
      in if HAVE_EDGE_OPTIMIZATION s \<and> opt then
           let s = set_waketime (stepper_timer oid) (waketime s (stepper_timer oid) + sm_interval m) s
           in Ret need_dir_change (upd_stepper oid (\<lambda>st. st\<lparr>st_count := ucast (sm_count m)\<rparr>) s)
         else if HAVE_AVR_OPTIMIZATION s \<and> opt then
           let s = set_waketime (stepper_timer oid) (waketime s (stepper_timer oid) + sm_interval m) s
           in Ret need_dir_change (upd_stepper oid (\<lambda>st. st\<lparr>st_count := ucast (sm_count m),
                 st_flags := if sm_add m \<noteq> 0 then st_flags st OR SF_HAVE_ADD
                             else st_flags st AND NOT SF_HAVE_ADD\<rparr>) s)
         else load_full oid m s)"

definition stepper_load_next :: "u8 \<Rightarrow> ('a stepper_st_scheme) \<Rightarrow> (('a stepper_st_scheme), timer_res) res" where
  "stepper_load_next oid s =
     (let st = steppers s oid in
      if move_queue_empty (st_mq st) then
        Ret SF_DONE (upd_stepper oid (\<lambda>st. st\<lparr>st_count := 0\<rparr>) s)
      else bindR (move_queue_pop (st_mq st) s) (\<lambda>(mn, mq) s.
        case mn_data (nodes s mn) of
          M_stepper m \<Rightarrow>
            let s = upd_stepper oid (\<lambda>st. st\<lparr>st_mq := mq\<rparr>) s;
                need_dir_change = (sm_flags m AND MF_DIR \<noteq> 0);
                s = move_free mn s;
                s = upd_stepper oid (\<lambda>st. st\<lparr>
                      st_position := (if need_dir_change then - st_position st else st_position st) + ucast (sm_count m),
                      st_add := sm_add m,
                      st_interval := sm_interval m + scast (sm_add m)\<rparr>) s
            in bindR (load_timing oid m s)
                 (\<lambda>set_dir s. Ret SF_RESCHEDULE
                    (if set_dir then gpio_out_toggle_noirq (st_dir_pin st) s else s))
        | _ \<Rightarrow> Fault))"

section \<open>Step functions\<close>

definition stepper_event_edge :: "u8 \<Rightarrow> ('a stepper_st_scheme) \<Rightarrow> (('a stepper_st_scheme), timer_res) res" where
  "stepper_event_edge oid s =
     (let st = steppers s oid;
          s = gpio_out_toggle_noirq (st_step_pin st) s;
          count = st_count st - 1
      in if count \<noteq> 0 then
           let s = upd_stepper oid (\<lambda>st. st\<lparr>st_count := count\<rparr>) s;
               s = set_waketime (stepper_timer oid) (waketime s (stepper_timer oid) + st_interval st) s
           in Ret SF_RESCHEDULE (upd_stepper oid (\<lambda>st. st\<lparr>st_interval := st_interval st + scast (st_add st)\<rparr>) s)
         else stepper_load_next oid s)"

text \<open>On AVR the count is accessed through its low 16 bits.\<close>

definition stepper_event_avr :: "u8 \<Rightarrow> ('a stepper_st_scheme) \<Rightarrow> (('a stepper_st_scheme), timer_res) res" where
  "stepper_event_avr oid s =
     (let st = steppers s oid;
          s = gpio_out_toggle_noirq (st_step_pin st) s;
          count = (ucast (st_count st) :: u16) - 1
      in if count \<noteq> 0 then
           let s = upd_stepper oid (\<lambda>st. st\<lparr>st_count := (st_count st AND 0xffff0000) OR ucast count\<rparr>) s;
               s = set_waketime (stepper_timer oid) (waketime s (stepper_timer oid) + st_interval st) s;
               s = gpio_out_toggle_noirq (st_step_pin st) s
           in Ret SF_RESCHEDULE
                (if st_flags st AND SF_HAVE_ADD \<noteq> 0
                 then upd_stepper oid (\<lambda>st. st\<lparr>st_interval := st_interval st + scast (st_add st)\<rparr>) s else s)
         else bindR (stepper_load_next oid s) (\<lambda>ret s. Ret ret (gpio_out_toggle_noirq (st_step_pin st) s)))"

definition stepper_event_full :: "u8 \<Rightarrow> ('a stepper_st_scheme) \<Rightarrow> (('a stepper_st_scheme), timer_res) res" where
  "stepper_event_full oid s =
     (let st = steppers s oid;
          s = gpio_out_toggle_noirq (st_step_pin st) s;
          (curtime, s) = timer_read_time s;
          min_next_time = curtime + st_step_pulse_ticks st;
          count = st_count st - 1;
          reschedule_min = (\<lambda>s. Ret SF_RESCHEDULE (set_waketime (stepper_timer oid) min_next_time
                               (upd_stepper oid (\<lambda>st. st\<lparr>st_count := count\<rparr>) s)))
      in if count AND 1 \<noteq> 0 \<and> st_flags st AND SF_SINGLE_SCHED = 0 then reschedule_min s
         else if count \<noteq> 0 then
           let s = upd_stepper oid (\<lambda>st. st\<lparr>st_next_step_time := st_next_step_time st + st_interval st\<rparr>) s;
               s = upd_stepper oid (\<lambda>st. st\<lparr>st_interval := st_interval st + scast (st_add st)\<rparr>) s
           in if timer_is_before (st_next_step_time (steppers s oid)) min_next_time then reschedule_min s
              else let s = upd_stepper oid (\<lambda>st. st\<lparr>st_count := count\<rparr>) s
                   in Ret SF_RESCHEDULE (set_waketime (stepper_timer oid) (st_next_step_time (steppers s oid)) s)
         else stepper_load_next oid (set_waketime (stepper_timer oid) min_next_time s))"

definition stepper_event :: "u8 \<Rightarrow> ('a stepper_st_scheme) \<Rightarrow> (('a stepper_st_scheme), timer_res) res" where
  "stepper_event oid s =
     (if HAVE_EDGE_OPTIMIZATION s then stepper_event_edge oid s
      else if HAVE_AVR_OPTIMIZATION s then stepper_event_avr oid s
      else stepper_event_full oid s)"

section \<open>Commands\<close>

text \<open>\<^verbatim>\<open>EDGE_STEP_TICKS\<close> is \<^verbatim>\<open>DIV_ROUND_UP(CONFIG_CLOCK_FREQ, 8000000)\<close>.\<close>

definition EDGE_STEP_TICKS :: "('a board_scheme) \<Rightarrow> u32" where
  "EDGE_STEP_TICKS s = div_round_up (clock_freq s) 8000000"

definition AVR_STEP_TICKS :: u32 where "AVR_STEP_TICKS = 40"

text \<open>\<^verbatim>\<open>invert_step\<close> is an \<^verbatim>\<open>int_fast8_t\<close>, here a signed byte as on AVR; where the type is wider the result is
  the same for the arguments from -128 to 127, and the host sends -1, 0 or 1.\<close>

definition command_config_stepper ::
  "u32 \<Rightarrow> u32 \<Rightarrow> u32 \<Rightarrow> u32 \<Rightarrow> u32 \<Rightarrow> ('a stepper_st_scheme) \<Rightarrow> (('a stepper_st_scheme), unit) res" where
  "command_config_stepper a0 step_pin dir_pin a3 pulse_ticks s =
     (let oid = (ucast a0 :: u8) in
      bindR (oid_alloc oid Config_stepper s) (\<lambda>_ s.
      let s = upd_stepper oid (\<lambda>_. stepper_zero) s;
          s = s\<lparr>timers := (timers s)(stepper_timer oid := timer_zero)\<rparr>;
          invert_step = sint (ucast a3 :: u8);
          flags = (if 0 < invert_step then SF_INVERT_STEP else if invert_step < 0 then SF_SINGLE_SCHED else 0);
          s = upd_stepper oid (\<lambda>st. st\<lparr>st_flags := flags\<rparr>) s
      in bindR (gpio_out_setup step_pin (flags AND SF_INVERT_STEP \<noteq> 0) s) (\<lambda>_ s.
         let s = upd_stepper oid (\<lambda>st. st\<lparr>st_step_pin := step_pin\<rparr>) s in
         bindR (gpio_out_setup dir_pin False s) (\<lambda>_ s.
         let s = upd_stepper oid (\<lambda>st. st\<lparr>st_dir_pin := dir_pin, st_position := - POSITION_BIAS,
                                     st_step_pulse_ticks := pulse_ticks\<rparr>) s in
         bindR (move_queue_setup (sizeof_move s Config_stepper) s) (\<lambda>mq s.
         let s = upd_stepper oid (\<lambda>st. st\<lparr>st_mq := mq\<rparr>) s in
         Ret () (if HAVE_EDGE_OPTIMIZATION s then
                   if invert_step < 0 \<and> pulse_ticks \<le> EDGE_STEP_TICKS s
                   then upd_stepper oid (\<lambda>st. st\<lparr>st_flags := st_flags st OR SF_OPTIMIZED_PATH\<rparr>) s
                   else set_func (stepper_timer oid) Stepper_event_full s
                 else if HAVE_AVR_OPTIMIZATION s then
                   if 0 \<le> invert_step \<and> pulse_ticks \<le> AVR_STEP_TICKS
                   then upd_stepper oid (\<lambda>st. st\<lparr>st_flags := st_flags st OR (SF_SINGLE_SCHED OR SF_OPTIMIZED_PATH)\<rparr>) s
                   else set_func (stepper_timer oid) Stepper_event_full s
                 else if \<not> CONFIG_INLINE_STEPPER_HACK s
                   then set_func (stepper_timer oid) Stepper_event_full s
                 else s))))))"

definition stepper_oid_lookup :: "u32 \<Rightarrow> ('a stepper_st_scheme) \<Rightarrow> (('a stepper_st_scheme), u8) res" where
  "stepper_oid_lookup a0 s =
     bindR (oid_lookup (ucast a0) Config_stepper s) (\<lambda>p s.
       case p of None \<Rightarrow> Fault | Some _ \<Rightarrow> Ret (ucast a0) s)"

definition flip_dir :: "u8 \<Rightarrow> bool" where
  "flip_dir flags \<longleftrightarrow> (flags AND SF_LAST_DIR \<noteq> 0) \<noteq> (flags AND SF_NEXT_DIR \<noteq> 0)"

definition command_queue_step ::
  "u32 \<Rightarrow> u32 \<Rightarrow> u32 \<Rightarrow> u32 \<Rightarrow> ('a stepper_st_scheme) \<Rightarrow> (('a stepper_st_scheme), unit) res" where
  "command_queue_step a0 interval count add s =
     bindR (stepper_oid_lookup a0 s) (\<lambda>oid s.
     bindR (move_alloc s) (\<lambda>mn s.
     if (ucast count :: u16) = 0 then Shutdown ''Invalid count parameter'' s
     else
       let st = steppers s oid;
           flags = (if flip_dir (st_flags st) then st_flags st XOR SF_LAST_DIR else st_flags st);
           m = \<lparr>sm_interval = interval, sm_add = ucast add, sm_count = ucast count,
                sm_flags = (if flip_dir (st_flags st) then MF_DIR else 0)\<rparr>;
           s = set_node_data mn (M_stepper m) s
       in if st_count st \<noteq> 0 then
            let s = upd_stepper oid (\<lambda>st. st\<lparr>st_flags := flags\<rparr>) s in
            bindR (move_queue_push mn (st_mq st) s) (\<lambda>(_, mq) s.
              Ret () (upd_stepper oid (\<lambda>st. st\<lparr>st_mq := mq\<rparr>) s))
          else if flags AND SF_NEED_RESET \<noteq> 0 then Ret () (move_free mn s)
          else
            let s = upd_stepper oid (\<lambda>st. st\<lparr>st_flags := flags\<rparr>) s in
            bindR (move_queue_push mn (st_mq st) s) (\<lambda>(_, mq) s.
            bindR (stepper_load_next oid (upd_stepper oid (\<lambda>st. st\<lparr>st_mq := mq\<rparr>) s)) (\<lambda>_ s.
            sched_add_timer (stepper_timer oid) s))))"

definition command_set_next_step_dir ::
  "u32 \<Rightarrow> u32 \<Rightarrow> ('a stepper_st_scheme) \<Rightarrow> (('a stepper_st_scheme), unit) res" where
  "command_set_next_step_dir a0 dir s =
     bindR (stepper_oid_lookup a0 s) (\<lambda>oid s.
       let nextdir = (if dir \<noteq> 0 then SF_NEXT_DIR else 0)
       in Ret () (upd_stepper oid (\<lambda>st. st\<lparr>st_flags := (st_flags st AND NOT SF_NEXT_DIR) OR nextdir\<rparr>) s))"

definition command_reset_step_clock ::
  "u32 \<Rightarrow> u32 \<Rightarrow> ('a stepper_st_scheme) \<Rightarrow> (('a stepper_st_scheme), unit) res" where
  "command_reset_step_clock a0 clock s =
     bindR (stepper_oid_lookup a0 s) (\<lambda>oid s.
       if st_count (steppers s oid) \<noteq> 0 then Shutdown ''Can't reset time when stepper active'' s
       else let s = set_waketime (stepper_timer oid) clock s
            in Ret () (upd_stepper oid (\<lambda>st. st\<lparr>st_next_step_time := clock,
                          st_flags := st_flags st AND NOT SF_NEED_RESET\<rparr>) s))"

definition stepper_get_position :: "stepper \<Rightarrow> u32" where
  "stepper_get_position st =
     (let position = st_position st;
          position = (if st_flags st AND SF_SINGLE_SCHED \<noteq> 0 then position - st_count st
                      else position - st_count st div 2)
      in if position AND 0x80000000 \<noteq> 0 then - position else position)"

definition command_stepper_get_position ::
  "u32 \<Rightarrow> ('a stepper_st_scheme) \<Rightarrow> (('a stepper_st_scheme), unit) res" where
  "command_stepper_get_position a0 s =
     bindR (stepper_oid_lookup a0 s) (\<lambda>oid s.
       Ret () (command_sendf ''stepper_position oid=%c pos=%i''
                 [AInt (ucast oid), AInt (stepper_get_position (steppers s oid) - POSITION_BIAS)] s))"

section \<open>Stopping\<close>

text \<open>The loop that frees the queued moves follows the links; \<open>None\<close> is a queue that never
  ends.\<close>

partial_function (option) free_moves ::
  "move_queue_head \<Rightarrow> ('a basecmd_scheme) \<Rightarrow> (move_queue_head \<times> ('a basecmd_scheme)) option" where
  "free_moves mh s =
     (if move_queue_empty mh then Some (mh, s)
      else (case move_queue_pop mh s of
              Ret p s' \<Rightarrow> free_moves (snd p) (move_free (fst p) s')
            | _ \<Rightarrow> None))"

definition stepper_stop :: "u8 \<Rightarrow> ('a stepper_st_scheme) \<Rightarrow> (('a stepper_st_scheme), unit) res" where
  "stepper_stop oid s =
     bindR (sched_del_timer (stepper_timer oid) s) (\<lambda>_ s.
     let s = set_waketime (stepper_timer oid) 0 s;
         s = upd_stepper oid (\<lambda>st. st\<lparr>st_next_step_time := 0\<rparr>) s;
         s = upd_stepper oid (\<lambda>st. st\<lparr>st_position := - stepper_get_position st\<rparr>) s;
         s = upd_stepper oid (\<lambda>st. st\<lparr>st_count := 0,
               st_flags := (st_flags st AND (SF_INVERT_STEP OR SF_SINGLE_SCHED OR SF_OPTIMIZED_PATH)) OR SF_NEED_RESET\<rparr>) s;
         st = steppers s oid;
         s = gpio_out_write (st_dir_pin st) False s;
         s = (if st_flags st AND SF_SINGLE_SCHED = 0
                 \<or> (HAVE_AVR_OPTIMIZATION s \<and> st_flags st AND SF_OPTIMIZED_PATH \<noteq> 0)
              then gpio_out_write (st_step_pin st) (st_flags st AND SF_INVERT_STEP \<noteq> 0) s else s)
     in case free_moves (st_mq st) s of
          None \<Rightarrow> Fault
        | Some (mq, s) \<Rightarrow> Ret () (upd_stepper oid (\<lambda>st. st\<lparr>st_mq := mq\<rparr>) s))"

text \<open>\<^verbatim>\<open>stepper_shutdown\<close> over the steppers \<^verbatim>\<open>foreach_oid\<close> visits.\<close>

fun stop_all :: "u8 list \<Rightarrow> ('a stepper_st_scheme) \<Rightarrow> (('a stepper_st_scheme), unit) res" where
  "stop_all [] s = Ret () s"
| "stop_all (oid # rest) s =
     bindR (stepper_stop oid (upd_stepper oid (\<lambda>st. st\<lparr>st_mq := move_queue_clear (st_mq st)\<rparr>) s))
       (\<lambda>_ s. stop_all rest s)"

definition stepper_shutdown :: "('a stepper_st_scheme) \<Rightarrow> (('a stepper_st_scheme), unit) res" where
  "stepper_shutdown s = stop_all (foreach_oid Config_stepper s) s"

section \<open>State updates\<close>

lemma upd_stepper_simps [simp]:
  "steppers (upd_stepper oid f s) = (steppers s)(oid := f (steppers s oid))"
  "timers (upd_stepper oid f s) = timers s" "nodes (upd_stepper oid f s) = nodes s"
  "clk_src (upd_stepper oid f s) = clk_src s" "clk_pos (upd_stepper oid f s) = clk_pos s"
  "clock_freq (upd_stepper oid f s) = clock_freq s"
  "pin_out (upd_stepper oid f s) = pin_out s" "move_free_list (upd_stepper oid f s) = move_free_list s"
  "HAVE_EDGE_OPTIMIZATION (upd_stepper oid f s) = HAVE_EDGE_OPTIMIZATION s"
  "HAVE_AVR_OPTIMIZATION (upd_stepper oid f s) = HAVE_AVR_OPTIMIZATION s"
  by (simp_all add: upd_stepper_def)

lemma steppers_frame [simp]:
  "steppers (set_waketime t w s) = steppers s" "steppers (set_next t n s) = steppers s"
  "steppers (set_func t fn s) = steppers s" "steppers (gpio_out_toggle_noirq p s) = steppers s"
  "steppers (gpio_out_write p v s) = steppers s" "steppers (move_free m s) = steppers s"
  "steppers (set_node_data m d s) = steppers s" "steppers (set_node_next m k s) = steppers s"
  "steppers (command_sendf fmt args s) = steppers s"
  "HAVE_EDGE_OPTIMIZATION (set_waketime t w s) = HAVE_EDGE_OPTIMIZATION s"
  "HAVE_EDGE_OPTIMIZATION (gpio_out_toggle_noirq p s) = HAVE_EDGE_OPTIMIZATION s"
  "HAVE_EDGE_OPTIMIZATION (move_free m s) = HAVE_EDGE_OPTIMIZATION s"
  "HAVE_AVR_OPTIMIZATION (set_waketime t w s) = HAVE_AVR_OPTIMIZATION s"
  "HAVE_AVR_OPTIMIZATION (gpio_out_toggle_noirq p s) = HAVE_AVR_OPTIMIZATION s"
  "HAVE_AVR_OPTIMIZATION (move_free m s) = HAVE_AVR_OPTIMIZATION s"
  by (simp_all add: set_waketime_def set_next_def set_func_def gpio_out_toggle_noirq_def
      gpio_out_write_def move_free_def set_node_data_def set_node_next_def command_sendf_def Let_def)

lemma stepper_pins_frame [simp]:
  "pin_out (set_waketime t w s) = pin_out s" "pin_out (move_free m s) = pin_out s"
  "pin_out (gpio_out_toggle_noirq p s) = (pin_out s)(p := \<not> pin_out s p)"
  "pin_out (gpio_out_write p v s) = (pin_out s)(p := v)"
  "timers (gpio_out_toggle_noirq p s) = timers s" "timers (gpio_out_write p v s) = timers s"
  "timers (move_free m s) = timers s" "nodes (set_waketime t w s) = nodes s"
  "nodes (gpio_out_toggle_noirq p s) = nodes s" "nodes (gpio_out_write p v s) = nodes s"
  "move_free_list (set_waketime t w s) = move_free_list s"
  "move_free_list (gpio_out_toggle_noirq p s) = move_free_list s"
  "move_free_list (gpio_out_write p v s) = move_free_list s"
  by (simp_all add: set_waketime_def gpio_out_toggle_noirq_def gpio_out_write_def move_free_def
      set_node_next_def)

section \<open>Position\<close>

text \<open>The signed position with the steps not yet taken subtracted: positive while the motor
  moves up, negative while it moves down; its magnitude is the position plus the bias.\<close>

definition cur_pos :: "stepper \<Rightarrow> u32" where
  "cur_pos st = st_position st - (if st_flags st AND SF_SINGLE_SCHED \<noteq> 0 then st_count st else st_count st div 2)"

definition reported :: "stepper \<Rightarrow> u32" where
  "reported st = stepper_get_position st - POSITION_BIAS"

definition moving_up :: "stepper \<Rightarrow> bool" where
  "moving_up st \<longleftrightarrow> cur_pos st AND 0x80000000 = 0"

text \<open>The position stays away from the ends of the range the bias leaves.\<close>

definition pos_in_range :: "stepper \<Rightarrow> bool" where
  "pos_in_range st \<longleftrightarrow> 2 \<le> uint (stepper_get_position st) \<and> uint (stepper_get_position st) < 2 ^ 31 - 1"

lemma top_bit_clear: "(x :: u32) AND 0x80000000 = 0 \<longleftrightarrow> uint x < 2 ^ 31"
proof -
  have "x AND 0x80000000 = 0 \<longleftrightarrow> \<not> bit x 31"
    using and_exp_eq_0_iff_not_bit [of x 31] by simp
  also have "\<not> bit x 31 \<longleftrightarrow> 0 \<le> sint x"
    using bit_last_iff [of x] by (simp add: not_less)
  also have "\<dots> \<longleftrightarrow> uint x < 2 ^ 31" using sint_neg_iff_uint [of x] by linarith
  finally show ?thesis .
qed

lemma get_position_cur:
  "stepper_get_position st = (if moving_up st then cur_pos st else - cur_pos st)"
  by (simp add: stepper_get_position_def cur_pos_def moving_up_def Let_def)

lemma uint_minus_u32: "(x :: u32) \<noteq> 0 \<Longrightarrow> uint (- x) = 2 ^ 32 - uint x"
  using uint_diff_u32 [of 0 x] by (simp add: uint_0_iff)

lemma cur_pos_step:
  assumes "cur_pos st' = cur_pos st + 1" and "pos_in_range st"
  shows "reported st' = (if moving_up st then reported st + 1 else reported st - 1)"
    and "moving_up st' \<longleftrightarrow> moving_up st"
proof -
  let ?c = "cur_pos st"
  have r: "2 \<le> uint (if moving_up st then ?c else - ?c)" "uint (if moving_up st then ?c else - ?c) < 2 ^ 31 - 1"
    using assms(2) by (auto simp: pos_in_range_def get_position_cur)
  have same: "moving_up st' \<longleftrightarrow> moving_up st"
  proof (cases "moving_up st")
    case True
    then have "uint (?c + 1) = uint ?c + 1" using r by (simp add: uint_plus_u32)
    with True r show ?thesis by (simp add: moving_up_def top_bit_clear assms(1))
  next
    case False
    then have ge: "2 ^ 31 \<le> uint ?c" by (simp add: moving_up_def top_bit_clear)
    then have "?c \<noteq> 0" by auto
    then have "uint (- ?c) = 2 ^ 32 - uint ?c" by (rule uint_minus_u32)
    then have "uint ?c \<le> 2 ^ 32 - 2" using r False by simp
    then have "uint (?c + 1) = uint ?c + 1" by (simp add: uint_plus_u32)
    with False ge show ?thesis by (simp add: moving_up_def top_bit_clear assms(1))
  qed
  then show "moving_up st' \<longleftrightarrow> moving_up st" .
  with assms(1) show "reported st' = (if moving_up st then reported st + 1 else reported st - 1)"
    by (simp add: reported_def get_position_cur)
qed

lemma turn_keeps_position:
  assumes "cur_pos st' = - cur_pos st" and "1 \<le> uint (stepper_get_position st)"
    and "uint (stepper_get_position st) < 2 ^ 31"
  shows "reported st' = reported st" and "moving_up st' \<longleftrightarrow> \<not> moving_up st"
proof -
  let ?c = "cur_pos st"
  have r: "1 \<le> uint (if moving_up st then ?c else - ?c)" "uint (if moving_up st then ?c else - ?c) < 2 ^ 31"
    using assms(2,3) by (auto simp: get_position_cur)
  have ne: "?c \<noteq> 0" using r by (auto split: if_splits)
  then have m: "uint (- ?c) = 2 ^ 32 - uint ?c" by (rule uint_minus_u32)
  show turn: "moving_up st' \<longleftrightarrow> \<not> moving_up st"
    using r m by (auto simp: moving_up_def top_bit_clear assms(1) split: if_splits)
  then show "reported st' = reported st"
    using assms(1) by (auto simp: reported_def get_position_cur)
qed

text \<open>A step and a turn: what an event with its load does to the position.\<close>

lemma step_turn:
  assumes "cur_pos st' = (if flip then - (cur_pos st + k) else cur_pos st + k)" and "k = 0 \<or> k = 1"
    and "pos_in_range st"
  shows "reported st' = reported st + (if moving_up st then k else - k)"
    and "moving_up st' \<longleftrightarrow> moving_up st \<noteq> flip"
proof -
  define st1 where "st1 = st\<lparr>st_position := st_position st + k\<rparr>"
  have c1: "cur_pos st1 = cur_pos st + k" by (simp add: st1_def cur_pos_def)
  have r1: "reported st1 = reported st + (if moving_up st then k else - k)" "moving_up st1 \<longleftrightarrow> moving_up st"
  proof -
    have "k = 1 \<Longrightarrow> reported st1 = (if moving_up st then reported st + 1 else reported st - 1)
        \<and> (moving_up st1 \<longleftrightarrow> moving_up st)"
      using cur_pos_step [of st1 st] c1 assms(3) by simp
    moreover have "k = 0 \<Longrightarrow> reported st1 = reported st \<and> (moving_up st1 \<longleftrightarrow> moving_up st)"
      by (simp add: st1_def)
    ultimately show "reported st1 = reported st + (if moving_up st then k else - k)"
      "moving_up st1 \<longleftrightarrow> moving_up st" using assms(2) by auto
  qed
  have "stepper_get_position st1 = stepper_get_position st + (if moving_up st then k else - k)"
    using r1(1) by (simp add: reported_def)
  then have "1 \<le> uint (stepper_get_position st1) \<and> uint (stepper_get_position st1) < 2 ^ 31"
    using assms(2,3) uint_plus_u32 [of "stepper_get_position st" 1] uint_diff_u32 [of "stepper_get_position st" 1]
    by (auto simp: pos_in_range_def)
  then have tk: "cur_pos st' = - cur_pos st1 \<Longrightarrow> reported st' = reported st1 \<and> (moving_up st' \<longleftrightarrow> \<not> moving_up st1)"
    using turn_keeps_position [of st' st1] by blast
  have "\<not> flip \<Longrightarrow> reported st' = reported st1 \<and> (moving_up st' \<longleftrightarrow> moving_up st1)"
    using assms(1) c1 by (simp add: reported_def get_position_cur moving_up_def)
  with tk c1 assms(1) r1 show "reported st' = reported st + (if moving_up st then k else - k)"
    and "moving_up st' \<longleftrightarrow> moving_up st \<noteq> flip" by (cases flip; simp)+
qed

section \<open>What loading a move does\<close>

definition single :: "stepper \<Rightarrow> bool" where
  "single st \<longleftrightarrow> st_flags st AND SF_SINGLE_SCHED \<noteq> 0"

definition optimized :: "stepper \<Rightarrow> bool" where
  "optimized st \<longleftrightarrow> st_flags st AND SF_OPTIMIZED_PATH \<noteq> 0"

lemma busy_wait_frame:
  "busy_wait t s = Ret () s' \<Longrightarrow> steppers s' = steppers s \<and> pin_out s' = pin_out s \<and> timers s' = timers s
     \<and> nodes s' = nodes s \<and> move_free_list s' = move_free_list s"
  by (auto simp: busy_wait_def split: option.splits)

lemma load_full_ret:
  assumes "load_full oid m s = Ret b s'"
  shows "steppers s' = (steppers s)(oid := (steppers s oid)
      \<lparr>st_next_step_time := st_next_step_time (steppers s oid) + sm_interval m,
       st_count := if single (steppers s oid) then ucast (sm_count m) else ucast (sm_count m) * 2\<rparr>)"
    and "b \<longleftrightarrow> sm_flags m AND MF_DIR \<noteq> 0 \<and> st_count (steppers s oid) = 0"
    and "pin_out s' = (if st_count (steppers s oid) \<noteq> 0 \<and> sm_flags m AND MF_DIR \<noteq> 0
           then (pin_out s)(st_dir_pin (steppers s oid) := \<not> pin_out s (st_dir_pin (steppers s oid)))
           else pin_out s)"
    and "nodes s' = nodes s" and "move_free_list s' = move_free_list s"
  using assms
  by (auto simp: load_full_def Let_def single_def bindR_Ret_iff timer_read_time_def
      dest!: busy_wait_frame split: if_splits)

lemma ucast_half: "(ucast (c :: u16) * 2 :: u32) div 2 = ucast c"
proof -
  have c: "unat c < 2 ^ 16" using unat_lt_pow [of c] by simp
  have "unat (ucast c :: u32) = unat c" by (rule unat_ucast_up) simp
  moreover have "unat (ucast c * 2 :: u32) = unat c * 2"
    using c calculation unat_mult_small_u32 [of "ucast c" 2] by simp
  ultimately have "unat ((ucast c * 2 :: u32) div 2) = unat (ucast c :: u32)" by (simp add: unat_div)
  then show ?thesis by (rule unsigned_word_eqI)
qed

definition opt_single :: "stepper \<Rightarrow> bool" where
  "opt_single st \<longleftrightarrow> (optimized st \<longrightarrow> single st)"

lemma have_add_flags:
  "(f OR SF_HAVE_ADD) AND SF_SINGLE_SCHED = f AND SF_SINGLE_SCHED"
  "(f AND NOT SF_HAVE_ADD) AND SF_SINGLE_SCHED = f AND SF_SINGLE_SCHED"
  "(f OR SF_HAVE_ADD) AND SF_OPTIMIZED_PATH = f AND SF_OPTIMIZED_PATH"
  "(f AND NOT SF_HAVE_ADD) AND SF_OPTIMIZED_PATH = f AND SF_OPTIMIZED_PATH"
  by (rule or_and_disjoint and_not_and_disjoint, simp add: sf_consts)+

lemma load_timing_ret:
  assumes "load_timing oid m s = Ret b s'" and "opt_single (steppers s oid)"
  shows "cur_pos (steppers s' oid) = st_position (steppers s oid) - ucast (sm_count m)"
    and "st_dir_pin (steppers s' oid) = st_dir_pin (steppers s oid)"
    and "single (steppers s' oid) = single (steppers s oid)"
    and "optimized (steppers s' oid) = optimized (steppers s oid)"
    and "(if b then (pin_out s')(st_dir_pin (steppers s oid) := \<not> pin_out s' (st_dir_pin (steppers s oid))) else pin_out s')
      = (if sm_flags m AND MF_DIR \<noteq> 0
         then (pin_out s)(st_dir_pin (steppers s oid) := \<not> pin_out s (st_dir_pin (steppers s oid))) else pin_out s)"
proof -
  consider (opt) "optimized (steppers s oid)" "HAVE_EDGE_OPTIMIZATION s \<or> HAVE_AVR_OPTIMIZATION s"
    | (full) "load_timing oid m s = load_full oid m s"
    by (cases "optimized (steppers s oid) \<and> (HAVE_EDGE_OPTIMIZATION s \<or> HAVE_AVR_OPTIMIZATION s)")
      (auto simp: load_timing_def optimized_def Let_def)
  then have "cur_pos (steppers s' oid) = st_position (steppers s oid) - ucast (sm_count m)
    \<and> st_dir_pin (steppers s' oid) = st_dir_pin (steppers s oid)
    \<and> single (steppers s' oid) = single (steppers s oid)
    \<and> optimized (steppers s' oid) = optimized (steppers s oid)
    \<and> (if b then (pin_out s')(st_dir_pin (steppers s oid) := \<not> pin_out s' (st_dir_pin (steppers s oid))) else pin_out s')
      = (if sm_flags m AND MF_DIR \<noteq> 0
         then (pin_out s)(st_dir_pin (steppers s oid) := \<not> pin_out s (st_dir_pin (steppers s oid))) else pin_out s)"
  proof cases
    case opt
    then have sg: "st_flags (steppers s oid) AND SF_SINGLE_SCHED \<noteq> 0"
      "st_flags (steppers s oid) AND SF_OPTIMIZED_PATH \<noteq> 0"
      using assms(2) by (auto simp: opt_single_def optimized_def single_def)
    with opt assms(1) show ?thesis
      by (auto simp: load_timing_def Let_def cur_pos_def single_def optimized_def have_add_flags
          split: if_splits)
  next
    case full
    with assms(1) have "load_full oid m s = Ret b s'" by simp
    note ret = load_full_ret [OF this]
    show ?thesis
      unfolding ret(1) ret(2) ret(3)
      by (auto simp: cur_pos_def single_def optimized_def ucast_half)
  qed
  then show "cur_pos (steppers s' oid) = st_position (steppers s oid) - ucast (sm_count m)"
    and "st_dir_pin (steppers s' oid) = st_dir_pin (steppers s oid)"
    and "single (steppers s' oid) = single (steppers s oid)"
    and "optimized (steppers s' oid) = optimized (steppers s oid)"
    and "(if b then (pin_out s')(st_dir_pin (steppers s oid) := \<not> pin_out s' (st_dir_pin (steppers s oid))) else pin_out s')
      = (if sm_flags m AND MF_DIR \<noteq> 0
         then (pin_out s)(st_dir_pin (steppers s oid) := \<not> pin_out s (st_dir_pin (steppers s oid))) else pin_out s)"
    by blast+
qed

text \<open>The position after the load is the end of the finished move, negated when the direction
  changes, and the direction pin changes with it.\<close>

lemma load_next_pos:
  assumes "stepper_load_next oid s = Ret r s'" and "opt_single (steppers s oid)"
  obtains flip where
    "cur_pos (steppers s' oid) = (if flip then - st_position (steppers s oid) else st_position (steppers s oid))"
    and "pin_out s' = (if flip then (pin_out s)(st_dir_pin (steppers s oid) := \<not> pin_out s (st_dir_pin (steppers s oid)))
                       else pin_out s)"
    and "st_dir_pin (steppers s' oid) = st_dir_pin (steppers s oid)"
    and "single (steppers s' oid) \<longleftrightarrow> single (steppers s oid)"
    and "optimized (steppers s' oid) \<longleftrightarrow> optimized (steppers s oid)"
proof -
  let ?st = "steppers s oid"
  show ?thesis
  proof (cases "move_queue_empty (st_mq ?st)")
    case True
    then show ?thesis
      using assms(1)
      by (intro that [of False]) (auto simp: stepper_load_next_def cur_pos_def single_def optimized_def)
  next
    case False
    then obtain mn where mn: "mq_first (st_mq ?st) = Some mn" by (auto simp: move_queue_empty_def)
    with assms(1) False obtain m where m: "mn_data (nodes s mn) = M_stepper m"
      by (cases "mn_data (nodes s mn)") (auto simp: stepper_load_next_def move_queue_pop_def Let_def)
    let ?flip = "sm_flags m AND MF_DIR \<noteq> 0"
    define s2 where "s2 = upd_stepper oid (\<lambda>st. st\<lparr>
        st_position := (if ?flip then - st_position st else st_position st) + ucast (sm_count m),
        st_add := sm_add m, st_interval := sm_interval m + scast (sm_add m)\<rparr>)
      (move_free mn (upd_stepper oid (\<lambda>st. st\<lparr>st_mq := (st_mq ?st)\<lparr>mq_first := mn_next (nodes s mn)\<rparr>\<rparr>) s))"
    have s2: "st_position (steppers s2 oid) = (if ?flip then - st_position ?st else st_position ?st) + ucast (sm_count m)"
      "st_dir_pin (steppers s2 oid) = st_dir_pin ?st" "st_flags (steppers s2 oid) = st_flags ?st"
      "pin_out s2 = pin_out s"
      by (simp_all add: s2_def)
    have "stepper_load_next oid s = bindR (load_timing oid m s2) (\<lambda>set_dir s. Ret SF_RESCHEDULE
        (if set_dir then gpio_out_toggle_noirq (st_dir_pin ?st) s else s))"
      using False mn m by (simp add: stepper_load_next_def move_queue_pop_def Let_def s2_def)
    with assms(1) obtain b s3 where lt: "load_timing oid m s2 = Ret b s3"
      and s': "s' = (if b then gpio_out_toggle_noirq (st_dir_pin ?st) s3 else s3)"
      by (auto simp: bindR_Ret_iff)
    have "opt_single (steppers s2 oid)"
      using assms(2) s2(3) by (simp add: opt_single_def optimized_def single_def)
    note ret = load_timing_ret [OF lt this]
    have "steppers s' = steppers s3" using s' by simp
    moreover have "pin_out s' = (if b then (pin_out s3)(st_dir_pin ?st := \<not> pin_out s3 (st_dir_pin ?st)) else pin_out s3)"
      using s' by simp
    then have "pin_out s' = (if ?flip then (pin_out s)(st_dir_pin ?st := \<not> pin_out s (st_dir_pin ?st)) else pin_out s)"
      using ret(5) by (simp only: s2(2,4))
    ultimately show ?thesis
      using ret(1-4) s2(1-3) by (intro that [of ?flip]) (simp_all add: single_def optimized_def)
  qed
qed

section \<open>What a step event does\<close>

text \<open>Without \<open>SF_SINGLE_SCHED\<close> every second event is the end of a pulse.\<close>

definition step_edge :: "stepper \<Rightarrow> bool" where
  "step_edge st \<longleftrightarrow> single st \<or> even (unat (st_count st))"

lemma unat_minus_1: "(c :: 'a::len word) \<noteq> 0 \<Longrightarrow> unat (c - 1) = unat c - 1"
  by (rule unat_minus_one)

lemma and_1_odd: "(c :: u32) AND 1 \<noteq> 0 \<longleftrightarrow> odd (unat c)"
proof -
  have "c AND 1 = of_bool (odd c)" by (simp add: and_one_eq mod2_eq_if)
  moreover have "odd c \<longleftrightarrow> odd (unat c)" by transfer (simp add: even_nat_iff)
  ultimately show ?thesis by simp
qed

lemma half_minus_1:
  assumes "(c :: u32) \<noteq> 0"
  shows "(c - 1) div 2 = (if even (unat c) then c div 2 - 1 else c div 2)"
proof (cases "even (unat c)")
  case True
  then obtain n where n: "unat c = 2 * n" by (rule evenE)
  with assms have "0 < n" by (metis mult_0_right neq0_conv unat_eq_zero)
  have "unat (c div 2) = n" using n by (simp add: unat_div)
  then have "c div 2 \<noteq> 0" using \<open>0 < n\<close> by (metis less_irrefl unat_0)
  then have "unat (c div 2 - 1) = n - 1" using \<open>unat (c div 2) = n\<close> by (simp add: unat_minus_1)
  moreover have "unat ((c - 1) div 2) = n - 1" using n assms by (simp add: unat_div unat_minus_1)
  ultimately have "unat ((c - 1) div 2) = unat (c div 2 - 1)" by simp
  then have "(c - 1) div 2 = c div 2 - 1" by (rule unsigned_word_eqI)
  with True show ?thesis by simp
next
  case False
  then obtain n where n: "unat c = 2 * n + 1" by (rule oddE)
  then have "unat ((c - 1) div 2) = unat (c div 2)" using assms by (simp add: unat_div unat_minus_1)
  then have "(c - 1) div 2 = c div 2" by (rule unsigned_word_eqI)
  with False show ?thesis by simp
qed

lemma event_full_pos:
  assumes "stepper_event_full oid s = Ret r s'" and "opt_single (steppers s oid)"
    and "st_count (steppers s oid) \<noteq> 0"
    and "st_step_pin (steppers s oid) \<noteq> st_dir_pin (steppers s oid)"
  obtains flip where
    "cur_pos (steppers s' oid) = (if flip then - (cur_pos (steppers s oid) + (if step_edge (steppers s oid) then 1 else 0))
       else cur_pos (steppers s oid) + (if step_edge (steppers s oid) then 1 else 0))"
    and "pin_out s' (st_dir_pin (steppers s oid)) = (pin_out s (st_dir_pin (steppers s oid)) \<noteq> flip)"
    and "pin_out s' (st_step_pin (steppers s oid)) = (\<not> pin_out s (st_step_pin (steppers s oid)))"
    and "st_dir_pin (steppers s' oid) = st_dir_pin (steppers s oid)"
proof -
  let ?st = "steppers s oid"
  let ?k = "(if step_edge ?st then 1 else 0) :: u32"
  let ?count = "st_count ?st - 1"
  have cnt: "unat ?count = unat (st_count ?st) - 1" using assms(3) by (rule unat_minus_1)
  have stay: "cur_pos st' = cur_pos ?st + ?k"
    if "st_position st' = st_position ?st" "st_count st' = ?count" "st_flags st' = st_flags ?st" for st'
  proof (cases "single ?st")
    case True
    with that show ?thesis by (simp add: cur_pos_def step_edge_def single_def)
  next
    case False
    have "cur_pos st' = st_position ?st - ?count div 2"
      using False that unfolding cur_pos_def single_def by simp
    also have "\<dots> = st_position ?st - st_count ?st div 2 + ?k"
      unfolding half_minus_1 [OF assms(3)] step_edge_def using False by simp
    also have "\<dots> = cur_pos ?st + ?k" using False unfolding cur_pos_def single_def by simp
    finally show ?thesis .
  qed
  show ?thesis
  proof (cases "?count = 0")
    case True
    then have one: "st_count ?st = 1" by simp
    define t where "t = clk_src s (clk_pos s) + st_step_pulse_ticks ?st"
    define s1 where "s1 = set_waketime (stepper_timer oid) t (snd (timer_read_time (gpio_out_toggle_noirq (st_step_pin ?st) s)))"
    have s1: "steppers s1 = steppers s" "pin_out s1 = (pin_out s)(st_step_pin ?st := \<not> pin_out s (st_step_pin ?st))"
      by (simp_all add: s1_def timer_read_time_def)
    have "stepper_event_full oid s = stepper_load_next oid s1"
      using True by (simp add: stepper_event_full_def Let_def timer_read_time_def s1_def t_def
          gpio_out_toggle_noirq_def)
    then have "stepper_load_next oid s1 = Ret r s'" using assms(1) by simp
    then obtain flip where f:
      "cur_pos (steppers s' oid) = (if flip then - st_position (steppers s1 oid) else st_position (steppers s1 oid))"
      "pin_out s' = (if flip then (pin_out s1)(st_dir_pin (steppers s1 oid) := \<not> pin_out s1 (st_dir_pin (steppers s1 oid)))
                       else pin_out s1)"
      "st_dir_pin (steppers s' oid) = st_dir_pin (steppers s1 oid)"
      using load_next_pos [of oid s1 r s'] assms(2) s1(1) by auto
    have "cur_pos ?st + ?k = st_position ?st"
      using one by (auto simp: cur_pos_def step_edge_def single_def)
    then show ?thesis using f s1 assms(4) by (intro that [of flip]) auto
  next
    case False
    have pins: "pin_out s' = (pin_out s)(st_step_pin ?st := \<not> pin_out s (st_step_pin ?st))"
      and st': "st_position (steppers s' oid) = st_position ?st" "st_count (steppers s' oid) = ?count"
      "st_flags (steppers s' oid) = st_flags ?st" "st_dir_pin (steppers s' oid) = st_dir_pin ?st"
      using assms(1) False
      by (auto simp: stepper_event_full_def Let_def timer_read_time_def gpio_out_toggle_noirq_def split: if_splits)
    then show ?thesis using stay [OF st'(1-3)] assms(4) by (intro that [of False]) auto
  qed
qed

lemma event_edge_pos:
  assumes "stepper_event_edge oid s = Ret r s'" and "single (steppers s oid)"
    and "st_count (steppers s oid) \<noteq> 0"
  obtains flip where
    "cur_pos (steppers s' oid) = (if flip then - (cur_pos (steppers s oid) + 1) else cur_pos (steppers s oid) + 1)"
proof -
  let ?st = "steppers s oid"
  show ?thesis
  proof (cases "st_count ?st - 1 = 0")
    case True
    define s1 where "s1 = gpio_out_toggle_noirq (st_step_pin ?st) s"
    have s1: "steppers s1 = steppers s" by (simp add: s1_def)
    have "stepper_load_next oid s1 = Ret r s'"
      using assms(1) True by (simp add: stepper_event_edge_def Let_def s1_def)
    then obtain flip where
      "cur_pos (steppers s' oid) = (if flip then - st_position (steppers s1 oid) else st_position (steppers s1 oid))"
      using load_next_pos [of oid s1 r s'] assms(2) s1 by (auto simp: opt_single_def)
    moreover have "cur_pos ?st + 1 = st_position ?st"
      using True assms(2) by (simp add: cur_pos_def single_def)
    ultimately show ?thesis using s1 by (intro that [of flip]) auto
  next
    case False
    then have "st_position (steppers s' oid) = st_position ?st" "st_count (steppers s' oid) = st_count ?st - 1"
      "st_flags (steppers s' oid) = st_flags ?st"
      using assms(1) by (auto simp: stepper_event_edge_def Let_def)
    then have "cur_pos (steppers s' oid) = cur_pos ?st + 1"
      using assms(2) by (simp add: cur_pos_def single_def)
    then show ?thesis by (intro that [of False]) simp
  qed
qed

lemma low16:
  assumes "unat (c :: u32) < 2 ^ 16" and "c \<noteq> 0"
  shows "(ucast c :: u16) - 1 = ucast (c - 1)" and "(c AND 0xffff0000) OR ucast (ucast (c - 1) :: u16) = c - 1"
    and "(ucast (c - 1) :: u16) = 0 \<longleftrightarrow> c - 1 = 0"
proof -
  have uc: "unat (ucast c :: u16) = unat c"
    using assms(1) by (simp add: unsigned_ucast_eq take_bit_nat_eq_self)
  have c1: "unat (c - 1) = unat c - 1" using assms(2) by (rule unat_minus_1)
  have "(ucast c :: u16) \<noteq> 0" using uc assms(2) by (metis unat_0 unat_eq_zero)
  then have "unat ((ucast c :: u16) - 1) = unat c - 1" using uc by (simp add: unat_minus_1)
  moreover have u1: "unat (ucast (c - 1) :: u16) = unat c - 1"
    using assms(1) c1 by (simp add: unsigned_ucast_eq take_bit_nat_eq_self)
  ultimately have "unat ((ucast c :: u16) - 1) = unat (ucast (c - 1) :: u16)" by simp
  then show "(ucast c :: u16) - 1 = ucast (c - 1)" by (rule unsigned_word_eqI)
  show "(ucast (c - 1) :: u16) = 0 \<longleftrightarrow> c - 1 = 0"
    using u1 c1 unat_eq_zero [of "c - 1"] unat_eq_zero [of "ucast (c - 1) :: u16"] by simp
  have "c AND 0xffff0000 = 0"
  proof -
    have "c < 2 ^ 16" using assms(1) by (simp add: word_less_nat_alt)
    then have "c AND mask 16 = c" by (rule less_mask_eq)
    then have "c AND 0xffff0000 = (c AND mask 16) AND 0xffff0000" by simp
    also have "\<dots> = 0" by (simp add: and.assoc mask_eq_exp_minus_1)
    finally show ?thesis .
  qed
  moreover have "unat (ucast (ucast (c - 1) :: u16) :: u32) = unat (c - 1)"
    using u1 c1 unat_ucast_up [of "ucast (c - 1) :: u16", where 'b = 32] by simp
  then have "(ucast (ucast (c - 1) :: u16) :: u32) = c - 1" by (rule unsigned_word_eqI)
  ultimately show "(c AND 0xffff0000) OR ucast (ucast (c - 1) :: u16) = c - 1" by simp
qed

lemma event_avr_pos:
  assumes "stepper_event_avr oid s = Ret r s'" and "single (steppers s oid)"
    and "st_count (steppers s oid) \<noteq> 0" and "unat (st_count (steppers s oid)) < 2 ^ 16"
  obtains flip where
    "cur_pos (steppers s' oid) = (if flip then - (cur_pos (steppers s oid) + 1) else cur_pos (steppers s oid) + 1)"
proof -
  let ?st = "steppers s oid"
  note lo = low16 [OF assms(4,3)]
  note iff0 = lo(3)
  show ?thesis
  proof (cases "st_count ?st - 1 = 0")
    case True
    define s1 where "s1 = gpio_out_toggle_noirq (st_step_pin ?st) s"
    have s1: "steppers s1 = steppers s" by (simp add: s1_def)
    obtain s2 where "stepper_load_next oid s1 = Ret r s2" "steppers s' = steppers s2"
      using assms(1) True lo iff0
      by (auto simp: stepper_event_avr_def Let_def s1_def bindR_Ret_iff)
    then obtain flip where
      "cur_pos (steppers s' oid) = (if flip then - st_position (steppers s1 oid) else st_position (steppers s1 oid))"
      using load_next_pos [of oid s1 r s2] assms(2) s1 by (auto simp: opt_single_def)
    moreover have "cur_pos ?st + 1 = st_position ?st"
      using True assms(2) by (simp add: cur_pos_def single_def)
    ultimately show ?thesis using s1 by (intro that [of flip]) auto
  next
    case False
    then have "st_position (steppers s' oid) = st_position ?st" "st_count (steppers s' oid) = st_count ?st - 1"
      "st_flags (steppers s' oid) = st_flags ?st"
      using assms(1) lo iff0 by (auto simp: stepper_event_avr_def Let_def split: if_splits)
    then have "cur_pos (steppers s' oid) = cur_pos ?st + 1"
      using assms(2) by (simp add: cur_pos_def single_def)
    then show ?thesis by (intro that [of False]) simp
  qed
qed

section \<open>Step times\<close>

fun run_events ::
  "(('a stepper_st_scheme) \<Rightarrow> (('a stepper_st_scheme), timer_res) res) \<Rightarrow> nat \<Rightarrow>
   ('a stepper_st_scheme) \<Rightarrow> (('a stepper_st_scheme), unit) res" where
  "run_events ev 0 s = Ret () s"
| "run_events ev (Suc n) s = bindR (run_events ev n s) (\<lambda>_ s. bindR (ev s) (\<lambda>_ s. Ret () s))"

text \<open>The ticks of the first \<open>n\<close> steps of a move.\<close>

definition move_ticks :: "u32 \<Rightarrow> u16 \<Rightarrow> nat \<Rightarrow> u32" where
  "move_ticks interval add n = (\<Sum>i<n. interval + of_nat i * scast add)"

lemma move_ticks_Suc [simp]: "move_ticks i a (Suc n) = move_ticks i a n + (i + of_nat n * scast a)"
  by (simp add: move_ticks_def)

lemma move_ticks_0 [simp]: "move_ticks i a 0 = 0"
  by (simp add: move_ticks_def)

lemma move_ticks_shift: "move_ticks i a (Suc n) = i + move_ticks (i + scast a) a n"
  by (induction n) (auto simp: algebra_simps)

lemma count_minus_ne_0: "Suc n < unat (c :: u32) \<Longrightarrow> c - of_nat n - 1 \<noteq> 0"
proof
  assume lt: "Suc n < unat c" and "c - of_nat n - 1 = 0"
  then have "c = of_nat (Suc n)" by (simp add: algebra_simps)
  moreover have "unat (of_nat (Suc n) :: u32) = Suc n"
    using lt unat_lt_pow [of c] by (intro unat_of_nat_small) simp
  ultimately show False using lt by simp
qed

lemma edge_step:
  assumes "st_count (steppers s oid) - 1 \<noteq> 0"
  shows "\<exists>s'. stepper_event_edge oid s = Ret SF_RESCHEDULE s'
     \<and> waketime s' (stepper_timer oid) = waketime s (stepper_timer oid) + st_interval (steppers s oid)
     \<and> steppers s' oid = (steppers s oid)\<lparr>st_count := st_count (steppers s oid) - 1,
         st_interval := st_interval (steppers s oid) + scast (st_add (steppers s oid))\<rparr>"
  using assms by (simp add: stepper_event_edge_def Let_def)

text \<open>When the fully scheduled function wakes up next: for the end of a pulse as soon as the pulse is long
  enough, for the next step at its time, or as soon as the pulse allows when that is later.\<close>

definition full_wake :: "bool \<Rightarrow> u32 \<Rightarrow> u32 \<Rightarrow> u32" where
  "full_wake pulse_end next_step_time min_next_time =
     (if pulse_end \<or> timer_is_before next_step_time min_next_time then min_next_time else next_step_time)"

lemma full_step:
  fixes s :: "'a stepper_st_scheme"
  assumes "st_count (steppers s oid) - 1 \<noteq> 0"
  defines "pulse_end \<equiv> (st_count (steppers s oid) - 1) AND 1 \<noteq> 0 \<and> \<not> single (steppers s oid)"
  shows "\<exists>s'. stepper_event_full oid s = Ret SF_RESCHEDULE s'
     \<and> waketime s' (stepper_timer oid) = full_wake pulse_end (st_next_step_time (steppers s' oid))
         (clk_src s (clk_pos s) + st_step_pulse_ticks (steppers s oid))
     \<and> clk_src s' = clk_src s \<and> clk_pos s' = Suc (clk_pos s)
     \<and> steppers s' oid = (if pulse_end then (steppers s oid)\<lparr>st_count := st_count (steppers s oid) - 1\<rparr>
         else (steppers s oid)\<lparr>st_count := st_count (steppers s oid) - 1,
           st_next_step_time := st_next_step_time (steppers s oid) + st_interval (steppers s oid),
           st_interval := st_interval (steppers s oid) + scast (st_add (steppers s oid))\<rparr>)"
  using assms
  by (auto simp: stepper_event_full_def Let_def timer_read_time_def gpio_out_toggle_noirq_def single_def full_wake_def
      set_waketime_def upd_stepper_def)

lemma run_edge:
  assumes "n < unat (st_count (steppers s oid))"
  shows "\<exists>s'. run_events (stepper_event_edge oid) n s = Ret () s'
     \<and> waketime s' (stepper_timer oid) = waketime s (stepper_timer oid)
         + move_ticks (st_interval (steppers s oid)) (st_add (steppers s oid)) n
     \<and> steppers s' oid = (steppers s oid)\<lparr>st_count := st_count (steppers s oid) - of_nat n,
         st_interval := st_interval (steppers s oid) + of_nat n * scast (st_add (steppers s oid))\<rparr>"
  using assms
proof (induction n)
  case (Suc n)
  then obtain s1 where s1: "run_events (stepper_event_edge oid) n s = Ret () s1"
    "waketime s1 (stepper_timer oid) = waketime s (stepper_timer oid)
         + move_ticks (st_interval (steppers s oid)) (st_add (steppers s oid)) n"
    "steppers s1 oid = (steppers s oid)\<lparr>st_count := st_count (steppers s oid) - of_nat n,
         st_interval := st_interval (steppers s oid) + of_nat n * scast (st_add (steppers s oid))\<rparr>"
    by auto
  have "st_count (steppers s oid) - of_nat n - 1 \<noteq> 0" using Suc.prems by (rule count_minus_ne_0)
  then have "st_count (steppers s1 oid) - 1 \<noteq> 0" using s1(3) by simp
  from edge_step [OF this] s1 show ?case by (auto simp: algebra_simps)
qed simp

text \<open>The fully scheduled function keeps the time of the next step apart from the time it is
  woken up, so a delayed event does not move the steps after it.\<close>

definition steps_of_events :: "stepper \<Rightarrow> nat \<Rightarrow> nat" where
  "steps_of_events st n = (if single st then n else n div 2)"

lemma run_full:
  assumes "n < unat (st_count (steppers s oid))"
    and "single (steppers s oid) \<or> even (unat (st_count (steppers s oid)))"
  shows "\<exists>s'. run_events (stepper_event_full oid) n s = Ret () s'
     \<and> st_next_step_time (steppers s' oid) = st_next_step_time (steppers s oid)
         + move_ticks (st_interval (steppers s oid)) (st_add (steppers s oid)) (steps_of_events (steppers s oid) n)
     \<and> st_interval (steppers s' oid) = st_interval (steppers s oid)
         + of_nat (steps_of_events (steppers s oid) n) * scast (st_add (steppers s oid))
     \<and> st_count (steppers s' oid) = st_count (steppers s oid) - of_nat n
     \<and> st_add (steppers s' oid) = st_add (steppers s oid) \<and> st_flags (steppers s' oid) = st_flags (steppers s oid)
     \<and> st_step_pulse_ticks (steppers s' oid) = st_step_pulse_ticks (steppers s oid)
     \<and> clk_src s' = clk_src s \<and> clk_pos s' = clk_pos s + n
     \<and> (\<forall>k. n = Suc k \<longrightarrow> waketime s' (stepper_timer oid) =
          full_wake (\<not> single (steppers s oid) \<and> odd n) (st_next_step_time (steppers s' oid))
            (clk_src s (clk_pos s + k) + st_step_pulse_ticks (steppers s oid)))"
  using assms
proof (induction n)
  case (Suc n)
  let ?st = "steppers s oid"
  obtain s1 where s1: "run_events (stepper_event_full oid) n s = Ret () s1"
    "st_next_step_time (steppers s1 oid) = st_next_step_time ?st
         + move_ticks (st_interval ?st) (st_add ?st) (steps_of_events ?st n)"
    "st_interval (steppers s1 oid) = st_interval ?st
         + of_nat (steps_of_events ?st n) * scast (st_add ?st)"
    "st_count (steppers s1 oid) = st_count ?st - of_nat n"
    "st_add (steppers s1 oid) = st_add ?st" "st_flags (steppers s1 oid) = st_flags ?st"
    "st_step_pulse_ticks (steppers s1 oid) = st_step_pulse_ticks ?st" "clk_src s1 = clk_src s" "clk_pos s1 = clk_pos s + n"
    using Suc by auto
  have ne: "st_count ?st - of_nat n - 1 \<noteq> 0" using Suc.prems(1) by (rule count_minus_ne_0)
  have nn: "unat (of_nat (Suc n) :: u32) = Suc n"
    using Suc.prems(1) unat_lt_pow [of "st_count ?st"] by (intro unat_of_nat_small) simp
  have "unat (st_count ?st - of_nat (Suc n)) = unat (st_count ?st) - Suc n"
    using Suc.prems(1) nn by (simp add: unat_sub word_le_nat_alt del: of_nat_Suc)
  then have odd: "(st_count ?st - of_nat n - 1) AND 1 \<noteq> 0 \<longleftrightarrow> odd (unat (st_count ?st) - Suc n)"
    by (simp add: and_1_odd algebra_simps)
  have steps: "steps_of_events ?st (Suc n) =
      (if (st_count ?st - of_nat n - 1) AND 1 \<noteq> 0 \<and> st_flags ?st AND SF_SINGLE_SCHED = 0
       then steps_of_events ?st n else Suc (steps_of_events ?st n))"
    unfolding odd using Suc.prems by (auto simp: steps_of_events_def single_def elim!: evenE oddE)
  have "st_count (steppers s1 oid) - 1 \<noteq> 0" using s1(4) ne by simp
  from full_step [OF this] obtain s2 where s2: "stepper_event_full oid s1 = Ret SF_RESCHEDULE s2"
    "waketime s2 (stepper_timer oid) = full_wake ((st_count ?st - of_nat n - 1) AND 1 \<noteq> 0 \<and> st_flags ?st AND SF_SINGLE_SCHED = 0)
       (st_next_step_time (steppers s2 oid)) (clk_src s (clk_pos s + n) + st_step_pulse_ticks ?st)"
    "clk_src s2 = clk_src s" "clk_pos s2 = clk_pos s + Suc n"
    "steppers s2 oid = (if (st_count ?st - of_nat n - 1) AND 1 \<noteq> 0 \<and> st_flags ?st AND SF_SINGLE_SCHED = 0
         then (steppers s1 oid)\<lparr>st_count := st_count (steppers s1 oid) - 1\<rparr>
         else (steppers s1 oid)\<lparr>st_count := st_count (steppers s1 oid) - 1,
           st_next_step_time := st_next_step_time (steppers s1 oid) + st_interval (steppers s1 oid),
           st_interval := st_interval (steppers s1 oid) + scast (st_add (steppers s1 oid))\<rparr>)"
    using s1(4,6-9) by (auto simp: single_def)
  have pe: "(st_count ?st - of_nat n - 1) AND 1 \<noteq> 0 \<and> st_flags ?st AND SF_SINGLE_SCHED = 0 \<longleftrightarrow> \<not> single ?st \<and> odd (Suc n)"
    unfolding odd using Suc.prems by (auto simp: single_def)
  have run: "run_events (stepper_event_full oid) (Suc n) s = Ret () s2"
    using s1(1) s2(1) by simp
  note wake = s2(2) [unfolded pe]
  show ?case
  proof (cases "(st_count ?st - of_nat n - 1) AND 1 \<noteq> 0 \<and> st_flags ?st AND SF_SINGLE_SCHED = 0")
    case True
    then have "steps_of_events ?st (Suc n) = steps_of_events ?st n" using steps by simp
    moreover have "steppers s2 oid = (steppers s1 oid)\<lparr>st_count := st_count (steppers s1 oid) - 1\<rparr>"
      unfolding s2(5) by (rule if_P [OF True])
    ultimately show ?thesis using run s1 s2(3,4) wake by (intro exI [of _ s2]) (simp add: algebra_simps)
  next
    case False
    then have "steps_of_events ?st (Suc n) = Suc (steps_of_events ?st n)" using steps by simp
    moreover have "steppers s2 oid = (steppers s1 oid)\<lparr>st_count := st_count (steppers s1 oid) - 1,
           st_next_step_time := st_next_step_time (steppers s1 oid) + st_interval (steppers s1 oid),
           st_interval := st_interval (steppers s1 oid) + scast (st_add (steppers s1 oid))\<rparr>"
      unfolding s2(5) by (rule if_not_P [OF False])
    ultimately show ?thesis using run s1 s2(3,4) wake by (intro exI [of _ s2]) (simp add: algebra_simps)
  qed
qed (simp add: steps_of_events_def)

section \<open>Stopping\<close>

lemma free_moves_list:
  assumes "mq_list s mh xs" and "free_list s fl" and "set xs \<inter> set fl = {}"
  shows "\<exists>mh' s'. free_moves mh s = Some (mh', s') \<and> move_queue_empty mh' \<and> free_list s' (rev xs @ fl)
     \<and> s' = s\<lparr>nodes := nodes s', move_free_list := move_free_list s'\<rparr>
     \<and> (\<forall>x. x \<notin> set xs \<longrightarrow> nodes s' x = nodes s x)"
  using assms
proof (induction xs arbitrary: mh s fl)
  case Nil
  then show ?case using empty_list [of s mh "[]"] by (subst free_moves.simps) auto
next
  case (Cons x xs)
  obtain mh1 where p: "move_queue_pop mh s = Ret (x, mh1) s" "mq_list s mh1 xs"
    using pop_list [OF Cons.prems(1)] by metis
  have nin: "x \<notin> set xs" "x \<notin> set fl" using Cons.prems by (auto simp: mq_list_def)
  let ?s1 = "move_free x s"
  have "mq_list ?s1 mh1 xs" using p(2) by (rule mq_list_frame) (use nin in \<open>auto simp: move_free_def\<close>)
  moreover have "free_list ?s1 (x # fl)" using Cons.prems(2) nin(2) by (rule free_free)
  moreover have "set xs \<inter> set (x # fl) = {}" using Cons.prems(3) nin by auto
  ultimately obtain mh' s' where ih: "free_moves mh1 ?s1 = Some (mh', s')" "move_queue_empty mh'"
    "free_list s' (rev xs @ x # fl)" "s' = ?s1\<lparr>nodes := nodes s', move_free_list := move_free_list s'\<rparr>"
    "\<forall>y. y \<notin> set xs \<longrightarrow> nodes s' y = nodes ?s1 y"
    using Cons.IH [of ?s1 mh1 "x # fl"] by blast
  have "free_moves mh s = Some (mh', s')"
    using ih(1) p(1) empty_list [OF Cons.prems(1)] by (subst free_moves.simps) simp
  moreover have "s' = s\<lparr>nodes := nodes s', move_free_list := move_free_list s'\<rparr>"
    by (subst ih(4)) (simp add: move_free_def set_node_next_def)
  moreover have "\<forall>y. y \<notin> set (x # xs) \<longrightarrow> nodes s' y = nodes s y"
    using ih(5) by (simp add: move_free_def)
  ultimately show ?case using ih(2,3) by (intro exI [of _ mh'] exI [of _ s']) simp
qed

lemma del_timer_frame:
  assumes "sched_del_timer d s = Ret () s1"
  shows "steppers s1 = steppers s" and "nodes s1 = nodes s" and "move_free_list s1 = move_free_list s"
    and "HAVE_AVR_OPTIMIZATION s1 = HAVE_AVR_OPTIMIZATION s" and "pin_out s1 = pin_out s"
    and "move_count s1 = move_count s"
  by (subst del_timer_only [OF assms], simp)+

lemma del_list_not_in: "tlist s ts \<Longrightarrow> d = ObjT i k \<Longrightarrow> d \<notin> set (del_list d ts)"
  by (cases ts) (auto simp: del_list_def tlist_def)

text \<open>The parts of the state a stop may touch.\<close>

definition stepper_only :: "('a stepper_st_scheme) \<Rightarrow> ('a stepper_st_scheme) \<Rightarrow> bool" where
  "stepper_only s s' \<longleftrightarrow> s' = s\<lparr>pin_out := pin_out s', timers := timers s', timer_list := timer_list s',
     last_insert := last_insert s', nodes := nodes s', move_free_list := move_free_list s', steppers := steppers s'\<rparr>"

lemma stepper_only_intros:
  "stepper_only s s"
  "stepper_only s s1 \<Longrightarrow> stepper_only s (set_waketime t w s1)"
  "stepper_only s s1 \<Longrightarrow> stepper_only s (upd_stepper oid f s1)"
  "stepper_only s s1 \<Longrightarrow> stepper_only s (gpio_out_write p v s1)"
  "stepper_only s s1 \<Longrightarrow> stepper_only s (s1\<lparr>nodes := nn, move_free_list := l\<rparr>)"
  "stepper_only s s1 \<Longrightarrow> stepper_only s (s1\<lparr>timers := tm, timer_list := lh, last_insert := li\<rparr>)"
  by (cases s; cases s1; simp add: stepper_only_def set_waketime_def upd_stepper_def gpio_out_write_def)+

text \<open>Everything \<^verbatim>\<open>stepper_stop\<close> does.\<close>

lemma stop_effect:
  assumes "tlist s ts" and "mq_list s (st_mq (steppers s oid)) xs" and "free_list s fl"
    and "set xs \<inter> set fl = {}"
  obtains s' mh' where "stepper_stop oid s = Ret () s'" and "tlist s' (del_list (stepper_timer oid) ts)"
    and "free_list s' (rev xs @ fl)" and "\<forall>x. x \<notin> set xs \<longrightarrow> nodes s' x = nodes s x"
    and "steppers s' = (steppers s)(oid := (steppers s oid)\<lparr>st_next_step_time := 0,
           st_position := - stepper_get_position (steppers s oid), st_count := 0,
           st_flags := (st_flags (steppers s oid) AND (SF_INVERT_STEP OR SF_SINGLE_SCHED OR SF_OPTIMIZED_PATH)) OR SF_NEED_RESET,
           st_mq := mh'\<rparr>)"
    and "move_queue_empty mh'"
    and "pin_out s' = (let st = steppers s oid; po = (pin_out s)(st_dir_pin st := False) in
           if \<not> single st \<or> (HAVE_AVR_OPTIMIZATION s \<and> optimized st)
           then po(st_step_pin st := (st_flags st AND SF_INVERT_STEP \<noteq> 0)) else po)"
    and "stepper_only s s'"
proof -
  let ?st = "steppers s oid"
  let ?flags = "(st_flags ?st AND (SF_INVERT_STEP OR SF_SINGLE_SCHED OR SF_OPTIMIZED_PATH)) OR SF_NEED_RESET"
  have fl: "?flags AND SF_SINGLE_SCHED = st_flags ?st AND SF_SINGLE_SCHED"
    "?flags AND SF_OPTIMIZED_PATH = st_flags ?st AND SF_OPTIMIZED_PATH"
    "?flags AND SF_INVERT_STEP = st_flags ?st AND SF_INVERT_STEP"
    by (simp_all add: bit.conj_disj_distrib2 and.assoc sf_consts)
  obtain s1 where s1: "sched_del_timer (stepper_timer oid) s = Ret () s1"
    "tlist s1 (del_list (stepper_timer oid) ts)"
    by (rule del_timer_tlist [OF assms(1) refl])
  note fr = del_timer_frame [OF s1(1)]
  let ?st1 = "?st\<lparr>st_next_step_time := 0, st_position := - stepper_get_position (?st\<lparr>st_next_step_time := 0\<rparr>),
      st_count := 0, st_flags := ?flags\<rparr>"
  define s2 where "s2 = gpio_out_write (st_dir_pin ?st) False (upd_stepper oid (\<lambda>_. ?st1) (set_waketime (stepper_timer oid) 0 s1))"
  define s3 where "s3 = (if st_flags ?st AND SF_SINGLE_SCHED = 0
        \<or> (HAVE_AVR_OPTIMIZATION s \<and> st_flags ?st AND SF_OPTIMIZED_PATH \<noteq> 0)
      then gpio_out_write (st_step_pin ?st) (st_flags ?st AND SF_INVERT_STEP \<noteq> 0) s2 else s2)"
  have s3: "nodes s3 = nodes s" "move_free_list s3 = move_free_list s" "st_mq (steppers s3 oid) = st_mq ?st"
    by (simp_all add: s3_def s2_def fr)
  have mq3: "mq_list s3 (st_mq ?st) xs" using assms(2) s3 by (simp add: mq_list_def)
  have fl3: "free_list s3 fl" using assms(3) s3 by (simp add: free_list_def)
  obtain mh' s4 where s4: "free_moves (st_mq ?st) s3 = Some (mh', s4)" "move_queue_empty mh'"
    "free_list s4 (rev xs @ fl)" "s4 = s3\<lparr>nodes := nodes s4, move_free_list := move_free_list s4\<rparr>"
    "\<forall>x. x \<notin> set xs \<longrightarrow> nodes s4 x = nodes s3 x"
    using free_moves_list [OF mq3 fl3 assms(4)] by blast
  have s4f: "steppers s4 = steppers s3" "pin_out s4 = pin_out s3" "timers s4 = timers s3"
    "timer_list s4 = timer_list s3" "last_insert s4 = last_insert s3"
    by (subst s4(4), simp)+
  let ?s' = "upd_stepper oid (\<lambda>st. st\<lparr>st_mq := mh'\<rparr>) s4"
  have avr: "HAVE_AVR_OPTIMIZATION s2 = HAVE_AVR_OPTIMIZATION s"
    by (simp add: s2_def fr gpio_out_write_def)
  have upd: "upd_stepper oid (\<lambda>st. st\<lparr>st_count := 0,
        st_flags := (st_flags st AND (SF_INVERT_STEP OR SF_SINGLE_SCHED OR SF_OPTIMIZED_PATH)) OR SF_NEED_RESET\<rparr>)
      (upd_stepper oid (\<lambda>st. st\<lparr>st_position := - stepper_get_position st\<rparr>)
        (upd_stepper oid (\<lambda>st. st\<lparr>st_next_step_time := 0\<rparr>) (set_waketime (stepper_timer oid) 0 s1)))
      = upd_stepper oid (\<lambda>_. ?st1) (set_waketime (stepper_timer oid) 0 s1)"
    by (simp add: upd_stepper_def fr)
  have st2: "steppers (upd_stepper oid (\<lambda>_. ?st1) (set_waketime (stepper_timer oid) 0 s1)) oid = ?st1"
    by simp
  have "stepper_stop oid s = (case free_moves (st_mq ?st) s3 of None \<Rightarrow> Fault
      | Some (mq, s) \<Rightarrow> Ret () (upd_stepper oid (\<lambda>st. st\<lparr>st_mq := mq\<rparr>) s))"
    unfolding stepper_stop_def s1(1) bindR.simps Let_def upd st2 s3_def
    using avr by (simp add: fl s2_def)
  then have "stepper_stop oid s = Ret () ?s'" using s4(1) by simp
  moreover have "tlist ?s' (del_list (stepper_timer oid) ts)"
  proof (subst tlist_frame [where s = s1])
    show "timer_list ?s' = timer_list s1" "last_insert ?s' = last_insert s1"
      using s4f by (simp_all add: s3_def s2_def upd_stepper_def gpio_out_write_def)
  qed (use s4f s1(2) in \<open>auto simp: s3_def s2_def gpio_out_write_def upd_stepper_def\<close>)
  moreover have "free_list ?s' (rev xs @ fl)"
    using s4(3) by (simp add: free_list_def)
  moreover have "\<forall>x. x \<notin> set xs \<longrightarrow> nodes ?s' x = nodes s x" using s4(5) s3(1) by simp
  moreover have "stepper_get_position (?st\<lparr>st_next_step_time := 0\<rparr>) = stepper_get_position ?st"
    by (simp add: stepper_get_position_def Let_def)
  then have "steppers ?s' = (steppers s)(oid := ?st\<lparr>st_next_step_time := 0,
           st_position := - stepper_get_position ?st, st_count := 0, st_flags := ?flags, st_mq := mh'\<rparr>)"
    using s4f(1) by (simp add: s3_def s2_def fr)
  moreover have "pin_out ?s' = (let st = ?st; po = (pin_out s)(st_dir_pin st := False) in
           if \<not> single st \<or> (HAVE_AVR_OPTIMIZATION s \<and> optimized st)
           then po(st_step_pin st := (st_flags st AND SF_INVERT_STEP \<noteq> 0)) else po)"
    using s4f(2) by (auto simp: s3_def s2_def fr single_def optimized_def Let_def)
  moreover have "stepper_only s s1"
    by (subst del_timer_only [OF s1(1)]) (intro stepper_only_intros)
  then have "stepper_only s s3" unfolding s3_def s2_def by (simp add: stepper_only_intros)
  then have "stepper_only s s4" by (subst s4(4)) (intro stepper_only_intros)
  then have "stepper_only s ?s'" by (intro stepper_only_intros)
  ultimately show ?thesis using that s4(2) by blast
qed

lemma stop_position:
  assumes "1 \<le> uint (stepper_get_position st)" and "uint (stepper_get_position st) < 2 ^ 31"
    and "st_position st' = - stepper_get_position st" and "st_count st' = 0"
  shows "reported st' = reported st" and "\<not> moving_up st'"
proof -
  let ?g = "stepper_get_position st"
  have c: "cur_pos st' = - ?g" using assms(3,4) by (simp add: cur_pos_def)
  have "?g \<noteq> 0" using assms(1) by auto
  then have "uint (- ?g) = 2 ^ 32 - uint ?g" by (rule uint_minus_u32)
  then show nu: "\<not> moving_up st'" using assms(2) by (simp add: moving_up_def top_bit_clear c)
  then show "reported st' = reported st" by (simp add: reported_def get_position_cur [of st'] c)
qed

lemma oid_lookup_ok:
  assumes "oids s = Some os" and "unat (oid_count s) = length os" and "unat oid < length os"
    and "os ! unat oid = \<lparr>oid_ty = Some ty, oid_data = Some d\<rparr>"
  shows "oid_lookup oid ty s = Ret (Some d) s"
  using assms by (simp add: oid_lookup_def word_le_nat_alt rd_def)

lemma flip_dir_flags:
  "flip_dir f \<Longrightarrow> \<not> flip_dir (f XOR SF_LAST_DIR)"
proof -
  have "(f XOR SF_LAST_DIR) AND SF_NEXT_DIR = f AND SF_NEXT_DIR"
    by (rule bit_word_eqI) (auto simp: bit_simps sf_consts)
  moreover have "(f XOR SF_LAST_DIR) AND SF_LAST_DIR \<noteq> 0 \<longleftrightarrow> f AND SF_LAST_DIR = 0"
    using and_exp_eq_0_iff_not_bit [of "f XOR 1" 0] and_exp_eq_0_iff_not_bit [of f 0]
    by (simp add: sf_consts bit_simps)
  ultimately show "flip_dir f \<Longrightarrow> \<not> flip_dir (f XOR SF_LAST_DIR)"
    unfolding flip_dir_def by metis
qed

section \<open>Properties\<close>

text \<open>Every step of every step function moves the reported position
  by one in the direction of movement, and nothing else does: not the end of a pulse, not the
  load of the next move and not a change of direction.\<close>

theorem step_moves_position:
  assumes "ev = stepper_event_full \<or> (ev = stepper_event_edge \<and> single (steppers s oid))
     \<or> (ev = stepper_event_avr \<and> single (steppers s oid) \<and> unat (st_count (steppers s oid)) < 2 ^ 16)"
    and "ev oid s = Ret r s'" and "optimized (steppers s oid) \<longrightarrow> single (steppers s oid)"
    and "st_count (steppers s oid) \<noteq> 0" and "pos_in_range (steppers s oid)"
    and "st_step_pin (steppers s oid) \<noteq> st_dir_pin (steppers s oid)"
  shows "reported (steppers s' oid) = reported (steppers s oid) +
     (if \<not> single (steppers s oid) \<and> odd (unat (st_count (steppers s oid))) then 0
      else if moving_up (steppers s oid) then 1 else -1)"
proof -
  let ?st = "steppers s oid"
  have "\<exists>flip. cur_pos (steppers s' oid) = (if flip then - (cur_pos ?st + (if step_edge ?st then 1 else 0))
       else cur_pos ?st + (if step_edge ?st then 1 else 0))"
    using assms(1)
  proof (elim disjE conjE)
    assume "ev = stepper_event_full"
    then have "stepper_event_full oid s = Ret r s'" "opt_single ?st"
      using assms(2,3) by (simp_all add: opt_single_def)
    then show ?thesis using event_full_pos [OF _ _ assms(4,6)] by metis
  next
    assume "ev = stepper_event_edge" and sg: "single ?st"
    then have "stepper_event_edge oid s = Ret r s'" using assms(2) by simp
    then obtain flip where "cur_pos (steppers s' oid) = (if flip then - (cur_pos ?st + 1) else cur_pos ?st + 1)"
      by (rule event_edge_pos [OF _ sg assms(4)])
    with sg show ?thesis by (auto simp: step_edge_def)
  next
    assume "ev = stepper_event_avr" and sg: "single ?st" and lt: "unat (st_count ?st) < 2 ^ 16"
    then have "stepper_event_avr oid s = Ret r s'" using assms(2) by simp
    then obtain flip where "cur_pos (steppers s' oid) = (if flip then - (cur_pos ?st + 1) else cur_pos ?st + 1)"
      by (rule event_avr_pos [OF _ sg assms(4) lt])
    with sg show ?thesis by (auto simp: step_edge_def)
  qed
  then obtain flip where "cur_pos (steppers s' oid) = (if flip then - (cur_pos ?st + (if step_edge ?st then 1 else 0))
       else cur_pos ?st + (if step_edge ?st then 1 else 0))" ..
  from step_turn(1) [OF this _ assms(5)] show ?thesis
    by (auto simp: step_edge_def)
qed

definition stepper_boot :: "bool \<Rightarrow> bool \<Rightarrow> bool \<Rightarrow> basecmd \<Rightarrow> stepper_st" where
  "stepper_boot edge avr hack b = basecmd.extend b (stepper_st.fields edge avr hack (\<lambda>_. stepper_zero))"

definition example_stepper :: "stepper \<Rightarrow> stepper_st" where
  "example_stepper st = (stepper_boot True False True
     (basecmd_boot 4 1000 (\<lambda>_. 64) (\<lambda>_. 16) (sched_boot 16000000 (\<lambda>_. 0) (\<lambda>_ _. False))))
       \<lparr>steppers := (\<lambda>_. st)\<rparr>"

lemma steppers_example [simp]: "steppers (example_stepper st) oid = st"
  by (simp add: example_stepper_def)

theorem step_moves_position_witness:
  "\<exists>s'. stepper_event_edge 3 (example_stepper (stepper_zero\<lparr>st_position := 0x40000005, st_count := 5,
      st_flags := SF_SINGLE_SCHED, st_step_pin := 1, st_dir_pin := 2\<rparr>)) = Ret SF_RESCHEDULE s'
    \<and> reported (steppers s' 3) = 1"
proof -
  let ?st = "stepper_zero\<lparr>st_position := 0x40000005, st_count := 5,
      st_flags := SF_SINGLE_SCHED, st_step_pin := 1, st_dir_pin := 2\<rparr>"
  let ?s = "example_stepper ?st"
  have st: "steppers ?s 3 = ?st" by (simp add: example_stepper_def)
  have "st_count (steppers ?s 3) - 1 \<noteq> 0" by (simp add: st)
  from edge_step [OF this] obtain s' where s': "stepper_event_edge 3 ?s = Ret SF_RESCHEDULE s'" by blast
  have flags: "single ?st" "reported ?st = 0" "moving_up ?st" "pos_in_range ?st" "\<not> optimized ?st"
    by (simp_all add: single_def optimized_def reported_def stepper_get_position_def sf_consts moving_up_def
        cur_pos_def pos_in_range_def)
  show ?thesis
    using step_moves_position [of stepper_event_edge ?s 3 SF_RESCHEDULE s'] s' flags
    unfolding st by (intro exI [of _ s']) simp
qed

text \<open>C17 (step_times_exact). While the steps of a move are taken, the time of the next step is
  the start of the move plus the sum of the step intervals so far, each larger than the last by
  \<^verbatim>\<open>add\<close>: as the wake-up time of the optimized function, and as
  \<^verbatim>\<open>next_step_time\<close> of the fully scheduled one, whatever delays its events had. The fully scheduled one
  wakes up for a step at that time, or, if this is earlier than the pulse of the last event allows, one
  pulse length after the time that event read; for the end of a pulse it wakes up one pulse length
  after the step.\<close>

theorem step_times_exact:
  assumes "n < unat (st_count (steppers s oid))"
    and "single (steppers s oid) \<or> even (unat (st_count (steppers s oid)))"
  shows "(\<exists>s'. run_events (stepper_event_edge oid) n s = Ret () s'
       \<and> waketime s' (stepper_timer oid) = waketime s (stepper_timer oid)
           + (\<Sum>i<n. st_interval (steppers s oid) + of_nat i * scast (st_add (steppers s oid))))
   \<and> (\<exists>s'. run_events (stepper_event_full oid) n s = Ret () s'
       \<and> st_next_step_time (steppers s' oid) = st_next_step_time (steppers s oid)
           + (\<Sum>i<(if single (steppers s oid) then n else n div 2).
                st_interval (steppers s oid) + of_nat i * scast (st_add (steppers s oid)))
       \<and> (0 < n \<longrightarrow> waketime s' (stepper_timer oid) =
           (let min_next = clk_src s (clk_pos s + (n - 1)) + st_step_pulse_ticks (steppers s oid);
                next_step = st_next_step_time (steppers s' oid)
            in if \<not> single (steppers s oid) \<and> odd n then min_next
               else if timer_is_before next_step min_next then min_next else next_step)))"
proof (rule conjI)
  show "\<exists>s'. run_events (stepper_event_edge oid) n s = Ret () s'
       \<and> waketime s' (stepper_timer oid) = waketime s (stepper_timer oid)
           + (\<Sum>i<n. st_interval (steppers s oid) + of_nat i * scast (st_add (steppers s oid)))"
    using run_edge [OF assms(1)] unfolding move_ticks_def by blast
next
  obtain s' where s': "run_events (stepper_event_full oid) n s = Ret () s'"
    "st_next_step_time (steppers s' oid) = st_next_step_time (steppers s oid)
         + move_ticks (st_interval (steppers s oid)) (st_add (steppers s oid)) (steps_of_events (steppers s oid) n)"
    "\<forall>k. n = Suc k \<longrightarrow> waketime s' (stepper_timer oid) =
          full_wake (\<not> single (steppers s oid) \<and> odd n) (st_next_step_time (steppers s' oid))
            (clk_src s (clk_pos s + k) + st_step_pulse_ticks (steppers s oid))"
    using run_full [OF assms] by blast
  have wake: "waketime s' (stepper_timer oid) =
        full_wake (\<not> single (steppers s oid) \<and> odd n) (st_next_step_time (steppers s' oid))
            (clk_src s (clk_pos s + (n - 1)) + st_step_pulse_ticks (steppers s oid))" if "0 < n"
    using s'(3) that by (cases n) simp_all
  show "\<exists>s'. run_events (stepper_event_full oid) n s = Ret () s'
       \<and> st_next_step_time (steppers s' oid) = st_next_step_time (steppers s oid)
           + (\<Sum>i<(if single (steppers s oid) then n else n div 2).
                st_interval (steppers s oid) + of_nat i * scast (st_add (steppers s oid)))
       \<and> (0 < n \<longrightarrow> waketime s' (stepper_timer oid) =
           (let min_next = clk_src s (clk_pos s + (n - 1)) + st_step_pulse_ticks (steppers s oid);
                next_step = st_next_step_time (steppers s' oid)
            in if \<not> single (steppers s oid) \<and> odd n then min_next
               else if timer_is_before next_step min_next then min_next else next_step))"
    using s'(1,2) wake unfolding move_ticks_def steps_of_events_def full_wake_def Let_def
    by (intro exI [of _ s']) (simp split: if_splits)
qed

theorem step_times_exact_witness:
  "\<exists>s'. run_events (stepper_event_edge 3) 2 (example_stepper (stepper_zero\<lparr>st_count := 5, st_interval := 100,
      st_add := 7, st_flags := SF_SINGLE_SCHED\<rparr>)) = Ret () s' \<and> waketime s' (ObjT 3 0) = 207"
proof -
  let ?s = "example_stepper (stepper_zero\<lparr>st_count := 5, st_interval := 100, st_add := 7, st_flags := SF_SINGLE_SCHED\<rparr>)"
  have w: "waketime ?s (ObjT 3 0) = 0"
    by (simp add: example_stepper_def stepper_boot_def basecmd_boot_def sched_boot_def timers_init_def
        basecmd.defs sched.defs stepper_st.defs)
  have st: "steppers ?s 3 = stepper_zero\<lparr>st_count := 5, st_interval := 100, st_add := 7, st_flags := SF_SINGLE_SCHED\<rparr>"
    by (simp add: example_stepper_def)
  have "2 < unat (st_count (steppers ?s 3))" "single (steppers ?s 3)"
    unfolding st by (simp_all add: single_def sf_consts)
  moreover have "(\<Sum>i<2. (100 :: u32) + of_nat i * scast (7 :: u16)) = 207"
    by (simp add: numeral_2_eq_2 lessThan_Suc)
  ultimately show ?thesis
    using conjunct1 [OF step_times_exact [of 2 ?s 3]] by (simp add: st w)
qed

text \<open>Stopping a stepper always succeeds in a consistent machine: the
  reported position is that of the last step, the stepper is idle until its clock is reset, its
  timer is gone, the direction pin is low and counted as downwards, and every queued move is
  back in the free list.\<close>

theorem stop_keeps_position:
  assumes "tlist s ts" and "mq_list s (st_mq (steppers s oid)) xs" and "free_list s fl"
    and "set xs \<inter> set fl = {}" and "pos_in_range (steppers s oid)"
    and "st_step_pin (steppers s oid) \<noteq> st_dir_pin (steppers s oid)"
  shows "\<exists>s' ts'. stepper_stop oid s = Ret () s' \<and> reported (steppers s' oid) = reported (steppers s oid)
     \<and> st_count (steppers s' oid) = 0 \<and> st_flags (steppers s' oid) AND SF_NEED_RESET \<noteq> 0
     \<and> \<not> moving_up (steppers s' oid) \<and> \<not> pin_out s' (st_dir_pin (steppers s oid))
     \<and> tlist s' ts' \<and> stepper_timer oid \<notin> set ts'
     \<and> move_queue_empty (st_mq (steppers s' oid)) \<and> free_list s' (rev xs @ fl)"
proof -
  obtain s' mh' where s': "stepper_stop oid s = Ret () s'" "tlist s' (del_list (stepper_timer oid) ts)"
    "free_list s' (rev xs @ fl)" "\<forall>x. x \<notin> set xs \<longrightarrow> nodes s' x = nodes s x"
    "steppers s' = (steppers s)(oid := (steppers s oid)\<lparr>st_next_step_time := 0,
           st_position := - stepper_get_position (steppers s oid), st_count := 0,
           st_flags := (st_flags (steppers s oid) AND (SF_INVERT_STEP OR SF_SINGLE_SCHED OR SF_OPTIMIZED_PATH)) OR SF_NEED_RESET,
           st_mq := mh'\<rparr>)"
    "move_queue_empty mh'"
    "pin_out s' = (let st = steppers s oid; po = (pin_out s)(st_dir_pin st := False) in
           if \<not> single st \<or> (HAVE_AVR_OPTIMIZATION s \<and> optimized st)
           then po(st_step_pin st := (st_flags st AND SF_INVERT_STEP \<noteq> 0)) else po)"
    "stepper_only s s'"
    by (rule stop_effect [OF assms(1-4)])
  have "reported (steppers s' oid) = reported (steppers s oid)" "\<not> moving_up (steppers s' oid)"
    using stop_position [of "steppers s oid" "steppers s' oid"] assms(5) s'(5) by (auto simp: pos_in_range_def)
  moreover have "st_flags (steppers s' oid) AND SF_NEED_RESET \<noteq> 0"
    using and_exp_eq_0_iff_not_bit [of "st_flags (steppers s' oid)" 3]
    by (simp add: s'(5) sf_consts bit_simps)
  moreover have "\<not> pin_out s' (st_dir_pin (steppers s oid))"
    using assms(6) by (simp add: s'(7) Let_def)
  ultimately show ?thesis
    using s'(1,2,3,6) del_list_not_in [OF assms(1) refl] by (intro exI [of _ s'] exI) (auto simp: s'(5))
qed

theorem stop_keeps_position_witness:
  "\<exists>s'. stepper_stop 3 (example_stepper (stepper_zero\<lparr>st_position := 0x40000009, st_count := 4,
      st_step_pin := 1, st_dir_pin := 2\<rparr>)) = Ret () s' \<and> reported (steppers s' 3) = 7"
proof -
  let ?st = "stepper_zero\<lparr>st_position := 0x40000009, st_count := 4, st_step_pin := 1, st_dir_pin := 2\<rparr>"
  let ?s = "example_stepper ?st"
  have st: "steppers ?s 3 = ?st" by (simp add: example_stepper_def)
  have "tlist ?s [PeriodicT, SentinelT]"
    by (simp add: tlist_def example_stepper_def stepper_boot_def basecmd_boot_def sched_boot_def timers_init_def
        timer_funcs_ok_def basecmd.defs sched.defs stepper_st.defs)
  moreover have "mq_list ?s (st_mq ?st) []" by (simp add: mq_list_def stepper_zero_def)
  moreover have "free_list ?s []"
    by (simp add: free_list_def example_stepper_def stepper_boot_def basecmd_boot_def
        basecmd.defs sched.defs stepper_st.defs)
  moreover have "pos_in_range ?st" "reported ?st = 7"
    by (simp_all add: pos_in_range_def reported_def stepper_get_position_def sf_consts stepper_zero_def)
  moreover have "st_step_pin ?st \<noteq> st_dir_pin ?st" by simp
  ultimately show ?thesis
    using stop_keeps_position [of ?s "[PeriodicT, SentinelT]" 3 "[]" "[]"]
    unfolding st by (metis inf_bot_left list.set(1))
qed

lemma queue_step_active:
  assumes "oids s = Some os" and "unat (oid_count s) = length os" and "unat (ucast a0 :: u8) < length os"
    and "os ! unat (ucast a0 :: u8) = \<lparr>oid_ty = Some Config_stepper, oid_data = Some d\<rparr>"
    and "free_list s (x # fl)" and "mq_list s (st_mq (steppers s (ucast a0))) xs" and "x \<notin> set xs"
    and "st_count (steppers s (ucast a0)) \<noteq> 0" and "(ucast count :: u16) \<noteq> 0"
  obtains s' mh flags where "command_queue_step a0 interval count add s = Ret () s'"
    and "mq_list s' mh (xs @ [x])"
    and "flags = (if flip_dir (st_flags (steppers s (ucast a0))) then st_flags (steppers s (ucast a0)) XOR SF_LAST_DIR
                  else st_flags (steppers s (ucast a0)))"
    and "steppers s' = (steppers s)(ucast a0 := (steppers s (ucast a0))\<lparr>st_flags := flags, st_mq := mh\<rparr>)"
    and "mn_data (nodes s' x) = M_stepper \<lparr>sm_interval = interval, sm_add = ucast add, sm_count = ucast count,
          sm_flags = (if flip_dir (st_flags (steppers s (ucast a0))) then MF_DIR else 0)\<rparr>"
    and "\<And>y. y \<noteq> x \<Longrightarrow> mn_data (nodes s' y) = mn_data (nodes s y)"
    and "\<And>y. y \<notin> insert x (set xs) \<Longrightarrow> nodes s' y = nodes s y"
    and "s' = s\<lparr>nodes := nodes s', move_free_list := mn_next (nodes s x), steppers := steppers s'\<rparr>"
proof -
  let ?oid = "ucast a0 :: u8"
  let ?st = "steppers s ?oid"
  have lk: "stepper_oid_lookup a0 s = Ret ?oid s"
    using oid_lookup_ok [OF assms(1-4)] by (simp add: stepper_oid_lookup_def)
  define s1 where "s1 = s\<lparr>move_free_list := mn_next (nodes s x)\<rparr>"
  have al: "move_alloc s = Ret x s1" using free_alloc(1) [OF assms(5)] by (simp add: s1_def)
  define m where "m = \<lparr>sm_interval = interval, sm_add = ucast add, sm_count = ucast count,
      sm_flags = (if flip_dir (st_flags ?st) then MF_DIR else 0)\<rparr>"
  define flags where "flags = (if flip_dir (st_flags ?st) then st_flags ?st XOR SF_LAST_DIR else st_flags ?st)"
  define s2 where "s2 = upd_stepper ?oid (\<lambda>st. st\<lparr>st_flags := flags\<rparr>) (set_node_data x (M_stepper m) s1)"
  have "mq_list s2 (st_mq ?st) xs" using assms(6) by (rule mq_list_frame) (simp add: s2_def s1_def)
  from push_list [OF this assms(7)] obtain s3 mh where p: "move_queue_push x (st_mq ?st) s2 = Ret (xs = [], mh) s3"
    "mq_list s3 mh (xs @ [x])" "\<And>y. mn_data (nodes s3 y) = mn_data (nodes s2 y)" "s3 = s2\<lparr>nodes := nodes s3\<rparr>"
    "\<And>y. y \<notin> insert x (set xs) \<Longrightarrow> nodes s3 y = nodes s2 y"
    by metis
  have s3: "steppers s3 = steppers s2" "move_free_list s3 = move_free_list s2" by (subst p(4), simp)+
  let ?s' = "upd_stepper ?oid (\<lambda>st. st\<lparr>st_mq := mh\<rparr>) s3"
  have st': "steppers ?s' = (steppers s)(?oid := ?st\<lparr>st_flags := flags, st_mq := mh\<rparr>)"
    by (simp add: s3 s2_def s1_def fun_eq_iff)
  have "command_queue_step a0 interval count add s = Ret () ?s'"
    using lk al assms(8,9) p(1)
    by (cases "flip_dir (st_flags ?st)")
      (simp_all add: command_queue_step_def Let_def s2_def flags_def m_def s1_def)
  moreover have "mq_list ?s' mh (xs @ [x])" using p(2) by (simp add: mq_list_def)
  moreover have "?s' = s\<lparr>nodes := nodes ?s', move_free_list := mn_next (nodes s x), steppers := steppers ?s'\<rparr>"
    unfolding st' by (subst p(4)) (simp add: upd_stepper_def s2_def s1_def set_node_data_def fun_eq_iff)
  moreover have "mn_data (nodes ?s' y) = (if y = x then M_stepper m else mn_data (nodes s y))" for y
    using p(3) by (simp add: s2_def s1_def)
  moreover have "nodes ?s' y = nodes s y" if "y \<notin> insert x (set xs)" for y
    using p(5) that by (simp add: s2_def s1_def)
  ultimately show ?thesis using st' by (intro that [of ?s' mh flags]) (simp_all add: flags_def m_def)
qed

text \<open>Queueing a move on an active stepper takes one node of the free
  list, stores the move in it, with the direction flag set exactly when the direction differs
  from that of the last queued move, and appends it to the stepper's queue.\<close>

theorem queue_step_appends:
  assumes "oids s = Some os" and "unat (oid_count s) = length os" and "unat (ucast a0 :: u8) < length os"
    and "os ! unat (ucast a0 :: u8) = \<lparr>oid_ty = Some Config_stepper, oid_data = Some d\<rparr>"
    and "free_list s (x # fl)" and "mq_list s (st_mq (steppers s (ucast a0))) xs" and "x \<notin> set xs"
    and "st_count (steppers s (ucast a0)) \<noteq> 0" and "(ucast count :: u16) \<noteq> 0"
  shows "\<exists>s'. command_queue_step a0 interval count add s = Ret () s'
     \<and> mq_list s' (st_mq (steppers s' (ucast a0))) (xs @ [x])
     \<and> mn_data (nodes s' x) = M_stepper \<lparr>sm_interval = interval, sm_add = ucast add, sm_count = ucast count,
          sm_flags = (if flip_dir (st_flags (steppers s (ucast a0))) then MF_DIR else 0)\<rparr>
     \<and> \<not> flip_dir (st_flags (steppers s' (ucast a0)))
     \<and> move_free_list s' = mn_next (nodes s x)"
proof (rule queue_step_active [OF assms, where interval = interval and add = add], goal_cases)
  case (1 s' mh flags)
  have "\<not> flip_dir flags" using flip_dir_flags [of "st_flags (steppers s (ucast a0))"] 1(3) by auto
  moreover have "move_free_list s' = mn_next (nodes s x)" by (subst 1(8)) simp
  ultimately show ?case using 1(1,2,4,5) by (intro exI [of _ s']) simp
qed

theorem queue_step_appends_witness:
  "\<exists>s'. command_queue_step 0 1000 4 7 ((example_stepper (stepper_zero\<lparr>st_count := 2\<rparr>))
      \<lparr>oids := Some [\<lparr>oid_ty = Some Config_stepper, oid_data = Some 0\<rparr>], oid_count := 1, move_free_list := Some 0\<rparr>)
     = Ret () s' \<and> mq_list s' (st_mq (steppers s' 0)) [0]"
proof -
  let ?s = "(example_stepper (stepper_zero\<lparr>st_count := 2\<rparr>))
      \<lparr>oids := Some [\<lparr>oid_ty = Some Config_stepper, oid_data = Some 0\<rparr>], oid_count := 1, move_free_list := Some 0\<rparr>"
  have "nodes ?s 0 = \<lparr>mn_next = None, mn_data = M_none\<rparr>"
    by (simp add: example_stepper_def stepper_boot_def basecmd_boot_def basecmd.defs sched.defs stepper_st.defs)
  then have "free_list ?s [0]" by (simp add: free_list_def)
  moreover have "mq_list ?s (st_mq (stepper_zero\<lparr>st_count := 2\<rparr>)) []" by (simp add: mq_list_def stepper_zero_def)
  ultimately show ?thesis
    using queue_step_appends [of ?s "[\<lparr>oid_ty = Some Config_stepper, oid_data = Some 0\<rparr>]" 0 0 0 "[]" "[]" 4 1000 7]
    by auto
qed

end
