(* ===== verification/Trsync.thy ===== *)
theory Trsync
  imports Stepper
begin

text \<open>
  Triggers that stop steppers (\<^verbatim>\<open>src/src/trsync.c\<close>) and end stops that fire them
  (\<^verbatim>\<open>src/src/endstop.c\<close>). The signals of a trigger are the stop signals of steppers,
  linked through the steppers; a signal is addressed by the stepper's object id. The timers of a
  trigger are \<open>ObjT oid 0\<close> (report) and \<open>ObjT oid 1\<close> (expire), that of an end stop \<open>ObjT oid 0\<close>.
\<close>

section \<open>State\<close>

record trsync =
  ts_report_ticks :: u32
  ts_signals :: "u8 option"
  ts_flags :: u8
  ts_trigger_reason :: u8
  ts_expire_reason :: u8

record endstop =
  es_pin :: u32
  es_rest_time :: u32
  es_sample_time :: u32
  es_nextwake :: u32
  es_ts :: "u8 option"
  es_flags :: u8
  es_sample_count :: u8
  es_trigger_count :: u8
  es_trigger_reason :: u8

record trsync_st = stepper_st +
  trsyncs :: "u8 \<Rightarrow> trsync"
  trsync_wake :: u8
  endstops :: "u8 \<Rightarrow> endstop"

definition TSF_CAN_TRIGGER :: u8 where "TSF_CAN_TRIGGER = 1"
definition TSF_REPORT :: u8 where "TSF_REPORT = 4"
definition ESF_PIN_HIGH :: u8 where "ESF_PIN_HIGH = 1"
definition ESF_HOMING :: u8 where "ESF_HOMING = 2"

lemmas tsf_consts = TSF_CAN_TRIGGER_def TSF_REPORT_def ESF_PIN_HIGH_def ESF_HOMING_def

abbreviation report_timer :: "u8 \<Rightarrow> timer_id" where "report_timer oid \<equiv> ObjT oid 0"
abbreviation expire_timer :: "u8 \<Rightarrow> timer_id" where "expire_timer oid \<equiv> ObjT oid 1"
abbreviation endstop_timer :: "u8 \<Rightarrow> timer_id" where "endstop_timer oid \<equiv> ObjT oid 0"

definition upd_trsync :: "u8 \<Rightarrow> (trsync \<Rightarrow> trsync) \<Rightarrow> ('a trsync_st_scheme) \<Rightarrow> ('a trsync_st_scheme)" where
  "upd_trsync oid f s = s\<lparr>trsyncs := (trsyncs s)(oid := f (trsyncs s oid))\<rparr>"

definition upd_endstop :: "u8 \<Rightarrow> (endstop \<Rightarrow> endstop) \<Rightarrow> ('a trsync_st_scheme) \<Rightarrow> ('a trsync_st_scheme)" where
  "upd_endstop oid f s = s\<lparr>endstops := (endstops s)(oid := f (endstops s oid))\<rparr>"

definition trsync_zero :: trsync where
  "trsync_zero = \<lparr>ts_report_ticks = 0, ts_signals = None, ts_flags = 0, ts_trigger_reason = 0, ts_expire_reason = 0\<rparr>"

definition endstop_zero :: endstop where
  "endstop_zero = \<lparr>es_pin = 0, es_rest_time = 0, es_sample_time = 0, es_nextwake = 0, es_ts = None,
     es_flags = 0, es_sample_count = 0, es_trigger_count = 0, es_trigger_reason = 0\<rparr>"

definition wake_trsync :: "('a trsync_st_scheme) \<Rightarrow> ('a trsync_st_scheme)" where
  "wake_trsync s = sched_wake_task trsync_wake_update s"

section \<open>Triggering\<close>

text \<open>The loop over the signals; \<open>None\<close> is a list of signals that never ends.\<close>

partial_function (option) run_signals ::
  "u8 \<Rightarrow> ('a trsync_st_scheme) \<Rightarrow> (('a trsync_st_scheme), unit) res option" where
  "run_signals oid s = (case ts_signals (trsyncs s oid) of
       None \<Rightarrow> Some (Ret () s)
     | Some tss \<Rightarrow>
         (case stepper_stop tss (upd_stepper tss (\<lambda>st. st\<lparr>st_sig_next := None, st_sig_func := False\<rparr>)
                 (upd_trsync oid (\<lambda>ts. ts\<lparr>ts_signals := st_sig_next (steppers s tss)\<rparr>) s)) of
            Ret _ s' \<Rightarrow> run_signals oid s'
          | Shutdown r s' \<Rightarrow> Some (Shutdown r s')
          | Fault \<Rightarrow> Some Fault))"

definition trsync_do_trigger :: "u8 \<Rightarrow> u8 \<Rightarrow> ('a trsync_st_scheme) \<Rightarrow> (('a trsync_st_scheme), unit) res" where
  "trsync_do_trigger oid reason s =
     (let flags = ts_flags (trsyncs s oid) in
      if flags AND TSF_CAN_TRIGGER = 0 then Ret () s
      else
        let s = upd_trsync oid (\<lambda>ts. ts\<lparr>ts_trigger_reason := reason,
                  ts_flags := (flags AND NOT TSF_CAN_TRIGGER) OR TSF_REPORT\<rparr>) s
        in bindR (case run_signals oid s of None \<Rightarrow> Fault | Some r \<Rightarrow> r)
             (\<lambda>_ s. Ret () (wake_trsync s)))"

definition trsync_expire_event :: "u8 \<Rightarrow> ('a trsync_st_scheme) \<Rightarrow> (('a trsync_st_scheme), timer_res) res" where
  "trsync_expire_event oid s =
     bindR (trsync_do_trigger oid (ts_expire_reason (trsyncs s oid)) s) (\<lambda>_ s. Ret SF_DONE s)"

definition trsync_report_event :: "u8 \<Rightarrow> ('a trsync_st_scheme) \<Rightarrow> (('a trsync_st_scheme), timer_res) res" where
  "trsync_report_event oid s =
     (let s = upd_trsync oid (\<lambda>ts. ts\<lparr>ts_flags := ts_flags ts OR TSF_REPORT\<rparr>) s;
          s = wake_trsync s;
          s = set_waketime (report_timer oid) (waketime s (report_timer oid) + ts_report_ticks (trsyncs s oid)) s
      in Ret SF_RESCHEDULE s)"

definition command_config_trsync :: "u32 \<Rightarrow> ('a trsync_st_scheme) \<Rightarrow> (('a trsync_st_scheme), unit) res" where
  "command_config_trsync a0 s =
     (let oid = (ucast a0 :: u8) in
      bindR (oid_alloc oid Config_trsync s) (\<lambda>_ s.
        let s = upd_trsync oid (\<lambda>_. trsync_zero) s;
            s = s\<lparr>timers := (timers s)(report_timer oid := timer_zero, expire_timer oid := timer_zero)\<rparr>;
            s = set_func (report_timer oid) Trsync_report_event s
        in Ret () (set_func (expire_timer oid) Trsync_expire_event s)))"

definition trsync_oid_lookup :: "u32 \<Rightarrow> ('a trsync_st_scheme) \<Rightarrow> (('a trsync_st_scheme), u8) res" where
  "trsync_oid_lookup a0 s =
     bindR (oid_lookup (ucast a0) Config_trsync s) (\<lambda>p s.
       case p of None \<Rightarrow> Fault | Some _ \<Rightarrow> Ret (ucast a0) s)"

text \<open>The callback is always \<^verbatim>\<open>stepper_stop\<close>: \<^verbatim>\<open>!func\<close> does not occur.\<close>

definition trsync_add_signal :: "u8 \<Rightarrow> u8 \<Rightarrow> ('a trsync_st_scheme) \<Rightarrow> (('a trsync_st_scheme), unit) res" where
  "trsync_add_signal oid tss s =
     (if st_sig_func (steppers s tss) then Shutdown ''Can't add signal that is already active'' s
      else let s = upd_stepper tss (\<lambda>st. st\<lparr>st_sig_func := True, st_sig_next := ts_signals (trsyncs s oid)\<rparr>) s
           in Ret () (upd_trsync oid (\<lambda>ts. ts\<lparr>ts_signals := Some tss\<rparr>) s))"

definition command_stepper_stop_on_trigger ::
  "u32 \<Rightarrow> u32 \<Rightarrow> ('a trsync_st_scheme) \<Rightarrow> (('a trsync_st_scheme), unit) res" where
  "command_stepper_stop_on_trigger a0 a1 s =
     bindR (stepper_oid_lookup a0 s) (\<lambda>st s.
     bindR (trsync_oid_lookup a1 s) (\<lambda>ts s. trsync_add_signal ts st s))"

text \<open>The loop of \<^verbatim>\<open>trsync_clear\<close> that unregisters the signals.\<close>

partial_function (option) clear_signals ::
  "u8 option \<Rightarrow> ('a trsync_st_scheme) \<Rightarrow> ('a trsync_st_scheme) option" where
  "clear_signals tss s = (case tss of None \<Rightarrow> Some s
     | Some t \<Rightarrow> clear_signals (st_sig_next (steppers s t))
                   (upd_stepper t (\<lambda>st. st\<lparr>st_sig_func := False, st_sig_next := None\<rparr>) s))"

definition trsync_clear :: "u8 \<Rightarrow> ('a trsync_st_scheme) \<Rightarrow> (('a trsync_st_scheme), unit) res" where
  "trsync_clear oid s =
     bindR (sched_del_timer (report_timer oid) s) (\<lambda>_ s.
     bindR (sched_del_timer (expire_timer oid) s) (\<lambda>_ s.
     case clear_signals (ts_signals (trsyncs s oid)) s of
       None \<Rightarrow> Fault
     | Some s \<Rightarrow> Ret () (upd_trsync oid (\<lambda>ts. ts\<lparr>ts_signals := None, ts_flags := 0,
                          ts_trigger_reason := 0, ts_expire_reason := 0\<rparr>) s)))"

definition command_trsync_start ::
  "u32 \<Rightarrow> u32 \<Rightarrow> u32 \<Rightarrow> u32 \<Rightarrow> ('a trsync_st_scheme) \<Rightarrow> (('a trsync_st_scheme), unit) res" where
  "command_trsync_start a0 report_clock report_ticks expire_reason s =
     bindR (trsync_oid_lookup a0 s) (\<lambda>oid s.
     bindR (trsync_clear oid s) (\<lambda>_ s.
     let s = upd_trsync oid (\<lambda>ts. ts\<lparr>ts_flags := TSF_CAN_TRIGGER\<rparr>) s;
         s = set_waketime (report_timer oid) report_clock s;
         s = upd_trsync oid (\<lambda>ts. ts\<lparr>ts_report_ticks := report_ticks\<rparr>) s
     in bindR (if report_ticks \<noteq> 0 then sched_add_timer (report_timer oid) s else Ret () s) (\<lambda>_ s.
        Ret () (upd_trsync oid (\<lambda>ts. ts\<lparr>ts_expire_reason := ucast expire_reason\<rparr>) s))))"

definition command_trsync_set_timeout ::
  "u32 \<Rightarrow> u32 \<Rightarrow> ('a trsync_st_scheme) \<Rightarrow> (('a trsync_st_scheme), unit) res" where
  "command_trsync_set_timeout a0 clock s =
     bindR (trsync_oid_lookup a0 s) (\<lambda>oid s.
     if ts_flags (trsyncs s oid) AND TSF_CAN_TRIGGER \<noteq> 0 then
       bindR (sched_del_timer (expire_timer oid) s) (\<lambda>_ s.
         sched_add_timer (expire_timer oid) (set_waketime (expire_timer oid) clock s))
     else Ret () s)"

definition trsync_report :: "u8 \<Rightarrow> u8 \<Rightarrow> u8 \<Rightarrow> u32 \<Rightarrow> ('a trsync_st_scheme) \<Rightarrow> ('a trsync_st_scheme)" where
  "trsync_report oid flags reason clock s =
     command_sendf ''trsync_state oid=%c can_trigger=%c trigger_reason=%c clock=%u''
       [AInt (ucast oid), AInt (of_flag (flags AND TSF_CAN_TRIGGER \<noteq> 0)), AInt (ucast reason), AInt clock] s"

definition command_trsync_trigger ::
  "u32 \<Rightarrow> u32 \<Rightarrow> ('a trsync_st_scheme) \<Rightarrow> (('a trsync_st_scheme), unit) res" where
  "command_trsync_trigger a0 reason s =
     bindR (trsync_oid_lookup a0 s) (\<lambda>oid s.
     bindR (trsync_do_trigger oid (ucast reason) s) (\<lambda>_ s.
     bindR (sched_del_timer (report_timer oid) s) (\<lambda>_ s.
     bindR (sched_del_timer (expire_timer oid) s) (\<lambda>_ s.
     let s = upd_trsync oid (\<lambda>ts. ts\<lparr>ts_flags := 0\<rparr>) s
     in Ret () (trsync_report oid 0 (ts_trigger_reason (trsyncs s oid)) 0 s)))))"

text \<open>One round of \<^verbatim>\<open>trsync_task\<close> for an object.\<close>

definition trsync_task_oid :: "u8 \<Rightarrow> ('a trsync_st_scheme) \<Rightarrow> ('a trsync_st_scheme)" where
  "trsync_task_oid oid s =
     (if ts_flags (trsyncs s oid) AND TSF_REPORT = 0 then s
      else let (time, s) = timer_read_time s;
               trigger_reason = ts_trigger_reason (trsyncs s oid);
               flags = ts_flags (trsyncs s oid);
               s = upd_trsync oid (\<lambda>ts. ts\<lparr>ts_flags := flags AND NOT TSF_REPORT\<rparr>) s
           in trsync_report oid flags trigger_reason time s)"

definition trsync_task :: "('a trsync_st_scheme) \<Rightarrow> ('a trsync_st_scheme)" where
  "trsync_task s =
     (let (woken, s) = sched_check_wake trsync_wake trsync_wake_update s in
      if \<not> woken then s else fold trsync_task_oid (foreach_oid Config_trsync s) s)"

fun trsync_clear_all :: "u8 list \<Rightarrow> ('a trsync_st_scheme) \<Rightarrow> (('a trsync_st_scheme), unit) res" where
  "trsync_clear_all [] s = Ret () s"
| "trsync_clear_all (oid # rest) s = bindR (trsync_clear oid s) (\<lambda>_ s. trsync_clear_all rest s)"

definition trsync_shutdown :: "('a trsync_st_scheme) \<Rightarrow> (('a trsync_st_scheme), unit) res" where
  "trsync_shutdown s = trsync_clear_all (foreach_oid Config_trsync s) s"

section \<open>End stops\<close>

text \<open>\<^verbatim>\<open>(val ? ~e->flags : e->flags) & ESF_PIN_HIGH\<close>: the pin does not match.\<close>

definition endstop_mismatch :: "bool \<Rightarrow> u8 \<Rightarrow> bool" where
  "endstop_mismatch val flags \<longleftrightarrow> (if val then NOT flags else flags) AND ESF_PIN_HIGH \<noteq> 0"

definition endstop_oversample_event :: "u8 \<Rightarrow> ('a trsync_st_scheme) \<Rightarrow> (('a trsync_st_scheme), timer_res) res" where
  "endstop_oversample_event oid s =
     (let e = endstops s oid;
          (val, s) = gpio_in_read (es_pin e) s
      in if endstop_mismatch val (es_flags e) then
           let s = set_func (endstop_timer oid) Endstop_event s;
               s = set_waketime (endstop_timer oid) (es_nextwake e) s
           in Ret SF_RESCHEDULE (upd_endstop oid (\<lambda>e. e\<lparr>es_trigger_count := es_sample_count e\<rparr>) s)
         else let count = es_trigger_count e - 1 in
           if count = 0 then
             (case es_ts e of None \<Rightarrow> Fault
              | Some ts \<Rightarrow> bindR (trsync_do_trigger ts (es_trigger_reason e) s) (\<lambda>_ s. Ret SF_DONE s))
           else
             let s = upd_endstop oid (\<lambda>e. e\<lparr>es_trigger_count := count\<rparr>) s
             in Ret SF_RESCHEDULE
                  (set_waketime (endstop_timer oid) (waketime s (endstop_timer oid) + es_sample_time e) s))"

definition endstop_event :: "u8 \<Rightarrow> ('a trsync_st_scheme) \<Rightarrow> (('a trsync_st_scheme), timer_res) res" where
  "endstop_event oid s =
     (let e = endstops s oid;
          (val, s) = gpio_in_read (es_pin e) s;
          nextwake = waketime s (endstop_timer oid) + es_rest_time e
      in if endstop_mismatch val (es_flags e) then
           Ret SF_RESCHEDULE (set_waketime (endstop_timer oid) nextwake s)
         else
           let s = upd_endstop oid (\<lambda>e. e\<lparr>es_nextwake := nextwake\<rparr>) s
           in endstop_oversample_event oid (set_func (endstop_timer oid) Endstop_oversample_event s))"

definition command_config_endstop :: "u32 \<Rightarrow> u32 \<Rightarrow> u32 \<Rightarrow> ('a trsync_st_scheme) \<Rightarrow> (('a trsync_st_scheme), unit) res" where
  "command_config_endstop a0 pin pull_up s =
     (let oid = (ucast a0 :: u8) in
      bindR (oid_alloc oid Config_endstop s) (\<lambda>_ s.
        let s = upd_endstop oid (\<lambda>_. endstop_zero) s;
            s = s\<lparr>timers := (timers s)(endstop_timer oid := timer_zero)\<rparr>
        in bindR (gpio_in_setup pin pull_up s) (\<lambda>_ s. Ret () (upd_endstop oid (\<lambda>e. e\<lparr>es_pin := pin\<rparr>) s))))"

definition endstop_oid_lookup :: "u32 \<Rightarrow> ('a trsync_st_scheme) \<Rightarrow> (('a trsync_st_scheme), u8) res" where
  "endstop_oid_lookup a0 s =
     bindR (oid_lookup (ucast a0) Config_endstop s) (\<lambda>p s.
       case p of None \<Rightarrow> Fault | Some _ \<Rightarrow> Ret (ucast a0) s)"

definition command_endstop_home ::
  "u32 \<Rightarrow> u32 \<Rightarrow> u32 \<Rightarrow> u32 \<Rightarrow> u32 \<Rightarrow> u32 \<Rightarrow> u32 \<Rightarrow> u32 \<Rightarrow> ('a trsync_st_scheme) \<Rightarrow> (('a trsync_st_scheme), unit) res" where
  "command_endstop_home a0 clock sample_ticks sample_count rest_ticks pin_value trsync_oid reason s =
     bindR (endstop_oid_lookup a0 s) (\<lambda>oid s.
     bindR (sched_del_timer (endstop_timer oid) s) (\<lambda>_ s.
     let s = set_waketime (endstop_timer oid) clock s;
         s = upd_endstop oid (\<lambda>e. e\<lparr>es_sample_time := sample_ticks, es_sample_count := ucast sample_count\<rparr>) s
     in if (ucast sample_count :: u8) = 0 then
          Ret () (upd_endstop oid (\<lambda>e. e\<lparr>es_ts := None, es_flags := 0\<rparr>) s)
        else
          let s = upd_endstop oid (\<lambda>e. e\<lparr>es_rest_time := rest_ticks\<rparr>) s;
              s = set_func (endstop_timer oid) Endstop_event s;
              s = upd_endstop oid (\<lambda>e. e\<lparr>es_trigger_count := es_sample_count e,
                    es_flags := ESF_HOMING OR (if pin_value \<noteq> 0 then ESF_PIN_HIGH else 0)\<rparr>) s
          in bindR (trsync_oid_lookup trsync_oid s) (\<lambda>ts s.
             let s = upd_endstop oid (\<lambda>e. e\<lparr>es_ts := Some ts, es_trigger_reason := ucast reason\<rparr>) s
             in sched_add_timer (endstop_timer oid) s)))"

definition command_endstop_query_state :: "u32 \<Rightarrow> ('a trsync_st_scheme) \<Rightarrow> (('a trsync_st_scheme), unit) res" where
  "command_endstop_query_state a0 s =
     bindR (endstop_oid_lookup a0 s) (\<lambda>oid s.
       let eflags = es_flags (endstops s oid); nextwake = es_nextwake (endstops s oid);
           (val, s) = gpio_in_read (es_pin (endstops s oid)) s
       in Ret () (command_sendf ''endstop_state oid=%c homing=%c next_clock=%u pin_value=%c''
            [AInt (ucast oid), AInt (of_flag (eflags AND ESF_HOMING \<noteq> 0)), AInt nextwake, AInt (of_flag val)] s))"

section \<open>Signals as lists\<close>

lemma upd_trsync_simps [simp]:
  "trsyncs (upd_trsync oid f s) = (trsyncs s)(oid := f (trsyncs s oid))"
  "steppers (upd_trsync oid f s) = steppers s" "timers (upd_trsync oid f s) = timers s"
  "timer_list (upd_trsync oid f s) = timer_list s" "last_insert (upd_trsync oid f s) = last_insert s"
  "nodes (upd_trsync oid f s) = nodes s" "move_free_list (upd_trsync oid f s) = move_free_list s"
  "trsyncs (upd_stepper i g s) = trsyncs s" "timer_list (upd_stepper i g s) = timer_list s"
  "last_insert (upd_stepper i g s) = last_insert s"
  by (simp_all add: upd_trsync_def upd_stepper_def)

fun sig_list :: "(u8 \<Rightarrow> stepper) \<Rightarrow> u8 option \<Rightarrow> u8 list \<Rightarrow> bool" where
  "sig_list h p [] \<longleftrightarrow> p = None"
| "sig_list h p (x # xs) \<longleftrightarrow> p = Some x \<and> sig_list h (st_sig_next (h x)) xs"

lemma sig_list_cong:
  "(\<And>x. x \<in> set xs \<Longrightarrow> st_sig_next (h x) = st_sig_next (h' x)) \<Longrightarrow> sig_list h p xs \<longleftrightarrow> sig_list h' p xs"
  by (induction xs arbitrary: p) auto

lemma stepper_only_trsyncs:
  "stepper_only s s' \<Longrightarrow> trsyncs s' = trsyncs s \<and> trsync_wake s' = trsync_wake s \<and> endstops s' = endstops s
     \<and> trsync_st.more s' = trsync_st.more s"
  unfolding stepper_only_def by (cases s; cases s') simp

text \<open>The move queues of the steppers \<open>A\<close> and the free list do not overlap.\<close>

definition motors :: "('a stepper_st_scheme) \<Rightarrow> nat list \<Rightarrow> (u8 \<Rightarrow> nat list) \<Rightarrow> u8 set \<Rightarrow> bool" where
  "motors s fl q A \<longleftrightarrow> free_list s fl
     \<and> (\<forall>i \<in> A. mq_list s (st_mq (steppers s i)) (q i) \<and> set (q i) \<inter> set fl = {})
     \<and> (\<forall>i \<in> A. \<forall>j \<in> A. i \<noteq> j \<longrightarrow> set (q i) \<inter> set (q j) = {})"

definition stopped :: "stepper \<Rightarrow> bool" where
  "stopped st \<longleftrightarrow> st_count st = 0 \<and> st_flags st AND SF_NEED_RESET \<noteq> 0 \<and> move_queue_empty (st_mq st)"

lemma need_reset_set: "(((f :: u8) AND x) OR SF_NEED_RESET) AND SF_NEED_RESET \<noteq> 0"
  using and_exp_eq_0_iff_not_bit [of "(f AND x) OR SF_NEED_RESET" 3]
  by (simp add: sf_consts bit_simps)

lemma motors_stop:
  assumes "motors s fl q A" and "oid \<in> A" and "tlist s ts"
  obtains s' where "stepper_stop oid s = Ret () s'" and "tlist s' (del_list (stepper_timer oid) ts)"
    and "motors s' (rev (q oid) @ fl) (q(oid := [])) A" and "stopped (steppers s' oid)"
    and "\<forall>i. i \<noteq> oid \<longrightarrow> steppers s' i = steppers s i" and "stepper_only s s'"
    and "st_sig_next (steppers s' oid) = st_sig_next (steppers s oid)"
    and "st_sig_func (steppers s' oid) = st_sig_func (steppers s oid)"
proof -
  have q: "mq_list s (st_mq (steppers s oid)) (q oid)" and f: "free_list s fl"
    and d: "set (q oid) \<inter> set fl = {}"
    using assms(1,2) by (auto simp: motors_def)
  obtain s' mh' where s': "stepper_stop oid s = Ret () s'" "tlist s' (del_list (stepper_timer oid) ts)"
    "free_list s' (rev (q oid) @ fl)" "\<forall>x. x \<notin> set (q oid) \<longrightarrow> nodes s' x = nodes s x"
    "steppers s' = (steppers s)(oid := (steppers s oid)\<lparr>st_next_step_time := 0,
           st_position := - stepper_get_position (steppers s oid), st_count := 0,
           st_flags := (st_flags (steppers s oid) AND (SF_INVERT_STEP OR SF_SINGLE_SCHED OR SF_OPTIMIZED_PATH)) OR SF_NEED_RESET,
           st_mq := mh'\<rparr>)"
    "move_queue_empty mh'"
    "pin_out s' = (let st = steppers s oid; po = (pin_out s)(st_dir_pin st := False) in
           if \<not> single st \<or> (HAVE_AVR_OPTIMIZATION s \<and> optimized st)
           then po(st_step_pin st := (st_flags st AND SF_INVERT_STEP \<noteq> 0)) else po)"
    "stepper_only s s'"
    by (rule stop_effect [OF assms(3) q f d])
  have other: "mq_list s' (st_mq (steppers s' i)) (q i)" if "i \<in> A" "i \<noteq> oid" for i
  proof (rule mq_list_frame)
    show "mq_list s (st_mq (steppers s' i)) (q i)"
      using that assms(1) s'(5) by (simp add: motors_def)
    show "mn_next (nodes s' x) = mn_next (nodes s x)" if "x \<in> set (q i)" for x
    proof -
      have "set (q i) \<inter> set (q oid) = {}"
        using \<open>i \<in> A\<close> \<open>i \<noteq> oid\<close> assms(1,2) by (simp add: motors_def)
      then have "x \<notin> set (q oid)" using that by blast
      then show ?thesis using s'(4) by simp
    qed
  qed
  have "mq_list s' (st_mq (steppers s' oid)) []"
    using s'(5,6) by (simp add: mq_list_def move_queue_empty_def)
  moreover have dj: "set (q i) \<inter> (set (q oid) \<union> set fl) = {}" if "i \<in> A" "i \<noteq> oid" for i
  proof -
    have "set (q i) \<inter> set (q oid) = {}" "set (q i) \<inter> set fl = {}"
      using that assms(1,2) by (simp_all add: motors_def)
    then show ?thesis by blast
  qed
  ultimately have "motors s' (rev (q oid) @ fl) (q(oid := [])) A"
    using other s'(3) assms(1) unfolding motors_def by (simp add: Un_commute)
  moreover have "stopped (steppers s' oid)" using s'(5,6) need_reset_set by (simp add: stopped_def)
  ultimately show ?thesis using that s'(1,2,5,8) by auto
qed

lemma del_list_subset: "set (del_list d ts) \<subseteq> insert DeletedT (set ts)"
  by (cases ts) (auto simp: del_list_def split: if_splits dest: notin_set_remove1)

text \<open>Running the signals stops every stepper on the list.\<close>

lemma run_signals_list:
  assumes "sig_list (steppers s) (ts_signals (trsyncs s oid)) xs" and "distinct xs" and "set xs \<subseteq> A"
    and "motors s fl q A" and "tlist s ts"
  shows "\<exists>s' fl' q' ts'. run_signals oid s = Some (Ret () s') \<and> motors s' fl' q' A \<and> tlist s' ts'
     \<and> set ts' \<subseteq> insert DeletedT (set ts)
     \<and> (\<forall>i \<in> set xs. stopped (steppers s' i) \<and> \<not> st_sig_func (steppers s' i) \<and> stepper_timer i \<notin> set ts')
     \<and> (\<forall>i. i \<notin> set xs \<longrightarrow> steppers s' i = steppers s i)
     \<and> trsyncs s' = (trsyncs s)(oid := (trsyncs s oid)\<lparr>ts_signals := None\<rparr>)
     \<and> trsync_st.more s' = trsync_st.more s"
  using assms
proof (induction xs arbitrary: s fl q ts)
  case Nil
  then have "run_signals oid s = Some (Ret () s)" by (subst run_signals.simps) simp
  moreover have "trsyncs s = (trsyncs s)(oid := (trsyncs s oid)\<lparr>ts_signals := None\<rparr>)"
    using Nil.prems(1) by (auto simp: fun_eq_iff)
  ultimately show ?case using Nil.prems by auto
next
  case (Cons x xs)
  define s1 where "s1 = upd_stepper x (\<lambda>st. st\<lparr>st_sig_next := None, st_sig_func := False\<rparr>)
      (upd_trsync oid (\<lambda>t. t\<lparr>ts_signals := st_sig_next (steppers s x)\<rparr>) s)"
  have "motors s1 fl q A" using Cons.prems(4)
    by (auto simp: motors_def s1_def free_list_def mq_list_def)
  moreover have "tlist s1 ts" using Cons.prems(5) tlist_frame [of s1 s ts] by (simp add: s1_def)
  moreover have "x \<in> A" using Cons.prems(3) by simp
  ultimately obtain s2 where s2: "stepper_stop x s1 = Ret () s2" "tlist s2 (del_list (stepper_timer x) ts)"
    "motors s2 (rev (q x) @ fl) (q(x := [])) A" "stopped (steppers s2 x)"
    "\<forall>i. i \<noteq> x \<longrightarrow> steppers s2 i = steppers s1 i" "stepper_only s1 s2"
    "st_sig_next (steppers s2 x) = st_sig_next (steppers s1 x)"
    "st_sig_func (steppers s2 x) = st_sig_func (steppers s1 x)"
    using motors_stop [of s1 fl q A x ts] by metis
  have ts2: "trsyncs s2 = trsyncs s1" "trsync_st.more s2 = trsync_st.more s1"
    using stepper_only_trsyncs [OF s2(6)] by simp_all
  have eq: "run_signals oid s = run_signals oid s2"
    using Cons.prems(1) s2(1) by (subst run_signals.simps) (simp add: s1_def)
  have sl: "sig_list (steppers s2) (ts_signals (trsyncs s2 oid)) xs"
  proof -
    have "sig_list (steppers s2) (st_sig_next (steppers s x)) xs
        \<longleftrightarrow> sig_list (steppers s) (st_sig_next (steppers s x)) xs"
      using Cons.prems(2) s2(5) by (intro sig_list_cong) (auto simp: s1_def)
    then show ?thesis using Cons.prems(1) ts2(1) by (simp add: s1_def)
  qed
  have "distinct xs" "set xs \<subseteq> A" using Cons.prems(2,3) by auto
  from Cons.IH [OF sl this s2(3,2)] obtain s' fl' q' ts' where ih: "run_signals oid s2 = Some (Ret () s')" "motors s' fl' q' A" "tlist s' ts'"
    "set ts' \<subseteq> insert DeletedT (set (del_list (stepper_timer x) ts))"
    "\<forall>i \<in> set xs. stopped (steppers s' i) \<and> \<not> st_sig_func (steppers s' i) \<and> stepper_timer i \<notin> set ts'"
    "\<forall>i. i \<notin> set xs \<longrightarrow> steppers s' i = steppers s2 i"
    "trsyncs s' = (trsyncs s2)(oid := (trsyncs s2 oid)\<lparr>ts_signals := None\<rparr>)"
    "trsync_st.more s' = trsync_st.more s2"
    by blast
  have "steppers s' x = steppers s2 x" using ih(6) Cons.prems(2) by simp
  then have "stopped (steppers s' x)" "\<not> st_sig_func (steppers s' x)"
    using s2(4,8) by (simp_all add: s1_def)
  moreover have "stepper_timer x \<notin> set ts'"
    using ih(4) del_list_not_in [OF Cons.prems(5) refl, of x 0] by auto
  moreover have "\<forall>i. i \<notin> set (x # xs) \<longrightarrow> steppers s' i = steppers s i"
    using ih(6) s2(5) by (simp add: s1_def)
  moreover have "set ts' \<subseteq> insert DeletedT (set ts)"
    using ih(4) del_list_subset [of "stepper_timer x" ts] by blast
  moreover have "trsyncs s' = (trsyncs s)(oid := (trsyncs s oid)\<lparr>ts_signals := None\<rparr>)"
    using ih(7) ts2(1) by (auto simp: s1_def fun_eq_iff)
  moreover have "trsync_st.more s' = trsync_st.more s"
    using ih(8) ts2(2) by (simp add: s1_def upd_stepper_def upd_trsync_def)
  ultimately show ?case
    unfolding eq using ih(1,2,3,5)
    by (intro exI [of _ s'] exI [of _ fl'] exI [of _ q'] exI [of _ ts']) simp
qed

section \<open>Samples of an end stop\<close>

lemma upd_endstop_simps [simp]:
  "endstops (upd_endstop oid f s) = (endstops s)(oid := f (endstops s oid))"
  "trsyncs (upd_endstop oid f s) = trsyncs s" "steppers (upd_endstop oid f s) = steppers s"
  "timers (upd_endstop oid f s) = timers s" "pin_pos (upd_endstop oid f s) = pin_pos s"
  "pin_src (upd_endstop oid f s) = pin_src s"
  by (simp_all add: upd_endstop_def)

lemma endstops_frame [simp]:
  "endstops (set_waketime t w s) = endstops s" "trsyncs (set_waketime t w s) = trsyncs s"
  "endstops (set_func t fn s) = endstops s" "trsyncs (set_func t fn s) = trsyncs s"
  "pin_pos (set_waketime t w s) = pin_pos s" "pin_src (set_waketime t w s) = pin_src s"
  by (simp_all add: set_waketime_def set_func_def)

fun over_run :: "nat \<Rightarrow> u8 \<Rightarrow> ('a trsync_st_scheme) \<Rightarrow> (('a trsync_st_scheme), unit) res" where
  "over_run 0 oid s = Ret () s"
| "over_run (Suc n) oid s = bindR (over_run n oid s) (\<lambda>_ s. bindR (endstop_oversample_event oid s) (\<lambda>_ s. Ret () s))"

lemma oversample_match:
  assumes "\<not> endstop_mismatch (pin_src s (es_pin (endstops s oid)) (pin_pos s)) (es_flags (endstops s oid))"
    and "es_trigger_count (endstops s oid) - 1 \<noteq> 0"
  shows "\<exists>s'. endstop_oversample_event oid s = Ret SF_RESCHEDULE s'
     \<and> endstops s' oid = (endstops s oid)\<lparr>es_trigger_count := es_trigger_count (endstops s oid) - 1\<rparr>
     \<and> waketime s' (endstop_timer oid) = waketime s (endstop_timer oid) + es_sample_time (endstops s oid)
     \<and> pin_pos s' = Suc (pin_pos s) \<and> pin_src s' = pin_src s \<and> trsyncs s' = trsyncs s \<and> steppers s' = steppers s"
  using assms by (simp add: endstop_oversample_event_def gpio_in_read_def Let_def)

lemma over_run_match:
  assumes "m < unat (es_trigger_count (endstops s oid))"
    and "\<forall>k < m. \<not> endstop_mismatch (pin_src s (es_pin (endstops s oid)) (pin_pos s + k)) (es_flags (endstops s oid))"
  shows "\<exists>s'. over_run m oid s = Ret () s'
     \<and> endstops s' oid = (endstops s oid)\<lparr>es_trigger_count := es_trigger_count (endstops s oid) - of_nat m\<rparr>
     \<and> waketime s' (endstop_timer oid) = waketime s (endstop_timer oid) + of_nat m * es_sample_time (endstops s oid)
     \<and> pin_pos s' = pin_pos s + m \<and> pin_src s' = pin_src s \<and> trsyncs s' = trsyncs s \<and> steppers s' = steppers s"
  using assms
proof (induction m)
  case (Suc m)
  let ?e = "endstops s oid"
  obtain s1 where s1: "over_run m oid s = Ret () s1"
    "endstops s1 oid = ?e\<lparr>es_trigger_count := es_trigger_count ?e - of_nat m\<rparr>"
    "waketime s1 (endstop_timer oid) = waketime s (endstop_timer oid) + of_nat m * es_sample_time ?e"
    "pin_pos s1 = pin_pos s + m" "pin_src s1 = pin_src s" "trsyncs s1 = trsyncs s" "steppers s1 = steppers s"
    using Suc by auto
  have "es_trigger_count ?e - of_nat m - 1 \<noteq> 0"
  proof
    assume "es_trigger_count ?e - of_nat m - 1 = 0"
    then have "es_trigger_count ?e = of_nat (Suc m)" by (simp add: algebra_simps)
    moreover have "unat (of_nat (Suc m) :: u8) = Suc m"
      using Suc.prems(1) unat_lt_pow [of "es_trigger_count ?e"] by (intro unat_of_nat_small) simp
    ultimately show False using Suc.prems(1) by simp
  qed
  moreover have "\<not> endstop_mismatch (pin_src s1 (es_pin (endstops s1 oid)) (pin_pos s1)) (es_flags (endstops s1 oid))"
    using Suc.prems(2) s1 by simp
  ultimately obtain s' where "endstop_oversample_event oid s1 = Ret SF_RESCHEDULE s'"
     "endstops s' oid = (endstops s1 oid)\<lparr>es_trigger_count := es_trigger_count (endstops s1 oid) - 1\<rparr>"
     "waketime s' (endstop_timer oid) = waketime s1 (endstop_timer oid) + es_sample_time (endstops s1 oid)"
     "pin_pos s' = Suc (pin_pos s1)" "pin_src s' = pin_src s1" "trsyncs s' = trsyncs s1" "steppers s' = steppers s1"
    using oversample_match [of s1 oid] s1(2) by auto
  with s1 show ?case by (intro exI [of _ s']) (simp add: algebra_simps)
qed simp

lemma do_trigger_stops:
  assumes "ts_flags (trsyncs s oid) AND TSF_CAN_TRIGGER \<noteq> 0"
    and "sig_list (steppers s) (ts_signals (trsyncs s oid)) xs" and "distinct xs" and "set xs \<subseteq> A"
    and "motors s fl q A" and "tlist s ts"
  shows "\<exists>s' ts'. trsync_do_trigger oid reason s = Ret () s' \<and> tlist s' ts'
     \<and> (\<forall>i \<in> set xs. stopped (steppers s' i) \<and> \<not> st_sig_func (steppers s' i) \<and> stepper_timer i \<notin> set ts')
     \<and> (\<forall>i. i \<notin> set xs \<longrightarrow> steppers s' i = steppers s i)
     \<and> ts_trigger_reason (trsyncs s' oid) = reason \<and> ts_signals (trsyncs s' oid) = None
     \<and> ts_flags (trsyncs s' oid) AND TSF_REPORT \<noteq> 0 \<and> trsync_wake s' = 1
     \<and> (\<forall>reason2. trsync_do_trigger oid reason2 s' = Ret () s') \<and> trsync_st.more s' = trsync_st.more s"
proof -
  let ?fl = "(ts_flags (trsyncs s oid) AND NOT TSF_CAN_TRIGGER) OR TSF_REPORT"
  define s1 where "s1 = upd_trsync oid (\<lambda>t. t\<lparr>ts_trigger_reason := reason, ts_flags := ?fl\<rparr>) s"
  have "sig_list (steppers s1) (ts_signals (trsyncs s1 oid)) xs" using assms(2) by (simp add: s1_def)
  moreover have "motors s1 fl q A" using assms(5) by (auto simp: motors_def s1_def free_list_def mq_list_def)
  moreover have "tlist s1 ts" using assms(6) tlist_frame [of s1 s ts] by (simp add: s1_def)
  ultimately obtain s2 fl' q' ts' where s2: "run_signals oid s1 = Some (Ret () s2)" "tlist s2 ts'"
    "\<forall>i \<in> set xs. stopped (steppers s2 i) \<and> \<not> st_sig_func (steppers s2 i) \<and> stepper_timer i \<notin> set ts'"
    "\<forall>i. i \<notin> set xs \<longrightarrow> steppers s2 i = steppers s1 i"
    "trsyncs s2 = (trsyncs s1)(oid := (trsyncs s1 oid)\<lparr>ts_signals := None\<rparr>)"
    "trsync_st.more s2 = trsync_st.more s1"
    using run_signals_list [of s1 oid xs A fl q ts] assms(3,4) by blast
  have fr: "trsyncs (wake_trsync s2) = trsyncs s2" "steppers (wake_trsync s2) = steppers s2"
    "trsync_wake (wake_trsync s2) = 1" "trsync_st.more (wake_trsync s2) = trsync_st.more s2"
    by (simp_all add: wake_trsync_def sched_wake_task_def sched_wake_tasks_def)
  have tl: "tlist (wake_trsync s2) ts'"
    using s2(2) tlist_frame [of "wake_trsync s2" s2 ts']
    by (simp add: wake_trsync_def sched_wake_task_def sched_wake_tasks_def)
  have do: "trsync_do_trigger oid reason s = Ret () (wake_trsync s2)"
    using assms(1) s2(1) by (simp add: trsync_do_trigger_def s1_def)
  have flags: "?fl AND TSF_CAN_TRIGGER = 0" "?fl AND TSF_REPORT \<noteq> 0"
  proof -
    show "?fl AND TSF_CAN_TRIGGER = 0"
      by (simp add: tsf_consts bit.conj_disj_distrib2 and.assoc)
    show "?fl AND TSF_REPORT \<noteq> 0"
      using and_exp_eq_0_iff_not_bit [of ?fl 2] by (simp add: tsf_consts bit_simps)
  qed
  have new: "trsyncs s2 oid = (trsyncs s oid)\<lparr>ts_trigger_reason := reason, ts_flags := ?fl, ts_signals := None\<rparr>"
    using s2(5) by (simp add: s1_def)
  have "trsync_do_trigger oid reason2 (wake_trsync s2) = Ret () (wake_trsync s2)" for reason2
    using flags(1) new fr by (simp add: trsync_do_trigger_def)
  with do tl s2(3,4,6) new fr flags show ?thesis
    by (intro exI [of _ "wake_trsync s2"] exI [of _ ts']) (simp add: s1_def upd_trsync_def)
qed

section \<open>Properties\<close>

text \<open>C13 (trigger_stops_steppers). A trigger that can fire stops every stepper registered with
  it, whatever their number, unregisters them and removes their timers, records its reason and
  schedules the report; a later trigger, whatever its reason, has no effect.\<close>

theorem trigger_stops_steppers:
  assumes "ts_flags (trsyncs s oid) AND TSF_CAN_TRIGGER \<noteq> 0"
    and "sig_list (steppers s) (ts_signals (trsyncs s oid)) xs" and "distinct xs" and "set xs \<subseteq> A"
    and "motors s fl q A" and "tlist s ts"
  shows "\<exists>s' ts'. trsync_do_trigger oid reason s = Ret () s' \<and> tlist s' ts'
     \<and> (\<forall>i \<in> set xs. stopped (steppers s' i) \<and> \<not> st_sig_func (steppers s' i) \<and> stepper_timer i \<notin> set ts')
     \<and> (\<forall>i. i \<notin> set xs \<longrightarrow> steppers s' i = steppers s i)
     \<and> ts_trigger_reason (trsyncs s' oid) = reason \<and> ts_signals (trsyncs s' oid) = None
     \<and> ts_flags (trsyncs s' oid) AND TSF_REPORT \<noteq> 0 \<and> trsync_wake s' = 1
     \<and> (\<forall>reason2. trsync_do_trigger oid reason2 s' = Ret () s')"
  using do_trigger_stops [OF assms] by blast

definition trsync_boot :: "stepper_st \<Rightarrow> trsync_st" where
  "trsync_boot b = stepper_st.extend b (trsync_st.fields (\<lambda>_. trsync_zero) 0 (\<lambda>_. endstop_zero))"

definition example_trsync :: "stepper \<Rightarrow> trsync \<Rightarrow> endstop \<Rightarrow> trsync_st" where
  "example_trsync st ts es = (trsync_boot (example_stepper st))\<lparr>trsyncs := (\<lambda>_. ts), endstops := (\<lambda>_. es)\<rparr>"

lemma example_trsync_simps [simp]:
  "steppers (example_trsync st ts es) i = st" "trsyncs (example_trsync st ts es) i = ts"
  "endstops (example_trsync st ts es) i = es"
  "tlist (example_trsync st ts es) [PeriodicT, SentinelT]" "free_list (example_trsync st ts es) []"
  "pin_src (example_trsync st ts es) p k = False" "pin_pos (example_trsync st ts es) = 0"
  by (simp_all add: tlist_def free_list_def example_trsync_def trsync_boot_def example_stepper_def stepper_boot_def
      basecmd_boot_def sched_boot_def timers_init_def timer_funcs_ok_def basecmd.defs sched.defs stepper_st.defs
      trsync_st.defs)

theorem trigger_stops_steppers_witness:
  "\<exists>s'. trsync_do_trigger 4 9 (example_trsync (stepper_zero\<lparr>st_count := 6, st_sig_func := True\<rparr>)
      (trsync_zero\<lparr>ts_flags := TSF_CAN_TRIGGER, ts_signals := Some 2\<rparr>) endstop_zero) = Ret () s'
    \<and> stopped (steppers s' 2) \<and> ts_trigger_reason (trsyncs s' 4) = 9"
proof -
  let ?s = "example_trsync (stepper_zero\<lparr>st_count := 6, st_sig_func := True\<rparr>)
      (trsync_zero\<lparr>ts_flags := TSF_CAN_TRIGGER, ts_signals := Some 2\<rparr>) endstop_zero"
  have "motors ?s [] (\<lambda>_. []) {2}" by (simp add: motors_def mq_list_def stepper_zero_def)
  moreover have "sig_list (steppers ?s) (ts_signals (trsyncs ?s 4)) [2]" by (simp add: stepper_zero_def)
  moreover have "ts_flags (trsyncs ?s 4) AND TSF_CAN_TRIGGER \<noteq> 0" by (simp add: tsf_consts)
  ultimately show ?thesis
    using trigger_stops_steppers [of ?s 4 "[2]" "{2}" "[]" "\<lambda>_. []" "[PeriodicT, SentinelT]" 9]
    by simp blast
qed

text \<open>C30 (endstop_needs_all_samples). An end stop fires only after as many matching samples in a
  row as configured, one sample time apart: after fewer matches nothing has been triggered, the
  next match triggers exactly if it is the last one required, and a sample that does not match
  starts over at the next regular check.\<close>

theorem endstop_needs_all_samples:
  assumes "m < unat (es_trigger_count (endstops s oid))" and "es_ts (endstops s oid) = Some ts"
    and "\<forall>k < m. \<not> endstop_mismatch (pin_src s (es_pin (endstops s oid)) (pin_pos s + k)) (es_flags (endstops s oid))"
  shows "\<exists>s'. over_run m oid s = Ret () s' \<and> trsyncs s' = trsyncs s \<and> steppers s' = steppers s
     \<and> waketime s' (endstop_timer oid) = waketime s (endstop_timer oid) + of_nat m * es_sample_time (endstops s oid)
     \<and> (let val = pin_src s (es_pin (endstops s oid)) (pin_pos s + m); s1 = snd (gpio_in_read (es_pin (endstops s oid)) s') in
        if endstop_mismatch val (es_flags (endstops s oid)) then
          \<exists>s2. endstop_oversample_event oid s' = Ret SF_RESCHEDULE s2 \<and> trsyncs s2 = trsyncs s
            \<and> es_trigger_count (endstops s2 oid) = es_sample_count (endstops s oid)
            \<and> waketime s2 (endstop_timer oid) = es_nextwake (endstops s oid)
            \<and> t_func (timers s2 (endstop_timer oid)) = Endstop_event
        else if m + 1 = unat (es_trigger_count (endstops s oid)) then
          endstop_oversample_event oid s'
            = bindR (trsync_do_trigger ts (es_trigger_reason (endstops s oid)) s1) (\<lambda>_ s. Ret SF_DONE s)
        else \<exists>s2. endstop_oversample_event oid s' = Ret SF_RESCHEDULE s2 \<and> trsyncs s2 = trsyncs s)"
proof -
  let ?e = "endstops s oid"
  obtain s' where s': "over_run m oid s = Ret () s'"
    "endstops s' oid = ?e\<lparr>es_trigger_count := es_trigger_count ?e - of_nat m\<rparr>"
    "waketime s' (endstop_timer oid) = waketime s (endstop_timer oid) + of_nat m * es_sample_time ?e"
    "pin_pos s' = pin_pos s + m" "pin_src s' = pin_src s" "trsyncs s' = trsyncs s" "steppers s' = steppers s"
    using over_run_match [OF assms(1,3)] by blast
  have um: "unat (of_nat (Suc m) :: u8) = Suc m"
    using assms(1) unat_lt_pow [of "es_trigger_count ?e"] by (intro unat_of_nat_small) simp
  have last: "es_trigger_count ?e - of_nat m - 1 = 0 \<longleftrightarrow> m + 1 = unat (es_trigger_count ?e)"
  proof
    assume "es_trigger_count ?e - of_nat m - 1 = 0"
    then have "es_trigger_count ?e = of_nat (Suc m)" by (simp add: algebra_simps)
    then show "m + 1 = unat (es_trigger_count ?e)" using um by simp
  next
    assume "m + 1 = unat (es_trigger_count ?e)"
    then have "unat (es_trigger_count ?e) = unat (of_nat (Suc m) :: u8)" using um by simp
    then have "es_trigger_count ?e = of_nat (Suc m)" by (rule unsigned_word_eqI)
    then show "es_trigger_count ?e - of_nat m - 1 = 0" by simp
  qed
  show ?thesis
    using s' assms(2) last
    by (intro exI [of _ s'])
      (auto simp: endstop_oversample_event_def gpio_in_read_def Let_def set_func_def set_waketime_def upd_endstop_def)
qed

theorem endstop_needs_all_samples_witness:
  "\<exists>s'. over_run 2 5 (example_trsync stepper_zero trsync_zero
      (endstop_zero\<lparr>es_trigger_count := 4, es_ts := Some 4, es_sample_time := 10\<rparr>)) = Ret () s'
    \<and> trsyncs s' = trsyncs (example_trsync stepper_zero trsync_zero
      (endstop_zero\<lparr>es_trigger_count := 4, es_ts := Some 4, es_sample_time := 10\<rparr>))"
  using endstop_needs_all_samples [of 2 "example_trsync stepper_zero trsync_zero
      (endstop_zero\<lparr>es_trigger_count := 4, es_ts := Some 4, es_sample_time := 10\<rparr>)" 5 4]
  by (auto simp: endstop_mismatch_def endstop_zero_def)

end
