(* ===== verification/Gpio.thy ===== *)
theory Gpio
  imports Trsync
begin

text \<open>
  Output pins: digital and software pulse width modulated outputs
  (\<^verbatim>\<open>src/src/gpiocmds.c\<close>) and hardware pulse width modulated outputs
  (\<^verbatim>\<open>src/src/pwmcmds.c\<close>). The hardware is the board's: the cycle time and the value a pin
  was last given are \<open>pwm_cycle\<close> and \<open>pwm_val\<close>, a 16 bit number. The
  timer of an object is \<open>ObjT oid 0\<close>.
\<close>

section \<open>State\<close>

record digital_out_s =
  do_on_duration :: u32
  do_off_duration :: u32
  do_end_time :: u32
  do_pin :: u32
  do_max_duration :: u32
  do_cycle_time :: u32
  do_mq :: move_queue_head
  do_flags :: u8

record pwm_out_s =
  po_pin :: u32
  po_max_duration :: u32
  po_default_value :: u16
  po_mq :: move_queue_head

record gpio_st = trsync_st +
  digital_outs :: "u8 \<Rightarrow> digital_out_s"
  pwm_outs :: "u8 \<Rightarrow> pwm_out_s"
  pwm_cycle :: "u32 \<Rightarrow> u32"
  pwm_val :: "u32 \<Rightarrow> u16"

definition DF_ON :: u8 where "DF_ON = 1"
definition DF_TOGGLING :: u8 where "DF_TOGGLING = 2"
definition DF_CHECK_END :: u8 where "DF_CHECK_END = 4"
definition DF_DEFAULT_ON :: u8 where "DF_DEFAULT_ON = 16"

lemmas df_consts = DF_ON_def DF_TOGGLING_def DF_CHECK_END_def DF_DEFAULT_ON_def

abbreviation gpio_timer :: "u8 \<Rightarrow> timer_id" where "gpio_timer oid \<equiv> ObjT oid 0"

definition upd_digital :: "u8 \<Rightarrow> (digital_out_s \<Rightarrow> digital_out_s) \<Rightarrow> ('a gpio_st_scheme) \<Rightarrow> ('a gpio_st_scheme)" where
  "upd_digital oid f s = s\<lparr>digital_outs := (digital_outs s)(oid := f (digital_outs s oid))\<rparr>"

definition upd_pwm :: "u8 \<Rightarrow> (pwm_out_s \<Rightarrow> pwm_out_s) \<Rightarrow> ('a gpio_st_scheme) \<Rightarrow> ('a gpio_st_scheme)" where
  "upd_pwm oid f s = s\<lparr>pwm_outs := (pwm_outs s)(oid := f (pwm_outs s oid))\<rparr>"

definition empty_mq :: move_queue_head where
  "empty_mq = \<lparr>mq_first = None, mq_last = None\<rparr>"

definition digital_zero :: digital_out_s where
  "digital_zero = \<lparr>do_on_duration = 0, do_off_duration = 0, do_end_time = 0, do_pin = 0,
     do_max_duration = 0, do_cycle_time = 0, do_mq = empty_mq, do_flags = 0\<rparr>"

definition pwm_zero :: pwm_out_s where
  "pwm_zero = \<lparr>po_pin = 0, po_max_duration = 0, po_default_value = 0, po_mq = empty_mq\<rparr>"

section \<open>Digital outputs\<close>

definition digital_toggle_event :: "u8 \<Rightarrow> ('a gpio_st_scheme) \<Rightarrow> (('a gpio_st_scheme), timer_res) res" where
  "digital_toggle_event oid s =
     (let d = digital_outs s oid;
          s = gpio_out_toggle_noirq (do_pin d) s;
          flags = do_flags d XOR DF_ON;
          s = upd_digital oid (\<lambda>d. d\<lparr>do_flags := flags\<rparr>) s;
          waketime = waketime s (gpio_timer oid)
                     + (if flags AND DF_ON \<noteq> 0 then do_on_duration d else do_off_duration d)
      in if flags AND DF_CHECK_END \<noteq> 0 \<and> \<not> timer_is_before waketime (do_end_time d)
         then Ret SF_RESCHEDULE (set_waketime (gpio_timer oid) (do_end_time d)
                (set_func (gpio_timer oid) Digital_load_event s))
         else Ret SF_RESCHEDULE (set_waketime (gpio_timer oid) waketime s))"

text \<open>The end time and the flags of a new setting, without the queue.\<close>

definition load_end :: "digital_out_s \<Rightarrow> u32 \<Rightarrow> u32 \<Rightarrow> u32 \<times> u8" where
  "load_end d now on_duration =
     (let flags = (if on_duration \<noteq> 0 then DF_ON else 0) in
      if flags = 0 \<or> do_cycle_time d \<le> on_duration then
        (if (flags = 0) \<noteq> (do_flags d AND DF_DEFAULT_ON = 0) \<and> do_max_duration d \<noteq> 0
         then (now + do_max_duration d, flags OR DF_CHECK_END) else (0, flags))
      else let flags = flags OR DF_TOGGLING in
        (if do_max_duration d \<noteq> 0 then (now + do_max_duration d, flags OR DF_CHECK_END) else (0, flags)))"

text \<open>The queue's next change ends the setting; it must not be later than allowed.\<close>

definition load_next_wake ::
  "move_queue_head \<Rightarrow> u32 \<times> u8 \<Rightarrow> ('a gpio_st_scheme) \<Rightarrow> (('a gpio_st_scheme), u32 \<times> u8) res" where
  "load_next_wake mq ef s =
     (case ef of (end_time, flags) \<Rightarrow>
      if move_queue_empty mq then Ret (end_time, flags) s
      else case move_queue_first mq of None \<Rightarrow> Fault
        | Some nn \<Rightarrow> (case mn_data (nodes s nn) of
            M_digital m \<Rightarrow>
              if flags AND DF_CHECK_END \<noteq> 0 \<and> timer_is_before end_time (dm_waketime m)
              then Shutdown ''Scheduled digital out event will exceed max_duration'' s
              else Ret (dm_waketime m, flags OR DF_CHECK_END) s
          | _ \<Rightarrow> Fault))"

text \<open>Store the setting and schedule the next event.\<close>

definition load_schedule ::
  "u8 \<Rightarrow> u32 \<Rightarrow> u32 \<Rightarrow> u32 \<times> u8 \<Rightarrow> ('a gpio_st_scheme) \<Rightarrow> (('a gpio_st_scheme), timer_res) res" where
  "load_schedule oid now on_duration ef s =
     (case ef of (end_time, flags) \<Rightarrow>
      let s = upd_digital oid (\<lambda>d. d\<lparr>do_end_time := end_time,
                 do_flags := flags OR (do_flags d AND DF_DEFAULT_ON)\<rparr>) s
      in if flags AND DF_TOGGLING = 0 then
           if flags AND DF_CHECK_END = 0 then Ret SF_DONE s
           else Ret SF_RESCHEDULE (set_waketime (gpio_timer oid) end_time s)
         else let waketime = now + on_duration in
           if flags AND DF_CHECK_END \<noteq> 0 \<and> \<not> timer_is_before waketime end_time
           then Ret SF_RESCHEDULE (set_waketime (gpio_timer oid) end_time s)
           else
             let s = set_func (gpio_timer oid) Digital_toggle_event s;
                 s = set_waketime (gpio_timer oid) waketime s
             in Ret SF_RESCHEDULE (upd_digital oid (\<lambda>d. d\<lparr>do_on_duration := on_duration,
                  do_off_duration := do_cycle_time d - on_duration\<rparr>) s))"

definition digital_load_event :: "u8 \<Rightarrow> ('a gpio_st_scheme) \<Rightarrow> (('a gpio_st_scheme), timer_res) res" where
  "digital_load_event oid s =
     (let d = digital_outs s oid in
      if move_queue_empty (do_mq d) then Shutdown ''Missed scheduling of next digital out event'' s
      else bindR (move_queue_pop (do_mq d) s) (\<lambda>(mn, mq) s.
        case mn_data (nodes s mn) of
          M_digital m \<Rightarrow>
            let s = upd_digital oid (\<lambda>d. d\<lparr>do_mq := mq\<rparr>) s;
                on_duration = dm_on_duration m;
                s = gpio_out_write (do_pin d) (on_duration \<noteq> 0) s;
                s = move_free mn s;
                now = waketime s (gpio_timer oid)
            in bindR (load_next_wake mq (load_end d now on_duration) s) (load_schedule oid now on_duration)
        | _ \<Rightarrow> Fault))"

definition command_config_digital_out ::
  "u32 \<Rightarrow> u32 \<Rightarrow> u32 \<Rightarrow> u32 \<Rightarrow> u32 \<Rightarrow> ('a gpio_st_scheme) \<Rightarrow> (('a gpio_st_scheme), unit) res" where
  "command_config_digital_out a0 pin val default_value max_duration s =
     (let oid = (ucast a0 :: u8) in
      bindR (gpio_out_setup pin (val \<noteq> 0) s) (\<lambda>_ s.
      bindR (oid_alloc oid Config_digital_out s) (\<lambda>_ s.
      let s = s\<lparr>timers := (timers s)(gpio_timer oid := timer_zero)\<rparr>;
          s = upd_digital oid (\<lambda>_. digital_zero\<lparr>do_pin := pin,
                do_flags := (if val \<noteq> 0 then DF_ON else 0) OR (if default_value \<noteq> 0 then DF_DEFAULT_ON else 0),
                do_max_duration := max_duration\<rparr>) s
      in bindR (move_queue_setup (sizeof_move s Config_digital_out) s) (\<lambda>mq s.
           Ret () (upd_digital oid (\<lambda>d. d\<lparr>do_mq := mq\<rparr>) s)))))"

definition digital_oid_lookup :: "u32 \<Rightarrow> ('a gpio_st_scheme) \<Rightarrow> (('a gpio_st_scheme), u8) res" where
  "digital_oid_lookup a0 s =
     bindR (oid_lookup (ucast a0) Config_digital_out s) (\<lambda>p s.
       case p of None \<Rightarrow> Fault | Some _ \<Rightarrow> Ret (ucast a0) s)"

definition command_set_digital_out_pwm_cycle ::
  "u32 \<Rightarrow> u32 \<Rightarrow> ('a gpio_st_scheme) \<Rightarrow> (('a gpio_st_scheme), unit) res" where
  "command_set_digital_out_pwm_cycle a0 cycle_ticks s =
     bindR (digital_oid_lookup a0 s) (\<lambda>oid s.
       if \<not> move_queue_empty (do_mq (digital_outs s oid))
       then Shutdown ''Can not set soft pwm cycle ticks while updates pending'' s
       else Ret () (upd_digital oid (\<lambda>d. d\<lparr>do_cycle_time := cycle_ticks\<rparr>) s))"

definition command_queue_digital_out ::
  "u32 \<Rightarrow> u32 \<Rightarrow> u32 \<Rightarrow> ('a gpio_st_scheme) \<Rightarrow> (('a gpio_st_scheme), unit) res" where
  "command_queue_digital_out a0 time on_ticks s =
     bindR (digital_oid_lookup a0 s) (\<lambda>oid s.
     bindR (move_alloc s) (\<lambda>mn s.
     let s = set_node_data mn (M_digital \<lparr>dm_waketime = time, dm_on_duration = on_ticks\<rparr>) s in
     bindR (move_queue_push mn (do_mq (digital_outs s oid)) s) (\<lambda>(first_on_queue, mq) s.
     let s = upd_digital oid (\<lambda>d. d\<lparr>do_mq := mq\<rparr>) s in
     if \<not> first_on_queue then Ret () s
     else
       let d = digital_outs s oid; flags = do_flags d in
       if flags AND DF_CHECK_END \<noteq> 0 \<and> timer_is_before (do_end_time d) time
       then Shutdown ''Scheduled digital out event will exceed max_duration'' s
       else
         let s = upd_digital oid (\<lambda>d. d\<lparr>do_end_time := time, do_flags := flags OR DF_CHECK_END\<rparr>) s
         in if flags AND DF_TOGGLING \<noteq> 0 \<and> timer_is_before (waketime s (gpio_timer oid)) time then Ret () s
            else
              bindR (sched_del_timer (gpio_timer oid) s) (\<lambda>_ s.
                let s = set_waketime (gpio_timer oid) time s;
                    s = set_func (gpio_timer oid) Digital_load_event s
                in sched_add_timer (gpio_timer oid) s))))"

definition command_update_digital_out ::
  "u32 \<Rightarrow> u32 \<Rightarrow> ('a gpio_st_scheme) \<Rightarrow> (('a gpio_st_scheme), unit) res" where
  "command_update_digital_out a0 a1 s =
     bindR (digital_oid_lookup a0 s) (\<lambda>oid s.
     bindR (sched_del_timer (gpio_timer oid) s) (\<lambda>_ s.
     let d = digital_outs s oid in
     if \<not> move_queue_empty (do_mq d) then Shutdown ''update_digital_out not valid with active queue'' s
     else
       let flags = do_flags d;
           on_flag = (if (ucast a1 :: u8) \<noteq> 0 then DF_ON else 0);
           s = gpio_out_write (do_pin d) (on_flag \<noteq> 0) s
       in if (on_flag = 0) \<noteq> (flags AND DF_DEFAULT_ON = 0) \<and> do_max_duration d \<noteq> 0 then
            let (now, s) = timer_read_time s;
                s = upd_digital oid (\<lambda>d. d\<lparr>do_end_time := now + do_max_duration d\<rparr>) s;
                s = set_waketime (gpio_timer oid) (now + do_max_duration d) s;
                s = set_func (gpio_timer oid) Digital_load_event s;
                s = upd_digital oid (\<lambda>d. d\<lparr>do_flags := (flags AND DF_DEFAULT_ON) OR on_flag OR DF_CHECK_END\<rparr>) s
            in sched_add_timer (gpio_timer oid) s
          else Ret () (upd_digital oid (\<lambda>d. d\<lparr>do_flags := (flags AND DF_DEFAULT_ON) OR on_flag\<rparr>) s)))"

definition digital_shutdown_oid :: "u8 \<Rightarrow> ('a gpio_st_scheme) \<Rightarrow> ('a gpio_st_scheme)" where
  "digital_shutdown_oid oid s =
     (let d = digital_outs s oid;
          s = gpio_out_write (do_pin d) (do_flags d AND DF_DEFAULT_ON \<noteq> 0) s
      in upd_digital oid (\<lambda>d. d\<lparr>do_flags := (if do_flags d AND DF_DEFAULT_ON \<noteq> 0 then DF_ON OR DF_DEFAULT_ON else 0),
            do_mq := move_queue_clear (do_mq d)\<rparr>) s)"

definition digital_out_shutdown :: "('a gpio_st_scheme) \<Rightarrow> ('a gpio_st_scheme)" where
  "digital_out_shutdown s = fold digital_shutdown_oid (foreach_oid Config_digital_out s) s"

definition command_set_digital_out :: "u32 \<Rightarrow> u32 \<Rightarrow> ('a gpio_st_scheme) \<Rightarrow> (('a gpio_st_scheme), unit) res" where
  "command_set_digital_out pin val s = gpio_out_setup pin (val \<noteq> 0) s"

section \<open>Hardware pulse width modulation\<close>

definition gpio_pwm_write :: "u32 \<Rightarrow> u16 \<Rightarrow> ('a gpio_st_scheme) \<Rightarrow> ('a gpio_st_scheme)" where
  "gpio_pwm_write pin val s = s\<lparr>pwm_val := (pwm_val s)(pin := val)\<rparr>"

definition gpio_pwm_setup :: "u32 \<Rightarrow> u32 \<Rightarrow> u16 \<Rightarrow> ('a gpio_st_scheme) \<Rightarrow> (('a gpio_st_scheme), unit) res" where
  "gpio_pwm_setup pin cycle_time val s =
     (if pin_ok s pin
      then Ret () (gpio_pwm_write pin val (s\<lparr>pwm_cycle := (pwm_cycle s)(pin := cycle_time)\<rparr>))
      else Shutdown ''Not a valid PWM pin'' s)"

definition pwm_end_event :: "u8 \<Rightarrow> ('a gpio_st_scheme) \<Rightarrow> (('a gpio_st_scheme), timer_res) res" where
  "pwm_end_event oid s = Shutdown ''Missed scheduling of next hard pwm event'' s"

definition pwm_event :: "u8 \<Rightarrow> ('a gpio_st_scheme) \<Rightarrow> (('a gpio_st_scheme), timer_res) res" where
  "pwm_event oid s =
     (let p = pwm_outs s oid in
      bindR (move_queue_pop (po_mq p) s) (\<lambda>(mn, mq) s.
        case mn_data (nodes s mn) of
          M_pwm m \<Rightarrow>
            let s = upd_pwm oid (\<lambda>p. p\<lparr>po_mq := mq\<rparr>) s;
                val = pm_value m;
                s = gpio_pwm_write (po_pin p) val s;
                s = move_free mn s
            in if move_queue_empty mq then
                 if val = po_default_value p \<or> po_max_duration p = 0 then Ret SF_DONE s
                 else
                   let s = set_waketime (gpio_timer oid) (waketime s (gpio_timer oid) + po_max_duration p) s
                   in Ret SF_RESCHEDULE (set_func (gpio_timer oid) Pwm_end_event s)
               else case move_queue_first mq of None \<Rightarrow> Fault
                 | Some nn \<Rightarrow> (case mn_data (nodes s nn) of
                     M_pwm m' \<Rightarrow>
                       if val \<noteq> po_default_value p \<and> po_max_duration p \<noteq> 0
                          \<and> timer_is_before (waketime s (gpio_timer oid) + po_max_duration p) (pm_waketime m')
                       then Shutdown ''Scheduled pwm event will exceed max_duration'' s
                       else Ret SF_RESCHEDULE (set_waketime (gpio_timer oid) (pm_waketime m') s)
                   | _ \<Rightarrow> Fault)
        | _ \<Rightarrow> Fault))"

definition command_config_pwm_out ::
  "u32 \<Rightarrow> u32 \<Rightarrow> u32 \<Rightarrow> u32 \<Rightarrow> u32 \<Rightarrow> u32 \<Rightarrow> ('a gpio_st_scheme) \<Rightarrow> (('a gpio_st_scheme), unit) res" where
  "command_config_pwm_out a0 pin cycle_ticks val default_value max_duration s =
     (let oid = (ucast a0 :: u8) in
      bindR (gpio_pwm_setup pin cycle_ticks (ucast val) s) (\<lambda>_ s.
      bindR (oid_alloc oid Config_pwm_out s) (\<lambda>_ s.
      let s = s\<lparr>timers := (timers s)(gpio_timer oid := timer_zero)\<rparr>;
          s = upd_pwm oid (\<lambda>_. pwm_zero\<lparr>po_pin := pin, po_default_value := ucast default_value,
                po_max_duration := max_duration\<rparr>) s;
          s = set_func (gpio_timer oid) Pwm_event s
      in bindR (move_queue_setup (sizeof_move s Config_pwm_out) s) (\<lambda>mq s.
           Ret () (upd_pwm oid (\<lambda>p. p\<lparr>po_mq := mq\<rparr>) s)))))"

definition pwm_oid_lookup :: "u32 \<Rightarrow> ('a gpio_st_scheme) \<Rightarrow> (('a gpio_st_scheme), u8) res" where
  "pwm_oid_lookup a0 s =
     bindR (oid_lookup (ucast a0) Config_pwm_out s) (\<lambda>p s.
       case p of None \<Rightarrow> Fault | Some _ \<Rightarrow> Ret (ucast a0) s)"

definition command_queue_pwm_out ::
  "u32 \<Rightarrow> u32 \<Rightarrow> u32 \<Rightarrow> ('a gpio_st_scheme) \<Rightarrow> (('a gpio_st_scheme), unit) res" where
  "command_queue_pwm_out a0 clock val s =
     bindR (pwm_oid_lookup a0 s) (\<lambda>oid s.
     bindR (move_alloc s) (\<lambda>mn s.
     let s = set_node_data mn (M_pwm \<lparr>pm_waketime = clock, pm_value = ucast val\<rparr>) s in
     bindR (move_queue_push mn (po_mq (pwm_outs s oid)) s) (\<lambda>(need_add_timer, mq) s.
     let s = upd_pwm oid (\<lambda>p. p\<lparr>po_mq := mq\<rparr>) s in
     if \<not> need_add_timer then Ret () s
     else
       bindR (sched_del_timer (gpio_timer oid) s) (\<lambda>_ s.
         if t_func (timers s (gpio_timer oid)) = Pwm_end_event
            \<and> timer_is_before (waketime s (gpio_timer oid)) clock
         then Shutdown ''Scheduled pwm event will exceed max_duration'' s
         else
           let s = set_func (gpio_timer oid) Pwm_event s;
               s = set_waketime (gpio_timer oid) clock s
           in sched_add_timer (gpio_timer oid) s))))"

definition pwm_shutdown_oid :: "u8 \<Rightarrow> ('a gpio_st_scheme) \<Rightarrow> ('a gpio_st_scheme)" where
  "pwm_shutdown_oid oid s =
     (let p = pwm_outs s oid;
          s = gpio_pwm_write (po_pin p) (po_default_value p) s;
          s = set_func (gpio_timer oid) Pwm_event s
      in upd_pwm oid (\<lambda>p. p\<lparr>po_mq := move_queue_clear (po_mq p)\<rparr>) s)"

definition pwm_shutdown :: "('a gpio_st_scheme) \<Rightarrow> ('a gpio_st_scheme)" where
  "pwm_shutdown s = fold pwm_shutdown_oid (foreach_oid Config_pwm_out s) s"

definition command_set_pwm_out ::
  "u32 \<Rightarrow> u32 \<Rightarrow> u32 \<Rightarrow> ('a gpio_st_scheme) \<Rightarrow> (('a gpio_st_scheme), unit) res" where
  "command_set_pwm_out pin cycle_ticks val s = gpio_pwm_setup pin cycle_ticks (ucast val) s"

section \<open>The maximum duration\<close>

text \<open>\<open>active\<close>: the output toggles or is steady at the value that is not its default.
  \<open>armed\<close>: an end time is set, and the output's next event is either the load at the end time
  or a toggle before it.\<close>

definition active :: "digital_out_s \<Rightarrow> bool" where
  "active d \<longleftrightarrow> do_flags d AND DF_TOGGLING \<noteq> 0
     \<or> (do_flags d AND DF_ON = 0) \<noteq> (do_flags d AND DF_DEFAULT_ON = 0)"

definition armed :: "u8 \<Rightarrow> ('a gpio_st_scheme) \<Rightarrow> bool" where
  "armed oid s \<longleftrightarrow>
     (let d = digital_outs s oid; t = timers s (gpio_timer oid) in
      do_flags d AND DF_CHECK_END \<noteq> 0 \<and>
      (t_func t = Digital_load_event \<and> t_waketime t = do_end_time d
       \<or> t_func t = Digital_toggle_event \<and> timer_is_before (t_waketime t) (do_end_time d)))"

fun run_toggles :: "nat \<Rightarrow> u8 \<Rightarrow> ('a gpio_st_scheme) \<Rightarrow> ('a gpio_st_scheme)" where
  "run_toggles 0 oid s = s"
| "run_toggles (Suc n) oid s =
     (if t_func (timers s (gpio_timer oid)) = Digital_toggle_event
      then (case digital_toggle_event oid s of Ret _ s' \<Rightarrow> run_toggles n oid s' | _ \<Rightarrow> s) else s)"

lemma gpio_upd_simps [simp]:
  "timers (upd_digital oid f s) = timers s"
  "digital_outs (upd_digital oid f s) i = (if i = oid then f (digital_outs s oid) else digital_outs s i)"
  "digital_outs (set_func t fn s) = digital_outs s" "digital_outs (set_waketime t w s) = digital_outs s"
  "digital_outs (gpio_out_write p v s) = digital_outs s" "timers (gpio_out_write p v s) = timers s"
  "digital_outs (gpio_out_toggle_noirq p s) = digital_outs s" "timers (gpio_out_toggle_noirq p s) = timers s"
  "digital_outs (move_free m s) = digital_outs s" "timers (move_free m s) = timers s"
  "timers (set_func t fn s) x = (if x = t then (timers s t)\<lparr>t_func := fn\<rparr> else timers s x)"
  "timers (set_waketime t w s) x = (if x = t then (timers s t)\<lparr>t_waketime := w\<rparr> else timers s x)"
  by (simp_all add: upd_digital_def set_func_def set_waketime_def gpio_out_write_def
      gpio_out_toggle_noirq_def move_free_def set_node_next_def)

lemma xor_on_keeps [simp]: "(f XOR DF_ON) AND DF_CHECK_END = f AND (DF_CHECK_END :: u8)"
proof -
  have "(f XOR 1) AND (4 :: u8) = (f AND 4) XOR (1 AND 4)" by (rule bit.conj_xor_distrib2)
  then show ?thesis by (simp add: df_consts)
qed

lemma toggle_armed:
  assumes "armed oid s" and "t_func (timers s (gpio_timer oid)) = Digital_toggle_event"
  shows "\<exists>s'. digital_toggle_event oid s = Ret SF_RESCHEDULE s' \<and> armed oid s'
    \<and> do_end_time (digital_outs s' oid) = do_end_time (digital_outs s oid)"
  using assms by (simp add: digital_toggle_event_def armed_def Let_def)

lemma run_toggles_armed:
  "armed oid s \<Longrightarrow> armed oid (run_toggles n oid s)
     \<and> do_end_time (digital_outs (run_toggles n oid s) oid) = do_end_time (digital_outs s oid)"
proof (induction n arbitrary: s)
  case (Suc n)
  show ?case
  proof (cases "t_func (timers s (gpio_timer oid)) = Digital_toggle_event")
    case True
    from toggle_armed [OF Suc.prems this] obtain s' where
      "digital_toggle_event oid s = Ret SF_RESCHEDULE s'" "armed oid s'"
      "do_end_time (digital_outs s' oid) = do_end_time (digital_outs s oid)" by blast
    with Suc.IH [of s'] True show ?thesis by simp
  qed (use Suc.prems in simp)
qed simp

lemma default_bit: "f AND DF_DEFAULT_ON = 0 \<or> f AND DF_DEFAULT_ON = (16 :: u8)"
proof -
  have b: "bit (2 ^ 4 :: u8) n \<longleftrightarrow> n = 4" for n
    by (auto simp only: bit_exp_iff possible_bit_word) simp
  have "f AND 2 ^ 4 = (if bit f 4 then 2 ^ 4 else (0 :: u8))"
    by (rule bit_eqI) (simp only: bit_and_iff b bit_0_eq bot_apply bot_bool_def split: if_split, blast)
  then show ?thesis by (auto simp: df_consts split: if_splits)
qed

text \<open>The three kinds of setting: always off, always on, toggling.\<close>

lemma load_end_off:
  "load_end d now 0 = (if do_flags d AND DF_DEFAULT_ON \<noteq> 0 \<and> do_max_duration d \<noteq> 0
                       then (now + do_max_duration d, 4) else (0, 0))"
  by (simp add: load_end_def Let_def df_consts)

lemma load_end_on:
  "on \<noteq> 0 \<Longrightarrow> do_cycle_time d \<le> on \<Longrightarrow>
   load_end d now on = (if do_flags d AND DF_DEFAULT_ON = 0 \<and> do_max_duration d \<noteq> 0
                        then (now + do_max_duration d, 5) else (0, 1))"
  by (simp add: load_end_def Let_def df_consts)

lemma load_end_toggling:
  "on \<noteq> 0 \<Longrightarrow> \<not> do_cycle_time d \<le> on \<Longrightarrow>
   load_end d now on = (if do_max_duration d \<noteq> 0 then (now + do_max_duration d, 7) else (0, 3))"
  by (simp add: load_end_def Let_def df_consts)

lemma load_end_flags:
  assumes "load_end d now on = (e, f)"
  shows "f \<in> {0, 1, 3, 4, 5, 7}"
  using assms load_end_off [of d now] load_end_on [of on d now] load_end_toggling [of on d now]
  by (cases "on = 0"; cases "do_cycle_time d \<le> on") (auto split: if_splits)

lemma load_end_active:
  assumes "load_end d now on = (e, f)" and "do_max_duration d \<noteq> 0"
    and "f AND DF_TOGGLING \<noteq> 0 \<or> (f AND DF_ON = 0) \<noteq> (do_flags d AND DF_DEFAULT_ON = 0)"
  shows "f AND DF_CHECK_END \<noteq> 0 \<and> e = now + do_max_duration d"
proof -
  consider "on = 0" | "on \<noteq> 0" "do_cycle_time d \<le> on" | "on \<noteq> 0" "\<not> do_cycle_time d \<le> on" by blast
  then show ?thesis
  proof cases
    case 1 with assms show ?thesis
      by (cases "do_flags d AND DF_DEFAULT_ON = 0") (simp_all add: load_end_off df_consts)
  next
    case 2 with assms show ?thesis
      by (cases "do_flags d AND DF_DEFAULT_ON = 0") (simp_all add: load_end_on df_consts)
  next
    case 3 with assms show ?thesis by (simp add: load_end_toggling df_consts)
  qed
qed

lemma load_next_wake_Ret:
  assumes "load_next_wake mq (e, f) s = Ret (e', f') s'"
  shows "s' = s" and "f' = f \<and> e' = e \<or> f' = f OR DF_CHECK_END \<and>
    (f AND DF_CHECK_END \<noteq> 0 \<longrightarrow> \<not> timer_is_before e e')"
  using assms unfolding load_next_wake_def
  by (auto split: if_splits option.splits move_data.splits)

lemma load_event_armed:
  assumes func: "t_func (timers s (gpio_timer oid)) = Digital_load_event"
    and load: "digital_load_event oid s = Ret r s'"
    and max: "do_max_duration (digital_outs s oid) \<noteq> 0"
    and act: "active (digital_outs s' oid)"
  shows "r = SF_RESCHEDULE \<and> armed oid s' \<and>
    \<not> timer_is_before (waketime s (gpio_timer oid) + do_max_duration (digital_outs s oid))
        (do_end_time (digital_outs s' oid))"
proof -
  define d now where "d = digital_outs s oid" and "now = waketime s (gpio_timer oid)"
  from load obtain mn m where node: "mq_first (do_mq d) = Some mn" "mn_data (nodes s mn) = M_digital m"
    by (auto simp: digital_load_event_def Let_def bindR_Ret_iff move_queue_pop_def d_def
        split: if_splits option.splits move_data.splits)
  define mq where "mq = (do_mq d)\<lparr>mq_first := mn_next (nodes s mn)\<rparr>"
  define s1 where "s1 = move_free mn (gpio_out_write (do_pin d) (dm_on_duration m \<noteq> 0)
               (upd_digital oid (\<lambda>d. d\<lparr>do_mq := mq\<rparr>) s))"
  have "digital_load_event oid s = bindR (load_next_wake mq (load_end d now (dm_on_duration m)) s1)
          (load_schedule oid now (dm_on_duration m))"
    using node by (simp add: digital_load_event_def Let_def move_queue_pop_def move_queue_empty_def
        d_def now_def s1_def mq_def)
  with load obtain e f s2 where
    next_wake: "load_next_wake mq (load_end d now (dm_on_duration m)) s1 = Ret (e, f) s2"
    and sch: "load_schedule oid now (dm_on_duration m) (e, f) s2 = Ret r s'"
    by (auto simp: bindR_Ret_iff)
  obtain e0 f0 where le: "load_end d now (dm_on_duration m) = (e0, f0)" by fastforce
  note nw = load_next_wake_Ret [OF next_wake [unfolded le]]
  have s2: "do_flags (digital_outs s2 oid) = do_flags d" "timers s2 = timers s"
    by (simp_all add: nw(1) s1_def d_def)
  have f: "f \<in> {0, 1, 3, 4, 5, 7}" "f = f0 \<or> f = f0 OR 4"
    using load_end_flags [OF le] nw(2) by (auto simp: df_consts)
  have flags': "do_flags (digital_outs s' oid) = f OR (do_flags d AND DF_DEFAULT_ON)"
    and e': "do_end_time (digital_outs s' oid) = e"
    using sch by (auto simp: load_schedule_def Let_def s2 split: if_splits)
  have "f0 AND DF_TOGGLING \<noteq> 0 \<or> (f0 AND DF_ON = 0) \<noteq> (do_flags d AND DF_DEFAULT_ON = 0)"
    using act load_end_flags [OF le] f(2) default_bit [of "do_flags d"]
    unfolding active_def flags' by (auto simp: df_consts)
  from load_end_active [OF le max [folded d_def] this]
  have ends: "f0 AND DF_CHECK_END \<noteq> 0" "e0 = now + do_max_duration d" by simp_all
  have "f AND DF_CHECK_END \<noteq> 0" "\<not> timer_is_before (now + do_max_duration d) e"
    using nw(2) ends by (auto simp: df_consts and.assoc bit.conj_disj_distrib2)
  moreover have "(f OR (do_flags d AND DF_DEFAULT_ON)) AND DF_CHECK_END = f AND DF_CHECK_END"
    using default_bit [of "do_flags d"] by (auto simp: df_consts bit.conj_disj_distrib2)
  ultimately show ?thesis
    using sch func unfolding armed_def e' flags'
    by (auto simp: load_schedule_def Let_def s2 now_def d_def e' flags' split: if_splits)
qed

text \<open>C29 (output_deadline). When a digital output with a maximum duration loads a setting that is
  not its steady default, its end time is at most the maximum duration after the time of the
  change, and however many software pulses follow, the end time stands and the next event is
  either a toggle before it or the load at that time; a load that finds no queued change shuts
  the machine down. So the output cannot stay away from its default for longer.\<close>

theorem output_deadline:
  assumes "t_func (timers s (gpio_timer oid)) = Digital_load_event"
    and "digital_load_event oid s = Ret r s'"
    and "do_max_duration (digital_outs s oid) \<noteq> 0"
    and "active (digital_outs s' oid)"
  shows "r = SF_RESCHEDULE \<and>
    \<not> timer_is_before (waketime s (gpio_timer oid) + do_max_duration (digital_outs s oid))
        (do_end_time (digital_outs s' oid)) \<and>
    (\<forall>n. armed oid (run_toggles n oid s') \<and>
         do_end_time (digital_outs (run_toggles n oid s') oid) = do_end_time (digital_outs s' oid)) \<and>
    (\<forall>s2 :: 'a gpio_st_scheme. move_queue_empty (do_mq (digital_outs s2 oid)) \<longrightarrow>
       digital_load_event oid s2 = Shutdown ''Missed scheduling of next digital out event'' s2)"
  using load_event_armed [OF assms] run_toggles_armed [of oid s']
  by (simp add: digital_load_event_def Let_def)

definition gpio_boot :: "trsync_st \<Rightarrow> gpio_st" where
  "gpio_boot b = trsync_st.extend b (gpio_st.fields (\<lambda>_. digital_zero) (\<lambda>_. pwm_zero) (\<lambda>_. 0) (\<lambda>_. 0))"

text \<open>Output 1 of a small machine: 100 ticks at most, a cycle of 20, and one queued change to
  5 ticks on, due at time 1000.\<close>

definition example_gpio :: gpio_st where
  "example_gpio =
     (gpio_boot (trsync_boot (example_stepper stepper_zero)))
       \<lparr>timers := (timers_init)(ObjT 1 0 := \<lparr>t_next = None, t_func = Digital_load_event, t_waketime = 1000\<rparr>),
        digital_outs := (\<lambda>_. digital_zero\<lparr>do_max_duration := 100, do_cycle_time := 20,
           do_mq := \<lparr>mq_first = Some 0, mq_last = Some 0\<rparr>\<rparr>),
        nodes := (\<lambda>_. \<lparr>mn_next = None, mn_data = M_digital \<lparr>dm_waketime = 1000, dm_on_duration = 5\<rparr>\<rparr>)\<rparr>"

lemma example_gpio_load:
  "\<exists>s'. digital_load_event 1 example_gpio = Ret SF_RESCHEDULE s' \<and>
     do_flags (digital_outs s' 1) = 7 \<and> do_end_time (digital_outs s' 1) = 1100"
  by (simp add: digital_load_event_def load_next_wake_def load_schedule_def load_end_def Let_def
      example_gpio_def move_queue_pop_def move_queue_empty_def df_consts digital_zero_def
      timer_is_before_def)

theorem output_deadline_witness:
  "\<exists>s'. digital_load_event 1 example_gpio = Ret SF_RESCHEDULE s' \<and> armed 1 (run_toggles 9 1 s')"
proof -
  from example_gpio_load obtain s' where
    s': "digital_load_event 1 example_gpio = Ret SF_RESCHEDULE s'" "do_flags (digital_outs s' 1) = 7" by blast
  have "t_func (timers example_gpio (gpio_timer 1)) = Digital_load_event"
    "do_max_duration (digital_outs example_gpio 1) \<noteq> 0"
    by (simp_all add: example_gpio_def)
  moreover have "active (digital_outs s' 1)" by (simp add: active_def s'(2) df_consts)
  ultimately show ?thesis using output_deadline [OF _ s'(1)] s'(1) by blast
qed

section \<open>Outputs at a shutdown\<close>

text \<open>Both kinds of outputs have the same shutdown loop: each object writes its default to its
  pin. \<open>pin_of\<close> and \<open>dflt\<close> read an object's pin and default, \<open>val\<close> reads a pin.\<close>

locale shutdown_outputs =
  fixes pin_of :: "'s \<Rightarrow> u8 \<Rightarrow> u32"
    and dflt :: "'s \<Rightarrow> u8 \<Rightarrow> 'v"
    and val :: "'s \<Rightarrow> u32 \<Rightarrow> 'v"
    and step :: "u8 \<Rightarrow> 's \<Rightarrow> 's"
  assumes pin_step: "pin_of (step oid s) i = pin_of s i"
    and dflt_step: "dflt (step oid s) i = dflt s i"
    and val_step: "val (step oid s) p = (if p = pin_of s oid then dflt s oid else val s p)"
begin

lemma pin_fold: "pin_of (fold step xs s) i = pin_of s i"
  by (induction xs arbitrary: s) (simp_all add: pin_step)

lemma dflt_fold: "dflt (fold step xs s) i = dflt s i"
  by (induction xs arbitrary: s) (simp_all add: dflt_step)

lemma val_fold:
  "inj_on (pin_of s) (set xs) \<Longrightarrow> i \<in> set xs \<Longrightarrow> val (fold step xs s) (pin_of s i) = dflt s i"
proof (induction xs rule: rev_induct)
  case (snoc x xs)
  show ?case
  proof (cases "i = x")
    case True
    then show ?thesis by (simp add: val_step pin_fold dflt_fold)
  next
    case False
    with snoc.prems have "i \<in> set xs" "pin_of s i \<noteq> pin_of s x" "inj_on (pin_of s) (set xs)"
      by (auto simp: inj_on_def)
    with snoc.IH show ?thesis by (simp add: val_step pin_fold)
  qed
qed simp

end

interpretation digital: shutdown_outputs "\<lambda>s i. do_pin (digital_outs s i)"
  "\<lambda>s i. do_flags (digital_outs s i) AND DF_DEFAULT_ON \<noteq> 0" pin_out digital_shutdown_oid
  by unfold_locales
    (simp_all add: digital_shutdown_oid_def Let_def df_consts upd_digital_def gpio_out_write_def)

interpretation pwm: shutdown_outputs "\<lambda>s i. po_pin (pwm_outs s i)"
  "\<lambda>s i. po_default_value (pwm_outs s i)" pwm_val pwm_shutdown_oid
  by unfold_locales
    (simp_all add: pwm_shutdown_oid_def Let_def upd_pwm_def gpio_pwm_write_def set_func_def)

text \<open>When the shutdown functions have run, every configured
  digital output is at its default value and every configured hardware output has its default
  duty, as long as no two outputs of a kind were configured on one pin.\<close>

theorem shutdown_outputs_default:
  assumes "inj_on (\<lambda>i. do_pin (digital_outs s i)) (set (foreach_oid Config_digital_out s))"
    and "inj_on (\<lambda>i. po_pin (pwm_outs s i)) (set (foreach_oid Config_pwm_out s))"
  shows "(\<forall>i \<in> set (foreach_oid Config_digital_out s).
      pin_out (digital_out_shutdown s) (do_pin (digital_outs s i))
        \<longleftrightarrow> do_flags (digital_outs s i) AND DF_DEFAULT_ON \<noteq> 0) \<and>
    (\<forall>i \<in> set (foreach_oid Config_pwm_out s).
      pwm_val (pwm_shutdown s) (po_pin (pwm_outs s i)) = po_default_value (pwm_outs s i))"
  unfolding digital_out_shutdown_def pwm_shutdown_def
  using digital.val_fold [OF assms(1)] pwm.val_fold [OF assms(2)] by blast

text \<open>Two digital outputs, the second with default on, and a hardware output.\<close>

definition example_outputs :: gpio_st where
  "example_outputs = example_gpio
     \<lparr>oids := Some [\<lparr>oid_ty = Some Config_digital_out, oid_data = Some 0\<rparr>,
                    \<lparr>oid_ty = Some Config_digital_out, oid_data = Some 64\<rparr>,
                    \<lparr>oid_ty = Some Config_pwm_out, oid_data = Some 128\<rparr>],
      oid_count := 3,
      digital_outs := (\<lambda>i. digital_zero\<lparr>do_pin := ucast i + 4, do_flags := (if i = 1 then 16 else 1)\<rparr>),
      pwm_outs := (\<lambda>i. pwm_zero\<lparr>po_pin := 9, po_default_value := 255\<rparr>)\<rparr>"

lemma example_outputs_oids:
  "foreach_oid Config_digital_out example_outputs = [0, 1]" "foreach_oid Config_pwm_out example_outputs = [2]"
  by (simp_all add: foreach_oid_def oids_from.simps rd_def example_outputs_def nth_Cons')

theorem shutdown_outputs_default_witness:
  "\<not> pin_out (digital_out_shutdown example_outputs) 4 \<and> pin_out (digital_out_shutdown example_outputs) 5
   \<and> pwm_val (pwm_shutdown example_outputs) 9 = 255"
  using shutdown_outputs_default [of example_outputs, unfolded example_outputs_oids]
  by (simp add: example_outputs_def df_consts)

end
