(* ===== verification/Sensors.thy ===== *)
theory Sensors
  imports Gpio
begin

text \<open>
  The polled inputs of the firmware: analog inputs (\<^verbatim>\<open>src/src/adccmds.c\<close>), buttons
  (\<^verbatim>\<open>src/src/buttons.c\<close>) and pulse counters (\<^verbatim>\<open>src/src/pulse_counter.c\<close>). Each has a
  timer callback, commands and a task that reports. The converter is the board's: a call of
  \<^verbatim>\<open>gpio_adc_sample\<close> and of \<^verbatim>\<open>gpio_adc_read\<close> returns the next value of a source. The
  timer of an object is \<open>ObjT oid 0\<close>.
\<close>

section \<open>State\<close>

record analog_in =
  ai_rest_time :: u32
  ai_sample_time :: u32
  ai_next_begin_time :: u32
  ai_value :: u16
  ai_min_value :: u16
  ai_max_value :: u16
  ai_pin :: u32
  ai_invalid_count :: u8
  ai_range_check_count :: u8
  ai_state :: u8
  ai_sample_count :: u8

record buttons =
  bt_rest_ticks :: u32
  bt_pressed :: u8
  bt_last_pressed :: u8
  bt_report_count :: u8
  bt_reports :: "u8 list"
  bt_ack_count :: u8
  bt_retransmit_state :: u8
  bt_retransmit_count :: u8
  bt_button_count :: u8
  bt_pins :: "u32 list"

record counter =
  ct_poll_ticks :: u32
  ct_sample_ticks :: u32
  ct_next_sample_time :: u32
  ct_count :: u32
  ct_last_count_time :: u32
  ct_flags :: u8
  ct_pin :: u32

record sensors_st = gpio_st +
  adc_delay_src :: "u32 \<Rightarrow> nat \<Rightarrow> u32"
  adc_src :: "u32 \<Rightarrow> nat \<Rightarrow> u16"
  adc_pos :: nat
  adc_cancels :: nat
  analog_ins :: "u8 \<Rightarrow> analog_in"
  analog_wake :: u8
  sizeof_pin :: nat
  buttonss :: "u8 \<Rightarrow> buttons"
  buttons_wake :: u8
  counters :: "u8 \<Rightarrow> counter"
  counter_wake :: u8

definition BF_NO_RETRANSMIT :: u8 where "BF_NO_RETRANSMIT = 0x80"
definition BF_PENDING :: u8 where "BF_PENDING = 0xff"
definition BF_ACKED :: u8 where "BF_ACKED = 0xfe"
definition CF_PENDING :: u8 where "CF_PENDING = 1"

lemmas sensor_consts = BF_NO_RETRANSMIT_def BF_PENDING_def BF_ACKED_def CF_PENDING_def

abbreviation sensor_timer :: "u8 \<Rightarrow> timer_id" where "sensor_timer oid \<equiv> ObjT oid 0"

definition upd_analog :: "u8 \<Rightarrow> (analog_in \<Rightarrow> analog_in) \<Rightarrow> ('a sensors_st_scheme) \<Rightarrow> ('a sensors_st_scheme)" where
  "upd_analog oid f s = s\<lparr>analog_ins := (analog_ins s)(oid := f (analog_ins s oid))\<rparr>"

definition upd_buttons :: "u8 \<Rightarrow> (buttons \<Rightarrow> buttons) \<Rightarrow> ('a sensors_st_scheme) \<Rightarrow> ('a sensors_st_scheme)" where
  "upd_buttons oid f s = s\<lparr>buttonss := (buttonss s)(oid := f (buttonss s oid))\<rparr>"

definition upd_counter :: "u8 \<Rightarrow> (counter \<Rightarrow> counter) \<Rightarrow> ('a sensors_st_scheme) \<Rightarrow> ('a sensors_st_scheme)" where
  "upd_counter oid f s = s\<lparr>counters := (counters s)(oid := f (counters s oid))\<rparr>"

text \<open>What \<^verbatim>\<open>oid_alloc\<close> leaves of an object: zeroes.\<close>

definition analog_zero :: analog_in where
  "analog_zero = \<lparr>ai_rest_time = 0, ai_sample_time = 0, ai_next_begin_time = 0, ai_value = 0,
     ai_min_value = 0, ai_max_value = 0, ai_pin = 0, ai_invalid_count = 0, ai_range_check_count = 0,
     ai_state = 0, ai_sample_count = 0\<rparr>"

definition buttons_zero :: "nat \<Rightarrow> buttons" where
  "buttons_zero n = \<lparr>bt_rest_ticks = 0, bt_pressed = 0, bt_last_pressed = 0, bt_report_count = 0,
     bt_reports = replicate 8 0, bt_ack_count = 0, bt_retransmit_state = 0, bt_retransmit_count = 0,
     bt_button_count = 0, bt_pins = replicate n 0\<rparr>"

definition counter_zero :: counter where
  "counter_zero = \<lparr>ct_poll_ticks = 0, ct_sample_ticks = 0, ct_next_sample_time = 0, ct_count = 0,
     ct_last_count_time = 0, ct_flags = 0, ct_pin = 0\<rparr>"

definition new_timer :: "u8 \<Rightarrow> timer_func \<Rightarrow> ('a sensors_st_scheme) \<Rightarrow> ('a sensors_st_scheme)" where
  "new_timer oid f s = s\<lparr>timers := (timers s)(sensor_timer oid := timer_zero\<lparr>t_func := f\<rparr>)\<rparr>"

text \<open>\<^verbatim>\<open>oid_lookup\<close> followed by the use of the object.\<close>

definition sensor_oid_lookup :: "oid_type \<Rightarrow> u32 \<Rightarrow> ('a sensors_st_scheme) \<Rightarrow> (('a sensors_st_scheme), u8) res" where
  "sensor_oid_lookup ty a0 s =
     bindR (oid_lookup (ucast a0) ty s) (\<lambda>p s. case p of None \<Rightarrow> Fault | Some _ \<Rightarrow> Ret (ucast a0) s)"

section \<open>Analog inputs\<close>

definition gpio_adc_setup :: "u32 \<Rightarrow> ('a sensors_st_scheme) \<Rightarrow> (('a sensors_st_scheme), unit) res" where
  "gpio_adc_setup pin s = (if pin_ok s pin then Ret () s else Shutdown ''Not a valid ADC pin'' s)"

definition gpio_adc_sample :: "u32 \<Rightarrow> ('a sensors_st_scheme) \<Rightarrow> u32 \<times> ('a sensors_st_scheme)" where
  "gpio_adc_sample pin s = (adc_delay_src s pin (adc_pos s), s\<lparr>adc_pos := Suc (adc_pos s)\<rparr>)"

definition gpio_adc_read :: "u32 \<Rightarrow> ('a sensors_st_scheme) \<Rightarrow> u16 \<times> ('a sensors_st_scheme)" where
  "gpio_adc_read pin s = (adc_src s pin (adc_pos s), s\<lparr>adc_pos := Suc (adc_pos s)\<rparr>)"

definition gpio_adc_cancel_sample :: "u32 \<Rightarrow> ('a sensors_st_scheme) \<Rightarrow> ('a sensors_st_scheme)" where
  "gpio_adc_cancel_sample pin s = s\<lparr>adc_cancels := Suc (adc_cancels s)\<rparr>"

text \<open>The range check of a full measurement.\<close>

definition analog_range_check :: "u8 \<Rightarrow> ('a sensors_st_scheme) \<Rightarrow> (('a sensors_st_scheme), unit) res" where
  "analog_range_check oid s =
     (let a = analog_ins s oid in
      if ai_min_value a \<le> ai_value a \<and> ai_value a \<le> ai_max_value a
      then Ret () (upd_analog oid (\<lambda>a. a\<lparr>ai_invalid_count := 0\<rparr>) s)
      else
        let s = upd_analog oid (\<lambda>a. a\<lparr>ai_invalid_count := ai_invalid_count a + 1\<rparr>) s;
            a = analog_ins s oid
        in if ai_range_check_count a \<le> ai_invalid_count a
           then bindR (sched_try_shutdown ''ADC out of range'' s) (\<lambda>_ s.
                  Ret () (upd_analog oid (\<lambda>a. a\<lparr>ai_invalid_count := 0\<rparr>) s))
           else Ret () s)"

definition analog_in_event :: "u8 \<Rightarrow> ('a sensors_st_scheme) \<Rightarrow> (('a sensors_st_scheme), timer_res) res" where
  "analog_in_event oid s =
     (let a = analog_ins s oid;
          (sample_delay, s) = gpio_adc_sample (ai_pin a) s
      in if sample_delay \<noteq> 0
         then Ret SF_RESCHEDULE (set_waketime (sensor_timer oid) (waketime s (sensor_timer oid) + sample_delay) s)
         else
           let (val, s) = gpio_adc_read (ai_pin a) s;
               restart = (ai_sample_count a \<le> ai_state a);
               state = (if restart then 0 else ai_state a);
               val = (if restart then val else val + ai_value a);
               s = upd_analog oid (\<lambda>a. a\<lparr>ai_value := val, ai_state := state + 1\<rparr>) s
           in if state + 1 < ai_sample_count a
              then Ret SF_RESCHEDULE (set_waketime (sensor_timer oid)
                     (waketime s (sensor_timer oid) + ai_sample_time a) s)
              else bindR (analog_range_check oid s) (\<lambda>_ s.
                let s = sched_wake_task analog_wake_update s;
                    s = upd_analog oid (\<lambda>a. a\<lparr>ai_next_begin_time := ai_next_begin_time a + ai_rest_time a\<rparr>) s
                in Ret SF_RESCHEDULE
                     (set_waketime (sensor_timer oid) (ai_next_begin_time (analog_ins s oid)) s)))"

definition command_config_analog_in :: "u32 \<Rightarrow> u32 \<Rightarrow> ('a sensors_st_scheme) \<Rightarrow> (('a sensors_st_scheme), unit) res" where
  "command_config_analog_in a0 pin s =
     (let oid = (ucast a0 :: u8) in
      bindR (gpio_adc_setup pin s) (\<lambda>_ s.
      bindR (oid_alloc oid Config_analog_in s) (\<lambda>_ s.
        Ret () (upd_analog oid (\<lambda>_. analog_zero\<lparr>ai_pin := pin, ai_state := 1\<rparr>)
                 (new_timer oid Analog_in_event s)))))"

definition command_query_analog_in ::
  "u32 \<Rightarrow> u32 \<Rightarrow> u32 \<Rightarrow> u32 \<Rightarrow> u32 \<Rightarrow> u32 \<Rightarrow> u32 \<Rightarrow> u32 \<Rightarrow>
   ('a sensors_st_scheme) \<Rightarrow> (('a sensors_st_scheme), unit) res" where
  "command_query_analog_in a0 clock sample_ticks sample_count rest_ticks min_value max_value range_check_count s =
     bindR (sensor_oid_lookup Config_analog_in a0 s) (\<lambda>oid s.
     bindR (sched_del_timer (sensor_timer oid) s) (\<lambda>_ s.
     let s = gpio_adc_cancel_sample (ai_pin (analog_ins s oid)) s;
         s = set_waketime (sensor_timer oid) clock s;
         s = upd_analog oid (\<lambda>a. a\<lparr>ai_next_begin_time := clock, ai_sample_time := sample_ticks,
               ai_sample_count := ucast sample_count, ai_state := ucast sample_count + 1,
               ai_rest_time := rest_ticks, ai_min_value := ucast min_value, ai_max_value := ucast max_value,
               ai_range_check_count := ucast range_check_count\<rparr>) s
     in if ai_sample_count (analog_ins s oid) = 0 then Ret () s
        else sched_add_timer (sensor_timer oid) s))"

definition analog_task_oid :: "u8 \<Rightarrow> ('a sensors_st_scheme) \<Rightarrow> ('a sensors_st_scheme)" where
  "analog_task_oid oid s =
     (let a = analog_ins s oid in
      if ai_state a \<noteq> ai_sample_count a then s
      else let s = upd_analog oid (\<lambda>a. a\<lparr>ai_state := ai_state a + 1\<rparr>) s
           in command_sendf ''analog_in_state oid=%c next_clock=%u value=%hu''
                [AInt (ucast oid), AInt (ai_next_begin_time a), AInt (ucast (ai_value a))] s)"

definition analog_in_task :: "('a sensors_st_scheme) \<Rightarrow> ('a sensors_st_scheme)" where
  "analog_in_task s =
     (let (woken, s) = sched_check_wake analog_wake analog_wake_update s in
      if \<not> woken then s else fold analog_task_oid (foreach_oid Config_analog_in s) s)"

fun analog_shutdown_all :: "u8 list \<Rightarrow> ('a sensors_st_scheme) \<Rightarrow> (('a sensors_st_scheme), unit) res" where
  "analog_shutdown_all [] s = Ret () s"
| "analog_shutdown_all (oid # rest) s =
     (let s = gpio_adc_cancel_sample (ai_pin (analog_ins s oid)) s in
      bindR
        (if ai_sample_count (analog_ins s oid) \<noteq> 0 then
           let s = upd_analog oid (\<lambda>a. a\<lparr>ai_state := ai_sample_count a + 1,
                     ai_next_begin_time := ai_next_begin_time a + ai_rest_time a\<rparr>) s;
               s = set_waketime (sensor_timer oid) (ai_next_begin_time (analog_ins s oid)) s
           in sched_add_timer (sensor_timer oid) s
         else Ret () s)
        (\<lambda>_ s. analog_shutdown_all rest s))"

definition analog_in_shutdown :: "('a sensors_st_scheme) \<Rightarrow> (('a sensors_st_scheme), unit) res" where
  "analog_in_shutdown s = analog_shutdown_all (foreach_oid Config_analog_in s) s"

section \<open>Buttons\<close>

text \<open>The loop that reads the pins: \<open>i\<close> counts, \<open>bit\<close> is shifted. A pin outside
  \<^verbatim>\<open>pins\<close> would be a read outside the object.\<close>

fun read_buttons ::
  "nat \<Rightarrow> nat \<Rightarrow> u8 \<Rightarrow> u8 \<Rightarrow> u32 list \<Rightarrow> ('a sensors_st_scheme) \<Rightarrow> (u8 \<times> ('a sensors_st_scheme)) option" where
  "read_buttons 0 i b status pins s = Some (status, s)"
| "read_buttons (Suc n) i b status pins s =
     (case rd pins i of None \<Rightarrow> None
      | Some pin \<Rightarrow> (case gpio_in_read pin s of (val, s) \<Rightarrow>
          read_buttons n (Suc i) (push_bit 1 b) (if val then status OR b else status) pins s))"

text \<open>The debouncing of a new reading.\<close>

definition buttons_debounce :: "u8 \<Rightarrow> u8 \<Rightarrow> ('a sensors_st_scheme) \<Rightarrow> ('a sensors_st_scheme)" where
  "buttons_debounce oid status s =
     (let b = buttonss s oid; diff = status XOR bt_pressed b in
      if diff = 0 then s
      else let debounced = NOT (status XOR bt_last_pressed b) in
        if diff AND debounced = 0 then s
        else let s = upd_buttons oid (\<lambda>b. b\<lparr>bt_pressed :=
                       (bt_pressed b AND NOT debounced) OR (status AND debounced)\<rparr>) s;
                 b = buttonss s oid
             in if unat (bt_report_count b) < 8
                then upd_buttons oid (\<lambda>b. b\<lparr>bt_retransmit_state := BF_PENDING\<rparr>)
                       (sched_wake_task buttons_wake_update
                         (upd_buttons oid (\<lambda>b. b\<lparr>
                            bt_reports := (bt_reports b)[unat (bt_report_count b) := bt_pressed b],
                            bt_report_count := bt_report_count b + 1\<rparr>) s))
                else s)"

definition buttons_event :: "u8 \<Rightarrow> ('a sensors_st_scheme) \<Rightarrow> (('a sensors_st_scheme), timer_res) res" where
  "buttons_event oid s =
     (let b = buttonss s oid in
      case read_buttons (unat (bt_button_count b)) 0 1 0 (bt_pins b) s of None \<Rightarrow> Fault
      | Some (status, s) \<Rightarrow>
        let s = buttons_debounce oid status s;
            s = upd_buttons oid (\<lambda>b. b\<lparr>bt_last_pressed := status\<rparr>) s;
            retransmit_state = bt_retransmit_state (buttonss s oid);
            s = (if retransmit_state AND BF_NO_RETRANSMIT = 0 then
                   let r = retransmit_state - 1;
                       s = (if r AND BF_NO_RETRANSMIT \<noteq> 0 then sched_wake_task buttons_wake_update s else s)
                   in upd_buttons oid (\<lambda>b. b\<lparr>bt_retransmit_state := r\<rparr>) s
                 else s)
        in Ret SF_RESCHEDULE (set_waketime (sensor_timer oid)
             (waketime s (sensor_timer oid) + bt_rest_ticks (buttonss s oid)) s))"

definition command_config_buttons :: "u32 \<Rightarrow> u32 \<Rightarrow> ('a sensors_st_scheme) \<Rightarrow> (('a sensors_st_scheme), unit) res" where
  "command_config_buttons a0 a1 s =
     (let oid = (ucast a0 :: u8); button_count = (ucast a1 :: u8) in
      if 8 < button_count then Shutdown ''Max of 8 buttons'' s
      else bindR (oid_alloc_size oid Config_buttons
                    (sizeof_obj s Config_buttons + sizeof_pin s * unat button_count) s) (\<lambda>_ s.
        Ret () (upd_buttons oid (\<lambda>_. (buttons_zero (unat button_count))\<lparr>bt_button_count := button_count\<rparr>)
                 (new_timer oid Buttons_event s))))"

definition command_buttons_add :: "u32 \<Rightarrow> u32 \<Rightarrow> u32 \<Rightarrow> u32 \<Rightarrow> ('a sensors_st_scheme) \<Rightarrow> (('a sensors_st_scheme), unit) res" where
  "command_buttons_add a0 a1 pin pull_up s =
     bindR (sensor_oid_lookup Config_buttons a0 s) (\<lambda>oid s.
       let pos = (ucast a1 :: u8) in
       if bt_button_count (buttonss s oid) \<le> pos then Shutdown ''Set button past maximum button count'' s
       else bindR (gpio_in_setup pin pull_up s) (\<lambda>_ s.
         if unat pos < length (bt_pins (buttonss s oid))
         then Ret () (upd_buttons oid (\<lambda>b. b\<lparr>bt_pins := (bt_pins b)[unat pos := pin]\<rparr>) s) else Fault))"

definition command_buttons_query ::
  "u32 \<Rightarrow> u32 \<Rightarrow> u32 \<Rightarrow> u32 \<Rightarrow> u32 \<Rightarrow> ('a sensors_st_scheme) \<Rightarrow> (('a sensors_st_scheme), unit) res" where
  "command_buttons_query a0 clock rest_ticks retransmit_count invert s =
     bindR (sensor_oid_lookup Config_buttons a0 s) (\<lambda>oid s.
     bindR (sched_del_timer (sensor_timer oid) s) (\<lambda>_ s.
     let s = set_waketime (sensor_timer oid) clock s;
         s = upd_buttons oid (\<lambda>b. b\<lparr>bt_rest_ticks := rest_ticks, bt_pressed := ucast invert,
               bt_last_pressed := ucast invert, bt_ack_count := 0, bt_report_count := 0,
               bt_retransmit_state := BF_ACKED, bt_retransmit_count := ucast retransmit_count\<rparr>) s
     in if BF_NO_RETRANSMIT \<le> bt_retransmit_count (buttonss s oid)
        then Shutdown ''Invalid buttons retransmit count'' s
        else if rest_ticks = 0 then Ret () s
        else sched_add_timer (sensor_timer oid) s))"

text \<open>The loop of \<^verbatim>\<open>command_buttons_ack\<close> that moves the pending reports to the front.\<close>

fun shift_reports :: "nat \<Rightarrow> nat \<Rightarrow> nat \<Rightarrow> u8 list \<Rightarrow> u8 list option" where
  "shift_reports 0 i count rs = Some rs"
| "shift_reports (Suc n) i count rs =
     (if i + count < length rs then shift_reports n (Suc i) count (rs[i := rs ! (i + count)]) else None)"

definition command_buttons_ack :: "u32 \<Rightarrow> u32 \<Rightarrow> ('a sensors_st_scheme) \<Rightarrow> (('a sensors_st_scheme), unit) res" where
  "command_buttons_ack a0 a1 s =
     bindR (sensor_oid_lookup Config_buttons a0 s) (\<lambda>oid s.
       let count = (ucast a1 :: u8);
           s = upd_buttons oid (\<lambda>b. b\<lparr>bt_ack_count := bt_ack_count b + count\<rparr>) s;
           b = buttonss s oid
       in if bt_report_count b \<le> count
          then Ret () (upd_buttons oid (\<lambda>b. b\<lparr>bt_report_count := 0, bt_retransmit_state := BF_ACKED\<rparr>) s)
          else let pending = bt_report_count b - count in
            (case shift_reports (unat pending) 0 (unat count) (bt_reports b) of None \<Rightarrow> Fault
             | Some rs \<Rightarrow> Ret () (upd_buttons oid (\<lambda>b. b\<lparr>bt_reports := rs, bt_report_count := pending\<rparr>) s)))"

definition buttons_task_oid :: "u8 \<Rightarrow> ('a sensors_st_scheme) \<Rightarrow> ('a sensors_st_scheme)" where
  "buttons_task_oid oid s =
     (let b = buttonss s oid in
      if bt_retransmit_state b \<noteq> BF_PENDING then s
      else if bt_report_count b = 0 then s
      else let s = upd_buttons oid (\<lambda>b. b\<lparr>bt_retransmit_state := bt_retransmit_count b\<rparr>) s
           in command_sendf ''buttons_state oid=%c ack_count=%c state=%*s''
                [AInt (ucast oid), AInt (ucast (bt_ack_count b)),
                 ABuf (take (unat (bt_report_count b)) (bt_reports b))] s)"

definition buttons_task :: "('a sensors_st_scheme) \<Rightarrow> ('a sensors_st_scheme)" where
  "buttons_task s =
     (let (woken, s) = sched_check_wake buttons_wake buttons_wake_update s in
      if \<not> woken then s else fold buttons_task_oid (foreach_oid Config_buttons s) s)"

section \<open>Pulse counters\<close>

definition counter_event :: "u8 \<Rightarrow> ('a sensors_st_scheme) \<Rightarrow> (('a sensors_st_scheme), timer_res) res" where
  "counter_event oid s =
     (let c = counters s oid;
          time = waketime s (sensor_timer oid);
          last_value = ct_count c AND 1;
          (val, s) = gpio_in_read (ct_pin c) s;
          s = (if last_value \<noteq> of_flag val
               then upd_counter oid (\<lambda>c. c\<lparr>ct_count := ct_count c + 1, ct_last_count_time := time\<rparr>) s else s);
          s = (if timer_is_before (ct_next_sample_time c) time
               then sched_wake_task counter_wake_update
                      (upd_counter oid (\<lambda>c. c\<lparr>ct_flags := ct_flags c OR CF_PENDING,
                          ct_next_sample_time := time + ct_sample_ticks c\<rparr>) s)
               else s)
      in Ret SF_RESCHEDULE (set_waketime (sensor_timer oid) (time + ct_poll_ticks c) s))"

definition command_config_counter :: "u32 \<Rightarrow> u32 \<Rightarrow> u32 \<Rightarrow> ('a sensors_st_scheme) \<Rightarrow> (('a sensors_st_scheme), unit) res" where
  "command_config_counter a0 pin pull_up s =
     (let oid = (ucast a0 :: u8) in
      bindR (oid_alloc oid Config_counter s) (\<lambda>_ s.
        let s = upd_counter oid (\<lambda>_. counter_zero) s;
            s = s\<lparr>timers := (timers s)(sensor_timer oid := timer_zero)\<rparr>
        in bindR (gpio_in_setup pin pull_up s) (\<lambda>_ s.
             Ret () (set_func (sensor_timer oid) Counter_event
                      (upd_counter oid (\<lambda>c. c\<lparr>ct_pin := pin\<rparr>) s)))))"

definition command_query_counter ::
  "u32 \<Rightarrow> u32 \<Rightarrow> u32 \<Rightarrow> u32 \<Rightarrow> ('a sensors_st_scheme) \<Rightarrow> (('a sensors_st_scheme), unit) res" where
  "command_query_counter a0 clock poll_ticks sample_ticks s =
     bindR (sensor_oid_lookup Config_counter a0 s) (\<lambda>oid s.
     bindR (sched_del_timer (sensor_timer oid) s) (\<lambda>_ s.
     let s = set_waketime (sensor_timer oid) clock s;
         s = upd_counter oid (\<lambda>c. c\<lparr>ct_poll_ticks := poll_ticks, ct_sample_ticks := sample_ticks,
               ct_next_sample_time := clock\<rparr>) s
     in sched_add_timer (sensor_timer oid) s))"

definition counter_task_oid :: "u8 \<Rightarrow> ('a sensors_st_scheme) \<Rightarrow> ('a sensors_st_scheme)" where
  "counter_task_oid oid s =
     (let c = counters s oid in
      if ct_flags c AND CF_PENDING = 0 then s
      else let s = upd_counter oid (\<lambda>c. c\<lparr>ct_flags := ct_flags c AND NOT CF_PENDING\<rparr>) s
           in command_sendf ''counter_state oid=%c next_clock=%u count=%u count_clock=%u''
                [AInt (ucast oid), AInt (waketime s (sensor_timer oid)), AInt (ct_count c),
                 AInt (ct_last_count_time c)] s)"

definition counter_task :: "('a sensors_st_scheme) \<Rightarrow> ('a sensors_st_scheme)" where
  "counter_task s =
     (let (woken, s) = sched_check_wake counter_wake counter_wake_update s in
      if \<not> woken then s else fold counter_task_oid (foreach_oid Config_counter s) s)"

section \<open>Frames\<close>

lemma sensor_upd_simps [simp]:
  "timers (upd_analog oid f s) = timers s" "timers (upd_buttons oid g s) = timers s"
  "timers (upd_counter oid h s) = timers s"
  "analog_ins (upd_analog oid f s) i = (if i = oid then f (analog_ins s oid) else analog_ins s i)"
  "buttonss (upd_buttons oid g s) i = (if i = oid then g (buttonss s oid) else buttonss s i)"
  "counters (upd_counter oid h s) i = (if i = oid then h (counters s oid) else counters s i)"
  "analog_ins (set_waketime t w s) = analog_ins s" "buttonss (set_waketime t w s) = buttonss s"
  "counters (set_waketime t w s) = counters s"
  by (simp_all add: upd_analog_def upd_buttons_def upd_counter_def set_waketime_def)

lemma sensor_wake_simps [simp]:
  "timers (sched_wake_task analog_wake_update s) = timers s"
  "timers (sched_wake_task buttons_wake_update s) = timers s"
  "timers (sched_wake_task counter_wake_update s) = timers s"
  "analog_ins (sched_wake_task analog_wake_update s) = analog_ins s"
  "buttonss (sched_wake_task buttons_wake_update s) = buttonss s"
  "counters (sched_wake_task counter_wake_update s) = counters s"
  by (simp_all add: sched_wake_task_def sched_wake_tasks_def)

lemma sensor_source_simps [simp]:
  "pin_src (upd_counter oid f s) = pin_src s" "pin_pos (upd_counter oid f s) = pin_pos s"
  "pin_src (sched_wake_task counter_wake_update s) = pin_src s"
  "pin_pos (sched_wake_task counter_wake_update s) = pin_pos s"
  "pin_src (set_waketime t w s) = pin_src s" "pin_pos (set_waketime t w s) = pin_pos s"
  "adc_src (upd_analog oid g s) = adc_src s" "adc_pos (upd_analog oid g s) = adc_pos s"
  "adc_delay_src (upd_analog oid g s) = adc_delay_src s"
  "adc_src (set_waketime t w s) = adc_src s" "adc_pos (set_waketime t w s) = adc_pos s"
  "adc_delay_src (set_waketime t w s) = adc_delay_src s"
  by (simp_all add: upd_counter_def upd_analog_def set_waketime_def sched_wake_task_def sched_wake_tasks_def)

section \<open>Pulse counters count edges\<close>

fun run_counter :: "nat \<Rightarrow> u8 \<Rightarrow> ('a sensors_st_scheme) \<Rightarrow> (('a sensors_st_scheme), unit) res" where
  "run_counter 0 oid s = Ret () s"
| "run_counter (Suc n) oid s = bindR (counter_event oid s) (\<lambda>_ s. run_counter n oid s)"

fun edges :: "bool \<Rightarrow> bool list \<Rightarrow> nat" where
  "edges v [] = 0"
| "edges v (w # ws) = (if v \<noteq> w then 1 else 0) + edges w ws"

lemma parity_flag: "c AND 1 = of_flag v \<longleftrightarrow> odd c = v"
  by (auto simp: of_flag_def and_one_eq odd_iff_mod_2_eq_one even_iff_mod_2_eq_zero)

lemma counter_event_count:
  "\<exists>s'. counter_event oid s = Ret SF_RESCHEDULE s' \<and>
     ct_count (counters s' oid) = ct_count (counters s oid) +
       (if odd (ct_count (counters s oid)) \<noteq> pin_src s (ct_pin (counters s oid)) (pin_pos s) then 1 else 0) \<and>
     odd (ct_count (counters s' oid)) = pin_src s (ct_pin (counters s oid)) (pin_pos s) \<and>
     ct_pin (counters s' oid) = ct_pin (counters s oid) \<and>
     pin_src s' = pin_src s \<and> pin_pos s' = Suc (pin_pos s) \<and>
     waketime s' (sensor_timer oid) = waketime s (sensor_timer oid) + ct_poll_ticks (counters s oid) \<and>
     ct_poll_ticks (counters s' oid) = ct_poll_ticks (counters s oid) \<and>
     (odd (ct_count (counters s oid)) \<noteq> pin_src s (ct_pin (counters s oid)) (pin_pos s) \<longrightarrow>
        ct_last_count_time (counters s' oid) = waketime s (sensor_timer oid))"
  by (auto simp: counter_event_def Let_def gpio_in_read_def parity_flag)

lemma run_counter_count:
  "\<exists>s'. run_counter n oid s = Ret () s' \<and>
     ct_count (counters s' oid) = ct_count (counters s oid) + of_nat (edges (odd (ct_count (counters s oid)))
        (map (\<lambda>k. pin_src s (ct_pin (counters s oid)) (pin_pos s + k)) [0..<n])) \<and>
     (0 < n \<longrightarrow> odd (ct_count (counters s' oid)) = pin_src s (ct_pin (counters s oid)) (pin_pos s + (n - 1))) \<and>
     waketime s' (sensor_timer oid) = waketime s (sensor_timer oid) + of_nat n * ct_poll_ticks (counters s oid)"
proof (induction n arbitrary: s)
  case (Suc n)
  from counter_event_count [of oid s] obtain s1 where
    ev: "counter_event oid s = Ret SF_RESCHEDULE s1"
    and s1: "ct_count (counters s1 oid) = ct_count (counters s oid) +
       (if odd (ct_count (counters s oid)) \<noteq> pin_src s (ct_pin (counters s oid)) (pin_pos s) then 1 else 0)"
     "odd (ct_count (counters s1 oid)) = pin_src s (ct_pin (counters s oid)) (pin_pos s)"
     "ct_pin (counters s1 oid) = ct_pin (counters s oid)"
     "pin_src s1 = pin_src s" "pin_pos s1 = Suc (pin_pos s)"
     "waketime s1 (sensor_timer oid) = waketime s (sensor_timer oid) + ct_poll_ticks (counters s oid)"
     "ct_poll_ticks (counters s1 oid) = ct_poll_ticks (counters s oid)"
    by blast
  from Suc.IH [of s1] obtain s' where
    run: "run_counter n oid s1 = Ret () s'"
    and s': "ct_count (counters s' oid) = ct_count (counters s1 oid) + of_nat (edges (odd (ct_count (counters s1 oid)))
        (map (\<lambda>k. pin_src s1 (ct_pin (counters s1 oid)) (pin_pos s1 + k)) [0..<n]))"
     "0 < n \<longrightarrow> odd (ct_count (counters s' oid)) = pin_src s1 (ct_pin (counters s1 oid)) (pin_pos s1 + (n - 1))"
     "waketime s' (sensor_timer oid) = waketime s1 (sensor_timer oid) + of_nat n * ct_poll_ticks (counters s1 oid)"
    by blast
  have upt: "map (\<lambda>k. pin_src s (ct_pin (counters s oid)) (pin_pos s + k)) [0..<Suc n] =
      pin_src s (ct_pin (counters s oid)) (pin_pos s) #
      map (\<lambda>k. pin_src s (ct_pin (counters s oid)) (Suc (pin_pos s) + k)) [0..<n]"
    by (simp only: upt_conv_Cons [OF zero_less_Suc] map_Suc_upt [symmetric] list.map map_map comp_def) simp
  have last: "odd (ct_count (counters s' oid)) = pin_src s (ct_pin (counters s oid)) (pin_pos s + n)"
    using s'(1,2) s1(2-5) run by (cases n) auto
  have "ct_count (counters s' oid) = ct_count (counters s oid) + of_nat (edges (odd (ct_count (counters s oid)))
        (map (\<lambda>k. pin_src s (ct_pin (counters s oid)) (pin_pos s + k)) [0..<Suc n]))"
    unfolding upt s'(1) s1(2-5) by (simp add: s1(1) del: upt_Suc)
  moreover have "run_counter (Suc n) oid s = Ret () s'" using ev run by simp
  moreover have "waketime s' (sensor_timer oid) = waketime s (sensor_timer oid) + of_nat (Suc n) * ct_poll_ticks (counters s oid)"
    using s'(3) s1(6,7) by (simp add: algebra_simps)
  ultimately show ?case using last by simp
qed simp

text \<open>A pulse counter that was polled \<open>n\<close> times has counted exactly
  the edges between the samples it read, starting from the level its count stands for, modulo
  \<open>2 ^ 32\<close>; the parity of the count is the last sample, and the polls were evenly spaced.\<close>

theorem counter_counts_edges:
  "\<exists>s'. run_counter n oid s = Ret () s' \<and>
     ct_count (counters s' oid) = ct_count (counters s oid) + of_nat (edges (odd (ct_count (counters s oid)))
        (map (\<lambda>k. pin_src s (ct_pin (counters s oid)) (pin_pos s + k)) [0..<n])) \<and>
     (0 < n \<longrightarrow> odd (ct_count (counters s' oid)) = pin_src s (ct_pin (counters s oid)) (pin_pos s + (n - 1))) \<and>
     waketime s' (sensor_timer oid) = waketime s (sensor_timer oid) + of_nat n * ct_poll_ticks (counters s oid)"
  by (rule run_counter_count)

section \<open>The reports of buttons\<close>

definition pending :: "buttons \<Rightarrow> u8 list" where
  "pending b = take (unat (bt_report_count b)) (bt_reports b)"

definition buttons_ok :: "buttons \<Rightarrow> bool" where
  "buttons_ok b \<longleftrightarrow> length (bt_reports b) = 8 \<and> unat (bt_report_count b) \<le> 8 \<and>
     length (bt_pins b) = unat (bt_button_count b) \<and> unat (bt_button_count b) \<le> 8"

lemma shift_reports_take:
  "i + n + c \<le> length rs \<Longrightarrow>
   \<exists>rs'. shift_reports n i c rs = Some rs' \<and> length rs' = length rs \<and>
     take (i + n) rs' = take i rs @ take n (drop (i + c) rs)"
proof (induction n arbitrary: i rs)
  case (Suc n)
  define rs1 where "rs1 = rs[i := rs ! (i + c)]"
  have "Suc i + n + c \<le> length rs1" using Suc.prems by (simp add: rs1_def)
  from Suc.IH [OF this] obtain rs' where
    rs': "shift_reports n (Suc i) c rs1 = Some rs'" "length rs' = length rs1"
      "take (Suc i + n) rs' = take (Suc i) rs1 @ take n (drop (Suc i + c) rs1)" by blast
  have "take (Suc i) rs1 = take i rs @ [rs ! (i + c)]"
    using Suc.prems by (simp add: rs1_def take_Suc_conv_app_nth)
  moreover have "drop (Suc i + c) rs1 = drop (Suc i + c) rs" by (simp add: rs1_def)
  moreover have "drop (i + c) rs = rs ! (i + c) # drop (Suc i + c) rs"
    using Suc.prems by (simp add: Cons_nth_drop_Suc)
  ultimately show ?case using rs' Suc.prems by (auto simp: rs1_def)
qed simp

lemma read_buttons_bits:
  "i + n \<le> length pins \<Longrightarrow>
   \<exists>st'. read_buttons n i (push_bit i 1) st pins s = Some (st', s\<lparr>pin_pos := pin_pos s + n\<rparr>) \<and>
     (\<forall>k. bit st' k \<longleftrightarrow> bit st k \<or> i \<le> k \<and> k < i + n \<and> k < 8 \<and> pin_src s (pins ! k) (pin_pos s + (k - i)))"
proof (induction n arbitrary: i st s)
  case (Suc n)
  define v where "v = pin_src s (pins ! i) (pin_pos s)"
  define s1 where "s1 = s\<lparr>pin_pos := Suc (pin_pos s)\<rparr>"
  have "push_bit 1 (push_bit i 1) = push_bit (Suc i) (1 :: u8)" by simp
  moreover from Suc.prems have "Suc i + n \<le> length pins" by simp
  from Suc.IH [OF this, of "if v then st OR push_bit i 1 else st" s1] obtain st' where
    st': "read_buttons n (Suc i) (push_bit (Suc i) 1) (if v then st OR push_bit i 1 else st) pins s1
        = Some (st', s1\<lparr>pin_pos := pin_pos s1 + n\<rparr>)"
      "\<forall>k. bit st' k \<longleftrightarrow> bit (if v then st OR push_bit i 1 else st) k \<or>
         Suc i \<le> k \<and> k < Suc i + n \<and> k < 8 \<and> pin_src s1 (pins ! k) (pin_pos s1 + (k - Suc i))" by blast
  ultimately have "read_buttons (Suc n) i (push_bit i 1) st pins s = Some (st', s\<lparr>pin_pos := pin_pos s + Suc n\<rparr>)"
    using Suc.prems by (cases v) (simp_all add: rd_def gpio_in_read_def v_def s1_def mult.commute)
  moreover have "bit st' k \<longleftrightarrow> bit st k \<or> i \<le> k \<and> k < i + Suc n \<and> k < 8 \<and> pin_src s (pins ! k) (pin_pos s + (k - i))" for k
  proof -
    have b: "bit (push_bit i 1 :: u8) k \<longleftrightarrow> k = i \<and> k < 8" by (auto simp: bit_simps)
    show ?thesis
    proof (cases "k = i")
      case True then show ?thesis using st'(2) b by (auto simp: bit_or_iff v_def)
    next
      case False
      then have "Suc i \<le> k \<longleftrightarrow> i \<le> k" "i < k \<Longrightarrow> Suc (pin_pos s) + (k - Suc i) = pin_pos s + (k - i)" by auto
      then show ?thesis using st'(2) b False by (auto simp: bit_or_iff s1_def)
    qed
  qed
  ultimately show ?case by blast
qed auto

definition debounced_value :: "u8 \<Rightarrow> u8 \<Rightarrow> u8 \<Rightarrow> u8" where
  "debounced_value pressed prev status =
     (pressed AND (status XOR prev)) OR (status AND NOT (status XOR prev))"

lemma debounced_same: "debounced_value p l st = p \<longleftrightarrow> (st XOR p) AND NOT (st XOR l) = 0"
  unfolding debounced_value_def bit_eq_iff by (auto simp: bit_simps)

lemma debounced_bit:
  "k < 8 \<Longrightarrow> bit (debounced_value p l st) k \<longleftrightarrow> (if bit st k = bit l k then bit st k else bit p k)"
  by (auto simp: debounced_value_def bit_simps)

lemma debounce_effect:
  assumes "b = buttonss s oid" and "b' = buttonss (buttons_debounce oid status s) oid" and "buttons_ok b"
  shows "buttons_ok b'" and "bt_ack_count b' = bt_ack_count b" and "bt_rest_ticks b' = bt_rest_ticks b"
    and "bt_pressed b' = debounced_value (bt_pressed b) (bt_last_pressed b) status"
    and "pending b' = (if bt_pressed b' = bt_pressed b \<or> length (pending b) = 8 then pending b else pending b @ [bt_pressed b'])"
    and "timers (buttons_debounce oid status s) = timers s"
proof -
  define D where "D = NOT (status XOR bt_last_pressed b)"
  have same: "debounced_value (bt_pressed b) (bt_last_pressed b) status = bt_pressed b
      \<longleftrightarrow> (status XOR bt_pressed b) AND D = 0"
    by (simp add: debounced_same D_def)
  have new: "(bt_pressed b AND NOT D) OR (status AND D) = debounced_value (bt_pressed b) (bt_last_pressed b) status"
    by (simp add: debounced_value_def D_def)
  have len: "length (pending b) = unat (bt_report_count b)" "unat (bt_report_count b) \<le> 8" "length (bt_reports b) = 8"
    using assms(3) by (simp_all add: pending_def buttons_ok_def)
  have inc: "unat (bt_report_count b + 1) = Suc (unat (bt_report_count b))" if "unat (bt_report_count b) < 8"
    using that by (simp add: unat_word_ariths)
  have app: "take (Suc (unat (bt_report_count b))) ((bt_reports b)[unat (bt_report_count b) := x]) = pending b @ [x]"
    if "unat (bt_report_count b) < 8" for x
    using that len by (simp add: pending_def take_Suc_conv_app_nth)
  note defs = buttons_debounce_def Let_def assms(1) [symmetric] D_def [symmetric] new
  consider (none) "(status XOR bt_pressed b) AND D = 0"
    | (full) "(status XOR bt_pressed b) AND D \<noteq> 0" "\<not> unat (bt_report_count b) < 8"
    | (room) "(status XOR bt_pressed b) AND D \<noteq> 0" "unat (bt_report_count b) < 8" by blast
  then have "buttons_ok b' \<and> bt_ack_count b' = bt_ack_count b \<and> bt_rest_ticks b' = bt_rest_ticks b \<and>
      bt_pressed b' = debounced_value (bt_pressed b) (bt_last_pressed b) status \<and>
      pending b' = (if bt_pressed b' = bt_pressed b \<or> length (pending b) = 8 then pending b else pending b @ [bt_pressed b'])
      \<and> timers (buttons_debounce oid status s) = timers s"
  proof cases
    case none
    then show ?thesis using assms(3) same unfolding assms(2) by (simp add: defs)
  next
    case full
    then show ?thesis using assms(3) same len unfolding assms(2)
      by (auto simp: defs pending_def buttons_ok_def)
  next
    case room
    then show ?thesis using assms(3) same len inc app unfolding assms(2)
      by (auto simp: defs pending_def buttons_ok_def)
  qed
  then show "buttons_ok b'" and "bt_ack_count b' = bt_ack_count b" and "bt_rest_ticks b' = bt_rest_ticks b"
    and "bt_pressed b' = debounced_value (bt_pressed b) (bt_last_pressed b) status"
    and "pending b' = (if bt_pressed b' = bt_pressed b \<or> length (pending b) = 8 then pending b else pending b @ [bt_pressed b'])"
    and "timers (buttons_debounce oid status s) = timers s"
    by blast+
qed

lemma buttons_ok_upd [simp]:
  "buttons_ok (b\<lparr>bt_last_pressed := x\<rparr>) = buttons_ok b" "buttons_ok (b\<lparr>bt_retransmit_state := y\<rparr>) = buttons_ok b"
  "pending (b\<lparr>bt_last_pressed := x\<rparr>) = pending b" "pending (b\<lparr>bt_retransmit_state := y\<rparr>) = pending b"
  by (simp_all add: buttons_ok_def pending_def)

text \<open>C31 (buttons_report_changes). A poll of the buttons never reads outside the object; a
  button's state changes only when two successive readings of its pin agree, to that reading.
  The reports wait in a queue of at most eight: a poll appends the new state exactly when it
  changed and there is room, and an acknowledgement of \<open>count\<close> reports removes the first
  \<open>count\<close> and no other.\<close>

theorem buttons_report_changes:
  assumes "b = buttonss s oid" and "buttons_ok b"
    and "oid_lookup oid Config_buttons s = Ret (Some addr) s" and "ucast a0 = oid"
  shows "(\<exists>s'. buttons_event oid s = Ret SF_RESCHEDULE s' \<and> (let b' = buttonss s' oid in
       buttons_ok b' \<and>
       (\<forall>k < 8. bit (bt_last_pressed b') k \<longleftrightarrow>
          k < unat (bt_button_count b) \<and> pin_src s (bt_pins b ! k) (pin_pos s + k)) \<and>
       (\<forall>k < 8. bit (bt_pressed b') k \<longleftrightarrow> (if bit (bt_last_pressed b') k = bit (bt_last_pressed b) k
                 then bit (bt_last_pressed b') k else bit (bt_pressed b) k)) \<and>
       pending b' = (if bt_pressed b' = bt_pressed b \<or> length (pending b) = 8 then pending b
                     else pending b @ [bt_pressed b']))) \<and>
    (\<exists>s'. command_buttons_ack a0 count s = Ret () s' \<and> (let b' = buttonss s' oid in
       buttons_ok b' \<and> pending b' = drop (unat (ucast count :: u8)) (pending b) \<and>
       bt_ack_count b' = bt_ack_count b + ucast count))"
  (is "?event \<and> ?ack")
proof
  have pins: "0 + unat (bt_button_count b) \<le> length (bt_pins b)" "unat (bt_button_count b) \<le> 8"
    using assms(2) by (simp_all add: buttons_ok_def)
  from read_buttons_bits [OF pins(1), of 0 s] obtain st where
    st: "read_buttons (unat (bt_button_count b)) 0 1 0 (bt_pins b) s
          = Some (st, s\<lparr>pin_pos := pin_pos s + unat (bt_button_count b)\<rparr>)"
      "\<forall>k. bit st k \<longleftrightarrow> k < unat (bt_button_count b) \<and> k < 8 \<and> pin_src s (bt_pins b ! k) (pin_pos s + k)"
    by auto
  define s1 where "s1 = s\<lparr>pin_pos := pin_pos s + unat (bt_button_count b)\<rparr>"
  define s2 where "s2 = buttons_debounce oid st s1"
  have b: "b = buttonss s1 oid" by (simp add: assms(1) s1_def)
  note eff = debounce_effect [OF b refl assms(2), of st, folded s2_def]
  have "\<exists>s'. buttons_event oid s = Ret SF_RESCHEDULE s' \<and> buttons_ok (buttonss s' oid) \<and>
      bt_last_pressed (buttonss s' oid) = st \<and> bt_pressed (buttonss s' oid) = bt_pressed (buttonss s2 oid) \<and>
      pending (buttonss s' oid) = pending (buttonss s2 oid)"
    using st(1) eff(1)
    by (simp add: buttons_event_def assms(1) [symmetric] s1_def [symmetric] s2_def [symmetric] Let_def)
  then obtain s' where s': "buttons_event oid s = Ret SF_RESCHEDULE s'" "buttons_ok (buttonss s' oid)"
    "bt_last_pressed (buttonss s' oid) = st" "bt_pressed (buttonss s' oid) = bt_pressed (buttonss s2 oid)"
    "pending (buttonss s' oid) = pending (buttonss s2 oid)" by blast
  show ?event
    using s'(1,2) st(2) pins(2) debounced_bit [of _ "bt_pressed b" "bt_last_pressed b" st]
    unfolding Let_def by (intro exI [of _ s'] conjI) (simp_all add: s'(3-5) eff(4,5))
next
  define c where "c = (ucast count :: u8)"
  have look: "sensor_oid_lookup Config_buttons a0 s = Ret oid s"
    using assms(3,4) by (simp add: sensor_oid_lookup_def)
  have ok: "length (bt_reports b) = 8" "unat (bt_report_count b) \<le> 8"
    using assms(2) by (simp_all add: buttons_ok_def)
  show ?ack
  proof (cases "bt_report_count b \<le> c")
    case True
    then have "drop (unat c) (pending b) = []" by (simp add: pending_def word_le_nat_alt)
    with True look assms(2) show ?thesis
      by (simp add: command_buttons_ack_def Let_def c_def [symmetric] assms(1) [symmetric])
        (simp add: buttons_ok_def pending_def)
  next
    case False
    define n where "n = unat (bt_report_count b - c)"
    have n: "n = unat (bt_report_count b) - unat c" "0 + n + unat c \<le> length (bt_reports b)"
      using False ok by (auto simp: n_def unat_sub word_le_nat_alt)
    from shift_reports_take [OF n(2)] obtain rs' where
      rs': "shift_reports n 0 (unat c) (bt_reports b) = Some rs'" "length rs' = 8"
        "take n rs' = take n (drop (unat c) (bt_reports b))" using ok by auto
    have "take n (drop (unat c) (bt_reports b)) = drop (unat c) (pending b)"
      by (simp add: pending_def n(1) drop_take)
    with False look assms(2) rs' n(1) ok show ?thesis
      by (simp add: command_buttons_ack_def Let_def c_def [symmetric] assms(1) [symmetric] n_def [symmetric])
        (simp add: buttons_ok_def pending_def n_def [symmetric])
  qed
qed

section \<open>Measurements of analog inputs\<close>

fun run_adc :: "nat \<Rightarrow> u8 \<Rightarrow> ('a sensors_st_scheme) \<Rightarrow> (('a sensors_st_scheme), unit) res" where
  "run_adc 0 oid s = Ret () s"
| "run_adc (Suc n) oid s = bindR (run_adc n oid s) (\<lambda>_ s. bindR (analog_in_event oid s) (\<lambda>_ s. Ret () s))"

text \<open>The sum of the first \<open>m\<close> samples; each event starts a conversion and reads it.\<close>

definition adc_sum :: "('a sensors_st_scheme) \<Rightarrow> u32 \<Rightarrow> nat \<Rightarrow> u16" where
  "adc_sum s pin m = (\<Sum>i<m. adc_src s pin (adc_pos s + 2 * i + 1))"

definition out_of_range :: "analog_in \<Rightarrow> u16 \<Rightarrow> bool" where
  "out_of_range a v \<longleftrightarrow> \<not> (ai_min_value a \<le> v \<and> v \<le> ai_max_value a)"

lemma status_frame [simp]:
  "shutdown_status (upd_analog oid f s) = shutdown_status s"
  "shutdown_status (sched_wake_task analog_wake_update s) = shutdown_status s"
  by (simp_all add: upd_analog_def sched_wake_task_def sched_wake_tasks_def)

lemma analog_wake_set [simp]:
  "analog_wake (sched_wake_task analog_wake_update s) = 1" "analog_wake (upd_analog oid f s) = analog_wake s"
  "analog_wake (set_waketime t w s) = analog_wake s"
  by (simp_all add: sched_wake_task_def upd_analog_def set_waketime_def)

lemma analog_sample:
  assumes "adc_delay_src s (ai_pin (analog_ins s oid)) (adc_pos s) = 0"
    and "a = (analog_ins s oid)"
    and "restart = (ai_sample_count a \<le> ai_state a)"
    and "st = (if restart then 0 else ai_state a)"
    and "v = adc_src s (ai_pin a) (Suc (adc_pos s)) + (if restart then 0 else ai_value a)"
    and "s1 = upd_analog oid (\<lambda>a. a\<lparr>ai_value := v, ai_state := st + 1\<rparr>) (s\<lparr>adc_pos := adc_pos s + 2\<rparr>)"
  shows "st + 1 < ai_sample_count a \<Longrightarrow> analog_in_event oid s = Ret SF_RESCHEDULE
      (set_waketime (sensor_timer oid) (waketime s (sensor_timer oid) + ai_sample_time a) s1)"
    and "\<not> st + 1 < ai_sample_count a \<Longrightarrow> analog_in_event oid s =
      bindR (analog_range_check oid s1) (\<lambda>_ s.
                let s = sched_wake_task analog_wake_update s;
                    s = upd_analog oid (\<lambda>a. a\<lparr>ai_next_begin_time := ai_next_begin_time a + ai_rest_time a\<rparr>) s
                in Ret SF_RESCHEDULE
                     (set_waketime (sensor_timer oid) (ai_next_begin_time (analog_ins s oid)) s))"
  using assms(1)
  by (auto simp: analog_in_event_def gpio_adc_sample_def gpio_adc_read_def Let_def assms(2-6) add.commute)

text \<open>The state after \<open>m\<close> samples of a measurement that started in \<open>s\<close>, and the next
  sample.\<close>

definition adc_after :: "u8 \<Rightarrow> ('a sensors_st_scheme) \<Rightarrow> nat \<Rightarrow> ('a sensors_st_scheme) \<Rightarrow> bool" where
  "adc_after oid s m s1 \<longleftrightarrow>
     (let a = analog_ins s oid in
      adc_pos s1 = adc_pos s + 2 * m \<and>
      analog_ins s1 oid = a\<lparr>ai_value := (if m = 0 then ai_value a else adc_sum s (ai_pin a) m),
                           ai_state := (if m = 0 then ai_state a else of_nat m)\<rparr> \<and>
      waketime s1 (sensor_timer oid) = waketime s (sensor_timer oid) + of_nat m * ai_sample_time a \<and>
      shutdown_status s1 = shutdown_status s \<and> adc_src s1 = adc_src s \<and> adc_delay_src s1 = adc_delay_src s)"

lemma adc_sample_after:
  assumes "adc_after oid s m s1" and "a = analog_ins s oid" and "ai_sample_count a \<le> ai_state a"
    and "m < unat (ai_sample_count a)" and "adc_delay_src s (ai_pin a) (adc_pos s + 2 * m) = 0"
    and "s2 = upd_analog oid (\<lambda>b. b\<lparr>ai_value := adc_sum s (ai_pin a) (Suc m), ai_state := of_nat m + 1\<rparr>)
        (s1\<lparr>adc_pos := adc_pos s1 + 2\<rparr>)"
  shows "Suc m < unat (ai_sample_count a) \<Longrightarrow> analog_in_event oid s1 = Ret SF_RESCHEDULE
      (set_waketime (sensor_timer oid) (waketime s1 (sensor_timer oid) + ai_sample_time a) s2)"
    and "Suc m = unat (ai_sample_count a) \<Longrightarrow> analog_in_event oid s1 =
      bindR (analog_range_check oid s2) (\<lambda>_ s.
                let s = sched_wake_task analog_wake_update s;
                    s = upd_analog oid (\<lambda>a. a\<lparr>ai_next_begin_time := ai_next_begin_time a + ai_rest_time a\<rparr>) s
                in Ret SF_RESCHEDULE
                     (set_waketime (sensor_timer oid) (ai_next_begin_time (analog_ins s oid)) s))"
proof -
  note s1 = assms(1) [unfolded adc_after_def Let_def, folded assms(2)]
  have n: "m < 255" using assms(4) unsigned_less [where ?'a = nat, of "ai_sample_count a"] by simp
  have lt: "of_nat m + 1 < ai_sample_count a \<longleftrightarrow> Suc m < unat (ai_sample_count a)"
    "m \<noteq> 0 \<Longrightarrow> \<not> ai_sample_count a \<le> of_nat m"
    using assms(4) n by (simp_all add: word_less_nat_alt word_le_nat_alt unat_of_nat_small unat_word_ariths)
  have restart: "m = 0 \<longleftrightarrow> ai_sample_count (analog_ins s1 oid) \<le> ai_state (analog_ins s1 oid)"
    using lt(2) assms(3) s1 by simp
  have st: "of_nat m = (if m = 0 then 0 else ai_state (analog_ins s1 oid))" by (simp add: s1)
  have v: "adc_sum s (ai_pin a) (Suc m) = adc_src s1 (ai_pin (analog_ins s1 oid)) (Suc (adc_pos s1)) +
      (if m = 0 then 0 else ai_value (analog_ins s1 oid))"
    by (simp add: s1 adc_sum_def add.commute)
  have d: "adc_delay_src s1 (ai_pin (analog_ins s1 oid)) (adc_pos s1) = 0"
    using assms(5) by (simp add: s1)
  have fld: "ai_sample_count (analog_ins s1 oid) = ai_sample_count a" "ai_sample_time (analog_ins s1 oid) = ai_sample_time a"
    by (simp_all add: s1)
  note ev = analog_sample [OF d refl restart st v assms(6), unfolded fld]
  show "analog_in_event oid s1 = Ret SF_RESCHEDULE
      (set_waketime (sensor_timer oid) (waketime s1 (sensor_timer oid) + ai_sample_time a) s2)"
    if "Suc m < unat (ai_sample_count a)"
    using that lt(1) by (intro ev(1)) simp
  show "analog_in_event oid s1 =
      bindR (analog_range_check oid s2) (\<lambda>_ s.
                let s = sched_wake_task analog_wake_update s;
                    s = upd_analog oid (\<lambda>a. a\<lparr>ai_next_begin_time := ai_next_begin_time a + ai_rest_time a\<rparr>) s
                in Ret SF_RESCHEDULE
                     (set_waketime (sensor_timer oid) (ai_next_begin_time (analog_ins s oid)) s))"
    if "Suc m = unat (ai_sample_count a)"
    using that lt(1) by (intro ev(2)) simp
qed

lemma adc_partial:
  assumes "a = analog_ins s oid" and "ai_sample_count a \<le> ai_state a"
    and "m < unat (ai_sample_count a)"
    and "\<forall>i < unat (ai_sample_count a). adc_delay_src s (ai_pin a) (adc_pos s + 2 * i) = 0"
  shows "\<exists>s1. run_adc m oid s = Ret () s1 \<and> adc_after oid s m s1"
  using assms(3)
proof (induction m)
  case 0
  show ?case by (simp add: adc_after_def Let_def)
next
  case (Suc m)
  then obtain s1 where s1: "run_adc m oid s = Ret () s1" "adc_after oid s m s1" by auto
  have d: "adc_delay_src s (ai_pin a) (adc_pos s + 2 * m) = 0" and m: "m < unat (ai_sample_count a)"
    using assms(4) Suc.prems by simp_all
  note ev = adc_sample_after(1) [OF s1(2) assms(1,2) m d refl Suc.prems]
  show ?case using s1 assms(1) by (simp add: ev adc_after_def Let_def algebra_simps)
qed

lemma range_check_effect:
  assumes "a = analog_ins s oid"
  shows "analog_range_check oid s =
    (if \<not> out_of_range a (ai_value a) then Ret () (upd_analog oid (\<lambda>a. a\<lparr>ai_invalid_count := 0\<rparr>) s)
     else if ai_invalid_count a + 1 < ai_range_check_count a
     then Ret () (upd_analog oid (\<lambda>a. a\<lparr>ai_invalid_count := ai_invalid_count a + 1\<rparr>) s)
     else if shutdown_status s = 0
     then Shutdown ''ADC out of range'' (upd_analog oid (\<lambda>a. a\<lparr>ai_invalid_count := ai_invalid_count a + 1\<rparr>) s)
     else Ret () (upd_analog oid (\<lambda>a. a\<lparr>ai_invalid_count := 0\<rparr>)
            (upd_analog oid (\<lambda>a. a\<lparr>ai_invalid_count := ai_invalid_count a + 1\<rparr>) s)))"
  by (auto simp: analog_range_check_def Let_def out_of_range_def assms sched_try_shutdown_def
      sched_shutdown_def not_less)

text \<open>Once a measurement starts, \<open>sample_count\<close> events, one sample time
  apart, leave the sum of exactly those samples (modulo \<open>2 ^ 16\<close>), mark it for the report and
  schedule the next measurement one rest time after the start of this one. A sum out of range
  is counted, one in range resets the count, and the machine is shut down exactly when the count
  reaches \<open>range_check_count\<close> on a machine that runs.\<close>

theorem analog_measurement:
  assumes "a = analog_ins s oid" and "ai_sample_count a \<le> ai_state a" and "n = unat (ai_sample_count a)" and "0 < n"
    and "\<forall>i < n. adc_delay_src s (ai_pin a) (adc_pos s + 2 * i) = 0"
    and "v = adc_sum s (ai_pin a) n"
  shows "case run_adc n oid s of
      Ret _ s' \<Rightarrow> ai_value (analog_ins s' oid) = v \<and> ai_state (analog_ins s' oid) = ai_sample_count a \<and>
        analog_wake s' = 1 \<and>
        ai_next_begin_time (analog_ins s' oid) = ai_next_begin_time a + ai_rest_time a \<and>
        waketime s' (sensor_timer oid) = ai_next_begin_time a + ai_rest_time a \<and>
        (if \<not> out_of_range a v then ai_invalid_count (analog_ins s' oid) = 0
         else if ai_invalid_count a + 1 < ai_range_check_count a
         then ai_invalid_count (analog_ins s' oid) = ai_invalid_count a + 1
         else shutdown_status s \<noteq> 0)
    | Shutdown r s' \<Rightarrow> r = ''ADC out of range'' \<and> out_of_range a v \<and>
        \<not> ai_invalid_count a + 1 < ai_range_check_count a \<and> shutdown_status s = 0
    | Fault \<Rightarrow> False"
proof -
  from assms(4) obtain m where m: "n = Suc m" by (cases n) auto
  have lt: "m < unat (ai_sample_count a)" using m assms(3) by simp
  from adc_partial [OF assms(1,2) lt assms(5) [unfolded assms(3)]] obtain s1 where
    s1: "run_adc m oid s = Ret () s1" "adc_after oid s m s1" by blast
  have d: "adc_delay_src s (ai_pin a) (adc_pos s + 2 * m) = 0" and Sm: "Suc m = unat (ai_sample_count a)"
    using assms(3,5) m by simp_all
  define s2 where "s2 = upd_analog oid (\<lambda>b. b\<lparr>ai_value := adc_sum s (ai_pin a) (Suc m), ai_state := of_nat m + 1\<rparr>)
        (s1\<lparr>adc_pos := adc_pos s1 + 2\<rparr>)"
  note ev = adc_sample_after(2) [OF s1(2) assms(1,2) lt d s2_def Sm]
  have cnt: "of_nat m + 1 = ai_sample_count a"
    using arg_cong [OF Sm, of "of_nat :: nat \<Rightarrow> u8"] by (simp add: add.commute)
  have s2: "analog_ins s2 oid = a\<lparr>ai_value := v, ai_state := ai_sample_count a\<rparr>" "shutdown_status s2 = shutdown_status s"
    using s1(2) by (simp_all add: s2_def adc_after_def Let_def assms(1) [symmetric] assms(6) m cnt)
  have rng: "out_of_range (a\<lparr>ai_value := v, ai_state := ai_sample_count a\<rparr>) v = out_of_range a v"
    by (simp add: out_of_range_def)
  show ?thesis
    by (simp add: m s1(1) ev range_check_effect [OF refl] s2 rng Let_def analog_wake_set
        split del: if_split split: if_splits)
qed

section \<open>Examples\<close>

definition sensors_boot :: "(u32 \<Rightarrow> nat \<Rightarrow> u16) \<Rightarrow> gpio_st \<Rightarrow> sensors_st" where
  "sensors_boot adc b = gpio_st.extend b (sensors_st.fields (\<lambda>_ _. 0) adc 0 0 (\<lambda>_. analog_zero) 0 4
     (\<lambda>_. buttons_zero 0) 0 (\<lambda>_. counter_zero) 0)"

text \<open>An analog input of two samples, a counter and two buttons; the input pins deliver low,
  high, high, low, the converter the numbers \<open>0, 1, 2, \<dots>\<close>.\<close>

definition example_sensors :: sensors_st where
  "example_sensors = (sensors_boot (\<lambda>_ k. of_nat k) example_outputs)
     \<lparr>pin_src := (\<lambda>_ k. k = 1 \<or> k = 2), pin_pos := 0,
      analog_ins := (\<lambda>_. analog_zero\<lparr>ai_sample_count := 2, ai_state := 3, ai_max_value := 3, ai_range_check_count := 1\<rparr>),
      buttonss := (\<lambda>_. (buttons_zero 2)\<lparr>bt_button_count := 2, bt_last_pressed := 2\<rparr>),
      oids := Some [\<lparr>oid_ty = Some Config_buttons, oid_data = Some 0\<rparr>], oid_count := 1\<rparr>"

lemma example_sensors_simps [simp]:
  "pin_src example_sensors p k \<longleftrightarrow> k = 1 \<or> k = 2" "pin_pos example_sensors = 0"
  "counters example_sensors i = counter_zero"
  "analog_ins example_sensors i = analog_zero\<lparr>ai_sample_count := 2, ai_state := 3, ai_max_value := 3, ai_range_check_count := 1\<rparr>"
  "adc_delay_src example_sensors p k = 0" "adc_src example_sensors p k = of_nat k" "adc_pos example_sensors = 0"
  "shutdown_status example_sensors = 0"
  "buttonss example_sensors i = (buttons_zero 2)\<lparr>bt_button_count := 2, bt_last_pressed := 2\<rparr>"
  "oid_lookup 0 Config_buttons example_sensors = Ret (Some 0) example_sensors"
  by (simp_all add: example_sensors_def sensors_boot_def gpio_st.defs sensors_st.defs oid_lookup_def rd_def
      example_outputs_def example_gpio_def gpio_boot_def trsync_boot_def trsync_st.defs example_stepper_def
      stepper_boot_def stepper_st.defs basecmd_boot_def basecmd.defs sched_boot_def sched.defs)

theorem counter_counts_edges_witness:
  "\<exists>s'. run_counter 4 0 example_sensors = Ret () s' \<and> ct_count (counters s' 0) = 2"
  using counter_counts_edges [of 4 0 example_sensors]
  by (auto simp: counter_zero_def upt_rec)

theorem buttons_report_changes_witness:
  "\<exists>s'. buttons_event 0 example_sensors = Ret SF_RESCHEDULE s' \<and> pending (buttonss s' 0) = [2]"
proof -
  define b where "b = (buttons_zero 2)\<lparr>bt_button_count := 2, bt_last_pressed := 2\<rparr>"
  have b: "b = buttonss example_sensors 0" "buttons_ok b" "pending b = []" "bt_pressed b = 0" "bt_last_pressed b = 2"
    "bt_button_count b = 2"
    by (simp_all add: b_def buttons_ok_def buttons_zero_def pending_def)
  have two: "bit (2 :: u8) k \<longleftrightarrow> k = 1" for k
    using bit_exp_iff [where ?'a = u8, of 1 k] by auto
  have look: "oid_lookup 0 Config_buttons example_sensors = Ret (Some 0) example_sensors" "ucast (0 :: u32) = (0 :: u8)"
    by simp_all
  from buttons_report_changes [OF b(1,2) look, of 0, unfolded Let_def, THEN conjunct1] obtain s' where
    ev: "buttons_event 0 example_sensors = Ret SF_RESCHEDULE s'"
    and last: "\<forall>k < 8. bit (bt_last_pressed (buttonss s' 0)) k \<longleftrightarrow>
          k < unat (bt_button_count b) \<and> pin_src example_sensors (bt_pins b ! k) (pin_pos example_sensors + k)"
    and pressed: "\<forall>k < 8. bit (bt_pressed (buttonss s' 0)) k \<longleftrightarrow>
          (if bit (bt_last_pressed (buttonss s' 0)) k = bit (bt_last_pressed b) k
           then bit (bt_last_pressed (buttonss s' 0)) k else bit (bt_pressed b) k)"
    and pend: "pending (buttonss s' 0) = (if bt_pressed (buttonss s' 0) = bt_pressed b \<or> length (pending b) = 8
           then pending b else pending b @ [bt_pressed (buttonss s' 0)])"
    by blast
  have "bit (bt_last_pressed (buttonss s' 0)) k \<longleftrightarrow> k = 1" if "k < 8" for k
    using last that by (auto simp: b(6))
  then have "bit (bt_pressed (buttonss s' 0)) k \<longleftrightarrow> k = 1" if "k < 8" for k
    using pressed [unfolded b(4,5) two] that by auto
  then have "bt_pressed (buttonss s' 0) = 2"
    by (intro bit_eqI) (unfold two, simp)
  then show ?thesis using ev pend by (simp add: b(3,4))
qed

theorem analog_measurement_witness:
  "case run_adc 2 0 example_sensors of Shutdown r s' \<Rightarrow> r = ''ADC out of range'' | _ \<Rightarrow> False"
proof -
  define a where "a = analog_ins example_sensors 0"
  have a: "ai_sample_count a = 2" "ai_state a = 3" "ai_pin a = 0" "out_of_range a 4" "ai_invalid_count a = 0"
    "ai_range_check_count a = 1"
    by (simp_all add: a_def analog_zero_def out_of_range_def)
  have "adc_sum example_sensors 0 2 = 4" by (simp add: adc_sum_def numeral_2_eq_2 lessThan_Suc)
  then have "4 = adc_sum example_sensors (ai_pin a) 2" by (simp add: a(3))
  moreover have "ai_sample_count a \<le> ai_state a" "2 = unat (ai_sample_count a)" by (simp_all add: a)
  ultimately have "case run_adc 2 0 example_sensors of
      Ret _ s' \<Rightarrow> (if \<not> out_of_range a 4 then True else if ai_invalid_count a + 1 < ai_range_check_count a
         then True else shutdown_status example_sensors \<noteq> 0)
    | Shutdown r s' \<Rightarrow> r = ''ADC out of range'' | Fault \<Rightarrow> False"
    using analog_measurement [OF a_def, of 2 4] by (auto split: res.splits if_splits)
  then show ?thesis by (simp add: a split: res.splits)
qed

end
