(* ===== verification/Probe.thy ===== *)
theory Probe
  imports Sensors
begin

text \<open>
  Load cell probes (\<^verbatim>\<open>src/src/load_cell_probe.c\<close>) and the fixed point filter they use
  (\<^verbatim>\<open>src/src/sos_filter.c\<close>). Values of type \<^verbatim>\<open>int32_t\<close> are integers in that range: a sum or a
  difference that leaves the range is undefined. The trigger of a probe is that of theory \<open>Trsync\<close>,
  which stops steppers. The timer of a probe is \<open>ObjT oid 0\<close>.
\<close>

section \<open>State\<close>

record sos_filter_section =
  sec_coeff :: "int list"
  sec_state :: "int list"

record sos_filter =
  sf_max_sections :: u8
  sf_n_sections :: u8
  sf_coeff_frac_bits :: u8
  sf_is_active :: bool
  sf_coeff_rounding :: u32
  sf_filter :: "sos_filter_section list"

record load_cell_probe =
  lc_trigger_grams :: u32
  lc_trigger_ticks :: u32
  lc_last_sample_ticks :: u32
  lc_rest_ticks :: u32
  lc_homing_start_time :: u32
  lc_ts :: "u8 option"
  lc_safety_counts_min :: int
  lc_safety_counts_max :: int
  lc_tare_counts :: int
  lc_flags :: u8
  lc_trigger_reason :: u8
  lc_error_reason :: u8
  lc_watchdog_max :: u8
  lc_watchdog_count :: u8
  lc_trigger_grams_fixed :: int
  lc_grams_per_count :: int
  lc_sf :: "u8 option"

record probe_st = sensors_st +
  sos_filters :: "u8 \<Rightarrow> sos_filter"
  probes :: "u8 \<Rightarrow> load_cell_probe"

definition FLAG_IS_HOMING :: u8 where "FLAG_IS_HOMING = 1"
definition FLAG_IS_HOMING_TRIGGER :: u8 where "FLAG_IS_HOMING_TRIGGER = 2"
definition FLAG_AWAIT_HOMING :: u8 where "FLAG_AWAIT_HOMING = 4"
definition ERROR_SAFETY_RANGE :: u8 where "ERROR_SAFETY_RANGE = 0"
definition ERROR_OVERFLOW :: u8 where "ERROR_OVERFLOW = 1"
definition ERROR_WATCHDOG :: u8 where "ERROR_WATCHDOG = 2"

lemmas probe_consts = FLAG_IS_HOMING_def FLAG_IS_HOMING_TRIGGER_def FLAG_AWAIT_HOMING_def

abbreviation probe_timer :: "u8 \<Rightarrow> timer_id" where "probe_timer oid \<equiv> ObjT oid 0"

definition upd_filter :: "u8 \<Rightarrow> (sos_filter \<Rightarrow> sos_filter) \<Rightarrow> ('a probe_st_scheme) \<Rightarrow> ('a probe_st_scheme)" where
  "upd_filter oid f s = s\<lparr>sos_filters := (sos_filters s)(oid := f (sos_filters s oid))\<rparr>"

definition upd_probe :: "u8 \<Rightarrow> (load_cell_probe \<Rightarrow> load_cell_probe) \<Rightarrow> ('a probe_st_scheme) \<Rightarrow> ('a probe_st_scheme)" where
  "upd_probe oid f s = s\<lparr>probes := (probes s)(oid := f (probes s oid))\<rparr>"

text \<open>What \<^verbatim>\<open>oid_alloc\<close> leaves of an object: zeroes.\<close>

definition filter_zero :: "nat \<Rightarrow> sos_filter" where
  "filter_zero n = \<lparr>sf_max_sections = 0, sf_n_sections = 0, sf_coeff_frac_bits = 0, sf_is_active = False,
     sf_coeff_rounding = 0, sf_filter = replicate n \<lparr>sec_coeff = replicate 5 0, sec_state = replicate 2 0\<rparr>\<rparr>"

definition probe_zero :: load_cell_probe where
  "probe_zero = \<lparr>lc_trigger_grams = 0, lc_trigger_ticks = 0, lc_last_sample_ticks = 0, lc_rest_ticks = 0,
     lc_homing_start_time = 0, lc_ts = None, lc_safety_counts_min = 0, lc_safety_counts_max = 0, lc_tare_counts = 0,
     lc_flags = 0, lc_trigger_reason = 0, lc_error_reason = 0, lc_watchdog_max = 0, lc_watchdog_count = 0,
     lc_trigger_grams_fixed = 0, lc_grams_per_count = 0, lc_sf = None\<rparr>"

section \<open>Second order sections filter\<close>

definition overflows_int32 :: "int \<Rightarrow> bool" where
  "overflows_int32 value \<longleftrightarrow> 2 ^ 31 - 1 < value \<or> value < - (2 ^ 31)"

text \<open>A result of type \<^verbatim>\<open>int32_t\<close>.\<close>

definition int32 :: "int \<Rightarrow> 's \<Rightarrow> ('s, int) res" where
  "int32 value s = (if overflows_int32 value then Fault else Ret value s)"

text \<open>The product of two \<^verbatim>\<open>int32_t\<close> and the sum with a \<^verbatim>\<open>uint32_t\<close> fit an \<^verbatim>\<open>int64_t\<close>.\<close>

definition fixed_mul :: "sos_filter \<Rightarrow> int \<Rightarrow> int \<Rightarrow> 's \<Rightarrow> ('s, int) res" where
  "fixed_mul sf coeff value s =
     (let product = coeff * value;
          product = product + uint (sf_coeff_rounding sf)
      in if 64 \<le> unat (sf_coeff_frac_bits sf) then Fault
         else let result = product div 2 ^ unat (sf_coeff_frac_bits sf)
              in if overflows_int32 result then Shutdown ''fixed_mul: overflow'' s else Ret result s)"

definition set_state :: "u8 \<Rightarrow> nat \<Rightarrow> nat \<Rightarrow> int \<Rightarrow> ('a probe_st_scheme) \<Rightarrow> ('a probe_st_scheme)" where
  "set_state oid idx k v s = upd_filter oid (\<lambda>sf. sf\<lparr>sf_filter :=
     (sf_filter sf)[idx := (sf_filter sf ! idx)\<lparr>sec_state := (sec_state (sf_filter sf ! idx))[k := v]\<rparr>]\<rparr>) s"

text \<open>One section: the value for the next one. The terms of a sum are added from left to right.\<close>

definition filter_section :: "u8 \<Rightarrow> nat \<Rightarrow> int \<Rightarrow> ('a probe_st_scheme) \<Rightarrow> (('a probe_st_scheme), int) res" where
  "filter_section oid idx cur_val s =
     (let sf = sos_filters s oid; c = sec_coeff (sf_filter sf ! idx); z = sec_state (sf_filter sf ! idx) in
      bindR (fixed_mul sf (c ! 0) cur_val s) (\<lambda>next_val s.
      bindR (int32 (next_val + z ! 0) s) (\<lambda>next_val s.
      bindR (fixed_mul sf (c ! 1) cur_val s) (\<lambda>p1 s.
      bindR (fixed_mul sf (c ! 3) next_val s) (\<lambda>p3 s.
      bindR (int32 (p1 - p3) s) (\<lambda>d s.
      bindR (int32 (d + z ! 1) s) (\<lambda>z0 s.
      let s = set_state oid idx 0 z0 s in
      bindR (fixed_mul sf (c ! 2) cur_val s) (\<lambda>p2 s.
      bindR (fixed_mul sf (c ! 4) next_val s) (\<lambda>p4 s.
      bindR (int32 (p2 - p4) s) (\<lambda>z1 s.
      Ret next_val (set_state oid idx 1 z1 s)))))))))))"

fun filter_loop :: "u8 \<Rightarrow> nat \<Rightarrow> nat \<Rightarrow> int \<Rightarrow> ('a probe_st_scheme) \<Rightarrow> (('a probe_st_scheme), int) res" where
  "filter_loop oid idx 0 cur_val s = Ret cur_val s"
| "filter_loop oid idx (Suc n) cur_val s =
     (if length (sf_filter (sos_filters s oid)) \<le> idx then Fault
      else bindR (filter_section oid idx cur_val s) (\<lambda>next_val s. filter_loop oid (Suc idx) n next_val s))"

definition sosfilt :: "u8 \<Rightarrow> int \<Rightarrow> ('a probe_st_scheme) \<Rightarrow> (('a probe_st_scheme), int) res" where
  "sosfilt oid unfiltered_value s =
     (let sf = sos_filters s oid in
      if \<not> sf_is_active sf then Shutdown ''sos_filter not property initialized'' s
      else if sf_n_sections sf = 0 then Ret unfiltered_value s
      else filter_loop oid 0 (unat (sf_n_sections sf)) unfiltered_value s)"

text \<open>A section is seven words of four bytes.\<close>

definition command_config_sos_filter :: "u32 \<Rightarrow> u32 \<Rightarrow> ('a probe_st_scheme) \<Rightarrow> (('a probe_st_scheme), unit) res" where
  "command_config_sos_filter a0 a1 s =
     (let oid = (ucast a0 :: u8); max_sections = (ucast a1 :: u8) in
      bindR (oid_alloc_size oid Config_sos_filter (sizeof_obj s Config_sos_filter + 28 * unat max_sections) s) (\<lambda>_ s.
        let s = upd_filter oid (\<lambda>_. filter_zero (unat max_sections)) s
        in Ret () (upd_filter oid (\<lambda>sf. sf\<lparr>sf_max_sections := max_sections, sf_is_active := False\<rparr>) s)))"

definition sos_filter_oid_lookup :: "u32 \<Rightarrow> ('a probe_st_scheme) \<Rightarrow> (('a probe_st_scheme), u8) res" where
  "sos_filter_oid_lookup a0 s = sensor_oid_lookup Config_sos_filter a0 s"

definition validate_section_index :: "u8 \<Rightarrow> u8 \<Rightarrow> ('a probe_st_scheme) \<Rightarrow> (('a probe_st_scheme), unit) res" where
  "validate_section_index oid section_idx s =
     (if sf_max_sections (sos_filters s oid) \<le> section_idx
      then Shutdown ''Filter section index larger than max_sections'' s else Ret () s)"

text \<open>Storing to a section; the array has \<^verbatim>\<open>max_sections\<close> of them.\<close>

definition store_section ::
  "u8 \<Rightarrow> u8 \<Rightarrow> (sos_filter_section \<Rightarrow> sos_filter_section) \<Rightarrow> ('a probe_st_scheme) \<Rightarrow> (('a probe_st_scheme), unit) res" where
  "store_section oid idx f s =
     (if length (sf_filter (sos_filters s oid)) \<le> unat idx then Fault
      else Ret () (upd_filter oid (\<lambda>sf. sf\<lparr>sf_filter := (sf_filter sf)[unat idx := f (sf_filter sf ! unat idx)]\<rparr>) s))"

definition command_sos_filter_set_section :: "u32 list \<Rightarrow> ('a probe_st_scheme) \<Rightarrow> (('a probe_st_scheme), unit) res" where
  "command_sos_filter_set_section args s =
     bindR (sos_filter_oid_lookup (args ! 0) s) (\<lambda>oid s.
     let s = upd_filter oid (\<lambda>sf. sf\<lparr>sf_is_active := False\<rparr>) s;
         section_idx = (ucast (args ! 1) :: u8)
     in bindR (validate_section_index oid section_idx s) (\<lambda>_ s.
        store_section oid section_idx (\<lambda>sec. sec\<lparr>sec_coeff := map (\<lambda>i. sint (args ! (i + 2))) [0..<5]\<rparr>) s))"

definition command_sos_filter_set_state :: "u32 list \<Rightarrow> ('a probe_st_scheme) \<Rightarrow> (('a probe_st_scheme), unit) res" where
  "command_sos_filter_set_state args s =
     bindR (sos_filter_oid_lookup (args ! 0) s) (\<lambda>oid s.
     let s = upd_filter oid (\<lambda>sf. sf\<lparr>sf_is_active := False\<rparr>) s;
         section_idx = (ucast (args ! 1) :: u8)
     in bindR (validate_section_index oid section_idx s) (\<lambda>_ s.
        store_section oid section_idx (\<lambda>sec. sec\<lparr>sec_state := [sint (args ! 2), sint (args ! 3)]\<rparr>) s))"

text \<open>\<^verbatim>\<open>1 << (coeff_frac_bits - 1)\<close> is a shift of an \<^verbatim>\<open>int\<close>: by less than zero or to the sign bit it is
  undefined.\<close>

definition command_sos_filter_activate :: "u32 \<Rightarrow> u32 \<Rightarrow> u32 \<Rightarrow> ('a probe_st_scheme) \<Rightarrow> (('a probe_st_scheme), unit) res" where
  "command_sos_filter_activate a0 a1 a2 s =
     bindR (sos_filter_oid_lookup a0 s) (\<lambda>oid s.
     let n_sections = (ucast a1 :: u8) in
     if sf_max_sections (sos_filters s oid) < n_sections
     then Shutdown ''Filter section index larger than max_sections'' s
     else
       let s = upd_filter oid (\<lambda>sf. sf\<lparr>sf_n_sections := n_sections\<rparr>) s;
           coeff_int_bits = (ucast a2 :: u8);
           coeff_frac_bits = 31 - coeff_int_bits;
           s = upd_filter oid (\<lambda>sf. sf\<lparr>sf_coeff_frac_bits := coeff_frac_bits\<rparr>) s
       in if coeff_frac_bits = 0 \<or> 31 < coeff_frac_bits then Fault
          else Ret () (upd_filter oid (\<lambda>sf. sf\<lparr>sf_coeff_rounding := 2 ^ (unat coeff_frac_bits - 1), sf_is_active := True\<rparr>) s))"

section \<open>Load cell probe\<close>

text \<open>\<^verbatim>\<open>FIXEDQ32_FRAC_BITS - FIXEDQ48_FRAC_BITS\<close> is 29 - 15.\<close>

definition counts_to_grams :: "load_cell_probe \<Rightarrow> int \<Rightarrow> 's \<Rightarrow> ('s, int) res" where
  "counts_to_grams lce counts s =
     bindR (int32 (counts - lc_tare_counts lce) s) (\<lambda>delta s.
     let product = delta * lc_grams_per_count lce in Ret (product div 2 ^ 14) s)"

definition is_flag_set :: "u8 \<Rightarrow> load_cell_probe \<Rightarrow> bool" where
  "is_flag_set m lce \<longleftrightarrow> m AND lc_flags lce \<noteq> 0"

definition set_flag :: "u8 \<Rightarrow> load_cell_probe \<Rightarrow> load_cell_probe" where
  "set_flag m lce = lce\<lparr>lc_flags := lc_flags lce OR m\<rparr>"

definition clear_flag :: "u8 \<Rightarrow> load_cell_probe \<Rightarrow> load_cell_probe" where
  "clear_flag m lce = lce\<lparr>lc_flags := lc_flags lce AND NOT m\<rparr>"

text \<open>\<^verbatim>\<open>trsync_do_trigger(lce->ts, reason)\<close>; the pointer is NULL unless the probe is homing.\<close>

definition probe_do_trigger :: "u8 \<Rightarrow> u8 \<Rightarrow> ('a probe_st_scheme) \<Rightarrow> (('a probe_st_scheme), unit) res" where
  "probe_do_trigger oid reason s =
     (case lc_ts (probes s oid) of None \<Rightarrow> Fault | Some ts \<Rightarrow> trsync_do_trigger ts reason s)"

definition try_trigger :: "u8 \<Rightarrow> u32 \<Rightarrow> ('a probe_st_scheme) \<Rightarrow> (('a probe_st_scheme), unit) res" where
  "try_trigger oid ticks s =
     (if is_flag_set FLAG_IS_HOMING_TRIGGER (probes s oid) then Ret () s
      else let s = upd_probe oid (\<lambda>lce. set_flag FLAG_IS_HOMING_TRIGGER (lce\<lparr>lc_trigger_ticks := ticks\<rparr>)) s
           in probe_do_trigger oid (lc_trigger_reason (probes s oid)) s)"

definition trigger_error :: "u8 \<Rightarrow> u8 \<Rightarrow> ('a probe_st_scheme) \<Rightarrow> (('a probe_st_scheme), unit) res" where
  "trigger_error oid error_code s = probe_do_trigger oid (lc_error_reason (probes s oid) + error_code) s"

text \<open>\<^verbatim>\<open>abs(INT32_MIN)\<close> is undefined.\<close>

definition load_cell_probe_report_sample :: "u8 \<Rightarrow> int \<Rightarrow> ('a probe_st_scheme) \<Rightarrow> (('a probe_st_scheme), unit) res" where
  "load_cell_probe_report_sample oid sample s =
     (if \<not> is_flag_set FLAG_IS_HOMING (probes s oid) then Ret () s
      else
        let (ticks, s) = timer_read_time s;
            s = upd_probe oid (\<lambda>lce. lce\<lparr>lc_last_sample_ticks := ticks, lc_watchdog_count := 0\<rparr>) s
        in if is_flag_set FLAG_AWAIT_HOMING (probes s oid) \<and> timer_is_before ticks (lc_homing_start_time (probes s oid)) then Ret () s
        else
          let s = upd_probe oid (clear_flag FLAG_AWAIT_HOMING) s; lce = probes s oid
          in if sample \<le> lc_safety_counts_min lce \<or> lc_safety_counts_max lce \<le> sample then trigger_error oid ERROR_SAFETY_RANGE s
          else bindR (counts_to_grams lce sample s) (\<lambda>raw_grams s.
            if overflows_int32 raw_grams then trigger_error oid ERROR_OVERFLOW s
            else case lc_sf lce of None \<Rightarrow> Fault
              | Some sf \<Rightarrow> bindR (sosfilt sf raw_grams s) (\<lambda>filtered_grams s.
                  bindR (int32 \<bar>filtered_grams\<bar> s) (\<lambda>a s.
                  if lc_trigger_grams_fixed (probes s oid) \<le> a then try_trigger oid (lc_last_sample_ticks (probes s oid)) s
                  else Ret () s))))"

definition watchdog_event :: "u8 \<Rightarrow> ('a probe_st_scheme) \<Rightarrow> (('a probe_st_scheme), timer_res) res" where
  "watchdog_event oid s =
     (let lce = probes s oid in
      if \<not> is_flag_set FLAG_IS_HOMING lce \<or> is_flag_set FLAG_IS_HOMING_TRIGGER lce then Ret SF_DONE s
      else bindR (if lc_watchdog_max lce < lc_watchdog_count lce then trigger_error oid ERROR_WATCHDOG s else Ret () s) (\<lambda>_ s.
        let s = upd_probe oid (\<lambda>lce. lce\<lparr>lc_watchdog_count := lc_watchdog_count lce + 1\<rparr>) s
        in Ret SF_RESCHEDULE (set_waketime (probe_timer oid) (waketime s (probe_timer oid) + lc_rest_ticks (probes s oid)) s)))"

text \<open>\<^verbatim>\<open>MAX_TRIGGER_GRAMS\<close> is 65535, and a Q2.29 one is \<^verbatim>\<open>1 << 29\<close>.\<close>

definition set_endstop_range ::
  "u8 \<Rightarrow> int \<Rightarrow> int \<Rightarrow> int \<Rightarrow> u32 \<Rightarrow> int \<Rightarrow> ('a probe_st_scheme) \<Rightarrow> (('a probe_st_scheme), unit) res" where
  "set_endstop_range oid safety_counts_min safety_counts_max tare_counts trigger_grams grams_per_count s =
     (if \<not> safety_counts_min \<le> safety_counts_max then Shutdown ''Safety range reversed'' s
      else if 65535 < trigger_grams then Shutdown ''trigger_grams too large'' s
      else if grams_per_count < 0 \<or> 2 ^ 29 \<le> grams_per_count then Shutdown ''grams_per_count is invalid'' s
      else Ret () (upd_probe oid (\<lambda>lce. lce\<lparr>lc_safety_counts_min := safety_counts_min, lc_safety_counts_max := safety_counts_max,
             lc_tare_counts := tare_counts, lc_trigger_grams := trigger_grams,
             lc_trigger_grams_fixed := sint (push_bit 15 trigger_grams), lc_grams_per_count := grams_per_count\<rparr>) s))"

definition command_config_load_cell_probe :: "u32 \<Rightarrow> u32 \<Rightarrow> ('a probe_st_scheme) \<Rightarrow> (('a probe_st_scheme), unit) res" where
  "command_config_load_cell_probe a0 a1 s =
     (let oid = (ucast a0 :: u8) in
      bindR (oid_alloc oid Config_load_cell_probe s) (\<lambda>_ s.
      let s = upd_probe oid (\<lambda>_. probe_zero) s;
          s = s\<lparr>timers := (timers s)(probe_timer oid := timer_zero)\<rparr>
      in bindR (sos_filter_oid_lookup a1 s) (\<lambda>sf s.
         set_endstop_range oid 0 0 0 0 0 (upd_probe oid (\<lambda>lce. lce\<lparr>lc_sf := Some sf\<rparr>) s))))"

definition load_cell_probe_oid_lookup :: "u32 \<Rightarrow> ('a probe_st_scheme) \<Rightarrow> (('a probe_st_scheme), u8) res" where
  "load_cell_probe_oid_lookup a0 s = sensor_oid_lookup Config_load_cell_probe a0 s"

definition command_load_cell_probe_set_range ::
  "u32 \<Rightarrow> u32 \<Rightarrow> u32 \<Rightarrow> u32 \<Rightarrow> u32 \<Rightarrow> u32 \<Rightarrow> ('a probe_st_scheme) \<Rightarrow> (('a probe_st_scheme), unit) res" where
  "command_load_cell_probe_set_range a0 a1 a2 a3 a4 a5 s =
     bindR (load_cell_probe_oid_lookup a0 s) (\<lambda>oid s. set_endstop_range oid (sint a1) (sint a2) (sint a3) a4 (sint a5) s)"

definition command_load_cell_probe_home :: "u32 list \<Rightarrow> ('a probe_st_scheme) \<Rightarrow> (('a probe_st_scheme), unit) res" where
  "command_load_cell_probe_home args s =
     bindR (load_cell_probe_oid_lookup (args ! 0) s) (\<lambda>oid s.
     bindR (sched_del_timer (probe_timer oid) s) (\<lambda>_ s.
     let s = upd_probe oid (clear_flag FLAG_IS_HOMING_TRIGGER) s;
         s = upd_probe oid (clear_flag FLAG_IS_HOMING) s;
         s = upd_probe oid (\<lambda>lce. lce\<lparr>lc_trigger_ticks := 0, lc_ts := None\<rparr>) s
     in if args ! 3 = 0 then Ret () s
        else bindR (trsync_oid_lookup (args ! 1) s) (\<lambda>ts s.
          let s = upd_probe oid (\<lambda>lce. lce\<lparr>lc_ts := Some ts, lc_trigger_reason := ucast (args ! 2), lc_error_reason := ucast (args ! 3)\<rparr>) s;
              s = set_waketime (probe_timer oid) (args ! 4) s;
              s = upd_probe oid (\<lambda>lce. lce\<lparr>lc_homing_start_time := args ! 4, lc_rest_ticks := args ! 5,
                    lc_watchdog_max := ucast (args ! 6), lc_watchdog_count := 0\<rparr>) s;
              s = set_func (probe_timer oid) Watchdog_event s;
              s = upd_probe oid (set_flag FLAG_IS_HOMING) s;
              s = upd_probe oid (set_flag FLAG_AWAIT_HOMING) s
          in sched_add_timer (probe_timer oid) s)))"

definition command_load_cell_probe_query_state :: "u32 \<Rightarrow> ('a probe_st_scheme) \<Rightarrow> (('a probe_st_scheme), unit) res" where
  "command_load_cell_probe_query_state a0 s =
     bindR (load_cell_probe_oid_lookup a0 s) (\<lambda>oid s.
       Ret () (command_sendf ''load_cell_probe_state oid=%c is_homing_trigger=%c trigger_ticks=%u''
         [AInt (ucast oid), AInt (of_flag (is_flag_set FLAG_IS_HOMING_TRIGGER (probes s oid))), AInt (lc_trigger_ticks (probes s oid))] s))"

section \<open>The filter as a difference equation\<close>

text \<open>A product rounded to the nearest integer, and what a section is meant to compute: each output
  from the last three inputs and the last two outputs. A section does not start at rest: the host loads
  a state, which is added to the next output and to the one after it. The history of a section has the
  last two inputs, the last two outputs, and what is left of the loaded state.\<close>

definition round_mul :: "nat \<Rightarrow> int \<Rightarrow> int \<Rightarrow> int" where
  "round_mul f c x = (c * x + 2 ^ (f - 1)) div 2 ^ f"

type_synonym history = "int \<times> int \<times> int \<times> int \<times> int \<times> int"

fun section_value :: "nat \<Rightarrow> int list \<Rightarrow> history \<Rightarrow> int \<Rightarrow> int" where
  "section_value f c (x1, x2, y1, y2, e0, e1) x =
     round_mul f (c ! 0) x + round_mul f (c ! 1) x1 + round_mul f (c ! 2) x2
     - round_mul f (c ! 3) y1 - round_mul f (c ! 4) y2 + e0"

fun section_next :: "history \<Rightarrow> int \<Rightarrow> int \<Rightarrow> history" where
  "section_next (x1, x2, y1, y2, e0, e1) x y = (x, x1, y, y1, e1, 0)"

fun difference_eq :: "nat \<Rightarrow> int list \<Rightarrow> history \<Rightarrow> int list \<Rightarrow> int list" where
  "difference_eq f c h [] = []"
| "difference_eq f c h (x # xs) =
     (let y = section_value f c h x in y # difference_eq f c (section_next h x y) xs)"

text \<open>The sections one after the other, each on the whole output of the previous one and from the
  state it has.\<close>

definition loaded :: "sos_filter_section \<Rightarrow> history" where
  "loaded sec = (0, 0, 0, 0, sec_state sec ! 0, sec_state sec ! 1)"

definition cascade :: "nat \<Rightarrow> sos_filter_section list \<Rightarrow> int list \<Rightarrow> int list" where
  "cascade f secs xs = foldl (\<lambda>u sec. difference_eq f (sec_coeff sec) (loaded sec) u) xs secs"

text \<open>The same, a sample at a time through all sections, as the code does it.\<close>

fun sample_values :: "nat \<Rightarrow> int list list \<Rightarrow> history list \<Rightarrow> int \<Rightarrow> int" where
  "sample_values f (c # cs) (h # hs) x = sample_values f cs hs (section_value f c h x)"
| "sample_values f _ _ x = x"

fun sample_hist :: "nat \<Rightarrow> int list list \<Rightarrow> history list \<Rightarrow> int \<Rightarrow> history list" where
  "sample_hist f (c # cs) (h # hs) x =
     (let y = section_value f c h x in section_next h x y # sample_hist f cs hs y)"
| "sample_hist f _ _ x = []"

fun samples_values :: "nat \<Rightarrow> int list list \<Rightarrow> history list \<Rightarrow> int list \<Rightarrow> int list" where
  "samples_values f cs hs [] = []"
| "samples_values f cs hs (x # xs) = sample_values f cs hs x # samples_values f cs (sample_hist f cs hs x) xs"

definition cascade_from :: "nat \<Rightarrow> int list list \<Rightarrow> history list \<Rightarrow> int list \<Rightarrow> int list" where
  "cascade_from f cs hs xs = foldl (\<lambda>u (c, h). difference_eq f c h u) xs (zip cs hs)"

lemma sample_hist_length [simp]: "length cs = length hs \<Longrightarrow> length (sample_hist f cs hs x) = length hs"
  by (induction f cs hs x rule: sample_hist.induct) (simp_all add: Let_def)

lemma samples_one:
  "length cs = length hs \<Longrightarrow>
   samples_values f (c # cs) (h # hs) xs = samples_values f cs hs (difference_eq f c h xs)"
  by (induction xs arbitrary: h hs) (simp_all add: Let_def)

lemma samples_none: "samples_values f [] hs xs = xs"
  by (induction xs arbitrary: hs) simp_all

text \<open>Sample by sample or section by section, the outputs are the same.\<close>

lemma samples_cascade_from: "length cs = length hs \<Longrightarrow> samples_values f cs hs xs = cascade_from f cs hs xs"
  by (induction cs hs arbitrary: xs rule: list_induct2) (simp_all add: samples_one samples_none cascade_from_def)

lemma cascade_from_loaded: "cascade_from f (map sec_coeff secs) (map loaded secs) xs = cascade f secs xs"
  by (induction secs arbitrary: xs) (simp_all add: cascade_from_def cascade_def)

lemma samples_cascade: "samples_values f (map sec_coeff secs) (map loaded secs) xs = cascade f secs xs"
  by (simp add: samples_cascade_from cascade_from_loaded)

lemma round_mul_0 [simp]: "0 < f \<Longrightarrow> round_mul f c 0 = 0"
  by (cases f) (simp_all add: round_mul_def)

lemma round_mul_nearest:
  assumes "0 < f"
  shows "2 * \<bar>2 ^ f * round_mul f c x - c * x\<bar> \<le> 2 ^ f"
proof -
  define m where "m = (c * x + 2 ^ (f - 1)) mod 2 ^ f"
  have "2 ^ f * round_mul f c x = c * x + 2 ^ (f - 1) - m"
    by (simp add: round_mul_def m_def minus_mod_eq_mult_div)
  moreover have "0 \<le> m" "m < 2 ^ f" by (simp_all add: m_def)
  moreover have "(2 :: int) ^ f = 2 * 2 ^ (f - 1)" using assms by (cases f) simp_all
  ultimately show ?thesis by (simp add: abs_le_iff)
qed

text \<open>A coefficient of at most two in size at most doubles a value.\<close>

lemma round_mul_bound:
  assumes "0 < f" and "\<bar>c\<bar> \<le> 2 ^ Suc f" and "\<bar>x\<bar> \<le> 2 ^ 27"
  shows "\<bar>round_mul f c x\<bar> \<le> 2 ^ 28 + 1"
proof -
  have "\<bar>c * x\<bar> \<le> 2 ^ Suc f * 2 ^ 27" unfolding abs_mult using assms(2,3) by (intro mult_mono) simp_all
  then have "2 * \<bar>2 ^ f * round_mul f c x\<bar> \<le> 2 * (2 ^ Suc f * 2 ^ 27) + 2 ^ f"
    using round_mul_nearest [OF assms(1), of c x] abs_triangle_ineq [of "2 ^ f * round_mul f c x - c * x" "c * x"] by simp
  then have "2 ^ f * (2 * \<bar>round_mul f c x\<bar>) \<le> 2 ^ f * (2 ^ 29 + 1)"
    by (simp add: abs_mult algebra_simps)
  then have "2 * \<bar>round_mul f c x\<bar> \<le> 2 ^ 29 + 1" by (simp only: mult_le_cancel_left_pos zero_less_power zero_less_numeral)
  then show ?thesis by simp
qed

text \<open>What the state of a section stands for: the part of the next two outputs that the past decides.\<close>

fun section_ok :: "nat \<Rightarrow> history \<Rightarrow> sos_filter_section \<Rightarrow> bool" where
  "section_ok f (x1, x2, y1, y2, e0, e1) sec \<longleftrightarrow>
     (let c = sec_coeff sec in
      sec_state sec = [round_mul f (c ! 1) x1 - round_mul f (c ! 3) y1 + (round_mul f (c ! 2) x2 - round_mul f (c ! 4) y2) + e0,
                       round_mul f (c ! 2) x1 - round_mul f (c ! 4) y1 + e1])"

fun section_after :: "nat \<Rightarrow> history \<Rightarrow> int list \<Rightarrow> int \<Rightarrow> sos_filter_section" where
  "section_after f (x1, x2, y1, y2, e0, e1) c x =
     (let y = section_value f c (x1, x2, y1, y2, e0, e1) x in
      \<lparr>sec_coeff = c, sec_state =
        [round_mul f (c ! 1) x - round_mul f (c ! 3) y + (round_mul f (c ! 2) x1 - round_mul f (c ! 4) y1 + e1),
         round_mul f (c ! 2) x - round_mul f (c ! 4) y]\<rparr>)"

definition filter_ready :: "nat \<Rightarrow> sos_filter \<Rightarrow> bool" where
  "filter_ready f sf \<longleftrightarrow> sf_is_active sf \<and> unat (sf_coeff_frac_bits sf) = f \<and> 0 < f \<and> f < 32
     \<and> uint (sf_coeff_rounding sf) = 2 ^ (f - 1) \<and> unat (sf_n_sections sf) \<le> length (sf_filter sf)"

abbreviation sections_of :: "u8 \<Rightarrow> ('a probe_st_scheme) \<Rightarrow> sos_filter_section list" where
  "sections_of oid s \<equiv> sf_filter (sos_filters s oid)"

lemma upd_filter_simps [simp]:
  "sos_filters (upd_filter oid g s) = (sos_filters s)(oid := g (sos_filters s oid))"
  "upd_filter oid g (upd_filter oid h s) = upd_filter oid (\<lambda>x. g (h x)) s"
  by (simp_all add: upd_filter_def)

lemma fixed_mul_eq:
  "filter_ready f sf \<Longrightarrow> fixed_mul sf c x s =
     (if overflows_int32 (round_mul f c x) then Shutdown ''fixed_mul: overflow'' s else Ret (round_mul f c x) s)"
  by (auto simp: fixed_mul_def filter_ready_def round_mul_def Let_def)

definition put_section :: "u8 \<Rightarrow> nat \<Rightarrow> sos_filter_section \<Rightarrow> ('a probe_st_scheme) \<Rightarrow> ('a probe_st_scheme)" where
  "put_section oid idx sec s = upd_filter oid (\<lambda>sf. sf\<lparr>sf_filter := (sf_filter sf)[idx := sec]\<rparr>) s"

lemma set_both_states:
  assumes "idx < length (sections_of oid s)" and "length (sec_state (sections_of oid s ! idx)) = 2"
  shows "set_state oid idx 1 z1 (set_state oid idx 0 z0 s)
     = put_section oid idx ((sections_of oid s ! idx)\<lparr>sec_state := [z0, z1]\<rparr>) s"
proof -
  obtain a b where "sec_state (sections_of oid s ! idx) = [a, b]"
    using assms(2) by (auto simp: length_Suc_conv numeral_2_eq_2)
  then show ?thesis using assms(1) by (simp add: set_state_def put_section_def upd_filter_def)
qed

text \<open>The results of a section on the way, all of type \<^verbatim>\<open>int32_t\<close>: a section returns exactly when none
  overflows, and then it has computed its difference equation.\<close>

fun section_terms :: "nat \<Rightarrow> history \<Rightarrow> int list \<Rightarrow> int \<Rightarrow> int list" where
  "section_terms f (x1, x2, y1, y2, e0, e1) c x =
     (let y = section_value f c (x1, x2, y1, y2, e0, e1) x in
      [round_mul f (c ! 0) x, y, round_mul f (c ! 1) x, round_mul f (c ! 3) y,
       round_mul f (c ! 1) x - round_mul f (c ! 3) y,
       round_mul f (c ! 1) x - round_mul f (c ! 3) y + (round_mul f (c ! 2) x1 - round_mul f (c ! 4) y1 + e1),
       round_mul f (c ! 2) x, round_mul f (c ! 4) y, round_mul f (c ! 2) x - round_mul f (c ! 4) y])"

lemma filter_section_iff:
  assumes "filter_ready f (sos_filters s oid)" and "idx < length (sections_of oid s)"
    and "section_ok f h (sections_of oid s ! idx)"
  defines "c \<equiv> sec_coeff (sections_of oid s ! idx)"
  shows "filter_section oid idx x s = Ret y s' \<longleftrightarrow>
     (\<forall>v \<in> set (section_terms f h c x). \<not> overflows_int32 v)
     \<and> y = section_value f c h x \<and> s' = put_section oid idx (section_after f h c x) s"
proof -
  obtain x1 x2 y1 y2 e0 e1 where h: "h = (x1, x2, y1, y2, e0, e1)" by (cases h)
  have st: "length (sec_state (sections_of oid s ! idx)) = 2" using assms(3) by (simp add: h Let_def)
  have eq: "(sections_of oid s ! idx)\<lparr>sec_state := zs\<rparr> = \<lparr>sec_coeff = c, sec_state = zs\<rparr>" for zs
    by (simp add: c_def)
  have y: "round_mul f (c ! 0) x + (round_mul f (c ! 1) x1 - round_mul f (c ! 3) y1
      + (round_mul f (c ! 2) x2 - round_mul f (c ! 4) y2) + e0) = section_value f c h x" by (simp add: h)
  show ?thesis
    using assms(3) set_both_states [OF assms(2) st, unfolded One_nat_def]
    by (auto simp: filter_section_def h Let_def fixed_mul_eq [OF assms(1)] int32_def eq y [unfolded h One_nat_def] c_def [symmetric]
        simp del: section_value.simps)
qed

text \<open>All sections, for one sample.\<close>

fun sections_after :: "nat \<Rightarrow> history list \<Rightarrow> int list list \<Rightarrow> int \<Rightarrow> sos_filter_section list" where
  "sections_after f (h # hs) (c # cs) x = section_after f h c x # sections_after f hs cs (section_value f c h x)"
| "sections_after f _ _ x = []"

fun sample_terms :: "nat \<Rightarrow> history list \<Rightarrow> int list list \<Rightarrow> int \<Rightarrow> int list" where
  "sample_terms f (h # hs) (c # cs) x = section_terms f h c x @ sample_terms f hs cs (section_value f c h x)"
| "sample_terms f _ _ x = []"

definition put_sections :: "u8 \<Rightarrow> sos_filter_section list \<Rightarrow> ('a probe_st_scheme) \<Rightarrow> ('a probe_st_scheme)" where
  "put_sections oid secs s = upd_filter oid (\<lambda>sf. sf\<lparr>sf_filter := secs\<rparr>) s"

lemma put_sections_simps [simp]:
  "sos_filters (put_sections oid secs s) oid = (sos_filters s oid)\<lparr>sf_filter := secs\<rparr>"
  "put_sections oid secs (put_sections oid secs2 s) = put_sections oid secs s"
  by (simp_all add: put_sections_def)

lemma put_sections_same: "sections_of oid s = secs \<Longrightarrow> put_sections oid secs s = s"
  by (auto simp: put_sections_def upd_filter_def fun_upd_idem)

lemma put_section_at:
  "sections_of oid s = pre @ sec # post \<Longrightarrow> put_section oid (length pre) sec' s = put_sections oid (pre @ sec' # post) s"
  by (simp add: put_section_def put_sections_def upd_filter_def list_update_append)

lemma filter_ready_filter [simp]: "length secs = length (sf_filter sf) \<Longrightarrow> filter_ready f (sf\<lparr>sf_filter := secs\<rparr>) = filter_ready f sf"
  by (simp add: filter_ready_def)

lemma section_after_coeff [simp]: "sec_coeff (section_after f h c x) = c"
  by (cases h) (simp add: Let_def)

lemma sections_after_ok:
  "length hs = length cs \<Longrightarrow> list_all2 (section_ok f) (sample_hist f cs hs x) (sections_after f hs cs x)
     \<and> map sec_coeff (sections_after f hs cs x) = cs"
proof (induction hs cs arbitrary: x rule: list_induct2)
  case (Cons h hs c cs)
  then show ?case by (cases h) (simp add: Let_def del: section_value.simps)
qed simp

lemma filter_loop_iff:
  "filter_ready f (sos_filters s oid) \<Longrightarrow> sections_of oid s = pre @ mid @ post \<Longrightarrow> list_all2 (section_ok f) hs mid \<Longrightarrow>
   filter_loop oid (length pre) (length mid) x s = Ret y s' \<longleftrightarrow>
     (\<forall>v \<in> set (sample_terms f hs (map sec_coeff mid) x). \<not> overflows_int32 v)
     \<and> y = sample_values f (map sec_coeff mid) hs x
     \<and> s' = put_sections oid (pre @ sections_after f hs (map sec_coeff mid) x @ post) s"
proof (induction mid arbitrary: pre hs x s)
  case Nil
  then show ?case by (auto simp: put_sections_same)
next
  case (Cons sec mid)
  obtain h hs' where hs: "hs = h # hs'" "section_ok f h sec" "list_all2 (section_ok f) hs' mid"
    using Cons.prems(3) by (auto simp: list_all2_Cons2)
  let ?c = "sec_coeff sec" and ?idx = "length pre"
  let ?y = "section_value f ?c h x" and ?sec = "section_after f h (sec_coeff sec) x"
  let ?s = "put_sections oid (pre @ ?sec # mid @ post) s"
  have sec: "filter_section oid ?idx x s = Ret y1 s1 \<longleftrightarrow>
     (\<forall>v \<in> set (section_terms f h ?c x). \<not> overflows_int32 v) \<and> y1 = ?y \<and> s1 = ?s" for y1 s1
    using filter_section_iff [OF Cons.prems(1), where idx = ?idx and h = h and x = x and y = y1 and s' = s1] Cons.prems(2) hs(2)
      put_section_at [where oid = oid and s = s and pre = pre and sec = sec and post = "mid @ post" and sec' = ?sec] by simp
  have rest: "filter_loop oid (length (pre @ [?sec])) (length mid) ?y ?s = Ret y s' \<longleftrightarrow>
     (\<forall>v \<in> set (sample_terms f hs' (map sec_coeff mid) ?y). \<not> overflows_int32 v)
     \<and> y = sample_values f (map sec_coeff mid) hs' ?y
     \<and> s' = put_sections oid ((pre @ [?sec]) @ sections_after f hs' (map sec_coeff mid) ?y @ post) ?s"
    by (rule Cons.IH) (use Cons.prems(1,2) hs(3) in simp_all)
  have step: "filter_loop oid ?idx (length (sec # mid)) x s
     = bindR (filter_section oid ?idx x s) (\<lambda>v s. filter_loop oid (Suc ?idx) (length mid) v s)"
    using Cons.prems(2) by simp
  show ?case unfolding step using rest by (auto simp: res_simps sec hs(1))
qed

text \<open>Samples in a row.\<close>

fun filter_run :: "u8 \<Rightarrow> int list \<Rightarrow> ('a probe_st_scheme) \<Rightarrow> (('a probe_st_scheme), int list) res" where
  "filter_run oid [] s = Ret [] s"
| "filter_run oid (x # xs) s = bindR (sosfilt oid x s) (\<lambda>y s. bindR (filter_run oid xs s) (\<lambda>ys s. Ret (y # ys) s))"

fun run_terms :: "nat \<Rightarrow> history list \<Rightarrow> int list list \<Rightarrow> int list \<Rightarrow> int list" where
  "run_terms f hs cs [] = []"
| "run_terms f hs cs (x # xs) = sample_terms f hs cs x @ run_terms f (sample_hist f cs hs x) cs xs"

lemma sosfilt_iff:
  assumes "filter_ready f (sos_filters s oid)" and "sections_of oid s = secs @ post"
    and "length secs = unat (sf_n_sections (sos_filters s oid))" and "list_all2 (section_ok f) hs secs"
  shows "sosfilt oid x s = Ret y s' \<longleftrightarrow>
     (\<forall>v \<in> set (sample_terms f hs (map sec_coeff secs) x). \<not> overflows_int32 v)
     \<and> y = sample_values f (map sec_coeff secs) hs x
     \<and> s' = put_sections oid (sections_after f hs (map sec_coeff secs) x @ post) s"
proof -
  have act: "sf_is_active (sos_filters s oid)" using assms(1) by (simp add: filter_ready_def)
  have "sosfilt oid x s = filter_loop oid 0 (length secs) x s"
    using assms(3) act by (auto simp: sosfilt_def Let_def)
  then show ?thesis using filter_loop_iff [where f = f and s = s and oid = oid and pre = "[]" and mid = secs and post = post and hs = hs and x = x and y = y and s' = s'] assms by simp
qed

lemma filter_run_iff:
  "filter_ready f (sos_filters s oid) \<Longrightarrow> sections_of oid s = secs @ post \<Longrightarrow>
   length secs = unat (sf_n_sections (sos_filters s oid)) \<Longrightarrow> list_all2 (section_ok f) hs secs \<Longrightarrow>
   (\<exists>s'. filter_run oid xs s = Ret ys s') \<longleftrightarrow>
     (\<forall>v \<in> set (run_terms f hs (map sec_coeff secs) xs). \<not> overflows_int32 v)
     \<and> ys = samples_values f (map sec_coeff secs) hs xs"
proof (induction xs arbitrary: s secs hs ys)
  case (Cons x xs)
  let ?cs = "map sec_coeff secs"
  let ?secs = "sections_after f hs ?cs x" and ?y = "sample_values f ?cs hs x"
  let ?s = "put_sections oid (?secs @ post) s" and ?hs = "sample_hist f ?cs hs x"
  have len: "length hs = length ?cs" using Cons.prems(4) by (simp add: list_all2_lengthD)
  note ok = sections_after_ok [OF len, of f x]
  have lens: "length ?secs = length secs" using ok by (metis length_map)
  have "(\<exists>s'. filter_run oid xs ?s = Ret zs s') \<longleftrightarrow>
     (\<forall>v \<in> set (run_terms f ?hs (map sec_coeff ?secs) xs). \<not> overflows_int32 v)
     \<and> zs = samples_values f (map sec_coeff ?secs) ?hs xs" for zs
    by (rule Cons.IH) (use Cons.prems lens ok in simp_all)
  then have rest: "(\<exists>s'. filter_run oid xs ?s = Ret zs s') \<longleftrightarrow>
     (\<forall>v \<in> set (run_terms f ?hs ?cs xs). \<not> overflows_int32 v) \<and> zs = samples_values f ?cs ?hs xs" for zs
    using ok by simp
  show ?case
    using rest by (auto simp: res_simps sosfilt_iff [OF Cons.prems])
qed auto

text \<open>Small signals: every value between the sections within \<open>2 ^ 27\<close>, which is 4096 grams.\<close>

fun small_path :: "nat \<Rightarrow> history list \<Rightarrow> int list list \<Rightarrow> int \<Rightarrow> bool" where
  "small_path f (h # hs) (c # cs) x \<longleftrightarrow> \<bar>x\<bar> \<le> 2 ^ 27 \<and> small_path f hs cs (section_value f c h x)"
| "small_path f _ _ x \<longleftrightarrow> \<bar>x\<bar> \<le> 2 ^ 27"

fun small_signals :: "nat \<Rightarrow> history list \<Rightarrow> int list list \<Rightarrow> int list \<Rightarrow> bool" where
  "small_signals f (h # hs) (c # cs) xs \<longleftrightarrow> (\<forall>x \<in> set xs. \<bar>x\<bar> \<le> 2 ^ 27) \<and> small_signals f hs cs (difference_eq f c h xs)"
| "small_signals f _ _ xs \<longleftrightarrow> (\<forall>x \<in> set xs. \<bar>x\<bar> \<le> 2 ^ 27)"

fun small_hist :: "history \<Rightarrow> bool" where
  "small_hist (x1, x2, y1, y2, e0, e1) \<longleftrightarrow>
     \<bar>x1\<bar> \<le> 2 ^ 27 \<and> \<bar>x2\<bar> \<le> 2 ^ 27 \<and> \<bar>y1\<bar> \<le> 2 ^ 27 \<and> \<bar>y2\<bar> \<le> 2 ^ 27 \<and> \<bar>e1\<bar> \<le> 2 ^ 29"

definition small_coeffs :: "nat \<Rightarrow> int list \<Rightarrow> bool" where
  "small_coeffs f c \<longleftrightarrow> (\<forall>i \<in> set [0..<5]. \<bar>c ! i\<bar> \<le> 2 ^ Suc f)"

lemma small_path_head: "small_path f hs cs x \<Longrightarrow> \<bar>x\<bar> \<le> 2 ^ 27"
  by (cases "(f, hs, cs, x)" rule: small_path.cases) simp_all

lemma small_signals_step:
  "length hs = length cs \<Longrightarrow> small_signals f hs cs (x # xs) \<Longrightarrow>
   small_path f hs cs x \<and> small_signals f (sample_hist f cs hs x) cs xs"
proof (induction hs cs arbitrary: x xs rule: list_induct2)
  case (Cons h hs c cs)
  then show ?case
    using Cons.IH [of "section_value f c h x" "difference_eq f c (section_next h x (section_value f c h x)) xs"]
    by (simp add: Let_def)
qed simp

lemma sample_hist_small:
  "length hs = length cs \<Longrightarrow> small_path f hs cs x \<Longrightarrow> list_all small_hist hs \<Longrightarrow> list_all small_hist (sample_hist f cs hs x)"
proof (induction hs cs arbitrary: x rule: list_induct2)
  case (Cons h hs c cs)
  then show ?case using small_path_head [of f hs cs "section_value f c h x"]
    by (cases h) (simp add: Let_def del: section_value.simps)
qed simp

lemma not_overflows: "\<bar>v\<bar> < 2 ^ 31 \<Longrightarrow> \<not> overflows_int32 v"
  by (auto simp: overflows_int32_def)

lemma section_terms_small:
  assumes "0 < f" and "small_coeffs f c" and "small_hist h" and "\<bar>x\<bar> \<le> 2 ^ 27" and "\<bar>section_value f c h x\<bar> \<le> 2 ^ 27"
  shows "\<forall>v \<in> set (section_terms f h c x). \<not> overflows_int32 v"
proof -
  obtain x1 x2 y1 y2 e0 e1 where h: "h = (x1, x2, y1, y2, e0, e1)" by (cases h)
  define y where "y = section_value f c h x"
  have c: "\<bar>c ! 0\<bar> \<le> 2 ^ Suc f" "\<bar>c ! 1\<bar> \<le> 2 ^ Suc f" "\<bar>c ! 2\<bar> \<le> 2 ^ Suc f" "\<bar>c ! 3\<bar> \<le> 2 ^ Suc f" "\<bar>c ! 4\<bar> \<le> 2 ^ Suc f"
    using assms(2) by (simp_all add: small_coeffs_def)
  note r = round_mul_bound [OF assms(1)]
  have b: "\<bar>round_mul f (c ! 0) x\<bar> \<le> 2 ^ 28 + 1" "\<bar>round_mul f (c ! 1) x\<bar> \<le> 2 ^ 28 + 1" "\<bar>round_mul f (c ! 2) x\<bar> \<le> 2 ^ 28 + 1"
    "\<bar>round_mul f (c ! 3) y\<bar> \<le> 2 ^ 28 + 1" "\<bar>round_mul f (c ! 4) y\<bar> \<le> 2 ^ 28 + 1"
    "\<bar>round_mul f (c ! 2) x1\<bar> \<le> 2 ^ 28 + 1" "\<bar>round_mul f (c ! 4) y1\<bar> \<le> 2 ^ 28 + 1"
    using r [OF c(1) assms(4)] r [OF c(2) assms(4)] r [OF c(3) assms(4)]
      r [OF c(4) assms(5)] r [OF c(5) assms(5)] r [OF c(3), of x1] r [OF c(5), of y1] assms(3)
    by (simp_all add: y_def h)
  have "set (section_terms f h c x) = set [round_mul f (c ! 0) x, y, round_mul f (c ! 1) x, round_mul f (c ! 3) y,
       round_mul f (c ! 1) x - round_mul f (c ! 3) y,
       round_mul f (c ! 1) x - round_mul f (c ! 3) y + (round_mul f (c ! 2) x1 - round_mul f (c ! 4) y1 + e1),
       round_mul f (c ! 2) x, round_mul f (c ! 4) y, round_mul f (c ! 2) x - round_mul f (c ! 4) y]"
    by (simp add: y_def h Let_def)
  moreover have "\<bar>y\<bar> \<le> 2 ^ 27" "\<bar>e1\<bar> \<le> 2 ^ 29" using assms(3,5) by (simp_all add: y_def h)
  ultimately show ?thesis using b by (auto simp: overflows_int32_def)
qed

lemma sample_terms_small:
  "length hs = length cs \<Longrightarrow> 0 < f \<Longrightarrow> list_all (small_coeffs f) cs \<Longrightarrow> list_all small_hist hs \<Longrightarrow> small_path f hs cs x \<Longrightarrow>
   \<forall>v \<in> set (sample_terms f hs cs x). \<not> overflows_int32 v"
proof (induction hs cs arbitrary: x rule: list_induct2)
  case (Cons h hs c cs)
  then show ?case
    using section_terms_small [of f c h x] small_path_head [of f hs cs "section_value f c h x"] by auto
qed simp

lemma run_terms_small:
  "length hs = length cs \<Longrightarrow> 0 < f \<Longrightarrow> list_all (small_coeffs f) cs \<Longrightarrow> list_all small_hist hs \<Longrightarrow> small_signals f hs cs xs \<Longrightarrow>
   \<forall>v \<in> set (run_terms f hs cs xs). \<not> overflows_int32 v"
proof (induction xs arbitrary: hs)
  case (Cons x xs)
  note step = small_signals_step [OF Cons.prems(1,5)]
  show ?case
    using step sample_terms_small [of hs cs f x] Cons.prems Cons.IH [of "sample_hist f cs hs x"]
      sample_hist_small [of hs cs f x] by auto
qed simp

lemma small_signals_loaded:
  "(\<forall>k \<le> length secs. \<forall>v \<in> set (cascade f (take k secs) xs). \<bar>v\<bar> \<le> 2 ^ 27) \<Longrightarrow>
   small_signals f (map loaded secs) (map sec_coeff secs) xs"
proof (induction secs arbitrary: xs)
  case Nil
  then show ?case by (simp add: cascade_def)
next
  case (Cons sec secs)
  have "\<forall>v \<in> set xs. \<bar>v\<bar> \<le> 2 ^ 27" using Cons.prems [rule_format, of 0] by (simp add: cascade_def)
  moreover have "\<forall>k \<le> length secs. \<forall>v \<in> set (cascade f (take k secs) (difference_eq f (sec_coeff sec) (loaded sec) xs)). \<bar>v\<bar> \<le> 2 ^ 27"
    using Cons.prems [rule_format, of "Suc _"] by (simp add: cascade_def)
  ultimately show ?case using Cons.IH by simp
qed

lemma loaded_sections:
  "0 < f \<Longrightarrow> \<forall>sec \<in> set secs. length (sec_state sec) = 2 \<Longrightarrow> list_all2 (section_ok f) (map loaded secs) secs"
proof (induction secs)
  case (Cons sec secs)
  then obtain a b where "sec_state sec = [a, b]" by (auto simp: length_Suc_conv numeral_2_eq_2)
  then show ?case using Cons by (simp add: loaded_def Let_def)
qed simp

text \<open>Activating a filter makes it ready.\<close>

lemma activate_ready:
  assumes "sos_filter_oid_lookup a0 s = Ret oid s"
    and "sf_max_sections (sos_filters s oid) = of_nat (length (sections_of oid s))" and "length (sections_of oid s) < 256"
    and "(ucast a1 :: u8) \<le> sf_max_sections (sos_filters s oid)" and "(ucast a2 :: u8) < 31"
  shows "\<exists>s'. command_sos_filter_activate a0 a1 a2 s = Ret () s'
     \<and> filter_ready (31 - unat (ucast a2 :: u8)) (sos_filters s' oid) \<and> sections_of oid s' = sections_of oid s
     \<and> sf_n_sections (sos_filters s' oid) = ucast a1"
proof -
  define b where "b = (ucast a2 :: u8)"
  have b: "unat b < 31" using assms(5) by (simp add: b_def word_less_nat_alt)
  have f: "unat (31 - b) = 31 - unat b" using b by (simp add: unat_sub word_le_nat_alt)
  have "(2 ^ (unat (31 - b) - 1) :: u32) = of_nat (2 ^ (unat (31 - b) - 1))" by simp
  also have "unat \<dots> = 2 ^ (unat (31 - b) - 1)"
    using b f power_strict_increasing [of "unat (31 - b) - 1" 32 "2 :: nat"] by (intro unat_of_nat_small) simp
  finally have r: "uint (2 ^ (unat (31 - b) - 1) :: u32) = 2 ^ (31 - unat b - 1)"
    using f by (simp add: uint_nat)
  have "unat (ucast a1 :: u8) \<le> length (sections_of oid s)"
    using assms(2,3,4) by (simp add: word_le_nat_alt unat_of_nat_small)
  moreover have "31 - b \<noteq> 0 \<and> \<not> 31 < 31 - b" using b f by (auto simp: word_less_nat_alt word_unat_eq_iff)
  ultimately show ?thesis
    using assms(1,4) b f r
    by (auto simp: command_sos_filter_activate_def Let_def filter_ready_def b_def [symmetric])
qed

section \<open>Samples and the trigger\<close>

text \<open>A trigger that has not fired yet and the steppers it stops.\<close>

definition trigger_armed ::
  "u8 \<Rightarrow> u8 list \<Rightarrow> u8 set \<Rightarrow> nat list \<Rightarrow> (u8 \<Rightarrow> nat list) \<Rightarrow> timer_id list \<Rightarrow> ('a trsync_st_scheme) \<Rightarrow> bool" where
  "trigger_armed ts xs A fl q tls s \<longleftrightarrow> ts_flags (trsyncs s ts) AND TSF_CAN_TRIGGER \<noteq> 0
     \<and> sig_list (steppers s) (ts_signals (trsyncs s ts)) xs \<and> distinct xs \<and> set xs \<subseteq> A \<and> motors s fl q A \<and> tlist s tls"

text \<open>States that differ in their probes, filters and clock only.\<close>

definition probe_only :: "('a probe_st_scheme) \<Rightarrow> ('a probe_st_scheme) \<Rightarrow> bool" where
  "probe_only s s' \<longleftrightarrow> s' = s\<lparr>clk_pos := clk_pos s', sos_filters := sos_filters s', probes := probes s'\<rparr>"

lemma probe_only_intros [intro]:
  "probe_only s s"
  "probe_only s s1 \<Longrightarrow> probe_only s (upd_probe oid f s1)"
  "probe_only s s1 \<Longrightarrow> probe_only s (put_sections oid secs s1)"
  "probe_only s s1 \<Longrightarrow> probe_only s (s1\<lparr>clk_pos := n\<rparr>)"
  by (cases s; cases s1; simp add: probe_only_def upd_probe_def put_sections_def upd_filter_def)+

lemma probe_only_frame:
  "probe_only s s' \<Longrightarrow> trsyncs s' = trsyncs s \<and> steppers s' = steppers s \<and> timers s' = timers s
     \<and> timer_list s' = timer_list s \<and> last_insert s' = last_insert s \<and> nodes s' = nodes s \<and> move_free_list s' = move_free_list s"
  unfolding probe_only_def by (cases s; cases s') simp

lemma probe_only_armed: "probe_only s s' \<Longrightarrow> trigger_armed ts xs A fl q tls s' = trigger_armed ts xs A fl q tls s"
  using tlist_frame [of s' s tls]
  by (auto simp: trigger_armed_def motors_def free_list_def mq_list_def dest: probe_only_frame)

lemma upd_probe_simps [simp]:
  "probes (upd_probe oid f s) = (probes s)(oid := f (probes s oid))"
  "sos_filters (upd_probe oid f s) = sos_filters s" "probes (put_sections i secs s) = probes s"
  "clk_src (upd_probe oid f s) = clk_src s" "clk_pos (upd_probe oid f s) = clk_pos s" "timers (upd_probe oid f s) = timers s"
  by (simp_all add: upd_probe_def put_sections_def upd_filter_def)

text \<open>What has stopped when a trigger has fired.\<close>

definition all_stopped :: "u8 \<Rightarrow> u8 list \<Rightarrow> u8 \<Rightarrow> ('a trsync_st_scheme) \<Rightarrow> bool" where
  "all_stopped ts xs reason s \<longleftrightarrow> (\<forall>i \<in> set xs. stopped (steppers s i)) \<and> ts_trigger_reason (trsyncs s ts) = reason"

lemma probes_more: "trsync_st.more s' = trsync_st.more s \<Longrightarrow> probes s' = probes s"
  by (cases s; cases s') simp

lemma do_trigger_armed:
  assumes "trigger_armed ts xs A fl q tls s"
  shows "\<exists>s'. trsync_do_trigger ts reason s = Ret () s' \<and> all_stopped ts xs reason s' \<and> probes s' = probes s"
proof -
  obtain s' where "trsync_do_trigger ts reason s = Ret () s'" "\<forall>i \<in> set xs. stopped (steppers s' i)"
    "ts_trigger_reason (trsyncs s' ts) = reason" "trsync_st.more s' = trsync_st.more s"
    using do_trigger_stops [of s ts xs A fl q tls reason] assms unfolding trigger_armed_def by blast
  then show ?thesis using probes_more [of s' s] by (auto simp: all_stopped_def)
qed

text \<open>The reason to trigger for a sample: the probe's limits, a weight that does not fit, or the filtered
  weight at the threshold.\<close>

definition sample_grams :: "load_cell_probe \<Rightarrow> int \<Rightarrow> int" where
  "sample_grams lce sample = (sample - lc_tare_counts lce) * lc_grams_per_count lce div 2 ^ 14"

definition sample_reason :: "load_cell_probe \<Rightarrow> int \<Rightarrow> int \<Rightarrow> u8 option" where
  "sample_reason lce sample filtered =
     (if \<not> (lc_safety_counts_min lce < sample \<and> sample < lc_safety_counts_max lce) then Some (lc_error_reason lce)
      else if overflows_int32 (sample_grams lce sample) then Some (lc_error_reason lce + 1)
      else if lc_trigger_grams_fixed lce \<le> \<bar>filtered\<bar> then Some (lc_trigger_reason lce)
      else None)"

text \<open>A probe that watches for its trigger, past its start time.\<close>

definition homing :: "u8 \<Rightarrow> u8 \<Rightarrow> u8 \<Rightarrow> ('a probe_st_scheme) \<Rightarrow> bool" where
  "homing oid ts sf s \<longleftrightarrow> (let lce = probes s oid in
     is_flag_set FLAG_IS_HOMING lce \<and> \<not> is_flag_set FLAG_IS_HOMING_TRIGGER lce
     \<and> lc_ts lce = Some ts \<and> lc_sf lce = Some sf
     \<and> (is_flag_set FLAG_AWAIT_HOMING lce \<longrightarrow> \<not> timer_is_before (clk_src s (clk_pos s)) (lc_homing_start_time lce)))"

text \<open>The arithmetic of a sample stays within its types, as far as the code computes it.\<close>

definition sample_computes :: "load_cell_probe \<Rightarrow> nat \<Rightarrow> history list \<Rightarrow> int list list \<Rightarrow> int \<Rightarrow> bool" where
  "sample_computes lce f hs cs sample \<longleftrightarrow>
     (lc_safety_counts_min lce < sample \<and> sample < lc_safety_counts_max lce \<longrightarrow>
        \<not> overflows_int32 (sample - lc_tare_counts lce) \<and>
        (\<not> overflows_int32 (sample_grams lce sample) \<longrightarrow>
           \<bar>sample_values f cs hs (sample_grams lce sample)\<bar> < 2 ^ 31 \<and>
           (\<forall>v \<in> set (sample_terms f hs cs (sample_grams lce sample)). \<not> overflows_int32 v)))"

text \<open>The state in which a sample is judged.\<close>

definition sample_noted :: "u8 \<Rightarrow> ('a probe_st_scheme) \<Rightarrow> ('a probe_st_scheme)" where
  "sample_noted oid s = upd_probe oid (clear_flag FLAG_AWAIT_HOMING)
     (upd_probe oid (\<lambda>lce. lce\<lparr>lc_last_sample_ticks := clk_src s (clk_pos s), lc_watchdog_count := 0\<rparr>)
       (s\<lparr>clk_pos := Suc (clk_pos s)\<rparr>))"

lemma sample_noted_simps [simp]:
  "probes (sample_noted oid s) oid = clear_flag FLAG_AWAIT_HOMING
     ((probes s oid)\<lparr>lc_last_sample_ticks := clk_src s (clk_pos s), lc_watchdog_count := 0\<rparr>)"
  "sos_filters (sample_noted oid s) = sos_filters s" "probe_only s (sample_noted oid s)"
  by (auto simp: sample_noted_def)

lemma clear_await:
  "is_flag_set FLAG_IS_HOMING_TRIGGER (clear_flag FLAG_AWAIT_HOMING lce) = is_flag_set FLAG_IS_HOMING_TRIGGER lce"
  "is_flag_set FLAG_IS_HOMING (clear_flag FLAG_AWAIT_HOMING lce) = is_flag_set FLAG_IS_HOMING lce"
proof -
  have c: "m AND (w AND NOT FLAG_AWAIT_HOMING) = m AND w" if "m AND NOT FLAG_AWAIT_HOMING = m" for m w :: u8
    using that by (metis and.assoc and.commute)
  have "FLAG_IS_HOMING_TRIGGER AND NOT FLAG_AWAIT_HOMING = FLAG_IS_HOMING_TRIGGER" "FLAG_IS_HOMING AND NOT FLAG_AWAIT_HOMING = FLAG_IS_HOMING"
    by (simp_all add: probe_consts)
  from this [THEN c] show
    "is_flag_set FLAG_IS_HOMING_TRIGGER (clear_flag FLAG_AWAIT_HOMING lce) = is_flag_set FLAG_IS_HOMING_TRIGGER lce"
    "is_flag_set FLAG_IS_HOMING (clear_flag FLAG_AWAIT_HOMING lce) = is_flag_set FLAG_IS_HOMING lce"
    by (simp_all add: is_flag_set_def clear_flag_def)
qed

lemma clear_flag_fields [simp]:
  "lc_safety_counts_min (clear_flag m lce) = lc_safety_counts_min lce" "lc_safety_counts_max (clear_flag m lce) = lc_safety_counts_max lce"
  "lc_tare_counts (clear_flag m lce) = lc_tare_counts lce" "lc_grams_per_count (clear_flag m lce) = lc_grams_per_count lce"
  "lc_ts (clear_flag m lce) = lc_ts lce" "lc_sf (clear_flag m lce) = lc_sf lce" "lc_error_reason (clear_flag m lce) = lc_error_reason lce"
  "lc_trigger_reason (clear_flag m lce) = lc_trigger_reason lce" "lc_trigger_grams_fixed (clear_flag m lce) = lc_trigger_grams_fixed lce"
  "lc_last_sample_ticks (clear_flag m lce) = lc_last_sample_ticks lce" "lc_watchdog_count (clear_flag m lce) = lc_watchdog_count lce"
  by (simp_all add: clear_flag_def)

text \<open>A sample of a homing probe, with its filter as a function.\<close>

lemma report_sample_homing:
  assumes "homing oid ts sf s"
    and "filter_ready f (sos_filters s sf)" and "sections_of sf s = secs @ post"
    and "length secs = unat (sf_n_sections (sos_filters s sf))" and "list_all2 (section_ok f) hs secs"
    and "sample_computes (probes s oid) f hs (map sec_coeff secs) sample"
  defines "lce \<equiv> probes s oid" and "g \<equiv> sample_grams (probes s oid) sample"
    and "s1 \<equiv> sample_noted oid s"
  shows "load_cell_probe_report_sample oid sample s =
     (if \<not> (lc_safety_counts_min lce < sample \<and> sample < lc_safety_counts_max lce) then trsync_do_trigger ts (lc_error_reason lce) s1
      else if overflows_int32 g then trsync_do_trigger ts (lc_error_reason lce + 1) s1
      else let s2 = put_sections sf (sections_after f hs (map sec_coeff secs) g @ post) s1 in
        if lc_trigger_grams_fixed lce \<le> \<bar>sample_values f (map sec_coeff secs) hs g\<bar>
        then trsync_do_trigger ts (lc_trigger_reason lce)
               (upd_probe oid (\<lambda>lce. set_flag FLAG_IS_HOMING_TRIGGER (lce\<lparr>lc_trigger_ticks := clk_src s (clk_pos s)\<rparr>)) s2)
        else Ret () s2)"
proof -
  have h: "is_flag_set FLAG_IS_HOMING lce" "\<not> is_flag_set FLAG_IS_HOMING_TRIGGER lce" "lc_ts lce = Some ts" "lc_sf lce = Some sf"
    "\<not> (is_flag_set FLAG_AWAIT_HOMING lce \<and> timer_is_before (clk_src s (clk_pos s)) (lc_homing_start_time lce))"
    using assms(1) by (auto simp: homing_def Let_def lce_def)
  have fl: "is_flag_set m (lce\<lparr>lc_last_sample_ticks := a, lc_watchdog_count := b\<rparr>) = is_flag_set m lce" for m a b
    by (simp add: is_flag_set_def)
  have start: "load_cell_probe_report_sample oid sample s =
     (if sample \<le> lc_safety_counts_min lce \<or> lc_safety_counts_max lce \<le> sample then trigger_error oid ERROR_SAFETY_RANGE s1
      else bindR (counts_to_grams (probes s1 oid) sample s1) (\<lambda>raw_grams s.
            if overflows_int32 raw_grams then trigger_error oid ERROR_OVERFLOW s
            else bindR (sosfilt sf raw_grams s) (\<lambda>filtered_grams s.
                  bindR (int32 \<bar>filtered_grams\<bar> s) (\<lambda>a s.
                  if lc_trigger_grams_fixed (probes s oid) \<le> a then try_trigger oid (lc_last_sample_ticks (probes s oid)) s
                  else Ret () s))))"
    unfolding load_cell_probe_report_sample_def lce_def s1_def sample_noted_def
    by (simp add: timer_read_time_def Let_def h [unfolded lce_def] fl [unfolded lce_def] del: de_Morgan_conj cong: if_cong)
  have err: "trigger_error oid c s1 = trsync_do_trigger ts (lc_error_reason lce + c) s1" for c
    using h(3) by (simp add: trigger_error_def probe_do_trigger_def s1_def lce_def)
  have grams: "counts_to_grams (probes s1 oid) sample s1 = Ret g s1"
    if "\<not> overflows_int32 (sample - lc_tare_counts lce)"
    using that by (simp add: counts_to_grams_def int32_def s1_def lce_def g_def sample_grams_def)
  let ?s2 = "put_sections sf (sections_after f hs (map sec_coeff secs) g @ post) s1"
  have filt: "sosfilt sf g s1 = Ret (sample_values f (map sec_coeff secs) hs g) ?s2"
    if "\<forall>v \<in> set (sample_terms f hs (map sec_coeff secs) g). \<not> overflows_int32 v"
    using that assms(2-5) by (subst sosfilt_iff [where post = post]) (simp_all add: s1_def)
  have trig: "try_trigger oid (lc_last_sample_ticks (probes ?s2 oid)) ?s2 = trsync_do_trigger ts (lc_trigger_reason lce)
               (upd_probe oid (\<lambda>lce. set_flag FLAG_IS_HOMING_TRIGGER (lce\<lparr>lc_trigger_ticks := clk_src s (clk_pos s)\<rparr>)) ?s2)"
    using h(2,3) by (simp add: try_trigger_def s1_def clear_await fl [unfolded lce_def] lce_def Let_def probe_do_trigger_def set_flag_def)
  have thr: "lc_trigger_grams_fixed (probes ?s2 oid) = lc_trigger_grams_fixed lce" by (simp add: s1_def lce_def)
  show ?thesis
  proof (cases "lc_safety_counts_min lce < sample \<and> sample < lc_safety_counts_max lce")
    case False
    then have "sample \<le> lc_safety_counts_min lce \<or> lc_safety_counts_max lce \<le> sample" by linarith
    with False show ?thesis unfolding start by (simp only: err ERROR_SAFETY_RANGE_def if_True if_False simp_thms add_0_right)
  next
    case True
    then have c: "\<not> overflows_int32 (sample - lc_tare_counts lce)"
      "\<not> overflows_int32 g \<Longrightarrow> \<bar>sample_values f (map sec_coeff secs) hs g\<bar> < 2 ^ 31"
      "\<not> overflows_int32 g \<Longrightarrow> \<forall>v \<in> set (sample_terms f hs (map sec_coeff secs) g). \<not> overflows_int32 v"
      using assms(6) unfolding sample_computes_def lce_def g_def by blast+
    have "\<not> (sample \<le> lc_safety_counts_min lce \<or> lc_safety_counts_max lce \<le> sample)" using True by linarith
    then have step: "load_cell_probe_report_sample oid sample s =
      (if overflows_int32 g then trigger_error oid ERROR_OVERFLOW s1
            else bindR (sosfilt sf g s1) (\<lambda>filtered_grams s.
                  bindR (int32 \<bar>filtered_grams\<bar> s) (\<lambda>a s.
                  if lc_trigger_grams_fixed (probes s oid) \<le> a then try_trigger oid (lc_last_sample_ticks (probes s oid)) s
                  else Ret () s)))"
      unfolding start grams [OF c(1)] by simp
    show ?thesis
    proof (cases "overflows_int32 g")
      case True
      with \<open>_ \<and> _\<close> show ?thesis unfolding step by (simp add: err ERROR_OVERFLOW_def)
    next
      case False
      have "\<not> overflows_int32 \<bar>sample_values f (map sec_coeff secs) hs g\<bar>" using c(2) [OF False] by (simp add: overflows_int32_def)
      with \<open>_ \<and> _\<close> False show ?thesis
        unfolding step filt [OF c(3) [OF False]] by (simp only: if_False if_True simp_thms bindR.simps int32_def thr trig Let_def)
    qed
  qed
qed

section \<open>The watchdog\<close>

text \<open>Watchdog events in a row, with no sample between them.\<close>

fun watchdog_run :: "nat \<Rightarrow> u8 \<Rightarrow> ('a probe_st_scheme) \<Rightarrow> (('a probe_st_scheme), timer_res list) res" where
  "watchdog_run 0 oid s = Ret [] s"
| "watchdog_run (Suc k) oid s = bindR (watchdog_run k oid s) (\<lambda>rs s. bindR (watchdog_event oid s) (\<lambda>r s. Ret (rs @ [r]) s))"

definition watching :: "u8 \<Rightarrow> ('a probe_st_scheme) \<Rightarrow> bool" where
  "watching oid s \<longleftrightarrow> is_flag_set FLAG_IS_HOMING (probes s oid) \<and> \<not> is_flag_set FLAG_IS_HOMING_TRIGGER (probes s oid)"

text \<open>A state after \<open>k\<close> events that did not fire.\<close>

definition watched :: "nat \<Rightarrow> u8 \<Rightarrow> ('a probe_st_scheme) \<Rightarrow> ('a probe_st_scheme)" where
  "watched k oid s = set_waketime (probe_timer oid) (waketime s (probe_timer oid) + of_nat k * lc_rest_ticks (probes s oid))
     (upd_probe oid (\<lambda>lce. lce\<lparr>lc_watchdog_count := lc_watchdog_count lce + of_nat k\<rparr>) s)"

lemma watched_simps [simp]:
  "probes (watched k oid s) oid = (probes s oid)\<lparr>lc_watchdog_count := lc_watchdog_count (probes s oid) + of_nat k\<rparr>"
  "waketime (watched k oid s) (probe_timer oid) = waketime s (probe_timer oid) + of_nat k * lc_rest_ticks (probes s oid)"
  "trsyncs (watched k oid s) = trsyncs s" "steppers (watched k oid s) = steppers s"
  by (simp_all add: watched_def set_waketime_def upd_probe_def)

lemma watched_0: "watched 0 oid s = s"
  by (cases s) (simp add: watched_def set_waketime_def upd_probe_def)

lemma watched_Suc:
  "set_waketime (probe_timer oid) (waketime (watched k oid s) (probe_timer oid) + lc_rest_ticks (probes s oid))
     (upd_probe oid (\<lambda>lce. lce\<lparr>lc_watchdog_count := lc_watchdog_count lce + 1\<rparr>) (watched k oid s)) = watched (Suc k) oid s"
  by (cases s) (simp add: watched_def set_waketime_def upd_probe_def algebra_simps)

lemma watched_armed: "trigger_armed ts xs A fl q tls (watched k oid s) = trigger_armed ts xs A fl q tls s"
proof -
  have "tlist (watched k oid s) tls = tlist s tls"
    by (rule tlist_frame) (auto simp: watched_def set_waketime_def upd_probe_def)
  moreover have "nodes (watched k oid s) = nodes s" "move_free_list (watched k oid s) = move_free_list s"
    by (simp_all add: watched_def set_waketime_def upd_probe_def)
  ultimately show ?thesis by (simp add: trigger_armed_def motors_def free_list_def mq_list_def)
qed

lemma watchdog_quiet:
  assumes "watching oid s" and "lc_watchdog_count (probes s oid) = 0"
  shows "k \<le> Suc (unat (lc_watchdog_max (probes s oid))) \<Longrightarrow> k \<le> 255 \<Longrightarrow>
    watchdog_run k oid s = Ret (replicate k SF_RESCHEDULE) (watched k oid s)"
proof (induction k)
  case 0
  then show ?case by (simp add: watched_0)
next
  case (Suc k)
  let ?s = "watched k oid s"
  have "unat (of_nat k :: u8) = k" using Suc.prems by (intro unat_of_nat_small) simp
  then have "\<not> lc_watchdog_max (probes s oid) < of_nat k" using Suc.prems by (simp add: word_less_nat_alt)
  moreover have "is_flag_set m (probes ?s oid) = is_flag_set m (probes s oid)" for m by (simp add: is_flag_set_def)
  ultimately have "watchdog_event oid ?s = Ret SF_RESCHEDULE (watched (Suc k) oid s)"
    using assms watched_Suc [of oid k s] by (simp add: watchdog_event_def watching_def Let_def)
  then show ?case using Suc by (simp add: replicate_append_same)
qed

section \<open>Properties\<close>

text \<open>C16 (sosfilt_difference_equation). The fixed point filter is the cascade of its second order sections.
  From any state of its sections, such as the one the host loads, the outputs for any samples are those of
  the difference equations of the sections, each product rounded to the nearest integer and the two words of
  a section's state added to its first two outputs, applied one after the other to the whole signal,
  whenever the filter returns. It returns whenever the coefficients are at most two in size, the signals
  between the sections within 4096 grams, and the second state words within \<open>2\<^sup>2\<^sup>9\<close>.\<close>

theorem sosfilt_difference_equation:
  assumes "filter_ready f (sos_filters s oid)" and "sections_of oid s = secs @ post"
    and "length secs = unat (sf_n_sections (sos_filters s oid))" and "\<forall>sec \<in> set secs. length (sec_state sec) = 2"
  shows "(\<forall>ys s'. filter_run oid xs s = Ret ys s' \<longrightarrow> ys = cascade f secs xs)
    \<and> (list_all (small_coeffs f) (map sec_coeff secs) \<and> (\<forall>sec \<in> set secs. \<bar>sec_state sec ! 1\<bar> \<le> 2 ^ 29)
         \<and> (\<forall>k \<le> length secs. \<forall>v \<in> set (cascade f (take k secs) xs). \<bar>v\<bar> \<le> 2 ^ 27)
       \<longrightarrow> (\<exists>s'. filter_run oid xs s = Ret (cascade f secs xs) s'))"
proof -
  let ?cs = "map sec_coeff secs" and ?hs = "map loaded secs"
  have f: "0 < f" using assms(1) by (simp add: filter_ready_def)
  note run = filter_run_iff [OF assms(1-3) loaded_sections [OF f assms(4)], of xs]
  note eq = samples_cascade [of f secs xs]
  show ?thesis
  proof (intro conjI allI impI)
    show "ys = cascade f secs xs" if "filter_run oid xs s = Ret ys s'" for ys s'
      using run [of ys] that eq by simp
  next
    assume a: "list_all (small_coeffs f) ?cs \<and> (\<forall>sec \<in> set secs. \<bar>sec_state sec ! 1\<bar> \<le> 2 ^ 29) \<and>
      (\<forall>k \<le> length secs. \<forall>v \<in> set (cascade f (take k secs) xs). \<bar>v\<bar> \<le> 2 ^ 27)"
    have "\<forall>v \<in> set (run_terms f ?hs ?cs xs). \<not> overflows_int32 v"
    proof (rule run_terms_small [OF _ f])
      show "small_signals f ?hs ?cs xs" using small_signals_loaded a by blast
      show "list_all small_hist ?hs" using a by (simp add: list_all_iff loaded_def)
    qed (use a in simp_all)
    then show "\<exists>s'. filter_run oid xs s = Ret (cascade f secs xs) s'"
      unfolding run eq by simp
  qed
qed

text \<open>C14 (probe_stops_steppers). A sample of a homing probe decides, and stops the motors. Outside the safety
  range, or with a weight that does not fit, it triggers with the error reason; with a filtered weight
  at the threshold or above it triggers with the trigger reason and records the time of the sample; and
  every stepper of the trigger is stopped when the sample is done. Otherwise no stepper and no trigger
  changes. In each case the watchdog starts over.\<close>

theorem probe_stops_steppers:
  assumes "homing oid ts sf s" and "trigger_armed ts xs A fl q tls s"
    and "filter_ready f (sos_filters s sf)" and "sections_of sf s = secs @ post"
    and "length secs = unat (sf_n_sections (sos_filters s sf))" and "list_all2 (section_ok f) hs secs"
    and "sample_computes (probes s oid) f hs (map sec_coeff secs) sample"
  shows "\<exists>s'. load_cell_probe_report_sample oid sample s = Ret () s'
    \<and> (case sample_reason (probes s oid) sample
              (sample_values f (map sec_coeff secs) hs (sample_grams (probes s oid) sample)) of
         None \<Rightarrow> steppers s' = steppers s \<and> trsyncs s' = trsyncs s
       | Some reason \<Rightarrow> all_stopped ts xs reason s')
    \<and> lc_watchdog_count (probes s' oid) = 0
    \<and> (is_flag_set FLAG_IS_HOMING_TRIGGER (probes s' oid) \<longrightarrow> lc_trigger_ticks (probes s' oid) = clk_src s (clk_pos s))"
proof -
  let ?lce = "probes s oid" and ?s1 = "sample_noted oid s"
  let ?g = "sample_grams ?lce sample"
  let ?v = "sample_values f (map sec_coeff secs) hs ?g"
  let ?s2 = "put_sections sf (sections_after f hs (map sec_coeff secs) ?g @ post) ?s1"
  let ?s3 = "upd_probe oid (\<lambda>lce. set_flag FLAG_IS_HOMING_TRIGGER (lce\<lparr>lc_trigger_ticks := clk_src s (clk_pos s)\<rparr>)) ?s2"
  note eq = report_sample_homing [OF assms(1,3-7)]
  have no: "\<not> is_flag_set FLAG_IS_HOMING_TRIGGER (probes ?s1 oid)"
    using assms(1) by (simp add: homing_def Let_def clear_await) (simp add: is_flag_set_def)
  have p: "probe_only s ?s1" "probe_only s ?s2" "probe_only s ?s3" by (simp_all add: probe_only_intros(2,3))
  note fire = do_trigger_armed [OF assms(2) [folded probe_only_armed [OF p(1)]]]
    do_trigger_armed [OF assms(2) [folded probe_only_armed [OF p(3)]]]
  consider "\<not> (lc_safety_counts_min ?lce < sample \<and> sample < lc_safety_counts_max ?lce)"
    | "lc_safety_counts_min ?lce < sample \<and> sample < lc_safety_counts_max ?lce" "overflows_int32 ?g"
    | "lc_safety_counts_min ?lce < sample \<and> sample < lc_safety_counts_max ?lce" "\<not> overflows_int32 ?g" "lc_trigger_grams_fixed ?lce \<le> \<bar>?v\<bar>"
    | "lc_safety_counts_min ?lce < sample \<and> sample < lc_safety_counts_max ?lce" "\<not> overflows_int32 ?g" "\<not> lc_trigger_grams_fixed ?lce \<le> \<bar>?v\<bar>"
    by blast
  then show ?thesis
  proof cases
    case 1
    then have r: "sample_reason ?lce sample ?v = Some (lc_error_reason ?lce)" by (simp add: sample_reason_def)
    show ?thesis unfolding eq r using fire(1) [of "lc_error_reason ?lce"] no 1 by auto
  next
    case 2
    then have r: "sample_reason ?lce sample ?v = Some (lc_error_reason ?lce + 1)" by (simp add: sample_reason_def)
    show ?thesis unfolding eq r using fire(1) [of "lc_error_reason ?lce + 1"] no 2 by auto
  next
    case 3
    then have r: "sample_reason ?lce sample ?v = Some (lc_trigger_reason ?lce)" by (simp add: sample_reason_def)
    show ?thesis unfolding eq r using fire(2) [of "lc_trigger_reason ?lce"] 3 by (auto simp: set_flag_def)
  next
    case 4
    then have r: "sample_reason ?lce sample ?v = None" by (simp add: sample_reason_def)
    show ?thesis unfolding eq r using 4 no probe_only_frame [OF p(2)] by simp
  qed
qed

text \<open>C15 (watchdog_fires). When the samples stop, the watchdog stops the motors. The first
  \<open>watchdog_max + 1\<close> events after the last sample, one rest time apart, change nothing but the time and
  the count; the next one triggers with the watchdog's error reason and stops every stepper of the trigger.
  With the 3 that the host sends (\<^verbatim>\<open>WATCHDOG_MAX\<close> of \<^verbatim>\<open>src/klippy/extras/load_cell_probe.py\<close>) and a rest time of one
  sample period it is the fifth event that stops the motors, although \<^verbatim>\<open>src/docs/Load_Cell.md\<close> says that the
  watchdog fires after two sample periods.\<close>

theorem watchdog_fires:
  assumes "watching oid s" and "lc_ts (probes s oid) = Some ts" and "trigger_armed ts xs A fl q tls s"
    and "lc_watchdog_count (probes s oid) = 0" and "lc_watchdog_max (probes s oid) < 255"
  shows "(\<forall>k \<le> Suc (unat (lc_watchdog_max (probes s oid))).
       \<exists>s'. watchdog_run k oid s = Ret (replicate k SF_RESCHEDULE) s' \<and> steppers s' = steppers s \<and> trsyncs s' = trsyncs s
         \<and> waketime s' (probe_timer oid) = waketime s (probe_timer oid) + of_nat k * lc_rest_ticks (probes s oid))
     \<and> (\<exists>rs s'. watchdog_run (unat (lc_watchdog_max (probes s oid)) + 2) oid s = Ret rs s'
         \<and> all_stopped ts xs (lc_error_reason (probes s oid) + 2) s')"
proof -
  let ?n = "Suc (unat (lc_watchdog_max (probes s oid)))"
  let ?s = "watched ?n oid s"
  have n: "?n \<le> 255" using assms(5) by (simp add: word_less_nat_alt)
  have quiet: "watchdog_run k oid s = Ret (replicate k SF_RESCHEDULE) (watched k oid s)" if "k \<le> ?n" for k
    using watchdog_quiet [OF assms(1,4) that] that n by simp
  have un: "unat (of_nat ?n :: u8) = ?n" using n by (intro unat_of_nat_small) simp
  have late: "lc_watchdog_max (probes s oid) < of_nat ?n" unfolding word_less_nat_alt un by simp
  obtain s1 where s1: "trsync_do_trigger ts (lc_error_reason (probes s oid) + 2) ?s = Ret () s1"
    "all_stopped ts xs (lc_error_reason (probes s oid) + 2) s1"
    using do_trigger_armed [OF assms(3) [folded watched_armed [of ts xs A fl q tls ?n oid s]]] by blast
  have "is_flag_set m (probes ?s oid) = is_flag_set m (probes s oid)" for m by (simp add: is_flag_set_def)
  then have "\<exists>s'. watchdog_event oid ?s = Ret SF_RESCHEDULE s' \<and> steppers s' = steppers s1 \<and> trsyncs s' = trsyncs s1"
    using s1(1) late assms(1,2,4)
    by (simp add: watchdog_event_def watching_def Let_def trigger_error_def probe_do_trigger_def ERROR_WATCHDOG_def)
       (simp add: upd_probe_def set_waketime_def)
  then have "\<exists>rs s'. watchdog_run (Suc ?n) oid s = Ret rs s' \<and> all_stopped ts xs (lc_error_reason (probes s oid) + 2) s'"
    using quiet [of ?n] s1(2) by (auto simp: all_stopped_def simp del: replicate.simps)
  then show ?thesis using quiet by auto
qed

section \<open>Examples\<close>

definition probe_boot :: "sensors_st \<Rightarrow> probe_st" where
  "probe_boot b = sensors_st.extend b (probe_st.fields (\<lambda>_. filter_zero 0) (\<lambda>_. probe_zero))"

text \<open>A homing probe of one gram per count, with a filter of two sections that halves and differentiates,
  and a trigger with one moving stepper.\<close>

definition example_lce :: load_cell_probe where
  "example_lce = probe_zero\<lparr>lc_flags := FLAG_IS_HOMING, lc_ts := Some 4, lc_sf := Some 0, lc_safety_counts_min := - 1000,
     lc_safety_counts_max := 1000, lc_grams_per_count := 2 ^ 14, lc_trigger_grams_fixed := 40, lc_trigger_reason := 7,
     lc_error_reason := 10, lc_watchdog_max := 1, lc_rest_ticks := 50\<rparr>"

definition example_sections :: "sos_filter_section list" where
  "example_sections = [\<lparr>sec_coeff = [1, 0, 0, 0, 0], sec_state = [0, 0]\<rparr>, \<lparr>sec_coeff = [2, - 2, 0, 0, 0], sec_state = [0, 3]\<rparr>]"

definition example_filter :: sos_filter where
  "example_filter = \<lparr>sf_max_sections = 2, sf_n_sections = 2, sf_coeff_frac_bits = 1, sf_is_active = True,
     sf_coeff_rounding = 1, sf_filter = example_sections\<rparr>"

definition example_probe :: probe_st where
  "example_probe = (probe_boot example_sensors)\<lparr>probes := (\<lambda>_. example_lce), sos_filters := (\<lambda>_. example_filter),
     steppers := (\<lambda>_. stepper_zero\<lparr>st_count := 6, st_sig_func := True\<rparr>),
     trsyncs := (\<lambda>_. trsync_zero\<lparr>ts_flags := TSF_CAN_TRIGGER, ts_signals := Some 2\<rparr>)\<rparr>"

lemma example_probe_simps [simp]:
  "probes example_probe i = example_lce" "sos_filters example_probe i = example_filter"
  "steppers example_probe i = stepper_zero\<lparr>st_count := 6, st_sig_func := True\<rparr>"
  "trsyncs example_probe i = trsync_zero\<lparr>ts_flags := TSF_CAN_TRIGGER, ts_signals := Some 2\<rparr>"
  "tlist example_probe [PeriodicT, SentinelT]" "free_list example_probe []"
  by (simp_all add: tlist_def free_list_def example_probe_def probe_boot_def probe_st.defs example_sensors_def sensors_boot_def
      gpio_st.defs sensors_st.defs example_outputs_def example_gpio_def gpio_boot_def trsync_boot_def trsync_st.defs
      example_stepper_def stepper_boot_def stepper_st.defs basecmd_boot_def basecmd.defs sched_boot_def sched.defs
      timers_init_def timer_funcs_ok_def)

lemma example_probe_armed: "trigger_armed 4 [2] {2} [] (\<lambda>_. []) [PeriodicT, SentinelT] example_probe"
  by (simp add: trigger_armed_def motors_def mq_list_def stepper_zero_def tsf_consts)

lemma example_filter_ready: "filter_ready 1 example_filter" "sf_filter example_filter = example_sections @ []"
  "length example_sections = unat (sf_n_sections example_filter)"
  by (simp_all add: filter_ready_def example_filter_def example_sections_def)

theorem sosfilt_difference_equation_witness:
  "\<exists>s'. filter_run 0 [10, 20, 5] example_probe = Ret [5, 8, - 7] s'"
proof -
  have "cascade 1 example_sections [10, 20, 5] = [5, 8, - 7]"
    by (simp add: cascade_def example_sections_def Let_def round_mul_def loaded_def)
  moreover have "\<forall>k \<le> length example_sections. \<forall>v \<in> set (cascade 1 (take k example_sections) [10, 20, 5]). \<bar>v\<bar> \<le> 2 ^ 27"
  proof (intro allI impI)
    fix k assume "k \<le> length example_sections"
    then have "k = 0 \<or> k = 1 \<or> k = 2" by (auto simp: example_sections_def)
    then show "\<forall>v \<in> set (cascade 1 (take k example_sections) [10, 20, 5]). \<bar>v\<bar> \<le> 2 ^ 27"
      by (elim disjE) (simp_all add: cascade_def example_sections_def Let_def round_mul_def loaded_def)
  qed
  moreover have "list_all (small_coeffs 1) (map sec_coeff example_sections)"
    by (simp add: example_sections_def small_coeffs_def upt_rec)
  moreover have "\<forall>sec \<in> set example_sections. length (sec_state sec) = 2 \<and> \<bar>sec_state sec ! 1\<bar> \<le> 2 ^ 29"
    by (simp add: example_sections_def)
  ultimately show ?thesis
    using sosfilt_difference_equation [of 1 example_probe 0 example_sections "[]" "[10, 20, 5]"] example_filter_ready by simp
qed

theorem probe_stops_steppers_witness:
  "\<exists>s'. load_cell_probe_report_sample 9 80 example_probe = Ret () s' \<and> stopped (steppers s' 2) \<and> ts_trigger_reason (trsyncs s' 4) = 7"
proof -
  let ?cs = "map sec_coeff example_sections" and ?hs = "[(0, 0, 0, 0, 0, 0), (0, 0, 0, 0, 0, 3)] :: history list"
  have g: "sample_grams example_lce 80 = 80" by (simp add: sample_grams_def example_lce_def probe_zero_def)
  have v: "sample_values 1 ?cs ?hs 80 = 40" by (simp add: example_sections_def round_mul_def)
  have "homing 9 4 0 example_probe"
    by (simp add: homing_def Let_def is_flag_set_def example_lce_def probe_consts)
  moreover have "list_all2 (section_ok 1) ?hs example_sections"
    by (simp add: example_sections_def Let_def)
  moreover have "sample_computes example_lce 1 ?hs ?cs 80"
    unfolding sample_computes_def g v
    by (simp add: example_lce_def probe_zero_def overflows_int32_def example_sections_def Let_def round_mul_def)
  moreover have "sample_reason example_lce 80 40 = Some 7"
    unfolding sample_reason_def g by (simp add: example_lce_def overflows_int32_def)
  ultimately show ?thesis
    using probe_stops_steppers [of 9 4 0 example_probe "[2]" "{2}" "[]" "\<lambda>_. []" "[PeriodicT, SentinelT]" 1 example_sections "[]" ?hs 80]
      example_filter_ready example_probe_armed by (auto simp: g v [unfolded One_nat_def] all_stopped_def)
qed

theorem watchdog_fires_witness:
  "\<exists>rs s'. watchdog_run 3 9 example_probe = Ret rs s' \<and> stopped (steppers s' 2) \<and> ts_trigger_reason (trsyncs s' 4) = 12"
proof -
  have l: "watching 9 example_probe" "lc_ts (probes example_probe 9) = Some 4" "lc_watchdog_count (probes example_probe 9) = 0"
    "lc_watchdog_max (probes example_probe 9) < 255" "unat (lc_watchdog_max (probes example_probe 9)) + 2 = 3"
    "lc_error_reason (probes example_probe 9) + 2 = 12"
    by (simp_all add: watching_def is_flag_set_def example_lce_def probe_zero_def probe_consts)
  have "\<exists>rs s'. watchdog_run 3 9 example_probe = Ret rs s' \<and> all_stopped 4 [2] 12 s'"
    using watchdog_fires [OF l(1,2) example_probe_armed l(3,4)] unfolding l(5,6) by (rule conjunct2)
  then show ?thesis by (auto simp: all_stopped_def)
qed

end
