(* ===== verification/Tmcuart.thy ===== *)
theory Tmcuart
  imports Probe
begin

text \<open>
  Messages to stepper drivers over a single wire serial line (\<^verbatim>\<open>src/src/tmcuart.c\<close>). The timer of a
  line is \<open>ObjT oid 0\<close>; its callback is the one \<open>t_func\<close> names. A bit is sent by toggling the output at
  the right time and received by reading the input once per bit time. The direction of a pin is the
  board's: \<^verbatim>\<open>gpio_out_reset\<close> drives the pin, \<^verbatim>\<open>gpio_in_reset\<close> leaves what the outputs drive as it is.
\<close>

section \<open>State\<close>

record tmcuart_s =
  tu_tx_pin :: u32
  tu_rx_pin :: u32
  tu_flags :: u8
  tu_pos :: u8
  tu_read_count :: u8
  tu_write_count :: u8
  tu_cfg_bit_time :: u32
  tu_bit_time :: u32
  tu_data :: "u8 list"

record uart_st = probe_st +
  uarts :: "u8 \<Rightarrow> tmcuart_s"
  tmcuart_wake :: u8

definition TU_LINE_HIGH :: u8 where "TU_LINE_HIGH = 1"
definition TU_ACTIVE :: u8 where "TU_ACTIVE = 2"
definition TU_READ_SYNC :: u8 where "TU_READ_SYNC = 4"
definition TU_REPORT :: u8 where "TU_REPORT = 8"
definition TU_PULLUP :: u8 where "TU_PULLUP = 16"
definition TU_SINGLE_WIRE :: u8 where "TU_SINGLE_WIRE = 32"

lemmas tu_consts = TU_LINE_HIGH_def TU_ACTIVE_def TU_READ_SYNC_def TU_REPORT_def TU_PULLUP_def TU_SINGLE_WIRE_def

abbreviation uart_timer :: "u8 \<Rightarrow> timer_id" where "uart_timer oid \<equiv> ObjT oid 0"

definition upd_uart :: "u8 \<Rightarrow> (tmcuart_s \<Rightarrow> tmcuart_s) \<Rightarrow> ('a uart_st_scheme) \<Rightarrow> ('a uart_st_scheme)" where
  "upd_uart oid f s = s\<lparr>uarts := (uarts s)(oid := f (uarts s oid))\<rparr>"

definition uart_zero :: tmcuart_s where
  "uart_zero = \<lparr>tu_tx_pin = 0, tu_rx_pin = 0, tu_flags = 0, tu_pos = 0, tu_read_count = 0, tu_write_count = 0,
     tu_cfg_bit_time = 0, tu_bit_time = 0, tu_data = replicate 10 0\<rparr>"

definition gpio_out_reset :: "u32 \<Rightarrow> bool \<Rightarrow> ('a board_scheme) \<Rightarrow> ('a board_scheme)" where
  "gpio_out_reset pin val s = s\<lparr>pin_out := (pin_out s)(pin := val)\<rparr>"

definition gpio_in_reset :: "u32 \<Rightarrow> bool \<Rightarrow> ('a board_scheme) \<Rightarrow> ('a board_scheme)" where
  "gpio_in_reset pin pull_up s = s"

text \<open>\<^verbatim>\<open>t->timer.waketime += d\<close>\<close>

definition add_waketime :: "u8 \<Rightarrow> u32 \<Rightarrow> ('a uart_st_scheme) \<Rightarrow> ('a uart_st_scheme)" where
  "add_waketime oid d s = set_waketime (uart_timer oid) (waketime s (uart_timer oid) + d) s"

section \<open>The end of a message\<close>

definition tmcuart_reset_line :: "u8 \<Rightarrow> ('a uart_st_scheme) \<Rightarrow> ('a uart_st_scheme)" where
  "tmcuart_reset_line oid s =
     (let t = uarts s oid;
          s = (if tu_flags t AND TU_SINGLE_WIRE \<noteq> 0 then gpio_out_reset (tu_tx_pin t) True s
               else gpio_out_write (tu_tx_pin t) True s)
      in upd_uart oid (\<lambda>t. t\<lparr>tu_flags := (tu_flags t AND (TU_PULLUP OR TU_SINGLE_WIRE)) OR TU_LINE_HIGH\<rparr>) s)"

definition tmcuart_finalize :: "u8 \<Rightarrow> ('a uart_st_scheme) \<Rightarrow> (('a uart_st_scheme), timer_res) res" where
  "tmcuart_finalize oid s =
     (let s = tmcuart_reset_line oid s;
          s = upd_uart oid (\<lambda>t. t\<lparr>tu_flags := tu_flags t OR TU_REPORT\<rparr>) s
      in Ret SF_DONE (sched_wake_task tmcuart_wake_update s))"

section \<open>Reception\<close>

text \<open>A read or write of \<^verbatim>\<open>data\<close> past its ten bytes is a fault.\<close>

definition tmcuart_read_event :: "u8 \<Rightarrow> ('a uart_st_scheme) \<Rightarrow> (('a uart_st_scheme), timer_res) res" where
  "tmcuart_read_event oid s =
     (let t = uarts s oid;
          (v, s) = gpio_in_read (tu_rx_pin t) s;
          pos = tu_pos t; m = push_bit (unat (pos AND 0x07)) 1 :: u8; idx = unat (drop_bit 3 pos)
      in if length (tu_data t) \<le> idx then Fault
         else
           let data = tu_data t ! idx;
               data = (if v then data OR m else data AND NOT m);
               s = upd_uart oid (\<lambda>t. t\<lparr>tu_data := (tu_data t)[idx := data]\<rparr>) s;
               pos = pos + 1
           in if tu_read_count (uarts s oid) \<le> pos then tmcuart_finalize oid s
              else let s = upd_uart oid (\<lambda>t. t\<lparr>tu_pos := pos\<rparr>) s
                   in Ret SF_RESCHEDULE (add_waketime oid (tu_bit_time (uarts s oid)) s))"

definition tmcuart_read_sync_event :: "u8 \<Rightarrow> ('a uart_st_scheme) \<Rightarrow> (('a uart_st_scheme), timer_res) res" where
  "tmcuart_read_sync_event oid s =
     (let (v, s) = gpio_in_read (tu_rx_pin (uarts s oid)) s in
      if \<not> v \<and> tu_flags (uarts s oid) AND TU_READ_SYNC \<noteq> 0 then
        let s = upd_uart oid (\<lambda>t. t\<lparr>tu_pos := 0\<rparr>) s;
            s = set_func (uart_timer oid) Tmcuart_read_event s
        in tmcuart_read_event oid s
      else
        let s = (if v then upd_uart oid (\<lambda>t. t\<lparr>tu_flags := tu_flags t OR TU_READ_SYNC\<rparr>) s else s);
            pos = tu_pos (uarts s oid);
            s = upd_uart oid (\<lambda>t. t\<lparr>tu_pos := pos + 1\<rparr>) s
        in if 64 \<le> pos then tmcuart_finalize oid (upd_uart oid (\<lambda>t. t\<lparr>tu_read_count := 0\<rparr>) s)
           else Ret SF_RESCHEDULE (add_waketime oid (tu_bit_time (uarts s oid)) s))"

section \<open>Transmission\<close>

definition tmcuart_send_finish_event :: "u8 \<Rightarrow> ('a uart_st_scheme) \<Rightarrow> (('a uart_st_scheme), timer_res) res" where
  "tmcuart_send_finish_event oid s =
     (let t = uarts s oid in
      if tu_read_count t = 0 then tmcuart_finalize oid s
      else
        let s = (if tu_flags t AND TU_SINGLE_WIRE \<noteq> 0 then gpio_in_reset (tu_rx_pin t) (tu_flags t AND TU_PULLUP \<noteq> 0) s else s);
            s = upd_uart oid (\<lambda>t. t\<lparr>tu_pos := 0\<rparr>) s;
            s = set_func (uart_timer oid) Tmcuart_read_sync_event s
        in Ret SF_RESCHEDULE (add_waketime oid (tu_bit_time t * 4) s))"

lemma send_loop_decreases:
  fixes pos wc :: u8
  assumes "\<not> wc \<le> pos + 1"
  shows "(if pos + 1 = - 1 then 256 else unat wc - unat (pos + 1)) < (if pos = - 1 then 256 else unat wc - unat pos)"
proof -
  have lt: "unat (pos + 1) < unat wc" using assms by (simp add: word_le_nat_alt)
  have wc: "unat wc < 256" using unat_lt_pow [of wc] by simp
  have "pos + 1 \<noteq> - 1"
  proof
    assume "pos + 1 = - 1"
    moreover have "unat (- 1 :: u8) = 255" by (simp only: unsigned_minus_1_eq_mask mask_eq_exp_minus_1) simp
    ultimately have "unat (pos + 1) = 255" by (simp only:)
    with lt wc show False by simp
  qed
  moreover have "unat (pos + 1) = unat pos + 1" if "pos \<noteq> - 1"
    using that unatSuc [of pos] by (metis add.commute eq_neg_iff_add_eq_0 Suc_eq_plus1)
  ultimately show ?thesis using lt wc by auto
qed

text \<open>The search for the next toggle: its position, or no position when the message is over, and the time
  until then. \<open>None\<close> is a read past the data.\<close>

function send_loop :: "u8 list \<Rightarrow> u8 \<Rightarrow> u8 \<Rightarrow> u32 \<Rightarrow> u8 \<Rightarrow> u32 \<Rightarrow> (u8 option \<times> u32) option" where
  "send_loop data write_count line_state bit_time pos nxt =
     (let pos = pos + 1 in
      if write_count \<le> pos then Some (None, nxt)
      else if length data \<le> unat (drop_bit 3 pos) then None
      else let b = drop_bit (unat (pos AND 0x07)) (data ! unat (drop_bit 3 pos)) AND 0x01 in
        if b \<noteq> line_state then Some (Some pos, nxt)
        else send_loop data write_count line_state bit_time pos (nxt + bit_time))"
  by pat_completeness auto

termination
  by (relation "measure (\<lambda>(_, wc, _, _, pos, _). if pos = - 1 then 256 else unat wc - unat pos)")
    (use send_loop_decreases in auto)

declare send_loop.simps [simp del]

definition tmcuart_send_event :: "u8 \<Rightarrow> ('a uart_st_scheme) \<Rightarrow> (('a uart_st_scheme), timer_res) res" where
  "tmcuart_send_event oid s =
     (let s = gpio_out_toggle_noirq (tu_tx_pin (uarts s oid)) s;
          s = upd_uart oid (\<lambda>t. t\<lparr>tu_flags := tu_flags t XOR TU_LINE_HIGH\<rparr>) s;
          t = uarts s oid;
          line_state = tu_flags t AND TU_LINE_HIGH
      in case send_loop (tu_data t) (tu_write_count t) line_state (tu_bit_time t) (tu_pos t) (tu_bit_time t) of
           None \<Rightarrow> Fault
         | Some (None, nxt) \<Rightarrow>
             Ret SF_RESCHEDULE (add_waketime oid nxt (set_func (uart_timer oid) Tmcuart_send_finish_event s))
         | Some (Some pos, nxt) \<Rightarrow> Ret SF_RESCHEDULE (add_waketime oid nxt (upd_uart oid (\<lambda>t. t\<lparr>tu_pos := pos\<rparr>) s)))"

text \<open>\<^verbatim>\<open>DIV_ROUND_CLOSEST(x, 4)\<close>: the division of C rounds towards zero.\<close>

definition div_round_closest4 :: "int \<Rightarrow> int" where
  "div_round_closest4 x = (let y = x + 2 in if y < 0 then - ((- y) div 4) else y div 4)"

definition tmcuart_send_sync_event :: "u8 \<Rightarrow> ('a uart_st_scheme) \<Rightarrow> (('a uart_st_scheme), timer_res) res" where
  "tmcuart_send_sync_event oid s =
     (let s = gpio_out_toggle_noirq (tu_tx_pin (uarts s oid)) s;
          (cur, s) = timer_read_time s;
          s = upd_uart oid (\<lambda>t. t\<lparr>tu_flags := tu_flags t XOR TU_LINE_HIGH\<rparr>) s;
          s = upd_uart oid (\<lambda>t. t\<lparr>tu_pos := tu_pos t + 1\<rparr>) s;
          t = uarts s oid
      in if tu_pos t = 1 then
           let offset = cur - waketime s (uart_timer oid);
               s = upd_uart oid (\<lambda>t. t\<lparr>tu_bit_time := offset\<rparr>) s
           in Ret SF_RESCHEDULE (add_waketime oid (tu_cfg_bit_time t) s)
         else if 5 \<le> tu_pos t then
           let offset = cur - waketime s (uart_timer oid); start_offset = tu_bit_time t;
               diff = offset - start_offset
           in if 2 ^ 31 \<le> sint diff + 2 then Fault
              else let s = upd_uart oid (\<lambda>t. t\<lparr>tu_bit_time := tu_cfg_bit_time t + word_of_int (div_round_closest4 (sint diff))\<rparr>) s;
                       s = set_func (uart_timer oid) Tmcuart_send_event s
                   in Ret SF_RESCHEDULE (add_waketime oid (diff + tu_bit_time (uarts s oid)) s)
         else Ret SF_RESCHEDULE (add_waketime oid (tu_cfg_bit_time t) s))"

section \<open>Commands and tasks\<close>

definition command_config_tmcuart :: "u32 \<Rightarrow> u32 \<Rightarrow> u32 \<Rightarrow> u32 \<Rightarrow> u32 \<Rightarrow> ('a uart_st_scheme) \<Rightarrow> (('a uart_st_scheme), unit) res" where
  "command_config_tmcuart a0 rx_pin a2 tx_pin a4 s =
     (let oid = (ucast a0 :: u8); pull_up = (ucast a2 :: u8) in
      bindR (oid_alloc oid Config_tmcuart s) (\<lambda>_ s.
      let s = upd_uart oid (\<lambda>_. uart_zero) s;
          s = s\<lparr>timers := (timers s)(uart_timer oid := timer_zero)\<rparr>
      in bindR (gpio_in_setup rx_pin (of_flag (pull_up \<noteq> 0)) s) (\<lambda>_ s.
         let s = upd_uart oid (\<lambda>t. t\<lparr>tu_rx_pin := rx_pin\<rparr>) s
         in bindR (gpio_out_setup tx_pin True s) (\<lambda>_ s.
            Ret () (upd_uart oid (\<lambda>t. t\<lparr>tu_tx_pin := tx_pin, tu_cfg_bit_time := a4,
              tu_flags := TU_LINE_HIGH OR (if pull_up \<noteq> 0 then TU_PULLUP else 0)
                          OR (if rx_pin = tx_pin then TU_SINGLE_WIRE else 0)\<rparr>) s)))))"

text \<open>The argument \<open>write\<close> is the memory from the pointer \<^verbatim>\<open>command_decode_ptr(args[2])\<close> on.\<close>

definition command_tmcuart_send :: "u32 \<Rightarrow> u32 \<Rightarrow> u8 list \<Rightarrow> u32 \<Rightarrow> ('a uart_st_scheme) \<Rightarrow> (('a uart_st_scheme), unit) res" where
  "command_tmcuart_send a0 a1 write a3 s =
     bindR (sensor_oid_lookup Config_tmcuart a0 s) (\<lambda>oid s.
     if tu_flags (uarts s oid) AND TU_ACTIVE \<noteq> 0 then Ret () s
     else
       let write_len = (ucast a1 :: u8); read_len = (ucast a3 :: u8) in
       if 10 < write_len \<or> 10 < read_len then Shutdown ''tmcuart data too large'' s
       else if length write < unat write_len then Fault
       else
         let s = upd_uart oid (\<lambda>t. t\<lparr>tu_data := take (unat write_len) write @ drop (unat write_len) (tu_data t)\<rparr>) s;
             s = upd_uart oid (\<lambda>t. t\<lparr>tu_pos := 0,
                   tu_flags := (tu_flags t AND (TU_LINE_HIGH OR TU_PULLUP OR TU_SINGLE_WIRE)) OR TU_ACTIVE,
                   tu_write_count := write_len * 8, tu_read_count := read_len * 8\<rparr>) s;
             s = (if 1 \<le> write_len \<and> tu_data (uarts s oid) ! 0 AND 0x3f = 0x2a
                  then set_func (uart_timer oid) Tmcuart_send_sync_event s
                  else set_func (uart_timer oid) Tmcuart_send_event
                         (upd_uart oid (\<lambda>t. t\<lparr>tu_bit_time := tu_cfg_bit_time t\<rparr>) s));
             (now, s) = timer_read_time s;
             s = set_waketime (uart_timer oid) (now + timer_from_us s 200) s
         in sched_add_timer (uart_timer oid) s)"

definition tmcuart_task_oid :: "u8 \<Rightarrow> ('a uart_st_scheme) \<Rightarrow> ('a uart_st_scheme)" where
  "tmcuart_task_oid oid s =
     (if tu_flags (uarts s oid) AND TU_REPORT = 0 then s
      else let s = upd_uart oid (\<lambda>t. t\<lparr>tu_flags := tu_flags t AND NOT TU_REPORT\<rparr>) s
           in command_sendf ''tmcuart_response oid=%c read=%*s''
                [AInt (ucast oid), ABuf (take (unat (tu_read_count (uarts s oid)) div 8) (tu_data (uarts s oid)))] s)"

definition tmcuart_task :: "('a uart_st_scheme) \<Rightarrow> ('a uart_st_scheme)" where
  "tmcuart_task s =
     (let (woken, s) = sched_check_wake tmcuart_wake tmcuart_wake_update s in
      if \<not> woken then s else fold tmcuart_task_oid (foreach_oid Config_tmcuart s) s)"

definition tmcuart_shutdown :: "('a uart_st_scheme) \<Rightarrow> ('a uart_st_scheme)" where
  "tmcuart_shutdown s = fold tmcuart_reset_line (foreach_oid Config_tmcuart s) s"

text \<open>The correction of the bit time is within half a tick per bit of what was measured when the last edge of
  the sync nibble was later than the first one; for an earlier one it is not.\<close>

lemma div_round_closest4_late: "- 2 \<le> x \<Longrightarrow> \<bar>4 * div_round_closest4 x - x\<bar> \<le> 2"
  by (simp add: div_round_closest4_def Let_def)

lemma div_round_closest4_early: "div_round_closest4 (- 5) = 0"
  by (simp add: div_round_closest4_def)

section \<open>Bits of a message\<close>

definition data_bit :: "u8 list \<Rightarrow> nat \<Rightarrow> bool" where
  "data_bit data i = bit (data ! (i div 8)) (i mod 8)"

lemma uart_upd_simps [simp]:
  "uarts (upd_uart oid f s) = (uarts s)(oid := f (uarts s oid))" "timers (upd_uart oid f s) = timers s"
  "pin_out (upd_uart oid f s) = pin_out s" "pin_src (upd_uart oid f s) = pin_src s" "pin_pos (upd_uart oid f s) = pin_pos s"
  "uarts (add_waketime oid d s) = uarts s" "pin_out (add_waketime oid d s) = pin_out s"
  "pin_src (add_waketime oid d s) = pin_src s" "pin_pos (add_waketime oid d s) = pin_pos s"
  "waketime (add_waketime oid d s) (uart_timer oid) = waketime s (uart_timer oid) + d"
  "t_func (timers (add_waketime oid d s) (uart_timer oid)) = t_func (timers s (uart_timer oid))"
  "uarts (set_func t fn s) = uarts s" "pin_out (set_func t fn s) = pin_out s"
  "t_func (timers (set_func t fn s) t) = fn" "waketime (set_func t fn s) t' = waketime s t'"
  "uarts (gpio_out_toggle_noirq p s) = uarts s" "timers (gpio_out_toggle_noirq p s) = timers s"
  "pin_out (gpio_out_toggle_noirq p s) = (pin_out s)(p := \<not> pin_out s p)"
  by (simp_all add: upd_uart_def add_waketime_def set_waketime_def set_func_def gpio_out_toggle_noirq_def)

lemma bit_position:
  assumes "i < 256"
  shows "unat (drop_bit 3 (of_nat i :: u8)) = i div 8" and "unat ((of_nat i :: u8) AND 7) = i mod 8"
proof -
  have u: "unat (of_nat i :: u8) = i" using assms by (intro unat_of_nat_small) simp
  show "unat (drop_bit 3 (of_nat i :: u8)) = i div 8" by (simp add: drop_bit_eq_div unat_div u)
  have "(of_nat i :: u8) AND 7 = take_bit 3 (of_nat i)" by (simp add: take_bit_eq_mask mask_eq_exp_minus_1)
  then show "unat ((of_nat i :: u8) AND 7) = i mod 8" by (simp add: take_bit_eq_mod unat_mod u)
qed

lemma bit_of_byte: "drop_bit n (x :: u8) AND 1 = (if bit x n then 1 else 0)"
  by (simp add: and_one_eq odd_iff_mod_2_eq_one bit_iff_odd_drop_bit)

lemma line_of_flags: "(f :: u8) AND TU_LINE_HIGH = (if bit f 0 then 1 else 0)"
  using bit_of_byte [of 0 f] by (simp add: TU_LINE_HIGH_def)

text \<open>The positions from \<open>p\<close> on where a bit differs from the one before it.\<close>

definition edges_from :: "u8 list \<Rightarrow> nat \<Rightarrow> nat \<Rightarrow> nat list" where
  "edges_from data p n = filter (\<lambda>i. data_bit data i \<noteq> data_bit data (i - 1)) [p..<n]"

lemma edges_from_end: "n \<le> p \<Longrightarrow> edges_from data p n = []"
  by (simp add: edges_from_def)

lemma edges_from_step:
  "p < n \<Longrightarrow> edges_from data p n = (if data_bit data p \<noteq> data_bit data (p - 1) then [p] else []) @ edges_from data (Suc p) n"
  by (simp add: edges_from_def upt_conv_Cons)

lemma first_edge:
  "edges_from data (Suc p) n = q # qs \<Longrightarrow>
   p < q \<and> q < n \<and> data_bit data q \<noteq> data_bit data p \<and> edges_from data (Suc q) n = qs"
proof (induction "n - p" arbitrary: p)
  case 0
  then show ?case by (simp add: edges_from_end)
next
  case (Suc k)
  have lt: "Suc p < n" using Suc.prems edges_from_end [of n "Suc p" data] by (cases "Suc p < n") simp_all
  show ?case
  proof (cases "data_bit data (Suc p) = data_bit data p")
    case True
    then have "edges_from data (Suc (Suc p)) n = q # qs" using edges_from_step [OF lt, of data] Suc.prems by simp
    then have "Suc p < q \<and> q < n \<and> data_bit data q \<noteq> data_bit data (Suc p) \<and> edges_from data (Suc q) n = qs"
      by (intro Suc.hyps(1)) (use Suc.hyps(2) lt in simp_all)
    with True show ?thesis by simp
  next
    case False
    then show ?thesis using edges_from_step [OF lt, of data] Suc.prems lt by auto
  qed
qed

text \<open>The loop finds the next edge.\<close>

lemma send_loop_edge:
  assumes "unat wc \<le> 8 * length data"
  shows "p < unat wc \<Longrightarrow> data_bit data p = l \<Longrightarrow>
    send_loop data wc (if l then 1 else 0) bt (of_nat p) nxt =
      (case edges_from data (Suc p) (unat wc) of
         [] \<Rightarrow> Some (None, nxt + of_nat (unat wc - Suc p) * bt)
       | q # _ \<Rightarrow> Some (Some (of_nat q), nxt + of_nat (q - Suc p) * bt))"
proof (induction "unat wc - p" arbitrary: p nxt)
  case (Suc k)
  have wc: "unat wc < 256" using unat_lt_pow [of wc] by simp
  have pos: "of_nat p + 1 = (of_nat (Suc p) :: u8)" by simp
  have le: "wc \<le> of_nat (Suc p) \<longleftrightarrow> unat wc \<le> Suc p"
    using Suc.prems(1) wc unat_of_nat_small [of "Suc p", where ?'a = 8] by (simp add: word_le_nat_alt del: of_nat_Suc)
  show ?case
  proof (cases "unat wc \<le> Suc p")
    case True
    then show ?thesis by (subst send_loop.simps) (simp add: pos le edges_from_end del: of_nat_Suc)
  next
    case False
    have idx: "Suc p div 8 < length data" using assms False by (simp add: less_mult_imp_div_less mult.commute)
    note bp = bit_position [of "Suc p"]
    have b: "drop_bit (unat ((of_nat (Suc p) :: u8) AND 7)) (data ! unat (drop_bit 3 (of_nat (Suc p) :: u8))) AND 1
        = (if data_bit data (Suc p) then 1 else 0)"
      using False wc bp by (simp add: bit_of_byte data_bit_def del: of_nat_Suc)
    have st: "send_loop data wc (if l then 1 else 0) bt (of_nat p) nxt =
       (if data_bit data (Suc p) \<noteq> l then Some (Some (of_nat (Suc p)), nxt)
        else send_loop data wc (if l then 1 else 0) bt (of_nat (Suc p)) (nxt + bt))"
      using False idx b bp wc by (subst send_loop.simps) (auto simp: pos le Let_def simp del: of_nat_Suc)
    have ed: "edges_from data (Suc p) (unat wc) =
       (if data_bit data (Suc p) \<noteq> l then [Suc p] else []) @ edges_from data (Suc (Suc p)) (unat wc)"
      using edges_from_step [of "Suc p" "unat wc" data] False Suc.prems(2) by simp
    show ?thesis
    proof (cases "data_bit data (Suc p) = l")
      case True
      have rec: "send_loop data wc (if l then 1 else 0) bt (of_nat (Suc p)) (nxt + bt) =
        (case edges_from data (Suc (Suc p)) (unat wc) of
         [] \<Rightarrow> Some (None, nxt + bt + of_nat (unat wc - Suc (Suc p)) * bt)
       | q # _ \<Rightarrow> Some (Some (of_nat q), nxt + bt + of_nat (q - Suc (Suc p)) * bt))"
        using Suc.hyps False True by (intro Suc.hyps(1)) simp_all
      have time: "of_nat (n - Suc p) * bt = bt + of_nat (n - Suc (Suc p)) * bt" if "Suc p < n" for n
      proof -
        have "n - Suc p = Suc (n - Suc (Suc p))" using that by simp
        then show ?thesis by (simp add: algebra_simps)
      qed
      have later: "Suc p < q" if "edges_from data (Suc (Suc p)) (unat wc) = q # qs" for q qs
      proof -
        have "q \<in> set (edges_from data (Suc (Suc p)) (unat wc))" using that by simp
        then show ?thesis by (simp add: edges_from_def)
      qed
      show ?thesis
      proof (cases "edges_from data (Suc (Suc p)) (unat wc)")
        case Nil
        then show ?thesis using True rec time [of "unat wc"] False unfolding st ed by (simp add: add.assoc del: of_nat_Suc)
      next
        case (Cons q qs)
        then show ?thesis using True rec time [OF later [OF Cons]] unfolding st ed by (simp add: add.assoc del: of_nat_Suc)
      qed
    next
      case False
      then show ?thesis unfolding st ed by simp
    qed
  qed
qed simp

section \<open>Sending\<close>

text \<open>A message being sent, whose next toggle is the one for bit \<open>p\<close>, due now.\<close>

definition uart_sending :: "nat \<Rightarrow> u8 \<Rightarrow> ('a uart_st_scheme) \<Rightarrow> bool" where
  "uart_sending p oid s \<longleftrightarrow> (let t = uarts s oid in
     t_func (timers s (uart_timer oid)) = Tmcuart_send_event \<and> tu_pos t = of_nat p \<and> p < unat (tu_write_count t)
     \<and> unat (tu_write_count t) \<le> 8 * length (tu_data t)
     \<and> pin_out s (tu_tx_pin t) = bit (tu_flags t) 0 \<and> data_bit (tu_data t) p \<noteq> bit (tu_flags t) 0)"

text \<open>The toggles of a message: the time and the new level of each.\<close>

fun send_toggles :: "nat \<Rightarrow> u8 \<Rightarrow> ('a uart_st_scheme) \<Rightarrow> (('a uart_st_scheme), (u32 \<times> bool) list) res" where
  "send_toggles 0 oid s = Ret [] s"
| "send_toggles (Suc n) oid s =
     (if t_func (timers s (uart_timer oid)) \<noteq> Tmcuart_send_event then Ret [] s
      else bindR (tmcuart_send_event oid s) (\<lambda>_ s'.
           bindR (send_toggles n oid s') (\<lambda>rs s''. Ret ((waketime s (uart_timer oid), pin_out s' (tu_tx_pin (uarts s oid))) # rs) s'')))"

lemma bit_line_xor: "bit ((f :: u8) XOR TU_LINE_HIGH) 0 \<longleftrightarrow> \<not> bit f 0"
  by (simp add: TU_LINE_HIGH_def bit_xor_iff)

lemma send_event_toggles:
  assumes "uart_sending p oid s"
  defines "t \<equiv> uarts s oid"
  defines "es \<equiv> edges_from (tu_data t) (Suc p) (unat (tu_write_count t))"
  shows "\<exists>s'. tmcuart_send_event oid s = Ret SF_RESCHEDULE s' \<and> pin_out s' (tu_tx_pin t) = data_bit (tu_data t) p
     \<and> tu_tx_pin (uarts s' oid) = tu_tx_pin t \<and> tu_data (uarts s' oid) = tu_data t
     \<and> tu_write_count (uarts s' oid) = tu_write_count t \<and> tu_bit_time (uarts s' oid) = tu_bit_time t
     \<and> (case es of
          [] \<Rightarrow> t_func (timers s' (uart_timer oid)) = Tmcuart_send_finish_event
            \<and> waketime s' (uart_timer oid) = waketime s (uart_timer oid) + of_nat (unat (tu_write_count t) - p) * tu_bit_time t
        | q # _ \<Rightarrow> uart_sending q oid s' \<and> p < q
            \<and> waketime s' (uart_timer oid) = waketime s (uart_timer oid) + of_nat (q - p) * tu_bit_time t)"
proof -
  have u: "t_func (timers s (uart_timer oid)) = Tmcuart_send_event" "tu_pos t = of_nat p" "p < unat (tu_write_count t)"
    "unat (tu_write_count t) \<le> 8 * length (tu_data t)" "pin_out s (tu_tx_pin t) = bit (tu_flags t) 0"
    "data_bit (tu_data t) p = (\<not> bit (tu_flags t) 0)"
    using assms(1) by (auto simp: uart_sending_def Let_def t_def)
  let ?l = "data_bit (tu_data t) p"
  have line: "(tu_flags t XOR TU_LINE_HIGH) AND TU_LINE_HIGH = (if ?l then 1 else 0)"
    unfolding line_of_flags bit_line_xor u(6) ..
  note loop = send_loop_edge [OF u(4,3) refl, of "tu_bit_time t" "tu_bit_time t", folded es_def]
  have time: "of_nat (n - p) * bt = bt + of_nat (n - Suc p) * bt" if "p < n" for n and bt :: u32
  proof -
    have "n - p = Suc (n - Suc p)" using that by simp
    then show ?thesis by (simp add: algebra_simps)
  qed
  show ?thesis
  proof (cases es)
    case Nil
    have "send_loop (tu_data t) (tu_write_count t) (if ?l then 1 else 0) (tu_bit_time t) (of_nat p) (tu_bit_time t)
       = Some (None, of_nat (unat (tu_write_count t) - p) * tu_bit_time t)"
      using loop time [OF u(3), of "tu_bit_time t"] by (simp add: Nil)
    then show ?thesis
      using u line by (simp add: tmcuart_send_event_def Nil t_def Let_def)
  next
    case (Cons q qs)
    then have q: "p < q" "q < unat (tu_write_count t)" "data_bit (tu_data t) q \<noteq> ?l"
      using first_edge [of "tu_data t" p "unat (tu_write_count t)" q qs] by (simp_all add: es_def)
    have "send_loop (tu_data t) (tu_write_count t) (if ?l then 1 else 0) (tu_bit_time t) (of_nat p) (tu_bit_time t)
       = Some (Some (of_nat q), of_nat (q - p) * tu_bit_time t)"
      using loop time [OF q(1), of "tu_bit_time t"] by (simp add: Cons)
    then show ?thesis
      using u line q
      by (simp add: tmcuart_send_event_def Cons t_def Let_def uart_sending_def bit_line_xor)
  qed
qed

lemma send_toggles_from:
  assumes "uart_sending p oid s" and "unat (tu_write_count (uarts s oid)) - p \<le> k"
    and "waketime s (uart_timer oid) = w0 + of_nat p * tu_bit_time (uarts s oid)"
  shows "\<exists>s'. send_toggles k oid s = Ret (map (\<lambda>i. (w0 + of_nat i * tu_bit_time (uarts s oid), data_bit (tu_data (uarts s oid)) i))
        (p # edges_from (tu_data (uarts s oid)) (Suc p) (unat (tu_write_count (uarts s oid))))) s'
     \<and> t_func (timers s' (uart_timer oid)) = Tmcuart_send_finish_event
     \<and> waketime s' (uart_timer oid) = w0 + of_nat (unat (tu_write_count (uarts s oid))) * tu_bit_time (uarts s oid)"
  using assms
proof (induction k arbitrary: p s)
  case 0
  then show ?case by (simp add: uart_sending_def Let_def)
next
  case (Suc k)
  let ?t = "uarts s oid" and ?n = "unat (tu_write_count (uarts s oid))"
  let ?ev = "\<lambda>i. (w0 + of_nat i * tu_bit_time ?t, data_bit (tu_data ?t) i)"
  have p: "p < ?n" "t_func (timers s (uart_timer oid)) = Tmcuart_send_event"
    using Suc.prems(1) by (simp_all add: uart_sending_def Let_def)
  obtain s1 where s1: "tmcuart_send_event oid s = Ret SF_RESCHEDULE s1" "pin_out s1 (tu_tx_pin ?t) = data_bit (tu_data ?t) p"
    "tu_data (uarts s1 oid) = tu_data ?t" "tu_write_count (uarts s1 oid) = tu_write_count ?t"
    "tu_bit_time (uarts s1 oid) = tu_bit_time ?t"
    "case edges_from (tu_data ?t) (Suc p) ?n of
          [] \<Rightarrow> t_func (timers s1 (uart_timer oid)) = Tmcuart_send_finish_event
            \<and> waketime s1 (uart_timer oid) = waketime s (uart_timer oid) + of_nat (?n - p) * tu_bit_time ?t
        | q # _ \<Rightarrow> uart_sending q oid s1 \<and> p < q
            \<and> waketime s1 (uart_timer oid) = waketime s (uart_timer oid) + of_nat (q - p) * tu_bit_time ?t"
    using send_event_toggles [OF Suc.prems(1)] by blast
  have time: "waketime s (uart_timer oid) + of_nat (q - p) * tu_bit_time ?t = w0 + of_nat q * tu_bit_time ?t" if "p \<le> q" for q
    using Suc.prems(3) that by (simp add: of_nat_diff algebra_simps)
  show ?case
  proof (cases "edges_from (tu_data ?t) (Suc p) ?n")
    case Nil
    have "send_toggles k oid s1 = Ret [] s1" using s1(6) by (cases k) (simp_all add: Nil)
    then show ?thesis using s1 p Suc.prems(3) time [of ?n] by (simp add: Nil)
  next
    case (Cons q qs)
    note e = first_edge [OF Cons]
    have "\<exists>s'. send_toggles k oid s1 = Ret (map (\<lambda>i. (w0 + of_nat i * tu_bit_time (uarts s1 oid), data_bit (tu_data (uarts s1 oid)) i))
        (q # edges_from (tu_data (uarts s1 oid)) (Suc q) (unat (tu_write_count (uarts s1 oid))))) s'
     \<and> t_func (timers s' (uart_timer oid)) = Tmcuart_send_finish_event
     \<and> waketime s' (uart_timer oid) = w0 + of_nat (unat (tu_write_count (uarts s1 oid))) * tu_bit_time (uarts s1 oid)"
    proof (rule Suc.IH)
      show "uart_sending q oid s1" using s1(6) by (simp add: Cons)
      show "unat (tu_write_count (uarts s1 oid)) - q \<le> k" using s1(4) Suc.prems(2) conjunct1 [OF e] by simp
      show "waketime s1 (uart_timer oid) = w0 + of_nat q * tu_bit_time (uarts s1 oid)"
        using s1(5,6) time [of q] e by (simp add: Cons)
    qed
    then obtain s' where s': "send_toggles k oid s1 = Ret (map ?ev (q # qs)) s'"
      "t_func (timers s' (uart_timer oid)) = Tmcuart_send_finish_event"
      "waketime s' (uart_timer oid) = w0 + of_nat ?n * tu_bit_time ?t"
      using e unfolding s1(3-5) by auto
    show ?thesis unfolding Cons using s1(1,2) p(2) s' Suc.prems(3) by simp
  qed
qed

section \<open>Receiving\<close>

text \<open>Reads of a message in a row.\<close>

fun read_bits :: "nat \<Rightarrow> u8 \<Rightarrow> ('a uart_st_scheme) \<Rightarrow> (('a uart_st_scheme), timer_res list) res" where
  "read_bits 0 oid s = Ret [] s"
| "read_bits (Suc n) oid s =
     bindR (read_bits n oid s) (\<lambda>rs s. bindR (tmcuart_read_event oid s) (\<lambda>r s. Ret (rs @ [r]) s))"

definition set_data_bit :: "u8 list \<Rightarrow> nat \<Rightarrow> bool \<Rightarrow> u8 list" where
  "set_data_bit data i v = data[i div 8 := (if v then data ! (i div 8) OR push_bit (i mod 8) 1
                                            else data ! (i div 8) AND NOT (push_bit (i mod 8) 1))]"

lemma set_data_bit_length [simp]: "length (set_data_bit data i v) = length data"
  by (simp add: set_data_bit_def)

lemma data_bit_set:
  assumes "i div 8 < length data"
  shows "data_bit (set_data_bit data i v) j = (if j = i then v else data_bit data j)"
proof -
  have m: "bit (push_bit (i mod 8) 1 :: u8) n \<longleftrightarrow> n = i mod 8" if "n < 8" for n
    using that by (auto simp: bit_exp_iff)
  have "j = i \<longleftrightarrow> j div 8 = i div 8 \<and> j mod 8 = i mod 8" by (metis div_mult_mod_eq)
  then show ?thesis
    using assms m [of "j mod 8"]
    by (cases "j div 8 = i div 8") (auto simp: data_bit_def set_data_bit_def bit_or_iff bit_and_iff bit_not_iff)
qed

definition uart_reading :: "nat \<Rightarrow> u8 \<Rightarrow> ('a uart_st_scheme) \<Rightarrow> bool" where
  "uart_reading p oid s \<longleftrightarrow> tu_pos (uarts s oid) = of_nat p \<and> p < unat (tu_read_count (uarts s oid))
     \<and> unat (tu_read_count (uarts s oid)) \<le> 8 * length (tu_data (uarts s oid))"

fun stored_bits :: "(nat \<Rightarrow> bool) \<Rightarrow> u8 list \<Rightarrow> nat \<Rightarrow> u8 list" where
  "stored_bits src data 0 = data"
| "stored_bits src data (Suc k) = set_data_bit (stored_bits src data k) k (src k)"

lemma stored_bits_length [simp]: "length (stored_bits src data k) = length data"
  by (induction k) simp_all

lemma stored_bits_bit:
  "k \<le> 8 * length data \<Longrightarrow> data_bit (stored_bits src data k) j = (if j < k then src j else data_bit data j)"
proof (induction k)
  case (Suc k)
  have "k div 8 < length (stored_bits src data k)" using Suc.prems by (simp add: less_mult_imp_div_less mult.commute)
  then show ?case using Suc by (auto simp: data_bit_set less_Suc_eq)
qed simp

lemma read_event_bit:
  assumes "uart_reading p oid s"
  defines "t \<equiv> uarts s oid"
  defines "v \<equiv> pin_src s (tu_rx_pin t) (pin_pos s)"
  defines "s1 \<equiv> upd_uart oid (\<lambda>t. t\<lparr>tu_data := set_data_bit (tu_data t) p v\<rparr>) (s\<lparr>pin_pos := Suc (pin_pos s)\<rparr>)"
  shows "tmcuart_read_event oid s =
    (if unat (tu_read_count t) = Suc p then tmcuart_finalize oid s1
     else Ret SF_RESCHEDULE (add_waketime oid (tu_bit_time t) (upd_uart oid (\<lambda>t. t\<lparr>tu_pos := of_nat (Suc p)\<rparr>) s1)))"
proof -
  have r: "tu_pos t = of_nat p" "p < unat (tu_read_count t)" "unat (tu_read_count t) \<le> 8 * length (tu_data t)"
    using assms(1) by (simp_all add: uart_reading_def t_def)
  have rc: "unat (tu_read_count t) < 256" using unat_lt_pow [of "tu_read_count t"] by simp
  have idx: "p div 8 < length (tu_data t)" using r by (simp add: less_mult_imp_div_less mult.commute)
  have bp: "unat (drop_bit 3 (of_nat p :: u8)) = p div 8" "unat ((of_nat p :: u8) AND 7) = p mod 8"
    using bit_position [of p] r(2) rc by simp_all
  have last: "tu_read_count t \<le> of_nat (Suc p) \<longleftrightarrow> unat (tu_read_count t) = Suc p"
    using r(2) rc unat_of_nat_small [of "Suc p", where ?'a = 8] by (auto simp: word_le_nat_alt simp del: of_nat_Suc)
  have upd: "set_data_bit (tu_data t) p v = (tu_data t)[p div 8 := (if v then tu_data t ! (p div 8) OR push_bit (p mod 8) 1
      else tu_data t ! (p div 8) AND NOT (push_bit (p mod 8) 1))]" by (simp add: set_data_bit_def)
  have eq: "upd_uart oid (\<lambda>t. t\<lparr>tu_data := (tu_data t)[p div 8 := (if v then tu_data (uarts s oid) ! (p div 8) OR push_bit (p mod 8) 1
      else tu_data (uarts s oid) ! (p div 8) AND NOT (push_bit (p mod 8) 1))]\<rparr>) (s\<lparr>pin_pos := Suc (pin_pos s)\<rparr>) = s1"
    by (simp add: s1_def upd_uart_def set_data_bit_def)
  have t1: "tu_read_count (uarts s1 oid) = tu_read_count t" "tu_bit_time (uarts s1 oid) = tu_bit_time t" by (simp_all add: s1_def t_def)
  have pos: "of_nat p + 1 = (of_nat (Suc p) :: u8)" by simp
  show ?thesis
    using idx r(1) unfolding tmcuart_read_event_def gpio_in_read_def t_def Let_def
    by (simp only: prod.case bp v_def [unfolded t_def, symmetric] eq t1 [unfolded t_def] last [unfolded t_def] pos if_False not_le
        uart_upd_simps fun_upd_same tmcuart_s.select_convs tmcuart_s.update_convs) (simp add: last [unfolded t_def of_nat_Suc])
qed

lemma read_bits_quiet:
  assumes "uart_reading 0 oid s"
  defines "t \<equiv> uarts s oid"
  defines "src \<equiv> \<lambda>j. pin_src s (tu_rx_pin t) (pin_pos s + j)"
  shows "k < unat (tu_read_count t) \<Longrightarrow> \<exists>s'. read_bits k oid s = Ret (replicate k SF_RESCHEDULE) s'
     \<and> uarts s' oid = t\<lparr>tu_pos := of_nat k, tu_data := stored_bits src (tu_data t) k\<rparr>
     \<and> pin_src s' = pin_src s \<and> pin_pos s' = pin_pos s + k
     \<and> waketime s' (uart_timer oid) = waketime s (uart_timer oid) + of_nat k * tu_bit_time t"
proof (induction k)
  case 0
  have "tu_pos t = 0" using assms(1) by (simp add: uart_reading_def t_def)
  then show ?case by (simp add: t_def)
next
  case (Suc k)
  obtain s1 where s1: "read_bits k oid s = Ret (replicate k SF_RESCHEDULE) s1"
    "uarts s1 oid = t\<lparr>tu_pos := of_nat k, tu_data := stored_bits src (tu_data t) k\<rparr>"
    "pin_src s1 = pin_src s" "pin_pos s1 = pin_pos s + k"
    "waketime s1 (uart_timer oid) = waketime s (uart_timer oid) + of_nat k * tu_bit_time t"
    using Suc by auto
  have reading: "uart_reading k oid s1"
    using assms(1) Suc.prems by (simp add: uart_reading_def s1(2) t_def)
  have v: "pin_src s1 (tu_rx_pin (uarts s1 oid)) (pin_pos s1) = src k" by (simp add: s1 src_def)
  have "unat (tu_read_count (uarts s1 oid)) \<noteq> Suc k" using Suc.prems by (simp add: s1(2))
  then have ev: "tmcuart_read_event oid s1 = Ret SF_RESCHEDULE (add_waketime oid (tu_bit_time (uarts s1 oid))
       (upd_uart oid (\<lambda>t. t\<lparr>tu_pos := of_nat (Suc k)\<rparr>)
         (upd_uart oid (\<lambda>t. t\<lparr>tu_data := set_data_bit (tu_data t) k (src k)\<rparr>) (s1\<lparr>pin_pos := Suc (pin_pos s1)\<rparr>))))"
    unfolding read_event_bit [OF reading] v by simp
  show ?case
    using s1 by (simp add: ev replicate_append_same algebra_simps)
qed

section \<open>Properties\<close>

text \<open>C32 (tmcuart_sends_message). A message is sent bit by bit. From the idle line, the output toggles
  exactly at the bits that differ from the bit before them, the idle level before the first, each at its
  bit time after the start and to the level of the bit, so that the line carries every bit of the message
  for one bit time; the end of the message is scheduled one bit time after its last bit started.\<close>

theorem tmcuart_sends_message:
  assumes "t = uarts s oid" and "t_func (timers s (uart_timer oid)) = Tmcuart_send_event" and "tu_pos t = 0"
    and "0 < unat (tu_write_count t)" and "unat (tu_write_count t) \<le> 8 * length (tu_data t)"
    and "pin_out s (tu_tx_pin t)" and "bit (tu_flags t) 0" and "\<not> data_bit (tu_data t) 0"
  shows "\<exists>s'. send_toggles (unat (tu_write_count t)) oid s =
        Ret (map (\<lambda>i. (waketime s (uart_timer oid) + of_nat i * tu_bit_time t, data_bit (tu_data t) i))
               (filter (\<lambda>i. data_bit (tu_data t) i \<noteq> (i = 0 \<or> data_bit (tu_data t) (i - 1))) [0..<unat (tu_write_count t)])) s'
     \<and> t_func (timers s' (uart_timer oid)) = Tmcuart_send_finish_event
     \<and> waketime s' (uart_timer oid) = waketime s (uart_timer oid) + of_nat (unat (tu_write_count t)) * tu_bit_time t"
proof -
  let ?n = "unat (tu_write_count t)" and ?d = "tu_data t"
  have "uart_sending 0 oid s" using assms by (simp add: uart_sending_def Let_def)
  moreover have "filter (\<lambda>i. data_bit ?d i \<noteq> (i = 0 \<or> data_bit ?d (i - 1))) [0..<?n] = 0 # edges_from ?d (Suc 0) ?n"
    using assms(4,8) by (auto simp: edges_from_def upt_conv_Cons intro!: filter_cong)
  ultimately show ?thesis
    using send_toggles_from [of 0 oid s ?n "waketime s (uart_timer oid)"] by (simp add: assms(1))
qed

text \<open>C33 (tmcuart_receives_message). A response is received bit by bit. The reads, one bit time apart, store
  what the input delivers, every bit at its place and no other bit changed; the read of the last bit ends the
  reception, returns the line to idle and asks for the report, which carries the bytes read.\<close>

theorem tmcuart_receives_message:
  assumes "t = uarts s oid" and "tu_pos t = 0" and "unat (tu_read_count t) = Suc k"
    and "unat (tu_read_count t) \<le> 8 * length (tu_data t)"
  shows "\<exists>s'. read_bits (Suc k) oid s = Ret (replicate k SF_RESCHEDULE @ [SF_DONE]) s'
     \<and> (\<forall>j. data_bit (tu_data (uarts s' oid)) j =
          (if j \<le> k then pin_src s (tu_rx_pin t) (pin_pos s + j) else data_bit (tu_data t) j))
     \<and> waketime s' (uart_timer oid) = waketime s (uart_timer oid) + of_nat k * tu_bit_time t
     \<and> pin_out s' (tu_tx_pin t) \<and> tmcuart_wake s' = 1
     \<and> (in_sendf s' = 0 \<longrightarrow> out (tmcuart_task_oid oid s') = out s' @ [(''tmcuart_response oid=%c read=%*s'',
          [AInt (ucast oid), ABuf (take (Suc k div 8) (tu_data (uarts s' oid)))])])"
proof -
  let ?src = "\<lambda>j. pin_src s (tu_rx_pin t) (pin_pos s + j)"
  have r0: "uart_reading 0 oid s" using assms by (simp add: uart_reading_def)
  obtain s1 where s1: "read_bits k oid s = Ret (replicate k SF_RESCHEDULE) s1"
    "uarts s1 oid = t\<lparr>tu_pos := of_nat k, tu_data := stored_bits ?src (tu_data t) k\<rparr>"
    "pin_src s1 = pin_src s" "pin_pos s1 = pin_pos s + k"
    "waketime s1 (uart_timer oid) = waketime s (uart_timer oid) + of_nat k * tu_bit_time t"
    using read_bits_quiet [OF r0, of k] assms(1,3) by auto
  have "uart_reading k oid s1" using assms by (simp add: uart_reading_def s1(2))
  note ev = read_event_bit [OF this]
  define s2 where "s2 = upd_uart oid (\<lambda>t. t\<lparr>tu_data := set_data_bit (tu_data t) k (?src k)\<rparr>) (s1\<lparr>pin_pos := Suc (pin_pos s1)\<rparr>)"
  have ev2: "tmcuart_read_event oid s1 = tmcuart_finalize oid s2"
    unfolding ev using assms(3) s1 by (simp add: s2_def)
  define s' where "s' = sched_wake_task tmcuart_wake_update
     (upd_uart oid (\<lambda>t. t\<lparr>tu_flags := tu_flags t OR TU_REPORT\<rparr>) (tmcuart_reset_line oid s2))"
  have fin: "tmcuart_finalize oid s2 = Ret SF_DONE s'" by (simp add: tmcuart_finalize_def s'_def Let_def)
  have t2: "tu_data (uarts s2 oid) = stored_bits ?src (tu_data t) (Suc k)" "tu_tx_pin (uarts s2 oid) = tu_tx_pin t"
    "tu_read_count (uarts s2 oid) = tu_read_count t" "timers s2 = timers s1"
    by (simp_all add: s2_def s1(2))
  have fr: "tu_data (uarts s' oid) = tu_data (uarts s2 oid)" "tu_read_count (uarts s' oid) = tu_read_count (uarts s2 oid)"
    "pin_out s' (tu_tx_pin (uarts s2 oid))" "tmcuart_wake s' = 1" "timers s' = timers s2"
    "\<exists>f. tu_flags (uarts s' oid) = f OR TU_REPORT"
    by (auto simp: s'_def sched_wake_task_def sched_wake_tasks_def tmcuart_reset_line_def Let_def gpio_out_write_def
        gpio_out_reset_def upd_uart_def)
  have rep: "(f OR TU_REPORT) AND TU_REPORT \<noteq> 0" for f :: u8
    using and_exp_eq_0_iff_not_bit [of "f OR TU_REPORT" 3] by (simp add: tu_consts bit_simps)
  have "out (tmcuart_task_oid oid s') = out s' @ [(''tmcuart_response oid=%c read=%*s'',
          [AInt (ucast oid), ABuf (take (Suc k div 8) (tu_data (uarts s' oid)))])]" if "in_sendf s' = 0"
    using that fr(2,6) rep t2(3) assms(3)
    by (auto simp: tmcuart_task_oid_def Let_def command_sendf_def upd_uart_def simp del: or_eq_0_iff)
  moreover have "data_bit (tu_data (uarts s' oid)) j =
          (if j \<le> k then ?src j else data_bit (tu_data t) j)" for j
    using stored_bits_bit [of "Suc k" "tu_data t" ?src j] assms(3,4) by (simp add: fr(1) t2(1) less_Suc_eq_le del: stored_bits.simps)
  ultimately show ?thesis
    using s1(1,5) ev2 fin fr(3,4,5) t2(2,4) by auto
qed

section \<open>Examples\<close>

definition uart_boot :: "probe_st \<Rightarrow> uart_st" where
  "uart_boot b = probe_st.extend b (uart_st.fields (\<lambda>_. uart_zero) 0)"

text \<open>A line that sends the four bits low, low, high, low, or reads three bits.\<close>

definition example_uart :: "tmcuart_s \<Rightarrow> uart_st" where
  "example_uart t = set_func (uart_timer 1) Tmcuart_send_event
     ((uart_boot example_probe)\<lparr>uarts := (\<lambda>_. t), pin_out := (\<lambda>_. True), pin_src := (\<lambda>_ k. k = 1), pin_pos := 0\<rparr>)"

lemma example_uart_simps [simp]:
  "uarts (example_uart t) i = t" "t_func (timers (example_uart t) (uart_timer 1)) = Tmcuart_send_event"
  "pin_out (example_uart t) p" "pin_src (example_uart t) p k \<longleftrightarrow> k = 1" "pin_pos (example_uart t) = 0"
  by (simp_all add: example_uart_def set_func_def uart_boot_def uart_st.defs probe_st.defs)

theorem tmcuart_sends_message_witness:
  "\<exists>w s'. send_toggles 4 1 (example_uart (uart_zero\<lparr>tu_flags := TU_LINE_HIGH, tu_write_count := 4, tu_bit_time := 100, tu_data := [4]\<rparr>))
     = Ret [(w, False), (w + 200, True), (w + 300, False)] s'"
proof -
  let ?t = "uart_zero\<lparr>tu_flags := TU_LINE_HIGH, tu_write_count := 4, tu_bit_time := 100, tu_data := [4]\<rparr>"
  let ?s = "example_uart ?t"
  let ?w = "waketime ?s (uart_timer 1)"
  have four: "unat (tu_write_count ?t) = 4" by simp
  have bits: "data_bit [4] i \<longleftrightarrow> i = 2" if "i < 4" for i
    using that bit_exp_iff [where ?'a = u8, of 2 i] by (auto simp: data_bit_def)
  have upt: "[0..<4] = [0, 1, 2, 3 :: nat]" by (simp add: upt_rec)
  have evs: "map (\<lambda>i. (?w + of_nat i * tu_bit_time ?t, data_bit (tu_data ?t) i))
      (filter (\<lambda>i. data_bit (tu_data ?t) i \<noteq> (i = 0 \<or> data_bit (tu_data ?t) (i - 1))) [0..<4])
      = [(?w, False), (?w + 200, True), (?w + 300, False)]"
    unfolding upt by (simp add: bits)
  have "\<exists>s'. send_toggles 4 1 ?s = Ret [(?w, False), (?w + 200, True), (?w + 300, False)] s'"
    using tmcuart_sends_message [of ?t ?s 1] bits [of 0] unfolding four evs
    by (auto simp: uart_zero_def TU_LINE_HIGH_def)
  then show ?thesis by blast
qed

theorem tmcuart_receives_message_witness:
  "\<exists>s'. read_bits (Suc 2) 1 (example_uart (uart_zero\<lparr>tu_read_count := 3\<rparr>)) = Ret (replicate 2 SF_RESCHEDULE @ [SF_DONE]) s'
     \<and> \<not> data_bit (tu_data (uarts s' 1)) 0 \<and> data_bit (tu_data (uarts s' 1)) 1 \<and> \<not> data_bit (tu_data (uarts s' 1)) 2"
proof -
  let ?t = "uart_zero\<lparr>tu_read_count := 3\<rparr>"
  have "?t = uarts (example_uart ?t) 1" "tu_pos ?t = 0" "unat (tu_read_count ?t) = Suc 2" "unat (tu_read_count ?t) \<le> 8 * length (tu_data ?t)"
    by (simp_all add: uart_zero_def)
  from tmcuart_receives_message [OF this] obtain s' where
    "read_bits (Suc 2) 1 (example_uart ?t) = Ret (replicate 2 SF_RESCHEDULE @ [SF_DONE]) s'"
    "\<forall>j. data_bit (tu_data (uarts s' 1)) j = (if j \<le> 2 then j = 1 else data_bit (tu_data ?t) j)"
    by (auto simp del: read_bits.simps replicate.simps)
  then show ?thesis by auto
qed

end
