(* ===== verification/Console.thy ===== *)
theory Console
  imports Command Tmcuart
begin

text \<open>
  The console of the firmware: routing of the commands of a block to their handlers
  (\<^verbatim>\<open>src/src/command.c\<close>) and the serial port with its two buffers
  (\<^verbatim>\<open>src/src/generic/serial_irq.c\<close>), which the receive and the transmit interrupt share with
  the console task. Where the C code runs with interrupts enabled, the interrupts are arguments:
  the bytes that arrive, or the number of bytes the transmitter takes, between two statements.
\<close>

section \<open>State\<close>

definition RX_BUFFER_SIZE :: nat where "RX_BUFFER_SIZE = 192"
definition TX_BUFFER_SIZE :: nat where "TX_BUFFER_SIZE = 96"

record console_st = uart_st +
  cmd_finder :: finder
  receive_buf :: "u8 list"
  receive_pos :: u8
  transmit_buf :: "u8 list"
  transmit_pos :: u8
  transmit_max :: u8
  tx_irq_enables :: nat

text \<open>An entry of the generated table \<^verbatim>\<open>command_index\<close>.\<close>

record 's command_parser =
  cp_encoded_msgid :: u16
  cp_num_args :: u8
  cp_flags :: u8
  cp_param_types :: "param_type list"
  cp_func :: "u32 list \<Rightarrow> 's \<Rightarrow> ('s, unit) res"

definition HF_IN_SHUTDOWN :: u8 where "HF_IN_SHUTDOWN = 1"

section \<open>Command routing\<close>

definition command_lookup_parser ::
  "'s command_parser list \<Rightarrow> u16 \<Rightarrow> 's \<Rightarrow> ('s, 's command_parser) res" where
  "command_lookup_parser command_index cmdid s =
     (if cmdid = 0 \<or> length command_index \<le> unat cmdid then Shutdown ''Invalid command'' s
      else Ret (command_index ! unat cmdid) s)"

lemma bindR_cong [fundef_cong]:
  assumes "m = m'" and "\<And>a s. m' = Ret a s \<Longrightarrow> f a s = f' a s"
  shows "bindR m f = bindR m' f'"
  using assms by (cases m') auto

lemma parse_rest_mono: "parse_rest buf p c v = Some (w, q) \<Longrightarrow> p \<le> q"
  by (induction buf p c v rule: parse_rest.induct)
    (subst (asm) (2) parse_rest.simps, auto split: if_splits)

lemma parse_int_mono: "parse_int buf p = Some (v, q) \<Longrightarrow> p < q"
  by (auto simp: parse_int_def split: option.splits dest: parse_rest_mono)

lemma parse_params_mono:
  "parse_params ts buf p maxend args s = Ret (args', q) s' \<Longrightarrow> p \<le> q \<and> s' = s"
proof (induction ts arbitrary: p args)
  case (Cons t ts)
  then show ?case
    by (fastforce simp: Let_def split: if_splits option.splits dest: parse_int_mono)
qed simp

text \<open>The loop of \<^verbatim>\<open>command_dispatch\<close>. The arguments of a command are stored in an array of
  \<^verbatim>\<open>num_args\<close> words. \<open>poll\<close> is what pending interrupts do at \<^verbatim>\<open>irq_poll\<close>.\<close>

function dispatch_loop ::
  "('a sched_scheme) command_parser list \<Rightarrow> (string \<Rightarrow> u32) \<Rightarrow> (('a sched_scheme) \<Rightarrow> (('a sched_scheme), unit) res) \<Rightarrow>
   u8 list \<Rightarrow> nat \<Rightarrow> nat \<Rightarrow> ('a sched_scheme) \<Rightarrow> (('a sched_scheme), unit) res" where
  "dispatch_loop command_index str_id poll buf p msgend s =
     (if p < msgend then
        (case command_parse_msgid buf p of None \<Rightarrow> Fault
         | Some (cmdid, p) \<Rightarrow>
             bindR (command_lookup_parser command_index cmdid s) (\<lambda>cp s.
             bindR (command_parsef buf p msgend (cp_param_types cp) s) (\<lambda>ap s.
             if unat (cp_num_args cp) < length (fst ap) then Fault
             else if sched_is_shutdown s \<and> cp_flags cp AND HF_IN_SHUTDOWN = 0
             then dispatch_loop command_index str_id poll buf (snd ap) msgend (sched_report_shutdown str_id s)
             else bindR (poll s) (\<lambda>_ s.
                  bindR (cp_func cp (fst ap) s) (\<lambda>_ s.
                  dispatch_loop command_index str_id poll buf (snd ap) msgend s)))))
      else Ret () s)"
  by pat_completeness auto

termination
proof (relation "measure (\<lambda>(ix, str_id, poll, buf, p, msgend, s). msgend - p)")
  have less: "q' < q" if "command_parse_msgid buf q' = Some (i, q)" for buf q' i q
    using that by (auto simp: command_parse_msgid_def split: option.splits if_splits)
  have "snd ap > p" if "command_parse_msgid buf p = Some (i, q)" "command_parsef buf q e ts s1 = Ret ap s2"
    for buf p i q e ts s1 s2 and ap :: "u32 list \<times> nat"
    using less [OF that(1)] that(2) parse_params_mono [of ts buf q e "[]" s1 "fst ap" "snd ap" s2]
    by (simp add: command_parsef_def)
  then show
    "\<And>command_index str_id poll buf p msgend s x2 x y a sa ap sb.
       p < msgend \<Longrightarrow> command_parse_msgid buf p = Some x2 \<Longrightarrow> (x, y) = x2 \<Longrightarrow>
       command_lookup_parser command_index x s = Ret a sa \<Longrightarrow>
       command_parsef buf y msgend (cp_param_types a) sa = Ret ap sb \<Longrightarrow>
       \<not> unat (cp_num_args a) < length (fst ap) \<Longrightarrow>
       sched_is_shutdown sb \<and> cp_flags a AND HF_IN_SHUTDOWN = 0 \<Longrightarrow>
       ((command_index, str_id, poll, buf, snd ap, msgend, sched_report_shutdown str_id sb),
        command_index, str_id, poll, buf, p, msgend, s)
       \<in> measure (\<lambda>(ix, str_id, poll, buf, p, msgend, s). msgend - p)"
    "\<And>command_index str_id poll buf p msgend s x2 x y a sa ap sb aa sc ab sd.
       p < msgend \<Longrightarrow> command_parse_msgid buf p = Some x2 \<Longrightarrow> (x, y) = x2 \<Longrightarrow>
       command_lookup_parser command_index x s = Ret a sa \<Longrightarrow>
       command_parsef buf y msgend (cp_param_types a) sa = Ret ap sb \<Longrightarrow>
       \<not> unat (cp_num_args a) < length (fst ap) \<Longrightarrow>
       \<not> (sched_is_shutdown sb \<and> cp_flags a AND HF_IN_SHUTDOWN = 0) \<Longrightarrow>
       poll sb = Ret aa sc \<Longrightarrow> cp_func a (fst ap) sc = Ret ab sd \<Longrightarrow>
       ((command_index, str_id, poll, buf, snd ap, msgend, sd),
        command_index, str_id, poll, buf, p, msgend, s)
       \<in> measure (\<lambda>(ix, str_id, poll, buf, p, msgend, s). msgend - p)"
    by (fastforce intro: diff_less_mono2)+
qed simp

declare dispatch_loop.simps [simp del]

definition command_dispatch ::
  "('a sched_scheme) command_parser list \<Rightarrow> (string \<Rightarrow> u32) \<Rightarrow> (('a sched_scheme) \<Rightarrow> (('a sched_scheme), unit) res) \<Rightarrow>
   u8 list \<Rightarrow> nat \<Rightarrow> ('a sched_scheme) \<Rightarrow> (('a sched_scheme), unit) res" where
  "command_dispatch command_index str_id poll buf msglen s =
     dispatch_loop command_index str_id poll buf MESSAGE_HEADER_SIZE (msglen - MESSAGE_TRAILER_SIZE) s"

text \<open>The empty message \<^verbatim>\<open>encode_acknak\<close>.\<close>

definition command_send_ack :: "('a board_scheme) \<Rightarrow> ('a board_scheme)" where
  "command_send_ack s = command_sendf ''acknak'' [] s"

text \<open>\<^verbatim>\<open>command_find_block\<close> on the machine's state: the search of theory \<open>Command\<close>, with its
  nak sent.\<close>

definition find_block_op :: "u8 list \<Rightarrow> ('a console_st_scheme) \<Rightarrow> (int \<times> nat) \<times> ('a console_st_scheme)" where
  "find_block_op buf s =
     (let fb = command_find_block (cmd_finder s) buf;
          s = s\<lparr>cmd_finder := fb_state fb\<rparr>;
          s = (if fb_nak fb then command_send_ack s else s)
      in ((fb_ret fb, fb_pop fb), s))"

definition command_find_and_dispatch ::
  "('a console_st_scheme) command_parser list \<Rightarrow> (string \<Rightarrow> u32) \<Rightarrow>
   (('a console_st_scheme) \<Rightarrow> (('a console_st_scheme), unit) res) \<Rightarrow>
   u8 list \<Rightarrow> ('a console_st_scheme) \<Rightarrow> (('a console_st_scheme), int \<times> nat) res" where
  "command_find_and_dispatch command_index str_id poll buf s =
     (case find_block_op buf s of ((ret, pop_count), s) \<Rightarrow>
      if 0 < ret then
        bindR (command_dispatch command_index str_id poll buf pop_count s) (\<lambda>_ s.
          Ret (ret, pop_count) (command_send_ack s))
      else Ret (ret, pop_count) s)"

section \<open>The serial port: receiving\<close>

definition serial_rx_byte :: "u8 \<Rightarrow> ('a console_st_scheme) \<Rightarrow> ('a console_st_scheme)" where
  "serial_rx_byte data s =
     (let s = (if data = MESSAGE_SYNC then sched_wake_tasks s else s) in
      if RX_BUFFER_SIZE \<le> unat (receive_pos s) then s
      else s\<lparr>receive_buf := (receive_buf s)[unat (receive_pos s) := data],
             receive_pos := receive_pos s + 1\<rparr>)"

text \<open>\<^verbatim>\<open>memmove(&buf[dst], &buf[src], n)\<close>.\<close>

definition memmove :: "nat \<Rightarrow> nat \<Rightarrow> nat \<Rightarrow> 'b list \<Rightarrow> 'b list option" where
  "memmove dst src n buf =
     (if dst + n \<le> length buf \<and> src + n \<le> length buf
      then Some (take dst buf @ take n (drop src buf) @ drop (dst + n) buf) else None)"

text \<open>The loop of \<^verbatim>\<open>console_pop_input\<close>. \<open>arrivals\<close> lists the bytes that arrive in each round
  between the read of \<^verbatim>\<open>receive_pos\<close> and \<^verbatim>\<open>irq_save\<close>; when it is exhausted no more arrive.
  The arithmetic is that of \<^verbatim>\<open>uint8_t\<close>.\<close>

fun pop_loop :: "u8 \<Rightarrow> u8 \<Rightarrow> u8 list list \<Rightarrow> ('a console_st_scheme) \<Rightarrow> (('a console_st_scheme), unit) res" where
  "pop_loop len copied arrivals s =
     (let rpos = receive_pos s; needcopy = rpos - len in
      case (if needcopy \<noteq> 0 then
              (case memmove (unat copied) (unat copied + unat len) (unat needcopy - unat copied) (receive_buf s) of
                 None \<Rightarrow> None
               | Some b \<Rightarrow> Some (needcopy, sched_wake_tasks (s\<lparr>receive_buf := b\<rparr>)))
            else Some (copied, s)) of
        None \<Rightarrow> Fault
      | Some (copied, s) \<Rightarrow>
          (case arrivals of
             [] \<Rightarrow> Ret () (s\<lparr>receive_pos := needcopy\<rparr>)
           | bs # rest \<Rightarrow>
               let s = fold serial_rx_byte bs s in
               if rpos \<noteq> receive_pos s then pop_loop len copied rest s
               else Ret () (s\<lparr>receive_pos := needcopy\<rparr>)))"

definition console_pop_input :: "u8 \<Rightarrow> u8 list list \<Rightarrow> ('a console_st_scheme) \<Rightarrow> (('a console_st_scheme), unit) res" where
  "console_pop_input len arrivals s = pop_loop len 0 arrivals s"

text \<open>\<open>boot\<close> is \<^verbatim>\<open>bootloader_request\<close> of the board, where it has one.\<close>

definition bootloader_string :: "u8 list" where
  "bootloader_string = map (\<lambda>c. of_nat (of_char c))
     (CHR '' '' # CHR 0x1c # '' Request Serial Bootloader!! ~'')"

definition console_task ::
  "('a console_st_scheme) command_parser list \<Rightarrow> (string \<Rightarrow> u32) \<Rightarrow>
   (('a console_st_scheme) \<Rightarrow> (('a console_st_scheme), unit) res) \<Rightarrow>
   (('a console_st_scheme) \<Rightarrow> (('a console_st_scheme), unit) res) option \<Rightarrow> u8 list list \<Rightarrow>
   ('a console_st_scheme) \<Rightarrow> (('a console_st_scheme), unit) res" where
  "console_task command_index str_id poll boot arrivals s =
     (let rpos = unat (receive_pos s) in
      case find_block_op (take rpos (receive_buf s)) s of ((ret, pop_count), s) \<Rightarrow>
      bindR (if 0 < ret then command_dispatch command_index str_id poll (receive_buf s) pop_count s else Ret () s) (\<lambda>_ s.
      if ret \<noteq> 0 then
        bindR (case boot of Some f \<Rightarrow> if ret < 0 \<and> pop_count = 32 \<and> take 32 (receive_buf s) = bootloader_string
                                      then f s else Ret () s
               | None \<Rightarrow> Ret () s) (\<lambda>_ s.
        bindR (console_pop_input (of_nat pop_count) arrivals s) (\<lambda>_ s.
        Ret () (if 0 < ret then command_send_ack s else s)))
      else Ret () s))"

section \<open>The serial port: transmitting\<close>

definition serial_get_tx_byte :: "('a console_st_scheme) \<Rightarrow> u8 option \<times> ('a console_st_scheme)" where
  "serial_get_tx_byte s =
     (if transmit_max s \<le> transmit_pos s then (None, s)
      else (Some (transmit_buf s ! unat (transmit_pos s)), s\<lparr>transmit_pos := transmit_pos s + 1\<rparr>))"

text \<open>\<open>n\<close> transmit interrupts, and the bytes they put on the wire.\<close>

fun tx_irqs :: "nat \<Rightarrow> ('a console_st_scheme) \<Rightarrow> u8 list \<times> ('a console_st_scheme)" where
  "tx_irqs 0 s = ([], s)"
| "tx_irqs (Suc n) s =
     (case serial_get_tx_byte s of
        (None, s) \<Rightarrow> tx_irqs n s
      | (Some b, s) \<Rightarrow> (case tx_irqs n s of (bs, s) \<Rightarrow> (b # bs, s)))"

definition serial_enable_tx_irq :: "('a console_st_scheme) \<Rightarrow> ('a console_st_scheme)" where
  "serial_enable_tx_irq s = s\<lparr>tx_irq_enables := Suc (tx_irq_enables s)\<rparr>"

text \<open>\<^verbatim>\<open>console_sendf\<close>. Transmit interrupts run at three places: \<open>k1\<close> of them after the buffer's
  positions were read, \<open>k2\<close> after the buffer was moved, \<open>k3\<close> after the block was stored. The
  bytes they send are returned. A block that does not fit is dropped. \<open>console_make_room\<close> moves
  the pending bytes to the front, with the transmitter stopped.\<close>

definition console_make_room :: "nat \<Rightarrow> ('a console_st_scheme) \<Rightarrow> (('a console_st_scheme), nat) res" where
  "console_make_room tmax s =
     (let s = s\<lparr>transmit_max := 0\<rparr>;
          tpos = unat (transmit_pos s);
          tmax = tmax - tpos
      in (case memmove 0 tpos tmax (transmit_buf s) of None \<Rightarrow> Fault
          | Some b \<Rightarrow> Ret tmax (serial_enable_tx_irq
              (s\<lparr>transmit_buf := b, transmit_pos := 0, transmit_max := of_nat tmax\<rparr>))))"

definition console_store ::
  "command_encoder \<Rightarrow> va list \<Rightarrow> nat \<Rightarrow> nat \<Rightarrow> nat \<Rightarrow> ('a console_st_scheme) \<Rightarrow> (('a console_st_scheme), u8 list) res" where
  "console_store ce args k2 k3 tmax s =
     (let (sent2, s) = tx_irqs k2 s in
      bindR (command_encode_and_frame (drop tmax (transmit_buf s)) ce args (next_sequence (cmd_finder s)) s)
        (\<lambda>(b, msglen) s.
           let s = s\<lparr>transmit_buf := take tmax (transmit_buf s) @ b\<rparr>;
               (sent3, s) = tx_irqs k3 s;
               s = s\<lparr>transmit_max := of_nat (tmax + msglen)\<rparr>
           in Ret (sent2 @ sent3) (serial_enable_tx_irq s)))"

definition console_sendf ::
  "command_encoder \<Rightarrow> va list \<Rightarrow> nat \<Rightarrow> nat \<Rightarrow> nat \<Rightarrow> ('a console_st_scheme) \<Rightarrow> (('a console_st_scheme), u8 list) res" where
  "console_sendf ce args k1 k2 k3 s =
     (let tpos = unat (transmit_pos s); tmax = unat (transmit_max s);
          idle = (tmax \<le> tpos);
          s = (if idle then s\<lparr>transmit_max := 0, transmit_pos := 0\<rparr> else s);
          tpos = (if idle then 0 else tpos); tmax = (if idle then 0 else tmax);
          max_size = unat (ce_max_size ce);
          (sent1, s) = tx_irqs k1 s
      in if TX_BUFFER_SIZE < tmax + max_size \<and> TX_BUFFER_SIZE < tmax + max_size - tpos then Ret sent1 s
         else bindR (if TX_BUFFER_SIZE < tmax + max_size then console_make_room tmax s else Ret tmax s)
           (\<lambda>tmax s. bindR (console_store ce args k2 k3 tmax s) (\<lambda>sent s. Ret (sent1 @ sent) s)))"

section \<open>No byte is lost between interrupt and task\<close>

definition rx_ok :: "('a console_st_scheme) \<Rightarrow> bool" where
  "rx_ok s \<longleftrightarrow> length (receive_buf s) = RX_BUFFER_SIZE \<and> unat (receive_pos s) \<le> RX_BUFFER_SIZE"

text \<open>What the buffer holds, and what of the arriving bytes it has room for until the loop
  ends.\<close>

definition rx_data :: "('a console_st_scheme) \<Rightarrow> u8 list" where
  "rx_data s = take (unat (receive_pos s)) (receive_buf s)"

fun arrived :: "nat \<Rightarrow> u8 list list \<Rightarrow> u8 list" where
  "arrived room [] = []"
| "arrived room (bs # rest) =
     (let a = take room bs in if a = [] then [] else a @ arrived (room - length a) rest)"

lemma length_rx_data: "rx_ok s \<Longrightarrow> length (rx_data s) = unat (receive_pos s)"
  by (simp add: rx_data_def rx_ok_def)

lemma rx_wake_simps [simp]:
  "receive_buf (sched_wake_tasks s) = receive_buf s" "receive_pos (sched_wake_tasks s) = receive_pos s"
  by (simp_all add: sched_wake_tasks_def)

lemma rx_byte_full: "RX_BUFFER_SIZE \<le> unat (receive_pos s) \<Longrightarrow>
    receive_buf (serial_rx_byte b s) = receive_buf s \<and> receive_pos (serial_rx_byte b s) = receive_pos s"
  by (simp add: serial_rx_byte_def Let_def)

lemma rx_byte_room:
  assumes "rx_ok s" and "unat (receive_pos s) < RX_BUFFER_SIZE"
  shows "receive_buf (serial_rx_byte b s) = take (unat (receive_pos s)) (receive_buf s)
      @ b # drop (Suc (unat (receive_pos s))) (receive_buf s)"
    and "unat (receive_pos (serial_rx_byte b s)) = Suc (unat (receive_pos s))"
    and "rx_ok (serial_rx_byte b s)"
proof -
  have "unat (receive_pos s + 1) = Suc (unat (receive_pos s))"
    using assms(2) by (simp add: unat_word_ariths RX_BUFFER_SIZE_def)
  with assms show "receive_buf (serial_rx_byte b s) = take (unat (receive_pos s)) (receive_buf s)
      @ b # drop (Suc (unat (receive_pos s))) (receive_buf s)"
    and "unat (receive_pos (serial_rx_byte b s)) = Suc (unat (receive_pos s))"
    and "rx_ok (serial_rx_byte b s)"
    by (simp_all add: serial_rx_byte_def Let_def rx_ok_def upd_conv_take_nth_drop not_le)
qed

lemma rx_fold:
  "rx_ok s \<Longrightarrow> n = unat (receive_pos s) \<Longrightarrow> a = take (RX_BUFFER_SIZE - n) bs \<Longrightarrow>
   receive_buf (fold serial_rx_byte bs s) = take n (receive_buf s) @ a @ drop (n + length a) (receive_buf s)
    \<and> unat (receive_pos (fold serial_rx_byte bs s)) = n + length a \<and> rx_ok (fold serial_rx_byte bs s)"
proof (induction bs arbitrary: s n a)
  case (Cons b bs)
  show ?case
  proof (cases "n < RX_BUFFER_SIZE")
    case True
    define a1 where "a1 = take (RX_BUFFER_SIZE - Suc n) bs"
    have a: "a = b # a1" using True Cons.prems by (simp add: a1_def take_Cons' Suc_diff_Suc)
    note room = rx_byte_room [OF Cons.prems(1), folded Cons.prems(2), OF True, of b]
    note IH = Cons.IH [OF room(3) room(2) [symmetric] a1_def]
    have len: "length (take n (receive_buf s)) = n"
      using Cons.prems(1) True by (simp add: rx_ok_def)
    have "take (Suc n) (take n (receive_buf s) @ b # drop (Suc n) (receive_buf s)) = take n (receive_buf s) @ [b]"
      "drop (Suc n + length a1) (take n (receive_buf s) @ b # drop (Suc n) (receive_buf s)) = drop (Suc n + length a1) (receive_buf s)"
      using len by (simp_all add: add.commute)
    then show ?thesis using IH by (simp add: room(1) a)
  next
    case False
    then have full: "receive_buf (serial_rx_byte b s) = receive_buf s" "receive_pos (serial_rx_byte b s) = receive_pos s"
      using rx_byte_full [of s b] Cons.prems(2) by simp_all
    have "rx_ok (serial_rx_byte b s)" using Cons.prems(1) by (simp add: rx_ok_def full)
    from Cons.IH [OF this, of n] False Cons.prems show ?thesis by (simp add: full)
  qed
qed (simp add: append_take_drop_id)

lemma rx_fold_data:
  assumes "rx_ok s"
  shows "rx_data (fold serial_rx_byte bs s) = rx_data s @ take (RX_BUFFER_SIZE - length (rx_data s)) bs"
    and "rx_ok (fold serial_rx_byte bs s)"
    and "drop (length (rx_data s)) (rx_data (fold serial_rx_byte bs s)) = take (RX_BUFFER_SIZE - length (rx_data s)) bs"
proof -
  note f = rx_fold [OF assms refl refl, of bs]
  show d: "rx_data (fold serial_rx_byte bs s) = rx_data s @ take (RX_BUFFER_SIZE - length (rx_data s)) bs"
    using f assms unfolding length_rx_data [OF assms] by (simp add: rx_data_def rx_ok_def min_def)
  show "rx_ok (fold serial_rx_byte bs s)" using f by blast
  show "drop (length (rx_data s)) (rx_data (fold serial_rx_byte bs s)) = take (RX_BUFFER_SIZE - length (rx_data s)) bs"
    by (simp add: d)
qed

text \<open>The invariant of the loop: \<open>C\<close> is everything received, its first \<open>len\<close> bytes are to go, and
  \<open>copied\<close> bytes after them have been moved to the front.\<close>

definition pop_inv :: "nat \<Rightarrow> nat \<Rightarrow> u8 list \<Rightarrow> ('a console_st_scheme) \<Rightarrow> bool" where
  "pop_inv len copied C s \<longleftrightarrow> rx_ok s \<and> length C = unat (receive_pos s) \<and> copied + len \<le> length C \<and>
     take copied (receive_buf s) = take copied (drop len C) \<and>
     take (length C - (copied + len)) (drop (copied + len) (receive_buf s)) = drop (copied + len) C"

lemma pop_move:
  assumes "pop_inv len copied C s"
  shows "\<exists>b. memmove copied (copied + len) (length C - len - copied) (receive_buf s) = Some b \<and>
     length b = RX_BUFFER_SIZE \<and> take (length C - len) b = drop len C \<and>
     drop (length C) b = drop (length C) (receive_buf s)"
proof -
  define n where "n = length C - len - copied"
  define b where "b = take copied (receive_buf s) @ take n (drop (copied + len) (receive_buf s)) @ drop (copied + n) (receive_buf s)"
  have len: "length (receive_buf s) = RX_BUFFER_SIZE" "length C \<le> RX_BUFFER_SIZE" "copied + len \<le> length C"
    and mid: "take n (drop (copied + len) (receive_buf s)) = drop (copied + len) C"
    and front: "take copied (receive_buf s) = take copied (drop len C)"
    using assms by (auto simp: pop_inv_def rx_ok_def n_def diff_diff_add add.commute)
  have n: "copied + n = length C - len" using len(3) by (simp add: n_def)
  have joined: "take copied (receive_buf s) @ take n (drop (copied + len) (receive_buf s)) = drop len C"
    unfolding mid front using append_take_drop_id [of copied "drop len C"] by (simp add: add.commute)
  have "memmove copied (copied + len) n (receive_buf s) = Some b"
    using len n by (auto simp: memmove_def b_def)
  moreover have b: "b = drop len C @ drop (length C - len) (receive_buf s)"
    using joined n by (simp add: b_def)
  moreover have "length b = RX_BUFFER_SIZE" using len by (simp add: b)
  moreover have "drop (length C) b = drop (length C) (receive_buf s)"
    using len by (simp add: b)
  ultimately show ?thesis by (simp add: n_def)
qed

declare pop_loop.simps [simp del]

lemma pop_round:
  assumes "pop_inv (unat len) (unat copied) C s"
  shows "\<exists>s1. pop_loop len copied arrivals s =
      (case arrivals of
         [] \<Rightarrow> Ret () (s1\<lparr>receive_pos := receive_pos s - len\<rparr>)
       | bs # rest \<Rightarrow>
           let s2 = fold serial_rx_byte bs s1 in
           if receive_pos s \<noteq> receive_pos s2 then pop_loop len (receive_pos s - len) rest s2
           else Ret () (s2\<lparr>receive_pos := receive_pos s - len\<rparr>)) \<and>
     rx_ok s1 \<and> receive_pos s1 = receive_pos s \<and> take (length C - unat len) (receive_buf s1) = drop (unat len) C"
proof -
  have C: "length C = unat (receive_pos s)" "unat copied + unat len \<le> length C" and ok: "rx_ok s"
    using assms by (simp_all add: pop_inv_def)
  then have le: "len \<le> receive_pos s" by (simp add: word_le_nat_alt)
  have need: "unat (receive_pos s - len) = length C - unat len"
    using le C by (simp add: unat_sub)
  show ?thesis
  proof (cases "receive_pos s - len = 0")
    case True
    then have "len = receive_pos s" by simp
    with C have "unat copied = 0" by simp
    then have "copied = 0" by (simp add: unat_eq_0)
    with True ok \<open>len = receive_pos s\<close> C show ?thesis
      by (intro exI [of _ s]) (subst pop_loop.simps, simp add: Let_def split: list.split)
  next
    case False
    from pop_move [OF assms] obtain b where
      b: "memmove (unat copied) (unat copied + unat len) (unat (receive_pos s - len) - unat copied) (receive_buf s) = Some b"
        "length b = RX_BUFFER_SIZE" "take (length C - unat len) b = drop (unat len) C"
      unfolding need by blast
    define s1 where "s1 = sched_wake_tasks (s\<lparr>receive_buf := b\<rparr>)"
    have "rx_ok s1" "receive_pos s1 = receive_pos s" "receive_buf s1 = b"
      using ok b(2) by (simp_all add: s1_def rx_ok_def)
    with False b show ?thesis
      by (intro exI [of _ s1]) (simp add: pop_loop.simps [of len copied] s1_def [symmetric] Let_def cong: list.case_cong)
  qed
qed

lemma pop_loop_data:
  assumes "pop_inv (unat len) (unat copied) C s"
  shows "\<exists>s'. pop_loop len copied arrivals s = Ret () s' \<and> rx_ok s' \<and>
     rx_data s' = drop (unat len) (C @ arrived (RX_BUFFER_SIZE - length C) arrivals)"
  using assms
proof (induction arrivals arbitrary: copied C s)
  case Nil
  from pop_round [OF Nil, of "[]"] obtain s1 where
    s1: "pop_loop len copied [] s = Ret () (s1\<lparr>receive_pos := receive_pos s - len\<rparr>)"
      "rx_ok s1" "take (length C - unat len) (receive_buf s1) = drop (unat len) C" by auto
  have C: "length C = unat (receive_pos s)" "unat len \<le> length C" "rx_ok s"
    using Nil by (simp_all add: pop_inv_def)
  have "unat (receive_pos s - len) = length C - unat len"
    using C by (simp add: unat_sub word_le_nat_alt)
  with s1 C show ?case by (auto simp: rx_ok_def rx_data_def)
next
  case (Cons bs rest)
  from pop_round [OF Cons.prems, of "bs # rest"] obtain s1 where
    run: "pop_loop len copied (bs # rest) s =
           (let s2 = fold serial_rx_byte bs s1 in
           if receive_pos s \<noteq> receive_pos s2 then pop_loop len (receive_pos s - len) rest s2
           else Ret () (s2\<lparr>receive_pos := receive_pos s - len\<rparr>))"
    and s1: "rx_ok s1" "receive_pos s1 = receive_pos s" "take (length C - unat len) (receive_buf s1) = drop (unat len) C"
    by auto
  define s2 where "s2 = fold serial_rx_byte bs s1"
  have C: "length C = unat (receive_pos s)" "unat len \<le> length C" "rx_ok s"
    using Cons.prems by (simp_all add: pop_inv_def)
  have need: "unat (receive_pos s - len) = length C - unat len"
    using C by (simp add: unat_sub word_le_nat_alt)
  define a where "a = take (RX_BUFFER_SIZE - length C) bs"
  have s2: "receive_buf s2 = take (length C) (receive_buf s1) @ a @ drop (length C + length a) (receive_buf s1)"
    "unat (receive_pos s2) = length C + length a" "rx_ok s2"
    using rx_fold [OF s1(1) refl refl, of bs] by (simp_all add: s2_def s1(2) C(1) [symmetric] a_def)
  have lenb: "length (take (length C) (receive_buf s1)) = length C"
    using s1(1,2) C(1) by (simp add: rx_ok_def)
  have front: "take (length C - unat len) (receive_buf s2) = drop (unat len) C"
    using s1(3) lenb by (simp add: s2(1))
  show ?case
  proof (cases "a = []")
    case True
    then have "receive_pos s = receive_pos s2" using s2(2) C(1) by (simp add: word_unat_eq_iff)
    then have "pop_loop len copied (bs # rest) s = Ret () (s2\<lparr>receive_pos := receive_pos s - len\<rparr>)"
      by (simp add: run s2_def [symmetric] Let_def)
    moreover have "arrived (RX_BUFFER_SIZE - length C) (bs # rest) = []" using True by (simp add: a_def Let_def)
    ultimately show ?thesis using s2(3) front need C by (auto simp: rx_ok_def rx_data_def)
  next
    case False
    then have "receive_pos s \<noteq> receive_pos s2" using s2(2) C(1) by auto
    then have loop: "pop_loop len copied (bs # rest) s = pop_loop len (receive_pos s - len) rest s2"
      by (simp add: run s2_def [symmetric] Let_def)
    have "pop_inv (unat len) (unat (receive_pos s - len)) (C @ a) s2"
      using s2 front need C lenb by (simp add: pop_inv_def)
    from Cons.IH [OF this] obtain s' where
      s': "pop_loop len (receive_pos s - len) rest s2 = Ret () s'" "rx_ok s'"
        "rx_data s' = drop (unat len) ((C @ a) @ arrived (RX_BUFFER_SIZE - length (C @ a)) rest)" by blast
    have "arrived (RX_BUFFER_SIZE - length C) (bs # rest) = a @ arrived (RX_BUFFER_SIZE - length (C @ a)) rest"
      using False by (simp add: a_def [symmetric] Let_def)
    with loop s' show ?thesis by simp
  qed
qed

lemma console_pop_data:
  assumes "rx_ok s" and "unat len \<le> length (rx_data s)"
  shows "\<exists>s'. console_pop_input len arrivals s = Ret () s' \<and> rx_ok s' \<and>
     rx_data s' = drop (unat len) (rx_data s @ arrived (RX_BUFFER_SIZE - length (rx_data s)) arrivals)"
proof -
  have "pop_inv (unat len) (unat (0 :: u8)) (rx_data s) s"
    using assms length_rx_data [OF assms(1)] by (simp add: pop_inv_def rx_data_def drop_take)
  from pop_loop_data [OF this] show ?thesis by (simp add: console_pop_input_def)
qed

text \<open>C26 (console_input_lossless). Removing a block from the receive buffer always ends and loses
  nothing: however the receive interrupt interleaves with the loop, the buffer holds in the end
  exactly the bytes after the block, followed in order by every byte that arrived meanwhile, up
  to the capacity of the buffer.\<close>

theorem console_input_lossless:
  assumes "rx_ok s" and "unat len \<le> length (rx_data s)"
  shows "\<exists>s'. console_pop_input len arrivals s = Ret () s' \<and> rx_ok s' \<and>
     rx_data s' = drop (unat len) (rx_data s @ arrived (RX_BUFFER_SIZE - length (rx_data s)) arrivals)"
  by (rule console_pop_data [OF assms])

section \<open>The stream of transmitted bytes\<close>

definition tx_ok :: "('a console_st_scheme) \<Rightarrow> bool" where
  "tx_ok s \<longleftrightarrow> length (transmit_buf s) = TX_BUFFER_SIZE \<and> transmit_pos s \<le> transmit_max s \<and>
     unat (transmit_max s) \<le> TX_BUFFER_SIZE"

text \<open>The bytes still to be sent.\<close>

definition tx_data :: "('a console_st_scheme) \<Rightarrow> u8 list" where
  "tx_data s = drop (unat (transmit_pos s)) (take (unat (transmit_max s)) (transmit_buf s))"

lemma length_tx_data: "tx_ok s \<Longrightarrow> length (tx_data s) = unat (transmit_max s) - unat (transmit_pos s)"
  by (simp add: tx_ok_def tx_data_def)

lemma tx_irqs_effect:
  assumes "tx_ok s"
  shows "\<exists>j \<le> length (tx_data s). tx_irqs k s = (take j (tx_data s), s\<lparr>transmit_pos := transmit_pos s + of_nat j\<rparr>)"
  using assms
proof (induction k arbitrary: s)
  case 0
  show ?case by (intro exI [of _ 0]) simp
next
  case (Suc k)
  show ?case
  proof (cases "transmit_max s \<le> transmit_pos s")
    case True
    then show ?thesis using Suc.IH [OF Suc.prems] by (simp add: serial_get_tx_byte_def)
  next
    case False
    define p m where "p = unat (transmit_pos s)" and "m = unat (transmit_max s)"
    have pm: "p < m" "m \<le> TX_BUFFER_SIZE" "length (transmit_buf s) = TX_BUFFER_SIZE"
      using False Suc.prems by (auto simp: tx_ok_def p_def m_def word_le_nat_alt)
    define s1 where "s1 = s\<lparr>transmit_pos := transmit_pos s + 1\<rparr>"
    have p1: "unat (transmit_pos s + 1) = Suc p"
      using pm by (simp add: p_def unat_word_ariths TX_BUFFER_SIZE_def)
    then have ok: "tx_ok s1"
      using pm Suc.prems by (simp add: tx_ok_def s1_def word_le_nat_alt m_def)
    have data: "tx_data s = transmit_buf s ! p # tx_data s1"
      using pm by (simp add: tx_data_def s1_def p1 p_def [symmetric] m_def [symmetric] Cons_nth_drop_Suc [symmetric])
    from Suc.IH [OF ok] obtain j where j: "j \<le> length (tx_data s1)"
      "tx_irqs k s1 = (take j (tx_data s1), s1\<lparr>transmit_pos := transmit_pos s1 + of_nat j\<rparr>)" by blast
    have "tx_irqs (Suc k) s = (take (Suc j) (tx_data s), s\<lparr>transmit_pos := transmit_pos s + of_nat (Suc j)\<rparr>)"
      using False j(2) by (simp add: serial_get_tx_byte_def s1_def [symmetric] data p_def [symmetric])
        (simp add: s1_def add.assoc)
    then show ?thesis using j(1) data by (intro exI [of _ "Suc j"]) simp
  qed
qed

lemma tx_irqs_stream:
  assumes "tx_ok s" and "tx_irqs k s = (bs, s')"
  shows "bs @ tx_data s' = tx_data s" and "tx_ok s'"
    and "\<exists>q. s' = s\<lparr>transmit_pos := q\<rparr> \<and> transmit_pos s \<le> q"
proof -
  from tx_irqs_effect [OF assms(1), of k] obtain j where j: "j \<le> length (tx_data s)" "bs = take j (tx_data s)"
    "s' = s\<lparr>transmit_pos := transmit_pos s + of_nat j\<rparr>" using assms(2) by auto
  have le: "unat (transmit_pos s) + j \<le> unat (transmit_max s)" "unat (transmit_max s) \<le> 96"
    using j(1) assms(1) by (auto simp: length_tx_data tx_ok_def TX_BUFFER_SIZE_def word_le_nat_alt)
  then have "unat (of_nat j :: u8) = j" by (intro unat_of_nat_small) simp
  with le have q: "unat (transmit_pos s + of_nat j) = unat (transmit_pos s) + j"
    by (simp add: unat_word_ariths)
  have "tx_data s' = drop j (tx_data s)"
    by (simp add: j(3) tx_data_def q add.commute)
  then show "bs @ tx_data s' = tx_data s" by (simp add: j(2))
  show "tx_ok s'" using assms(1) le q by (simp add: tx_ok_def j(3) word_le_nat_alt)
  show "\<exists>q. s' = s\<lparr>transmit_pos := q\<rparr> \<and> transmit_pos s \<le> q"
    using q by (intro exI [of _ "transmit_pos s + of_nat j"]) (simp add: j(3) word_le_nat_alt)
qed

text \<open>The store of a block behind the pending bytes.\<close>

lemma tx_store:
  assumes "tx_ok s" and "unat (transmit_max s) = tmax" and "tmax + length blk \<le> TX_BUFFER_SIZE"
    and "s1 = s\<lparr>transmit_buf := take tmax (transmit_buf s) @ blk @ drop (length blk) (drop tmax (transmit_buf s))\<rparr>"
  shows "tx_ok s1" and "tx_data s1 = tx_data s"
    and "tx_irqs k s1 = (bs, s2) \<Longrightarrow> s3 = s2\<lparr>transmit_max := of_nat (tmax + length blk)\<rparr> \<Longrightarrow>
         tx_ok s3 \<and> bs @ tx_data s3 = tx_data s @ blk"
proof -
  have len: "length (transmit_buf s) = TX_BUFFER_SIZE" "tmax \<le> TX_BUFFER_SIZE" "unat (transmit_pos s) \<le> tmax"
    using assms(1,2) by (auto simp: tx_ok_def word_le_nat_alt)
  then show ok1: "tx_ok s1" and data1: "tx_data s1 = tx_data s"
    using assms by (auto simp: tx_ok_def tx_data_def)
  assume irqs: "tx_irqs k s1 = (bs, s2)" and s3: "s3 = s2\<lparr>transmit_max := of_nat (tmax + length blk)\<rparr>"
  from tx_irqs_stream [OF ok1 irqs] obtain q where
    s2: "bs @ tx_data s2 = tx_data s1" "tx_ok s2" "s2 = s1\<lparr>transmit_pos := q\<rparr>" "transmit_pos s1 \<le> q" by blast
  have max: "unat (of_nat (tmax + length blk) :: u8) = tmax + length blk"
    using assms(3) by (intro unat_of_nat_small) (simp add: TX_BUFFER_SIZE_def)
  have q: "unat q \<le> tmax" using s2(2,3) assms(2,4) by (simp add: tx_ok_def word_le_nat_alt)
  have "tx_data s3 = tx_data s2 @ blk"
    unfolding s3 s2(3) assms(4) tx_data_def using len q max assms(2) by simp
  moreover have "tx_ok s3"
    using s2(2) q max assms(3) by (simp add: tx_ok_def s3 s2(3) word_le_nat_alt)
  ultimately show "tx_ok s3 \<and> bs @ tx_data s3 = tx_data s @ blk"
    using s2(1) data1 by (metis append_assoc)
qed

lemma tx_enable_simps [simp]:
  "tx_ok (serial_enable_tx_irq s) = tx_ok s" "tx_data (serial_enable_tx_irq s) = tx_data s"
  "transmit_max (serial_enable_tx_irq s) = transmit_max s" "cmd_finder (serial_enable_tx_irq s) = cmd_finder s"
  by (simp_all add: serial_enable_tx_irq_def tx_ok_def tx_data_def)

lemma make_room:
  assumes "tx_ok s"
  shows "\<exists>s' t. console_make_room (unat (transmit_max s)) s = Ret t s' \<and>
     t = unat (transmit_max s) - unat (transmit_pos s) \<and> unat (transmit_max s') = t \<and> tx_ok s' \<and>
     tx_data s' = tx_data s \<and> cmd_finder s' = cmd_finder s"
proof -
  define p m where "p = unat (transmit_pos s)" and "m = unat (transmit_max s)"
  have pm: "p \<le> m" "m \<le> TX_BUFFER_SIZE" "length (transmit_buf s) = TX_BUFFER_SIZE"
    using assms by (auto simp: tx_ok_def p_def m_def word_le_nat_alt)
  have small: "unat (of_nat (m - p) :: u8) = m - p"
    using pm by (intro unat_of_nat_small) (simp add: TX_BUFFER_SIZE_def)
  have "memmove 0 p (m - p) (transmit_buf s) = Some (take (m - p) (drop p (transmit_buf s)) @ drop (m - p) (transmit_buf s))"
    using pm by (simp add: memmove_def)
  then show ?thesis
    using pm small
    by (simp add: console_make_room_def Let_def p_def [symmetric] m_def [symmetric])
      (simp add: tx_ok_def tx_data_def p_def [symmetric] m_def [symmetric] drop_take)
qed

lemma console_store_stream:
  fixes s :: "'a console_st_scheme"
  assumes "tx_ok s" and "unat (transmit_max s) = tmax" and "tmax + length body + 5 \<le> TX_BUFFER_SIZE"
    and "\<And>s' :: 'a console_st_scheme. command_encodef ce args s' = Ret (body, length body + 5) s'"
  shows "\<exists>sent s'. console_store ce args k2 k3 tmax s = Ret sent s' \<and> tx_ok s' \<and>
     sent @ tx_data s' = tx_data s @ frame (next_sequence (cmd_finder s)) body"
proof -
  obtain sent2 s2 where irqs: "tx_irqs k2 s = (sent2, s2)" by fastforce
  from tx_irqs_stream [OF assms(1) irqs] obtain q where
    s2: "sent2 @ tx_data s2 = tx_data s" "tx_ok s2" "s2 = s\<lparr>transmit_pos := q\<rparr>" by blast
  define blk where "blk = frame (next_sequence (cmd_finder s)) body"
  have fin: "cmd_finder s2 = cmd_finder s" and max2: "unat (transmit_max s2) = tmax" and
    buf2: "length (transmit_buf s2) = TX_BUFFER_SIZE"
    using assms(2) s2(2) by (simp_all add: s2(3) tx_ok_def)
  have fit: "tmax + length blk \<le> TX_BUFFER_SIZE" using assms(3) by (simp add: blk_def)
  have enc: "command_encode_and_frame (drop tmax (transmit_buf s2)) ce args (next_sequence (cmd_finder s2)) s2
      = Ret (blk @ drop (length blk) (drop tmax (transmit_buf s2)), length body + 5) s2"
    using command_add_frame_frame [of body "drop tmax (transmit_buf s2)" "next_sequence (cmd_finder s)"] assms(3)
    by (simp add: command_encode_and_frame_def assms(4) fin buf2 blk_def message_consts add.commute)
  define s3 where "s3 = s2\<lparr>transmit_buf := take tmax (transmit_buf s2) @ blk @ drop (length blk) (drop tmax (transmit_buf s2))\<rparr>"
  obtain sent3 s4 where irqs3: "tx_irqs k3 s3 = (sent3, s4)" by fastforce
  from tx_store(3) [OF s2(2) max2 fit s3_def irqs3 refl]
  have s4: "tx_ok (s4\<lparr>transmit_max := of_nat (tmax + length blk)\<rparr>)"
    "sent3 @ tx_data (s4\<lparr>transmit_max := of_nat (tmax + length blk)\<rparr>) = tx_data s2 @ blk" by simp_all
  have "console_store ce args k2 k3 tmax s =
      Ret (sent2 @ sent3) (serial_enable_tx_irq (s4\<lparr>transmit_max := of_nat (tmax + length blk)\<rparr>))"
    using irqs3 by (simp add: console_store_def irqs enc s3_def blk_def Let_def)
  then show ?thesis using s4 s2(1) by (simp add: blk_def [symmetric] append_assoc)
qed

text \<open>C27 (console_output_stream). However the transmit interrupt interleaves with
  \<^verbatim>\<open>console_sendf\<close>, the bytes it has sent followed by those still in the buffer are the bytes
  that were pending before followed by the new block, whole and in order; the block is dropped
  exactly when it may not fit beside the pending bytes. No byte is stored outside the buffer.\<close>

theorem console_output_stream:
  fixes s :: "'a console_st_scheme"
  assumes "tx_ok s" and "\<And>s' :: 'a console_st_scheme. command_encodef ce args s' = Ret (body, length body + 5) s'"
    and "length body + 5 \<le> unat (ce_max_size ce)"
  shows "\<exists>sent s'. console_sendf ce args k1 k2 k3 s = Ret sent s' \<and> tx_ok s' \<and>
     sent @ tx_data s' = tx_data s @
       (if length (tx_data s) + unat (ce_max_size ce) \<le> TX_BUFFER_SIZE
        then frame (next_sequence (cmd_finder s)) body else [])"
proof -
  define tm where "tm = unat (transmit_max s)"
  define tp where "tp = unat (transmit_pos s)"
  define s0 where "s0 = (if tm \<le> tp then s\<lparr>transmit_max := 0, transmit_pos := 0\<rparr> else s)"
  have pm: "tp \<le> tm" using assms(1) by (simp add: tx_ok_def tm_def tp_def word_le_nat_alt)
  have s0: "tx_ok s0" "tx_data s0 = tx_data s" "cmd_finder s0 = cmd_finder s"
    "unat (transmit_max s0) = (if tm \<le> tp then 0 else tm)" "unat (transmit_pos s0) = (if tm \<le> tp then 0 else tp)"
    using assms(1) pm by (auto simp: s0_def tx_ok_def tx_data_def tm_def tp_def)
  have len: "length (tx_data s) = unat (transmit_max s0) - unat (transmit_pos s0)"
    using length_tx_data [OF s0(1)] s0(2) by simp
  obtain sent1 s1 where irqs: "tx_irqs k1 s0 = (sent1, s1)" by fastforce
  from tx_irqs_stream [OF s0(1) irqs] obtain q where
    s1: "sent1 @ tx_data s1 = tx_data s0" "tx_ok s1" "s1 = s0\<lparr>transmit_pos := q\<rparr>" "transmit_pos s0 \<le> q" by blast
  have sendf: "console_sendf ce args k1 k2 k3 s =
      (if TX_BUFFER_SIZE < unat (transmit_max s0) + unat (ce_max_size ce) \<and>
          TX_BUFFER_SIZE < unat (transmit_max s0) + unat (ce_max_size ce) - unat (transmit_pos s0) then Ret sent1 s1
       else bindR (if TX_BUFFER_SIZE < unat (transmit_max s0) + unat (ce_max_size ce)
                   then console_make_room (unat (transmit_max s0)) s1 else Ret (unat (transmit_max s0)) s1)
         (\<lambda>tmax s. bindR (console_store ce args k2 k3 tmax s) (\<lambda>sent s. Ret (sent1 @ sent) s)))"
    unfolding console_sendf_def Let_def tm_def [symmetric] tp_def [symmetric] s0_def [symmetric] irqs s0(4,5)
    by simp
  have le0: "unat (transmit_pos s0) \<le> unat (transmit_max s0)" using s0(1) by (simp add: tx_ok_def word_le_nat_alt)
  show ?thesis
  proof (cases "length (tx_data s) + unat (ce_max_size ce) \<le> TX_BUFFER_SIZE")
    case False
    then have "console_sendf ce args k1 k2 k3 s = Ret sent1 s1"
      using le0 unfolding sendf len by (auto simp: not_le)
    then show ?thesis using False s1(1,2) s0(2) by simp
  next
    case True
    have max1: "unat (transmit_max s1) = unat (transmit_max s0)" by (simp add: s1(3))
    have "\<exists>t s2. (if TX_BUFFER_SIZE < unat (transmit_max s0) + unat (ce_max_size ce)
                   then console_make_room (unat (transmit_max s0)) s1 else Ret (unat (transmit_max s0)) s1) = Ret t s2
        \<and> tx_ok s2 \<and> unat (transmit_max s2) = t \<and> t + unat (ce_max_size ce) \<le> TX_BUFFER_SIZE \<and>
          tx_data s2 = tx_data s1 \<and> cmd_finder s2 = cmd_finder s"
    proof (cases "TX_BUFFER_SIZE < unat (transmit_max s0) + unat (ce_max_size ce)")
      case True
      have "unat (transmit_pos s0) \<le> unat (transmit_pos s1)" using s1(3,4) by (simp add: word_le_nat_alt)
      with make_room [OF s1(2)] \<open>length (tx_data s) + _ \<le> _\<close> True show ?thesis
        unfolding max1 len by (auto simp: s1(3) s0(3))
    qed (use s1(2) in \<open>simp add: max1 s1(3) s0(3)\<close>)
    then obtain t s2 where
      room: "(if TX_BUFFER_SIZE < unat (transmit_max s0) + unat (ce_max_size ce)
                   then console_make_room (unat (transmit_max s0)) s1 else Ret (unat (transmit_max s0)) s1) = Ret t s2"
      and s2: "tx_ok s2" "unat (transmit_max s2) = t" "t + unat (ce_max_size ce) \<le> TX_BUFFER_SIZE"
        "tx_data s2 = tx_data s1" "cmd_finder s2 = cmd_finder s" by blast
    have fit: "t + length body + 5 \<le> TX_BUFFER_SIZE" using s2(3) assms(3) by simp
    from console_store_stream [OF s2(1,2) fit assms(2)] obtain sent s' where
      st: "console_store ce args k2 k3 t s2 = Ret sent s'" "tx_ok s'"
        "sent @ tx_data s' = tx_data s2 @ frame (next_sequence (cmd_finder s2)) body" by blast
    have "console_sendf ce args k1 k2 k3 s = Ret (sent1 @ sent) s'"
      using True le0 by (simp only: sendf room len) (simp add: st(1) not_less)
    then show ?thesis using st(2,3) True s1(1) s0(2) s2(4,5) by (simp add: append_assoc [symmetric])
  qed
qed

section \<open>Commands of a block\<close>

text \<open>The table with the function of every command that is not allowed in shutdown replaced.\<close>

definition gate :: "(u32 list \<Rightarrow> 's \<Rightarrow> ('s, unit) res) \<Rightarrow> 's command_parser list \<Rightarrow> 's command_parser list" where
  "gate f = map (\<lambda>cp. if cp_flags cp AND HF_IN_SHUTDOWN = 0 then cp\<lparr>cp_func := f\<rparr> else cp)"

lemma lookup_gate:
  "command_lookup_parser (gate f ix) i s =
     (case command_lookup_parser ix i s of
        Ret cp s \<Rightarrow> Ret (if cp_flags cp AND HF_IN_SHUTDOWN = 0 then cp\<lparr>cp_func := f\<rparr> else cp) s
      | Shutdown r s \<Rightarrow> Shutdown r s | Fault \<Rightarrow> Fault)"
  by (simp add: command_lookup_parser_def gate_def)

lemma lookup_Ret: "command_lookup_parser ix i s = Ret cp s' \<Longrightarrow> cp \<in> set ix \<and> s' = s"
  by (auto simp: command_lookup_parser_def split: if_splits)

lemma parsef_state: "command_parsef buf p e ts s = Ret ap s' \<Longrightarrow> s' = s"
  using parse_params_mono [of ts buf p e "[]" s "fst ap" "snd ap" s'] by (simp add: command_parsef_def)

lemma report_shutdown_status [simp]: "sched_is_shutdown (sched_report_shutdown str_id s) = sched_is_shutdown s"
  by (simp add: sched_report_shutdown_def sched_is_shutdown_def command_sendf_def)

lemma dispatch_loop_gate:
  assumes "\<And>cp args s s'. cp \<in> set ix \<Longrightarrow> cp_flags cp AND HF_IN_SHUTDOWN \<noteq> 0 \<Longrightarrow> sched_is_shutdown s \<Longrightarrow>
      cp_func cp args s = Ret () s' \<Longrightarrow> sched_is_shutdown s'"
    and "\<And>s s'. sched_is_shutdown s \<Longrightarrow> poll s = Ret () s' \<Longrightarrow> sched_is_shutdown s'"
  shows "sched_is_shutdown s \<Longrightarrow>
    dispatch_loop (gate f ix) str_id poll buf p msgend s = dispatch_loop ix str_id poll buf p msgend s"
proof (induction "msgend - p" arbitrary: p s rule: less_induct)
  case less
  show ?case
  proof (cases "p < msgend")
    case True
    show ?thesis
    proof (cases "command_parse_msgid buf p")
      case (Some iq)
      obtain i q where iq: "iq = (i, q)" by (cases iq)
      show ?thesis
      proof (cases "command_lookup_parser ix i s")
        case (Ret cp s1)
        note cp = lookup_Ret [OF Ret]
        show ?thesis
        proof (cases "command_parsef buf q msgend (cp_param_types cp) s")
          case (Ret ap s2)
          have s2: "s2 = s" using parsef_state [OF Ret] .
          have "p < snd ap" using Some iq parse_params_mono [of "cp_param_types cp" buf q msgend "[]" s "fst ap" "snd ap" s2] Ret
            by (auto simp: command_parsef_def command_parse_msgid_def split: option.splits if_splits)
          then have IH: "sched_is_shutdown s' \<Longrightarrow>
              dispatch_loop (gate f ix) str_id poll buf (snd ap) msgend s' = dispatch_loop ix str_id poll buf (snd ap) msgend s'" for s'
            using less.hyps True by (simp add: diff_less_mono2)
          have "bindR (poll s) (\<lambda>_ s. bindR (cp_func cp (fst ap) s)
                  (\<lambda>_ s. dispatch_loop (gate f ix) str_id poll buf (snd ap) msgend s)) =
                bindR (poll s) (\<lambda>_ s. bindR (cp_func cp (fst ap) s)
                  (\<lambda>_ s. dispatch_loop ix str_id poll buf (snd ap) msgend s))"
            if "cp_flags cp AND HF_IN_SHUTDOWN \<noteq> 0"
            by (intro bindR_cong refl IH)
              (metis (full_types) assms(1) [OF conjunct1 [OF cp] that] assms(2) [OF less.prems] old.unit.exhaust)
          then show ?thesis
            using True Some iq cp Ret less.prems s2 \<open>command_lookup_parser ix i s = _\<close> IH
            by (subst (1 2) dispatch_loop.simps) (simp add: lookup_gate)
        qed (use True Some iq cp \<open>command_lookup_parser ix i s = _\<close> in
            \<open>subst (1 2) dispatch_loop.simps, simp add: lookup_gate\<close>)+
      qed (use True Some iq in \<open>subst (1 2) dispatch_loop.simps, simp add: lookup_gate\<close>)+
    qed (subst (1 2) dispatch_loop.simps, simp)
  qed (subst (1 2) dispatch_loop.simps, simp)
qed

text \<open>After a shutdown a block of commands does what it would do if
  every command without the flag \<^verbatim>\<open>HF_IN_SHUTDOWN\<close> had some other, arbitrary handler: none of
  those handlers is called, as long as the allowed commands and the interrupts leave the machine
  in shutdown.\<close>

theorem shutdown_gates_commands:
  assumes "\<And>cp args s s'. cp \<in> set ix \<Longrightarrow> cp_flags cp AND HF_IN_SHUTDOWN \<noteq> 0 \<Longrightarrow> sched_is_shutdown s \<Longrightarrow>
      cp_func cp args s = Ret () s' \<Longrightarrow> sched_is_shutdown s'"
    and "\<And>s s'. sched_is_shutdown s \<Longrightarrow> poll s = Ret () s' \<Longrightarrow> sched_is_shutdown s'"
    and "sched_is_shutdown s"
  shows "command_dispatch (gate f ix) str_id poll buf msglen s = command_dispatch ix str_id poll buf msglen s"
  unfolding command_dispatch_def
  by (rule dispatch_loop_gate) (erule (3) assms(1), erule (1) assms(2), rule assms(3))

text \<open>A machine with bytes in both buffers.\<close>

definition console_boot :: "uart_st \<Rightarrow> console_st" where
  "console_boot b = uart_st.extend b
     (console_st.fields finder_init (replicate RX_BUFFER_SIZE 0) 0 (replicate TX_BUFFER_SIZE 0) 0 0 0)"

definition example_console :: console_st where
  "example_console = (console_boot (example_uart uart_zero))
     \<lparr>receive_buf := frame 0x10 [1] @ [0x42, 0x43] @ replicate 184 0, receive_pos := 8,
      transmit_pos := 1, transmit_max := 3\<rparr>"

lemma example_console_simps [simp]:
  "cmd_finder example_console = finder_init"
  "receive_buf example_console = frame 0x10 [1] @ [0x42, 0x43] @ replicate 184 0"
  "receive_pos example_console = 8" "transmit_buf example_console = replicate TX_BUFFER_SIZE 0"
  "transmit_pos example_console = 1" "transmit_max example_console = 3"
  by (simp_all add: example_console_def console_boot_def console_st.defs uart_st.defs)

lemma replicate_numeral: "replicate (numeral k) x = x # replicate (pred_numeral k) x"
  by (simp add: numeral_eq_Suc)

lemma example_console_ok:
  "rx_ok example_console" "tx_ok example_console" "rx_data example_console = frame 0x10 [1] @ [0x42, 0x43]"
  "tx_data example_console = [0, 0]" "\<not> sched_is_shutdown (example_console\<lparr>shutdown_status := 0\<rparr>)"
  by (simp_all add: rx_ok_def rx_data_def tx_ok_def tx_data_def RX_BUFFER_SIZE_def TX_BUFFER_SIZE_def
      sched_is_shutdown_def drop_take)  (simp add: replicate_numeral)

theorem shutdown_gates_commands_witness:
  "command_dispatch (gate (\<lambda>_ _. Fault) [undefined\<lparr>cp_flags := 0\<rparr>,
       \<lparr>cp_encoded_msgid = 1, cp_num_args = 0, cp_flags = 0, cp_param_types = [], cp_func = \<lambda>_ s. Ret () (sched_wake_tasks s)\<rparr>])
     (\<lambda>_. 0) (Ret ()) (frame 0x10 [1]) 6 (example_console\<lparr>shutdown_status := 1\<rparr>) =
   command_dispatch [undefined\<lparr>cp_flags := 0\<rparr>,
       \<lparr>cp_encoded_msgid = 1, cp_num_args = 0, cp_flags = 0, cp_param_types = [], cp_func = \<lambda>_ s. Ret () (sched_wake_tasks s)\<rparr>]
     (\<lambda>_. 0) (Ret ()) (frame 0x10 [1]) 6 (example_console\<lparr>shutdown_status := 1\<rparr>)"
  by (rule shutdown_gates_commands) (auto simp: sched_is_shutdown_def)

theorem console_input_lossless_witness:
  "\<exists>s'. console_pop_input 6 [[0x44], [], [0x45]] example_console = Ret () s' \<and> rx_ok s' \<and>
     rx_data s' = [0x42, 0x43, 0x44]"
  using console_input_lossless [of example_console 6 "[[0x44], [], [0x45]]"]
  by (simp add: example_console_ok) (simp add: RX_BUFFER_SIZE_def)

theorem console_output_stream_witness:
  "\<exists>sent s'. console_sendf \<lparr>ce_encoded_msgid = 3, ce_max_size = 16, ce_param_types = [PT_uint32, PT_byte]\<rparr>
        (map VInt [70000, 5]) 1 5 0 example_console = Ret sent s' \<and> tx_ok s' \<and>
     sent @ tx_data s' = [0, 0] @ frame 0x10 [3, 0x84, 0xa2, 0x70, 5]"
proof -
  define ce where "ce = \<lparr>ce_encoded_msgid = 3, ce_max_size = 16, ce_param_types = [PT_uint32, PT_byte]\<rparr>"
  have "command_encodef ce (map VInt [70000, 5]) s = Ret ([3, 0x84, 0xa2, 0x70, 5], length [3 :: u8, 0x84, 0xa2, 0x70, 5] + 5) s"
    for s :: console_st
    using command_encodef_ints [of ce "[70000, 5]" s]
    by (simp add: ce_def int_param_def encode_msgid_def encode_int_def)
  from console_output_stream [OF example_console_ok(2) this, of 1 5 0]
  show ?thesis unfolding ce_def by (simp add: example_console_ok TX_BUFFER_SIZE_def finder_init_def MESSAGE_DEST_def)
qed

text \<open>C11 (console_task_block). With a block of the expected sequence number at the front of the
  receive buffer, \<^verbatim>\<open>console_task\<close> runs its commands once, then removes exactly that block, keeping
  all bytes that follow it or arrive meanwhile, and acknowledges it with the next sequence
  number, provided the handlers leave the console's own state alone.\<close>

theorem console_task_block:
  assumes "rx_ok s" and "synced (cmd_finder s)" and "length body \<le> 59" and "seq_ok (next_sequence (cmd_finder s))"
    and "rx_data s = frame (next_sequence (cmd_finder s)) body @ rest"
    and "command_dispatch ix str_id poll (receive_buf s) (length body + 5)
           (s\<lparr>cmd_finder := fb_state (command_find_block (cmd_finder s) (rx_data s))\<rparr>) = Ret () s2"
    and "receive_buf s2 = receive_buf s" and "receive_pos s2 = receive_pos s"
    and "cmd_finder s2 = fb_state (command_find_block (cmd_finder s) (rx_data s))"
  shows "\<exists>s3. console_pop_input (of_nat (length body + 5)) arrivals s2 = Ret () s3 \<and>
     console_task ix str_id poll boot arrivals s = Ret () (command_send_ack s3) \<and> rx_ok s3 \<and>
     rx_data s3 = rest @ arrived (RX_BUFFER_SIZE - length (rx_data s)) arrivals \<and>
     next_sequence (cmd_finder s2) = next_seq (next_sequence (cmd_finder s))"
proof -
  define fb where "fb = command_find_block (cmd_finder s) (rx_data s)"
  have fb: "fb_ret fb = 1" "fb_pop fb = length body + 5" "fb_nak fb = False"
      "next_sequence (fb_state fb) = next_seq (next_sequence (cmd_finder s))"
    using find_block_frame [OF assms(2-4), of rest] by (simp_all add: fb_def assms(5) Let_def)
  have ok: "rx_ok s2" and data: "rx_data s2 = rx_data s"
    using assms(1,7,8) by (simp_all add: rx_ok_def rx_data_def)
  have len: "unat (of_nat (length body + 5) :: u8) = length body + 5"
    using assms(3) by (intro unat_of_nat_small) simp
  have "unat (of_nat (length body + 5) :: u8) \<le> length (rx_data s2)"
    unfolding len data assms(5) by simp
  from console_pop_data [OF ok this, of arrivals] obtain s3 where
    s3: "console_pop_input (of_nat (length body + 5)) arrivals s2 = Ret () s3" "rx_ok s3"
      "rx_data s3 = drop (length body + 5) (rx_data s @ arrived (RX_BUFFER_SIZE - length (rx_data s)) arrivals)"
    unfolding len data by blast
  have "find_block_op (take (unat (receive_pos s)) (receive_buf s)) s
      = ((1, length body + 5), s\<lparr>cmd_finder := fb_state fb\<rparr>)"
    using fb by (simp add: find_block_op_def fb_def rx_data_def Let_def)
  then have "console_task ix str_id poll boot arrivals s = Ret () (command_send_ack s3)"
    using assms(6) s3(1) by (simp add: console_task_def Let_def fb_def [symmetric] split: option.splits)
  then show ?thesis using s3 fb(4) assms(9) by (auto simp: assms(5) fb_def)
qed

theorem console_task_block_witness:
  "\<exists>s3. console_task
       [undefined, \<lparr>cp_encoded_msgid = 1, cp_num_args = 0, cp_flags = 1, cp_param_types = [], cp_func = \<lambda>_ s. Ret () (sched_wake_tasks s)\<rparr>]
       (\<lambda>_. 0) (Ret ()) None [[0x44]] example_console = Ret () (command_send_ack s3) \<and>
     rx_data s3 = [0x42, 0x43, 0x44]"
proof -
  define ix :: "console_st command_parser list" where
    "ix = [undefined, \<lparr>cp_encoded_msgid = 1, cp_num_args = 0, cp_flags = 1, cp_param_types = [], cp_func = \<lambda>_ s. Ret () (sched_wake_tasks s)\<rparr>]"
  define s1 where "s1 = example_console\<lparr>cmd_finder := fb_state (command_find_block (cmd_finder example_console) (rx_data example_console))\<rparr>"
  have "frame 0x10 [1] ! 2 = 1" by (simp add: frame_def block_len_def Let_def)
  then have "command_parse_msgid (receive_buf example_console) 2 = Some (1, 3)"
    by (simp add: command_parse_msgid_def Let_def)
  then have "command_dispatch ix (\<lambda>_. 0) (Ret ()) (receive_buf example_console) (length [1 :: u8] + 5) s1
      = Ret () (sched_wake_tasks s1)"
    by (simp add: command_dispatch_def message_consts dispatch_loop.simps ix_def command_lookup_parser_def
        command_parsef_def HF_IN_SHUTDOWN_def)
  from console_task_block [OF example_console_ok(1) _ _ _ _ this [unfolded s1_def], of "[0x42, 0x43]" "[[0x44]]" None]
  show ?thesis unfolding ix_def
    by (simp add: example_console_ok synced_def seq_ok_def finder_init_def message_consts CF_NEED_SYNC_def
        CF_NEED_VALID_def RX_BUFFER_SIZE_def) (auto simp: sched_wake_tasks_def)
qed

end
