(* ===== verification/Double.thy ===== *)
theory Double
  imports Prelude Complex_Main "HOL-Library.Log_Nat"
begin

text \<open>
  The \<^verbatim>\<open>double\<close> of the host code (\<^verbatim>\<open>src/klippy/chelper\<close>): a finite double is the rational
  number it stands for, and an operation is the exact operation followed by rounding to 53
  significant bits, to nearest with ties to even. Infinities, NaN and the ends of the exponent
  range are outside of the model: times in seconds, frequencies and clocks are far from them.
\<close>

type_synonym double = rat

section \<open>Rounding\<close>

text \<open>\<open>\<lfloor>log\<^sub>2 x\<rfloor>\<close> of a positive rational.\<close>

definition exponent :: "rat \<Rightarrow> int" where
  "exponent x =
     (let (a, b) = quotient_of x;
          k = int (floorlog 2 (nat a)) - int (floorlog 2 (nat b))
      in if 2 powi k \<le> x then k else k - 1)"

definition round_even :: "rat \<Rightarrow> int" where
  "round_even x =
     (let f = \<lfloor>x\<rfloor>; r = x - of_int f in
      if r < 1 / 2 then f else if 1 / 2 < r then f + 1 else if even f then f else f + 1)"

definition rnd :: "rat \<Rightarrow> double" where
  "rnd x =
     (if x = 0 then 0
      else let e = exponent \<bar>x\<bar> - 52 in of_int (round_even (x / 2 powi e)) * 2 powi e)"

definition dadd :: "double \<Rightarrow> double \<Rightarrow> double" where "dadd x y = rnd (x + y)"
definition dsub :: "double \<Rightarrow> double \<Rightarrow> double" where "dsub x y = rnd (x - y)"
definition dmul :: "double \<Rightarrow> double \<Rightarrow> double" where "dmul x y = rnd (x * y)"
definition ddiv :: "double \<Rightarrow> double \<Rightarrow> double" where "ddiv x y = rnd (x / y)"

text \<open>Conversions between doubles and integers: to a double with rounding, from a double by
  truncation.\<close>

definition double_of_int :: "int \<Rightarrow> double" where "double_of_int i = rnd (of_int i)"

definition trunc :: "double \<Rightarrow> int" where
  "trunc x = (if 0 \<le> x then \<lfloor>x\<rfloor> else \<lceil>x\<rceil>)"

text \<open>\<^verbatim>\<open>sqrt\<close> of \<^verbatim>\<open>math.h\<close> is correctly rounded too; it is not a number for a negative argument. The
  square root of an integer is taken digit by digit.\<close>

fun isqrt :: "nat \<Rightarrow> nat" where
  "isqrt n = (if n = 0 then 0 else let r = 2 * isqrt (n div 4) in if (r + 1) * (r + 1) \<le> n then r + 1 else r)"

declare isqrt.simps [simp del]

definition dsqrt :: "double \<Rightarrow> double option" where
  "dsqrt x =
     (if x < 0 then None else if x = 0 then Some 0
      else let e = exponent x div 2 - 52;
               y = x / 2 powi (2 * e);
               n = int (isqrt (nat \<lfloor>y\<rfloor>));
               mid = (of_int n + 1 / 2) * (of_int n + 1 / 2);
               m = (if mid < y then n + 1 else if y < mid then n else if even n then n else n + 1)
           in Some (of_int m * 2 powi e))"

section \<open>Integers up to 53 bits are exact\<close>

lemma isqrt_bounds: "isqrt n * isqrt n \<le> n \<and> n < (isqrt n + 1) * (isqrt n + 1)"
proof (induction n rule: isqrt.induct)
  case (1 n)
  show ?case
  proof (cases "n = 0")
    case False
    define q where "q = isqrt (n div 4)"
    have IH: "q * q \<le> n div 4" "n div 4 < (q + 1) * (q + 1)" using 1 [OF False] by (simp_all add: q_def)
    have "4 * (n div 4) \<le> n" "n < 4 * (n div 4) + 4" by presburger+
    then have "4 * (q * q) \<le> n" "n < 4 * ((q + 1) * (q + 1))" using IH by linarith+
    moreover have "isqrt n = (if (2 * q + 1) * (2 * q + 1) \<le> n then 2 * q + 1 else 2 * q)"
      using False by (subst isqrt.simps) (simp add: q_def Let_def)
    ultimately show ?thesis by (auto simp: algebra_simps)
  qed (simp add: isqrt.simps)
qed

lemma round_even_int [simp]: "round_even (of_int i) = i"
  by (simp add: round_even_def Let_def)

lemma exponent_int:
  assumes "0 < i"
  shows "exponent (of_int i) = int (floorlog 2 (nat i) - 1)"
proof -
  have "(2 :: nat) ^ (floorlog 2 (nat i) - 1) \<le> nat i" using floorlog_bounds [of "nat i" 2] assms by simp
  then have "(2 :: int) ^ (floorlog 2 (nat i) - 1) \<le> i" using assms by (simp add: le_nat_iff)
  then have "(2 :: rat) ^ (floorlog 2 (nat i) - 1) \<le> of_int i"
    by (metis of_int_le_iff of_int_numeral of_int_power)
  moreover have "floorlog 2 (nat i) \<noteq> 0" "floorlog 2 (Suc 0) = 1"
    using assms by (simp_all add: floorlog_def)
  ultimately show ?thesis by (simp add: exponent_def power_int_def nat_diff_distrib)
qed

lemma rnd_0 [simp]: "rnd 0 = 0"
  by (simp add: rnd_def)

lemma rnd_int:
  assumes "\<bar>i\<bar> < 2 ^ 53"
  shows "rnd (of_int i) = of_int i"
proof (cases "i = 0")
  case False
  define k where "k = floorlog 2 (nat \<bar>i\<bar>) - 1"
  have "(2 :: nat) ^ k \<le> nat \<bar>i\<bar>" using floorlog_bounds [of "nat \<bar>i\<bar>" 2] False by (simp add: k_def)
  also have "\<dots> < 2 ^ 53" using assms by (simp add: nat_less_iff)
  finally have "k < 53" by (rule power_less_imp_less_exp [rotated]) simp
  then have k: "k \<le> 52" by simp
  have "exponent \<bar>of_int i\<bar> - 52 = - int (52 - k)"
    using exponent_int [of "\<bar>i\<bar>"] False k by (simp add: k_def)
  moreover have "of_int i / (2 :: rat) powi (- int (52 - k)) = of_int (i * 2 ^ (52 - k))"
    by (simp only: power_int_minus) (simp add: field_simps)
  ultimately show ?thesis
    using False by (simp add: rnd_def Let_def del: of_int_mult) (simp add: power_int_minus field_simps)
qed simp

lemma trunc_int [simp]: "trunc (of_int i) = i"
  by (simp add: trunc_def)

lemma double_of_int_exact: "\<bar>i\<bar> < 2 ^ 53 \<Longrightarrow> double_of_int i = of_int i"
  by (simp add: double_of_int_def rnd_int)

section \<open>Rounding is monotone and close\<close>

lemma exponent_bounds:
  assumes "0 < x"
  shows "2 powi exponent x \<le> x \<and> x < 2 powi (exponent x + 1)"
proof -
  obtain a b where q: "quotient_of x = (a, b)" by (cases "quotient_of x")
  then have b: "0 < b" and x: "x = of_int a / of_int b" by (auto simp: quotient_of_denom_pos quotient_of_div)
  then have a: "0 < a" using assms by (simp add: zero_less_divide_iff)
  define k where "k = int (floorlog 2 (nat a)) - int (floorlog 2 (nat b))"
  have log: "2 powi (int (floorlog 2 (nat n)) - 1) \<le> (of_int n :: rat) \<and> (of_int n :: rat) < 2 powi int (floorlog 2 (nat n))"
    if n: "0 < n" for n :: int
  proof -
    have f: "2 ^ (floorlog 2 (nat n) - 1) \<le> nat n" "nat n < 2 ^ floorlog 2 (nat n)"
      using floorlog_bounds [of "nat n" 2] n by auto
    have "floorlog 2 (nat n) \<noteq> 0" using n by (simp add: floorlog_def)
    then have "int (floorlog 2 (nat n)) - 1 = int (floorlog 2 (nat n) - 1)" by simp
    moreover have i: "(2 :: int) ^ (floorlog 2 (nat n) - 1) \<le> n" "n < 2 ^ floorlog 2 (nat n)"
      using f n by (simp_all add: le_nat_iff nat_less_iff)
    have "of_int (2 ^ (floorlog 2 (nat n) - 1)) \<le> (of_int n :: rat)" "(of_int n :: rat) < of_int (2 ^ floorlog 2 (nat n))"
      using i by (simp_all only: of_int_le_iff of_int_less_iff)
    then have "(2 :: rat) ^ (floorlog 2 (nat n) - 1) \<le> of_int n" "of_int n < (2 :: rat) ^ floorlog 2 (nat n)" by simp_all
    ultimately show ?thesis by (simp only: power_int_of_nat)
  qed
  note la = log [OF a] and lb = log [OF b]
  have pos: "(0 :: rat) < of_int b" using b by simp
  have up: "x < 2 powi (k + 1)"
  proof -
    have "2 powi (k + 1) * 2 powi (int (floorlog 2 (nat b)) - 1) = (2 :: rat) powi int (floorlog 2 (nat a))"
      by (subst power_int_add [symmetric]) (simp_all add: k_def del: power_int_of_nat)
    then have "of_int a < 2 powi (k + 1) * (2 :: rat) powi (int (floorlog 2 (nat b)) - 1)" using la by (simp only:)
    also have "\<dots> \<le> 2 powi (k + 1) * of_int b" using conjunct1 [OF lb] by (intro mult_left_mono) simp_all
    finally show ?thesis using x pos by (simp add: divide_less_eq)
  qed
  have "2 powi (k - 1) * of_int b \<le> 2 powi (k - 1) * (2 :: rat) powi int (floorlog 2 (nat b))"
    using less_imp_le [OF conjunct2 [OF lb]] by (rule mult_left_mono) simp
  also have "2 powi (k - 1) * (2 :: rat) powi int (floorlog 2 (nat b)) = 2 powi (int (floorlog 2 (nat a)) - 1)"
    by (subst power_int_add [symmetric]) (simp_all add: k_def del: power_int_of_nat)
  also have "\<dots> \<le> of_int a" using la by blast
  finally have low: "2 powi (k - 1) \<le> x" using x pos by (simp add: le_divide_eq)
  have "exponent x = (if 2 powi k \<le> x then k else k - 1)" by (simp add: exponent_def q Let_def k_def)
  then show ?thesis using up low by auto
qed

lemma powi2_lessD: "(2 :: rat) powi a < 2 powi b \<Longrightarrow> a < b"
  using power_int_increasing [of b a "2 :: rat"] by (cases "b \<le> a") simp_all

lemma exponent_eqI: "2 powi e \<le> x \<Longrightarrow> x < 2 powi (e + 1) \<Longrightarrow> exponent x = e"
proof -
  assume e: "2 powi e \<le> x" "x < 2 powi (e + 1)"
  have "0 < (2 :: rat) powi e" by simp
  then have b: "2 powi exponent x \<le> x" "x < 2 powi (exponent x + 1)" using exponent_bounds [of x] e(1) by linarith+
  have "(2 :: rat) powi e < 2 powi (exponent x + 1)" "(2 :: rat) powi exponent x < 2 powi (e + 1)" using e b by linarith+
  then have "e < exponent x + 1" "exponent x < e + 1" by (simp_all only: powi2_lessD)
  then show ?thesis by simp
qed

lemma exponent_mono: "0 < x \<Longrightarrow> x \<le> y \<Longrightarrow> exponent x \<le> exponent y"
proof -
  assume "0 < x" "x \<le> y"
  then have "2 powi exponent x < (2 :: rat) powi (exponent y + 1)"
    using exponent_bounds [of x] exponent_bounds [of y] by linarith
  then have "exponent x < exponent y + 1" by (rule powi2_lessD)
  then show ?thesis by simp
qed

lemma round_even_mono: "x \<le> y \<Longrightarrow> round_even x \<le> round_even y"
proof -
  assume le: "x \<le> y"
  then have f: "\<lfloor>x\<rfloor> \<le> \<lfloor>y\<rfloor>" by (rule floor_mono)
  show ?thesis
  proof (cases "\<lfloor>x\<rfloor> = \<lfloor>y\<rfloor>")
    case True
    then show ?thesis using le by (auto simp: round_even_def Let_def)
  next
    case False
    then have "\<lfloor>x\<rfloor> + 1 \<le> \<lfloor>y\<rfloor>" using f by simp
    moreover have "round_even x \<le> \<lfloor>x\<rfloor> + 1" "\<lfloor>y\<rfloor> \<le> round_even y" by (simp_all add: round_even_def Let_def)
    ultimately show ?thesis by linarith
  qed
qed

lemma round_even_close: "\<bar>of_int (round_even x) - x\<bar> \<le> 1 / 2"
proof -
  have "of_int \<lfloor>x\<rfloor> \<le> x" "x < of_int \<lfloor>x\<rfloor> + 1" by linarith+
  then show ?thesis unfolding round_even_def Let_def abs_le_iff by (cases "even \<lfloor>x\<rfloor>"; simp; linarith)
qed

lemma round_even_minus: "round_even (- x) = - round_even x"
proof (cases "x = of_int \<lfloor>x\<rfloor>")
  case True
  then have "- x = of_int (- \<lfloor>x\<rfloor>)" by simp
  then show ?thesis using True by (metis round_even_int)
next
  case False
  define f where "f = \<lfloor>x\<rfloor>"
  have f: "of_int f < x" "x < of_int f + 1" using False unfolding f_def by linarith+
  have "\<lfloor>- x\<rfloor> = - f - 1" using f by (intro floor_unique) auto
  then show ?thesis using f by (auto simp: round_even_def Let_def f_def [symmetric])
qed

lemma rnd_pos:
  assumes "0 < x"
  shows "2 powi exponent x \<le> rnd x" "rnd x \<le> 2 powi (exponent x + 1)"
proof -
  define e where "e = exponent x - 52"
  have r: "rnd x = of_int (round_even (x / 2 powi e)) * 2 powi e" using assms by (simp add: rnd_def e_def Let_def)
  have p: "(2 :: rat) powi exponent x = of_int (2 ^ 52) * 2 powi e" "(2 :: rat) powi (exponent x + 1) = of_int (2 ^ 53) * 2 powi e"
    by (simp_all add: e_def power_int_diff power_int_add)
  have "of_int (2 ^ 52) \<le> x / 2 powi e" "x / 2 powi e \<le> of_int (2 ^ 53)"
    using exponent_bounds [OF assms] unfolding p by (simp_all add: le_divide_eq divide_le_eq)
  then have "2 ^ 52 \<le> round_even (x / 2 powi e)" "round_even (x / 2 powi e) \<le> 2 ^ 53"
    using round_even_mono round_even_int by metis+
  then have "of_int (2 ^ 52) \<le> (of_int (round_even (x / 2 powi e)) :: rat)" "(of_int (round_even (x / 2 powi e)) :: rat) \<le> of_int (2 ^ 53)"
    by (simp_all only: of_int_le_iff)
  then show "2 powi exponent x \<le> rnd x" "rnd x \<le> 2 powi (exponent x + 1)"
    unfolding r p by (intro mult_right_mono; simp)+
qed

lemma rnd_minus [simp]: "rnd (- x) = - rnd x"
  by (simp add: rnd_def Let_def round_even_minus flip: minus_divide_left)

lemma rnd_mono_pos:
  assumes "0 < x" "x \<le> y"
  shows "rnd x \<le> rnd y"
proof (cases "exponent x = exponent y")
  case True
  define e where "e = exponent y - 52"
  have "x / 2 powi e \<le> y / 2 powi e" using assms by (simp add: divide_right_mono)
  then have "(of_int (round_even (x / 2 powi e)) :: rat) \<le> of_int (round_even (y / 2 powi e))"
    by (simp only: of_int_le_iff round_even_mono)
  then have "of_int (round_even (x / 2 powi e)) * (2 :: rat) powi e \<le> of_int (round_even (y / 2 powi e)) * 2 powi e"
    by (rule mult_right_mono) simp
  then show ?thesis using assms True by (simp add: rnd_def Let_def e_def)
next
  case False
  then have "exponent x + 1 \<le> exponent y" using exponent_mono [OF assms] by simp
  then have "(2 :: rat) powi (exponent x + 1) \<le> 2 powi exponent y" by (rule power_int_increasing) simp
  then show ?thesis using rnd_pos(2) [of x] rnd_pos(1) [of y] assms by linarith
qed

lemma rnd_nonneg: "0 \<le> x \<Longrightarrow> 0 \<le> rnd x"
proof (cases "x = 0")
  case False
  moreover have "(0 :: rat) < 2 powi exponent x" by simp
  moreover assume "0 \<le> x"
  ultimately show ?thesis using rnd_pos(1) [of x] by linarith
qed simp

lemma rnd_mono: "x \<le> y \<Longrightarrow> rnd x \<le> rnd y"
proof (cases "0 < x")
  case False
  assume le: "x \<le> y"
  show ?thesis
  proof (cases "0 \<le> y")
    case True
    then show ?thesis using False rnd_nonneg [of "- x"] rnd_nonneg [of y] by simp
  next
    case neg: False
    then show ?thesis using rnd_mono_pos [of "- y" "- x"] le by simp
  qed
qed (rule rnd_mono_pos)

lemma rnd_exact:
  assumes "\<bar>r\<bar> \<le> 2 ^ 53"
  shows "rnd (of_int r * 2 powi e) = of_int r * 2 powi e"
proof (cases "r = 0")
  case False
  define x where "x = (of_int \<bar>r\<bar> :: rat) * 2 powi e"
  have x: "0 < x" using False by (simp add: x_def)
  define E where "E = exponent x"
  have "(of_int \<bar>r\<bar> :: rat) \<le> of_int (2 ^ 53)" using assms by (simp only: of_int_le_iff)
  then have "x \<le> of_int (2 ^ 53) * 2 powi e" unfolding x_def by (rule mult_right_mono) simp
  also have "\<dots> = 2 powi (e + 53)" by (simp add: power_int_add)
  finally have le: "x \<le> 2 powi (e + 53)" .
  have b: "2 powi E \<le> x" "x < 2 powi (E + 1)" using exponent_bounds [OF x] by (simp_all add: E_def)
  have "\<exists>i. x = of_int i * 2 powi (E - 52)"
  proof (cases "E - 52 \<le> e")
    case True
    have "(2 :: rat) powi e = 2 powi (e - (E - 52)) * 2 powi (E - 52)"
      by (subst power_int_add [symmetric]) simp_all
    also have "(2 :: rat) powi (e - (E - 52)) = of_int (2 ^ nat (e - (E - 52)))" using True by (simp add: power_int_def)
    finally have "x = of_int (\<bar>r\<bar> * 2 ^ nat (e - (E - 52))) * 2 powi (E - 52)" by (simp add: x_def)
    then show ?thesis by blast
  next
    case False
    then have "(2 :: rat) powi (e + 53) \<le> 2 powi E" by (intro power_int_increasing) simp_all
    then have "x = 2 powi E" using le b by linarith
    also have "\<dots> = of_int (2 ^ 52) * 2 powi (E - 52)" by (simp add: power_int_diff)
    finally show ?thesis by blast
  qed
  then obtain i where i: "x = of_int i * 2 powi (E - 52)" by blast
  have "rnd x = x" using x by (simp add: rnd_def Let_def E_def [symmetric]) (simp add: i)
  then show ?thesis by (cases "0 \<le> r") (simp_all add: x_def)
qed simp

lemma rnd_form: "\<exists>r e. \<bar>r\<bar> \<le> 2 ^ 53 \<and> rnd x = of_int r * 2 powi e"
proof -
  have pos: "\<exists>r e. \<bar>r\<bar> \<le> 2 ^ 53 \<and> rnd x = of_int r * 2 powi e" if x: "0 < x" for x
  proof -
    define e where "e = exponent x - 52"
    define r where "r = round_even (x / 2 powi e)"
    have rx: "rnd x = of_int r * 2 powi e" using x by (simp add: rnd_def e_def r_def Let_def)
    have "(2 :: rat) powi (exponent x + 1) = of_int (2 ^ 53) * 2 powi e" by (simp add: e_def power_int_diff power_int_add)
    then have "of_int r * (2 :: rat) powi e \<le> of_int (2 ^ 53) * 2 powi e" using rnd_pos(2) [OF x] rx by simp
    then have "(of_int r :: rat) \<le> of_int (2 ^ 53)" by (rule mult_right_le_imp_le) simp
    then have "r \<le> 2 ^ 53" by (simp only: of_int_le_iff)
    moreover have "0 * (2 :: rat) powi e \<le> of_int r * 2 powi e" using rnd_nonneg [of x] x rx by simp
    then have "(0 :: rat) \<le> of_int r" by (rule mult_right_le_imp_le) simp
    then have "0 \<le> r" by simp
    ultimately show ?thesis using rx by (intro exI [of _ r] exI [of _ e]) simp
  qed
  consider "x = 0" | "0 < x" | "0 < - x" by linarith
  then show ?thesis
  proof cases
    case 3
    obtain r e where "\<bar>r\<bar> \<le> 2 ^ 53" "rnd (- x) = of_int r * 2 powi e" using pos [OF 3] by blast
    then show ?thesis by (intro exI [of _ "- r"] exI [of _ e]) simp
  qed (use pos in \<open>auto intro: exI [of _ 0]\<close>)
qed

lemma rnd_rnd [simp]: "rnd (rnd x) = rnd x"
  using rnd_form [of x] rnd_exact by auto

lemma rnd_error: "\<bar>rnd x - x\<bar> \<le> \<bar>x\<bar> / 2 ^ 53"
proof (cases "x = 0")
  case False
  define e where "e = exponent \<bar>x\<bar> - 52"
  have rx: "rnd x = of_int (round_even (x / 2 powi e)) * 2 powi e" using False by (simp add: rnd_def e_def Let_def)
  have "rnd x - x = (of_int (round_even (x / 2 powi e)) - x / 2 powi e) * 2 powi e" by (simp add: rx left_diff_distrib)
  then have "\<bar>rnd x - x\<bar> = \<bar>of_int (round_even (x / 2 powi e)) - x / 2 powi e\<bar> * 2 powi e" by (simp add: abs_mult)
  also have "\<dots> \<le> 1 / 2 * 2 powi e" using round_even_close by (rule mult_right_mono) simp
  also have "\<dots> = 2 powi exponent \<bar>x\<bar> / 2 ^ 53" by (simp add: e_def power_int_diff)
  also have "\<dots> \<le> \<bar>x\<bar> / 2 ^ 53" using exponent_bounds [of "\<bar>x\<bar>"] False by (simp add: divide_right_mono)
  finally show ?thesis .
qed simp

text \<open>A double is a number that rounding keeps.\<close>

definition is_double :: "rat \<Rightarrow> bool" where
  "is_double x \<longleftrightarrow> rnd x = x"

lemma is_double_ops [simp]:
  "is_double 0" "is_double (rnd x)" "is_double (dadd x y)" "is_double (dsub x y)" "is_double (dmul x y)" "is_double (ddiv x y)"
  by (simp_all add: is_double_def dadd_def dsub_def dmul_def ddiv_def)

lemma is_double_scale:
  assumes "is_double x"
  shows "is_double (x * 2 powi k)"
proof -
  obtain r e where re: "\<bar>r\<bar> \<le> 2 ^ 53" "x = of_int r * 2 powi e" using rnd_form [of x] assms by (auto simp: is_double_def)
  have "x * 2 powi k = of_int r * 2 powi (e + k)" by (simp add: re(2) power_int_add)
  then show ?thesis using rnd_exact [OF re(1)] by (simp add: is_double_def)
qed

lemma rnd_lower: "is_double d \<Longrightarrow> d \<le> x \<Longrightarrow> d \<le> rnd x"
  using rnd_mono [of d x] by (simp add: is_double_def)

lemma rnd_upper: "is_double d \<Longrightarrow> x \<le> d \<Longrightarrow> rnd x \<le> d"
  using rnd_mono [of x d] by (simp add: is_double_def)

text \<open>Between two positive bounds there are finitely many doubles.\<close>

lemma is_double_grid:
  assumes "is_double d" "0 < d" "e \<le> exponent d - 52"
  shows "\<exists>i. d = of_int i * 2 powi e"
proof -
  define E where "E = exponent d - 52"
  have d: "d = of_int (round_even (d / 2 powi E)) * 2 powi E" using assms by (simp add: is_double_def rnd_def E_def Let_def)
  have "(2 :: rat) powi E = 2 powi (E - e) * 2 powi e" by (subst power_int_add [symmetric]) simp_all
  also have "(2 :: rat) powi (E - e) = of_int (2 ^ nat (E - e))" using assms(3) by (simp add: power_int_def E_def)
  finally have "d = of_int (round_even (d / 2 powi E) * 2 ^ nat (E - e)) * 2 powi e" by (subst d) simp
  then show ?thesis by blast
qed

lemma finite_doubles:
  assumes "0 < a"
  shows "finite {d. is_double d \<and> a \<le> d \<and> d \<le> b}"
proof -
  define e where "e = exponent a - 52"
  have "{d. is_double d \<and> a \<le> d \<and> d \<le> b} \<subseteq> (\<lambda>i. of_int i * 2 powi e) ` {0..\<lfloor>b / 2 powi e\<rfloor>}"
  proof
    fix d
    assume "d \<in> {d. is_double d \<and> a \<le> d \<and> d \<le> b}"
    then have d: "is_double d" "a \<le> d" "d \<le> b" by auto
    have "e \<le> exponent d - 52" using exponent_mono [OF assms d(2)] by (simp add: e_def)
    then obtain i where i: "d = of_int i * 2 powi e" using is_double_grid [OF d(1)] d(2) assms by fastforce
    have p: "(0 :: rat) < 2 powi e" by simp
    have "of_int i = d / 2 powi e" using i by simp
    then have "(of_int i :: rat) \<le> b / 2 powi e" "(0 :: rat) \<le> of_int i" using d assms by (simp_all add: divide_right_mono)
    then have "i \<in> {0..\<lfloor>b / 2 powi e\<rfloor>}" by (simp add: le_floor_iff)
    then show "d \<in> (\<lambda>i. of_int i * 2 powi e) ` {0..\<lfloor>b / 2 powi e\<rfloor>}" using i by blast
  qed
  then show ?thesis by (rule finite_subset) simp
qed

end
