(* ===== verification/Msgblock.thy ===== *)
theory Msgblock
  imports Command Double
begin

text \<open>
  The host's message blocks (\<^verbatim>\<open>src/klippy/chelper/msgblock.c\<close>, \<^verbatim>\<open>msgblock.h\<close>): checking a
  received block, decoding and encoding its integers, and the estimate of a microcontroller's
  clock. The lemmas show that the host accepts exactly the blocks the firmware recognises, and
  that what one side encodes the other decodes.
\<close>

section \<open>Data\<close>

text \<open>\<^verbatim>\<open>min_clock\<close>/\<^verbatim>\<open>req_clock\<close> and \<^verbatim>\<open>sent_time\<close>/\<^verbatim>\<open>receive_time\<close> share their storage in C;
  no message is read in one role after it was written in the other.\<close>

record queue_message =
  qm_len :: nat
  qm_msg :: "u8 list"
  qm_min_clock :: u64
  qm_req_clock :: u64
  qm_sent_time :: double
  qm_receive_time :: double
  qm_notify_id :: u64

record clock_estimate =
  last_clock :: u64
  conv_clock :: u64
  conv_time :: double
  est_freq :: double

section \<open>Operations\<close>

definition msgblock_crc_step :: "u16 \<Rightarrow> u8 \<Rightarrow> u16" where
  "msgblock_crc_step crc b =
     (let data = b XOR ucast (crc AND 0xff);
          data = data XOR push_bit 4 data
      in ((push_bit 8 (ucast data) OR drop_bit 8 crc) XOR ucast (drop_bit 4 data))
         XOR push_bit 3 (ucast data))"

definition msgblock_crc16_ccitt :: "u8 list \<Rightarrow> u16" where
  "msgblock_crc16_ccitt buf = foldl msgblock_crc_step 0xffff buf"

text \<open>The label \<^verbatim>\<open>error\<close>, then the whole check. \<open>buf\<close> is the \<^verbatim>\<open>buf_len\<close> bytes received; the
  result is the returned number and the new value of \<^verbatim>\<open>need_sync\<close>.\<close>

definition check_error :: "u8 list \<Rightarrow> int \<times> bool" where
  "check_error buf =
     (case memchr buf MESSAGE_SYNC of
        Some next_sync \<Rightarrow> (- (int next_sync + 1), False)
      | None \<Rightarrow> (- int (length buf), True))"

definition msgblock_check :: "bool \<Rightarrow> u8 list \<Rightarrow> int \<times> bool" where
  "msgblock_check need_sync buf =
     (if length buf < MESSAGE_MIN then (0, need_sync)
      else if need_sync then check_error buf
      else let msglen = unat (buf ! MESSAGE_POS_LEN) in
        if msglen < MESSAGE_MIN \<or> MESSAGE_MAX < msglen then check_error buf
        else let msgseq = buf ! MESSAGE_POS_SEQ in
        if msgseq AND NOT MESSAGE_SEQ_MASK \<noteq> MESSAGE_DEST then check_error buf
        else if length buf < msglen then (0, need_sync)
        else if buf ! (msglen - MESSAGE_TRAILER_SYNC) \<noteq> MESSAGE_SYNC then check_error buf
        else let msgcrc = push_bit 8 (ucast (buf ! (msglen - MESSAGE_TRAILER_CRC)))
                   OR ucast (buf ! (msglen - MESSAGE_TRAILER_CRC + 1));
                 crc = msgblock_crc16_ccitt (take (msglen - MESSAGE_TRAILER_SIZE) buf)
        in if crc \<noteq> msgcrc then check_error buf else (int msglen, need_sync))"

definition msgblock_encode_int :: "u32 \<Rightarrow> u8 list" where
  "msgblock_encode_int v =
     (let sv = sint v;
          f4 = [ucast (v AND 0x7f)];
          f3 = ucast ((drop_bit 7 v AND 0x7f) OR 0x80) # f4;
          f2 = ucast ((drop_bit 14 v AND 0x7f) OR 0x80) # f3;
          f1 = ucast ((drop_bit 21 v AND 0x7f) OR 0x80) # f2
      in if sv < 3 * 2 ^ 5 \<and> - (2 ^ 5) \<le> sv then f4
         else if sv < 3 * 2 ^ 12 \<and> - (2 ^ 12) \<le> sv then f3
         else if sv < 3 * 2 ^ 19 \<and> - (2 ^ 19) \<le> sv then f2
         else if sv < 3 * 2 ^ 26 \<and> - (2 ^ 26) \<le> sv then f1
         else ucast (drop_bit 28 v OR 0x80) # f1)"

function msgblock_parse_rest :: "u8 list \<Rightarrow> nat \<Rightarrow> u8 \<Rightarrow> u32 \<Rightarrow> (u32 \<times> nat) option" where
  "msgblock_parse_rest buf p c v =
     (if c AND 0x80 \<noteq> 0 then
        if p < length buf
        then msgblock_parse_rest buf (Suc p) (buf ! p) (push_bit 7 v OR ucast (buf ! p AND 0x7f))
        else None
      else Some (v, p))"
  by pat_completeness auto
termination
  by (relation "measure (\<lambda>(buf, p, c, v). length buf - p)") auto

definition msgblock_parse_int :: "u8 list \<Rightarrow> nat \<Rightarrow> (u32 \<times> nat) option" where
  "msgblock_parse_int buf p =
     (case rd buf p of None \<Rightarrow> None
      | Some c \<Rightarrow>
          let v = ucast (c AND 0x7f); v = (if c AND 0x60 = 0x60 then v OR (- 0x20) else v)
          in msgblock_parse_rest buf (Suc p) c v)"

declare msgblock_parse_rest.simps [simp del]

text \<open>The loop \<^verbatim>\<open>while (data_len--)\<close> of \<^verbatim>\<open>msgblock_decode\<close>: the returned number and the integers
  stored. \<open>None\<close> is a read outside of the message.\<close>

fun decode_loop :: "nat \<Rightarrow> nat \<Rightarrow> nat \<Rightarrow> u8 list \<Rightarrow> (int \<times> u32 list) option" where
  "decode_loop 0 p msgend msg = Some (if p \<noteq> msgend then -1 else 0, [])"
| "decode_loop (Suc n) p msgend msg =
     (if msgend \<le> p then Some (-1, [])
      else case msgblock_parse_int msg p of None \<Rightarrow> None
        | Some (v, p) \<Rightarrow>
            (case decode_loop n p msgend msg of None \<Rightarrow> None | Some (r, data) \<Rightarrow> Some (r, v # data)))"

definition msgblock_decode :: "nat \<Rightarrow> u8 list \<Rightarrow> nat \<Rightarrow> (int \<times> u32 list) option" where
  "msgblock_decode data_len msg msg_len =
     decode_loop data_len MESSAGE_HEADER_SIZE (msg_len - MESSAGE_TRAILER_SIZE) msg"

definition message_alloc :: queue_message where
  "message_alloc = \<lparr>qm_len = 0, qm_msg = replicate MESSAGE_MAX 0, qm_min_clock = 0, qm_req_clock = 0,
     qm_sent_time = 0, qm_receive_time = 0, qm_notify_id = 0\<rparr>"

definition message_fill :: "u8 list \<Rightarrow> queue_message option" where
  "message_fill data =
     (if MESSAGE_MAX < length data then None
      else Some (message_alloc\<lparr>qm_msg := data @ drop (length data) (qm_msg message_alloc), qm_len := length data\<rparr>))"

text \<open>The loop of \<^verbatim>\<open>message_alloc_and_encode\<close>: whether it ended without \<^verbatim>\<open>goto fail\<close>, and the bytes
  stored; \<open>None\<close> is a store outside of \<^verbatim>\<open>qm->msg\<close>.\<close>

fun encode_loop :: "u32 list \<Rightarrow> u8 list \<Rightarrow> (bool \<times> u8 list) option" where
  "encode_loop [] acc = Some (True, acc)"
| "encode_loop (v # data) acc =
     (let acc = acc @ msgblock_encode_int v in
      if MESSAGE_MAX < length acc then None
      else if MESSAGE_PAYLOAD_MAX < length acc then Some (False, acc)
      else encode_loop data acc)"

definition message_alloc_and_encode :: "u32 list \<Rightarrow> queue_message option" where
  "message_alloc_and_encode data =
     (case encode_loop data [] of None \<Rightarrow> None
      | Some (ok, bytes) \<Rightarrow>
          Some (message_alloc\<lparr>qm_msg := bytes @ drop (length bytes) (qm_msg message_alloc),
                              qm_len := (if ok then length bytes else 0)\<rparr>))"

definition clock_from_clock32 :: "clock_estimate \<Rightarrow> u32 \<Rightarrow> u64" where
  "clock_from_clock32 ce clock32 =
     last_clock ce + word_of_int (sint (ucast (ucast clock32 - last_clock ce) :: u32))"

definition clock_to_time :: "clock_estimate \<Rightarrow> u64 \<Rightarrow> double" where
  "clock_to_time ce clock =
     dadd (conv_time ce) (ddiv (double_of_int (sint (clock - conv_clock ce))) (est_freq ce))"

text \<open>The conversion to \<^verbatim>\<open>int64_t\<close> is undefined in C for a number of ticks outside of its range, which takes
  thousands of years to reach; here it wraps.\<close>

definition clock_from_time :: "clock_estimate \<Rightarrow> double \<Rightarrow> u64" where
  "clock_from_time ce time =
     word_of_int (trunc (dadd (dmul (dsub time (conv_time ce)) (est_freq ce)) (1 / 2))) + conv_clock ce"

section \<open>The two sides agree\<close>

lemma msgblock_crc_eq [simp]: "msgblock_crc16_ccitt = crc16_ccitt"
  by (simp add: fun_eq_iff msgblock_crc16_ccitt_def crc16_ccitt_def msgblock_crc_step_def [abs_def] crc16_step_def [abs_def])

lemma msgblock_encode_int_eq [simp]: "msgblock_encode_int = encode_int"
  by (simp add: fun_eq_iff msgblock_encode_int_def encode_int_def)

lemma msgblock_parse_rest_eq: "msgblock_parse_rest buf p c v = parse_rest buf p c v"
  by (induction buf p c v rule: msgblock_parse_rest.induct)
    (subst msgblock_parse_rest.simps, subst parse_rest.simps, simp)

lemma msgblock_parse_int_eq [simp]: "msgblock_parse_int = parse_int"
  by (simp add: fun_eq_iff msgblock_parse_int_def parse_int_def parse_first_def msgblock_parse_rest_eq Let_def
      split: option.splits)

text \<open>What is left to read when the reader is at the last integers of a payload.\<close>

lemma decode_loop_ints:
  "decode_loop (length vs) (length pre) (length pre + length (concat (map encode_int vs)))
     (pre @ concat (map encode_int vs) @ post) = Some (0, vs)"
proof (induction vs arbitrary: pre)
  case (Cons v vs)
  have "parse_int (pre @ encode_int v @ concat (map encode_int vs) @ post) (length pre)
      = Some (v, length pre + length (encode_int v))"
    by (rule parse_encode_int)
  moreover have "encode_int v \<noteq> []" by (simp add: encode_int_def Let_def)
  ultimately show ?case
    using Cons.IH [of "pre @ encode_int v"] by (simp add: add.assoc)
qed simp

lemma encode_loop_ok:
  "length acc \<le> MESSAGE_PAYLOAD_MAX \<Longrightarrow>
   \<exists>ok bytes. encode_loop vs acc = Some (ok, bytes) \<and> length bytes \<le> MESSAGE_MAX \<and>
     (ok \<longleftrightarrow> length acc + length (concat (map encode_int vs)) \<le> MESSAGE_PAYLOAD_MAX) \<and>
     (ok \<longrightarrow> bytes = acc @ concat (map encode_int vs))"
proof (induction vs arbitrary: acc)
  case (Cons v vs)
  have len: "length (encode_int v) \<le> 5" by (simp add: encode_int_def Let_def)
  show ?case
  proof (cases "length (acc @ encode_int v) \<le> MESSAGE_PAYLOAD_MAX")
    case True
    from Cons.IH [OF this] True show ?thesis by (auto simp: message_consts add.assoc)
  qed (use Cons.prems len in \<open>auto simp: message_consts\<close>)
qed (auto simp: message_consts)

text \<open>Up to eleven integers always fit.\<close>

lemma encode_few:
  assumes "length vs \<le> 11"
  shows "\<exists>qm. message_alloc_and_encode vs = Some qm \<and> take (qm_len qm) (qm_msg qm) = concat (map encode_int vs)"
proof -
  have "length (concat (map encode_int vs)) \<le> MESSAGE_PAYLOAD_MAX"
    using length_encode_ints [of vs] assms by (simp add: message_consts)
  then show ?thesis
    using encode_loop_ok [of "[]" vs] by (auto simp: message_alloc_and_encode_def)
qed

lemma msgblock_check_eq:
  assumes "5 \<le> length buf"
  shows "msgblock_check False buf =
     (if \<not> (5 \<le> unat (buf ! 0) \<and> unat (buf ! 0) \<le> 64) \<or> \<not> seq_ok (buf ! 1) then check_error buf
      else if length buf < unat (buf ! 0) then (0, False)
      else if \<not> block_checks buf then check_error buf else (int (unat (buf ! 0)), False))"
proof -
  define n where "n = unat (buf ! 0)"
  show ?thesis
  proof (cases "5 \<le> n \<and> n \<le> 64 \<and> seq_ok (buf ! 1) \<and> n \<le> length buf")
    case True
    then obtain m where m: "n = m + 5" by (metis add.commute le_iff_add)
    have "block_checks buf \<longleftrightarrow> buf ! (n - 1) = MESSAGE_SYNC \<and>
        crc16_ccitt (take (n - 3) buf) = push_bit 8 (ucast (buf ! (n - 3))) OR ucast (buf ! (n - 3 + 1))"
      using True by (simp add: block_checks_def Let_def n_def [symmetric] m eval_nat_numeral)
    with True assms show ?thesis
      unfolding msgblock_check_def Let_def MESSAGE_POS_LEN_def n_def [symmetric]
      by (auto simp: message_consts seq_ok_def)
  next
    case False
    with assms show ?thesis
      unfolding msgblock_check_def Let_def MESSAGE_POS_LEN_def n_def [symmetric]
      by (auto simp: message_consts seq_ok_def)
  qed
qed

lemma check_error_neg: "buf \<noteq> [] \<Longrightarrow> fst (check_error buf) < 0 \<and> - int (length buf) \<le> fst (check_error buf)"
  by (auto simp: check_error_def split: option.splits dest: memchr_bound)

text \<open>Every call consumes at least one byte, at most those present, or waits with fewer than 64.\<close>

lemma msgblock_check_progress:
  assumes "msgblock_check need_sync buf = (n, ns)"
  shows "- int (length buf) \<le> n \<and> n \<le> int (length buf) \<and> n \<le> 64 \<and> (n = 0 \<longrightarrow> length buf < 64 \<and> ns = need_sync)"
proof (cases "5 \<le> length buf")
  case True
  then have "buf \<noteq> []" by auto
  note err = check_error_neg [OF this]
  show ?thesis
  proof (cases need_sync)
    case False
    define k where "k = unat (buf ! 0)"
    from False show ?thesis using assms err unfolding msgblock_check_eq [OF True, folded k_def]
      by (auto simp: msgblock_check_eq [OF True, folded k_def] split: if_splits)
  next
    case ns: True
    then have "check_error buf = (n, ns)" using assms True by (simp add: msgblock_check_def message_consts)
    then show ?thesis using err by auto
  qed
qed (use assms in \<open>auto simp: msgblock_check_def message_consts\<close>)

text \<open>C34 (host_accepts_firmware_frames). The host accepts the first \<open>n\<close> bytes of its input as a
  block exactly when a synchronised firmware reader that expects the block's sequence number
  would dispatch those \<open>n\<close> bytes: the two independent implementations of the block format agree
  on every input.\<close>

theorem host_accepts_firmware_frames:
  "msgblock_check False buf = (int n, False) \<and> 0 < n \<longleftrightarrow>
   (let fb = command_find_block \<lparr>next_sequence = buf ! 1, sync_state = 0\<rparr> buf
    in fb_ret fb = 1 \<and> fb_pop fb = n)"
proof (cases "5 \<le> length buf")
  case True
  define st where "st = \<lparr>next_sequence = buf ! 1, sync_state = 0\<rparr>"
  have "synced st" by (simp add: st_def synced_def)
  note fw = find_block_synced [OF this True]
  have "buf \<noteq> []" using True by auto
  define k where "k = unat (buf ! 0)"
  from check_error_neg [OF \<open>buf \<noteq> []\<close>] show ?thesis
    unfolding msgblock_check_eq [OF True] st_def [symmetric] fw k_def [symmetric]
    by (auto simp: Let_def find_need_more_def st_def)
next
  case False
  then show ?thesis
    by (auto simp: msgblock_check_def command_find_block_def message_consts find_need_more_def CF_NEED_SYNC_def Let_def)
qed

text \<open>Encoding never stores outside of the message; it succeeds exactly
  when the encodings of the integers fit the payload of a block, and then the decoder reads the
  same integers back from the block that carries them.\<close>

theorem message_roundtrip:
  "\<exists>qm. message_alloc_and_encode vs = Some qm \<and> length (qm_msg qm) = MESSAGE_MAX \<and>
     (if length (concat (map encode_int vs)) \<le> MESSAGE_PAYLOAD_MAX
      then take (qm_len qm) (qm_msg qm) = concat (map encode_int vs) \<and>
           msgblock_decode (length vs) (frame seq (take (qm_len qm) (qm_msg qm)))
             (length (frame seq (take (qm_len qm) (qm_msg qm)))) = Some (0, vs)
      else qm_len qm = 0)"
proof -
  let ?b = "concat (map encode_int vs)"
  from encode_loop_ok [of "[]" vs] obtain ok bytes where
    loop: "encode_loop vs [] = Some (ok, bytes)" "length bytes \<le> MESSAGE_MAX"
      "ok \<longleftrightarrow> length ?b \<le> MESSAGE_PAYLOAD_MAX" "ok \<longrightarrow> bytes = ?b" by auto
  define hd2 where "hd2 = take 2 (frame seq ?b)"
  define tr where "tr = drop (2 + length ?b) (frame seq ?b)"
  have hd2: "length hd2 = 2" and fr: "frame seq ?b = hd2 @ ?b @ tr"
    by (simp_all add: hd2_def tr_def frame_def Let_def)
  have "decode_loop (length vs) 2 (2 + length ?b) (frame seq ?b) = Some (0, vs)"
    using decode_loop_ints [of vs hd2 tr] hd2 fr by simp
  then have "msgblock_decode (length vs) (frame seq ?b) (length (frame seq ?b)) = Some (0, vs)"
    by (simp add: msgblock_decode_def message_consts add.commute)
  then show ?thesis
    using loop by (auto simp: message_alloc_and_encode_def message_alloc_def)
qed

text \<open>A 32 bit clock value extends to the full 64 bit clock it was taken
  from, as long as that clock is less than \<open>2\<^sup>3\<^sup>1\<close> ticks before or after the last clock known,
  also across wraps of both widths.\<close>

theorem clock32_extension:
  assumes "sint (clock - last_clock ce) < 2 ^ 31" and "- (2 ^ 31) \<le> sint (clock - last_clock ce)"
  shows "clock_from_clock32 ce (ucast clock) = clock"
proof -
  define d where "d = clock - last_clock ce"
  have "uint (ucast (ucast (ucast clock :: u32) - last_clock ce) :: u32) = uint (ucast d :: u32)"
    by (simp add: d_def unsigned_ucast_eq take_bit_eq_mod uint_word_ariths uint_mod mod_mod_cancel mod_simps)
  then have "(ucast (ucast (ucast clock :: u32) - last_clock ce) :: u32) = ucast d"
    by (simp only: word_uint_eq_iff)
  moreover have "sint (ucast d :: u32) = signed_take_bit 31 (sint d)"
    by (simp add: sint_uint unsigned_ucast_eq signed_take_bit_take_bit)
  moreover have "signed_take_bit 31 (sint d) = sint d"
    using assms by (intro signed_take_bit_int_eq_self) (simp_all add: d_def)
  ultimately show ?thesis by (simp add: clock_from_clock32_def d_def)
qed

theorem clock32_extension_witness:
  "clock_from_clock32 \<lparr>last_clock = 0x1fffffff0, conv_clock = 0, conv_time = 0, est_freq = 1\<rparr> 5 = 0x200000005"
proof -
  have eq: "ucast (0x200000005 :: u64) = (5 :: u32)" by (simp add: word_uint_eq_iff)
  show ?thesis
    by (rule clock32_extension [where clock = "0x200000005", unfolded eq]) simp_all
qed

end
