(* ===== verification/Compress.thy ===== *)
theory Compress
  imports Msgblock "HOL-Library.Monad_Syntax"
begin

text \<open>
  The compression of step times into moves (\<^verbatim>\<open>compress_bisect_add\<close> and \<^verbatim>\<open>check_line\<close> of
  \<^verbatim>\<open>src/klippy/chelper/stepcompress.c\<close>). The code computes with signed 32 bit integers, whose
  overflow C leaves undefined: here every such operation is checked, and a result outside of the
  type, like a read outside of the queue, is \<open>None\<close>. The bisecting loop is a partial function, so
  that not ending is \<open>None\<close> too. The lemmas show that for queues within the stated bounds none of
  this happens, and that the move found fits all the steps it covers.
\<close>

section \<open>Data\<close>

record history_steps =
  hs_first_clock :: u64
  hs_last_clock :: u64
  hs_start_position :: int
  hs_step_count :: int
  hs_interval :: int
  hs_add :: int

text \<open>The storage \<open>sc_queue\<close> reaches from \<^verbatim>\<open>queue\<close> to \<^verbatim>\<open>queue_end\<close>; \<^verbatim>\<open>queue_pos\<close> and \<^verbatim>\<open>queue_next\<close> are
  offsets into it. Positions are of type \<^verbatim>\<open>int64_t\<close>; a printer cannot make \<open>2\<^sup>6\<^sup>3\<close> steps, so they
  are integers here. The reference \<open>sc_sk\<close> is the number of the kinematics object, if one was set.\<close>

record stepcompress =
  sc_queue :: "u32 list"
  sc_queue_pos :: nat
  sc_queue_next :: nat
  sc_max_error :: u32
  sc_mcu_time_offset :: double
  sc_mcu_freq :: double
  sc_last_step_print_time :: double
  sc_last_step_clock :: u64
  sc_msg_queue :: "queue_message list"
  sc_oid :: u32
  sc_queue_step_msgtag :: u32
  sc_set_next_step_dir_msgtag :: u32
  sc_sdir :: int
  sc_invert_sdir :: int
  sc_next_step_clock :: u64
  sc_next_step_dir :: int
  sc_last_position :: int
  sc_history_list :: "history_steps list"
  sc_sk :: "nat option"

record step_move =
  sm_interval :: u32
  sm_count :: u16
  sm_add :: u16

section \<open>Signed arithmetic\<close>

definition i32 :: "int \<Rightarrow> int option" where
  "i32 x = (if - (2 ^ 31) \<le> x \<and> x < 2 ^ 31 then Some x else None)"

text \<open>Division of C rounds towards zero.\<close>

definition cdiv :: "int \<Rightarrow> int \<Rightarrow> int" where
  "cdiv n d = (if 0 \<le> n then n div d else - ((- n) div d))"

definition idiv_up :: "int \<Rightarrow> int \<Rightarrow> int option" where
  "idiv_up n d = (if 0 \<le> n then do { m \<leftarrow> i32 (n + d); Some (cdiv (m - 1) d) } else Some (cdiv n d))"

definition idiv_down :: "int \<Rightarrow> int \<Rightarrow> int option" where
  "idiv_down n d = (if 0 \<le> n then Some (cdiv n d) else do { m \<leftarrow> i32 (n - d); Some (cdiv (m + 1) d) })"

section \<open>Finding a move\<close>

text \<open>The earliest and the latest acceptable time of a step, relative to the last step's clock.
  The conversion of the unsigned results to the fields of \<^verbatim>\<open>struct points\<close> keeps their bits.\<close>

definition minmax_point :: "stepcompress \<Rightarrow> nat \<Rightarrow> (int \<times> int) option" where
  "minmax_point sc pos = do {
     q \<leftarrow> rd (sc_queue sc) pos;
     let lsc = ucast (sc_last_step_clock sc);
     let point = q - lsc;
     prevpoint \<leftarrow> (if sc_queue_pos sc < pos
        then do { q' \<leftarrow> rd (sc_queue sc) (pos - 1); Some (q' - lsc) } else Some 0);
     let max_error = (point - prevpoint) div 2;
     let max_error = (if sc_max_error sc < max_error then sc_max_error sc else max_error);
     Some (sint (point - max_error), sint point) }"

definition QUADRATIC_DEV :: u32 where "QUADRATIC_DEV = 11"

text \<open>The inner loop: it covers all available steps, or stops at the first that no interval fits,
  with \<^verbatim>\<open>nextcount\<close>, \<^verbatim>\<open>nextpoint\<close>, \<^verbatim>\<open>nextmininterval\<close>, \<^verbatim>\<open>nextmaxinterval\<close> and \<^verbatim>\<open>interval\<close>.\<close>

datatype scan_res = Covers int int | Stops int "int \<times> int" int int int

function scan :: "stepcompress \<Rightarrow> nat \<Rightarrow> int \<Rightarrow> nat \<Rightarrow> int \<Rightarrow> int \<Rightarrow> int \<Rightarrow> scan_res option" where
  "scan sc avail add count nextmin nextmax interval =
     (if avail \<le> count then Some (Covers interval (int count))
      else do {
        let nextcount = int (Suc count);
        nextpoint \<leftarrow> minmax_point sc (sc_queue_pos sc + count);
        m \<leftarrow> i32 (nextcount * (nextcount - 1));
        let nextaddfactor = cdiv m 2;
        c \<leftarrow> i32 (add * nextaddfactor);
        a \<leftarrow> i32 (nextmin * nextcount);
        b \<leftarrow> i32 (fst nextpoint - c);
        nextmin \<leftarrow> (if a < b then idiv_up b nextcount else Some nextmin);
        a \<leftarrow> i32 (nextmax * nextcount);
        b \<leftarrow> i32 (snd nextpoint - c);
        nextmax \<leftarrow> (if b < a then idiv_down b nextcount else Some nextmax);
        if nextmax < nextmin then Some (Stops nextcount nextpoint nextmin nextmax interval)
        else scan sc avail add (Suc count) nextmin nextmax nextmax })"
  by pat_completeness auto
termination
  by (relation "measure (\<lambda>(sc, avail, add, count, mn, mx, iv). avail - count)") auto

declare scan.simps [simp del]

record bisect =
  outer_min :: int
  outer_max :: int
  bs_add :: int
  minadd :: int
  maxadd :: int
  bestinterval :: int
  bestcount :: int
  bestadd :: int
  bestreach :: int
  zerointerval :: int
  zerocount :: int

datatype bisect_res = Found int int int | Again bisect | Stop bisect

text \<open>Lines 144 to 160: keep the sequence if it reaches further than the best one.\<close>

definition keep_best :: "int \<Rightarrow> int \<Rightarrow> int \<Rightarrow> bisect \<Rightarrow> bisect" where
  "keep_best interval count reach b =
     (let b = b\<lparr>bestinterval := interval, bestcount := count, bestadd := bs_add b, bestreach := reach\<rparr>
      in if bs_add b = 0 then b\<lparr>zerointerval := interval, zerocount := count\<rparr> else b)"

text \<open>Lines 173 to 181, and 183 to 189: limits on the range of \<^verbatim>\<open>add\<close>.\<close>

definition limit_err :: "stepcompress \<Rightarrow> int \<Rightarrow> bisect \<Rightarrow> bisect option" where
  "limit_err sc count b =
     (if 1 < count then do {
        d \<leftarrow> i32 (count * count);
        let errdelta = sint (sc_max_error sc * QUADRATIC_DEV div word_of_int d);
        lo \<leftarrow> i32 (bs_add b - errdelta);
        let b = (if minadd b < lo then b\<lparr>minadd := lo\<rparr> else b);
        hi \<leftarrow> i32 (bs_add b + errdelta);
        Some (if hi < maxadd b then b\<lparr>maxadd := hi\<rparr> else b)
      } else Some b)"

definition limit_point :: "int \<Rightarrow> int \<times> int \<Rightarrow> int \<Rightarrow> bisect \<Rightarrow> bisect option" where
  "limit_point nextcount nextpoint nextaddfactor b = do {
     c \<leftarrow> i32 (outer_max b * nextcount);
     u \<leftarrow> i32 (minadd b * nextaddfactor);
     v \<leftarrow> i32 (fst nextpoint - c);
     b \<leftarrow> (if u < v then do { x \<leftarrow> idiv_up v nextaddfactor; Some (b\<lparr>minadd := x\<rparr>) } else Some b);
     c \<leftarrow> i32 (outer_min b * nextcount);
     u \<leftarrow> i32 (maxadd b * nextaddfactor);
     v \<leftarrow> i32 (snd nextpoint - c);
     if v < u then do { x \<leftarrow> idiv_down v nextaddfactor; Some (b\<lparr>maxadd := x\<rparr>) } else Some b }"

text \<open>Lines 162 to 194: narrow the range of \<^verbatim>\<open>add\<close>, and choose the next one.\<close>

definition narrow :: "stepcompress \<Rightarrow> int \<Rightarrow> int \<times> int \<Rightarrow> int \<Rightarrow> int \<Rightarrow> int \<Rightarrow> bisect \<Rightarrow> bisect_res option" where
  "narrow sc nextcount nextpoint nextmin nextmax interval b = do {
     m \<leftarrow> i32 (nextcount * (nextcount - 1));
     let nextaddfactor = cdiv m 2;
     u \<leftarrow> i32 (bs_add b * nextaddfactor);
     v \<leftarrow> i32 (interval * nextcount);
     nextreach \<leftarrow> i32 (u + v);
     let b = (if nextreach < fst nextpoint then b\<lparr>minadd := bs_add b + 1, outer_max := nextmax\<rparr>
              else b\<lparr>maxadd := bs_add b - 1, outer_min := nextmin\<rparr>);
     b \<leftarrow> limit_err sc (nextcount - 1) b;
     b \<leftarrow> limit_point nextcount nextpoint nextaddfactor b;
     if maxadd b < minadd b then Some (Stop b)
     else do { w \<leftarrow> i32 (maxadd b - minadd b); Some (Again (b\<lparr>bs_add := maxadd b - cdiv w 4\<rparr>)) } }"

text \<open>One round of the outer loop.\<close>

definition bisect_step :: "stepcompress \<Rightarrow> nat \<Rightarrow> bisect \<Rightarrow> bisect_res option" where
  "bisect_step sc avail b = do {
     r \<leftarrow> scan sc avail (bs_add b) 1 (outer_min b) (outer_max b) (outer_max b);
     (case r of
        Covers interval count \<Rightarrow> Some (Found interval count (bs_add b))
      | Stops nextcount nextpoint nextmin nextmax interval \<Rightarrow> do {
          let count = nextcount - 1;
          m \<leftarrow> i32 (count * (count - 1));
          u \<leftarrow> i32 (bs_add b * cdiv m 2);
          v \<leftarrow> i32 (interval * count);
          reach \<leftarrow> i32 (u + v);
          if bestreach b < reach \<or> reach = bestreach b \<and> bestinterval b < interval then
            let b = keep_best interval count reach b in
            if 0x200 < count then Some (Stop b) else narrow sc nextcount nextpoint nextmin nextmax interval b
          else narrow sc nextcount nextpoint nextmin nextmax interval b }) }"

partial_function (option) bisect_loop :: "stepcompress \<Rightarrow> nat \<Rightarrow> bisect \<Rightarrow> (int \<times> int \<times> int) option" where
  "bisect_loop sc avail b = do {
     r \<leftarrow> bisect_step sc avail b;
     (case r of
        Found interval count add \<Rightarrow> Some (interval, count, add)
      | Again b \<Rightarrow> bisect_loop sc avail b
      | Stop b \<Rightarrow>
          Some (if bestcount b \<le> zerocount b + cdiv (zerocount b) 16 then (zerointerval b, zerocount b, 0)
                else (bestinterval b, bestcount b, bestadd b))) }"

definition mk_move :: "int \<times> int \<times> int \<Rightarrow> step_move" where
  "mk_move = (\<lambda>(interval, count, add).
     \<lparr>sm_interval = word_of_int interval, sm_count = word_of_int count, sm_add = word_of_int add\<rparr>)"

definition bisect_start :: "int \<times> int \<Rightarrow> bisect" where
  "bisect_start point =
     \<lparr>outer_min = fst point, outer_max = snd point, bs_add = 0, minadd = - 0x8000, maxadd = 0x7fff,
      bestinterval = 0, bestcount = 1, bestadd = 1, bestreach = - (2 ^ 31), zerointerval = 0, zerocount = 0\<rparr>"

definition compress_bisect_add :: "stepcompress \<Rightarrow> step_move option" where
  "compress_bisect_add sc = do {
     let avail = min (sc_queue_next sc - sc_queue_pos sc) 65535;
     point \<leftarrow> minmax_point sc (sc_queue_pos sc);
     r \<leftarrow> bisect_loop sc avail (bisect_start point);
     Some (mk_move r) }"

section \<open>Checking a move\<close>

definition ERROR_RET :: int where "ERROR_RET = - 989898989"

text \<open>The loop over the steps; the comparisons are unsigned.\<close>

fun check_loop :: "stepcompress \<Rightarrow> u16 \<Rightarrow> nat \<Rightarrow> nat \<Rightarrow> u32 \<Rightarrow> u32 \<Rightarrow> int option" where
  "check_loop sc add 0 i interval p = Some 0"
| "check_loop sc add (Suc n) i interval p = do {
     point \<leftarrow> minmax_point sc (sc_queue_pos sc + i);
     let p = p + interval;
     if p < word_of_int (fst point) \<or> word_of_int (snd point) < p then Some ERROR_RET
     else if 0x80000000 \<le> interval then Some ERROR_RET
     else check_loop sc add n (Suc i) (interval + scast add) p }"

definition check_line :: "stepcompress \<Rightarrow> step_move \<Rightarrow> int option" where
  "check_line sc move =
     (if sm_count move = 0 \<or> (sm_interval move = 0 \<and> sm_add move = 0 \<and> 1 < sm_count move)
         \<or> 0x80000000 \<le> sm_interval move then Some ERROR_RET
      else check_loop sc (sm_add move) (unat (sm_count move)) 0 (sm_interval move) 0)"

section \<open>The sequences a move describes\<close>

text \<open>The \<open>k\<close>th step of a move is at \<open>interval * k + add * k(k - 1)/2\<close>.\<close>

definition tri :: "nat \<Rightarrow> int" where
  "tri k = int (k * (k - 1) div 2)"

lemma tri_0 [simp]: "tri 0 = 0" and tri_1 [simp]: "tri (Suc 0) = 0"
  by (simp_all add: tri_def)

lemma tri_double: "2 * tri k = int k * (int k - 1)"
proof (cases k)
  case (Suc n)
  have "2 * (Suc n * n div 2) = Suc n * n" by (rule dvd_mult_div_cancel) simp
  then have "2 * int (Suc n * n div 2) = int (Suc n * n)" by (metis of_nat_mult of_nat_numeral)
  then show ?thesis by (simp add: tri_def Suc algebra_simps)
qed simp

lemma tri_Suc: "tri (Suc k) = tri k + int k"
  using tri_double [of k] tri_double [of "Suc k"] by (simp add: algebra_simps)

lemma tri_nonneg [simp]: "0 \<le> tri k"
  by (simp add: tri_def)

definition step_at :: "int \<Rightarrow> int \<Rightarrow> nat \<Rightarrow> int" where
  "step_at interval add k = interval * int k + add * tri k"

lemma step_at_0 [simp]: "step_at iv ad 0 = 0"
  by (simp add: step_at_def)

lemma step_at_Suc: "step_at iv ad (Suc k) = step_at iv ad k + (iv + int k * ad)"
  by (simp add: step_at_def tri_Suc algebra_simps)

text \<open>Points: \<open>P k\<close> is the time of the \<open>k\<close>th step, \<open>mp k\<close> the earliest acceptable time for it. The
  time bound is \<^verbatim>\<open>CLOCK_DIFF_MAX\<close>.\<close>

definition points_ok :: "(nat \<Rightarrow> int) \<Rightarrow> (nat \<Rightarrow> int) \<Rightarrow> nat \<Rightarrow> bool" where
  "points_ok P mp N \<longleftrightarrow> P 0 = 0 \<and>
     (\<forall>k. 1 \<le> k \<and> k \<le> N \<longrightarrow> P (k - 1) < mp k \<and> mp k \<le> P k \<and> P k < 3 * 2 ^ 28)"

definition fits :: "(nat \<Rightarrow> int) \<Rightarrow> (nat \<Rightarrow> int) \<Rightarrow> int \<Rightarrow> int \<Rightarrow> nat \<Rightarrow> bool" where
  "fits P mp iv ad n \<longleftrightarrow>
     (\<forall>k. 1 \<le> k \<and> k \<le> n \<longrightarrow> mp k \<le> step_at iv ad k \<and> step_at iv ad k \<le> P k)"

lemma fits_mono: "fits P mp iv ad n \<Longrightarrow> m \<le> n \<Longrightarrow> fits P mp iv ad m"
  by (auto simp: fits_def)

lemma fits_Suc:
  "fits P mp iv ad (Suc n) \<longleftrightarrow>
     fits P mp iv ad n \<and> mp (Suc n) \<le> step_at iv ad (Suc n) \<and> step_at iv ad (Suc n) \<le> P (Suc n)"
  by (auto simp: fits_def le_Suc_eq)

lemma point_bounds:
  assumes "points_ok P mp N" and "1 \<le> k" and "k \<le> N"
  shows "P (k - 1) < mp k" and "mp k \<le> P k" and "P k < 3 * 2 ^ 28"
  using assms by (auto simp: points_ok_def)

lemma points_nonneg: "points_ok P mp N \<Longrightarrow> k \<le> N \<Longrightarrow> 0 \<le> P k"
proof (induction k)
  case (Suc k)
  then show ?case using point_bounds [of P mp N "Suc k"] by fastforce
qed (simp add: points_ok_def)

lemma fits_increasing:
  assumes "points_ok P mp N" and "fits P mp iv ad n" and "n \<le> N" and "k < n"
  shows "0 < iv + int k * ad"
proof -
  have "step_at iv ad k \<le> P k"
  proof (cases k)
    case 0
    then show ?thesis using assms(1) by (simp add: points_ok_def)
  next
    case (Suc j)
    then show ?thesis using assms(2,4) by (simp add: fits_def)
  qed
  moreover have "P k < mp (Suc k)" using point_bounds(1) [OF assms(1), of "Suc k"] assms(3,4) by simp
  moreover have "mp (Suc k) \<le> step_at iv ad (Suc k)" using assms(2,4) by (simp add: fits_def)
  ultimately show ?thesis by (simp add: step_at_Suc)
qed

text \<open>A move that fits keeps all the numbers the search computes within 32 bits: \<open>3 * 2\<^sup>2\<^sup>8\<close> is the
  time bound, and \<open>15 * 2\<^sup>2\<^sup>7\<close> is five halves of it.\<close>

lemma fit_bounds:
  assumes ok: "points_ok P mp N" and fit: "fits P mp iv ad n" and n: "1 \<le> n" "n \<le> N"
    and ad: "\<bar>ad\<bar> \<le> 2 ^ 15"
  shows "0 < iv" and "\<bar>ad\<bar> * tri n < 3 * 2 ^ 28" and "iv * int n < 2 * (3 * 2 ^ 28)"
    and "0 < step_at iv ad n" and "step_at iv ad n < 3 * 2 ^ 28"
proof -
  have S: "mp n \<le> step_at iv ad n" "step_at iv ad n \<le> P n" using fit n by (auto simp: fits_def)
  have P: "P (n - 1) < mp n" "P n < 3 * 2 ^ 28" "0 \<le> P (n - 1)"
    using point_bounds [OF ok n] points_nonneg [OF ok, of "n - 1"] n(2) by auto
  show pos: "0 < step_at iv ad n" and lt: "step_at iv ad n < 3 * 2 ^ 28" using S P by linarith+
  show iv: "0 < iv" using fits_increasing [OF ok fit n(2), of 0] n(1) by simp
  have ivn: "0 < iv * int n" using iv n(1) by simp
  have "\<bar>ad\<bar> * tri n < 3 * 2 ^ 28 \<and> iv * int n < 2 * (3 * 2 ^ 28)"
  proof (cases "0 \<le> ad")
    case True
    have "0 \<le> ad * tri n" using True by simp
    moreover have "\<bar>ad\<bar> * tri n = ad * tri n" using True by simp
    ultimately show ?thesis using lt ivn unfolding step_at_def by linarith
  next
    case False
    have "0 < iv + int (n - 1) * ad" using fits_increasing [OF ok fit n(2), of "n - 1"] n(1) by simp
    then have "(int n - 1) * - ad \<le> iv" using n(1) by (simp add: of_nat_diff algebra_simps)
    then have "(int n - 1) * - ad * int n \<le> iv * int n" by (intro mult_right_mono) simp_all
    moreover have "(int n - 1) * - ad * int n = - ad * (int n * (int n - 1))" by (simp add: algebra_simps)
    moreover have "- ad * (int n * (int n - 1)) = 2 * (- ad * tri n)" unfolding tri_double [symmetric] by simp
    ultimately have "2 * (- ad * tri n) \<le> iv * int n" by (simp only:)
    moreover have "\<bar>ad\<bar> * tri n = - ad * tri n" using False by simp
    ultimately show ?thesis using lt unfolding step_at_def by (simp; linarith)
  qed
  then show "\<bar>ad\<bar> * tri n < 3 * 2 ^ 28" and "iv * int n < 2 * (3 * 2 ^ 28)" by simp_all
qed

lemma fit_next_bounds:
  assumes ok: "points_ok P mp N" and fit: "fits P mp iv ad n" and n: "1 \<le> n" "n \<le> N"
    and ad: "\<bar>ad\<bar> \<le> 2 ^ 15"
  shows "\<bar>ad\<bar> * int n \<le> 2 ^ 24" and "\<bar>ad\<bar> * tri (Suc n) < 3 * 2 ^ 28 + 2 ^ 24"
    and "iv * int (Suc n) < 15 * 2 ^ 27"
    and "- (2 ^ 15) \<le> step_at iv ad (Suc n)" and "step_at iv ad (Suc n) < 2 ^ 31"
proof -
  note b = fit_bounds [OF assms]
  show adn: "\<bar>ad\<bar> * int n \<le> 2 ^ 24"
  proof (cases "n \<le> 500")
    case True
    have "\<bar>ad\<bar> * int n \<le> 2 ^ 15 * 500" using ad True by (intro mult_mono) simp_all
    then show ?thesis by simp
  next
    case False
    have "\<bar>ad\<bar> * int n * 500 \<le> \<bar>ad\<bar> * int n * (int n - 1)" using False by (intro mult_left_mono) simp_all
    also have "\<dots> = 2 * (\<bar>ad\<bar> * tri n)" using tri_double [of n] by (simp add: mult.assoc mult.left_commute)
    finally show ?thesis using b(2) by (simp add: mult.commute)
  qed
  show "\<bar>ad\<bar> * tri (Suc n) < 3 * 2 ^ 28 + 2 ^ 24"
    using adn b(2) by (simp add: tri_Suc distrib_left)
  have ivn: "iv \<le> iv * int n" using b(1) n(1) by simp
  show iv: "iv * int (Suc n) < 15 * 2 ^ 27"
  proof (cases "4 \<le> n")
    case True
    then have "iv * 4 \<le> iv * int n" using b(1) by (intro mult_left_mono) simp_all
    then show ?thesis using b(3) by (simp add: distrib_left)
  next
    case False
    then have "n = 1 \<or> n = 2 \<or> n = 3" using n(1) by auto
    then have "tri n \<le> 3" by (auto simp: tri_def)
    then have "\<bar>ad\<bar> * tri n \<le> 2 ^ 15 * 3" using ad by (intro mult_mono) simp_all
    moreover have "- ad * tri n \<le> \<bar>ad\<bar> * tri n" by (intro mult_right_mono) simp_all
    ultimately have "- (ad * tri n) \<le> 2 ^ 15 * 3" by simp
    then have "iv * int n < 3 * 2 ^ 28 + 2 ^ 15 * 3" using b(5) unfolding step_at_def by linarith
    then show ?thesis using ivn by (simp add: distrib_left)
  qed
  have "0 < iv + int (n - 1) * ad" using fits_increasing [OF ok fit n(2), of "n - 1"] n(1) by simp
  then have "0 < iv + int n * ad - ad" using n(1) by (simp add: of_nat_diff algebra_simps)
  then show "- (2 ^ 15) \<le> step_at iv ad (Suc n)"
    using b(4) ad unfolding step_at_Suc by linarith
  show "step_at iv ad (Suc n) < 2 ^ 31"
  proof (cases "0 \<le> ad")
    case True
    have "iv \<le> P 1" using fit n(1) by (auto simp: fits_def step_at_def)
    then have "iv < 3 * 2 ^ 28" using point_bounds(3) [OF ok, of 1] n by simp
    moreover have "int n * ad \<le> 2 ^ 24" using adn True by (simp add: mult.commute)
    ultimately show ?thesis using b(5) unfolding step_at_Suc by simp
  next
    case False
    then have "ad * tri (Suc n) \<le> 0" by (simp add: mult_nonpos_nonneg)
    then show ?thesis using iv unfolding step_at_def by simp
  qed
qed

section \<open>The points of a queue\<close>

definition pending_steps :: "stepcompress \<Rightarrow> nat" where
  "pending_steps sc = sc_queue_next sc - sc_queue_pos sc"

fun qpt :: "stepcompress \<Rightarrow> nat \<Rightarrow> int" where
  "qpt sc 0 = 0"
| "qpt sc (Suc i) = uint (sc_queue sc ! (sc_queue_pos sc + i) - ucast (sc_last_step_clock sc))"

declare qpt.simps(2) [simp del]

lemma qpt_pos: "0 < k \<Longrightarrow> qpt sc k = uint (sc_queue sc ! (sc_queue_pos sc + (k - 1)) - ucast (sc_last_step_clock sc))"
  by (cases k) (simp_all add: qpt.simps)

definition qmin :: "stepcompress \<Rightarrow> nat \<Rightarrow> int" where
  "qmin sc k = qpt sc k - min (uint (sc_max_error sc)) ((qpt sc k - qpt sc (k - 1)) div 2)"

definition queue_ok :: "stepcompress \<Rightarrow> bool" where
  "queue_ok sc \<longleftrightarrow> sc_queue_pos sc \<le> sc_queue_next sc \<and> sc_queue_next sc \<le> length (sc_queue sc) \<and>
     (\<forall>k. 1 \<le> k \<and> k \<le> pending_steps sc \<longrightarrow> qpt sc (k - 1) < qpt sc k \<and> qpt sc k < 3 * 2 ^ 28)"

lemma queue_points_ok: "queue_ok sc \<Longrightarrow> points_ok (qpt sc) (qmin sc) (pending_steps sc)"
  by (auto simp: queue_ok_def points_ok_def qmin_def)

lemma minmax_point_eq:
  assumes "queue_ok sc" and "i < pending_steps sc"
  shows "minmax_point sc (sc_queue_pos sc + i) = Some (qmin sc (Suc i), qpt sc (Suc i))"
proof -
  define point where "point = sc_queue sc ! (sc_queue_pos sc + i) - ucast (sc_last_step_clock sc)"
  define prev where "prev = (if 0 < i then sc_queue sc ! (sc_queue_pos sc + i - 1) - ucast (sc_last_step_clock sc) else 0)"
  have pt: "qpt sc (Suc i) = uint point" by (simp add: point_def qpt.simps)
  have pv: "qpt sc i = uint prev" by (cases i) (simp_all add: prev_def qpt.simps)
  have lt: "uint prev < uint point" "uint point < 3 * 2 ^ 28"
    using assms pt pv unfolding queue_ok_def by (metis diff_Suc_1 le_add1 plus_1_eq_Suc Suc_leI)+
  define e where "e = (if sc_max_error sc < (point - prev) div 2 then sc_max_error sc else (point - prev) div 2)"
  have half: "uint ((point - prev) div 2) = (uint point - uint prev) div 2"
    using lt(1) by (simp add: uint_div uint_sub_if_size)
  have e: "uint e = min (uint (sc_max_error sc)) ((uint point - uint prev) div 2)"
    by (simp add: e_def word_less_def half)
  have "(uint point - uint prev) div 2 \<le> uint point" using lt(1) uint_ge_0 [of prev] by linarith
  with e lt(1) have "uint e \<le> uint point" "0 \<le> uint e" by simp_all
  then have sub: "uint (point - e) = uint point - uint e" by (simp add: uint_sub_if_size)
  have "uint point - uint e \<le> uint point" by simp
  with lt(2) have "uint point - uint e < 3 * 2 ^ 28" by linarith
  then have "sint (point - e) = uint point - uint e" "sint point = uint point"
    using lt(2) by (simp_all add: sint_u32_cases sub)
  moreover have "sc_queue_pos sc + i < length (sc_queue sc)"
    using assms unfolding queue_ok_def pending_steps_def by linarith
  moreover from this have "minmax_point sc (sc_queue_pos sc + i) = Some (sint (point - e), sint point)"
    by (cases i) (simp_all add: minmax_point_def rd_def Let_def point_def prev_def e_def)
  ultimately show ?thesis by (simp add: qmin_def pt pv e point_def)
qed

section \<open>Division\<close>

lemma i32_Some [simp]: "- (2 ^ 31) \<le> x \<Longrightarrow> x < 2 ^ 31 \<Longrightarrow> i32 x = Some x"
  by (simp add: i32_def)

lemma idiv_up_eq:
  assumes "0 < d" and "n + d < 2 ^ 31"
  shows "idiv_up n d = Some (- ((- n) div d))"
proof (cases "0 \<le> n")
  case True
  have "n + d - 1 = d * - ((- n) div d) + (d - 1 - (- n) mod d)"
    using div_mult_mod_eq [of "- n" d] by (simp add: algebra_simps)
  then have "(n + d - 1) div d = - ((- n) div d)"
    by (rule int_div_pos_eq) (use assms(1) pos_mod_bound [of d "- n"] pos_mod_sign [of d "- n"] in linarith)+
  then show ?thesis using True assms by (simp add: idiv_up_def cdiv_def)
qed (use assms in \<open>simp add: idiv_up_def cdiv_def\<close>)

lemma idiv_down_eq:
  assumes "0 < d" and "- (2 ^ 31) \<le> n - d"
  shows "idiv_down n d = Some (n div d)"
proof (cases "0 \<le> n")
  case False
  have "- n + d - 1 = d * - (n div d) + (d - 1 - n mod d)"
    using div_mult_mod_eq [of n d] by (simp add: algebra_simps)
  then have "(- n + d - 1) div d = - (n div d)"
    by (rule int_div_pos_eq) (use assms(1) pos_mod_bound [of d n] pos_mod_sign [of d n] in linarith)+
  moreover have "\<not> 0 \<le> n - d + 1" using False assms(1) by simp
  ultimately show ?thesis using False assms by (simp add: idiv_down_def cdiv_def algebra_simps)
qed (use assms in \<open>simp add: idiv_down_def cdiv_def\<close>)

lemma le_div_iff:
  assumes "0 < (d :: int)"
  shows "x \<le> n div d \<longleftrightarrow> x * d \<le> n"
proof
  assume "x \<le> n div d"
  then have "x * d \<le> n div d * d" using assms by simp
  also have "\<dots> \<le> n" using assms by (metis div_mult_mod_eq le_add_same_cancel1 pos_mod_sign)
  finally show "x * d \<le> n" .
next
  assume "x * d \<le> n"
  then have "x * d div d \<le> n div d" using assms by (intro zdiv_mono1) simp_all
  then show "x \<le> n div d" using assms by simp
qed

lemma ceil_div_le_iff: "0 < (d :: int) \<Longrightarrow> - ((- n) div d) \<le> x \<longleftrightarrow> n \<le> x * d"
  using le_div_iff [of d "- x" "- n"] by auto

section \<open>The inner loop\<close>

text \<open>What the loop does to the two bounds of the interval at the next point.\<close>

definition next_lo :: "stepcompress \<Rightarrow> int \<Rightarrow> nat \<Rightarrow> int \<Rightarrow> int" where
  "next_lo sc ad n mn = max mn (- (- (qmin sc (Suc n) - ad * tri (Suc n)) div int (Suc n)))"

definition next_hi :: "stepcompress \<Rightarrow> int \<Rightarrow> nat \<Rightarrow> int \<Rightarrow> int" where
  "next_hi sc ad n mx = min mx ((qpt sc (Suc n) - ad * tri (Suc n)) div int (Suc n))"

lemma next_lo_le_iff: "next_lo sc ad n mn \<le> x \<longleftrightarrow> mn \<le> x \<and> qmin sc (Suc n) \<le> step_at x ad (Suc n)"
  using ceil_div_le_iff [of "int (Suc n)" "qmin sc (Suc n) - ad * tri (Suc n)" x]
  by (simp add: next_lo_def step_at_def algebra_simps del: of_nat_Suc)

lemma le_next_hi_iff: "x \<le> next_hi sc ad n mx \<longleftrightarrow> x \<le> mx \<and> step_at x ad (Suc n) \<le> qpt sc (Suc n)"
  using le_div_iff [of "int (Suc n)" x "qpt sc (Suc n) - ad * tri (Suc n)"]
  by (simp add: next_hi_def step_at_def algebra_simps del: of_nat_Suc)

definition fit_range :: "stepcompress \<Rightarrow> int \<Rightarrow> nat \<Rightarrow> int \<Rightarrow> int \<Rightarrow> bool" where
  "fit_range sc ad n mn mx \<longleftrightarrow> mn \<le> mx \<and> (\<forall>x. mn \<le> x \<and> x \<le> mx \<longrightarrow> fits (qpt sc) (qmin sc) x ad n)"

lemma fit_range_next:
  assumes "fit_range sc ad n mn mx" and "next_lo sc ad n mn \<le> next_hi sc ad n mx"
  shows "fit_range sc ad (Suc n) (next_lo sc ad n mn) (next_hi sc ad n mx)"
  using assms by (simp add: fit_range_def fits_Suc next_lo_le_iff le_next_hi_iff)

lemma scan_step:
  assumes "queue_ok sc" and "n < avail" and "avail \<le> pending_steps sc" and "n < 46341" and "1 \<le> n"
    and "\<bar>ad\<bar> \<le> 2 ^ 15" and "fit_range sc ad n mn mx"
  shows "scan sc avail ad n mn mx iv =
     (let lo = next_lo sc ad n mn; hi = next_hi sc ad n mx in
      if hi < lo then Some (Stops (int (Suc n)) (qmin sc (Suc n), qpt sc (Suc n)) lo hi iv)
      else scan sc avail ad (Suc n) lo hi hi)"
proof -
  define c where "c = ad * tri (Suc n)"
  define d where "d = int (Suc n)"
  note ok = queue_points_ok [OF assms(1)]
  have n: "n \<le> pending_steps sc" "Suc n \<le> pending_steps sc" using assms(2,3) by simp_all
  have fit: "fits (qpt sc) (qmin sc) mn ad n" "fits (qpt sc) (qmin sc) mx ad n"
    using assms(7) by (auto simp: fit_range_def)
  note lo = fit_next_bounds [OF ok fit(1) assms(5) n(1) assms(6)] fit_bounds(1) [OF ok fit(1) assms(5) n(1) assms(6)]
  note hi = fit_next_bounds [OF ok fit(2) assms(5) n(1) assms(6)] fit_bounds(1) [OF ok fit(2) assms(5) n(1) assms(6)]
  have "\<bar>c\<bar> = \<bar>ad\<bar> * tri (Suc n)" by (simp add: c_def abs_mult)
  then have c: "- (3 * 2 ^ 28 + 2 ^ 24) \<le> c" "c \<le> 3 * 2 ^ 28 + 2 ^ 24" using lo(2) by linarith+
  have pt: "0 \<le> qmin sc (Suc n)" "qmin sc (Suc n) \<le> qpt sc (Suc n)" "qpt sc (Suc n) < 3 * 2 ^ 28"
    using point_bounds [OF ok, of "Suc n"] points_nonneg [OF ok n(1)] n(2) by auto
  have d: "0 < d" "d \<le> 46341" using assms(2,4) by (simp_all add: d_def)
  have "d * (d - 1) \<le> 46341 * 46340" using d by (intro mult_mono) simp_all
  moreover have "- (2 ^ 31) \<le> 2 * tri (Suc n)" by (rule order_trans [of _ 0]) simp_all
  moreover have "d * (d - 1) = 2 * tri (Suc n)" by (simp add: tri_double d_def)
  ultimately have m: "i32 (d * (d - 1)) = Some (2 * tri (Suc n))" "cdiv (2 * tri (Suc n)) 2 = tri (Suc n)"
    by (simp_all add: cdiv_def)
  have mnd: "0 < mn * d" "mn * d < 15 * 2 ^ 27" "0 < mx * d" "mx * d < 15 * 2 ^ 27"
    using lo(3,6) hi(3,6) d(1) by (simp_all add: d_def)
  have up: "idiv_up (qmin sc (Suc n) - c) d = Some (- (- (qmin sc (Suc n) - c) div d))"
    by (rule idiv_up_eq) (use d c pt in simp_all)
  have down: "idiv_down (qpt sc (Suc n) - c) d = Some ((qpt sc (Suc n) - c) div d)"
    by (rule idiv_down_eq) (use d c pt in simp_all)
  have sums: "i32 c = Some c" "i32 (qmin sc (Suc n) - c) = Some (qmin sc (Suc n) - c)"
    "i32 (qpt sc (Suc n) - c) = Some (qpt sc (Suc n) - c)" "i32 (mn * d) = Some (mn * d)" "i32 (mx * d) = Some (mx * d)"
    using c pt mnd by (simp_all add: i32_def)
  have lo_eq: "next_lo sc ad n mn = (if mn * d < qmin sc (Suc n) - c then - (- (qmin sc (Suc n) - c) div d) else mn)"
    using ceil_div_le_iff [OF d(1), of "qmin sc (Suc n) - c" mn] by (auto simp: next_lo_def c_def d_def not_less)
  have hi_eq: "next_hi sc ad n mx = (if qpt sc (Suc n) - c < mx * d then (qpt sc (Suc n) - c) div d else mx)"
    using le_div_iff [OF d(1), of mx "qpt sc (Suc n) - c"] by (auto simp: next_hi_def c_def d_def not_less)
  show ?thesis
    unfolding lo_eq hi_eq
    by (subst scan.simps)
      (use assms(2) minmax_point_eq [OF assms(1), of n] n(2) in
        \<open>simp add: Let_def d_def [symmetric] m sums c_def [symmetric] up down del: of_nat_Suc\<close>)
qed

lemma scan_result:
  assumes "queue_ok sc" and "avail \<le> pending_steps sc" and "avail \<le> 46341" and "\<bar>ad\<bar> \<le> 2 ^ 15"
  shows "1 \<le> n \<Longrightarrow> n \<le> avail \<Longrightarrow> fit_range sc ad n mn mx \<Longrightarrow>
    \<exists>m lo hi. n \<le> m \<and> mn \<le> lo \<and> hi \<le> mx \<and> fit_range sc ad m lo hi \<and>
      (m = avail \<and> scan sc avail ad n mn mx mx = Some (Covers hi (int m)) \<or>
       m < avail \<and> next_hi sc ad m hi < next_lo sc ad m lo \<and>
       scan sc avail ad n mn mx mx = Some (Stops (int (Suc m)) (qmin sc (Suc m), qpt sc (Suc m))
         (next_lo sc ad m lo) (next_hi sc ad m hi) hi))"
proof (induction "avail - n" arbitrary: n mn mx)
  case 0
  then have "n = avail" by simp
  moreover from this have "scan sc avail ad n mn mx mx = Some (Covers mx (int n))" by (subst scan.simps) simp
  ultimately show ?case using 0 by (intro exI [of _ n] exI [of _ mn] exI [of _ mx]) simp
next
  case (Suc d)
  then have n: "n < avail" by simp
  then have "n < 46341" using assms(3) by simp
  note step = scan_step [OF assms(1) n assms(2) this Suc.prems(1) assms(4) Suc.prems(3)]
  show ?case
  proof (cases "next_hi sc ad n mx < next_lo sc ad n mn")
    case True
    then show ?thesis using n Suc.prems step
      by (intro exI [of _ n] exI [of _ mn] exI [of _ mx]) (simp add: Let_def)
  next
    case False
    have le: "mn \<le> next_lo sc ad n mn" "next_hi sc ad n mx \<le> mx" by (simp_all add: next_lo_def next_hi_def)
    from False have range: "fit_range sc ad (Suc n) (next_lo sc ad n mn) (next_hi sc ad n mx)"
      by (intro fit_range_next [OF Suc.prems(3)]) simp
    have eq: "scan sc avail ad n mn mx mx = scan sc avail ad (Suc n) (next_lo sc ad n mn) (next_hi sc ad n mx) (next_hi sc ad n mx)"
      using False step by (simp add: Let_def)
    have "d = avail - Suc n" "1 \<le> Suc n" "Suc n \<le> avail" using Suc.hyps(2) n by simp_all
    from Suc.hyps(1) [OF this range] obtain m lo hi where
      IH: "Suc n \<le> m" "next_lo sc ad n mn \<le> lo" "hi \<le> next_hi sc ad n mx" "fit_range sc ad m lo hi"
      "m = avail \<and> scan sc avail ad n mn mx mx = Some (Covers hi (int m)) \<or>
       m < avail \<and> next_hi sc ad m hi < next_lo sc ad m lo \<and>
       scan sc avail ad n mn mx mx = Some (Stops (int (Suc m)) (qmin sc (Suc m), qpt sc (Suc m))
         (next_lo sc ad m lo) (next_hi sc ad m hi) hi)"
      unfolding eq by blast
    show ?thesis
      by (rule exI [of _ m], rule exI [of _ lo], rule exI [of _ hi]) (use IH le in \<open>simp del: of_nat_Suc\<close>)
  qed
qed

section \<open>The outer loop\<close>

definition bisect_inv :: "stepcompress \<Rightarrow> bisect \<Rightarrow> bool" where
  "bisect_inv sc b \<longleftrightarrow> qmin sc 1 \<le> outer_min b \<and> outer_min b \<le> outer_max b \<and> outer_max b \<le> qpt sc 1 \<and>
     - (2 ^ 15) \<le> minadd b \<and> minadd b \<le> bs_add b \<and> bs_add b \<le> maxadd b \<and> maxadd b < 2 ^ 15"

lemma limit_err_eq:
  assumes "uint (sc_max_error sc) \<le> 2 ^ 17" and "1 \<le> m" and "m \<le> 512" and "\<bar>bs_add b\<bar> \<le> 2 ^ 15"
  shows "\<exists>e. 0 \<le> e \<and> (1 < m \<longrightarrow> e * tri (Suc m) \<le> 11 * 2 ^ 17) \<and> limit_err sc (int m) b =
    Some (if 1 < m then b\<lparr>minadd := max (minadd b) (bs_add b - e), maxadd := min (maxadd b) (bs_add b + e)\<rparr> else b)"
proof (cases "1 < m")
  case True
  define d where "d = int m * int m"
  have "int m * int m \<le> 512 * 512" using assms(3) by (intro mult_mono) simp_all
  then have d: "0 < d" "d \<le> 2 ^ 18" using True by (simp_all add: d_def)
  define E where "E = uint (sc_max_error sc)"
  have E: "0 \<le> E" "E \<le> 2 ^ 17" using assms(1) by (simp_all add: E_def)
  define e where "e = E * 11 div d"
  have "uint (sc_max_error sc * QUADRATIC_DEV) = E * 11"
    using E by (simp add: QUADRATIC_DEV_def uint_word_ariths E_def)
  moreover have "uint (word_of_int d :: u32) = d"
    using d by (simp add: unsigned_of_int take_bit_int_eq_self)
  ultimately have "uint (sc_max_error sc * QUADRATIC_DEV div word_of_int d) = e"
    by (simp add: uint_div e_def)
  moreover have ed: "e * d \<le> E * 11" using le_div_iff [OF d(1), of e "E * 11"] by (simp add: e_def)
  moreover have e0: "0 \<le> e" using E d by (simp add: e_def pos_imp_zdiv_nonneg_iff)
  moreover have "e * 1 \<le> e * d" using e0 d by (intro mult_left_mono) simp_all
  ultimately have err: "sint (sc_max_error sc * QUADRATIC_DEV div word_of_int d) = e"
    using E by (simp add: sint_u32_cases)
  have e: "0 \<le> e" "e \<le> E * 11" using e0 ed \<open>e * 1 \<le> e * d\<close> by simp_all
  have "int m \<le> int m * int m" using True by simp
  then have tri: "tri (Suc m) \<le> d" using tri_double [of "Suc m"] by (simp add: d_def algebra_simps)
  then have "e * tri (Suc m) \<le> e * d" using e by (intro mult_left_mono)
  also have "\<dots> \<le> 11 * 2 ^ 17" using E ed by simp
  finally have "e * tri (Suc m) \<le> 11 * 2 ^ 17" .
  moreover have "i32 (int m * int m) = Some d" "i32 (bs_add b - e) = Some (bs_add b - e)" "i32 (bs_add b + e) = Some (bs_add b + e)"
    using d e E assms(4) by (auto simp: i32_def d_def abs_le_iff)
  ultimately show ?thesis
    using True e err by (intro exI [of _ e]) (simp add: limit_err_def Let_def max_def min_def)
qed (use assms in \<open>auto simp: limit_err_def\<close>)

lemma limit_point_eq:
  assumes "0 < f" and "f \<le> 2 ^ 18" and "0 < d" and "0 < outer_min b" and "0 < outer_max b"
    and "outer_min b * d < 15 * 2 ^ 27" and "outer_max b * d < 2 ^ 31" and "0 \<le> pmin" and "pmin < 3 * 2 ^ 28"
    and "0 \<le> pmax" and "pmax < 3 * 2 ^ 28" and "\<bar>minadd b * f\<bar> < 2 ^ 31" and "\<bar>maxadd b * f\<bar> < 2 ^ 31"
  shows "\<exists>lo hi. limit_point d (pmin, pmax) f b = Some (b\<lparr>minadd := lo, maxadd := hi\<rparr>) \<and>
     minadd b \<le> lo \<and> hi \<le> maxadd b"
proof -
  define C where "C = outer_max b * d"
  define D where "D = outer_min b * d"
  have c: "0 < C" "C < 2 ^ 31" "0 < D" "D < 15 * 2 ^ 27" using assms(3-7) by (simp_all add: C_def D_def)
  define v where "v = pmin - C"
  define w where "w = pmax - D"
  define lo where "lo = (if minadd b * f < v then - ((- v) div f) else minadd b)"
  define hi where "hi = (if w < maxadd b * f then w div f else maxadd b)"
  have lo: "minadd b \<le> lo"
    using ceil_div_le_iff [OF assms(1), of v "minadd b"] by (auto simp: lo_def)
  have hi: "hi \<le> maxadd b"
    using le_div_iff [OF assms(1), of "maxadd b" w] by (auto simp: hi_def)
  have up: "idiv_up v f = Some (- ((- v) div f))"
    by (rule idiv_up_eq) (use assms(1,2,8,9) c in \<open>simp_all add: v_def\<close>)
  have down: "idiv_down w f = Some (w div f)"
    by (rule idiv_down_eq) (use assms(1,2,10,11) c in \<open>simp_all add: w_def\<close>)
  have "i32 C = Some C" "i32 D = Some D"
    "i32 (minadd b * f) = Some (minadd b * f)" "i32 (maxadd b * f) = Some (maxadd b * f)" "i32 v = Some v" "i32 w = Some w"
    using assms(8-13) c by (auto simp: i32_def v_def w_def abs_less_iff)
  then have "limit_point d (pmin, pmax) f b = Some (b\<lparr>minadd := lo, maxadd := hi\<rparr>)"
    using up down by (simp add: limit_point_def C_def [symmetric] D_def [symmetric] v_def [symmetric] w_def [symmetric] lo_def hi_def)
  then show ?thesis using lo hi by blast
qed

definition best_of :: "bisect \<Rightarrow> int \<times> int \<times> int \<times> int \<times> int \<times> int" where
  "best_of b = (bestinterval b, bestcount b, bestadd b, bestreach b, zerointerval b, zerocount b)"

text \<open>After the error limit the range of \<^verbatim>\<open>add\<close> is close to the one tried.\<close>

lemma near_add_bound:
  fixes ad f e x :: int
  assumes "\<bar>ad\<bar> * f < 3 * 2 ^ 28 + 2 ^ 24" and "0 \<le> f" and "f \<le> 2 ^ 18" and "e * f \<le> 11 * 2 ^ 17"
    and "ad - max e 1 \<le> x" and "x \<le> ad + max e 1" and "0 \<le> e"
  shows "\<bar>x * f\<bar> < 2 ^ 31"
proof -
  have "\<bar>x\<bar> \<le> \<bar>ad\<bar> + max e 1" 
    using assms(5,6) abs_ge_self [of ad] abs_ge_minus_self [of ad] by (intro abs_leI) linarith+
  then have "\<bar>x\<bar> * f \<le> (\<bar>ad\<bar> + max e 1) * f" using assms(2) by (intro mult_right_mono)
  also have "\<dots> \<le> \<bar>ad\<bar> * f + (e * f + f)" using assms(2,7) by (cases "e \<le> 1") (simp_all add: distrib_right max_def)
  finally show ?thesis using assms(1-4) by (simp add: abs_mult)
qed

lemma narrow_result:
  assumes "queue_ok sc" and "uint (sc_max_error sc) \<le> 2 ^ 17" and "1 \<le> m" and "m < pending_steps sc" and "m \<le> 512"
    and "bisect_inv sc b" and "fit_range sc (bs_add b) m lo hi" and "outer_min b \<le> lo" and "hi \<le> outer_max b"
  shows "\<exists>b'. best_of b' = best_of b \<and>
     (let r = narrow sc (int (Suc m)) (qmin sc (Suc m), qpt sc (Suc m)) (next_lo sc (bs_add b) m lo) (next_hi sc (bs_add b) m hi) hi b
      in r = Some (Stop b') \<or> r = Some (Again b') \<and> bisect_inv sc b' \<and> maxadd b' - minadd b' < maxadd b - minadd b)"
proof -
  define ad where "ad = bs_add b"
  define f where "f = tri (Suc m)"
  define d where "d = int (Suc m)"
  note ok = queue_points_ok [OF assms(1)]
  have inv: "qmin sc 1 \<le> outer_min b" "outer_max b \<le> qpt sc 1" "- (2 ^ 15) \<le> minadd b" "minadd b \<le> ad" "ad \<le> maxadd b" "maxadd b < 2 ^ 15"
    using assms(6) by (auto simp: bisect_inv_def ad_def)
  then have ad: "\<bar>ad\<bar> \<le> 2 ^ 15" by auto
  have lohi: "lo \<le> hi" and fit: "fits (qpt sc) (qmin sc) hi ad m" using assms(7) by (auto simp: fit_range_def ad_def)
  have m: "m \<le> pending_steps sc" "Suc m \<le> pending_steps sc" using assms(4) by simp_all
  note nb = fit_next_bounds [OF ok fit assms(3) m(1) ad, folded f_def d_def]
  have pt: "0 \<le> qmin sc (Suc m)" "qmin sc (Suc m) \<le> qpt sc (Suc m)" "qpt sc (Suc m) < 3 * 2 ^ 28"
    using point_bounds [OF ok, of "Suc m"] points_nonneg [OF ok m(1)] m(2) by auto
  have lo1: "0 < qmin sc 1" using point_bounds(1) [OF ok, of 1] assms(4) by simp
  have d: "0 < d" "d \<le> 513" using assms(5) by (simp_all add: d_def)
  have dd: "d * (d - 1) = 2 * f" by (simp add: tri_double d_def f_def)
  have "d * (d - 1) \<le> 513 * 512" using d by (intro mult_mono) simp_all
  moreover have "1 \<le> f" using assms(3) tri_nonneg [of m] unfolding f_def tri_Suc by linarith
  ultimately have f: "1 \<le> f" "f \<le> 2 ^ 18" using dd by simp_all
  define b1 where "b1 = (if step_at hi ad (Suc m) < qmin sc (Suc m)
     then b\<lparr>minadd := ad + 1, outer_max := next_hi sc ad m hi\<rparr> else b\<lparr>maxadd := ad - 1, outer_min := next_lo sc ad m lo\<rparr>)"
  have hi_eq: "next_hi sc ad m hi = hi" if "step_at hi ad (Suc m) < qmin sc (Suc m)"
    using that pt(2) le_next_hi_iff [of hi sc ad m hi] by (auto simp: next_hi_def)
  have lo_le: "next_lo sc ad m lo \<le> hi" if "\<not> step_at hi ad (Suc m) < qmin sc (Suc m)"
    using that lohi by (simp add: next_lo_le_iff)
  have lo_ge: "lo \<le> next_lo sc ad m lo" by (simp add: next_lo_def)
  have b1: "qmin sc 1 \<le> outer_min b1" "outer_min b1 \<le> hi" "hi \<le> outer_max b1" "outer_max b1 \<le> qpt sc 1"
    using inv(1,2) hi_eq lo_le lo_ge lohi assms(8,9) by (auto simp: b1_def)
  have a1: "minadd b \<le> minadd b1" "minadd b1 \<le> ad + 1" "ad - 1 \<le> maxadd b1" "maxadd b1 \<le> maxadd b"
    "maxadd b1 - minadd b1 < maxadd b - minadd b" "bs_add b1 = ad" "best_of b1 = best_of b"
    using inv(4,5) by (auto simp: b1_def best_of_def ad_def)
  from limit_err_eq [OF assms(2,3,5), of b1] obtain e where
    e: "0 \<le> e" "1 < m \<longrightarrow> e * f \<le> 11 * 2 ^ 17"
      "limit_err sc (int m) b1 = Some (if 1 < m then b1\<lparr>minadd := max (minadd b1) (ad - e), maxadd := min (maxadd b1) (ad + e)\<rparr> else b1)"
    using ad unfolding a1(6) f_def by blast
  define b2 where "b2 = (if 1 < m then b1\<lparr>minadd := max (minadd b1) (ad - e), maxadd := min (maxadd b1) (ad + e)\<rparr> else b1)"
  have a2: "minadd b1 \<le> minadd b2" "maxadd b2 \<le> maxadd b1" "outer_min b2 = outer_min b1" "outer_max b2 = outer_max b1"
    "best_of b2 = best_of b1" by (auto simp: b2_def best_of_def)
  have "\<bar>minadd b2 * f\<bar> < 2 ^ 31 \<and> \<bar>maxadd b2 * f\<bar> < 2 ^ 31"
  proof (cases "1 < m")
    case True
    have "ad - max e 1 \<le> minadd b2" "minadd b2 \<le> ad + max e 1" "ad - max e 1 \<le> maxadd b2" "maxadd b2 \<le> ad + max e 1"
      using True a1(2,3) e(1) by (auto simp: b2_def)
    then show ?thesis using near_add_bound [OF nb(2) _ f(2), of e] e(1,2) f(1) True by simp
  next
    case False
    then have "m = 1" using assms(3) by simp
    then have "f = 1" by (simp add: f_def tri_def)
    then show ?thesis using False inv(3-6) a1(1-4) by (simp add: b2_def abs_less_iff)
  qed
  then have adds: "\<bar>minadd b2 * f\<bar> < 2 ^ 31" "\<bar>maxadd b2 * f\<bar> < 2 ^ 31" by simp_all
  have "qpt sc 1 - 2 ^ 17 \<le> qmin sc 1" using assms(2) by (simp add: qmin_def)
  then have "outer_max b2 \<le> hi + 2 ^ 17" using b1 a2(4) by simp
  then have "outer_max b2 * d \<le> (hi + 2 ^ 17) * d" using d(1) by (intro mult_right_mono) simp_all
  then have omax: "outer_max b2 * d < 2 ^ 31" using nb(3) d(2) by (simp add: distrib_right)
  have "outer_min b2 * d \<le> hi * d" using b1(2) a2(3) d(1) by (intro mult_right_mono) simp_all
  then have omin: "outer_min b2 * d < 15 * 2 ^ 27" using nb(3) by simp
  have "0 < f" "0 < outer_min b2" "0 < outer_max b2" "qmin sc (Suc m) < 3 * 2 ^ 28" "0 \<le> qpt sc (Suc m)"
    using f(1) lo1 b1 a2(3,4) pt by auto
  from limit_point_eq [OF this(1) f(2) d(1) this(2,3) omin omax pt(1) this(4,5) pt(3) adds] obtain lo' hi' where
    p: "limit_point d (qmin sc (Suc m), qpt sc (Suc m)) f b2 = Some (b2\<lparr>minadd := lo', maxadd := hi'\<rparr>)"
      "minadd b2 \<le> lo'" "hi' \<le> maxadd b2" by blast
  define b3 where "b3 = b2\<lparr>minadd := lo', maxadd := hi'\<rparr>"
  have "\<bar>ad * f\<bar> < 3 * 2 ^ 28 + 2 ^ 24" using nb(2) f(1) by (simp add: abs_mult)
  then have "i32 (ad * f) = Some (ad * f)" by (auto simp: i32_def abs_less_iff)
  moreover have "0 < hi * d" using lo1 b1(1,2) d(1) by simp
  then have "i32 (hi * d) = Some (hi * d)" using nb(3) by (simp add: i32_def)
  moreover have "ad * f + hi * d = step_at hi ad (Suc m)" by (simp add: step_at_def f_def d_def)
  then have "i32 (ad * f + hi * d) = Some (step_at hi ad (Suc m))" using nb(4,5) by (simp add: i32_def)
  moreover have "i32 (d * (d - 1)) = Some (2 * f)" unfolding dd using f by (simp add: i32_def)
  moreover have half: "cdiv (2 * f) 2 = f" and d1: "d - 1 = int m" using f(1) by (simp_all add: cdiv_def d_def)
  ultimately have eq: "narrow sc d (qmin sc (Suc m), qpt sc (Suc m)) (next_lo sc ad m lo) (next_hi sc ad m hi) hi b =
     (if hi' < lo' then Some (Stop b3)
      else do { w \<leftarrow> i32 (hi' - lo'); Some (Again (b3\<lparr>bs_add := hi' - cdiv w 4\<rparr>)) })"
    using e(3) [folded b2_def] p(1) unfolding narrow_def ad_def [symmetric]
    by (simp add: Let_def half d1 b1_def [symmetric]) (simp add: b3_def)
  have best: "best_of (b3\<lparr>bs_add := x\<rparr>) = best_of b" "best_of b3 = best_of b" for x
    using a1(7) a2(5) by (auto simp: b3_def best_of_def)
  show ?thesis
  proof (cases "hi' < lo'")
    case True
    then show ?thesis using eq best(2) by (intro exI [of _ b3]) (simp add: d_def ad_def)
  next
    case False
    define b4 where "b4 = b3\<lparr>bs_add := hi' - (hi' - lo') div 4\<rparr>"
    have r: "- (2 ^ 15) \<le> lo'" "hi' < 2 ^ 15" "hi' - lo' < maxadd b - minadd b"
      using p(2,3) a1(1-5) a2(1,2) inv(3,6) by linarith+
    then have "i32 (hi' - lo') = Some (hi' - lo')" using False by (simp add: i32_def)
    then have "narrow sc d (qmin sc (Suc m), qpt sc (Suc m)) (next_lo sc ad m lo) (next_hi sc ad m hi) hi b = Some (Again b4)"
      using False eq by (simp add: cdiv_def b4_def)
    moreover have "bisect_inv sc b4"
      using False r b1 a2(3,4) by (simp add: bisect_inv_def b4_def b3_def) linarith
    moreover have "maxadd b4 - minadd b4 < maxadd b - minadd b" using r by (simp add: b4_def b3_def)
    ultimately show ?thesis using best(1) by (intro exI [of _ b4]) (simp add: d_def ad_def b4_def)
  qed
qed

definition good_move :: "stepcompress \<Rightarrow> nat \<Rightarrow> int \<times> int \<times> int \<Rightarrow> bool" where
  "good_move sc avail = (\<lambda>(iv, c, ad). \<exists>n. c = int n \<and> 1 \<le> n \<and> n \<le> avail \<and>
     fits (qpt sc) (qmin sc) iv ad n \<and> - (2 ^ 15) \<le> ad \<and> ad < 2 ^ 15)"

text \<open>Before the first sequence there is no best one.\<close>

definition best_inv :: "stepcompress \<Rightarrow> nat \<Rightarrow> bisect \<Rightarrow> bool" where
  "best_inv sc avail b \<longleftrightarrow>
     (zerocount b = 0 \<or> good_move sc avail (zerointerval b, zerocount b, 0)) \<and>
     good_move sc avail (bestinterval b, bestcount b, bestadd b) \<and>
     bestreach b = step_at (bestinterval b) (bestadd b) (nat (bestcount b))"

definition best_fresh :: "bisect \<Rightarrow> bool" where
  "best_fresh b \<longleftrightarrow> bestreach b = - (2 ^ 31) \<and> zerocount b = 0"

lemma best_inv_cong: "best_of b' = best_of b \<Longrightarrow> best_inv sc avail b' = best_inv sc avail b"
  by (simp add: best_inv_def best_of_def)

lemma qpt_mono: "queue_ok sc \<Longrightarrow> j \<le> k \<Longrightarrow> k \<le> pending_steps sc \<Longrightarrow> qpt sc j \<le> qpt sc k"
proof (induction "k - j" arbitrary: k)
  case (Suc d)
  then have "qpt sc j \<le> qpt sc (k - 1)" by (cases k) auto
  moreover have "qpt sc (k - 1) < qpt sc k" using Suc.prems Suc.hyps(2) by (auto simp: queue_ok_def)
  ultimately show ?case by simp
qed simp

text \<open>A sequence that covers more steps reaches further.\<close>

lemma longer_reaches:
  assumes "queue_ok sc" and "good_move sc avail (iv0, int n, ad0)" and "fits (qpt sc) (qmin sc) iv ad m"
    and "n < m" and "m \<le> pending_steps sc"
  shows "step_at iv0 ad0 n < step_at iv ad m"
proof -
  have "step_at iv0 ad0 n \<le> qpt sc n" using assms(2) by (auto simp: good_move_def fits_def)
  also have "qpt sc n \<le> qpt sc (m - 1)" using qpt_mono [OF assms(1), of n "m - 1"] assms(4,5) by simp
  also have "qpt sc (m - 1) < qmin sc m" using point_bounds(1) [OF queue_points_ok [OF assms(1)], of m] assms(4,5) by simp
  also have "qmin sc m \<le> step_at iv ad m" using assms(3,4) by (auto simp: fits_def)
  finally show ?thesis .
qed

lemma bisect_step_result:
  assumes "queue_ok sc" and "uint (sc_max_error sc) \<le> 2 ^ 17" and "1 \<le> avail" and "avail \<le> pending_steps sc"
    and "avail \<le> 46341" and "bisect_inv sc b" and "best_fresh b \<or> best_inv sc avail b \<and> bestcount b \<le> 512"
  shows "(\<exists>r. bisect_step sc avail b = Some (Found (fst r) (fst (snd r)) (snd (snd r))) \<and> good_move sc avail r) \<or>
    (\<exists>b'. bisect_step sc avail b = Some (Stop b') \<and> best_inv sc avail b') \<or>
    (\<exists>b'. bisect_step sc avail b = Some (Again b') \<and> bisect_inv sc b' \<and> best_inv sc avail b' \<and> bestcount b' \<le> 512 \<and>
       maxadd b' - minadd b' < maxadd b - minadd b)"
proof -
  define ad where "ad = bs_add b"
  note ok = queue_points_ok [OF assms(1)]
  have ad: "- (2 ^ 15) \<le> ad" "ad < 2 ^ 15" "\<bar>ad\<bar> \<le> 2 ^ 15" using assms(6) by (auto simp: bisect_inv_def ad_def)
  have "fit_range sc ad 1 (outer_min b) (outer_max b)"
    using assms(6) by (auto simp: fit_range_def bisect_inv_def fits_def step_at_def le_Suc_eq)
  from scan_result [OF assms(1,4,5) ad(3) _ assms(3) this] obtain m lo hi where
    m: "1 \<le> m" "outer_min b \<le> lo" "hi \<le> outer_max b" "fit_range sc ad m lo hi"
      "m = avail \<and> scan sc avail ad 1 (outer_min b) (outer_max b) (outer_max b) = Some (Covers hi (int m)) \<or>
       m < avail \<and> scan sc avail ad 1 (outer_min b) (outer_max b) (outer_max b) =
         Some (Stops (int (Suc m)) (qmin sc (Suc m), qpt sc (Suc m)) (next_lo sc ad m lo) (next_hi sc ad m hi) hi)"
    by auto
  have fit: "fits (qpt sc) (qmin sc) hi ad m" using m(4) by (simp add: fit_range_def)
  show ?thesis
  proof (cases "m = avail")
    case True
    then have "bisect_step sc avail b = Some (Found hi (int m) ad)" using m(5) by (simp add: bisect_step_def ad_def)
    moreover have "good_move sc avail (hi, int m, ad)" using fit m(1) True ad by (auto simp: good_move_def)
    ultimately show ?thesis by (intro disjI1 exI [of _ "(hi, int m, ad)"]) simp
  next
    case False
    then have lt: "m < avail" "m \<le> pending_steps sc" "m < pending_steps sc" and
      sc: "scan sc avail ad 1 (outer_min b) (outer_max b) (outer_max b) =
         Some (Stops (int (Suc m)) (qmin sc (Suc m), qpt sc (Suc m)) (next_lo sc ad m lo) (next_hi sc ad m hi) hi)"
      using m(5) assms(4) by auto
    define reach where "reach = step_at hi ad m"
    define best where "best \<longleftrightarrow> bestreach b < reach \<or> reach = bestreach b \<and> bestinterval b < hi"
    define b1 where "b1 = (if best then keep_best hi (int m) reach b else b)"
    have step: "bisect_step sc avail b = (if best \<and> 512 < m then Some (Stop b1)
        else narrow sc (int (Suc m)) (qmin sc (Suc m), qpt sc (Suc m)) (next_lo sc ad m lo) (next_hi sc ad m hi) hi b1)"
    proof -
      note fb = fit_bounds [OF ok fit m(1) lt(2) ad(3)]
      have "int m * (int m - 1) \<le> 46341 * 46340" using lt(1) assms(5) m(1) by (intro mult_mono) simp_all
      moreover have "- (2 ^ 30) \<le> tri m" by (rule order_trans [of _ 0]) simp_all
      ultimately have mm: "i32 (int m * (int m - 1)) = Some (2 * tri m)" "cdiv (2 * tri m) 2 = tri m"
        by (simp_all add: i32_def cdiv_def tri_double [symmetric])
      have "\<bar>ad * tri m\<bar> < 3 * 2 ^ 28" using fb(2) by (simp add: abs_mult)
      then have u: "i32 (ad * tri m) = Some (ad * tri m)" by (auto simp: i32_def abs_less_iff)
      have "0 < hi * int m" using fb(1) m(1) by simp
      then have v: "i32 (hi * int m) = Some (hi * int m)" using fb(3) by (simp add: i32_def)
      have "ad * tri m + hi * int m = reach" by (simp add: reach_def step_at_def)
      then have r: "i32 (ad * tri m + hi * int m) = Some reach" using fb(4,5) by (simp add: i32_def reach_def)
      show ?thesis
        using sc unfolding bisect_step_def ad_def [symmetric]
        by (simp add: Let_def mm u v r best_def [symmetric] b1_def)
    qed
    have good: "good_move sc avail (hi, int m, ad)" using fit m(1) lt(1) ad by (auto simp: good_move_def)
    have b1: "bisect_inv sc b1" "bs_add b1 = ad" "outer_min b1 = outer_min b" "outer_max b1 = outer_max b"
      "minadd b1 = minadd b" "maxadd b1 = maxadd b"
      using assms(6) by (simp_all add: b1_def keep_best_def bisect_inv_def Let_def ad_def)
    have "- (2 ^ 31) < reach" using fit_bounds(4) [OF ok fit m(1) lt(2) ad(3)] by (simp add: reach_def)
    then have fresh: "best" if "best_fresh b" using that by (simp add: best_def best_fresh_def)
    have long: "best" if "512 < m"
    proof (rule ccontr)
      assume "\<not> best"
      then have inv: "best_inv sc avail b" "bestcount b \<le> 512" using fresh assms(7) by auto
      then obtain n where n: "bestcount b = int n" by (auto simp: best_inv_def good_move_def)
      then have "bestreach b < reach"
        using longer_reaches [OF assms(1) _ fit, of avail "bestinterval b" n "bestadd b"] inv that lt(2)
        by (simp add: best_inv_def reach_def)
      then show False using \<open>\<not> best\<close> by (simp add: best_def)
    qed
    have binv: "best_inv sc avail b1 \<and> (m \<le> 512 \<longrightarrow> bestcount b1 \<le> 512)"
    proof (cases best)
      case True
      have "zerocount b = 0 \<or> good_move sc avail (zerointerval b, zerocount b, 0)"
        using assms(7) by (auto simp: best_fresh_def best_inv_def)
      then show ?thesis using True good by (auto simp: b1_def keep_best_def best_inv_def Let_def reach_def ad_def)
    qed (use fresh assms(7) in \<open>auto simp: b1_def\<close>)
    show ?thesis
    proof (cases "512 < m")
      case True
      then show ?thesis using step long binv by simp
    next
      case False
      from narrow_result [OF assms(1,2) m(1) lt(3) _ b1(1), of lo hi] False m(2-4) b1 obtain b2 where
        b2: "best_of b2 = best_of b1" "bisect_step sc avail b = Some (Stop b2) \<or>
           bisect_step sc avail b = Some (Again b2) \<and> bisect_inv sc b2 \<and> maxadd b2 - minadd b2 < maxadd b - minadd b"
        using step by (auto simp: Let_def)
      have "best_inv sc avail b2" "bestcount b2 \<le> 512"
        using binv False best_inv_cong [OF b2(1)] b2(1) by (auto simp: best_of_def)
      then show ?thesis using b2(2) by blast
    qed
  qed
qed

lemma bisect_loop_result:
  assumes "queue_ok sc" and "uint (sc_max_error sc) \<le> 2 ^ 17" and "1 \<le> avail" and "avail \<le> pending_steps sc" and "avail \<le> 46341"
  shows "bisect_inv sc b \<Longrightarrow> best_fresh b \<or> best_inv sc avail b \<and> bestcount b \<le> 512 \<Longrightarrow>
    \<exists>r. bisect_loop sc avail b = Some r \<and> good_move sc avail r"
proof (induction "nat (maxadd b - minadd b)" arbitrary: b rule: less_induct)
  case less
  note step = bisect_step_result [OF assms less.prems]
  consider (found) r where "bisect_step sc avail b = Some (Found (fst r) (fst (snd r)) (snd (snd r)))" "good_move sc avail r"
    | (stop) b' where "bisect_step sc avail b = Some (Stop b')" "best_inv sc avail b'"
    | (again) b' where "bisect_step sc avail b = Some (Again b')" "bisect_inv sc b'" "best_inv sc avail b'"
        "bestcount b' \<le> 512" "maxadd b' - minadd b' < maxadd b - minadd b"
    using step by blast
  then show ?case
  proof cases
    case found
    then show ?thesis by (subst bisect_loop.simps) simp
  next
    case stop
    have "zerocount b' \<noteq> 0" if "bestcount b' \<le> zerocount b' + cdiv (zerocount b') 16"
      using that stop(2) by (auto simp: best_inv_def good_move_def cdiv_def)
    then show ?thesis using stop by (subst bisect_loop.simps) (auto simp: best_inv_def)
  next
    case again
    have "bisect_loop sc avail b = bisect_loop sc avail b'" using again(1) by (subst bisect_loop.simps) simp
    moreover have "nat (maxadd b' - minadd b') < nat (maxadd b - minadd b)"
      using again(2,5) unfolding bisect_inv_def by linarith
    ultimately show ?thesis using less.hyps [of b'] again by simp
  qed
qed

text \<open>The steps of a move, as \<^verbatim>\<open>struct step_move\<close> holds it.\<close>

definition move_step :: "step_move \<Rightarrow> nat \<Rightarrow> int" where
  "move_step mv k = step_at (uint (sm_interval mv)) (sint (sm_add mv)) k"

lemma good_move_fields:
  assumes "queue_ok sc" and "avail \<le> pending_steps sc" and "avail \<le> 65535" and "good_move sc avail (iv, c, ad)"
  defines "mv \<equiv> mk_move (iv, c, ad)"
  shows "uint (sm_interval mv) = iv" and "sint (sm_add mv) = ad" and "unat (sm_count mv) = nat c"
proof -
  from assms(4) obtain n where n: "c = int n" "1 \<le> n" "n \<le> avail" "fits (qpt sc) (qmin sc) iv ad n" "- (2 ^ 15) \<le> ad" "ad < 2 ^ 15"
    by (auto simp: good_move_def)
  note ok = queue_points_ok [OF assms(1)]
  have "qmin sc 1 \<le> iv" "iv \<le> qpt sc 1" using n(2,4) by (auto simp: fits_def step_at_def)
  then have iv: "0 \<le> iv" "iv < 3 * 2 ^ 28"
    using point_bounds [OF ok, of 1] n(2,3) assms(2) by auto
  then show "uint (sm_interval mv) = iv"
    by (simp add: mv_def mk_move_def unsigned_of_int take_bit_int_eq_self)
  show "sint (sm_add mv) = ad"
    using n(5,6) by (simp add: mv_def mk_move_def signed_of_int signed_take_bit_int_eq_self)
  show "unat (sm_count mv) = nat c"
    using n(1,3) assms(3) by (simp add: mv_def mk_move_def unsigned_of_nat take_bit_nat_eq_self)
qed

lemma compress_result:
  assumes "queue_ok sc" and "uint (sc_max_error sc) \<le> 2 ^ 17" and "0 < pending_steps sc" and "pending_steps sc \<le> 46341"
  shows "\<exists>mv. compress_bisect_add sc = Some mv \<and> 1 \<le> unat (sm_count mv) \<and> unat (sm_count mv) \<le> pending_steps sc \<and>
    fits (qpt sc) (qmin sc) (uint (sm_interval mv)) (sint (sm_add mv)) (unat (sm_count mv))"
proof -
  have avail: "min (sc_queue_next sc - sc_queue_pos sc) 65535 = pending_steps sc" using assms(4) by (simp add: pending_steps_def)
  have pt: "minmax_point sc (sc_queue_pos sc) = Some (qmin sc 1, qpt sc 1)"
    using minmax_point_eq [OF assms(1,3)] by simp
  have "bisect_inv sc (bisect_start (qmin sc 1, qpt sc 1))"
    using point_bounds(2) [OF queue_points_ok [OF assms(1)], of 1] assms(3) by (simp add: bisect_inv_def bisect_start_def)
  moreover have "best_fresh (bisect_start (qmin sc 1, qpt sc 1))" by (simp add: best_fresh_def bisect_start_def)
  ultimately obtain r where r: "bisect_loop sc (pending_steps sc) (bisect_start (qmin sc 1, qpt sc 1)) = Some r" "good_move sc (pending_steps sc) r"
    using bisect_loop_result [OF assms(1,2) _ order_refl assms(4)] assms(3) by (metis Suc_leI One_nat_def)
  obtain iv c ad where rr: "r = (iv, c, ad)" by (cases r)
  note f = good_move_fields [OF assms(1) order_refl _ r(2) [unfolded rr]]
  have "compress_bisect_add sc = Some (mk_move r)"
    using r(1) by (simp add: compress_bisect_add_def avail pt)
  then show ?thesis using f r(2) assms(4) by (auto simp: rr good_move_def)
qed

lemma word_of_int_less_iff_u32:
  "0 \<le> x \<Longrightarrow> x < 2 ^ 32 \<Longrightarrow> 0 \<le> y \<Longrightarrow> y < 2 ^ 32 \<Longrightarrow> (word_of_int x < (word_of_int y :: u32)) = (x < y)"
  by (simp add: word_less_def unsigned_of_int take_bit_int_eq_self)

lemma check_loop_fits:
  assumes "queue_ok sc" and "fits (qpt sc) (qmin sc) iv (sint add) n" and "n \<le> pending_steps sc"
  shows "i + k = n \<Longrightarrow> check_loop sc add k i (word_of_int (iv + int i * sint add)) (word_of_int (step_at iv (sint add) i)) = Some 0"
proof (induction k arbitrary: i)
  case (Suc k)
  define ad where "ad = sint add"
  define S where "S = step_at iv ad (Suc i)"
  note ok = queue_points_ok [OF assms(1)]
  have i: "i < n" "Suc i \<le> pending_steps sc" using Suc.prems assms(3) by simp_all
  have fit: "qmin sc (Suc i) \<le> S" "S \<le> qpt sc (Suc i)" using assms(2) i(1) by (auto simp: fits_def S_def ad_def)
  have pt: "0 \<le> qpt sc i" "qpt sc i < qmin sc (Suc i)" "qpt sc (Suc i) < 3 * 2 ^ 28"
    using point_bounds [OF ok, of "Suc i"] points_nonneg [OF ok, of i] i(2) by auto
  have inc: "0 < iv + int i * ad" using fits_increasing [OF ok assms(2,3) i(1)] by (simp add: ad_def)
  have "0 \<le> step_at iv ad i"
  proof (cases i)
    case (Suc j)
    then have "qmin sc i \<le> step_at iv ad i" using assms(2) i(1) by (auto simp: fits_def ad_def)
    then show ?thesis using point_bounds(1) [OF ok, of i] points_nonneg [OF ok, of "i - 1"] i Suc by auto
  qed simp
  then have le: "iv + int i * ad \<le> S" by (simp add: S_def step_at_Suc)
  have p: "word_of_int (step_at iv ad i) + word_of_int (iv + int i * ad) = (word_of_int S :: u32)"
    by (simp add: S_def step_at_Suc)
  have sc_add: "scast add = (word_of_int ad :: u32)" by (simp only: ad_def scast_eq)
  have nxt: "word_of_int (iv + int i * ad) + scast add = (word_of_int (iv + int (Suc i) * ad) :: u32)"
    unfolding sc_add by (simp add: algebra_simps)
  have "(0x80000000 :: u32) = word_of_int 0x80000000" by simp
  then have iv: "\<not> (0x80000000 :: u32) \<le> word_of_int (iv + int i * ad)"
    using inc le fit pt word_of_int_less_iff_u32 [of "iv + int i * ad" "0x80000000"] by (simp add: not_le)
  have cmp: "\<not> word_of_int S < (word_of_int (qmin sc (Suc i)) :: u32)" "\<not> word_of_int (qpt sc (Suc i)) < (word_of_int S :: u32)"
    using fit pt by (subst word_of_int_less_iff_u32; simp)+
  have "minmax_point sc (sc_queue_pos sc + i) = Some (qmin sc (Suc i), qpt sc (Suc i))"
    using minmax_point_eq [OF assms(1), of i] i(2) by simp
  moreover have "check_loop sc add k (Suc i) (word_of_int (iv + int (Suc i) * ad)) (word_of_int S) = Some 0"
    using Suc.IH [of "Suc i"] Suc.prems by (simp add: S_def ad_def)
  ultimately show ?case
    unfolding ad_def [symmetric] check_loop.simps
    by (simp only: option.sel bind.simps Option.bind_lunit Let_def fst_conv snd_conv p iv cmp nxt if_False de_Morgan_disj simp_thms)
qed simp

lemma check_line_fits:
  assumes "queue_ok sc" and "fits (qpt sc) (qmin sc) (uint (sm_interval mv)) (sint (sm_add mv)) (unat (sm_count mv))"
    and "1 \<le> unat (sm_count mv)" and "unat (sm_count mv) \<le> pending_steps sc"
  shows "check_line sc mv = Some 0"
proof -
  note ok = queue_points_ok [OF assms(1)]
  have "qmin sc 1 \<le> uint (sm_interval mv)" "uint (sm_interval mv) \<le> qpt sc 1"
    using assms(2,3) by (auto simp: fits_def step_at_def)
  then have iv: "0 < uint (sm_interval mv)" "uint (sm_interval mv) < 3 * 2 ^ 28"
    using point_bounds [OF ok, of 1] points_nonneg [OF ok, of 0] assms(3,4) by auto
  have "sm_interval mv \<noteq> 0" "\<not> 0x80000000 \<le> sm_interval mv" "sm_count mv \<noteq> 0"
    using iv assms(3) by (auto simp: word_le_def)
  moreover have "check_loop sc (sm_add mv) (unat (sm_count mv)) 0 (sm_interval mv) 0 = Some 0"
    using check_loop_fits [OF assms(1,2,4), of 0 "unat (sm_count mv)"] by simp
  ultimately show ?thesis by (simp add: check_line_def)
qed

section \<open>Too many steps at one speed\<close>

lemma scan_overflow:
  assumes "queue_ok sc" and "avail \<le> pending_steps sc" and "46341 < avail" and "\<And>k. k \<le> avail \<Longrightarrow> qpt sc k = int k * d"
  shows "1 \<le> n \<Longrightarrow> n \<le> 46341 \<Longrightarrow> fit_range sc 0 n mn mx \<Longrightarrow> mn \<le> d \<Longrightarrow> d \<le> mx \<Longrightarrow> scan sc avail 0 n mn mx iv = None"
proof (induction "46341 - n" arbitrary: n mn mx iv)
  case 0
  then have n: "n = 46341" by simp
  have "minmax_point sc (sc_queue_pos sc + n) = Some (qmin sc (Suc n), qpt sc (Suc n))"
    using minmax_point_eq [OF assms(1), of n] assms(2,3) n by simp
  then show ?case using assms(3) by (subst scan.simps) (simp add: n i32_def)
next
  case (Suc j)
  then have n: "n < 46341" "n < avail" "Suc n \<le> avail" using assms(3) by simp_all
  have at: "step_at d 0 (Suc n) = qpt sc (Suc n)" using assms(4) [OF n(3)] by (simp add: step_at_def)
  have "qmin sc (Suc n) \<le> qpt sc (Suc n)"
    using point_bounds(2) [OF queue_points_ok [OF assms(1)], of "Suc n"] n(3) assms(2) by simp
  then have in_range: "next_lo sc 0 n mn \<le> d" "d \<le> next_hi sc 0 n mx"
    using Suc.prems(4,5) at by (simp_all add: next_lo_le_iff le_next_hi_iff)
  then have "scan sc avail 0 n mn mx iv = scan sc avail 0 (Suc n) (next_lo sc 0 n mn) (next_hi sc 0 n mx) (next_hi sc 0 n mx)"
    using scan_step [OF assms(1) n(2) assms(2) n(1) Suc.prems(1) _ Suc.prems(3)] by (simp add: Let_def)
  also have "\<dots> = None"
    using Suc.hyps in_range fit_range_next [OF Suc.prems(3)] n(1) by (intro Suc.hyps(1)) auto
  finally show ?case .
qed

lemma compress_overflow_aux:
  assumes "queue_ok sc" and "46341 < pending_steps sc" and "\<And>k. k \<le> pending_steps sc \<Longrightarrow> qpt sc k = int k * d"
  shows "compress_bisect_add sc = None"
proof -
  define avail where "avail = min (pending_steps sc) 65535"
  have avail: "avail \<le> pending_steps sc" "46341 < avail" using assms(2) by (simp_all add: avail_def)
  have pt: "minmax_point sc (sc_queue_pos sc) = Some (qmin sc 1, qpt sc 1)"
    using minmax_point_eq [OF assms(1), of 0] assms(2) by simp
  have le: "qmin sc 1 \<le> qpt sc 1" using point_bounds(2) [OF queue_points_ok [OF assms(1)], of 1] assms(2) by simp
  then have "fit_range sc 0 1 (qmin sc 1) (qpt sc 1)"
    by (auto simp: fit_range_def fits_def step_at_def le_Suc_eq)
  then have "scan sc avail 0 1 (qmin sc 1) (qpt sc 1) (qpt sc 1) = None"
    using le assms(3) [of 1] assms(2) by (intro scan_overflow [OF assms(1) avail, of d]) (use assms(3) avail in auto)
  then have "bisect_step sc avail (bisect_start (qmin sc 1, qpt sc 1)) = None"
    by (simp add: bisect_step_def bisect_start_def)
  then show ?thesis
    by (simp add: compress_bisect_add_def pt pending_steps_def [symmetric] avail_def [symmetric] bisect_loop.simps [of sc avail])
qed

section \<open>Properties\<close>

text \<open>C4 (compress_valid). For up to 46341 queued steps less than \<^verbatim>\<open>CLOCK_DIFF_MAX\<close> ticks ahead,
  each at least one tick after the previous, and a maximum error up to \<open>2\<^sup>1\<^sup>7\<close> ticks,
  \<^verbatim>\<open>compress_bisect_add\<close> ends without a signed overflow or a read outside of the queue. The move it
  returns covers at least one and at most all of the steps, passes \<^verbatim>\<open>check_line\<close>, and makes each
  step it covers at most \<^verbatim>\<open>max_error\<close> ticks early, never late, and after the step before.\<close>

theorem compress_valid:
  assumes "queue_ok sc" and "uint (sc_max_error sc) \<le> 2 ^ 17" and "0 < pending_steps sc" and "pending_steps sc \<le> 46341"
  shows "\<exists>mv. compress_bisect_add sc = Some mv \<and> 1 \<le> unat (sm_count mv) \<and> unat (sm_count mv) \<le> pending_steps sc \<and>
     check_line sc mv = Some 0 \<and>
     (\<forall>k. 1 \<le> k \<and> k \<le> unat (sm_count mv) \<longrightarrow>
        qpt sc k - uint (sc_max_error sc) \<le> move_step mv k \<and> move_step mv k \<le> qpt sc k \<and>
        qpt sc (k - 1) < move_step mv k)"
proof -
  from compress_result [OF assms] obtain mv where
    mv: "compress_bisect_add sc = Some mv" "1 \<le> unat (sm_count mv)" "unat (sm_count mv) \<le> pending_steps sc"
      "fits (qpt sc) (qmin sc) (uint (sm_interval mv)) (sint (sm_add mv)) (unat (sm_count mv))" by blast
  have "qpt sc k - uint (sc_max_error sc) \<le> move_step mv k \<and> move_step mv k \<le> qpt sc k \<and> qpt sc (k - 1) < move_step mv k"
    if k: "1 \<le> k" "k \<le> unat (sm_count mv)" for k
  proof -
    have "qmin sc k \<le> move_step mv k" "move_step mv k \<le> qpt sc k"
      using mv(4) k by (auto simp: fits_def move_step_def)
    moreover have "qpt sc k - uint (sc_max_error sc) \<le> qmin sc k" by (simp add: qmin_def)
    moreover have "qpt sc (k - 1) < qmin sc k"
      using point_bounds(1) [OF queue_points_ok [OF assms(1)] k(1)] k(2) mv(3) by simp
    ultimately show ?thesis by linarith
  qed
  then show ?thesis using mv check_line_fits [OF assms(1) mv(4,2,3)] by blast
qed

definition example_sc :: stepcompress where
  "example_sc = \<lparr>sc_queue = [1100, 1205, 1300], sc_queue_pos = 0, sc_queue_next = 3, sc_max_error = 25,
     sc_mcu_time_offset = 0, sc_mcu_freq = 1000000, sc_last_step_print_time = 0, sc_last_step_clock = 1000,
     sc_msg_queue = [], sc_oid = 4, sc_queue_step_msgtag = 7, sc_set_next_step_dir_msgtag = 8, sc_sdir = 0,
     sc_invert_sdir = 0, sc_next_step_clock = 0, sc_next_step_dir = 0, sc_last_position = 0, sc_history_list = [],
     sc_sk = None\<rparr>"

lemma example_sc_ok: "queue_ok example_sc" "pending_steps example_sc = 3" "uint (sc_max_error example_sc) = 25"
proof -
  show pend: "pending_steps example_sc = 3" and "uint (sc_max_error example_sc) = 25"
    by (simp_all add: pending_steps_def example_sc_def)
  have q: "qpt example_sc (Suc 0) = 100" "qpt example_sc 2 = 205" "qpt example_sc 3 = 300"
    by (simp_all add: qpt_pos example_sc_def)
  have "qpt example_sc (k - 1) < qpt example_sc k \<and> qpt example_sc k < 3 * 2 ^ 28" if "1 \<le> k \<and> k \<le> 3" for k
  proof -
    from that consider "k = 1" | "k = 2" | "k = 3" by linarith
    then show ?thesis by cases (simp_all add: q)
  qed
  moreover have "sc_queue_pos example_sc \<le> sc_queue_next example_sc" "sc_queue_next example_sc \<le> length (sc_queue example_sc)"
    by (simp_all add: example_sc_def)
  ultimately show "queue_ok example_sc" unfolding queue_ok_def pend by blast
qed

theorem compress_valid_witness:
  "\<exists>mv. compress_bisect_add example_sc = Some mv \<and> check_line example_sc mv = Some 0"
  using compress_valid [of example_sc] example_sc_ok by auto

text \<open>C38 (compress_overflow). More than 46341 queued steps at one constant speed make
  \<^verbatim>\<open>nextcount*(nextcount-1)\<close> exceed a signed 32 bit integer, which is undefined behaviour of C;
  the queue may hold up to 65535 steps.\<close>

theorem compress_overflow:
  assumes "queue_ok sc" and "46341 < pending_steps sc" and "\<And>k. k \<le> pending_steps sc \<Longrightarrow> qpt sc k = int k * d"
  shows "compress_bisect_add sc = None"
  using assms by (rule compress_overflow_aux)

definition fast_sc :: stepcompress where
  "fast_sc = example_sc\<lparr>sc_queue := map (\<lambda>i. of_nat i * 100) [1..<46343], sc_queue_next := 46342, sc_last_step_clock := 0\<rparr>"

lemma fast_sc_points: "k \<le> 46342 \<Longrightarrow> qpt fast_sc k = int k * 100"
proof (cases k)
  case (Suc i)
  assume "k \<le> 46342"
  then have "[1..<46343] ! i = k" "i < length [1..<46343]" using Suc by (simp_all add: nth_upt)
  then have "sc_queue fast_sc ! i = of_nat k * 100" by (simp add: fast_sc_def del: upt_conv_Cons upt_rec_numeral)
  moreover have "uint (of_nat k * 100 :: u32) = int k * 100"
    using \<open>k \<le> 46342\<close> by (simp add: uint_word_ariths unsigned_of_nat take_bit_nat_eq_self)
  ultimately show ?thesis by (simp add: Suc qpt.simps) (simp add: fast_sc_def example_sc_def)
qed simp

lemma fast_sc_ok: "queue_ok fast_sc" "pending_steps fast_sc = 46342"
proof -
  show pend: "pending_steps fast_sc = 46342" by (simp add: pending_steps_def fast_sc_def example_sc_def)
  have "qpt fast_sc (k - 1) < qpt fast_sc k \<and> qpt fast_sc k < 3 * 2 ^ 28" if "1 \<le> k \<and> k \<le> 46342" for k
  proof -
    have "k - 1 \<le> 46342" using that by linarith
    then show ?thesis using that fast_sc_points [of k] fast_sc_points [of "k - 1"] by simp
  qed
  moreover have "length (sc_queue fast_sc) = 46342" by (simp add: fast_sc_def del: upt_conv_Cons upt_rec_numeral)
  moreover have "sc_queue_pos fast_sc = 0" "sc_queue_next fast_sc = 46342" by (simp_all add: fast_sc_def example_sc_def)
  ultimately show "queue_ok fast_sc" unfolding queue_ok_def pend by simp
qed

theorem compress_overflow_witness: "compress_bisect_add fast_sc = None"
  by (rule compress_overflow [OF fast_sc_ok(1), of 100]) (simp_all add: fast_sc_ok(2) fast_sc_points)

end
