(* ===== verification/Stepcompress.thy ===== *)
theory Stepcompress
  imports Compress
begin

text \<open>
  The interface of the step compressor (\<^verbatim>\<open>src/klippy/chelper/stepcompress.c\<close>): queueing of step
  times with the filter of rapid direction changes, flushing them as \<^verbatim>\<open>queue_step\<close> messages, and
  the history of positions. A function returns C's error code with the new object; \<open>None\<close> is
  undefined behaviour of C, as in theory \<open>Compress\<close>. The lemmas show that flushing makes every queued
  step exactly once, in order and within the error allowed.
\<close>

section \<open>Operations\<close>

definition stepcompress_alloc :: "u32 \<Rightarrow> stepcompress" where
  "stepcompress_alloc oid = \<lparr>sc_queue = [], sc_queue_pos = 0, sc_queue_next = 0, sc_max_error = 0,
     sc_mcu_time_offset = 0, sc_mcu_freq = 0, sc_last_step_print_time = 0, sc_last_step_clock = 0, sc_msg_queue = [],
     sc_oid = oid, sc_queue_step_msgtag = 0, sc_set_next_step_dir_msgtag = 0, sc_sdir = -1, sc_invert_sdir = 0,
     sc_next_step_clock = 0, sc_next_step_dir = 0, sc_last_position = 0, sc_history_list = [], sc_sk = None\<rparr>"

definition stepcompress_fill :: "u32 \<Rightarrow> u32 \<Rightarrow> u32 \<Rightarrow> stepcompress \<Rightarrow> stepcompress" where
  "stepcompress_fill max_error queue_step_msgtag set_next_step_dir_msgtag sc =
     sc\<lparr>sc_max_error := max_error, sc_queue_step_msgtag := queue_step_msgtag,
        sc_set_next_step_dir_msgtag := set_next_step_dir_msgtag\<rparr>"

definition stepcompress_set_invert_sdir :: "u32 \<Rightarrow> stepcompress \<Rightarrow> stepcompress" where
  "stepcompress_set_invert_sdir invert_sdir sc =
     (let inv = (if invert_sdir \<noteq> 0 then 1 else 0) in
      if inv \<noteq> sc_invert_sdir sc
      then sc\<lparr>sc_invert_sdir := inv, sc_sdir := (if 0 \<le> sc_sdir sc then xor (sc_sdir sc) 1 else sc_sdir sc)\<rparr>
      else sc)"

text \<open>The history is kept newest first; the loop removes from its end.\<close>

definition stepcompress_history_expire :: "u64 \<Rightarrow> stepcompress \<Rightarrow> stepcompress" where
  "stepcompress_history_expire end_clock sc =
     sc\<lparr>sc_history_list := rev (dropWhile (\<lambda>hs. \<not> end_clock < hs_last_clock hs) (rev (sc_history_list sc)))\<rparr>"

definition stepcompress_get_oid :: "stepcompress \<Rightarrow> u32" where
  "stepcompress_get_oid sc = sc_oid sc"

definition stepcompress_get_step_dir :: "stepcompress \<Rightarrow> int" where
  "stepcompress_get_step_dir sc = sc_next_step_dir sc"

definition stepcompress_get_msg_queue :: "stepcompress \<Rightarrow> queue_message list" where
  "stepcompress_get_msg_queue sc = sc_msg_queue sc"

definition calc_last_step_print_time :: "stepcompress \<Rightarrow> stepcompress" where
  "calc_last_step_print_time sc =
     (let lsc = double_of_int (uint (sc_last_step_clock sc)) in
      sc\<lparr>sc_last_step_print_time := dadd (sc_mcu_time_offset sc) (ddiv (dsub lsc (1 / 2)) (sc_mcu_freq sc))\<rparr>)"

definition stepcompress_set_time :: "double \<Rightarrow> double \<Rightarrow> stepcompress \<Rightarrow> stepcompress" where
  "stepcompress_set_time time_offset mcu_freq sc =
     calc_last_step_print_time (sc\<lparr>sc_mcu_time_offset := time_offset, sc_mcu_freq := mcu_freq\<rparr>)"

definition CLOCK_DIFF_MAX :: u64 where "CLOCK_DIFF_MAX = 3 * 2 ^ 28"

text \<open>The products of \<^verbatim>\<open>add_move\<close>: those with \<^verbatim>\<open>count\<close> and \<^verbatim>\<open>add\<close> alone are signed, the rest unsigned.\<close>

definition add_move_ticks :: "step_move \<Rightarrow> u32 option" where
  "add_move_ticks move = do {
     let count = uint (sm_count move);
     m \<leftarrow> i32 (count * (count - 1));
     let addfactor = cdiv m 2;
     c \<leftarrow> i32 (sint (sm_add move) * addfactor);
     Some (word_of_int c + sm_interval move * word_of_int (count - 1)) }"

definition add_move :: "u64 \<Rightarrow> step_move \<Rightarrow> stepcompress \<Rightarrow> stepcompress option" where
  "add_move first_clock move sc = do {
     ticks \<leftarrow> add_move_ticks move;
     let last_clock = first_clock + ucast ticks;
     qm \<leftarrow> message_alloc_and_encode
       [sc_queue_step_msgtag sc, sc_oid sc, sm_interval move, ucast (sm_count move), scast (sm_add move)];
     let qm = qm\<lparr>qm_min_clock := sc_last_step_clock sc, qm_req_clock := sc_last_step_clock sc\<rparr>;
     let qm = (if sm_count move = 1 \<and> sc_last_step_clock sc + CLOCK_DIFF_MAX \<le> first_clock
               then qm\<lparr>qm_req_clock := first_clock\<rparr> else qm);
     let step_count = (if sc_sdir sc \<noteq> 0 then uint (sm_count move) else - uint (sm_count move));
     let hs = \<lparr>hs_first_clock = first_clock, hs_last_clock = last_clock, hs_start_position = sc_last_position sc,
               hs_step_count = step_count, hs_interval = sint (sm_interval move), hs_add = sint (sm_add move)\<rparr>;
     Some (sc\<lparr>sc_msg_queue := sc_msg_queue sc @ [qm], sc_last_step_clock := last_clock,
              sc_last_position := sc_last_position sc + step_count,
              sc_history_list := hs # sc_history_list sc\<rparr>) }"

partial_function (option) flush_loop :: "u64 \<Rightarrow> stepcompress \<Rightarrow> (int \<times> stepcompress) option" where
  "flush_loop move_clock sc =
     (if sc_last_step_clock sc < move_clock then do {
        move \<leftarrow> compress_bisect_add sc;
        ret \<leftarrow> check_line sc move;
        if ret \<noteq> 0 then Some (ret, sc)
        else do {
          sc \<leftarrow> add_move (sc_last_step_clock sc + ucast (sm_interval move)) move sc;
          if sc_queue_next sc \<le> sc_queue_pos sc + unat (sm_count move)
          then Some (0, sc\<lparr>sc_queue_pos := 0, sc_queue_next := 0\<rparr>)
          else flush_loop move_clock (sc\<lparr>sc_queue_pos := sc_queue_pos sc + unat (sm_count move)\<rparr>) } }
      else Some (0, sc))"

definition queue_flush :: "u64 \<Rightarrow> stepcompress \<Rightarrow> (int \<times> stepcompress) option" where
  "queue_flush move_clock sc =
     (if sc_queue_next sc \<le> sc_queue_pos sc then Some (0, sc)
      else do {
        (ret, sc) \<leftarrow> flush_loop move_clock sc;
        Some (if ret \<noteq> 0 then (ret, sc) else (0, calc_last_step_print_time sc)) })"

definition stepcompress_flush_far :: "u64 \<Rightarrow> stepcompress \<Rightarrow> (int \<times> stepcompress) option" where
  "stepcompress_flush_far abs_step_clock sc = do {
     sc \<leftarrow> add_move abs_step_clock
       \<lparr>sm_interval = ucast (abs_step_clock - sc_last_step_clock sc), sm_count = 1, sm_add = 0\<rparr> sc;
     Some (0, calc_last_step_print_time sc) }"

definition UINT64_MAX :: u64 where "UINT64_MAX = -1"

text \<open>Appending a message that takes no space in the microcontroller's move queue.\<close>

definition push_msg :: "u32 list \<Rightarrow> stepcompress \<Rightarrow> stepcompress option" where
  "push_msg data sc = do {
     qm \<leftarrow> message_alloc_and_encode data;
     Some (sc\<lparr>sc_msg_queue := sc_msg_queue sc @ [qm\<lparr>qm_req_clock := sc_last_step_clock sc\<rparr>]\<rparr>) }"

definition set_next_step_dir :: "int \<Rightarrow> stepcompress \<Rightarrow> (int \<times> stepcompress) option" where
  "set_next_step_dir sdir sc =
     (if sc_sdir sc = sdir then Some (0, sc)
      else do {
        (ret, sc) \<leftarrow> queue_flush UINT64_MAX sc;
        if ret \<noteq> 0 then Some (ret, sc)
        else do {
          let sc = sc\<lparr>sc_sdir := sdir\<rparr>;
          sc \<leftarrow> push_msg [sc_set_next_step_dir_msgtag sc, sc_oid sc, word_of_int (xor sdir (sc_invert_sdir sc))] sc;
          Some (0, sc) } })"

text \<open>\<^verbatim>\<open>*sc->queue_next++ = clock\<close>.\<close>

definition queue_push :: "u64 \<Rightarrow> stepcompress \<Rightarrow> stepcompress option" where
  "queue_push clock sc =
     (if sc_queue_next sc < length (sc_queue sc)
      then Some (sc\<lparr>sc_queue := (sc_queue sc)[sc_queue_next sc := ucast clock], sc_queue_next := sc_queue_next sc + 1\<rparr>)
      else None)"

definition queue_append_far :: "stepcompress \<Rightarrow> (int \<times> stepcompress) option" where
  "queue_append_far sc = do {
     let step_clock = sc_next_step_clock sc;
     let sc = sc\<lparr>sc_next_step_clock := 0\<rparr>;
     (ret, sc) \<leftarrow> queue_flush (step_clock - CLOCK_DIFF_MAX + 1) sc;
     if ret \<noteq> 0 then Some (ret, sc)
     else if sc_last_step_clock sc + CLOCK_DIFF_MAX \<le> step_clock then stepcompress_flush_far step_clock sc
     else do { sc \<leftarrow> queue_push step_clock sc; Some (0, sc) } }"

definition QUEUE_START_SIZE :: nat where "QUEUE_START_SIZE = 1024"

text \<open>\<^verbatim>\<open>while (in_use >= alloc) alloc *= 2\<close>, for a positive \<^verbatim>\<open>alloc\<close>.\<close>

function grow :: "nat \<Rightarrow> nat \<Rightarrow> nat" where
  "grow in_use alloc = (if 0 < alloc \<and> alloc \<le> in_use then grow in_use (2 * alloc) else alloc)"
  by pat_completeness auto
termination
  by (relation "measure (\<lambda>(u, a). Suc u - a)") auto

declare grow.simps [simp del]

text \<open>Making room in the queue; \<^verbatim>\<open>realloc\<close> keeps the old contents, and what the new storage holds is
  arbitrary (zero here, it is never read).\<close>

definition queue_make_room :: "stepcompress \<Rightarrow> stepcompress" where
  "queue_make_room sc =
     (if length (sc_queue sc) \<le> sc_queue_next sc then
        let in_use = sc_queue_next sc - sc_queue_pos sc;
            q = (if 0 < sc_queue_pos sc
                 then take in_use (drop (sc_queue_pos sc) (sc_queue sc)) @ drop in_use (sc_queue sc)
                 else let alloc = length (sc_queue sc);
                          alloc = (if alloc = 0 then QUEUE_START_SIZE else alloc);
                          alloc = grow in_use alloc
                      in take alloc (sc_queue sc @ replicate alloc 0))
        in sc\<lparr>sc_queue := q, sc_queue_pos := 0, sc_queue_next := in_use\<rparr>
      else sc)"

definition queue_append_extend :: "stepcompress \<Rightarrow> (int \<times> stepcompress) option" where
  "queue_append_extend sc = do {
     (ret, sc) \<leftarrow> (if 65535 + 2000 < sc_queue_next sc - sc_queue_pos sc then do {
          q \<leftarrow> rd (sc_queue sc) (sc_queue_next sc - 65535);
          let flush = q - ucast (sc_last_step_clock sc);
          queue_flush (sc_last_step_clock sc + ucast flush) sc }
        else Some (0, sc));
     if ret \<noteq> 0 then Some (ret, sc)
     else do {
       let sc = queue_make_room sc;
       sc \<leftarrow> queue_push (sc_next_step_clock sc) sc;
       Some (0, sc\<lparr>sc_next_step_clock := 0\<rparr>) } }"

definition queue_append :: "stepcompress \<Rightarrow> (int \<times> stepcompress) option" where
  "queue_append sc = do {
     (ret, sc) \<leftarrow> (if sc_next_step_dir sc \<noteq> sc_sdir sc then set_next_step_dir (sc_next_step_dir sc) sc else Some (0, sc));
     if ret \<noteq> 0 then Some (ret, sc)
     else if sc_last_step_clock sc + CLOCK_DIFF_MAX \<le> sc_next_step_clock sc then queue_append_far sc
     else if length (sc_queue sc) \<le> sc_queue_next sc then queue_append_extend sc
     else do {
       sc \<leftarrow> queue_push (sc_next_step_clock sc) sc;
       Some (0, sc\<lparr>sc_next_step_clock := 0\<rparr>) } }"

text \<open>The constant \<open>.000750\<close> as a double. The conversion of a double outside of the range of
  \<^verbatim>\<open>uint64_t\<close> is undefined.\<close>

definition SDS_FILTER_TIME :: double where "SDS_FILTER_TIME = rnd (75 / 100000)"

definition step_clock_of :: "double \<Rightarrow> double \<Rightarrow> stepcompress \<Rightarrow> u64 option" where
  "step_clock_of print_time step_time sc =
     (let offset = dsub print_time (sc_last_step_print_time sc);
          rel_sc = trunc (dmul (dadd step_time offset) (sc_mcu_freq sc))
      in if 0 \<le> rel_sc \<and> rel_sc < 2 ^ 64 then Some (sc_last_step_clock sc + word_of_int rel_sc) else None)"

definition stepcompress_append :: "int \<Rightarrow> double \<Rightarrow> double \<Rightarrow> stepcompress \<Rightarrow> (int \<times> stepcompress) option" where
  "stepcompress_append sdir print_time step_time sc = do {
     step_clock \<leftarrow> step_clock_of print_time step_time sc;
     if sc_next_step_clock sc \<noteq> 0 \<and> sdir \<noteq> sc_next_step_dir sc \<and>
        double_of_int (sint (step_clock - sc_next_step_clock sc)) < dmul SDS_FILTER_TIME (sc_mcu_freq sc)
     then Some (0, sc\<lparr>sc_next_step_clock := 0, sc_next_step_dir := sdir\<rparr>)
     else do {
       (ret, sc) \<leftarrow> (if sc_next_step_clock sc \<noteq> 0 then queue_append sc else Some (0, sc));
       Some (if ret \<noteq> 0 then (ret, sc)
             else (0, sc\<lparr>sc_next_step_clock := step_clock, sc_next_step_dir := sdir\<rparr>)) } }"

definition stepcompress_commit :: "stepcompress \<Rightarrow> (int \<times> stepcompress) option" where
  "stepcompress_commit sc = (if sc_next_step_clock sc \<noteq> 0 then queue_append sc else Some (0, sc))"

definition stepcompress_flush :: "u64 \<Rightarrow> stepcompress \<Rightarrow> (int \<times> stepcompress) option" where
  "stepcompress_flush move_clock sc = do {
     (ret, sc) \<leftarrow> (if sc_next_step_clock sc \<noteq> 0 \<and> sc_next_step_clock sc \<le> move_clock then queue_append sc else Some (0, sc));
     if ret \<noteq> 0 then Some (ret, sc) else queue_flush move_clock sc }"

definition stepcompress_reset :: "u64 \<Rightarrow> stepcompress \<Rightarrow> (int \<times> stepcompress) option" where
  "stepcompress_reset last_step_clock sc = do {
     (ret, sc) \<leftarrow> stepcompress_flush UINT64_MAX sc;
     Some (if ret \<noteq> 0 then (ret, sc)
           else (0, calc_last_step_print_time (sc\<lparr>sc_last_step_clock := last_step_clock, sc_sdir := -1\<rparr>))) }"

definition stepcompress_set_last_position :: "u64 \<Rightarrow> int \<Rightarrow> stepcompress \<Rightarrow> (int \<times> stepcompress) option" where
  "stepcompress_set_last_position clock last_position sc = do {
     (ret, sc) \<leftarrow> stepcompress_flush UINT64_MAX sc;
     Some (if ret \<noteq> 0 then (ret, sc)
           else (0, sc\<lparr>sc_last_position := last_position,
                   sc_history_list := \<lparr>hs_first_clock = clock, hs_last_clock = clock, hs_start_position = last_position,
                     hs_step_count = 0, hs_interval = 0, hs_add = 0\<rparr> # sc_history_list sc\<rparr>)) }"

text \<open>The number of steps of a move made by a clock inside it; a division by zero and the square
  root of a negative number are \<open>None\<close>.\<close>

definition steps_made :: "history_steps \<Rightarrow> u64 \<Rightarrow> int option" where
  "steps_made hs clock = do {
     ticks \<leftarrow> i32 (sint (ucast (clock - hs_first_clock hs) :: u32) + hs_interval hs);
     if hs_add hs = 0 then
       if hs_interval hs = 0 then None else Some (cdiv ticks (hs_interval hs))
     else do {
       let a = dmul (1 / 2) (of_int (hs_add hs));
       let b = dsub (of_int (hs_interval hs)) (dmul (1 / 2) (of_int (hs_add hs)));
       let c = of_int (- ticks);
       r \<leftarrow> dsqrt (dsub (dmul b b) (dmul (dmul 4 a) c));
       Some (trunc (ddiv (dsub r b) (dmul 2 a))) } }"

fun past_position :: "history_steps list \<Rightarrow> u64 \<Rightarrow> int \<Rightarrow> int option" where
  "past_position [] clock last_position = Some last_position"
| "past_position (hs # rest) clock last_position =
     (if clock < hs_first_clock hs then past_position rest clock (hs_start_position hs)
      else if hs_last_clock hs \<le> clock then Some (hs_start_position hs + hs_step_count hs)
      else do {
        offset \<leftarrow> steps_made hs clock;
        Some (if hs_step_count hs < 0 then hs_start_position hs - offset else hs_start_position hs + offset) })"

definition stepcompress_find_past_position :: "u64 \<Rightarrow> stepcompress \<Rightarrow> int option" where
  "stepcompress_find_past_position clock sc = past_position (sc_history_list sc) clock (sc_last_position sc)"

definition stepcompress_queue_msg :: "u32 list \<Rightarrow> stepcompress \<Rightarrow> (int \<times> stepcompress) option" where
  "stepcompress_queue_msg data sc = do {
     (ret, sc) \<leftarrow> stepcompress_flush UINT64_MAX sc;
     if ret \<noteq> 0 then Some (ret, sc) else do { sc \<leftarrow> push_msg data sc; Some (0, sc) } }"

definition stepcompress_queue_mq_msg :: "u64 \<Rightarrow> u32 list \<Rightarrow> stepcompress \<Rightarrow> (int \<times> stepcompress) option" where
  "stepcompress_queue_mq_msg req_clock data sc = do {
     (ret, sc) \<leftarrow> stepcompress_flush UINT64_MAX sc;
     if ret \<noteq> 0 then Some (ret, sc)
     else do {
       qm \<leftarrow> message_alloc_and_encode data;
       Some (0, sc\<lparr>sc_msg_queue := sc_msg_queue sc @ [qm\<lparr>qm_min_clock := req_clock, qm_req_clock := req_clock\<rparr>]\<rparr>) } }"

fun extract_loop :: "history_steps list \<Rightarrow> nat \<Rightarrow> u64 \<Rightarrow> u64 \<Rightarrow> history_steps list" where
  "extract_loop [] room start_clock end_clock = []"
| "extract_loop (hs # rest) room start_clock end_clock =
     (if hs_last_clock hs \<le> start_clock \<or> room = 0 then []
      else if end_clock \<le> hs_first_clock hs then extract_loop rest room start_clock end_clock
      else hs # extract_loop rest (room - 1) start_clock end_clock)"

definition stepcompress_extract_old :: "nat \<Rightarrow> u64 \<Rightarrow> u64 \<Rightarrow> stepcompress \<Rightarrow> history_steps list" where
  "stepcompress_extract_old max_num start_clock end_clock sc = extract_loop (sc_history_list sc) max_num start_clock end_clock"

definition stepcompress_set_stepper_kinematics :: "nat option \<Rightarrow> stepcompress \<Rightarrow> stepcompress" where
  "stepcompress_set_stepper_kinematics sk sc = sc\<lparr>sc_sk := sk\<rparr>"

section \<open>What flushing does\<close>

text \<open>The times of the steps of a sequence of moves.\<close>

fun steps_of :: "int \<Rightarrow> step_move list \<Rightarrow> int list" where
  "steps_of t [] = []"
| "steps_of t (mv # mvs) =
     map (\<lambda>k. t + move_step mv k) [1..<Suc (unat (sm_count mv))] @ steps_of (t + move_step mv (unat (sm_count mv))) mvs"

definition step_msg :: "stepcompress \<Rightarrow> step_move \<Rightarrow> queue_message \<Rightarrow> bool" where
  "step_msg sc mv qm \<longleftrightarrow> take (qm_len qm) (qm_msg qm) = concat (map encode_int
     [sc_queue_step_msgtag sc, sc_oid sc, sm_interval mv, ucast (sm_count mv), scast (sm_add mv)])"

definition same_frame :: "stepcompress \<Rightarrow> stepcompress \<Rightarrow> bool" where
  "same_frame sc sc' \<longleftrightarrow>
     sc'\<lparr>sc_queue_pos := 0, sc_queue_next := 0, sc_last_step_clock := 0, sc_msg_queue := [], sc_last_position := 0,
         sc_history_list := [], sc_last_step_print_time := 0\<rparr> =
     sc\<lparr>sc_queue_pos := 0, sc_queue_next := 0, sc_last_step_clock := 0, sc_msg_queue := [], sc_last_position := 0,
        sc_history_list := [], sc_last_step_print_time := 0\<rparr>"

definition flushed :: "stepcompress \<Rightarrow> step_move list \<Rightarrow> stepcompress \<Rightarrow> bool" where
  "flushed sc mvs sc' \<longleftrightarrow>
     (let ts = steps_of 0 mvs; n = length ts; e = last (0 # ts) in
      n \<le> pending_steps sc \<and> pending_steps sc' = pending_steps sc - n \<and>
      (\<forall>j<n. qpt sc (Suc j) - uint (sc_max_error sc) \<le> ts ! j \<and> ts ! j \<le> qpt sc (Suc j)) \<and>
      sorted_wrt (<) (0 # ts) \<and>
      (\<forall>k. 1 \<le> k \<and> k \<le> pending_steps sc' \<longrightarrow> qpt sc' k = qpt sc (n + k) - e) \<and> queue_ok sc' \<and>
      sc_last_step_clock sc' = sc_last_step_clock sc + word_of_int e \<and>
      sc_last_position sc' = sc_last_position sc + (if sc_sdir sc \<noteq> 0 then int n else - int n) \<and>
      (\<exists>qms. sc_msg_queue sc' = sc_msg_queue sc @ qms \<and> list_all2 (step_msg sc) mvs qms) \<and>
      (\<forall>mv\<in>set mvs. sm_count mv \<noteq> 0) \<and> same_frame sc sc')"

lemma steps_of_shift: "steps_of t mvs = map ((+) t) (steps_of 0 mvs)"
proof (induction mvs arbitrary: t)
  case (Cons mv mvs)
  show ?case
    using Cons [of "t + move_step mv (unat (sm_count mv))"] Cons [of "move_step mv (unat (sm_count mv))"]
    by (simp add: add.assoc)
qed simp

lemma same_frame_fields:
  assumes "same_frame sc sc'"
  shows "sc_max_error sc' = sc_max_error sc" "sc_sdir sc' = sc_sdir sc" "sc_queue_step_msgtag sc' = sc_queue_step_msgtag sc"
    "sc_oid sc' = sc_oid sc" "sc_queue sc' = sc_queue sc" "sc_next_step_clock sc' = sc_next_step_clock sc"
    "sc_next_step_dir sc' = sc_next_step_dir sc" "sc_invert_sdir sc' = sc_invert_sdir sc"
    "sc_set_next_step_dir_msgtag sc' = sc_set_next_step_dir_msgtag sc"
  using assms unfolding same_frame_def by (cases sc; cases sc'; simp)+

lemma same_frame_trans: "same_frame a b \<Longrightarrow> same_frame b c \<Longrightarrow> same_frame a c"
  by (simp add: same_frame_def)

lemma last_shift: "last (0 # xs @ map ((+) (last (0 # xs))) ys) = last (0 # xs) + last (0 # (ys :: int list))"
  by (cases ys rule: rev_cases) auto

lemma sorted_shift:
  assumes "sorted_wrt (<) (0 # xs)" and "sorted_wrt (<) (0 # ys)"
  shows "sorted_wrt (<) (0 # xs @ map ((+) (last (0 # xs))) (ys :: int list))"
proof -
  have le: "x \<le> last (0 # xs)" if "x \<in> set (0 # xs)" for x
    using that assms(1) by (induction xs rule: rev_induct) (auto simp: sorted_wrt_append less_imp_le)
  have pos: "0 < y" if "y \<in> set ys" for y using that assms(2) by auto
  have "sorted_wrt (<) (map ((+) (last (0 # xs))) ys)" using assms(2) by (simp add: sorted_wrt_map)
  moreover have "x < last (0 # xs) + y" if "x \<in> set (0 # xs)" "y \<in> set ys" for x y
    using le [OF that(1)] pos [OF that(2)] by simp
  ultimately have "sorted_wrt (<) ((0 # xs) @ map ((+) (last (0 # xs))) ys)"
    using assms(1) by (auto simp only: sorted_wrt_append set_map)
  then show ?thesis by simp
qed

lemma move_step_0 [simp]: "move_step mv 0 = 0"
  by (simp add: move_step_def)

lemma flushed_Cons:
  assumes "flushed sc [mv] sc1" and "flushed sc1 mvs sc2"
  shows "flushed sc (mv # mvs) sc2"
proof -
  define c where "c = unat (sm_count mv)"
  define xs where "xs = map (move_step mv) [1..<Suc c]"
  define ys where "ys = steps_of 0 mvs"
  define e where "e = last (0 # xs)"
  have ec: "e = move_step mv c" by (cases c) (simp_all add: e_def xs_def)
  have one: "steps_of 0 [mv] = xs" by (simp add: xs_def c_def)
  have all: "steps_of 0 (mv # mvs) = xs @ map ((+) e) ys"
    using steps_of_shift [of e mvs] ec by (simp add: xs_def ys_def c_def)
  note 1 = assms(1) [unfolded flushed_def Let_def one, folded e_def]
  note 2 = assms(2) [unfolded flushed_def Let_def, folded ys_def]
  have frame: "same_frame sc sc1" "same_frame sc1 sc2" using 1 2 by simp_all
  note f = same_frame_fields [OF frame(1)]
  have n: "length xs \<le> pending_steps sc" "pending_steps sc1 = pending_steps sc - length xs"
    "length ys \<le> pending_steps sc1" "pending_steps sc2 = pending_steps sc1 - length ys" using 1 2 by simp_all
  have q1: "qpt sc1 k = qpt sc (length xs + k) - e" if "1 \<le> k" "k \<le> pending_steps sc1" for k using 1 that by simp
  have q2: "qpt sc2 k = qpt sc1 (length ys + k) - last (0 # ys)" if "1 \<le> k" "k \<le> pending_steps sc2" for k using 2 that by simp
  have pts: "qpt sc (Suc j) - uint (sc_max_error sc) \<le> (xs @ map ((+) e) ys) ! j \<and> (xs @ map ((+) e) ys) ! j \<le> qpt sc (Suc j)"
    if "j < length xs + length ys" for j
  proof (cases "j < length xs")
    case True
    then show ?thesis using 1 by (simp add: nth_append)
  next
    case False
    define i where "i = j - length xs"
    have i: "j = length xs + i" "i < length ys" using False that by (auto simp: i_def)
    have "qpt sc1 (Suc i) - uint (sc_max_error sc) \<le> ys ! i \<and> ys ! i \<le> qpt sc1 (Suc i)"
      using 2 i(2) f(1) by simp
    moreover have "qpt sc1 (Suc i) = qpt sc (Suc j) - e" using q1 [of "Suc i"] i n by simp
    ultimately show ?thesis using i by (simp add: nth_append)
  qed
  have rest: "qpt sc2 k = qpt sc (length xs + length ys + k) - (e + last (0 # ys))" if "1 \<le> k" "k \<le> pending_steps sc2" for k
    using q2 [OF that] q1 [of "length ys + k"] that n by (simp add: add.assoc)
  have msgs: "\<exists>qms. sc_msg_queue sc2 = sc_msg_queue sc @ qms \<and> list_all2 (step_msg sc) (mv # mvs) qms"
  proof -
    from 1 obtain qms1 where 3: "sc_msg_queue sc1 = sc_msg_queue sc @ qms1" "list_all2 (step_msg sc) [mv] qms1" by blast
    from 2 obtain qms2 where 4: "sc_msg_queue sc2 = sc_msg_queue sc1 @ qms2" "list_all2 (step_msg sc1) mvs qms2" by blast
    have "step_msg sc1 = step_msg sc" using f by (simp add: fun_eq_iff step_msg_def)
    then have "list_all2 (step_msg sc) ([mv] @ mvs) (qms1 @ qms2)" using 3 4 by (intro list_all2_appendI) simp_all
    then show ?thesis using 3 4 by (intro exI [of _ "qms1 @ qms2"]) simp
  qed
  have sorted: "sorted_wrt (<) (0 # xs @ map ((+) e) ys)" using sorted_shift [of xs ys] 1 2 by (simp add: e_def)
  have last: "last (0 # xs @ map ((+) e) ys) = e + last (0 # ys)" using last_shift [of xs ys] by (simp add: e_def)
  have clock: "sc_last_step_clock sc2 = sc_last_step_clock sc + word_of_int (e + last (0 # ys))"
    using 1 2 by (simp add: add.assoc)
  have posn: "sc_last_position sc2 = sc_last_position sc + (if sc_sdir sc \<noteq> 0 then int (length xs + length ys) else - int (length xs + length ys))"
    using 1 2 f(2) by simp
  have nn: "length xs + length ys \<le> pending_steps sc" "pending_steps sc2 = pending_steps sc - (length xs + length ys)"
    "queue_ok sc2" using n 2 by auto
  have counts: "\<forall>m\<in>set (mv # mvs). sm_count m \<noteq> 0" using 1 2 by simp
  show ?thesis
    unfolding flushed_def Let_def all last length_append length_map
    using counts nn pts rest msgs sorted clock posn same_frame_trans [OF frame] by blast
qed

text \<open>One move.\<close>

lemma ucast_u64_add: "(ucast (x + word_of_int S :: u64) :: u32) = ucast x + word_of_int S"
  by (rule word_uint_eq_iff [THEN iffD2])
    (simp add: unsigned_ucast_eq take_bit_eq_mod uint_word_ariths unsigned_of_int mod_mod_cancel mod_simps)

lemma uint_sub_of_int: "0 \<le> S \<Longrightarrow> S \<le> uint (x :: u32) \<Longrightarrow> uint (x - word_of_int S) = uint x - S"
proof -
  assume S: "0 \<le> S" "S \<le> uint x"
  then have "S < 2 ^ 32" using uint_lt2p [of x] by simp
  then have "uint (word_of_int S :: u32) = S" using S by (simp add: unsigned_of_int take_bit_int_eq_self)
  then show ?thesis using S by (simp add: uint_sub_if_size)
qed

lemma sint_u16_bound: "\<bar>sint (x :: u16)\<bar> \<le> 2 ^ 15"
  using sint_greater_eq [of x] sint_less [of x] by (simp add: abs_le_iff)

lemma add_move_ticks_eq:
  assumes "queue_ok sc" and "pending_steps sc \<le> 46341"
    and "fits (qpt sc) (qmin sc) (uint (sm_interval mv)) (sint (sm_add mv)) (unat (sm_count mv))"
    and "1 \<le> unat (sm_count mv)" and "unat (sm_count mv) \<le> pending_steps sc"
  defines "S \<equiv> move_step mv (unat (sm_count mv))"
  shows "add_move_ticks mv = Some (word_of_int (S - uint (sm_interval mv)))"
    and "uint (sm_interval mv) \<le> S" and "0 < S" and "S < 3 * 2 ^ 28"
proof -
  define c where "c = unat (sm_count mv)"
  define iv where "iv = uint (sm_interval mv)"
  define ad where "ad = sint (sm_add mv)"
  note ok = queue_points_ok [OF assms(1)]
  note fb = fit_bounds [OF ok assms(3,4,5) sint_u16_bound, folded c_def iv_def ad_def]
  have S: "S = step_at iv ad c" by (simp add: S_def move_step_def c_def iv_def ad_def)
  show "0 < S" "S < 3 * 2 ^ 28" using fb(4,5) by (simp_all add: S)
  have cnt: "uint (sm_count mv) = int c" by (simp add: c_def)
  have "c \<le> 46341" "1 \<le> c" using assms(2,4,5) by (simp_all add: c_def)
  then have "int c * (int c - 1) \<le> 46341 * 46340" by (intro mult_mono) simp_all
  moreover have "- (2 ^ 30) \<le> tri c" by (rule order_trans [of _ 0]) simp_all
  ultimately have m: "i32 (int c * (int c - 1)) = Some (2 * tri c)" "cdiv (2 * tri c) 2 = tri c"
    by (simp_all add: i32_def cdiv_def tri_double [symmetric])
  have "\<bar>ad * tri c\<bar> < 3 * 2 ^ 28" using fb(2) by (simp add: abs_mult)
  then have "i32 (ad * tri c) = Some (ad * tri c)" by (auto simp: i32_def abs_less_iff)
  moreover have "sm_interval mv = word_of_int iv" by (simp add: iv_def)
  ultimately show "add_move_ticks mv = Some (word_of_int (S - uint (sm_interval mv)))"
    unfolding add_move_ticks_def cnt ad_def [symmetric] iv_def [symmetric] S
    by (simp add: Let_def m step_at_def) (simp add: algebra_simps)
  show "uint (sm_interval mv) \<le> S"
  proof -
    have "iv \<le> step_at iv ad k" if "1 \<le> k" "k \<le> c" for k using that
    proof (induction k)
      case (Suc k)
      show ?case
      proof (cases "k = 0")
        case False
        have "0 < iv + int k * ad"
          using fits_increasing [OF ok assms(3,5), of k] Suc.prems by (simp add: c_def iv_def ad_def)
        then show ?thesis using Suc False by (simp add: step_at_Suc)
      qed (simp add: step_at_def)
    qed simp
    then show ?thesis using assms(4) by (simp add: S c_def iv_def)
  qed
qed

lemma add_move_eq:
  assumes "queue_ok sc" and "pending_steps sc \<le> 46341"
    and "fits (qpt sc) (qmin sc) (uint (sm_interval mv)) (sint (sm_add mv)) (unat (sm_count mv))"
    and "1 \<le> unat (sm_count mv)" and "unat (sm_count mv) \<le> pending_steps sc"
  shows "\<exists>qm hs. step_msg sc mv qm \<and> add_move (sc_last_step_clock sc + ucast (sm_interval mv)) mv sc =
     Some (sc\<lparr>sc_msg_queue := sc_msg_queue sc @ [qm],
              sc_last_step_clock := sc_last_step_clock sc + word_of_int (move_step mv (unat (sm_count mv))),
              sc_last_position := sc_last_position sc + (if sc_sdir sc \<noteq> 0 then int (unat (sm_count mv)) else - int (unat (sm_count mv))),
              sc_history_list := hs # sc_history_list sc\<rparr>)"
proof -
  define S where "S = move_step mv (unat (sm_count mv))"
  note tk = add_move_ticks_eq [OF assms, folded S_def]
  define d where "d = S - uint (sm_interval mv)"
  have d: "0 \<le> d" "d < 2 ^ 32" 
  proof -
    show "0 \<le> d" using tk(2) by (simp add: d_def)
    have "d < 3 * 2 ^ 28" using tk(4) uint_ge_0 [of "sm_interval mv"] unfolding d_def by linarith
    then show "d < 2 ^ 32" by simp
  qed
  have u: "(ucast (word_of_int d :: u32) :: u64) = word_of_int d"
    using d by (simp add: word_uint_eq_iff unsigned_ucast_eq unsigned_of_int take_bit_int_eq_self)
  have i: "(ucast (sm_interval mv) :: u64) = word_of_int (uint (sm_interval mv))"
    by (simp add: word_uint_eq_iff unsigned_ucast_eq unsigned_of_int)
  have "word_of_int (uint (sm_interval mv)) + word_of_int d = (word_of_int S :: u64)"
    unfolding wi_hom_add d_def by simp
  then have clock: "sc_last_step_clock sc + ucast (sm_interval mv) + ucast (word_of_int d :: u32) = sc_last_step_clock sc + word_of_int S"
    by (simp only: u i add.assoc)
  obtain qm where qm: "message_alloc_and_encode [sc_queue_step_msgtag sc, sc_oid sc, sm_interval mv, ucast (sm_count mv), scast (sm_add mv)] = Some qm"
    "take (qm_len qm) (qm_msg qm) = concat (map encode_int [sc_queue_step_msgtag sc, sc_oid sc, sm_interval mv, ucast (sm_count mv), scast (sm_add mv)])"
    using encode_few [of "[sc_queue_step_msgtag sc, sc_oid sc, sm_interval mv, ucast (sm_count mv), scast (sm_add mv)]"] by auto
  define fc where "fc = sc_last_step_clock sc + ucast (sm_interval mv)"
  define qm1 where "qm1 = qm\<lparr>qm_min_clock := sc_last_step_clock sc, qm_req_clock :=
     (if sm_count mv = 1 \<and> sc_last_step_clock sc + CLOCK_DIFF_MAX \<le> fc then fc else sc_last_step_clock sc)\<rparr>"
  define hs where "hs = \<lparr>hs_first_clock = fc, hs_last_clock = sc_last_step_clock sc + word_of_int S,
     hs_start_position = sc_last_position sc,
     hs_step_count = (if sc_sdir sc \<noteq> 0 then int (unat (sm_count mv)) else - int (unat (sm_count mv))),
     hs_interval = sint (sm_interval mv), hs_add = sint (sm_add mv)\<rparr>"
  have "step_msg sc mv qm1" using qm(2) by (simp add: step_msg_def qm1_def)
  moreover have "add_move fc mv sc = Some (sc\<lparr>sc_msg_queue := sc_msg_queue sc @ [qm1],
      sc_last_step_clock := sc_last_step_clock sc + word_of_int S,
      sc_last_position := sc_last_position sc + (if sc_sdir sc \<noteq> 0 then int (unat (sm_count mv)) else - int (unat (sm_count mv))),
      sc_history_list := hs # sc_history_list sc\<rparr>)"
    using qm(1) clock [folded fc_def]
    by (simp add: add_move_def tk(1) d_def [symmetric] Let_def qm1_def hs_def)
  ultimately show ?thesis unfolding fc_def S_def by blast
qed

text \<open>The state after a move of which the steps are taken off the queue.\<close>

definition take_off :: "nat \<Rightarrow> stepcompress \<Rightarrow> stepcompress" where
  "take_off c sc = (if sc_queue_next sc \<le> sc_queue_pos sc + c then sc\<lparr>sc_queue_pos := 0, sc_queue_next := 0\<rparr>
     else sc\<lparr>sc_queue_pos := sc_queue_pos sc + c\<rparr>)"

lemma move_flushed:
  assumes "queue_ok sc" and "pending_steps sc \<le> 46341"
    and fit: "fits (qpt sc) (qmin sc) (uint (sm_interval mv)) (sint (sm_add mv)) (unat (sm_count mv))"
    and c: "1 \<le> unat (sm_count mv)" "unat (sm_count mv) \<le> pending_steps sc"
  shows "\<exists>sc1. add_move (sc_last_step_clock sc + ucast (sm_interval mv)) mv sc = Some sc1 \<and>
     sc_queue_pos sc1 = sc_queue_pos sc \<and> sc_queue_next sc1 = sc_queue_next sc \<and>
     flushed sc [mv] (take_off (unat (sm_count mv)) sc1)"
proof -
  define c where "c = unat (sm_count mv)"
  define S where "S = move_step mv c"
  note S = add_move_ticks_eq(3) [OF assms, folded c_def, folded S_def]
  from add_move_eq [OF assms] obtain qm hs where msg: "step_msg sc mv qm" and
    add: "add_move (sc_last_step_clock sc + ucast (sm_interval mv)) mv sc =
     Some (sc\<lparr>sc_msg_queue := sc_msg_queue sc @ [qm], sc_last_step_clock := sc_last_step_clock sc + word_of_int S,
              sc_last_position := sc_last_position sc + (if sc_sdir sc \<noteq> 0 then int c else - int c),
              sc_history_list := hs # sc_history_list sc\<rparr>)"
    unfolding S_def c_def by blast
  define sc1 where "sc1 = sc\<lparr>sc_msg_queue := sc_msg_queue sc @ [qm], sc_last_step_clock := sc_last_step_clock sc + word_of_int S,
              sc_last_position := sc_last_position sc + (if sc_sdir sc \<noteq> 0 then int c else - int c),
              sc_history_list := hs # sc_history_list sc\<rparr>"
  define sc2 where "sc2 = take_off c sc1"
  have pend: "pending_steps sc2 = pending_steps sc - c"
    by (auto simp: sc2_def sc1_def take_off_def pending_steps_def)
  have len: "sc_queue_pos sc \<le> sc_queue_next sc" "sc_queue_next sc \<le> length (sc_queue sc)"
    using assms(1) by (auto simp: queue_ok_def)
  have mono: "qpt sc (k - 1) < qpt sc k" "qpt sc k < 3 * 2 ^ 28" if "1 \<le> k" "k \<le> pending_steps sc" for k
    using assms(1) that by (auto simp: queue_ok_def)
  have fits: "qmin sc k \<le> move_step mv k" "move_step mv k \<le> qpt sc k" if "1 \<le> k" "k \<le> c" for k
    using fit that by (auto simp: fits_def move_step_def c_def)
  have Sc: "S \<le> qpt sc c" using fits(2) [of c] assms(4) by (simp add: S_def c_def)
  have rest: "qpt sc2 k = qpt sc (c + k) - S" if k: "1 \<le> k" "k \<le> pending_steps sc2" for k
  proof -
    obtain i where i: "k = Suc i" using k(1) by (cases k) auto
    have ck: "c + k \<le> pending_steps sc" using k pend by simp
    then have "\<not> sc_queue_next sc \<le> sc_queue_pos sc + c" using i by (simp add: pending_steps_def)
    then have q: "qpt sc2 k = uint (sc_queue sc ! (sc_queue_pos sc + (c + i)) - (ucast (sc_last_step_clock sc) + word_of_int S))"
      by (simp add: i qpt.simps sc2_def sc1_def take_off_def ucast_u64_add add.assoc)
    have p: "qpt sc (c + k) = uint (sc_queue sc ! (sc_queue_pos sc + (c + i)) - ucast (sc_last_step_clock sc))"
      by (simp add: i qpt.simps)
    have "qpt sc c \<le> qpt sc (c + k)" using qpt_mono [OF assms(1) _ ck] by simp
    then show ?thesis
      using q p uint_sub_of_int [of S "sc_queue sc ! (sc_queue_pos sc + (c + i)) - ucast (sc_last_step_clock sc)"] S Sc
      by (simp add: diff_diff_eq)
  qed
  have "qpt sc2 (k - 1) < qpt sc2 k \<and> qpt sc2 k < 3 * 2 ^ 28" if k: "1 \<le> k" "k \<le> pending_steps sc2" for k
  proof -
    have ck: "1 \<le> c + k" "c + k \<le> pending_steps sc" using k pend by simp_all
    have prev: "qpt sc2 (k - 1) = (if k = 1 then 0 else qpt sc (c + k - 1) - S)" using rest [of "k - 1"] k by auto
    show ?thesis
      unfolding prev rest [OF k] using mono [OF ck] Sc S k by auto
  qed
  moreover have "sc_queue_pos sc2 \<le> sc_queue_next sc2" "sc_queue_next sc2 \<le> length (sc_queue sc2)"
    using len by (auto simp: sc2_def sc1_def take_off_def)
  ultimately have ok2: "queue_ok sc2" unfolding queue_ok_def by blast
  have frame: "same_frame sc sc2" by (simp add: same_frame_def sc2_def sc1_def take_off_def)
  have ts: "steps_of 0 [mv] = map (move_step mv) [1..<Suc c]" by (simp add: c_def)
  have "move_step mv i < move_step mv j" if ij: "i < j" "j \<le> c" for i j
  proof -
    have "move_step mv i \<le> qpt sc i" using fits(2) [of i] ij by (cases i) auto
    also have "qpt sc i \<le> qpt sc (j - 1)" using qpt_mono [OF assms(1), of i "j - 1"] ij assms(5) by (simp add: c_def)
    also have "\<dots> < qmin sc j" using point_bounds(1) [OF queue_points_ok [OF assms(1)], of j] ij assms(5) by (simp add: c_def)
    also have "\<dots> \<le> move_step mv j" using fits(1) [of j] ij by simp
    finally show ?thesis .
  qed
  then have "sorted_wrt (<) (map (move_step mv) [0..<Suc c])"
    by (auto simp: sorted_wrt_iff_nth_less nth_append simp del: upt_Suc)
  moreover have "map (move_step mv) [0..<Suc c] = 0 # map (move_step mv) [1..<Suc c]"
    by (subst upt_conv_Cons) simp_all
  ultimately have sorted: "sorted_wrt (<) (0 # map (move_step mv) [1..<Suc c])" by simp
  have last: "last (0 # map (move_step mv) [1..<Suc c]) = S" using assms(4) by (simp add: S_def c_def)
  have pts: "qpt sc (Suc j) - uint (sc_max_error sc) \<le> map (move_step mv) [1..<Suc c] ! j \<and> map (move_step mv) [1..<Suc c] ! j \<le> qpt sc (Suc j)"
    if j: "j < c" for j
  proof -
    have "map (move_step mv) [1..<Suc c] ! j = move_step mv (Suc j)" using j by (simp del: upt_Suc)
    moreover have "qpt sc (Suc j) - uint (sc_max_error sc) \<le> qmin sc (Suc j)" by (simp add: qmin_def)
    ultimately show ?thesis using fits [of "Suc j"] j by simp
  qed
  have fields: "sc_last_step_clock sc2 = sc_last_step_clock sc + word_of_int S" "sc_msg_queue sc2 = sc_msg_queue sc @ [qm]"
    "sc_last_position sc2 = sc_last_position sc + (if sc_sdir sc \<noteq> 0 then int c else - int c)"
    by (simp_all add: sc2_def sc1_def take_off_def)
  have lc: "length (map (move_step mv) [1..<Suc c]) = c" by simp
  have "sm_count mv \<noteq> 0" using assms(4) by auto
  then have "flushed sc [mv] sc2"
    unfolding flushed_def Let_def ts last lc fields
    using pend rest ok2 frame sorted pts assms(5) msg by (auto simp: c_def [symmetric] simp del: upt_Suc)
  then show ?thesis using add by (intro exI [of _ sc1]) (simp add: sc1_def sc2_def c_def)
qed

lemma flushed_Nil: "queue_ok sc \<Longrightarrow> flushed sc [] sc"
  by (simp add: flushed_def same_frame_def)

lemma flush_loop_result:
  assumes "queue_ok sc" and "uint (sc_max_error sc) \<le> 2 ^ 17" and "0 < pending_steps sc" and "pending_steps sc \<le> 46341"
  shows "\<exists>mvs sc'. flush_loop move_clock sc = Some (0, sc') \<and> flushed sc mvs sc' \<and>
     (pending_steps sc' = 0 \<or> move_clock \<le> sc_last_step_clock sc')"
  using assms
proof (induction "pending_steps sc" arbitrary: sc rule: less_induct)
  case less
  show ?case
  proof (cases "sc_last_step_clock sc < move_clock")
    case True
    from compress_result [OF less.prems] obtain mv where
      mv: "compress_bisect_add sc = Some mv" "1 \<le> unat (sm_count mv)" "unat (sm_count mv) \<le> pending_steps sc"
        "fits (qpt sc) (qmin sc) (uint (sm_interval mv)) (sint (sm_add mv)) (unat (sm_count mv))" by blast
    have chk: "check_line sc mv = Some 0" by (rule check_line_fits [OF less.prems(1) mv(4,2,3)])
    from move_flushed [OF less.prems(1,4) mv(4,2,3)] obtain sc1 where
      sc1: "add_move (sc_last_step_clock sc + ucast (sm_interval mv)) mv sc = Some sc1"
        "sc_queue_pos sc1 = sc_queue_pos sc" "sc_queue_next sc1 = sc_queue_next sc"
        "flushed sc [mv] (take_off (unat (sm_count mv)) sc1)" by blast
    define sc2 where "sc2 = take_off (unat (sm_count mv)) sc1"
    have loop: "flush_loop move_clock sc =
       (if sc_queue_next sc \<le> sc_queue_pos sc + unat (sm_count mv) then Some (0, sc2) else flush_loop move_clock sc2)"
      using True mv(1) chk sc1(1-3) by (subst flush_loop.simps) (simp add: sc2_def take_off_def)
    have fl: "flushed sc [mv] sc2" using sc1(4) by (simp add: sc2_def)
    then have pend: "pending_steps sc2 = pending_steps sc - unat (sm_count mv)" and ok: "queue_ok sc2"
      and err: "sc_max_error sc2 = sc_max_error sc"
      by (auto simp: flushed_def Let_def dest: same_frame_fields(1))
    show ?thesis
    proof (cases "sc_queue_next sc \<le> sc_queue_pos sc + unat (sm_count mv)")
      case True
      then have "pending_steps sc2 = 0" using pend by (simp add: pending_steps_def)
      then show ?thesis using loop True fl by auto
    next
      case False
      then have "0 < pending_steps sc2" "pending_steps sc2 < pending_steps sc" "pending_steps sc2 \<le> 46341"
        using pend mv(2) less.prems(4) by (auto simp: pending_steps_def)
      from less.hyps [OF this(2) ok _ this(1,3)] less.prems(2) err obtain mvs sc' where
        "flush_loop move_clock sc2 = Some (0, sc')" "flushed sc2 mvs sc'"
        "pending_steps sc' = 0 \<or> move_clock \<le> sc_last_step_clock sc'" by auto
      then show ?thesis using loop False flushed_Cons [OF fl] by auto
    qed
  next
    case False
    then have "flush_loop move_clock sc = Some (0, sc)" by (subst flush_loop.simps) simp
    then show ?thesis using flushed_Nil [OF less.prems(1)] False by (auto simp: not_less)
  qed
qed

lemma qpt_print_time [simp]: "qpt (sc\<lparr>sc_last_step_print_time := x\<rparr>) k = qpt sc k"
  by (cases k) (simp_all add: qpt.simps)

lemma print_time_ok [simp]:
  "pending_steps (sc\<lparr>sc_last_step_print_time := x\<rparr>) = pending_steps sc"
  "queue_ok (sc\<lparr>sc_last_step_print_time := x\<rparr>) = queue_ok sc"
  "same_frame sc (sc'\<lparr>sc_last_step_print_time := x\<rparr>) = same_frame sc sc'"
  by (simp_all add: queue_ok_def pending_steps_def same_frame_def)

lemma flushed_print_time [simp]: "flushed sc mvs (calc_last_step_print_time sc') = flushed sc mvs sc'"
  by (simp add: flushed_def Let_def calc_last_step_print_time_def)

lemma calc_print_time_simps [simp]:
  "pending_steps (calc_last_step_print_time sc) = pending_steps sc"
  "sc_last_step_clock (calc_last_step_print_time sc) = sc_last_step_clock sc"
  "queue_ok (calc_last_step_print_time sc) = queue_ok sc"
  by (simp_all add: calc_last_step_print_time_def Let_def)

lemma queue_flush_result:
  assumes "queue_ok sc" and "uint (sc_max_error sc) \<le> 2 ^ 17" and "pending_steps sc \<le> 46341"
  shows "\<exists>mvs sc'. queue_flush move_clock sc = Some (0, sc') \<and> flushed sc mvs sc' \<and>
     (pending_steps sc' = 0 \<or> move_clock \<le> sc_last_step_clock sc')"
proof (cases "pending_steps sc = 0")
  case True
  then show ?thesis using flushed_Nil [OF assms(1)] by (auto simp: queue_flush_def pending_steps_def)
next
  case False
  then obtain mvs sc' where "flush_loop move_clock sc = Some (0, sc')" "flushed sc mvs sc'"
    "pending_steps sc' = 0 \<or> move_clock \<le> sc_last_step_clock sc'"
    using flush_loop_result [OF assms(1,2) _ assms(3)] by blast
  then show ?thesis using False
    by (intro exI [of _ mvs] exI [of _ "calc_last_step_print_time sc'"]) (simp add: queue_flush_def pending_steps_def [of sc])
qed

section \<open>The queue as a list\<close>

definition queued :: "stepcompress \<Rightarrow> u32 list" where
  "queued sc = take (pending_steps sc) (drop (sc_queue_pos sc) (sc_queue sc))"

definition storage_ok :: "stepcompress \<Rightarrow> bool" where
  "storage_ok sc \<longleftrightarrow> sc_queue_pos sc \<le> sc_queue_next sc \<and> sc_queue_next sc \<le> length (sc_queue sc)"

lemma queue_push_queued:
  assumes "storage_ok sc" and "sc_queue_next sc < length (sc_queue sc)"
  shows "\<exists>sc'. queue_push clock sc = Some sc' \<and> queued sc' = queued sc @ [ucast clock] \<and> storage_ok sc' \<and>
     sc' = sc\<lparr>sc_queue := sc_queue sc', sc_queue_next := sc_queue_next sc'\<rparr>"
proof -
  define p where "p = sc_queue_pos sc"
  define n where "n = sc_queue_next sc"
  have pn: "p \<le> n" "n < length (sc_queue sc)" using assms by (simp_all add: storage_ok_def p_def n_def)
  have "take (Suc n - p) (drop p ((sc_queue sc)[n := ucast clock])) = take (n - p) (drop p (sc_queue sc)) @ [ucast clock]"
    using pn by (simp add: Suc_diff_le take_Suc_conv_app_nth drop_update_swap)
  then show ?thesis
    using pn by (simp add: queue_push_def queued_def pending_steps_def storage_ok_def p_def n_def)
qed

lemma grow_gt: "0 < alloc \<Longrightarrow> in_use < grow in_use alloc \<and> alloc \<le> grow in_use alloc"
proof (induction in_use alloc rule: grow.induct)
  case (1 u a)
  show ?case
  proof (cases "a \<le> u")
    case True
    then show ?thesis using 1 by (subst (1 2) grow.simps) auto
  qed (subst (1 2) grow.simps, simp)
qed

lemma queue_make_room_queued:
  assumes "storage_ok sc"
  shows "queued (queue_make_room sc) = queued sc" and "storage_ok (queue_make_room sc)"
    and "sc_queue_next (queue_make_room sc) < length (sc_queue (queue_make_room sc))"
    and "queue_make_room sc = sc\<lparr>sc_queue := sc_queue (queue_make_room sc), sc_queue_pos := sc_queue_pos (queue_make_room sc),
           sc_queue_next := sc_queue_next (queue_make_room sc)\<rparr>"
proof -
  define u where "u = sc_queue_next sc - sc_queue_pos sc"
  define a where "a = grow u (if length (sc_queue sc) = 0 then QUEUE_START_SIZE else length (sc_queue sc))"
  have a: "u < a" "length (sc_queue sc) \<le> a"
    using grow_gt [of "if length (sc_queue sc) = 0 then QUEUE_START_SIZE else length (sc_queue sc)" u]
    by (auto simp: a_def QUEUE_START_SIZE_def split: if_splits)
  define p where "p = sc_queue_pos sc"
  define Q where "Q = sc_queue sc"
  define q where "q = (if 0 < p then take u (drop p Q) @ drop u Q else take a (Q @ replicate a 0))"
  have "queued (queue_make_room sc) = queued sc \<and> storage_ok (queue_make_room sc) \<and>
    sc_queue_next (queue_make_room sc) < length (sc_queue (queue_make_room sc)) \<and>
    queue_make_room sc = sc\<lparr>sc_queue := sc_queue (queue_make_room sc), sc_queue_pos := sc_queue_pos (queue_make_room sc),
           sc_queue_next := sc_queue_next (queue_make_room sc)\<rparr>"
  proof (cases "length Q \<le> sc_queue_next sc")
    case True
    then have u: "u = length Q - p" "p \<le> length Q" using assms by (auto simp: storage_ok_def u_def p_def Q_def)
    have eq: "queue_make_room sc = sc\<lparr>sc_queue := q, sc_queue_pos := 0, sc_queue_next := u\<rparr>"
      using True unfolding queue_make_room_def q_def Q_def p_def a_def u_def Let_def by simp
    have "u < length q \<and> take u q = take u (drop p Q)"
    proof (cases "0 < p")
      case False
      then show ?thesis using u a by (simp add: q_def Q_def)
    qed (use u in \<open>auto simp: q_def\<close>)
    then show ?thesis by (simp add: eq queued_def storage_ok_def pending_steps_def u_def p_def Q_def)
  next
    case False
    then have "queue_make_room sc = sc" by (simp add: queue_make_room_def Q_def)
    then show ?thesis using False assms by (simp add: Q_def)
  qed
  then show "queued (queue_make_room sc) = queued sc" and "storage_ok (queue_make_room sc)"
    and "sc_queue_next (queue_make_room sc) < length (sc_queue (queue_make_room sc))"
    and "queue_make_room sc = sc\<lparr>sc_queue := sc_queue (queue_make_room sc), sc_queue_pos := sc_queue_pos (queue_make_room sc),
           sc_queue_next := sc_queue_next (queue_make_room sc)\<rparr>" by simp_all
qed

section \<open>Properties\<close>

text \<open>C7 (queue_flush_exact). Flushing up to a clock ends without undefined behaviour and emits moves
  whose steps are, one for one and in order, the first queued steps, each at most \<^verbatim>\<open>max_error\<close> ticks
  early and never late, at strictly increasing times; the messages carry those moves, the position
  counts the steps in the direction set, the clock of the last step is the last step's, the
  remaining steps keep their times, and the queue is empty or the last step is past the clock.\<close>

theorem queue_flush_exact:
  assumes "queue_ok sc" and "uint (sc_max_error sc) \<le> 2 ^ 17" and "pending_steps sc \<le> 46341"
  shows "\<exists>mvs sc'. queue_flush move_clock sc = Some (0, sc') \<and> flushed sc mvs sc' \<and>
     (pending_steps sc' = 0 \<or> move_clock \<le> sc_last_step_clock sc')"
  using queue_flush_result [OF assms] .

theorem queue_flush_exact_witness:
  "\<exists>mvs sc'. queue_flush 1250 example_sc = Some (0, sc') \<and> flushed example_sc mvs sc' \<and>
     (pending_steps sc' = 0 \<or> 1250 \<le> sc_last_step_clock sc')"
  using queue_flush_exact [of example_sc 1250] example_sc_ok by simp

text \<open>Queueing a step in the current direction less than
  \<^verbatim>\<open>CLOCK_DIFF_MAX\<close> ahead adds its clock at the end of the queue, whether the storage has room, is
  shuffled or is enlarged, and changes nothing but the storage and the pending step.\<close>

theorem queue_append_appends:
  assumes "storage_ok sc" and "sc_next_step_dir sc = sc_sdir sc"
    and "sc_next_step_clock sc < sc_last_step_clock sc + CLOCK_DIFF_MAX" and "pending_steps sc \<le> 65535 + 2000"
  shows "\<exists>sc'. queue_append sc = Some (0, sc') \<and> queued sc' = queued sc @ [ucast (sc_next_step_clock sc)] \<and>
     storage_ok sc' \<and>
     sc' = sc\<lparr>sc_queue := sc_queue sc', sc_queue_pos := sc_queue_pos sc', sc_queue_next := sc_queue_next sc', sc_next_step_clock := 0\<rparr>"
proof -
  have far: "\<not> sc_last_step_clock sc + CLOCK_DIFF_MAX \<le> sc_next_step_clock sc" using assms(3) by (simp add: not_le)
  show ?thesis
  proof (cases "length (sc_queue sc) \<le> sc_queue_next sc")
    case True
    note room = queue_make_room_queued [OF assms(1)]
    from queue_push_queued [OF room(2,3), of "sc_next_step_clock sc"] obtain sc1 where
      sc1: "queue_push (sc_next_step_clock sc) (queue_make_room sc) = Some sc1"
        "queued sc1 = queued sc @ [ucast (sc_next_step_clock sc)]" "storage_ok sc1"
        "sc1 = (queue_make_room sc)\<lparr>sc_queue := sc_queue sc1, sc_queue_next := sc_queue_next sc1\<rparr>"
      unfolding room(1) by blast
    have clk: "sc_next_step_clock (queue_make_room sc) = sc_next_step_clock sc" by (subst room(4)) simp
    have "sc1\<lparr>sc_next_step_clock := 0\<rparr> = sc\<lparr>sc_queue := sc_queue sc1, sc_queue_pos := sc_queue_pos sc1,
        sc_queue_next := sc_queue_next sc1, sc_next_step_clock := 0\<rparr>"
      by (subst (1 3) sc1(4), subst (1) room(4)) simp
    moreover have "queue_append sc = Some (0, sc1\<lparr>sc_next_step_clock := 0\<rparr>)"
      using True assms sc1(1) clk far by (simp add: queue_append_def queue_append_extend_def pending_steps_def Let_def)
    ultimately show ?thesis using sc1(2,3)
      by (intro exI [of _ "sc1\<lparr>sc_next_step_clock := 0\<rparr>"]) (simp add: queued_def pending_steps_def storage_ok_def)
  next
    case False
    from queue_push_queued [OF assms(1), of "sc_next_step_clock sc"] False obtain sc1 where
      sc1: "queue_push (sc_next_step_clock sc) sc = Some sc1" "queued sc1 = queued sc @ [ucast (sc_next_step_clock sc)]"
        "storage_ok sc1" "sc1 = sc\<lparr>sc_queue := sc_queue sc1, sc_queue_next := sc_queue_next sc1\<rparr>" by auto
    have "sc1\<lparr>sc_next_step_clock := 0\<rparr> = sc\<lparr>sc_queue := sc_queue sc1, sc_queue_pos := sc_queue_pos sc1,
        sc_queue_next := sc_queue_next sc1, sc_next_step_clock := 0\<rparr>"
      by (subst (1 3) sc1(4)) simp
    moreover have "queue_append sc = Some (0, sc1\<lparr>sc_next_step_clock := 0\<rparr>)"
      using False assms far sc1(1) by (simp add: queue_append_def)
    ultimately show ?thesis using sc1(2,3)
      by (intro exI [of _ "sc1\<lparr>sc_next_step_clock := 0\<rparr>"]) (simp add: queued_def pending_steps_def storage_ok_def)
  qed
qed

theorem queue_append_appends_witness:
  "\<exists>sc'. queue_append (example_sc\<lparr>sc_next_step_clock := 1400\<rparr>) = Some (0, sc') \<and> queued sc' = [1100, 1205, 1300, 1400]"
  using queue_append_appends [of "example_sc\<lparr>sc_next_step_clock := 1400\<rparr>"]
  by (auto simp: example_sc_def storage_ok_def pending_steps_def queued_def CLOCK_DIFF_MAX_def)

text \<open>Inside the newest move of the history, when it has constant speed,
  \<^verbatim>\<open>stepcompress_find_past_position\<close> counts exactly the steps made by the given clock: from the
  \<open>k\<close>th step until the next one it returns the start position moved by \<open>k\<close> steps.\<close>

theorem past_position_exact:
  fixes k n :: nat and t :: int
  assumes "sc_history_list sc = hs # rest" and "hs_add hs = 0" and "0 < hs_interval hs"
    and "hs_last_clock hs = hs_first_clock hs + word_of_int ((int n - 1) * hs_interval hs)"
    and "\<bar>hs_step_count hs\<bar> = int n" and "int n * hs_interval hs < 2 ^ 31" and "1 \<le> k" and "k \<le> n"
    and "(int k - 1) * hs_interval hs \<le> t" and "k < n \<longrightarrow> t < int k * hs_interval hs"
    and "uint (hs_first_clock hs) + (int n - 1) * hs_interval hs < 2 ^ 64" and "uint (hs_first_clock hs) + t < 2 ^ 64"
  shows "stepcompress_find_past_position (hs_first_clock hs + word_of_int t) sc
     = Some (hs_start_position hs + sgn (hs_step_count hs) * int k)"
proof -
  define iv where "iv = hs_interval hs"
  define L where "L = (int n - 1) * iv"
  have L0: "0 \<le> L" using assms(3,7,8) by (simp add: L_def iv_def)
  have k0: "0 \<le> (int k - 1) * iv" using assms(3,7) by (simp add: iv_def)
  then have t0: "0 \<le> t" using assms(9) by (simp add: iv_def)
  have add: "uint (hs_first_clock hs + word_of_int x) = uint (hs_first_clock hs) + x"
    if "0 \<le> x" "uint (hs_first_clock hs) + x < 2 ^ 64" for x
  proof -
    have "x < 2 ^ 64" using that(2) uint_ge_0 [of "hs_first_clock hs"] by linarith
    then have "uint (word_of_int x :: u64) = x" using that(1) by (simp add: unsigned_of_int take_bit_int_eq_self)
    then show ?thesis using that by (simp add: uint_plus_if_size word_size)
  qed
  have ge: "\<not> hs_first_clock hs + word_of_int t < hs_first_clock hs"
    using add [OF t0 assms(12)] t0 by (simp add: word_less_def)
  have last: "hs_last_clock hs \<le> hs_first_clock hs + word_of_int t \<longleftrightarrow> L \<le> t"
    using add [OF t0 assms(12)] add [OF L0] assms(4,11) by (simp add: word_le_def L_def iv_def)
  show ?thesis
  proof (cases "k = n")
    case True
    then have "L \<le> t" using assms(9) by (simp add: L_def iv_def)
    moreover have "sgn (hs_step_count hs) * int k = hs_step_count hs"
      using assms(5) True by (metis mult.commute abs_mult_sgn)
    ultimately show ?thesis
      using assms(1) ge last by (simp add: stepcompress_find_past_position_def)
  next
    case False
    then have kn: "k < n" using assms(8) by simp
    then have tk: "t < int k * iv" using assms(10) by (simp add: iv_def)
    have kL: "int k * iv \<le> L" unfolding L_def using kn assms(3) by (intro mult_right_mono) (simp_all add: iv_def)
    have Liv: "L + iv = int n * iv" by (simp add: L_def algebra_simps)
    then have t31: "t + iv < 2 ^ 31" "0 \<le> t + iv" using tk kL assms(3,6) t0 by (simp_all add: iv_def)
    have "t < 2 ^ 31" using t31 assms(3) by (simp add: iv_def)
    then have "sint (ucast (hs_first_clock hs + word_of_int t - hs_first_clock hs) :: u32) = t"
      using t0 by (simp add: sint_u32_cases unsigned_ucast_eq unsigned_of_int take_bit_int_eq_self)
    then have "i32 (sint (ucast (hs_first_clock hs + word_of_int t - hs_first_clock hs) :: u32) + iv) = Some (t + iv)"
      using t31 by (simp add: i32_def)
    moreover have "(t + iv) div iv = int k"
    proof (rule int_div_pos_eq)
      show "t + iv = iv * int k + (t - (int k - 1) * iv)" by (simp add: algebra_simps)
    qed (use assms(9) tk in \<open>simp_all add: iv_def algebra_simps\<close>)
    then have "cdiv (t + iv) iv = int k" using t31 by (simp add: cdiv_def)
    ultimately have "steps_made hs (hs_first_clock hs + word_of_int t) = Some (int k)"
      using assms(2,3) by (simp add: steps_made_def iv_def)
    moreover have "hs_step_count hs < 0 \<longleftrightarrow> sgn (hs_step_count hs) = -1" "\<not> hs_step_count hs < 0 \<longrightarrow> sgn (hs_step_count hs) = 1"
      using assms(5,7,8) by (auto simp: sgn_if)
    ultimately show ?thesis
      using assms(1) ge last tk kL by (auto simp: stepcompress_find_past_position_def)
  qed
qed

theorem past_position_exact_witness:
  "stepcompress_find_past_position 1250 (example_sc\<lparr>sc_history_list := [\<lparr>hs_first_clock = 1000, hs_last_clock = 1900,
      hs_start_position = 50, hs_step_count = -10, hs_interval = 100, hs_add = 0\<rparr>]\<rparr>) = Some 47"
  using past_position_exact [of "example_sc\<lparr>sc_history_list := [\<lparr>hs_first_clock = 1000, hs_last_clock = 1900,
      hs_start_position = 50, hs_step_count = -10, hs_interval = 100, hs_add = 0\<rparr>]\<rparr>" _ _ 10 3 250]
  by simp

text \<open>A flush that leaves steps in the queue has not moved its end, and has reached the given clock.\<close>

lemma add_move_queue:
  "add_move first_clock mv sc = Some sc' \<Longrightarrow>
   sc_queue sc' = sc_queue sc \<and> sc_queue_pos sc' = sc_queue_pos sc \<and> sc_queue_next sc' = sc_queue_next sc"
  by (auto simp: add_move_def Let_def split: bind_splits)

lemma flush_loop_leaves:
  "flush_loop move_clock sc = Some r \<Longrightarrow>
   sc_queue (snd r) = sc_queue sc \<and>
   (fst r = 0 \<and> sc_queue_pos (snd r) < sc_queue_next (snd r) \<longrightarrow>
      sc_queue_next (snd r) = sc_queue_next sc \<and> move_clock \<le> sc_last_step_clock (snd r))"
proof (rule flush_loop.raw_induct [where P = "\<lambda>move_clock sc r. sc_queue (snd r) = sc_queue sc \<and>
     (fst r = 0 \<and> sc_queue_pos (snd r) < sc_queue_next (snd r) \<longrightarrow>
        sc_queue_next (snd r) = sc_queue_next sc \<and> move_clock \<le> sc_last_step_clock (snd r))"])
qed (fastforce simp: not_less dest!: add_move_queue split: if_splits bind_splits)+

lemma queue_flush_leaves:
  assumes "queue_flush move_clock sc = Some (0, sc')" and "sc_queue_pos sc' < sc_queue_next sc'"
  shows "sc_queue sc' = sc_queue sc \<and> sc_queue_next sc' = sc_queue_next sc \<and> move_clock \<le> sc_last_step_clock sc'"
  using assms
  by (auto simp: queue_flush_def calc_last_step_print_time_def Let_def dest!: flush_loop_leaves split: if_splits bind_splits)

text \<open>An example: the least storage that is allocated, full, with one step 100 and one
  \<open>3 * 2\<^sup>2\<^sup>8 - 1\<close> ticks ahead still to be flushed.\<close>

definition full_sc :: stepcompress where
  "full_sc = example_sc\<lparr>sc_queue := replicate 1022 0 @ [100, 3 * 2 ^ 28 - 1], sc_queue_pos := 1022, sc_queue_next := 1024,
     sc_last_step_clock := 0\<rparr>"

lemma full_sc_ok: "queue_ok full_sc" "pending_steps full_sc = 2" "qpt full_sc 1 = 100" "qpt full_sc 2 = 3 * 2 ^ 28 - 1"
proof -
  show pend: "pending_steps full_sc = 2" by (simp add: pending_steps_def full_sc_def example_sc_def)
  show q: "qpt full_sc 1 = 100" "qpt full_sc 2 = 3 * 2 ^ 28 - 1" by (simp_all add: qpt_pos full_sc_def example_sc_def nth_append)
  have "qpt full_sc (k - 1) < qpt full_sc k \<and> qpt full_sc k < 3 * 2 ^ 28" if "1 \<le> k \<and> k \<le> 2" for k
  proof -
    from that consider "k = 1" | "k = 2" by linarith
    then show ?thesis using q by cases simp_all
  qed
  moreover have "sc_queue_pos full_sc \<le> sc_queue_next full_sc" "sc_queue_next full_sc \<le> length (sc_queue full_sc)"
    by (simp_all add: full_sc_def example_sc_def)
  ultimately show "queue_ok full_sc" unfolding queue_ok_def pend by blast
qed

lemma full_sc_flush:
  "\<exists>sc'. queue_flush 51 full_sc = Some (0, sc') \<and> sc_queue_next sc' = 1024 \<and> sc_queue_pos sc' = 1023 \<and>
     75 \<le> uint (sc_last_step_clock sc') \<and> uint (sc_last_step_clock sc') \<le> 100"
proof -
  have fields: "uint (sc_max_error full_sc) = 25" "sc_last_step_clock full_sc = 0" "sc_queue_pos full_sc = 1022" "sc_queue_next full_sc = 1024"
    by (simp_all add: full_sc_def example_sc_def)
  note ok = full_sc_ok(1)
  from compress_result [OF ok] fields full_sc_ok(2) obtain mv where
    mv: "compress_bisect_add full_sc = Some mv" "1 \<le> unat (sm_count mv)" "unat (sm_count mv) \<le> pending_steps full_sc"
      "fits (qpt full_sc) (qmin full_sc) (uint (sm_interval mv)) (sint (sm_add mv)) (unat (sm_count mv))" by auto
  have qm: "qmin full_sc 1 = 75" "qmin full_sc 2 = 3 * 2 ^ 28 - 26"
    using full_sc_ok(3,4) fields(1) by (simp_all add: qmin_def)
  have iv: "75 \<le> uint (sm_interval mv)" "uint (sm_interval mv) \<le> 100"
    using mv(2,4) qm(1) full_sc_ok(3) by (auto simp: fits_def step_at_def)
  have c: "unat (sm_count mv) = 1"
  proof (rule ccontr)
    assume "unat (sm_count mv) \<noteq> 1"
    then have "2 \<le> unat (sm_count mv)" using mv(2) by simp
    then have "qmin full_sc 2 \<le> step_at (uint (sm_interval mv)) (sint (sm_add mv)) 2" using mv(4) by (auto simp: fits_def)
    then show False using iv sint_u16_bound [of "sm_add mv"] qm(2) by (simp add: step_at_def tri_def)
  qed
  from move_flushed [OF ok _ mv(4,2,3)] full_sc_ok(2) obtain sc1 where
    sc1: "add_move (sc_last_step_clock full_sc + ucast (sm_interval mv)) mv full_sc = Some sc1"
      "sc_queue_pos sc1 = sc_queue_pos full_sc" "sc_queue_next sc1 = sc_queue_next full_sc"
      "flushed full_sc [mv] (take_off 1 sc1)" unfolding c by auto
  define sc2 where "sc2 = take_off 1 sc1"
  have sc2: "sc_queue_next sc2 = 1024" "sc_queue_pos sc2 = 1023"
    using sc1(2,3) fields by (simp_all add: sc2_def take_off_def)
  have clock: "sc_last_step_clock sc2 = word_of_int (uint (sm_interval mv))"
    using sc1(4) fields(2) c same_frame_fields(5) by (auto simp: flushed_def Let_def sc2_def move_step_def step_at_def)
  have u: "uint (sc_last_step_clock sc2) = uint (sm_interval mv)"
    unfolding clock using iv by (simp add: unsigned_ucast_eq take_bit_int_eq_self)
  have "check_line full_sc mv = Some 0" by (rule check_line_fits [OF ok mv(4,2,3)])
  then have "flush_loop 51 full_sc = flush_loop 51 sc2"
    using mv(1) sc1(1-3) fields(2-4) c by (subst flush_loop.simps) (simp add: sc2_def take_off_def)
  moreover have "flush_loop 51 sc2 = Some (0, sc2)"
    using u iv by (subst flush_loop.simps) (simp add: word_less_def)
  ultimately have "queue_flush 51 full_sc = Some (0, calc_last_step_print_time sc2)"
    using fields by (simp add: queue_flush_def)
  then show ?thesis using sc2 u iv
    by (intro exI [of _ "calc_last_step_print_time sc2"]) (simp add: calc_last_step_print_time_def Let_def)
qed

text \<open>C39 (append_far_overrun). A queue whose storage is full, whatever its size, and a step appended
  so far ahead that \<^verbatim>\<open>queue_append_far\<close> flushes first: when the flush succeeds and leaves steps in the
  queue, the queue still ends at the end of the storage, and the step is stored there without making
  room, one entry behind the storage. (\<^verbatim>\<open>queue_append\<close> makes room in this case only for steps that are
  not far ahead.)\<close>

theorem append_far_overrun:
  assumes "sc_queue_next sc = length (sc_queue sc)" and "sc_next_step_dir sc = sc_sdir sc"
    and "sc_last_step_clock sc + CLOCK_DIFF_MAX \<le> sc_next_step_clock sc"
    and "queue_flush (sc_next_step_clock sc - CLOCK_DIFF_MAX + 1) (sc\<lparr>sc_next_step_clock := 0\<rparr>) = Some (0, sc')"
    and "sc_queue_pos sc' < sc_queue_next sc'"
    and "CLOCK_DIFF_MAX \<le> sc_next_step_clock sc" and "uint (sc_last_step_clock sc') + uint CLOCK_DIFF_MAX < 2 ^ 64"
  shows "sc_queue_next sc' = length (sc_queue sc') \<and> queue_push (sc_next_step_clock sc) sc' = None \<and>
     queue_append sc = map_option (Pair 0) (queue_push (sc_next_step_clock sc) sc')"
proof -
  have l: "sc_queue sc' = sc_queue sc" "sc_queue_next sc' = sc_queue_next sc"
    "sc_next_step_clock sc - CLOCK_DIFF_MAX + 1 \<le> sc_last_step_clock sc'"
    using queue_flush_leaves [OF assms(4,5)] by simp_all
  have "uint (sc_next_step_clock sc) < uint (sc_last_step_clock sc') + uint CLOCK_DIFF_MAX"
  proof -
    have "uint (sc_next_step_clock sc - CLOCK_DIFF_MAX) = uint (sc_next_step_clock sc) - uint CLOCK_DIFF_MAX"
      using assms(6) by (simp add: uint_sub_if' word_le_def)
    moreover have "uint (sc_next_step_clock sc) - uint CLOCK_DIFF_MAX < 2 ^ 64 - 1"
      using uint_lt2p [of "sc_next_step_clock sc"] by (simp add: CLOCK_DIFF_MAX_def)
    ultimately show ?thesis using l(3) by (simp add: word_le_def uint_plus_if_size word_size)
  qed
  then have "\<not> sc_last_step_clock sc' + CLOCK_DIFF_MAX \<le> sc_next_step_clock sc"
    using assms(7) by (simp add: word_le_def uint_plus_if_size word_size)
  then have "queue_append sc = map_option (Pair 0) (queue_push (sc_next_step_clock sc) sc')"
    using assms(2-4) by (simp add: queue_append_def queue_append_far_def queue_push_def)
  then show ?thesis using l assms(1) by (simp add: queue_push_def)
qed

theorem append_far_overrun_witness:
  "length (sc_queue full_sc) = QUEUE_START_SIZE \<and> queue_ok full_sc \<and>
   (\<exists>sc'. queue_flush 51 full_sc = Some (0, sc') \<and> sc_queue_next sc' = length (sc_queue sc')) \<and>
   queue_append (full_sc\<lparr>sc_next_step_clock := 3 * 2 ^ 28 + 50\<rparr>) = None"
proof -
  let ?sc = "full_sc\<lparr>sc_next_step_clock := 3 * 2 ^ 28 + 50\<rparr>"
  obtain sc' where sc': "queue_flush 51 full_sc = Some (0, sc')" "sc_queue_next sc' = 1024" "sc_queue_pos sc' = 1023"
    "uint (sc_last_step_clock sc') \<le> 100" using full_sc_flush by blast
  have f: "full_sc\<lparr>sc_next_step_clock := 0\<rparr> = full_sc" by (simp add: full_sc_def example_sc_def)
  have "sc_queue_next ?sc = length (sc_queue ?sc)" "sc_next_step_dir ?sc = sc_sdir ?sc" "length (sc_queue full_sc) = QUEUE_START_SIZE"
    by (simp_all add: full_sc_def example_sc_def QUEUE_START_SIZE_def)
  moreover have "sc_last_step_clock ?sc + CLOCK_DIFF_MAX \<le> sc_next_step_clock ?sc" "CLOCK_DIFF_MAX \<le> sc_next_step_clock ?sc"
    by (simp_all add: full_sc_def CLOCK_DIFF_MAX_def)
  moreover have "queue_flush (sc_next_step_clock ?sc - CLOCK_DIFF_MAX + 1) (?sc\<lparr>sc_next_step_clock := 0\<rparr>) = Some (0, sc')"
    using sc'(1) f by (simp add: CLOCK_DIFF_MAX_def)
  moreover have "uint (sc_last_step_clock sc') + uint CLOCK_DIFF_MAX < 2 ^ 64" using sc'(4) by (simp add: CLOCK_DIFF_MAX_def)
  ultimately show ?thesis using append_far_overrun [of ?sc sc'] sc' full_sc_ok(1) by simp
qed

end
