(* ===== verification/Pipeline.thy ===== *)
theory Pipeline
  imports Console Stepcompress
begin

text \<open>
  The way of a step from the host to the motor. The messages \<^verbatim>\<open>queue_step\<close> that
  \<^verbatim>\<open>klippy/chelper/stepcompress.c\<close> writes are decoded and run by \<^verbatim>\<open>command_dispatch\<close>
  of \<^verbatim>\<open>src/command.c\<close>, queued by \<^verbatim>\<open>command_queue_step\<close> and stepped by the timer function
  of \<^verbatim>\<open>src/stepper.c\<close>. This theory has no definitions of the program; it joins those of theories
  \<open>Stepcompress\<close>, \<open>Console\<close> and \<open>Stepper\<close>.
\<close>

section \<open>The commands of a block\<close>

text \<open>A command as it is written to a block: its tag and its integer arguments.\<close>

type_synonym cmd = "u32 \<times> u32 list"

definition encode_cmd :: "cmd \<Rightarrow> u8 list" where
  "encode_cmd c = concat (map encode_int (fst c # snd c))"

definition cmd_ok :: "'s command_parser list \<Rightarrow> cmd \<Rightarrow> bool" where
  "cmd_ok ix c \<longleftrightarrow> 0 < uint (fst c) \<and> uint (fst c) < 0x3000 \<and> unat (fst c) < length ix \<and>
     list_all int_param (cp_param_types (ix ! unat (fst c))) \<and>
     length (snd c) = length (cp_param_types (ix ! unat (fst c))) \<and>
     length (snd c) \<le> unat (cp_num_args (ix ! unat (fst c)))"

text \<open>Running commands one after the other, as the firmware's table says.\<close>

primrec run_commands ::
  "('a sched_scheme) command_parser list \<Rightarrow> (string \<Rightarrow> u32) \<Rightarrow> (('a sched_scheme) \<Rightarrow> (('a sched_scheme), unit) res) \<Rightarrow>
   cmd list \<Rightarrow> ('a sched_scheme) \<Rightarrow> (('a sched_scheme), unit) res" where
  "run_commands ix str_id poll [] s = Ret () s"
| "run_commands ix str_id poll (c # cs) s =
     (if sched_is_shutdown s \<and> cp_flags (ix ! unat (fst c)) AND HF_IN_SHUTDOWN = 0
      then run_commands ix str_id poll cs (sched_report_shutdown str_id s)
      else bindR (poll s) (\<lambda>_ s. bindR (cp_func (ix ! unat (fst c)) (snd c) s) (\<lambda>_ s.
           run_commands ix str_id poll cs s)))"

lemma tag_bytes:
  assumes "uint v < 2 ^ 14"
  shows "ucast (vbyte 7 0x80 v) AND 0x7f = drop_bit 7 (ucast v :: u16)"
    and "ucast (vbyte 0 0 v) = (ucast v AND 0x7f :: u16)"
proof -
  have v: "v < 2 ^ 14" using assms by (simp add: word_less_def)
  have "bit v n \<Longrightarrow> n < 14" for n using bit_small_word [of v 14 n] v by simp
  then show "ucast (vbyte 7 0x80 v) AND 0x7f = drop_bit 7 (ucast v :: u16)"
    by (intro bit_word_eqI) (fastforce simp: vbyte_def bit_simps bit_lits)
  show "ucast (vbyte 0 0 v) = (ucast v AND 0x7f :: u16)"
    by (intro bit_word_eqI) (auto simp: vbyte_def bit_simps bit_lits)
qed

lemma unat_tag: "uint (v :: u32) < 2 ^ 14 \<Longrightarrow> unat (ucast v :: u16) = unat v"
proof -
  assume "uint v < 2 ^ 14"
  then have "v < 0x4000" by (simp add: word_less_def)
  then have "unat v < 2 ^ 16" by (simp add: word_less_nat_alt)
  then have "take_bit 16 (unat v) = unat v" by (rule take_bit_nat_eq_self)
  then show ?thesis by (simp add: unsigned_ucast_eq)
qed

lemma parse_tag:
  assumes "uint v < 0x3000"
  shows "command_parse_msgid (xs @ encode_int v @ ys) (length xs) = Some (ucast v, length xs + length (encode_int v))"
proof -
  have sv: "sint v = uint v" using assms by (simp add: sint_u32_cases)
  show ?thesis
  proof (cases "uint v < 0x60")
    case True
    moreover have "- 32 \<le> uint v" by (rule order_trans [of _ 0]) simp_all
    ultimately have "sint v < 3 * 2 ^ 5 \<and> - (2 ^ 5) \<le> sint v" unfolding sv by simp
    then have "encode_int v = [vbyte 0 0 v]" unfolding encode_int_vbytes by (rule if_P)
    moreover have "ucast v AND 0x7f = (ucast v :: u16)"
      using True unat_tag [of v] by (intro msgid_small) (simp add: word_less_def unsigned_ucast_eq take_bit_int_eq_self)
    ultimately show ?thesis using True tag_bytes(2) [of v] by (simp add: command_parse_msgid_def)
  next
    case False
    then have "\<not> (sint v < 3 * 2 ^ 5 \<and> - (2 ^ 5) \<le> sint v)" "sint v < 3 * 2 ^ 12 \<and> - (2 ^ 12) \<le> sint v"
      using sv assms by simp_all
    then have "encode_int v = [vbyte 7 0x80 v, vbyte 0 0 v]" unfolding encode_int_vbytes by (simp only: if_True if_False simp_thms)
    then show ?thesis using assms tag_bytes [of v] by (simp add: command_parse_msgid_def rd_skip msgid_join)
  qed
qed

lemma parse_ints:
  "list_all int_param ts \<Longrightarrow> length vs = length ts \<Longrightarrow> length xs + length (concat (map encode_int vs)) \<le> maxend \<Longrightarrow>
   parse_params ts (xs @ concat (map encode_int vs) @ ys) (length xs) maxend args s
     = Ret (args @ vs, length xs + length (concat (map encode_int vs))) s"
proof (induction ts arbitrary: vs xs args)
  case (Cons t ts)
  then obtain v vs' where vs: "vs = v # vs'" by (cases vs) auto
  have "t \<in> {PT_uint32, PT_int32, PT_uint16, PT_int16, PT_byte}" using Cons.prems(1) by (simp add: int_param_def)
  with Cons.prems Cons.IH [of vs' "xs @ encode_int v" "args @ [v]"] show ?case
    using parse_encode_int [of xs v "concat (map encode_int vs') @ ys"] by (simp add: vs add.assoc)
qed simp

lemma dispatch_cmds:
  "\<forall>c\<in>set cs. cmd_ok ix c \<Longrightarrow>
   dispatch_loop ix str_id poll (xs @ concat (map encode_cmd cs) @ ys) (length xs)
      (length xs + length (concat (map encode_cmd cs))) s = run_commands ix str_id poll cs s"
proof (induction cs arbitrary: xs s)
  case Nil
  then show ?case by (simp add: dispatch_loop.simps)
next
  case (Cons c cs)
  obtain tag vs where c: "c = (tag, vs)" by (cases c)
  let ?cp = "ix ! unat tag"
  let ?rest = "concat (map encode_cmd cs)"
  define xs1 where "xs1 = xs @ encode_int tag"
  define xs2 where "xs2 = xs1 @ concat (map encode_int vs)"
  define buf where "buf = xs @ concat (map encode_cmd (c # cs)) @ ys"
  define e where "e = length xs + length (concat (map encode_cmd (c # cs)))"
  have ok: "0 < uint tag" "uint tag < 0x3000" "unat tag < length ix" "list_all int_param (cp_param_types ?cp)"
    "length vs = length (cp_param_types ?cp)" "length vs \<le> unat (cp_num_args ?cp)"
    using Cons.prems by (simp_all add: cmd_ok_def c)
  have un: "unat (ucast tag :: u16) = unat tag"
    using ok(2) by (intro unat_tag) simp
  have buf1: "buf = xs @ encode_int tag @ (concat (map encode_int vs) @ ?rest @ ys)"
    and buf2: "buf = xs1 @ concat (map encode_int vs) @ (?rest @ ys)" and buf3: "buf = xs2 @ ?rest @ ys"
    and e2: "e = length xs2 + length ?rest"
    by (simp_all add: buf_def xs1_def xs2_def e_def encode_cmd_def c)
  have id: "command_parse_msgid buf (length xs) = Some (ucast tag, length xs1)"
    unfolding buf1 using parse_tag [OF ok(2)] by (simp add: xs1_def)
  have tag0: "ucast tag \<noteq> (0 :: u16)"
  proof
    assume "ucast tag = (0 :: u16)"
    then have "tag = 0" using un by (simp add: unat_eq_0)
    then show False using ok(1) by simp
  qed
  have lk: "command_lookup_parser ix (ucast tag) s = Ret ?cp s"
    using ok(3) un by (simp add: command_lookup_parser_def tag0)
  have pf: "command_parsef buf (length xs1) e (cp_param_types ?cp) s = Ret (vs, length xs2) s"
    unfolding command_parsef_def buf2 using parse_ints [OF ok(4,5), of xs1 e "?rest @ ys" "[]" s]
    by (simp add: e2 xs2_def)
  have lt: "length xs < e"
    using length_encode_int(1) [of tag] unfolding e2 xs2_def xs1_def length_append by linarith
  have IH: "dispatch_loop ix str_id poll buf (length xs2) e = run_commands ix str_id poll cs"
    unfolding buf3 e2 fun_eq_iff using Cons.IH [of xs2] Cons.prems by simp
  have "dispatch_loop ix str_id poll buf (length xs) e s = run_commands ix str_id poll (c # cs) s"
    using ok(6) by (subst dispatch_loop.simps) (simp add: lt id lk pf IH linorder_not_less [THEN iffD2] c)
  then show ?case by (simp only: buf_def e_def)
qed

lemma run_commands_append:
  "run_commands ix str_id poll (cs @ ds) s = bindR (run_commands ix str_id poll cs s) (\<lambda>_. run_commands ix str_id poll ds)"
  by (induction cs arbitrary: s) (simp_all add: bindR_assoc)

section \<open>The steps of the queued moves\<close>

text \<open>The next \<open>n\<close> events of a stepper with the optimized step function, and the times they were
  scheduled for: each of them toggles the step pin.\<close>

primrec step_clocks ::
  "u8 \<Rightarrow> nat \<Rightarrow> ('a stepper_st_scheme) \<Rightarrow> (('a stepper_st_scheme), u32 list) res" where
  "step_clocks oid 0 s = Ret [] s"
| "step_clocks oid (Suc n) s =
     bindR (stepper_event_edge oid s) (\<lambda>_ s'. bindR (step_clocks oid n s') (\<lambda>ts s''.
       Ret (waketime s (stepper_timer oid) # ts) s''))"

lemma step_clocks_add:
  "step_clocks oid (m + n) s = bindR (step_clocks oid m s) (\<lambda>ts s. bindR (step_clocks oid n s) (\<lambda>us s. Ret (ts @ us) s))"
proof (induction m arbitrary: s)
  case 0
  then show ?case by (cases "step_clocks oid n s") simp_all
next
  case (Suc m)
  then show ?case by (simp add: bindR_assoc)
qed

text \<open>A move of the firmware carries what the host's move says, and the queue of a stepper holds
  such moves in the nodes \<open>xs\<close>.\<close>

definition carries :: "stepper_move \<Rightarrow> step_move \<Rightarrow> bool" where
  "carries m mv \<longleftrightarrow> stepper_move.sm_interval m = step_move.sm_interval mv \<and>
     stepper_move.sm_count m = step_move.sm_count mv \<and> stepper_move.sm_add m = step_move.sm_add mv"

definition moves_queued :: "('a stepper_st_scheme) \<Rightarrow> u8 \<Rightarrow> nat list \<Rightarrow> step_move list \<Rightarrow> bool" where
  "moves_queued s oid xs mvs \<longleftrightarrow> mq_list s (st_mq (steppers s oid)) xs \<and>
     list_all2 (\<lambda>x mv. \<exists>m. mn_data (nodes s x) = M_stepper m \<and> carries m mv) xs mvs"

text \<open>The firmware adds up 32 bit intervals, the host calculates with the formula of a move.\<close>

lemma move_ticks_step: "move_ticks i a n = word_of_int (step_at (uint i) (sint a) n)"
  by (induction n) (simp_all add: step_at_Suc)

lemma load_next_edge:
  assumes "HAVE_EDGE_OPTIMIZATION s" and "optimized (steppers s oid)" and "moves_queued s oid (x # xs) (mv # mvs)"
  obtains s' where "stepper_load_next oid s = Ret SF_RESCHEDULE s'"
    and "waketime s' (stepper_timer oid) = waketime s (stepper_timer oid) + step_move.sm_interval mv"
    and "st_count (steppers s' oid) = ucast (step_move.sm_count mv)"
    and "st_interval (steppers s' oid) = step_move.sm_interval mv + scast (step_move.sm_add mv)"
    and "st_add (steppers s' oid) = step_move.sm_add mv"
    and "moves_queued s' oid xs mvs" and "HAVE_EDGE_OPTIMIZATION s'" and "optimized (steppers s' oid)"
proof -
  obtain m where m: "mn_data (nodes s x) = M_stepper m" "carries m mv"
    and mq: "mq_list s (st_mq (steppers s oid)) (x # xs)"
    and rest: "list_all2 (\<lambda>x mv. \<exists>m. mn_data (nodes s x) = M_stepper m \<and> carries m mv) xs mvs"
    using assms(3) by (auto simp: moves_queued_def)
  obtain mh where mh: "move_queue_pop (st_mq (steppers s oid)) s = Ret (x, mh) s" "mq_list s mh xs"
    using pop_list [OF mq] by metis
  have ne: "\<not> move_queue_empty (st_mq (steppers s oid))" using empty_list [OF mq] by simp
  have x: "x \<notin> set xs" using mq by (auto simp: mq_list_def)
  define s1 where "s1 = move_free x (upd_stepper oid (\<lambda>st. st\<lparr>st_mq := mh\<rparr>) s)"
  define s2 where "s2 = upd_stepper oid (\<lambda>st. st\<lparr>st_count := ucast (stepper_move.sm_count m)\<rparr>)
     (set_waketime (stepper_timer oid) (waketime s (stepper_timer oid) + stepper_move.sm_interval m)
       (upd_stepper oid (\<lambda>st. st\<lparr>
          st_position := (if sm_flags m AND MF_DIR \<noteq> 0 then - st_position st else st_position st) + ucast (stepper_move.sm_count m),
          st_add := stepper_move.sm_add m,
          st_interval := stepper_move.sm_interval m + scast (stepper_move.sm_add m)\<rparr>) s1))"
  define s' where "s' = (if sm_flags m AND MF_DIR \<noteq> 0 then gpio_out_toggle_noirq (st_dir_pin (steppers s oid)) s2 else s2)"
  have eq: "stepper_load_next oid s = Ret SF_RESCHEDULE s'"
    using ne mh(1) m(1) assms(1,2)
    by (simp add: stepper_load_next_def load_timing_def Let_def s1_def s2_def s'_def optimized_def)
  have nodes: "mn_data (nodes s' y) = mn_data (nodes s y)" "y \<noteq> x \<Longrightarrow> mn_next (nodes s' y) = mn_next (nodes s y)" for y
    by (simp_all add: s'_def s2_def s1_def move_free_def)
  have "mn_next (nodes s' y) = mn_next (nodes s y)" if "y \<in> set xs" for y
    using that x by (intro nodes(2)) auto
  then have "mq_list s' mh xs" by (rule mq_list_frame [OF mh(2)])
  moreover have "st_mq (steppers s' oid) = mh" by (simp add: s'_def s2_def s1_def)
  ultimately have "moves_queued s' oid xs mvs" using rest by (simp add: moves_queued_def nodes(1))
  then show ?thesis
    using eq m(2) assms(1,2)
    by (intro that [of s']) (simp_all add: s'_def s2_def s1_def carries_def optimized_def)
qed

text \<open>The steps of the move being executed, up to its last one.\<close>

lemma edge_current:
  "st_count (steppers s oid) = of_nat (Suc k) \<Longrightarrow> Suc k < 2 ^ 32 \<Longrightarrow>
   \<exists>s'. step_clocks oid k s = Ret (map (\<lambda>j. waketime s (stepper_timer oid)
         + move_ticks (st_interval (steppers s oid)) (st_add (steppers s oid)) j) [0..<k]) s' \<and>
     waketime s' (stepper_timer oid) = waketime s (stepper_timer oid)
         + move_ticks (st_interval (steppers s oid)) (st_add (steppers s oid)) k \<and>
     st_count (steppers s' oid) = 1 \<and> nodes s' = nodes s \<and> st_mq (steppers s' oid) = st_mq (steppers s oid) \<and>
     st_flags (steppers s' oid) = st_flags (steppers s oid) \<and> HAVE_EDGE_OPTIMIZATION s' = HAVE_EDGE_OPTIMIZATION s"
proof (induction k arbitrary: s)
  case (Suc k)
  let ?st = "steppers s oid"
  have c1: "st_count ?st - 1 = of_nat (Suc k)" using Suc.prems(1) by simp
  have "unat (of_nat (Suc k) :: u32) = Suc k" using Suc.prems(2) by (intro unat_of_nat_small) simp
  then have ne: "st_count ?st - 1 \<noteq> 0" unfolding c1 by (metis nat.distinct(1) unat_0)
  define s1 where "s1 = upd_stepper oid (\<lambda>st. st\<lparr>st_interval := st_interval st + scast (st_add st)\<rparr>)
     (set_waketime (stepper_timer oid) (waketime s (stepper_timer oid) + st_interval ?st)
       (upd_stepper oid (\<lambda>st. st\<lparr>st_count := st_count ?st - 1\<rparr>) (gpio_out_toggle_noirq (st_step_pin ?st) s)))"
  have ev: "stepper_event_edge oid s = Ret SF_RESCHEDULE s1"
    using ne by (simp add: stepper_event_edge_def Let_def s1_def)
  have s1: "st_count (steppers s1 oid) = of_nat (Suc k)"
    "waketime s1 (stepper_timer oid) = waketime s (stepper_timer oid) + st_interval ?st"
    "st_interval (steppers s1 oid) = st_interval ?st + scast (st_add ?st)" "st_add (steppers s1 oid) = st_add ?st"
    "nodes s1 = nodes s" "st_mq (steppers s1 oid) = st_mq ?st" "st_flags (steppers s1 oid) = st_flags ?st"
    "HAVE_EDGE_OPTIMIZATION s1 = HAVE_EDGE_OPTIMIZATION s"
    using c1 by (simp_all add: s1_def)
  from Suc.IH [OF s1(1)] Suc.prems(2) obtain s' where
    s': "step_clocks oid k s1 = Ret (map (\<lambda>j. waketime s1 (stepper_timer oid)
         + move_ticks (st_interval (steppers s1 oid)) (st_add (steppers s1 oid)) j) [0..<k]) s'"
      "waketime s' (stepper_timer oid) = waketime s1 (stepper_timer oid)
         + move_ticks (st_interval (steppers s1 oid)) (st_add (steppers s1 oid)) k"
      "st_count (steppers s' oid) = 1" "nodes s' = nodes s1" "st_mq (steppers s' oid) = st_mq (steppers s1 oid)"
      "st_flags (steppers s' oid) = st_flags (steppers s1 oid)"
      "HAVE_EDGE_OPTIMIZATION s' = HAVE_EDGE_OPTIMIZATION s1"
    by auto
  have shift: "waketime s1 (stepper_timer oid) + move_ticks (st_interval (steppers s1 oid)) (st_add (steppers s1 oid)) j
      = waketime s (stepper_timer oid) + move_ticks (st_interval ?st) (st_add ?st) (Suc j)" for j
    unfolding s1(2-4) move_ticks_shift by simp
  have "step_clocks oid (Suc k) s = Ret (waketime s (stepper_timer oid) # map (\<lambda>j. waketime s (stepper_timer oid)
         + move_ticks (st_interval ?st) (st_add ?st) (Suc j)) [0..<k]) s'"
    using s'(1) by (simp only: step_clocks.simps ev bindR.simps shift)
  moreover have "waketime s (stepper_timer oid) # map (\<lambda>j. waketime s (stepper_timer oid)
         + move_ticks (st_interval ?st) (st_add ?st) (Suc j)) [0..<k] = map (\<lambda>j. waketime s (stepper_timer oid)
         + move_ticks (st_interval ?st) (st_add ?st) j) [0..<Suc k]"
    by (simp only: upt_rec [of 0 "Suc k"] map_Suc_upt [symmetric] list.map map_map o_def) simp
  ultimately show ?case using s'(2-7) s1(5-8) by (simp only: shift) simp
qed simp

text \<open>The clocks at which a stepper is going to step: for the move being executed, and for the
  queued ones.\<close>

definition current_clocks :: "('a stepper_st_scheme) \<Rightarrow> u8 \<Rightarrow> u32 list" where
  "current_clocks s oid = map (\<lambda>k. waketime s (stepper_timer oid)
     + move_ticks (st_interval (steppers s oid)) (st_add (steppers s oid)) k) [0..<unat (st_count (steppers s oid))]"

definition planned_clocks :: "('a stepper_st_scheme) \<Rightarrow> u8 \<Rightarrow> step_move list \<Rightarrow> u32 list" where
  "planned_clocks s oid mvs =
     current_clocks s oid @ map (\<lambda>t. last (current_clocks s oid) + word_of_int t) (steps_of 0 mvs)"

lemma edge_move:
  assumes "st_count (steppers s oid) \<noteq> 0"
  obtains s' where "step_clocks oid (unat (st_count (steppers s oid))) s =
      bindR (stepper_load_next oid s') (\<lambda>_. Ret (current_clocks s oid))"
    and "waketime s' (stepper_timer oid) = last (current_clocks s oid)"
    and "nodes s' = nodes s" and "st_mq (steppers s' oid) = st_mq (steppers s oid)"
    and "st_flags (steppers s' oid) = st_flags (steppers s oid)"
    and "HAVE_EDGE_OPTIMIZATION s' = HAVE_EDGE_OPTIMIZATION s"
proof -
  define k where "k = unat (st_count (steppers s oid)) - 1"
  have k: "unat (st_count (steppers s oid)) = Suc k"
    using assms by (simp add: k_def unat_gt_0)
  have "st_count (steppers s oid) = of_nat (unat (st_count (steppers s oid)))" by simp
  then have "st_count (steppers s oid) = of_nat (Suc k)" by (simp only: k)
  moreover have "Suc k < 2 ^ 32" using k unat_lt_pow [of "st_count (steppers s oid)"] by simp
  ultimately obtain s1 where s1: "step_clocks oid k s = Ret (map (\<lambda>j. waketime s (stepper_timer oid)
         + move_ticks (st_interval (steppers s oid)) (st_add (steppers s oid)) j) [0..<k]) s1"
     "waketime s1 (stepper_timer oid) = waketime s (stepper_timer oid)
         + move_ticks (st_interval (steppers s oid)) (st_add (steppers s oid)) k"
     "st_count (steppers s1 oid) = 1" "nodes s1 = nodes s" "st_mq (steppers s1 oid) = st_mq (steppers s oid)"
     "st_flags (steppers s1 oid) = st_flags (steppers s oid)" "HAVE_EDGE_OPTIMIZATION s1 = HAVE_EDGE_OPTIMIZATION s"
    using edge_current [of s oid k] by blast
  let ?s' = "gpio_out_toggle_noirq (st_step_pin (steppers s1 oid)) s1"
  have ev: "stepper_event_edge oid s1 = stepper_load_next oid ?s'"
    using s1(3) by (simp add: stepper_event_edge_def Let_def)
  have cur: "current_clocks s oid = map (\<lambda>j. waketime s (stepper_timer oid)
      + move_ticks (st_interval (steppers s oid)) (st_add (steppers s oid)) j) [0..<k] @ [waketime s1 (stepper_timer oid)]"
    unfolding current_clocks_def k using s1(2) by simp
  have "step_clocks oid (k + 1) s = bindR (stepper_load_next oid ?s') (\<lambda>_ s'. Ret (current_clocks s oid) s')"
    unfolding step_clocks_add cur by (simp add: s1(1) ev bindR_assoc)
  then show ?thesis
    using s1(4-7) cur by (intro that [of ?s']) (simp_all add: k)
qed

lemma loaded_clocks:
  assumes "waketime s (stepper_timer oid) = w + step_move.sm_interval mv"
    and "st_count (steppers s oid) = ucast (step_move.sm_count mv)"
    and "st_interval (steppers s oid) = step_move.sm_interval mv + scast (step_move.sm_add mv)"
    and "st_add (steppers s oid) = step_move.sm_add mv"
  shows "current_clocks s oid = map (\<lambda>t. w + word_of_int t) (steps_of 0 [mv])"
proof -
  let ?c = "unat (step_move.sm_count mv)"
  have c: "unat (st_count (steppers s oid)) = ?c" unfolding assms(2) by (rule unat_ucast_up) simp
  have "w + step_move.sm_interval mv + move_ticks (step_move.sm_interval mv + scast (step_move.sm_add mv)) (step_move.sm_add mv) k
      = w + word_of_int (move_step mv (Suc k))" for k
    by (simp only: move_step_def move_ticks_step [symmetric] move_ticks_shift add.assoc)
  then have "current_clocks s oid = map (\<lambda>k. w + word_of_int (move_step mv (Suc k))) [0..<?c]"
    unfolding current_clocks_def c assms(1,3,4) by simp
  then show ?thesis by (simp add: map_Suc_upt [symmetric] o_def del: upt_Suc)
qed

lemma edge_executes:
  "HAVE_EDGE_OPTIMIZATION s \<Longrightarrow> optimized (steppers s oid) \<Longrightarrow> st_count (steppers s oid) \<noteq> 0 \<Longrightarrow>
   moves_queued s oid xs mvs \<Longrightarrow> \<forall>mv\<in>set mvs. step_move.sm_count mv \<noteq> 0 \<Longrightarrow>
   \<exists>s'. step_clocks oid (length (planned_clocks s oid mvs)) s = Ret (planned_clocks s oid mvs) s' \<and>
     st_count (steppers s' oid) = 0"
proof (induction mvs arbitrary: s xs)
  case Nil
  obtain s1 where s1: "step_clocks oid (unat (st_count (steppers s oid))) s =
      bindR (stepper_load_next oid s1) (\<lambda>_. Ret (current_clocks s oid))"
    "st_mq (steppers s1 oid) = st_mq (steppers s oid)" "nodes s1 = nodes s"
    using edge_move [OF Nil.prems(3)] by metis
  have "mq_list s (st_mq (steppers s oid)) []" using Nil.prems(4) by (auto simp: moves_queued_def)
  then have "move_queue_empty (st_mq (steppers s1 oid))" using empty_list s1(2) by metis
  then show ?case
    using s1(1) by (simp add: stepper_load_next_def Let_def planned_clocks_def current_clocks_def)
next
  case (Cons mv mvs)
  obtain x xs' where xs: "xs = x # xs'" using Cons.prems(4) by (cases xs) (auto simp: moves_queued_def)
  obtain s1 where s1: "step_clocks oid (unat (st_count (steppers s oid))) s =
      bindR (stepper_load_next oid s1) (\<lambda>_. Ret (current_clocks s oid))"
    "waketime s1 (stepper_timer oid) = last (current_clocks s oid)"
    "nodes s1 = nodes s" "st_mq (steppers s1 oid) = st_mq (steppers s oid)"
    "st_flags (steppers s1 oid) = st_flags (steppers s oid)" "HAVE_EDGE_OPTIMIZATION s1 = HAVE_EDGE_OPTIMIZATION s"
    using edge_move [OF Cons.prems(3)] by metis
  have "moves_queued s1 oid (x # xs') (mv # mvs)"
    using Cons.prems(4) s1(3,4) by (simp add: moves_queued_def mq_list_def xs)
  moreover have "HAVE_EDGE_OPTIMIZATION s1" "optimized (steppers s1 oid)"
    using Cons.prems(1,2) s1(5,6) by (simp_all add: optimized_def)
  ultimately obtain s2 where ld: "stepper_load_next oid s1 = Ret SF_RESCHEDULE s2"
    and w: "waketime s2 (stepper_timer oid) = waketime s1 (stepper_timer oid) + step_move.sm_interval mv"
    and st: "st_count (steppers s2 oid) = ucast (step_move.sm_count mv)"
      "st_interval (steppers s2 oid) = step_move.sm_interval mv + scast (step_move.sm_add mv)"
      "st_add (steppers s2 oid) = step_move.sm_add mv"
    and ok: "moves_queued s2 oid xs' mvs" "HAVE_EDGE_OPTIMIZATION s2" "optimized (steppers s2 oid)"
    using load_next_edge [of s1 oid x xs' mv mvs] by metis
  note cur = loaded_clocks [OF w st, unfolded s1(2)]
  have c0: "step_move.sm_count mv \<noteq> 0" using Cons.prems(5) by simp
  then have "st_count (steppers s2 oid) \<noteq> 0"
    using unat_ucast_up [of "step_move.sm_count mv", where 'b = 32] by (auto simp: st(1) unat_eq_0)
  from Cons.IH [OF ok(2,3) this ok(1)] Cons.prems(5) obtain s' where
    s': "step_clocks oid (length (planned_clocks s2 oid mvs)) s2 = Ret (planned_clocks s2 oid mvs) s'"
      "st_count (steppers s' oid) = 0" by auto
  have one: "steps_of 0 [mv] \<noteq> []" "last (steps_of 0 [mv]) = move_step mv (unat (step_move.sm_count mv))"
    using c0 unat_gt_0 [of "step_move.sm_count mv"] by (simp_all add: last_map Suc_le_eq)
  have "last (current_clocks s2 oid) = last (current_clocks s oid) + word_of_int (move_step mv (unat (step_move.sm_count mv)))"
    unfolding cur last_map [OF one(1)] one(2) ..
  then have planned: "planned_clocks s oid (mv # mvs) = current_clocks s oid @ planned_clocks s2 oid mvs"
    using steps_of_shift [of "move_step mv (unat (step_move.sm_count mv))" mvs]
    by (simp add: planned_clocks_def cur o_def add.assoc)
  have len: "length (planned_clocks s oid (mv # mvs)) =
      unat (st_count (steppers s oid)) + length (planned_clocks s2 oid mvs)"
    unfolding planned by (simp add: current_clocks_def)
  show ?case
    unfolding len step_clocks_add s1(1) ld unfolding planned using s' by simp
qed

section \<open>Queueing the host's moves\<close>

text \<open>The message of a move, and an entry of the firmware's table for it: the declaration of
  \<^verbatim>\<open>command_queue_step\<close> is \<^verbatim>\<open>queue_step oid=%c interval=%u count=%hu add=%hi\<close>.\<close>

definition step_cmd :: "u32 \<Rightarrow> u32 \<Rightarrow> step_move \<Rightarrow> cmd" where
  "step_cmd tag a0 mv = (tag, [a0, step_move.sm_interval mv, ucast (step_move.sm_count mv), scast (step_move.sm_add mv)])"

definition queue_step_entry :: "('a stepper_st_scheme) command_parser \<Rightarrow> bool" where
  "queue_step_entry cp \<longleftrightarrow> cp_param_types cp = [PT_byte, PT_uint32, PT_uint16, PT_int16] \<and> cp_num_args cp = 4 \<and>
     (\<forall>args s. cp_func cp args s = command_queue_step (args ! 0) (args ! 1) (args ! 2) (args ! 3) s)"

text \<open>A stepper in motion: the moves \<open>mvs\<close> are queued in the nodes \<open>xs\<close>, and the nodes \<open>fl\<close> are free.\<close>

definition stepper_ready :: "('a stepper_st_scheme) \<Rightarrow> u32 \<Rightarrow> nat list \<Rightarrow> nat list \<Rightarrow> step_move list \<Rightarrow> bool" where
  "stepper_ready s a0 fl xs mvs \<longleftrightarrow>
     (\<exists>os d. oids s = Some os \<and> unat (oid_count s) = length os \<and> unat (ucast a0 :: u8) < length os \<and>
        os ! unat (ucast a0 :: u8) = \<lparr>oid_ty = Some Config_stepper, oid_data = Some d\<rparr>) \<and>
     free_list s fl \<and> set fl \<inter> set xs = {} \<and> moves_queued s (ucast a0) xs mvs \<and>
     st_count (steppers s (ucast a0)) \<noteq> 0 \<and> HAVE_EDGE_OPTIMIZATION s \<and> optimized (steppers s (ucast a0)) \<and>
     \<not> sched_is_shutdown s"

lemma optimized_flip: "(f XOR SF_LAST_DIR) AND SF_OPTIMIZED_PATH = f AND SF_OPTIMIZED_PATH"
proof (rule bit_word_eqI)
  show "bit ((f XOR SF_LAST_DIR) AND SF_OPTIMIZED_PATH) n \<longleftrightarrow> bit (f AND SF_OPTIMIZED_PATH) n" for n
    by (cases n) (simp_all add: bit_simps sf_consts)
qed

lemma queue_step_ready:
  assumes "stepper_ready s a0 (x # fl) xs mvs" and "step_move.sm_count mv \<noteq> 0"
  shows "\<exists>s'. command_queue_step a0 (step_move.sm_interval mv) (ucast (step_move.sm_count mv)) (scast (step_move.sm_add mv)) s = Ret () s' \<and>
     stepper_ready s' a0 fl (xs @ [x]) (mvs @ [mv]) \<and> current_clocks s' (ucast a0) = current_clocks s (ucast a0)"
proof -
  let ?oid = "ucast a0 :: u8"
  let ?i = "step_move.sm_interval mv" and ?c = "ucast (step_move.sm_count mv) :: u32" and ?a = "scast (step_move.sm_add mv) :: u32"
  obtain os d where os: "oids s = Some os" "unat (oid_count s) = length os" "unat ?oid < length os"
    "os ! unat ?oid = \<lparr>oid_ty = Some Config_stepper, oid_data = Some d\<rparr>"
    and fl: "free_list s (x # fl)" and disj: "set (x # fl) \<inter> set xs = {}" and mq: "moves_queued s ?oid xs mvs"
    and st: "st_count (steppers s ?oid) \<noteq> 0" "HAVE_EDGE_OPTIMIZATION s" "optimized (steppers s ?oid)" "\<not> sched_is_shutdown s"
    using assms(1) by (auto simp: stepper_ready_def)
  have casts: "(ucast ?c :: u16) = step_move.sm_count mv" "(ucast ?a :: u16) = step_move.sm_add mv"
    by (rule bit_word_eqI, simp add: bit_simps)+
  have q: "mq_list s (st_mq (steppers s ?oid)) xs" using mq by (simp add: moves_queued_def)
  have x: "x \<notin> set xs" "x \<notin> set fl" using disj fl by (auto simp: free_list_def)
  obtain s' mh flags where s': "command_queue_step a0 ?i ?c ?a s = Ret () s'" "mq_list s' mh (xs @ [x])"
    "flags = (if flip_dir (st_flags (steppers s ?oid)) then st_flags (steppers s ?oid) XOR SF_LAST_DIR
                  else st_flags (steppers s ?oid))"
    "steppers s' = (steppers s)(?oid := (steppers s ?oid)\<lparr>st_flags := flags, st_mq := mh\<rparr>)"
    "mn_data (nodes s' x) = M_stepper \<lparr>stepper_move.sm_interval = ?i, sm_add = ucast ?a, sm_count = ucast ?c,
          sm_flags = (if flip_dir (st_flags (steppers s ?oid)) then MF_DIR else 0)\<rparr>"
    "\<And>y. y \<noteq> x \<Longrightarrow> mn_data (nodes s' y) = mn_data (nodes s y)"
    "\<And>y. y \<notin> insert x (set xs) \<Longrightarrow> nodes s' y = nodes s y"
    "s' = s\<lparr>nodes := nodes s', move_free_list := mn_next (nodes s x), steppers := steppers s'\<rparr>"
    using queue_step_active [OF os fl q x(1) st(1), of ?c ?i ?a] assms(2) unfolding casts by metis
  have fr: "oids s' = oids s" "oid_count s' = oid_count s" "HAVE_EDGE_OPTIMIZATION s' = HAVE_EDGE_OPTIMIZATION s"
    "shutdown_status s' = shutdown_status s" "timers s' = timers s" "move_free_list s' = mn_next (nodes s x)"
    by (subst s'(8), simp)+
  have "free_list s' fl"
  proof -
    have "mn_next (nodes s' y) = mn_next (nodes s y)" if "y \<in> set fl" for y
      using that disj x by (subst s'(7)) auto
    moreover have "free_list (s\<lparr>move_free_list := mn_next (nodes s x)\<rparr>) fl" by (rule free_alloc(2) [OF fl])
    ultimately show ?thesis by (elim free_list_frame) (simp_all add: fr)
  qed
  moreover have "moves_queued s' ?oid (xs @ [x]) (mvs @ [mv])"
  proof -
    have "mn_data (nodes s' (xs ! i)) = mn_data (nodes s (xs ! i))" if "i < length xs" for i
      using x(1) nth_mem [OF that] by (intro s'(6)) auto
    then have "list_all2 (\<lambda>x mv. \<exists>m. mn_data (nodes s' x) = M_stepper m \<and> carries m mv) xs mvs"
      using mq by (simp add: moves_queued_def list_all2_conv_all_nth)
    moreover have "\<exists>m. mn_data (nodes s' x) = M_stepper m \<and> carries m mv" using s'(5) by (simp add: carries_def casts)
    ultimately show ?thesis using s'(2) by (simp add: moves_queued_def s'(4) list_all2_appendI)
  qed
  moreover have "optimized (steppers s' ?oid)" using st(3) by (simp add: s'(3,4) optimized_def optimized_flip)
  ultimately have "stepper_ready s' a0 fl (xs @ [x]) (mvs @ [mv])"
    using os disj x st by (auto simp: stepper_ready_def fr s'(4) sched_is_shutdown_def)
  moreover have "current_clocks s' ?oid = current_clocks s ?oid" by (simp add: current_clocks_def fr s'(4))
  ultimately show ?thesis using s'(1) by blast
qed

lemma run_queue_steps:
  assumes "queue_step_entry (ix ! unat tag)" and "\<And>s. poll s = Ret () s"
  shows "stepper_ready s a0 fl xs mvs \<Longrightarrow> length new \<le> length fl \<Longrightarrow> \<forall>mv\<in>set new. step_move.sm_count mv \<noteq> 0 \<Longrightarrow>
   \<exists>s' xs'. run_commands ix str_id poll (map (step_cmd tag a0) new) s = Ret () s' \<and>
     stepper_ready s' a0 (drop (length new) fl) xs' (mvs @ new) \<and> current_clocks s' (ucast a0) = current_clocks s (ucast a0)"
proof (induction new arbitrary: s fl xs mvs)
  case (Cons mv new)
  then obtain x fl' where fl: "fl = x # fl'" by (cases fl) auto
  from queue_step_ready [OF Cons.prems(1) [unfolded fl], of mv] Cons.prems(3) obtain s1 where
    s1: "command_queue_step a0 (step_move.sm_interval mv) (ucast (step_move.sm_count mv)) (scast (step_move.sm_add mv)) s = Ret () s1"
      "stepper_ready s1 a0 fl' (xs @ [x]) (mvs @ [mv])" "current_clocks s1 (ucast a0) = current_clocks s (ucast a0)" by auto
  from Cons.IH [OF s1(2)] Cons.prems(2,3) fl obtain s' xs' where
    s': "run_commands ix str_id poll (map (step_cmd tag a0) new) s1 = Ret () s'"
      "stepper_ready s' a0 (drop (length new) fl') xs' ((mvs @ [mv]) @ new)"
      "current_clocks s' (ucast a0) = current_clocks s1 (ucast a0)" by auto
  have "\<not> sched_is_shutdown s" using Cons.prems(1) by (simp add: stepper_ready_def)
  then have "run_commands ix str_id poll (map (step_cmd tag a0) (mv # new)) s = Ret () s'"
    using assms s1(1) s'(1) by (simp add: step_cmd_def queue_step_entry_def)
  then show ?case using s'(2,3) s1(3) by (auto simp: fl)
qed auto

section \<open>Blocks\<close>

text \<open>The blocks of a link, each a sequence number and the messages in it, dispatched in turn.\<close>

primrec dispatch_blocks ::
  "('a sched_scheme) command_parser list \<Rightarrow> (string \<Rightarrow> u32) \<Rightarrow> (('a sched_scheme) \<Rightarrow> (('a sched_scheme), unit) res) \<Rightarrow>
   (u8 \<times> u8 list list) list \<Rightarrow> ('a sched_scheme) \<Rightarrow> (('a sched_scheme), unit) res" where
  "dispatch_blocks ix str_id poll [] s = Ret () s"
| "dispatch_blocks ix str_id poll (b # bs) s =
     (let block = frame (fst b) (concat (snd b)) in
      bindR (command_dispatch ix str_id poll block (length block) s) (\<lambda>_ s. dispatch_blocks ix str_id poll bs s))"

lemma dispatch_frame:
  assumes "\<forall>c\<in>set cs. cmd_ok ix c"
  shows "command_dispatch ix str_id poll (frame seq (concat (map encode_cmd cs)) @ rest)
     (length (frame seq (concat (map encode_cmd cs)))) s = run_commands ix str_id poll cs s"
proof -
  let ?body = "concat (map encode_cmd cs)"
  obtain c1 c2 where fr: "frame seq ?body = [block_len ?body, seq] @ ?body @ [c1, c2, MESSAGE_SYNC]"
    by (simp add: frame_def Let_def)
  show ?thesis
    using dispatch_cmds [OF assms, of str_id poll "[block_len ?body, seq]" "[c1, c2, MESSAGE_SYNC] @ rest" s]
    unfolding command_dispatch_def length_frame by (simp add: fr message_consts numeral_2_eq_2)
qed

lemma dispatch_blocks_cmds:
  "\<forall>c\<in>set cs. cmd_ok ix c \<Longrightarrow> concat (map snd bs) = map encode_cmd cs \<Longrightarrow>
   dispatch_blocks ix str_id poll bs s = run_commands ix str_id poll cs s"
proof (induction bs arbitrary: cs s)
  case (Cons b bs)
  from Cons.prems(2) have split: "snd b @ concat (map snd bs) = map encode_cmd cs" by simp
  define n where "n = length (snd b)"
  have parts: "snd b = map encode_cmd (take n cs)" "concat (map snd bs) = map encode_cmd (drop n cs)"
    using arg_cong [OF split, of "take n"] arg_cong [OF split, of "drop n"] by (simp_all add: n_def take_map drop_map)
  have ok: "\<forall>c\<in>set (take n cs). cmd_ok ix c" "\<forall>c\<in>set (drop n cs). cmd_ok ix c"
    using Cons.prems(1) by (auto dest: in_set_takeD in_set_dropD)
  have "dispatch_blocks ix str_id poll (b # bs) s
      = bindR (run_commands ix str_id poll (take n cs) s) (\<lambda>_. run_commands ix str_id poll (drop n cs))"
    using dispatch_frame [OF ok(1), of str_id poll "fst b" "[]" s] Cons.IH [OF ok(2) parts(2)]
    by (simp add: parts(1) Let_def)
  then show ?case by (simp only: run_commands_append [symmetric] append_take_drop_id)
qed simp

section \<open>From the queue of the host to the motor\<close>

lemma steps_of_append: "steps_of t (mvs @ new) = steps_of t mvs @ steps_of (last (t # steps_of t mvs)) new"
proof (induction mvs arbitrary: t)
  case (Cons mv mvs)
  have "last (t # map (\<lambda>k. t + move_step mv k) [1..<Suc (unat (step_move.sm_count mv))]) = t + move_step mv (unat (step_move.sm_count mv))"
    by (cases "unat (step_move.sm_count mv)") simp_all
  then have "last (t # steps_of t (mv # mvs)) = last ((t + move_step mv (unat (step_move.sm_count mv)))
      # steps_of (t + move_step mv (unat (step_move.sm_count mv))) mvs)"
    by (cases "steps_of (t + move_step mv (unat (step_move.sm_count mv))) mvs = []") (simp_all del: upt_Suc)
  then show ?case using Cons.IH by simp
qed simp

lemma planned_append:
  assumes "current_clocks s oid \<noteq> []"
  shows "planned_clocks s oid (mvs @ new) = planned_clocks s oid mvs
     @ map (\<lambda>t. last (planned_clocks s oid mvs) + word_of_int t) (steps_of 0 new)"
proof -
  let ?e = "last (0 # steps_of 0 mvs)"
  have "last (planned_clocks s oid mvs) = last (current_clocks s oid) + word_of_int ?e"
    using assms by (cases "steps_of 0 mvs = []") (simp_all add: planned_clocks_def last_map)
  moreover have "steps_of 0 (mvs @ new) = steps_of 0 mvs @ map ((+) ?e) (steps_of 0 new)"
    unfolding steps_of_append by (subst steps_of_shift) (rule refl)
  ultimately show ?thesis by (simp add: planned_clocks_def o_def add.assoc)
qed

lemma length_steps_of: "\<forall>mv\<in>set mvs. step_move.sm_count mv \<noteq> 0 \<Longrightarrow> length mvs \<le> length (steps_of t mvs)"
proof (induction mvs arbitrary: t)
  case (Cons mv mvs)
  then have "0 < unat (step_move.sm_count mv)" by (simp add: unat_gt_0)
  moreover have "length mvs \<le> length (steps_of (t + move_step mv (unat (step_move.sm_count mv))) mvs)"
    using Cons by simp
  ultimately show ?case by simp
qed simp

lemma step_msgs_cmds:
  "list_all2 (step_msg sc) mvs qms \<Longrightarrow> map (\<lambda>qm. take (qm_len qm) (qm_msg qm)) qms
     = map encode_cmd (map (step_cmd (sc_queue_step_msgtag sc) (sc_oid sc)) mvs)"
  by (induction rule: list_all2_induct) (simp_all add: step_msg_def encode_cmd_def step_cmd_def)

lemma early_by:
  assumes "uint (r - l :: u32) - e \<le> t" and "t \<le> uint (r - l)" and "e = uint (m :: u32)"
  shows "r - (l + word_of_int t) \<le> m"
proof -
  define d where "d = uint (r - l) - t"
  have d: "0 \<le> d" "d \<le> uint m" "d < 2 ^ 32" using assms uint_lt2p [of m] by (simp_all add: d_def)
  have "r - (l + word_of_int t) = word_of_int d" by (simp add: d_def diff_diff_eq)
  moreover have "uint (word_of_int d :: u32) = d" using d by (simp add: unsigned_of_int take_bit_int_eq_self)
  ultimately show ?thesis using d(2) by (simp only: word_le_def)
qed

lemma flushed_reach_motor:
  fixes s :: "'a stepper_st_scheme"
  assumes "flushed sc mvs sc'" and "stepper_ready s (sc_oid sc) fl xs mvs0" and "\<forall>mv\<in>set mvs0. step_move.sm_count mv \<noteq> 0"
    and "pending_steps sc \<le> length fl"
    and "last (planned_clocks s (ucast (sc_oid sc)) mvs0) = ucast (sc_last_step_clock sc)"
    and "queue_step_entry (ix ! unat tag)" and "\<And>s. poll s = Ret () s"
  shows "\<exists>s1 s2 cs. run_commands ix str_id poll (map (step_cmd tag (sc_oid sc)) mvs) s = Ret () s1 \<and>
     step_clocks (ucast (sc_oid sc)) (length (planned_clocks s (ucast (sc_oid sc)) mvs0) + length cs) s1
       = Ret (planned_clocks s (ucast (sc_oid sc)) mvs0 @ cs) s2 \<and> st_count (steppers s2 (ucast (sc_oid sc))) = 0 \<and>
     length cs = pending_steps sc - pending_steps sc' \<and>
     (\<forall>j<length cs. sc_queue sc ! (sc_queue_pos sc + j) - cs ! j \<le> sc_max_error sc)"
proof -
  let ?oid = "ucast (sc_oid sc) :: u8"
  define ts where "ts = steps_of 0 mvs"
  note fl = assms(1) [unfolded flushed_def Let_def, folded ts_def]
  have counts: "\<forall>mv\<in>set mvs. step_move.sm_count mv \<noteq> 0" and len: "length ts \<le> pending_steps sc"
    "pending_steps sc' = pending_steps sc - length ts" using fl by simp_all
  have "length mvs \<le> length fl" using length_steps_of [OF counts, of 0] len assms(4) by (simp add: ts_def)
  from run_queue_steps [OF assms(6,7,2) this counts] obtain s1 xs' where
    s1: "run_commands ix str_id poll (map (step_cmd tag (sc_oid sc)) mvs) s = Ret () s1"
      "stepper_ready s1 (sc_oid sc) (drop (length mvs) fl) xs' (mvs0 @ mvs)"
      "current_clocks s1 ?oid = current_clocks s ?oid" by blast
  have "st_count (steppers s1 ?oid) \<noteq> 0" "HAVE_EDGE_OPTIMIZATION s1" "optimized (steppers s1 ?oid)"
    "moves_queued s1 ?oid xs' (mvs0 @ mvs)" using s1(2) by (simp_all add: stepper_ready_def)
  from edge_executes [OF this(2,3,1,4)] counts assms(3) obtain s2 where
    s2: "step_clocks ?oid (length (planned_clocks s1 ?oid (mvs0 @ mvs))) s1 = Ret (planned_clocks s1 ?oid (mvs0 @ mvs)) s2"
      "st_count (steppers s2 ?oid) = 0" by auto
  have "st_count (steppers s ?oid) \<noteq> 0" using assms(2) by (simp add: stepper_ready_def)
  then have "current_clocks s ?oid \<noteq> []" by (simp add: current_clocks_def unat_eq_0)
  note app = planned_append [OF this, of mvs0 mvs, unfolded assms(5), folded ts_def]
  define cs where "cs = map (\<lambda>t. (ucast (sc_last_step_clock sc) :: u32) + word_of_int t) ts"
  have planned: "planned_clocks s1 ?oid (mvs0 @ mvs) = planned_clocks s ?oid mvs0 @ cs"
    using app s1(3) by (simp add: planned_clocks_def cs_def)
  have "sc_queue sc ! (sc_queue_pos sc + j) - cs ! j \<le> sc_max_error sc" if "j < length ts" for j
    using fl that by (auto simp: cs_def qpt.simps intro!: early_by)
  then show ?thesis
    using s1(1) s2 len unfolding planned
    by (intro exI [of _ s1] exI [of _ s2] exI [of _ cs]) (simp add: cs_def)
qed

section \<open>Properties\<close>

text \<open>C12 (block_runs_commands). Dispatching a block runs exactly the commands that were encoded into
  it, in order and each with the arguments it was encoded with; a command that is not allowed during
  shutdown is answered with the shutdown report instead, and what follows the block in the buffer
  does not matter.\<close>

theorem block_runs_commands:
  assumes "\<forall>c\<in>set cs. cmd_ok ix c"
  shows "command_dispatch ix str_id poll (frame seq (concat (map encode_cmd cs)) @ rest)
     (length (frame seq (concat (map encode_cmd cs)))) s = run_commands ix str_id poll cs s"
  using dispatch_frame [OF assms] .

definition log_entry :: "param_type list \<Rightarrow> (sched command_parser)" where
  "log_entry ts = \<lparr>cp_encoded_msgid = 0, cp_num_args = 2, cp_flags = 0, cp_param_types = ts,
     cp_func = (\<lambda>args s. Ret () (command_sendf ''log'' (map AInt args) s))\<rparr>"

theorem block_runs_commands_witness:
  "command_dispatch [log_entry [], log_entry [PT_uint32, PT_int16], log_entry [PT_byte]] (\<lambda>_. 0) (Ret ())
     (frame 0x11 (concat (map encode_cmd [(1, [70000, - 3]), (2, [9])])) @ [0x7e])
     (length (frame 0x11 (concat (map encode_cmd [(1, [70000, - 3]), (2, [9])]))))
     (sched_boot 16000000 (\<lambda>_. 0) (\<lambda>_ _. False))
   = Ret () (command_sendf ''log'' [AInt 9] (command_sendf ''log'' [AInt 70000, AInt (- 3)]
       (sched_boot 16000000 (\<lambda>_. 0) (\<lambda>_ _. False))))"
proof -
  let ?ix = "[log_entry [], log_entry [PT_uint32, PT_int16], log_entry [PT_byte]]"
  let ?cs = "[(1, [70000, - 3]), (2, [9])] :: cmd list"
  have "\<forall>c\<in>set ?cs. cmd_ok ?ix c" by (simp add: cmd_ok_def log_entry_def int_param_def)
  from block_runs_commands [OF this, where str_id = "\<lambda>_. 0" and poll = "Ret ()" and seq = "0x11" and rest = "[0x7e]"
      and s = "sched_boot 16000000 (\<lambda>_. 0) (\<lambda>_ _. False)"]
  show ?thesis
    by (simp add: log_entry_def sched_is_shutdown_def sched_boot_def command_sendf_def)
qed

text \<open>C1 (steps_reach_motor). The steps that the host flushes are the steps the motor makes. The
  messages of a flush, cut into blocks in any way and dispatched by the firmware to a stepper that is
  still busy with earlier moves, make it step first as it was going to and then once for each flushed
  step, at a clock at most \<^verbatim>\<open>max_error\<close> ticks before the one that was asked for and never after it,
  and the stepper is idle afterwards. The stepper uses the optimized step function, has a free move for
  each step, its last queued step is the last one the host has sent, and no timer is due while the
  blocks are dispatched.\<close>

theorem steps_reach_motor:
  fixes s :: "'a stepper_st_scheme"
  assumes "queue_ok sc" and "uint (sc_max_error sc) \<le> 2 ^ 17" and "pending_steps sc \<le> 46341"
    and "stepper_ready s (sc_oid sc) fl xs mvs0" and "\<forall>mv\<in>set mvs0. step_move.sm_count mv \<noteq> 0"
    and "pending_steps sc \<le> length fl"
    and "last (planned_clocks s (ucast (sc_oid sc)) mvs0) = ucast (sc_last_step_clock sc)"
    and "0 < uint (sc_queue_step_msgtag sc)" and "uint (sc_queue_step_msgtag sc) < 0x3000"
    and "unat (sc_queue_step_msgtag sc) < length ix" and "queue_step_entry (ix ! unat (sc_queue_step_msgtag sc))"
    and "poll = Ret ()"
  shows "\<exists>sc' qms. queue_flush move_clock sc = Some (0, sc') \<and> sc_msg_queue sc' = sc_msg_queue sc @ qms \<and>
     (pending_steps sc' = 0 \<or> move_clock \<le> sc_last_step_clock sc') \<and>
     (\<forall>bs. concat (map snd bs) = map (\<lambda>qm. take (qm_len qm) (qm_msg qm)) qms \<longrightarrow>
       (\<exists>s1 s2 cs. dispatch_blocks ix str_id poll bs s = Ret () s1 \<and>
          step_clocks (ucast (sc_oid sc)) (length (planned_clocks s (ucast (sc_oid sc)) mvs0) + length cs) s1
            = Ret (planned_clocks s (ucast (sc_oid sc)) mvs0 @ cs) s2 \<and> st_count (steppers s2 (ucast (sc_oid sc))) = 0 \<and>
          length cs = pending_steps sc - pending_steps sc' \<and>
          (\<forall>j<length cs. sc_queue sc ! (sc_queue_pos sc + j) - cs ! j \<le> sc_max_error sc)))"
proof -
  let ?tag = "sc_queue_step_msgtag sc"
  from queue_flush_result [OF assms(1-3)] obtain mvs sc' where
    fl: "queue_flush move_clock sc = Some (0, sc')" "flushed sc mvs sc'"
      "pending_steps sc' = 0 \<or> move_clock \<le> sc_last_step_clock sc'" by blast
  then obtain qms where qms: "sc_msg_queue sc' = sc_msg_queue sc @ qms" "list_all2 (step_msg sc) mvs qms"
    unfolding flushed_def Let_def by blast
  have ok: "\<forall>c\<in>set (map (step_cmd ?tag (sc_oid sc)) mvs). cmd_ok ix c"
    using assms(8-11) by (auto simp: cmd_ok_def step_cmd_def queue_step_entry_def int_param_def)
  have "\<And>s. poll s = Ret () s" by (simp add: assms(12))
  note reach = flushed_reach_motor [OF fl(2) assms(4-7,11) this, of str_id]
  show ?thesis
    using fl(1,3) qms(1) reach dispatch_blocks_cmds [OF ok] step_msgs_cmds [OF qms(2)]
    by (intro exI [of _ sc'] exI [of _ qms]) simp
qed

text \<open>A stepper with object id 4 in its last step at clock 1000, and three free moves.\<close>

definition example_busy :: stepper_st where
  "example_busy = set_waketime (stepper_timer 4) 1000
     ((example_stepper (stepper_zero\<lparr>st_count := 1, st_flags := SF_OPTIMIZED_PATH\<rparr>))
       \<lparr>oids := Some (replicate 5 \<lparr>oid_ty = Some Config_stepper, oid_data = Some 0\<rparr>), oid_count := 5, move_free_list := Some 0,
        nodes := (\<lambda>n. \<lparr>mn_next = if n < 2 then Some (Suc n) else None, mn_data = M_none\<rparr>)\<rparr>)"

definition example_index :: "stepper_st command_parser list" where
  "example_index = replicate 8 \<lparr>cp_encoded_msgid = 0, cp_num_args = 4, cp_flags = 0,
     cp_param_types = [PT_byte, PT_uint32, PT_uint16, PT_int16],
     cp_func = (\<lambda>args. command_queue_step (args ! 0) (args ! 1) (args ! 2) (args ! 3))\<rparr>"

lemma example_busy_ready:
  "stepper_ready example_busy 4 [0, 1, 2] [] []"
  "planned_clocks example_busy 4 [] = [1000]"
proof -
  have st: "steppers example_busy 4 = stepper_zero\<lparr>st_count := 1, st_flags := SF_OPTIMIZED_PATH\<rparr>"
    by (simp add: example_busy_def)
  have f: "oids example_busy = Some (replicate 5 \<lparr>oid_ty = Some Config_stepper, oid_data = Some 0\<rparr>)"
    "oid_count example_busy = 5" "move_free_list example_busy = Some 0"
    "nodes example_busy = (\<lambda>n. \<lparr>mn_next = if n < 2 then Some (Suc n) else None, mn_data = M_none\<rparr>)"
    "waketime example_busy (stepper_timer 4) = 1000"
    by (simp_all add: example_busy_def set_waketime_def)
  have g: "HAVE_EDGE_OPTIMIZATION example_busy" "\<not> sched_is_shutdown example_busy"
    by (simp_all add: example_busy_def set_waketime_def example_stepper_def stepper_boot_def basecmd_boot_def
        sched_boot_def sched_is_shutdown_def basecmd.defs sched.defs stepper_st.defs)
  have "free_list example_busy [0, 1, 2]" by (simp add: free_list_def f numeral_2_eq_2)
  moreover have "mq_list example_busy (st_mq (steppers example_busy 4)) []" by (simp add: mq_list_def st stepper_zero_def)
  ultimately show "stepper_ready example_busy 4 [0, 1, 2] [] []"
    using g by (simp add: stepper_ready_def f st moves_queued_def optimized_def sf_consts)
  show "planned_clocks example_busy 4 [] = [1000]"
    by (simp add: planned_clocks_def current_clocks_def st f)
qed

theorem steps_reach_motor_witness:
  "\<exists>sc' qms. queue_flush 1250 example_sc = Some (0, sc') \<and> sc_msg_queue sc' = qms \<and>
     (\<exists>s1 s2 cs. dispatch_blocks example_index (\<lambda>_. 0) (Ret ()) [(0x11, map (\<lambda>qm. take (qm_len qm) (qm_msg qm)) qms)] example_busy
            = Ret () s1 \<and> step_clocks 4 (1 + length cs) s1 = Ret (1000 # cs) s2 \<and>
        (\<forall>j<length cs. [1100, 1205, 1300] ! j - cs ! j \<le> 25))"
proof -
  have sc: "sc_oid example_sc = 4" "sc_queue_step_msgtag example_sc = 7" "sc_last_step_clock example_sc = 1000"
    "sc_queue example_sc = [1100, 1205, 1300]" "sc_queue_pos example_sc = 0" "sc_max_error example_sc = 25"
    "sc_msg_queue example_sc = []"
    by (simp_all add: example_sc_def)
  have ix: "length example_index = 8" "queue_step_entry (example_index ! 7)"
    by (simp_all add: example_index_def queue_step_entry_def)
  note r = steps_reach_motor [of example_sc example_busy "[0, 1, 2]" "[]" "[]" example_index "Ret ()" 1250 "\<lambda>_. 0",
      unfolded sc, OF example_sc_ok(1)]
  have u: "ucast (4 :: u32) = (4 :: u8)" by simp
  have "\<exists>sc' qms. queue_flush 1250 example_sc = Some (0, sc') \<and> sc_msg_queue sc' = [] @ qms \<and>
    (pending_steps sc' = 0 \<or> 1250 \<le> sc_last_step_clock sc') \<and>
    (\<forall>bs. concat (map snd bs) = map (\<lambda>qm. take (qm_len qm) (qm_msg qm)) qms \<longrightarrow>
       (\<exists>s1 s2 cs. dispatch_blocks example_index (\<lambda>_. 0) (Ret ()) bs example_busy = Ret () s1 \<and>
          step_clocks 4 (length [1000 :: u32] + length cs) s1 = Ret ([1000] @ cs) s2 \<and> st_count (steppers s2 4) = 0 \<and>
          length cs = pending_steps example_sc - pending_steps sc' \<and>
          (\<forall>j<length cs. [1100, 1205, 1300] ! (0 + j) - cs ! j \<le> 25)))"
    unfolding u [symmetric] example_busy_ready(2) [folded u, symmetric]
    by (rule r) (simp_all add: example_sc_ok sc example_busy_ready [unfolded One_nat_def] ix)
  then obtain sc' qms where r: "queue_flush 1250 example_sc = Some (0, sc')" "sc_msg_queue sc' = qms"
    "\<forall>bs. concat (map snd bs) = map (\<lambda>qm. take (qm_len qm) (qm_msg qm)) qms \<longrightarrow>
       (\<exists>s1 s2 cs. dispatch_blocks example_index (\<lambda>_. 0) (Ret ()) bs example_busy = Ret () s1 \<and>
          step_clocks 4 (length [1000 :: u32] + length cs) s1 = Ret ([1000] @ cs) s2 \<and> st_count (steppers s2 4) = 0 \<and>
          length cs = pending_steps example_sc - pending_steps sc' \<and>
          (\<forall>j<length cs. [1100, 1205, 1300] ! (0 + j) - cs ! j \<le> 25))"
    unfolding append_Nil by blast
  have "concat (map snd [(0x11 :: u8, map (\<lambda>qm. take (qm_len qm) (qm_msg qm)) qms)]) = map (\<lambda>qm. take (qm_len qm) (qm_msg qm)) qms"
    by simp
  from r(3) [rule_format, OF this] obtain s1 s2 cs where
    "dispatch_blocks example_index (\<lambda>_. 0) (Ret ()) [(0x11, map (\<lambda>qm. take (qm_len qm) (qm_msg qm)) qms)] example_busy = Ret () s1"
    "step_clocks 4 (length [1000 :: u32] + length cs) s1 = Ret ([1000] @ cs) s2"
    "\<forall>j<length cs. [1100, 1205, 1300] ! (0 + j) - cs ! j \<le> 25" by blast
  then show ?thesis
    using r(1,2) by (intro exI [of _ sc'] exI [of _ qms] conjI exI [of _ s1] exI [of _ s2] exI [of _ cs]) simp_all
qed

end
