(* ===== verification/Steppersync.thy ===== *)
theory Steppersync
  imports Stepcompress "HOL-Library.Multiset"
begin

text \<open>
  Synchronisation of the steppers of one microcontroller
  (\<^verbatim>\<open>src/klippy/chelper/steppersync.c\<close>): a binary heap of the clocks at which the
  microcontroller's move queue has an item free again, and the merge of the steppers' message
  queues in the order of their clocks. Both are shown to refine their specifications: the heap a
  multiset of which the least element is replaced, the flush a merge.
\<close>

section \<open>Operations\<close>

text \<open>The messages of a flush are handed to \<^verbatim>\<open>serialqueue_send_batch\<close>; here they are a result.\<close>

record steppersync =
  ss_sc_list :: "stepcompress list"
  ss_move_clocks :: "u64 list"

definition steppersync_alloc :: "stepcompress list \<Rightarrow> nat \<Rightarrow> steppersync" where
  "steppersync_alloc sc_list move_num = \<lparr>ss_sc_list = sc_list, ss_move_clocks = replicate move_num 0\<rparr>"

definition steppersync_set_time :: "double \<Rightarrow> double \<Rightarrow> steppersync \<Rightarrow> steppersync" where
  "steppersync_set_time time_offset mcu_freq ss =
     ss\<lparr>ss_sc_list := map (stepcompress_set_time time_offset mcu_freq) (ss_sc_list ss)\<rparr>"

definition steppersync_history_expire :: "u64 \<Rightarrow> steppersync \<Rightarrow> steppersync" where
  "steppersync_history_expire end_clock ss =
     ss\<lparr>ss_sc_list := map (stepcompress_history_expire end_clock) (ss_sc_list ss)\<rparr>"

definition child_clock :: "u64 list \<Rightarrow> nat \<Rightarrow> u64" where
  "child_clock mc pos = (if pos < length mc then mc ! pos else UINT64_MAX)"

function heap_loop :: "u64 list \<Rightarrow> nat \<Rightarrow> u64 \<Rightarrow> u64 list option" where
  "heap_loop mc pos req_clock =
     (let child1_pos = 2 * pos + 1; child2_pos = 2 * pos + 2;
          child2_clock = child_clock mc child2_pos; child1_clock = child_clock mc child1_pos
      in if length mc \<le> pos then None
         else if req_clock \<le> child1_clock \<and> req_clock \<le> child2_clock then Some (mc[pos := req_clock])
         else if child1_clock < child2_clock then heap_loop (mc[pos := child1_clock]) child1_pos req_clock
         else heap_loop (mc[pos := child2_clock]) child2_pos req_clock)"
  by pat_completeness auto
termination
  by (relation "measure (\<lambda>(mc, pos, req). length mc - pos)") auto

declare heap_loop.simps [simp del]

definition heap_replace :: "u64 \<Rightarrow> u64 list \<Rightarrow> u64 list option" where
  "heap_replace req_clock mc = heap_loop mc 0 req_clock"

definition MAX_CLOCK :: u64 where "MAX_CLOCK = 0x7fffffffffffffff"

text \<open>The search for the message with the lowest \<^verbatim>\<open>req_clock\<close>: the index of its queue, the first one
  among equals.\<close>

fun lowest_loop :: "stepcompress list \<Rightarrow> nat \<Rightarrow> u64 \<Rightarrow> (nat \<times> queue_message) option \<Rightarrow> (nat \<times> queue_message) option" where
  "lowest_loop [] i req_clock found = found"
| "lowest_loop (sc # rest) i req_clock found =
     (case stepcompress_get_msg_queue sc of
        [] \<Rightarrow> lowest_loop rest (Suc i) req_clock found
      | m # _ \<Rightarrow> if qm_req_clock m < req_clock then lowest_loop rest (Suc i) (qm_req_clock m) (Some (i, m))
                 else lowest_loop rest (Suc i) req_clock found)"

definition del_first :: "nat \<Rightarrow> stepcompress list \<Rightarrow> stepcompress list" where
  "del_first i scs = scs[i := (scs ! i)\<lparr>sc_msg_queue := tl (sc_msg_queue (scs ! i))\<rparr>]"

definition queued_msgs :: "stepcompress list \<Rightarrow> nat" where
  "queued_msgs scs = sum_list (map (length \<circ> sc_msg_queue) scs)"

lemma lowest_loop_found:
  "lowest_loop scs i req found = Some (j, m) \<Longrightarrow>
     found = Some (j, m) \<or> i \<le> j \<and> j < i + length scs \<and> (\<exists>ms. sc_msg_queue (scs ! (j - i)) = m # ms)"
proof (induction scs arbitrary: i req found)
  case (Cons sc scs)
  show ?case
  proof (cases "sc_msg_queue sc")
    case Nil
    then show ?thesis using Cons.IH [of "Suc i" req found] Cons.prems by (auto simp: stepcompress_get_msg_queue_def)
  next
    case (Cons m' ms)
    then show ?thesis
      using Cons.IH [of "Suc i" "qm_req_clock m'" "Some (i, m')"] Cons.IH [of "Suc i" req found] Cons.prems
      by (auto simp: stepcompress_get_msg_queue_def split: if_splits)
  qed
qed simp

lemma queued_msgs_del:
  assumes "j < length scs" and "sc_msg_queue (scs ! j) = m # ms"
  shows "queued_msgs (del_first j scs) < queued_msgs scs"
proof -
  have "scs = take j scs @ scs ! j # drop (Suc j) scs" using assms(1) by (rule id_take_nth_drop)
  then have "queued_msgs scs = queued_msgs (take j scs @ scs ! j # drop (Suc j) scs)" by (rule arg_cong)
  moreover have "del_first j scs = take j scs @ (scs ! j)\<lparr>sc_msg_queue := ms\<rparr> # drop (Suc j) scs"
    using assms by (simp add: del_first_def upd_conv_take_nth_drop)
  ultimately show ?thesis using assms(2) by (simp add: queued_msgs_def)
qed

text \<open>The loop of \<^verbatim>\<open>steppersync_flush\<close>.\<close>

function flush_msgs :: "u64 \<Rightarrow> stepcompress list \<Rightarrow> u64 list \<Rightarrow> (queue_message list \<times> stepcompress list \<times> u64 list) option" where
  "flush_msgs move_clock scs mc =
     (case lowest_loop scs 0 MAX_CLOCK None of
        None \<Rightarrow> Some ([], scs, mc)
      | Some (i, qm) \<Rightarrow>
          if qm_min_clock qm \<noteq> 0 \<and> move_clock < qm_req_clock qm then Some ([], scs, mc)
          else do {
            next_avail \<leftarrow> rd mc 0;
            mc \<leftarrow> (if qm_min_clock qm \<noteq> 0 then heap_replace (qm_min_clock qm) mc else Some mc);
            (msgs, scs, mc) \<leftarrow> flush_msgs move_clock (del_first i scs) mc;
            Some (qm\<lparr>qm_min_clock := next_avail\<rparr> # msgs, scs, mc) })"
  by pat_completeness auto
termination
proof (relation "measure (\<lambda>(move_clock, scs, mc). queued_msgs scs)")
  fix move_clock scs mc x i qm xa xb
  assume "lowest_loop scs 0 MAX_CLOCK None = Some x" "(i, qm) = x"
  then have "i < length scs" "\<exists>ms. sc_msg_queue (scs ! i) = qm # ms"
    using lowest_loop_found [of scs 0 MAX_CLOCK None i qm] by auto
  then show "((move_clock, del_first i scs, xb), move_clock, scs, mc) \<in> measure (\<lambda>(move_clock, scs, mc). queued_msgs scs)"
    using queued_msgs_del by auto
qed simp

declare flush_msgs.simps [simp del]

definition steppersync_flush :: "u64 \<Rightarrow> steppersync \<Rightarrow> (queue_message list \<times> steppersync) option" where
  "steppersync_flush move_clock ss = do {
     (msgs, scs, mc) \<leftarrow> flush_msgs move_clock (ss_sc_list ss) (ss_move_clocks ss);
     Some (msgs, ss\<lparr>ss_sc_list := scs, ss_move_clocks := mc\<rparr>) }"

section \<open>The heap\<close>

definition heap :: "u64 list \<Rightarrow> bool" where
  "heap mc \<longleftrightarrow> (\<forall>i. 0 < i \<and> i < length mc \<longrightarrow> mc ! ((i - 1) div 2) \<le> mc ! i)"

text \<open>A heap with a hole at \<open>pos\<close>, into which \<open>req\<close> may go as far as the nodes above are concerned.\<close>

definition hole :: "u64 list \<Rightarrow> nat \<Rightarrow> u64 \<Rightarrow> bool" where
  "hole mc pos req \<longleftrightarrow> pos < length mc \<and>
     (\<forall>i. 0 < i \<and> i < length mc \<and> i \<noteq> pos \<and> (i - 1) div 2 \<noteq> pos \<longrightarrow> mc ! ((i - 1) div 2) \<le> mc ! i) \<and>
     (0 < pos \<longrightarrow> mc ! ((pos - 1) div 2) \<le> req \<and>
        (\<forall>i. 0 < i \<and> i < length mc \<and> (i - 1) div 2 = pos \<longrightarrow> mc ! ((pos - 1) div 2) \<le> mc ! i))"

lemma parent_iff: "0 < (i :: nat) \<Longrightarrow> (i - 1) div 2 = pos \<longleftrightarrow> i = 2 * pos + 1 \<or> i = 2 * pos + 2"
  by linarith

lemma hole_fill:
  assumes "hole mc pos req" and "req \<le> child_clock mc (2 * pos + 1)" and "req \<le> child_clock mc (2 * pos + 2)"
  shows "heap (mc[pos := req])"
  unfolding heap_def
proof (intro allI impI)
  fix i assume i: "0 < i \<and> i < length (mc[pos := req])"
  consider "i = pos" | "(i - 1) div 2 = pos" "i \<noteq> pos" | "i \<noteq> pos" "(i - 1) div 2 \<noteq> pos" by blast
  then show "mc[pos := req] ! ((i - 1) div 2) \<le> mc[pos := req] ! i"
  proof cases
    case 1
    then have "(i - 1) div 2 \<noteq> pos" using i by linarith
    then show ?thesis using 1 i assms(1) by (simp add: hole_def nth_list_update)
  next
    case 2
    then have "i = 2 * pos + 1 \<or> i = 2 * pos + 2" using i parent_iff by blast
    then show ?thesis using 2 i assms by (auto simp: child_clock_def hole_def split: if_splits)
  next
    case 3
    then show ?thesis using i assms(1) by (simp add: hole_def)
  qed
qed

lemma hole_down:
  assumes "hole mc pos req" and c: "c = 2 * pos + 1 \<and> d = 2 * pos + 2 \<or> c = 2 * pos + 2 \<and> d = 2 * pos + 1"
    and "c < length mc" and "mc ! c \<le> req" and "mc ! c \<le> child_clock mc d"
  shows "hole (mc[pos := mc ! c]) c req"
proof -
  have pos: "pos < length mc" "c \<noteq> pos" "0 < c" "(c - 1) div 2 = pos" using assms(1) c by (auto simp: hole_def)
  have up: "mc ! ((pos - 1) div 2) \<le> mc ! c" if "0 < pos" using assms(1,3) pos that by (simp add: hole_def)
  have other: "mc[pos := mc ! c] ! ((i - 1) div 2) \<le> mc[pos := mc ! c] ! i"
    if i: "0 < i" "i < length mc" "i \<noteq> c" "(i - 1) div 2 \<noteq> c" for i
  proof -
    consider "i = pos" | "(i - 1) div 2 = pos" "i \<noteq> pos" | "i \<noteq> pos" "(i - 1) div 2 \<noteq> pos" by blast
    then show ?thesis
    proof cases
      case 1
      then have "(i - 1) div 2 \<noteq> pos" using i by linarith
      then show ?thesis using 1 i up by (simp add: nth_list_update)
    next
      case 2
      then have "i = d" using i c parent_iff [of i pos] by auto
      then show ?thesis using 2 i assms(5) pos by (simp add: child_clock_def)
    qed (use assms(1) i in \<open>simp add: hole_def\<close>)
  qed
  have below: "mc ! c \<le> mc ! i" if i: "0 < i" "i < length mc" "(i - 1) div 2 = c" for i
  proof -
    have "i \<noteq> pos" "(i - 1) div 2 \<noteq> pos" using i pos c by auto
    then show ?thesis using assms(1) i unfolding hole_def by blast
  qed
  have ne: "i \<noteq> pos" if "0 < i" "(i - 1) div 2 = c" for i using that c by auto
  have "mc[pos := mc ! c] ! ((c - 1) div 2) \<le> mc[pos := mc ! c] ! i" if "0 < i" "i < length mc" "(i - 1) div 2 = c" for i
    using ne [OF that(1,3)] below [OF that] pos by simp
  moreover have "mc[pos := mc ! c] ! ((c - 1) div 2) \<le> req" using pos assms(4) by simp
  ultimately show ?thesis using assms(3) other unfolding hole_def length_list_update by blast
qed

lemma mset_swap_in:
  assumes "pos < length mc" and "c < length mc" and "c \<noteq> pos"
  shows "mset (mc[pos := mc ! c, c := req]) = mset (mc[pos := req])"
proof -
  have "mset (mc[pos := req]) = mset ((mc[pos := req])[pos := mc[pos := req] ! c, c := mc[pos := req] ! pos])"
    using assms by (intro mset_swap [symmetric]) simp_all
  then show ?thesis using assms by (simp add: list_update_swap)
qed

lemma heap_loop_result:
  "hole mc pos req \<Longrightarrow> \<exists>mc'. heap_loop mc pos req = Some mc' \<and> heap mc' \<and> mset mc' = mset (mc[pos := req])"
proof (induction mc pos req rule: heap_loop.induct)
  case (1 mc pos req)
  define c1 where "c1 = child_clock mc (2 * pos + 1)"
  define c2 where "c2 = child_clock mc (2 * pos + 2)"
  have len: "\<not> length mc \<le> pos" using 1(3) by (simp add: hole_def)
  have loop: "heap_loop mc pos req = (if req \<le> c1 \<and> req \<le> c2 then Some (mc[pos := req])
      else if c1 < c2 then heap_loop (mc[pos := c1]) (2 * pos + 1) req else heap_loop (mc[pos := c2]) (2 * pos + 2) req)"
    using len by (subst heap_loop.simps) (simp add: c1_def c2_def Let_def)
  have top: "x < y \<Longrightarrow> x \<noteq> UINT64_MAX" for x y :: u64 by (simp add: UINT64_MAX_def) (metis word_n1_ge leD)
  show ?case
  proof (cases "req \<le> c1 \<and> req \<le> c2")
    case True
    then show ?thesis using loop hole_fill [OF 1(3)] by (simp add: c1_def c2_def)
  next
    case stop: False
    show ?thesis
    proof (cases "c1 < c2")
      case True
      then have in1: "2 * pos + 1 < length mc" "c1 = mc ! (2 * pos + 1)" using top by (auto simp: c1_def child_clock_def split: if_splits)
      moreover have "c1 \<le> req" using stop True by auto
      ultimately have "hole (mc[pos := c1]) (2 * pos + 1) req"
        using hole_down [OF 1(3), of "2 * pos + 1" "2 * pos + 2"] True by (simp add: c2_def)
      from 1(1) [OF refl refl refl refl len _ _ this [unfolded c1_def]] stop True obtain mc' where
        "heap_loop (mc[pos := c1]) (2 * pos + 1) req = Some mc'" "heap mc'" "mset mc' = mset (mc[pos := c1, 2 * pos + 1 := req])"
        by (auto simp: c1_def c2_def)
      then show ?thesis unfolding loop using stop True in1 mset_swap_in [of pos mc "2 * pos + 1" req] len by auto
    next
      case False
      then have lt: "c2 < req" using stop by auto
      then have in2: "2 * pos + 2 < length mc" "c2 = mc ! (2 * pos + 2)" using top by (auto simp: c2_def child_clock_def split: if_splits)
      then have "hole (mc[pos := c2]) (2 * pos + 2) req"
        using hole_down [OF 1(3), of "2 * pos + 2" "2 * pos + 1"] False lt by (simp add: c1_def)
      from 1(2) [OF refl refl refl refl len _ _ this [unfolded c2_def]] stop False obtain mc' where
        "heap_loop (mc[pos := c2]) (2 * pos + 2) req = Some mc'" "heap mc'" "mset mc' = mset (mc[pos := c2, 2 * pos + 2 := req])"
        by (auto simp: c1_def c2_def)
      then show ?thesis unfolding loop using stop False in2 mset_swap_in [of pos mc "2 * pos + 2" req] len by auto
    qed
  qed
qed

lemma heap_hole: "heap mc \<Longrightarrow> mc \<noteq> [] \<Longrightarrow> hole mc 0 req"
  by (simp add: heap_def hole_def)

lemma heap_first_le: "heap mc \<Longrightarrow> i < length mc \<Longrightarrow> mc ! 0 \<le> mc ! i"
proof (induction i rule: less_induct)
  case (less i)
  show ?case
  proof (cases "i = 0")
    case False
    have "(i - 1) div 2 < i" using False by linarith
    then have "mc ! 0 \<le> mc ! ((i - 1) div 2)" using less by simp
    also have "\<dots> \<le> mc ! i" using less.prems False by (simp add: heap_def)
    finally show ?thesis .
  qed simp
qed

lemma heap_first_Min: "heap mc \<Longrightarrow> mc \<noteq> [] \<Longrightarrow> mc ! 0 = Min_mset (mset mc)"
  by (intro Min_eqI [symmetric]) (auto simp: in_set_conv_nth heap_first_le)

section \<open>A pool of slots\<close>

text \<open>What the flush needs of the heap: the least of a multiset of clocks, and replacing it. The
  specification of the stamps: each message gets the earliest clock at which a slot is free, and a
  message that uses a slot returns it at its own clock.\<close>

fun stamp :: "u64 multiset \<Rightarrow> queue_message list \<Rightarrow> queue_message list \<times> u64 multiset" where
  "stamp M [] = ([], M)"
| "stamp M (m # ms) =
     (let a = Min_mset M;
          (r, M) = stamp (if qm_min_clock m \<noteq> 0 then add_mset (qm_min_clock m) (M - {#a#}) else M) ms
      in (m\<lparr>qm_min_clock := a\<rparr> # r, M))"

fun stamp_with :: "('s \<Rightarrow> u64 option) \<Rightarrow> (u64 \<Rightarrow> 's \<Rightarrow> 's option) \<Rightarrow> 's \<Rightarrow> queue_message list \<Rightarrow> (queue_message list \<times> 's) option" where
  "stamp_with first replace s [] = Some ([], s)"
| "stamp_with first replace s (m # ms) = do {
     a \<leftarrow> first s;
     s \<leftarrow> (if qm_min_clock m \<noteq> 0 then replace (qm_min_clock m) s else Some s);
     (r, s) \<leftarrow> stamp_with first replace s ms;
     Some (m\<lparr>qm_min_clock := a\<rparr> # r, s) }"

locale slot_pool =
  fixes inv :: "'s \<Rightarrow> bool" and slots :: "'s \<Rightarrow> u64 multiset" and first :: "'s \<Rightarrow> u64 option"
    and replace :: "u64 \<Rightarrow> 's \<Rightarrow> 's option"
  assumes first_least: "inv s \<Longrightarrow> slots s \<noteq> {#} \<Longrightarrow> first s = Some (Min_mset (slots s))"
    and replace_least: "inv s \<Longrightarrow> slots s \<noteq> {#} \<Longrightarrow>
      \<exists>s'. replace c s = Some s' \<and> inv s' \<and> slots s' = add_mset c (slots s - {#Min_mset (slots s)#})"
begin

lemma stamp_with_stamp:
  "inv s \<Longrightarrow> slots s \<noteq> {#} \<Longrightarrow>
   \<exists>s'. stamp_with first replace s ms = Some (fst (stamp (slots s) ms), s') \<and> inv s' \<and> slots s' = snd (stamp (slots s) ms)"
proof (induction ms arbitrary: s)
  case (Cons m ms)
  define s1 where "s1 = (if qm_min_clock m \<noteq> 0 then the (replace (qm_min_clock m) s) else s)"
  have s1: "(if qm_min_clock m \<noteq> 0 then replace (qm_min_clock m) s else Some s) = Some s1" "inv s1"
    "slots s1 = (if qm_min_clock m \<noteq> 0 then add_mset (qm_min_clock m) (slots s - {#Min_mset (slots s)#}) else slots s)"
    using replace_least [OF Cons.prems, of "qm_min_clock m"] Cons.prems by (auto simp: s1_def)
  then have "slots s1 \<noteq> {#}" using Cons.prems by auto
  from Cons.IH [OF s1(2) this] obtain s' where
    "stamp_with first replace s1 ms = Some (fst (stamp (slots s1) ms), s')" "inv s'" "slots s' = snd (stamp (slots s1) ms)" by blast
  then show ?case
    using first_least [OF Cons.prems] s1 by (auto simp: Let_def split: prod.splits)
qed simp

end

interpretation clock_heap: slot_pool heap mset "\<lambda>mc. rd mc 0" heap_replace
proof
  fix mc :: "u64 list" and c
  assume h: "heap mc" "mset mc \<noteq> {#}"
  then have ne: "mc \<noteq> []" by simp
  then show "rd mc 0 = Some (Min_mset (mset mc))" using heap_first_Min [OF h(1)] by (simp add: rd_def)
  have "mset (mc[0 := c]) = add_mset c (mset mc - {#mc ! 0#})" using ne by (simp add: mset_update)
  then show "\<exists>mc'. heap_replace c mc = Some mc' \<and> heap mc' \<and> mset mc' = add_mset c (mset mc - {#Min_mset (mset mc)#})"
    using heap_loop_result [OF heap_hole [OF h(1) ne], of c] heap_first_Min [OF h(1) ne] by (simp add: heap_replace_def)
qed

section \<open>The merge\<close>

text \<open>The merge of queues: each message taken is the head of its queue and its clock is not above that
  of any other head.\<close>

definition least_head :: "queue_message \<Rightarrow> queue_message list list \<Rightarrow> bool" where
  "least_head m qs \<longleftrightarrow> (\<forall>q \<in> set qs. q \<noteq> [] \<longrightarrow> qm_req_clock m \<le> qm_req_clock (hd q))"

inductive picks :: "queue_message list list \<Rightarrow> (nat \<times> queue_message) list \<Rightarrow> queue_message list list \<Rightarrow> bool" where
  picks_Nil: "picks qs [] qs"
| picks_Cons: "i < length qs \<Longrightarrow> qs ! i = m # ms \<Longrightarrow> least_head m qs \<Longrightarrow> picks (qs[i := ms]) ps qs' \<Longrightarrow>
     picks qs ((i, m) # ps) qs'"

lemma picks_members: "picks qs ps qs' \<Longrightarrow> (i, m) \<in> set ps \<Longrightarrow> \<exists>q \<in> set qs. m \<in> set q"
proof (induction rule: picks.induct)
  case (picks_Cons j qs m' ms ps qs')
  show ?case
  proof (cases "(i, m) = (j, m')")
    case True
    then show ?thesis using picks_Cons.hyps(1,2) by (metis list.set_intros(1) nth_mem prod.inject)
  next
    case False
    then obtain q where q: "q \<in> set (qs[j := ms])" "m \<in> set q" using picks_Cons by auto
    then have "q = ms \<or> q \<in> set qs" using set_update_subset_insert [of qs j ms] by auto
    then show ?thesis using q(2) picks_Cons.hyps(1,2) by (metis list.set_intros(2) nth_mem)
  qed
qed simp

lemma lowest_loop_least:
  "lowest_loop scs i req found = Some (j, m) \<Longrightarrow> pred_option (\<lambda>(k, m'). qm_req_clock m' = req) found \<Longrightarrow>
   qm_req_clock m \<le> req \<and> (\<forall>sc \<in> set scs. \<forall>h t. sc_msg_queue sc = h # t \<longrightarrow> qm_req_clock m \<le> qm_req_clock h)"
proof (induction scs arbitrary: i req found)
  case (Cons sc scs)
  show ?case
  proof (cases "sc_msg_queue sc")
    case Nil
    then show ?thesis using Cons.IH [of "Suc i" req found] Cons.prems by (simp add: stepcompress_get_msg_queue_def)
  next
    case head: (Cons h t)
    show ?thesis
    proof (cases "qm_req_clock h < req")
      case True
      then show ?thesis using Cons.IH [of "Suc i" "qm_req_clock h" "Some (i, h)"] Cons.prems(1) head
        by (simp add: stepcompress_get_msg_queue_def) (meson less_imp_le order_trans)
    next
      case False
      then have "lowest_loop scs (Suc i) req found = Some (j, m)"
        using Cons.prems(1) head by (simp add: stepcompress_get_msg_queue_def)
      from Cons.IH [OF this Cons.prems(2)] False head show ?thesis by (auto simp: not_less)
    qed
  qed
qed simp

definition by_clock :: "queue_message list list \<Rightarrow> bool" where
  "by_clock qs \<longleftrightarrow> (\<forall>q \<in> set qs. sorted (map qm_req_clock q))"

text \<open>A message that is due: it needs no item of the move queue, or not after the given clock. A flush
  is at its end when no head has a clock below the limit, or a head that is the least is not due.\<close>

definition due :: "u64 \<Rightarrow> queue_message \<Rightarrow> bool" where
  "due move_clock m \<longleftrightarrow> (qm_min_clock m \<noteq> 0 \<longrightarrow> qm_req_clock m \<le> move_clock)"

definition flush_stops :: "u64 \<Rightarrow> queue_message list list \<Rightarrow> bool" where
  "flush_stops move_clock qs \<longleftrightarrow>
     (\<forall>q \<in> set qs. q \<noteq> [] \<longrightarrow> MAX_CLOCK \<le> qm_req_clock (hd q)) \<or>
     (\<exists>q \<in> set qs. q \<noteq> [] \<and> least_head (hd q) qs \<and> \<not> due move_clock (hd q))"

lemma lowest_loop_None:
  "lowest_loop scs i req found = None \<Longrightarrow>
   found = None \<and> (\<forall>sc \<in> set scs. sc_msg_queue sc \<noteq> [] \<longrightarrow> req \<le> qm_req_clock (hd (sc_msg_queue sc)))"
proof (induction scs arbitrary: i req found)
  case (Cons sc scs)
  show ?case
  proof (cases "sc_msg_queue sc")
    case Nil
    then show ?thesis using Cons.IH [of "Suc i" req found] Cons.prems by (simp add: stepcompress_get_msg_queue_def)
  next
    case (Cons m ms)
    then show ?thesis
      using Cons.IH [of "Suc i" "qm_req_clock m" "Some (i, m)"] Cons.IH [of "Suc i" req found] Cons.prems
      by (auto simp: stepcompress_get_msg_queue_def split: if_splits)
  qed
qed simp

lemma lowest_loop_head:
  assumes "lowest_loop scs 0 MAX_CLOCK None = Some (i, m)"
  obtains ms where "i < length scs" "sc_msg_queue (scs ! i) = m # ms" "least_head m (map sc_msg_queue scs)"
proof -
  obtain ms where i: "i < length scs" "sc_msg_queue (scs ! i) = m # ms" using lowest_loop_found [OF assms] by auto
  have "least_head m (map sc_msg_queue scs)"
    unfolding least_head_def
  proof (intro ballI impI)
    fix q assume "q \<in> set (map sc_msg_queue scs)" "q \<noteq> []"
    then obtain sc where "sc \<in> set scs" "sc_msg_queue sc = hd q # tl q" by auto
    then show "qm_req_clock m \<le> qm_req_clock (hd q)" using lowest_loop_least [OF assms] by simp
  qed
  with i that show ?thesis by blast
qed

text \<open>Which messages are taken does not depend on the heap.\<close>

lemma flush_msgs_picks:
  "\<exists>ps scs'. picks (map sc_msg_queue scs) ps (map sc_msg_queue scs') \<and>
     (\<forall>p \<in> set ps. due move_clock (snd p)) \<and> flush_stops move_clock (map sc_msg_queue scs') \<and>
     (by_clock (map sc_msg_queue scs) \<longrightarrow> sorted (map (qm_req_clock \<circ> snd) ps)) \<and>
     (\<forall>mc. flush_msgs move_clock scs mc =
        map_option (\<lambda>(r, mc'). (r, scs', mc')) (stamp_with (\<lambda>mc. rd mc 0) heap_replace mc (map snd ps)))"
proof (induction "queued_msgs scs" arbitrary: scs rule: less_induct)
  case less
  show ?case
  proof (cases "\<exists>i qm. lowest_loop scs 0 MAX_CLOCK None = Some (i, qm) \<and> due move_clock qm")
    case False
    have "flush_stops move_clock (map sc_msg_queue scs)"
    proof (cases "lowest_loop scs 0 MAX_CLOCK None")
      case None
      then show ?thesis using lowest_loop_None by (auto simp: flush_stops_def)
    next
      case (Some x)
      obtain i qm where low: "lowest_loop scs 0 MAX_CLOCK None = Some (i, qm)" "\<not> due move_clock qm"
        using Some False by (cases x) auto
      obtain ms where "i < length scs" "sc_msg_queue (scs ! i) = qm # ms" "least_head qm (map sc_msg_queue scs)"
        using lowest_loop_head [OF low(1)] .
      then show ?thesis unfolding flush_stops_def using low(2) by (metis length_map list.discI list.sel(1) nth_map nth_mem)
    qed
    moreover have "flush_msgs move_clock scs mc = Some ([], scs, mc)" for mc
      using False by (subst flush_msgs.simps) (auto simp: due_def split: option.splits)
    ultimately show ?thesis by (intro exI [of _ "[]"] exI [of _ scs]) (simp add: picks_Nil)
  next
    case True
    then obtain i qm where low: "lowest_loop scs 0 MAX_CLOCK None = Some (i, qm)" and due: "due move_clock qm" by blast
    then have go: "\<not> (qm_min_clock qm \<noteq> 0 \<and> move_clock < qm_req_clock qm)" by (auto simp: due_def)
    obtain ms where i: "i < length scs" "sc_msg_queue (scs ! i) = qm # ms" and head: "least_head qm (map sc_msg_queue scs)"
      using lowest_loop_head [OF low] .
    have qs: "map sc_msg_queue (del_first i scs) = (map sc_msg_queue scs)[i := ms]"
      using i by (simp add: del_first_def map_update)
    from less.hyps [OF queued_msgs_del [OF i]] obtain ps scs' where IH:
      "picks ((map sc_msg_queue scs)[i := ms]) ps (map sc_msg_queue scs')" "\<forall>p \<in> set ps. due move_clock (snd p)"
      "flush_stops move_clock (map sc_msg_queue scs')"
      "by_clock ((map sc_msg_queue scs)[i := ms]) \<longrightarrow> sorted (map (qm_req_clock \<circ> snd) ps)"
      "\<And>mc. flush_msgs move_clock (del_first i scs) mc =
        map_option (\<lambda>(r, mc'). (r, scs', mc')) (stamp_with (\<lambda>mc. rd mc 0) heap_replace mc (map snd ps))"
      unfolding qs by blast
    have picks: "picks (map sc_msg_queue scs) ((i, qm) # ps) (map sc_msg_queue scs')"
      using i head IH(1) by (intro picks_Cons [where ms = ms]) simp_all
    have sorted: "sorted (map (qm_req_clock \<circ> snd) ((i, qm) # ps))" if bc: "by_clock (map sc_msg_queue scs)"
    proof -
      have least: "qm_req_clock qm \<le> qm_req_clock m" if m: "sc \<in> set scs" "m \<in> set (sc_msg_queue sc)" for sc m
      proof -
        obtain h t where ht: "sc_msg_queue sc = h # t" using m(2) by (cases "sc_msg_queue sc") auto
        have "qm_req_clock qm \<le> qm_req_clock h" using lowest_loop_least [OF low] m(1) ht by auto
        moreover have "qm_req_clock h \<le> qm_req_clock m" using bc m ht by (auto simp: by_clock_def)
        ultimately show ?thesis by simp
      qed
      have sub: "\<exists>sc \<in> set scs. set q \<subseteq> set (sc_msg_queue sc)" if "q \<in> set ((map sc_msg_queue scs)[i := ms])" for q
        using set_update_subset_insert [of "map sc_msg_queue scs" i ms] that i
        by (metis (no_types, lifting) imageE insertE list.set_map nth_mem set_subset_Cons subsetD subset_refl)
      have "qm_req_clock qm \<le> qm_req_clock (snd p)" if "p \<in> set ps" for p
        using picks_members [OF IH(1), of "fst p" "snd p"] that sub least by (metis prod.collapse subsetD)
      moreover have "by_clock ((map sc_msg_queue scs)[i := ms])"
      proof -
        have "sorted (map qm_req_clock ms)" using bc i by (metis by_clock_def list.simps(9) nth_mem length_map nth_map sorted_simps(2))
        then show ?thesis using bc set_update_subset_insert [of "map sc_msg_queue scs" i ms] by (auto simp: by_clock_def)
      qed
      ultimately show ?thesis using IH(4) by simp
    qed
    have "flush_msgs move_clock scs mc =
        map_option (\<lambda>(r, mc'). (r, scs', mc')) (stamp_with (\<lambda>mc. rd mc 0) heap_replace mc (map snd ((i, qm) # ps)))" for mc
      using low go
      by (subst flush_msgs.simps) (auto simp: IH(5) split: option.splits Option.bind_splits)
    then show ?thesis using picks sorted due IH(2,3) by (intro exI [of _ "(i, qm) # ps"] exI [of _ scs']) auto
  qed
qed

section \<open>Properties\<close>

text \<open>\<^verbatim>\<open>heap_replace\<close> ends without leaving the array, keeps the heap order, and
  replaces the least clock, which is in front, by the new one.\<close>

theorem heap_replace_least:
  assumes "heap mc" and "mc \<noteq> []"
  shows "\<exists>mc'. heap_replace req_clock mc = Some mc' \<and> heap mc' \<and>
     mset mc' = add_mset req_clock (mset mc - {#mc ! 0#}) \<and> (\<forall>i < length mc. mc ! 0 \<le> mc ! i)"
  using clock_heap.replace_least [of mc req_clock] heap_first_Min heap_first_le assms by auto

theorem heap_replace_least_witness:
  "\<exists>mc'. heap_replace 9 [1, 3, 2] = Some mc' \<and> mset mc' = {#2, 3, 9#}"
proof -
  have "heap [1, 3, 2]" by (auto simp: heap_def less_Suc_eq numeral_3_eq_3)
  from heap_replace_least [OF this, of 9] show ?thesis by (auto simp: add_mset_commute)
qed

text \<open>C10 (steppersync_flush_merges). \<^verbatim>\<open>steppersync_flush\<close> merges the steppers' queues: each message it
  takes is the head of its queue with a clock not above that of any other head, so that the result is
  in the order of the clocks when each queue is. No message taken would use the move queue after the
  given clock, and the flush goes on until the least head would, or no head has a clock below
  \<^const>\<open>MAX_CLOCK\<close>. Each message is stamped with the earliest
  clock at which the microcontroller has a move queue item free, and each that uses one gives it
  back at its own clock: the flush refines the specification \<^const>\<open>stamp\<close> over a multiset.\<close>

theorem steppersync_flush_merges:
  assumes "heap (ss_move_clocks ss)" and "ss_move_clocks ss \<noteq> []"
  shows "\<exists>ps ss'. steppersync_flush move_clock ss = Some (fst (stamp (mset (ss_move_clocks ss)) (map snd ps)), ss') \<and>
     picks (map sc_msg_queue (ss_sc_list ss)) ps (map sc_msg_queue (ss_sc_list ss')) \<and>
     (by_clock (map sc_msg_queue (ss_sc_list ss)) \<longrightarrow> sorted (map (qm_req_clock \<circ> snd) ps)) \<and>
     (\<forall>p \<in> set ps. qm_min_clock (snd p) \<noteq> 0 \<longrightarrow> qm_req_clock (snd p) \<le> move_clock) \<and>
     flush_stops move_clock (map sc_msg_queue (ss_sc_list ss')) \<and> heap (ss_move_clocks ss') \<and>
     mset (ss_move_clocks ss') = snd (stamp (mset (ss_move_clocks ss)) (map snd ps))"
proof -
  from flush_msgs_picks [of "ss_sc_list ss" move_clock] obtain ps scs' where
    p: "picks (map sc_msg_queue (ss_sc_list ss)) ps (map sc_msg_queue scs')" "flush_stops move_clock (map sc_msg_queue scs')"
      "\<forall>p \<in> set ps. due move_clock (snd p)"
      "by_clock (map sc_msg_queue (ss_sc_list ss)) \<longrightarrow> sorted (map (qm_req_clock \<circ> snd) ps)"
      "\<And>mc. flush_msgs move_clock (ss_sc_list ss) mc =
        map_option (\<lambda>(r, mc'). (r, scs', mc')) (stamp_with (\<lambda>mc. rd mc 0) heap_replace mc (map snd ps))" by blast
  from clock_heap.stamp_with_stamp [of "ss_move_clocks ss" "map snd ps"] assms obtain mc' where
    "stamp_with (\<lambda>mc. rd mc 0) heap_replace (ss_move_clocks ss) (map snd ps) =
       Some (fst (stamp (mset (ss_move_clocks ss)) (map snd ps)), mc')"
    "heap mc'" "mset mc' = snd (stamp (mset (ss_move_clocks ss)) (map snd ps))" by auto
  then show ?thesis using p
    by (intro exI [of _ ps] exI [of _ "ss\<lparr>ss_sc_list := scs', ss_move_clocks := mc'\<rparr>"]) (simp add: steppersync_flush_def due_def)
qed

inductive_cases picks_NilE: "picks qs [] qs'"
inductive_cases picks_ConsE: "picks qs (p # ps) qs'"

theorem steppersync_flush_merges_witness:
  "\<exists>ss'. steppersync_flush 5000
       (steppersync_alloc [example_sc\<lparr>sc_msg_queue := [message_alloc\<lparr>qm_min_clock := 9100, qm_req_clock := 9000\<rparr>]\<rparr>,
          example_sc\<lparr>sc_msg_queue := [message_alloc\<lparr>qm_min_clock := 150, qm_req_clock := 100\<rparr>]\<rparr>] 3)
     = Some ([message_alloc\<lparr>qm_min_clock := 0, qm_req_clock := 100\<rparr>], ss') \<and>
     mset (ss_move_clocks ss') = {#0, 0, 150#}"
proof -
  let ?a = "message_alloc\<lparr>qm_min_clock := 9100, qm_req_clock := 9000\<rparr>"
  let ?b = "message_alloc\<lparr>qm_min_clock := 150, qm_req_clock := 100\<rparr>"
  define ss where "ss = steppersync_alloc [example_sc\<lparr>sc_msg_queue := [?a]\<rparr>, example_sc\<lparr>sc_msg_queue := [?b]\<rparr>] 3"
  have h: "heap (ss_move_clocks ss)" unfolding heap_def by (auto simp: ss_def steppersync_alloc_def intro!: nth_replicate)
  have m: "mset (ss_move_clocks ss) = {#0, 0, 0#}" and ne: "ss_move_clocks ss \<noteq> []"
    and q: "map sc_msg_queue (ss_sc_list ss) = [[?a], [?b]]"
    by (simp_all add: ss_def steppersync_alloc_def numeral_3_eq_3)
  from steppersync_flush_merges [OF h ne, of 5000, unfolded m q] obtain ps :: "(nat \<times> queue_message) list" and ss' where
    r: "steppersync_flush 5000 ss = Some (fst (stamp {#0, 0, 0#} (map snd ps)), ss')"
    "picks [[?a], [?b]] ps (map sc_msg_queue (ss_sc_list ss'))"
    "\<forall>p \<in> set ps. qm_min_clock (snd p) \<noteq> 0 \<longrightarrow> qm_req_clock (snd p) \<le> 5000"
    "flush_stops 5000 (map sc_msg_queue (ss_sc_list ss'))"
    "mset (ss_move_clocks ss') = snd (stamp {#0, 0, 0#} (map snd ps))" by blast
  have "\<not> flush_stops 5000 [[?a], [?b]]" by (simp add: flush_stops_def least_head_def due_def MAX_CLOCK_def)
  then have "ps \<noteq> []" using r(2,4) by (auto elim: picks_NilE)
  then obtain p ps' where ps: "ps = p # ps'" by (cases ps) auto
  from r(2) have p: "p = (1, ?b)" "picks [[?a], []] ps' (map sc_msg_queue (ss_sc_list ss'))"
    unfolding ps by (auto elim!: picks_ConsE simp: less_Suc_eq least_head_def)
  have "ps' = []"
  proof (cases ps')
    case (Cons p2 ps2)
    with p(2) have "p2 = (0, ?a)" by (auto elim!: picks_ConsE simp: less_Suc_eq)
    then show ?thesis using r(3) by (simp add: ps Cons)
  qed simp
  then have "map snd ps = [?b]" by (simp add: ps p)
  then show ?thesis using r(1,5) unfolding ss_def [symmetric] by (auto simp: Let_def)
qed

end
