(* ===== verification/Pollreactor.thy ===== *)
theory Pollreactor
  imports Double Prelude "HOL-Library.Monad_Syntax"
begin

text \<open>
  The event loop of the host's background thread
  (\<^verbatim>\<open>src/klippy/chelper/pollreactor.c\<close>). A callback is a tag of type \<open>'cb\<close> that the user of the
  reactor gives a meaning, a function on the state \<open>'s\<close> the callback data point to; the reactor itself
  is a part of that state, so the functions that run callbacks take the two functions that read
  and store it. What the operating system answers to \<^verbatim>\<open>poll\<close> and \<^verbatim>\<open>get_monotonic\<close> is an argument.
  The value None is what C does not define: a position outside an array, a NULL callback.
\<close>

section \<open>Operations\<close>

definition PR_NOW :: double where "PR_NOW = 0"

definition PR_NEVER :: double where "PR_NEVER = rnd 9999999999999999"

record 'cb pollreactor_timer =
  waketime :: double
  callback :: "'cb option"

record 'cb pollfd =
  pf_fd :: int
  pf_readable :: bool
  fd_callback :: "'cb option"

record 'cb pollreactor =
  num_fds :: nat
  num_timers :: nat
  must_exit :: bool
  next_timer :: double
  fds :: "'cb pollfd list"
  timers :: "'cb pollreactor_timer list"

definition pollreactor_alloc :: "nat \<Rightarrow> nat \<Rightarrow> 'cb pollreactor" where
  "pollreactor_alloc nfds ntimers =
     \<lparr>num_fds = nfds, num_timers = ntimers, must_exit = False, next_timer = PR_NEVER,
      fds = replicate nfds \<lparr>pf_fd = 0, pf_readable = False, fd_callback = None\<rparr>,
      timers = replicate ntimers \<lparr>waketime = PR_NEVER, callback = None\<rparr>\<rparr>"

definition pollreactor_add_fd :: "nat \<Rightarrow> int \<Rightarrow> 'cb \<Rightarrow> bool \<Rightarrow> 'cb pollreactor \<Rightarrow> 'cb pollreactor option" where
  "pollreactor_add_fd pos fd cb write_only pr =
     (if pos < length (fds pr)
      then Some (pr\<lparr>fds := (fds pr)[pos := \<lparr>pf_fd = fd, pf_readable = \<not> write_only, fd_callback = Some cb\<rparr>]\<rparr>)
      else None)"

definition pollreactor_add_timer :: "nat \<Rightarrow> 'cb \<Rightarrow> 'cb pollreactor \<Rightarrow> 'cb pollreactor option" where
  "pollreactor_add_timer pos cb pr =
     (if pos < length (timers pr)
      then Some (pr\<lparr>timers := (timers pr)[pos := \<lparr>waketime = PR_NEVER, callback = Some cb\<rparr>]\<rparr>) else None)"

definition pollreactor_get_timer :: "nat \<Rightarrow> 'cb pollreactor \<Rightarrow> double option" where
  "pollreactor_get_timer pos pr = map_option waketime (rd (timers pr) pos)"

definition pollreactor_update_timer :: "nat \<Rightarrow> double \<Rightarrow> 'cb pollreactor \<Rightarrow> 'cb pollreactor option" where
  "pollreactor_update_timer pos t pr = do {
     timer \<leftarrow> rd (timers pr) pos;
     let pr = pr\<lparr>timers := (timers pr)[pos := timer\<lparr>waketime := t\<rparr>]\<rparr>;
     Some (if t < next_timer pr then pr\<lparr>next_timer := t\<rparr> else pr) }"

definition pollreactor_do_exit :: "'cb pollreactor \<Rightarrow> 'cb pollreactor" where
  "pollreactor_do_exit pr = pr\<lparr>must_exit := True\<rparr>"

definition pollreactor_is_exit :: "'cb pollreactor \<Rightarrow> bool" where
  "pollreactor_is_exit pr = must_exit pr"

text \<open>One round of the loop over the timers; the loop runs its body for \<open>n\<close> more timers.\<close>

definition timer_set_waketime :: "nat \<Rightarrow> double \<Rightarrow> 'cb pollreactor \<Rightarrow> 'cb pollreactor" where
  "timer_set_waketime i t pr = pr\<lparr>timers := (timers pr)[i := (timers pr ! i)\<lparr>waketime := t\<rparr>]\<rparr>"

definition check_timer ::
  "('s \<Rightarrow> 'cb pollreactor) \<Rightarrow> ('cb pollreactor \<Rightarrow> 's \<Rightarrow> 's) \<Rightarrow> ('cb \<Rightarrow> double \<Rightarrow> 's \<Rightarrow> (double \<times> 's) option) \<Rightarrow>
   double \<Rightarrow> nat \<Rightarrow> bool \<Rightarrow> 's \<Rightarrow> (bool \<times> 's) option" where
  "check_timer get put call eventtime i busy s = do {
     timer \<leftarrow> rd (timers (get s)) i;
     (busy, t, s) \<leftarrow>
       (if waketime timer \<le> eventtime then do {
          cb \<leftarrow> callback timer;
          (t, s) \<leftarrow> call cb eventtime s;
          Some (True, t, put (timer_set_waketime i t (get s)) s) }
        else Some (busy, waketime timer, s));
     Some (busy, if t < next_timer (get s) then put ((get s)\<lparr>next_timer := t\<rparr>) s else s) }"

fun check_timers_loop ::
  "('s \<Rightarrow> 'cb pollreactor) \<Rightarrow> ('cb pollreactor \<Rightarrow> 's \<Rightarrow> 's) \<Rightarrow> ('cb \<Rightarrow> double \<Rightarrow> 's \<Rightarrow> (double \<times> 's) option) \<Rightarrow>
   double \<Rightarrow> nat \<Rightarrow> nat \<Rightarrow> bool \<Rightarrow> 's \<Rightarrow> (bool \<times> 's) option" where
  "check_timers_loop get put call eventtime i 0 busy s = Some (busy, s)"
| "check_timers_loop get put call eventtime i (Suc n) busy s = do {
     (busy, s) \<leftarrow> check_timer get put call eventtime i busy s;
     check_timers_loop get put call eventtime (Suc i) n busy s }"

definition sleep_time :: "double \<Rightarrow> double \<Rightarrow> int" where
  "sleep_time next eventtime =
     (let timeout = \<lceil>dmul (dsub next eventtime) 1000\<rceil>
      in if timeout < 1 then 1 else if 1000 < timeout then 1000 else timeout)"

definition pollreactor_check_timers ::
  "('s \<Rightarrow> 'cb pollreactor) \<Rightarrow> ('cb pollreactor \<Rightarrow> 's \<Rightarrow> 's) \<Rightarrow> ('cb \<Rightarrow> double \<Rightarrow> 's \<Rightarrow> (double \<times> 's) option) \<Rightarrow>
   double \<Rightarrow> bool \<Rightarrow> 's \<Rightarrow> (int \<times> 's) option" where
  "pollreactor_check_timers get put call eventtime busy s = do {
     (busy, s) \<leftarrow>
       (if next_timer (get s) \<le> eventtime
        then check_timers_loop get put call eventtime 0 (num_timers (get s)) busy
               (put ((get s)\<lparr>next_timer := PR_NEVER\<rparr>) s)
        else Some (busy, s));
     Some (if busy then 0 else sleep_time (next_timer (get s)) eventtime, s) }"

text \<open>What happens in \<^verbatim>\<open>poll\<close>: its result, the time after it, the positions with events and what
  the callbacks will read.\<close>

record 'i poll_result =
  poll_ret :: int
  poll_time :: double
  poll_revents :: "nat \<Rightarrow> bool"
  poll_input :: 'i

fun fd_loop ::
  "('s \<Rightarrow> 'cb pollreactor) \<Rightarrow> ('cb \<Rightarrow> 'i \<Rightarrow> double \<Rightarrow> 's \<Rightarrow> 's option) \<Rightarrow> 'i poll_result \<Rightarrow> nat \<Rightarrow> nat \<Rightarrow> 's \<Rightarrow> 's option" where
  "fd_loop get callfd ev i 0 s = Some s"
| "fd_loop get callfd ev i (Suc n) s = do {
     pf \<leftarrow> rd (fds (get s)) i;
     s \<leftarrow> (if poll_revents ev i
          then do { cb \<leftarrow> fd_callback pf; callfd cb (poll_input ev) (poll_time ev) s } else Some s);
     fd_loop get callfd ev (Suc i) n s }"

text \<open>The main loop over what \<^verbatim>\<open>poll\<close> answers round by round; the result has the state when the
  answers given are used up or the loop is left, and the calls of \<^verbatim>\<open>poll\<close>: the time, the timeout in
  milliseconds and the reactor at the call.\<close>

record 'cb poll_call =
  pc_time :: double
  pc_timeout :: int
  pc_reactor :: "'cb pollreactor"

fun run_loop ::
  "('s \<Rightarrow> 'cb pollreactor) \<Rightarrow> ('cb pollreactor \<Rightarrow> 's \<Rightarrow> 's) \<Rightarrow> ('cb \<Rightarrow> double \<Rightarrow> 's \<Rightarrow> (double \<times> 's) option) \<Rightarrow>
   ('cb \<Rightarrow> 'i \<Rightarrow> double \<Rightarrow> 's \<Rightarrow> 's option) \<Rightarrow> 'i poll_result list \<Rightarrow> double \<Rightarrow> bool \<Rightarrow> 's \<Rightarrow> ('cb poll_call list \<times> 's) option" where
  "run_loop get put call callfd [] eventtime busy s = Some ([], s)"
| "run_loop get put call callfd (ev # evs) eventtime busy s =
     (if must_exit (get s) then Some ([], s)
      else do {
        (timeout, s) \<leftarrow> pollreactor_check_timers get put call eventtime busy s;
        let pc = \<lparr>pc_time = eventtime, pc_timeout = timeout, pc_reactor = get s\<rparr>;
        s \<leftarrow> (if 0 < poll_ret ev then fd_loop get callfd ev 0 (num_fds (get s)) s
             else if poll_ret ev < 0 then Some (put (pollreactor_do_exit (get s)) s) else Some s);
        (pcs, s) \<leftarrow> run_loop get put call callfd evs (poll_time ev) (0 < poll_ret ev) s;
        Some (pc # pcs, s) })"

definition pollreactor_run ::
  "('s \<Rightarrow> 'cb pollreactor) \<Rightarrow> ('cb pollreactor \<Rightarrow> 's \<Rightarrow> 's) \<Rightarrow> ('cb \<Rightarrow> double \<Rightarrow> 's \<Rightarrow> (double \<times> 's) option) \<Rightarrow>
   ('cb \<Rightarrow> 'i \<Rightarrow> double \<Rightarrow> 's \<Rightarrow> 's option) \<Rightarrow> double \<Rightarrow> 'i poll_result list \<Rightarrow> 's \<Rightarrow> ('cb poll_call list \<times> 's) option" where
  "pollreactor_run get put call callfd start evs s = run_loop get put call callfd evs start True s"

section \<open>No timer is missed\<close>

text \<open>The literal is not a double: it is rounded to the next even one.\<close>

lemma PR_NEVER_eq: "PR_NEVER = 10000000000000000"
proof -
  have "floorlog 2 (nat 9999999999999999) = 54"
  proof (rule antisym)
    show "floorlog 2 (nat 9999999999999999) \<le> 54" by (rule floorlog_leI) simp_all
    show "54 \<le> floorlog 2 (nat 9999999999999999)" by (rule floorlog_geI) simp_all
  qed
  then have "exponent 9999999999999999 = 53" using exponent_int [of 9999999999999999] by simp
  moreover have "round_even (9999999999999999 / 2) = 5000000000000000"
  proof -
    have "\<lfloor>9999999999999999 / 2 :: rat\<rfloor> = 4999999999999999" by (simp add: floor_eq_iff)
    then show ?thesis by (simp add: round_even_def Let_def)
  qed
  ultimately show ?thesis by (simp add: PR_NEVER_def rnd_def Let_def)
qed

text \<open>The reactor only looks at the timers when the time \<^verbatim>\<open>next_timer\<close> has come, so this field must never
  be later than a wake-up time.\<close>

definition armed :: "'cb pollreactor \<Rightarrow> bool" where
  "armed pr \<longleftrightarrow> (\<forall>timer \<in> set (timers pr). next_timer pr \<le> waketime timer)"

definition same_setup :: "'cb pollreactor \<Rightarrow> 'cb pollreactor \<Rightarrow> bool" where
  "same_setup pr pr' \<longleftrightarrow> num_fds pr' = num_fds pr \<and> num_timers pr' = num_timers pr \<and> fds pr' = fds pr \<and>
     map callback (timers pr') = map callback (timers pr)"

text \<open>What callbacks may do to the timers: set one and see that \<^verbatim>\<open>next_timer\<close> is not later.\<close>

definition timers_moved :: "'cb pollreactor \<Rightarrow> 'cb pollreactor \<Rightarrow> bool" where
  "timers_moved pr pr' \<longleftrightarrow> same_setup pr pr' \<and> next_timer pr' \<le> next_timer pr \<and>
     (\<forall>i < length (timers pr'). waketime (timers pr' ! i) = waketime (timers pr ! i) \<or>
        next_timer pr' \<le> waketime (timers pr' ! i))"

lemma same_setup_refl [simp]: "same_setup pr pr"
  by (simp add: same_setup_def)

lemma same_setup_trans: "same_setup a b \<Longrightarrow> same_setup b c \<Longrightarrow> same_setup a c"
  by (simp add: same_setup_def)

lemma same_setup_length: "same_setup a b \<Longrightarrow> length (timers b) = length (timers a)"
  unfolding same_setup_def by (metis length_map)

lemma timers_moved_refl [simp]: "timers_moved pr pr"
  by (simp add: timers_moved_def)

lemma timers_moved_trans:
  assumes "timers_moved a b" and "timers_moved b c"
  shows "timers_moved a c"
proof -
  have s: "same_setup a c" using assms same_setup_trans by (auto simp: timers_moved_def)
  have l: "length (timers c) = length (timers b)" using assms(2) same_setup_length by (auto simp: timers_moved_def)
  show ?thesis
    unfolding timers_moved_def
  proof (intro conjI allI impI)
    show "next_timer c \<le> next_timer a" using assms by (auto simp: timers_moved_def)
    fix i
    assume "i < length (timers c)"
    then have "waketime (timers b ! i) = waketime (timers a ! i) \<or> next_timer b \<le> waketime (timers b ! i)"
      and "waketime (timers c ! i) = waketime (timers b ! i) \<or> next_timer c \<le> waketime (timers c ! i)"
      and "next_timer c \<le> next_timer b"
      using assms l by (auto simp: timers_moved_def)
    then show "waketime (timers c ! i) = waketime (timers a ! i) \<or> next_timer c \<le> waketime (timers c ! i)"
      by auto
  qed (rule s)
qed

lemma update_timer_moved:
  assumes "pos < length (timers pr)"
  shows "\<exists>pr'. pollreactor_update_timer pos t pr = Some pr' \<and> timers_moved pr pr' \<and> must_exit pr' = must_exit pr \<and>
     waketime (timers pr' ! pos) = t"
proof -
  have cb: "map callback ((timers pr)[pos := (timers pr ! pos)\<lparr>waketime := t\<rparr>]) = map callback (timers pr)"
    using assms by (simp add: map_update list_update_same_conv)
  show ?thesis
    using assms cb
    by (auto simp: pollreactor_update_timer_def rd_def Let_def timers_moved_def same_setup_def nth_list_update)
qed

lemma do_exit_moved [simp]: "timers_moved pr (pollreactor_do_exit pr)"
  by (simp add: pollreactor_do_exit_def timers_moved_def same_setup_def)

lemma armed_nth: "armed pr \<longleftrightarrow> (\<forall>i < length (timers pr). next_timer pr \<le> waketime (timers pr ! i))"
  by (simp add: armed_def all_set_conv_all_nth)

lemma timers_moved_armed: "armed pr \<Longrightarrow> timers_moved pr pr' \<Longrightarrow> armed pr'"
  unfolding armed_nth timers_moved_def using same_setup_length [of pr pr'] by force

lemma sleep_time_bounds: "1 \<le> sleep_time next eventtime \<and> sleep_time next eventtime \<le> 1000"
  by (simp add: sleep_time_def Let_def)

text \<open>How long \<^verbatim>\<open>poll\<close> may sleep. Either it does not, or no timer is due and it wakes up at most a
  millisecond after the first timer, up to the rounding of the computation; and unless it sleeps the full
  second it does not wake up before \<^verbatim>\<open>next_timer\<close>.\<close>

definition sleep_ok :: "'cb poll_call \<Rightarrow> bool" where
  "sleep_ok pc \<longleftrightarrow> pc_timeout pc = 0 \<or>
     1 \<le> pc_timeout pc \<and> pc_timeout pc \<le> 1000 \<and>
     (\<forall>timer \<in> set (timers (pc_reactor pc)). pc_time pc < waketime timer \<and>
        pc_time pc + of_int (pc_timeout pc) / 1000 \<le> waketime timer + 1 / 1000 + 1 / 2 ^ 50) \<and>
     (pc_timeout pc < 1000 \<longrightarrow>
        next_timer (pc_reactor pc) \<le> pc_time pc + of_int (pc_timeout pc) / 1000 + 1 / 2 ^ 50)"

lemma timeout_error:
  assumes "0 \<le> d" and "d \<le> 2"
  shows "\<bar>rnd (rnd d * 1000) - d * 1000\<bar> \<le> 5000 / 2 ^ 53"
proof -
  have d: "\<bar>rnd d - d\<bar> \<le> 2 / 2 ^ 53" using rnd_error [of d] assms by simp
  moreover have "(2 :: rat) / 2 ^ 53 \<le> 1" by simp
  ultimately have r: "\<bar>rnd d\<bar> \<le> 3" using assms by linarith
  have "\<bar>rnd (rnd d * 1000) - rnd d * 1000\<bar> \<le> 3000 / 2 ^ 53"
    using rnd_error [of "rnd d * 1000"] r by (simp add: abs_mult)
  then show ?thesis using d by linarith
qed

lemma sleep_time_late:
  assumes "next \<le> w" and "e < w"
  shows "e + of_int (sleep_time next e) / 1000 \<le> w + 1 / 1000 + 1 / 2 ^ 50"
proof (cases "sleep_time next e = 1")
  case True
  then show ?thesis using assms(2) by simp
next
  case False
  define x where "x = rnd (rnd (next - e) * 1000)"
  define q where "q = rat_of_int (sleep_time next e)"
  define u :: rat where "u = 1 / 2 ^ 50"
  have u: "0 < u" "5000 / 2 ^ 53 = 625 * u" by (simp_all add: u_def)
  have T: "q - 1 < x"
    using False unfolding q_def sleep_time_def dmul_def dsub_def x_def [symmetric] Let_def by (auto split: if_splits) linarith+
  have q: "2 \<le> q" "q \<le> 1000" using sleep_time_bounds [of "next" e] False by (simp_all add: q_def)
  have "e + q / 1000 \<le> w + 1 / 1000 + u"
  proof (rule ccontr)
    assume "\<not> ?thesis"
    then have far: "(next - e) * 1000 < q - 1 - 1000 * u" using assms(1) by simp
    have "0 < x" using T q(1) by simp
    then have "0 < next - e"
      using rnd_mono [of "next - e" 0] rnd_mono [of "rnd (next - e) * 1000" 0] by (force simp: x_def not_less)
    moreover have "next - e \<le> 2" using far q u(1) by simp
    ultimately have "x \<le> (next - e) * 1000 + 625 * u" using timeout_error [of "next - e"] unfolding x_def [symmetric] u(2) by simp
    with far T u(1) show False by simp
  qed
  then show ?thesis by (simp add: q_def u_def)
qed

lemma sleep_time_early:
  assumes "sleep_time next e < 1000"
  shows "next \<le> e + of_int (sleep_time next e) / 1000 + 1 / 2 ^ 50"
proof -
  define x where "x = rnd (rnd (next - e) * 1000)"
  define q where "q = rat_of_int (sleep_time next e)"
  define u :: rat where "u = 1 / 2 ^ 50"
  have u: "0 < u" "5000 / 2 ^ 53 = 625 * u" by (simp_all add: u_def)
  have T: "x \<le> q"
    using assms unfolding q_def sleep_time_def dmul_def dsub_def x_def [symmetric] Let_def by (auto split: if_splits)
  have q: "1 \<le> q" "q \<le> 1000" using sleep_time_bounds [of "next" e] by (simp_all add: q_def)
  have "next \<le> e + q / 1000 + u"
  proof (rule ccontr)
    assume "\<not> ?thesis"
    then have far: "q + 1000 * u < (next - e) * 1000" by simp
    show False
    proof (cases "next - e \<le> 2")
      case True
      moreover have "0 \<le> next - e" using far q u(1) by simp
      ultimately have "(next - e) * 1000 \<le> x + 625 * u" using timeout_error [of "next - e"] unfolding x_def [symmetric] u(2) by simp
      with far T u(1) show False by simp
    next
      case False
      then have "rnd 2 \<le> rnd (next - e)" by (intro rnd_mono) simp
      then have "2 \<le> rnd (next - e)" using rnd_int [of 2] by simp
      then have "rnd 2000 \<le> x" unfolding x_def by (intro rnd_mono) simp
      then have "2000 \<le> x" using rnd_int [of 2000] by simp
      with T q show False by simp
    qed
  qed
  then show ?thesis by (simp add: q_def u_def)
qed

lemma sleep_time_ok:
  assumes "armed pr" and "\<forall>timer \<in> set (timers pr). e < waketime timer"
  shows "sleep_ok \<lparr>pc_time = e, pc_timeout = sleep_time (next_timer pr) e, pc_reactor = pr\<rparr>"
  using assms sleep_time_bounds [of "next_timer pr" e] sleep_time_late [of "next_timer pr" _ e] sleep_time_early [of "next_timer pr" e]
  by (simp add: sleep_ok_def armed_def)

text \<open>A user of the reactor: its timer callbacks return and keep an invariant, of which \<open>inv n\<close> allows \<open>n\<close>
  more of them; they and the callbacks of the file descriptors change timers only as above.\<close>

locale reactor_client =
  fixes get :: "'s \<Rightarrow> 'cb pollreactor" and put :: "'cb pollreactor \<Rightarrow> 's \<Rightarrow> 's"
    and call :: "'cb \<Rightarrow> double \<Rightarrow> 's \<Rightarrow> (double \<times> 's) option"
    and callfd :: "'cb \<Rightarrow> 'i \<Rightarrow> double \<Rightarrow> 's \<Rightarrow> 's option"
    and inv :: "nat \<Rightarrow> 's \<Rightarrow> bool" and input_ok :: "'i \<Rightarrow> bool"
  assumes get_put: "get (put pr s) = pr"
    and put_inv: "inv n s \<Longrightarrow> same_setup (get s) pr \<Longrightarrow> inv n (put pr s)"
    and inv_less: "inv (Suc n) s \<Longrightarrow> inv n s"
    and sizes: "inv n s \<Longrightarrow> length (timers (get s)) = num_timers (get s) \<and> length (fds (get s)) = num_fds (get s)"
    and call_ok: "inv (Suc n) s \<Longrightarrow> timer \<in> set (timers (get s)) \<Longrightarrow>
      \<exists>cb t s'. callback timer = Some cb \<and> call cb e s = Some (t, s') \<and> inv n s' \<and> timers_moved (get s) (get s')"
    and callfd_ok: "inv n s \<Longrightarrow> pf \<in> set (fds (get s)) \<Longrightarrow> input_ok inp \<Longrightarrow>
      \<exists>cb s'. fd_callback pf = Some cb \<and> callfd cb inp e s = Some s' \<and> inv n s' \<and> timers_moved (get s) (get s')"
begin

lemma inv_add: "inv (k + n) s \<Longrightarrow> inv n s"
  by (induction k) (auto dest: inv_less)

lemma check_timer_step:
  assumes inv: "inv (Suc n) s" and i: "i < length (timers (get s))"
    and before: "\<And>j. j < i \<Longrightarrow> next_timer (get s) \<le> waketime (timers (get s) ! j)"
  shows "\<exists>busy' s'. check_timer get put call eventtime i busy s = Some (busy', s') \<and> inv n s' \<and>
     same_setup (get s) (get s') \<and> (\<forall>j \<le> i. next_timer (get s') \<le> waketime (timers (get s') ! j)) \<and>
     (\<not> busy' \<longrightarrow> \<not> busy \<and> timers (get s') = timers (get s) \<and> eventtime < waketime (timers (get s) ! i))"
proof (cases "waketime (timers (get s) ! i) \<le> eventtime")
  case True
  obtain cb t s1 where cb: "callback (timers (get s) ! i) = Some cb" "call cb eventtime s = Some (t, s1)" "inv n s1"
    and mv: "timers_moved (get s) (get s1)"
    using call_ok [OF inv, of "timers (get s) ! i" eventtime] i by auto
  define pr where "pr = timer_set_waketime i t (get s1)"
  have i1: "i < length (timers (get s1))" using mv i same_setup_length [of "get s" "get s1"] by (simp add: timers_moved_def)
  have stp: "same_setup (get s1) pr"
    using i1 by (simp add: pr_def timer_set_waketime_def same_setup_def map_update list_update_same_conv)
  have pre: "next_timer (get s1) \<le> waketime (timers (get s1) ! j)" if "j < i" for j
  proof -
    have "j < length (timers (get s1))" using that i1 by simp
    then have "waketime (timers (get s1) ! j) = waketime (timers (get s) ! j) \<or>
        next_timer (get s1) \<le> waketime (timers (get s1) ! j)" and "next_timer (get s1) \<le> next_timer (get s)"
      using mv by (auto simp: timers_moved_def)
    then show ?thesis using before [OF that] by auto
  qed
  define pr2 where "pr2 = (if t < next_timer pr then pr\<lparr>next_timer := t\<rparr> else pr)"
  define s2 where "s2 = (if t < next_timer (get (put pr s1)) then put (pr\<lparr>next_timer := t\<rparr>) (put pr s1) else put pr s1)"
  have s2: "get s2 = pr2" by (simp add: s2_def pr2_def get_put)
  have eq: "check_timer get put call eventtime i busy s = Some (True, s2)"
    using True i cb by (simp add: check_timer_def rd_def s2_def pr_def get_put)
  have "inv n (put pr s1)" using put_inv [OF cb(3) stp] .
  then have "inv n s2"
    using put_inv [of n "put pr s1" "pr\<lparr>next_timer := t\<rparr>"] by (simp add: s2_def get_put same_setup_def)
  moreover have "same_setup (get s) (get s2)"
    using mv stp unfolding s2 pr2_def timers_moved_def same_setup_def by simp
  moreover have "next_timer (get s2) \<le> waketime (timers (get s2) ! j)" if "j \<le> i" for j
    using pre [of j] that i1 unfolding s2 pr2_def pr_def
    by (cases "j = i") (auto simp: timer_set_waketime_def nth_list_update)
  ultimately show ?thesis using eq by blast
next
  case False
  define t where "t = waketime (timers (get s) ! i)"
  define s2 where "s2 = (if t < next_timer (get s) then put ((get s)\<lparr>next_timer := t\<rparr>) s else s)"
  have s2: "get s2 = (if t < next_timer (get s) then (get s)\<lparr>next_timer := t\<rparr> else get s)"
    by (simp add: s2_def get_put)
  have eq: "check_timer get put call eventtime i busy s = Some (busy, s2)"
    using False i by (simp add: check_timer_def rd_def s2_def t_def)
  have "inv n s2"
    using put_inv [OF inv_less [OF inv], of "(get s)\<lparr>next_timer := t\<rparr>"] inv_less [OF inv]
    by (simp add: s2_def same_setup_def)
  moreover have "next_timer (get s2) \<le> waketime (timers (get s2) ! j)" if "j \<le> i" for j
    using before [of j] that unfolding s2 by (cases "j = i") (auto simp: t_def)
  moreover have "same_setup (get s) (get s2)" "timers (get s2) = timers (get s)" by (simp_all add: s2 same_setup_def)
  ultimately show ?thesis using eq False by (meson not_le)
qed

lemma check_timers_loop_ok:
  "inv (n + k) s \<Longrightarrow> i + n = length (timers (get s)) \<Longrightarrow>
   (\<And>j. j < i \<Longrightarrow> next_timer (get s) \<le> waketime (timers (get s) ! j)) \<Longrightarrow>
   \<exists>busy' s'. check_timers_loop get put call eventtime i n busy s = Some (busy', s') \<and> inv k s' \<and>
     same_setup (get s) (get s') \<and> armed (get s') \<and>
     (\<not> busy' \<longrightarrow> \<not> busy \<and> timers (get s') = timers (get s) \<and>
        (\<forall>j. i \<le> j \<and> j < length (timers (get s)) \<longrightarrow> eventtime < waketime (timers (get s) ! j)))"
proof (induction n arbitrary: i busy s)
  case 0
  then show ?case by (simp add: armed_nth)
next
  case (Suc n)
  obtain b1 s1 where s1: "check_timer get put call eventtime i busy s = Some (b1, s1)" "inv (n + k) s1"
    "same_setup (get s) (get s1)" "\<forall>j \<le> i. next_timer (get s1) \<le> waketime (timers (get s1) ! j)"
    "\<not> b1 \<longrightarrow> \<not> busy \<and> timers (get s1) = timers (get s) \<and> eventtime < waketime (timers (get s) ! i)"
    using check_timer_step [of "n + k" s i eventtime busy] Suc.prems by auto
  have "Suc i + n = length (timers (get s1))" using s1(3) Suc.prems(2) same_setup_length by fastforce
  then obtain b2 s2 where "check_timers_loop get put call eventtime (Suc i) n b1 s1 = Some (b2, s2)" "inv k s2"
    "same_setup (get s1) (get s2)" "armed (get s2)"
    "\<not> b2 \<longrightarrow> \<not> b1 \<and> timers (get s2) = timers (get s1) \<and>
        (\<forall>j. Suc i \<le> j \<and> j < length (timers (get s1)) \<longrightarrow> eventtime < waketime (timers (get s1) ! j))"
    using Suc.IH [of s1 "Suc i" b1] s1 by auto
  moreover have "eventtime < waketime (timers (get s) ! j)" if "\<not> b2" "i \<le> j" "j < length (timers (get s))" for j
    using calculation(5) s1(5) that by (cases "j = i") (auto simp: Suc_le_eq)
  ultimately show ?case using s1 same_setup_trans [of "get s" "get s1" "get s2"] by auto
qed

lemma check_timers_ok:
  assumes inv: "inv (num_timers (get s) + k) s" and "armed (get s)"
  shows "\<exists>timeout s'. pollreactor_check_timers get put call eventtime busy s = Some (timeout, s') \<and> inv k s' \<and>
     same_setup (get s) (get s') \<and> armed (get s') \<and>
     sleep_ok \<lparr>pc_time = eventtime, pc_timeout = timeout, pc_reactor = get s'\<rparr>"
proof (cases "next_timer (get s) \<le> eventtime")
  case True
  define s0 where "s0 = put ((get s)\<lparr>next_timer := PR_NEVER\<rparr>) s"
  have s0: "inv (num_timers (get s) + k) s0" "timers (get s0) = timers (get s)" "same_setup (get s) (get s0)"
    using put_inv [OF inv, of "(get s)\<lparr>next_timer := PR_NEVER\<rparr>"] by (simp_all add: s0_def same_setup_def get_put)
  then obtain b s1 where s1: "check_timers_loop get put call eventtime 0 (num_timers (get s)) busy s0 = Some (b, s1)"
    "inv k s1" "same_setup (get s0) (get s1)" "armed (get s1)"
    "\<not> b \<longrightarrow> timers (get s1) = timers (get s0) \<and>
        (\<forall>j < length (timers (get s0)). eventtime < waketime (timers (get s0) ! j))"
    using check_timers_loop_ok [of "num_timers (get s)" k s0 0 eventtime busy] sizes [OF inv] by auto
  have "sleep_ok \<lparr>pc_time = eventtime, pc_timeout = (if b then 0 else sleep_time (next_timer (get s1)) eventtime), pc_reactor = get s1\<rparr>"
  proof (cases b)
    case False
    then have "\<forall>timer \<in> set (timers (get s1)). eventtime < waketime timer" using s1(5) by (auto simp: in_set_conv_nth)
    then show ?thesis using sleep_time_ok [OF s1(4)] False by simp
  qed (simp add: sleep_ok_def)
  then show ?thesis
    using True s0(3) s1(1-4) same_setup_trans [of "get s" "get s0" "get s1"]
    by (auto simp: pollreactor_check_timers_def s0_def)
next
  case False
  then have "\<forall>timer \<in> set (timers (get s)). eventtime < waketime timer" using assms(2) by (force simp: armed_def)
  then have "sleep_ok \<lparr>pc_time = eventtime, pc_timeout = (if busy then 0 else sleep_time (next_timer (get s)) eventtime), pc_reactor = get s\<rparr>"
    using sleep_time_ok [OF assms(2)] by (simp add: sleep_ok_def)
  then show ?thesis
    using False assms inv_add [of "num_timers (get s)" k s]
    by (auto simp: pollreactor_check_timers_def)
qed

lemma fd_loop_ok:
  "inv k s \<Longrightarrow> i + n = length (fds (get s)) \<Longrightarrow> input_ok (poll_input ev) \<Longrightarrow>
   \<exists>s'. fd_loop get callfd ev i n s = Some s' \<and> inv k s' \<and> timers_moved (get s) (get s')"
proof (induction n arbitrary: i s)
  case (Suc n)
  show ?case
  proof (cases "poll_revents ev i")
    case True
    obtain cb s1 where cb: "fd_callback (fds (get s) ! i) = Some cb"
      "callfd cb (poll_input ev) (poll_time ev) s = Some s1" "inv k s1" "timers_moved (get s) (get s1)"
      using callfd_ok [OF Suc.prems(1), of "fds (get s) ! i" "poll_input ev" "poll_time ev"] Suc.prems by auto
    then have "Suc i + n = length (fds (get s1))" using Suc.prems by (simp add: timers_moved_def same_setup_def)
    then show ?thesis
      using Suc.IH [of s1 "Suc i"] cb True Suc.prems by (fastforce simp: rd_def intro: timers_moved_trans)
  next
    case False
    then show ?thesis using Suc.IH [of s "Suc i"] Suc.prems by (auto simp: rd_def)
  qed
qed simp

lemma run_loop_ok:
  "inv (num_timers (get s) * length evs + k) s \<Longrightarrow> armed (get s) \<Longrightarrow>
   (\<And>ev. ev \<in> set evs \<Longrightarrow> input_ok (poll_input ev)) \<Longrightarrow>
   \<exists>pcs s'. run_loop get put call callfd evs eventtime busy s = Some (pcs, s') \<and> inv k s' \<and> armed (get s') \<and>
     (\<forall>pc \<in> set pcs. sleep_ok pc) \<and> (length pcs < length evs \<longrightarrow> must_exit (get s'))"
proof (induction evs arbitrary: s eventtime busy)
  case (Cons ev evs)
  let ?k = "num_timers (get s) * length evs + k"
  show ?case
  proof (cases "must_exit (get s)")
    case True
    then show ?thesis using Cons.prems inv_add [of "num_timers (get s) * length (ev # evs)" k s] by simp
  next
    case False
    have "inv (num_timers (get s) + ?k) s" using Cons.prems(1) by (simp add: algebra_simps)
    then obtain timeout s1 where s1: "pollreactor_check_timers get put call eventtime busy s = Some (timeout, s1)"
      "inv ?k s1" "same_setup (get s) (get s1)" "armed (get s1)"
      "sleep_ok \<lparr>pc_time = eventtime, pc_timeout = timeout, pc_reactor = get s1\<rparr>"
      using check_timers_ok [of s ?k eventtime busy] Cons.prems(2) by blast
    define r where "r = (if 0 < poll_ret ev then fd_loop get callfd ev 0 (num_fds (get s1)) s1
             else if poll_ret ev < 0 then Some (put (pollreactor_do_exit (get s1)) s1) else Some s1)"
    have "\<exists>s2. r = Some s2 \<and> inv ?k s2 \<and> timers_moved (get s1) (get s2)"
      using fd_loop_ok [OF s1(2), of 0 "num_fds (get s1)" ev] Cons.prems(3) [of ev] s1(2) sizes [OF s1(2)]
        put_inv [OF s1(2), of "pollreactor_do_exit (get s1)"] do_exit_moved [of "get s1"]
      unfolding r_def by (auto simp: get_put timers_moved_def)
    then obtain s2 where s2: "r = Some s2" "inv ?k s2" "timers_moved (get s1) (get s2)" by blast
    have nt: "num_timers (get s2) = num_timers (get s)" using s1(3) s2(3) by (simp add: timers_moved_def same_setup_def)
    have "armed (get s2)" using timers_moved_armed s1(4) s2(3) .
    then obtain pcs s3 where "run_loop get put call callfd evs (poll_time ev) (0 < poll_ret ev) s2 = Some (pcs, s3)"
      "inv k s3" "armed (get s3)" "\<forall>pc \<in> set pcs. sleep_ok pc" "length pcs < length evs \<longrightarrow> must_exit (get s3)"
      using Cons.IH [of s2 "poll_time ev" "0 < poll_ret ev"] s2(2) nt Cons.prems(3) by auto
    then show ?thesis using False s1 s2(1) by (auto simp: r_def)
  qed
qed simp

end

end
