(* ===== verification/Serialqueue.thy ===== *)
theory Serialqueue
  imports Steppersync Pollreactor
begin

text \<open>
  The host's end of the link to a microcontroller
  (\<^verbatim>\<open>src/klippy/chelper/serialqueue.c\<close>): queues of commands waiting for their time, the blocks sent
  and not yet acknowledged, the receiver of the microcontroller's blocks, and the two timers that
  send and retransmit. Each operation is one step on the record, as it runs under the queue's
  lock. A command queue is a C object named by a number, \<open>sq_cqs\<close> is the memory of these objects and
  \<open>sq_pending_queues\<close> the list of those that hold messages. Answers of the operating system are
  sources in the state (\<^verbatim>\<open>write\<close>, \<^verbatim>\<open>get_monotonic\<close>) or arguments (\<^verbatim>\<open>read\<close>); what is written, signalled or
  handed to a fast reader is logged. The value None is what C does not define.
\<close>

section \<open>State\<close>

record command_queue =
  upcoming_queue :: "queue_message list"
  ready_queue :: "queue_message list"

record fastreader =
  fr_func :: nat
  fr_prefix :: "u8 list"

record pull_queue_message =
  pqm_msg :: "u8 list"
  pqm_len :: int
  pqm_sent_time :: double
  pqm_receive_time :: double
  pqm_notify_id :: u64

datatype sq_callback = Retransmit_event | Command_event | Input_event | Kick_event

record serialqueue =
  sq_pr :: "sq_callback pollreactor"
  sq_serial_fd :: int
  sq_serial_fd_type :: char
  sq_client_id :: int
  sq_input_buf :: "u8 list"
  sq_need_sync :: bool
  sq_name :: string
  sq_receive_waiting :: bool
  sq_receive_window :: int
  sq_bittime_adjust :: double
  sq_idle_time :: double
  sq_ce :: clock_estimate
  sq_last_receive_sent_time :: double
  sq_send_seq :: u64
  sq_receive_seq :: u64
  sq_ignore_nak_seq :: u64
  sq_last_ack_seq :: u64
  sq_retransmit_seq :: u64
  sq_rtt_sample_seq :: u64
  sq_sent_queue :: "queue_message list"
  sq_srtt :: double
  sq_rttvar :: double
  sq_rto :: double
  sq_pending_queues :: "nat list"
  sq_cqs :: "nat \<Rightarrow> command_queue"
  sq_ready_bytes :: int
  sq_upcoming_bytes :: int
  sq_need_ack_bytes :: int
  sq_last_ack_bytes :: int
  sq_need_kick_clock :: u64
  sq_notify_queue :: "queue_message list"
  sq_last_write_fail_time :: double
  sq_receive_queue :: "queue_message list"
  sq_fast_readers :: "fastreader list"
  sq_old_sent :: "queue_message list"
  sq_old_receive :: "queue_message list"
  sq_bytes_write :: u32
  sq_bytes_read :: u32
  sq_bytes_retransmit :: u32
  sq_bytes_invalid :: u32
  sq_write_src :: "nat \<Rightarrow> int"
  sq_time_src :: "nat \<Rightarrow> double"
  sq_time_pos :: nat
  sq_written :: "u8 list list"
  sq_tcflushes :: nat
  sq_kicks :: nat
  sq_signals :: nat
  sq_fast_calls :: "(nat \<times> u8 list) list"

definition SQPF_SERIAL :: nat where "SQPF_SERIAL = 0"
definition SQPF_PIPE :: nat where "SQPF_PIPE = 1"
definition SQPF_NUM :: nat where "SQPF_NUM = 2"
definition SQPT_RETRANSMIT :: nat where "SQPT_RETRANSMIT = 0"
definition SQPT_COMMAND :: nat where "SQPT_COMMAND = 1"
definition SQPT_NUM :: nat where "SQPT_NUM = 2"
definition SQT_UART :: char where "SQT_UART = CHR ''u''"
definition SQT_CAN :: char where "SQT_CAN = CHR ''c''"
definition SQT_DEBUGFILE :: char where "SQT_DEBUGFILE = CHR ''f''"
definition MIN_RTO :: double where "MIN_RTO = rnd (25 / 1000)"
definition MAX_RTO :: double where "MAX_RTO = 5"
definition MAX_PENDING_BLOCKS :: nat where "MAX_PENDING_BLOCKS = 12"
definition MIN_REQTIME_DELTA :: double where "MIN_REQTIME_DELTA = 1 / 4"
definition MIN_BACKGROUND_DELTA :: double where "MIN_BACKGROUND_DELTA = rnd (5 / 1000)"
definition DEBUG_QUEUE_SENT :: nat where "DEBUG_QUEUE_SENT = 100"
definition DEBUG_QUEUE_RECEIVE :: nat where "DEBUG_QUEUE_RECEIVE = 100"
definition BACKGROUND_PRIORITY_CLOCK :: u64 where "BACKGROUND_PRIORITY_CLOCK = 0x7fffffff00000000"
definition INPUT_BUF_SIZE :: nat where "INPUT_BUF_SIZE = 4096"

lemmas sq_consts = SQPF_SERIAL_def SQPF_PIPE_def SQPF_NUM_def SQPT_RETRANSMIT_def SQPT_COMMAND_def SQPT_NUM_def
  MAX_PENDING_BLOCKS_def INPUT_BUF_SIZE_def

section \<open>Helpers\<close>

definition debug_queue_alloc :: "nat \<Rightarrow> queue_message list" where
  "debug_queue_alloc n = replicate n message_alloc"

definition debug_queue_add :: "queue_message list \<Rightarrow> queue_message \<Rightarrow> queue_message list" where
  "debug_queue_add q qm = tl (q @ [qm])"

definition check_wake_receive :: "serialqueue \<Rightarrow> serialqueue" where
  "check_wake_receive sq =
     (if sq_receive_waiting sq then sq\<lparr>sq_receive_waiting := False, sq_signals := sq_signals sq + 1\<rparr> else sq)"

definition kick_bg_thread :: "serialqueue \<Rightarrow> serialqueue" where
  "kick_bg_thread sq = sq\<lparr>sq_kicks := sq_kicks sq + 1\<rparr>"

definition get_monotonic :: "serialqueue \<Rightarrow> double \<times> serialqueue" where
  "get_monotonic sq = (sq_time_src sq (sq_time_pos sq), sq\<lparr>sq_time_pos := sq_time_pos sq + 1\<rparr>)"

definition os_write :: "u8 list \<Rightarrow> serialqueue \<Rightarrow> int \<times> serialqueue" where
  "os_write buf sq = (sq_write_src sq (length (sq_written sq)), sq\<lparr>sq_written := sq_written sq @ [buf]\<rparr>)"

definition CANBUS_PACKET_BITS :: u32 where "CANBUS_PACKET_BITS = (1 + 11 + 3 + 4) + (16 + 2 + 7 + 3)"
definition CANBUS_IFS_BITS :: u32 where "CANBUS_IFS_BITS = 4"

definition calculate_bittime :: "u32 \<Rightarrow> serialqueue \<Rightarrow> double" where
  "calculate_bittime bytes sq =
     (if sq_serial_fd_type sq = SQT_CAN then
        let pkts = (bytes + 8 - 1) div 8;
            bits = bytes * 8 + pkts * CANBUS_PACKET_BITS - CANBUS_IFS_BITS
        in dmul (sq_bittime_adjust sq) (double_of_int (uint bits))
      else dmul (sq_bittime_adjust sq) (double_of_int (uint bytes)))"

definition update_timer :: "nat \<Rightarrow> double \<Rightarrow> serialqueue \<Rightarrow> serialqueue option" where
  "update_timer pos t sq = do { pr \<leftarrow> pollreactor_update_timer pos t (sq_pr sq); Some (sq\<lparr>sq_pr := pr\<rparr>) }"

section \<open>Receiving\<close>

text \<open>The loop of \<^verbatim>\<open>update_receive_seq\<close> over the sent queue.\<close>

fun ack_sent :: "u64 \<Rightarrow> u64 \<Rightarrow> queue_message list \<Rightarrow> serialqueue \<Rightarrow> serialqueue" where
  "ack_sent rseq sent_seq [] sq = sq\<lparr>sq_sent_queue := [], sq_send_seq := rseq, sq_last_receive_sent_time := 0\<rparr>"
| "ack_sent rseq sent_seq (sent # rest) sq =
     (let sq = sq\<lparr>sq_need_ack_bytes := sq_need_ack_bytes sq - int (qm_len sent), sq_sent_queue := rest,
                  sq_old_sent := debug_queue_add (sq_old_sent sq) sent\<rparr>;
          sent_seq = sent_seq + 1
      in if rseq = sent_seq
         then sq\<lparr>sq_last_receive_sent_time := qm_receive_time sent, sq_last_ack_bytes := int (qm_len sent)\<rparr>
         else ack_sent rseq sent_seq rest sq)"

definition update_rtt :: "double \<Rightarrow> u64 \<Rightarrow> serialqueue \<Rightarrow> serialqueue" where
  "update_rtt eventtime rseq sq =
     (if sq_rtt_sample_seq sq \<noteq> 0 \<and> sq_rtt_sample_seq sq < rseq \<and> sq_last_receive_sent_time sq \<noteq> 0 then
        let delta = dsub eventtime (sq_last_receive_sent_time sq);
            sq = (if sq_srtt sq = 0 then sq\<lparr>sq_rttvar := ddiv delta 2, sq_srtt := dmul delta 10\<rparr>
                  else let rttvar = ddiv (dadd (dmul 3 (sq_rttvar sq)) \<bar>dsub (sq_srtt sq) delta\<bar>) 4
                       in sq\<lparr>sq_rttvar := rttvar, sq_srtt := ddiv (dadd (dmul 7 (sq_srtt sq)) delta) 8\<rparr>);
            rttvar4 = dmul (sq_rttvar sq) 4;
            rttvar4 = (if rttvar4 < rnd (1 / 1000) then rnd (1 / 1000) else rttvar4);
            rto = dadd (sq_srtt sq) rttvar4;
            rto = (if rto < MIN_RTO then MIN_RTO else if MAX_RTO < rto then MAX_RTO else rto)
        in sq\<lparr>sq_rto := rto, sq_rtt_sample_seq := 0\<rparr>
      else sq)"

definition update_receive_seq :: "double \<Rightarrow> u64 \<Rightarrow> serialqueue \<Rightarrow> serialqueue option" where
  "update_receive_seq eventtime rseq sq = do {
     let sq = ack_sent rseq (sq_receive_seq sq) (sq_sent_queue sq) sq;
     sq \<leftarrow> update_timer SQPT_COMMAND PR_NOW (sq\<lparr>sq_receive_seq := rseq\<rparr>);
     let sq = update_rtt eventtime rseq sq;
     case sq_sent_queue sq of
       [] \<Rightarrow> update_timer SQPT_RETRANSMIT PR_NEVER sq
     | sent # _ \<Rightarrow>
         update_timer SQPT_RETRANSMIT
           (dadd (dadd eventtime (sq_rto sq)) (calculate_bittime (of_nat (qm_len sent)) sq)) sq }"

text \<open>The messages of the notify queue that the acknowledgement covers; \<open>must_wake\<close> is whether any is.\<close>

fun notify_loop :: "double \<Rightarrow> u64 \<Rightarrow> queue_message list \<Rightarrow> bool \<Rightarrow> serialqueue \<Rightarrow> bool \<times> serialqueue" where
  "notify_loop eventtime wake_seq [] must_wake sq = (must_wake, sq)"
| "notify_loop eventtime wake_seq (qm # rest) must_wake sq =
     (if wake_seq < qm_req_clock qm then (must_wake, sq)
      else notify_loop eventtime wake_seq rest True
        (sq\<lparr>sq_notify_queue := rest,
            sq_receive_queue := sq_receive_queue sq @
              [qm\<lparr>qm_len := 0, qm_sent_time := sq_last_receive_sent_time sq, qm_receive_time := eventtime\<rparr>]\<rparr>))"

definition process_message :: "u64 \<Rightarrow> u8 list \<Rightarrow> bool \<Rightarrow> serialqueue \<Rightarrow> (bool \<times> serialqueue) option" where
  "process_message rseq msg must_wake sq =
     (if length msg = MESSAGE_MIN then
        if sq_last_ack_seq sq < rseq then Some (must_wake, sq\<lparr>sq_last_ack_seq := rseq\<rparr>)
        else if sq_ignore_nak_seq sq < rseq \<and> sq_sent_queue sq \<noteq> []
        then do { sq \<leftarrow> update_timer SQPT_RETRANSMIT PR_NOW sq; Some (must_wake, sq) }
        else Some (must_wake, sq)
      else do {
        qm \<leftarrow> message_fill msg;
        let (now, sq) = get_monotonic sq;
        let qm = qm\<lparr>qm_sent_time := (if sq_retransmit_seq sq < rseq then sq_last_receive_sent_time sq else 0),
                    qm_receive_time := dsub now (calculate_bittime (of_nat (length msg)) sq)\<rparr>;
        Some (True, sq\<lparr>sq_receive_queue := sq_receive_queue sq @ [qm]\<rparr>) })"

fun find_fast_reader :: "u8 list \<Rightarrow> fastreader list \<Rightarrow> fastreader option" where
  "find_fast_reader msg [] = None"
| "find_fast_reader msg (fr # frs) =
     (if length msg < length (fr_prefix fr) + MESSAGE_MIN \<or>
         take (length (fr_prefix fr)) (drop MESSAGE_HEADER_SIZE msg) \<noteq> fr_prefix fr
      then find_fast_reader msg frs else Some fr)"

definition rseq_delta_of :: "u8 \<Rightarrow> u64 \<Rightarrow> u64" where
  "rseq_delta_of seq receive_seq = (ucast seq - receive_seq) AND ucast MESSAGE_SEQ_MASK"

definition handle_message :: "double \<Rightarrow> nat \<Rightarrow> serialqueue \<Rightarrow> serialqueue option" where
  "handle_message eventtime len sq = do {
     let msg = take len (sq_input_buf sq);
     seq \<leftarrow> rd msg MESSAGE_POS_SEQ;
     let rseq = sq_receive_seq sq + rseq_delta_of seq (sq_receive_seq sq);
     if rseq \<noteq> sq_receive_seq sq \<and> sq_send_seq sq < rseq \<and> sq_receive_seq sq \<noteq> 1
     then Some (sq\<lparr>sq_bytes_invalid := sq_bytes_invalid sq + of_nat len\<rparr>)
     else do {
       sq \<leftarrow> (if rseq \<noteq> sq_receive_seq sq then update_receive_seq eventtime rseq sq else Some sq);
       let sq = sq\<lparr>sq_bytes_read := sq_bytes_read sq + of_nat len\<rparr>;
       let wake_seq = rseq - 1 - (if MESSAGE_MIN < len then 1 else 0);
       let (must_wake, sq) = notify_loop eventtime wake_seq (sq_notify_queue sq) False sq;
       (must_wake, sq) \<leftarrow> process_message rseq msg must_wake sq;
       let sq = (if must_wake then check_wake_receive sq else sq);
       case find_fast_reader msg (sq_fast_readers sq) of
         Some fr \<Rightarrow> Some (sq\<lparr>sq_fast_calls := sq_fast_calls sq @ [(fr_func fr, msg)]\<rparr>)
       | None \<Rightarrow> Some sq } }"

function input_loop :: "double \<Rightarrow> serialqueue \<Rightarrow> serialqueue option" where
  "input_loop eventtime sq =
     (case msgblock_check (sq_need_sync sq) (sq_input_buf sq) of
        (len, ns) \<Rightarrow>
          if len = 0 then Some (sq\<lparr>sq_need_sync := ns\<rparr>)
          else case (if 0 < len then handle_message eventtime (nat len) (sq\<lparr>sq_need_sync := ns\<rparr>)
                     else Some (sq\<lparr>sq_need_sync := ns, sq_bytes_invalid := sq_bytes_invalid sq + word_of_int (- len)\<rparr>)) of
                 None \<Rightarrow> None
               | Some sq' \<Rightarrow> input_loop eventtime (sq'\<lparr>sq_input_buf := drop (nat \<bar>len\<bar>) (sq_input_buf sq)\<rparr>))"
  by pat_completeness auto
termination
  by (relation "measure (\<lambda>(t, sq). length (sq_input_buf sq))") (auto dest: msgblock_check_progress [OF sym])

declare input_loop.simps [simp del]

text \<open>What \<^verbatim>\<open>read\<close> finds: the bytes available on the line (\<^verbatim>\<open>read\<close> takes as many as fit), a frame on the
  CAN bus, or a failure.\<close>

datatype sq_input = Read_bytes "u8 list" | Read_can u32 "u8 list" | Read_fail

definition input_event :: "sq_input \<Rightarrow> double \<Rightarrow> serialqueue \<Rightarrow> serialqueue option" where
  "input_event inp eventtime sq =
     (if sq_serial_fd_type sq = SQT_CAN then
        case inp of
          Read_can can_id data \<Rightarrow>
            if can_id \<noteq> word_of_int (sq_client_id sq + 1) then Some sq
            else if INPUT_BUF_SIZE < length (sq_input_buf sq) + length data then None
            else input_loop eventtime (sq\<lparr>sq_input_buf := sq_input_buf sq @ data\<rparr>)
        | _ \<Rightarrow> Some (sq\<lparr>sq_pr := pollreactor_do_exit (sq_pr sq)\<rparr>)
      else
        let data = (case inp of Read_bytes data \<Rightarrow> take (INPUT_BUF_SIZE - length (sq_input_buf sq)) data | _ \<Rightarrow> [])
        in if data = [] then Some (sq\<lparr>sq_pr := pollreactor_do_exit (sq_pr sq)\<rparr>)
           else input_loop eventtime (sq\<lparr>sq_input_buf := sq_input_buf sq @ data\<rparr>))"

definition kick_event :: "double \<Rightarrow> serialqueue \<Rightarrow> serialqueue option" where
  "kick_event eventtime sq = update_timer SQPT_COMMAND PR_NOW sq"

section \<open>Sending\<close>

function can_write :: "u8 list \<Rightarrow> serialqueue \<Rightarrow> serialqueue" where
  "can_write buf sq =
     (if buf = [] then sq
      else let (ret, sq) = os_write (take 8 buf) sq in
           if ret < 0 then
             let (curtime, sq) = get_monotonic sq in
             if sq_last_write_fail_time sq = 0 then sq\<lparr>sq_last_write_fail_time := curtime\<rparr>
             else if dadd (sq_last_write_fail_time sq) 10 < curtime then sq\<lparr>sq_pr := pollreactor_do_exit (sq_pr sq)\<rparr>
             else sq
           else can_write (drop 8 buf) (sq\<lparr>sq_last_write_fail_time := 0\<rparr>))"
  by pat_completeness auto
termination
  by (relation "measure (\<lambda>(buf, sq). length buf)") auto

declare can_write.simps [simp del]

definition do_write :: "u8 list \<Rightarrow> serialqueue \<Rightarrow> serialqueue" where
  "do_write buf sq = (if sq_serial_fd_type sq \<noteq> SQT_CAN then snd (os_write buf sq) else can_write buf sq)"

definition qm_bytes :: "queue_message \<Rightarrow> u8 list" where
  "qm_bytes qm = take (qm_len qm) (qm_msg qm)"

definition retransmit_buf :: "serialqueue \<Rightarrow> u8 list" where
  "retransmit_buf sq = MESSAGE_SYNC # concat (map qm_bytes (sq_sent_queue sq))"

definition retransmit_rto :: "double \<Rightarrow> serialqueue \<Rightarrow> serialqueue" where
  "retransmit_rto timer sq =
     (if timer = PR_NOW then
        sq\<lparr>sq_ignore_nak_seq :=
          (if sq_receive_seq sq < sq_retransmit_seq sq then sq_retransmit_seq sq else sq_receive_seq sq)\<rparr>
      else let rto = dmul (sq_rto sq) 2
           in sq\<lparr>sq_rto := (if MAX_RTO < rto then MAX_RTO else rto), sq_ignore_nak_seq := sq_send_seq sq\<rparr>)"

definition retransmit_event :: "double \<Rightarrow> serialqueue \<Rightarrow> (double \<times> serialqueue) option" where
  "retransmit_event eventtime sq = do {
     let sq = (if sq_serial_fd_type sq = SQT_UART then sq\<lparr>sq_tcflushes := sq_tcflushes sq + 1\<rparr> else sq);
     let buf = retransmit_buf sq;
     let first_buflen = (case sq_sent_queue sq of [] \<Rightarrow> 0 | qm # _ \<Rightarrow> qm_len qm + 1);
     if MESSAGE_MAX * MAX_PENDING_BLOCKS + 1 < length buf then None
     else do {
       let sq = do_write buf sq;
       let sq = sq\<lparr>sq_bytes_retransmit := sq_bytes_retransmit sq + of_nat (length buf)\<rparr>;
       timer \<leftarrow> pollreactor_get_timer SQPT_RETRANSMIT (sq_pr sq);
       let sq = retransmit_rto timer sq;
       let sq = sq\<lparr>sq_retransmit_seq := sq_send_seq sq, sq_rtt_sample_seq := 0,
                   sq_idle_time := dadd eventtime (calculate_bittime (of_nat (length buf)) sq)\<rparr>;
       Some (dadd (dadd eventtime (sq_rto sq)) (calculate_bittime (of_nat first_buflen) sq), sq) } }"

text \<open>The search of \<^verbatim>\<open>build_and_send_command\<close> for the ready message with the lowest clock.\<close>

fun find_ready ::
  "(nat \<Rightarrow> command_queue) \<Rightarrow> nat list \<Rightarrow> u64 \<Rightarrow> (nat \<times> queue_message) option \<Rightarrow> (nat \<times> queue_message) option" where
  "find_ready cqs [] min_clock found = found"
| "find_ready cqs (q # qs) min_clock found =
     (case ready_queue (cqs q) of
        [] \<Rightarrow> find_ready cqs qs min_clock found
      | m # _ \<Rightarrow> if qm_req_clock m < min_clock then find_ready cqs qs (qm_req_clock m) (Some (q, m))
                 else find_ready cqs qs min_clock found)"

definition take_ready :: "nat \<Rightarrow> queue_message \<Rightarrow> serialqueue \<Rightarrow> serialqueue" where
  "take_ready c qm sq =
     (let cq = (sq_cqs sq c)\<lparr>ready_queue := tl (ready_queue (sq_cqs sq c))\<rparr>
      in sq\<lparr>sq_cqs := (sq_cqs sq)(c := cq),
            sq_pending_queues := (if ready_queue cq = [] \<and> upcoming_queue cq = []
                                  then remove1 c (sq_pending_queues sq) else sq_pending_queues sq),
            sq_ready_bytes := sq_ready_bytes sq - int (qm_len qm),
            sq_notify_queue := (if qm_notify_id qm \<noteq> 0
                                then sq_notify_queue sq @ [qm\<lparr>qm_req_clock := sq_send_seq sq\<rparr>] else sq_notify_queue sq)\<rparr>)"

definition ready_msgs :: "serialqueue \<Rightarrow> nat" where
  "ready_msgs sq = sum_list (map (\<lambda>c. length (ready_queue (sq_cqs sq c))) (sq_pending_queues sq))"

lemma find_ready_found:
  "find_ready cqs qs min_clock found = Some (c, m) \<Longrightarrow>
     found = Some (c, m) \<or> c \<in> set qs \<and> (\<exists>ms. ready_queue (cqs c) = m # ms)"
  by (induction qs arbitrary: min_clock found) (fastforce split: list.splits if_splits)+

lemma sum_list_map_mono_nat:
  fixes f g :: "'a \<Rightarrow> nat"
  shows "(\<And>x. x \<in> set xs \<Longrightarrow> f x \<le> g x) \<Longrightarrow> c \<in> set xs \<Longrightarrow> f c < g c \<Longrightarrow> sum_list (map f xs) < sum_list (map g xs)"
proof (induction xs)
  case (Cons x xs)
  have le: "sum_list (map f xs) \<le> sum_list (map g xs)" using Cons.prems(1) by (intro sum_list_mono) simp
  show ?case
  proof (cases "c = x")
    case True
    then show ?thesis using le Cons.prems(3) by simp
  next
    case False
    then show ?thesis using Cons.IH Cons.prems by (simp add: add_le_less_mono)
  qed
qed simp

lemma sum_list_remove1_le: "sum_list (map f (remove1 c xs)) \<le> (sum_list (map f xs) :: nat)"
  by (induction xs) auto

lemma take_ready_less:
  assumes "find_ready (sq_cqs sq) (sq_pending_queues sq) MAX_CLOCK None = Some (c, m)"
  shows "ready_msgs (take_ready c m sq) < ready_msgs sq"
proof -
  from find_ready_found [OF assms] obtain ms
    where c: "c \<in> set (sq_pending_queues sq)" "ready_queue (sq_cqs sq c) = m # ms" by auto
  let ?n = "\<lambda>cqs c. length (ready_queue (cqs c))"
  have "ready_msgs (take_ready c m sq) \<le> sum_list (map (?n (sq_cqs (take_ready c m sq))) (sq_pending_queues sq))"
    by (simp add: ready_msgs_def take_ready_def Let_def sum_list_remove1_le)
  also have "\<dots> < sum_list (map (?n (sq_cqs sq)) (sq_pending_queues sq))"
    using c by (intro sum_list_map_mono_nat [where c = c]) (auto simp: take_ready_def Let_def)
  finally show ?thesis by (simp add: ready_msgs_def)
qed

function build_loop :: "u8 list \<Rightarrow> serialqueue \<Rightarrow> (u8 list \<times> serialqueue) option" where
  "build_loop body sq =
     (if sq_ready_bytes sq = 0 then Some (body, sq)
      else case find_ready (sq_cqs sq) (sq_pending_queues sq) MAX_CLOCK None of
        None \<Rightarrow> None
      | Some (c, qm) \<Rightarrow>
          if MESSAGE_MAX - MESSAGE_TRAILER_SIZE < MESSAGE_HEADER_SIZE + length body + qm_len qm then Some (body, sq)
          else build_loop (body @ qm_bytes qm) (take_ready c qm sq))"
  by pat_completeness auto
termination
  by (relation "measure (\<lambda>(body, sq). ready_msgs sq)") (auto simp: take_ready_less)

declare build_loop.simps [simp del]

definition finish_block :: "u64 \<Rightarrow> u8 list \<Rightarrow> u8 list" where
  "finish_block send_seq body =
     (let len = MESSAGE_HEADER_SIZE + length body + MESSAGE_TRAILER_SIZE;
          buf = of_nat len # (MESSAGE_DEST OR (ucast send_seq AND MESSAGE_SEQ_MASK)) # body;
          crc = msgblock_crc16_ccitt buf
      in buf @ [ucast (drop_bit 8 crc), ucast (crc AND 0xff), MESSAGE_SYNC])"

definition idle_from :: "double \<Rightarrow> serialqueue \<Rightarrow> double" where
  "idle_from eventtime sq = (if sq_idle_time sq < eventtime then eventtime else sq_idle_time sq)"

definition build_and_send_command :: "nat \<Rightarrow> double \<Rightarrow> serialqueue \<Rightarrow> (u8 list \<times> serialqueue) option" where
  "build_and_send_command pending eventtime sq = do {
     (body, sq) \<leftarrow> build_loop [] sq;
     let buf = finish_block (sq_send_seq sq) body;
     let idletime = dadd (idle_from eventtime sq) (calculate_bittime (of_nat (pending + length buf)) sq);
     out \<leftarrow> message_fill buf;
     let out = out\<lparr>qm_sent_time := eventtime, qm_receive_time := idletime\<rparr>;
     sq \<leftarrow> (if sq_sent_queue sq = [] then update_timer SQPT_RETRANSMIT (dadd idletime (sq_rto sq)) sq else Some sq);
     Some (buf, sq\<lparr>sq_rtt_sample_seq := (if sq_rtt_sample_seq sq = 0 then sq_send_seq sq else sq_rtt_sample_seq sq),
                   sq_send_seq := sq_send_seq sq + 1,
                   sq_need_ack_bytes := sq_need_ack_bytes sq + int (length buf),
                   sq_sent_queue := sq_sent_queue sq @ [out]\<rparr>) }"

text \<open>The messages of one queue that become ready, and the least \<^verbatim>\<open>min_clock\<close> of a message that does
  not; then the same for all pending queues.\<close>

fun move_ready :: "u64 \<Rightarrow> queue_message list \<Rightarrow> queue_message list \<times> queue_message list" where
  "move_ready ack_clock [] = ([], [])"
| "move_ready ack_clock (qm # upcoming) =
     (if ack_clock < qm_min_clock qm then ([], qm # upcoming)
      else let (moved, rest) = move_ready ack_clock upcoming in (qm # moved, rest))"

definition msgs_bytes :: "queue_message list \<Rightarrow> int" where
  "msgs_bytes qms = sum_list (map (int \<circ> qm_len) qms)"

definition ready_clock :: "nat \<Rightarrow> double \<Rightarrow> queue_message \<Rightarrow> serialqueue \<Rightarrow> u64" where
  "ready_clock pending idletime qm sq =
     (let bgtime = (if pending \<noteq> 0 then idletime else sq_idle_time sq);
          bgoffset = dadd MIN_REQTIME_DELTA MIN_BACKGROUND_DELTA
      in if qm_req_clock qm = BACKGROUND_PRIORITY_CLOCK then clock_from_time (sq_ce sq) (dadd bgtime bgoffset)
         else qm_req_clock qm)"

fun check_queues :: "nat \<Rightarrow> double \<Rightarrow> u64 \<Rightarrow> nat list \<Rightarrow> u64 \<Rightarrow> u64 \<Rightarrow> serialqueue \<Rightarrow> u64 \<times> u64 \<times> serialqueue" where
  "check_queues pending idletime ack_clock [] min_stalled min_ready sq = (min_stalled, min_ready, sq)"
| "check_queues pending idletime ack_clock (c # cs) min_stalled min_ready sq =
     (let (moved, rest) = move_ready ack_clock (upcoming_queue (sq_cqs sq c));
          min_stalled = (case rest of [] \<Rightarrow> min_stalled
                         | qm # _ \<Rightarrow> if qm_min_clock qm < min_stalled then qm_min_clock qm else min_stalled);
          ready = ready_queue (sq_cqs sq c) @ moved;
          sq = sq\<lparr>sq_cqs := (sq_cqs sq)(c := \<lparr>upcoming_queue = rest, ready_queue = ready\<rparr>),
                  sq_upcoming_bytes := sq_upcoming_bytes sq - msgs_bytes moved,
                  sq_ready_bytes := sq_ready_bytes sq + msgs_bytes moved\<rparr>;
          min_ready = (case ready of [] \<Rightarrow> min_ready
                       | qm # _ \<Rightarrow> let req_clock = ready_clock pending idletime qm sq
                                   in if req_clock < min_ready then req_clock else min_ready)
      in check_queues pending idletime ack_clock cs min_stalled min_ready sq)"

definition window_full :: "serialqueue \<Rightarrow> bool" where
  "window_full sq =
     (of_nat MAX_PENDING_BLOCKS \<le> sq_send_seq sq - sq_receive_seq sq \<and> sq_receive_seq sq \<noteq> - 1 \<or>
      sq_receive_seq sq < sq_send_seq sq \<and> sq_receive_window sq \<noteq> 0 \<and>
      sq_receive_window sq < sq_need_ack_bytes sq + int MESSAGE_MAX +
        (if sq_last_ack_seq sq < sq_receive_seq sq then sq_last_ack_bytes sq else 0))"

definition check_send_command :: "nat \<Rightarrow> double \<Rightarrow> serialqueue \<Rightarrow> double \<times> serialqueue" where
  "check_send_command pending eventtime sq =
     (if window_full sq then (PR_NEVER, sq)
      else let idletime = dadd (idle_from eventtime sq) (calculate_bittime (of_nat (pending + MESSAGE_MIN)) sq);
               ack_clock = clock_from_time (sq_ce sq) idletime;
               (min_stalled, min_ready, sq) =
                 check_queues pending idletime ack_clock (sq_pending_queues sq) MAX_CLOCK MAX_CLOCK sq
           in if int MESSAGE_PAYLOAD_MAX \<le> sq_ready_bytes sq then (PR_NOW, sq)
              else if est_freq (sq_ce sq) = 0 then
                if sq_ready_bytes sq \<noteq> 0 then (PR_NOW, sq) else (PR_NEVER, sq\<lparr>sq_need_kick_clock := MAX_CLOCK\<rparr>)
              else let reqclock_delta = word_of_int (trunc (dmul MIN_REQTIME_DELTA (est_freq (sq_ce sq))))
                   in if min_ready \<le> ack_clock + reqclock_delta then (PR_NOW, sq)
                      else let wantclock = min_ready - reqclock_delta;
                               wantclock = (if min_stalled < wantclock then min_stalled else wantclock)
                           in (dadd idletime (ddiv (double_of_int (uint (wantclock - ack_clock))) (est_freq (sq_ce sq))),
                               sq\<lparr>sq_need_kick_clock := wantclock\<rparr>))"

definition write_blocks :: "double \<Rightarrow> u8 list \<Rightarrow> serialqueue \<Rightarrow> serialqueue" where
  "write_blocks eventtime buf sq =
     (let sq = do_write buf sq;
          sq = sq\<lparr>sq_bytes_write := sq_bytes_write sq + of_nat (length buf)\<rparr>
      in sq\<lparr>sq_idle_time := dadd (idle_from eventtime sq) (calculate_bittime (of_nat (length buf)) sq)\<rparr>)"

partial_function (option) command_loop :: "double \<Rightarrow> u8 list \<Rightarrow> serialqueue \<Rightarrow> (double \<times> serialqueue) option" where
  "command_loop eventtime buf sq =
     (let (waketime, sq) = check_send_command (length buf) eventtime sq;
          full = (waketime \<noteq> PR_NOW \<or> MESSAGE_MAX * MAX_PENDING_BLOCKS < length buf + MESSAGE_MAX);
          sq = (if full \<and> buf \<noteq> [] then write_blocks eventtime buf sq else sq);
          buf = (if full then [] else buf)
      in if waketime \<noteq> PR_NOW then Some (waketime, sq)
         else case build_and_send_command (length buf) eventtime sq of
                None \<Rightarrow> None
              | Some (block, sq) \<Rightarrow>
                  if MESSAGE_MAX * MAX_PENDING_BLOCKS < length (buf @ block) then None
                  else command_loop eventtime (buf @ block) sq)"

definition command_event :: "double \<Rightarrow> serialqueue \<Rightarrow> (double \<times> serialqueue) option" where
  "command_event eventtime sq = command_loop eventtime [] sq"

section \<open>The reactor's callbacks and the interface\<close>

fun sq_call :: "sq_callback \<Rightarrow> double \<Rightarrow> serialqueue \<Rightarrow> (double \<times> serialqueue) option" where
  "sq_call Retransmit_event eventtime sq = retransmit_event eventtime sq"
| "sq_call Command_event eventtime sq = command_event eventtime sq"
| "sq_call _ eventtime sq = None"

fun sq_callfd :: "sq_callback \<Rightarrow> sq_input \<Rightarrow> double \<Rightarrow> serialqueue \<Rightarrow> serialqueue option" where
  "sq_callfd Input_event inp eventtime sq = input_event inp eventtime sq"
| "sq_callfd Kick_event inp eventtime sq = kick_event eventtime sq"
| "sq_callfd _ inp eventtime sq = None"

definition sq_put :: "sq_callback pollreactor \<Rightarrow> serialqueue \<Rightarrow> serialqueue" where
  "sq_put pr sq = sq\<lparr>sq_pr := pr\<rparr>"

text \<open>The result has the calls of \<^verbatim>\<open>poll\<close> too.\<close>

definition background_thread ::
  "double \<Rightarrow> sq_input poll_result list \<Rightarrow> serialqueue \<Rightarrow> (sq_callback poll_call list \<times> serialqueue) option" where
  "background_thread start evs sq = do {
     (pcs, sq) \<leftarrow> pollreactor_run sq_pr sq_put sq_call sq_callfd start evs sq;
     Some (pcs, check_wake_receive sq) }"

text \<open>\<open>init_ret\<close> is whether \<^verbatim>\<open>pipe\<close> and the initialisation of the thread, its locks and its condition
  succeed; None is the NULL pointer returned otherwise. The sources are those of the state.\<close>

definition sq_reactor :: "int \<Rightarrow> int \<Rightarrow> char \<Rightarrow> sq_callback pollreactor option" where
  "sq_reactor serial_fd pipe_fd serial_fd_type = do {
     pr \<leftarrow> pollreactor_add_fd SQPF_SERIAL serial_fd Input_event (serial_fd_type = SQT_DEBUGFILE)
            (pollreactor_alloc SQPF_NUM SQPT_NUM);
     pr \<leftarrow> pollreactor_add_fd SQPF_PIPE pipe_fd Kick_event False pr;
     pr \<leftarrow> pollreactor_add_timer SQPT_RETRANSMIT Retransmit_event pr;
     pollreactor_add_timer SQPT_COMMAND Command_event pr }"

definition serialqueue_alloc ::
  "int \<Rightarrow> char \<Rightarrow> int \<Rightarrow> string \<Rightarrow> bool \<Rightarrow> int \<Rightarrow> (nat \<Rightarrow> int) \<Rightarrow> (nat \<Rightarrow> double) \<Rightarrow> serialqueue option" where
  "serialqueue_alloc serial_fd serial_fd_type client_id name init_ret pipe_fd write_src time_src =
     (if \<not> init_ret then None
      else do {
        pr \<leftarrow> sq_reactor serial_fd pipe_fd serial_fd_type;
        Some \<lparr>sq_pr = pr, sq_serial_fd = serial_fd, sq_serial_fd_type = serial_fd_type, sq_client_id = client_id,
          sq_input_buf = [], sq_need_sync = False, sq_name = take 15 name, sq_receive_waiting = False,
          sq_receive_window = 0, sq_bittime_adjust = 0, sq_idle_time = 0,
          sq_ce = \<lparr>last_clock = 0, conv_clock = 0, conv_time = 0, est_freq = 0\<rparr>,
          sq_last_receive_sent_time = 0, sq_send_seq = 1,
          sq_receive_seq = (if serial_fd_type = SQT_DEBUGFILE then - 1 else 1),
          sq_ignore_nak_seq = 0, sq_last_ack_seq = 0, sq_retransmit_seq = 0, sq_rtt_sample_seq = 0,
          sq_sent_queue = [], sq_srtt = 0, sq_rttvar = 0,
          sq_rto = (if serial_fd_type = SQT_DEBUGFILE then PR_NEVER else MIN_RTO),
          sq_pending_queues = [], sq_cqs = (\<lambda>_. \<lparr>upcoming_queue = [], ready_queue = []\<rparr>),
          sq_ready_bytes = 0, sq_upcoming_bytes = 0, sq_need_ack_bytes = 0, sq_last_ack_bytes = 0,
          sq_need_kick_clock = MAX_CLOCK, sq_notify_queue = [], sq_last_write_fail_time = 0,
          sq_receive_queue = [], sq_fast_readers = [], sq_old_sent = debug_queue_alloc DEBUG_QUEUE_SENT,
          sq_old_receive = debug_queue_alloc DEBUG_QUEUE_RECEIVE,
          sq_bytes_write = 0, sq_bytes_read = 0, sq_bytes_retransmit = 0, sq_bytes_invalid = 0,
          sq_write_src = write_src, sq_time_src = time_src, sq_time_pos = 0, sq_written = [],
          sq_tcflushes = 0, sq_kicks = 0, sq_signals = 0, sq_fast_calls = []\<rparr> })"

definition serialqueue_exit :: "serialqueue \<Rightarrow> serialqueue" where
  "serialqueue_exit sq = kick_bg_thread (sq\<lparr>sq_pr := pollreactor_do_exit (sq_pr sq)\<rparr>)"

definition serialqueue_alloc_commandqueue :: command_queue where
  "serialqueue_alloc_commandqueue = \<lparr>upcoming_queue = [], ready_queue = []\<rparr>"

text \<open>Whether the queue is freed; one with messages is not.\<close>

definition serialqueue_free_commandqueue :: "command_queue \<Rightarrow> bool" where
  "serialqueue_free_commandqueue cq = (ready_queue cq = [] \<and> upcoming_queue cq = [])"

definition serialqueue_add_fastreader :: "fastreader \<Rightarrow> serialqueue \<Rightarrow> serialqueue" where
  "serialqueue_add_fastreader fr sq = sq\<lparr>sq_fast_readers := sq_fast_readers sq @ [fr]\<rparr>"

definition serialqueue_rm_fastreader :: "fastreader \<Rightarrow> serialqueue \<Rightarrow> serialqueue" where
  "serialqueue_rm_fastreader fr sq = sq\<lparr>sq_fast_readers := remove1 fr (sq_fast_readers sq)\<rparr>"

definition set_min_clock :: "queue_message \<Rightarrow> queue_message" where
  "set_min_clock qm =
     (if qm_min_clock qm + 2 ^ 31 < qm_req_clock qm \<and> qm_req_clock qm \<noteq> BACKGROUND_PRIORITY_CLOCK
      then qm\<lparr>qm_min_clock := qm_req_clock qm - 2 ^ 31\<rparr> else qm)"

definition serialqueue_send_batch :: "nat \<Rightarrow> queue_message list \<Rightarrow> serialqueue \<Rightarrow> serialqueue" where
  "serialqueue_send_batch c msgs sq =
     (let msgs = map set_min_clock msgs; len = msgs_bytes msgs in
      if len = 0 then sq
      else let cq = sq_cqs sq c;
               sq = sq\<lparr>sq_pending_queues := (if ready_queue cq = [] \<and> upcoming_queue cq = []
                                             then sq_pending_queues sq @ [c] else sq_pending_queues sq),
                       sq_cqs := (sq_cqs sq)(c := cq\<lparr>upcoming_queue := upcoming_queue cq @ msgs\<rparr>),
                       sq_upcoming_bytes := sq_upcoming_bytes sq + len\<rparr>
           in if qm_min_clock (hd msgs) < sq_need_kick_clock sq
              then kick_bg_thread (sq\<lparr>sq_need_kick_clock := 0\<rparr>) else sq)"

definition serialqueue_send_one :: "nat \<Rightarrow> queue_message \<Rightarrow> serialqueue \<Rightarrow> serialqueue" where
  "serialqueue_send_one c qm sq = serialqueue_send_batch c [qm] sq"

definition serialqueue_send :: "nat \<Rightarrow> u8 list \<Rightarrow> u64 \<Rightarrow> u64 \<Rightarrow> u64 \<Rightarrow> serialqueue \<Rightarrow> serialqueue option" where
  "serialqueue_send c msg min_clock req_clock notify_id sq = do {
     qm \<leftarrow> message_fill msg;
     Some (serialqueue_send_one c (qm\<lparr>qm_min_clock := min_clock, qm_req_clock := req_clock, qm_notify_id := notify_id\<rparr>) sq) }"

text \<open>\<^verbatim>\<open>serialqueue_pull\<close> up to the point where it returns or waits for the condition.\<close>

datatype pull_result = Pull_message pull_queue_message | Pull_exit | Pull_wait

definition to_pull :: "queue_message \<Rightarrow> pull_queue_message" where
  "to_pull qm = \<lparr>pqm_msg = qm_bytes qm, pqm_len = int (qm_len qm), pqm_sent_time = qm_sent_time qm,
     pqm_receive_time = qm_receive_time qm, pqm_notify_id = qm_notify_id qm\<rparr>"

definition serialqueue_pull :: "serialqueue \<Rightarrow> pull_result \<times> serialqueue" where
  "serialqueue_pull sq =
     (case sq_receive_queue sq of
        [] \<Rightarrow> if pollreactor_is_exit (sq_pr sq) then (Pull_exit, sq) else (Pull_wait, sq\<lparr>sq_receive_waiting := True\<rparr>)
      | qm # rest \<Rightarrow>
          (Pull_message (to_pull qm),
           sq\<lparr>sq_receive_queue := rest,
              sq_old_receive := (if qm_len qm \<noteq> 0 then debug_queue_add (sq_old_receive sq) qm else sq_old_receive sq)\<rparr>))"

definition serialqueue_set_wire_frequency :: "double \<Rightarrow> serialqueue \<Rightarrow> serialqueue" where
  "serialqueue_set_wire_frequency frequency sq =
     sq\<lparr>sq_bittime_adjust := ddiv (if sq_serial_fd_type sq = SQT_CAN then 1 else 10) frequency\<rparr>"

definition serialqueue_set_receive_window :: "int \<Rightarrow> serialqueue \<Rightarrow> serialqueue" where
  "serialqueue_set_receive_window receive_window sq = sq\<lparr>sq_receive_window := receive_window\<rparr>"

definition serialqueue_set_clock_est :: "double \<Rightarrow> double \<Rightarrow> u64 \<Rightarrow> u64 \<Rightarrow> serialqueue \<Rightarrow> serialqueue" where
  "serialqueue_set_clock_est freq time clock lclock sq =
     sq\<lparr>sq_ce := \<lparr>last_clock = lclock, conv_clock = clock, conv_time = time, est_freq = freq\<rparr>\<rparr>"

definition serialqueue_get_clock_est :: "serialqueue \<Rightarrow> clock_estimate" where
  "serialqueue_get_clock_est sq = sq_ce sq"

definition serialqueue_extract_old ::
  "bool \<Rightarrow> nat \<Rightarrow> serialqueue \<Rightarrow> (u8 list \<times> nat \<times> double \<times> double) list \<times> serialqueue" where
  "serialqueue_extract_old sentq max_msgs sq =
     (take max_msgs (map (\<lambda>qm. (qm_bytes qm, qm_len qm, qm_sent_time qm, qm_receive_time qm)) (filter (\<lambda>qm. qm_len qm \<noteq> 0) (if sentq then sq_old_sent sq else sq_old_receive sq))),
      if sentq then sq\<lparr>sq_old_sent := debug_queue_alloc DEBUG_QUEUE_SENT\<rparr>
      else sq\<lparr>sq_old_receive := debug_queue_alloc DEBUG_QUEUE_RECEIVE\<rparr>)"

text \<open>A flush of the steppers hands its messages to the queue of their microcontroller.\<close>

definition steppersync_flush_send :: "u64 \<Rightarrow> nat \<Rightarrow> steppersync \<Rightarrow> serialqueue \<Rightarrow> (steppersync \<times> serialqueue) option" where
  "steppersync_flush_send move_clock c ss sq = do {
     (msgs, ss) \<leftarrow> steppersync_flush move_clock ss;
     Some (ss, if msgs \<noteq> [] then serialqueue_send_batch c msgs sq else sq) }"

end
