(* ===== verification/Sendqueue.thy ===== *)
theory Sendqueue
  imports Serialqueue
begin

text \<open>
  The waiting commands of the host's link: the invariant of the command queues, and what
  \<^verbatim>\<open>build_and_send_command\<close> and \<^verbatim>\<open>command_event\<close> of \<^verbatim>\<open>src/klippy/chelper/serialqueue.c\<close> make of them.
\<close>

section \<open>The command queues\<close>

definition msg_ok :: "queue_message \<Rightarrow> bool" where
  "msg_ok qm \<longleftrightarrow> length (qm_msg qm) = MESSAGE_MAX \<and> qm_len qm \<le> MESSAGE_PAYLOAD_MAX \<and> qm_req_clock qm < MAX_CLOCK"

text \<open>The pending list has exactly the queues that hold messages, and the byte counts are right.\<close>

definition queues_ok :: "serialqueue \<Rightarrow> bool" where
  "queues_ok sq \<longleftrightarrow> distinct (sq_pending_queues sq) \<and>
     (\<forall>c. c \<in> set (sq_pending_queues sq) \<longleftrightarrow> ready_queue (sq_cqs sq c) \<noteq> [] \<or> upcoming_queue (sq_cqs sq c) \<noteq> []) \<and>
     (\<forall>c. \<forall>m \<in> set (ready_queue (sq_cqs sq c)) \<union> set (upcoming_queue (sq_cqs sq c)). msg_ok m) \<and>
     sq_ready_bytes sq = (\<Sum>c \<in> set (sq_pending_queues sq). msgs_bytes (ready_queue (sq_cqs sq c))) \<and>
     sq_upcoming_bytes sq = (\<Sum>c \<in> set (sq_pending_queues sq). msgs_bytes (upcoming_queue (sq_cqs sq c)))"

definition queue_all :: "serialqueue \<Rightarrow> nat \<Rightarrow> queue_message list" where
  "queue_all sq c = ready_queue (sq_cqs sq c) @ upcoming_queue (sq_cqs sq c)"

lemma msgs_bytes_simps [simp]:
  "msgs_bytes [] = 0" "msgs_bytes (m # ms) = int (qm_len m) + msgs_bytes ms"
  "msgs_bytes (ms @ ms') = msgs_bytes ms + msgs_bytes ms'"
  by (simp_all add: msgs_bytes_def)

lemma msgs_bytes_nonneg: "0 \<le> msgs_bytes ms"
  by (induction ms) simp_all

lemma length_qm_bytes: "msg_ok qm \<Longrightarrow> length (qm_bytes qm) = qm_len qm"
  by (simp add: msg_ok_def qm_bytes_def message_consts)

lemma queues_ok_pending:
  "queues_ok sq \<Longrightarrow> c \<in> set (sq_pending_queues sq) \<longleftrightarrow> ready_queue (sq_cqs sq c) \<noteq> [] \<or> upcoming_queue (sq_cqs sq c) \<noteq> []"
  by (simp add: queues_ok_def)

lemma queues_ok_msg:
  "queues_ok sq \<Longrightarrow> m \<in> set (ready_queue (sq_cqs sq c)) \<union> set (upcoming_queue (sq_cqs sq c)) \<Longrightarrow> msg_ok m"
  unfolding queues_ok_def by blast

text \<open>Messages leave the queues one by one, each the head of its queue with a clock not above that of
  any other head.\<close>

inductive drain :: "(nat \<Rightarrow> command_queue) \<Rightarrow> (nat \<times> queue_message) list \<Rightarrow> (nat \<Rightarrow> command_queue) \<Rightarrow> bool" where
  drain_Nil: "drain cqs [] cqs"
| drain_Cons: "ready_queue (cqs c) = m # ms \<Longrightarrow>
     (\<forall>d m' ms'. ready_queue (cqs d) = m' # ms' \<longrightarrow> qm_req_clock m \<le> qm_req_clock m') \<Longrightarrow>
     drain (cqs(c := (cqs c)\<lparr>ready_queue := ms\<rparr>)) ps cqs' \<Longrightarrow> drain cqs ((c, m) # ps) cqs'"

definition taken_from :: "nat \<Rightarrow> (nat \<times> queue_message) list \<Rightarrow> queue_message list" where
  "taken_from c ps = map snd (filter (\<lambda>p. fst p = c) ps)"

lemma taken_from_simps [simp]:
  "taken_from c [] = []" "taken_from c (p # ps) = (if fst p = c then snd p # taken_from c ps else taken_from c ps)"
  "taken_from c (ps @ ps') = taken_from c ps @ taken_from c ps'"
  by (simp_all add: taken_from_def)

lemma drain_queues:
  "drain cqs ps cqs' \<Longrightarrow>
     ready_queue (cqs c) = taken_from c ps @ ready_queue (cqs' c) \<and> upcoming_queue (cqs' c) = upcoming_queue (cqs c)"
  by (induction rule: drain.induct) (auto split: if_splits)

lemma find_ready_None:
  "find_ready cqs qs mc found = None \<Longrightarrow>
     found = None \<and> (\<forall>c \<in> set qs. \<forall>m ms. ready_queue (cqs c) = m # ms \<longrightarrow> mc \<le> qm_req_clock m)"
proof (induction qs arbitrary: mc found)
  case (Cons q qs)
  then show ?case by (cases "ready_queue (cqs q)") (auto split: if_splits dest!: Cons.IH)
qed simp

lemma find_ready_least:
  "find_ready cqs qs mc found = Some (c, m) \<Longrightarrow> pred_option (\<lambda>(d, m'). qm_req_clock m' = mc) found \<Longrightarrow>
   qm_req_clock m \<le> mc \<and> (\<forall>d \<in> set qs. \<forall>m' ms. ready_queue (cqs d) = m' # ms \<longrightarrow> qm_req_clock m \<le> qm_req_clock m')"
proof (induction qs arbitrary: mc found)
  case (Cons q qs)
  show ?case
  proof (cases "ready_queue (cqs q)")
    case Nil
    then show ?thesis using Cons.IH [of mc found] Cons.prems by simp
  next
    case (Cons m' ms)
    show ?thesis
    proof (cases "qm_req_clock m' < mc")
      case True
      then show ?thesis using Cons.IH [of "qm_req_clock m'" "Some (q, m')"] Cons.prems Cons by auto
    next
      case False
      then show ?thesis using Cons.IH [of mc found] Cons.prems Cons by auto
    qed
  qed
qed auto

section \<open>Building a block\<close>

lemma take_ready_queues_ok:
  assumes ok: "queues_ok sq" and c: "c \<in> set (sq_pending_queues sq)" and r: "ready_queue (sq_cqs sq c) = m # ms"
  shows "queues_ok (take_ready c m sq)"
proof -
  let ?P = "set (sq_pending_queues sq)"
  let ?sq = "take_ready c m sq"
  have cqs: "sq_cqs ?sq = (sq_cqs sq)(c := (sq_cqs sq c)\<lparr>ready_queue := ms\<rparr>)"
    using r by (simp add: take_ready_def Let_def)
  have P: "set (sq_pending_queues ?sq) =
      (if ms = [] \<and> upcoming_queue (sq_cqs sq c) = [] then ?P - {c} else ?P)"
    using ok r by (simp add: take_ready_def Let_def queues_ok_def set_remove1_eq)
  have sum: "(\<Sum>d \<in> set (sq_pending_queues ?sq). f (sq_cqs ?sq d)) = (\<Sum>d \<in> ?P. f (sq_cqs sq d)) - f (sq_cqs sq c) + f (sq_cqs ?sq c)"
    if "f \<lparr>upcoming_queue = [], ready_queue = []\<rparr> = (0 :: int)" for f :: "command_queue \<Rightarrow> int"
  proof -
    have e: "(\<Sum>d \<in> ?P - {c}. f (sq_cqs ?sq d)) = (\<Sum>d \<in> ?P - {c}. f (sq_cqs sq d))"
      by (rule sum.cong) (auto simp: cqs)
    have s: "(\<Sum>d \<in> ?P. f (sq_cqs q d)) = f (sq_cqs q c) + (\<Sum>d \<in> ?P - {c}. f (sq_cqs q d))" for q
      using c by (simp add: sum.remove)
    have z: "ms = [] \<and> upcoming_queue (sq_cqs sq c) = [] \<Longrightarrow> f (sq_cqs ?sq c) = 0"
      using that by (cases "sq_cqs sq c") (simp add: cqs)
    show ?thesis
    proof (cases "ms = [] \<and> upcoming_queue (sq_cqs sq c) = []")
      case True
      show ?thesis unfolding P if_P [OF True] using e s [of sq] z [OF True] by linarith
    next
      case False
      show ?thesis unfolding P if_not_P [OF False] using e s [of sq] s [of ?sq] by linarith
    qed
  qed
  have "sq_ready_bytes ?sq = (\<Sum>d \<in> set (sq_pending_queues ?sq). msgs_bytes (ready_queue (sq_cqs ?sq d)))"
    using sum [of "msgs_bytes \<circ> ready_queue"] ok r by (simp add: queues_ok_def cqs) (simp add: take_ready_def Let_def)
  moreover have "sq_upcoming_bytes ?sq = (\<Sum>d \<in> set (sq_pending_queues ?sq). msgs_bytes (upcoming_queue (sq_cqs ?sq d)))"
    using sum [of "msgs_bytes \<circ> upcoming_queue"] ok r by (simp add: queues_ok_def cqs) (simp add: take_ready_def Let_def)
  moreover have "distinct (sq_pending_queues ?sq)"
    using ok by (simp add: take_ready_def Let_def queues_ok_def)
  moreover have "\<forall>d. d \<in> set (sq_pending_queues ?sq) \<longleftrightarrow> ready_queue (sq_cqs ?sq d) \<noteq> [] \<or> upcoming_queue (sq_cqs ?sq d) \<noteq> []"
    using ok r unfolding P cqs queues_ok_def by auto
  moreover have "\<forall>d. \<forall>m \<in> set (ready_queue (sq_cqs ?sq d)) \<union> set (upcoming_queue (sq_cqs ?sq d)). msg_ok m"
  proof (intro allI)
    fix d
    have "set (ready_queue (sq_cqs ?sq d)) \<union> set (upcoming_queue (sq_cqs ?sq d)) \<subseteq>
        set (ready_queue (sq_cqs sq d)) \<union> set (upcoming_queue (sq_cqs sq d))"
      using r unfolding cqs by auto
    then show "\<forall>m \<in> set (ready_queue (sq_cqs ?sq d)) \<union> set (upcoming_queue (sq_cqs ?sq d)). msg_ok m"
      using ok unfolding queues_ok_def by blast
  qed
  ultimately show ?thesis unfolding queues_ok_def by blast
qed

definition build_frame :: "serialqueue \<Rightarrow> serialqueue \<Rightarrow> bool" where
  "build_frame sq sq' \<longleftrightarrow>
     (\<exists>cqs pq rb nq. sq' = sq\<lparr>sq_cqs := cqs, sq_pending_queues := pq, sq_ready_bytes := rb, sq_notify_queue := nq\<rparr>)"

lemma build_frame_trans:
  assumes "build_frame a b" and "build_frame b c"
  shows "build_frame a c"
proof -
  obtain cqs pq rb nq where b: "b = a\<lparr>sq_cqs := cqs, sq_pending_queues := pq, sq_ready_bytes := rb, sq_notify_queue := nq\<rparr>"
    using assms(1) by (auto simp: build_frame_def)
  obtain cqs' pq' rb' nq'
    where c: "c = b\<lparr>sq_cqs := cqs', sq_pending_queues := pq', sq_ready_bytes := rb', sq_notify_queue := nq'\<rparr>"
    using assms(2) by (auto simp: build_frame_def)
  have "c = a\<lparr>sq_cqs := cqs', sq_pending_queues := pq', sq_ready_bytes := rb', sq_notify_queue := nq'\<rparr>"
    unfolding c b by simp
  then show ?thesis unfolding build_frame_def by blast
qed

lemma build_frame_refl: "build_frame sq sq"
  unfolding build_frame_def
  by (rule exI [of _ "sq_cqs sq"], rule exI [of _ "sq_pending_queues sq"], rule exI [of _ "sq_ready_bytes sq"],
      rule exI [of _ "sq_notify_queue sq"]) simp

lemma build_frame_take_ready: "build_frame sq (take_ready c m sq)"
  unfolding build_frame_def take_ready_def Let_def by blast

lemma build_loop_ok:
  "queues_ok sq \<Longrightarrow> length body \<le> MESSAGE_PAYLOAD_MAX \<Longrightarrow>
   \<exists>ps body' sq'. build_loop body sq = Some (body', sq') \<and> body' = body @ concat (map (qm_bytes \<circ> snd) ps) \<and>
     length body' \<le> MESSAGE_PAYLOAD_MAX \<and> queues_ok sq' \<and> drain (sq_cqs sq) ps (sq_cqs sq') \<and> build_frame sq sq' \<and>
     (body = [] \<and> sq_ready_bytes sq \<noteq> 0 \<longrightarrow> ps \<noteq> [])"
proof (induction body sq rule: build_loop.induct)
  case (1 body sq)
  have stop: ?case if s: "build_loop body sq = Some (body, sq)" "body \<noteq> [] \<or> sq_ready_bytes sq = 0"
    by (rule exI [of _ "[]"], rule exI [of _ body], rule exI [of _ sq])
      (use s 1(2,3) build_frame_refl drain_Nil in simp)
  show ?case
  proof (cases "sq_ready_bytes sq = 0")
    case True
    then have "build_loop body sq = Some (body, sq)" by (subst build_loop.simps) simp
    then show ?thesis using True by (intro stop) simp_all
  next
    case nz: False
    show ?thesis
    proof (cases "find_ready (sq_cqs sq) (sq_pending_queues sq) MAX_CLOCK None")
      case None
      have "(\<Sum>c \<in> set (sq_pending_queues sq). msgs_bytes (ready_queue (sq_cqs sq c))) = 0"
      proof (rule sum.neutral, rule ballI)
        fix c
        assume "c \<in> set (sq_pending_queues sq)"
        then have "\<forall>m ms. ready_queue (sq_cqs sq c) = m # ms \<longrightarrow> MAX_CLOCK \<le> qm_req_clock m"
          using find_ready_None [OF None] by blast
        moreover have "\<forall>m \<in> set (ready_queue (sq_cqs sq c)). qm_req_clock m < MAX_CLOCK"
          using 1(2) by (auto simp: queues_ok_def msg_ok_def)
        ultimately show "msgs_bytes (ready_queue (sq_cqs sq c)) = 0"
          by (cases "ready_queue (sq_cqs sq c)") auto
      qed
      then show ?thesis using nz 1(2) by (simp add: queues_ok_def)
    next
      case (Some cm)
      then obtain c m where cm: "find_ready (sq_cqs sq) (sq_pending_queues sq) MAX_CLOCK None = Some (c, m)"
        by (cases cm) auto
      obtain ms where c: "c \<in> set (sq_pending_queues sq)" "ready_queue (sq_cqs sq c) = m # ms"
        using find_ready_found [OF cm] by auto
      have least: "\<forall>d m' ms'. ready_queue (sq_cqs sq d) = m' # ms' \<longrightarrow> qm_req_clock m \<le> qm_req_clock m'"
      proof (intro allI impI)
        fix d m' ms'
        assume h: "ready_queue (sq_cqs sq d) = m' # ms'"
        then have "d \<in> set (sq_pending_queues sq)" using queues_ok_pending [OF 1(2), of d] by simp
        then show "qm_req_clock m \<le> qm_req_clock m'" using find_ready_least [OF cm] h by simp
      qed
      have m: "msg_ok m" using queues_ok_msg [OF 1(2), of m c] c by simp
      show ?thesis
      proof (cases "MESSAGE_MAX - MESSAGE_TRAILER_SIZE < MESSAGE_HEADER_SIZE + length body + qm_len m")
        case True
        then have "build_loop body sq = Some (body, sq)" using nz cm by (subst build_loop.simps) simp
        moreover have "body \<noteq> []" using True m by (auto simp: msg_ok_def message_consts)
        ultimately show ?thesis by (intro stop) simp_all
      next
        case False
        have len: "length (body @ qm_bytes m) \<le> MESSAGE_PAYLOAD_MAX"
          using False m by (simp add: length_qm_bytes message_consts)
        have eq: "build_loop body sq = build_loop (body @ qm_bytes m) (take_ready c m sq)"
          using nz cm False by (subst build_loop.simps) simp
        obtain ps body' sq' where r: "build_loop (body @ qm_bytes m) (take_ready c m sq) = Some (body', sq')"
          "body' = (body @ qm_bytes m) @ concat (map (qm_bytes \<circ> snd) ps)" "length body' \<le> MESSAGE_PAYLOAD_MAX"
          "queues_ok sq'" "drain (sq_cqs (take_ready c m sq)) ps (sq_cqs sq')" "build_frame (take_ready c m sq) sq'"
          using 1(1) [OF nz cm refl False take_ready_queues_ok [OF 1(2) c] len] by blast
        have "sq_cqs (take_ready c m sq) = (sq_cqs sq)(c := (sq_cqs sq c)\<lparr>ready_queue := ms\<rparr>)"
          using c(2) by (simp add: take_ready_def Let_def)
        then have "drain (sq_cqs sq) ((c, m) # ps) (sq_cqs sq')"
          using drain_Cons [OF c(2) least] r(5) by simp
        then show ?thesis
          by (intro exI [of _ "(c, m) # ps"] exI [of _ body'] exI [of _ sq'])
            (use eq r build_frame_trans [OF build_frame_take_ready r(6)] in \<open>simp add: comp_def\<close>)
      qed
    qed
  qed
qed

definition seq_byte :: "u64 \<Rightarrow> u8" where
  "seq_byte s = MESSAGE_DEST OR (ucast s AND MESSAGE_SEQ_MASK)"

lemma ucast_and_0xff: "ucast (c AND 0xff :: u16) = (ucast c :: u8)"
proof -
  have e: "c AND 0xff = c AND mask 8" by (simp add: mask_eq_exp_minus_1)
  show ?thesis unfolding e by (rule bit_word_eqI) (auto simp: bit_simps)
qed

lemma finish_block_frame: "finish_block s body = frame (seq_byte s) body"
  by (simp add: finish_block_def frame_def Let_def seq_byte_def block_len_def message_consts ucast_and_0xff add.commute)

text \<open>A sent message is a block on the wire: a frame with its sequence number.\<close>

definition is_block :: "u8 \<Rightarrow> u8 list \<Rightarrow> queue_message \<Rightarrow> bool" where
  "is_block seq body qm \<longleftrightarrow> length body \<le> MESSAGE_PAYLOAD_MAX \<and> qm_bytes qm = frame seq body \<and> qm_len qm = length body + 5"

definition reactor_ok :: "sq_callback pollreactor \<Rightarrow> bool" where
  "reactor_ok pr \<longleftrightarrow> num_timers pr = SQPT_NUM \<and> num_fds pr = SQPF_NUM \<and>
     map callback (timers pr) = [Some Retransmit_event, Some Command_event] \<and>
     map fd_callback (fds pr) = [Some Input_event, Some Kick_event]"

lemma reactor_ok_moved: "reactor_ok pr \<Longrightarrow> same_setup pr pr' \<Longrightarrow> reactor_ok pr'"
  by (simp add: reactor_ok_def same_setup_def)

lemma reactor_ok_length: "reactor_ok pr \<Longrightarrow> length (timers pr) = 2 \<and> length (fds pr) = 2"
  unfolding reactor_ok_def by (metis length_map list.size(3,4) One_nat_def Suc_1 add.commute plus_1_eq_Suc)

lemma update_timer_ok:
  assumes "reactor_ok (sq_pr sq)" and "pos < SQPT_NUM"
  shows "\<exists>pr. update_timer pos t sq = Some (sq\<lparr>sq_pr := pr\<rparr>) \<and> timers_moved (sq_pr sq) pr"
  using update_timer_moved [of pos "sq_pr sq" t] reactor_ok_length [OF assms(1)] assms(2)
  by (auto simp: update_timer_def sq_consts)

text \<open>What building a block does: the messages drained from the queues are its payload, it goes to
  the end of the sent queue with the next sequence number.\<close>

lemma build_ok:
  assumes q: "queues_ok sq" and r: "reactor_ok (sq_pr sq)"
  shows "\<exists>ps body sq' out. build_and_send_command pending eventtime sq = Some (frame (seq_byte (sq_send_seq sq)) body, sq') \<and>
     body = concat (map (qm_bytes \<circ> snd) ps) \<and> drain (sq_cqs sq) ps (sq_cqs sq') \<and> queues_ok sq' \<and>
     is_block (seq_byte (sq_send_seq sq)) body out \<and> sq_sent_queue sq' = sq_sent_queue sq @ [out] \<and>
     sq_send_seq sq' = sq_send_seq sq + 1 \<and> sq_receive_seq sq' = sq_receive_seq sq \<and>
     sq_need_ack_bytes sq' = sq_need_ack_bytes sq + int (length body + 5) \<and>
     timers_moved (sq_pr sq) (sq_pr sq') \<and> sq_written sq' = sq_written sq \<and> sq_input_buf sq' = sq_input_buf sq \<and>
     sq_need_sync sq' = sq_need_sync sq \<and> sq_serial_fd_type sq' = sq_serial_fd_type sq \<and> (sq_ready_bytes sq \<noteq> 0 \<longrightarrow> ps \<noteq> [])"
proof -
  obtain ps body s1 where b: "build_loop [] sq = Some (body, s1)" "body = concat (map (qm_bytes \<circ> snd) ps)"
    "length body \<le> MESSAGE_PAYLOAD_MAX" "queues_ok s1" "drain (sq_cqs sq) ps (sq_cqs s1)" "build_frame sq s1"
    "sq_ready_bytes sq \<noteq> 0 \<longrightarrow> ps \<noteq> []"
    using build_loop_ok [OF q, of "[]"] by auto
  obtain cqs pq rb nq where s1: "s1 = sq\<lparr>sq_cqs := cqs, sq_pending_queues := pq, sq_ready_bytes := rb, sq_notify_queue := nq\<rparr>"
    using b(6) unfolding build_frame_def by blast
  define buf where "buf = frame (seq_byte (sq_send_seq sq)) body"
  define idle where "idle = dadd (idle_from eventtime s1) (calculate_bittime (of_nat (pending + length buf)) s1)"
  have len: "length buf \<le> MESSAGE_MAX" using b(3) by (simp add: buf_def message_consts)
  obtain qm where qm: "message_fill buf = Some qm" "qm_len qm = length buf" "qm_bytes qm = buf"
    using len by (auto simp: message_fill_def qm_bytes_def message_alloc_def)
  define out where "out = qm\<lparr>qm_sent_time := eventtime, qm_receive_time := idle\<rparr>"
  have rs: "reactor_ok (sq_pr s1)" using r by (simp add: s1)
  obtain pr where pr: "(if sq_sent_queue s1 = [] then update_timer SQPT_RETRANSMIT (dadd idle (sq_rto s1)) s1 else Some s1)
      = Some (s1\<lparr>sq_pr := pr\<rparr>)" "timers_moved (sq_pr s1) pr"
    using update_timer_ok [OF rs, of SQPT_RETRANSMIT "dadd idle (sq_rto s1)"]
    by (cases "sq_sent_queue s1 = []") (auto simp: sq_consts intro: that [of "sq_pr s1"])
  define s2 where "s2 = s1\<lparr>sq_pr := pr,
      sq_rtt_sample_seq := (if sq_rtt_sample_seq sq = 0 then sq_send_seq sq else sq_rtt_sample_seq sq),
      sq_send_seq := sq_send_seq sq + 1, sq_need_ack_bytes := sq_need_ack_bytes sq + int (length buf),
      sq_sent_queue := sq_sent_queue sq @ [out]\<rparr>"
  have buf: "finish_block (sq_send_seq s1) body = buf" by (simp add: finish_block_frame buf_def s1)
  have eq: "build_and_send_command pending eventtime sq = Some (buf, s2)"
  proof -
    have "build_and_send_command pending eventtime sq = Some (buf, s1\<lparr>sq_pr := pr,
        sq_rtt_sample_seq := (if sq_rtt_sample_seq s1 = 0 then sq_send_seq s1 else sq_rtt_sample_seq s1),
        sq_send_seq := sq_send_seq s1 + 1, sq_need_ack_bytes := sq_need_ack_bytes s1 + int (length buf),
        sq_sent_queue := sq_sent_queue s1 @ [out]\<rparr>)"
      using pr(1) by (cases "sq_sent_queue s1 = []")
        (simp_all add: build_and_send_command_def b(1) Let_def buf idle_def [symmetric] qm(1) out_def [symmetric] del: of_nat_add)
    then show ?thesis by (simp add: s2_def s1)
  qed
  have out: "is_block (seq_byte (sq_send_seq sq)) body out"
    using qm b(3) by (simp add: is_block_def out_def qm_bytes_def buf_def)
  have "queues_ok s2" using b(4) by (simp add: queues_ok_def s2_def)
  then show ?thesis
    using eq b(2,5,7) out pr(2) unfolding buf_def [symmetric]
    by (intro exI [of _ ps] exI [of _ body] exI [of _ s2] exI [of _ out]) (simp add: s2_def s1 buf_def)
qed

section \<open>Messages that become ready\<close>

lemma move_ready_append: "move_ready ack_clock ms = (moved, rest) \<Longrightarrow> ms = moved @ rest"
  by (induction ms arbitrary: moved) (auto split: if_splits prod.splits)

definition check_frame :: "serialqueue \<Rightarrow> serialqueue \<Rightarrow> bool" where
  "check_frame sq sq' \<longleftrightarrow>
     (\<exists>cqs ub rb kc. sq' = sq\<lparr>sq_cqs := cqs, sq_upcoming_bytes := ub, sq_ready_bytes := rb, sq_need_kick_clock := kc\<rparr>)"

text \<open>One queue's turn.\<close>

lemma sum_fun_upd_int:
  fixes f :: "'a \<Rightarrow> int"
  assumes "finite P" and "c \<in> P"
  shows "(\<Sum>d \<in> P. (f(c := v)) d) = (\<Sum>d \<in> P. f d) - f c + v"
proof -
  have "(\<Sum>d \<in> P - {c}. (f(c := v)) d) = (\<Sum>d \<in> P - {c}. f d)" by (rule sum.cong) auto
  then show ?thesis using sum.remove [OF assms, of "f(c := v)"] sum.remove [OF assms, of f] by simp
qed

lemma move_ready_queues_ok:
  assumes ok: "queues_ok sq" and c: "c \<in> set (sq_pending_queues sq)"
    and m: "move_ready ack_clock (upcoming_queue (sq_cqs sq c)) = (moved, rest)"
  shows "queues_ok (sq\<lparr>sq_cqs := (sq_cqs sq)(c := \<lparr>upcoming_queue = rest, ready_queue = ready_queue (sq_cqs sq c) @ moved\<rparr>),
     sq_upcoming_bytes := sq_upcoming_bytes sq - msgs_bytes moved, sq_ready_bytes := sq_ready_bytes sq + msgs_bytes moved\<rparr>)"
    (is "queues_ok ?sq")
proof -
  let ?P = "set (sq_pending_queues sq)"
  define s2 where "s2 = ?sq"
  have cqs: "sq_cqs s2 = (sq_cqs sq)(c := \<lparr>upcoming_queue = rest, ready_queue = ready_queue (sq_cqs sq c) @ moved\<rparr>)"
    and pend: "sq_pending_queues s2 = sq_pending_queues sq"
    and bytes: "sq_upcoming_bytes s2 = sq_upcoming_bytes sq - msgs_bytes moved"
      "sq_ready_bytes s2 = sq_ready_bytes sq + msgs_bytes moved"
    by (simp_all add: s2_def)
  have up: "upcoming_queue (sq_cqs sq c) = moved @ rest" using m by (rule move_ready_append)
  have r: "(\<lambda>d. msgs_bytes (ready_queue (sq_cqs s2 d))) =
      (\<lambda>d. msgs_bytes (ready_queue (sq_cqs sq d)))(c := msgs_bytes (ready_queue (sq_cqs sq c)) + msgs_bytes moved)"
    by (auto simp: fun_eq_iff cqs)
  have u: "(\<lambda>d. msgs_bytes (upcoming_queue (sq_cqs s2 d))) =
      (\<lambda>d. msgs_bytes (upcoming_queue (sq_cqs sq d)))(c := msgs_bytes (upcoming_queue (sq_cqs sq c)) - msgs_bytes moved)"
    by (auto simp: fun_eq_iff up cqs)
  have "(\<Sum>d \<in> ?P. msgs_bytes (ready_queue (sq_cqs s2 d))) = sq_ready_bytes s2"
    unfolding r using sum_fun_upd_int [OF finite_set c] ok by (simp add: queues_ok_def bytes)
  moreover have "(\<Sum>d \<in> ?P. msgs_bytes (upcoming_queue (sq_cqs s2 d))) = sq_upcoming_bytes s2"
    unfolding u using sum_fun_upd_int [OF finite_set c] ok by (simp add: queues_ok_def bytes)
  moreover have "\<forall>d. d \<in> ?P \<longleftrightarrow> ready_queue (sq_cqs s2 d) \<noteq> [] \<or> upcoming_queue (sq_cqs s2 d) \<noteq> []"
  proof
    fix d
    show "d \<in> ?P \<longleftrightarrow> ready_queue (sq_cqs s2 d) \<noteq> [] \<or> upcoming_queue (sq_cqs s2 d) \<noteq> []"
      using queues_ok_pending [OF ok, of d] up by (cases "d = c") (auto simp: cqs)
  qed
  moreover have "\<forall>d. \<forall>m \<in> set (ready_queue (sq_cqs s2 d)) \<union> set (upcoming_queue (sq_cqs s2 d)). msg_ok m"
  proof
    fix d
    have "set (ready_queue (sq_cqs s2 d)) \<union> set (upcoming_queue (sq_cqs s2 d)) =
        set (ready_queue (sq_cqs sq d)) \<union> set (upcoming_queue (sq_cqs sq d))"
      using up by (cases "d = c") (auto simp: cqs)
    then show "\<forall>m \<in> set (ready_queue (sq_cqs s2 d)) \<union> set (upcoming_queue (sq_cqs s2 d)). msg_ok m"
      using queues_ok_msg [OF ok, of _ d] by blast
  qed
  ultimately have "queues_ok s2" using ok unfolding queues_ok_def pend by metis
  then show ?thesis by (simp only: s2_def)
qed

lemma check_frame_trans:
  assumes "check_frame a b" and "check_frame b c"
  shows "check_frame a c"
proof -
  obtain cqs ub rb kc where b: "b = a\<lparr>sq_cqs := cqs, sq_upcoming_bytes := ub, sq_ready_bytes := rb, sq_need_kick_clock := kc\<rparr>"
    using assms(1) by (auto simp: check_frame_def)
  obtain cqs' ub' rb' kc' where c: "c = b\<lparr>sq_cqs := cqs', sq_upcoming_bytes := ub', sq_ready_bytes := rb', sq_need_kick_clock := kc'\<rparr>"
    using assms(2) by (auto simp: check_frame_def)
  have "c = a\<lparr>sq_cqs := cqs', sq_upcoming_bytes := ub', sq_ready_bytes := rb', sq_need_kick_clock := kc'\<rparr>"
    unfolding c b by simp
  then show ?thesis unfolding check_frame_def by blast
qed

lemma check_frame_upd:
  "check_frame sq (sq\<lparr>sq_cqs := cqs, sq_upcoming_bytes := ub, sq_ready_bytes := rb\<rparr>)"
  "check_frame sq (sq\<lparr>sq_need_kick_clock := kc\<rparr>)" "check_frame sq sq"
proof -
  have "sq\<lparr>sq_cqs := cqs, sq_upcoming_bytes := ub, sq_ready_bytes := rb\<rparr> =
      sq\<lparr>sq_cqs := cqs, sq_upcoming_bytes := ub, sq_ready_bytes := rb, sq_need_kick_clock := sq_need_kick_clock sq\<rparr>" by simp
  then show "check_frame sq (sq\<lparr>sq_cqs := cqs, sq_upcoming_bytes := ub, sq_ready_bytes := rb\<rparr>)"
    unfolding check_frame_def by blast
  have "sq\<lparr>sq_need_kick_clock := kc\<rparr> = sq\<lparr>sq_cqs := sq_cqs sq, sq_upcoming_bytes := sq_upcoming_bytes sq,
      sq_ready_bytes := sq_ready_bytes sq, sq_need_kick_clock := kc\<rparr>" for kc by simp
  then show "check_frame sq (sq\<lparr>sq_need_kick_clock := kc\<rparr>)" unfolding check_frame_def by blast
  have "sq = sq\<lparr>sq_cqs := sq_cqs sq, sq_upcoming_bytes := sq_upcoming_bytes sq,
      sq_ready_bytes := sq_ready_bytes sq, sq_need_kick_clock := sq_need_kick_clock sq\<rparr>" by simp
  then show "check_frame sq sq" unfolding check_frame_def by blast
qed

lemma check_frame_pending: "check_frame sq sq' \<Longrightarrow> sq_pending_queues sq' = sq_pending_queues sq"
  by (auto simp: check_frame_def)

lemma check_queues_ok:
  "queues_ok sq \<Longrightarrow> set cs \<subseteq> set (sq_pending_queues sq) \<Longrightarrow>
   check_queues pending idletime ack_clock cs min_stalled min_ready sq = (a, b, sq') \<Longrightarrow>
   queues_ok sq' \<and> check_frame sq sq' \<and> (\<forall>c. queue_all sq' c = queue_all sq c)"
proof (induction cs arbitrary: min_stalled min_ready sq)
  case Nil
  then show ?case using check_frame_upd(3) by simp
next
  case (Cons c cs)
  obtain moved rest where m: "move_ready ack_clock (upcoming_queue (sq_cqs sq c)) = (moved, rest)" by fastforce
  define s1 where "s1 = sq\<lparr>sq_cqs := (sq_cqs sq)(c := \<lparr>upcoming_queue = rest, ready_queue = ready_queue (sq_cqs sq c) @ moved\<rparr>),
     sq_upcoming_bytes := sq_upcoming_bytes sq - msgs_bytes moved, sq_ready_bytes := sq_ready_bytes sq + msgs_bytes moved\<rparr>"
  have ok: "queues_ok s1"
    unfolding s1_def using move_ready_queues_ok [OF Cons.prems(1) _ m] Cons.prems(2) by simp
  have fr: "check_frame sq s1" unfolding s1_def by (rule check_frame_upd(1))
  have q: "queue_all s1 d = queue_all sq d" for d
    using move_ready_append [OF m] by (simp add: s1_def queue_all_def)
  obtain x y where "check_queues pending idletime ack_clock cs x y s1 = (a, b, sq')"
    using Cons.prems(3) by (simp add: m Let_def s1_def split: list.splits)
  then have "queues_ok sq' \<and> check_frame s1 sq' \<and> (\<forall>c. queue_all sq' c = queue_all s1 c)"
    using Cons.IH [OF ok] Cons.prems(2) check_frame_pending [OF fr] by auto
  then show ?case using q check_frame_trans [OF fr] by auto
qed

lemma check_outcomes:
  "(if P then s else if Q then if R then s else f x else if S then s else f y) = s \<or>
   (\<exists>k. (if P then s else if Q then if R then s else f x else if S then s else f y) = f k)"
  by auto

lemma check_send_command_ok:
  assumes "queues_ok sq" and "check_send_command pending eventtime sq = (t, sq')"
  shows "queues_ok sq' \<and> check_frame sq sq' \<and> (\<forall>c. queue_all sq' c = queue_all sq c) \<and> (t = PR_NOW \<longrightarrow> \<not> window_full sq)"
proof (cases "window_full sq")
  case True
  have "PR_NEVER \<noteq> PR_NOW" by (simp add: PR_NEVER_eq PR_NOW_def)
  then show ?thesis using True assms check_frame_upd(3) by (auto simp: check_send_command_def)
next
  case False
  define i where "i = dadd (idle_from eventtime sq) (calculate_bittime (of_nat (pending + MESSAGE_MIN)) sq)"
  obtain a b s1 where s1: "check_queues pending i (clock_from_time (sq_ce sq) i) (sq_pending_queues sq) MAX_CLOCK MAX_CLOCK sq = (a, b, s1)"
    by (rule prod_cases3)
  have eq: "sq' = snd (check_send_command pending eventtime sq)" using assms(2) by simp
  have sq': "sq' = s1 \<or> (\<exists>kc. sq' = s1\<lparr>sq_need_kick_clock := kc\<rparr>)"
    unfolding eq check_send_command_def Let_def i_def [symmetric] s1 prod.case if_not_P [OF False]
    by (simp only: if_distrib [of snd] snd_conv) (rule check_outcomes [where f = "\<lambda>kc. s1\<lparr>sq_need_kick_clock := kc\<rparr>"])
  have ok: "queues_ok s1" "check_frame sq s1" "\<forall>c. queue_all s1 c = queue_all sq c"
    using check_queues_ok [OF assms(1) _ s1] by auto
  have "queues_ok (s1\<lparr>sq_need_kick_clock := kc\<rparr>)" for kc using ok(1) by (simp add: queues_ok_def)
  moreover have "check_frame sq (s1\<lparr>sq_need_kick_clock := kc\<rparr>)" for kc
    using check_frame_trans [OF ok(2) check_frame_upd(2)] .
  ultimately show ?thesis using ok sq' False by (auto simp: queue_all_def)
qed

section \<open>Writing\<close>

definition write_frame :: "u8 list list \<Rightarrow> serialqueue \<Rightarrow> serialqueue \<Rightarrow> bool" where
  "write_frame ws sq sq' \<longleftrightarrow>
     (\<exists>pr p f. sq' = sq\<lparr>sq_pr := pr, sq_written := sq_written sq @ ws, sq_time_pos := p, sq_last_write_fail_time := f\<rparr> \<and>
        timers_moved (sq_pr sq) pr)"

lemma can_write_ok: "\<exists>ws. write_frame ws sq (can_write buf sq)"
proof (induction buf sq rule: can_write.induct)
  case (1 buf sq)
  have stop: "\<exists>ws. write_frame ws sq s2"
    if "s2 = sq\<lparr>sq_pr := pr, sq_written := sq_written sq @ ws, sq_time_pos := p, sq_last_write_fail_time := f\<rparr>"
      and "timers_moved (sq_pr sq) pr" for s2 pr ws p f
    using that unfolding write_frame_def by blast
  define s1 where "s1 = sq\<lparr>sq_written := sq_written sq @ [take 8 buf]\<rparr>"
  define ret where "ret = sq_write_src sq (length (sq_written sq))"
  have w: "os_write (take 8 buf) sq = (ret, s1)" by (simp add: os_write_def ret_def s1_def)
  show ?case
  proof (cases "buf = []")
    case True
    then show ?thesis
      using stop [where ws = "[]" and pr = "sq_pr sq" and p = "sq_time_pos sq" and f = "sq_last_write_fail_time sq"] by (subst can_write.simps) simp
  next
    case ne: False
    show ?thesis
    proof (cases "ret < 0")
      case True
      have "can_write buf sq = sq\<lparr>sq_pr := (if sq_last_write_fail_time sq \<noteq> 0 \<and>
            dadd (sq_last_write_fail_time sq) 10 < sq_time_src sq (sq_time_pos sq)
            then pollreactor_do_exit (sq_pr sq) else sq_pr sq),
          sq_written := sq_written sq @ [take 8 buf], sq_time_pos := sq_time_pos sq + 1,
          sq_last_write_fail_time := (if sq_last_write_fail_time sq = 0 then sq_time_src sq (sq_time_pos sq)
            else sq_last_write_fail_time sq)\<rparr>"
        using True ne by (subst can_write.simps) (simp add: w get_monotonic_def s1_def)
      then show ?thesis by (rule stop) simp
    next
      case False
      have eq: "can_write buf sq = can_write (drop 8 buf) (s1\<lparr>sq_last_write_fail_time := 0\<rparr>)"
        using False ne by (subst can_write.simps) (simp add: w)
      obtain ws pr p f where "can_write (drop 8 buf) (s1\<lparr>sq_last_write_fail_time := 0\<rparr>) =
          (s1\<lparr>sq_last_write_fail_time := 0\<rparr>)\<lparr>sq_pr := pr, sq_written := sq_written s1 @ ws, sq_time_pos := p,
             sq_last_write_fail_time := f\<rparr>" "timers_moved (sq_pr sq) pr"
        using 1 [OF ne w [symmetric] refl False] unfolding write_frame_def by (auto simp: s1_def)
      then have "can_write buf sq = sq\<lparr>sq_pr := pr, sq_written := sq_written sq @ (take 8 buf # ws), sq_time_pos := p,
          sq_last_write_fail_time := f\<rparr>"
        unfolding eq by (simp add: s1_def)
      then show ?thesis by (rule stop) fact
    qed
  qed
qed

lemma do_write_ok:
  "\<exists>ws. write_frame ws sq (do_write buf sq) \<and> (sq_serial_fd_type sq \<noteq> SQT_CAN \<longrightarrow> ws = [buf])"
proof (cases "sq_serial_fd_type sq = SQT_CAN")
  case True
  then show ?thesis using can_write_ok [of sq buf] by (auto simp: do_write_def)
next
  case False
  have "do_write buf sq = sq\<lparr>sq_pr := sq_pr sq, sq_written := sq_written sq @ [buf], sq_time_pos := sq_time_pos sq,
      sq_last_write_fail_time := sq_last_write_fail_time sq\<rparr>"
    using False by (simp add: do_write_def os_write_def)
  then have "write_frame [buf] sq (do_write buf sq)"
    unfolding write_frame_def using timers_moved_refl by blast
  then show ?thesis by blast
qed

section \<open>The sent queue\<close>

text \<open>The sent queue holds the blocks from \<^verbatim>\<open>receive_seq\<close> to \<^verbatim>\<open>send_seq\<close>, at most twelve of them.\<close>

definition blocks_ok :: "serialqueue \<Rightarrow> bool" where
  "blocks_ok sq \<longleftrightarrow> length (sq_sent_queue sq) \<le> MAX_PENDING_BLOCKS \<and>
     uint (sq_send_seq sq) = uint (sq_receive_seq sq) + int (length (sq_sent_queue sq)) \<and>
     sq_need_ack_bytes sq = msgs_bytes (sq_sent_queue sq) \<and>
     (\<forall>i < length (sq_sent_queue sq). \<exists>body. is_block (seq_byte (sq_receive_seq sq + of_nat i)) body (sq_sent_queue sq ! i))"

lemma blocks_ok_send_seq: "blocks_ok sq \<Longrightarrow> sq_send_seq sq = sq_receive_seq sq + of_nat (length (sq_sent_queue sq))"
proof -
  assume "blocks_ok sq"
  then have "(of_int (uint (sq_send_seq sq)) :: u64) = of_int (uint (sq_receive_seq sq) + int (length (sq_sent_queue sq)))"
    by (simp add: blocks_ok_def)
  then show ?thesis by simp
qed

lemma blocks_ok_window:
  assumes "blocks_ok sq" and "sq_receive_seq sq \<noteq> - 1" and "\<not> window_full sq"
  shows "length (sq_sent_queue sq) < MAX_PENDING_BLOCKS"
proof (rule ccontr)
  assume "\<not> length (sq_sent_queue sq) < MAX_PENDING_BLOCKS"
  then have "length (sq_sent_queue sq) = MAX_PENDING_BLOCKS" using assms(1) by (simp add: blocks_ok_def)
  then have "sq_send_seq sq - sq_receive_seq sq = of_nat MAX_PENDING_BLOCKS"
    using blocks_ok_send_seq [OF assms(1)] by simp
  then show False using assms(2,3) by (simp add: window_full_def)
qed

definition payload :: "queue_message \<Rightarrow> u8 list" where
  "payload qm = take (qm_len qm - 5) (drop 2 (qm_bytes qm))"

lemma payload_block: "is_block seq body qm \<Longrightarrow> payload qm = body"
  by (simp add: is_block_def payload_def frame_def Let_def)

text \<open>The effect of steps of \<^verbatim>\<open>command_event\<close> that start with \<open>buf\<close> in its buffer and end with \<open>buf'\<close>: blocks
  \<open>outs\<close> are added to the sent queue, their bytes are written or in the buffer, and what they carry
  are the messages \<open>ps\<close> that have left the fronts of the command queues.\<close>

definition sending ::
  "u8 list \<Rightarrow> u8 list \<Rightarrow> queue_message list \<Rightarrow> (nat \<times> queue_message) list \<Rightarrow> serialqueue \<Rightarrow> serialqueue \<Rightarrow> bool" where
  "sending buf buf' outs ps sq sq' \<longleftrightarrow>
     sq_sent_queue sq' = sq_sent_queue sq @ outs \<and> sq_receive_seq sq' = sq_receive_seq sq \<and>
     sq_input_buf sq' = sq_input_buf sq \<and> sq_need_sync sq' = sq_need_sync sq \<and>
     sq_serial_fd_type sq' = sq_serial_fd_type sq \<and> timers_moved (sq_pr sq) (sq_pr sq') \<and>
     (\<exists>ws. sq_written sq' = sq_written sq @ ws \<and>
        (sq_serial_fd_type sq \<noteq> SQT_CAN \<longrightarrow> concat ws @ buf' = buf @ concat (map qm_bytes outs))) \<and>
     concat (map payload outs) = concat (map (qm_bytes \<circ> snd) ps) \<and>
     (\<forall>c. queue_all sq c = taken_from c ps @ queue_all sq' c)"

lemma sending_trans:
  assumes a: "sending b1 b2 o1 p1 s1 s2" and b: "sending b2 b3 o2 p2 s2 s3"
  shows "sending b1 b3 (o1 @ o2) (p1 @ p2) s1 s3"
proof -
  obtain w1 where w1: "sq_written s2 = sq_written s1 @ w1"
    "sq_serial_fd_type s1 \<noteq> SQT_CAN \<longrightarrow> concat w1 @ b2 = b1 @ concat (map qm_bytes o1)"
    using a unfolding sending_def by blast
  obtain w2 where w2: "sq_written s3 = sq_written s2 @ w2"
    "sq_serial_fd_type s2 \<noteq> SQT_CAN \<longrightarrow> concat w2 @ b3 = b2 @ concat (map qm_bytes o2)"
    using b unfolding sending_def by blast
  have "sq_serial_fd_type s2 = sq_serial_fd_type s1" using a by (simp add: sending_def)
  then have "sq_serial_fd_type s1 \<noteq> SQT_CAN \<longrightarrow> concat (w1 @ w2) @ b3 = b1 @ concat (map qm_bytes (o1 @ o2))"
    using w1(2) w2(2) by (metis append.assoc concat_append map_append)
  moreover have "sq_written s3 = sq_written s1 @ (w1 @ w2)" using w1 w2 by simp
  moreover have "timers_moved (sq_pr s1) (sq_pr s3)" using a b timers_moved_trans by (auto simp: sending_def)
  ultimately have "\<exists>ws. sq_written s3 = sq_written s1 @ ws \<and>
        (sq_serial_fd_type s1 \<noteq> SQT_CAN \<longrightarrow> concat ws @ b3 = b1 @ concat (map qm_bytes (o1 @ o2)))"
    and "timers_moved (sq_pr s1) (sq_pr s3)" by blast+
  moreover have "sq_sent_queue s3 = sq_sent_queue s1 @ o1 @ o2 \<and> sq_receive_seq s3 = sq_receive_seq s1 \<and>
      sq_input_buf s3 = sq_input_buf s1 \<and> sq_need_sync s3 = sq_need_sync s1 \<and> sq_serial_fd_type s3 = sq_serial_fd_type s1"
    using a b by (simp add: sending_def)
  moreover have "concat (map payload (o1 @ o2)) = concat (map (qm_bytes \<circ> snd) (p1 @ p2))"
    using a b by (simp add: sending_def)
  moreover have "\<forall>c. queue_all s1 c = taken_from c (p1 @ p2) @ queue_all s3 c"
    using a b by (simp add: sending_def)
  ultimately show ?thesis unfolding sending_def by blast
qed

lemma check_sending:
  assumes "queues_ok sq" and "check_send_command pending eventtime sq = (t, sq')"
  shows "sending buf buf [] [] sq sq'"
proof -
  obtain cqs ub rb kc where "sq' = sq\<lparr>sq_cqs := cqs, sq_upcoming_bytes := ub, sq_ready_bytes := rb, sq_need_kick_clock := kc\<rparr>"
    using check_send_command_ok [OF assms] by (auto simp: check_frame_def)
  then show ?thesis using check_send_command_ok [OF assms] by (simp add: sending_def)
qed

lemma write_sending: "sending buf [] [] [] sq (write_blocks eventtime buf sq)"
proof -
  obtain ws pr p f
    where w: "do_write buf sq = sq\<lparr>sq_pr := pr, sq_written := sq_written sq @ ws, sq_time_pos := p, sq_last_write_fail_time := f\<rparr>"
      "timers_moved (sq_pr sq) pr" "sq_serial_fd_type sq \<noteq> SQT_CAN \<longrightarrow> ws = [buf]"
    using do_write_ok [of sq buf] by (auto simp: write_frame_def)
  then show ?thesis by (simp add: sending_def write_blocks_def Let_def queue_all_def)
qed

lemma write_blocks_keeps:
  "sq_send_seq (write_blocks eventtime buf sq) = sq_send_seq sq"
  "sq_need_ack_bytes (write_blocks eventtime buf sq) = sq_need_ack_bytes sq"
  "queues_ok (write_blocks eventtime buf sq) = queues_ok sq"
proof -
  obtain ws pr p f
    where "do_write buf sq = sq\<lparr>sq_pr := pr, sq_written := sq_written sq @ ws, sq_time_pos := p, sq_last_write_fail_time := f\<rparr>"
    using do_write_ok [of sq buf] by (auto simp: write_frame_def)
  then show "sq_send_seq (write_blocks eventtime buf sq) = sq_send_seq sq"
    "sq_need_ack_bytes (write_blocks eventtime buf sq) = sq_need_ack_bytes sq"
    "queues_ok (write_blocks eventtime buf sq) = queues_ok sq"
    by (simp_all add: write_blocks_def Let_def queues_ok_def)
qed

lemma build_sending:
  assumes "queues_ok sq" and "reactor_ok (sq_pr sq)"
  shows "\<exists>block sq' out ps. build_and_send_command pending eventtime sq = Some (block, sq') \<and>
     sending buf (buf @ block) [out] ps sq sq' \<and> queues_ok sq' \<and> length block \<le> MESSAGE_MAX \<and>
     (\<exists>body. is_block (seq_byte (sq_send_seq sq)) body out) \<and> sq_send_seq sq' = sq_send_seq sq + 1 \<and>
     sq_need_ack_bytes sq' = sq_need_ack_bytes sq + int (qm_len out)"
proof -
  obtain ps body sq' out where b: "build_and_send_command pending eventtime sq = Some (frame (seq_byte (sq_send_seq sq)) body, sq')"
    "body = concat (map (qm_bytes \<circ> snd) ps)" "drain (sq_cqs sq) ps (sq_cqs sq')" "queues_ok sq'"
    "is_block (seq_byte (sq_send_seq sq)) body out" "sq_sent_queue sq' = sq_sent_queue sq @ [out]"
    "sq_send_seq sq' = sq_send_seq sq + 1" "sq_receive_seq sq' = sq_receive_seq sq"
    "sq_need_ack_bytes sq' = sq_need_ack_bytes sq + int (length body + 5)" "timers_moved (sq_pr sq) (sq_pr sq')"
    "sq_written sq' = sq_written sq" "sq_input_buf sq' = sq_input_buf sq"
    "sq_need_sync sq' = sq_need_sync sq" "sq_serial_fd_type sq' = sq_serial_fd_type sq"
    using build_ok [OF assms, of pending eventtime] by blast
  have q: "queue_all sq c = taken_from c ps @ queue_all sq' c" for c
    using drain_queues [OF b(3), of c] by (simp add: queue_all_def)
  have blk: "qm_bytes out = frame (seq_byte (sq_send_seq sq)) body" "qm_len out = length body + 5" "length body \<le> MESSAGE_PAYLOAD_MAX"
    using b(5) by (simp_all add: is_block_def)
  have "sending buf (buf @ frame (seq_byte (sq_send_seq sq)) body) [out] ps sq sq'"
    unfolding sending_def using b(2,6,8,10-14) q blk payload_block [OF b(5)] by simp
  then show ?thesis using b(1,4,5,7,9) blk by (fastforce simp: message_consts)
qed

lemma blocks_ok_build:
  assumes ok: "blocks_ok sq" and room: "length (sq_sent_queue sq) < MAX_PENDING_BLOCKS"
    and small: "uint (sq_send_seq sq) + 1 < 2 ^ 64" and s: "sending buf buf' [out] ps sq sq'"
    and blk: "\<exists>body. is_block (seq_byte (sq_send_seq sq)) body out" and seq: "sq_send_seq sq' = sq_send_seq sq + 1"
    and ack: "sq_need_ack_bytes sq' = sq_need_ack_bytes sq + int (qm_len out)"
  shows "blocks_ok sq'"
proof -
  have sq': "sq_sent_queue sq' = sq_sent_queue sq @ [out]" "sq_receive_seq sq' = sq_receive_seq sq"
    using s by (simp_all add: sending_def)
  have "uint (sq_send_seq sq + 1) = uint (sq_send_seq sq) + 1"
    using small by (simp add: uint_plus_if_size word_size)
  then show ?thesis
    using ok room blk ack unfolding blocks_ok_def sq' seq
    by (auto simp: nth_append less_Suc_eq blocks_ok_send_seq [OF ok, symmetric])
qed

text \<open>Every round adds a block or ends the loop, so at most twelve rounds build one.\<close>

lemma command_loop_ok:
  "queues_ok sq \<Longrightarrow> reactor_ok (sq_pr sq) \<Longrightarrow> blocks_ok sq \<Longrightarrow> length buf \<le> MESSAGE_MAX * MAX_PENDING_BLOCKS \<Longrightarrow>
   uint (sq_send_seq sq) + int (MAX_PENDING_BLOCKS - length (sq_sent_queue sq)) + 1 < 2 ^ 64 \<Longrightarrow>
   \<exists>t sq' outs ps. command_loop eventtime buf sq = Some (t, sq') \<and> sending buf [] outs ps sq sq' \<and>
     queues_ok sq' \<and> blocks_ok sq'"
proof (induction "MAX_PENDING_BLOCKS - length (sq_sent_queue sq)" arbitrary: buf sq rule: less_induct)
  case less
  obtain t s1 where c: "check_send_command (length buf) eventtime sq = (t, s1)" by fastforce
  have q1: "queues_ok s1" using check_send_command_ok [OF less.prems(1) c] by simp
  have s1: "sending buf buf [] [] sq s1" using check_sending [OF less.prems(1) c] .
  obtain cqs ub rb kc where e1: "s1 = sq\<lparr>sq_cqs := cqs, sq_upcoming_bytes := ub, sq_ready_bytes := rb, sq_need_kick_clock := kc\<rparr>"
    using check_send_command_ok [OF less.prems(1) c] by (auto simp: check_frame_def)
  define full where "full = (t \<noteq> PR_NOW \<or> MESSAGE_MAX * MAX_PENDING_BLOCKS < length buf + MESSAGE_MAX)"
  define s2 where "s2 = (if full \<and> buf \<noteq> [] then write_blocks eventtime buf s1 else s1)"
  define buf2 where "buf2 = (if full then [] else buf)"
  have s2: "sending buf buf2 [] [] s1 s2"
    using write_sending [of buf s1 eventtime] by (auto simp: s2_def buf2_def sending_def)
  have f2: "sq_send_seq s2 = sq_send_seq sq" "sq_need_ack_bytes s2 = sq_need_ack_bytes sq" "queues_ok s2"
    using q1 by (simp_all add: s2_def write_blocks_keeps) (simp_all add: e1)
  have s02: "sending buf buf2 [] [] sq s2" using sending_trans [OF s1 s2] by simp
  then have g2: "sq_sent_queue s2 = sq_sent_queue sq" "sq_receive_seq s2 = sq_receive_seq sq" "timers_moved (sq_pr sq) (sq_pr s2)"
    by (simp_all add: sending_def)
  have b2: "blocks_ok s2" using less.prems(3) f2 g2 by (simp add: blocks_ok_def)
  have r2: "reactor_ok (sq_pr s2)" using g2(3) less.prems(2) by (auto simp: timers_moved_def intro: reactor_ok_moved)
  show ?case
  proof (cases "t = PR_NOW")
    case False
    then have "command_loop eventtime buf sq = Some (t, s2)"
      by (subst command_loop.simps) (simp add: c Let_def s2_def full_def)
    moreover have "buf2 = []" using False by (simp add: buf2_def full_def)
    ultimately show ?thesis using s02 f2(3) b2 by blast
  next
    case True
    have "\<not> window_full sq" using check_send_command_ok [OF less.prems(1) c] True by blast
    moreover have ne: "sq_receive_seq sq \<noteq> - 1"
    proof
      assume "sq_receive_seq sq = - 1"
      then have "uint (sq_receive_seq sq) = 2 ^ 64 - 1" by (simp add: uint_word_ariths)
      then show False using less.prems(3,5) by (simp add: blocks_ok_def)
    qed
    ultimately have room: "length (sq_sent_queue sq) < MAX_PENDING_BLOCKS"
      using blocks_ok_window [OF less.prems(3)] by blast
    obtain block s3 out ps where b: "build_and_send_command (length buf2) eventtime s2 = Some (block, s3)"
      "sending buf2 (buf2 @ block) [out] ps s2 s3" "queues_ok s3" "length block \<le> MESSAGE_MAX"
      "\<exists>body. is_block (seq_byte (sq_send_seq s2)) body out" "sq_send_seq s3 = sq_send_seq s2 + 1"
      "sq_need_ack_bytes s3 = sq_need_ack_bytes s2 + int (qm_len out)"
      using build_sending [OF f2(3) r2, of "length buf2" eventtime buf2] by blast
    have sm: "uint (sq_send_seq s2) + 1 < 2 ^ 64" using less.prems(5) f2(1) by simp
    have b3: "blocks_ok s3" using blocks_ok_build [OF b2 _ sm b(2) b(5) b(6) b(7)] room g2(1) by simp
    have len: "length (buf2 @ block) \<le> MESSAGE_MAX * MAX_PENDING_BLOCKS"
      using b(4) True by (auto simp: buf2_def full_def message_consts sq_consts)
    have sent3: "sq_sent_queue s3 = sq_sent_queue sq @ [out]" using b(2) g2 by (simp add: sending_def)
    have r3: "reactor_ok (sq_pr s3)"
      using b(2) r2 unfolding sending_def timers_moved_def by (blast intro: reactor_ok_moved)
    have u3: "uint (sq_send_seq s3) = uint (sq_send_seq sq) + 1"
      unfolding b(6) f2(1) [symmetric] using sm by (simp add: uint_plus_if_size word_size)
    have less3: "MAX_PENDING_BLOCKS - length (sq_sent_queue s3) < MAX_PENDING_BLOCKS - length (sq_sent_queue sq)"
      using room sent3 by simp
    have bound: "uint (sq_send_seq s3) + int (MAX_PENDING_BLOCKS - length (sq_sent_queue s3)) + 1 < 2 ^ 64"
      using less.prems(5) room unfolding u3 sent3 by simp
    obtain t' sq' outs ps' where r: "command_loop eventtime (buf2 @ block) s3 = Some (t', sq')"
      "sending (buf2 @ block) [] outs ps' s3 sq'" "queues_ok sq'" "blocks_ok sq'"
      using less.hyps [OF less3 b(3) r3 b3 len bound] by blast
    have "command_loop eventtime buf sq = command_loop eventtime (buf2 @ block) s3"
    proof -
      have "command_loop eventtime buf sq =
          (if t \<noteq> PR_NOW then Some (t, s2)
           else case build_and_send_command (length buf2) eventtime s2 of None \<Rightarrow> None
                | Some (block, sq) \<Rightarrow> if MESSAGE_MAX * MAX_PENDING_BLOCKS < length (buf2 @ block) then None
                    else command_loop eventtime (buf2 @ block) sq)"
        by (subst command_loop.simps) (simp only: c Let_def prod.case s2_def buf2_def full_def)
      then show ?thesis using True len b(1) by simp
    qed
    then show ?thesis
      using r sending_trans [OF sending_trans [OF s02 b(2)] r(2)] by auto
  qed
qed

section \<open>The invariant of the link\<close>

text \<open>\<open>n\<close> is a number of calls of \<^verbatim>\<open>command_event\<close> that cannot exhaust the sequence numbers yet; the start
  of a connection may set them to a number up to 16.\<close>

definition link_ok :: "nat \<Rightarrow> serialqueue \<Rightarrow> bool" where
  "link_ok n sq \<longleftrightarrow> reactor_ok (sq_pr sq) \<and> queues_ok sq \<and> blocks_ok sq \<and>
     max (uint (sq_send_seq sq)) 16 + 16 * int n + 32 < 2 ^ 64"

definition sq_inv :: "nat \<Rightarrow> serialqueue \<Rightarrow> bool" where
  "sq_inv n sq \<longleftrightarrow> link_ok n sq \<and> length (sq_input_buf sq) < MESSAGE_MAX"

lemma sq_inv_mono: "sq_inv (Suc n) sq \<Longrightarrow> sq_inv n sq"
  by (simp add: sq_inv_def link_ok_def)

lemma sending_reactor_ok: "sending buf buf' outs ps sq sq' \<Longrightarrow> reactor_ok (sq_pr sq) \<Longrightarrow> reactor_ok (sq_pr sq')"
  unfolding sending_def timers_moved_def by (blast intro: reactor_ok_moved)

lemma command_event_ok:
  assumes inv: "sq_inv (Suc n) sq"
  shows "\<exists>t sq' outs ps. command_event eventtime sq = Some (t, sq') \<and> sending [] [] outs ps sq sq' \<and> sq_inv n sq'"
proof -
  have i: "queues_ok sq" "reactor_ok (sq_pr sq)" "blocks_ok sq" "length (sq_input_buf sq) < MESSAGE_MAX"
    and b: "max (uint (sq_send_seq sq)) 16 + 16 * int (Suc n) + 32 < 2 ^ 64"
    using inv by (simp_all add: sq_inv_def link_ok_def)
  have "int (MAX_PENDING_BLOCKS - length (sq_sent_queue sq)) \<le> 12" by (simp add: sq_consts)
  then have "uint (sq_send_seq sq) + int (MAX_PENDING_BLOCKS - length (sq_sent_queue sq)) + 1 < 2 ^ 64" using b by simp
  then obtain t sq' outs ps where c: "command_loop eventtime [] sq = Some (t, sq')" "sending [] [] outs ps sq sq'"
    "queues_ok sq'" "blocks_ok sq'"
    using command_loop_ok [OF i(1-3), of "[]" eventtime] by auto
  have keep: "sq_receive_seq sq' = sq_receive_seq sq" "sq_input_buf sq' = sq_input_buf sq"
    using c(2) by (simp_all add: sending_def)
  have "uint (sq_send_seq sq') \<le> uint (sq_send_seq sq) + 12"
    using c(4) i(3) keep(1) by (simp add: blocks_ok_def sq_consts)
  then have "sq_inv n sq'"
    using c(3,4) sending_reactor_ok [OF c(2) i(2)] b i(4) keep(2) by (simp add: sq_inv_def link_ok_def)
  then show ?thesis using c by (auto simp: command_event_def)
qed

lemma sq_reactor_ok: "\<exists>pr. sq_reactor serial_fd pipe_fd t = Some pr \<and> reactor_ok pr \<and> armed pr"
  by (simp add: sq_reactor_def pollreactor_alloc_def pollreactor_add_fd_def pollreactor_add_timer_def sq_consts
      reactor_ok_def armed_def numeral_2_eq_2)

lemma sq_inv_alloc:
  assumes a: "serialqueue_alloc serial_fd t client_id name ok pipe_fd wsrc tsrc = Some sq"
    and t: "t \<noteq> SQT_DEBUGFILE" and n: "16 * int n + 48 < 2 ^ 64"
  shows "sq_inv n sq" and "armed (sq_pr sq)"
proof -
  obtain pr where pr: "sq_reactor serial_fd pipe_fd t = Some pr" "reactor_ok pr" "armed pr"
    using sq_reactor_ok by blast
  have f: "sq_pr sq = pr" "sq_pending_queues sq = []" "sq_cqs sq = (\<lambda>_. \<lparr>upcoming_queue = [], ready_queue = []\<rparr>)"
    "sq_ready_bytes sq = 0" "sq_upcoming_bytes sq = 0" "sq_sent_queue sq = []" "sq_send_seq sq = 1" "sq_receive_seq sq = 1"
    "sq_need_ack_bytes sq = 0" "sq_input_buf sq = []"
    using a t pr(1) by (auto simp: serialqueue_alloc_def split: if_splits)
  show "armed (sq_pr sq)" using f pr by simp
  show "sq_inv n sq" using n pr(2) by (simp add: sq_inv_def link_ok_def queues_ok_def blocks_ok_def f message_consts)
qed

lemma set_min_clock_ok: "msg_ok (set_min_clock qm) = msg_ok qm" "qm_len (set_min_clock qm) = qm_len qm"
  by (simp_all add: set_min_clock_def msg_ok_def)

lemma send_batch_queues_ok:
  assumes ok: "queues_ok sq" and m: "\<And>m. m \<in> set msgs \<Longrightarrow> msg_ok m"
  shows "queues_ok (serialqueue_send_batch c msgs sq)"
proof (cases "msgs_bytes (map set_min_clock msgs) = 0")
  case True
  then show ?thesis using ok by (simp add: serialqueue_send_batch_def)
next
  case False
  let ?ms = "map set_min_clock msgs"
  let ?P = "set (sq_pending_queues sq)"
  define s2 where "s2 = serialqueue_send_batch c msgs sq"
  have ne: "?ms \<noteq> []" using False by auto
  have cqs: "sq_cqs s2 = (sq_cqs sq)(c := (sq_cqs sq c)\<lparr>upcoming_queue := upcoming_queue (sq_cqs sq c) @ ?ms\<rparr>)"
    and pend: "sq_pending_queues s2 = (if c \<in> ?P then sq_pending_queues sq else sq_pending_queues sq @ [c])"
    and bytes: "sq_ready_bytes s2 = sq_ready_bytes sq" "sq_upcoming_bytes s2 = sq_upcoming_bytes sq + msgs_bytes ?ms"
    using False queues_ok_pending [OF ok, of c]
    by (auto simp: s2_def serialqueue_send_batch_def Let_def kick_bg_thread_def)
  have P: "set (sq_pending_queues s2) = insert c ?P" by (auto simp: pend)
  have c0: "c \<notin> ?P \<Longrightarrow> ready_queue (sq_cqs sq c) = [] \<and> upcoming_queue (sq_cqs sq c) = []"
    using queues_ok_pending [OF ok, of c] by auto
  have sum: "(\<Sum>d \<in> insert c ?P. f (sq_cqs s2 d)) = (\<Sum>d \<in> ?P. f (sq_cqs sq d)) - f (sq_cqs sq c) + f (sq_cqs s2 c)"
    if "c \<notin> ?P \<Longrightarrow> f (sq_cqs sq c) = (0 :: int)" for f
  proof -
    have "(\<Sum>d \<in> insert c ?P. f (sq_cqs s2 d)) = f (sq_cqs s2 c) + (\<Sum>d \<in> ?P - {c}. f (sq_cqs s2 d))"
      by (simp add: sum.insert_remove)
    also have "(\<Sum>d \<in> ?P - {c}. f (sq_cqs s2 d)) = (\<Sum>d \<in> ?P - {c}. f (sq_cqs sq d))"
      by (rule sum.cong) (auto simp: cqs)
    also have "\<dots> = (\<Sum>d \<in> ?P. f (sq_cqs sq d)) - f (sq_cqs sq c)"
      using that by (cases "c \<in> ?P") (simp_all add: sum_diff1)
    finally show ?thesis by simp
  qed
  have "sq_ready_bytes s2 = (\<Sum>d \<in> set (sq_pending_queues s2). msgs_bytes (ready_queue (sq_cqs s2 d)))"
    unfolding P using sum [of "msgs_bytes \<circ> ready_queue"] c0 ok by (simp add: bytes queues_ok_def cqs)
  moreover have "sq_upcoming_bytes s2 = (\<Sum>d \<in> set (sq_pending_queues s2). msgs_bytes (upcoming_queue (sq_cqs s2 d)))"
    unfolding P using sum [of "msgs_bytes \<circ> upcoming_queue"] c0 ok by (simp add: bytes queues_ok_def cqs)
  moreover have "distinct (sq_pending_queues s2)" using ok by (simp add: pend queues_ok_def)
  moreover have "\<forall>d. d \<in> set (sq_pending_queues s2) \<longleftrightarrow> ready_queue (sq_cqs s2 d) \<noteq> [] \<or> upcoming_queue (sq_cqs s2 d) \<noteq> []"
  proof
    fix d
    show "d \<in> set (sq_pending_queues s2) \<longleftrightarrow> ready_queue (sq_cqs s2 d) \<noteq> [] \<or> upcoming_queue (sq_cqs s2 d) \<noteq> []"
      unfolding P using queues_ok_pending [OF ok, of d] ne by (cases "d = c") (auto simp: cqs)
  qed
  moreover have "\<forall>d. \<forall>m \<in> set (ready_queue (sq_cqs s2 d)) \<union> set (upcoming_queue (sq_cqs s2 d)). msg_ok m"
  proof (intro allI ballI)
    fix d x
    assume "x \<in> set (ready_queue (sq_cqs s2 d)) \<union> set (upcoming_queue (sq_cqs s2 d))"
    then have "x \<in> set (ready_queue (sq_cqs sq d)) \<union> set (upcoming_queue (sq_cqs sq d)) \<or> x \<in> set ?ms"
      by (cases "d = c") (auto simp: cqs)
    then show "msg_ok x" using queues_ok_msg [OF ok] m set_min_clock_ok(1) by auto
  qed
  ultimately show ?thesis unfolding s2_def [symmetric] queues_ok_def by blast
qed

lemma send_batch_keeps:
  "sq_pr (serialqueue_send_batch c msgs sq) = sq_pr sq" "sq_sent_queue (serialqueue_send_batch c msgs sq) = sq_sent_queue sq"
  "sq_send_seq (serialqueue_send_batch c msgs sq) = sq_send_seq sq"
  "sq_receive_seq (serialqueue_send_batch c msgs sq) = sq_receive_seq sq"
  "sq_need_ack_bytes (serialqueue_send_batch c msgs sq) = sq_need_ack_bytes sq"
  "sq_input_buf (serialqueue_send_batch c msgs sq) = sq_input_buf sq"
  "sq_need_sync (serialqueue_send_batch c msgs sq) = sq_need_sync sq"
  "sq_serial_fd_type (serialqueue_send_batch c msgs sq) = sq_serial_fd_type sq"
  by (simp_all add: serialqueue_send_batch_def Let_def kick_bg_thread_def)

lemma sq_inv_send_batch:
  "sq_inv n sq \<Longrightarrow> (\<And>m. m \<in> set msgs \<Longrightarrow> msg_ok m) \<Longrightarrow> sq_inv n (serialqueue_send_batch c msgs sq)"
  using send_batch_queues_ok [of sq msgs c] unfolding sq_inv_def link_ok_def blocks_ok_def send_batch_keeps by blast

section \<open>Properties\<close>

lemma seq_ok_seq_byte: "seq_ok (seq_byte s)"
  unfolding seq_ok_def seq_byte_def bit.conj_disj_distrib2 and.assoc bit.conj_cancel_right
  by (simp add: message_consts)

definition example_sq :: serialqueue where
  "example_sq = serialqueue_send_batch 7
     [message_alloc\<lparr>qm_msg := [1, 2, 3] @ replicate 61 0, qm_len := 3, qm_req_clock := 100\<rparr>]
     (the (serialqueue_alloc 3 SQT_UART 0 ''mcu'' True 4 (\<lambda>_. 0) (\<lambda>_. 0)))"

lemma example_inv: "16 * int n + 48 < 2 ^ 64 \<Longrightarrow> sq_inv n example_sq"
proof -
  assume n: "16 * int n + 48 < 2 ^ 64"
  obtain sq where a: "serialqueue_alloc 3 SQT_UART 0 ''mcu'' True 4 (\<lambda>_. 0) (\<lambda>_. 0) = Some sq"
    using sq_reactor_ok [of 3 4 SQT_UART] by (auto simp: serialqueue_alloc_def)
  have "sq_inv n sq" using sq_inv_alloc(1) [OF a _ n] by (simp add: SQT_UART_def SQT_DEBUGFILE_def)
  then show ?thesis
    unfolding example_sq_def a option.sel
    by (rule sq_inv_send_batch) (simp add: msg_ok_def message_alloc_def message_consts MAX_CLOCK_def)
qed

text \<open>C25 (build_in_clock_order). \<^verbatim>\<open>build_and_send_command\<close> builds one block of at most 64 bytes: a frame with
  the next sequence number, which the firmware's block search accepts when it expects that number.
  Its payload is made of whole messages, each the head of its queue with a clock not above the
  heads of all other queues, and of at least one message when any is ready.\<close>

theorem build_in_clock_order:
  assumes "queues_ok sq" and "reactor_ok (sq_pr sq)"
  shows "\<exists>ps sq' block. build_and_send_command pending eventtime sq = Some (block, sq') \<and>
     block = frame (seq_byte (sq_send_seq sq)) (concat (map (qm_bytes \<circ> snd) ps)) \<and> length block \<le> MESSAGE_MAX \<and>
     fb_ret (command_find_block \<lparr>next_sequence = seq_byte (sq_send_seq sq), sync_state = 0\<rparr> block) = 1 \<and>
     drain (sq_cqs sq) ps (sq_cqs sq') \<and> (sq_ready_bytes sq \<noteq> 0 \<longrightarrow> ps \<noteq> []) \<and> queues_ok sq'"
proof -
  obtain ps body sq' out where b: "build_and_send_command pending eventtime sq = Some (frame (seq_byte (sq_send_seq sq)) body, sq')"
    "body = concat (map (qm_bytes \<circ> snd) ps)" "drain (sq_cqs sq) ps (sq_cqs sq')" "queues_ok sq'"
    "is_block (seq_byte (sq_send_seq sq)) body out" "sq_ready_bytes sq \<noteq> 0 \<longrightarrow> ps \<noteq> []"
    using build_ok [OF assms, of pending eventtime] by blast
  have len: "length body \<le> 59" using b(5) by (simp add: is_block_def message_consts)
  have "synced \<lparr>next_sequence = seq_byte (sq_send_seq sq), sync_state = 0\<rparr>" by (simp add: synced_def)
  then have "fb_ret (command_find_block \<lparr>next_sequence = seq_byte (sq_send_seq sq), sync_state = 0\<rparr>
      (frame (seq_byte (sq_send_seq sq)) body)) = 1"
    using find_block_frame [OF _ len seq_ok_seq_byte, of _ "sq_send_seq sq" "[]"] by (simp add: Let_def)
  then show ?thesis using b len by (auto simp: message_consts)
qed

theorem build_in_clock_order_witness:
  "\<exists>(ps :: (nat \<times> queue_message) list) sq' block. build_and_send_command 0 0 example_sq = Some (block, sq') \<and>
     block = frame (seq_byte (sq_send_seq example_sq)) (concat (map (qm_bytes \<circ> snd) ps)) \<and> queues_ok sq'"
proof -
  have "queues_ok example_sq" "reactor_ok (sq_pr example_sq)" using example_inv [of 0] by (simp_all add: sq_inv_def link_ok_def)
  from build_in_clock_order [OF this, of 0 0] show ?thesis by blast
qed

text \<open>C3 (command_event_sends). \<^verbatim>\<open>command_event\<close> returns and keeps the invariant of the link, in particular at
  most twelve unacknowledged blocks with consecutive sequence numbers. Over a serial line it writes
  exactly the new blocks of the sent queue. No command is lost, duplicated or reordered: each queue
  is what was taken from its front followed by what is left, and the payloads of the new blocks are
  the messages taken.\<close>

theorem command_event_sends:
  assumes "sq_inv (Suc n) sq"
  shows "\<exists>t sq' outs ps. command_event eventtime sq = Some (t, sq') \<and> sq_inv n sq' \<and>
     sq_sent_queue sq' = sq_sent_queue sq @ outs \<and>
     (sq_serial_fd_type sq \<noteq> SQT_CAN \<longrightarrow>
        (\<exists>ws. sq_written sq' = sq_written sq @ ws \<and> concat ws = concat (map qm_bytes outs))) \<and>
     concat (map payload outs) = concat (map (qm_bytes \<circ> snd) ps) \<and>
     (\<forall>c. queue_all sq c = taken_from c ps @ queue_all sq' c)"
proof -
  obtain t sq' outs ps where "command_event eventtime sq = Some (t, sq')" "sending [] [] outs ps sq sq'" "sq_inv n sq'"
    using command_event_ok [OF assms, of eventtime] by blast
  moreover from this(2) have "sq_sent_queue sq' = sq_sent_queue sq @ outs"
    "sq_serial_fd_type sq \<noteq> SQT_CAN \<longrightarrow> (\<exists>ws. sq_written sq' = sq_written sq @ ws \<and> concat ws = concat (map qm_bytes outs))"
    "concat (map payload outs) = concat (map (qm_bytes \<circ> snd) ps)"
    "\<forall>c. queue_all sq c = taken_from c ps @ queue_all sq' c"
    unfolding sending_def by auto
  ultimately show ?thesis by blast
qed

theorem command_event_sends_witness:
  "\<exists>t sq' outs ps. command_event 1 example_sq = Some (t, sq') \<and> sq_inv 4 sq' \<and>
     concat (map payload outs) = concat (map (qm_bytes \<circ> snd) ps) \<and>
     (\<forall>c. queue_all example_sq c = taken_from c ps @ queue_all sq' c)"
proof -
  have "sq_inv (Suc 4) example_sq" by (rule example_inv) simp
  from command_event_sends [OF this, of 1] show ?thesis by blast
qed

end
