(* ===== verification/Recvqueue.thy ===== *)
theory Recvqueue
  imports Sendqueue
begin

text \<open>
  The receiving side of the host's link (\<^verbatim>\<open>src/klippy/chelper/serialqueue.c\<close>): how acknowledgements
  move the window of unacknowledged blocks, what is resent, and that the background thread keeps
  the invariant of the link whatever arrives.
\<close>

section \<open>Sequence numbers\<close>

lemma and_0xf: "(x :: 'a::len word) AND 0xf = take_bit 4 x"
  by (simp add: take_bit_eq_mask mask_eq_exp_minus_1)

lemma uint_rseq_delta: "uint (rseq_delta_of q r) = (uint q - uint r) mod 16"
proof -
  have "rseq_delta_of q r = take_bit 4 (ucast q - r)"
    by (simp add: rseq_delta_of_def MESSAGE_SEQ_MASK_def and_0xf)
  then have "uint (rseq_delta_of q r) = take_bit 4 (uint (ucast q - r))"
    by (simp only: unsigned_take_bit_eq)
  then have "uint (rseq_delta_of q r) = uint (ucast q - r) mod 16" by (simp add: take_bit_eq_mod)
  also have "uint (ucast q - r) = (uint q - uint r) mod 2 ^ 64"
    by (simp add: uint_word_ariths unsigned_ucast_eq take_bit_eq_mod mod_diff_left_eq)
  finally show ?thesis by (simp add: mod_mod_cancel)
qed

lemma uint_seq_byte: "uint (seq_byte s) mod 16 = uint s mod 16"
proof -
  have "seq_byte s = 0x10 OR take_bit 4 (ucast s)"
    by (simp add: seq_byte_def MESSAGE_DEST_def MESSAGE_SEQ_MASK_def and_0xf)
  then have "take_bit 4 (uint (seq_byte s)) = take_bit 4 (uint (0x10 :: u8) OR take_bit 4 (uint (ucast s :: u8)))"
    by (simp only: unsigned_or_eq unsigned_take_bit_eq)
  also have "\<dots> = take_bit 4 (uint (ucast s :: u8))" by (simp add: take_bit_or)
  also have "\<dots> = take_bit 4 (uint s)" by (simp add: unsigned_ucast_eq take_bit_take_bit)
  finally show ?thesis by (simp add: take_bit_eq_mod)
qed

definition ack_count :: "u8 \<Rightarrow> u64 \<Rightarrow> nat" where
  "ack_count q r = unat (rseq_delta_of q r)"

lemma ack_count_less: "ack_count q r < 16"
  using uint_rseq_delta [of q r] by (simp add: ack_count_def unat_eq_nat_uint nat_less_iff)

lemma rseq_delta_count: "rseq_delta_of q r = of_nat (ack_count q r)"
  by (simp add: ack_count_def)

lemma ack_count_seq_byte:
  assumes "k < 16"
  shows "ack_count (seq_byte (r + of_nat k)) r = k"
proof -
  have "uint (rseq_delta_of (seq_byte (r + of_nat k)) r) = (uint (seq_byte (r + of_nat k)) mod 16 - uint r) mod 16"
    by (simp add: uint_rseq_delta mod_diff_left_eq)
  also have "\<dots> = (uint (r + of_nat k) - uint r) mod 16" by (simp add: uint_seq_byte mod_diff_left_eq)
  also have "uint (r + of_nat k) = (uint r + int k) mod 2 ^ 64"
    using assms by (simp add: uint_word_ariths unsigned_of_nat take_bit_nat_eq_self)
  also have "((uint r + int k) mod 2 ^ 64 - uint r) mod 16 = ((uint r + int k) mod 2 ^ 64 mod 16 - uint r) mod 16"
    by (simp add: mod_diff_left_eq)
  also have "(uint r + int k) mod 2 ^ 64 mod 16 = (uint r + int k) mod 16" by (simp add: mod_mod_cancel)
  also have "((uint r + int k) mod 16 - uint r) mod 16 = int k" using assms by (simp add: mod_diff_left_eq)
  finally show ?thesis by (simp add: ack_count_def unat_eq_nat_uint)
qed

section \<open>What an acknowledgement removes\<close>

lemma ack_sent_ok:
  "0 < k \<Longrightarrow> k < 2 ^ 64 \<Longrightarrow>
   \<exists>os lt lb. ack_sent (r + of_nat k) r sent sq =
     (if k \<le> length sent
      then sq\<lparr>sq_need_ack_bytes := sq_need_ack_bytes sq - msgs_bytes (take k sent), sq_sent_queue := drop k sent,
              sq_old_sent := os, sq_last_receive_sent_time := lt, sq_last_ack_bytes := lb\<rparr>
      else sq\<lparr>sq_need_ack_bytes := sq_need_ack_bytes sq - msgs_bytes sent, sq_sent_queue := [],
              sq_old_sent := os, sq_last_receive_sent_time := lt, sq_last_ack_bytes := lb, sq_send_seq := r + of_nat k\<rparr>)"
proof (induction sent arbitrary: k r sq)
  case Nil
  show ?case
    by (rule exI [of _ "sq_old_sent sq"], rule exI [of _ 0], rule exI [of _ "sq_last_ack_bytes sq"])
      (use Nil in simp)
next
  case (Cons m sent)
  define s1 where "s1 = sq\<lparr>sq_need_ack_bytes := sq_need_ack_bytes sq - int (qm_len m), sq_sent_queue := sent,
    sq_old_sent := debug_queue_add (sq_old_sent sq) m\<rparr>"
  have inj: "(r + of_nat k = r + 1) \<longleftrightarrow> k = 1"
  proof -
    have "(of_nat k = (1 :: u64)) \<longleftrightarrow> unat (of_nat k :: u64) = 1" by (simp add: word_unat_eq_iff)
    then show ?thesis using Cons.prems(2) by (simp add: unat_of_nat_small)
  qed
  show ?case
  proof (cases "k = 1")
    case True
    then show ?thesis
      by (intro exI [of _ "debug_queue_add (sq_old_sent sq) m"] exI [of _ "qm_receive_time m"] exI [of _ "int (qm_len m)"])
        simp
  next
    case False
    then obtain k' where k: "k = Suc k'" "0 < k'" using Cons.prems(1) by (cases k) auto
    have e: "r + of_nat k = r + 1 + of_nat k'" by (simp add: k)
    have eq: "ack_sent (r + of_nat k) r (m # sent) sq = ack_sent (r + 1 + of_nat k') (r + 1) sent s1"
      using inj False by (simp add: s1_def Let_def e)
    obtain os lt lb where ih: "ack_sent (r + 1 + of_nat k') (r + 1) sent s1 =
       (if k' \<le> length sent
        then s1\<lparr>sq_need_ack_bytes := sq_need_ack_bytes s1 - msgs_bytes (take k' sent), sq_sent_queue := drop k' sent,
              sq_old_sent := os, sq_last_receive_sent_time := lt, sq_last_ack_bytes := lb\<rparr>
        else s1\<lparr>sq_need_ack_bytes := sq_need_ack_bytes s1 - msgs_bytes sent, sq_sent_queue := [],
              sq_old_sent := os, sq_last_receive_sent_time := lt, sq_last_ack_bytes := lb, sq_send_seq := r + 1 + of_nat k'\<rparr>)"
      using Cons.IH [of k' "r + 1" s1] k Cons.prems(2) by auto
    show ?thesis
      by (rule exI [of _ os], rule exI [of _ lt], rule exI [of _ lb], unfold eq ih) (simp add: s1_def k)
  qed
qed

text \<open>What the other operations of the receiving side leave alone.\<close>

definition same_core :: "serialqueue \<Rightarrow> serialqueue \<Rightarrow> bool" where
  "same_core sq sq' \<longleftrightarrow> sq_cqs sq' = sq_cqs sq \<and> sq_pending_queues sq' = sq_pending_queues sq \<and>
     sq_ready_bytes sq' = sq_ready_bytes sq \<and> sq_upcoming_bytes sq' = sq_upcoming_bytes sq \<and>
     sq_sent_queue sq' = sq_sent_queue sq \<and> sq_send_seq sq' = sq_send_seq sq \<and> sq_receive_seq sq' = sq_receive_seq sq \<and>
     sq_need_ack_bytes sq' = sq_need_ack_bytes sq \<and> sq_input_buf sq' = sq_input_buf sq \<and>
     sq_need_sync sq' = sq_need_sync sq \<and> sq_written sq' = sq_written sq \<and> sq_serial_fd_type sq' = sq_serial_fd_type sq \<and> timers_moved (sq_pr sq) (sq_pr sq')"

lemma same_core_refl [simp]: "same_core sq sq"
  by (simp add: same_core_def)

lemma same_core_trans: "same_core a b \<Longrightarrow> same_core b c \<Longrightarrow> same_core a c"
  unfolding same_core_def using timers_moved_trans by metis

lemma same_core_reactor_ok: "same_core sq sq' \<Longrightarrow> reactor_ok (sq_pr sq) \<Longrightarrow> reactor_ok (sq_pr sq')"
  unfolding same_core_def timers_moved_def by (blast intro: reactor_ok_moved)

lemma same_core_link_ok:
  assumes "same_core sq sq'" and "link_ok n sq"
  shows "link_ok n sq'"
proof -
  have "queues_ok sq'" "blocks_ok sq'" "sq_send_seq sq' = sq_send_seq sq"
    using assms by (auto simp: link_ok_def same_core_def queues_ok_def blocks_ok_def)
  then show ?thesis using same_core_reactor_ok [OF assms(1)] assms(2) by (simp add: link_ok_def)
qed

lemma update_timer_core:
  "reactor_ok (sq_pr sq) \<Longrightarrow> pos < SQPT_NUM \<Longrightarrow> \<exists>sq'. update_timer pos t sq = Some sq' \<and> same_core sq sq' \<and>
     sq_receive_queue sq' = sq_receive_queue sq \<and> sq_notify_queue sq' = sq_notify_queue sq"
  using update_timer_ok [of sq pos t] by (auto simp: same_core_def)

lemma update_rtt_core: "same_core sq (update_rtt e r sq)"
  and update_rtt_queues: "sq_receive_queue (update_rtt e r sq) = sq_receive_queue sq"
    "sq_notify_queue (update_rtt e r sq) = sq_notify_queue sq"
  by (simp_all add: update_rtt_def Let_def same_core_def)

lemma check_wake_core: "same_core sq (check_wake_receive sq)"
  by (simp add: check_wake_receive_def same_core_def)

text \<open>The whole of \<^verbatim>\<open>update_receive_seq\<close>: everything behind the loop only sets timers and estimates.\<close>

lemma update_receive_seq_ok:
  assumes r: "reactor_ok (sq_pr sq)"
  shows "\<exists>sq'. update_receive_seq e rseq sq = Some sq' \<and>
     same_core ((ack_sent rseq (sq_receive_seq sq) (sq_sent_queue sq) sq)\<lparr>sq_receive_seq := rseq\<rparr>) sq' \<and>
     sq_receive_queue sq' = sq_receive_queue sq"
proof -
  define s0 where "s0 = (ack_sent rseq (sq_receive_seq sq) (sq_sent_queue sq) sq)\<lparr>sq_receive_seq := rseq\<rparr>"
  have "sq_pr (ack_sent a b ms q) = sq_pr q" for a b ms q
    by (induction ms arbitrary: b q) (simp_all add: Let_def)
  moreover have "sq_receive_queue (ack_sent a b ms q) = sq_receive_queue q" for a b ms q
    by (induction ms arbitrary: b q) (simp_all add: Let_def)
  ultimately have r0: "reactor_ok (sq_pr s0)" "sq_receive_queue s0 = sq_receive_queue sq" using r by (simp_all add: s0_def)
  obtain s1 where s1: "update_timer SQPT_COMMAND PR_NOW s0 = Some s1" "same_core s0 s1" "sq_receive_queue s1 = sq_receive_queue s0"
    using update_timer_core [OF r0(1), of SQPT_COMMAND PR_NOW] by (auto simp: sq_consts)
  define s2 where "s2 = update_rtt e rseq s1"
  have c2: "same_core s0 s2" using same_core_trans [OF s1(2) update_rtt_core] by (simp add: s2_def)
  have r2: "reactor_ok (sq_pr s2)" using same_core_reactor_ok [OF c2 r0(1)] .
  define t where "t = (case sq_sent_queue s2 of [] \<Rightarrow> PR_NEVER
     | sent # _ \<Rightarrow> dadd (dadd e (sq_rto s2)) (calculate_bittime (of_nat (qm_len sent)) s2))"
  obtain s3 where s3: "update_timer SQPT_RETRANSMIT t s2 = Some s3" "same_core s2 s3" "sq_receive_queue s3 = sq_receive_queue s2"
    using update_timer_core [OF r2, of SQPT_RETRANSMIT t] by (auto simp: sq_consts)
  have "update_receive_seq e rseq sq = Some s3"
    using s1(1) s3(1) unfolding update_receive_seq_def Let_def s0_def [symmetric]
    by (cases "sq_sent_queue s2") (simp_all add: s2_def [symmetric] t_def)
  then show ?thesis using same_core_trans [OF c2 s3(2)] r0(2) s1(3) s3(3) by (auto simp: s0_def s2_def update_rtt_queues)
qed

lemma link_ok_uint:
  assumes "link_ok n sq" and "k < 16"
  shows "uint (sq_receive_seq sq + of_nat k) = uint (sq_receive_seq sq) + int k"
    and "sq_send_seq sq < sq_receive_seq sq + of_nat k \<longleftrightarrow> length (sq_sent_queue sq) < k"
proof -
  have b: "uint (sq_send_seq sq) = uint (sq_receive_seq sq) + int (length (sq_sent_queue sq))"
    and mx: "max (uint (sq_send_seq sq)) 16 + 16 * int n + 32 < 2 ^ 64"
    using assms(1) unfolding link_ok_def blocks_ok_def by blast+
  have m: "uint (sq_send_seq sq) + 32 < 2 ^ 64" using mx max.cobounded1 [of "uint (sq_send_seq sq)" 16] by linarith
  have "uint (of_nat k :: u64) = int k" using assms(2) by (simp add: unsigned_of_nat take_bit_nat_eq_self)
  then show u: "uint (sq_receive_seq sq + of_nat k) = uint (sq_receive_seq sq) + int k"
    using b m assms(2) by (simp add: uint_plus_if_size word_size)
  show "sq_send_seq sq < sq_receive_seq sq + of_nat k \<longleftrightarrow> length (sq_sent_queue sq) < k"
    unfolding word_less_def u b by simp
qed

text \<open>The window after an acknowledgement of \<open>k\<close> blocks; more than are outstanding only start a connection.\<close>

lemma ack_link_ok:
  assumes ok: "link_ok n sq" and k: "0 < k" "k < 16" and may: "k \<le> length (sq_sent_queue sq) \<or> sq_receive_seq sq = 1"
  defines "rseq \<equiv> sq_receive_seq sq + of_nat k"
  defines "s0 \<equiv> (ack_sent rseq (sq_receive_seq sq) (sq_sent_queue sq) sq)\<lparr>sq_receive_seq := rseq\<rparr>"
  shows "link_ok n s0 \<and> sq_sent_queue s0 = drop k (sq_sent_queue sq) \<and> sq_receive_seq s0 = rseq \<and>
     sq_send_seq s0 = (if k \<le> length (sq_sent_queue sq) then sq_send_seq sq else rseq) \<and>
     sq_cqs s0 = sq_cqs sq \<and> sq_input_buf s0 = sq_input_buf sq \<and> sq_written s0 = sq_written sq \<and> sq_pr s0 = sq_pr sq \<and>
     sq_need_sync s0 = sq_need_sync sq \<and>
     sq_serial_fd_type s0 = sq_serial_fd_type sq \<and> sq_receive_queue s0 = sq_receive_queue sq \<and> sq_notify_queue s0 = sq_notify_queue sq"
proof -
  let ?r = "sq_receive_seq sq" and ?sent = "sq_sent_queue sq"
  have u: "uint rseq = uint ?r + int k" unfolding rseq_def using link_ok_uint(1) [OF ok k(2)] .
  have b: "uint (sq_send_seq sq) = uint ?r + int (length ?sent)" "length ?sent \<le> MAX_PENDING_BLOCKS"
    "sq_need_ack_bytes sq = msgs_bytes ?sent"
    and blk: "\<And>i. i < length ?sent \<Longrightarrow> \<exists>body. is_block (seq_byte (?r + of_nat i)) body (?sent ! i)"
    and max: "max (uint (sq_send_seq sq)) 16 + 16 * int n + 32 < 2 ^ 64"
    and q: "queues_ok sq" "reactor_ok (sq_pr sq)"
    using ok by (auto simp: link_ok_def blocks_ok_def)
  obtain os lt lb where a: "ack_sent rseq ?r ?sent sq =
     (if k \<le> length ?sent
      then sq\<lparr>sq_need_ack_bytes := sq_need_ack_bytes sq - msgs_bytes (take k ?sent), sq_sent_queue := drop k ?sent,
              sq_old_sent := os, sq_last_receive_sent_time := lt, sq_last_ack_bytes := lb\<rparr>
      else sq\<lparr>sq_need_ack_bytes := sq_need_ack_bytes sq - msgs_bytes ?sent, sq_sent_queue := [],
              sq_old_sent := os, sq_last_receive_sent_time := lt, sq_last_ack_bytes := lb, sq_send_seq := rseq\<rparr>)"
    using ack_sent_ok [of k ?r ?sent sq] k unfolding rseq_def by auto
  have q0: "queues_ok s0" using q(1) unfolding s0_def a by (auto simp: queues_ok_def)
  have bytes: "msgs_bytes ?sent = msgs_bytes (take k ?sent) + msgs_bytes (drop k ?sent)"
    by (metis append_take_drop_id msgs_bytes_simps(3))
  show ?thesis
  proof (cases "k \<le> length ?sent")
    case True
    have s0: "s0 = sq\<lparr>sq_need_ack_bytes := sq_need_ack_bytes sq - msgs_bytes (take k ?sent), sq_sent_queue := drop k ?sent,
        sq_old_sent := os, sq_last_receive_sent_time := lt, sq_last_ack_bytes := lb, sq_receive_seq := rseq\<rparr>"
      unfolding s0_def a using True by simp
    have "\<exists>body. is_block (seq_byte (rseq + of_nat i)) body (drop k ?sent ! i)" if "i < length ?sent - k" for i
      using blk [of "k + i"] that True by (simp add: rseq_def add.assoc)
    then have "blocks_ok s0" using b True u bytes by (simp add: s0 blocks_ok_def)
    then show ?thesis using q0 q(2) max True by (simp add: s0 link_ok_def)
  next
    case False
    then have one: "?r = 1" using may by simp
    have s0: "s0 = sq\<lparr>sq_need_ack_bytes := sq_need_ack_bytes sq - msgs_bytes ?sent, sq_sent_queue := [],
        sq_old_sent := os, sq_last_receive_sent_time := lt, sq_last_ack_bytes := lb, sq_send_seq := rseq, sq_receive_seq := rseq\<rparr>"
      unfolding s0_def a using False by simp
    have "uint rseq \<le> 16" using u k(2) one by simp
    then have "max (uint rseq) 16 + 16 * int n + 32 < 2 ^ 64" using max by simp
    moreover have "blocks_ok s0" using b by (simp add: s0 blocks_ok_def)
    ultimately show ?thesis using q0 q(2) False by (simp add: s0 link_ok_def)
  qed
qed

lemma notify_loop_ok:
  "notify_loop e w (sq_notify_queue sq) mw sq = (b, sq') \<Longrightarrow>
     \<exists>acks nq. sq' = sq\<lparr>sq_notify_queue := nq, sq_receive_queue := sq_receive_queue sq @ acks\<rparr> \<and>
       (\<forall>m \<in> set acks. qm_len m = 0) \<and> (b \<longleftrightarrow> mw \<or> acks \<noteq> [])"
proof (induction "sq_notify_queue sq" arbitrary: sq mw)
  case Nil
  have "sq' = sq\<lparr>sq_notify_queue := sq_notify_queue sq, sq_receive_queue := sq_receive_queue sq @ []\<rparr>"
    using Nil by (simp add: Nil.hyps [symmetric])
  moreover have "b = mw" using Nil.prems by (simp add: Nil.hyps [symmetric])
  ultimately show ?case by (intro exI [of _ "[]"] exI [of _ "sq_notify_queue sq"]) simp
next
  case (Cons m ms)
  define m' where "m' = m\<lparr>qm_len := 0, qm_sent_time := sq_last_receive_sent_time sq, qm_receive_time := e\<rparr>"
  define s1 where "s1 = sq\<lparr>sq_notify_queue := ms, sq_receive_queue := sq_receive_queue sq @ [m']\<rparr>"
  show ?case
  proof (cases "w < qm_req_clock m")
    case True
    then have "sq' = sq" "b = mw" using Cons.prems by (simp_all add: Cons.hyps(2) [symmetric])
    then show ?thesis by (intro exI [of _ "[]"] exI [of _ "sq_notify_queue sq"]) simp
  next
    case False
    then have "notify_loop e w (sq_notify_queue s1) True s1 = (b, sq')"
      using Cons.prems by (simp add: Cons.hyps(2) [symmetric] s1_def m'_def)
    then obtain acks nq where "sq' = s1\<lparr>sq_notify_queue := nq, sq_receive_queue := sq_receive_queue s1 @ acks\<rparr>"
      "\<forall>m \<in> set acks. qm_len m = 0" "b"
      using Cons.hyps(1) [of s1 True] by (auto simp: s1_def)
    then have "sq' = sq\<lparr>sq_notify_queue := nq, sq_receive_queue := sq_receive_queue sq @ (m' # acks)\<rparr>"
      "\<forall>m \<in> set (m' # acks). qm_len m = 0" "b"
      by (simp_all add: s1_def m'_def)
    then show ?thesis by blast
  qed
qed

lemma process_message_ok:
  assumes r: "reactor_ok (sq_pr sq)" and len: "length msg \<le> MESSAGE_MAX"
  shows "\<exists>b sq' new. process_message rseq msg mw sq = Some (b, sq') \<and> same_core sq sq' \<and>
     sq_receive_queue sq' = sq_receive_queue sq @ new \<and> map qm_bytes new = (if length msg = MESSAGE_MIN then [] else [msg]) \<and>
     (b \<longleftrightarrow> mw \<or> new \<noteq> [])"
proof (cases "length msg = MESSAGE_MIN")
  case True
  obtain s1 where s1: "update_timer SQPT_RETRANSMIT PR_NOW sq = Some s1" "same_core sq s1" "sq_receive_queue s1 = sq_receive_queue sq"
    using update_timer_core [OF r, of SQPT_RETRANSMIT PR_NOW] by (auto simp: sq_consts)
  define s2 where "s2 = (if sq_last_ack_seq sq < rseq then sq\<lparr>sq_last_ack_seq := rseq\<rparr>
     else if sq_ignore_nak_seq sq < rseq \<and> sq_sent_queue sq \<noteq> [] then s1 else sq)"
  have "process_message rseq msg mw sq = Some (mw, s2)" using True s1(1) by (simp add: process_message_def s2_def)
  moreover have "same_core sq s2" using s1(2) by (simp add: s2_def same_core_def)
  moreover have "sq_receive_queue s2 = sq_receive_queue sq" using s1(3) by (simp add: s2_def)
  ultimately show ?thesis using True by simp
next
  case False
  obtain qm where qm: "message_fill msg = Some qm" "qm_bytes qm = msg"
    using len by (auto simp: message_fill_def qm_bytes_def)
  define now where "now = sq_time_src sq (sq_time_pos sq)"
  define s1 where "s1 = sq\<lparr>sq_time_pos := sq_time_pos sq + 1\<rparr>"
  define m where "m = qm\<lparr>qm_sent_time := (if sq_retransmit_seq s1 < rseq then sq_last_receive_sent_time s1 else 0),
      qm_receive_time := dsub now (calculate_bittime (of_nat (length msg)) s1)\<rparr>"
  have "process_message rseq msg mw sq = Some (True, s1\<lparr>sq_receive_queue := sq_receive_queue s1 @ [m]\<rparr>)"
    using False qm(1) by (simp add: process_message_def get_monotonic_def now_def m_def s1_def)
  moreover have "same_core sq (s1\<lparr>sq_receive_queue := sq_receive_queue s1 @ [m]\<rparr>)" by (simp add: s1_def same_core_def)
  moreover have "map qm_bytes [m] = [msg]" using qm(2) by (simp add: m_def qm_bytes_def)
  ultimately show ?thesis using False
    by (intro exI [of _ True] exI [of _ "s1\<lparr>sq_receive_queue := sq_receive_queue s1 @ [m]\<rparr>"] exI [of _ "[m]"]) (simp add: s1_def)
qed

section \<open>One message\<close>

text \<open>\<open>heard sq k msg sq'\<close>: the first \<open>k\<close> blocks of the sent queue are acknowledged, the command queues and the
  output are left alone, and the receive queue grows by acknowledged requests (of length 0) and the
  message itself unless it is a bare acknowledgement.\<close>

definition heard :: "serialqueue \<Rightarrow> nat \<Rightarrow> u8 list \<Rightarrow> serialqueue \<Rightarrow> bool" where
  "heard sq k msg sq' \<longleftrightarrow> sq_sent_queue sq' = drop k (sq_sent_queue sq) \<and> sq_receive_seq sq' = sq_receive_seq sq + of_nat k \<and>
     sq_send_seq sq' = (if k \<le> length (sq_sent_queue sq) then sq_send_seq sq else sq_receive_seq sq') \<and>
     sq_cqs sq' = sq_cqs sq \<and> sq_input_buf sq' = sq_input_buf sq \<and> sq_need_sync sq' = sq_need_sync sq \<and>
     sq_written sq' = sq_written sq \<and> sq_serial_fd_type sq' = sq_serial_fd_type sq \<and> timers_moved (sq_pr sq) (sq_pr sq') \<and>
     (\<exists>acks new. sq_receive_queue sq' = sq_receive_queue sq @ acks @ new \<and> (\<forall>m \<in> set acks. qm_len m = 0) \<and>
        map qm_bytes new = (if length msg = MESSAGE_MIN then [] else [msg]))"

lemma ack_step:
  assumes ok: "link_ok n sq" and k: "k < 16" and may: "k \<le> length (sq_sent_queue sq) \<or> sq_receive_seq sq = 1"
  defines "rseq \<equiv> sq_receive_seq sq + of_nat k"
  shows "\<exists>s1. (if rseq \<noteq> sq_receive_seq sq then update_receive_seq e rseq sq else Some sq) = Some s1 \<and> link_ok n s1 \<and>
     sq_sent_queue s1 = drop k (sq_sent_queue sq) \<and> sq_receive_seq s1 = rseq \<and>
     sq_send_seq s1 = (if k \<le> length (sq_sent_queue sq) then sq_send_seq sq else rseq) \<and> sq_cqs s1 = sq_cqs sq \<and>
     sq_input_buf s1 = sq_input_buf sq \<and> sq_written s1 = sq_written sq \<and> sq_serial_fd_type s1 = sq_serial_fd_type sq \<and>
     timers_moved (sq_pr sq) (sq_pr s1) \<and> sq_receive_queue s1 = sq_receive_queue sq \<and> sq_need_sync s1 = sq_need_sync sq"
proof (cases "k = 0")
  case True
  then show ?thesis using ok by (simp add: rseq_def)
next
  case False
  define s0 where "s0 = (ack_sent rseq (sq_receive_seq sq) (sq_sent_queue sq) sq)\<lparr>sq_receive_seq := rseq\<rparr>"
  have a: "link_ok n s0" "sq_sent_queue s0 = drop k (sq_sent_queue sq)" "sq_receive_seq s0 = rseq"
    "sq_send_seq s0 = (if k \<le> length (sq_sent_queue sq) then sq_send_seq sq else rseq)"
    "sq_cqs s0 = sq_cqs sq" "sq_input_buf s0 = sq_input_buf sq" "sq_written s0 = sq_written sq" "sq_pr s0 = sq_pr sq"
    "sq_serial_fd_type s0 = sq_serial_fd_type sq" "sq_need_sync s0 = sq_need_sync sq"
    using ack_link_ok [OF ok _ k may] False unfolding s0_def rseq_def by simp_all
  have ne: "rseq \<noteq> sq_receive_seq sq"
    using link_ok_uint(1) [OF ok k] False by (auto simp: rseq_def)
  obtain s1 where s1: "update_receive_seq e rseq sq = Some s1" "same_core s0 s1" "sq_receive_queue s1 = sq_receive_queue sq"
    using update_receive_seq_ok [of sq e rseq] ok by (auto simp: link_ok_def s0_def)
  show ?thesis
    using ne s1 a same_core_link_ok [OF s1(2) a(1)] by (simp add: same_core_def)
qed

lemma handle_message_ok:
  assumes ok: "link_ok n sq" and len: "MESSAGE_MIN \<le> len" "len \<le> MESSAGE_MAX" "len \<le> length (sq_input_buf sq)"
  defines "k \<equiv> ack_count (sq_input_buf sq ! MESSAGE_POS_SEQ) (sq_receive_seq sq)"
  shows "\<exists>sq'. handle_message e len sq = Some sq' \<and> link_ok n sq' \<and> sq_input_buf sq' = sq_input_buf sq \<and>
     timers_moved (sq_pr sq) (sq_pr sq') \<and>
     (if k \<le> length (sq_sent_queue sq) \<or> sq_receive_seq sq = 1 then heard sq k (take len (sq_input_buf sq)) sq'
      else sq' = sq\<lparr>sq_bytes_invalid := sq_bytes_invalid sq + of_nat len\<rparr>)"
proof -
  let ?msg = "take len (sq_input_buf sq)"
  have seq: "rd ?msg MESSAGE_POS_SEQ = Some (sq_input_buf sq ! MESSAGE_POS_SEQ)"
    using len by (simp add: rd_def message_consts)
  have k: "k < 16" and d: "rseq_delta_of (sq_input_buf sq ! MESSAGE_POS_SEQ) (sq_receive_seq sq) = of_nat k"
    by (simp_all add: k_def ack_count_less rseq_delta_count)
  define rseq where "rseq = sq_receive_seq sq + of_nat k"
  have lt: "sq_send_seq sq < rseq \<longleftrightarrow> length (sq_sent_queue sq) < k"
    unfolding rseq_def using link_ok_uint(2) [OF ok k] .
  have ne: "rseq \<noteq> sq_receive_seq sq \<longleftrightarrow> k \<noteq> 0"
    using link_ok_uint(1) [OF ok k] by (cases "k = 0") (auto simp: rseq_def)
  show ?thesis
  proof (cases "k \<le> length (sq_sent_queue sq) \<or> sq_receive_seq sq = 1")
    case False
    have "handle_message e len sq = Some (sq\<lparr>sq_bytes_invalid := sq_bytes_invalid sq + of_nat len\<rparr>)"
      using False ne lt unfolding handle_message_def Let_def seq bind.bind_lunit d rseq_def [symmetric] by auto
    moreover have "same_core sq (sq\<lparr>sq_bytes_invalid := sq_bytes_invalid sq + of_nat len\<rparr>)" by (simp add: same_core_def)
    ultimately show ?thesis using False same_core_link_ok [OF _ ok] by (auto simp: same_core_def)
  next
    case True
    have cond: "\<not> (rseq \<noteq> sq_receive_seq sq \<and> sq_send_seq sq < rseq \<and> sq_receive_seq sq \<noteq> 1)"
      using True lt by auto
    obtain s1 where s1: "(if rseq \<noteq> sq_receive_seq sq then update_receive_seq e rseq sq else Some sq) = Some s1"
      "link_ok n s1" "sq_sent_queue s1 = drop k (sq_sent_queue sq)" "sq_receive_seq s1 = rseq"
      "sq_send_seq s1 = (if k \<le> length (sq_sent_queue sq) then sq_send_seq sq else rseq)" "sq_cqs s1 = sq_cqs sq"
      "sq_input_buf s1 = sq_input_buf sq" "sq_written s1 = sq_written sq" "sq_serial_fd_type s1 = sq_serial_fd_type sq"
      "timers_moved (sq_pr sq) (sq_pr s1)" "sq_receive_queue s1 = sq_receive_queue sq"
      "sq_need_sync s1 = sq_need_sync sq"
      using ack_step [OF ok k True, of e] unfolding rseq_def by blast
    define s2 where "s2 = s1\<lparr>sq_bytes_read := sq_bytes_read s1 + of_nat len\<rparr>"
    define w where "w = rseq - 1 - (if MESSAGE_MIN < len then 1 else 0)"
    obtain b3 s3 where s3: "notify_loop e w (sq_notify_queue s2) False s2 = (b3, s3)" by fastforce
    obtain acks nq where a3: "s3 = s2\<lparr>sq_notify_queue := nq, sq_receive_queue := sq_receive_queue s2 @ acks\<rparr>"
      "\<forall>m \<in> set acks. qm_len m = 0"
      using notify_loop_ok [OF s3] by blast
    have c3: "same_core s1 s3" by (simp add: a3 s2_def same_core_def)
    have r3: "reactor_ok (sq_pr s3)" using s1(2) same_core_reactor_ok [OF c3] by (simp add: link_ok_def)
    obtain b4 s4 new where s4: "process_message rseq ?msg b3 s3 = Some (b4, s4)" "same_core s3 s4"
      "sq_receive_queue s4 = sq_receive_queue s3 @ new" "map qm_bytes new = (if length ?msg = MESSAGE_MIN then [] else [?msg])"
      using process_message_ok [OF r3, of ?msg rseq b3] len by auto
    define s5 where "s5 = (if b4 then check_wake_receive s4 else s4)"
    define s6 where "s6 = (case find_fast_reader ?msg (sq_fast_readers s5) of
         Some fr \<Rightarrow> s5\<lparr>sq_fast_calls := sq_fast_calls s5 @ [(fr_func fr, ?msg)]\<rparr> | None \<Rightarrow> s5)"
    have "same_core s4 s5" using check_wake_core [of s4] by (simp add: s5_def)
    moreover have "same_core s5 s6" by (simp add: s6_def same_core_def split: option.splits)
    ultimately have c6: "same_core s1 s6" using c3 s4(2) same_core_trans by blast
    have rq: "sq_receive_queue s6 = sq_receive_queue sq @ acks @ new"
      using s4(3) s1(11) by (simp add: s6_def s5_def check_wake_receive_def a3 s2_def split: option.splits)
    have "handle_message e len sq = Some s6"
      using s4(1) s3 unfolding handle_message_def Let_def seq bind.bind_lunit d rseq_def [symmetric] if_not_P [OF cond] s1(1)
        s2_def [symmetric] w_def [symmetric]
      by (cases b4) (simp_all add: s5_def s6_def split: option.splits)
    moreover have "heard sq k ?msg s6"
    proof -
      have "timers_moved (sq_pr sq) (sq_pr s6)" using c6 timers_moved_trans [OF s1(10)] by (simp add: same_core_def)
      moreover have "\<exists>acks new. sq_receive_queue s6 = sq_receive_queue sq @ acks @ new \<and> (\<forall>m \<in> set acks. qm_len m = 0) \<and>
          map qm_bytes new = (if length ?msg = MESSAGE_MIN then [] else [?msg])"
        using rq a3(2) s4(4) by blast
      ultimately show ?thesis using c6 s1(3-9,12) by (simp add: heard_def same_core_def rseq_def)
    qed
    moreover have "link_ok n s6" using same_core_link_ok [OF c6 s1(2)] .
    ultimately show ?thesis using True by (auto simp: heard_def)
  qed
qed

section \<open>The events of the background thread\<close>

lemma msgblock_check_min: "msgblock_check ns buf = (len, ns') \<Longrightarrow> 0 < len \<Longrightarrow> int MESSAGE_MIN \<le> len"
proof -
  assume a: "msgblock_check ns buf = (len, ns')" "0 < len"
  have neg: "\<not> 0 < fst (check_error buf)" if "buf \<noteq> []" using check_error_neg [OF that] by simp
  show ?thesis
  proof (cases "5 \<le> length buf")
    case True
    then have ne: "buf \<noteq> []" by auto
    have "\<not> ns" using a neg [OF ne] True by (auto simp: msgblock_check_def message_consts)
    define k where "k = unat (buf ! 0)"
    from \<open>\<not> ns\<close> show ?thesis using a neg [OF ne] unfolding MESSAGE_MIN_def
      by (auto simp: msgblock_check_eq [OF True, folded k_def] split: if_splits)
  next
    case False
    then show ?thesis using a by (simp add: msgblock_check_def message_consts)
  qed
qed

lemma input_loop_ok:
  "link_ok n sq \<Longrightarrow>
   \<exists>sq'. input_loop e sq = Some sq' \<and> sq_inv n sq' \<and> timers_moved (sq_pr sq) (sq_pr sq')"
proof (induction e sq rule: input_loop.induct)
  case (1 e sq)
  obtain len ns where c: "msgblock_check (sq_need_sync sq) (sq_input_buf sq) = (len, ns)" by fastforce
  note p = msgblock_check_progress [OF c]
  have keep: "link_ok n (sq\<lparr>sq_need_sync := ns\<rparr>)" "link_ok n (sq\<lparr>sq_need_sync := ns, sq_bytes_invalid := b\<rparr>)" for b
    using "1.prems" by (auto simp: link_ok_def queues_ok_def blocks_ok_def)
  show ?case
  proof (cases "len = 0")
    case True
    then have "input_loop e sq = Some (sq\<lparr>sq_need_sync := ns\<rparr>)" by (subst input_loop.simps) (simp add: c)
    then show ?thesis using keep(1) p True by (simp add: sq_inv_def message_consts)
  next
    case nz: False
    define r where "r = (if 0 < len then handle_message e (nat len) (sq\<lparr>sq_need_sync := ns\<rparr>)
                     else Some (sq\<lparr>sq_need_sync := ns, sq_bytes_invalid := sq_bytes_invalid sq + word_of_int (- len)\<rparr>))"
    have "\<exists>s1. r = Some s1 \<and> link_ok n s1 \<and> timers_moved (sq_pr sq) (sq_pr s1)"
    proof (cases "0 < len")
      case True
      have "MESSAGE_MIN \<le> nat len" using msgblock_check_min [OF c True] by simp
      moreover have "nat len \<le> MESSAGE_MAX" "nat len \<le> length (sq_input_buf sq)" using p by (simp_all add: message_consts nat_le_iff)
      ultimately show ?thesis using handle_message_ok [OF keep(1), of "nat len" e] True by (auto simp: r_def)
    next
      case False
      then show ?thesis using keep(2) by (simp add: r_def)
    qed
    then obtain s1 where s1: "r = Some s1" "link_ok n s1" "timers_moved (sq_pr sq) (sq_pr s1)" by blast
    define s2 where "s2 = s1\<lparr>sq_input_buf := drop (nat \<bar>len\<bar>) (sq_input_buf sq)\<rparr>"
    have "link_ok n s2" using s1(2) by (auto simp: s2_def link_ok_def queues_ok_def blocks_ok_def)
    then obtain sq' where "input_loop e s2 = Some sq'" "sq_inv n sq'" "timers_moved (sq_pr s2) (sq_pr sq')"
      using "1.IH" [OF c [symmetric] nz s1(1) [unfolded r_def]] unfolding s2_def by blast
    moreover have "input_loop e sq = input_loop e s2"
      using nz s1(1) by (subst input_loop.simps) (simp add: c r_def s2_def)
    ultimately show ?thesis using timers_moved_trans [OF s1(3)] by (auto simp: s2_def)
  qed
qed

definition input_ok :: "sq_input \<Rightarrow> bool" where
  "input_ok inp \<longleftrightarrow> (case inp of Read_can can_id data \<Rightarrow> length data \<le> 8 | _ \<Rightarrow> True)"

lemma input_event_ok:
  assumes inv: "sq_inv n sq" and inp: "input_ok inp"
  shows "\<exists>sq'. input_event inp e sq = Some sq' \<and> sq_inv n sq' \<and> timers_moved (sq_pr sq) (sq_pr sq')"
proof -
  have l: "link_ok n sq" "length (sq_input_buf sq) < MESSAGE_MAX" using inv by (simp_all add: sq_inv_def)
  have more: "link_ok n (sq\<lparr>sq_input_buf := b\<rparr>)" for b using l(1) by (auto simp: link_ok_def queues_ok_def blocks_ok_def)
  have loop: "\<exists>sq'. input_loop e (sq\<lparr>sq_input_buf := b\<rparr>) = Some sq' \<and> sq_inv n sq' \<and> timers_moved (sq_pr sq) (sq_pr sq')" for b
    using input_loop_ok [OF more, of e b] by simp
  have exit: "sq_inv n (sq\<lparr>sq_pr := pollreactor_do_exit (sq_pr sq)\<rparr>)" "timers_moved (sq_pr sq) (pollreactor_do_exit (sq_pr sq))"
    using l same_core_link_ok [of sq "sq\<lparr>sq_pr := pollreactor_do_exit (sq_pr sq)\<rparr>" n]
    by (simp_all add: same_core_def sq_inv_def)
  show ?thesis
  proof (cases "sq_serial_fd_type sq = SQT_CAN")
    case True
    then show ?thesis
      using loop exit inv inp l(2) by (cases inp) (auto simp: input_event_def input_ok_def message_consts sq_consts)
  next
    case False
    then show ?thesis using loop exit by (auto simp: input_event_def Let_def)
  qed
qed

lemma kick_event_ok:
  assumes "sq_inv n sq"
  shows "\<exists>sq'. kick_event e sq = Some sq' \<and> sq_inv n sq' \<and> timers_moved (sq_pr sq) (sq_pr sq')"
proof -
  have "reactor_ok (sq_pr sq)" using assms by (simp add: sq_inv_def link_ok_def)
  then obtain s1 where "update_timer SQPT_COMMAND PR_NOW sq = Some s1" "same_core sq s1"
    using update_timer_core [of sq SQPT_COMMAND PR_NOW] by (auto simp: sq_consts)
  then show ?thesis
    using assms same_core_link_ok [of sq s1 n] by (auto simp: kick_event_def sq_inv_def same_core_def)
qed

lemma length_concat_le: "\<forall>m \<in> set ms. length (f m) \<le> b \<Longrightarrow> length (concat (map f ms)) \<le> b * length ms"
  by (induction ms) auto

lemma block_bytes_length:
  "blocks_ok sq \<Longrightarrow> length (concat (map qm_bytes (sq_sent_queue sq))) \<le> MESSAGE_MAX * length (sq_sent_queue sq)"
proof -
  assume ok: "blocks_ok sq"
  have "\<forall>m \<in> set (sq_sent_queue sq). length (qm_bytes m) \<le> MESSAGE_MAX"
    using ok by (force simp: blocks_ok_def in_set_conv_nth is_block_def message_consts)
  then show ?thesis by (rule length_concat_le)
qed

lemma retransmit_buf_length: "blocks_ok sq \<Longrightarrow> length (retransmit_buf sq) \<le> MESSAGE_MAX * MAX_PENDING_BLOCKS + 1"
  using block_bytes_length [of sq] by (simp add: retransmit_buf_def blocks_ok_def message_consts sq_consts)

text \<open>A retransmission changes nothing but the output, the estimates and the sequence numbers that tell
  which acknowledgements count.\<close>

lemma retransmit_event_ok:
  assumes inv: "link_ok n sq"
  shows "\<exists>t sq' ws. retransmit_event e sq = Some (t, sq') \<and> link_ok n sq' \<and> sq_written sq' = sq_written sq @ ws \<and>
     (sq_serial_fd_type sq \<noteq> SQT_CAN \<longrightarrow> ws = [retransmit_buf sq]) \<and> same_core sq (sq'\<lparr>sq_written := sq_written sq\<rparr>)"
proof -
  have b: "blocks_ok sq" and r: "reactor_ok (sq_pr sq)" using inv by (simp_all add: link_ok_def)
  define s0 where "s0 = (if sq_serial_fd_type sq = SQT_UART then sq\<lparr>sq_tcflushes := sq_tcflushes sq + 1\<rparr> else sq)"
  define buf where "buf = retransmit_buf s0"
  have f0: "retransmit_buf s0 = retransmit_buf sq" "sq_written s0 = sq_written sq" "sq_serial_fd_type s0 = sq_serial_fd_type sq"
    "same_core sq s0" by (simp_all add: s0_def retransmit_buf_def same_core_def)
  have len: "\<not> MESSAGE_MAX * MAX_PENDING_BLOCKS + 1 < length buf"
    using retransmit_buf_length [OF b] f0(1) by (simp add: buf_def)
  obtain ws where ws: "write_frame ws s0 (do_write buf s0)" "sq_serial_fd_type s0 \<noteq> SQT_CAN \<longrightarrow> ws = [buf]"
    using do_write_ok [of s0 buf] by blast
  define s1 where "s1 = (do_write buf s0)\<lparr>sq_bytes_retransmit := sq_bytes_retransmit (do_write buf s0) + of_nat (length buf)\<rparr>"
  have w1: "sq_written s1 = sq_written sq @ ws" and c1: "same_core s0 (s1\<lparr>sq_written := sq_written s0\<rparr>)"
    using ws(1) f0(2) by (auto simp: write_frame_def s1_def same_core_def)
  have c1': "same_core sq (s1\<lparr>sq_written := sq_written sq\<rparr>)" using same_core_trans [OF f0(4) c1] f0(2) by simp
  have "reactor_ok (sq_pr s1)" using same_core_reactor_ok [OF c1' r] by simp
  then have "SQPT_RETRANSMIT < length (timers (sq_pr s1))" using reactor_ok_length by (simp add: sq_consts)
  then obtain tm where tm: "pollreactor_get_timer SQPT_RETRANSMIT (sq_pr s1) = Some tm"
    by (simp add: pollreactor_get_timer_def rd_def)
  define s2 where "s2 = retransmit_rto tm s1"
  define s3 where "s3 = s2\<lparr>sq_retransmit_seq := sq_send_seq s2, sq_rtt_sample_seq := 0,
                   sq_idle_time := dadd e (calculate_bittime (of_nat (length buf)) s2)\<rparr>"
  have c3: "same_core (s1\<lparr>sq_written := sq_written sq\<rparr>) (s3\<lparr>sq_written := sq_written sq\<rparr>)" and w3: "sq_written s3 = sq_written s1"
    by (simp_all add: s3_def s2_def retransmit_rto_def Let_def same_core_def)
  have core: "same_core sq (s3\<lparr>sq_written := sq_written sq\<rparr>)" using same_core_trans [OF c1' c3] .
  have "link_ok n (s3\<lparr>sq_written := sq_written sq\<rparr>)" using same_core_link_ok [OF core inv] .
  then have "link_ok n s3" by (auto simp: link_ok_def queues_ok_def blocks_ok_def)
  moreover have "\<exists>t. retransmit_event e sq = Some (t, s3)"
    unfolding retransmit_event_def Let_def s0_def [symmetric] buf_def [symmetric] if_not_P [OF len] s1_def [symmetric]
    by (simp add: tm s2_def [symmetric] s3_def [symmetric])
  ultimately show ?thesis using w1 w3 ws(2) f0 core unfolding buf_def by auto
qed

lemma sq_inv_reactor: "sq_inv n sq \<Longrightarrow> reactor_ok (sq_pr sq)"
  by (simp add: sq_inv_def link_ok_def)

lemma reactor_ok_timer: "reactor_ok pr \<Longrightarrow> timer \<in> set (timers pr) \<Longrightarrow> callback timer = Some Retransmit_event \<or> callback timer = Some Command_event"
  by (metis insertE image_eqI set_map empty_iff empty_set list.simps(15) reactor_ok_def)

lemma reactor_ok_fd: "reactor_ok pr \<Longrightarrow> pf \<in> set (fds pr) \<Longrightarrow> fd_callback pf = Some Input_event \<or> fd_callback pf = Some Kick_event"
  by (metis insertE image_eqI set_map empty_iff empty_set list.simps(15) reactor_ok_def)

lemma timer_call_ok:
  assumes inv: "sq_inv (Suc n) sq" and tm: "timer \<in> set (timers (sq_pr sq))"
  shows "\<exists>cb t sq'. callback timer = Some cb \<and> sq_call cb e sq = Some (t, sq') \<and> sq_inv n sq' \<and> timers_moved (sq_pr sq) (sq_pr sq')"
proof (cases "callback timer = Some Retransmit_event")
  case True
  have l: "link_ok n sq" "length (sq_input_buf sq) < MESSAGE_MAX" using sq_inv_mono [OF inv] by (simp_all add: sq_inv_def)
  then show ?thesis using retransmit_event_ok [OF l(1), of e] True by (auto simp: sq_inv_def same_core_def)
next
  case False
  then have "callback timer = Some Command_event" using reactor_ok_timer [OF sq_inv_reactor [OF inv] tm] by simp
  then show ?thesis using command_event_ok [OF inv, of e] by (auto simp: sending_def)
qed

lemma fd_call_ok:
  assumes inv: "sq_inv n sq" and pf: "pf \<in> set (fds (sq_pr sq))" and inp: "input_ok inp"
  shows "\<exists>cb sq'. fd_callback pf = Some cb \<and> sq_callfd cb inp e sq = Some sq' \<and> sq_inv n sq' \<and> timers_moved (sq_pr sq) (sq_pr sq')"
proof (cases "fd_callback pf = Some Input_event")
  case True
  then show ?thesis using input_event_ok [OF inv inp, of e] by auto
next
  case False
  then have "fd_callback pf = Some Kick_event" using reactor_ok_fd [OF sq_inv_reactor [OF inv] pf] by simp
  then show ?thesis using kick_event_ok [OF inv, of e] by auto
qed

lemma sq_put_inv: "sq_inv n sq \<Longrightarrow> same_setup (sq_pr sq) pr \<Longrightarrow> sq_inv n (sq_put pr sq)"
  using reactor_ok_moved [of "sq_pr sq" pr]
  by (auto simp: sq_inv_def link_ok_def queues_ok_def blocks_ok_def sq_put_def)

interpretation sq_reactor: reactor_client sq_pr sq_put sq_call sq_callfd sq_inv input_ok
proof
  show "sq_pr (sq_put pr s) = pr" for pr s by (simp add: sq_put_def)
  show "length (timers (sq_pr s)) = num_timers (sq_pr s) \<and> length (fds (sq_pr s)) = num_fds (sq_pr s)" if "sq_inv n s" for n s
    using sq_inv_reactor [OF that] reactor_ok_length [OF sq_inv_reactor [OF that]] by (simp add: reactor_ok_def sq_consts)
qed (fact sq_put_inv sq_inv_mono timer_call_ok fd_call_ok)+

section \<open>Properties\<close>

definition sent_sq :: serialqueue where
  "sent_sq = example_sq\<lparr>sq_sent_queue := [message_alloc\<lparr>qm_msg := frame 0x11 [7], qm_len := 6\<rparr>], sq_send_seq := 2,
     sq_need_ack_bytes := 6, sq_input_buf := frame 0x12 []\<rparr>"

lemma seq_byte_1: "seq_byte 1 = 0x11" "seq_byte (1 + 1) = 0x12"
  by (simp_all add: seq_byte_def message_consts)

lemma example_seqs: "sq_receive_seq example_sq = 1" "sq_send_seq example_sq = 1" "sq_sent_queue example_sq = []"
  "sq_serial_fd_type example_sq = SQT_UART" "armed (sq_pr example_sq)"
proof -
  obtain sq where a: "serialqueue_alloc 3 SQT_UART 0 ''mcu'' True 4 (\<lambda>_. 0) (\<lambda>_. 0) = Some sq"
    using sq_reactor_ok [of 3 4 SQT_UART] by (auto simp: serialqueue_alloc_def)
  have "sq_receive_seq sq = 1" "sq_send_seq sq = 1" "sq_sent_queue sq = []" "sq_serial_fd_type sq = SQT_UART"
    using a sq_reactor_ok [of 3 4 SQT_UART] by (auto simp: serialqueue_alloc_def SQT_UART_def SQT_DEBUGFILE_def)
  moreover have "armed (sq_pr sq)" using sq_inv_alloc(2) [OF a, of 0] by (simp add: SQT_UART_def SQT_DEBUGFILE_def)
  ultimately show "sq_receive_seq example_sq = 1" "sq_send_seq example_sq = 1" "sq_sent_queue example_sq = []"
    "sq_serial_fd_type example_sq = SQT_UART" "armed (sq_pr example_sq)"
    unfolding example_sq_def a option.sel by (simp_all add: send_batch_keeps)
qed

lemma sent_sq_ok: "link_ok 3 sent_sq"
proof -
  have "link_ok 3 example_sq" using example_inv [of 3] by (simp add: sq_inv_def)
  then have "reactor_ok (sq_pr sent_sq)" "queues_ok sent_sq" by (auto simp: link_ok_def sent_sq_def queues_ok_def)
  moreover have "is_block (seq_byte 1) [7] (message_alloc\<lparr>qm_msg := frame 0x11 [7], qm_len := 6\<rparr>)"
    by (simp add: is_block_def qm_bytes_def seq_byte_1 message_consts)
  then have "blocks_ok sent_sq" by (auto simp: blocks_ok_def sent_sq_def example_seqs sq_consts message_alloc_def)
  ultimately show ?thesis by (simp add: link_ok_def sent_sq_def)
qed

text \<open>C18 (ack_moves_window). When a block arrives whose sequence number acknowledges the first \<open>k\<close> blocks of
  the sent queue, \<^verbatim>\<open>handle_message\<close> removes exactly these, advances the receive sequence number by \<open>k\<close> and
  leaves the commands that wait alone; the reader gets acknowledged requests and, unless the block
  is a bare acknowledgement, the block.\<close>

theorem ack_moves_window:
  assumes "link_ok n sq" and "length body \<le> MESSAGE_PAYLOAD_MAX" and "k \<le> length (sq_sent_queue sq)"
    and "sq_input_buf sq = frame (seq_byte (sq_receive_seq sq + of_nat k)) body @ rest"
  shows "\<exists>sq'. handle_message e (length body + 5) sq = Some sq' \<and> link_ok n sq' \<and>
     sq_sent_queue sq' = drop k (sq_sent_queue sq) \<and> sq_receive_seq sq' = sq_receive_seq sq + of_nat k \<and>
     sq_send_seq sq' = sq_send_seq sq \<and> sq_cqs sq' = sq_cqs sq \<and>
     (\<exists>acks new. sq_receive_queue sq' = sq_receive_queue sq @ acks @ new \<and> (\<forall>m \<in> set acks. qm_len m = 0) \<and>
        map qm_bytes new = (if body = [] then [] else [frame (seq_byte (sq_receive_seq sq + of_nat k)) body]))"
proof -
  let ?f = "frame (seq_byte (sq_receive_seq sq + of_nat k)) body"
  have "length (sq_sent_queue sq) \<le> MAX_PENDING_BLOCKS" using assms(1) unfolding link_ok_def blocks_ok_def by blast
  then have "k < 16" using assms(3) by (simp add: sq_consts)
  then have k: "ack_count (sq_input_buf sq ! MESSAGE_POS_SEQ) (sq_receive_seq sq) = k"
    unfolding assms(4) using ack_count_seq_byte [of k] by (simp add: message_consts frame_nth)
  have msg: "take (length body + 5) (sq_input_buf sq) = ?f" by (simp add: assms(4))
  have bounds: "MESSAGE_MIN \<le> length body + 5" "length body + 5 \<le> MESSAGE_MAX" "length body + 5 \<le> length (sq_input_buf sq)"
    using assms(2,4) by (simp_all add: message_consts)
  obtain sq' where sq': "handle_message e (length body + 5) sq = Some sq'" "link_ok n sq'" "heard sq k ?f sq'"
    using handle_message_ok [OF assms(1) bounds, of e] assms(3) unfolding k msg by auto
  have "(length ?f = MESSAGE_MIN) = (body = [])" by (simp add: message_consts)
  with sq' assms(3) show ?thesis unfolding heard_def by auto
qed

theorem ack_moves_window_witness:
  "\<exists>sq'. handle_message 5 5 sent_sq = Some sq' \<and> link_ok 3 sq' \<and> sq_sent_queue sq' = [] \<and> sq_receive_seq sq' = 2"
proof -
  have "sq_input_buf sent_sq = frame (seq_byte (sq_receive_seq sent_sq + of_nat 1)) [] @ []"
    "1 \<le> length (sq_sent_queue sent_sq)"
    by (simp_all add: sent_sq_def example_seqs seq_byte_1 [simplified])
  from ack_moves_window [OF sent_sq_ok _ this(2,1), of 5] show ?thesis
    by (auto simp: sent_sq_def example_seqs message_consts)
qed

text \<open>A retransmission returns and writes, over a serial line, a sync byte and all
  unacknowledged blocks in their order, which fit the buffer of 769 bytes; the window, the sent
  blocks and the waiting commands stay as they are.\<close>

theorem retransmit_resends:
  assumes "link_ok n sq" and "sq_serial_fd_type sq \<noteq> SQT_CAN"
  shows "\<exists>t sq'. retransmit_event e sq = Some (t, sq') \<and> link_ok n sq' \<and>
     sq_written sq' = sq_written sq @ [MESSAGE_SYNC # concat (map qm_bytes (sq_sent_queue sq))] \<and>
     length (concat (map qm_bytes (sq_sent_queue sq))) \<le> MESSAGE_MAX * MAX_PENDING_BLOCKS \<and>
     sq_sent_queue sq' = sq_sent_queue sq \<and> sq_send_seq sq' = sq_send_seq sq \<and> sq_receive_seq sq' = sq_receive_seq sq \<and>
     sq_cqs sq' = sq_cqs sq"
proof -
  have "blocks_ok sq" using assms(1) by (simp add: link_ok_def)
  from retransmit_buf_length [OF this] have len: "length (concat (map qm_bytes (sq_sent_queue sq))) \<le> MESSAGE_MAX * MAX_PENDING_BLOCKS"
    by (simp add: retransmit_buf_def)
  obtain t sq' ws where "retransmit_event e sq = Some (t, sq')" "link_ok n sq'" "sq_written sq' = sq_written sq @ ws"
    "ws = [retransmit_buf sq]" "same_core sq (sq'\<lparr>sq_written := sq_written sq\<rparr>)"
    using retransmit_event_ok [OF assms(1), of e] assms(2) by blast
  then show ?thesis using len by (auto simp: same_core_def retransmit_buf_def)
qed

theorem retransmit_resends_witness:
  "\<exists>t sq'. retransmit_event 5 sent_sq = Some (t, sq') \<and> sq_written sq' = sq_written sent_sq @ [MESSAGE_SYNC # frame 0x11 [7]]"
proof -
  have "sq_serial_fd_type sent_sq \<noteq> SQT_CAN" by (simp add: sent_sq_def example_seqs SQT_UART_def SQT_CAN_def)
  from retransmit_resends [OF sent_sq_ok this, of 5] show ?thesis
    by (auto simp: sent_sq_def qm_bytes_def)
qed

text \<open>C9 (background_thread_safe). Whatever bytes or CAN frames arrive and whenever the timers run, the
  background thread runs through any number of rounds of its loop without an access outside a
  buffer, a missing callback or an endless loop, and keeps the invariant of the link. It never sleeps
  more than a millisecond past a timer: each call of \<^verbatim>\<open>poll\<close> either does not sleep, or is made when no
  timer is due and with a timeout that ends at most one millisecond after the first wake-up time and,
  if shorter than a second, not before \<^verbatim>\<open>next_timer\<close>, both up to \<open>1 / 2 ^ 50\<close> seconds of rounding.\<close>

theorem background_thread_safe:
  assumes "sq_inv (2 * length evs + k) sq" and "armed (sq_pr sq)" and "\<forall>ev \<in> set evs. input_ok (poll_input ev)"
  shows "\<exists>pcs sq'. background_thread start evs sq = Some (pcs, sq') \<and> sq_inv k sq' \<and> armed (sq_pr sq')
    \<and> (\<forall>pc \<in> set pcs. pc_timeout pc = 0 \<or> 1 \<le> pc_timeout pc \<and> pc_timeout pc \<le> 1000
        \<and> (\<forall>timer \<in> set (timers (pc_reactor pc)). pc_time pc < waketime timer
             \<and> pc_time pc + of_int (pc_timeout pc) / 1000 \<le> waketime timer + 1 / 1000 + 1 / 2 ^ 50)
        \<and> (pc_timeout pc < 1000 \<longrightarrow>
             next_timer (pc_reactor pc) \<le> pc_time pc + of_int (pc_timeout pc) / 1000 + 1 / 2 ^ 50))"
proof -
  have "num_timers (sq_pr sq) = 2" using sq_inv_reactor [OF assms(1)] by (simp add: reactor_ok_def sq_consts)
  then obtain pcs s1 where run: "run_loop sq_pr sq_put sq_call sq_callfd evs start True sq = Some (pcs, s1)"
    "sq_inv k s1" "armed (sq_pr s1)" "\<forall>pc \<in> set pcs. sleep_ok pc"
    using sq_reactor.run_loop_ok [of sq evs k start True] assms by auto
  have core: "same_core s1 (check_wake_receive s1)" by (rule check_wake_core)
  have inv: "sq_inv k (check_wake_receive s1)" "armed (sq_pr (check_wake_receive s1))"
    using run(2,3) core same_core_link_ok [of s1 "check_wake_receive s1" k] timers_moved_armed
    by (auto simp: sq_inv_def same_core_def)
  show ?thesis
    using run(1) inv run(4) unfolding sleep_ok_def
    by (intro exI [of _ pcs] exI [of _ "check_wake_receive s1"]) (simp add: background_thread_def pollreactor_run_def)
qed

theorem background_thread_safe_witness:
  "\<exists>pcs sq'. background_thread 1
     [\<lparr>poll_ret = 1, poll_time = 2, poll_revents = (\<lambda>i. i = 0), poll_input = Read_bytes [0x7e, 5, 0x10, 0xff]\<rparr>] example_sq = Some (pcs, sq') \<and>
     sq_inv 1 sq' \<and> armed (sq_pr sq')"
proof -
  let ?ev = "\<lparr>poll_ret = 1, poll_time = 2, poll_revents = (\<lambda>i. i = 0), poll_input = Read_bytes [0x7e, 5, 0x10, 0xff]\<rparr>"
  have "sq_inv (2 * length [?ev] + 1) example_sq" by (rule example_inv) simp
  from background_thread_safe [OF this, of 1] show ?thesis
    by (auto simp: example_seqs input_ok_def)
qed

end
