(* ===== verification/Link.thy ===== *)
theory Link
  imports Recvqueue
begin

text \<open>
  The two ends of the line together: the host's serial queue
  (\<^verbatim>\<open>src/klippy/chelper/serialqueue.c\<close>) and the firmware's block search with its acknowledgements
  (\<^verbatim>\<open>src/src/command.c\<close>), joined by two lines that keep the order of blocks and may lose any of
  them. What the host writes is cut into blocks by their length bytes; synchronisation bytes between
  blocks, which the firmware drops without an answer (\<open>find_block_sync\<close>), are left out, and a block
  damaged on the way counts as lost. Shown is that the commands the host
  has sent reach the firmware exactly once and in order, although sequence numbers are only four
  bits wide.
\<close>

section \<open>The system\<close>

text \<open>\<open>ln_built\<close> and \<open>ln_done\<close> record the payloads of all blocks the host has built and of all blocks
  the firmware has dispatched.\<close>

record link =
  ln_sq :: serialqueue
  ln_finder :: finder
  ln_down :: "u8 list list"
  ln_up :: "u8 list list"
  ln_built :: "u8 list list"
  ln_done :: "u8 list list"

text \<open>The firmware at the next block: it dispatches the payload of the block it expects and answers
  any block with an acknowledgement that carries the sequence number it expects next.\<close>

definition mcu_block :: "link \<Rightarrow> link" where
  "mcu_block s =
     (case ln_down s of [] \<Rightarrow> s
      | b # rest \<Rightarrow>
          let r = command_find_block (ln_finder s) b
          in s\<lparr>ln_down := rest, ln_finder := fb_state r,
               ln_done := (if fb_ret r = 1 then ln_done s @ [take (fb_pop r - 5) (drop 2 b)] else ln_done s),
               ln_up := ln_up s @ [frame (next_sequence (fb_state r)) []]\<rparr>)"

text \<open>The blocks in what the host has written.\<close>

function wire_blocks :: "u8 list \<Rightarrow> u8 list list" where
  "wire_blocks [] = []"
| "wire_blocks (b # bs) =
     (if b = MESSAGE_SYNC then wire_blocks bs
      else take (unat b) (b # bs) # wire_blocks (drop (unat b - 1) bs))"
  by pat_completeness auto
termination
  by (relation "measure length") auto

definition new_blocks :: "serialqueue \<Rightarrow> serialqueue \<Rightarrow> u8 list list" where
  "new_blocks sq sq' = wire_blocks (concat (drop (length (sq_written sq)) (sq_written sq')))"

inductive link_step :: "link \<Rightarrow> link \<Rightarrow> bool" where
  queue: "(\<And>m. m \<in> set msgs \<Longrightarrow> msg_ok m) \<Longrightarrow> link_step s (s\<lparr>ln_sq := serialqueue_send_batch c msgs (ln_sq s)\<rparr>)"
| command: "command_event e (ln_sq s) = Some (t, sq') \<Longrightarrow> outs = drop (length (sq_sent_queue (ln_sq s))) (sq_sent_queue sq') \<Longrightarrow>
     link_step s (s\<lparr>ln_sq := sq', ln_down := ln_down s @ new_blocks (ln_sq s) sq', ln_built := ln_built s @ map payload outs\<rparr>)"
| retransmit: "retransmit_event e (ln_sq s) = Some (t, sq') \<Longrightarrow>
     link_step s (s\<lparr>ln_sq := sq', ln_down := ln_down s @ new_blocks (ln_sq s) sq'\<rparr>)"
| lose_down: "ln_down s = xs @ b # ys \<Longrightarrow> link_step s (s\<lparr>ln_down := xs @ ys\<rparr>)"
| lose_up: "ln_up s = xs @ b # ys \<Longrightarrow> link_step s (s\<lparr>ln_up := xs @ ys\<rparr>)"
| mcu: "ln_down s \<noteq> [] \<Longrightarrow> link_step s (mcu_block s)"
| response: "length body \<le> MESSAGE_PAYLOAD_MAX \<Longrightarrow>
     link_step s (s\<lparr>ln_up := ln_up s @ [frame (next_sequence (ln_finder s)) body]\<rparr>)"
| host: "ln_up s = m # rest \<Longrightarrow> input_event (Read_bytes m) e (ln_sq s) = Some sq' \<Longrightarrow>
     link_step s (s\<lparr>ln_sq := sq', ln_up := rest\<rparr>)"

inductive link_steps :: "nat \<Rightarrow> link \<Rightarrow> link \<Rightarrow> bool" where
  steps_0: "link_steps 0 s s"
| steps_Suc: "link_steps n s t \<Longrightarrow> link_step t u \<Longrightarrow> link_steps (Suc n) s u"

text \<open>A connection just made: nothing is under way and both ends agree on the next number.\<close>

definition link_start :: "nat \<Rightarrow> link \<Rightarrow> bool" where
  "link_start n s \<longleftrightarrow> sq_inv n (ln_sq s) \<and> sq_serial_fd_type (ln_sq s) \<noteq> SQT_CAN \<and> sq_sent_queue (ln_sq s) = [] \<and>
     sq_input_buf (ln_sq s) = [] \<and> \<not> sq_need_sync (ln_sq s) \<and>
     synced (ln_finder s) \<and> next_sequence (ln_finder s) = seq_byte (sq_send_seq (ln_sq s)) \<and>
     ln_down s = [] \<and> ln_up s = [] \<and> ln_built s = [] \<and> ln_done s = []"

section \<open>What is written\<close>

lemma find_block_sync:
  "synced st \<Longrightarrow> MESSAGE_MIN \<le> Suc (length bs) \<Longrightarrow>
   command_find_block st (MESSAGE_SYNC # bs) = \<lparr>fb_ret = -1, fb_pop = 1, fb_nak = False, fb_state = st\<rparr>"
  by (simp add: command_find_block_def synced_def find_error_def message_consts)

lemma wire_blocks_frame:
  assumes "length body \<le> 59"
  shows "wire_blocks (frame seq body @ rest) = frame seq body # wire_blocks rest"
proof -
  obtain tl where f: "frame seq body = block_len body # tl" by (simp add: frame_def Let_def)
  have n: "unat (block_len body) = Suc (length tl)"
    using arg_cong [OF f, of length] unat_block_len [OF assms] by simp
  have "block_len body \<noteq> MESSAGE_SYNC"
    using unat_block_len [OF assms] assms by (auto simp: message_consts)
  then show ?thesis by (simp add: f n)
qed

lemma wire_blocks_frames:
  "(\<And>k. k \<in> set ks \<Longrightarrow> length (body k) \<le> 59) \<Longrightarrow>
   wire_blocks (concat (map (\<lambda>k. frame (seq k) (body k)) ks)) = map (\<lambda>k. frame (seq k) (body k)) ks"
  by (induction ks) (simp_all add: wire_blocks_frame)

section \<open>Four bit sequence numbers\<close>

lemma uint_offset_mod: "uint (r + of_nat k :: u64) mod 16 = (uint r + int k) mod 16"
proof -
  have "uint (r + of_nat k :: u64) = (uint r + int k) mod 2 ^ 64"
    by (simp add: uint_word_ariths unsigned_of_nat take_bit_eq_mod mod_add_right_eq of_nat_mod)
  then show ?thesis by (simp add: mod_mod_cancel)
qed

text \<open>Numbers less than 16 apart are told apart.\<close>

lemma seq_byte_inj:
  assumes "seq_byte (r + of_nat a) = seq_byte (r + of_nat b)" and "a < b + 16" and "b < a + 16"
  shows "a = b"
proof -
  have "(uint r + int a) mod 16 = (uint r + int b) mod 16"
    using arg_cong [OF assms(1), of "\<lambda>x. uint x mod 16"] by (simp only: uint_seq_byte uint_offset_mod)
  then have "(int a - int b) mod 16 = 0" by (simp add: mod_eq_dvd_iff)
  then show ?thesis using assms(2,3) by presburger
qed

lemma uint_take4: "uint (take_bit 4 w :: u8) = uint w mod 16"
  by (simp only: unsigned_take_bit_eq) (simp add: take_bit_eq_mod)

lemma next_seq_byte: "next_seq (seq_byte x) = seq_byte (x + 1)"
proof -
  have "uint (take_bit 4 (seq_byte x + 1)) = (uint (seq_byte x) + 1) mod 16"
    unfolding uint_take4 by (simp add: uint_word_ariths mod_mod_cancel)
  also have "\<dots> = (uint x + 1) mod 16" by (metis mod_add_left_eq uint_seq_byte)
  also have "\<dots> = uint (x + 1) mod 16" using uint_offset_mod [of x 1] by simp
  also have "\<dots> = uint (take_bit 4 (ucast (x + 1) :: u8))"
    unfolding uint_take4 by (simp add: unsigned_ucast_eq take_bit_eq_mod mod_mod_cancel)
  finally have "take_bit 4 (seq_byte x + 1) = take_bit 4 (ucast (x + 1) :: u8)" by (simp add: word_uint_eq_iff)
  then show ?thesis
    by (simp add: next_seq_def seq_byte_def [of "x + 1"] MESSAGE_SEQ_MASK_def and_0xf or.commute)
qed

section \<open>A block through the host's input\<close>

lemma msgblock_check_frame:
  assumes "length body \<le> 59" and "seq_ok seq"
  shows "msgblock_check False (frame seq body) = (int (length body + 5), False)"
proof -
  have five: "5 \<le> length (frame seq body)" by simp
  have n: "frame seq body ! 0 = block_len body" "frame seq body ! 1 = seq"
    using frame_nth(1,2) [of seq body "[]"] by simp_all
  show ?thesis
    unfolding msgblock_check_eq [OF five] n unat_block_len [OF assms(1)]
    using assms block_checks_of_frame [OF assms(1), of seq "[]"] by simp
qed

lemma input_frame:
  assumes inv: "sq_inv n sq" and t: "sq_serial_fd_type sq \<noteq> SQT_CAN" and idle: "sq_input_buf sq = []" "\<not> sq_need_sync sq"
    and body: "length body \<le> 59" and k: "k \<le> length (sq_sent_queue sq)"
  defines "m \<equiv> frame (seq_byte (sq_receive_seq sq + of_nat k)) body"
  shows "\<exists>sq'. input_event (Read_bytes m) e sq = Some sq' \<and> sq_inv n sq' \<and> sq_sent_queue sq' = drop k (sq_sent_queue sq) \<and>
     sq_receive_seq sq' = sq_receive_seq sq + of_nat k \<and> sq_input_buf sq' = [] \<and> \<not> sq_need_sync sq' \<and>
     sq_serial_fd_type sq' = sq_serial_fd_type sq"
proof -
  have len: "length m = length body + 5" by (simp add: m_def)
  have c: "msgblock_check False m = (int (length body + 5), False)"
    unfolding m_def using msgblock_check_frame [OF body seq_ok_seq_byte] .
  define s0 where "s0 = sq\<lparr>sq_input_buf := m\<rparr>"
  define s1 where "s1 = s0\<lparr>sq_need_sync := False\<rparr>"
  have l1: "link_ok n s1" using inv by (auto simp: s1_def s0_def sq_inv_def link_ok_def queues_ok_def blocks_ok_def)
  have "length (sq_sent_queue sq) \<le> MAX_PENDING_BLOCKS" using inv unfolding sq_inv_def link_ok_def blocks_ok_def by blast
  then have "k < 16" using k by (simp add: sq_consts)
  then have ak: "ack_count (sq_input_buf s1 ! MESSAGE_POS_SEQ) (sq_receive_seq s1) = k"
    using ack_count_seq_byte [of k "sq_receive_seq sq"] frame_nth(2) [of "seq_byte (sq_receive_seq sq + of_nat k)" body "[]"]
    by (simp add: s1_def s0_def m_def message_consts)
  obtain s2 where s2: "handle_message e (length body + 5) s1 = Some s2" "link_ok n s2" "heard s1 k m s2"
    using handle_message_ok [OF l1, of "length body + 5" e] body k unfolding ak
    by (auto simp: s1_def s0_def len message_consts)
  define s3 where "s3 = s2\<lparr>sq_input_buf := []\<rparr>"
  have f3: "sq_sent_queue s3 = drop k (sq_sent_queue sq)" "sq_receive_seq s3 = sq_receive_seq sq + of_nat k"
    "sq_serial_fd_type s3 = sq_serial_fd_type sq" "sq_need_sync s3 = False" "sq_input_buf s3 = []"
    using s2(3) by (simp_all add: s3_def heard_def s1_def s0_def)
  have "msgblock_check False [] = (0, False)" by (simp add: msgblock_check_def message_consts)
  then have e3: "input_loop e s3 = Some (s3\<lparr>sq_need_sync := False\<rparr>)" by (subst input_loop.simps) (simp add: f3)
  have "input_loop e s0 = input_loop e s3"
  proof -
    have "msgblock_check (sq_need_sync s0) (sq_input_buf s0) = (int (length body + 5), False)" using c idle by (simp add: s0_def)
    then show ?thesis
      using s2(1) len by (subst input_loop.simps) (simp add: s1_def [symmetric] s3_def nat_add_distrib, simp add: s0_def)
  qed
  moreover have "input_event (Read_bytes m) e sq = input_loop e s0"
    using t idle(1) len body by (simp add: input_event_def s0_def sq_consts) auto
  ultimately have ev: "input_event (Read_bytes m) e sq = Some (s3\<lparr>sq_need_sync := False\<rparr>)" using e3 by simp
  have "link_ok n (s3\<lparr>sq_need_sync := False\<rparr>)" using s2(2) by (auto simp: s3_def link_ok_def queues_ok_def blocks_ok_def)
  then show ?thesis using ev f3 by (simp add: sq_inv_def message_consts)
qed

section \<open>The invariant\<close>

text \<open>The blocks on the way to the firmware, each with the number of blocks acknowledged when it was
  sent (\<open>b\<close>) and its own number (\<open>k\<close>): old numbers come before new ones, and none is so old or so new
  that its four bits could be taken for those of another.\<close>

definition down_ok :: "u64 \<Rightarrow> u8 list list \<Rightarrow> nat \<Rightarrow> nat \<Rightarrow> u8 list list \<Rightarrow> bool" where
  "down_ok r0 built a nd down \<longleftrightarrow>
     (\<exists>ds. down = map (\<lambda>(b, k). frame (seq_byte (r0 + of_nat k)) (built ! k)) ds \<and> sorted (map fst ds) \<and>
        (\<forall>(b, k) \<in> set ds. b \<le> k \<and> k < b + 12 \<and> k < length built \<and> b \<le> a \<and> nd \<le> b + 12))"

definition up_ok :: "u64 \<Rightarrow> nat \<Rightarrow> nat \<Rightarrow> u8 list list \<Rightarrow> bool" where
  "up_ok r0 a nd up \<longleftrightarrow>
     (\<exists>us. up = map (\<lambda>(u, body). frame (seq_byte (r0 + of_nat u)) body) us \<and> sorted (map fst us) \<and>
        (\<forall>(u, body) \<in> set us. length body \<le> 59 \<and> a \<le> u \<and> u \<le> nd))"

definition acked :: "link \<Rightarrow> nat" where
  "acked s = length (ln_built s) - length (sq_sent_queue (ln_sq s))"

definition host_ok :: "nat \<Rightarrow> u64 \<Rightarrow> u8 list list \<Rightarrow> serialqueue \<Rightarrow> bool" where
  "host_ok n r0 built sq \<longleftrightarrow> sq_inv n sq \<and> sq_serial_fd_type sq \<noteq> SQT_CAN \<and> sq_input_buf sq = [] \<and> \<not> sq_need_sync sq \<and>
     length (sq_sent_queue sq) \<le> length built \<and>
     sq_receive_seq sq = r0 + of_nat (length built - length (sq_sent_queue sq)) \<and>
     map qm_bytes (sq_sent_queue sq) = map (\<lambda>k. frame (seq_byte (r0 + of_nat k)) (built ! k))
        [length built - length (sq_sent_queue sq)..<length built] \<and>
     (\<forall>p \<in> set built. length p \<le> 59)"

definition link_inv :: "nat \<Rightarrow> u64 \<Rightarrow> link \<Rightarrow> bool" where
  "link_inv n r0 s \<longleftrightarrow> host_ok n r0 (ln_built s) (ln_sq s) \<and> synced (ln_finder s) \<and>
     acked s \<le> length (ln_done s) \<and> length (ln_done s) \<le> length (ln_built s) \<and>
     ln_done s = take (length (ln_done s)) (ln_built s) \<and>
     next_sequence (ln_finder s) = seq_byte (r0 + of_nat (length (ln_done s))) \<and>
     down_ok r0 (ln_built s) (acked s) (length (ln_done s)) (ln_down s) \<and> up_ok r0 (acked s) (length (ln_done s)) (ln_up s)"

lemma map_append_split: "xs @ b # ys = map f ds \<Longrightarrow> \<exists>d1 d d2. ds = d1 @ d # d2 \<and> xs = map f d1 \<and> b = f d \<and> ys = map f d2"
proof -
  assume "xs @ b # ys = map f ds"
  then obtain d1 r where "ds = d1 @ r" "xs = map f d1" "b # ys = map f r" by (auto simp: append_eq_map_conv)
  moreover from this(3) obtain d d2 where "r = d # d2" "b = f d" "ys = map f d2" by (auto simp: Cons_eq_map_conv)
  ultimately show ?thesis by blast
qed

lemma down_ok_lose:
  assumes "down_ok r0 built a nd (xs @ b # ys)"
  shows "down_ok r0 built a nd (xs @ ys)"
proof -
  obtain ds where ds: "xs @ b # ys = map (\<lambda>(b, k). frame (seq_byte (r0 + of_nat k)) (built ! k)) ds" "sorted (map fst ds)"
    "\<forall>(b, k) \<in> set ds. b \<le> k \<and> k < b + 12 \<and> k < length built \<and> b \<le> a \<and> nd \<le> b + 12"
    using assms unfolding down_ok_def by blast
  obtain d1 d d2 where d: "ds = d1 @ d # d2" "xs = map (\<lambda>(b, k). frame (seq_byte (r0 + of_nat k)) (built ! k)) d1"
    "ys = map (\<lambda>(b, k). frame (seq_byte (r0 + of_nat k)) (built ! k)) d2"
    using map_append_split [OF ds(1)] by blast
  show ?thesis
    unfolding down_ok_def by (rule exI [of _ "d1 @ d2"]) (use ds(2,3) d in \<open>auto simp: sorted_append\<close>)
qed

lemma up_ok_lose:
  assumes "up_ok r0 a nd (xs @ b # ys)"
  shows "up_ok r0 a nd (xs @ ys)"
proof -
  obtain us where us: "xs @ b # ys = map (\<lambda>(u, body). frame (seq_byte (r0 + of_nat u)) body) us" "sorted (map fst us)"
    "\<forall>(u, body) \<in> set us. length body \<le> 59 \<and> a \<le> u \<and> u \<le> nd"
    using assms unfolding up_ok_def by blast
  obtain d1 d d2 where d: "us = d1 @ d # d2" "xs = map (\<lambda>(u, body). frame (seq_byte (r0 + of_nat u)) body) d1"
    "ys = map (\<lambda>(u, body). frame (seq_byte (r0 + of_nat u)) body) d2"
    using map_append_split [OF us(1)] by blast
  show ?thesis
    unfolding up_ok_def by (rule exI [of _ "d1 @ d2"]) (use us(2,3) d in \<open>auto simp: sorted_append\<close>)
qed

lemma down_ok_append:
  assumes "down_ok r0 built a nd down" and ks: "\<And>k. k \<in> set ks \<Longrightarrow> a \<le> k \<and> k < a + 12 \<and> k < length (built @ new)"
    and "nd \<le> a + 12"
  shows "down_ok r0 (built @ new) a nd (down @ map (\<lambda>k. frame (seq_byte (r0 + of_nat k)) ((built @ new) ! k)) ks)"
proof -
  obtain ds where ds: "down = map (\<lambda>(b, k). frame (seq_byte (r0 + of_nat k)) (built ! k)) ds" "sorted (map fst ds)"
    "\<forall>(b, k) \<in> set ds. b \<le> k \<and> k < b + 12 \<and> k < length built \<and> b \<le> a \<and> nd \<le> b + 12"
    using assms(1) unfolding down_ok_def by blast
  have "down = map (\<lambda>(b, k). frame (seq_byte (r0 + of_nat k)) ((built @ new) ! k)) ds"
    unfolding ds(1) using ds(3) by (intro map_cong) (auto simp: nth_append)
  moreover have "sorted (map fst (ds @ map (Pair a) ks))"
    using ds(2,3) by (auto simp: sorted_append comp_def map_replicate_const)
  ultimately show ?thesis
    unfolding down_ok_def
    by (intro exI [of _ "ds @ map (Pair a) ks"]) (use ds(3) ks assms(3) in auto)
qed

lemma host_ok_less: "host_ok (Suc n) r0 built sq \<Longrightarrow> host_ok n r0 built sq"
  unfolding host_ok_def using sq_inv_mono by blast

lemma host_ok_window: "host_ok n r0 built sq \<Longrightarrow> length (sq_sent_queue sq) \<le> 12"
  unfolding host_ok_def sq_inv_def link_ok_def blocks_ok_def MAX_PENDING_BLOCKS_def by blast

lemma host_ok_same:
  assumes "host_ok n r0 built sq" and "sq_inv n sq'" and "sq_serial_fd_type sq' = sq_serial_fd_type sq"
    and "sq_input_buf sq' = sq_input_buf sq" and "sq_need_sync sq' = sq_need_sync sq"
    and "sq_sent_queue sq' = sq_sent_queue sq" and "sq_receive_seq sq' = sq_receive_seq sq"
  shows "host_ok n r0 built sq'"
  using assms unfolding host_ok_def by simp

lemma host_ok_queue:
  assumes "host_ok n r0 built sq" and "\<And>m. m \<in> set msgs \<Longrightarrow> msg_ok m"
  shows "host_ok n r0 built (serialqueue_send_batch c msgs sq)"
  using assms sq_inv_send_batch [of n sq msgs c] by (intro host_ok_same [OF assms(1)]) (simp_all add: host_ok_def send_batch_keeps)

lemma host_ok_retransmit:
  assumes h: "host_ok n r0 built sq" and r: "retransmit_event e sq = Some (t, sq')"
  shows "host_ok n r0 built sq' \<and> sq_sent_queue sq' = sq_sent_queue sq \<and>
     new_blocks sq sq' = map (\<lambda>k. frame (seq_byte (r0 + of_nat k)) (built ! k))
       [length built - length (sq_sent_queue sq)..<length built]"
proof -
  have inv: "link_ok n sq" "length (sq_input_buf sq) < MESSAGE_MAX" "sq_serial_fd_type sq \<noteq> SQT_CAN"
    and sent: "map qm_bytes (sq_sent_queue sq) = map (\<lambda>k. frame (seq_byte (r0 + of_nat k)) (built ! k))
       [length built - length (sq_sent_queue sq)..<length built]" "\<forall>p \<in> set built. length p \<le> 59"
    using h by (simp_all add: host_ok_def sq_inv_def)
  obtain ws where w: "link_ok n sq'" "same_core sq (sq'\<lparr>sq_written := sq_written sq\<rparr>)"
    "sq_written sq' = sq_written sq @ [retransmit_buf sq]"
    using retransmit_event_ok [OF inv(1), of e] r inv(3) by auto
  have "new_blocks sq sq' = wire_blocks (concat (map qm_bytes (sq_sent_queue sq)))"
    by (simp add: new_blocks_def w(3) retransmit_buf_def)
  also have "\<dots> = map (\<lambda>k. frame (seq_byte (r0 + of_nat k)) (built ! k)) [length built - length (sq_sent_queue sq)..<length built]"
    unfolding sent(1) using sent(2) by (intro wire_blocks_frames) auto
  finally show ?thesis using inv(2) w by (intro conjI host_ok_same [OF h]) (simp_all add: same_core_def sq_inv_def)
qed

lemma host_ok_command:
  assumes h: "host_ok (Suc n) r0 built sq" and c: "command_event e sq = Some (t, sq')"
    and outs: "outs = drop (length (sq_sent_queue sq)) (sq_sent_queue sq')"
  shows "host_ok n r0 (built @ map payload outs) sq' \<and> sq_sent_queue sq' = sq_sent_queue sq @ outs \<and>
     new_blocks sq sq' = map (\<lambda>k. frame (seq_byte (r0 + of_nat k)) ((built @ map payload outs) ! k))
       [length built..<length built + length outs]"
proof -
  let ?sent = "sq_sent_queue sq" and ?S = "length built"
  have inv: "sq_inv (Suc n) sq" and le: "length ?sent \<le> ?S" and r: "sq_receive_seq sq = r0 + of_nat (?S - length ?sent)"
    and sent: "map qm_bytes ?sent = map (\<lambda>k. frame (seq_byte (r0 + of_nat k)) (built ! k)) [?S - length ?sent..<?S]"
    using h by (simp_all add: host_ok_def)
  obtain outs' ps where s: "sending [] [] outs' ps sq sq'" and inv': "sq_inv n sq'"
    using command_event_ok [OF inv, of e] c by auto
  have o: "sq_sent_queue sq' = ?sent @ outs" "sq_receive_seq sq' = sq_receive_seq sq" "sq_input_buf sq' = sq_input_buf sq"
    "sq_need_sync sq' = sq_need_sync sq" "sq_serial_fd_type sq' = sq_serial_fd_type sq"
    using s outs by (simp_all add: sending_def)
  have blk: "\<exists>body. is_block (seq_byte (r0 + of_nat (?S + j))) body (outs ! j)" if "j < length outs" for j
  proof -
    have "\<forall>i < length (sq_sent_queue sq'). \<exists>body. is_block (seq_byte (sq_receive_seq sq' + of_nat i)) body (sq_sent_queue sq' ! i)"
      using inv' unfolding sq_inv_def link_ok_def blocks_ok_def by blast
    then have "\<exists>body. is_block (seq_byte (sq_receive_seq sq + of_nat (length ?sent + j))) body (outs ! j)"
      using that unfolding o by (metis add_less_cancel_left length_append nth_append_length_plus)
    moreover have "sq_receive_seq sq + of_nat (length ?sent + j) = r0 + of_nat (?S + j)"
      unfolding r add.assoc of_nat_add [symmetric] using le by simp
    ultimately show ?thesis by (simp only:)
  qed
  have new: "qm_bytes (outs ! j) = frame (seq_byte (r0 + of_nat (?S + j))) (payload (outs ! j)) \<and> length (payload (outs ! j)) \<le> 59"
    if "j < length outs" for j
    using blk [OF that] payload_block by (auto simp: is_block_def message_consts)
  have bytes: "map qm_bytes outs = map (\<lambda>k. frame (seq_byte (r0 + of_nat k)) ((built @ map payload outs) ! k)) [?S..<?S + length outs]"
  proof (rule nth_equalityI)
    fix j
    assume "j < length (map qm_bytes outs)"
    then have "j < length outs" by simp
    from conjunct1 [OF new [OF this]] this
    show "map qm_bytes outs ! j = map (\<lambda>k. frame (seq_byte (r0 + of_nat k)) ((built @ map payload outs) ! k)) [?S..<?S + length outs] ! j"
      by (simp add: nth_append)
  qed simp
  have old: "map (\<lambda>k. frame (seq_byte (r0 + of_nat k)) (built ! k)) [?S - length ?sent..<?S] =
      map (\<lambda>k. frame (seq_byte (r0 + of_nat k)) ((built @ map payload outs) ! k)) [?S - length ?sent..<?S]"
    by (rule map_cong) (auto simp: nth_append)
  have range: "[?S - length ?sent..<?S + length outs] = [?S - length ?sent..<?S] @ [?S..<?S + length outs]"
    using upt_add_eq_append [of "?S - length ?sent" ?S "length outs"] by simp
  have diff: "length (built @ map payload outs) - length (sq_sent_queue sq') = ?S - length ?sent" by (simp add: o)
  have "map qm_bytes (sq_sent_queue sq') = map (\<lambda>k. frame (seq_byte (r0 + of_nat k)) ((built @ map payload outs) ! k))
      [?S - length ?sent..<length (built @ map payload outs)]"
    unfolding o by (simp only: map_append sent old bytes range length_append length_map)
  moreover have short: "\<forall>p \<in> set (built @ map payload outs). length p \<le> 59"
    using h new by (auto simp: host_ok_def in_set_conv_nth)
  ultimately have ok: "host_ok n r0 (built @ map payload outs) sq'"
    using h inv' le unfolding host_ok_def diff by (simp add: o r)
  have "outs' = outs" using s o(1) by (simp add: sending_def)
  then have "new_blocks sq sq' = wire_blocks (concat (map qm_bytes outs))"
    using s h by (auto simp: sending_def new_blocks_def host_ok_def)
  also have "\<dots> = map (\<lambda>k. frame (seq_byte (r0 + of_nat k)) ((built @ map payload outs) ! k)) [?S..<?S + length outs]"
    unfolding bytes using bspec [OF short nth_mem] by (intro wire_blocks_frames) simp
  finally show ?thesis using ok o(1) by blast
qed

lemma host_ok_input:
  assumes h: "host_ok n r0 built sq" and u: "length built - length (sq_sent_queue sq) \<le> u" "u \<le> length built"
    and body: "length body \<le> 59" and i: "input_event (Read_bytes (frame (seq_byte (r0 + of_nat u)) body)) e sq = Some sq'"
  shows "host_ok n r0 built sq' \<and> length built - length (sq_sent_queue sq') = u \<and> length (sq_sent_queue sq') \<le> length built"
proof -
  let ?a = "length built - length (sq_sent_queue sq)"
  have inv: "sq_inv n sq" "sq_serial_fd_type sq \<noteq> SQT_CAN" "sq_input_buf sq = []" "\<not> sq_need_sync sq"
    and le: "length (sq_sent_queue sq) \<le> length built" and r: "sq_receive_seq sq = r0 + of_nat ?a"
    and sent: "map qm_bytes (sq_sent_queue sq) = map (\<lambda>k. frame (seq_byte (r0 + of_nat k)) (built ! k)) [?a..<length built]"
    using h by (simp_all add: host_ok_def)
  define k where "k = u - ?a"
  have k: "k \<le> length (sq_sent_queue sq)" using u le by (simp add: k_def)
  have seq: "sq_receive_seq sq + of_nat k = r0 + of_nat u"
    unfolding r add.assoc of_nat_add [symmetric] using u by (simp add: k_def)
  obtain s2 where s2: "input_event (Read_bytes (frame (seq_byte (sq_receive_seq sq + of_nat k)) body)) e sq = Some s2" "sq_inv n s2"
    "sq_sent_queue s2 = drop k (sq_sent_queue sq)" "sq_receive_seq s2 = sq_receive_seq sq + of_nat k"
    "sq_input_buf s2 = []" "\<not> sq_need_sync s2" "sq_serial_fd_type s2 = sq_serial_fd_type sq"
    using input_frame [OF inv body k, of e] by blast
  have eq: "sq' = s2" using s2(1) i unfolding seq by simp
  have len: "length built - length (sq_sent_queue sq') = u" using k u le by (simp add: eq s2 k_def)
  have "map qm_bytes (sq_sent_queue sq') = map (\<lambda>k. frame (seq_byte (r0 + of_nat k)) (built ! k)) [u..<length built]"
    unfolding eq s2(3) drop_map [symmetric] sent using u by (simp add: drop_map k_def)
  moreover have "sq_receive_seq sq' = r0 + of_nat u" unfolding eq s2(4) seq ..
  moreover have "length (sq_sent_queue sq') \<le> length built" using le by (simp add: eq s2)
  moreover have "sq_serial_fd_type sq' \<noteq> SQT_CAN" "sq_inv n sq'" "sq_input_buf sq' = []" "\<not> sq_need_sync sq'"
    using s2 inv by (simp_all add: eq)
  moreover have "\<forall>p \<in> set built. length p \<le> 59" using h by (simp add: host_ok_def)
  ultimately show ?thesis unfolding host_ok_def len by blast
qed

section \<open>Every step keeps the invariant\<close>

lemma up_ok_append:
  assumes "up_ok r0 a nd up" and "nd \<le> nd'" and "a \<le> nd'" and "length body \<le> 59"
  shows "up_ok r0 a nd' (up @ [frame (seq_byte (r0 + of_nat nd')) body])"
proof -
  obtain us where us: "up = map (\<lambda>(u, body). frame (seq_byte (r0 + of_nat u)) body) us" "sorted (map fst us)"
    "\<forall>(u, body) \<in> set us. length body \<le> 59 \<and> a \<le> u \<and> u \<le> nd"
    using assms(1) unfolding up_ok_def by blast
  show ?thesis
    unfolding up_ok_def
    by (rule exI [of _ "us @ [(nd', body)]"]) (use us assms(2-4) in \<open>fastforce simp: sorted_append\<close>)
qed

lemma mcu_block_ok:
  assumes inv: "link_inv n r0 s" and b: "ln_down s = blk # rest"
  shows "link_inv n r0 (mcu_block s) \<and> ln_down (mcu_block s) = rest \<and> ln_sq (mcu_block s) = ln_sq s \<and>
     ln_built (mcu_block s) = ln_built s \<and>
     length (ln_done (mcu_block s)) = (if blk = frame (next_sequence (ln_finder s)) (ln_built s ! length (ln_done s)) \<and>
         length (ln_done s) < length (ln_built s) then Suc (length (ln_done s)) else length (ln_done s))"
proof -
  let ?built = "ln_built s" and ?nd = "length (ln_done s)" and ?st = "ln_finder s"
  have h: "host_ok n r0 ?built (ln_sq s)" and sy: "synced ?st" and nd: "acked s \<le> ?nd" "?nd \<le> length ?built"
    and dn0: "ln_done s = take ?nd ?built" and nx: "next_sequence ?st = seq_byte (r0 + of_nat ?nd)"
    and dn: "down_ok r0 ?built (acked s) ?nd (blk # rest)" and up: "up_ok r0 (acked s) ?nd (ln_up s)"
    using inv b by (simp_all add: link_inv_def)
  have len59: "\<And>k. k < length ?built \<Longrightarrow> length (?built ! k) \<le> 59" using h by (simp add: host_ok_def)
  obtain b0 k ds where ds: "blk = frame (seq_byte (r0 + of_nat k)) (?built ! k)"
    "rest = map (\<lambda>(b, k). frame (seq_byte (r0 + of_nat k)) (?built ! k)) ds" "sorted (map fst ds)" "\<forall>d \<in> set ds. b0 \<le> fst d"
    "b0 \<le> k" "k < b0 + 12" "k < length ?built" "b0 \<le> acked s" "?nd \<le> b0 + 12"
    "\<forall>(b, k) \<in> set ds. b \<le> k \<and> k < b + 12 \<and> k < length ?built \<and> b \<le> acked s \<and> ?nd \<le> b + 12"
    using dn unfolding down_ok_def by (auto simp: Cons_eq_map_conv)
  define st1 where "st1 = ?st\<lparr>sync_state := sync_state ?st AND NOT CF_NEED_VALID\<rparr>"
  have sy1: "synced st1" using sy by (simp add: synced_def st1_def CF_NEED_SYNC_def CF_NEED_VALID_def and.assoc)
  have same: "seq_byte (r0 + of_nat k) = next_sequence ?st \<longleftrightarrow> k = ?nd"
    unfolding nx using seq_byte_inj [of r0 k ?nd] ds(5,6,8,9) nd(1) by auto
  have fb: "command_find_block ?st blk =
      (if k = ?nd then \<lparr>fb_ret = 1, fb_pop = length blk, fb_nak = False,
         fb_state = st1\<lparr>next_sequence := seq_byte (r0 + of_nat (Suc k))\<rparr>\<rparr>
       else \<lparr>fb_ret = -1, fb_pop = length blk, fb_nak = True, fb_state = st1\<rparr>)"
  proof -
    have ns: "next_seq (seq_byte (r0 + of_nat k)) = seq_byte (r0 + of_nat (Suc k))"
      by (simp add: next_seq_byte add.commute add.left_commute)
    show ?thesis
      using find_block_frame [OF sy len59 [OF ds(7)] seq_ok_seq_byte, of "r0 + of_nat k" "[]"]
      unfolding append_Nil2 ds(1) [symmetric] same st1_def [symmetric] Let_def ns .
  qed
  have body: "take (length blk - 5) (drop 2 blk) = ?built ! k" by (simp add: ds(1) frame_def Let_def)
  define nd' where "nd' = (if k = ?nd then Suc ?nd else ?nd)"
  define s' where "s' = mcu_block s"
  have s': "ln_down s' = rest" "ln_sq s' = ln_sq s" "ln_built s' = ?built"
    "ln_done s' = (if k = ?nd then ln_done s @ [?built ! k] else ln_done s)"
    "ln_finder s' = (if k = ?nd then st1\<lparr>next_sequence := seq_byte (r0 + of_nat (Suc k))\<rparr> else st1)"
    "ln_up s' = ln_up s @ [frame (next_sequence (ln_finder s')) []]"
    by (simp_all add: s'_def mcu_block_def b fb Let_def body)
  have l: "length (ln_done s') = nd'" by (simp add: s' nd'_def)
  have a: "acked s' = acked s" by (simp add: acked_def s')
  have nx': "next_sequence (ln_finder s') = seq_byte (r0 + of_nat nd')"
    unfolding s'(5) nd'_def using nx by (simp add: st1_def)
  have "ln_done s' = take nd' ?built"
    unfolding s'(4) nd'_def using dn0 ds(7) by (simp add: take_Suc_conv_app_nth)
  moreover have "down_ok r0 ?built (acked s) nd' rest"
    unfolding down_ok_def
  proof (intro exI conjI)
    show "\<forall>(b, k) \<in> set ds. b \<le> k \<and> k < b + 12 \<and> k < length ?built \<and> b \<le> acked s \<and> nd' \<le> b + 12"
      using ds(4,6,10) by (fastforce simp: nd'_def)
  qed (use ds in auto)
  moreover have "up_ok r0 (acked s) nd' (ln_up s')"
    unfolding s'(6) nx' using up_ok_append [OF up, of nd' "[]"] nd(1) by (simp add: nd'_def)
  moreover have "synced (ln_finder s')" using sy1 by (simp add: s'(5) synced_def)
  moreover have "nd' \<le> length ?built" "acked s \<le> nd'" using nd ds(7) by (auto simp: nd'_def)
  ultimately have "link_inv n r0 s'" using h nx' unfolding link_inv_def l a s'(1-3) by simp
  moreover have "k = ?nd \<longleftrightarrow> blk = frame (next_sequence ?st) (?built ! ?nd) \<and> ?nd < length ?built"
  proof
    assume "blk = frame (next_sequence ?st) (?built ! ?nd) \<and> ?nd < length ?built"
    then have "seq_byte (r0 + of_nat k) = next_sequence ?st"
      using frame_nth(2) [of _ _ "[]"] ds(1) by (metis append_Nil2)
    then show "k = ?nd" using same by simp
  qed (use ds nx in auto)
  ultimately show ?thesis using s'(1-3) l by (simp add: s'_def nd'_def)
qed

lemma link_step_inv:
  assumes step: "link_step s s'" and inv: "link_inv (Suc n) r0 s"
  shows "link_inv n r0 s'"
proof -
  have h: "host_ok (Suc n) r0 (ln_built s) (ln_sq s)" "host_ok n r0 (ln_built s) (ln_sq s)"
    using inv host_ok_less by (auto simp: link_inv_def)
  have rest: "synced (ln_finder s)" "acked s \<le> length (ln_done s)" "length (ln_done s) \<le> length (ln_built s)"
     "ln_done s = take (length (ln_done s)) (ln_built s)"
     "next_sequence (ln_finder s) = seq_byte (r0 + of_nat (length (ln_done s)))"
     "down_ok r0 (ln_built s) (acked s) (length (ln_done s)) (ln_down s)" "up_ok r0 (acked s) (length (ln_done s)) (ln_up s)"
    using inv by (simp_all add: link_inv_def)
  have le: "length (sq_sent_queue (ln_sq s)) \<le> length (ln_built s)" using h by (simp add: host_ok_def)
  have win: "length (ln_done s) \<le> acked s + 12" "length (ln_built s) \<le> acked s + 12"
    using rest(3) le host_ok_window [OF h(1)] by (simp_all add: acked_def)
  have inv0: "link_inv n r0 s" using h(2) rest by (simp add: link_inv_def)
  from step show ?thesis
  proof cases
    case (queue msgs c)
    then show ?thesis
      using host_ok_queue [OF h(2), of msgs c] rest by (simp add: link_inv_def acked_def send_batch_keeps)
  next
    case (command e t sq' outs)
    note c = host_ok_command [OF h(1) command(2,3)]
    have bytes: "new_blocks (ln_sq s) sq' = map (\<lambda>k. frame (seq_byte (r0 + of_nat k)) ((ln_built s @ map payload outs) ! k))
       [length (ln_built s)..<length (ln_built s) + length outs]" using c by blast
    have a: "acked s' = acked s" using c command(1) le by (simp add: acked_def)
    have "length (sq_sent_queue sq') \<le> 12" using host_ok_window c by blast
    then have "length (ln_built s) + length outs \<le> acked s + 12" using c le by (simp add: acked_def)
    then have "down_ok r0 (ln_built s @ map payload outs) (acked s) (length (ln_done s)) (ln_down s @ new_blocks (ln_sq s) sq')"
      unfolding bytes using le by (intro down_ok_append [OF rest(6) _ win(1)]) (auto simp: acked_def)
    moreover have "ln_done s = take (length (ln_done s)) (ln_built s @ map payload outs)" using rest(3,4) by simp
    ultimately show ?thesis using c rest a by (simp add: link_inv_def command(1))
  next
    case (retransmit e t sq')
    note c = host_ok_retransmit [OF h(2) retransmit(2)]
    have bytes: "new_blocks (ln_sq s) sq' =
        map (\<lambda>k. frame (seq_byte (r0 + of_nat k)) ((ln_built s @ []) ! k)) [acked s..<length (ln_built s)]"
      using c by (simp add: acked_def)
    have "down_ok r0 (ln_built s @ []) (acked s) (length (ln_done s)) (ln_down s @ new_blocks (ln_sq s) sq')"
      unfolding bytes using win by (intro down_ok_append [OF rest(6) _ win(1)]) auto
    then show ?thesis using c rest by (simp add: link_inv_def acked_def retransmit(1))
  next
    case (lose_down xs b ys)
    then show ?thesis using inv0 down_ok_lose [of r0 _ _ _ xs b ys] by (simp add: link_inv_def acked_def)
  next
    case (lose_up xs b ys)
    then show ?thesis using inv0 up_ok_lose [of r0 _ _ xs b ys] by (simp add: link_inv_def acked_def)
  next
    case mcu
    then show ?thesis using mcu_block_ok [OF inv0] by (cases "ln_down s") auto
  next
    case (response body)
    then have "up_ok r0 (acked s) (length (ln_done s)) (ln_up s @ [frame (next_sequence (ln_finder s)) body])"
      unfolding rest(5) using up_ok_append [OF rest(7) order_refl rest(2), of body] response(2) by (simp add: message_consts)
    then show ?thesis using inv0 response(1) by (simp add: link_inv_def acked_def)
  next
    case (host m rest' e sq')
    obtain u body us where us: "m = frame (seq_byte (r0 + of_nat u)) body"
      "rest' = map (\<lambda>(u, body). frame (seq_byte (r0 + of_nat u)) body) us" "sorted (map fst us)" "\<forall>x \<in> set us. u \<le> fst x"
      "length body \<le> 59" "acked s \<le> u" "u \<le> length (ln_done s)"
      "\<forall>(u, body) \<in> set us. length body \<le> 59 \<and> acked s \<le> u \<and> u \<le> length (ln_done s)"
      using rest(7) unfolding host(2) up_ok_def by (auto simp: Cons_eq_map_conv)
    have hi: "host_ok n r0 (ln_built s) sq'" "length (ln_built s) - length (sq_sent_queue sq') = u"
      using host_ok_input [OF h(2), of u body e sq'] us(1,5-7) host(3) rest(3) by (auto simp: acked_def)
    have "up_ok r0 u (length (ln_done s)) rest'"
      unfolding up_ok_def by (rule exI [of _ us]) (use us in fastforce)
    moreover have "down_ok r0 (ln_built s) u (length (ln_done s)) (ln_down s)"
      using rest(6) us(6) unfolding down_ok_def by fastforce
    ultimately show ?thesis using hi rest us(7) by (simp add: link_inv_def host(1) acked_def)
  qed
qed

section \<open>Properties\<close>

lemma link_start_inv: "link_start n s \<Longrightarrow> link_inv n (sq_send_seq (ln_sq s)) s"
proof -
  assume a: "link_start n s"
  then have "sq_send_seq (ln_sq s) = sq_receive_seq (ln_sq s)"
    using blocks_ok_send_seq [of "ln_sq s"] by (simp add: link_start_def sq_inv_def link_ok_def)
  then show ?thesis using a by (simp add: link_start_def link_inv_def host_ok_def down_ok_def up_ok_def acked_def)
qed

lemma link_steps_inv: "link_steps m s t \<Longrightarrow> link_inv (n + m) r0 s \<Longrightarrow> link_inv n r0 t"
proof (induction arbitrary: n rule: link_steps.induct)
  case (steps_Suc m s t u)
  then have "link_inv (Suc n) r0 t" using steps_Suc.IH [of "Suc n"] by simp
  then show ?case using link_step_inv [OF steps_Suc.hyps(2)] by blast
qed simp

lemma link_steps_trans: "link_steps k t u \<Longrightarrow> link_steps m s t \<Longrightarrow> link_steps (m + k) s u"
  by (induction rule: link_steps.induct) (auto intro: link_steps.intros)

lemma link_steps_1: "link_step s t \<Longrightarrow> link_steps 1 s t"
  using steps_Suc [OF steps_0] by simp

text \<open>The firmware can take what is on the line to it.\<close>

lemma drain_down:
  "link_inv n r0 s \<Longrightarrow> \<exists>s'. link_steps (length (ln_down s)) s s' \<and> link_inv n r0 s' \<and> ln_down s' = [] \<and> ln_sq s' = ln_sq s \<and>
     ln_built s' = ln_built s"
proof (induction "ln_down s" arbitrary: s)
  case Nil
  then show ?case using steps_0 by (metis list.size(3))
next
  case (Cons b bs)
  note m = mcu_block_ok [OF Cons.prems Cons.hyps(2) [symmetric]]
  have "link_step s (mcu_block s)" using Cons.hyps(2) by (intro mcu) auto
  moreover obtain s' where "link_steps (length bs) (mcu_block s) s'" "link_inv n r0 s'" "ln_down s' = []"
    "ln_sq s' = ln_sq s" "ln_built s' = ln_built s"
    using Cons.hyps(1) [of "mcu_block s"] m by auto
  ultimately show ?case
    using link_steps_trans [OF _ link_steps_1] Cons.hyps(2) [symmetric] by fastforce
qed

lemma redeliver:
  "link_inv n r0 s \<Longrightarrow> j \<le> length (ln_done s) \<Longrightarrow>
   ln_down s = map (\<lambda>k. frame (seq_byte (r0 + of_nat k)) (ln_built s ! k)) [j..<length (ln_built s)] \<Longrightarrow>
   \<exists>k s'. link_steps k s s' \<and> ln_done s' = ln_built s \<and> ln_built s' = ln_built s"
proof (induction "length (ln_built s) - j" arbitrary: s j)
  case 0
  then have "ln_done s = ln_built s" by (simp add: link_inv_def)
  then show ?case using steps_0 by blast
next
  case (Suc d)
  let ?f = "\<lambda>k. frame (seq_byte (r0 + of_nat k)) (ln_built s ! k)"
  have j: "j < length (ln_built s)" using Suc.hyps(2) by simp
  then have dn: "ln_down s = ?f j # map ?f [Suc j..<length (ln_built s)]"
    using Suc.prems(3) by (simp add: upt_conv_Cons)
  note m = mcu_block_ok [OF Suc.prems(1) dn]
  have nd: "Suc j \<le> length (ln_done (mcu_block s))"
  proof (cases "j = length (ln_done s)")
    case True
    then have "?f j = frame (next_sequence (ln_finder s)) (ln_built s ! length (ln_done s))"
      using Suc.prems(1) by (simp add: link_inv_def)
    then show ?thesis using m j True by simp
  next
    case False
    then show ?thesis using m Suc.prems(2) by (simp split: if_splits)
  qed
  have b: "ln_built (mcu_block s) = ln_built s" using m by blast
  have "\<exists>k s'. link_steps k (mcu_block s) s' \<and> ln_done s' = ln_built (mcu_block s) \<and> ln_built s' = ln_built (mcu_block s)"
  proof (rule Suc.hyps(1))
    show "d = length (ln_built (mcu_block s)) - Suc j" using Suc.hyps(2) by (simp add: b)
    show "link_inv n r0 (mcu_block s)" using m by blast
    show "Suc j \<le> length (ln_done (mcu_block s))" by (rule nd)
    show "ln_down (mcu_block s) = map (\<lambda>k. frame (seq_byte (r0 + of_nat k)) (ln_built (mcu_block s) ! k)) [Suc j..<length (ln_built (mcu_block s))]"
      unfolding b using m by blast
  qed
  then obtain k s' where "link_steps k (mcu_block s) s'" "ln_done s' = ln_built s" "ln_built s' = ln_built s"
    unfolding b by blast
  moreover have "link_step s (mcu_block s)" using dn by (intro mcu) simp
  ultimately show ?case using link_steps_trans [OF _ link_steps_1] by blast
qed

text \<open>The start of a connection: the serial queue of the examples, and a firmware that expects its first
  number.\<close>

definition example_link :: link where
  "example_link = \<lparr>ln_sq = example_sq, ln_finder = \<lparr>next_sequence = 0x11, sync_state = 0\<rparr>, ln_down = [], ln_up = [],
     ln_built = [], ln_done = []\<rparr>"

lemma example_link_start: "16 * int n + 48 < 2 ^ 64 \<Longrightarrow> link_start n example_link"
proof -
  assume n: "16 * int n + 48 < 2 ^ 64"
  obtain sq where a: "serialqueue_alloc 3 SQT_UART 0 ''mcu'' True 4 (\<lambda>_. 0) (\<lambda>_. 0) = Some sq"
    using sq_reactor_ok [of 3 4 SQT_UART] by (auto simp: serialqueue_alloc_def)
  have "sq_input_buf sq = []" "\<not> sq_need_sync sq"
    using a sq_reactor_ok [of 3 4 SQT_UART] by (auto simp: serialqueue_alloc_def)
  then have "sq_input_buf example_sq = []" "\<not> sq_need_sync example_sq"
    unfolding example_sq_def a option.sel by (simp_all add: send_batch_keeps)
  then show ?thesis
    using example_inv [OF n] seq_byte_1(1)
    by (simp add: link_start_def example_link_def example_seqs synced_def SQT_UART_def SQT_CAN_def)
qed

text \<open>C2 (link_exactly_once). From a connection just made, after any number of steps of the host (queueing
  commands, sending, retransmitting, reading), the firmware (taking a block, responding) and
  the lines (losing any block): the payloads the firmware has dispatched are a prefix of those the
  host has built, so every command is executed at most once and in order; and what the host has
  dropped from its sent queue as acknowledged has been dispatched, so nothing is lost. This holds
  although the numbers on the line have four bits only.\<close>

theorem link_exactly_once:
  assumes "link_start n s0" and "link_steps m s0 s" and "m \<le> n"
  shows "\<exists>rest. ln_built s = ln_done s @ rest \<and> length rest \<le> length (sq_sent_queue (ln_sq s)) \<and>
     length (sq_sent_queue (ln_sq s)) \<le> MAX_PENDING_BLOCKS"
proof -
  have "link_inv ((n - m) + m) (sq_send_seq (ln_sq s0)) s0" using link_start_inv [OF assms(1)] assms(3) by simp
  then have inv: "link_inv (n - m) (sq_send_seq (ln_sq s0)) s" using link_steps_inv [OF assms(2)] by blast
  then have h: "host_ok (n - m) (sq_send_seq (ln_sq s0)) (ln_built s) (ln_sq s)" by (simp add: link_inv_def)
  have "ln_built s = ln_done s @ drop (length (ln_done s)) (ln_built s)"
    using inv append_take_drop_id [of "length (ln_done s)" "ln_built s"] by (simp add: link_inv_def)
  moreover have "length (drop (length (ln_done s)) (ln_built s)) \<le> length (sq_sent_queue (ln_sq s))"
  proof -
    have "acked s \<le> length (ln_done s)" using inv by (simp add: link_inv_def)
    then show ?thesis by (simp add: acked_def)
  qed
  ultimately show ?thesis using host_ok_window [OF h] unfolding MAX_PENDING_BLOCKS_def by blast
qed

theorem link_exactly_once_witness:
  "\<exists>s rest. link_steps 1 example_link s \<and> ln_built s = ln_done s @ rest"
proof -
  have st: "link_start 1 example_link" by (rule example_link_start) simp
  then have "sq_inv (Suc 0) (ln_sq example_link)" by (simp add: link_start_def)
  then obtain t sq' where "command_event 1 (ln_sq example_link) = Some (t, sq')" using command_event_ok by blast
  from link_steps_1 [OF command [OF this refl]]
  obtain s where "link_steps 1 example_link s" by blast
  with link_exactly_once [OF st this] show ?thesis by blast
qed

text \<open>The message of the example is sent at the first \<^verbatim>\<open>command_event\<close>.\<close>

lemma check_queues_sent:
  "check_queues pending idletime ack_clock cs ms mr sq = (a, b, sq') \<Longrightarrow> sq_sent_queue sq' = sq_sent_queue sq"
  by (induction cs arbitrary: ms mr sq) (fastforce simp: Let_def split: prod.splits list.splits if_splits)+

lemma check_send_sent:
  "check_send_command pending e sq = (t, sq') \<Longrightarrow> sq_sent_queue sq' = sq_sent_queue sq"
  by (auto simp: check_send_command_def Let_def dest: check_queues_sent split: prod.splits if_splits)

lemma build_loop_sent: "build_loop body sq = Some (body', sq') \<Longrightarrow> sq_sent_queue sq' = sq_sent_queue sq"
proof (induction body sq rule: build_loop.induct)
  case (1 body sq)
  from 1(2) 1(1) show ?case
    by (subst (asm) build_loop.simps) (auto simp: take_ready_def Let_def split: if_splits option.splits)
qed

lemma build_sent:
  "build_and_send_command pending e sq = Some (block, sq') \<Longrightarrow> \<exists>out. sq_sent_queue sq' = sq_sent_queue sq @ [out]"
  by (auto simp: build_and_send_command_def update_timer_def Let_def dest!: build_loop_sent split: bind_splits if_splits)

lemma write_blocks_sent: "sq_sent_queue (write_blocks e buf sq) = sq_sent_queue sq"
  using do_write_ok [of sq buf] by (auto simp: write_blocks_def Let_def write_frame_def)

lemma command_loop_grows:
  "command_loop e buf sq = Some r \<Longrightarrow> \<exists>outs. sq_sent_queue (snd r) = sq_sent_queue sq @ outs"
proof (rule command_loop.raw_induct [where P = "\<lambda>_ _ sq r. \<exists>outs. sq_sent_queue (snd r) = sq_sent_queue sq @ outs"])
  fix loop :: "double \<Rightarrow> u8 list \<Rightarrow> serialqueue \<Rightarrow> (double \<times> serialqueue) option" and e sq r and buf :: "u8 list"
  assume IH: "\<And>e buf sq r. loop e buf sq = Some r \<Longrightarrow> \<exists>outs. sq_sent_queue (snd r) = sq_sent_queue sq @ outs"
  obtain w s1 where c: "check_send_command (length buf) e sq = (w, s1)" by fastforce
  note keep = check_send_sent [OF c] write_blocks_sent
  assume "(let (waketime, sq) = check_send_command (length buf) e sq;
          full = (waketime \<noteq> PR_NOW \<or> MESSAGE_MAX * MAX_PENDING_BLOCKS < length buf + MESSAGE_MAX);
          sq = (if full \<and> buf \<noteq> [] then write_blocks e buf sq else sq);
          buf = (if full then [] else buf)
      in if waketime \<noteq> PR_NOW then Some (waketime, sq)
         else case build_and_send_command (length buf) e sq of
                None \<Rightarrow> None
              | Some (block, sq) \<Rightarrow>
                  if MESSAGE_MAX * MAX_PENDING_BLOCKS < length (buf @ block) then None
                  else loop e (buf @ block) sq) = Some r"
  then show "\<exists>outs. sq_sent_queue (snd r) = sq_sent_queue sq @ outs"
    by (auto simp: c Let_def keep split: if_splits option.splits dest!: IH build_sent)
qed

lemma example_sends:
  assumes "command_event e example_sq = Some (t, sq')"
  shows "sq_sent_queue sq' \<noteq> []"
proof -
  obtain sq where a: "serialqueue_alloc 3 SQT_UART 0 ''mcu'' True 4 (\<lambda>_. 0) (\<lambda>_. 0) = Some sq"
    using sq_reactor_ok [of 3 4 SQT_UART] by (auto simp: serialqueue_alloc_def)
  then obtain pr where sq: "sq_reactor 3 4 SQT_UART = Some pr" by (auto simp: serialqueue_alloc_def split: bind_splits)
  have ty: "SQT_UART \<noteq> SQT_DEBUGFILE" by (simp add: SQT_UART_def SQT_DEBUGFILE_def)
  have "\<exists>s1. check_send_command 0 e example_sq = (PR_NOW, s1)"
    unfolding example_sq_def
    by (simp add: serialqueue_alloc_def sq ty serialqueue_send_batch_def set_min_clock_def message_alloc_def msgs_bytes_def
       check_send_command_def window_full_def sq_consts Let_def kick_bg_thread_def message_consts BACKGROUND_PRIORITY_CLOCK_def)
  then obtain s1 where "check_send_command 0 e example_sq = (PR_NOW, s1)" by blast
  then show ?thesis
    using assms unfolding command_event_def
    by (subst (asm) command_loop.simps) (auto simp: Let_def split: option.splits if_splits dest!: command_loop_grows build_sent)
qed

lemma lose_all: "link_steps (length (ln_down s)) s (s\<lparr>ln_down := []\<rparr>)"
proof (induction "ln_down s" arbitrary: s)
  case Nil
  then have "s\<lparr>ln_down := []\<rparr> = s" by simp
  then show ?case using Nil [symmetric] by (simp only: list.size steps_0)
next
  case (Cons b bs)
  have "link_step s (s\<lparr>ln_down := [] @ bs\<rparr>)" using Cons.hyps(2) by (intro lose_down [of _ "[]" b]) simp
  then show ?case
    using Cons.hyps(1) [of "s\<lparr>ln_down := bs\<rparr>"] Cons.hyps(2) [symmetric] link_steps_trans [OF _ link_steps_1] by fastforce
qed

text \<open>The host of the example sends its message and the line loses it.\<close>

lemma example_loses:
  "\<exists>m s. link_steps m example_link s \<and> m \<le> 13 \<and> ln_built s \<noteq> [] \<and> ln_done s = [] \<and> ln_down s = []"
proof -
  have st: "link_start 1 example_link" by (rule example_link_start) simp
  then have "sq_inv (Suc 0) (ln_sq example_link)" by (simp add: link_start_def)
  then obtain t sq' where c: "command_event 1 (ln_sq example_link) = Some (t, sq')" using command_event_ok by blast
  define outs where "outs = drop (length (sq_sent_queue (ln_sq example_link))) (sq_sent_queue sq')"
  define s where "s = example_link\<lparr>ln_sq := sq', ln_down := ln_down example_link @ new_blocks (ln_sq example_link) sq',
     ln_built := ln_built example_link @ map payload outs\<rparr>"
  have step: "link_step example_link s" unfolding s_def by (rule command [OF c outs_def])
  have h: "host_ok (Suc 0) 1 [] (ln_sq example_link)"
    using link_start_inv [OF st] by (simp add: link_inv_def example_link_def example_seqs)
  note k = host_ok_command [OF h c outs_def]
  have sent: "sq_sent_queue sq' = outs" using k by (simp add: example_link_def example_seqs)
  have "length outs \<le> 12" using host_ok_window sent k by blast
  moreover have "length (new_blocks (ln_sq example_link) sq') = length outs" using k by simp
  ultimately have len: "length (ln_down s) \<le> 12" by (simp add: s_def example_link_def)
  have "outs \<noteq> []" using example_sends [of 1 t sq'] c sent by (simp add: example_link_def)
  then have "ln_built s \<noteq> []" "ln_done s = []" by (simp_all add: s_def example_link_def)
  then show ?thesis
    using link_steps_trans [OF lose_all link_steps_1 [OF step]] len
    by (intro exI [of _ "1 + length (ln_down s)"] exI [of _ "s\<lparr>ln_down := []\<rparr>"]) simp
qed

text \<open>C19 (link_recovers). However many blocks the lines have lost, the host's commands can still get
  through: from every reachable state there are further steps (the firmware takes what is on the
  line, the host retransmits, the firmware takes that) after which everything the host has built
  has been dispatched. What the retransmission puts on the line are the blocks in the bytes it
  writes.\<close>

theorem link_recovers:
  assumes "link_start n s0" and "link_steps m s0 s" and "m < n"
  shows "\<exists>k s'. link_steps k s s' \<and> ln_done s' = ln_built s \<and> ln_built s' = ln_built s"
proof -
  let ?r0 = "sq_send_seq (ln_sq s0)"
  have "link_inv ((n - m) + m) ?r0 s0" using link_start_inv [OF assms(1)] assms(3) by simp
  then have inv: "link_inv (n - m) ?r0 s" using link_steps_inv [OF assms(2)] by blast
  obtain s1 where s1: "link_steps (length (ln_down s)) s s1" "link_inv (n - m) ?r0 s1" "ln_down s1 = []" "ln_built s1 = ln_built s"
    using drain_down [OF inv] by blast
  have h: "host_ok (n - m) ?r0 (ln_built s1) (ln_sq s1)" using s1(2) by (simp add: link_inv_def)
  then have "link_ok (n - m) (ln_sq s1)" by (simp add: host_ok_def sq_inv_def)
  then obtain t sq' where r: "retransmit_event 0 (ln_sq s1) = Some (t, sq')"
    using retransmit_event_ok by blast
  define s2 where "s2 = s1\<lparr>ln_sq := sq', ln_down := ln_down s1 @ new_blocks (ln_sq s1) sq'\<rparr>"
  have st: "link_step s1 s2" unfolding s2_def by (rule retransmit [OF r])
  have "link_inv (Suc (n - m - 1)) ?r0 s1" using s1(2) assms(3) by (simp add: Suc_diff_Suc)
  then have i2: "link_inv (n - m - 1) ?r0 s2" using link_step_inv [OF st] by blast
  have "ln_down s2 = map (\<lambda>k. frame (seq_byte (?r0 + of_nat k)) (ln_built s2 ! k)) [acked s1..<length (ln_built s2)]"
    using host_ok_retransmit [OF h r] s1(3) by (simp add: s2_def acked_def)
  moreover have "acked s1 \<le> length (ln_done s2)" using s1(2) by (simp add: link_inv_def s2_def)
  ultimately obtain k s' where k: "link_steps k s2 s'" "ln_done s' = ln_built s2" "ln_built s' = ln_built s2"
    using redeliver [OF i2] by blast
  have "link_steps (length (ln_down s) + 1 + k) s s'"
    using link_steps_trans [OF k(1) link_steps_trans [OF link_steps_1 [OF st] s1(1)]] .
  then show ?thesis using k(2,3) s1(4) by (auto simp: s2_def)
qed

theorem link_recovers_witness:
  "\<exists>m s k s'. link_steps m example_link s \<and> ln_built s \<noteq> [] \<and> ln_done s = [] \<and> ln_down s = [] \<and>
     link_steps k s s' \<and> ln_done s' = ln_built s"
proof -
  obtain m s where s: "link_steps m example_link s" "m \<le> 13" "ln_built s \<noteq> []" "ln_done s = []" "ln_down s = []"
    using example_loses by blast
  have "link_start 14 example_link" by (rule example_link_start) simp
  from link_recovers [OF this s(1)] s show ?thesis by auto
qed

end
