(* ===== verification/Trdispatch.thy ===== *)
theory Trdispatch
  imports Sendqueue
begin

text \<open>
  The host's part of a homing move over several microcontrollers
  (\<^verbatim>\<open>src/klippy/chelper/trdispatch.c\<close>): a trigger reported by one is passed to all, and each one's
  timeout is extended only as far as the others have reported. The serial queues are C objects
  named by numbers; \<open>tds_sqs\<close> is their memory. Each function is one step under the lock of the
  dispatcher.
\<close>

section \<open>Operations\<close>

record trdispatch_mcu =
  tdm_fr :: fastreader
  tdm_sq :: nat
  tdm_cq :: nat
  tdm_trsync_oid :: u32
  tdm_set_timeout_msgtag :: u32
  tdm_trigger_msgtag :: u32
  tdm_last_status_clock :: u64
  tdm_expire_clock :: u64
  tdm_expire_ticks :: u64
  tdm_min_extend_ticks :: u64
  tdm_ce :: clock_estimate

record trdispatch =
  tdm_list :: "trdispatch_mcu list"
  td_is_active :: bool
  td_can_trigger :: bool
  td_dispatch_reason :: u32
  tds_sqs :: "nat \<Rightarrow> serialqueue"

definition send_to :: "trdispatch_mcu \<Rightarrow> queue_message \<Rightarrow> trdispatch \<Rightarrow> trdispatch" where
  "send_to tdm qm td =
     td\<lparr>tds_sqs := (tds_sqs td)(tdm_sq tdm := serialqueue_send_one (tdm_cq tdm) qm (tds_sqs td (tdm_sq tdm)))\<rparr>"

definition send_trsync_trigger :: "trdispatch_mcu \<Rightarrow> trdispatch \<Rightarrow> trdispatch option" where
  "send_trsync_trigger tdm td = do {
     qm \<leftarrow> message_alloc_and_encode [tdm_trigger_msgtag tdm, tdm_trsync_oid tdm, td_dispatch_reason td];
     Some (send_to tdm qm td) }"

definition send_trsync_set_timeout :: "trdispatch_mcu \<Rightarrow> trdispatch \<Rightarrow> trdispatch option" where
  "send_trsync_set_timeout tdm td = do {
     qm \<leftarrow> message_alloc_and_encode [tdm_set_timeout_msgtag tdm, tdm_trsync_oid tdm, ucast (tdm_expire_clock tdm)];
     Some (send_to tdm (qm\<lparr>qm_req_clock := tdm_expire_clock tdm\<rparr>) td) }"

text \<open>The loops of \<^verbatim>\<open>handle_trsync_state\<close>: triggers to all, the two earliest report times, new timeouts.\<close>

fun trigger_loop :: "trdispatch_mcu list \<Rightarrow> trdispatch \<Rightarrow> trdispatch option" where
  "trigger_loop [] td = Some td"
| "trigger_loop (m # ms) td = do { td \<leftarrow> send_trsync_trigger m td; trigger_loop ms td }"

definition status_time :: "trdispatch_mcu \<Rightarrow> double" where
  "status_time m = clock_to_time (tdm_ce m) (tdm_last_status_clock m)"

fun min_loop :: "trdispatch_mcu list \<Rightarrow> nat \<Rightarrow> double \<Rightarrow> double \<Rightarrow> nat option \<Rightarrow> double \<times> double \<times> nat option" where
  "min_loop [] i min_time next_min_time min_tdm = (min_time, next_min_time, min_tdm)"
| "min_loop (m # ms) i min_time next_min_time min_tdm =
     (if status_time m < next_min_time then
        if status_time m < min_time then min_loop ms (Suc i) (status_time m) min_time (Some i)
        else min_loop ms (Suc i) min_time (status_time m) min_tdm
      else min_loop ms (Suc i) min_time next_min_time min_tdm)"

text \<open>The comparison with \<^verbatim>\<open>min_extend_ticks\<close> is one of unsigned numbers: the cast to a signed type is
  converted back.\<close>

definition extend_timeout :: "nat \<Rightarrow> double \<Rightarrow> trdispatch \<Rightarrow> trdispatch option" where
  "extend_timeout i t td = do {
     m \<leftarrow> rd (tdm_list td) i;
     let expire = clock_from_time (tdm_ce m) t + tdm_expire_ticks m;
     if tdm_min_extend_ticks m \<le> expire - tdm_expire_clock m then do {
       let m = m\<lparr>tdm_expire_clock := expire\<rparr>;
       send_trsync_set_timeout m (td\<lparr>tdm_list := (tdm_list td)[i := m]\<rparr>) }
     else Some td }"

fun timeout_loop :: "nat \<Rightarrow> nat \<Rightarrow> double \<Rightarrow> double \<Rightarrow> nat option \<Rightarrow> trdispatch \<Rightarrow> trdispatch option" where
  "timeout_loop 0 i min_time next_min_time min_tdm td = Some td"
| "timeout_loop (Suc n) i min_time next_min_time min_tdm td = do {
     td \<leftarrow> extend_timeout i (if min_tdm = Some i then next_min_time else min_time) td;
     timeout_loop n (Suc i) min_time next_min_time min_tdm td }"

definition update_status :: "nat \<Rightarrow> u32 \<Rightarrow> trdispatch \<Rightarrow> trdispatch option" where
  "update_status i clock td = do {
     m \<leftarrow> rd (tdm_list td) i;
     let ce = serialqueue_get_clock_est (tds_sqs td (tdm_sq m));
     Some (td\<lparr>tdm_list := (tdm_list td)[i := m\<lparr>tdm_ce := ce, tdm_last_status_clock := clock_from_clock32 ce clock\<rparr>]\<rparr>) }"

definition set_timeouts :: "trdispatch \<Rightarrow> trdispatch option" where
  "set_timeouts td =
     (case min_loop (tdm_list td) 0 PR_NEVER PR_NEVER None of
        (min_time, next_min_time, min_tdm) \<Rightarrow>
          timeout_loop (length (tdm_list td)) 0 min_time
            (if next_min_time = PR_NEVER then min_time else next_min_time) min_tdm td)"

text \<open>\<open>i\<close> is the position of the microcontroller whose fast reader is called.\<close>

definition handle_trsync_state :: "nat \<Rightarrow> u8 list \<Rightarrow> nat \<Rightarrow> trdispatch \<Rightarrow> trdispatch option" where
  "handle_trsync_state i data len td = do {
     tdm \<leftarrow> rd (tdm_list td) i;
     (ret, fields) \<leftarrow> msgblock_decode 5 data len;
     if ret \<noteq> 0 \<or> fields ! 1 \<noteq> tdm_trsync_oid tdm then Some td
     else if \<not> td_can_trigger td then Some td
     else if fields ! 2 = 0 then trigger_loop (tdm_list td) (td\<lparr>td_can_trigger := False\<rparr>)
     else do { td \<leftarrow> update_status i (fields ! 4) td; set_timeouts td } }"

definition add_reader :: "trdispatch_mcu \<Rightarrow> trdispatch \<Rightarrow> trdispatch" where
  "add_reader m td =
     td\<lparr>tds_sqs := (tds_sqs td)(tdm_sq m := serialqueue_add_fastreader (tdm_fr m) (tds_sqs td (tdm_sq m)))\<rparr>"

definition rm_reader :: "trdispatch_mcu \<Rightarrow> trdispatch \<Rightarrow> trdispatch" where
  "rm_reader m td =
     td\<lparr>tds_sqs := (tds_sqs td)(tdm_sq m := serialqueue_rm_fastreader (tdm_fr m) (tds_sqs td (tdm_sq m)))\<rparr>"

definition trdispatch_start :: "u32 \<Rightarrow> trdispatch \<Rightarrow> trdispatch" where
  "trdispatch_start dispatch_reason td =
     (if td_is_active td \<or> tdm_list td = [] then td
      else fold add_reader (tdm_list td)
             (td\<lparr>td_dispatch_reason := dispatch_reason, td_is_active := True, td_can_trigger := True\<rparr>))"

definition trdispatch_stop :: "trdispatch \<Rightarrow> trdispatch" where
  "trdispatch_stop td =
     (if \<not> td_is_active td then td else fold rm_reader (tdm_list td) (td\<lparr>td_is_active := False\<rparr>))"

definition trdispatch_alloc :: "(nat \<Rightarrow> serialqueue) \<Rightarrow> trdispatch" where
  "trdispatch_alloc sqs =
     \<lparr>tdm_list = [], td_is_active = False, td_can_trigger = False, td_dispatch_reason = 0, tds_sqs = sqs\<rparr>"

text \<open>\<open>func\<close> names the object, which is the fast reader that \<^verbatim>\<open>container_of\<close> leads back from.\<close>

definition trdispatch_mcu_alloc :: "nat \<Rightarrow> nat \<Rightarrow> nat \<Rightarrow> u32 \<Rightarrow> u32 \<Rightarrow> u32 \<Rightarrow> u32 \<Rightarrow> trdispatch \<Rightarrow> trdispatch option" where
  "trdispatch_mcu_alloc func sq cq trsync_oid set_timeout_msgtag trigger_msgtag state_msgtag td = do {
     dummy \<leftarrow> message_alloc_and_encode [state_msgtag, trsync_oid];
     Some (td\<lparr>tdm_list := tdm_list td @
       [\<lparr>tdm_fr = \<lparr>fr_func = func, fr_prefix = qm_bytes dummy\<rparr>, tdm_sq = sq, tdm_cq = cq, tdm_trsync_oid = trsync_oid,
         tdm_set_timeout_msgtag = set_timeout_msgtag, tdm_trigger_msgtag = trigger_msgtag,
         tdm_last_status_clock = 0, tdm_expire_clock = 0, tdm_expire_ticks = 0, tdm_min_extend_ticks = 0,
         tdm_ce = \<lparr>last_clock = 0, conv_clock = 0, conv_time = 0, est_freq = 0\<rparr>\<rparr>]\<rparr>) }"

definition trdispatch_mcu_setup :: "nat \<Rightarrow> u64 \<Rightarrow> u64 \<Rightarrow> u64 \<Rightarrow> u64 \<Rightarrow> trdispatch \<Rightarrow> trdispatch option" where
  "trdispatch_mcu_setup i status expire ticks min_extend td = do {
     m \<leftarrow> rd (tdm_list td) i;
     Some (td\<lparr>tdm_list := (tdm_list td)[i := m\<lparr>tdm_last_status_clock := status, tdm_expire_clock := expire,
       tdm_expire_ticks := ticks, tdm_min_extend_ticks := min_extend,
       tdm_ce := serialqueue_get_clock_est (tds_sqs td (tdm_sq m))\<rparr>]\<rparr>) }"

section \<open>The two earliest reports\<close>

text \<open>The times of all but one.\<close>

definition other_times :: "double list \<Rightarrow> nat \<Rightarrow> double set" where
  "other_times ts j = {ts ! k |k. k < length ts \<and> k \<noteq> j}"

lemma finite_other_times [simp]: "finite (other_times ts j)"
  unfolding other_times_def by simp

lemma other_times_append:
  "j < length ts \<Longrightarrow> other_times (ts @ [t]) j = insert t (other_times ts j)"
  "other_times (ts @ [t]) (length ts) = set ts"
proof -
  show "other_times (ts @ [t]) j = insert t (other_times ts j)" if j: "j < length ts"
  proof
    show "other_times (ts @ [t]) j \<subseteq> insert t (other_times ts j)"
      by (auto simp: other_times_def nth_append split: if_splits)
    have "t \<in> other_times (ts @ [t]) j" unfolding other_times_def by (rule CollectI, rule exI [of _ "length ts"]) (use j in simp)
    moreover have "ts ! k \<in> other_times (ts @ [t]) j" if "k < length ts" "k \<noteq> j" for k
      unfolding other_times_def by (rule CollectI, rule exI [of _ k]) (use that in \<open>simp add: nth_append\<close>)
    ultimately show "insert t (other_times ts j) \<subseteq> other_times (ts @ [t]) j" by (auto simp: other_times_def)
  qed
  show "other_times (ts @ [t]) (length ts) = set ts"
  proof
    show "other_times (ts @ [t]) (length ts) \<subseteq> set ts" by (auto simp: other_times_def nth_append)
    show "set ts \<subseteq> other_times (ts @ [t]) (length ts)"
    proof
      fix x
      assume "x \<in> set ts"
      then obtain k where "k < length ts" "x = ts ! k" by (auto simp: in_set_conv_nth)
      then show "x \<in> other_times (ts @ [t]) (length ts)"
        unfolding other_times_def by (intro CollectI exI [of _ k]) (simp add: nth_append)
    qed
  qed
qed

definition two_earliest :: "double list \<Rightarrow> double \<times> double \<times> nat option \<Rightarrow> bool" where
  "two_earliest ts = (\<lambda>(mt, nt, mi). mt = Min (insert PR_NEVER (set ts)) \<and>
     (case mi of None \<Rightarrow> mt = PR_NEVER \<and> nt = PR_NEVER
      | Some j \<Rightarrow> j < length ts \<and> ts ! j = mt \<and> mt < PR_NEVER \<and> nt = Min (insert PR_NEVER (other_times ts j))))"

lemma min_loop_step:
  assumes inv: "two_earliest ts (mt, nt, mi)"
  shows "two_earliest (ts @ [t])
     (if t < nt then if t < mt then (t, mt, Some (length ts)) else (mt, t, mi) else (mt, nt, mi))"
proof -
  have mt: "mt = Min (insert PR_NEVER (set ts))" using inv by (simp add: two_earliest_def)
  have mt': "Min (insert PR_NEVER (set (ts @ [t]))) = min t mt"
  proof -
    have "insert PR_NEVER (set (ts @ [t])) = insert t (insert PR_NEVER (set ts))" by auto
    then show ?thesis unfolding mt by (simp only:) (rule Min_insert, simp_all)
  qed
  have le: "mt \<le> nt"
  proof (cases mi)
    case (Some j)
    have "insert PR_NEVER (other_times ts j) \<subseteq> insert PR_NEVER (set ts)" by (auto simp: other_times_def)
    then have "Min (insert PR_NEVER (set ts)) \<le> Min (insert PR_NEVER (other_times ts j))" by (intro Min_antimono) auto
    then show ?thesis using inv Some by (simp add: two_earliest_def)
  qed (use inv in \<open>simp add: two_earliest_def\<close>)
  show ?thesis
  proof (cases "t < mt")
    case True
    then have "Min (insert PR_NEVER (other_times (ts @ [t]) (length ts))) = mt"
      by (simp add: other_times_append(2) mt)
    moreover have "mt \<le> PR_NEVER" by (simp add: mt)
    moreover have "(if t < nt then if t < mt then (t, mt, Some (length ts)) else (mt, t, mi) else (mt, nt, mi)) =
        (t, mt, Some (length ts))" using True le by simp
    moreover have "min t mt = t" using True by simp
    ultimately show ?thesis unfolding two_earliest_def using True mt' by (simp del: Min_insert)
  next
    case False
    then have min: "min t mt = mt" by simp
    show ?thesis
    proof (cases mi)
      case None
      then have n: "mt = PR_NEVER" "nt = PR_NEVER" using inv by (simp_all add: two_earliest_def)
      then have e: "(if t < nt then if t < mt then (t, mt, Some (length ts)) else (mt, t, mi) else (mt, nt, mi)) = (mt, nt, None)"
        using False None by simp
      show ?thesis unfolding e two_earliest_def prod.case option.case mt' min using n by simp
    next
      case (Some j)
      then have j: "j < length ts" "ts ! j = mt" "mt < PR_NEVER" "nt = Min (insert PR_NEVER (other_times ts j))"
        using inv by (simp_all add: two_earliest_def)
      have "Min (insert PR_NEVER (other_times (ts @ [t]) j)) = min t nt"
      proof -
        have "insert PR_NEVER (other_times (ts @ [t]) j) = insert t (insert PR_NEVER (other_times ts j))"
          using other_times_append(1) [OF j(1)] by auto
        then show ?thesis unfolding j(4) by (simp only:) (rule Min_insert, simp_all)
      qed
      then have m: "Min (insert PR_NEVER (other_times (ts @ [t]) j)) = (if t < nt then t else nt)" by (simp add: min_def)
      have e: "(if t < nt then if t < mt then (t, mt, Some (length ts)) else (mt, t, mi) else (mt, nt, mi)) =
          (mt, if t < nt then t else nt, Some j)"
        using False Some by simp
      show ?thesis unfolding e two_earliest_def prod.case option.case mt' min m using j by (simp add: nth_append)
    qed
  qed
qed

lemma min_loop_two_earliest:
  "two_earliest ts (mt, nt, mi) \<Longrightarrow> two_earliest (ts @ map status_time ms) (min_loop ms (length ts) mt nt mi)"
proof (induction ms arbitrary: ts mt nt mi)
  case (Cons m ms)
  let ?t = "status_time m"
  note s = min_loop_step [OF Cons.prems, of ?t]
  show ?case
    using Cons.IH [of "ts @ [?t]"] s by (simp split: if_splits)
qed simp

text \<open>So each microcontroller's timeout is set from the earliest report of the others.\<close>

definition deadline_time :: "double list \<Rightarrow> nat \<Rightarrow> double" where
  "deadline_time ts i = Min (other_times ts i)"

lemma two_earliest_deadline:
  assumes t: "two_earliest ts (mt, nt, mi)" and two: "2 \<le> length ts" and fin: "\<And>t. t \<in> set ts \<Longrightarrow> t < PR_NEVER"
    and i: "i < length ts"
  shows "(if mi = Some i then if nt = PR_NEVER then mt else nt else mt) = deadline_time ts i"
proof -
  have ne: "other_times ts i \<noteq> {}"
  proof -
    have "ts ! (if i = 0 then 1 else 0) \<in> other_times ts i"
      unfolding other_times_def by (rule CollectI, rule exI [of _ "if i = 0 then 1 else 0"]) (use two in auto)
    then show ?thesis by blast
  qed
  have sub: "other_times ts k \<subseteq> set ts" for k by (auto simp: other_times_def)
  have lt: "Min (other_times ts i) < PR_NEVER" using Min_in [OF finite_other_times ne] sub [of i] by (intro fin) blast
  have mt: "mt = Min (insert PR_NEVER (set ts))" using t by (simp add: two_earliest_def)
  have "ts ! 0 \<in> set ts" using two by (intro nth_mem) linarith
  then have "mt \<le> ts ! 0" by (simp add: mt)
  then have "mt < PR_NEVER" using fin [OF \<open>ts ! 0 \<in> set ts\<close>] by simp
  then obtain j where mi: "mi = Some j" using t by (cases mi) (auto simp: two_earliest_def)
  have j: "j < length ts" "ts ! j = mt" "nt = Min (insert PR_NEVER (other_times ts j))"
    using t mi by (simp_all add: two_earliest_def)
  show ?thesis
  proof (cases "j = i")
    case True
    have "Min (insert PR_NEVER (other_times ts i)) = min PR_NEVER (Min (other_times ts i))" using ne by (intro Min_insert) simp_all
    then have "nt = Min (other_times ts i)" using j(3) lt unfolding True by (simp only: min_def) simp
    then show ?thesis using mi True lt by (simp add: deadline_time_def)
  next
    case False
    have "Min (other_times ts i) = mt"
    proof (rule Min_eqI)
      show "mt \<in> other_times ts i" using j False by (auto simp: other_times_def)
      show "mt \<le> x" if "x \<in> other_times ts i" for x using that sub [of i] by (auto simp: mt)
    qed simp
    then show ?thesis using mi False by (simp add: deadline_time_def)
  qed
qed

section \<open>What the queues get\<close>

text \<open>The messages added to each command queue, as bytes.\<close>

definition queue_bytes :: "trdispatch \<Rightarrow> nat \<Rightarrow> nat \<Rightarrow> u8 list list" where
  "queue_bytes td s c = map qm_bytes (queue_all (tds_sqs td s) c)"

definition goes_to :: "nat \<Rightarrow> nat \<Rightarrow> trdispatch_mcu \<Rightarrow> bool" where
  "goes_to s c m \<longleftrightarrow> tdm_sq m = s \<and> tdm_cq m = c"

lemma qm_bytes_set_min_clock [simp]: "qm_bytes (set_min_clock qm) = qm_bytes qm" "qm_len (set_min_clock qm) = qm_len qm"
  by (simp_all add: set_min_clock_def qm_bytes_def)

lemma queue_all_send_one:
  assumes "0 < qm_len qm"
  shows "map qm_bytes (queue_all (serialqueue_send_one c qm sq) c') =
     map qm_bytes (queue_all sq c') @ (if c' = c then [qm_bytes qm] else [])"
  using assms by (simp add: serialqueue_send_one_def serialqueue_send_batch_def Let_def queue_all_def kick_bg_thread_def)

lemma queue_bytes_send_to:
  "0 < qm_len qm \<Longrightarrow> queue_bytes (send_to m qm td) s c = queue_bytes td s c @ (if goes_to s c m then [qm_bytes qm] else [])"
  by (simp add: queue_bytes_def send_to_def goes_to_def queue_all_send_one)

lemma encoded_message:
  assumes "length vs \<le> 11" "vs \<noteq> []"
  obtains qm where "message_alloc_and_encode vs = Some qm" "qm_bytes qm = concat (map encode_int vs)" "0 < qm_len qm"
proof -
  obtain qm where qm: "message_alloc_and_encode vs = Some qm" "qm_bytes qm = concat (map encode_int vs)"
    using encode_few [OF assms(1)] by (auto simp: qm_bytes_def)
  moreover have "encode_int (hd vs) \<noteq> []" by (simp add: encode_int_def Let_def)
  then have "concat (map encode_int vs) \<noteq> []" using assms(2) by (cases vs) simp_all
  then have "qm_bytes qm \<noteq> []" using qm(2) by (simp only: not_False_eq_True)
  then have "0 < qm_len qm" by (simp add: qm_bytes_def)
  ultimately show thesis using that by blast
qed

definition trigger_bytes :: "trdispatch \<Rightarrow> trdispatch_mcu \<Rightarrow> u8 list" where
  "trigger_bytes td m = concat (map encode_int [tdm_trigger_msgtag m, tdm_trsync_oid m, td_dispatch_reason td])"

definition timeout_bytes :: "trdispatch_mcu \<Rightarrow> u8 list" where
  "timeout_bytes m = concat (map encode_int [tdm_set_timeout_msgtag m, tdm_trsync_oid m, ucast (tdm_expire_clock m)])"

lemma send_trsync_trigger_ok:
  obtains td' where "send_trsync_trigger m td = Some td'" "td' = td\<lparr>tds_sqs := tds_sqs td'\<rparr>"
    "\<And>s c. queue_bytes td' s c = queue_bytes td s c @ (if goes_to s c m then [trigger_bytes td m] else [])"
proof -
  obtain qm where qm: "message_alloc_and_encode [tdm_trigger_msgtag m, tdm_trsync_oid m, td_dispatch_reason td] = Some qm"
      "qm_bytes qm = trigger_bytes td m" "0 < qm_len qm"
    by (rule encoded_message [of "[tdm_trigger_msgtag m, tdm_trsync_oid m, td_dispatch_reason td]"])
      (simp_all add: trigger_bytes_def)
  show thesis
    by (rule that [of "send_to m qm td"]) (use qm queue_bytes_send_to [OF qm(3)] in \<open>simp_all add: send_trsync_trigger_def, simp add: send_to_def\<close>)
qed

lemma send_trsync_set_timeout_ok:
  obtains td' where "send_trsync_set_timeout m td = Some td'" "td' = td\<lparr>tds_sqs := tds_sqs td'\<rparr>"
    "\<And>s c. queue_bytes td' s c = queue_bytes td s c @ (if goes_to s c m then [timeout_bytes m] else [])"
proof -
  obtain qm where qm: "message_alloc_and_encode [tdm_set_timeout_msgtag m, tdm_trsync_oid m, ucast (tdm_expire_clock m)] = Some qm"
      "qm_bytes qm = timeout_bytes m" "0 < qm_len qm"
    by (rule encoded_message [of "[tdm_set_timeout_msgtag m, tdm_trsync_oid m, ucast (tdm_expire_clock m)]"])
      (simp_all add: timeout_bytes_def)
  let ?qm = "qm\<lparr>qm_req_clock := tdm_expire_clock m\<rparr>"
  have b: "qm_bytes ?qm = timeout_bytes m" "0 < qm_len ?qm" using qm by (simp_all add: qm_bytes_def)
  show thesis
    by (rule that [of "send_to m ?qm td"])
      (use qm(1) b queue_bytes_send_to [OF b(2)] in \<open>simp_all add: send_trsync_set_timeout_def, simp add: send_to_def\<close>)
qed

lemma trigger_loop_ok:
  "\<exists>td'. trigger_loop ms td = Some td' \<and> td' = td\<lparr>tds_sqs := tds_sqs td'\<rparr> \<and>
     (\<forall>s c. queue_bytes td' s c = queue_bytes td s c @ map (trigger_bytes td) (filter (goes_to s c) ms))"
proof (induction ms arbitrary: td)
  case (Cons m ms)
  obtain td1 where td1: "send_trsync_trigger m td = Some td1" "td1 = td\<lparr>tds_sqs := tds_sqs td1\<rparr>"
    "\<And>s c. queue_bytes td1 s c = queue_bytes td s c @ (if goes_to s c m then [trigger_bytes td m] else [])"
    using send_trsync_trigger_ok by blast
  have r: "td_dispatch_reason td1 = td_dispatch_reason td" by (subst td1(2)) simp
  then have b: "trigger_bytes td1 = trigger_bytes td" by (simp add: fun_eq_iff trigger_bytes_def)
  obtain td' where td': "trigger_loop ms td1 = Some td'" "td' = td1\<lparr>tds_sqs := tds_sqs td'\<rparr>"
    "\<And>s c. queue_bytes td' s c = queue_bytes td1 s c @ map (trigger_bytes td1) (filter (goes_to s c) ms)"
    using Cons.IH [of td1] by blast
  have "td' = td\<lparr>tds_sqs := tds_sqs td'\<rparr>" by (subst td'(2), subst td1(2)) simp
  then show ?case using td1 td' b by (intro exI [of _ td']) simp
qed simp

text \<open>A state report as the microcontroller sends it, in a block with any header and trailer.\<close>

definition state_report :: "u32 \<Rightarrow> u32 \<Rightarrow> u32 \<Rightarrow> u32 \<Rightarrow> u32 \<Rightarrow> u8 list \<Rightarrow> bool" where
  "state_report tag oid can_trigger reason clock data \<longleftrightarrow>
     (\<exists>hd tl. data = hd @ concat (map encode_int [tag, oid, can_trigger, reason, clock]) @ tl \<and>
        length hd = MESSAGE_HEADER_SIZE \<and> length tl = MESSAGE_TRAILER_SIZE)"

lemma decode_state_report:
  "state_report tag oid can_trigger reason clock data \<Longrightarrow>
   msgblock_decode 5 data (length data) = Some (0, [tag, oid, can_trigger, reason, clock])"
proof -
  assume "state_report tag oid can_trigger reason clock data"
  then obtain hd tl where d: "data = hd @ concat (map encode_int [tag, oid, can_trigger, reason, clock]) @ tl"
    "length hd = MESSAGE_HEADER_SIZE" "length tl = MESSAGE_TRAILER_SIZE"
    unfolding state_report_def by blast
  note dec = decode_loop_ints [of "[tag, oid, can_trigger, reason, clock]" hd tl]
  have n: "length [tag, oid, can_trigger, reason, clock] = 5" by simp
  have e: "length data - MESSAGE_TRAILER_SIZE = length hd + length (concat (map encode_int [tag, oid, can_trigger, reason, clock]))"
    using d by (simp only: length_append)
  show ?thesis unfolding msgblock_decode_def e d(2) [symmetric] using dec unfolding n d(1) [symmetric] .
qed

section \<open>The timeouts\<close>

definition new_expire :: "double \<Rightarrow> trdispatch_mcu \<Rightarrow> u64" where
  "new_expire t m = clock_from_time (tdm_ce m) t + tdm_expire_ticks m"

definition extends :: "double \<Rightarrow> trdispatch_mcu \<Rightarrow> bool" where
  "extends t m \<longleftrightarrow> tdm_min_extend_ticks m \<le> new_expire t m - tdm_expire_clock m"

definition extended :: "double \<Rightarrow> trdispatch_mcu \<Rightarrow> trdispatch_mcu" where
  "extended t m = (if extends t m then m\<lparr>tdm_expire_clock := new_expire t m\<rparr> else m)"

lemma extend_timeout_ok:
  assumes i: "i < length (tdm_list td)"
  obtains td' where "extend_timeout i t td = Some td'"
    "td' = td\<lparr>tdm_list := (tdm_list td)[i := extended t (tdm_list td ! i)], tds_sqs := tds_sqs td'\<rparr>"
    "\<And>s c. queue_bytes td' s c = queue_bytes td s c @
       (if goes_to s c (tdm_list td ! i) \<and> extends t (tdm_list td ! i) then [timeout_bytes (extended t (tdm_list td ! i))] else [])"
proof (cases "extends t (tdm_list td ! i)")
  case True
  define m where "m = extended t (tdm_list td ! i)"
  define td1 where "td1 = td\<lparr>tdm_list := (tdm_list td)[i := m]\<rparr>"
  obtain td' where td': "send_trsync_set_timeout m td1 = Some td'" "td' = td1\<lparr>tds_sqs := tds_sqs td'\<rparr>"
    "\<And>s c. queue_bytes td' s c = queue_bytes td1 s c @ (if goes_to s c m then [timeout_bytes m] else [])"
    using send_trsync_set_timeout_ok by blast
  have "extend_timeout i t td = Some td'"
    using i True td'(1) by (simp add: extend_timeout_def rd_def m_def td1_def extended_def extends_def new_expire_def Let_def)
  moreover have "td' = td\<lparr>tdm_list := (tdm_list td)[i := m], tds_sqs := tds_sqs td'\<rparr>"
    using td'(2) by (simp add: td1_def)
  moreover have "queue_bytes td1 = queue_bytes td" by (simp add: fun_eq_iff queue_bytes_def td1_def)
  moreover have "goes_to s c m = goes_to s c (tdm_list td ! i)" for s c by (simp add: m_def extended_def goes_to_def)
  ultimately show thesis using that [of td'] td'(3) True by (simp add: m_def)
next
  case False
  then have "extend_timeout i t td = Some td"
    using i by (simp add: extend_timeout_def rd_def extends_def new_expire_def Let_def)
  then show thesis using that [of td] False by (simp add: extended_def)
qed

definition pick_time :: "double \<Rightarrow> double \<Rightarrow> nat option \<Rightarrow> nat \<Rightarrow> double" where
  "pick_time min_time next_min_time min_tdm k = (if min_tdm = Some k then next_min_time else min_time)"

definition timeouts_to :: "(nat \<Rightarrow> double) \<Rightarrow> trdispatch_mcu list \<Rightarrow> nat \<Rightarrow> nat \<Rightarrow> nat \<Rightarrow> bool" where
  "timeouts_to T ms s c k \<longleftrightarrow> goes_to s c (ms ! k) \<and> extends (T k) (ms ! k)"

lemma timeout_loop_ok:
  assumes "i + n = length (tdm_list td)"
  shows "\<exists>td'. timeout_loop n i mt nt mi td = Some td' \<and> td' = td\<lparr>tdm_list := tdm_list td', tds_sqs := tds_sqs td'\<rparr> \<and>
     tdm_list td' = take i (tdm_list td) @ map (\<lambda>k. extended (pick_time mt nt mi k) (tdm_list td ! k)) [i..<i + n] \<and>
     (\<forall>s c. queue_bytes td' s c = queue_bytes td s c @
        map (\<lambda>k. timeout_bytes (extended (pick_time mt nt mi k) (tdm_list td ! k)))
          (filter (timeouts_to (pick_time mt nt mi) (tdm_list td) s c) [i..<i + n]))"
  using assms
proof (induction n arbitrary: i td)
  case (Suc n)
  let ?T = "pick_time mt nt mi" and ?ms = "tdm_list td"
  have i: "i < length ?ms" using Suc.prems by simp
  obtain td1 where td1: "extend_timeout i (?T i) td = Some td1"
    "td1 = td\<lparr>tdm_list := ?ms[i := extended (?T i) (?ms ! i)], tds_sqs := tds_sqs td1\<rparr>"
    "\<And>s c. queue_bytes td1 s c = queue_bytes td s c @
       (if goes_to s c (?ms ! i) \<and> extends (?T i) (?ms ! i) then [timeout_bytes (extended (?T i) (?ms ! i))] else [])"
    using extend_timeout_ok [OF i, of "?T i"] by blast
  have l: "tdm_list td1 = ?ms[i := extended (?T i) (?ms ! i)]" by (subst td1(2)) simp
  have later: "tdm_list td1 ! k = ?ms ! k" if "k \<in> set [Suc i..<Suc i + n]" for k
    unfolding l by (rule nth_list_update_neq) (use that in auto)
  obtain td' where td': "timeout_loop n (Suc i) mt nt mi td1 = Some td'" "td' = td1\<lparr>tdm_list := tdm_list td', tds_sqs := tds_sqs td'\<rparr>"
    "tdm_list td' = take (Suc i) (tdm_list td1) @ map (\<lambda>k. extended (?T k) (tdm_list td1 ! k)) [Suc i..<Suc i + n]"
    "\<And>s c. queue_bytes td' s c = queue_bytes td1 s c @
        map (\<lambda>k. timeout_bytes (extended (?T k) (tdm_list td1 ! k)))
          (filter (timeouts_to ?T (tdm_list td1) s c) [Suc i..<Suc i + n])"
    using Suc.IH [of "Suc i" td1] Suc.prems l by auto
  have up: "[i..<i + Suc n] = i # [Suc i..<Suc i + n]" by (simp add: upt_conv_Cons)
  have td: "td' = td\<lparr>tdm_list := tdm_list td', tds_sqs := tds_sqs td'\<rparr>" by (subst td'(2), subst td1(2)) simp
  have mp: "map (\<lambda>k. extended (?T k) (tdm_list td1 ! k)) [Suc i..<Suc i + n] = map (\<lambda>k. extended (?T k) (?ms ! k)) [Suc i..<Suc i + n]"
    by (rule map_cong [OF refl]) (simp only: later)
  have tk: "take (Suc i) (tdm_list td1) = take i ?ms @ [extended (?T i) (?ms ! i)]"
    unfolding l using i by (simp add: take_Suc_conv_app_nth)
  have fl: "filter (timeouts_to ?T (tdm_list td1) s c) [Suc i..<Suc i + n] = filter (timeouts_to ?T ?ms s c) [Suc i..<Suc i + n]" for s c
    by (rule filter_cong [OF refl]) (simp only: later timeouts_to_def)
  have mq: "map (\<lambda>k. timeout_bytes (extended (?T k) (tdm_list td1 ! k))) (filter P [Suc i..<Suc i + n]) =
      map (\<lambda>k. timeout_bytes (extended (?T k) (?ms ! k))) (filter P [Suc i..<Suc i + n])" for P
    by (rule map_cong [OF refl], subst later, simp_all del: upt_Suc)
  have list: "tdm_list td' = take i ?ms @ map (\<lambda>k. extended (?T k) (?ms ! k)) [i..<i + Suc n]"
    unfolding up td'(3) tk mp by simp
  have qs: "queue_bytes td' s c = queue_bytes td s c @ map (\<lambda>k. timeout_bytes (extended (?T k) (?ms ! k)))
      (filter (timeouts_to ?T ?ms s c) [i..<i + Suc n])" for s c
    unfolding td'(4) td1(3) up fl mq by (simp add: timeouts_to_def del: upt_Suc)
  have "timeout_loop (Suc n) i mt nt mi td = Some td'"
    using td1(1) td'(1) by (simp add: pick_time_def)
  then show ?case using td list qs by blast
qed simp

definition reported :: "clock_estimate \<Rightarrow> u32 \<Rightarrow> trdispatch_mcu \<Rightarrow> trdispatch_mcu" where
  "reported ce clock m = m\<lparr>tdm_ce := ce, tdm_last_status_clock := clock_from_clock32 ce clock\<rparr>"

lemma set_timeouts_ok:
  assumes two: "2 \<le> length (tdm_list td)" and fin: "\<And>t. t \<in> set (map status_time (tdm_list td)) \<Longrightarrow> t < PR_NEVER"
  defines "T \<equiv> deadline_time (map status_time (tdm_list td))"
  shows "\<exists>td'. set_timeouts td = Some td' \<and> td' = td\<lparr>tdm_list := tdm_list td', tds_sqs := tds_sqs td'\<rparr> \<and>
     tdm_list td' = map (\<lambda>k. extended (T k) (tdm_list td ! k)) [0..<length (tdm_list td)] \<and>
     (\<forall>s c. queue_bytes td' s c = queue_bytes td s c @
        map (\<lambda>k. timeout_bytes (extended (T k) (tdm_list td ! k)))
          (filter (timeouts_to T (tdm_list td) s c) [0..<length (tdm_list td)]))"
proof -
  let ?ts = "map status_time (tdm_list td)" and ?n = "length (tdm_list td)"
  obtain mt nt mi where m: "min_loop (tdm_list td) 0 PR_NEVER PR_NEVER None = (mt, nt, mi)" by (metis prod_cases3)
  have "two_earliest [] (PR_NEVER, PR_NEVER, None)" by (simp add: two_earliest_def)
  from min_loop_two_earliest [OF this, of "tdm_list td"] m have te: "two_earliest ?ts (mt, nt, mi)" by simp
  let ?P = "pick_time mt (if nt = PR_NEVER then mt else nt) mi"
  have T: "?P k = T k" if "k \<in> set [0..<?n]" for k
    using two_earliest_deadline [OF te _ fin] two that by (simp add: pick_time_def T_def)
  have "map (\<lambda>k. extended (?P k) (tdm_list td ! k)) [0..<?n] = map (\<lambda>k. extended (T k) (tdm_list td ! k)) [0..<?n]"
    by (rule map_cong [OF refl]) (simp only: T)
  moreover have "filter (timeouts_to ?P (tdm_list td) s c) [0..<?n] = filter (timeouts_to T (tdm_list td) s c) [0..<?n]" for s c
    by (rule filter_cong [OF refl]) (simp only: T timeouts_to_def)
  moreover have "map (\<lambda>k. timeout_bytes (extended (?P k) (tdm_list td ! k))) (filter Q [0..<?n]) =
      map (\<lambda>k. timeout_bytes (extended (T k) (tdm_list td ! k))) (filter Q [0..<?n])" for Q
    by (rule map_cong [OF refl], subst T, simp_all)
  ultimately show ?thesis
    using timeout_loop_ok [of 0 ?n td mt "if nt = PR_NEVER then mt else nt" mi] by (simp only: set_timeouts_def m prod.case take_0 append_Nil add_0)
qed

text \<open>Two microcontrollers, each with a serial queue of its own.\<close>

definition example_mcu :: "nat \<Rightarrow> u64 \<Rightarrow> trdispatch_mcu" where
  "example_mcu s status =
     \<lparr>tdm_fr = \<lparr>fr_func = s, fr_prefix = [40, 9]\<rparr>, tdm_sq = s, tdm_cq = 7, tdm_trsync_oid = 9, tdm_set_timeout_msgtag = 41,
      tdm_trigger_msgtag = 42, tdm_last_status_clock = status, tdm_expire_clock = 500, tdm_expire_ticks = 400,
      tdm_min_extend_ticks = 100, tdm_ce = \<lparr>last_clock = 0, conv_clock = 0, conv_time = 0, est_freq = 1000\<rparr>\<rparr>"

definition example_td :: trdispatch where
  "example_td = \<lparr>tdm_list = [example_mcu 0 2000, example_mcu 1 1000], td_is_active = True, td_can_trigger = True,
     td_dispatch_reason = 1, tds_sqs = (\<lambda>_. example_sq\<lparr>sq_ce := \<lparr>last_clock = 0, conv_clock = 0, conv_time = 0, est_freq = 1000\<rparr>\<rparr>)\<rparr>"

definition example_report :: "u32 \<Rightarrow> u8 list" where
  "example_report can_trigger = [14, 16] @ concat (map encode_int [40, 9, can_trigger, 1, 3000]) @ [0, 0, 126]"

lemma example_report_ok: "state_report 40 9 can_trigger 1 3000 (example_report can_trigger)"
  unfolding state_report_def example_report_def
  by (rule exI [of _ "[14, 16]"], rule exI [of _ "[0, 0, 126]"]) (simp add: message_consts)

text \<open>C24 (trigger_reaches_all). When a microcontroller's state report says that its trigger has fired,
  and none has been passed on yet, the dispatcher queues exactly one trigger command for every
  microcontroller, to the queue of that one and with its own tag and object, and nothing else; no
  later report has any effect.\<close>

theorem trigger_reaches_all:
  assumes report: "state_report tag (tdm_trsync_oid (tdm_list td ! i)) 0 reason clock data"
    and i: "i < length (tdm_list td)" and can: "td_can_trigger td"
  shows "\<exists>td'. handle_trsync_state i data (length data) td = Some td' \<and> tdm_list td' = tdm_list td \<and>
     (\<forall>s c. queue_bytes td' s c = queue_bytes td s c @ map (trigger_bytes td) (filter (goes_to s c) (tdm_list td))) \<and>
     (\<forall>j data' len td''. handle_trsync_state j data' len td' = Some td'' \<longrightarrow> td'' = td')"
proof -
  let ?td = "td\<lparr>td_can_trigger := False\<rparr>"
  obtain td' where td': "trigger_loop (tdm_list td) ?td = Some td'" "td' = ?td\<lparr>tds_sqs := tds_sqs td'\<rparr>"
    "\<And>s c. queue_bytes td' s c = queue_bytes ?td s c @ map (trigger_bytes ?td) (filter (goes_to s c) (tdm_list td))"
    using trigger_loop_ok by blast
  have "trigger_bytes ?td = trigger_bytes td" "queue_bytes ?td = queue_bytes td"
    by (simp_all add: fun_eq_iff trigger_bytes_def queue_bytes_def)
  moreover have "handle_trsync_state i data (length data) td = Some td'"
    using decode_state_report [OF report] i can td'(1) by (simp add: handle_trsync_state_def rd_def)
  moreover have "\<not> td_can_trigger td'" "tdm_list td' = tdm_list td" by (subst td'(2), simp)+
  then have "td'' = td'" if "handle_trsync_state j data' len td' = Some td''" for j data' len td''
    using that by (auto simp: handle_trsync_state_def split: Option.bind_splits if_splits)
  ultimately show ?thesis using td'(3) \<open>tdm_list td' = tdm_list td\<close> by (intro exI [of _ td']) auto
qed

theorem trigger_reaches_all_witness:
  "\<exists>td'. handle_trsync_state 1 (example_report 0) (length (example_report 0)) example_td = Some td' \<and>
     queue_bytes td' 0 7 = queue_bytes example_td 0 7 @ [[42, 9, 1]] \<and> queue_bytes td' 0 8 = queue_bytes example_td 0 8 \<and>
     queue_bytes td' 1 7 = queue_bytes example_td 1 7 @ [[42, 9, 1]]"
proof -
  have "tdm_trsync_oid (tdm_list example_td ! 1) = 9" "1 < length (tdm_list example_td)" "td_can_trigger example_td"
    by (simp_all add: example_td_def example_mcu_def)
  moreover have "map (trigger_bytes example_td) (filter (goes_to s c) (tdm_list example_td)) =
      (if c = 7 \<and> s \<le> 1 then [[42, 9, 1]] else [])" for s c
    by (auto simp: example_td_def example_mcu_def goes_to_def trigger_bytes_def encode_int_def Let_def)
  ultimately show ?thesis
    using trigger_reaches_all [of 40 example_td 1 1 3000 "example_report 0"] example_report_ok [of 0] by fastforce
qed

text \<open>On a report that its trigger has not fired, a microcontroller's own
  entry gets the reported clock; then every microcontroller's timeout is computed from the earliest
  report among the others (so that a silent one is noticed by all), those timeouts that passed the
  threshold are stored, and exactly for these one timeout command is queued, with the new clock.\<close>

theorem timeouts_follow_others:
  assumes report: "state_report tag (tdm_trsync_oid (tdm_list td ! i)) can_trigger reason clock data"
    and i: "i < length (tdm_list td)" and can: "td_can_trigger td" "can_trigger \<noteq> 0" and two: "2 \<le> length (tdm_list td)"
    and ms: "ms = (tdm_list td)[i := reported (sq_ce (tds_sqs td (tdm_sq (tdm_list td ! i)))) clock (tdm_list td ! i)]"
    and fin: "\<And>m. m \<in> set ms \<Longrightarrow> status_time m < PR_NEVER" and T: "T = deadline_time (map status_time ms)"
  shows "\<exists>td'. handle_trsync_state i data (length data) td = Some td' \<and> td_can_trigger td' \<and>
     tdm_list td' = map (\<lambda>k. extended (T k) (ms ! k)) [0..<length ms] \<and>
     (\<forall>s c. queue_bytes td' s c = queue_bytes td s c @
        map (\<lambda>k. timeout_bytes (extended (T k) (ms ! k))) (filter (timeouts_to T ms s c) [0..<length ms]))"
proof -
  define td1 where "td1 = td\<lparr>tdm_list := ms\<rparr>"
  have l: "tdm_list td1 = ms" "2 \<le> length (tdm_list td1)" using two by (simp_all add: td1_def ms)
  have fin': "\<And>t. t \<in> set (map status_time (tdm_list td1)) \<Longrightarrow> t < PR_NEVER" using fin by (auto simp: l(1))
  obtain td' where td': "set_timeouts td1 = Some td'" "td' = td1\<lparr>tdm_list := tdm_list td', tds_sqs := tds_sqs td'\<rparr>"
     "tdm_list td' = map (\<lambda>k. extended (T k) (ms ! k)) [0..<length ms]"
     "\<And>s c. queue_bytes td' s c = queue_bytes td1 s c @
        map (\<lambda>k. timeout_bytes (extended (T k) (ms ! k))) (filter (timeouts_to T ms s c) [0..<length ms])"
    using set_timeouts_ok [OF l(2) fin'] unfolding l(1) T by blast
  have "handle_trsync_state i data (length data) td = Some td'"
    using decode_state_report [OF report] i can td'(1)
    by (simp add: handle_trsync_state_def rd_def update_status_def serialqueue_get_clock_est_def Let_def td1_def ms reported_def)
  moreover have "td_can_trigger td'" using can(1) by (subst td'(2)) (simp add: td1_def)
  moreover have "queue_bytes td1 = queue_bytes td" by (simp add: fun_eq_iff queue_bytes_def td1_def)
  ultimately show ?thesis using td'(3,4) by (intro exI [of _ td']) simp
qed

theorem timeouts_follow_others_witness:
  "\<exists>td' T. handle_trsync_state 1 (example_report 1) (length (example_report 1)) example_td = Some td' \<and>
     T = deadline_time [2, 3] \<and> tdm_list td' = [extended (T 0) (example_mcu 0 2000), extended (T 1) (example_mcu 1 3000)]"
proof -
  let ?ce = "\<lparr>last_clock = 0, conv_clock = 0, conv_time = 0, est_freq = 1000\<rparr>"
  have "sint (3000 :: u32) = 3000" by (simp add: sint_u32_cases)
  then have r: "(tdm_list example_td)[1 := reported (sq_ce (tds_sqs example_td (tdm_sq (tdm_list example_td ! 1)))) 3000 (tdm_list example_td ! 1)]
      = [example_mcu 0 2000, example_mcu 1 3000]"
    by (simp add: example_td_def example_mcu_def reported_def clock_from_clock32_def)
  have "sint (2000 :: u64) = 2000" "sint (3000 :: u64) = 3000" by (simp_all add: sint_uint signed_take_bit_eq_take_bit_shift take_bit_eq_mod)
  then have st: "status_time (example_mcu 0 2000) = 2" "status_time (example_mcu 1 3000) = 3"
    using rnd_int [of 2] rnd_int [of 3] double_of_int_exact [of 2000] double_of_int_exact [of 3000]
    by (simp_all add: status_time_def clock_to_time_def example_mcu_def dadd_def ddiv_def)
  have h: "state_report 40 (tdm_trsync_oid (tdm_list example_td ! 1)) 1 1 3000 (example_report 1)"
      "1 < length (tdm_list example_td)" "td_can_trigger example_td" "2 \<le> length (tdm_list example_td)"
    using example_report_ok [of 1] by (simp_all add: example_td_def example_mcu_def)
  have fin: "status_time m < PR_NEVER" if "m \<in> set [example_mcu 0 2000, example_mcu 1 3000]" for m
    using that st by (auto simp: PR_NEVER_eq)
  have two: "[0..<2] = [0 :: nat, 1]" by code_simp
  obtain td' where "handle_trsync_state 1 (example_report 1) (length (example_report 1)) example_td = Some td'"
      "tdm_list td' = map (\<lambda>k. extended (deadline_time (map status_time [example_mcu 0 2000, example_mcu 1 3000]) k)
         ([example_mcu 0 2000, example_mcu 1 3000] ! k)) [0..<length [example_mcu 0 2000, example_mcu 1 3000]]"
    using timeouts_follow_others [OF h(1-3) one_neq_zero h(4) r [symmetric] fin refl] by blast
  then show ?thesis by (intro exI [of _ td'] exI [of _ "deadline_time [2, 3]"]) (simp add: st st(2) [unfolded One_nat_def] two)
qed

text \<open>A timeout can also move back: the difference to the old one is compared as an unsigned number,
  and a negative one is above every threshold.\<close>

lemma timeout_moves_backwards:
  assumes "sint (new_expire t m - tdm_expire_clock m) < 0" "tdm_min_extend_ticks m < 2 ^ 63"
  shows "tdm_expire_clock (extended t m) = new_expire t m"
proof -
  let ?d = "new_expire t m - tdm_expire_clock m"
  have "sint ?d = (uint ?d + 2 ^ 63) mod 2 ^ 64 - 2 ^ 63"
    by (simp add: sint_uint signed_take_bit_eq_take_bit_shift take_bit_eq_mod)
  then have "2 ^ 63 \<le> uint ?d" using assms(1) uint_ge_0 [of ?d] by (cases "uint ?d < 2 ^ 63") (simp_all add: mod_pos_pos_trivial)
  moreover have "uint (tdm_min_extend_ticks m) < 2 ^ 63" using assms(2) by (simp add: word_less_def)
  ultimately have "extends t m" unfolding extends_def word_le_def by linarith
  then show ?thesis by (simp add: extended_def)
qed

end
