(* ===== verification/Trapq.thy ===== *)
theory Trapq
  imports Double
begin

text \<open>
  The queue of trapezoidal velocity moves (\<^verbatim>\<open>src/klippy/chelper/trapq.c\<close>). The list \<^verbatim>\<open>moves\<close> always
  starts and ends with a sentinel; the model keeps the two apart from the moves between them, and
  \<open>tq_all\<close> is the list as the C code links it. The history has its newest move first. Floating
  point expressions are evaluated operation by operation, without fused operations.
\<close>

section \<open>Data\<close>

record coord =
  co_x :: double
  co_y :: double
  co_z :: double

record trap_move =
  tm_print_time :: double
  tm_move_t :: double
  tm_start_v :: double
  tm_half_accel :: double
  tm_start_pos :: coord
  tm_axes_r :: coord

record trapq =
  tq_head :: trap_move
  tq_body :: "trap_move list"
  tq_tail :: trap_move
  tq_history :: "trap_move list"

record pull_move =
  pm_print_time :: double
  pm_move_t :: double
  pm_start_v :: double
  pm_accel :: double
  pm_start_x :: double
  pm_start_y :: double
  pm_start_z :: double
  pm_x_r :: double
  pm_y_r :: double
  pm_z_r :: double

definition tq_all :: "trapq \<Rightarrow> trap_move list" where
  "tq_all tq = tq_head tq # tq_body tq @ [tq_tail tq]"

section \<open>Operations\<close>

definition zero_coord :: coord where
  "zero_coord = \<lparr>co_x = 0, co_y = 0, co_z = 0\<rparr>"

definition trap_move_alloc :: trap_move where
  "trap_move_alloc = \<lparr>tm_print_time = 0, tm_move_t = 0, tm_start_v = 0, tm_half_accel = 0, tm_start_pos = zero_coord, tm_axes_r = zero_coord\<rparr>"

definition move_get_distance :: "trap_move \<Rightarrow> double \<Rightarrow> double" where
  "move_get_distance m move_time = dmul (dadd (tm_start_v m) (dmul (tm_half_accel m) move_time)) move_time"

definition move_get_coord :: "trap_move \<Rightarrow> double \<Rightarrow> coord" where
  "move_get_coord m move_time =
     (let move_dist = move_get_distance m move_time in
      \<lparr>co_x = dadd (co_x (tm_start_pos m)) (dmul (co_x (tm_axes_r m)) move_dist),
       co_y = dadd (co_y (tm_start_pos m)) (dmul (co_y (tm_axes_r m)) move_dist),
       co_z = dadd (co_z (tm_start_pos m)) (dmul (co_z (tm_axes_r m)) move_dist)\<rparr>)"

definition move_end :: "trap_move \<Rightarrow> double" where
  "move_end m = dadd (tm_print_time m) (tm_move_t m)"

definition NEVER_TIME :: double where "NEVER_TIME = rnd (99999999999999999 / 10)"

definition trapq_alloc :: trapq where
  "trapq_alloc = \<lparr>tq_head = trap_move_alloc, tq_body = [],
     tq_tail = trap_move_alloc\<lparr>tm_print_time := NEVER_TIME, tm_move_t := NEVER_TIME\<rparr>, tq_history = []\<rparr>"

definition trapq_check_sentinels :: "trapq \<Rightarrow> trapq" where
  "trapq_check_sentinels tq =
     (if tm_print_time (tq_tail tq) \<noteq> 0 then tq
      else if tq_body tq = [] then tq\<lparr>tq_tail := (tq_tail tq)\<lparr>tm_print_time := NEVER_TIME\<rparr>\<rparr>
      else let m = last (tq_body tq) in
        tq\<lparr>tq_tail := (tq_tail tq)\<lparr>tm_print_time := move_end m, tm_start_pos := move_get_coord m (tm_move_t m)\<rparr>\<rparr>)"

definition MAX_NULL_MOVE :: double where "MAX_NULL_MOVE = 1"

definition null_move :: "trap_move \<Rightarrow> trap_move \<Rightarrow> trap_move" where
  "null_move prev m =
     (let t = (if tm_print_time prev = 0 \<and> MAX_NULL_MOVE < tm_print_time m then dsub (tm_print_time m) MAX_NULL_MOVE else move_end prev)
      in trap_move_alloc\<lparr>tm_start_pos := tm_start_pos m, tm_print_time := t, tm_move_t := dsub (tm_print_time m) t\<rparr>)"

definition trapq_add_move :: "trap_move \<Rightarrow> trapq \<Rightarrow> trapq" where
  "trapq_add_move m tq =
     (let prev = last (tq_head tq # tq_body tq);
          gap = (if move_end prev < tm_print_time m then [null_move prev m] else [])
      in tq\<lparr>tq_body := tq_body tq @ gap @ [m], tq_tail := (tq_tail tq)\<lparr>tm_print_time := 0\<rparr>\<rparr>)"

text \<open>One of the three blocks of \<^verbatim>\<open>trapq_append\<close>, with the print time and position that the next one
  starts from.\<close>

definition append_part ::
  "double \<Rightarrow> double \<Rightarrow> double \<Rightarrow> coord \<Rightarrow> double \<times> coord \<times> trapq \<Rightarrow> double \<times> coord \<times> trapq" where
  "append_part t v ha r = (\<lambda>(pt, pos, tq).
     if t = 0 then (pt, pos, tq)
     else let m = \<lparr>tm_print_time = pt, tm_move_t = t, tm_start_v = v, tm_half_accel = ha, tm_start_pos = pos, tm_axes_r = r\<rparr>
          in (dadd pt t, move_get_coord m t, trapq_add_move m tq))"

definition trapq_append ::
  "double \<Rightarrow> double \<Rightarrow> double \<Rightarrow> double \<Rightarrow> coord \<Rightarrow> coord \<Rightarrow> double \<Rightarrow> double \<Rightarrow> double \<Rightarrow> trapq \<Rightarrow> trapq" where
  "trapq_append pt accel_t cruise_t decel_t pos r sv cruise_v accel tq =
     (case append_part decel_t cruise_v (dmul (- 1 / 2) accel) r
        (append_part cruise_t cruise_v 0 r (append_part accel_t sv (dmul (1 / 2) accel) r (pt, pos, tq))) of
      (_, _, tq) \<Rightarrow> tq)"

text \<open>The first loop of \<^verbatim>\<open>trapq_finalize_moves\<close>, over the moves between the sentinels.\<close>

fun expire_loop :: "double \<Rightarrow> trap_move list \<Rightarrow> trap_move list \<Rightarrow> trap_move list \<times> trap_move list" where
  "expire_loop t [] history = ([], history)"
| "expire_loop t (m # ms) history =
     (if t < move_end m then (m # ms, history)
      else expire_loop t ms (if tm_start_v m \<noteq> 0 \<or> tm_half_accel m \<noteq> 0 then m # history else history))"

fun clear_loop :: "double \<Rightarrow> trap_move list \<Rightarrow> trap_move list" where
  "clear_loop t [] = []"
| "clear_loop t (m # ms) =
     (if ms = [] \<or> t < move_end (last (m # ms)) then m # ms else clear_loop t (butlast (m # ms)))"

definition trapq_finalize_moves :: "double \<Rightarrow> double \<Rightarrow> trapq \<Rightarrow> trapq" where
  "trapq_finalize_moves pt clear_history_time tq =
     (case expire_loop pt (tq_body tq) (tq_history tq) of
      (body, history) \<Rightarrow>
        tq\<lparr>tq_body := body,
           tq_tail := (if body = [] then (tq_tail tq)\<lparr>tm_print_time := NEVER_TIME\<rparr> else tq_tail tq),
           tq_history := clear_loop clear_history_time history\<rparr>)"

fun prune_loop :: "double \<Rightarrow> trap_move list \<Rightarrow> trap_move list" where
  "prune_loop t [] = []"
| "prune_loop t (m # ms) =
     (if tm_print_time m < t then (if t < move_end m then m\<lparr>tm_move_t := dsub t (tm_print_time m)\<rparr> else m) # ms
      else prune_loop t ms)"

definition trapq_set_position :: "double \<Rightarrow> coord \<Rightarrow> trapq \<Rightarrow> trapq" where
  "trapq_set_position pt pos tq =
     (let tq = trapq_finalize_moves NEVER_TIME 0 tq in
      tq\<lparr>tq_history := trap_move_alloc\<lparr>tm_print_time := pt, tm_start_pos := pos\<rparr> # prune_loop pt (tq_history tq)\<rparr>)"

definition to_pull_move :: "trap_move \<Rightarrow> pull_move" where
  "to_pull_move m =
     \<lparr>pm_print_time = tm_print_time m, pm_move_t = tm_move_t m, pm_start_v = tm_start_v m, pm_accel = dmul 2 (tm_half_accel m),
      pm_start_x = co_x (tm_start_pos m), pm_start_y = co_y (tm_start_pos m), pm_start_z = co_z (tm_start_pos m),
      pm_x_r = co_x (tm_axes_r m), pm_y_r = co_y (tm_axes_r m), pm_z_r = co_z (tm_axes_r m)\<rparr>"

text \<open>\<open>room\<close> is \<^verbatim>\<open>max - res\<close>, the free entries of the caller's array.\<close>

fun old_moves :: "trap_move list \<Rightarrow> nat \<Rightarrow> double \<Rightarrow> double \<Rightarrow> pull_move list" where
  "old_moves [] room start_time end_time = []"
| "old_moves (m # ms) room start_time end_time =
     (if move_end m \<le> start_time \<or> room = 0 then []
      else if end_time \<le> tm_print_time m then old_moves ms room start_time end_time
      else to_pull_move m # old_moves ms (room - 1) start_time end_time)"

definition trapq_extract_old :: "nat \<Rightarrow> double \<Rightarrow> double \<Rightarrow> trapq \<Rightarrow> pull_move list" where
  "trapq_extract_old room start_time end_time tq = old_moves (tq_history tq) room start_time end_time"

section \<open>A move is appended without a gap\<close>

text \<open>Each move starts when and where the one before it ends.\<close>

fun joined :: "double \<Rightarrow> coord \<Rightarrow> trap_move list \<Rightarrow> bool" where
  "joined t pos [] \<longleftrightarrow> True"
| "joined t pos (m # ms) \<longleftrightarrow>
     tm_print_time m = t \<and> tm_start_pos m = pos \<and> joined (move_end m) (move_get_coord m (tm_move_t m)) ms"

definition gap_before :: "trapq \<Rightarrow> trap_move list \<Rightarrow> trap_move list" where
  "gap_before tq ms =
     (let prev = last (tq_head tq # tq_body tq) in
      if ms \<noteq> [] \<and> move_end prev < tm_print_time (hd ms) then [null_move prev (hd ms)] else [])"

text \<open>What has been appended after some parts, and where the next part will start.\<close>

definition appended :: "trapq \<Rightarrow> double \<times> coord \<Rightarrow> trap_move list \<Rightarrow> double \<times> coord \<times> trapq \<Rightarrow> bool" where
  "appended tq p ms = (\<lambda>(pt, pos, tq').
     tq_body tq' = tq_body tq @ gap_before tq ms @ ms \<and> tq_head tq' = tq_head tq \<and> tq_history tq' = tq_history tq \<and>
     tq_tail tq' = (if ms = [] then tq_tail tq else (tq_tail tq)\<lparr>tm_print_time := 0\<rparr>) \<and>
     joined (fst p) (snd p) ms \<and>
     (if ms = [] then (pt, pos) = p else pt = move_end (last ms) \<and> pos = move_get_coord (last ms) (tm_move_t (last ms))))"

lemma joined_append:
  "joined t pos (ms @ [m]) \<longleftrightarrow> joined t pos ms \<and>
     (if ms = [] then tm_print_time m = t \<and> tm_start_pos m = pos
      else tm_print_time m = move_end (last ms) \<and> tm_start_pos m = move_get_coord (last ms) (tm_move_t (last ms)))"
  by (induction ms arbitrary: t pos) auto

lemma appended_part:
  assumes a: "appended tq p ms st"
  shows "\<exists>ms'. appended tq p (ms @ ms') (append_part t v ha r st) \<and>
     map (\<lambda>m. (tm_move_t m, tm_start_v m, tm_half_accel m, tm_axes_r m)) ms' = (if t = 0 then [] else [(t, v, ha, r)])"
proof (cases "t = 0")
  case True
  then show ?thesis using a by (intro exI [of _ "[]"]) (cases st, simp add: append_part_def)
next
  case False
  obtain pt pos tq' where st: "st = (pt, pos, tq')" by (cases st)
  define m where "m = \<lparr>tm_print_time = pt, tm_move_t = t, tm_start_v = v, tm_half_accel = ha, tm_start_pos = pos, tm_axes_r = r\<rparr>"
  have part: "append_part t v ha r st = (move_end m, move_get_coord m t, trapq_add_move m tq')"
    using False by (simp add: append_part_def st m_def move_end_def Let_def)
  have pt: "tm_print_time m = pt" "tm_start_pos m = pos" "tm_move_t m = t" by (simp_all add: m_def)
  have body: "tq_body (trapq_add_move m tq') = tq_body tq @ gap_before tq (ms @ [m]) @ ms @ [m]"
  proof (cases "ms = []")
    case True
    then show ?thesis using a by (simp add: appended_def st trapq_add_move_def gap_before_def pt Let_def)
  next
    case ne: False
    then have "last (tq_head tq' # tq_body tq') = last ms" "pt = move_end (last ms)"
      using a by (simp_all add: appended_def st)
    then have "tq_body (trapq_add_move m tq') = tq_body tq' @ [m]" by (simp add: trapq_add_move_def pt Let_def)
    then show ?thesis using a ne by (simp add: appended_def st gap_before_def Let_def)
  qed
  have "appended tq p (ms @ [m]) (append_part t v ha r st)"
    unfolding part using a body by (auto simp: appended_def st joined_append pt trapq_add_move_def Let_def)
  then show ?thesis using False by (intro exI [of _ "[m]"]) (simp add: m_def)
qed

text \<open>What stands in the queue between the earlier moves, the last of which is \<open>prev\<close>, and a move that
  starts at \<open>pt\<close> and \<open>pos\<close>: when time is left between the two, one move that stands still at \<open>pos\<close>. It
  starts when \<open>prev\<close> ends, or one second before \<open>pt\<close> when \<open>prev\<close> is the start of the queue, and ends at
  \<open>pt\<close> up to the rounding of a subtraction and an addition.\<close>

definition stands_at :: "coord \<Rightarrow> trap_move \<Rightarrow> bool" where
  "stands_at pos g \<longleftrightarrow> tm_start_pos g = pos \<and> tm_start_v g = 0 \<and> tm_half_accel g = 0 \<and> tm_axes_r g = \<lparr>co_x = 0, co_y = 0, co_z = 0\<rparr>"

definition fills_gap :: "trap_move \<Rightarrow> double \<Rightarrow> coord \<Rightarrow> trap_move list \<Rightarrow> bool" where
  "fills_gap prev pt pos gap \<longleftrightarrow>
     (if move_end prev < pt
      then \<exists>g. gap = [g] \<and> stands_at pos g \<and>
        tm_print_time g = (if tm_print_time prev = 0 \<and> 1 < pt then dsub pt 1 else move_end prev) \<and>
        \<bar>move_end g - pt\<bar> \<le> (\<bar>pt - tm_print_time g\<bar> + \<bar>pt\<bar>) / 2 ^ 52
      else gap = [])"

lemma stands_at_coord:
  "stands_at pos g \<Longrightarrow> move_get_coord g t = \<lparr>co_x = rnd (co_x pos), co_y = rnd (co_y pos), co_z = rnd (co_z pos)\<rparr>"
  by (simp add: stands_at_def move_get_coord_def Let_def dadd_def dmul_def)

lemma add_sub_error: "\<bar>dadd a (dsub b a) - b\<bar> \<le> (\<bar>b - a\<bar> + \<bar>b\<bar>) / 2 ^ 52"
proof -
  define d where "d = dsub b a"
  have d: "\<bar>d - (b - a)\<bar> \<le> \<bar>b - a\<bar> / 2 ^ 53" using rnd_error [of "b - a"] by (simp add: d_def dsub_def)
  have e: "\<bar>dadd a d - (a + d)\<bar> \<le> \<bar>a + d\<bar> / 2 ^ 53" using rnd_error [of "a + d"] by (simp add: dadd_def)
  have "\<bar>a + d\<bar> \<le> \<bar>b\<bar> + \<bar>b - a\<bar>" using d by (simp add: abs_if field_simps split: if_splits)
  then show ?thesis using d e unfolding d_def [symmetric] by (simp add: abs_if field_simps split: if_splits)
qed

lemma gap_fills:
  assumes "joined pt pos ms" and "ms \<noteq> []"
  shows "fills_gap (last (tq_head tq # tq_body tq)) pt pos (gap_before tq ms)"
proof -
  have m: "tm_print_time (hd ms) = pt" "tm_start_pos (hd ms) = pos" using assms by (cases ms; simp)+
  show ?thesis
    using assms(2) add_sub_error
    by (simp add: fills_gap_def gap_before_def null_move_def stands_at_def m Let_def trap_move_alloc_def zero_coord_def
       move_end_def MAX_NULL_MOVE_def)
qed

text \<open>C40 (trapq_append_continuous). A trapezoidal move is appended as its accelerating, cruising and
  decelerating parts, those of them that take time, in this order and with the given speeds. The
  first part starts at the given time and position, each other one exactly when and where the one
  before it ends. When time is left after the earlier moves, one move that stands still at the start
  position precedes the first part. It starts when the last earlier move ends and ends when the
  first part starts, up to rounding; as the first move of a queue it starts one second before the
  first part instead. No other move of the queue changes.\<close>

theorem trapq_append_continuous:
  "\<exists>gap ms. tq_body (trapq_append pt accel_t cruise_t decel_t pos r sv cruise_v accel tq) = tq_body tq @ gap @ ms \<and>
     (if ms = [] then gap = [] else fills_gap (last (tq_head tq # tq_body tq)) pt pos gap) \<and>
     joined pt pos ms \<and>
     map (\<lambda>m. (tm_move_t m, tm_start_v m, tm_half_accel m, tm_axes_r m)) ms =
       filter (\<lambda>p. fst p \<noteq> 0)
         [(accel_t, sv, dmul (1 / 2) accel, r), (cruise_t, cruise_v, 0, r), (decel_t, cruise_v, dmul (- 1 / 2) accel, r)] \<and>
     tq_history (trapq_append pt accel_t cruise_t decel_t pos r sv cruise_v accel tq) = tq_history tq"
proof -
  have "appended tq (pt, pos) [] (pt, pos, tq)" by (simp add: appended_def gap_before_def Let_def)
  from appended_part [OF this, of accel_t sv "dmul (1 / 2) accel" r] obtain as where
    as: "appended tq (pt, pos) as (append_part accel_t sv (dmul (1 / 2) accel) r (pt, pos, tq))"
      "map (\<lambda>m. (tm_move_t m, tm_start_v m, tm_half_accel m, tm_axes_r m)) as = (if accel_t = 0 then [] else [(accel_t, sv, dmul (1 / 2) accel, r)])"
    by auto
  from appended_part [OF as(1), of cruise_t cruise_v 0 r] obtain bs where
    bs: "appended tq (pt, pos) (as @ bs) (append_part cruise_t cruise_v 0 r (append_part accel_t sv (dmul (1 / 2) accel) r (pt, pos, tq)))"
      "map (\<lambda>m. (tm_move_t m, tm_start_v m, tm_half_accel m, tm_axes_r m)) bs = (if cruise_t = 0 then [] else [(cruise_t, cruise_v, 0, r)])"
    by auto
  from appended_part [OF bs(1), of decel_t cruise_v "dmul (- 1 / 2) accel" r] obtain cs where
    cs: "appended tq (pt, pos) ((as @ bs) @ cs) (append_part decel_t cruise_v (dmul (- 1 / 2) accel) r
        (append_part cruise_t cruise_v 0 r (append_part accel_t sv (dmul (1 / 2) accel) r (pt, pos, tq))))"
      "map (\<lambda>m. (tm_move_t m, tm_start_v m, tm_half_accel m, tm_axes_r m)) cs = (if decel_t = 0 then [] else [(decel_t, cruise_v, dmul (- 1 / 2) accel, r)])"
    by blast
  have "appended tq (pt, pos) ((as @ bs) @ cs) (p, q, trapq_append pt accel_t cruise_t decel_t pos r sv cruise_v accel tq)"
    if "append_part decel_t cruise_v (dmul (- 1 / 2) accel) r
        (append_part cruise_t cruise_v 0 r (append_part accel_t sv (dmul (1 / 2) accel) r (pt, pos, tq))) = (p, q, tq')" for p q tq'
    using cs(1) that by (simp add: trapq_append_def)
  then have "\<exists>p q. appended tq (pt, pos) ((as @ bs) @ cs) (p, q, trapq_append pt accel_t cruise_t decel_t pos r sv cruise_v accel tq)"
    by (metis prod_cases3)
  moreover have "gap_before tq [] = []" by (simp add: gap_before_def Let_def)
  ultimately show ?thesis
    using as(2) bs(2) cs(2) gap_fills [of pt pos "(as @ bs) @ cs" tq]
    by (intro exI [of _ "gap_before tq ((as @ bs) @ cs)"] exI [of _ "(as @ bs) @ cs"]) (auto simp: appended_def)
qed

section \<open>Expired moves\<close>

lemma expire_loop_eq:
  "expire_loop t ms history =
     (dropWhile (\<lambda>m. move_end m \<le> t) ms,
      rev (filter (\<lambda>m. tm_start_v m \<noteq> 0 \<or> tm_half_accel m \<noteq> 0) (takeWhile (\<lambda>m. move_end m \<le> t) ms)) @ history)"
  by (induction ms arbitrary: history) auto

declare clear_loop.simps(2) [simp del]

lemma clear_loop_rec:
  "ms \<noteq> [] \<Longrightarrow> clear_loop t ms = (if length ms = 1 \<or> t < move_end (last ms) then ms else clear_loop t (butlast ms))"
  by (cases ms, simp, simp only: clear_loop.simps(2)) simp

lemma clear_loop_prefix:
  "\<exists>n. clear_loop t ms = take n ms \<and> (\<forall>m \<in> set (drop n ms). move_end m \<le> t) \<and> (ms \<noteq> [] \<longrightarrow> 0 < n) \<and>
     (1 < length (clear_loop t ms) \<longrightarrow> t < move_end (last (clear_loop t ms)))"
proof (induction "length ms" arbitrary: ms)
  case (Suc k)
  show ?case
  proof (cases "length ms = 1 \<or> t < move_end (last ms)")
    case True
    have "ms \<noteq> []" using Suc.hyps(2) by auto
    then have "clear_loop t ms = ms" using True by (simp add: clear_loop_rec)
    then show ?thesis using True by (intro exI [of _ "length ms"]) (use Suc.hyps(2) in auto)
  next
    case False
    have ne: "ms \<noteq> []" using Suc.hyps(2) by auto
    then have c: "clear_loop t ms = clear_loop t (butlast ms)" using False clear_loop_rec [of ms t] by simp
    obtain n where n: "clear_loop t (butlast ms) = take n (butlast ms)" "\<forall>m \<in> set (drop n (butlast ms)). move_end m \<le> t"
      "butlast ms \<noteq> [] \<longrightarrow> 0 < n" "1 < length (clear_loop t (butlast ms)) \<longrightarrow> t < move_end (last (clear_loop t (butlast ms)))"
    proof -
      have "k = length (butlast ms)" using Suc.hyps(2) by simp
      from Suc.hyps(1) [OF this] show ?thesis using that by blast
    qed
    have l: "length (butlast ms) = length ms - 1" "butlast ms \<noteq> []" using False Suc.hyps(2) by (auto simp: butlast_conv_take)
    define n' where "n' = min n (length ms - 1)"
    have "take n (butlast ms) = take n' ms" by (simp add: butlast_conv_take n'_def)
    moreover have "drop n' ms = drop n (butlast ms) @ [last ms]"
    proof -
      have "drop n' (butlast ms @ [last ms]) = drop n' (butlast ms) @ [last ms]" using l by (simp add: n'_def)
      moreover have "drop n' (butlast ms) = drop n (butlast ms)" using l by (simp add: n'_def min_def)
      ultimately show ?thesis using ne by simp
    qed
    moreover have "0 < n'" using n(3) l False Suc.hyps(2) by (simp add: n'_def)
    ultimately show ?thesis using c n False by (intro exI [of _ n']) auto
  qed
qed simp

text \<open>Finalizing up to a time takes exactly the moves that have ended by then
  off the front of the queue. Those with a speed go to the history, the latest first; of the
  history only moves that ended by the given clearing time are dropped, the oldest first, and
  never the latest one.\<close>

theorem finalize_moves_history:
  "let tq' = trapq_finalize_moves t clear tq;
       gone = takeWhile (\<lambda>m. move_end m \<le> t) (tq_body tq);
       full = rev (filter (\<lambda>m. tm_start_v m \<noteq> 0 \<or> tm_half_accel m \<noteq> 0) gone) @ tq_history tq
   in tq_body tq = gone @ tq_body tq' \<and> (tq_body tq' = [] \<or> t < move_end (hd (tq_body tq'))) \<and>
      (\<exists>old. full = tq_history tq' @ old \<and> list_all (\<lambda>m. move_end m \<le> clear) old) \<and>
      (tq_history tq' = [] \<longleftrightarrow> full = [])"
proof -
  let ?P = "\<lambda>m. move_end m \<le> t"
  let ?full = "rev (filter (\<lambda>m. tm_start_v m \<noteq> 0 \<or> tm_half_accel m \<noteq> 0) (takeWhile ?P (tq_body tq))) @ tq_history tq"
  obtain n where n: "clear_loop clear ?full = take n ?full" "\<forall>m \<in> set (drop n ?full). move_end m \<le> clear" "?full \<noteq> [] \<longrightarrow> 0 < n"
    using clear_loop_prefix by blast
  have f: "trapq_finalize_moves t clear tq = tq\<lparr>tq_body := dropWhile ?P (tq_body tq),
      tq_tail := (if dropWhile ?P (tq_body tq) = [] then (tq_tail tq)\<lparr>tm_print_time := NEVER_TIME\<rparr> else tq_tail tq),
      tq_history := take n ?full\<rparr>"
    by (simp only: trapq_finalize_moves_def expire_loop_eq prod.case n(1))
  have body: "tq_body (trapq_finalize_moves t clear tq) = dropWhile ?P (tq_body tq)"
    and hist: "tq_history (trapq_finalize_moves t clear tq) = take n ?full" unfolding f by simp_all
  have "tq_body tq = takeWhile ?P (tq_body tq) @ dropWhile ?P (tq_body tq)" by simp
  moreover have "dropWhile ?P (tq_body tq) = [] \<or> t < move_end (hd (dropWhile ?P (tq_body tq)))"
    using hd_dropWhile [of ?P "tq_body tq"] by (meson not_le)
  moreover have "?full = take n ?full @ drop n ?full" by (simp only: append_take_drop_id)
  moreover have "take n ?full = [] \<longleftrightarrow> ?full = []" using n(3) by (auto simp only: take_eq_Nil)
  ultimately show ?thesis unfolding Let_def body hist list_all_iff using n(2) by blast
qed

theorem finalize_moves_history_witness:
  "let tq = trapq_append 1 2 3 2 zero_coord \<lparr>co_x = 1, co_y = 0, co_z = 0\<rparr> 0 10 5 trapq_alloc
   in tq_body tq = takeWhile (\<lambda>m. move_end m \<le> 4) (tq_body tq) @ tq_body (trapq_finalize_moves 4 2 tq)"
  using finalize_moves_history [of 4 2 "trapq_append 1 2 3 2 zero_coord \<lparr>co_x = 1, co_y = 0, co_z = 0\<rparr> 0 10 5 trapq_alloc"]
  unfolding Let_def by blast

section \<open>The sentinels\<close>

definition move_ok :: "trap_move \<Rightarrow> bool" where
  "move_ok m \<longleftrightarrow> 0 \<le> tm_print_time m \<and> 0 \<le> tm_move_t m \<and> is_double (tm_print_time m) \<and> is_double (tm_move_t m)"

definition trapq_ok :: "trapq \<Rightarrow> bool" where
  "trapq_ok tq \<longleftrightarrow>
     tq_head tq = trap_move_alloc \<and> list_all move_ok (tq_body tq) \<and> move_ok (tq_tail tq) \<and>
     tm_move_t (tq_tail tq) = NEVER_TIME \<and> tm_axes_r (tq_tail tq) = zero_coord"

lemma NEVER_TIME_double [simp]: "is_double NEVER_TIME" "0 \<le> NEVER_TIME"
  by (simp_all add: NEVER_TIME_def rnd_nonneg)

lemma move_end_ok: "move_ok m \<Longrightarrow> 0 \<le> move_end m \<and> is_double (move_end m)"
  by (simp add: move_ok_def move_end_def dadd_def rnd_nonneg)

lemma tail_end: "trapq_ok tq \<Longrightarrow> NEVER_TIME \<le> move_end (tq_tail tq)"
  unfolding move_end_def dadd_def by (rule rnd_lower) (simp_all add: trapq_ok_def move_ok_def)

lemma trapq_ok_alloc: "trapq_ok trapq_alloc"
  by (simp add: trapq_ok_def trapq_alloc_def trap_move_alloc_def move_ok_def)

lemma trapq_ok_check_sentinels: "trapq_ok tq \<Longrightarrow> trapq_ok (trapq_check_sentinels tq)"
proof -
  assume ok: "trapq_ok tq"
  have "move_ok (last (tq_body tq))" if "tq_body tq \<noteq> []" using ok that by (simp add: trapq_ok_def list_all_iff)
  then show ?thesis
    using ok move_end_ok by (auto simp: trapq_check_sentinels_def trapq_ok_def move_ok_def Let_def)
qed

lemma trapq_ok_add_move:
  assumes ok: "trapq_ok tq" and m: "move_ok m"
  shows "trapq_ok (trapq_add_move m tq)"
proof -
  define prev where "prev = last (tq_head tq # tq_body tq)"
  have "move_ok (tq_head tq)" using ok by (simp add: trapq_ok_def trap_move_alloc_def move_ok_def)
  then have "move_ok prev" using ok by (auto simp: trapq_ok_def prev_def list_all_iff)
  then have e: "0 \<le> move_end prev" "is_double (move_end prev)" using move_end_ok by blast+
  have "move_ok (null_move prev m)" if lt: "move_end prev < tm_print_time m"
  proof -
    have "0 \<le> dsub (tm_print_time m) MAX_NULL_MOVE" if "MAX_NULL_MOVE < tm_print_time m"
      using that by (simp add: dsub_def rnd_nonneg)
    moreover have "0 \<le> dsub (tm_print_time m) t" if "t \<le> tm_print_time m" for t using that by (simp add: dsub_def rnd_nonneg)
    moreover have "dsub (tm_print_time m) MAX_NULL_MOVE \<le> tm_print_time m"
      using m unfolding dsub_def by (intro rnd_upper) (simp_all add: move_ok_def MAX_NULL_MOVE_def)
    ultimately show ?thesis using e lt m by (auto simp: null_move_def Let_def move_ok_def trap_move_alloc_def)
  qed
  moreover have "move_ok ((tq_tail tq)\<lparr>tm_print_time := 0\<rparr>)" using ok by (simp add: trapq_ok_def move_ok_def)
  ultimately show ?thesis using ok m unfolding trapq_add_move_def Let_def prev_def [symmetric] by (auto simp: trapq_ok_def)
qed

lemma trapq_ok_part:
  assumes "trapq_ok tq" "0 \<le> pt" "is_double pt" "0 \<le> t" "is_double t" "append_part t v ha r (pt, pos, tq) = (pt', pos', tq')"
  shows "trapq_ok tq' \<and> 0 \<le> pt' \<and> is_double pt'"
proof (cases "t = 0")
  case False
  let ?m = "\<lparr>tm_print_time = pt, tm_move_t = t, tm_start_v = v, tm_half_accel = ha, tm_start_pos = pos, tm_axes_r = r\<rparr>"
  have "trapq_ok (trapq_add_move ?m tq)" using assms by (intro trapq_ok_add_move) (simp_all add: move_ok_def)
  then show ?thesis using assms False by (auto simp: append_part_def Let_def dadd_def rnd_nonneg)
qed (use assms in \<open>simp add: append_part_def\<close>)

lemma trapq_ok_append:
  assumes "trapq_ok tq" "0 \<le> pt" "is_double pt" and t: "0 \<le> ta" "is_double ta" "0 \<le> ct" "is_double ct" "0 \<le> dt" "is_double dt"
  shows "trapq_ok (trapq_append pt ta ct dt pos r sv cv a tq)"
proof -
  obtain p1 q1 t1 where 1: "append_part ta sv (dmul (1 / 2) a) r (pt, pos, tq) = (p1, q1, t1)" by (metis prod_cases3)
  obtain p2 q2 t2 where 2: "append_part ct cv 0 r (p1, q1, t1) = (p2, q2, t2)" by (metis prod_cases3)
  obtain p3 q3 t3 where 3: "append_part dt cv (dmul (- 1 / 2) a) r (p2, q2, t2) = (p3, q3, t3)" by (metis prod_cases3)
  note i1 = trapq_ok_part [OF assms(1-3) t(1,2) 1]
  note i2 = trapq_ok_part [OF conjunct1 [OF i1] conjunct1 [OF conjunct2 [OF i1]] conjunct2 [OF conjunct2 [OF i1]] t(3,4) 2]
  note i3 = trapq_ok_part [OF conjunct1 [OF i2] conjunct1 [OF conjunct2 [OF i2]] conjunct2 [OF conjunct2 [OF i2]] t(5,6) 3]
  show ?thesis using i3 unfolding trapq_append_def 1 2 3 by simp
qed

lemma trapq_ok_finalize: "trapq_ok tq \<Longrightarrow> trapq_ok (trapq_finalize_moves t clear tq)"
  unfolding trapq_finalize_moves_def expire_loop_eq prod.case
  by (auto simp: trapq_ok_def move_ok_def list_all_iff dest: set_dropWhileD)

lemma trapq_ok_set_position: "trapq_ok tq \<Longrightarrow> trapq_ok (trapq_set_position pt pos tq)"
  using trapq_ok_finalize [of tq NEVER_TIME 0] by (simp add: trapq_set_position_def Let_def trapq_ok_def)

text \<open>The states of a queue.\<close>

inductive trapq_reach :: "trapq \<Rightarrow> bool" where
  reach_alloc: "trapq_reach trapq_alloc"
| reach_append: "trapq_reach tq \<Longrightarrow> 0 \<le> pt \<Longrightarrow> is_double pt \<Longrightarrow> 0 \<le> ta \<Longrightarrow> is_double ta \<Longrightarrow> 0 \<le> ct \<Longrightarrow> is_double ct \<Longrightarrow>
     0 \<le> dt \<Longrightarrow> is_double dt \<Longrightarrow> trapq_reach (trapq_append pt ta ct dt pos r sv cv a tq)"
| reach_finalize: "trapq_reach tq \<Longrightarrow> trapq_reach (trapq_finalize_moves t clear tq)"
| reach_set_position: "trapq_reach tq \<Longrightarrow> trapq_reach (trapq_set_position pt pos tq)"
| reach_check: "trapq_reach tq \<Longrightarrow> trapq_reach (trapq_check_sentinels tq)"

lemma trapq_reach_ok: "trapq_reach tq \<Longrightarrow> trapq_ok tq"
  by (induction rule: trapq_reach.induct)
    (simp_all add: trapq_ok_alloc trapq_ok_append trapq_ok_finalize trapq_ok_set_position trapq_ok_check_sentinels)

end
