(* ===== verification/Itersolve.thy ===== *)
theory Itersolve
  imports Stepcompress Trapq
begin

text \<open>
  The solver that finds the step times of a stepper (\<^verbatim>\<open>src/klippy/chelper/itersolve.c\<close>). The
  callbacks of \<^verbatim>\<open>struct stepper_kinematics\<close> are functions: \<open>sk_calc_position_cb\<close> gets the stepper's
  commanded position (the only field of the object that a callback reads), the linked moves with
  the index of the current one, and a time in that move; its result \<open>None\<close> is undefined behaviour.
  A position is found by the secant method with bisection as a fallback. Shown are that the search
  ends for every callback, that the steps it submits are in order and inside of the requested time
  range, and, for step distances whose multiples are doubles, that the commanded position follows the
  steps.
\<close>

section \<open>Data\<close>

type_synonym calc_callback = "double \<Rightarrow> trap_move list \<Rightarrow> nat \<Rightarrow> double \<Rightarrow> double option"

record stepper_kinematics =
  sk_step_dist :: double
  sk_commanded_pos :: double
  sk_last_flush_time :: double
  sk_last_move_time :: double
  sk_tq :: "nat option"
  sk_active_flags :: u32
  sk_gen_steps_pre_active :: double
  sk_gen_steps_post_active :: double
  sk_calc_position_cb :: calc_callback
  sk_post_cb :: "(double \<Rightarrow> double) option"

record timepos =
  tp_time :: double
  tp_position :: double

text \<open>The local variables of \<^verbatim>\<open>itersolve_gen_steps_range\<close> that its loop changes, and the step
  compressor it writes to.\<close>

record solver =
  so_old_guess :: timepos
  so_guess :: timepos
  so_sdir :: int
  so_is_dir_change :: bool
  so_have_bracket :: bool
  so_check_oscillate :: bool
  so_target :: double
  so_last_time :: double
  so_low_time :: double
  so_high_time :: double
  so_sc :: stepcompress

section \<open>Main iterative solver\<close>

definition SEEK_TIME_RESET :: double where "SEEK_TIME_RESET = rnd (1 / 10000)"

text \<open>The constants \<open>.000000001\<close> and \<open>.000000010\<close>.\<close>

definition CLOSE :: double where "CLOSE = rnd (1 / 10 ^ 9)"

definition TURN :: double where "TURN = rnd (1 / 10 ^ 8)"

definition range_start :: "trap_move \<Rightarrow> double \<Rightarrow> double" where
  "range_start m abs_start = (let start = dsub abs_start (tm_print_time m) in if start < 0 then 0 else start)"

definition range_end :: "trap_move \<Rightarrow> double \<Rightarrow> double" where
  "range_end m abs_end = (let end = dsub abs_end (tm_print_time m) in if tm_move_t m < end then tm_move_t m else end)"

definition clip :: "double \<Rightarrow> double \<Rightarrow> double" where
  "clip en t = (if en < t then en else t)"

definition toward :: "int \<Rightarrow> double \<Rightarrow> double" where
  "toward sdir x = (if sdir \<noteq> 0 then x else - x)"

definition step_on :: "int \<Rightarrow> double \<Rightarrow> double \<Rightarrow> double" where
  "step_on sdir half_step target =
     (if sdir \<noteq> 0 then dadd (dadd target half_step) half_step else dsub (dsub target half_step) half_step)"

definition solver_start :: "double \<Rightarrow> double \<Rightarrow> double \<Rightarrow> double \<Rightarrow> stepcompress \<Rightarrow> solver" where
  "solver_start half_step commanded_pos start en sc =
     (let g = \<lparr>tp_time = start, tp_position = commanded_pos\<rparr>; sdir = stepcompress_get_step_dir sc in
      \<lparr>so_old_guess = g, so_guess = g, so_sdir = sdir, so_is_dir_change = False, so_have_bracket = False,
       so_check_oscillate = False, so_target = dadd commanded_pos (toward sdir half_step), so_last_time = start,
       so_low_time = start, so_high_time = clip en (dadd start SEEK_TIME_RESET), so_sc = sc\<rparr>)"

text \<open>The secant guess; a division by zero gives no number.\<close>

definition secant :: "solver \<Rightarrow> double option" where
  "secant sv =
     (let guess_dist = dsub (tp_position (so_guess sv)) (so_target sv);
          og_dist = dsub (tp_position (so_old_guess sv)) (so_target sv);
          d = dsub guess_dist og_dist
      in if d = 0 then None
         else Some (ddiv (dsub (dmul (tp_time (so_old_guess sv)) guess_dist) (dmul (tp_time (so_guess sv)) og_dist)) d))"

text \<open>The guess when that one is out of bounds; \<open>None\<close> is the \<^verbatim>\<open>break\<close> of the loop.\<close>

definition fallback_guess :: "double \<Rightarrow> solver \<Rightarrow> (double \<times> solver) option" where
  "fallback_guess en sv =
     (if so_have_bracket sv
      then Some (dmul (dadd (so_low_time sv) (so_high_time sv)) (1 / 2), sv\<lparr>so_check_oscillate := False\<rparr>)
      else if en \<le> tp_time (so_guess sv) then None
      else Some (so_high_time sv, sv\<lparr>so_high_time := clip en (dsub (dmul 2 (so_high_time sv)) (so_last_time sv))\<rparr>))"

definition next_guess :: "double \<Rightarrow> solver \<Rightarrow> (double \<times> solver) option" where
  "next_guess en sv =
     (case secant sv of
        Some t \<Rightarrow> if so_low_time sv < t \<and> t < so_high_time sv then Some (t, sv) else fallback_guess en sv
      | None \<Rightarrow> fallback_guess en sv)"

definition note_position :: "double \<Rightarrow> double \<Rightarrow> solver \<Rightarrow> solver" where
  "note_position t p sv = sv\<lparr>so_old_guess := so_guess sv, so_guess := \<lparr>tp_time = t, tp_position = p\<rparr>\<rparr>"

definition update_bounds :: "double \<Rightarrow> double \<Rightarrow> solver \<Rightarrow> solver" where
  "update_bounds half_step rel_dist sv =
     (let t = tp_time (so_guess sv) in
      if 0 < rel_dist then
        (let sv = (if so_have_bracket sv \<and> tp_time (so_old_guess sv) \<le> so_low_time sv
                   then sv\<lparr>so_old_guess := (if so_check_oscillate sv then so_guess sv else so_old_guess sv),
                           so_check_oscillate := True\<rparr>
                   else sv)
         in sv\<lparr>so_high_time := t, so_have_bracket := True\<rparr>)
      else if rel_dist < - dadd (dadd half_step half_step) TURN then
        (let sdir = (if so_sdir sv = 0 then 1 else 0) in
         sv\<lparr>so_sdir := sdir, so_target := step_on sdir half_step (so_target sv), so_low_time := so_last_time sv,
            so_high_time := t, so_is_dir_change := True, so_have_bracket := True, so_check_oscillate := False\<rparr>)
      else sv\<lparr>so_low_time := t\<rparr>)"

definition guess_again :: "solver \<Rightarrow> bool" where
  "guess_again sv \<longleftrightarrow> \<not> so_have_bracket sv \<or> CLOSE < dsub (so_high_time sv) (so_low_time sv)"

text \<open>What remains of an iteration after the step has been appended.\<close>

definition after_step :: "double \<Rightarrow> double \<Rightarrow> solver \<Rightarrow> solver" where
  "after_step half_step en sv =
     (let t = tp_time (so_guess sv);
          delta = dmul (3 / 2) (dsub t (so_last_time sv));
          delta = (if delta < CLOSE then CLOSE else delta);
          delta = (if so_is_dir_change sv \<and> SEEK_TIME_RESET < delta then SEEK_TIME_RESET else delta)
      in sv\<lparr>so_target := step_on (so_sdir sv) half_step (so_target sv), so_last_time := t, so_low_time := t,
            so_high_time := clip en (dadd t delta), so_is_dir_change := False, so_have_bracket := False,
            so_check_oscillate := False\<rparr>)"

datatype solved = Continue solver | Break solver | Return int solver | Undefined

definition submit_step :: "double \<Rightarrow> double \<Rightarrow> double \<Rightarrow> solver \<Rightarrow> solved" where
  "submit_step half_step en pt sv =
     (case stepcompress_append (so_sdir sv) pt (tp_time (so_guess sv)) (so_sc sv) of
        None \<Rightarrow> Undefined
      | Some (ret, sc) \<Rightarrow>
          if ret \<noteq> 0 then Return ret (sv\<lparr>so_sc := sc\<rparr>) else Continue (after_step half_step en (sv\<lparr>so_sc := sc\<rparr>)))"

definition commit_step :: "double \<Rightarrow> double \<Rightarrow> solver \<Rightarrow> solved" where
  "commit_step half_step rel_dist sv =
     (if \<not> so_is_dir_change sv \<and> - half_step \<le> rel_dist then
        (case stepcompress_commit (so_sc sv) of None \<Rightarrow> Undefined | Some (_, sc) \<Rightarrow> Continue (sv\<lparr>so_sc := sc\<rparr>))
      else Continue sv)"

text \<open>One iteration of the loop.\<close>

definition solve_step :: "(double \<Rightarrow> double option) \<Rightarrow> double \<Rightarrow> double \<Rightarrow> double \<Rightarrow> solver \<Rightarrow> solved" where
  "solve_step calc half_step en pt sv =
     (case next_guess en sv of
        None \<Rightarrow> Break sv
      | Some (t, sv) \<Rightarrow>
          (case calc t of
             None \<Rightarrow> Undefined
           | Some p \<Rightarrow>
               let sv = note_position t p sv; guess_dist = dsub p (so_target sv) in
               if CLOSE < \<bar>guess_dist\<bar> then
                 (let rel_dist = toward (so_sdir sv) guess_dist; sv = update_bounds half_step rel_dist sv in
                  if guess_again sv then commit_step half_step rel_dist sv else submit_step half_step en pt sv)
               else submit_step half_step en pt sv))"

text \<open>The loop; \<open>None\<close> is that it does not return.\<close>

partial_function (option) solve_loop ::
  "(double \<Rightarrow> double option) \<Rightarrow> double \<Rightarrow> double \<Rightarrow> double \<Rightarrow> solver \<Rightarrow> solved option" where
  "solve_loop calc half_step en pt sv =
     (case solve_step calc half_step en pt sv of Continue sv \<Rightarrow> solve_loop calc half_step en pt sv | r \<Rightarrow> Some r)"

definition itersolve_gen_steps_range ::
  "trap_move list \<Rightarrow> nat \<Rightarrow> double \<Rightarrow> double \<Rightarrow> stepper_kinematics \<Rightarrow> stepcompress \<Rightarrow>
   (int \<times> stepper_kinematics \<times> stepcompress) option" where
  "itersolve_gen_steps_range ms i abs_start abs_end sk sc = do {
     m \<leftarrow> rd ms i;
     let half_step = dmul (1 / 2) (sk_step_dist sk);
     let en = range_end m abs_end;
     let calc = sk_calc_position_cb sk (sk_commanded_pos sk) ms i;
     let sv = solver_start half_step (sk_commanded_pos sk) (range_start m abs_start) en sc;
     r \<leftarrow> solve_loop calc half_step en (tm_print_time m) sv;
     (case r of
        Break sv \<Rightarrow>
          (let pos = dsub (so_target sv) (toward (so_sdir sv) half_step);
               pos = (case sk_post_cb sk of None \<Rightarrow> pos | Some post \<Rightarrow> post pos)
           in Some (0, sk\<lparr>sk_commanded_pos := pos\<rparr>, so_sc sv))
      | Return ret sv \<Rightarrow> Some (ret, sk, so_sc sv)
      | _ \<Rightarrow> None) }"

section \<open>The search makes progress\<close>

text \<open>Times up to \<open>2\<^sup>2\<^sup>0\<close> seconds, twelve days, are known to less than a nanosecond.\<close>

definition MAX_RANGE :: double where "MAX_RANGE = 2 ^ 20"

lemma rnd_near:
  assumes "\<bar>x\<bar> \<le> b"
  shows "x - b / 9007199254740992 \<le> rnd x" "rnd x \<le> x + b / 9007199254740992"
proof -
  have "\<bar>rnd x - x\<bar> \<le> b / 2 ^ 53" by (rule order_trans [OF rnd_error]) (simp add: assms divide_right_mono)
  then have "\<bar>rnd x - x\<bar> \<le> b / 9007199254740992" by simp
  then show "x - b / 9007199254740992 \<le> rnd x" "rnd x \<le> x + b / 9007199254740992" by linarith+
qed

lemma CLOSE_bounds: "99 / 100000000000 < CLOSE" "CLOSE < 101 / 100000000000"
  using rnd_near [of "1 / 1000000000" "1 / 1000000000"] by (simp_all add: CLOSE_def)

lemma CLOSE_less_SEEK: "CLOSE \<le> SEEK_TIME_RESET"
  unfolding CLOSE_def SEEK_TIME_RESET_def by (rule rnd_mono) simp

lemma is_double_consts [simp]: "is_double CLOSE" "is_double SEEK_TIME_RESET"
  by (simp_all add: CLOSE_def SEEK_TIME_RESET_def)

lemma not_close: "CLOSE < dsub a b \<Longrightarrow> 1 / 1000000000 < a - b"
  using rnd_mono [of "a - b" "1 / 10 ^ 9"] by (force simp: CLOSE_def dsub_def)

lemma bisection_inside:
  assumes "0 \<le> low" "high \<le> MAX_RANGE" "CLOSE < dsub high low"
  shows "low < dmul (dadd low high) (1 / 2)" "dmul (dadd low high) (1 / 2) < high"
proof -
  have gap: "1 / 1000000000 < high - low" by (rule not_close [OF assms(3)])
  have hi: "high \<le> 1048576" using assms(2) by (simp add: MAX_RANGE_def)
  have "\<bar>low + high\<bar> \<le> 2097152" using assms(1) hi gap by linarith
  note s = rnd_near [OF this, folded dadd_def]
  have "\<bar>dadd low high * (1 / 2)\<bar> \<le> 2097152" using s assms(1) hi gap by linarith
  from rnd_near [OF this, folded dmul_def]
  show "low < dmul (dadd low high) (1 / 2)" "dmul (dadd low high) (1 / 2) < high" using s gap by linarith+
qed

lemma doubling_grows:
  assumes "0 \<le> l" "l + 8 / 10000000000 < high" "high \<le> MAX_RANGE"
  shows "high < dsub (dmul 2 high) l"
proof -
  have hi: "high \<le> 1048576" using assms(3) by (simp add: MAX_RANGE_def)
  then have "\<bar>2 * high\<bar> \<le> 2097152" using assms by linarith
  note d = rnd_near [OF this, folded dmul_def]
  have "\<bar>dmul 2 high - l\<bar> \<le> 4194304" using d assms hi by linarith
  from rnd_near [OF this, folded dsub_def] show ?thesis using d assms by linarith
qed

lemma seek_grows:
  assumes "0 \<le> t" "t \<le> MAX_RANGE" "CLOSE \<le> delta"
  shows "t + 8 / 10000000000 < dadd t delta"
proof -
  have t: "t \<le> 1048576" using assms(2) by (simp add: MAX_RANGE_def)
  have "\<bar>t + CLOSE\<bar> \<le> 1048577" using assms(1) t CLOSE_bounds by linarith
  note r = rnd_near [OF this]
  have "rnd (t + CLOSE) \<le> dadd t delta" unfolding dadd_def by (rule rnd_mono) (use assms in simp)
  then show ?thesis using r CLOSE_bounds by linarith
qed

text \<open>What holds at the start of every iteration.\<close>

definition solver_inv :: "double \<Rightarrow> solver \<Rightarrow> bool" where
  "solver_inv en sv \<longleftrightarrow>
     is_double (so_last_time sv) \<and> is_double (so_low_time sv) \<and> is_double (so_high_time sv) \<and>
     0 \<le> so_last_time sv \<and> so_last_time sv \<le> so_low_time sv \<and> so_low_time sv \<le> so_high_time sv \<and> so_high_time sv \<le> en \<and>
     (if so_have_bracket sv then CLOSE < dsub (so_high_time sv) (so_low_time sv)
      else (so_low_time sv < so_high_time sv \<or> en \<le> tp_time (so_guess sv)) \<and>
           (so_high_time sv = en \<or> so_last_time sv + 8 / 10000000000 < so_high_time sv))"

text \<open>A new guess is above the lower bound and not above the upper one.\<close>

definition good_guess :: "double \<Rightarrow> solver \<Rightarrow> double \<Rightarrow> solver \<Rightarrow> bool" where
  "good_guess en sv t sv1 \<longleftrightarrow>
     is_double t \<and> so_low_time sv < t \<and> t \<le> en \<and>
     sv1 = sv\<lparr>so_high_time := so_high_time sv1, so_check_oscillate := so_check_oscillate sv1\<rparr> \<and>
     is_double (so_high_time sv1) \<and> t \<le> so_high_time sv1 \<and> so_high_time sv1 \<le> en \<and>
     (if so_have_bracket sv then so_high_time sv1 = so_high_time sv \<and> t < so_high_time sv
      else (t < so_high_time sv1 \<or> en \<le> t) \<and> (so_high_time sv1 = en \<or> so_last_time sv + 8 / 10000000000 < so_high_time sv1))"

lemma next_guess_good:
  assumes inv: "solver_inv en sv" and en: "is_double en" "en \<le> MAX_RANGE" and g: "next_guess en sv = Some (t, sv1)"
  shows "good_guess en sv t sv1"
proof -
  let ?lo = "so_low_time sv" and ?hi = "so_high_time sv" and ?last = "so_last_time sv"
  note i = inv [unfolded solver_inv_def]
  consider (secant) "secant sv = Some t" "?lo < t" "t < ?hi" "sv1 = sv"
    | (bisect) "so_have_bracket sv" "t = dmul (dadd ?lo ?hi) (1 / 2)" "sv1 = sv\<lparr>so_check_oscillate := False\<rparr>"
    | (expand) "\<not> so_have_bracket sv" "tp_time (so_guess sv) < en" "t = ?hi"
        "sv1 = sv\<lparr>so_high_time := clip en (dsub (dmul 2 ?hi) ?last)\<rparr>"
  proof (cases "next_guess en sv = fallback_guess en sv")
    case True
    with g have "fallback_guess en sv = Some (t, sv1)" by simp
    then show thesis using bisect expand by (cases "so_have_bracket sv"; cases "en \<le> tp_time (so_guess sv)") (auto simp: fallback_guess_def)
  next
    case False
    then show thesis using g secant by (simp add: next_guess_def split: option.splits if_splits)
  qed
  then show ?thesis
  proof cases
    case secant
    then have "is_double t" by (auto simp: secant_def Let_def split: if_splits)
    then show ?thesis using secant i by (auto simp: good_guess_def)
  next
    case bisect
    have b: "0 \<le> ?lo" "?hi \<le> MAX_RANGE" "CLOSE < dsub ?hi ?lo" using i bisect(1) en by auto
    show ?thesis using bisect bisection_inside [OF b] i by (simp add: good_guess_def)
  next
    case expand
    define h where "h = clip en (dsub (dmul 2 ?hi) ?last)"
    have lt: "?lo < ?hi" and hi: "?hi = en \<or> ?last + 8 / 10000000000 < ?hi" using i expand by auto
    have h: "is_double h" "h \<le> en" using en by (auto simp: h_def clip_def)
    have "h = en \<or> ?hi < h"
    proof (cases "?hi = en")
      case True
      have "is_double (2 * en)" using is_double_scale [OF en(1), of 1] by (simp add: mult.commute)
      then have "dmul 2 en = 2 * en" by (simp add: dmul_def is_double_def)
      then have "en \<le> dsub (dmul 2 ?hi) ?last" using i True en unfolding dsub_def by (intro rnd_lower) auto
      then show ?thesis by (simp add: h_def clip_def)
    next
      case False
      then have "?last + 8 / 10000000000 < ?hi" using hi by simp
      then have "?hi < dsub (dmul 2 ?hi) ?last" using i en by (intro doubling_grows) auto
      then show ?thesis using i by (auto simp: h_def clip_def)
    qed
    then show ?thesis using expand lt hi h i by (auto simp: good_guess_def h_def [symmetric])
  qed
qed

text \<open>What gets smaller: the doubles above the last step, then, before a bracket is found, those above
  the lower bound, and after that those of the bracket.\<close>

definition above :: "double \<Rightarrow> double \<Rightarrow> nat" where
  "above en x = card {d. is_double d \<and> x < d \<and> d \<le> en}"

definition below :: "double \<Rightarrow> nat" where
  "below x = card {d. is_double d \<and> 1 / 1000000000 \<le> d \<and> d \<le> x}"

definition solver_order :: "double \<Rightarrow> (solver \<times> solver) set" where
  "solver_order en = measures
     [\<lambda>sv. if so_last_time sv \<le> 0 then 1 else 0, \<lambda>sv. above en (so_last_time sv),
      \<lambda>sv. if so_have_bracket sv then 0 else 1, \<lambda>sv. if so_have_bracket sv then below (so_high_time sv) else 0,
      \<lambda>sv. if so_low_time sv \<le> 0 then 1 else 0, \<lambda>sv. above en (so_low_time sv)]"

lemma wf_solver_order: "wf (solver_order en)"
  by (simp add: solver_order_def)

lemma above_less:
  assumes "0 < x" "x < y" "y \<le> en" "is_double y"
  shows "above en y < above en x"
  unfolding above_def
proof (rule psubset_card_mono)
  show "finite {d. is_double d \<and> x < d \<and> d \<le> en}" by (rule finite_subset [OF _ finite_doubles [OF assms(1), of en]]) auto
  have "y \<in> {d. is_double d \<and> x < d \<and> d \<le> en}" using assms by simp
  then show "{d. is_double d \<and> y < d \<and> d \<le> en} \<subset> {d. is_double d \<and> x < d \<and> d \<le> en}" using assms(2) by force
qed

lemma below_less:
  assumes "x < y" "1 / 1000000000 \<le> y" "is_double y"
  shows "below x < below y"
  unfolding below_def
proof (rule psubset_card_mono)
  show "finite {d. is_double d \<and> 1 / 1000000000 \<le> d \<and> d \<le> y}" by (rule finite_doubles) simp
  have "y \<in> {d. is_double d \<and> 1 / 1000000000 \<le> d \<and> d \<le> y}" using assms by simp
  then show "{d. is_double d \<and> 1 / 1000000000 \<le> d \<and> d \<le> x} \<subset> {d. is_double d \<and> 1 / 1000000000 \<le> d \<and> d \<le> y}"
    using assms(1) by force
qed

lemma order_last:
  assumes "0 \<le> so_last_time sv" "so_last_time sv < so_last_time sv'" "so_last_time sv' \<le> en" "is_double (so_last_time sv')"
  shows "(sv', sv) \<in> solver_order en"
  using assms above_less [OF _ assms(2-4)] by (cases "so_last_time sv = 0") (simp_all add: solver_order_def)

lemma order_bracket:
  assumes "so_last_time sv' = so_last_time sv" "\<not> so_have_bracket sv" "so_have_bracket sv'"
  shows "(sv', sv) \<in> solver_order en"
  using assms by (simp add: solver_order_def)

lemma order_high:
  assumes "so_last_time sv' = so_last_time sv" "so_have_bracket sv" "so_have_bracket sv'" "so_high_time sv' < so_high_time sv"
    "1 / 1000000000 \<le> so_high_time sv" "is_double (so_high_time sv)"
  shows "(sv', sv) \<in> solver_order en"
  using assms below_less [OF assms(4-6)] by (simp add: solver_order_def)

lemma order_low:
  assumes "so_last_time sv' = so_last_time sv" "so_have_bracket sv' = so_have_bracket sv"
    "so_have_bracket sv \<longrightarrow> so_high_time sv' = so_high_time sv"
    "0 \<le> so_low_time sv" "so_low_time sv < so_low_time sv'" "so_low_time sv' \<le> en" "is_double (so_low_time sv')"
  shows "(sv', sv) \<in> solver_order en"
  using assms above_less [OF _ assms(5-7)] by (cases "so_low_time sv = 0") (auto simp: solver_order_def)

lemma solver_inv_sc [simp]:
  "solver_inv en (sv\<lparr>so_sc := sc\<rparr>) = solver_inv en sv" "((sv\<lparr>so_sc := sc\<rparr>, sv') \<in> solver_order en) = ((sv, sv') \<in> solver_order en)"
  by (simp_all add: solver_inv_def solver_order_def)

text \<open>The solver with the position at the new guess noted and, unless that is close, the bounds moved.\<close>

definition guessed :: "double \<Rightarrow> double \<Rightarrow> double \<Rightarrow> double \<Rightarrow> solver \<Rightarrow> solver \<Rightarrow> solver \<Rightarrow> bool" where
  "guessed half_step t p rel sv sv1 sv2 \<longleftrightarrow>
     sv2 = note_position t p sv1 \<or> sv2 = update_bounds half_step rel (note_position t p sv1)"

lemma note_position_simps [simp]:
  "so_guess (note_position t p sv) = \<lparr>tp_time = t, tp_position = p\<rparr>" "so_last_time (note_position t p sv) = so_last_time sv"
  "so_low_time (note_position t p sv) = so_low_time sv" "so_high_time (note_position t p sv) = so_high_time sv"
  "so_have_bracket (note_position t p sv) = so_have_bracket sv" "so_sc (note_position t p sv) = so_sc sv"
  "so_target (note_position t p sv) = so_target sv" "so_sdir (note_position t p sv) = so_sdir sv"
  by (simp_all add: note_position_def)

lemma update_bounds_simps [simp]:
  "so_last_time (update_bounds h rel sv) = so_last_time sv" "so_sc (update_bounds h rel sv) = so_sc sv"
  "so_guess (update_bounds h rel sv) = so_guess sv"
  by (simp_all add: update_bounds_def Let_def)

lemma update_bounds_cases:
  fixes sv :: solver
  defines "t \<equiv> tp_time (so_guess sv)"
  obtains (close) "so_have_bracket (update_bounds h rel sv)" "so_high_time (update_bounds h rel sv) = t"
      "so_low_time (update_bounds h rel sv) \<in> {so_low_time sv, so_last_time sv}"
  | (low) "so_have_bracket (update_bounds h rel sv) = so_have_bracket sv"
      "so_high_time (update_bounds h rel sv) = so_high_time sv" "so_low_time (update_bounds h rel sv) = t"
  by (cases "0 < rel"; cases "rel < - dadd (dadd h h) TURN") (simp_all add: update_bounds_def Let_def t_def)

lemma good_guess_fields:
  assumes "good_guess en sv t sv1"
  shows "so_last_time sv1 = so_last_time sv" "so_low_time sv1 = so_low_time sv" "so_have_bracket sv1 = so_have_bracket sv"
    "so_sc sv1 = so_sc sv" "so_target sv1 = so_target sv" "so_sdir sv1 = so_sdir sv"
proof -
  have e: "sv1 = sv\<lparr>so_high_time := so_high_time sv1, so_check_oscillate := so_check_oscillate sv1\<rparr>"
    using assms unfolding good_guess_def by blast
  show "so_last_time sv1 = so_last_time sv" "so_low_time sv1 = so_low_time sv" "so_have_bracket sv1 = so_have_bracket sv"
    "so_sc sv1 = so_sc sv" "so_target sv1 = so_target sv" "so_sdir sv1 = so_sdir sv"
    by (subst e, simp)+
qed

lemma update_bounds_progress:
  assumes inv: "solver_inv en sv" and g: "good_guess en sv t sv1"
    and sv2: "sv2 = update_bounds h rel (note_position t p sv1)" and again: "guess_again sv2"
  shows "solver_inv en sv2 \<and> (sv2, sv) \<in> solver_order en"
proof -
  note i = inv [unfolded solver_inv_def] and gg = g [unfolded good_guess_def] and f = good_guess_fields [OF g]
  have last: "so_last_time sv2 = so_last_time sv" and guess: "so_guess sv2 = \<lparr>tp_time = t, tp_position = p\<rparr>"
    using f by (simp_all add: sv2)
  show ?thesis
  proof (cases rule: update_bounds_cases [of h rel "note_position t p sv1"])
    case close
    then have c: "so_have_bracket sv2" "so_high_time sv2 = t" "so_low_time sv2 = so_low_time sv \<or> so_low_time sv2 = so_last_time sv"
      using f by (auto simp: sv2)
    then have gap: "CLOSE < dsub (so_high_time sv2) (so_low_time sv2)" using again by (simp add: guess_again_def)
    have "solver_inv en sv2" using i gg c gap last by (auto simp: solver_inv_def)
    moreover have "(sv2, sv) \<in> solver_order en"
    proof (cases "so_have_bracket sv")
      case True
      then have "1 / 1000000000 < so_high_time sv - so_low_time sv" using i not_close by auto
      then have "1 / 1000000000 \<le> so_high_time sv" using i by linarith
      then show ?thesis using i gg c True last by (intro order_high) auto
    qed (use order_bracket last c in blast)
    ultimately show ?thesis by blast
  next
    case low
    then have c: "so_have_bracket sv2 = so_have_bracket sv" "so_high_time sv2 = so_high_time sv1" "so_low_time sv2 = t"
      using f by (simp_all add: sv2)
    have "solver_inv en sv2"
      using i gg c last again guess by (auto simp: solver_inv_def guess_again_def)
    moreover have "(sv2, sv) \<in> solver_order en"
      using i gg c last by (intro order_low) auto
    ultimately show ?thesis by blast
  qed
qed

lemma after_step_progress:
  assumes inv: "solver_inv en sv" and en: "is_double en" "en \<le> MAX_RANGE"
    and t: "is_double (tp_time (so_guess sv2))" "so_last_time sv < tp_time (so_guess sv2)" "tp_time (so_guess sv2) \<le> en"
  shows "solver_inv en (after_step h en sv2) \<and> (after_step h en sv2, sv) \<in> solver_order en"
proof -
  define t where "t = tp_time (so_guess sv2)"
  define d where "d = (let delta = dmul (3 / 2) (dsub t (so_last_time sv2)); delta = (if delta < CLOSE then CLOSE else delta)
      in if so_is_dir_change sv2 \<and> SEEK_TIME_RESET < delta then SEEK_TIME_RESET else delta)"
  have f: "so_last_time (after_step h en sv2) = t" "so_low_time (after_step h en sv2) = t" "\<not> so_have_bracket (after_step h en sv2)"
    "so_high_time (after_step h en sv2) = clip en (dadd t d)" "so_guess (after_step h en sv2) = so_guess sv2"
    by (simp_all add: after_step_def Let_def t_def d_def)
  have "CLOSE \<le> d" using CLOSE_less_SEEK by (simp add: d_def Let_def)
  moreover have t0: "0 \<le> t" "t \<le> MAX_RANGE" "is_double t" "t \<le> en" using assms by (auto simp: solver_inv_def t_def)
  ultimately have "t + 8 / 10000000000 < dadd t d" using seek_grows by blast
  then have "solver_inv en (after_step h en sv2)"
    using t0 en by (auto simp: solver_inv_def f clip_def t_def [symmetric])
  moreover have "(after_step h en sv2, sv) \<in> solver_order en"
    using assms t0 by (intro order_last) (auto simp: f solver_inv_def t_def)
  ultimately show ?thesis by blast
qed

section \<open>The steps that are submitted\<close>

text \<open>What the solver does to the step compressor: commits, and steps with a direction and a time.\<close>

inductive sc_run :: "double \<Rightarrow> stepcompress \<Rightarrow> (int \<times> double) list \<Rightarrow> stepcompress \<Rightarrow> bool" for pt sc where
  run_start: "sc_run pt sc [] sc"
| run_commit: "sc_run pt sc ts sc1 \<Longrightarrow> stepcompress_commit sc1 = Some (r, sc2) \<Longrightarrow> sc_run pt sc ts sc2"
| run_append: "sc_run pt sc ts sc1 \<Longrightarrow> stepcompress_append d pt t sc1 = Some (0, sc2) \<Longrightarrow> sc_run pt sc (ts @ [(d, t)]) sc2"

definition net_steps :: "(int \<times> double) list \<Rightarrow> int" where
  "net_steps ts = (\<Sum>(d, t) \<leftarrow> ts. if d \<noteq> 0 then 1 else - 1)"

lemma net_steps_simps [simp]:
  "net_steps [] = 0" "net_steps (ts @ [(d, t)]) = net_steps ts + (if d \<noteq> 0 then 1 else - 1)"
  by (simp_all add: net_steps_def)

lemma net_steps_bound: "\<bar>net_steps ts\<bar> \<le> int (length ts)"
  by (induction ts rule: rev_induct) (auto split: if_splits)

text \<open>The stepper is commanded to a position \<open>k\<close> half steps from the origin; the multiples of a half step
  up to some number are doubles.\<close>

definition on_grid :: "double \<Rightarrow> int \<Rightarrow> bool" where
  "on_grid h n \<longleftrightarrow> (\<forall>k. \<bar>k\<bar> \<le> n \<longrightarrow> is_double (of_int k * h))"

definition at_place :: "double \<Rightarrow> int \<Rightarrow> solver \<Rightarrow> bool" where
  "at_place h k sv \<longleftrightarrow> so_target sv = of_int (if so_sdir sv \<noteq> 0 then k + 1 else k - 1) * h"

lemma step_on_grid:
  assumes "on_grid h n" "\<bar>k\<bar> + 2 \<le> n"
  shows "step_on d h (of_int k * h) = of_int (if d \<noteq> 0 then k + 2 else k - 2) * h"
proof -
  have g: "is_double (of_int j * h)" if "\<bar>j\<bar> \<le> n" for j using assms(1) that by (simp add: on_grid_def)
  have up: "dadd (of_int i * h) h = of_int j * h" if "j = i + 1" "\<bar>j\<bar> \<le> n" for i j
  proof -
    have "of_int i * h + h = of_int j * h" using that(1) by (simp add: left_diff_distrib ring_distribs)
    then show ?thesis using g [OF that(2)] by (simp only: dadd_def is_double_def)
  qed
  have down: "dsub (of_int i * h) h = of_int j * h" if "j = i - 1" "\<bar>j\<bar> \<le> n" for i j
  proof -
    have "of_int i * h - h = of_int j * h" using that(1) by (simp add: left_diff_distrib)
    then show ?thesis using g [OF that(2)] by (simp only: dsub_def is_double_def)
  qed
  have "\<bar>k + 1\<bar> \<le> n" "\<bar>k + 2\<bar> \<le> n" "\<bar>k - 1\<bar> \<le> n" "\<bar>k - 2\<bar> \<le> n" using assms(2) by linarith+
  then show ?thesis
    using up [of "k + 1" k] up [of "k + 2" "k + 1"] down [of "k - 1" k] down [of "k - 2" "k - 1"] by (simp add: step_on_def)
qed

lemma update_bounds_place:
  assumes "on_grid h n" "\<bar>k\<bar> + 3 \<le> n" "at_place h k sv"
  shows "at_place h k (update_bounds h rel sv)"
proof (cases "0 < rel \<or> \<not> rel < - dadd (dadd h h) TURN")
  case True
  then show ?thesis using assms(3) by (auto simp: update_bounds_def Let_def at_place_def)
next
  case False
  then show ?thesis
    using assms(3) step_on_grid [OF assms(1), of "if so_sdir sv \<noteq> 0 then k + 1 else k - 1"] assms(2)
    by (auto simp: update_bounds_def Let_def at_place_def)
qed

lemma after_step_place:
  assumes "on_grid h n" "\<bar>k\<bar> + 3 \<le> n" "at_place h k sv"
  shows "at_place h (k + 2 * (if so_sdir sv \<noteq> 0 then 1 else - 1)) (after_step h en sv)"
  using assms(3) step_on_grid [OF assms(1), of "if so_sdir sv \<noteq> 0 then k + 1 else k - 1"] assms(2)
  by (auto simp: after_step_def Let_def at_place_def)

lemma solve_step_elim:
  assumes "solve_step calc h en pt sv = r"
  obtains (break) "next_guess en sv = None" "r = Break sv"
  | (undef) t sv1 where "next_guess en sv = Some (t, sv1)" "calc t = None" "r = Undefined"
  | (again) t sv1 p rel where "next_guess en sv = Some (t, sv1)" "calc t = Some p"
      "guess_again (update_bounds h rel (note_position t p sv1))"
      "r = commit_step h rel (update_bounds h rel (note_position t p sv1))"
  | (found) t sv1 p sv2 rel where "next_guess en sv = Some (t, sv1)" "calc t = Some p"
      "sv2 = note_position t p sv1 \<or> sv2 = update_bounds h rel (note_position t p sv1)" "r = submit_step h en pt sv2"
proof (cases "next_guess en sv")
  case None
  then show thesis using assms break by (simp add: solve_step_def)
next
  case (Some g)
  obtain t sv1 where g: "next_guess en sv = Some (t, sv1)" using Some by (cases g) simp
  show thesis
  proof (cases "calc t")
    case None
    then show thesis using assms undef g by (simp add: solve_step_def)
  next
    case (Some p)
    define rel where "rel = toward (so_sdir sv1) (dsub p (so_target sv1))"
    have r: "r = (if CLOSE < \<bar>dsub p (so_target sv1)\<bar> then
        if guess_again (update_bounds h rel (note_position t p sv1)) then commit_step h rel (update_bounds h rel (note_position t p sv1))
        else submit_step h en pt (update_bounds h rel (note_position t p sv1)) else submit_step h en pt (note_position t p sv1))"
      using assms unfolding solve_step_def g option.case prod.case Some Let_def note_position_simps rel_def by (rule sym)
    show thesis
      using again [OF g Some] found [OF g Some, of "note_position t p sv1"]
        found [OF g Some, of "update_bounds h rel (note_position t p sv1)" rel] r
      by (auto split: if_splits)
  qed
qed

text \<open>What the trace of the compressor and the position are after some iterations.\<close>

definition traced :: "double \<Rightarrow> double \<Rightarrow> stepcompress \<Rightarrow> double \<Rightarrow> (int \<times> double) list \<Rightarrow> solver \<Rightarrow> bool" where
  "traced pt h sc start ts sv \<longleftrightarrow>
     sc_run pt sc ts (so_sc sv) \<and> sorted_wrt (<) (start # map snd ts) \<and> last (start # map snd ts) = so_last_time sv"

lemma sorted_snoc: "sorted_wrt (<) xs \<Longrightarrow> last xs < (t :: double) \<Longrightarrow> sorted_wrt (<) (xs @ [t])"
  by (cases xs rule: rev_cases) (auto simp: sorted_wrt_append)

lemma traced_append:
  assumes "traced pt h sc start ts sv" "stepcompress_append d pt t (so_sc sv) = Some (0, sc')" "so_last_time sv < t"
    "so_sc sv' = sc'" "so_last_time sv' = t"
  shows "traced pt h sc start (ts @ [(d, t)]) sv'"
  using assms run_append [of pt sc ts "so_sc sv" d t sc'] sorted_snoc [of "start # map snd ts" t]
  by (simp add: traced_def)

lemma traced_commit:
  "traced pt h sc start ts sv \<Longrightarrow> stepcompress_commit (so_sc sv) = Some (r, sc') \<Longrightarrow> so_sc sv' = sc' \<Longrightarrow>
   so_last_time sv' = so_last_time sv \<Longrightarrow> traced pt h sc start ts sv'"
  by (auto simp: traced_def intro: run_commit)

lemma after_step_simps [simp]:
  "so_last_time (after_step h en sv) = tp_time (so_guess sv)" "so_sc (after_step h en sv) = so_sc sv"
  by (simp_all add: after_step_def Let_def)

text \<open>One iteration: the invariant, the measure, the trace and the place.\<close>

definition run_inv :: "double \<Rightarrow> double \<Rightarrow> double \<Rightarrow> int \<Rightarrow> int \<Rightarrow> double \<Rightarrow> stepcompress \<Rightarrow> (int \<times> double) list \<Rightarrow> solver \<Rightarrow> bool" where
  "run_inv en pt h n k start sc ts sv \<longleftrightarrow>
     solver_inv en sv \<and> traced pt h sc start ts sv \<and>
     (on_grid h n \<and> \<bar>k\<bar> + 2 * int (length ts) + 3 \<le> n \<longrightarrow> at_place h (k + 2 * net_steps ts) sv)"

lemma place_bound: "\<bar>k\<bar> + 2 * int (length ts) + 3 \<le> n \<Longrightarrow> \<bar>k + 2 * net_steps ts\<bar> + 3 \<le> n"
  using net_steps_bound [of ts] by linarith

lemma solve_step_Continue:
  assumes inv: "run_inv en pt h n k start sc ts sv" and en: "is_double en" "en \<le> MAX_RANGE"
    and step: "solve_step calc h en pt sv = Continue sv'"
  shows "\<exists>ts'. run_inv en pt h n k start sc ts' sv' \<and> (sv', sv) \<in> solver_order en"
  using step
proof (cases rule: solve_step_elim)
  case (again t sv1 p rel)
  define sv2 where "sv2 = update_bounds h rel (note_position t p sv1)"
  have si: "solver_inv en sv" and tr: "traced pt h sc start ts sv" using inv by (simp_all add: run_inv_def)
  have g: "good_guess en sv t sv1" by (rule next_guess_good [OF si en again(1)])
  note f = good_guess_fields [OF g]
  have sv2: "solver_inv en sv2 \<and> (sv2, sv) \<in> solver_order en"
    by (rule update_bounds_progress [OF si g sv2_def]) (use again(3) in \<open>simp add: sv2_def\<close>)
  have fs: "so_sc sv2 = so_sc sv" "so_last_time sv2 = so_last_time sv" using f by (simp_all add: sv2_def)
  have "at_place h (k + 2 * net_steps ts) sv2" if "on_grid h n" "\<bar>k\<bar> + 2 * int (length ts) + 3 \<le> n"
  proof -
    have "at_place h (k + 2 * net_steps ts) (note_position t p sv1)"
      using inv that f by (simp add: run_inv_def at_place_def)
    then show ?thesis unfolding sv2_def using that place_bound by (intro update_bounds_place)
  qed
  moreover have "commit_step h rel sv2 = Continue sv'" using again(4) sv2_def by simp
  then have "\<exists>sc'. sv' = sv2\<lparr>so_sc := sc'\<rparr> \<and> (sc' = so_sc sv2 \<or> (\<exists>r. stepcompress_commit (so_sc sv2) = Some (r, sc')))"
  proof (cases "\<not> so_is_dir_change sv2 \<and> - h \<le> rel")
    case True
    assume "commit_step h rel sv2 = Continue sv'"
    then show ?thesis using True by (auto simp: commit_step_def split: option.splits)
  next
    case False
    assume "commit_step h rel sv2 = Continue sv'"
    then have "sv' = sv2" using False by (auto simp: commit_step_def split: if_splits)
    then show ?thesis by (intro exI [of _ "so_sc sv2"]) simp
  qed
  then obtain sc' where sv': "sv' = sv2\<lparr>so_sc := sc'\<rparr>" "sc' = so_sc sv2 \<or> (\<exists>r. stepcompress_commit (so_sc sv2) = Some (r, sc'))" by blast
  moreover have "traced pt h sc start ts sv'"
    using sv' tr fs traced_commit [OF tr, of _ sc' sv'] by (auto simp: traced_def)
  ultimately show ?thesis using sv2 by (intro exI [of _ ts]) (auto simp: run_inv_def at_place_def)
next
  case (found t sv1 p sv2 rel)
  have si: "solver_inv en sv" and tr: "traced pt h sc start ts sv" using inv by (simp_all add: run_inv_def)
  have g: "good_guess en sv t sv1" by (rule next_guess_good [OF si en found(1)])
  note f = good_guess_fields [OF g]
  have fs: "so_sc sv2 = so_sc sv" "so_last_time sv2 = so_last_time sv" "tp_time (so_guess sv2) = t" using found(3) f by auto
  have t: "is_double t" "so_last_time sv < t" "t \<le> en" using g si by (auto simp: good_guess_def solver_inv_def)
  obtain sc' where a: "stepcompress_append (so_sdir sv2) pt t (so_sc sv) = Some (0, sc')"
      and sv': "sv' = after_step h en (sv2\<lparr>so_sc := sc'\<rparr>)"
    using found(4) fs by (auto simp: submit_step_def split: option.splits if_splits)
  have p: "solver_inv en sv' \<and> (sv', sv) \<in> solver_order en"
    unfolding sv' by (rule after_step_progress [OF si en]) (use t fs in auto)
  have tr': "traced pt h sc start (ts @ [(so_sdir sv2, t)]) sv'"
    by (rule traced_append [OF tr a t(2)]) (simp_all add: sv' fs)
  have "at_place h (k + 2 * net_steps (ts @ [(so_sdir sv2, t)])) sv'"
    if "on_grid h n" "\<bar>k\<bar> + 2 * int (length (ts @ [(so_sdir sv2, t)])) + 3 \<le> n"
  proof -
    have b: "\<bar>k + 2 * net_steps ts\<bar> + 3 \<le> n" using that(2) place_bound [of k ts n] by simp
    have "at_place h (k + 2 * net_steps ts) (note_position t p sv1)"
      using inv that f by (simp add: run_inv_def at_place_def)
    then have "at_place h (k + 2 * net_steps ts) sv2" using found(3) update_bounds_place [OF that(1) b] by auto
    then have "at_place h (k + 2 * net_steps ts) (sv2\<lparr>so_sc := sc'\<rparr>)" by (simp add: at_place_def)
    from after_step_place [OF that(1) b this, of en] show ?thesis unfolding sv' by (simp add: algebra_simps)
  qed
  then show ?thesis using p tr' by (intro exI [of _ "ts @ [(so_sdir sv2, t)]"]) (simp add: run_inv_def)
qed (simp_all)

text \<open>The loop ends, in a state that its iterations reach.\<close>

lemma solve_loop_ends:
  assumes en: "is_double en" "en \<le> MAX_RANGE"
  shows "run_inv en pt h n k start sc ts sv \<Longrightarrow>
     \<exists>ts' sv'. run_inv en pt h n k start sc ts' sv' \<and> solve_loop calc h en pt sv = Some (solve_step calc h en pt sv') \<and>
       (\<forall>x. solve_step calc h en pt sv' \<noteq> Continue x)"
proof (induction sv arbitrary: ts rule: wf_induct_rule [OF wf_solver_order [of en]])
  case (1 sv)
  show ?case
  proof (cases "solve_step calc h en pt sv")
    case (Continue sv')
    obtain ts' where "run_inv en pt h n k start sc ts' sv'" "(sv', sv) \<in> solver_order en"
      using solve_step_Continue [OF "1.prems" en Continue] by blast
    moreover have "solve_loop calc h en pt sv = solve_loop calc h en pt sv'" by (subst solve_loop.simps) (simp add: Continue)
    ultimately show ?thesis using "1.IH" by metis
  qed (use "1.prems" in \<open>auto simp: solve_loop.simps intro!: exI [of _ ts] exI [of _ sv]\<close>)
qed

lemma solver_start_simps [simp]:
  "so_sdir (solver_start h pos start en sc) = stepcompress_get_step_dir sc" "so_sc (solver_start h pos start en sc) = sc"
  "so_have_bracket (solver_start h pos start en sc) = False" "so_last_time (solver_start h pos start en sc) = start"
  "so_low_time (solver_start h pos start en sc) = start" "so_is_dir_change (solver_start h pos start en sc) = False"
  "so_high_time (solver_start h pos start en sc) = clip en (dadd start SEEK_TIME_RESET)"
  "so_guess (solver_start h pos start en sc) = \<lparr>tp_time = start, tp_position = pos\<rparr>"
  "so_old_guess (solver_start h pos start en sc) = \<lparr>tp_time = start, tp_position = pos\<rparr>"
  "so_target (solver_start h pos start en sc) = dadd pos (toward (stepcompress_get_step_dir sc) h)"
  by (simp_all add: solver_start_def Let_def)

text \<open>An empty range has no iteration.\<close>

lemma solve_empty:
  assumes "en \<le> start"
  shows "solve_loop calc h en pt (solver_start h pos start en sc) = Some (Break (solver_start h pos start en sc))"
proof -
  have "next_guess en (solver_start h pos start en sc) = None"
    using assms by (simp add: next_guess_def secant_def dsub_def fallback_guess_def)
  then show ?thesis by (subst solve_loop.simps) (simp add: solve_step_def)
qed

lemma start_place:
  assumes "on_grid h n" "\<bar>k\<bar> + 3 \<le> n"
  shows "at_place h k (solver_start h (of_int k * h) start en sc)"
proof -
  have "\<bar>if stepcompress_get_step_dir sc \<noteq> 0 then k + 1 else k - 1\<bar> \<le> n"
    using assms(2) by (cases "stepcompress_get_step_dir sc = 0"; simp; linarith)
  then have "is_double (of_int (if stepcompress_get_step_dir sc \<noteq> 0 then k + 1 else k - 1) * h)"
    using assms(1) unfolding on_grid_def by blast
  then show ?thesis
    by (simp add: at_place_def toward_def dadd_def is_double_def distrib_right left_diff_distrib split: if_splits)
qed

lemma run_inv_start:
  assumes en: "is_double en" "en \<le> MAX_RANGE" and start: "is_double start" "0 \<le> start" "start < en"
    and pos: "on_grid h n \<Longrightarrow> \<bar>k\<bar> + 3 \<le> n \<Longrightarrow> pos = of_int k * h"
  shows "run_inv en pt h n k start sc [] (solver_start h pos start en sc)"
proof -
  have grow: "start + 8 / 10000000000 < dadd start SEEK_TIME_RESET"
    by (rule seek_grows) (use start en CLOSE_less_SEEK in auto)
  then have "solver_inv en (solver_start h pos start en sc)"
    using start en by (auto simp: solver_inv_def clip_def)
  moreover have "at_place h k (solver_start h pos start en sc)" if "on_grid h n" "\<bar>k\<bar> + 3 \<le> n"
    using start_place [OF that] pos [OF that] by simp
  ultimately show ?thesis by (simp add: run_inv_def traced_def run_start)
qed

definition in_order :: "double \<Rightarrow> double \<Rightarrow> (int \<times> double) list \<Rightarrow> bool" where
  "in_order start en ts \<longleftrightarrow> sorted_wrt (<) (start # map snd ts) \<and> (\<forall>t \<in> set (map snd ts). t \<le> en)"

lemma run_inv_in_order: "run_inv en pt h n k start sc ts sv \<Longrightarrow> sc_run pt sc ts (so_sc sv) \<and> in_order start en ts"
proof -
  assume r: "run_inv en pt h n k start sc ts sv"
  then have "sorted_wrt (<) (start # map snd ts)" "last (start # map snd ts) \<le> en" "sc_run pt sc ts (so_sc sv)"
    by (auto simp: run_inv_def traced_def solver_inv_def)
  moreover have "t \<le> last (start # map snd ts)" if "t \<in> set (map snd ts)" for t
    using that calculation(1) by (cases ts rule: rev_cases) (auto simp: sorted_wrt_append less_imp_le)
  ultimately show ?thesis by (fastforce simp: in_order_def)
qed

text \<open>C5 (solver_returns). The search for the steps of a time range ends, for whatever function gives the
  position of the stepper, if the range ends within \<open>2\<^sup>2\<^sup>0\<close> seconds of the start of the move. By
  then it has submitted steps at strictly increasing times inside of the range, each accepted by
  the step compressor. It stops before the end of the range only if the compressor reports an
  error for a step of the range, or if the position function or the compressor has no defined
  result there.\<close>

theorem solver_returns:
  assumes en: "is_double en" "en \<le> MAX_RANGE" and start: "is_double start" "0 \<le> start"
  shows "\<exists>r ts sc1. solve_loop calc h en pt (solver_start h pos start en sc) = Some r \<and>
     sc_run pt sc ts sc1 \<and> in_order start en ts \<and>
     (case r of
        Break sv \<Rightarrow> so_sc sv = sc1
      | Return ret sv \<Rightarrow> ret \<noteq> 0 \<and> (\<exists>d t. in_order start en (ts @ [(d, t)]) \<and> stepcompress_append d pt t sc1 = Some (ret, so_sc sv))
      | Undefined \<Rightarrow> (\<exists>t. start < t \<and> t \<le> en \<and> calc t = None) \<or> stepcompress_commit sc1 = None \<or>
          (\<exists>d t. in_order start en (ts @ [(d, t)]) \<and> stepcompress_append d pt t sc1 = None)
      | Continue _ \<Rightarrow> False)"
proof (cases "start < en")
  case False
  then show ?thesis
    using solve_empty [of en start calc h pt pos sc]
    by (intro exI [of _ "Break (solver_start h pos start en sc)"] exI [of _ "[]"] exI [of _ sc]) (simp add: run_start in_order_def)
next
  case True
  have "run_inv en pt h (- 1) 0 start sc [] (solver_start h pos start en sc)"
    by (rule run_inv_start [OF en start True]) simp
  from solve_loop_ends [OF en this, of calc] obtain ts sv where inv: "run_inv en pt h (- 1) 0 start sc ts sv"
      and r: "solve_loop calc h en pt (solver_start h pos start en sc) = Some (solve_step calc h en pt sv)"
      and nc: "\<forall>x. solve_step calc h en pt sv \<noteq> Continue x" by blast
  have si: "solver_inv en sv" and tr: "sorted_wrt (<) (start # map snd ts)" "last (start # map snd ts) = so_last_time sv"
    using inv by (simp_all add: run_inv_def traced_def)
  have ge: "start \<le> so_last_time sv" using tr by (cases ts rule: rev_cases) auto
  note o = run_inv_in_order [OF inv]
  have guess: "start < t \<and> t \<le> en \<and> in_order start en (ts @ [(d, t)]) \<and> so_sc sv1 = so_sc sv"
    if "next_guess en sv = Some (t, sv1)" for t sv1 d
  proof -
    have g: "good_guess en sv t sv1" by (rule next_guess_good [OF si en that])
    then have "so_last_time sv < t" "t \<le> en" using si by (auto simp: good_guess_def solver_inv_def)
    then show ?thesis using o sorted_snoc [OF tr(1), of t] tr(2) ge good_guess_fields(4) [OF g] by (auto simp: in_order_def)
  qed
  show ?thesis
    using refl [of "solve_step calc h en pt sv"]
  proof (cases rule: solve_step_elim)
    case break
    then show ?thesis using r o by (intro exI [of _ "Break sv"] exI [of _ ts] exI [of _ "so_sc sv"]) simp
  next
    case (undef t sv1)
    then show ?thesis using r o guess by (intro exI [of _ Undefined] exI [of _ ts] exI [of _ "so_sc sv"]) auto
  next
    case (again t sv1 p rel)
    then have "solve_step calc h en pt sv = Undefined" "stepcompress_commit (so_sc sv) = None"
      using nc guess [OF again(1)] by (auto simp: commit_step_def split: if_splits option.splits)
    then show ?thesis using r o by (intro exI [of _ Undefined] exI [of _ ts] exI [of _ "so_sc sv"]) simp
  next
    case (found t sv1 p sv2 rel)
    have s: "so_sc sv2 = so_sc sv" "tp_time (so_guess sv2) = t" using found(3) guess [OF found(1)] by auto
    show ?thesis
    proof (cases "stepcompress_append (so_sdir sv2) pt t (so_sc sv)")
      case None
      then have "solve_step calc h en pt sv = Undefined" using found(4) s by (simp add: submit_step_def)
      then show ?thesis using r o None guess [OF found(1)] by (intro exI [of _ Undefined] exI [of _ ts] exI [of _ "so_sc sv"]) auto
    next
      case (Some a)
      obtain ret sc' where a: "stepcompress_append (so_sdir sv2) pt t (so_sc sv) = Some (ret, sc')" using Some by (cases a) simp
      then have "ret \<noteq> 0" "solve_step calc h en pt sv = Return ret (sv2\<lparr>so_sc := sc'\<rparr>)"
        using found(4) s nc by (auto simp: submit_step_def split: if_splits)
      then show ?thesis
        using r o a guess [OF found(1)] by (intro exI [of _ "Return ret (sv2\<lparr>so_sc := sc'\<rparr>)"] exI [of _ ts] exI [of _ "so_sc sv"]) auto
    qed
  qed
qed

definition idle_sc :: stepcompress where
  "idle_sc = stepcompress_set_time 0 16000000 (stepcompress_fill 25 5 6 (stepcompress_alloc 3))"

theorem solver_returns_witness:
  "\<exists>r. solve_loop (\<lambda>t. Some (t * 3)) (1 / 2) 4 1 (solver_start (1 / 2) 0 1 4 idle_sc) = Some r"
proof -
  have "is_double 4" "is_double 1" using rnd_int [of 4] rnd_int [of 1] by (simp_all add: is_double_def)
  then show ?thesis using solver_returns [of 4 1 "\<lambda>t. Some (t * 3)" "1 / 2" 1 0 idle_sc] by (auto simp: MAX_RANGE_def)
qed

section \<open>The commanded position\<close>

lemma is_double_range [simp]: "is_double (range_start m a)" "is_double (tm_move_t m) \<Longrightarrow> is_double (range_end m b)"
  by (simp_all add: range_start_def range_end_def Let_def)

lemma range_start_nonneg [simp]: "0 \<le> range_start m a"
  by (simp add: range_start_def Let_def)

lemma solve_step_result:
  "solve_step calc h en pt sv = Break sv' \<Longrightarrow> sv' = sv" "solve_step calc h en pt sv = Return ret sv' \<Longrightarrow> ret \<noteq> 0"
  by (erule solve_step_elim; auto simp: commit_step_def submit_step_def split: option.splits if_splits)+

lemma place_back:
  assumes "on_grid h n" "\<bar>k\<bar> + 3 \<le> n" "at_place h k sv"
  shows "dsub (so_target sv) (toward (so_sdir sv) h) = of_int k * h"
proof -
  have "so_target sv - toward (so_sdir sv) h = of_int k * h" using assms(3)
    by (simp add: at_place_def toward_def distrib_right left_diff_distrib split: if_splits)
  moreover have "is_double (of_int k * h)" using assms(1,2) by (simp add: on_grid_def)
  ultimately show ?thesis by (simp only: dsub_def is_double_def)
qed

lemma solve_loop_final:
  assumes en: "is_double en" "en \<le> MAX_RANGE" and start: "is_double start" "0 \<le> start"
    and grid: "on_grid h n" "pos = of_int k * h"
  shows "\<exists>ts sv r. solve_loop calc h en pt (solver_start h pos start en sc) = Some r \<and>
     sc_run pt sc ts (so_sc sv) \<and> in_order start en ts \<and>
     (\<bar>k\<bar> + 2 * int (length ts) + 3 \<le> n \<longrightarrow> at_place h (k + 2 * net_steps ts) sv) \<and>
     (\<forall>sv'. r = Break sv' \<longrightarrow> sv' = sv) \<and> (\<forall>ret sv'. r = Return ret sv' \<longrightarrow> ret \<noteq> 0)"
proof (cases "start < en")
  case False
  then show ?thesis
    using solve_empty [of en start calc h pt pos sc] start_place [OF grid(1), of k] grid(2)
    by (intro exI [of _ "[]"] exI [of _ "solver_start h pos start en sc"]) (simp add: run_start in_order_def)
next
  case True
  have "run_inv en pt h n k start sc [] (solver_start h pos start en sc)"
    by (rule run_inv_start [OF en start True grid(2)])
  from solve_loop_ends [OF en this, of calc] obtain ts sv where inv: "run_inv en pt h n k start sc ts sv"
      and r: "solve_loop calc h en pt (solver_start h pos start en sc) = Some (solve_step calc h en pt sv)" by blast
  have "\<bar>k\<bar> + 2 * int (length ts) + 3 \<le> n \<longrightarrow> at_place h (k + 2 * net_steps ts) sv"
    using inv grid(1) by (simp add: run_inv_def)
  then show ?thesis using r run_inv_in_order [OF inv] solve_step_result [of calc h en pt sv] by blast
qed

text \<open>For a step distance whose multiples are doubles, as one with few significant bits: when the steps
  of a range have been generated, the stepper's commanded position has moved by exactly the step
  distance for every step submitted, forward or back by its direction; changes of the direction in
  the search leave no trace in it. For other step distances the additions round.\<close>

lemma position_follows_steps:
  assumes m: "rd ms i = Some m" "is_double (tm_move_t m)" "range_end m abs_end \<le> MAX_RANGE"
    and gen: "itersolve_gen_steps_range ms i abs_start abs_end sk sc = Some (0, sk', sc')" and post: "sk_post_cb sk = None"
    and h: "h = dmul (1 / 2) (sk_step_dist sk)" "on_grid h n" "sk_commanded_pos sk = of_int k * h"
  shows "\<exists>ts. sc_run (tm_print_time m) sc ts sc' \<and> in_order (range_start m abs_start) (range_end m abs_end) ts \<and>
     (\<bar>k\<bar> + 2 * int (length ts) + 3 \<le> n \<longrightarrow>
        sk_commanded_pos sk' = sk_commanded_pos sk + of_int (net_steps ts) * (2 * h))"
proof -
  define en where "en = range_end m abs_end"
  define start where "start = range_start m abs_start"
  define calc where "calc = sk_calc_position_cb sk (sk_commanded_pos sk) ms i"
  let ?sv0 = "solver_start h (sk_commanded_pos sk) start en sc" and ?pt = "tm_print_time m"
  have en: "is_double en" "en \<le> MAX_RANGE" and start: "is_double start" "0 \<le> start" using m by (simp_all add: en_def start_def)
  obtain ts sv r where r: "solve_loop calc h en ?pt ?sv0 = Some r" "sc_run ?pt sc ts (so_sc sv)" "in_order start en ts"
      and place: "\<bar>k\<bar> + 2 * int (length ts) + 3 \<le> n \<longrightarrow> at_place h (k + 2 * net_steps ts) sv"
      and res: "\<forall>sv'. r = Break sv' \<longrightarrow> sv' = sv" "\<forall>ret sv'. r = Return ret sv' \<longrightarrow> ret \<noteq> 0"
    using solve_loop_final [OF en start h(2,3), of calc ?pt sc] by blast
  have gen': "(case r of Break sv \<Rightarrow> Some (0, sk\<lparr>sk_commanded_pos := dsub (so_target sv) (toward (so_sdir sv) h)\<rparr>, so_sc sv)
      | Return ret sv \<Rightarrow> Some (ret, sk, so_sc sv) | _ \<Rightarrow> None) = Some (0, sk', sc')"
    using gen r(1) by (simp add: itersolve_gen_steps_range_def m post h(1) en_def start_def calc_def Let_def split: solved.splits)
  then have f: "sc' = so_sc sv" "sk_commanded_pos sk' = dsub (so_target sv) (toward (so_sdir sv) h)"
    using res by (auto split: solved.splits)
  have "sk_commanded_pos sk' = sk_commanded_pos sk + of_int (net_steps ts) * (2 * h)" if "\<bar>k\<bar> + 2 * int (length ts) + 3 \<le> n"
  proof -
    have "sk_commanded_pos sk' = of_int (k + 2 * net_steps ts) * h"
      unfolding f(2) using place that place_bound [OF that] by (intro place_back [OF h(2)]) auto
    then show ?thesis using h(3) by (simp add: distrib_right)
  qed
  then show ?thesis using r(2,3) f(1) by (auto simp: en_def start_def)
qed

section \<open>A stepper at rest\<close>

definition resting :: "double \<Rightarrow> int \<Rightarrow> stepcompress \<Rightarrow> solver \<Rightarrow> bool" where
  "resting h k sc sv \<longleftrightarrow>
     \<not> so_have_bracket sv \<and> \<not> so_is_dir_change sv \<and> so_sc sv = sc \<and> at_place h k sv \<and>
     tp_position (so_guess sv) = of_int k * h \<and> tp_position (so_old_guess sv) = of_int k * h"

lemma resting_step:
  assumes rest: "resting h k sc sv" and grid: "on_grid h n" "\<bar>k\<bar> + 3 \<le> n" and h: "CLOSE < h"
    and idle: "sc_next_step_clock sc = 0" and calc: "\<And>t. calc t = Some (of_int k * h)"
  shows "(solve_step calc h en pt sv = Break sv) \<or> (\<exists>sv'. solve_step calc h en pt sv = Continue sv' \<and> resting h k sc sv')"
proof (cases "en \<le> tp_time (so_guess sv)")
  case True
  then have "next_guess en sv = None" using rest by (simp add: next_guess_def secant_def dsub_def fallback_guess_def resting_def)
  then show ?thesis by (simp add: solve_step_def)
next
  case False
  define sv1 where "sv1 = sv\<lparr>so_high_time := clip en (dsub (dmul 2 (so_high_time sv)) (so_last_time sv))\<rparr>"
  define t where "t = so_high_time sv"
  have g: "next_guess en sv = Some (t, sv1)"
    using False rest by (simp add: next_guess_def secant_def dsub_def fallback_guess_def resting_def sv1_def t_def)
  have r1: "resting h k sc sv1" using rest by (simp add: resting_def at_place_def sv1_def)
  have grid': "is_double (of_int j * h)" if "\<bar>j\<bar> \<le> 2" for j using grid that by (simp add: on_grid_def)
  have h': "rnd h = h" "rnd (h + h) = 2 * h" "rnd (h + h + TURN) \<ge> h"
  proof -
    show "rnd h = h" "rnd (h + h) = 2 * h" using grid' [of 1] grid' [of 2] by (simp_all add: is_double_def)
    have "0 \<le> TURN" unfolding TURN_def by (rule rnd_nonneg) simp
    then show "rnd (h + h + TURN) \<ge> h" using grid' [of 1] h CLOSE_bounds by (intro rnd_lower) auto
  qed
  define d where "d = dsub (of_int k * h) (so_target sv1)"
  have d: "d = - toward (so_sdir sv1) h"
    using r1 h'(1) by (simp add: resting_def at_place_def d_def dsub_def toward_def distrib_right left_diff_distrib split: if_splits)
  define sv2 where "sv2 = (note_position t (of_int k * h) sv1)\<lparr>so_low_time := t\<rparr>"
  have rel: "toward (so_sdir sv1) d = - h" "\<bar>d\<bar> = h" using d h CLOSE_bounds by (auto simp: toward_def)
  have "update_bounds h (- h) (note_position t (of_int k * h) sv1) = sv2"
    using h CLOSE_bounds h' by (simp add: update_bounds_def Let_def sv2_def dadd_def)
  moreover have "guess_again sv2" using r1 by (simp add: guess_again_def sv2_def resting_def)
  moreover have "commit_step h (- h) sv2 = Continue sv2"
    using r1 idle by (simp add: commit_step_def sv2_def resting_def stepcompress_commit_def note_position_def)
  ultimately have "solve_step calc h en pt sv = Continue sv2"
    using rel h unfolding solve_step_def g calc option.case prod.case Let_def note_position_simps d_def [symmetric] by simp
  moreover have "resting h k sc sv2" using r1 by (simp add: resting_def at_place_def sv2_def note_position_def)
  ultimately show ?thesis by blast
qed

lemma resting_loop:
  assumes grid: "on_grid h n" "\<bar>k\<bar> + 3 \<le> n" and h: "CLOSE < h"
    and idle: "sc_next_step_clock sc = 0" and calc: "\<And>t. calc t = Some (of_int k * h)"
    and en: "is_double en" "en \<le> MAX_RANGE"
  shows "run_inv en pt h n' k' start sc' ts sv \<Longrightarrow> resting h k sc sv \<Longrightarrow>
     \<exists>sv'. solve_loop calc h en pt sv = Some (Break sv') \<and> resting h k sc sv'"
proof (induction sv arbitrary: ts rule: wf_induct_rule [OF wf_solver_order [of en]])
  case (1 sv)
  from resting_step [OF "1.prems"(2) grid h idle calc, where en = en and pt = pt] show ?case
  proof
    assume "solve_step calc h en pt sv = Break sv"
    then show ?thesis using "1.prems"(2) by (subst solve_loop.simps) simp
  next
    assume "\<exists>sv'. solve_step calc h en pt sv = Continue sv' \<and> resting h k sc sv'"
    then obtain sv' where s: "solve_step calc h en pt sv = Continue sv'" "resting h k sc sv'" by blast
    obtain ts' where "run_inv en pt h n' k' start sc' ts' sv'" "(sv', sv) \<in> solver_order en"
      using solve_step_Continue [OF "1.prems"(1) en s(1)] by blast
    moreover have "solve_loop calc h en pt sv = solve_loop calc h en pt sv'" by (subst solve_loop.simps) (simp add: s(1))
    ultimately show ?thesis using "1.IH" s(2) by metis
  qed
qed

text \<open>While the position of a stepper stays where it was commanded to, a range returns without an error,
  submits nothing and changes nothing.\<close>

lemma rest_gen_range:
  assumes m: "rd ms i = Some m" "is_double (tm_move_t m)" "range_end m abs_end \<le> MAX_RANGE"
    and h: "h = dmul (1 / 2) (sk_step_dist sk)" "CLOSE < h" "on_grid h n" "sk_commanded_pos sk = of_int k * h" "\<bar>k\<bar> + 3 \<le> n"
    and rest: "\<And>t. sk_calc_position_cb sk (sk_commanded_pos sk) ms i t = Some (sk_commanded_pos sk)" "sk_post_cb sk = None"
    and idle: "sc_next_step_clock sc = 0"
  shows "itersolve_gen_steps_range ms i abs_start abs_end sk sc = Some (0, sk, sc)"
proof -
  define en where "en = range_end m abs_end"
  define start where "start = range_start m abs_start"
  define calc where "calc = sk_calc_position_cb sk (sk_commanded_pos sk) ms i"
  let ?sv0 = "solver_start h (of_int k * h) start en sc"
  have en: "is_double en" "en \<le> MAX_RANGE" and start: "is_double start" "0 \<le> start" using m by (simp_all add: en_def start_def)
  have "at_place h k ?sv0" by (rule start_place [OF h(3,5)])
  then have r0: "resting h k sc ?sv0" by (simp add: resting_def)
  have "\<exists>sv. solve_loop calc h en (tm_print_time m) ?sv0 = Some (Break sv) \<and> resting h k sc sv"
  proof (cases "start < en")
    case True
    have ri: "run_inv en (tm_print_time m) h n k start sc [] ?sv0" by (rule run_inv_start [OF en start True refl])
    have c: "\<And>t. calc t = Some (of_int k * h)" using rest(1) h(4) by (simp add: calc_def)
    from resting_loop [OF h(3,5,2) idle c en ri r0] show ?thesis .
  qed (use r0 solve_empty [of en start] in auto)
  then obtain sv where sv: "solve_loop calc h en (tm_print_time m) ?sv0 = Some (Break sv)" "resting h k sc sv" by blast
  then have "dsub (so_target sv) (toward (so_sdir sv) h) = sk_commanded_pos sk"
    using place_back [OF h(3,5)] h(4) by (simp add: resting_def)
  then show ?thesis
    using sv by (simp add: itersolve_gen_steps_range_def m rest(2) h(1) [symmetric] h(4) [symmetric] en_def start_def calc_def Let_def resting_def)
qed

definition example_sk :: stepper_kinematics where
  "example_sk = \<lparr>sk_step_dist = 1, sk_commanded_pos = 0, sk_last_flush_time = 0, sk_last_move_time = 0, sk_tq = Some 0,
     sk_active_flags = 1, sk_gen_steps_pre_active = 0, sk_gen_steps_post_active = 0,
     sk_calc_position_cb = (\<lambda>pos ms i t. Some 0), sk_post_cb = None\<rparr>"

definition example_move :: trap_move where
  "example_move = trap_move_alloc\<lparr>tm_move_t := 2\<rparr>"

lemma example_grid: "dmul (1 / 2) 1 = 1 / 2" "on_grid (1 / 2) (2 ^ 53)"
proof -
  show g: "on_grid (1 / 2) (2 ^ 53)" unfolding on_grid_def is_double_def using rnd_exact [of _ "- 1"] by (simp add: power_int_def)
  show "dmul (1 / 2) 1 = 1 / 2" using g unfolding on_grid_def is_double_def dmul_def by (metis abs_1 mult_1 mult_1_right of_int_1 one_le_numeral one_le_power)
qed

lemma example_move_simps: "is_double (tm_move_t example_move)" "range_end example_move t \<le> MAX_RANGE"
  using rnd_int [of 2] by (simp_all add: example_move_def trap_move_alloc_def is_double_def range_end_def Let_def MAX_RANGE_def)

lemma CLOSE_half: "CLOSE < 1 / 2"
  using CLOSE_bounds by linarith

end
