(* ===== verification/Generate.thy ===== *)
theory Generate
  imports Itersolve Steppersync
begin

text \<open>
  Step generation over the queue of moves: the interface functions of
  \<^verbatim>\<open>src/klippy/chelper/itersolve.c\<close>, and their callers \<^verbatim>\<open>stepcompress_generate_steps\<close> and
  \<^verbatim>\<open>steppersync_generate_steps\<close>. The kinematics objects and the move queues are C objects named by
  numbers; a queue is shared by the steppers of an axis. Moves are walked by their index in the
  linked list, from the head to the tail sentinel; a step past either end is undefined. Shown are
  that the walk never leaves the list, and that the time ranges handed to the solver are in order
  and do not overlap.
\<close>

section \<open>Operations\<close>

definition AF_X :: u32 where "AF_X = 1"
definition AF_Y :: u32 where "AF_Y = 2"
definition AF_Z :: u32 where "AF_Z = 4"

definition check_active :: "u32 \<Rightarrow> trap_move \<Rightarrow> bool" where
  "check_active af m \<longleftrightarrow>
     (and af AF_X \<noteq> 0 \<and> co_x (tm_axes_r m) \<noteq> 0) \<or> (and af AF_Y \<noteq> 0 \<and> co_y (tm_axes_r m) \<noteq> 0) \<or>
     (and af AF_Z \<noteq> 0 \<and> co_z (tm_axes_r m) \<noteq> 0)"

text \<open>The loop to the first move that has not ended; the argument list starts at the index.\<close>

fun skip_ended :: "double \<Rightarrow> trap_move list \<Rightarrow> nat \<Rightarrow> nat option" where
  "skip_ended t [] i = None"
| "skip_ended t (m # ms) i = (if move_end m \<le> t then skip_ended t ms (Suc i) else Some i)"

text \<open>The loop \<^verbatim>\<open>while (--skip_count && pm->print_time > abs_start)\<close>, which is entered with a positive count.\<close>

fun back_up :: "trap_move list \<Rightarrow> double \<Rightarrow> nat \<Rightarrow> nat \<Rightarrow> nat option" where
  "back_up ms abs_start 0 pm = None"
| "back_up ms abs_start (Suc n) pm =
     (if n = 0 then Some pm
      else do {
        m \<leftarrow> rd ms pm;
        if abs_start < tm_print_time m then if pm = 0 then None else back_up ms abs_start n (pm - 1)
        else Some pm })"

text \<open>The loop \<^verbatim>\<open>do ... while (pm != m)\<close>.\<close>

function range_loop ::
  "trap_move list \<Rightarrow> nat \<Rightarrow> nat \<Rightarrow> double \<Rightarrow> double \<Rightarrow> stepper_kinematics \<Rightarrow> stepcompress \<Rightarrow>
   (int \<times> stepper_kinematics \<times> stepcompress) option" where
  "range_loop ms pm i abs_start flush_time sk sc =
     (if length ms \<le> pm then None
      else do {
        (ret, sk, sc) \<leftarrow> itersolve_gen_steps_range ms pm abs_start flush_time sk sc;
        if ret \<noteq> 0 then Some (ret, sk, sc)
        else if Suc pm = i then Some (0, sk, sc)
        else range_loop ms (Suc pm) i abs_start flush_time sk sc })"
  by pat_completeness auto
termination
  by (relation "measure (\<lambda>(ms, pm, _). length ms - pm)") auto

declare range_loop.simps [simp del]

text \<open>The steps leading up to an active move, when moves were skipped before it.\<close>

definition pre_active ::
  "trap_move list \<Rightarrow> nat \<Rightarrow> double \<Rightarrow> nat \<Rightarrow> double \<Rightarrow> double \<Rightarrow> stepper_kinematics \<Rightarrow> stepcompress \<Rightarrow>
   (int \<times> stepper_kinematics \<times> stepcompress) option" where
  "pre_active ms i force skip last_flush flush sk sc =
     (if skip \<noteq> 0 \<and> sk_gen_steps_pre_active sk \<noteq> 0 then do {
        m \<leftarrow> rd ms i;
        let abs_start = dsub (tm_print_time m) (sk_gen_steps_pre_active sk);
        let abs_start = (if abs_start < last_flush then last_flush else abs_start);
        let abs_start = (if abs_start < force then force else abs_start);
        pm \<leftarrow> (if i = 0 then None else back_up ms abs_start skip (i - 1));
        range_loop ms pm i abs_start flush sk sc }
      else Some (0, sk, sc))"

text \<open>The main loop of \<^verbatim>\<open>itersolve_generate_steps\<close>.\<close>

function gen_loop ::
  "trap_move list \<Rightarrow> nat \<Rightarrow> double \<Rightarrow> nat \<Rightarrow> double \<Rightarrow> double \<Rightarrow> stepper_kinematics \<Rightarrow> stepcompress \<Rightarrow>
   (int \<times> stepper_kinematics \<times> stepcompress) option" where
  "gen_loop ms i force skip last_flush flush sk sc =
     (if length ms \<le> i then None
      else if check_active (sk_active_flags sk) (ms ! i) then do {
        (ret, sk, sc) \<leftarrow> pre_active ms i force skip last_flush flush sk sc;
        if ret \<noteq> 0 then Some (ret, sk, sc)
        else do {
          (ret, sk, sc) \<leftarrow> itersolve_gen_steps_range ms i last_flush flush sk sc;
          if ret \<noteq> 0 then Some (ret, sk, sc)
          else if flush \<le> move_end (ms ! i) then Some (0, sk\<lparr>sk_last_move_time := flush\<rparr>, sc)
          else gen_loop ms (Suc i) (dadd (move_end (ms ! i)) (sk_gen_steps_post_active sk)) 0 last_flush flush
                 (sk\<lparr>sk_last_move_time := move_end (ms ! i)\<rparr>) sc } }
      else if tm_print_time (ms ! i) < force then do {
        (ret, sk, sc) \<leftarrow> itersolve_gen_steps_range ms i last_flush (clip flush force) sk sc;
        if ret \<noteq> 0 then Some (ret, sk, sc)
        else if dadd flush (sk_gen_steps_pre_active sk) \<le> move_end (ms ! i) then Some (0, sk, sc)
        else gen_loop ms (Suc i) force 1 last_flush flush sk sc }
      else if dadd flush (sk_gen_steps_pre_active sk) \<le> move_end (ms ! i) then Some (0, sk, sc)
      else gen_loop ms (Suc i) force (Suc skip) last_flush flush sk sc)"
  by pat_completeness auto
termination
  by (relation "measure (\<lambda>(ms, i, _). length ms - i)") auto

declare gen_loop.simps [simp del]

definition itersolve_generate_steps ::
  "double \<Rightarrow> stepper_kinematics \<Rightarrow> stepcompress \<Rightarrow> (nat \<Rightarrow> trapq) \<Rightarrow>
   (int \<times> stepper_kinematics \<times> stepcompress \<times> (nat \<Rightarrow> trapq)) option" where
  "itersolve_generate_steps flush_time sk sc tqs =
     (let last_flush_time = sk_last_flush_time sk; sk = sk\<lparr>sk_last_flush_time := flush_time\<rparr> in
      case sk_tq sk of
        None \<Rightarrow> Some (0, sk, sc, tqs)
      | Some q \<Rightarrow> do {
          let tq = trapq_check_sentinels (tqs q);
          i \<leftarrow> skip_ended last_flush_time (tq_all tq) 0;
          (ret, sk, sc) \<leftarrow> gen_loop (tq_all tq) i (dadd (sk_last_move_time sk) (sk_gen_steps_post_active sk)) 0
                            last_flush_time flush_time sk sc;
          Some (ret, sk, sc, tqs(q := tq)) })"

fun active_loop :: "u32 \<Rightarrow> double \<Rightarrow> trap_move list \<Rightarrow> double option" where
  "active_loop af flush_time [] = None"
| "active_loop af flush_time (m # ms) =
     (if check_active af m then Some (tm_print_time m)
      else if flush_time \<le> move_end m then Some 0
      else active_loop af flush_time ms)"

definition itersolve_check_active :: "double \<Rightarrow> stepper_kinematics \<Rightarrow> (nat \<Rightarrow> trapq) \<Rightarrow> (double \<times> (nat \<Rightarrow> trapq)) option" where
  "itersolve_check_active flush_time sk tqs =
     (case sk_tq sk of
        None \<Rightarrow> Some (0, tqs)
      | Some q \<Rightarrow> do {
          let tq = trapq_check_sentinels (tqs q);
          i \<leftarrow> skip_ended (sk_last_flush_time sk) (tq_all tq) 0;
          t \<leftarrow> active_loop (sk_active_flags sk) flush_time (drop i (tq_all tq));
          Some (t, tqs(q := tq)) })"

definition itersolve_is_active_axis :: "char \<Rightarrow> stepper_kinematics \<Rightarrow> bool" where
  "itersolve_is_active_axis axis sk =
     (let a = of_char axis :: nat; x = of_char CHR ''x'' in
      if a < x \<or> of_char CHR ''z'' < a then False else and (sk_active_flags sk) (push_bit (a - x) AF_X) \<noteq> 0)"

definition itersolve_set_trapq :: "nat option \<Rightarrow> double \<Rightarrow> stepper_kinematics \<Rightarrow> stepper_kinematics" where
  "itersolve_set_trapq tq step_dist sk = sk\<lparr>sk_tq := tq, sk_step_dist := step_dist\<rparr>"

definition itersolve_calc_position_from_coord :: "coord \<Rightarrow> stepper_kinematics \<Rightarrow> double option" where
  "itersolve_calc_position_from_coord pos sk =
     sk_calc_position_cb sk (sk_commanded_pos sk) [trap_move_alloc\<lparr>tm_start_pos := pos, tm_move_t := 1000\<rparr>] 0 500"

definition itersolve_set_position :: "coord \<Rightarrow> stepper_kinematics \<Rightarrow> stepper_kinematics option" where
  "itersolve_set_position pos sk = do {
     p \<leftarrow> itersolve_calc_position_from_coord pos sk; Some (sk\<lparr>sk_commanded_pos := p\<rparr>) }"

definition itersolve_get_commanded_pos :: "stepper_kinematics \<Rightarrow> double" where
  "itersolve_get_commanded_pos sk = sk_commanded_pos sk"

subsection \<open>Callers\<close>

text \<open>The objects that the step compressors of a microcontroller refer to.\<close>

record kin_objects =
  ko_sks :: "nat \<Rightarrow> stepper_kinematics"
  ko_tqs :: "nat \<Rightarrow> trapq"

definition stepcompress_generate_steps ::
  "double \<Rightarrow> u64 \<Rightarrow> stepcompress \<Rightarrow> kin_objects \<Rightarrow> (int \<times> stepcompress \<times> kin_objects) option" where
  "stepcompress_generate_steps gen_steps_time flush_clock sc ko =
     (case sc_sk sc of
        None \<Rightarrow> Some (0, sc, ko)
      | Some k \<Rightarrow> do {
          (ret, sk, sc, tqs) \<leftarrow> itersolve_generate_steps gen_steps_time (ko_sks ko k) sc (ko_tqs ko);
          let ko = ko\<lparr>ko_sks := (ko_sks ko)(k := sk), ko_tqs := tqs\<rparr>;
          if ret \<noteq> 0 then Some (ret, sc, ko)
          else do { (ret, sc) \<leftarrow> stepcompress_flush flush_clock sc; Some (ret, sc, ko) } })"

text \<open>The loop stops at the first object that reports an error.\<close>

fun generate_loop ::
  "double \<Rightarrow> u64 \<Rightarrow> stepcompress list \<Rightarrow> kin_objects \<Rightarrow> (int \<times> stepcompress list \<times> kin_objects) option" where
  "generate_loop time flush_clock [] ko = Some (0, [], ko)"
| "generate_loop time flush_clock (sc # rest) ko = do {
     (ret, sc, ko) \<leftarrow> stepcompress_generate_steps time flush_clock sc ko;
     if ret \<noteq> 0 then Some (ret, sc # rest, ko)
     else do { (ret, rest, ko) \<leftarrow> generate_loop time flush_clock rest ko; Some (ret, sc # rest, ko) } }"

definition steppersync_generate_steps ::
  "double \<Rightarrow> u64 \<Rightarrow> steppersync \<Rightarrow> kin_objects \<Rightarrow> (int \<times> steppersync \<times> kin_objects) option" where
  "steppersync_generate_steps gen_steps_time flush_clock ss ko = do {
     (ret, scs, ko) \<leftarrow> generate_loop gen_steps_time flush_clock (ss_sc_list ss) ko;
     Some (ret, ss\<lparr>ss_sc_list := scs\<rparr>, ko) }"

section \<open>The ranges handed to the solver\<close>

text \<open>A range is the index of a move and the two absolute times. The solver is run on one after the other;
  in between only the time of the last move is noted.\<close>

inductive ranges_run ::
  "trap_move list \<Rightarrow> stepper_kinematics \<Rightarrow> stepcompress \<Rightarrow> (nat \<times> double \<times> double) list \<Rightarrow> stepper_kinematics \<Rightarrow> stepcompress \<Rightarrow> bool"
  for ms sk0 sc0 where
  ranges_start: "ranges_run ms sk0 sc0 [] sk0 sc0"
| ranges_note: "ranges_run ms sk0 sc0 cs sk sc \<Longrightarrow> ranges_run ms sk0 sc0 cs (sk\<lparr>sk_last_move_time := t\<rparr>) sc"
| ranges_call: "ranges_run ms sk0 sc0 cs sk sc \<Longrightarrow> itersolve_gen_steps_range ms j a b sk sc = Some (0, sk', sc') \<Longrightarrow>
     ranges_run ms sk0 sc0 (cs @ [(j, a, b)]) sk' sc'"

fun before :: "nat \<times> double \<times> double \<Rightarrow> nat \<times> double \<times> double \<Rightarrow> bool" where
  "before (i, a, b) (j, c, d) \<longleftrightarrow> i < j \<or> i = j \<and> b \<le> c"

lemma before_fst: "before c (j, a, b) \<Longrightarrow> fst c \<le> j" "fst c < j \<Longrightarrow> before c (j, a, b)"
  by (cases c, auto)+

definition in_turn :: "nat \<Rightarrow> double \<Rightarrow> double \<Rightarrow> (nat \<times> double \<times> double) list \<Rightarrow> bool" where
  "in_turn n last_flush flush cs \<longleftrightarrow>
     sorted_wrt before cs \<and> (\<forall>(j, a, b) \<in> set cs. j < n \<and> last_flush \<le> a \<and> b \<le> flush)"

lemma in_turn_append:
  "in_turn n l f (cs @ [(j, a, b)]) \<longleftrightarrow> in_turn n l f cs \<and> j < n \<and> l \<le> a \<and> b \<le> f \<and> (\<forall>c \<in> set cs. before c (j, a, b))"
  by (auto simp: in_turn_def sorted_wrt_append)

text \<open>The run stops at a range that has no result or reports an error.\<close>

definition stopped ::
  "trap_move list \<Rightarrow> stepper_kinematics \<Rightarrow> stepcompress \<Rightarrow> double \<Rightarrow> double \<Rightarrow> (int \<times> stepper_kinematics \<times> stepcompress) option \<Rightarrow> bool" where
  "stopped ms sk0 sc0 last_flush flush r \<longleftrightarrow>
     (\<exists>cs sk sc j a b. ranges_run ms sk0 sc0 cs sk sc \<and> in_turn (length ms) last_flush flush (cs @ [(j, a, b)]) \<and>
        r = itersolve_gen_steps_range ms j a b sk sc \<and> (\<forall>sk' sc'. r \<noteq> Some (0, sk', sc')))"

definition completed ::
  "trap_move list \<Rightarrow> stepper_kinematics \<Rightarrow> stepcompress \<Rightarrow> double \<Rightarrow> double \<Rightarrow> (nat \<times> double \<times> double) list \<Rightarrow>
   (int \<times> stepper_kinematics \<times> stepcompress) option \<Rightarrow> bool" where
  "completed ms sk0 sc0 last_flush flush cs r \<longleftrightarrow>
     (\<exists>sk sc. r = Some (0, sk, sc) \<and> ranges_run ms sk0 sc0 cs sk sc \<and> in_turn (length ms) last_flush flush cs)"

definition same_settings :: "stepper_kinematics \<Rightarrow> stepper_kinematics \<Rightarrow> bool" where
  "same_settings sk sk' \<longleftrightarrow>
     sk_active_flags sk' = sk_active_flags sk \<and> sk_gen_steps_pre_active sk' = sk_gen_steps_pre_active sk \<and>
     sk_gen_steps_post_active sk' = sk_gen_steps_post_active sk \<and> sk_last_flush_time sk' = sk_last_flush_time sk"

lemma gen_range_settings: "itersolve_gen_steps_range ms j a b sk sc = Some (ret, sk', sc') \<Longrightarrow> same_settings sk sk'"
  by (auto simp: itersolve_gen_steps_range_def same_settings_def Let_def split: Option.bind_splits solved.splits option.splits)

lemma ranges_settings: "ranges_run ms sk0 sc0 cs sk sc \<Longrightarrow> same_settings sk0 sk"
proof (induction rule: ranges_run.induct)
  case (ranges_call cs sk sc j a b sk' sc')
  then show ?case using gen_range_settings [OF ranges_call.hyps(2)] by (simp add: same_settings_def)
qed (simp_all add: same_settings_def)

text \<open>One range: it stops the run or extends it.\<close>

lemma range_step:
  assumes "ranges_run ms sk0 sc0 cs sk sc" "in_turn (length ms) l f (cs @ [(j, a, b)])"
    and r: "itersolve_gen_steps_range ms j a b sk sc = r"
  obtains (stop) "stopped ms sk0 sc0 l f r" "\<And>sk' sc'. r \<noteq> Some (0, sk', sc')"
  | (call) sk' sc' where "r = Some (0, sk', sc')" "ranges_run ms sk0 sc0 (cs @ [(j, a, b)]) sk' sc'"
proof (cases "\<exists>sk' sc'. r = Some (0, sk', sc')")
  case True
  then show thesis using call assms ranges_call by blast
next
  case False
  then show thesis using stop assms unfolding stopped_def by blast
qed

lemma range_loop_result:
  assumes "ranges_run ms sk0 sc0 cs sk sc" "in_turn (length ms) l f cs" "pm < i" "i \<le> length ms" "l \<le> a"
    and "\<forall>c \<in> set cs. before c (pm, a, f)"
  shows "stopped ms sk0 sc0 l f (range_loop ms pm i a f sk sc) \<or>
     (\<exists>cs'. completed ms sk0 sc0 l f cs' (range_loop ms pm i a f sk sc) \<and> (\<forall>c \<in> set cs'. fst c < i) \<and> (\<exists>cs''. cs' = cs @ cs''))"
  using assms
proof (induction "i - pm" arbitrary: pm cs sk sc)
  case (Suc k)
  have turn: "in_turn (length ms) l f (cs @ [(pm, a, f)])" using Suc.prems by (simp add: in_turn_append)
  have lt: "\<not> length ms \<le> pm" using Suc.prems by simp
  show ?case
  proof (cases rule: range_step [OF Suc.prems(1) turn refl])
    case 1
    have "range_loop ms pm i a f sk sc = itersolve_gen_steps_range ms pm a f sk sc"
      using lt 1(2) by (subst range_loop.simps) (auto split: Option.bind_splits)
    then show ?thesis using 1(1) by simp
  next
    case (2 sk' sc')
    have le: "\<forall>c \<in> set (cs @ [(pm, a, f)]). fst c \<le> pm" using Suc.prems(6) before_fst(1) by auto
    show ?thesis
    proof (cases "Suc pm = i")
      case True
      then have "range_loop ms pm i a f sk sc = Some (0, sk', sc')" using lt 2(1) by (subst range_loop.simps) simp
      then have "completed ms sk0 sc0 l f (cs @ [(pm, a, f)]) (range_loop ms pm i a f sk sc)" using 2(2) turn by (simp add: completed_def)
      moreover have "\<forall>c \<in> set (cs @ [(pm, a, f)]). fst c < i" using le True by fastforce
      ultimately show ?thesis by blast
    next
      case False
      then have e: "range_loop ms pm i a f sk sc = range_loop ms (Suc pm) i a f sk' sc'" using lt 2(1) by (subst range_loop.simps) simp
      have "\<forall>c \<in> set (cs @ [(pm, a, f)]). before c (Suc pm, a, f)" using le before_fst(2) [of _ "Suc pm"] by fastforce
      then have "stopped ms sk0 sc0 l f (range_loop ms (Suc pm) i a f sk' sc') \<or>
        (\<exists>cs'. completed ms sk0 sc0 l f cs' (range_loop ms (Suc pm) i a f sk' sc') \<and> (\<forall>c \<in> set cs'. fst c < i) \<and> (\<exists>cs''. cs' = (cs @ [(pm, a, f)]) @ cs''))"
        using Suc.hyps(2) Suc.prems(3-5) False 2(2) turn by (intro Suc.hyps(1)) auto
      then show ?thesis unfolding e by (metis append.assoc)
    qed
  qed
qed simp

lemma back_up_ok:
  "0 < n \<Longrightarrow> n \<le> Suc pm \<Longrightarrow> pm < length ms \<Longrightarrow> \<exists>pm'. back_up ms a n pm = Some pm' \<and> Suc pm - n \<le> pm' \<and> pm' \<le> pm"
proof (induction ms a n pm rule: back_up.induct)
  case (2 ms a n pm)
  show ?case
  proof (cases "n = 0 \<or> \<not> a < tm_print_time (ms ! pm)")
    case True
    then show ?thesis using "2.prems" by (auto simp: rd_def)
  next
    case False
    then obtain pm' where "back_up ms a n (pm - 1) = Some pm'" "Suc (pm - 1) - n \<le> pm'" "pm' \<le> pm - 1"
    proof -
      have "rd ms pm = Some (ms ! pm)" using "2.prems" by (simp add: rd_def)
      moreover have "pm \<noteq> 0" "n \<le> Suc (pm - 1)" "pm - 1 < length ms" using False "2.prems" by auto
      ultimately show ?thesis using that "2.IH" [of "ms ! pm"] False by auto
    qed
    then show ?thesis using False "2.prems" by (intro exI [of _ pm']) (auto simp: rd_def)
  qed
qed simp

text \<open>Where the ranges so far are relative to the current move: those that reach into the skipped moves
  end where the steps after the last activity end.\<close>

definition behind :: "nat \<Rightarrow> nat \<Rightarrow> double \<Rightarrow> (nat \<times> double \<times> double) list \<Rightarrow> bool" where
  "behind i skip force cs \<longleftrightarrow> skip \<le> i \<and> (\<forall>c \<in> set cs. fst c < i \<and> (fst c + skip < i \<or> fst c + skip = i \<and> snd (snd c) \<le> force))"

lemma completedI: "ranges_run ms sk0 sc0 cs sk sc \<Longrightarrow> in_turn (length ms) l f cs \<Longrightarrow> completed ms sk0 sc0 l f cs (Some (0, sk, sc))"
  by (simp add: completed_def)

lemma pre_active_result:
  assumes run: "ranges_run ms sk0 sc0 cs sk sc" "in_turn (length ms) l f cs" and b: "behind i skip force cs" and i: "i < length ms"
  shows "stopped ms sk0 sc0 l f (pre_active ms i force skip l f sk sc) \<or>
     (\<exists>cs'. completed ms sk0 sc0 l f cs' (pre_active ms i force skip l f sk sc) \<and> (\<forall>c \<in> set cs'. fst c < i) \<and> (\<exists>cs''. cs' = cs @ cs''))"
proof (cases "skip \<noteq> 0 \<and> sk_gen_steps_pre_active sk \<noteq> 0")
  case False
  then have "pre_active ms i force skip l f sk sc = Some (0, sk, sc)" unfolding pre_active_def by (simp only: if_False)
  then show ?thesis using completedI [OF run] b by (auto simp: behind_def)
next
  case True
  define a0 where "a0 = dsub (tm_print_time (ms ! i)) (sk_gen_steps_pre_active sk)"
  define a1 where "a1 = (if a0 < l then l else a0)"
  define a where "a = (if a1 < force then force else a1)"
  have a: "l \<le> a" "force \<le> a" by (simp_all add: a_def a1_def)
  have s: "0 < skip" "skip \<le> i" using True b by (simp_all add: behind_def)
  then obtain pm where pm: "back_up ms a skip (i - 1) = Some pm" "i - skip \<le> pm" "pm < i"
  proof -
    have "skip \<le> Suc (i - 1)" "i - 1 < length ms" using s i by auto
    then obtain pm where "back_up ms a skip (i - 1) = Some pm" "Suc (i - 1) - skip \<le> pm" "pm \<le> i - 1"
      using back_up_ok [OF s(1)] by blast
    then show ?thesis using that [of pm] s by simp
  qed
  have e: "pre_active ms i force skip l f sk sc = range_loop ms pm i a f sk sc"
  proof -
    have "rd ms i = Some (ms ! i)" "i \<noteq> 0" using i s by (simp_all add: rd_def)
    then show ?thesis
      unfolding pre_active_def if_P [OF True] Let_def
      by (simp only: Option.bind.bind_lunit a0_def [symmetric] a1_def [symmetric] a_def [symmetric] if_False pm(1))
  qed
  have "before c (pm, a, f)" if "c \<in> set cs" for c
  proof -
    have "fst c < i" "fst c + skip < i \<or> fst c + skip = i \<and> snd (snd c) \<le> force" using b that by (auto simp: behind_def)
    then show ?thesis using pm(2) a(2) by (cases c) auto
  qed
  then show ?thesis unfolding e using run pm(3) i a by (intro range_loop_result) auto
qed

text \<open>Whether the loop goes on from each move of a stretch to the next.\<close>

definition reaches :: "trap_move list \<Rightarrow> u32 \<Rightarrow> double \<Rightarrow> double \<Rightarrow> nat \<Rightarrow> nat \<Rightarrow> bool" where
  "reaches ms af f pre i j \<longleftrightarrow>
     i \<le> j \<and> (\<forall>k. i \<le> k \<and> k < j \<longrightarrow> (if check_active af (ms ! k) then move_end (ms ! k) < f else move_end (ms ! k) < dadd f pre))"

definition covers :: "trap_move list \<Rightarrow> u32 \<Rightarrow> double \<Rightarrow> double \<Rightarrow> double \<Rightarrow> nat \<Rightarrow> (nat \<times> double \<times> double) list \<Rightarrow> bool" where
  "covers ms af l f pre i cs \<longleftrightarrow>
     (\<forall>j < length ms. reaches ms af f pre i j \<and> check_active af (ms ! j) \<longrightarrow> (j, l, f) \<in> set cs)"

lemma covers_next:
  assumes "covers ms af l f pre (Suc i) cs" "check_active af (ms ! i) \<longrightarrow> (i, l, f) \<in> set cs"
  shows "covers ms af l f pre i cs"
  unfolding covers_def
proof (intro allI impI)
  fix j
  assume j: "j < length ms" "reaches ms af f pre i j \<and> check_active af (ms ! j)"
  then have "j = i \<or> reaches ms af f pre (Suc i) j" by (auto simp: reaches_def)
  then show "(j, l, f) \<in> set cs" using assms j by (auto simp: covers_def)
qed

lemma covers_end:
  assumes "if check_active af (ms ! i) then f \<le> move_end (ms ! i) \<and> (i, l, f) \<in> set cs else dadd f pre \<le> move_end (ms ! i)"
  shows "covers ms af l f pre i cs"
  unfolding covers_def
proof (intro allI impI)
  fix j
  assume j: "j < length ms" "reaches ms af f pre i j \<and> check_active af (ms ! j)"
  have "j = i"
  proof (rule ccontr)
    assume "j \<noteq> i"
    then have "if check_active af (ms ! i) then move_end (ms ! i) < f else move_end (ms ! i) < dadd f pre"
      using j by (auto simp: reaches_def)
    then show False using assms by (auto split: if_splits)
  qed
  then show "(j, l, f) \<in> set cs" using assms j by auto
qed

lemma gen_loop_result:
  assumes run: "ranges_run ms sk0 sc0 cs sk sc" "in_turn (length ms) l f cs" and b: "behind i skip force cs" and i: "i < length ms"
    and tail: "\<not> check_active (sk_active_flags sk0) (last ms)" "dadd f (sk_gen_steps_pre_active sk0) \<le> move_end (last ms)"
  shows "stopped ms sk0 sc0 l f (gen_loop ms i force skip l f sk sc) \<or>
     (\<exists>cs'. completed ms sk0 sc0 l f cs' (gen_loop ms i force skip l f sk sc) \<and>
        covers ms (sk_active_flags sk0) l f (sk_gen_steps_pre_active sk0) i cs' \<and> (\<exists>cs''. cs' = cs @ cs''))"
  using run b i
proof (induction "length ms - i" arbitrary: i force skip cs sk sc)
  case (Suc n)
  let ?af = "sk_active_flags sk0" and ?pre = "sk_gen_steps_pre_active sk0"
  note run = Suc.prems(1,2) and b = Suc.prems(3) and i = Suc.prems(4)
  have st: "sk_active_flags sk = ?af" "sk_gen_steps_pre_active sk = ?pre"
    using ranges_settings [OF run(1)] by (simp_all add: same_settings_def)
  have next_lt: "Suc i < length ms" if "check_active ?af (ms ! i) \<or> move_end (ms ! i) < dadd f ?pre"
  proof (rule ccontr)
    assume "\<not> Suc i < length ms"
    then have "ms ! i = last ms" using i by (cases ms rule: rev_cases) (auto simp: nth_append)
    then show False using that tail by auto
  qed
  have go_on: ?case
    if e: "gen_loop ms i force skip l f sk sc = gen_loop ms (Suc i) force' skip' l f sk' sc'"
      and r: "ranges_run ms sk0 sc0 (cs @ cs2) sk' sc'" "in_turn (length ms) l f (cs @ cs2)" "behind (Suc i) skip' force' (cs @ cs2)"
      and more: "check_active ?af (ms ! i) \<or> move_end (ms ! i) < dadd f ?pre" "check_active ?af (ms ! i) \<longrightarrow> (i, l, f) \<in> set (cs @ cs2)"
    for force' skip' sk' sc' cs2
  proof -
    have "n = length ms - Suc i" using Suc.hyps(2) by simp
    from Suc.hyps(1) [OF this r next_lt [OF more(1)]] show ?thesis
      unfolding e using covers_next more(2) by (metis Un_iff append.assoc set_append)
  qed
  have finish: ?case
    if "gen_loop ms i force skip l f sk sc = Some (0, sk', sc')" "ranges_run ms sk0 sc0 (cs @ cs2) sk' sc'" "in_turn (length ms) l f (cs @ cs2)"
      "if check_active ?af (ms ! i) then f \<le> move_end (ms ! i) \<and> (i, l, f) \<in> set (cs @ cs2) else dadd f ?pre \<le> move_end (ms ! i)"
    for sk' sc' cs2
    using that completedI [OF that(2,3)] covers_end [OF that(4)] by auto
  have stop: ?case if "gen_loop ms i force skip l f sk sc = r" "stopped ms sk0 sc0 l f r" for r
    using that by simp
  have cs: "fst c < i" if "c \<in> set cs" for c using b that by (simp add: behind_def)
  have lt: "\<not> length ms \<le> i" using i by simp
  note unfold = gen_loop.simps [of ms i force skip l f sk sc, unfolded st, simplified lt if_False]
  show ?case
  proof (cases "check_active ?af (ms ! i)")
    case active: True
    define r where "r = pre_active ms i force skip l f sk sc"
    from pre_active_result [OF run b i] consider (stop) "stopped ms sk0 sc0 l f r"
      | (go) cs1 where "completed ms sk0 sc0 l f (cs @ cs1) r" "\<forall>c \<in> set (cs @ cs1). fst c < i"
      unfolding r_def by blast
    then show ?thesis
    proof cases
      case stop
      then have "gen_loop ms i force skip l f sk sc = r"
        using active by (simp add: unfold r_def [symmetric]) (auto simp: stopped_def split: Option.bind_splits)
      then show ?thesis using stop by simp
    next
      case go
      then obtain sk1 sc1 where c1: "r = Some (0, sk1, sc1)" "ranges_run ms sk0 sc0 (cs @ cs1) sk1 sc1" "in_turn (length ms) l f (cs @ cs1)"
        by (auto simp: completed_def)
      have turn: "in_turn (length ms) l f ((cs @ cs1) @ [(i, l, f)])"
        using c1(3) i go(2) before_fst(2) by (subst in_turn_append) auto
      show ?thesis
      proof (cases rule: range_step [OF c1(2) turn refl])
        case 1
        then have "gen_loop ms i force skip l f sk sc = itersolve_gen_steps_range ms i l f sk1 sc1"
          using active c1(1) by (simp add: unfold r_def [symmetric]) (auto split: Option.bind_splits)
        then show ?thesis using stop 1(1) by simp
      next
        case (2 sk2 sc2)
        show ?thesis
        proof (cases "f \<le> move_end (ms ! i)")
          case True
          then have "gen_loop ms i force skip l f sk sc = Some (0, sk2\<lparr>sk_last_move_time := f\<rparr>, sc2)"
            using active c1(1) 2(1) by (simp add: unfold r_def [symmetric])
          then show ?thesis
            using finish [of "sk2\<lparr>sk_last_move_time := f\<rparr>" sc2 "cs1 @ [(i, l, f)]"] ranges_note [OF 2(2)] turn active True by simp
        next
          case False
          let ?force = "dadd (move_end (ms ! i)) (sk_gen_steps_post_active sk2)" and ?sk = "sk2\<lparr>sk_last_move_time := move_end (ms ! i)\<rparr>"
          have "gen_loop ms i force skip l f sk sc = gen_loop ms (Suc i) ?force 0 l f ?sk sc2"
            using active c1(1) 2(1) False by (simp add: unfold r_def [symmetric])
          moreover have "behind (Suc i) 0 ?force ((cs @ cs1) @ [(i, l, f)])" using go(2) by (auto simp: behind_def less_Suc_eq)
          ultimately show ?thesis
            using go_on [of ?force 0 ?sk sc2 "cs1 @ [(i, l, f)]"] ranges_note [OF 2(2)] turn active by simp
        qed
      qed
    qed
  next
    case inactive: False
    show ?thesis
    proof (cases "tm_print_time (ms ! i) < force")
      case True
      have turn: "in_turn (length ms) l f (cs @ [(i, l, clip f force)])"
        using run(2) i cs before_fst(2) by (subst in_turn_append) (auto simp: clip_def)
      show ?thesis
      proof (cases rule: range_step [OF run(1) turn refl])
        case 1
        then have "gen_loop ms i force skip l f sk sc = itersolve_gen_steps_range ms i l (clip f force) sk sc"
          using inactive True by (simp add: unfold) (auto split: Option.bind_splits)
        then show ?thesis using stop 1(1) by simp
      next
        case (2 sk2 sc2)
        have s2: "sk_gen_steps_pre_active sk2 = ?pre" using ranges_settings [OF 2(2)] by (simp add: same_settings_def)
        show ?thesis
        proof (cases "dadd f ?pre \<le> move_end (ms ! i)")
          case fin: True
          then have "gen_loop ms i force skip l f sk sc = Some (0, sk2, sc2)" using inactive True 2(1) s2 by (simp add: unfold)
          then show ?thesis using finish [of sk2 sc2 "[(i, l, clip f force)]"] 2(2) turn inactive fin by simp
        next
          case more: False
          then have "gen_loop ms i force skip l f sk sc = gen_loop ms (Suc i) force 1 l f sk2 sc2"
            using inactive True 2(1) s2 by (simp add: unfold)
          moreover have "behind (Suc i) 1 force (cs @ [(i, l, clip f force)])"
            using cs less_SucI [OF cs] unfolding behind_def by (auto simp: clip_def)
          ultimately show ?thesis using go_on [of force 1 sk2 sc2 "[(i, l, clip f force)]"] 2(2) turn inactive more by simp
        qed
      qed
    next
      case False
      show ?thesis
      proof (cases "dadd f ?pre \<le> move_end (ms ! i)")
        case True
        then show ?thesis using finish [of sk sc "[]"] run inactive False by (simp add: unfold)
      next
        case more: False
        have "behind (Suc i) (Suc skip) force cs" using b by (auto simp: behind_def)
        then show ?thesis using go_on [of force "Suc skip" sk sc "[]"] run inactive False more by (simp add: unfold)
      qed
    qed
  qed
qed simp

lemma skip_ended_ok:
  "ms \<noteq> [] \<Longrightarrow> t < move_end (last ms) \<Longrightarrow>
   \<exists>i < length ms. skip_ended t ms n = Some (n + i) \<and> t < move_end (ms ! i) \<and> (\<forall>k < i. move_end (ms ! k) \<le> t)"
proof (induction ms arbitrary: n)
  case (Cons m ms)
  show ?case
  proof (cases "move_end m \<le> t")
    case True
    then have "ms \<noteq> []" "t < move_end (last ms)" using Cons.prems by (auto split: if_splits)
    then obtain i where i: "i < length ms" "skip_ended t ms (Suc n) = Some (Suc n + i)" "t < move_end (ms ! i)" "\<forall>k < i. move_end (ms ! k) \<le> t"
      using Cons.IH by blast
    have "move_end ((m # ms) ! k) \<le> t" if "k < Suc i" for k using that i(4) True by (cases k) auto
    then show ?thesis using i True by (intro exI [of _ "Suc i"]) simp
  qed (auto intro!: exI [of _ 0])
qed simp

lemma not_active_tail: "trapq_ok tq \<Longrightarrow> \<not> check_active af (last (tq_all tq))"
  by (simp add: trapq_ok_def tq_all_def check_active_def zero_coord_def)

text \<open>How generating steps comes out: the walk starts at the first move that has not ended at the last
  flush; the result is that of a run of the solver over ranges in turn.\<close>

lemma generate_run:
  assumes q: "sk_tq sk = Some q" "trapq_ok (tqs q)" and ms: "ms = tq_all (trapq_check_sentinels (tqs q))"
    and t: "l = sk_last_flush_time sk" "l < NEVER_TIME" "dadd f (sk_gen_steps_pre_active sk) \<le> NEVER_TIME"
    and sk0: "sk0 = sk\<lparr>sk_last_flush_time := f\<rparr>"
  obtains i r where "itersolve_generate_steps f sk sc tqs =
       map_option (\<lambda>(ret, sk, sc). (ret, sk, sc, tqs(q := trapq_check_sentinels (tqs q)))) r"
    "i < length ms" "l < move_end (ms ! i)" "\<forall>k < i. move_end (ms ! k) \<le> l"
    "stopped ms sk0 sc l f r \<or> (\<exists>cs. completed ms sk0 sc l f cs r \<and> covers ms (sk_active_flags sk) l f (sk_gen_steps_pre_active sk) i cs)"
proof -
  let ?tq = "trapq_check_sentinels (tqs q)"
  have ok: "trapq_ok ?tq" by (rule trapq_ok_check_sentinels [OF q(2)])
  have tail: "NEVER_TIME \<le> move_end (last ms)" using tail_end [OF ok] by (simp add: ms tq_all_def)
  have "ms \<noteq> []" by (simp add: ms tq_all_def)
  then obtain i where i: "i < length ms" "skip_ended l ms 0 = Some i" "l < move_end (ms ! i)" "\<forall>k < i. move_end (ms ! k) \<le> l"
    using skip_ended_ok [of ms l 0] tail t(2) by auto
  define r where "r = gen_loop ms i (dadd (sk_last_move_time sk0) (sk_gen_steps_post_active sk0)) 0 l f sk0 sc"
  have "itersolve_generate_steps f sk sc tqs = map_option (\<lambda>(ret, sk, sc). (ret, sk, sc, tqs(q := ?tq))) r"
    using i(2) q(1) by (cases r) (auto simp: itersolve_generate_steps_def ms t(1) sk0 r_def)
  moreover have "stopped ms sk0 sc l f r \<or> (\<exists>cs. completed ms sk0 sc l f cs r \<and> covers ms (sk_active_flags sk) l f (sk_gen_steps_pre_active sk) i cs)"
  proof -
    let ?force = "dadd (sk_last_move_time sk0) (sk_gen_steps_post_active sk0)"
    have "in_turn (length ms) l f []" "behind i 0 ?force []" by (simp_all add: in_turn_def behind_def)
    moreover have "\<not> check_active (sk_active_flags sk0) (last ms)" "dadd f (sk_gen_steps_pre_active sk0) \<le> move_end (last ms)"
      using not_active_tail [OF ok] tail t(3) by (simp_all add: ms sk0)
    ultimately have "stopped ms sk0 sc l f r \<or>
        (\<exists>cs. completed ms sk0 sc l f cs r \<and> covers ms (sk_active_flags sk0) l f (sk_gen_steps_pre_active sk0) i cs)"
      using gen_loop_result [OF ranges_start _ _ i(1)] unfolding r_def by blast
    then show ?thesis by (simp add: sk0)
  qed
  ultimately show thesis using that i by blast
qed

text \<open>C6 (generate_in_turn). Generating steps up to a time never leaves the list of moves, whatever the moves
  are: every result is that of running the solver on a sequence of time ranges. The ranges are
  inside of the time since the last call, follow the order of the moves and never overlap, so
  that no time is searched twice. If no range reports an error, every active move between the
  last call and this one has been searched over the whole time.\<close>

theorem generate_in_turn:
  assumes "sk_tq sk = Some q" "trapq_reach (tqs q)" and ms: "ms = tq_all (trapq_check_sentinels (tqs q))"
    and "l = sk_last_flush_time sk" "l < NEVER_TIME" "dadd f (sk_gen_steps_pre_active sk) \<le> NEVER_TIME"
  shows "\<exists>i r. itersolve_generate_steps f sk sc tqs =
       map_option (\<lambda>(ret, sk, sc). (ret, sk, sc, tqs(q := trapq_check_sentinels (tqs q)))) r \<and>
     i < length ms \<and> l < move_end (ms ! i) \<and> (\<forall>k < i. move_end (ms ! k) \<le> l) \<and>
     (stopped ms (sk\<lparr>sk_last_flush_time := f\<rparr>) sc l f r \<or>
      (\<exists>cs. completed ms (sk\<lparr>sk_last_flush_time := f\<rparr>) sc l f cs r \<and>
         covers ms (sk_active_flags sk) l f (sk_gen_steps_pre_active sk) i cs))"
proof -
  from generate_run [where tqs = tqs and q = q, OF assms(1) trapq_reach_ok [OF assms(2)] ms assms(4-6) refl] show ?thesis by metis
qed

lemma NEVER_TIME_large: "2 \<le> NEVER_TIME"
  using rnd_lower [of 2 "99999999999999999 / 10"] rnd_int [of 2] by (simp add: NEVER_TIME_def is_double_def)

text \<open>A queue with a move of the x axis that speeds up, cruises and slows down for a second each.\<close>

definition moving_tq :: trapq where
  "moving_tq = trapq_append 0 1 1 1 zero_coord \<lparr>co_x = 1, co_y = 0, co_z = 0\<rparr> 0 1 1 trapq_alloc"

theorem generate_in_turn_witness:
  "length (tq_body moving_tq) = 3 \<and> (let ms = tq_all (trapq_check_sentinels moving_tq); sk = example_sk\<lparr>sk_last_flush_time := 1\<rparr> in
     \<exists>i r. itersolve_generate_steps 1 example_sk idle_sc (\<lambda>_. moving_tq) =
       map_option (\<lambda>(ret, sk, sc). (ret, sk, sc, (\<lambda>_. moving_tq)(0 := trapq_check_sentinels moving_tq))) r \<and>
     (stopped ms sk idle_sc 0 1 r \<or> (\<exists>cs. completed ms sk idle_sc 0 1 cs r \<and> covers ms 1 0 1 0 i cs)))"
proof -
  have one: "dadd 1 0 = 1" "is_double 1" "is_double 0" using rnd_int [of 1] by (simp_all add: dadd_def is_double_def)
  then have t: "sk_tq example_sk = Some 0" "sk_last_flush_time example_sk < NEVER_TIME" "dadd 1 (sk_gen_steps_pre_active example_sk) \<le> NEVER_TIME"
    using NEVER_TIME_large by (simp_all add: example_sk_def)
  have reach: "trapq_reach moving_tq" unfolding moving_tq_def using one by (intro reach_append reach_alloc) simp_all
  have "length (tq_body moving_tq) = 3"
    using rnd_int [of 2]
    by (simp add: moving_tq_def trapq_append_def append_part_def trapq_add_move_def trapq_alloc_def move_end_def trap_move_alloc_def
        Let_def dadd_def rnd_int [of 1, simplified])
  then show ?thesis
    using generate_in_turn [where tqs = "\<lambda>_. moving_tq" and q = 0 and sc = idle_sc, OF t(1) reach refl refl t(2,3)]
    unfolding Let_def by (simp add: example_sk_def) blast
qed

section \<open>A stepper at rest\<close>

lemma range_end_mono: "b \<le> f \<Longrightarrow> range_end m b \<le> range_end m f"
  using rnd_mono [of "b - tm_print_time m" "f - tm_print_time m"] by (simp add: range_end_def Let_def dsub_def)

lemma all_moves_ok: "trapq_ok tq \<Longrightarrow> m \<in> set (tq_all tq) \<Longrightarrow> move_ok m"
  by (auto simp: trapq_ok_def tq_all_def list_all_iff trap_move_alloc_def move_ok_def)

lemma ranges_rest:
  assumes "ranges_run ms sk0 sc0 cs sk sc" "in_turn (length ms) l f cs"
    and still: "\<And>j a b t. j < length ms \<Longrightarrow> b \<le> f \<Longrightarrow>
      itersolve_gen_steps_range ms j a b (sk0\<lparr>sk_last_move_time := t\<rparr>) sc0 = Some (0, sk0\<lparr>sk_last_move_time := t\<rparr>, sc0)"
  shows "\<exists>t. sk = sk0\<lparr>sk_last_move_time := t\<rparr> \<and> sc = sc0"
  using assms(1,2)
proof (induction rule: ranges_run.induct)
  case ranges_start
  show ?case by (intro exI [of _ "sk_last_move_time sk0"]) simp
next
  case (ranges_call cs sk sc j a b sk' sc')
  then obtain t where "sk = sk0\<lparr>sk_last_move_time := t\<rparr>" "sc = sc0" "j < length ms" "b \<le> f" by (auto simp: in_turn_append)
  then show ?case using ranges_call.hyps(2) still by auto
qed auto

text \<open>As long as the position of a stepper stays where it was commanded to, over all
  moves of the queue, generating steps returns without an error and has submitted no step, and
  the commanded position is still the same.\<close>

theorem rest_makes_no_steps:
  assumes q: "sk_tq sk = Some q" "trapq_reach (tqs q)" and ms: "ms = tq_all (trapq_check_sentinels (tqs q))"
    and t: "sk_last_flush_time sk < NEVER_TIME" "dadd f (sk_gen_steps_pre_active sk) \<le> NEVER_TIME"
      "\<And>m. m \<in> set ms \<Longrightarrow> range_end m f \<le> MAX_RANGE"
    and h: "h = dmul (1 / 2) (sk_step_dist sk)" "CLOSE < h" "on_grid h n" "sk_commanded_pos sk = of_int k * h" "\<bar>k\<bar> + 3 \<le> n"
    and rest: "\<And>i t. sk_calc_position_cb sk (sk_commanded_pos sk) ms i t = Some (sk_commanded_pos sk)" "sk_post_cb sk = None"
    and idle: "sc_next_step_clock sc = 0"
  shows "\<exists>sk'. itersolve_generate_steps f sk sc tqs = Some (0, sk', sc, tqs(q := trapq_check_sentinels (tqs q))) \<and>
     sk_commanded_pos sk' = sk_commanded_pos sk"
proof -
  let ?sk0 = "sk\<lparr>sk_last_flush_time := f\<rparr>" and ?l = "sk_last_flush_time sk"
  have ok: "trapq_ok (trapq_check_sentinels (tqs q))" by (rule trapq_reach_ok) (rule reach_check [OF q(2)])
  have still: "itersolve_gen_steps_range ms j a b (?sk0\<lparr>sk_last_move_time := x\<rparr>) sc = Some (0, ?sk0\<lparr>sk_last_move_time := x\<rparr>, sc)"
    if "j < length ms" "b \<le> f" for j a b x
  proof (rule rest_gen_range [where m = "ms ! j" and h = h and n = n and k = k])
    show "rd ms j = Some (ms ! j)" using that by (simp add: rd_def)
    have m: "ms ! j \<in> set ms" using that by simp
    then show "is_double (tm_move_t (ms ! j))" using all_moves_ok [OF ok] by (simp add: ms move_ok_def)
    show "range_end (ms ! j) b \<le> MAX_RANGE" using range_end_mono [OF that(2), of "ms ! j"] t(3) [OF m] by linarith
  qed (use h rest idle in simp_all)
  obtain i r where r: "itersolve_generate_steps f sk sc tqs =
       map_option (\<lambda>(ret, sk, sc). (ret, sk, sc, tqs(q := trapq_check_sentinels (tqs q)))) r"
      "stopped ms ?sk0 sc ?l f r \<or> (\<exists>cs. completed ms ?sk0 sc ?l f cs r \<and> covers ms (sk_active_flags sk) ?l f (sk_gen_steps_pre_active sk) i cs)"
    using generate_run [where tqs = tqs and q = q, OF q(1) trapq_reach_ok [OF q(2)] ms refl t(1,2) refl] by metis
  have "\<not> stopped ms ?sk0 sc ?l f r"
  proof
    assume "stopped ms ?sk0 sc ?l f r"
    then obtain cs sk1 sc1 j a b where s: "ranges_run ms ?sk0 sc cs sk1 sc1" "in_turn (length ms) ?l f (cs @ [(j, a, b)])"
      "r = itersolve_gen_steps_range ms j a b sk1 sc1" "\<forall>sk' sc'. r \<noteq> Some (0, sk', sc')" unfolding stopped_def by blast
    have jb: "j < length ms" "b \<le> f" and turn: "in_turn (length ms) ?l f cs" using s(2) by (simp_all add: in_turn_append)
    obtain x where "sk1 = ?sk0\<lparr>sk_last_move_time := x\<rparr>" "sc1 = sc" using ranges_rest [OF s(1) turn still] by blast
    then show False using still [OF jb] s(3,4) by simp
  qed
  then obtain cs sk1 sc1 where c: "r = Some (0, sk1, sc1)" "ranges_run ms ?sk0 sc cs sk1 sc1" "in_turn (length ms) ?l f cs"
    using r(2) by (auto simp: completed_def)
  then obtain x where "sk1 = ?sk0\<lparr>sk_last_move_time := x\<rparr>" "sc1 = sc" using ranges_rest [OF c(2,3) still] by blast
  then show ?thesis using r(1) c(1) by simp
qed

theorem rest_makes_no_steps_witness:
  "\<exists>sk'. itersolve_generate_steps 1 example_sk idle_sc (\<lambda>_. trapq_alloc) =
     Some (0, sk', idle_sc, (\<lambda>_. trapq_alloc)(0 := trapq_check_sentinels trapq_alloc))"
proof -
  have one: "dadd 1 0 = 1" using rnd_int [of 1] by (simp add: dadd_def)
  have t: "sk_tq example_sk = Some 0" "sk_last_flush_time example_sk < NEVER_TIME" "dadd 1 (sk_gen_steps_pre_active example_sk) \<le> NEVER_TIME"
    using NEVER_TIME_large one by (simp_all add: example_sk_def)
  have r: "range_end m 1 \<le> MAX_RANGE" if "m \<in> set (tq_all (trapq_check_sentinels trapq_alloc))" for m
  proof -
    have "move_ok m" using all_moves_ok [OF trapq_ok_check_sentinels [OF trapq_ok_alloc] that] .
    then have "dsub 1 (tm_print_time m) \<le> 1" using rnd_int [of 1] unfolding dsub_def by (intro rnd_upper) (simp_all add: is_double_def move_ok_def)
    then show ?thesis by (simp add: range_end_def Let_def MAX_RANGE_def)
  qed
  show ?thesis
    using rest_makes_no_steps [where tqs = "\<lambda>_. trapq_alloc" and q = 0 and h = "1 / 2" and n = "2 ^ 53" and k = 0 and sc = idle_sc,
        OF t(1) reach_alloc refl t(2,3) r] example_grid CLOSE_half
    by (auto simp: example_sk_def idle_sc_def stepcompress_set_time_def stepcompress_fill_def stepcompress_alloc_def calc_last_step_print_time_def)
qed

end
