(* ===== verification/Kinematics.thy ===== *)
theory Kinematics
  imports Generate
begin

text \<open>
  The kinematics of the host: the callbacks that turn a position on a move into the position of a
  stepper (\<^verbatim>\<open>src/klippy/chelper/kin_*.c\<close>). A callback finds its object with \<^verbatim>\<open>container_of\<close>; here it
  is a function of the object's data, and \<open>dual_carriage_sk\<close>, \<open>extruder_sk\<close> and \<open>shaper_sk\<close> are the
  \<^verbatim>\<open>struct stepper_kinematics\<close> inside of an object as the solver sees it. A callback that was not set is
  a null pointer, and calling it is undefined; so is a step past either end of the list of moves, and
  so is a result that is not a number, the square root of a negative number or a division by zero, for a
  position out of reach; in C the solver would go on with a NaN. C leaves the accuracy of \<^verbatim>\<open>atan2\<close>, \<^verbatim>\<open>cos\<close> and \<^verbatim>\<open>sin\<close>
  open, so these functions are a parameter.
\<close>

record libm =
  lm_atan2 :: "double \<Rightarrow> double \<Rightarrow> double"
  lm_cos :: "double \<Rightarrow> double"
  lm_sin :: "double \<Rightarrow> double"

definition M_PI :: double where "M_PI = rnd (314159265358979323846 / 10 ^ 20)"

text \<open>\<^verbatim>\<open>malloc\<close> and \<^verbatim>\<open>memset\<close> of the common part.\<close>

definition sk_zero :: stepper_kinematics where
  "sk_zero = \<lparr>sk_step_dist = 0, sk_commanded_pos = 0, sk_last_flush_time = 0, sk_last_move_time = 0, sk_tq = None,
     sk_active_flags = 0, sk_gen_steps_pre_active = 0, sk_gen_steps_post_active = 0,
     sk_calc_position_cb = (\<lambda>_ _ _ _. None), sk_post_cb = None\<rparr>"

section \<open>Cartesian kinematics\<close>

definition cart_stepper_x_calc_position :: calc_callback where
  "cart_stepper_x_calc_position cp ms i move_time = do { m \<leftarrow> rd ms i; Some (co_x (move_get_coord m move_time)) }"

definition cart_stepper_y_calc_position :: calc_callback where
  "cart_stepper_y_calc_position cp ms i move_time = do { m \<leftarrow> rd ms i; Some (co_y (move_get_coord m move_time)) }"

definition cart_stepper_z_calc_position :: calc_callback where
  "cart_stepper_z_calc_position cp ms i move_time = do { m \<leftarrow> rd ms i; Some (co_z (move_get_coord m move_time)) }"

definition cartesian_stepper_alloc :: "char \<Rightarrow> stepper_kinematics" where
  "cartesian_stepper_alloc axis =
     (if axis = CHR ''x'' then sk_zero\<lparr>sk_calc_position_cb := cart_stepper_x_calc_position, sk_active_flags := AF_X\<rparr>
      else if axis = CHR ''y'' then sk_zero\<lparr>sk_calc_position_cb := cart_stepper_y_calc_position, sk_active_flags := AF_Y\<rparr>
      else if axis = CHR ''z'' then sk_zero\<lparr>sk_calc_position_cb := cart_stepper_z_calc_position, sk_active_flags := AF_Z\<rparr>
      else sk_zero)"

section \<open>CoreXY and CoreXZ\<close>

definition corexy_stepper_plus_calc_position :: calc_callback where
  "corexy_stepper_plus_calc_position cp ms i move_time =
     do { m \<leftarrow> rd ms i; let c = move_get_coord m move_time; Some (dadd (co_x c) (co_y c)) }"

definition corexy_stepper_minus_calc_position :: calc_callback where
  "corexy_stepper_minus_calc_position cp ms i move_time =
     do { m \<leftarrow> rd ms i; let c = move_get_coord m move_time; Some (dsub (co_x c) (co_y c)) }"

definition corexy_stepper_alloc :: "char \<Rightarrow> stepper_kinematics" where
  "corexy_stepper_alloc type =
     (let sk = (if type = CHR ''+'' then sk_zero\<lparr>sk_calc_position_cb := corexy_stepper_plus_calc_position\<rparr>
                else if type = CHR ''-'' then sk_zero\<lparr>sk_calc_position_cb := corexy_stepper_minus_calc_position\<rparr>
                else sk_zero)
      in sk\<lparr>sk_active_flags := or AF_X AF_Y\<rparr>)"

definition corexz_stepper_plus_calc_position :: calc_callback where
  "corexz_stepper_plus_calc_position cp ms i move_time =
     do { m \<leftarrow> rd ms i; let c = move_get_coord m move_time; Some (dadd (co_x c) (co_z c)) }"

definition corexz_stepper_minus_calc_position :: calc_callback where
  "corexz_stepper_minus_calc_position cp ms i move_time =
     do { m \<leftarrow> rd ms i; let c = move_get_coord m move_time; Some (dsub (co_x c) (co_z c)) }"

definition corexz_stepper_alloc :: "char \<Rightarrow> stepper_kinematics" where
  "corexz_stepper_alloc type =
     (let sk = (if type = CHR ''+'' then sk_zero\<lparr>sk_calc_position_cb := corexz_stepper_plus_calc_position\<rparr>
                else if type = CHR ''-'' then sk_zero\<lparr>sk_calc_position_cb := corexz_stepper_minus_calc_position\<rparr>
                else sk_zero)
      in sk\<lparr>sk_active_flags := or AF_X AF_Z\<rparr>)"

section \<open>Generic cartesian kinematics\<close>

definition generic_cartesian_stepper_calc_position :: "coord \<Rightarrow> calc_callback" where
  "generic_cartesian_stepper_calc_position a cp ms i move_time =
     do { m \<leftarrow> rd ms i; let c = move_get_coord m move_time;
          Some (dadd (dadd (dmul (co_x a) (co_x c)) (dmul (co_y a) (co_y c))) (dmul (co_z a) (co_z c))) }"

text \<open>The callback reads the coefficients of the object.\<close>

definition generic_cartesian_stepper_set_coeffs :: "double \<Rightarrow> double \<Rightarrow> double \<Rightarrow> stepper_kinematics \<Rightarrow> stepper_kinematics" where
  "generic_cartesian_stepper_set_coeffs a_x a_y a_z sk =
     (let flags = 0;
          flags = (if a_x \<noteq> 0 then or flags AF_X else flags);
          flags = (if a_y \<noteq> 0 then or flags AF_Y else flags);
          flags = (if a_z \<noteq> 0 then or flags AF_Z else flags)
      in sk\<lparr>sk_calc_position_cb := generic_cartesian_stepper_calc_position \<lparr>co_x = a_x, co_y = a_y, co_z = a_z\<rparr>,
            sk_active_flags := flags\<rparr>)"

definition generic_cartesian_stepper_alloc :: "double \<Rightarrow> double \<Rightarrow> double \<Rightarrow> stepper_kinematics" where
  "generic_cartesian_stepper_alloc a_x a_y a_z = generic_cartesian_stepper_set_coeffs a_x a_y a_z sk_zero"

section \<open>Delta, deltesian, winch\<close>

definition delta_stepper_calc_position :: "double \<Rightarrow> double \<Rightarrow> double \<Rightarrow> calc_callback" where
  "delta_stepper_calc_position arm2 tower_x tower_y cp ms i move_time =
     do { m \<leftarrow> rd ms i; let c = move_get_coord m move_time;
          let dx = dsub tower_x (co_x c);
          let dy = dsub tower_y (co_y c);
          r \<leftarrow> dsqrt (dsub (dsub arm2 (dmul dx dx)) (dmul dy dy));
          Some (dadd r (co_z c)) }"

definition delta_stepper_alloc :: "double \<Rightarrow> double \<Rightarrow> double \<Rightarrow> stepper_kinematics" where
  "delta_stepper_alloc arm2 tower_x tower_y =
     sk_zero\<lparr>sk_calc_position_cb := delta_stepper_calc_position arm2 tower_x tower_y, sk_active_flags := or (or AF_X AF_Y) AF_Z\<rparr>"

definition deltesian_stepper_calc_position :: "double \<Rightarrow> double \<Rightarrow> calc_callback" where
  "deltesian_stepper_calc_position arm2 arm_x cp ms i move_time =
     do { m \<leftarrow> rd ms i; let c = move_get_coord m move_time;
          let dx = dsub (co_x c) arm_x;
          r \<leftarrow> dsqrt (dsub arm2 (dmul dx dx));
          Some (dadd r (co_z c)) }"

definition deltesian_stepper_alloc :: "double \<Rightarrow> double \<Rightarrow> stepper_kinematics" where
  "deltesian_stepper_alloc arm2 arm_x =
     sk_zero\<lparr>sk_calc_position_cb := deltesian_stepper_calc_position arm2 arm_x, sk_active_flags := or AF_X AF_Z\<rparr>"

definition winch_stepper_calc_position :: "coord \<Rightarrow> calc_callback" where
  "winch_stepper_calc_position anchor cp ms i move_time =
     do { m \<leftarrow> rd ms i; let c = move_get_coord m move_time;
          let dx = dsub (co_x anchor) (co_x c);
          let dy = dsub (co_y anchor) (co_y c);
          let dz = dsub (co_z anchor) (co_z c);
          dsqrt (dadd (dadd (dmul dx dx) (dmul dy dy)) (dmul dz dz)) }"

definition winch_stepper_alloc :: "double \<Rightarrow> double \<Rightarrow> double \<Rightarrow> stepper_kinematics" where
  "winch_stepper_alloc anchor_x anchor_y anchor_z =
     sk_zero\<lparr>sk_calc_position_cb := winch_stepper_calc_position \<lparr>co_x = anchor_x, co_y = anchor_y, co_z = anchor_z\<rparr>,
             sk_active_flags := or (or AF_X AF_Y) AF_Z\<rparr>"

section \<open>Polar kinematics\<close>

definition polar_stepper_radius_calc_position :: calc_callback where
  "polar_stepper_radius_calc_position cp ms i move_time =
     do { m \<leftarrow> rd ms i; let c = move_get_coord m move_time; dsqrt (dadd (dmul (co_x c) (co_x c)) (dmul (co_y c) (co_y c))) }"

definition polar_angle :: "double \<Rightarrow> double \<Rightarrow> double" where
  "polar_angle commanded_pos angle =
     (if M_PI < dsub angle commanded_pos then dsub angle (dmul 2 M_PI)
      else if dsub angle commanded_pos < - M_PI then dadd angle (dmul 2 M_PI)
      else angle)"

definition polar_stepper_angle_calc_position :: "libm \<Rightarrow> calc_callback" where
  "polar_stepper_angle_calc_position lm cp ms i move_time =
     do { m \<leftarrow> rd ms i; let c = move_get_coord m move_time; Some (polar_angle cp (lm_atan2 lm (co_y c) (co_x c))) }"

definition polar_stepper_angle_post_fixup :: "double \<Rightarrow> double" where
  "polar_stepper_angle_post_fixup commanded_pos =
     (if commanded_pos < - M_PI then dadd commanded_pos (dmul 2 M_PI)
      else if M_PI < commanded_pos then dsub commanded_pos (dmul 2 M_PI)
      else commanded_pos)"

definition polar_stepper_alloc :: "libm \<Rightarrow> char \<Rightarrow> stepper_kinematics" where
  "polar_stepper_alloc lm type =
     (let sk = (if type = CHR ''r'' then sk_zero\<lparr>sk_calc_position_cb := polar_stepper_radius_calc_position\<rparr>
                else if type = CHR ''a'' then sk_zero\<lparr>sk_calc_position_cb := polar_stepper_angle_calc_position lm,
                                                      sk_post_cb := Some polar_stepper_angle_post_fixup\<rparr>
                else sk_zero)
      in sk\<lparr>sk_active_flags := or AF_X AF_Y\<rparr>)"

section \<open>Rotary delta\<close>

definition rotary_two_arm_calc :: "libm \<Rightarrow> double \<Rightarrow> double \<Rightarrow> double \<Rightarrow> double \<Rightarrow> double option" where
  "rotary_two_arm_calc lm dx dy upper_arm2 lower_arm2 =
     (if dy = 0 then None
      else do {
        let inv_dy = ddiv 1 dy;
        let c1 = dmul (dmul (1 / 2) inv_dy) (dsub (dadd (dadd (dmul dx dx) (dmul dy dy)) upper_arm2) lower_arm2);
        let c2 = dmul dx inv_dy;
        let scale = dadd (dmul c2 c2) 1;
        r \<leftarrow> dsqrt (dsub (dmul scale upper_arm2) (dmul c1 c1));
        let scaled_elbow_x = dadd (dmul c1 c2) r;
        let scaled_elbow_y = dsub (dmul c1 scale) (dmul c2 scaled_elbow_x);
        Some (lm_atan2 lm scaled_elbow_y scaled_elbow_x) })"

record rotary_stepper =
  rs_cos :: double
  rs_sin :: double
  rs_shoulder_radius :: double
  rs_shoulder_height :: double
  rs_upper_arm2 :: double
  rs_lower_arm2 :: double

definition rotary_stepper_calc_position :: "libm \<Rightarrow> rotary_stepper \<Rightarrow> calc_callback" where
  "rotary_stepper_calc_position lm rs cp ms i move_time =
     do { m \<leftarrow> rd ms i; let c = move_get_coord m move_time;
          let sjz = dsub (dmul (co_y c) (rs_cos rs)) (dmul (co_x c) (rs_sin rs));
          let sjx = dsub (dadd (dmul (co_x c) (rs_cos rs)) (dmul (co_y c) (rs_sin rs))) (rs_shoulder_radius rs);
          let sjy = dsub (co_z c) (rs_shoulder_height rs);
          rotary_two_arm_calc lm sjx sjy (rs_upper_arm2 rs) (dsub (rs_lower_arm2 rs) (dmul sjz sjz)) }"

definition rotary_delta_stepper_alloc :: "libm \<Rightarrow> double \<Rightarrow> double \<Rightarrow> double \<Rightarrow> double \<Rightarrow> double \<Rightarrow> stepper_kinematics" where
  "rotary_delta_stepper_alloc lm shoulder_radius shoulder_height angle upper_arm lower_arm =
     sk_zero\<lparr>sk_calc_position_cb := rotary_stepper_calc_position lm
               \<lparr>rs_cos = lm_cos lm angle, rs_sin = lm_sin lm angle, rs_shoulder_radius = shoulder_radius,
                rs_shoulder_height = shoulder_height, rs_upper_arm2 = dmul upper_arm upper_arm,
                rs_lower_arm2 = dmul lower_arm lower_arm\<rparr>,
             sk_active_flags := or (or AF_X AF_Y) AF_Z\<rparr>"

section \<open>Dual carriages\<close>

definition DUMMY_T :: double where "DUMMY_T = 500"

text \<open>The object keeps a pointer to the original kinematics, which its owner goes on changing: the
  address of an object in a store. \<open>dc_cb\<close>: the callback has been set. The object's move has no velocity
  and is only a place for a position.\<close>

type_synonym sk_store = "nat \<Rightarrow> stepper_kinematics"

record dual_carriage_stepper =
  dc_sk :: stepper_kinematics
  dc_cb :: bool
  dc_orig_sk :: "nat option"
  dc_m :: trap_move
  dc_x_scale :: double
  dc_x_offs :: double
  dc_y_scale :: double
  dc_y_offs :: double

text \<open>The callback changes the object's move.\<close>

definition dual_carriage_calc_position ::
  "sk_store \<Rightarrow> dual_carriage_stepper \<Rightarrow> trap_move list \<Rightarrow> nat \<Rightarrow> double \<Rightarrow> (double \<times> dual_carriage_stepper) option" where
  "dual_carriage_calc_position st dc ms i move_time =
     do { m \<leftarrow> rd ms i;
          let pos = move_get_coord m move_time;
          let pos = \<lparr>co_x = dadd (dmul (co_x pos) (dc_x_scale dc)) (dc_x_offs dc),
                     co_y = dadd (dmul (co_y pos) (dc_y_scale dc)) (dc_y_offs dc), co_z = co_z pos\<rparr>;
          let dc = dc\<lparr>dc_m := (dc_m dc)\<lparr>tm_start_pos := pos\<rparr>\<rparr>;
          orig_sk \<leftarrow> map_option st (dc_orig_sk dc);
          p \<leftarrow> sk_calc_position_cb orig_sk (sk_commanded_pos orig_sk) [dc_m dc] 0 DUMMY_T;
          Some (p, dc) }"

definition dual_carriage_sk :: "sk_store \<Rightarrow> dual_carriage_stepper \<Rightarrow> stepper_kinematics" where
  "dual_carriage_sk st dc = (dc_sk dc)\<lparr>sk_calc_position_cb :=
     (\<lambda>_ ms i t. if dc_cb dc then map_option fst (dual_carriage_calc_position st dc ms i t) else None)\<rparr>"

definition dual_carriage_set_sk :: "sk_store \<Rightarrow> nat \<Rightarrow> dual_carriage_stepper \<Rightarrow> dual_carriage_stepper" where
  "dual_carriage_set_sk st orig_sk dc =
     dc\<lparr>dc_cb := True, dc_sk := (dc_sk dc)\<lparr>sk_active_flags := sk_active_flags (st orig_sk)\<rparr>, dc_orig_sk := Some orig_sk\<rparr>"

text \<open>The flags after an axis was given the scale \<open>scale\<close>.\<close>

definition axis_flags :: "u32 \<Rightarrow> double \<Rightarrow> u32 \<Rightarrow> u32 \<Rightarrow> u32" where
  "axis_flags af scale orig flags =
     (if scale = 0 then and flags (not af) else if and orig af \<noteq> 0 then or flags af else flags)"

definition dual_carriage_set_transform ::
  "sk_store \<Rightarrow> char \<Rightarrow> double \<Rightarrow> double \<Rightarrow> dual_carriage_stepper \<Rightarrow> (int \<times> dual_carriage_stepper) option" where
  "dual_carriage_set_transform st axis scale offs dc =
     (if axis = CHR ''x'' then do {
        let dc = dc\<lparr>dc_x_scale := scale, dc_x_offs := offs\<rparr>;
        orig \<leftarrow> (if scale = 0 then Some 0 else map_option (sk_active_flags \<circ> st) (dc_orig_sk dc));
        Some (0, dc\<lparr>dc_sk := (dc_sk dc)\<lparr>sk_active_flags := axis_flags AF_X scale orig (sk_active_flags (dc_sk dc))\<rparr>\<rparr>) }
      else if axis = CHR ''y'' then do {
        let dc = dc\<lparr>dc_y_scale := scale, dc_y_offs := offs\<rparr>;
        orig \<leftarrow> (if scale = 0 then Some 0 else map_option (sk_active_flags \<circ> st) (dc_orig_sk dc));
        Some (0, dc\<lparr>dc_sk := (dc_sk dc)\<lparr>sk_active_flags := axis_flags AF_Y scale orig (sk_active_flags (dc_sk dc))\<rparr>\<rparr>) }
      else Some (- 1, dc))"

definition dual_carriage_alloc :: dual_carriage_stepper where
  "dual_carriage_alloc = \<lparr>dc_sk = sk_zero, dc_cb = False, dc_orig_sk = None, dc_m = trap_move_alloc\<lparr>tm_move_t := 2 * DUMMY_T\<rparr>,
     dc_x_scale = 1, dc_x_offs = 0, dc_y_scale = 1, dc_y_offs = 0\<rparr>"

section \<open>Extruders\<close>

record pa_params =
  pa_pressure_advance :: double
  pa_active_print_time :: double

record extruder_stepper =
  es_sk :: stepper_kinematics
  es_pa_list :: "pa_params list"
  es_half_smooth_time :: double
  es_inv_half_smooth_time2 :: double

definition THIRD :: double where "THIRD = ddiv 1 3"

definition extruder_integrate :: "double \<Rightarrow> double \<Rightarrow> double \<Rightarrow> double \<Rightarrow> double \<Rightarrow> double" where
  "extruder_integrate base start_v half_accel start en =
     (let half_v = dmul (1 / 2) start_v; sixth_a = dmul THIRD half_accel;
          si = dmul start (dadd base (dmul start (dadd half_v (dmul start sixth_a))));
          ei = dmul en (dadd base (dmul en (dadd half_v (dmul en sixth_a))))
      in dsub ei si)"

definition extruder_integrate_time :: "double \<Rightarrow> double \<Rightarrow> double \<Rightarrow> double \<Rightarrow> double \<Rightarrow> double" where
  "extruder_integrate_time base start_v half_accel start en =
     (let half_b = dmul (1 / 2) base; third_v = dmul THIRD start_v; eighth_a = dmul (1 / 4) half_accel;
          si = dmul (dmul start start) (dadd half_b (dmul start (dadd third_v (dmul start eighth_a))));
          ei = dmul (dmul en en) (dadd half_b (dmul en (dadd third_v (dmul en eighth_a))))
      in dsub ei si)"

text \<open>The search for the pressure advance of a move, from the last entry of the list backwards.\<close>

fun pa_search :: "double \<Rightarrow> pa_params list \<Rightarrow> double option" where
  "pa_search print_time [] = None"
| "pa_search print_time [pa] = Some (pa_pressure_advance pa)"
| "pa_search print_time (pa # pb # ps) =
     (if print_time < pa_active_print_time pa then pa_search print_time (pb # ps) else Some (pa_pressure_advance pa))"

definition move_pressure_advance :: "pa_params list \<Rightarrow> trap_move \<Rightarrow> double option" where
  "move_pressure_advance pa_list m =
     (if co_y (tm_axes_r m) \<noteq> 0 then pa_search (tm_print_time m) (rev pa_list) else Some 0)"

definition pa_move_integrate ::
  "trap_move \<Rightarrow> pa_params list \<Rightarrow> double \<Rightarrow> double \<Rightarrow> double \<Rightarrow> double \<Rightarrow> double option" where
  "pa_move_integrate m pa_list base start en time_offset =
     do { let start = (if start < 0 then 0 else start);
          let en = (if tm_move_t m < en then tm_move_t m else en);
          pressure_advance \<leftarrow> move_pressure_advance pa_list m;
          let base = dadd base (dmul pressure_advance (tm_start_v m));
          let start_v = dadd (tm_start_v m) (dmul (dmul pressure_advance 2) (tm_half_accel m));
          let ha = tm_half_accel m;
          let iext = extruder_integrate base start_v ha start en;
          let wgt_ext = extruder_integrate_time base start_v ha start en;
          Some (dsub wgt_ext (dmul time_offset iext)) }"

text \<open>The loops over the moves before and after the current one.\<close>

fun pa_prev_loop :: "trap_move list \<Rightarrow> pa_params list \<Rightarrow> double \<Rightarrow> nat \<Rightarrow> double \<Rightarrow> double \<Rightarrow> double option" where
  "pa_prev_loop ms pa_list start_base i start res =
     (if start < 0 then
        (if i = 0 then None
         else do {
           prev \<leftarrow> rd ms (i - 1);
           let start = dadd start (tm_move_t prev);
           let base = dsub (co_x (tm_start_pos prev)) start_base;
           r \<leftarrow> pa_move_integrate prev pa_list base start (tm_move_t prev) start;
           pa_prev_loop ms pa_list start_base (i - 1) start (dadd res r) })
      else Some res)"

function pa_next_loop :: "trap_move list \<Rightarrow> pa_params list \<Rightarrow> double \<Rightarrow> nat \<Rightarrow> double \<Rightarrow> double \<Rightarrow> double option" where
  "pa_next_loop ms pa_list start_base i en res =
     (if length ms \<le> i then None
      else if tm_move_t (ms ! i) < en then do {
        let en = dsub en (tm_move_t (ms ! i));
        m \<leftarrow> rd ms (Suc i);
        let base = dsub (co_x (tm_start_pos m)) start_base;
        r \<leftarrow> pa_move_integrate m pa_list base 0 en en;
        pa_next_loop ms pa_list start_base (Suc i) en (dsub res r) }
      else Some res)"
  by pat_completeness auto
termination
  by (relation "measure (\<lambda>(ms, _, _, i, _). length ms - i)") auto

declare pa_prev_loop.simps [simp del]

declare pa_next_loop.simps [simp del]

definition pa_range_integrate :: "trap_move list \<Rightarrow> nat \<Rightarrow> double \<Rightarrow> pa_params list \<Rightarrow> double \<Rightarrow> double option" where
  "pa_range_integrate ms i move_time pa_list hst =
     do { m \<leftarrow> rd ms i;
          let start = dsub move_time hst;
          let en = dadd move_time hst;
          let start_base = co_x (tm_start_pos m);
          r1 \<leftarrow> pa_move_integrate m pa_list 0 start move_time start;
          r2 \<leftarrow> pa_move_integrate m pa_list 0 move_time en en;
          res \<leftarrow> pa_prev_loop ms pa_list start_base i start (dsub (dadd 0 r1) r2);
          pa_next_loop ms pa_list start_base i en res }"

definition extruder_calc_position :: "extruder_stepper \<Rightarrow> calc_callback" where
  "extruder_calc_position es cp ms i move_time =
     do { m \<leftarrow> rd ms i;
          let hst = es_half_smooth_time es;
          if hst = 0 then Some (dadd (co_x (tm_start_pos m)) (move_get_distance m move_time))
          else do {
            area \<leftarrow> pa_range_integrate ms i move_time (es_pa_list es) hst;
            Some (dadd (co_x (tm_start_pos m)) (dmul area (es_inv_half_smooth_time2 es))) } }"

definition extruder_sk :: "extruder_stepper \<Rightarrow> stepper_kinematics" where
  "extruder_sk es = (es_sk es)\<lparr>sk_calc_position_cb := extruder_calc_position es\<rparr>"

fun pa_cleanup :: "double \<Rightarrow> pa_params list \<Rightarrow> pa_params list" where
  "pa_cleanup cleanup_time (pa # pb # ps) =
     (if cleanup_time \<le> pa_active_print_time pb then pa # pb # ps else pa_cleanup cleanup_time (pb # ps))"
| "pa_cleanup cleanup_time ps = ps"

definition extruder_set_pressure_advance ::
  "double \<Rightarrow> double \<Rightarrow> double \<Rightarrow> extruder_stepper \<Rightarrow> extruder_stepper option" where
  "extruder_set_pressure_advance print_time pressure_advance smooth_time es =
     (let hst = dmul smooth_time (1 / 2);
          old_hst = es_half_smooth_time es;
          es = es\<lparr>es_half_smooth_time := hst,
                  es_sk := (es_sk es)\<lparr>sk_gen_steps_pre_active := hst, sk_gen_steps_post_active := hst\<rparr>\<rparr>;
          cleanup_time = dsub (sk_last_flush_time (es_sk es)) (if hst < old_hst then old_hst else hst)
      in if es_pa_list es = [] then None
         else let es = es\<lparr>es_pa_list := pa_cleanup cleanup_time (es_pa_list es)\<rparr> in
           if hst = 0 then Some es
           else let es = es\<lparr>es_inv_half_smooth_time2 := ddiv 1 (dmul hst hst)\<rparr> in
             if pa_pressure_advance (last (es_pa_list es)) = pressure_advance then Some es
             else Some (es\<lparr>es_pa_list := es_pa_list es @
                    [\<lparr>pa_pressure_advance = pressure_advance, pa_active_print_time = print_time\<rparr>]\<rparr>))"

definition extruder_stepper_alloc :: extruder_stepper where
  "extruder_stepper_alloc = \<lparr>es_sk = sk_zero\<lparr>sk_active_flags := AF_X\<rparr>,
     es_pa_list = [\<lparr>pa_pressure_advance = 0, pa_active_print_time = 0\<rparr>], es_half_smooth_time = 0, es_inv_half_smooth_time2 = 0\<rparr>"

section \<open>Input shapers\<close>

text \<open>A shaper is the list of its first \<^verbatim>\<open>num_pulses\<close> pulses, of at most five.\<close>

record pulse =
  pu_t :: double
  pu_a :: double

type_synonym shaper_pulses = "pulse list"

definition shift_pulses :: "shaper_pulses \<Rightarrow> shaper_pulses" where
  "shift_pulses sp =
     (let ts = foldl (\<lambda>ts p. dadd ts (dmul (pu_a p) (pu_t p))) 0 sp in map (\<lambda>p. p\<lparr>pu_t := dsub (pu_t p) ts\<rparr>) sp)"

text \<open>\<open>None\<close> is a read past the arguments' arrays, or amplitudes that add up to zero.\<close>

definition init_shaper :: "int \<Rightarrow> double list \<Rightarrow> double list \<Rightarrow> (int \<times> shaper_pulses) option" where
  "init_shaper n a t =
     (if n < 0 \<or> 5 < n then Some (- 1, [])
      else if length a < nat n \<or> length t < nat n then None
      else let a = take (nat n) a; t = take (nat n) t; sum_a = foldl dadd 0 a in
        if n \<noteq> 0 \<and> sum_a = 0 then None
        else let inv_a = ddiv 1 sum_a
             in Some (0, shift_pulses (rev (map2 (\<lambda>x y. \<lparr>pu_t = - y, pu_a = dmul x inv_a\<rparr>) a t))))"

definition axis_of :: "char \<Rightarrow> coord \<Rightarrow> double" where
  "axis_of axis = (if axis = CHR ''x'' then co_x else if axis = CHR ''y'' then co_y else co_z)"

definition get_axis_position :: "trap_move \<Rightarrow> char \<Rightarrow> double \<Rightarrow> double" where
  "get_axis_position m axis move_time =
     dadd (axis_of axis (tm_start_pos m)) (dmul (axis_of axis (tm_axes_r m)) (move_get_distance m move_time))"

text \<open>The two loops of \<^verbatim>\<open>get_axis_position_across_moves\<close>.\<close>

fun seek_prev :: "trap_move list \<Rightarrow> nat \<Rightarrow> double \<Rightarrow> (nat \<times> double) option" where
  "seek_prev ms i time =
     (if time < 0 then
        (if i = 0 then None else do { m \<leftarrow> rd ms (i - 1); seek_prev ms (i - 1) (dadd time (tm_move_t m)) })
      else Some (i, time))"

function seek_next :: "trap_move list \<Rightarrow> nat \<Rightarrow> double \<Rightarrow> (nat \<times> double) option" where
  "seek_next ms i time =
     (if length ms \<le> i then None
      else if tm_move_t (ms ! i) < time then seek_next ms (Suc i) (dsub time (tm_move_t (ms ! i)))
      else Some (i, time))"
  by pat_completeness auto
termination
  by (relation "measure (\<lambda>(ms, i, _). length ms - i)") auto

declare seek_prev.simps [simp del]

declare seek_next.simps [simp del]

definition get_axis_position_across_moves :: "trap_move list \<Rightarrow> nat \<Rightarrow> char \<Rightarrow> double \<Rightarrow> double option" where
  "get_axis_position_across_moves ms i axis time =
     do { (i, time) \<leftarrow> seek_prev ms i time;
          (i, time) \<leftarrow> seek_next ms i time;
          m \<leftarrow> rd ms i;
          Some (get_axis_position m axis time) }"

fun pulses_loop :: "trap_move list \<Rightarrow> nat \<Rightarrow> char \<Rightarrow> double \<Rightarrow> shaper_pulses \<Rightarrow> double \<Rightarrow> double option" where
  "pulses_loop ms i axis move_time [] res = Some res"
| "pulses_loop ms i axis move_time (p # ps) res =
     do { pos \<leftarrow> get_axis_position_across_moves ms i axis (dadd move_time (pu_t p));
          pulses_loop ms i axis move_time ps (dadd res (dmul (pu_a p) pos)) }"

definition calc_position :: "trap_move list \<Rightarrow> nat \<Rightarrow> char \<Rightarrow> double \<Rightarrow> shaper_pulses \<Rightarrow> double option" where
  "calc_position ms i axis move_time sp = pulses_loop ms i axis move_time sp 0"

text \<open>The callback of an object that is in use.\<close>

datatype shaper_callback = Shaper_x | Shaper_y | Shaper_xy

record input_shaper =
  is_sk :: stepper_kinematics
  is_cb :: "shaper_callback option"
  is_post :: bool
  is_orig_sk :: "stepper_kinematics option"
  is_m :: trap_move
  is_sx :: shaper_pulses
  is_sy :: shaper_pulses

definition set_start :: "(coord \<Rightarrow> coord) \<Rightarrow> input_shaper \<Rightarrow> input_shaper" where
  "set_start f is = is\<lparr>is_m := (is_m is)\<lparr>tm_start_pos := f (tm_start_pos (is_m is))\<rparr>\<rparr>"

text \<open>The call of the original callback, on a move of the queue and on the object's own.\<close>

definition orig_on_queue :: "input_shaper \<Rightarrow> trap_move list \<Rightarrow> nat \<Rightarrow> double \<Rightarrow> (double \<times> input_shaper) option" where
  "orig_on_queue is ms i t =
     do { orig_sk \<leftarrow> is_orig_sk is; p \<leftarrow> sk_calc_position_cb orig_sk (sk_commanded_pos orig_sk) ms i t; Some (p, is) }"

definition orig_on_own :: "input_shaper \<Rightarrow> (double \<times> input_shaper) option" where
  "orig_on_own is =
     do { orig_sk \<leftarrow> is_orig_sk is;
          p \<leftarrow> sk_calc_position_cb orig_sk (sk_commanded_pos orig_sk) [is_m is] 0 DUMMY_T; Some (p, is) }"

definition shaper_x_calc_position :: "input_shaper \<Rightarrow> trap_move list \<Rightarrow> nat \<Rightarrow> double \<Rightarrow> (double \<times> input_shaper) option" where
  "shaper_x_calc_position is ms i move_time =
     (if is_sx is = [] then orig_on_queue is ms i move_time
      else do { x \<leftarrow> calc_position ms i CHR ''x'' move_time (is_sx is);
                orig_on_own (set_start (\<lambda>c. c\<lparr>co_x := x\<rparr>) is) })"

definition shaper_y_calc_position :: "input_shaper \<Rightarrow> trap_move list \<Rightarrow> nat \<Rightarrow> double \<Rightarrow> (double \<times> input_shaper) option" where
  "shaper_y_calc_position is ms i move_time =
     (if is_sy is = [] then orig_on_queue is ms i move_time
      else do { y \<leftarrow> calc_position ms i CHR ''y'' move_time (is_sy is);
                orig_on_own (set_start (\<lambda>c. c\<lparr>co_y := y\<rparr>) is) })"

definition shaper_xy_calc_position :: "input_shaper \<Rightarrow> trap_move list \<Rightarrow> nat \<Rightarrow> double \<Rightarrow> (double \<times> input_shaper) option" where
  "shaper_xy_calc_position is ms i move_time =
     (if is_sx is = [] \<and> is_sy is = [] then orig_on_queue is ms i move_time
      else do {
        m \<leftarrow> rd ms i;
        let is = set_start (\<lambda>_. move_get_coord m move_time) is;
        is \<leftarrow> (if is_sx is \<noteq> [] then do { x \<leftarrow> calc_position ms i CHR ''x'' move_time (is_sx is);
                                          Some (set_start (\<lambda>c. c\<lparr>co_x := x\<rparr>) is) } else Some is);
        is \<leftarrow> (if is_sy is \<noteq> [] then do { y \<leftarrow> calc_position ms i CHR ''y'' move_time (is_sy is);
                                          Some (set_start (\<lambda>c. c\<lparr>co_y := y\<rparr>) is) } else Some is);
        orig_on_own is })"

definition shaper_calc_position :: "input_shaper \<Rightarrow> trap_move list \<Rightarrow> nat \<Rightarrow> double \<Rightarrow> (double \<times> input_shaper) option" where
  "shaper_calc_position is ms i t =
     (case is_cb is of None \<Rightarrow> None
      | Some Shaper_x \<Rightarrow> shaper_x_calc_position is ms i t
      | Some Shaper_y \<Rightarrow> shaper_y_calc_position is ms i t
      | Some Shaper_xy \<Rightarrow> shaper_xy_calc_position is ms i t)"

definition shaper_commanded_pos_post_fixup :: "input_shaper \<Rightarrow> input_shaper option" where
  "shaper_commanded_pos_post_fixup is =
     do { orig_sk \<leftarrow> is_orig_sk is;
          let orig_sk = orig_sk\<lparr>sk_commanded_pos := sk_commanded_pos (is_sk is)\<rparr>;
          f \<leftarrow> sk_post_cb orig_sk;
          let orig_sk = orig_sk\<lparr>sk_commanded_pos := f (sk_commanded_pos orig_sk)\<rparr>;
          Some (is\<lparr>is_orig_sk := Some orig_sk, is_sk := (is_sk is)\<lparr>sk_commanded_pos := sk_commanded_pos orig_sk\<rparr>\<rparr>) }"

text \<open>What the solver sees. Where the original kinematics has a post callback, its commanded position is
  that of the shaper whenever the callbacks are called.\<close>

definition shaper_sk :: "input_shaper \<Rightarrow> stepper_kinematics" where
  "shaper_sk is = (is_sk is)\<lparr>
     sk_calc_position_cb := (\<lambda>cp ms i t. map_option fst (shaper_calc_position
       (if is_post is then is\<lparr>is_orig_sk := map_option (\<lambda>o'. o'\<lparr>sk_commanded_pos := cp\<rparr>) (is_orig_sk is)\<rparr> else is) ms i t)),
     sk_post_cb := (if is_post is then Option.bind (is_orig_sk is) sk_post_cb else None)\<rparr>"

definition shaper_note_generation_time :: "input_shaper \<Rightarrow> input_shaper" where
  "shaper_note_generation_time is =
     (let flags = sk_active_flags (is_sk is); sx = is_sx is; sy = is_sy is;
          x = (and flags AF_X \<noteq> 0 \<and> sx \<noteq> []);
          y = (and flags AF_Y \<noteq> 0 \<and> sy \<noteq> []);
          pre_active = (if x then pu_t (last sx) else 0);
          post_active = (if x then - pu_t (hd sx) else 0);
          pre_active = (if y \<and> pre_active < pu_t (last sy) then pu_t (last sy) else pre_active);
          post_active = (if y \<and> post_active < - pu_t (hd sy) then - pu_t (hd sy) else post_active)
      in is\<lparr>is_sk := (is_sk is)\<lparr>sk_gen_steps_pre_active := pre_active, sk_gen_steps_post_active := post_active\<rparr>\<rparr>)"

definition input_shaper_update_sk :: "input_shaper \<Rightarrow> input_shaper option" where
  "input_shaper_update_sk is =
     do { orig_sk \<leftarrow> is_orig_sk is;
          let flags = sk_active_flags orig_sk;
          let is = (if and flags (or AF_X AF_Y) = or AF_X AF_Y then is\<lparr>is_cb := Some Shaper_xy\<rparr>
                    else if and flags AF_X \<noteq> 0 then is\<lparr>is_cb := Some Shaper_x\<rparr>
                    else if and flags AF_Y \<noteq> 0 then is\<lparr>is_cb := Some Shaper_y\<rparr>
                    else is);
          Some (shaper_note_generation_time (is\<lparr>is_sk := (is_sk is)\<lparr>sk_active_flags := flags\<rparr>\<rparr>)) }"

definition input_shaper_set_sk :: "stepper_kinematics \<Rightarrow> input_shaper \<Rightarrow> int \<times> input_shaper" where
  "input_shaper_set_sk orig_sk is =
     (let flags = sk_active_flags orig_sk;
          cb = (if flags = AF_X then Some Shaper_x else if flags = AF_Y then Some Shaper_y
                else if and flags (or AF_X AF_Y) \<noteq> 0 then Some Shaper_xy else None)
      in if cb = None then (- 1, is)
         else (0, is\<lparr>is_cb := cb, is_orig_sk := Some orig_sk,
                is_sk := (is_sk is)\<lparr>sk_active_flags := flags, sk_commanded_pos := sk_commanded_pos orig_sk,
                  sk_last_flush_time := sk_last_flush_time orig_sk, sk_last_move_time := sk_last_move_time orig_sk\<rparr>,
                is_post := is_post is \<or> sk_post_cb orig_sk \<noteq> None\<rparr>))"

definition input_shaper_set_shaper_params ::
  "char \<Rightarrow> int \<Rightarrow> double list \<Rightarrow> double list \<Rightarrow> input_shaper \<Rightarrow> (int \<times> input_shaper) option" where
  "input_shaper_set_shaper_params axis n a t is =
     (if axis \<noteq> CHR ''x'' \<and> axis \<noteq> CHR ''y'' then Some (- 1, is)
      else do {
        orig_sk \<leftarrow> is_orig_sk is;
        if and (sk_active_flags orig_sk) (if axis = CHR ''x'' then AF_X else AF_Y) \<noteq> 0 then do {
          (status, sp) \<leftarrow> init_shaper n a t;
          let is = (if axis = CHR ''x'' then is\<lparr>is_sx := sp\<rparr> else is\<lparr>is_sy := sp\<rparr>);
          Some (status, shaper_note_generation_time is) }
        else Some (0, is) })"

definition input_shaper_get_step_generation_window :: "input_shaper \<Rightarrow> double" where
  "input_shaper_get_step_generation_window is =
     (if sk_gen_steps_post_active (is_sk is) < sk_gen_steps_pre_active (is_sk is)
      then sk_gen_steps_pre_active (is_sk is) else sk_gen_steps_post_active (is_sk is))"

definition input_shaper_alloc :: input_shaper where
  "input_shaper_alloc = \<lparr>is_sk = sk_zero, is_cb = None, is_post = False, is_orig_sk = None,
     is_m = trap_move_alloc\<lparr>tm_move_t := 2 * DUMMY_T\<rparr>, is_sx = [], is_sy = []\<rparr>"

section \<open>A position depends on the active axes only\<close>

text \<open>Two coordinates that agree on the axes of the flags.\<close>

definition agree :: "u32 \<Rightarrow> coord \<Rightarrow> coord \<Rightarrow> bool" where
  "agree af c d \<longleftrightarrow> (and af AF_X \<noteq> 0 \<longrightarrow> co_x c = co_x d) \<and> (and af AF_Y \<noteq> 0 \<longrightarrow> co_y c = co_y d) \<and>
     (and af AF_Z \<noteq> 0 \<longrightarrow> co_z c = co_z d)"

definition by_axes :: "u32 \<Rightarrow> calc_callback \<Rightarrow> bool" where
  "by_axes af cb \<longleftrightarrow> (\<forall>cp ms i t ms' i' t'. i < length ms \<longrightarrow> i' < length ms' \<longrightarrow>
     agree af (move_get_coord (ms ! i) t) (move_get_coord (ms' ! i') t') \<longrightarrow> cb cp ms i t = cb cp ms' i' t')"

text \<open>The kinematics whose position is given by the current move alone: all but extruders and input
  shapers. The solver changes only the other fields of an object. A dual carriage is followed
  through all operations on it and through changes of the objects in the store, except that the
  active flags of its original must not change until the original is set again.\<close>

inductive local_kin :: "libm \<Rightarrow> stepper_kinematics \<Rightarrow> bool"
  and dual_reach :: "libm \<Rightarrow> sk_store \<Rightarrow> dual_carriage_stepper \<Rightarrow> bool" for lm where
  local_cartesian: "local_kin lm (cartesian_stepper_alloc axis)"
| local_corexy: "local_kin lm (corexy_stepper_alloc type)"
| local_corexz: "local_kin lm (corexz_stepper_alloc type)"
| local_generic: "local_kin lm (generic_cartesian_stepper_alloc a_x a_y a_z)"
| local_coeffs: "local_kin lm (generic_cartesian_stepper_set_coeffs a_x a_y a_z sk)"
| local_delta: "local_kin lm (delta_stepper_alloc arm2 tower_x tower_y)"
| local_deltesian: "local_kin lm (deltesian_stepper_alloc arm2 arm_x)"
| local_winch: "local_kin lm (winch_stepper_alloc anchor_x anchor_y anchor_z)"
| local_polar: "local_kin lm (polar_stepper_alloc lm type)"
| local_rotary: "local_kin lm (rotary_delta_stepper_alloc lm radius height angle upper_arm lower_arm)"
| local_dual: "dual_reach lm st dc \<Longrightarrow> local_kin lm (dual_carriage_sk st dc)"
| local_solver: "local_kin lm sk \<Longrightarrow> sk_calc_position_cb sk' = sk_calc_position_cb sk \<Longrightarrow>
    sk_active_flags sk' = sk_active_flags sk \<Longrightarrow> local_kin lm sk'"
| dual_alloc: "(\<And>a. local_kin lm (st a)) \<Longrightarrow> dual_reach lm st dual_carriage_alloc"
| dual_set_sk: "dual_reach lm st dc \<Longrightarrow> (\<And>a. local_kin lm (st' a)) \<Longrightarrow> dual_reach lm st' (dual_carriage_set_sk st' orig_sk dc)"
| dual_set_transform: "dual_reach lm st dc \<Longrightarrow> dual_carriage_set_transform st axis scale offs dc = Some (r, dc') \<Longrightarrow> dual_reach lm st dc'"
| dual_store: "dual_reach lm st dc \<Longrightarrow> local_kin lm sk \<Longrightarrow>
    dc_orig_sk dc = Some a \<longrightarrow> sk_active_flags sk = sk_active_flags (st a) \<Longrightarrow> dual_reach lm (st(a := sk)) dc"

lemma af_bits [simp]:
  "and AF_X AF_X = AF_X" "and AF_Y AF_Y = AF_Y" "and AF_Z AF_Z = AF_Z" "and AF_X AF_Y = 0" "and AF_X AF_Z = 0"
  "and AF_Y AF_X = 0" "and AF_Y AF_Z = 0" "and AF_Z AF_X = 0" "and AF_Z AF_Y = 0" "AF_X \<noteq> 0" "AF_Y \<noteq> 0" "AF_Z \<noteq> 0"
  by (simp_all add: AF_X_def AF_Y_def AF_Z_def)

lemma af_or [simp]: "and (or a b) (c :: u32) = or (and a c) (and b c)"
  by (simp add: bit.conj_disj_distrib2)

lemma sk_zero_simps [simp]: "sk_active_flags sk_zero = 0" "sk_calc_position_cb sk_zero = (\<lambda>_ _ _ _. None)"
  by (simp_all add: sk_zero_def)

lemma by_axes_None [simp]: "by_axes af (\<lambda>_ _ _ _. None)"
  by (simp add: by_axes_def)

lemma by_axesI:
  assumes "\<And>cp ms i t. i < length ms \<Longrightarrow> cb cp ms i t = f cp (move_get_coord (ms ! i) t)"
    and "\<And>cp c d. agree af c d \<Longrightarrow> f cp c = f cp d"
  shows "by_axes af cb"
  unfolding by_axes_def using assms by metis

lemma dmul_0 [simp]: "dmul 0 x = 0" "dmul x 0 = 0"
  by (simp_all add: dmul_def)

lemma by_axes_cartesian: "by_axes (sk_active_flags (cartesian_stepper_alloc axis)) (sk_calc_position_cb (cartesian_stepper_alloc axis))"
  by (auto simp: by_axes_def agree_def cartesian_stepper_alloc_def cart_stepper_x_calc_position_def
      cart_stepper_y_calc_position_def cart_stepper_z_calc_position_def rd_def)

lemma by_axes_corexy: "by_axes (sk_active_flags (corexy_stepper_alloc type)) (sk_calc_position_cb (corexy_stepper_alloc type))"
  by (auto simp: by_axes_def agree_def corexy_stepper_alloc_def corexy_stepper_plus_calc_position_def
      corexy_stepper_minus_calc_position_def rd_def Let_def)

lemma by_axes_corexz: "by_axes (sk_active_flags (corexz_stepper_alloc type)) (sk_calc_position_cb (corexz_stepper_alloc type))"
  by (auto simp: by_axes_def agree_def corexz_stepper_alloc_def corexz_stepper_plus_calc_position_def
      corexz_stepper_minus_calc_position_def rd_def Let_def)

lemma by_axes_generic:
  "by_axes (sk_active_flags (generic_cartesian_stepper_set_coeffs a_x a_y a_z sk))
     (sk_calc_position_cb (generic_cartesian_stepper_set_coeffs a_x a_y a_z sk))"
proof (rule by_axesI [where f = "\<lambda>cp c. Some (dadd (dadd (dmul a_x (co_x c)) (dmul a_y (co_y c))) (dmul a_z (co_z c)))"])
  show "sk_calc_position_cb (generic_cartesian_stepper_set_coeffs a_x a_y a_z sk) cp ms i t =
      Some (dadd (dadd (dmul a_x (co_x (move_get_coord (ms ! i) t))) (dmul a_y (co_y (move_get_coord (ms ! i) t))))
        (dmul a_z (co_z (move_get_coord (ms ! i) t))))" if "i < length ms" for cp ms i t
    using that by (simp add: generic_cartesian_stepper_set_coeffs_def generic_cartesian_stepper_calc_position_def rd_def Let_def)
  show "Some (dadd (dadd (dmul a_x (co_x c)) (dmul a_y (co_y c))) (dmul a_z (co_z c))) =
      Some (dadd (dadd (dmul a_x (co_x d)) (dmul a_y (co_y d))) (dmul a_z (co_z d)))"
    if a: "agree (sk_active_flags (generic_cartesian_stepper_set_coeffs a_x a_y a_z sk)) c d" for c d
  proof -
    have "a_x = 0 \<or> co_x c = co_x d" "a_y = 0 \<or> co_y c = co_y d" "a_z = 0 \<or> co_z c = co_z d"
      using a by (auto simp: agree_def generic_cartesian_stepper_set_coeffs_def Let_def split: if_splits)
    then have "dmul a_x (co_x c) = dmul a_x (co_x d)" "dmul a_y (co_y c) = dmul a_y (co_y d)" "dmul a_z (co_z c) = dmul a_z (co_z d)"
      by auto
    then show ?thesis by simp
  qed
qed

lemma agree_all: "agree (or (or AF_X AF_Y) AF_Z) c d \<longleftrightarrow> c = d"
  by (cases c; cases d) (auto simp: agree_def)

lemma by_axes_arms:
  "by_axes (sk_active_flags (delta_stepper_alloc arm2 tower_x tower_y)) (sk_calc_position_cb (delta_stepper_alloc arm2 tower_x tower_y))"
  "by_axes (sk_active_flags (deltesian_stepper_alloc arm2 arm_x)) (sk_calc_position_cb (deltesian_stepper_alloc arm2 arm_x))"
  "by_axes (sk_active_flags (winch_stepper_alloc x y z)) (sk_calc_position_cb (winch_stepper_alloc x y z))"
  "by_axes (sk_active_flags (polar_stepper_alloc lm type)) (sk_calc_position_cb (polar_stepper_alloc lm type))"
  "by_axes (sk_active_flags (rotary_delta_stepper_alloc lm r h a u l)) (sk_calc_position_cb (rotary_delta_stepper_alloc lm r h a u l))"
proof -
  show "by_axes (sk_active_flags (delta_stepper_alloc arm2 tower_x tower_y)) (sk_calc_position_cb (delta_stepper_alloc arm2 tower_x tower_y))"
    by (simp add: by_axes_def delta_stepper_alloc_def agree_all delta_stepper_calc_position_def rd_def del: af_or)
  show "by_axes (sk_active_flags (deltesian_stepper_alloc arm2 arm_x)) (sk_calc_position_cb (deltesian_stepper_alloc arm2 arm_x))"
    by (simp add: by_axes_def deltesian_stepper_alloc_def agree_def deltesian_stepper_calc_position_def rd_def Let_def)
  show "by_axes (sk_active_flags (winch_stepper_alloc x y z)) (sk_calc_position_cb (winch_stepper_alloc x y z))"
    by (simp add: by_axes_def winch_stepper_alloc_def agree_all winch_stepper_calc_position_def rd_def del: af_or)
  show "by_axes (sk_active_flags (polar_stepper_alloc lm type)) (sk_calc_position_cb (polar_stepper_alloc lm type))"
    by (simp add: by_axes_def polar_stepper_alloc_def agree_def polar_stepper_radius_calc_position_def
        polar_stepper_angle_calc_position_def rd_def Let_def)
  show "by_axes (sk_active_flags (rotary_delta_stepper_alloc lm r h a u l)) (sk_calc_position_cb (rotary_delta_stepper_alloc lm r h a u l))"
    by (simp add: by_axes_def rotary_delta_stepper_alloc_def agree_all rotary_stepper_calc_position_def rd_def del: af_or)
qed

text \<open>A move without velocity, at a position.\<close>

definition at_rest :: "trap_move \<Rightarrow> bool" where
  "at_rest m \<longleftrightarrow> tm_axes_r m = zero_coord"

lemma rest_coord: "at_rest m \<Longrightarrow> move_get_coord (m\<lparr>tm_start_pos := p\<rparr>) t = \<lparr>co_x = rnd (co_x p), co_y = rnd (co_y p), co_z = rnd (co_z p)\<rparr>"
  by (simp add: at_rest_def move_get_coord_def zero_coord_def dadd_def)

definition has_axis :: "u32 \<Rightarrow> u32 \<Rightarrow> bool" where
  "has_axis af a \<longleftrightarrow> and af a \<noteq> 0"

definition dual_ok :: "sk_store \<Rightarrow> dual_carriage_stepper \<Rightarrow> bool" where
  "dual_ok st dc \<longleftrightarrow> at_rest (dc_m dc) \<and> (\<forall>a. by_axes (sk_active_flags (st a)) (sk_calc_position_cb (st a))) \<and>
     (\<forall>a. dc_orig_sk dc = Some a \<longrightarrow>
       (has_axis (sk_active_flags (st a)) AF_X \<longrightarrow> dc_x_scale dc \<noteq> 0 \<longrightarrow> has_axis (sk_active_flags (dc_sk dc)) AF_X) \<and>
       (has_axis (sk_active_flags (st a)) AF_Y \<longrightarrow> dc_y_scale dc \<noteq> 0 \<longrightarrow> has_axis (sk_active_flags (dc_sk dc)) AF_Y) \<and>
       (has_axis (sk_active_flags (st a)) AF_Z \<longrightarrow> has_axis (sk_active_flags (dc_sk dc)) AF_Z))"

lemma axis_flags_other:
  assumes "and a b = 0"
  shows "has_axis (axis_flags a scale orig flags) b \<longleftrightarrow> has_axis flags b"
proof -
  have "and (and flags (not a)) b = and flags b"
  proof (rule bit_word_eqI)
    fix n
    have "\<not> (bit a n \<and> bit b n)" using assms by (metis bit_and_iff bit_0_eq bot_apply bot_bool_def)
    then show "bit (and (and flags (not a)) b) n \<longleftrightarrow> bit (and flags b) n"
      by (auto simp: bit_simps dest: bit_imp_le_length)
  qed
  then show ?thesis using assms by (simp add: axis_flags_def has_axis_def)
qed

lemma axis_flags_on: "scale \<noteq> 0 \<Longrightarrow> has_axis orig a \<Longrightarrow> has_axis (axis_flags a scale orig flags) a"
  by (auto simp: axis_flags_def has_axis_def)

lemma dual_ok_transform:
  assumes "dual_ok st dc" and "dual_carriage_set_transform st axis scale offs dc = Some (r, dc')"
  shows "dual_ok st dc'"
proof -
  have o': "has_axis (axis_flags AF_X s orig f) AF_Y \<longleftrightarrow> has_axis f AF_Y" "has_axis (axis_flags AF_X s orig f) AF_Z \<longleftrightarrow> has_axis f AF_Z"
    "has_axis (axis_flags AF_Y s orig f) AF_X \<longleftrightarrow> has_axis f AF_X" "has_axis (axis_flags AF_Y s orig f) AF_Z \<longleftrightarrow> has_axis f AF_Z" for s orig f
    by (simp_all add: axis_flags_other)
  show ?thesis
    using assms
    by (auto simp: dual_carriage_set_transform_def dual_ok_def o' axis_flags_on Let_def split: if_splits option.splits bind_splits)
qed

lemma by_axes_dual:
  assumes "dual_ok st dc"
  shows "by_axes (sk_active_flags (dual_carriage_sk st dc)) (sk_calc_position_cb (dual_carriage_sk st dc))"
proof (cases "dc_cb dc")
  case True
  show ?thesis
  proof (cases "dc_orig_sk dc")
    case None
    then show ?thesis by (simp add: by_axes_def dual_carriage_sk_def dual_carriage_calc_position_def rd_def Let_def)
  next
    case (Some a)
    define orig where "orig = st a"
    define tr where "tr = (\<lambda>pos :: coord. \<lparr>co_x = dadd (dmul (co_x pos) (dc_x_scale dc)) (dc_x_offs dc),
                     co_y = dadd (dmul (co_y pos) (dc_y_scale dc)) (dc_y_offs dc), co_z = co_z pos\<rparr>)"
    define f where "f = (\<lambda>(cp :: double) c. sk_calc_position_cb orig (sk_commanded_pos orig) [(dc_m dc)\<lparr>tm_start_pos := tr c\<rparr>] 0 DUMMY_T)"
    have ok: "at_rest (dc_m dc)" "by_axes (sk_active_flags orig) (sk_calc_position_cb orig)"
      "has_axis (sk_active_flags orig) AF_X \<Longrightarrow> dc_x_scale dc \<noteq> 0 \<Longrightarrow> has_axis (sk_active_flags (dc_sk dc)) AF_X"
      "has_axis (sk_active_flags orig) AF_Y \<Longrightarrow> dc_y_scale dc \<noteq> 0 \<Longrightarrow> has_axis (sk_active_flags (dc_sk dc)) AF_Y"
      "has_axis (sk_active_flags orig) AF_Z \<Longrightarrow> has_axis (sk_active_flags (dc_sk dc)) AF_Z"
      using assms Some by (auto simp: dual_ok_def orig_def)
    have "sk_calc_position_cb (dual_carriage_sk st dc) cp ms i t = f cp (move_get_coord (ms ! i) t)" if "i < length ms" for cp ms i t
      using that True Some
      by (simp add: dual_carriage_sk_def dual_carriage_calc_position_def rd_def Let_def f_def tr_def orig_def map_option_bind o_def bind_map_option)
    moreover have "f cp c = f cp d" if a: "agree (sk_active_flags (dual_carriage_sk st dc)) c d" for cp c d
    proof -
      have ax: "has_axis (sk_active_flags (dc_sk dc)) AF_X \<Longrightarrow> co_x c = co_x d"
        "has_axis (sk_active_flags (dc_sk dc)) AF_Y \<Longrightarrow> co_y c = co_y d" "has_axis (sk_active_flags (dc_sk dc)) AF_Z \<Longrightarrow> co_z c = co_z d"
        using a by (simp_all add: agree_def dual_carriage_sk_def has_axis_def)
      have "dmul (co_x c) (dc_x_scale dc) = dmul (co_x d) (dc_x_scale dc)" if "has_axis (sk_active_flags orig) AF_X"
        using ok(3) [OF that] ax(1) by (cases "dc_x_scale dc = 0") simp_all
      moreover have "dmul (co_y c) (dc_y_scale dc) = dmul (co_y d) (dc_y_scale dc)" if "has_axis (sk_active_flags orig) AF_Y"
        using ok(4) [OF that] ax(2) by (cases "dc_y_scale dc = 0") simp_all
      ultimately have "agree (sk_active_flags orig) (tr c) (tr d)"
        using ok(5) ax(3) by (simp add: agree_def tr_def has_axis_def)
      then have "agree (sk_active_flags orig) (move_get_coord ((dc_m dc)\<lparr>tm_start_pos := tr c\<rparr>) DUMMY_T)
          (move_get_coord ((dc_m dc)\<lparr>tm_start_pos := tr d\<rparr>) DUMMY_T)"
        unfolding rest_coord [OF ok(1)] by (simp add: agree_def)
      then show ?thesis unfolding f_def using ok(2) by (simp add: by_axes_def)
    qed
    ultimately show ?thesis by (rule by_axesI)
  qed
qed (simp add: by_axes_def dual_carriage_sk_def)

lemma local_by_axes:
  "local_kin lm sk \<Longrightarrow> by_axes (sk_active_flags sk) (sk_calc_position_cb sk)"
  "dual_reach lm st dc \<Longrightarrow> dual_ok st dc"
proof (induction rule: local_kin_dual_reach.inducts)
  case (local_generic a_x a_y a_z)
  show ?case using by_axes_generic by (simp add: generic_cartesian_stepper_alloc_def)
next
  case (dual_alloc st)
  then show ?case by (simp add: dual_ok_def dual_carriage_alloc_def at_rest_def trap_move_alloc_def)
next
  case (dual_store st dc sk a)
  then show ?case by (auto simp: dual_ok_def)
next
  case (dual_set_sk st dc st' orig_sk)
  then show ?case by (simp add: dual_ok_def dual_carriage_set_sk_def)
qed (use by_axes_cartesian by_axes_corexy by_axes_corexz by_axes_generic by_axes_arms by_axes_dual dual_ok_transform in auto)

section \<open>The window of an input shaper\<close>

definition active_pulses :: "input_shaper \<Rightarrow> pulse set" where
  "active_pulses is = (if has_axis (sk_active_flags (is_sk is)) AF_X then set (is_sx is) else {})
     \<union> (if has_axis (sk_active_flags (is_sk is)) AF_Y then set (is_sy is) else {})"

definition pulses_ok :: "input_shaper \<Rightarrow> bool" where
  "pulses_ok is \<longleftrightarrow> sorted (map pu_t (is_sx is)) \<and> sorted (map pu_t (is_sy is))"

definition in_window :: "input_shaper \<Rightarrow> bool" where
  "in_window is \<longleftrightarrow> (\<forall>p\<in>active_pulses is. - sk_gen_steps_post_active (is_sk is) \<le> pu_t p \<and> pu_t p \<le> sk_gen_steps_pre_active (is_sk is))"

text \<open>The objects that the interface functions make, with times of pulses in ascending order, and
  with the changes that the callbacks, the solver and the owner of the original kinematics make.\<close>

inductive shaper_reach :: "input_shaper \<Rightarrow> bool" where
  shaper_alloc: "shaper_reach input_shaper_alloc"
| shaper_set_sk: "shaper_reach is \<Longrightarrow> is_orig_sk is = None \<Longrightarrow> input_shaper_set_sk orig is = (r, is') \<Longrightarrow> shaper_reach is'"
| shaper_update: "shaper_reach is \<Longrightarrow> input_shaper_update_sk is = Some is' \<Longrightarrow> shaper_reach is'"
| shaper_params: "shaper_reach is \<Longrightarrow> sorted (take (nat n) t) \<Longrightarrow>
    input_shaper_set_shaper_params axis n a t is = Some (r, is') \<Longrightarrow> shaper_reach is'"
| shaper_call: "shaper_reach is \<Longrightarrow> shaper_calc_position is ms i t = Some (p, is') \<Longrightarrow> shaper_reach is'"
| shaper_post: "shaper_reach is \<Longrightarrow> shaper_commanded_pos_post_fixup is = Some is' \<Longrightarrow> shaper_reach is'"
| shaper_solver: "shaper_reach is \<Longrightarrow> sk_active_flags sk = sk_active_flags (is_sk is) \<Longrightarrow>
    sk_gen_steps_pre_active sk = sk_gen_steps_pre_active (is_sk is) \<Longrightarrow>
    sk_gen_steps_post_active sk = sk_gen_steps_post_active (is_sk is) \<Longrightarrow> shaper_reach (is\<lparr>is_sk := sk\<rparr>)"
| shaper_orig: "shaper_reach is \<Longrightarrow> is_orig_sk is = Some orig \<Longrightarrow> shaper_reach (is\<lparr>is_orig_sk := Some orig'\<rparr>)"

lemma sorted_ends: "sorted xs \<Longrightarrow> x \<in> set xs \<Longrightarrow> hd xs \<le> x \<and> x \<le> last xs"
  by (induction xs) auto

lemma pulse_ends:
  assumes "sorted (map pu_t sp)" and "p \<in> set sp"
  shows "pu_t (hd sp) \<le> pu_t p" and "pu_t p \<le> pu_t (last sp)"
proof -
  have "sp \<noteq> []" using assms(2) by auto
  then show "pu_t (hd sp) \<le> pu_t p" "pu_t p \<le> pu_t (last sp)"
    using sorted_ends [OF assms(1), of "pu_t p"] assms(2) by (simp_all add: hd_map last_map)
qed

lemma note_in_window:
  assumes "pulses_ok is"
  shows "in_window (shaper_note_generation_time is)" "pulses_ok (shaper_note_generation_time is)"
    "is_orig_sk (shaper_note_generation_time is) = is_orig_sk is"
proof -
  let ?sk = "is_sk (shaper_note_generation_time is)"
  have frame: "is_sx (shaper_note_generation_time is) = is_sx is" "is_sy (shaper_note_generation_time is) = is_sy is"
    "sk_active_flags ?sk = sk_active_flags (is_sk is)"
    by (simp_all add: shaper_note_generation_time_def Let_def)
  have x: "- sk_gen_steps_post_active ?sk \<le> pu_t (hd (is_sx is)) \<and> pu_t (last (is_sx is)) \<le> sk_gen_steps_pre_active ?sk"
    if "has_axis (sk_active_flags (is_sk is)) AF_X" "is_sx is \<noteq> []"
    using that by (auto simp: shaper_note_generation_time_def Let_def has_axis_def)
  have y: "- sk_gen_steps_post_active ?sk \<le> pu_t (hd (is_sy is)) \<and> pu_t (last (is_sy is)) \<le> sk_gen_steps_pre_active ?sk"
    if "has_axis (sk_active_flags (is_sk is)) AF_Y" "is_sy is \<noteq> []"
    using that by (auto simp: shaper_note_generation_time_def Let_def has_axis_def)
  have sorted: "sorted (map pu_t (is_sx is))" "sorted (map pu_t (is_sy is))" using assms by (simp_all add: pulses_ok_def)
  show "in_window (shaper_note_generation_time is)"
    unfolding in_window_def
  proof
    fix p
    assume "p \<in> active_pulses (shaper_note_generation_time is)"
    then consider "has_axis (sk_active_flags (is_sk is)) AF_X" "p \<in> set (is_sx is)"
      | "has_axis (sk_active_flags (is_sk is)) AF_Y" "p \<in> set (is_sy is)"
      by (auto simp: active_pulses_def frame split: if_splits)
    then show "- sk_gen_steps_post_active ?sk \<le> pu_t p \<and> pu_t p \<le> sk_gen_steps_pre_active ?sk"
    proof cases
      case 1
      moreover from this have "is_sx is \<noteq> []" by auto
      ultimately show ?thesis using x pulse_ends [OF sorted(1), of p] by fastforce
    next
      case 2
      moreover from this have "is_sy is \<noteq> []" by auto
      ultimately show ?thesis using y pulse_ends [OF sorted(2), of p] by fastforce
    qed
  qed
qed (use assms in \<open>simp_all add: shaper_note_generation_time_def Let_def pulses_ok_def\<close>)

lemma shift_sorted: "sorted (map pu_t sp) \<Longrightarrow> sorted (map pu_t (shift_pulses sp))"
  by (simp add: shift_pulses_def Let_def o_def sorted_iff_nth_mono dsub_def rnd_mono)

lemma map2_times: "length a = length t \<Longrightarrow> map pu_t (map2 (\<lambda>x y. \<lparr>pu_t = - y, pu_a = f x\<rparr>) a t) = map uminus t"
  by (induction a t rule: list_induct2) simp_all

lemma init_sorted:
  assumes "init_shaper n a t = Some (r, sp)" and "sorted (take (nat n) t)"
  shows "sorted (map pu_t sp)"
proof (cases "n < 0 \<or> 5 < n")
  case False
  let ?a = "take (nat n) a" and ?t = "take (nat n) t"
  have len: "length ?a = length ?t" using assms(1) False by (auto simp: init_shaper_def split: if_splits)
  obtain inv_a where sp: "sp = shift_pulses (rev (map2 (\<lambda>x y. \<lparr>pu_t = - y, pu_a = dmul x inv_a\<rparr>) ?a ?t))"
    using assms(1) False by (auto simp: init_shaper_def Let_def split: if_splits)
  have "sorted (rev (map uminus ?t))"
    using assms(2) unfolding sorted_wrt_rev sorted_wrt_map by (simp add: sorted_wrt_iff_nth_less)
  then have "sorted (map pu_t (rev (map2 (\<lambda>x y. \<lparr>pu_t = - y, pu_a = dmul x inv_a\<rparr>) ?a ?t)))"
    using map2_times [OF len, of "\<lambda>x. dmul x inv_a"] by (simp only: rev_map [symmetric])
  then show ?thesis unfolding sp by (rule shift_sorted)
qed (use assms in \<open>auto simp: init_shaper_def\<close>)

lemma set_start_frame [simp]:
  "is_sk (set_start f is) = is_sk is" "is_sx (set_start f is) = is_sx is" "is_sy (set_start f is) = is_sy is"
  "is_orig_sk (set_start f is) = is_orig_sk is" "is_cb (set_start f is) = is_cb is" "is_post (set_start f is) = is_post is"
  by (simp_all add: set_start_def)

lemma orig_call_frame:
  "orig_on_queue is ms i t = Some (p, is') \<Longrightarrow> is' = is" "orig_on_own is = Some (p, is') \<Longrightarrow> is' = is"
  by (auto simp: orig_on_queue_def orig_on_own_def split: bind_splits)

lemma call_frame:
  assumes "shaper_calc_position is ms i t = Some (p, is')"
  shows "is_sk is' = is_sk is" "is_sx is' = is_sx is" "is_sy is' = is_sy is" "is_orig_sk is' = is_orig_sk is"
proof -
  have "is_sk is' = is_sk is \<and> is_sx is' = is_sx is \<and> is_sy is' = is_sy is \<and> is_orig_sk is' = is_orig_sk is"
    using assms
    by (auto simp: shaper_calc_position_def shaper_x_calc_position_def shaper_y_calc_position_def shaper_xy_calc_position_def Let_def
        split: option.splits shaper_callback.splits if_splits bind_splits dest!: orig_call_frame)
  then show "is_sk is' = is_sk is" "is_sx is' = is_sx is" "is_sy is' = is_sy is" "is_orig_sk is' = is_orig_sk is" by simp_all
qed

lemma window_cong:
  assumes "is_sx is' = is_sx is" "is_sy is' = is_sy is" "sk_active_flags (is_sk is') = sk_active_flags (is_sk is)"
    "sk_gen_steps_pre_active (is_sk is') = sk_gen_steps_pre_active (is_sk is)"
    "sk_gen_steps_post_active (is_sk is') = sk_gen_steps_post_active (is_sk is)"
  shows "in_window is' \<longleftrightarrow> in_window is" "pulses_ok is' \<longleftrightarrow> pulses_ok is"
  using assms by (simp_all add: in_window_def active_pulses_def pulses_ok_def)

lemma shaper_reach_window:
  "shaper_reach is \<Longrightarrow> in_window is \<and> pulses_ok is \<and> (is_orig_sk is = None \<longrightarrow> is_sx is = [] \<and> is_sy is = [])"
proof (induction rule: shaper_reach.induct)
  case shaper_alloc
  show ?case by (simp add: input_shaper_alloc_def in_window_def active_pulses_def pulses_ok_def)
next
  case (shaper_set_sk "is" orig r is')
  then have e: "is_sx is = []" "is_sy is = []" by auto
  have "is_sx is' = [] \<and> is_sy is' = []"
    using shaper_set_sk.hyps(3) e by (auto simp: input_shaper_set_sk_def Let_def split: if_splits)
  then show ?case by (simp add: in_window_def active_pulses_def pulses_ok_def)
next
  case (shaper_update "is" is')
  then obtain is1 where is1: "is' = shaper_note_generation_time is1" "is_sx is1 = is_sx is" "is_sy is1 = is_sy is"
      "is_orig_sk is1 = is_orig_sk is" "is_orig_sk is \<noteq> None"
    by (auto simp: input_shaper_update_sk_def Let_def split: bind_splits if_splits)
  then have "pulses_ok is1" using shaper_update.IH by (simp add: pulses_ok_def)
  from note_in_window [OF this] show ?case using is1 by auto
next
  case (shaper_params "is" n t axis a r is')
  show ?case
  proof (cases "is' = is")
    case False
    then obtain sp is1 where is1: "is' = shaper_note_generation_time is1" "is_orig_sk is1 = is_orig_sk is" "is_orig_sk is \<noteq> None"
        "init_shaper n a t = Some (r, sp)" "is1 = is\<lparr>is_sx := sp\<rparr> \<or> is1 = is\<lparr>is_sy := sp\<rparr>"
      using shaper_params.hyps(3)
      by (auto simp: input_shaper_set_shaper_params_def Let_def split: bind_splits if_splits)
    have "pulses_ok is1" using is1(5) init_sorted [OF is1(4) shaper_params.hyps(2)] shaper_params.IH by (auto simp: pulses_ok_def)
    from note_in_window [OF this] show ?thesis using is1 by auto
  qed (use shaper_params in simp)
next
  case (shaper_call "is" ms i t p is')
  note f = call_frame [OF shaper_call.hyps(2)]
  have "in_window is' \<longleftrightarrow> in_window is" "pulses_ok is' \<longleftrightarrow> pulses_ok is" by (rule window_cong; simp add: f)+
  then show ?case using shaper_call.IH by (simp add: f)
next
  case (shaper_post "is" is')
  then have "is_sx is' = is_sx is \<and> is_sy is' = is_sy is \<and> is_orig_sk is' \<noteq> None \<and>
    sk_active_flags (is_sk is') = sk_active_flags (is_sk is) \<and>
    sk_gen_steps_pre_active (is_sk is') = sk_gen_steps_pre_active (is_sk is) \<and>
    sk_gen_steps_post_active (is_sk is') = sk_gen_steps_post_active (is_sk is)"
    by (auto simp: shaper_commanded_pos_post_fixup_def Let_def split: bind_splits)
  moreover from this have "in_window is' \<longleftrightarrow> in_window is" "pulses_ok is' \<longleftrightarrow> pulses_ok is"
    using window_cong [of is' "is"] by blast+
  ultimately show ?case using shaper_post.IH by auto
next
  case (shaper_solver "is" sk)
  have "in_window (is\<lparr>is_sk := sk\<rparr>) \<longleftrightarrow> in_window is" "pulses_ok (is\<lparr>is_sk := sk\<rparr>) \<longleftrightarrow> pulses_ok is"
    by (rule window_cong; simp add: shaper_solver.hyps)+
  then show ?case using shaper_solver.IH by simp
next
  case (shaper_orig "is" orig orig')
  have "in_window (is\<lparr>is_orig_sk := Some orig'\<rparr>) \<longleftrightarrow> in_window is" "pulses_ok (is\<lparr>is_orig_sk := Some orig'\<rparr>) \<longleftrightarrow> pulses_ok is"
    by (rule window_cong; simp)+
  then show ?case using shaper_orig.IH by simp
qed

section \<open>The pressure advance of a move\<close>

text \<open>The last entry that is active at a time, or the first one.\<close>

definition pa_at :: "double \<Rightarrow> pa_params list \<Rightarrow> pa_params" where
  "pa_at t ps = (let qs = filter (\<lambda>p. pa_active_print_time p \<le> t) ps in if qs = [] then hd ps else last qs)"

lemma pa_search_at: "ps \<noteq> [] \<Longrightarrow> pa_search t (rev ps) = Some (pa_pressure_advance (pa_at t ps))"
proof (induction ps rule: rev_induct)
  case (snoc p ps)
  show ?case
  proof (cases "ps = []")
    case False
    then obtain q qs where "rev ps = q # qs" by (cases "rev ps") auto
    then show ?thesis using snoc.IH [OF False] False by (auto simp: pa_at_def Let_def not_less hd_append)
  qed (simp add: pa_at_def)
qed simp

lemma cleanup_last: "ps \<noteq> [] \<Longrightarrow> pa_cleanup c ps \<noteq> [] \<and> last (pa_cleanup c ps) = last ps"
  by (induction c ps rule: pa_cleanup.induct) auto

lemma cleanup_subset: "set (pa_cleanup c ps) \<subseteq> set ps"
  by (induction c ps rule: pa_cleanup.induct) auto

text \<open>No entry becomes active in the middle of a move.\<close>

definition whole :: "trap_move \<Rightarrow> pa_params list \<Rightarrow> bool" where
  "whole m ps \<longleftrightarrow> (\<forall>p\<in>set ps. pa_active_print_time p \<le> tm_print_time m \<or> move_end m \<le> pa_active_print_time p)"

lemma cleanup_at:
  "whole m ps \<Longrightarrow> c \<le> move_end m \<Longrightarrow> pa_at (tm_print_time m) (pa_cleanup c ps) = pa_at (tm_print_time m) ps"
proof (induction c ps rule: pa_cleanup.induct)
  case (1 c p q ps)
  show ?case
  proof (cases "c \<le> pa_active_print_time q")
    case False
    then have "pa_active_print_time q \<le> tm_print_time m" using 1 by (auto simp: whole_def)
    then have "pa_at (tm_print_time m) (p # q # ps) = pa_at (tm_print_time m) (q # ps)" by (simp add: pa_at_def Let_def)
    then show ?thesis using 1 False by (simp add: whole_def)
  qed simp
qed simp_all

lemma pa_at_snoc:
  "ps \<noteq> [] \<Longrightarrow> pa_at t (ps @ [p]) = (if pa_active_print_time p \<le> t then p else pa_at t ps)"
  by (simp add: pa_at_def Let_def)

lemma pa_at_last: "ps \<noteq> [] \<Longrightarrow> pa_active_print_time (last ps) \<le> t \<Longrightarrow> pa_at t ps = last ps"
  by (cases ps rule: rev_cases) (simp_all add: pa_at_def Let_def)

lemma move_pressure_advance_at:
  "ps \<noteq> [] \<Longrightarrow> move_pressure_advance ps m =
     Some (if co_y (tm_axes_r m) \<noteq> 0 then pa_pressure_advance (pa_at (tm_print_time m) ps) else 0)"
  by (simp add: move_pressure_advance_def pa_search_at)

section \<open>Angles\<close>

lemma M_PI_double [simp]: "is_double M_PI"
  by (simp add: M_PI_def)

lemma M_PI_bounds: "3 \<le> M_PI" "M_PI \<le> 4"
  using rnd_mono [of 3 "314159265358979323846 / 10 ^ 20"] rnd_mono [of "314159265358979323846 / 10 ^ 20" 4] rnd_int [of 3] rnd_int [of 4]
  by (simp_all add: M_PI_def)

lemma two_pi: "dmul 2 M_PI = 2 * M_PI"
  using is_double_scale [OF M_PI_double, of 1] by (simp add: dmul_def is_double_def mult.commute)

lemma rnd_near_pi: "\<bar>x\<bar> \<le> 3 * M_PI \<Longrightarrow> \<bar>rnd x - x\<bar> \<le> 3 * M_PI / 2 ^ 53"
  using rnd_error [of x] by (auto simp: field_simps)

lemma polar_angle_bounds:
  assumes "\<bar>a\<bar> \<le> M_PI" and "\<bar>cp\<bar> \<le> M_PI"
  shows "\<bar>polar_angle cp a - cp\<bar> \<le> M_PI + M_PI / 2 ^ 51" and "\<bar>polar_angle cp a\<bar> \<le> 2 * M_PI"
proof -
  note pi = M_PI_bounds
  have d: "is_double (2 * M_PI)" "is_double (- (2 * M_PI))" "is_double (- M_PI)"
    using is_double_scale [OF M_PI_double, of 1] M_PI_double by (simp_all add: is_double_def mult.commute)
  have small: "3 * M_PI / 2 ^ 53 \<le> M_PI / 2 ^ 51" "0 \<le> M_PI / 2 ^ 51" using pi by (simp_all add: field_simps)
  have diff: "\<bar>a - cp\<bar> \<le> 3 * M_PI" using assms pi by linarith
  note e = rnd_near_pi [OF diff]
  consider (above) "M_PI < dsub a cp" | (below) "dsub a cp < - M_PI" | (near) "\<bar>dsub a cp\<bar> \<le> M_PI" by linarith
  then have "\<bar>polar_angle cp a - cp\<bar> \<le> M_PI + M_PI / 2 ^ 51 \<and> \<bar>polar_angle cp a\<bar> \<le> 2 * M_PI"
  proof cases
    case above
    then have "M_PI < a - cp" using rnd_upper [OF M_PI_double, of "a - cp"] by (cases "a - cp \<le> M_PI") (simp_all add: dsub_def)
    then have x: "- M_PI < a - 2 * M_PI - cp" "a - 2 * M_PI - cp \<le> 0" "- (2 * M_PI) \<le> a - 2 * M_PI" "a - 2 * M_PI \<le> - M_PI"
      using assms by linarith+
    have "\<bar>rnd (a - 2 * M_PI) - (a - 2 * M_PI)\<bar> \<le> 3 * M_PI / 2 ^ 53"
      using x pi by (intro rnd_near_pi) linarith
    moreover have "- (2 * M_PI) \<le> rnd (a - 2 * M_PI)" "rnd (a - 2 * M_PI) \<le> - M_PI"
      using rnd_lower [OF d(2) x(3)] rnd_upper [OF d(3) x(4)] by simp_all
    moreover have "polar_angle cp a = rnd (a - 2 * M_PI)" using above by (simp add: polar_angle_def two_pi dsub_def)
    ultimately show ?thesis using x pi small by linarith
  next
    case below
    then have "a - cp < - M_PI" using rnd_lower [OF d(3), of "a - cp"] by (cases "- M_PI \<le> a - cp") (simp_all add: dsub_def)
    then have x: "a + 2 * M_PI - cp < M_PI" "0 \<le> a + 2 * M_PI - cp" "a + 2 * M_PI \<le> 2 * M_PI" "M_PI \<le> a + 2 * M_PI"
      using assms by linarith+
    have "\<bar>rnd (a + 2 * M_PI) - (a + 2 * M_PI)\<bar> \<le> 3 * M_PI / 2 ^ 53"
      using x pi by (intro rnd_near_pi) linarith
    moreover have "rnd (a + 2 * M_PI) \<le> 2 * M_PI" "M_PI \<le> rnd (a + 2 * M_PI)"
      using rnd_upper [OF d(1) x(3)] rnd_lower [OF M_PI_double x(4)] by simp_all
    moreover have "polar_angle cp a = rnd (a + 2 * M_PI)"
      using below pi by (simp add: polar_angle_def two_pi dsub_def dadd_def)
    ultimately show ?thesis using x pi small by linarith
  next
    case near
    then have "polar_angle cp a = a" unfolding polar_angle_def by (simp add: abs_le_iff not_less)
    moreover have "\<bar>a - cp\<bar> \<le> M_PI + M_PI / 2 ^ 51" using near e small unfolding dsub_def by linarith
    ultimately show ?thesis using assms(1) pi by simp
  qed
  then show "\<bar>polar_angle cp a - cp\<bar> \<le> M_PI + M_PI / 2 ^ 51" "\<bar>polar_angle cp a\<bar> \<le> 2 * M_PI" by simp_all
qed

lemma fixup_bounds: "\<bar>p\<bar> \<le> 2 * M_PI \<Longrightarrow> \<bar>polar_stepper_angle_post_fixup p\<bar> \<le> M_PI"
proof -
  assume p: "\<bar>p\<bar> \<le> 2 * M_PI"
  have d: "is_double (- M_PI)" using M_PI_double by (simp add: is_double_def)
  have "\<bar>rnd (p + 2 * M_PI)\<bar> \<le> M_PI" if "p < - M_PI"
    using rnd_upper [OF M_PI_double, of "p + 2 * M_PI"] rnd_nonneg [of "p + 2 * M_PI"] that p by simp
  moreover have "\<bar>rnd (p - 2 * M_PI)\<bar> \<le> M_PI" if "M_PI < p"
    using rnd_lower [OF d, of "p - 2 * M_PI"] rnd_nonneg [of "2 * M_PI - p"] rnd_minus [of "2 * M_PI - p"] that p by simp
  ultimately show ?thesis by (auto simp: polar_stepper_angle_post_fixup_def two_pi dadd_def dsub_def)
qed

section \<open>Properties\<close>

text \<open>C20 (inactive_move_keeps_position). A move in which no active axis of a stepper moves does not move
  the stepper: its position is the same at all times of the move. This is what the step generation
  relies on when it skips a move. It holds for every kinematics of the current move, through all
  changes of the coefficients and of the transforms of a dual carriage, down to a scale of zero. For a
  dual carriage the active flags of the original must be those of the time it was last set as the
  original; without that it fails (\<open>dual_flags_stale\<close>).\<close>

theorem inactive_move_keeps_position:
  assumes "local_kin lm sk" and "i < length ms" and "\<not> check_active (sk_active_flags sk) (ms ! i)"
  shows "sk_calc_position_cb sk cp ms i t = sk_calc_position_cb sk cp ms i t'"
proof -
  have "agree (sk_active_flags sk) (move_get_coord (ms ! i) t) (move_get_coord (ms ! i) t')"
    using assms(3) by (auto simp: agree_def check_active_def move_get_coord_def Let_def)
  then show ?thesis using local_by_axes(1) [OF assms(1)] assms(2) unfolding by_axes_def by blast
qed

text \<open>An x carriage that is switched off, on a move of the x axis.\<close>

definition example_store :: sk_store where
  "example_store = (\<lambda>_. cartesian_stepper_alloc CHR ''x'')"

definition example_dual :: dual_carriage_stepper where
  "example_dual = dual_carriage_alloc\<lparr>dc_cb := True, dc_orig_sk := Some 0, dc_x_scale := 0, dc_x_offs := 5\<rparr>"

definition x_move :: trap_move where
  "x_move = trap_move_alloc\<lparr>tm_move_t := 1, tm_start_v := 1, tm_axes_r := \<lparr>co_x = 1, co_y = 0, co_z = 0\<rparr>\<rparr>"

theorem inactive_move_keeps_position_witness:
  "sk_calc_position_cb (dual_carriage_sk example_store example_dual) 0 [x_move] 0 0 =
   sk_calc_position_cb (dual_carriage_sk example_store example_dual) 0 [x_move] 0 1"
proof -
  have "and AF_X (not AF_X) = 0" by simp
  then have "dual_carriage_set_transform example_store CHR ''x'' 0 5 (dual_carriage_set_sk example_store 0 dual_carriage_alloc)
      = Some (0, example_dual)"
    by (simp add: dual_carriage_set_transform_def dual_carriage_set_sk_def example_dual_def dual_carriage_alloc_def axis_flags_def
        example_store_def cartesian_stepper_alloc_def sk_zero_def)
  moreover have "local_kin lm (example_store a)" for lm a unfolding example_store_def by (rule local_cartesian)
  ultimately have "dual_reach lm example_store example_dual" for lm
    using dual_set_transform dual_set_sk dual_alloc by metis
  then have "local_kin lm (dual_carriage_sk example_store example_dual)" for lm by (rule local_dual)
  moreover have "sk_active_flags (dual_carriage_sk example_store example_dual) = 0"
    by (simp add: dual_carriage_sk_def example_dual_def dual_carriage_alloc_def)
  ultimately show ?thesis
    by (intro inactive_move_keeps_position) (simp_all add: check_active_def)
qed

text \<open>The flags of a dual carriage go stale: \<^verbatim>\<open>dual_carriage_set_sk\<close> copies the active flags of the
  original, whose position it goes on calling for. After a change of the original's coefficients that
  lets it follow the y axis too, a move of the y axis counts as inactive and is skipped, while the
  position moves.\<close>

definition y_move :: trap_move where
  "y_move = trap_move_alloc\<lparr>tm_move_t := 1, tm_start_v := 1, tm_axes_r := \<lparr>co_x = 0, co_y = 1, co_z = 0\<rparr>\<rparr>"

theorem dual_flags_stale:
  "let st = (\<lambda>_. generic_cartesian_stepper_alloc 1 0 0);
       dc = dual_carriage_set_sk st 0 dual_carriage_alloc;
       st' = st(0 := generic_cartesian_stepper_set_coeffs 1 1 0 (st 0));
       sk = dual_carriage_sk st' dc
   in check_active (sk_active_flags (st' 0)) y_move \<and> \<not> check_active (sk_active_flags sk) y_move \<and>
      sk_calc_position_cb sk 0 [y_move] 0 0 = Some 0 \<and> sk_calc_position_cb sk 0 [y_move] 0 1 = Some 1"
proof -
  have r: "rnd 1 = 1" using rnd_int [of 1] by simp
  show ?thesis
    by (simp add: Let_def r y_move_def check_active_def trap_move_alloc_def zero_coord_def dual_carriage_sk_def dual_carriage_set_sk_def
        dual_carriage_alloc_def dual_carriage_calc_position_def generic_cartesian_stepper_alloc_def
        generic_cartesian_stepper_set_coeffs_def generic_cartesian_stepper_calc_position_def rd_def
        move_get_coord_def move_get_distance_def dadd_def dmul_def)
qed

text \<open>C21 (shaper_window). The pulses of an input shaper reach at most as far before and after a step as
  the step generation was told to look at moves, and the window that the printer's lookahead is sized
  by covers both directions.\<close>

theorem shaper_window:
  assumes "shaper_reach is" and "p \<in> active_pulses is"
  shows "- sk_gen_steps_post_active (is_sk is) \<le> pu_t p \<and> pu_t p \<le> sk_gen_steps_pre_active (is_sk is) \<and>
     \<bar>pu_t p\<bar> \<le> input_shaper_get_step_generation_window is"
  using shaper_reach_window [OF assms(1)] assms(2)
  by (auto simp: in_window_def input_shaper_get_step_generation_window_def)

text \<open>A shaper of two pulses a quarter of a second apart.\<close>

lemma rnd_dyadic: "rnd 1 = 1" "rnd 2 = 2" "rnd (1 / 2) = 1 / 2" "rnd (1 / 8) = 1 / 8" "rnd 3 = 3" "rnd 5 = 5" "rnd 8 = 8"
  using rnd_exact [of 1 0] rnd_exact [of 2 0] rnd_exact [of 1 "- 1"] rnd_exact [of 1 "- 3"] rnd_exact [of 3 0] rnd_exact [of 5 0]
    rnd_exact [of 8 0]
  by (simp_all add: power_int_minus)

lemmas dyadic_ops = dadd_def dsub_def dmul_def ddiv_def rnd_dyadic

lemma example_pulses:
  "init_shaper 2 [1, 1] [0, 1 / 4] = Some (0, [\<lparr>pu_t = - 1 / 8, pu_a = 1 / 2\<rparr>, \<lparr>pu_t = 1 / 8, pu_a = 1 / 2\<rparr>])"
  using rnd_minus [of "1 / 8"] by (simp add: init_shaper_def shift_pulses_def dyadic_ops Let_def)

definition example_shaper :: input_shaper where
  "example_shaper = shaper_note_generation_time ((snd (input_shaper_set_sk (cartesian_stepper_alloc CHR ''x'') input_shaper_alloc))
     \<lparr>is_sx := [\<lparr>pu_t = - 1 / 8, pu_a = 1 / 2\<rparr>, \<lparr>pu_t = 1 / 8, pu_a = 1 / 2\<rparr>]\<rparr>)"

theorem shaper_window_witness: "1 / 8 \<le> input_shaper_get_step_generation_window example_shaper"
proof -
  let ?sk = "cartesian_stepper_alloc CHR ''x''"
  let ?is = "snd (input_shaper_set_sk ?sk input_shaper_alloc)"
  have flags: "sk_active_flags ?sk = AF_X" by (simp add: cartesian_stepper_alloc_def)
  then have is0: "is_orig_sk ?is = Some ?sk" "sk_active_flags (is_sk ?is) = AF_X"
    by (simp_all add: input_shaper_set_sk_def Let_def)
  have p: "input_shaper_set_shaper_params CHR ''x'' 2 [1, 1] [0, 1 / 4] ?is = Some (0, example_shaper)"
    using example_pulses is0(1) flags by (simp add: input_shaper_set_shaper_params_def example_shaper_def)
  have "is_orig_sk input_shaper_alloc = None" by (simp add: input_shaper_alloc_def)
  then have "shaper_reach ?is" by (rule shaper_set_sk [OF shaper_alloc]) (rule surjective_pairing)
  moreover have "sorted (take (nat 2) [0, 1 / 4 :: double])" by (simp add: numeral_2_eq_2)
  ultimately have "shaper_reach example_shaper" using p by (rule shaper_params)
  moreover have "\<lparr>pu_t = 1 / 8, pu_a = 1 / 2\<rparr> \<in> active_pulses example_shaper"
    using is0(2) by (simp add: active_pulses_def example_shaper_def shaper_note_generation_time_def Let_def has_axis_def)
  ultimately show ?thesis using shaper_window [of example_shaper "\<lparr>pu_t = 1 / 8, pu_a = 1 / 2\<rparr>"] by simp
qed

text \<open>C22 (update_sk_loses_z). A shaper on a CoreXZ stepper calculates x plus z after it has been set up,
  but x alone after \<^verbatim>\<open>input_shaper_update_sk\<close>: that function selects the callback for the x axis, which
  leaves the other coordinates of the shaper's own move as they were.\<close>

theorem update_sk_loses_z:
  assumes "input_shaper_set_sk (corexz_stepper_alloc CHR ''+'') input_shaper_alloc = (0, is0)"
    and "input_shaper_set_shaper_params CHR ''x'' n a t is0 = Some (0, is)" and "is_sx is \<noteq> []"
    and "input_shaper_update_sk is = Some is'" and "i < length ms"
    and "calc_position ms i CHR ''x'' move_time (is_sx is) = Some x"
  shows "map_option fst (shaper_calc_position is ms i move_time) = Some (dadd (rnd x) (co_z (move_get_coord (ms ! i) move_time)))
    \<and> map_option fst (shaper_calc_position is' ms i move_time) = Some (rnd x)"
proof -
  let ?orig = "corexz_stepper_alloc CHR ''+''"
  have flags: "sk_active_flags ?orig = or AF_X AF_Z" by (simp add: corexz_stepper_alloc_def)
  have ne: "or AF_X AF_Z \<noteq> AF_X" "or AF_X AF_Z \<noteq> AF_Y" "and (or AF_X AF_Z) (or AF_X AF_Y) \<noteq> or AF_X AF_Y"
    "and (or AF_X AF_Z) (or AF_X AF_Y) \<noteq> 0" "and (or AF_X AF_Z) AF_X \<noteq> 0"
    by (simp_all add: AF_X_def AF_Y_def AF_Z_def)
  have is0: "is_cb is0 = Some Shaper_xy" "is_orig_sk is0 = Some ?orig" "is_m is0 = is_m input_shaper_alloc" "is_sy is0 = []"
    using assms(1) by (auto simp: input_shaper_set_sk_def flags input_shaper_alloc_def Let_def ne simp del: af_or)
  have is1: "is_cb is = Some Shaper_xy" "is_orig_sk is = Some ?orig" "is_m is = is_m input_shaper_alloc" "is_sy is = []"
    using assms(2) is0
    by (auto simp: input_shaper_set_shaper_params_def flags shaper_note_generation_time_def Let_def ne simp del: af_or split: bind_splits)
  have is2: "is_cb is' = Some Shaper_x" "is_orig_sk is' = Some ?orig" "is_m is' = is_m input_shaper_alloc" "is_sx is' = is_sx is"
    using assms(4) is1
    by (auto simp: input_shaper_update_sk_def flags shaper_note_generation_time_def Let_def ne simp del: af_or)
  have rest: "at_rest (is_m input_shaper_alloc)" by (simp add: input_shaper_alloc_def at_rest_def trap_move_alloc_def)
  have cb: "sk_calc_position_cb ?orig cp [(is_m input_shaper_alloc)\<lparr>tm_start_pos := c\<rparr>] 0 DUMMY_T
      = Some (dadd (rnd (co_x c)) (rnd (co_z c)))" for cp c
    using rest_coord [OF rest, of c DUMMY_T]
    by (simp add: corexz_stepper_alloc_def corexz_stepper_plus_calc_position_def rd_def)
  have own: "map_option fst (orig_on_own s) = Some (dadd (rnd (co_x (tm_start_pos (is_m s)))) (rnd (co_z (tm_start_pos (is_m s)))))"
    if "is_orig_sk s = Some ?orig" "is_m s = (is_m input_shaper_alloc)\<lparr>tm_start_pos := tm_start_pos (is_m s)\<rparr>" for s
    using that(1) cb [of "sk_commanded_pos ?orig" "tm_start_pos (is_m s)"] unfolding that(2) [symmetric] by (simp add: orig_on_own_def)
  have zero: "tm_start_pos (is_m input_shaper_alloc) = zero_coord" by (simp add: input_shaper_alloc_def trap_move_alloc_def)
  have "shaper_calc_position is ms i move_time
      = orig_on_own (set_start (\<lambda>c. c\<lparr>co_x := x\<rparr>) (set_start (\<lambda>_. move_get_coord (ms ! i) move_time) is))"
    using is1 assms(3,5,6) by (simp add: shaper_calc_position_def shaper_xy_calc_position_def rd_def Let_def)
  moreover have "shaper_calc_position is' ms i move_time = orig_on_own (set_start (\<lambda>c. c\<lparr>co_x := x\<rparr>) is')"
    using is2 assms(3,6) by (simp add: shaper_calc_position_def shaper_x_calc_position_def)
  moreover have "rnd (co_z (move_get_coord m move_time)) = co_z (move_get_coord m move_time)" for m
    by (simp add: move_get_coord_def Let_def dadd_def)
  ultimately show ?thesis
    using own [of "set_start (\<lambda>c. c\<lparr>co_x := x\<rparr>) (set_start (\<lambda>_. move_get_coord (ms ! i) move_time) is)"]
      own [of "set_start (\<lambda>c. c\<lparr>co_x := x\<rparr>) is'"] is1(2,3) is2(2,3)
    by (simp add: set_start_def zero zero_coord_def dadd_def)
qed

theorem update_sk_loses_z_witness:
  "\<exists>is is'. input_shaper_update_sk is = Some is' \<and>
     map_option fst (shaper_calc_position is [trap_move_alloc\<lparr>tm_move_t := 1, tm_start_pos := \<lparr>co_x = 3, co_y = 0, co_z = 5\<rparr>\<rparr>] 0 0) = Some 8 \<and>
     map_option fst (shaper_calc_position is' [trap_move_alloc\<lparr>tm_move_t := 1, tm_start_pos := \<lparr>co_x = 3, co_y = 0, co_z = 5\<rparr>\<rparr>] 0 0) = Some 3"
proof -
  let ?m = "trap_move_alloc\<lparr>tm_move_t := 1, tm_start_pos := \<lparr>co_x = 3, co_y = 0, co_z = 5\<rparr>\<rparr>"
  let ?orig = "corexz_stepper_alloc CHR ''+''" and ?sp = "[\<lparr>pu_t = 0, pu_a = 1\<rparr>]"
  define is0 where "is0 = snd (input_shaper_set_sk ?orig input_shaper_alloc)"
  have flags: "sk_active_flags ?orig = or AF_X AF_Z" by (simp add: corexz_stepper_alloc_def)
  have ne: "or AF_X AF_Z \<noteq> AF_X" "or AF_X AF_Z \<noteq> AF_Y" "and (or AF_X AF_Z) (or AF_X AF_Y) \<noteq> 0" "and (or AF_X AF_Z) AF_X \<noteq> 0"
    by (simp_all add: AF_X_def AF_Y_def AF_Z_def)
  have is0: "input_shaper_set_sk ?orig input_shaper_alloc = (0, is0)" "is_orig_sk is0 = Some ?orig"
    by (simp_all add: is0_def input_shaper_set_sk_def flags ne Let_def del: af_or)
  have init: "init_shaper 1 [1] [0] = Some (0, ?sp)"
    by (simp add: init_shaper_def shift_pulses_def dyadic_ops)
  define "is" where "is = shaper_note_generation_time (is0\<lparr>is_sx := ?sp\<rparr>)"
  have s: "input_shaper_set_shaper_params CHR ''x'' 1 [1] [0] is0 = Some (0, is)"
    using init is0(2) ne(4) by (simp add: input_shaper_set_shaper_params_def flags is_def del: af_or)
  have sx: "is_sx is = ?sp" "is_orig_sk is = Some ?orig" by (simp_all add: is_def shaper_note_generation_time_def Let_def is0(2))
  then obtain is' where u: "input_shaper_update_sk is = Some is'" by (simp add: input_shaper_update_sk_def Let_def)
  have "calc_position [?m] 0 CHR ''x'' 0 (is_sx is) = Some 3"
    by (simp add: sx(1) calc_position_def get_axis_position_across_moves_def seek_prev.simps seek_next.simps rd_def get_axis_position_def
        axis_of_def trap_move_alloc_def zero_coord_def move_get_distance_def dyadic_ops)
  moreover have "co_z (move_get_coord ?m 0) = 5"
    by (simp add: move_get_coord_def trap_move_alloc_def zero_coord_def Let_def dyadic_ops)
  ultimately show ?thesis
    using update_sk_loses_z [OF is0(1) s _ u, of 0 "[?m]" 0 3] u sx(1) by (auto simp: dyadic_ops)
qed

text \<open>C23 (pressure_advance_changes). A new pressure advance with a smoothing time that is not zero holds
  for the moves from its print time on, when that is not before the print time of the last change. The
  list of parameters is never empty, and although old entries are removed, moves before the print time
  that may still be needed keep the value they had, provided that no earlier change falls inside of
  them (changes are made between moves; the removal of old entries relies on it). With a smoothing time
  of zero, which is how pressure advance is switched off, the value is not stored: the last entry stays,
  and the position is that of the plain move, without pressure advance.\<close>

theorem pressure_advance_changes:
  assumes "es_pa_list es \<noteq> []" and "hst = dmul smooth_time (1 / 2)"
    and "c = dsub (sk_last_flush_time (es_sk es)) (if hst < es_half_smooth_time es then es_half_smooth_time es else hst)"
  shows "\<exists>es'. extruder_set_pressure_advance print_time pa smooth_time es = Some es' \<and> es_pa_list es' \<noteq> [] \<and>
     (\<forall>m. tm_print_time m < print_time \<longrightarrow> c \<le> move_end m \<longrightarrow> whole m (es_pa_list es) \<longrightarrow>
        move_pressure_advance (es_pa_list es') m = move_pressure_advance (es_pa_list es) m) \<and>
     (\<forall>m. print_time \<le> tm_print_time m \<longrightarrow> co_y (tm_axes_r m) \<noteq> 0 \<longrightarrow> hst \<noteq> 0 \<longrightarrow>
        pa_active_print_time (last (es_pa_list es)) \<le> print_time \<longrightarrow>
        move_pressure_advance (es_pa_list es') m = Some pa) \<and>
     (hst = 0 \<longrightarrow> last (es_pa_list es') = last (es_pa_list es) \<and>
        (\<forall>cp ms i m t. rd ms i = Some m \<longrightarrow>
           sk_calc_position_cb (extruder_sk es') cp ms i t = Some (dadd (co_x (tm_start_pos m)) (move_get_distance m t))))"
proof -
  define ps where "ps = pa_cleanup c (es_pa_list es)"
  have ps: "ps \<noteq> []" "last ps = last (es_pa_list es)" using cleanup_last [OF assms(1), of c] by (simp_all add: ps_def)
  define new where "new = \<lparr>pa_pressure_advance = pa, pa_active_print_time = print_time\<rparr>"
  have "\<exists>es'. extruder_set_pressure_advance print_time pa smooth_time es = Some es' \<and>
      es_pa_list es' = (if hst = 0 \<or> pa_pressure_advance (last ps) = pa then ps else ps @ [new]) \<and> es_half_smooth_time es' = hst"
    using assms(1) unfolding extruder_set_pressure_advance_def Let_def assms(2) [symmetric] ps_def new_def assms(3)
    by (simp split: if_split)
  then obtain es' where es': "extruder_set_pressure_advance print_time pa smooth_time es = Some es'"
    and list: "es_pa_list es' = (if hst = 0 \<or> pa_pressure_advance (last ps) = pa then ps else ps @ [new])"
    and st: "es_half_smooth_time es' = hst" by blast
  have ne: "es_pa_list es' \<noteq> []" using ps by (simp add: list)
  have "pa_at (tm_print_time m) (es_pa_list es') = pa_at (tm_print_time m) (es_pa_list es)"
    if "tm_print_time m < print_time" "c \<le> move_end m" "whole m (es_pa_list es)" for m
    using cleanup_at [OF that(3,2)] that(1) ps(1) by (simp add: list ps_def new_def pa_at_snoc)
  moreover have "pa_pressure_advance (pa_at (tm_print_time m) (es_pa_list es')) = pa"
    if "print_time \<le> tm_print_time m" "hst \<noteq> 0" "pa_active_print_time (last (es_pa_list es)) \<le> print_time" for m
    using that ps pa_at_last [of ps "tm_print_time m"] by (simp add: list new_def pa_at_snoc)
  moreover have "last (es_pa_list es') = last (es_pa_list es)" if "hst = 0" using that ps by (simp add: list)
  moreover have "sk_calc_position_cb (extruder_sk es') cp ms i t = Some (dadd (co_x (tm_start_pos m)) (move_get_distance m t))"
    if "hst = 0" "rd ms i = Some m" for cp ms i m t
    using that st by (simp add: extruder_sk_def extruder_calc_position_def)
  ultimately show ?thesis
    using es' ne assms(1) by (intro exI [of _ es']) (auto simp: move_pressure_advance_at)
qed

theorem pressure_advance_changes_witness:
  "\<exists>es'. extruder_set_pressure_advance 10 (1 / 2) 2 extruder_stepper_alloc = Some es' \<and>
     move_pressure_advance (es_pa_list es') (x_move\<lparr>tm_axes_r := \<lparr>co_x = 1, co_y = 1, co_z = 0\<rparr>, tm_print_time := 20\<rparr>) = Some (1 / 2) \<and>
     move_pressure_advance (es_pa_list es') (x_move\<lparr>tm_axes_r := \<lparr>co_x = 1, co_y = 1, co_z = 0\<rparr>, tm_print_time := 3\<rparr>) = Some 0"
proof -
  let ?m = "\<lambda>t. x_move\<lparr>tm_axes_r := \<lparr>co_x = 1, co_y = 1, co_z = 0\<rparr>, tm_print_time := t\<rparr>"
  have ops: "dmul 2 (1 / 2) = 1" "dsub 0 1 = - 1" "move_end (?m 3) = 4"
    using rnd_minus [of 1] rnd_int [of 4] by (simp_all add: dyadic_ops move_end_def x_move_def)
  have es: "es_pa_list extruder_stepper_alloc = [\<lparr>pa_pressure_advance = 0, pa_active_print_time = 0\<rparr>]"
    "sk_last_flush_time (es_sk extruder_stepper_alloc) = 0" "es_half_smooth_time extruder_stepper_alloc = 0"
    by (simp_all add: extruder_stepper_alloc_def sk_zero_def)
  have p: "es_pa_list extruder_stepper_alloc \<noteq> []" "1 = dmul 2 (1 / 2)" "- 1 = dsub (sk_last_flush_time (es_sk extruder_stepper_alloc))
      (if 1 < es_half_smooth_time extruder_stepper_alloc then es_half_smooth_time extruder_stepper_alloc else 1)"
    by (simp_all add: es ops)
  from pressure_advance_changes [OF p, of 10 "1 / 2"] obtain es' where
    es': "extruder_set_pressure_advance 10 (1 / 2) 2 extruder_stepper_alloc = Some es'"
    "\<forall>m. tm_print_time m < 10 \<longrightarrow> - 1 \<le> move_end m \<longrightarrow> whole m (es_pa_list extruder_stepper_alloc) \<longrightarrow>
        move_pressure_advance (es_pa_list es') m = move_pressure_advance (es_pa_list extruder_stepper_alloc) m"
    "\<forall>m. 10 \<le> tm_print_time m \<longrightarrow> co_y (tm_axes_r m) \<noteq> 0 \<longrightarrow> (1 :: double) \<noteq> 0 \<longrightarrow>
        pa_active_print_time (last (es_pa_list extruder_stepper_alloc)) \<le> 10 \<longrightarrow> move_pressure_advance (es_pa_list es') m = Some (1 / 2)"
    by blast
  have "move_pressure_advance (es_pa_list es') (?m 20) = Some (1 / 2)"
    using es'(3) [rule_format, of "?m 20"] by (simp add: es)
  moreover have "move_pressure_advance (es_pa_list es') (?m 3) = Some 0"
    using es'(2) [rule_format, of "?m 3"] by (simp add: es ops whole_def move_pressure_advance_def)
  ultimately show ?thesis using es'(1) by blast
qed

text \<open>The angle of a polar bed is at most half a turn away from where the
  stepper is, up to the rounding of the doubles, and after the fixup the commanded angle is
  normalised again.\<close>

theorem polar_angle_shortest:
  assumes "\<And>y x. \<bar>lm_atan2 lm y x\<bar> \<le> M_PI" and "\<bar>cp\<bar> \<le> M_PI" and "i < length ms" and "sk = polar_stepper_alloc lm CHR ''a''"
  shows "\<exists>p f. sk_calc_position_cb sk cp ms i t = Some p \<and> sk_post_cb sk = Some f \<and>
     \<bar>p - cp\<bar> \<le> M_PI + M_PI / 2 ^ 51 \<and> \<bar>f p\<bar> \<le> M_PI"
  using polar_angle_bounds [OF assms(1,2)] fixup_bounds assms(3,4)
  by (simp add: polar_stepper_alloc_def polar_stepper_angle_calc_position_def rd_def Let_def)

theorem polar_angle_shortest_witness:
  "\<exists>p. sk_calc_position_cb (polar_stepper_alloc \<lparr>lm_atan2 = (\<lambda>y x. if 0 \<le> x then 0 else 3), lm_cos = (\<lambda>_. 1), lm_sin = (\<lambda>_. 0)\<rparr> CHR ''a'')
     (- 1) [x_move] 0 1 = Some p \<and> \<bar>p + 1\<bar> \<le> M_PI + M_PI / 2 ^ 51"
  using polar_angle_shortest [where lm = "\<lparr>lm_atan2 = (\<lambda>y x. if 0 \<le> x then 0 else 3), lm_cos = (\<lambda>_. 1), lm_sin = (\<lambda>_. 0)\<rparr>"
      and cp = "- 1" and ms = "[x_move]" and i = 0 and t = 1, OF _ _ _ refl] M_PI_bounds by fastforce

end
