(* ===== verification/Spec2Isabelle.thy ===== *)
theory Spec2Isabelle
  imports Pipeline Link Trdispatch Kinematics
begin

text \<open>
  A verification development for the C code of pick: the firmware that runs on a machine's
  microcontrollers (\<^verbatim>\<open>src/src\<close>) and the host's C helper library (\<^verbatim>\<open>src/klippy/chelper\<close>). The Python
  application (\<^verbatim>\<open>src/klippy\<close>) plans moves and calls the library; it is not modelled.

  \<^bold>\<open>The program.\<close> The application appends trapezoidal moves to a queue (\<^verbatim>\<open>trapq.c\<close>). For each stepper the
  solver (\<^verbatim>\<open>itersolve.c\<close>) finds the times at which the position given by its kinematics (\<^verbatim>\<open>kin_*.c\<close>) passes
  the next step. The step compressor (\<^verbatim>\<open>stepcompress.c\<close>) packs the times into \<^verbatim>\<open>queue_step\<close> commands, which
  \<^verbatim>\<open>steppersync.c\<close> merges for one microcontroller and \<^verbatim>\<open>serialqueue.c\<close> sends in numbered, checked blocks from a
  background thread (\<^verbatim>\<open>pollreactor.c\<close>). The firmware finds the blocks in its input (\<^verbatim>\<open>serial_irq.c\<close>,
  \<^verbatim>\<open>command.c\<close>), acknowledges them and runs their commands. \<^verbatim>\<open>stepper.c\<close> queues moves in a pool of nodes
  (\<^verbatim>\<open>basecmd.c\<close>) and steps from timers (\<^verbatim>\<open>sched.c\<close>). A trigger (\<^verbatim>\<open>trsync.c\<close>), fired by an end stop, a load cell
  probe or a timeout, stops steppers; \<^verbatim>\<open>trdispatch.c\<close> of the host passes it to other microcontrollers.

  \<^bold>\<open>Theories of the firmware.\<close> Firmware code takes a state and returns \<open>Ret\<close> with a result and a state,
  \<open>Shutdown\<close> with a message (the \<open>longjmp\<close> of \<^verbatim>\<open>shutdown()\<close>), or \<open>Fault\<close> for undefined behaviour. The state is one
  record, which each theory extends by the variables of its files.
  \<^item> \<open>Prelude\<close>: integer types as words, the outcome type, lemmas on words and lists.
  \<^item> \<open>Vlq\<close>, \<open>Crc\<close>, \<open>Command\<close>: integers on the wire, checksum, parsing, responses and the search for a block of
    \<^verbatim>\<open>command.c\<close> and \<^verbatim>\<open>crc16_ccitt.c\<close>: a block is found exactly when it is a frame (\<open>find_block_sound\<close>), and a
    response with a clamped buffer overruns its block (\<open>response_buffer_overrun\<close>).
  \<^item> \<open>Board\<close>: what the hardware provides. Reads of the clock and of pins come from sources in the state, so that
    theorems hold for all inputs; pin writes and responses are recorded.
  \<^item> \<open>Sched\<close>, \<open>Basecmd\<close>: timers as the linked list of the code, shown to be kept in order
    (\<open>add_timer_keeps_order\<close>, \<open>dispatch_next_timer\<close>), tasks, shutdown, object ids, and the pool of move nodes, of
    which none is lost (\<open>pool_conserved\<close>); a move queue refines a list through the locale \<open>move_fifo\<close>.
  \<^item> \<open>Stepper\<close>: the three step functions of \<^verbatim>\<open>stepper.c\<close> and the commands. \<open>step_times_exact\<close> gives the times of steps and
    of wake-ups.
  \<^item> \<open>Trsync\<close>, \<open>Gpio\<close>, \<open>Sensors\<close>: triggers and end stops (\<open>trigger_stops_steppers\<close>, \<open>endstop_needs_all_samples\<close>), digital and
    PWM outputs with their deadlines (\<open>output_deadline\<close>; the locale \<open>shutdown_outputs\<close>), analog inputs, buttons
    (\<open>buttons_report_changes\<close>) and pulse counters.
  \<^item> \<open>Probe\<close>, \<open>Tmcuart\<close>: \<^verbatim>\<open>load_cell_probe.c\<close> with \<^verbatim>\<open>sos_filter.c\<close> (\<open>probe_stops_steppers\<close>, \<open>watchdog_fires\<close>, and
    \<open>sosfilt_difference_equation\<close>, which compares the filter to the difference equations of its sections) and
    \<^verbatim>\<open>tmcuart.c\<close> (\<open>tmcuart_sends_message\<close>, \<open>tmcuart_receives_message\<close>).
  \<^item> \<open>Console\<close>: routing of commands and the serial port, with bytes arriving and leaving between any two statements
    (\<open>console_task_block\<close>, \<open>console_input_lossless\<close>, \<open>console_output_stream\<close>).

  \<^bold>\<open>Theories of the host.\<close> Host code returns an option: \<open>None\<close> is undefined behaviour or a loop that does not end, so
  that a theorem that it returns is one that it does neither. Signed operations that may overflow are checked.
  \<^item> \<open>Double\<close>: doubles as rationals with every operation rounded to 53 bits, to nearest and ties to even. Infinities,
    NaN and the ends of the exponent range are left out; where C would go on with a NaN the model returns \<open>None\<close>.
  \<^item> \<open>Msgblock\<close>: checking, encoding and clocks of \<^verbatim>\<open>msgblock.c\<close> (\<open>host_accepts_firmware_frames\<close>).
  \<^item> \<open>Compress\<close>, \<open>Stepcompress\<close>, \<open>Steppersync\<close>: \<open>compress_valid\<close> (the search ends and its move fits all steps it covers, for
    up to 46341 steps), \<open>compress_overflow\<close> (from 46342 steps on a signed product overflows), \<open>queue_flush_exact\<close>,
    \<open>append_far_overrun\<close>, and \<open>steppersync_flush_merges\<close>, in which the heap is used through the locale \<open>slot_pool\<close>.
  \<^item> \<open>Trapq\<close>, \<open>Itersolve\<close>, \<open>Generate\<close>, \<open>Kinematics\<close>: \<open>trapq_append_continuous\<close>; \<open>solver_returns\<close>, with a measure on
    the doubles between its bounds, for every callback; \<open>generate_in_turn\<close>; and of the kinematics
    \<open>inactive_move_keeps_position\<close>, \<open>shaper_window\<close>, \<open>update_sk_loses_z\<close>, \<open>pressure_advance_changes\<close> and \<open>dual_flags_stale\<close>.
  \<^item> \<open>Pollreactor\<close>, \<open>Serialqueue\<close>, \<open>Sendqueue\<close>, \<open>Recvqueue\<close>: the event loop, whose lemmas are proved once in the locale
    \<open>reactor_client\<close>, and its client (\<open>background_thread_safe\<close>); what is sent (\<open>command_event_sends\<close>,
    \<open>build_in_clock_order\<close>) and what an acknowledgement does (\<open>ack_moves_window\<close>). Each function is one step under the
    lock of the queue.
  \<^item> \<open>Trdispatch\<close>: a trigger reaches all microcontrollers once (\<open>trigger_reaches_all\<close>).

  \<^bold>\<open>Both sides together.\<close>
  \<^item> \<open>Link\<close>: host and firmware over lines that keep the order of blocks and may lose any of them, as a step relation.
    \<open>link_exactly_once\<close>: commands are run once and in order. \<open>link_recovers\<close>: what was lost gets through by a
    retransmission. The down line carries the blocks in the bytes the host has written.
  \<^item> \<open>Pipeline\<close>: \<open>block_runs_commands\<close> and \<open>steps_reach_motor\<close>, from the flush of a compressor through the blocks and the
    dispatch to the wake-up times of the motor's timer, for the optimized step function and with no timer
    running during the dispatch.

  \<^bold>\<open>Bounds.\<close> A solver range ends within \<open>2\<^sup>2\<^sup>0\<close> seconds (\<open>MAX_RANGE\<close>), so that times differ by less than a nanosecond
  from their rounding. The 64 bit sequence numbers of the host do not wrap: invariants carry a number \<open>n\<close> of rounds still
  to come with \<open>16 * n + 48 < 2\<^sup>6\<^sup>4\<close>. Signals of the load cell filter stay within \<open>2\<^sup>2\<^sup>7\<close>, 4096 grams. Loops
  are recursive functions with a measure, or partial functions shown to return; fuel is used only in \<open>handle_shutdown\<close>,
  for how often shutdown handlers may shut down themselves in a row, which the code does not bound either.

  \<^bold>\<open>Parameters.\<close> The tables that the build generates (commands, responses, strings, call lists), sizes of structs,
  configuration macros and the hardware are arguments or fields of the board; \<^verbatim>\<open>poll\<close>, \<^verbatim>\<open>write\<close>, the system clock,
  and the functions \<^verbatim>\<open>atan2\<close>, \<^verbatim>\<open>cos\<close> and \<^verbatim>\<open>sin\<close> of the host too.

  \<^bold>\<open>Simplifications.\<close> \<^verbatim>\<open>invert_step\<close> of a stepper is a signed byte; an \<^verbatim>\<open>int_fast8_t\<close> may be wider. The conversion of a
  time to a clock wraps where C leaves it undefined. Freeing memory has no effect.

  \<^bold>\<open>Not modelled.\<close> Board and register code, USB and CAN transports of the firmware, bus and sensor drivers, displays and
  LED strips, debug commands, the Python application, and \<^verbatim>\<open>pyhelper.c\<close>, which only reads clocks and formats messages:
  code whose meaning is in hardware, in the system or in another language.
\<close>

end
